(* ===== verification/Prelude.thy ===== *)
theory Prelude
  imports Main "HOL-Library.Monad_Syntax"
begin

section \<open>Shared vocabulary\<close>

text \<open>
  What the components share: addresses, 32-bit wrap-around, the flag bit of a chunk
  header, and the two linked-list predicates.

  A pointer is a natural number and \<open>NULL\<close> is 0. The fields of the C structures are
  functions from addresses to values, one function per field, so that a store through a
  pointer is a function update of that field. A linked list in such a memory is described
  by the list of the addresses of its entries: \<open>dpath\<close> for the doubly linked lists
  (both links of every entry) and \<open>spath\<close> for the singly linked ones. The lemmas on
  inserting and removing an entry are stated over any two link functions that agree
  with the updates at the entries concerned, so that each client proves them by looking
  at its own assignments only.
\<close>

unbundle bit_operations_syntax

type_synonym addr = nat

abbreviation (input) NULL :: addr where
  "NULL \<equiv> 0"

named_theorems link_simps \<open>link fields after the assignments of a list operation\<close>

subsection \<open>Unsigned 32-bit arithmetic\<close>

definition add32 :: "nat \<Rightarrow> nat \<Rightarrow> nat" where
  "add32 a b = (a + b) mod 2 ^ 32"

definition mul32 :: "nat \<Rightarrow> nat \<Rightarrow> nat" where
  "mul32 a b = (a * b) mod 2 ^ 32"

lemma add32_small [simp]: "a + b < 2 ^ 32 \<Longrightarrow> add32 a b = a + b"
  by (simp add: add32_def)

lemma mul32_small [simp]: "a * b < 2 ^ 32 \<Longrightarrow> mul32 a b = a * b"
  by (simp add: mul32_def)

lemma add32_bound: "add32 a b < 2 ^ 32"
  by (simp add: add32_def)

subsection \<open>Bit 31 as a flag\<close>

lemma and_flag_clear: "p < 2 ^ k \<Longrightarrow> p AND 2 ^ k = (0 :: nat)"
  by (simp add: and_exp_eq_0_iff_not_bit bit_iff_odd)

lemma and_flag_set: "p < 2 ^ k \<Longrightarrow> (p + 2 ^ k) AND 2 ^ k = (2 ^ k :: nat)"
proof -
  assume p: "p < 2 ^ k"
  then have "(p + 2 ^ k) div 2 ^ k = 1"
    by (simp add: div_add_self2)
  then have "bit (p + 2 ^ k) k"
    by (simp add: bit_iff_odd)
  then show ?thesis
    by (intro bit_eqI) (auto simp: bit_and_iff bit_exp_iff)
qed

lemma or_flag: "p < 2 ^ k \<Longrightarrow> p OR 2 ^ k = (p + 2 ^ k :: nat)"
  by (metis and_flag_clear disjunctive_add_eq_or)

lemma take_flag_set: "p < 2 ^ k \<Longrightarrow> take_bit k (p + 2 ^ k) = (p :: nat)"
  by (simp add: take_bit_eq_mod)

lemma take_flag_clear: "p < 2 ^ k \<Longrightarrow> take_bit k p = (p :: nat)"
  by (simp add: take_bit_eq_mod)

lemmas flag_simps = and_flag_clear and_flag_set or_flag take_flag_set take_flag_clear

subsection \<open>Doubly linked lists\<close>

text \<open>
  \<open>dpath fl bl p xs n\<close>: the entries \<open>xs\<close> are linked in this order, the back link
  of the first is \<open>p\<close> and the forward link of the last is \<open>n\<close>.
\<close>

fun dpath :: "(addr \<Rightarrow> addr) \<Rightarrow> (addr \<Rightarrow> addr) \<Rightarrow> addr \<Rightarrow> addr list \<Rightarrow> addr \<Rightarrow> bool" where
  "dpath fl bl p [] n = True"
| "dpath fl bl p (x # xs) n \<longleftrightarrow> bl x = p \<and> fl x = hd (xs @ [n]) \<and> dpath fl bl x xs n"

lemma dpath_append:
  "dpath fl bl p (xs @ ys) n \<longleftrightarrow>
     dpath fl bl p xs (hd (ys @ [n])) \<and> dpath fl bl (last (p # xs)) ys n"
proof (induction xs arbitrary: p)
  case Nil
  then show ?case by simp
next
  case (Cons x xs)
  have "hd ((xs @ ys) @ [n]) = hd (xs @ [hd (ys @ [n])])"
    by (cases xs) auto
  with Cons.IH [of x] show ?case by (auto simp: last_ConsR)
qed

lemma dpath_cong:
  assumes "\<And>y. y \<in> set xs \<Longrightarrow> fl' y = fl y" and "\<And>y. y \<in> set xs \<Longrightarrow> bl' y = bl y"
  shows "dpath fl' bl' p xs n = dpath fl bl p xs n"
  using assms by (induction xs arbitrary: p) auto

lemma dpath_upd_fl [simp]: "y \<notin> set xs \<Longrightarrow> dpath (fl(y := v)) bl p xs n = dpath fl bl p xs n"
  by (rule dpath_cong) auto

lemma dpath_upd_bl [simp]: "y \<notin> set xs \<Longrightarrow> dpath fl (bl(y := v)) p xs n = dpath fl bl p xs n"
  by (rule dpath_cong) auto

text \<open>Changing what the list is linked to on its left or on its right.\<close>

lemma dpath_change_prev:
  assumes "dpath fl bl p xs n" and "xs \<noteq> [] \<Longrightarrow> bl' (hd xs) = p'"
    and "\<And>y. y \<in> set (tl xs) \<Longrightarrow> bl' y = bl y" and "\<And>y. y \<in> set xs \<Longrightarrow> fl' y = fl y"
  shows "dpath fl' bl' p' xs n"
proof (cases xs)
  case Nil
  then show ?thesis by simp
next
  case (Cons y ys)
  have "dpath fl' bl' y ys n = dpath fl bl y ys n"
    by (rule dpath_cong) (use assms Cons in auto)
  with assms Cons show ?thesis by simp
qed

lemma dpath_change_next:
  assumes "dpath fl bl p xs n" and "xs \<noteq> [] \<Longrightarrow> fl' (last xs) = n'"
    and "\<And>y. y \<in> set (butlast xs) \<Longrightarrow> fl' y = fl y" and "\<And>y. y \<in> set xs \<Longrightarrow> bl' y = bl y"
  shows "dpath fl' bl' p xs n'"
proof (cases xs rule: rev_cases)
  case Nil
  then show ?thesis by simp
next
  case (snoc ys y)
  have "dpath fl' bl' p ys y = dpath fl bl p ys y"
    by (rule dpath_cong) (use assms snoc in auto)
  with assms snoc show ?thesis by (simp add: dpath_append)
qed

lemma in_set_tl: "distinct xs \<Longrightarrow> y \<in> set (tl xs) \<Longrightarrow> y \<in> set xs \<and> y \<noteq> hd xs"
  by (cases xs) auto

lemma in_butlast_neq_last: "distinct xs \<Longrightarrow> y \<in> set (butlast xs) \<Longrightarrow> y \<noteq> last xs"
  by (cases xs rule: rev_cases) auto

text \<open>
  Inserting \<open>x\<close> between \<open>xs\<close> and \<open>ys\<close>, and removing it: what the assignments of
  the code have to establish.
\<close>

lemma dpath_insert:
  assumes path: "dpath fl bl p (xs @ ys) n" and dist: "distinct (xs @ ys)"
    and x: "fl' x = hd (ys @ [n])" "bl' x = last (p # xs)"
    and left: "xs \<noteq> [] \<Longrightarrow> fl' (last xs) = x"
    and right: "ys \<noteq> [] \<Longrightarrow> bl' (hd ys) = x"
    and fl: "\<And>y. y \<in> set (xs @ ys) \<Longrightarrow> xs = [] \<or> y \<noteq> last xs \<Longrightarrow> fl' y = fl y"
    and bl: "\<And>y. y \<in> set (xs @ ys) \<Longrightarrow> ys = [] \<or> y \<noteq> hd ys \<Longrightarrow> bl' y = bl y"
  shows "dpath fl' bl' p (xs @ x # ys) n"
proof -
  have p1: "dpath fl bl p xs (hd (ys @ [n]))" and p2: "dpath fl bl (last (p # xs)) ys n"
    using path by (auto simp: dpath_append)
  have hdys: "ys = [] \<or> hd ys \<notin> set xs" and lastxs: "xs = [] \<or> last xs \<notin> set ys"
    using dist by (auto simp: disjoint_iff)
  have "dpath fl' bl' p xs x"
    by (rule dpath_change_next [OF p1])
       (use left fl bl dist hdys in \<open>auto dest: in_butlast_neq_last in_set_butlastD\<close>)
  moreover have "dpath fl' bl' x ys n"
    by (rule dpath_change_prev [OF p2])
       (use right fl bl dist lastxs in \<open>auto dest: in_set_tl\<close>)
  ultimately show ?thesis
    using x by (simp add: dpath_append)
qed

lemma dpath_remove:
  assumes path: "dpath fl bl p (xs @ x # ys) n" and dist: "distinct (xs @ x # ys)"
    and left: "xs \<noteq> [] \<Longrightarrow> fl' (last xs) = fl x"
    and right: "ys \<noteq> [] \<Longrightarrow> bl' (hd ys) = bl x"
    and fl: "\<And>y. y \<in> set (xs @ ys) \<Longrightarrow> xs = [] \<or> y \<noteq> last xs \<Longrightarrow> fl' y = fl y"
    and bl: "\<And>y. y \<in> set (xs @ ys) \<Longrightarrow> ys = [] \<or> y \<noteq> hd ys \<Longrightarrow> bl' y = bl y"
  shows "dpath fl' bl' p (xs @ ys) n"
proof -
  have p1: "dpath fl bl p xs x" and p2: "dpath fl bl x ys n"
    and x: "fl x = hd (ys @ [n])" "bl x = last (p # xs)"
    using path by (auto simp: dpath_append)
  have hdys: "ys = [] \<or> hd ys \<notin> set xs" and lastxs: "xs = [] \<or> last xs \<notin> set ys"
    using dist by (auto simp: disjoint_iff)
  have "dpath fl' bl' p xs (hd (ys @ [n]))"
    by (rule dpath_change_next [OF p1])
       (use left fl bl x dist hdys in \<open>auto dest: in_butlast_neq_last in_set_butlastD\<close>)
  moreover have "dpath fl' bl' (last (p # xs)) ys n"
    by (rule dpath_change_prev [OF p2])
       (use right fl bl x dist lastxs in \<open>auto dest: in_set_tl\<close>)
  ultimately show ?thesis
    by (simp add: dpath_append)
qed

lemma dpath_links:
  assumes "dpath fl bl p (xs @ x # ys) n"
  shows "fl x = hd (ys @ [n])" and "bl x = last (p # xs)"
  using assms by (auto simp: dpath_append)

end
