(* ===== verification/Mm.thy ===== *)
theory Mm
  imports Prelude "HOL-Library.Word"
begin

section \<open>The memory manager (mm): state and operations\<close>

text \<open>
  The heap of chunks behind \<open>malloc\<close>, \<open>free\<close>, \<open>realloc\<close>, \<open>memalign\<close>,
  \<open>calloc\<close> and \<open>zalloc\<close>, in the configuration with 32-bit sizes
  (no \<open>CONFIG_MM_SMALL\<close>) and several regions (\<open>CONFIG_MM_REGIONS > 1\<close>).

  The chunk headers are four functions of the address of the chunk, one for each field of
  \<open>struct mm_freenode_s\<close>; \<open>preceding\<close> keeps bit 31, the flag of an allocated chunk,
  as the code does. The bytes of the payloads are \<open>mdata\<close>. \<open>g_nodelist\<close> is the
  address of the array of list heads, whose entry \<open>i\<close> is at \<open>nodelist h i\<close>.
  \<^const>\<open>None\<close> is the result of an operation that does not return normally: a loop that does
  not end, a failed assertion, a wait on the heap semaphore that blocks, or a write beyond an
  array. The theorems show where it does not occur.

  Requested sizes are arbitrary 32-bit numbers, so the arithmetic on them wraps
  (\<^const>\<open>add32\<close>, \<^const>\<open>mul32\<close>); the arithmetic on chunk addresses is on natural
  numbers, the invariant of the next theory keeping every chunk below \<open>2 ^ 32\<close>.
\<close>

subsection \<open>Constants (mm\_internal.h)\<close>

definition MM_MIN_SHIFT :: nat where [simp]: "MM_MIN_SHIFT = 4"
definition MM_MAX_SHIFT :: nat where [simp]: "MM_MAX_SHIFT = 22"
definition MM_MIN_CHUNK :: nat where [simp]: "MM_MIN_CHUNK = 2 ^ MM_MIN_SHIFT"
definition MM_MAX_CHUNK :: nat where [simp]: "MM_MAX_CHUNK = 2 ^ MM_MAX_SHIFT"
definition MM_NNODES :: nat where [simp]: "MM_NNODES = MM_MAX_SHIFT - MM_MIN_SHIFT + 1"
definition SIZEOF_MM_ALLOCNODE :: nat where [simp]: "SIZEOF_MM_ALLOCNODE = 8"
definition SIZEOF_MM_FREENODE :: nat where [simp]: "SIZEOF_MM_FREENODE = 16"
definition MM_ALLOC_BIT :: nat where [simp]: "MM_ALLOC_BIT = 2 ^ 31"

definition MM_GRAN_MASK :: nat where [simp]: "MM_GRAN_MASK = MM_MIN_CHUNK - 1"

text \<open>\<open>not32 m\<close> is the complement of a 32-bit number.\<close>

definition not32 :: "nat \<Rightarrow> nat" where
  "not32 m = 2 ^ 32 - 1 - m"

definition MM_ALIGN_UP :: "nat \<Rightarrow> nat" where
  "MM_ALIGN_UP a = add32 a MM_GRAN_MASK AND not32 MM_GRAN_MASK"

definition MM_ALIGN_DOWN :: "nat \<Rightarrow> nat" where
  "MM_ALIGN_DOWN a = a AND not32 MM_GRAN_MASK"

subsection \<open>State\<close>

record mm_heap =
  nsize :: "addr \<Rightarrow> nat"
  npreceding :: "addr \<Rightarrow> nat"
  nflink :: "addr \<Rightarrow> addr"
  nblink :: "addr \<Rightarrow> addr"
  mdata :: "addr \<Rightarrow> 8 word"
  g_nodelist :: addr
  g_heapsize :: nat
  g_nregions :: nat
  g_heapstart :: "addr list"
  g_heapend :: "addr list"
  g_mm_semaphore :: int
  g_holder :: int
  g_counts_held :: int

definition nodelist :: "mm_heap \<Rightarrow> nat \<Rightarrow> addr" where
  "nodelist h i = g_nodelist h + SIZEOF_MM_FREENODE * i"

abbreviation set_size :: "addr \<Rightarrow> nat \<Rightarrow> mm_heap \<Rightarrow> mm_heap" where
  "set_size a v h \<equiv> h\<lparr>nsize := (nsize h)(a := v)\<rparr>"

abbreviation set_preceding :: "addr \<Rightarrow> nat \<Rightarrow> mm_heap \<Rightarrow> mm_heap" where
  "set_preceding a v h \<equiv> h\<lparr>npreceding := (npreceding h)(a := v)\<rparr>"

abbreviation set_nflink :: "addr \<Rightarrow> addr \<Rightarrow> mm_heap \<Rightarrow> mm_heap" where
  "set_nflink a v h \<equiv> h\<lparr>nflink := (nflink h)(a := v)\<rparr>"

abbreviation set_nblink :: "addr \<Rightarrow> addr \<Rightarrow> mm_heap \<Rightarrow> mm_heap" where
  "set_nblink a v h \<equiv> h\<lparr>nblink := (nblink h)(a := v)\<rparr>"

subsection \<open>The heap semaphore (mm\_sem.c)\<close>

text \<open>
  \<open>pid\<close> is what \<open>getpid()\<close> returns. A \<open>sem_wait\<close> on a count of zero or less blocks
  the caller; an interrupted wait is retried by the code, so it is the same as waiting on.
\<close>

definition mm_seminitialize :: "mm_heap \<Rightarrow> mm_heap" where
  "mm_seminitialize h = h\<lparr>g_mm_semaphore := 1, g_holder := - 1, g_counts_held := 0\<rparr>"

definition mm_trysemaphore :: "int \<Rightarrow> mm_heap \<Rightarrow> bool \<times> mm_heap" where
  "mm_trysemaphore pid h =
     (if g_holder h = pid then (True, h\<lparr>g_counts_held := g_counts_held h + 1\<rparr>)
      else if g_mm_semaphore h > 0
      then (True, h\<lparr>g_mm_semaphore := g_mm_semaphore h - 1, g_holder := pid, g_counts_held := 1\<rparr>)
      else (False, h))"

definition mm_takesemaphore :: "int \<Rightarrow> mm_heap \<Rightarrow> mm_heap option" where
  "mm_takesemaphore pid h =
     (if g_holder h = pid then Some (h\<lparr>g_counts_held := g_counts_held h + 1\<rparr>)
      else if g_mm_semaphore h > 0
      then Some (h\<lparr>g_mm_semaphore := g_mm_semaphore h - 1, g_holder := pid, g_counts_held := 1\<rparr>)
      else None)"

definition mm_givesemaphore :: "int \<Rightarrow> mm_heap \<Rightarrow> mm_heap option" where
  "mm_givesemaphore pid h =
     (if g_holder h \<noteq> pid then None
      else if g_counts_held h > 1 then Some (h\<lparr>g_counts_held := g_counts_held h - 1\<rparr>)
      else Some (h\<lparr>g_holder := - 1, g_counts_held := 0, g_mm_semaphore := g_mm_semaphore h + 1\<rparr>))"

subsection \<open>The free list\<close>

function mm_size2ndx_loop :: "nat \<Rightarrow> nat \<Rightarrow> nat" where
  "mm_size2ndx_loop ndx sz =
     (if sz > 1 then mm_size2ndx_loop (ndx + 1) (drop_bit 1 sz) else ndx)"
  by pat_completeness auto
termination
  by (relation "measure snd") (auto simp: drop_bit_Suc)

declare mm_size2ndx_loop.simps [simp del]

definition mm_size2ndx :: "nat \<Rightarrow> nat" where
  "mm_size2ndx sz =
     (if sz \<ge> MM_MAX_CHUNK then MM_NNODES - 1
      else mm_size2ndx_loop 0 (drop_bit MM_MIN_SHIFT sz))"

partial_function (option) mm_findslot :: "mm_heap \<Rightarrow> nat \<Rightarrow> addr \<Rightarrow> addr \<Rightarrow> (addr \<times> addr) option" where
  "mm_findslot h sz prev nxt =
     (if nxt \<noteq> NULL \<and> nsize h nxt \<noteq> 0 \<and> nsize h nxt < sz
      then mm_findslot h sz nxt (nflink h nxt)
      else Some (prev, nxt))"

definition mm_addfreechunk :: "addr \<Rightarrow> mm_heap \<Rightarrow> mm_heap option" where
  "mm_addfreechunk node h = do {
     let ndx = mm_size2ndx (nsize h node);
     (prev, nxt) \<leftarrow> mm_findslot h (nsize h node) (nodelist h ndx) (nflink h (nodelist h ndx));
     let h = set_nflink prev node h;
     let h = set_nblink node prev h;
     let h = set_nflink node nxt h;
     Some (if nxt \<noteq> NULL then set_nblink nxt node h else h)
   }"

text \<open>
  The removal of a node from the free list, the same statements in every operation:
  \<^verbatim>\<open>DEBUGASSERT(node->blink); node->blink->flink = node->flink;
  if (node->flink) node->flink->blink = node->blink;\<close>
\<close>

definition mm_unlink :: "addr \<Rightarrow> mm_heap \<Rightarrow> mm_heap option" where
  "mm_unlink node h =
     (if nblink h node = NULL then None
      else let h = set_nflink (nblink h node) (nflink h node) h
           in Some (if nflink h node \<noteq> NULL then set_nblink (nflink h node) (nblink h node) h else h))"

subsection \<open>Initialization (mm\_initialize.c)\<close>

definition sub32 :: "nat \<Rightarrow> nat \<Rightarrow> nat" where
  "sub32 a b = (a + (2 ^ 32 - b)) mod 2 ^ 32"

definition mm_addregion :: "addr \<Rightarrow> nat \<Rightarrow> mm_heap \<Rightarrow> mm_heap option" where
  "mm_addregion heapstart heapsize h =
     (let IDX = g_nregions h;
          heapbase = MM_ALIGN_UP heapstart;
          heapend = MM_ALIGN_DOWN (add32 heapstart heapsize);
          heapsize = sub32 heapend heapbase
      in if IDX \<ge> length (g_heapstart h) \<or> IDX \<ge> length (g_heapend h) then None
         else
           let h = h\<lparr>g_heapsize := add32 (g_heapsize h) heapsize\<rparr>;
               h = h\<lparr>g_heapstart := (g_heapstart h)[IDX := heapbase]\<rparr>;
               h = set_size heapbase SIZEOF_MM_ALLOCNODE h;
               h = set_preceding heapbase MM_ALLOC_BIT h;
               node = add32 heapbase SIZEOF_MM_ALLOCNODE;
               h = set_size node (sub32 heapsize (2 * SIZEOF_MM_ALLOCNODE)) h;
               h = set_preceding node SIZEOF_MM_ALLOCNODE h;
               tailnode = sub32 heapend SIZEOF_MM_ALLOCNODE;
               h = h\<lparr>g_heapend := (g_heapend h)[IDX := tailnode]\<rparr>;
               h = set_size tailnode SIZEOF_MM_ALLOCNODE h;
               h = set_preceding tailnode (nsize h node OR MM_ALLOC_BIT) h;
               h = h\<lparr>g_nregions := g_nregions h + 1\<rparr>
           in mm_addfreechunk node h)"

definition mm_clear_node :: "nat \<Rightarrow> mm_heap \<Rightarrow> mm_heap" where
  "mm_clear_node i h =
     (let a = nodelist h i
      in set_size a 0 (set_preceding a 0 (set_nflink a NULL (set_nblink a NULL h))))"

definition mm_link_node :: "nat \<Rightarrow> mm_heap \<Rightarrow> mm_heap" where
  "mm_link_node i h =
     set_nblink (nodelist h i) (nodelist h (i - 1))
       (set_nflink (nodelist h (i - 1)) (nodelist h i) h)"

definition mm_initialize :: "addr \<Rightarrow> nat \<Rightarrow> mm_heap \<Rightarrow> mm_heap option" where
  "mm_initialize heapstart heapsize h =
     (let h = h\<lparr>g_heapsize := 0, g_nregions := 0\<rparr>;
          h = fold mm_clear_node [0..<MM_NNODES] h;
          h = fold mm_link_node [1..<MM_NNODES] h;
          h = mm_seminitialize h
      in mm_addregion heapstart heapsize h)"

subsection \<open>malloc and free\<close>

text \<open>\<^verbatim>\<open>for (node = g_nodelist[ndx].flink; node && node->size < size; node = node->flink);\<close>\<close>

partial_function (option) mm_search :: "mm_heap \<Rightarrow> nat \<Rightarrow> addr \<Rightarrow> addr option" where
  "mm_search h sz node =
     (if node \<noteq> NULL \<and> nsize h node < sz then mm_search h sz (nflink h node) else Some node)"

text \<open>
  Taking a free chunk off the list for a request of \<open>sz\<close> bytes, the remainder going back
  to the list when it has room for the links of a free chunk.
\<close>

definition malloc_take :: "addr \<Rightarrow> nat \<Rightarrow> mm_heap \<Rightarrow> mm_heap option" where
  "malloc_take node sz h = do {
     h \<leftarrow> mm_unlink node h;
     let remaining = nsize h node - sz;
     h \<leftarrow> (if remaining \<ge> SIZEOF_MM_FREENODE
          then let nxt = node + nsize h node;
                   remainder = node + sz;
                   h = set_size remainder remaining h;
                   h = set_preceding remainder sz h;
                   h = set_size node sz h;
                   h = set_preceding nxt (remaining OR (npreceding h nxt AND MM_ALLOC_BIT)) h
               in mm_addfreechunk remainder h
          else Some h);
     Some (set_preceding node (npreceding h node OR MM_ALLOC_BIT) h)
   }"

definition malloc :: "int \<Rightarrow> nat \<Rightarrow> mm_heap \<Rightarrow> (addr \<times> mm_heap) option" where
  "malloc pid sz h =
     (if sz \<le> 0 then Some (NULL, h)
      else do {
        let sz = MM_ALIGN_UP (add32 sz SIZEOF_MM_ALLOCNODE);
        h \<leftarrow> mm_takesemaphore pid h;
        let ndx = (if sz \<ge> MM_MAX_CHUNK then MM_NNODES - 1 else mm_size2ndx sz);
        node \<leftarrow> mm_search h sz (nflink h (nodelist h ndx));
        (ret, h) \<leftarrow>
          (if node \<noteq> NULL
           then do {
             h \<leftarrow> malloc_take node sz h;
             Some (node + SIZEOF_MM_ALLOCNODE, h)
           }
           else Some (NULL, h));
        h \<leftarrow> mm_givesemaphore pid h;
        Some (ret, h)
      })"

text \<open>
  The two merges of \<open>free\<close>: with the following chunk, the result being the chunk after
  the merged one, and with the preceding chunk, the result being the chunk that is left.
\<close>

definition free_merge_next :: "addr \<Rightarrow> mm_heap \<Rightarrow> (addr \<times> mm_heap) option" where
  "free_merge_next node h =
     (let nxt = node + nsize h node
      in if npreceding h nxt AND MM_ALLOC_BIT = 0
         then do {
           let andbeyond = nxt + nsize h nxt;
           h \<leftarrow> mm_unlink nxt h;
           let h = set_size node (nsize h node + nsize h nxt) h;
           let h = set_preceding andbeyond
                     (nsize h node OR (npreceding h andbeyond AND MM_ALLOC_BIT)) h;
           Some (andbeyond, h)
         }
         else Some (nxt, h))"

definition free_merge_prev :: "addr \<Rightarrow> addr \<Rightarrow> mm_heap \<Rightarrow> (addr \<times> mm_heap) option" where
  "free_merge_prev node nxt h =
     (let prev = node - npreceding h node
      in if npreceding h prev AND MM_ALLOC_BIT = 0
         then do {
           h \<leftarrow> mm_unlink prev h;
           let h = set_size prev (nsize h prev + nsize h node) h;
           let h = set_preceding nxt (nsize h prev OR (npreceding h nxt AND MM_ALLOC_BIT)) h;
           Some (prev, h)
         }
         else Some (node, h))"

definition free :: "int \<Rightarrow> addr \<Rightarrow> mm_heap \<Rightarrow> mm_heap option" where
  "free pid mem h =
     (if mem = NULL then Some h
      else do {
        h \<leftarrow> mm_takesemaphore pid h;
        let node = mem - SIZEOF_MM_ALLOCNODE;
        let h = set_preceding node (take_bit 31 (npreceding h node)) h;
        (nxt, h) \<leftarrow> free_merge_next node h;
        (node, h) \<leftarrow> free_merge_prev node nxt h;
        h \<leftarrow> mm_addfreechunk node h;
        mm_givesemaphore pid h
      })"

subsection \<open>Copying and filling bytes (lib\_memcpy.c, lib\_memset.c)\<close>

fun memcpy :: "addr \<Rightarrow> addr \<Rightarrow> nat \<Rightarrow> (addr \<Rightarrow> 8 word) \<Rightarrow> (addr \<Rightarrow> 8 word)" where
  "memcpy dest src 0 d = d"
| "memcpy dest src (Suc n) d = memcpy (dest + 1) (src + 1) n (d(dest := d src))"

fun memset :: "addr \<Rightarrow> 8 word \<Rightarrow> nat \<Rightarrow> (addr \<Rightarrow> 8 word) \<Rightarrow> (addr \<Rightarrow> 8 word)" where
  "memset s c 0 d = d"
| "memset s c (Suc n) d = memset (s + 1) c n (d(s := c))"

subsection \<open>Shrinking a chunk (mm\_shrinkchunk.c)\<close>

definition mm_shrinkchunk :: "addr \<Rightarrow> nat \<Rightarrow> mm_heap \<Rightarrow> mm_heap option" where
  "mm_shrinkchunk node sz h =
     (let nxt = node + nsize h node
      in if npreceding h nxt AND MM_ALLOC_BIT = 0
         then do {
           let andbeyond = nxt + nsize h nxt;
           h \<leftarrow> mm_unlink nxt h;
           let newnode = node + sz;
           let h = set_size newnode (nsize h nxt + nsize h node - sz) h;
           let h = set_preceding newnode sz h;
           let h = set_size node sz h;
           let h = set_preceding andbeyond
                     (nsize h newnode OR (npreceding h andbeyond AND MM_ALLOC_BIT)) h;
           mm_addfreechunk newnode h
         }
         else if nsize h node \<ge> sz + SIZEOF_MM_FREENODE
         then let newnode = node + sz;
                  h = set_size newnode (nsize h node - sz) h;
                  h = set_preceding newnode sz h;
                  h = set_size node sz h;
                  h = set_preceding nxt (nsize h newnode OR MM_ALLOC_BIT) h
              in mm_addfreechunk newnode h
         else Some h)"

subsection \<open>realloc\<close>

text \<open>How much of the preceding and of the following free chunk is taken.\<close>

definition realloc_takes :: "nat \<Rightarrow> nat \<Rightarrow> nat \<Rightarrow> nat \<times> nat" where
  "realloc_takes needed prevsize nextsize =
     (let (takeprev, takenext, needed) =
        (if prevsize > 0 \<and> (nextsize \<ge> prevsize \<or> nextsize \<le> 0)
         then if needed > prevsize then (prevsize, needed - prevsize, 0) else (needed, 0, 0)
         else (0, 0, needed))
      in if nextsize > 0 \<and> needed > 0
         then if needed > nextsize then (needed - nextsize, nextsize) else (0, needed)
         else (takeprev, takenext))"

text \<open>
  Extending into the preceding chunk: the new heap, the new \<open>oldnode\<close>, \<open>oldsize\<close> and
  \<open>newmem\<close>. The copy moves the payload down with the extended size, as the code has it.
\<close>

definition realloc_extend_prev ::
  "nat \<Rightarrow> nat \<Rightarrow> addr \<Rightarrow> addr \<Rightarrow> addr \<Rightarrow> addr \<Rightarrow> nat \<Rightarrow> mm_heap \<Rightarrow> (addr \<times> nat \<times> addr \<times> mm_heap) option" where
  "realloc_extend_prev takeprev prevsize prev nxt oldnode oldmem oldsize h = do {
     h \<leftarrow> mm_unlink prev h;
     let newnode = oldnode - takeprev;
     h \<leftarrow> (if takeprev < prevsize
          then let h = set_size prev (nsize h prev - takeprev) h;
                   h = set_size newnode (oldsize + takeprev) h;
                   h = set_preceding newnode (nsize h prev OR MM_ALLOC_BIT) h;
                   h = set_preceding nxt (nsize h newnode OR (npreceding h nxt AND MM_ALLOC_BIT)) h
               in mm_addfreechunk prev h
          else let h = set_size newnode (nsize h newnode + oldsize) h;
                   h = set_preceding newnode (npreceding h newnode OR MM_ALLOC_BIT) h
               in Some (set_preceding nxt (nsize h newnode OR (npreceding h nxt AND MM_ALLOC_BIT)) h));
     let oldsize = nsize h newnode;
     let newmem = newnode + SIZEOF_MM_ALLOCNODE;
     Some (newnode, oldsize, newmem,
           h\<lparr>mdata := memcpy newmem oldmem (oldsize - SIZEOF_MM_ALLOCNODE) (mdata h)\<rparr>)
   }"

definition realloc_extend_next ::
  "nat \<Rightarrow> nat \<Rightarrow> addr \<Rightarrow> addr \<Rightarrow> nat \<Rightarrow> mm_heap \<Rightarrow> mm_heap option" where
  "realloc_extend_next takenext nextsize nxt oldnode oldsize h = do {
     let andbeyond = nxt + nextsize;
     h \<leftarrow> mm_unlink nxt h;
     let h = set_size oldnode (oldsize + takenext) h;
     let newnode = oldnode + nsize h oldnode;
     if takenext < nextsize
     then let h = set_size newnode (nextsize - takenext) h;
              h = set_preceding newnode (nsize h oldnode) h;
              h = set_preceding andbeyond
                    (nsize h newnode OR (npreceding h andbeyond AND MM_ALLOC_BIT)) h
          in mm_addfreechunk newnode h
     else Some (set_preceding andbeyond
                  (nsize h oldnode OR (npreceding h andbeyond AND MM_ALLOC_BIT)) h)
   }"

definition realloc_extend ::
  "nat \<Rightarrow> nat \<Rightarrow> nat \<Rightarrow> nat \<Rightarrow> addr \<Rightarrow> addr \<Rightarrow> addr \<Rightarrow> addr \<Rightarrow> nat \<Rightarrow> mm_heap \<Rightarrow> (addr \<times> mm_heap) option" where
  "realloc_extend takeprev takenext prevsize nextsize prev nxt oldnode oldmem oldsize h = do {
     (oldnode, oldsize, newmem, h) \<leftarrow>
       (if takeprev > 0
        then realloc_extend_prev takeprev prevsize prev nxt oldnode oldmem oldsize h
        else Some (oldnode, oldsize, oldmem, h));
     h \<leftarrow> (if takenext > 0 then realloc_extend_next takenext nextsize nxt oldnode oldsize h
          else Some h);
     Some (newmem, h)
   }"

definition realloc :: "int \<Rightarrow> addr \<Rightarrow> nat \<Rightarrow> mm_heap \<Rightarrow> (addr \<times> mm_heap) option" where
  "realloc pid oldmem sz h =
     (if oldmem = NULL then malloc pid sz h
      else if sz \<le> 0 then do { h \<leftarrow> free pid oldmem h; Some (NULL, h) }
      else do {
        let sz = MM_ALIGN_UP (add32 sz SIZEOF_MM_ALLOCNODE);
        let oldnode = oldmem - SIZEOF_MM_ALLOCNODE;
        h \<leftarrow> mm_takesemaphore pid h;
        let oldsize = nsize h oldnode;
        if sz \<le> oldsize
        then do {
          h \<leftarrow> (if sz < oldsize then mm_shrinkchunk oldnode sz h else Some h);
          h \<leftarrow> mm_givesemaphore pid h;
          Some (oldmem, h)
        }
        else do {
          let nxt = oldnode + nsize h oldnode;
          let nextsize = (if npreceding h nxt AND MM_ALLOC_BIT = 0 then nsize h nxt else 0);
          let prev = oldnode - take_bit 31 (npreceding h oldnode);
          let prevsize = (if npreceding h prev AND MM_ALLOC_BIT = 0 then nsize h prev else 0);
          if nextsize + prevsize + oldsize \<ge> sz
          then do {
            let (takeprev, takenext) = realloc_takes (sz - oldsize) prevsize nextsize;
            (newmem, h) \<leftarrow> realloc_extend takeprev takenext prevsize nextsize prev nxt oldnode oldmem oldsize h;
            h \<leftarrow> mm_givesemaphore pid h;
            Some (newmem, h)
          }
          else do {
            h \<leftarrow> mm_givesemaphore pid h;
            (newmem, h) \<leftarrow> malloc pid sz h;
            if newmem \<noteq> NULL
            then do {
              let h = h\<lparr>mdata := memcpy newmem oldmem oldsize (mdata h)\<rparr>;
              h \<leftarrow> free pid oldmem h;
              Some (newmem, h)
            }
            else Some (newmem, h)
          }
        }
      })"

subsection \<open>memalign, zalloc, calloc\<close>

text \<open>
  Aligning the chunk at \<open>node\<close>: the part before the aligned address becomes a free chunk of
  its own. The result is the aligned address, its chunk and the room after its header.
\<close>

definition memalign_split ::
  "nat \<Rightarrow> addr \<Rightarrow> nat \<Rightarrow> mm_heap \<Rightarrow> (addr \<times> addr \<times> nat \<times> mm_heap) option" where
  "memalign_split alignment rawchunk allocsize h =
     (let mask = alignment - 1;
          node = rawchunk - SIZEOF_MM_ALLOCNODE;
          alignedchunk = add32 rawchunk mask AND not32 mask
      in if alignedchunk \<noteq> rawchunk
         then do {
           let nxt = node + nsize h node;
           _ \<leftarrow> (if alignedchunk \<ge> rawchunk + 8 then Some () else None);
           let newnode = alignedchunk - SIZEOF_MM_ALLOCNODE;
           let precedingsize = newnode - node;
           let (alignedchunk, newnode, precedingsize) =
             (if precedingsize < SIZEOF_MM_FREENODE
              then (alignedchunk + alignment, alignedchunk + alignment - SIZEOF_MM_ALLOCNODE,
                    alignedchunk + alignment - SIZEOF_MM_ALLOCNODE - node)
              else (alignedchunk, newnode, precedingsize));
           let h = set_size newnode (nxt - newnode) h;
           let h = set_preceding newnode (precedingsize OR MM_ALLOC_BIT) h;
           let h = set_size node precedingsize h;
           let h = set_preceding node (take_bit 31 (npreceding h node)) h;
           let h = set_preceding nxt (nsize h newnode OR (npreceding h nxt AND MM_ALLOC_BIT)) h;
           let allocsize = nsize h newnode - SIZEOF_MM_ALLOCNODE;
           h \<leftarrow> mm_addfreechunk node h;
           Some (alignedchunk, newnode, allocsize, h)
         }
         else Some (alignedchunk, node, allocsize, h))"

definition memalign :: "int \<Rightarrow> nat \<Rightarrow> nat \<Rightarrow> mm_heap \<Rightarrow> (addr \<times> mm_heap) option" where
  "memalign pid alignment sz h =
     (if alignment \<le> MM_MIN_CHUNK then malloc pid sz h
      else do {
        let sz = MM_ALIGN_UP sz;
        let allocsize = add32 sz (mul32 2 alignment);
        (rawchunk, h) \<leftarrow> malloc pid allocsize h;
        if rawchunk = 0 then Some (NULL, h)
        else do {
          h \<leftarrow> mm_takesemaphore pid h;
          (alignedchunk, node, allocsize, h) \<leftarrow> memalign_split alignment rawchunk allocsize h;
          h \<leftarrow> (if allocsize > sz then mm_shrinkchunk node (sz + SIZEOF_MM_ALLOCNODE) h else Some h);
          h \<leftarrow> mm_givesemaphore pid h;
          Some (alignedchunk, h)
        }
      })"

definition zalloc :: "int \<Rightarrow> nat \<Rightarrow> mm_heap \<Rightarrow> (addr \<times> mm_heap) option" where
  "zalloc pid sz h = do {
     (alloc, h) \<leftarrow> malloc pid sz h;
     Some (if alloc \<noteq> NULL then (alloc, h\<lparr>mdata := memset alloc 0 sz (mdata h)\<rparr>) else (alloc, h))
   }"

definition calloc :: "int \<Rightarrow> nat \<Rightarrow> nat \<Rightarrow> mm_heap \<Rightarrow> (addr \<times> mm_heap) option" where
  "calloc pid n elem_size h =
     (if n > 0 \<and> elem_size > 0 then zalloc pid (mul32 n elem_size) h else Some (NULL, h))"

subsection \<open>mallinfo\<close>

record mallinfo =
  arena :: nat
  ordblks :: nat
  mxordblk :: nat
  uordblks :: nat
  fordblks :: nat

text \<open>One region: the walk from the first to the last chunk.\<close>

partial_function (option) mallinfo_region ::
  "mm_heap \<Rightarrow> addr \<Rightarrow> addr \<Rightarrow> mallinfo \<Rightarrow> (addr \<times> mallinfo) option" where
  "mallinfo_region h node heapend i =
     (if node < heapend
      then mallinfo_region h (node + nsize h node) heapend
             (if npreceding h node AND MM_ALLOC_BIT \<noteq> 0
              then i\<lparr>uordblks := uordblks i + nsize h node\<rparr>
              else i\<lparr>ordblks := ordblks i + 1, fordblks := fordblks i + nsize h node,
                     mxordblk := max (mxordblk i) (nsize h node)\<rparr>)
      else Some (node, i))"

fun mallinfo_regions :: "mm_heap \<Rightarrow> nat list \<Rightarrow> mallinfo \<Rightarrow> mallinfo option" where
  "mallinfo_regions h [] i = Some i"
| "mallinfo_regions h (region # rs) i = do {
     (node, i) \<leftarrow> mallinfo_region h (g_heapstart h ! region) (g_heapend h ! region) i;
     if node = g_heapend h ! region
     then mallinfo_regions h rs (i\<lparr>uordblks := uordblks i + SIZEOF_MM_ALLOCNODE\<rparr>)
     else None
   }"

definition mallinfo :: "mm_heap \<Rightarrow> mallinfo option" where
  "mallinfo h = do {
     i \<leftarrow> mallinfo_regions h [0..<g_nregions h]
            \<lparr>arena = 0, ordblks = 0, mxordblk = 0, uordblks = 0, fordblks = 0\<rparr>;
     if uordblks i + fordblks i = g_heapsize h then Some (i\<lparr>arena := g_heapsize h\<rparr>) else None
   }"

end
