(* ===== verification/Mm_Freelist.thy ===== *)
theory Mm_Freelist
  imports Mm
begin

section \<open>The free list of the memory manager\<close>

text \<open>
  All free chunks are on one doubly linked list, together with the \<open>MM_NNODES\<close> entries of
  \<open>g_nodelist\<close>, which have size zero and split the list by powers of two. The invariant
  \<open>mm_flist\<close> says that the list is linked correctly, starts at the first entry, and is
  sorted by \<open>fkey\<close>: twice the size plus one for a chunk, twice the lower bound of its
  class for an entry, so that an entry stands before the chunks of its class.
  The lemmas give the effect of the searches, of \<open>mm_unlink\<close> and of
  \<open>mm_addfreechunk\<close> on the list.
\<close>

subsection \<open>Sizes and classes\<close>

lemma bit_not32_mask: "k \<le> 32 \<Longrightarrow> bit (not32 (2 ^ k - 1)) n \<longleftrightarrow> k \<le> n \<and> n < 32"
proof -
  assume k: "k \<le> 32"
  have "not32 (2 ^ k - 1) = 2 ^ 32 - 2 ^ k"
    using one_le_power [of "2::nat" k] by (simp add: not32_def)
  also have "\<dots> = push_bit k (mask (32 - k))"
    using k by (simp add: push_bit_eq_mult mask_eq_exp_minus_1 left_diff_distrib' flip: power_add)
  finally show ?thesis
    using k by (auto simp: bit_push_bit_iff bit_mask_iff)
qed

lemma and_not32_mask:
  assumes "a < 2 ^ 32" and "k \<le> 32"
  shows "a AND not32 (2 ^ k - 1) = a - a mod 2 ^ k"
proof -
  have hi: "bit a n \<Longrightarrow> n < 32" for n
    using assms(1) by (metis bit_take_bit_iff take_bit_nat_eq_self)
  have "a AND not32 (2 ^ k - 1) = push_bit k (drop_bit k a)"
    by (rule bit_eqI) (use hi in \<open>auto simp: bit_and_iff bit_not32_mask [OF assms(2), unfolded One_nat_def] bit_push_bit_iff bit_drop_bit_eq\<close>)
  also have "\<dots> = a div 2 ^ k * 2 ^ k"
    by (simp add: push_bit_eq_mult drop_bit_eq_div)
  also have "\<dots> = a - a mod 2 ^ k"
    by (metis minus_mod_eq_div_mult)
  finally show ?thesis .
qed

lemma align_down: "a < 2 ^ 32 \<Longrightarrow> MM_ALIGN_DOWN a = a - a mod 16"
  using and_not32_mask [of a 4] by (simp add: MM_ALIGN_DOWN_def)

lemma align_up: "a + 15 < 2 ^ 32 \<Longrightarrow> MM_ALIGN_UP a = (a + 15) - (a + 15) mod 16"
  using and_not32_mask [of "a + 15" 4] by (simp add: MM_ALIGN_UP_def)

lemma align_up_bounds:
  assumes "a + 15 < 2 ^ 32"
  shows "a \<le> MM_ALIGN_UP a" and "MM_ALIGN_UP a < a + 16" and "16 dvd MM_ALIGN_UP a"
proof -
  show "a \<le> MM_ALIGN_UP a" and "MM_ALIGN_UP a < a + 16"
    using align_up [OF assms] by (presburger)+
  show "16 dvd MM_ALIGN_UP a"
    unfolding align_up [OF assms] by (simp add: dvd_minus_mod)
qed

lemma size2ndx_loop: "0 < s \<Longrightarrow> 2 ^ (mm_size2ndx_loop n s - n) \<le> s \<and> s < 2 ^ Suc (mm_size2ndx_loop n s - n)
     \<and> n \<le> mm_size2ndx_loop n s"
proof (induction n s rule: mm_size2ndx_loop.induct)
  case (1 n s)
  show ?case
  proof (cases "1 < s")
    case True
    let ?r = "mm_size2ndx_loop (n + 1) (s div 2)"
    have r: "mm_size2ndx_loop n s = ?r"
      using True by (subst mm_size2ndx_loop.simps) (simp add: drop_bit_Suc)
    have IH: "2 ^ (?r - (n + 1)) \<le> s div 2" "s div 2 < 2 ^ Suc (?r - (n + 1))" "n + 1 \<le> ?r"
      using "1.IH" True by (auto simp: drop_bit_Suc)
    have e: "?r - n = Suc (?r - (n + 1))"
      using IH(3) by simp
    show ?thesis
      unfolding r e using IH by (simp, linarith)
  next
    case False
    with "1.prems" have "s = 1" by simp
    then show ?thesis by (simp add: mm_size2ndx_loop.simps [of n "Suc 0"])
  qed
qed

lemma size2ndx_bounds:
  assumes "16 \<le> s"
  shows "mm_size2ndx s \<le> 18" and "2 ^ (mm_size2ndx s + 4) \<le> s"
    and "mm_size2ndx s < 18 \<Longrightarrow> s < 2 ^ (mm_size2ndx s + 5)"
proof -
  have "mm_size2ndx s \<le> 18 \<and> 2 ^ (mm_size2ndx s + 4) \<le> s \<and> (mm_size2ndx s < 18 \<longrightarrow> s < 2 ^ (mm_size2ndx s + 5))"
  proof (cases "s \<ge> 2 ^ 22")
    case True
    then show ?thesis by (simp add: mm_size2ndx_def)
  next
    case False
    let ?r = "mm_size2ndx_loop 0 (s div 16)"
    have r: "mm_size2ndx s = ?r"
      using False by (simp add: mm_size2ndx_def drop_bit_eq_div)
    have "0 < s div 16"
      using assms by simp
    then have b: "2 ^ ?r \<le> s div 16" "s div 16 < 2 ^ Suc ?r"
      using size2ndx_loop [of "s div 16" 0] by auto
    have lo: "2 ^ (?r + 4) \<le> s" and hi: "s < 2 ^ (?r + 5)"
      using b by (auto simp: power_add)
    have "(2::nat) ^ ?r < 2 ^ 18"
      using b(1) False by simp
    then have "?r < 18"
      by (metis nat_power_less_imp_less zero_less_numeral)
    with lo hi show ?thesis by (simp add: r)
  qed
  then show "mm_size2ndx s \<le> 18" and "2 ^ (mm_size2ndx s + 4) \<le> s"
    and "mm_size2ndx s < 18 \<Longrightarrow> s < 2 ^ (mm_size2ndx s + 5)" by auto
qed

subsection \<open>The list and its order\<close>

definition heads :: "mm_heap \<Rightarrow> addr set" where
  "heads h = nodelist h ` {..<MM_NNODES}"

definition is_head :: "mm_heap \<Rightarrow> addr \<Rightarrow> bool" where
  "is_head h x \<longleftrightarrow> g_nodelist h \<le> x \<and> x < g_nodelist h + 16 * 19 \<and> 16 dvd x - g_nodelist h"

definition fkey :: "mm_heap \<Rightarrow> addr \<Rightarrow> nat" where
  "fkey h x = (if is_head h x then 2 ^ ((x - g_nodelist h) div 16 + 5) else 2 * nsize h x + 1)"

definition mm_flist :: "mm_heap \<Rightarrow> addr list \<Rightarrow> bool" where
  "mm_flist h fl \<longleftrightarrow> dpath (nflink h) (nblink h) NULL fl NULL \<and> distinct fl \<and> NULL \<notin> set fl \<and>
     heads h \<subseteq> set fl \<and> sorted (map (fkey h) fl) \<and>
     (\<forall>x\<in>set fl. if is_head h x then nsize h x = 0 else 16 \<le> nsize h x)"

lemma is_head_nodelist [simp]: "i < 19 \<Longrightarrow> is_head h (nodelist h i)"
  by (simp add: is_head_def nodelist_def)

lemma is_head_iff: "is_head h x \<longleftrightarrow> (\<exists>i<19. x = nodelist h i)"
proof
  assume "is_head h x"
  then have "x = nodelist h ((x - g_nodelist h) div 16)" and "(x - g_nodelist h) div 16 < 19"
    by (auto simp: is_head_def nodelist_def)
  then show "\<exists>i<19. x = nodelist h i" by blast
qed auto

lemma heads_iff: "x \<in> heads h \<longleftrightarrow> is_head h x"
  by (auto simp: heads_def is_head_iff)

lemma fkey_nodelist: "i < 19 \<Longrightarrow> fkey h (nodelist h i) = 2 ^ (i + 5)"
  by (simp add: fkey_def) (simp add: nodelist_def)

lemma nodelist_inj [simp]: "nodelist h i = nodelist h j \<longleftrightarrow> i = j"
  by (simp add: nodelist_def)

lemma fkey_chunk: "\<not> is_head h x \<Longrightarrow> fkey h x = 2 * nsize h x + 1"
  by (simp add: fkey_def)

lemma mm_flist_split:
  assumes "mm_flist h fl" and "i < 19"
  obtains as bs where "fl = as @ nodelist h i # bs"
  using assms split_list [of "nodelist h i" fl] by (auto simp: mm_flist_def heads_def)

lemma mm_flist_frame:
  assumes "mm_flist h fl" and "nflink h' = nflink h" and "nblink h' = nblink h"
    and "g_nodelist h' = g_nodelist h" and "\<And>x. x \<in> set fl \<Longrightarrow> nsize h' x = nsize h x"
  shows "mm_flist h' fl"
proof -
  have [simp]: "nodelist h' = nodelist h" "is_head h' = is_head h" "heads h' = heads h"
    using assms(4) by (auto simp: fun_eq_iff nodelist_def is_head_def heads_def)
  have "map (fkey h') fl = map (fkey h) fl"
    using assms(4,5) by (auto simp: fkey_def)
  then have "sorted (map (fkey h') fl)"
    using assms(1) by (simp only: mm_flist_def)
  with assms show ?thesis by (auto simp: mm_flist_def)
qed

text \<open>The first entry of \<open>g_nodelist\<close> is first, so that every chunk has a predecessor.\<close>

lemma fkey_first:
  assumes "mm_flist h fl" and "x \<in> set fl" and "x \<noteq> nodelist h 0"
  shows "fkey h (nodelist h 0) < fkey h x"
proof (cases "is_head h x")
  case True
  with assms(3) obtain i where "i < 19" "x = nodelist h i" "0 < i"
    by (auto simp: is_head_iff)
  then show ?thesis
    using one_less_power [of "2::nat" i] by (simp add: fkey_nodelist power_add)
next
  case False
  with assms(1,2) have "16 \<le> nsize h x"
    by (auto simp: mm_flist_def)
  with False show ?thesis by (simp add: fkey_nodelist fkey_chunk)
qed

lemma mm_flist_hd:
  assumes "mm_flist h fl"
  shows "\<exists>bs. fl = nodelist h 0 # bs"
proof -
  obtain as bs where fl: "fl = as @ nodelist h 0 # bs"
    using mm_flist_split [OF assms, of 0] by auto
  have "as = []"
  proof (rule ccontr)
    assume "as \<noteq> []"
    then obtain y ys where y: "as = y # ys" by (cases as) auto
    have "sorted (map (fkey h) fl)" and d: "distinct fl"
      using assms by (auto simp: mm_flist_def)
    then have "fkey h y \<le> fkey h (nodelist h 0)" and "y \<noteq> nodelist h 0"
      by (auto simp: fl y)
    moreover have "fkey h (nodelist h 0) < fkey h y"
      by (rule fkey_first [OF assms]) (use d in \<open>auto simp: fl y\<close>)
    ultimately show False by simp
  qed
  with fl show ?thesis by simp
qed

lemma mm_flist_chunk:
  assumes "mm_flist h (as @ x # bs)" and "\<not> is_head h x"
  shows "as \<noteq> []" and "nblink h x = last as" and "nflink h x = hd (bs @ [NULL])" and "last as \<noteq> NULL"
proof -
  show as: "as \<noteq> []"
    using mm_flist_hd [OF assms(1)] assms(2) by (cases as) auto
  have path: "dpath (nflink h) (nblink h) NULL (as @ x # bs) NULL"
    using assms(1) by (simp add: mm_flist_def)
  show "nblink h x = last as" and "nflink h x = hd (bs @ [NULL])"
    using dpath_links [OF path] as by auto
  show "last as \<noteq> NULL"
    using assms(1) as by (metis UnCI last_in_set mm_flist_def set_append)
qed

subsection \<open>Removing a chunk\<close>

definition same_header :: "mm_heap \<Rightarrow> mm_heap \<Rightarrow> bool" where
  "same_header h h' \<longleftrightarrow> (\<exists>fl bl. h' = h\<lparr>nflink := fl, nblink := bl\<rparr>)"

lemma same_header_simps:
  assumes "same_header h h'"
  shows "nsize h' = nsize h" "npreceding h' = npreceding h" "mdata h' = mdata h"
    "g_nodelist h' = g_nodelist h" "g_heapsize h' = g_heapsize h" "g_nregions h' = g_nregions h"
    "g_heapstart h' = g_heapstart h" "g_heapend h' = g_heapend h"
    "g_mm_semaphore h' = g_mm_semaphore h" "g_holder h' = g_holder h" "g_counts_held h' = g_counts_held h"
  using assms by (auto simp: same_header_def)

lemma same_header_heads:
  assumes "same_header h h'"
  shows "nodelist h' = nodelist h" "is_head h' = is_head h" "heads h' = heads h" "fkey h' = fkey h"
  using assms by (auto simp: same_header_def fun_eq_iff nodelist_def is_head_def heads_def fkey_def)

lemma mm_unlink_flist:
  assumes fl: "mm_flist h (as @ x # bs)" and nh: "\<not> is_head h x"
  shows "\<exists>h'. mm_unlink x h = Some h' \<and> mm_flist h' (as @ bs) \<and> same_header h h'"
proof -
  note x = mm_flist_chunk [OF fl nh]
  let ?h1 = "set_nflink (last as) (hd (bs @ [NULL])) h"
  let ?h' = "if bs = [] then ?h1 else set_nblink (hd bs) (last as) ?h1"
  have d: "distinct (as @ x # bs)" and z: "NULL \<notin> set (as @ x # bs)"
    and path: "dpath (nflink h) (nblink h) NULL (as @ x # bs) NULL"
    using fl by (auto simp: mm_flist_def)
  have ne: "last as \<noteq> x"
    using d x(1) by (metis disjoint_iff distinct_append last_in_set list.set_intros(1))
  have u: "mm_unlink x h = Some ?h'"
    using x ne z by (cases bs) (auto simp: mm_unlink_def Let_def)
  have s: "same_header h ?h'"
    unfolding same_header_def
    by (rule exI [of _ "nflink ?h'"], rule exI [of _ "nblink ?h'"]) simp
  have "dpath (nflink ?h') (nblink ?h') NULL (as @ bs) NULL"
    by (rule dpath_remove [OF path d]) (use x in auto)
  with fl have "mm_flist ?h' (as @ bs)"
    by (auto simp: mm_flist_def same_header_simps [OF s] same_header_heads [OF s] sorted_append
        heads_iff nh)
  with u s show ?thesis by blast
qed

subsection \<open>The searches\<close>

lemma mm_findslot_eq:
  assumes "dpath (nflink h) bl p xs NULL" and "NULL \<notin> set xs"
  shows "mm_findslot h sz p (hd (xs @ [NULL])) =
     (let ys = takeWhile (\<lambda>x. nsize h x \<noteq> 0 \<and> nsize h x < sz) xs
      in Some (last (p # ys), hd (drop (length ys) xs @ [NULL])))"
  using assms
proof (induction xs arbitrary: p)
  case Nil
  then show ?case by (subst mm_findslot.simps) simp
next
  case (Cons x xs)
  have "nflink h x = hd (xs @ [NULL])" and "dpath (nflink h) bl x xs NULL"
    using Cons.prems by auto
  with Cons show ?case
    by (subst mm_findslot.simps) (auto simp: Let_def)
qed

lemma mm_search_eq:
  assumes "dpath (nflink h) bl p xs NULL" and "NULL \<notin> set xs"
  shows "mm_search h sz (hd (xs @ [NULL])) =
     Some (hd (dropWhile (\<lambda>x. nsize h x < sz) xs @ [NULL]))"
  using assms
proof (induction xs arbitrary: p)
  case Nil
  then show ?case by (subst mm_search.simps) simp
next
  case (Cons x xs)
  have "nflink h x = hd (xs @ [NULL])" and "dpath (nflink h) bl x xs NULL"
    using Cons.prems by auto
  with Cons show ?case
    by (subst mm_search.simps) auto
qed

text \<open>The list behind the entry where a search starts.\<close>

lemma mm_flist_behind:
  assumes "mm_flist h (as @ y # bs)"
  shows "dpath (nflink h) (nblink h) y bs NULL" and "NULL \<notin> set bs"
    and "nflink h y = hd (bs @ [NULL])"
  using assms by (auto simp: mm_flist_def dpath_append)

subsection \<open>Adding a chunk\<close>

lemma sorted_slot:
  assumes "sorted (map f (as @ y # bs))" and "f y \<le> k" and "\<And>x. x \<in> set (takeWhile P bs) \<Longrightarrow> f x \<le> k"
    and "\<And>x. x \<in> set bs \<Longrightarrow> \<not> P x \<Longrightarrow> x \<in> set (dropWhile P bs) \<Longrightarrow> k \<le> f x" and "f node = k"
  shows "sorted (map f ((as @ y # takeWhile P bs) @ node # dropWhile P bs))"
proof -
  have s: "sorted (map f ((as @ y # takeWhile P bs) @ dropWhile P bs))"
    using assms(1) by simp
  have lo: "f x \<le> k" if "x \<in> set (as @ y # takeWhile P bs)" for x
    using assms(1-3) that by (fastforce simp: sorted_append)
  have hi: "k \<le> f x" if "x \<in> set (dropWhile P bs)" for x
  proof (cases "dropWhile P bs")
    case (Cons d ds)
    then have "d \<in> set bs" and "\<not> P d"
      using set_dropWhileD [of d P bs] dropWhile_eq_Cons_conv [of P bs d ds] by auto
    then have "k \<le> f d"
      using assms(4) Cons by auto
    moreover have "f d \<le> f x"
      using s that Cons by (auto simp: sorted_append)
    ultimately show ?thesis by simp
  next
    case Nil
    with that show ?thesis by (metis empty_iff empty_set)
  qed
  show ?thesis
    using s lo hi assms(5) unfolding map_append list.map sorted_append sorted_simps by fastforce
qed

lemma dpath_link_between:
  assumes path: "dpath fl bl NULL (as @ bs) NULL" and d: "distinct (as @ bs)" and as: "as \<noteq> []"
    and new: "x \<notin> set (as @ bs)"
    and fl': "fl' = fl(last as := x, x := hd (bs @ [NULL]))"
    and bl': "bl' = (if bs = [] then bl(x := last as) else bl(x := last as, hd bs := x))"
  shows "dpath fl' bl' NULL (as @ x # bs) NULL"
proof -
  have ne: "x \<noteq> last as" "bs = [] \<or> x \<noteq> hd bs"
    using as new last_in_set [OF as] hd_in_set [of bs] by auto
  show ?thesis
  proof (rule dpath_insert [OF path d])
    show "fl' x = hd (bs @ [0])" "as \<noteq> [] \<Longrightarrow> fl' (last as) = x" using ne by (simp_all add: fl')
    show "bl' x = last (0 # as)" "bs \<noteq> [] \<Longrightarrow> bl' (hd bs) = x" using ne as by (auto simp add: bl')
    show "\<And>y. y \<in> set (as @ bs) \<Longrightarrow> as = [] \<or> y \<noteq> last as \<Longrightarrow> fl' y = fl y" using as new unfolding fl' by (metis fun_upd_apply)
    show "\<And>y. y \<in> set (as @ bs) \<Longrightarrow> bs = [] \<or> y \<noteq> hd bs \<Longrightarrow> bl' y = bl y" proof -
      fix y assume y: "y \<in> set (as @ bs)" "bs = [] \<or> y \<noteq> hd bs"
      then have "y \<noteq> x" using new by blast
      with y(2) show "bl' y = bl y" unfolding bl' by (cases "bs = []") simp_all
    qed
  qed
qed

text \<open>The assignments of \<open>mm_addfreechunk\<close> once the place is found.\<close>

definition mm_link_after :: "addr \<Rightarrow> addr \<Rightarrow> addr \<Rightarrow> mm_heap \<Rightarrow> mm_heap" where
  "mm_link_after prev nxt node h =
     (let h = set_nflink node nxt (set_nblink node prev (set_nflink prev node h))
      in if nxt \<noteq> NULL then set_nblink nxt node h else h)"

lemma mm_addfreechunk_alt:
  "mm_addfreechunk node h = do {
     let ndx = mm_size2ndx (nsize h node);
     (prev, nxt) \<leftarrow> mm_findslot h (nsize h node) (nodelist h ndx) (nflink h (nodelist h ndx));
     Some (mm_link_after prev nxt node h)
   }"
  unfolding mm_addfreechunk_def mm_link_after_def Let_def ..

lemma mm_link_after_flist:
  assumes fl: "mm_flist h (as @ bs)" and as: "as \<noteq> []"
    and new: "x \<notin> set (as @ bs)" "x \<noteq> NULL" "\<not> is_head h x" "16 \<le> nsize h x"
    and srt: "sorted (map (fkey h) (as @ x # bs))"
    and h': "h' = mm_link_after (last as) (hd (bs @ [NULL])) x h"
  shows "mm_flist h' (as @ x # bs)" and "same_header h h'"
proof -
  have z: "NULL \<notin> set bs" and d: "distinct (as @ bs)"
    and path: "dpath (nflink h) (nblink h) NULL (as @ bs) NULL"
    using fl by (auto simp: mm_flist_def)
  have bs: "hd (bs @ [NULL]) = NULL \<longleftrightarrow> bs = []"
    using z by (cases bs) auto
  show s: "same_header h h'"
    unfolding same_header_def
    by (rule exI [of _ "nflink h'"], rule exI [of _ "nblink h'"]) (simp add: h' mm_link_after_def Let_def)
  have "dpath (nflink h') (nblink h') NULL (as @ x # bs) NULL"
    by (rule dpath_link_between [OF path d as new(1)])
       (auto simp: h' mm_link_after_def Let_def bs)
  with fl new srt show "mm_flist h' (as @ x # bs)"
    by (auto simp: mm_flist_def same_header_simps [OF s] same_header_heads [OF s])
qed

lemma mm_addfreechunk_flist:
  assumes fl: "mm_flist h fl" and new: "node \<notin> set fl" "node \<noteq> NULL" "\<not> is_head h node"
    and sz: "16 \<le> nsize h node"
  shows "\<exists>h' as bs. mm_addfreechunk node h = Some h' \<and> fl = as @ bs \<and> mm_flist h' (as @ node # bs) \<and>
     same_header h h'"
proof -
  let ?s = "nsize h node" and ?n = "mm_size2ndx (nsize h node)"
  let ?P = "\<lambda>x. nsize h x \<noteq> 0 \<and> nsize h x < ?s"
  note ndx = size2ndx_bounds [OF sz]
  obtain as bs where split: "fl = as @ nodelist h ?n # bs"
    using mm_flist_split [OF fl, of ?n] ndx(1) by auto
  let ?y = "nodelist h ?n" and ?ts = "takeWhile ?P bs" and ?ds = "dropWhile ?P bs"
  let ?as = "as @ ?y # ?ts"
  note behind = mm_flist_behind [OF fl [unfolded split]]
  have flP: "fl = ?as @ ?ds"
    by (simp add: split)
  have srt: "sorted (map (fkey h) (as @ ?y # bs))" and d: "distinct fl"
    using fl by (auto simp: mm_flist_def split)
  have cls: "is_head h x \<Longrightarrow> nsize h x = 0" "\<not> is_head h x \<Longrightarrow> 16 \<le> nsize h x" if "x \<in> set fl" for x
    using fl that by (auto simp: mm_flist_def)
  have srt': "sorted (map (fkey h) (?as @ node # ?ds))"
  proof (rule sorted_slot [OF srt])
    show "fkey h ?y \<le> fkey h node"
      using ndx(1,2) new(3) by (simp add: fkey_nodelist fkey_chunk power_add)
    show "fkey h x \<le> fkey h node" if "x \<in> set ?ts" for x
    proof -
      have "x \<in> set fl" "nsize h x \<noteq> 0" "nsize h x < ?s"
        using that by (auto simp: split dest: set_takeWhileD)
      with cls have "\<not> is_head h x" by auto
      with \<open>nsize h x < ?s\<close> new(3) show ?thesis by (simp add: fkey_chunk)
    qed
    show "fkey h node \<le> fkey h x" if x: "x \<in> set bs" "\<not> ?P x" for x
    proof (cases "is_head h x")
      case False
      with x cls [of x] show ?thesis
        using new(3) by (auto simp: fkey_chunk split)
    next
      case True
      then obtain j where j: "j < 19" "x = nodelist h j"
        by (auto simp: is_head_iff)
      have "fkey h ?y \<le> fkey h x" and "?y \<noteq> x"
        using srt d x(1) by (auto simp: sorted_append split)
      then have "(2::nat) ^ (?n + 5) \<le> 2 ^ (j + 5)" and "?n \<noteq> j"
        using j ndx(1) by (auto simp: fkey_nodelist)
      then have "?n < j"
        by (simp add: power_increasing_iff)
      moreover from this j have "?s < 2 ^ (?n + 5)"
        using ndx(3) by simp
      moreover have "(2::nat) ^ (?n + 6) \<le> 2 ^ (j + 5)"
        using \<open>?n < j\<close> by (intro power_increasing) auto
      ultimately show ?thesis
        using j new(3) by (simp add: fkey_nodelist fkey_chunk power_add)
    qed
  qed simp
  have "drop (length ?ts) bs = ?ds"
    by (metis dropWhile_eq_drop)
  then have found: "mm_findslot h ?s ?y (nflink h ?y) = Some (last ?as, hd (?ds @ [NULL]))"
    using mm_findslot_eq [OF behind(1,2), of ?s] by (simp add: behind(3) Let_def)
  let ?h' = "mm_link_after (last ?as) (hd (?ds @ [NULL])) node h"
  have add: "mm_addfreechunk node h = Some ?h'"
    unfolding mm_addfreechunk_alt Let_def found by simp
  have "mm_flist ?h' (?as @ node # ?ds)" and "same_header h ?h'"
    using mm_link_after_flist [OF fl [unfolded flP] _ new(1) [unfolded flP] new(2,3) sz srt' refl]
    by simp_all
  with add flP show ?thesis by blast
qed

end
