(* ===== verification/Mm_Chunks.thy ===== *)
theory Mm_Chunks
  imports Mm_Freelist
begin

section \<open>The chunks of the heap and the heap invariant\<close>

text \<open>
  The abstract heap: one list of chunks for each region, a chunk being its address, its
  size and whether it is allocated. \<open>chunks_at\<close> ties such a list to the headers in memory:
  the chunks tile the region, and each header holds the size of the chunk before it.
  \<open>region_wf\<close> adds the two guard chunks, the granularity \<open>g\<close> of all sizes, the
  minimum size, which makes room for the links of a free chunk, and that no two
  neighbours are both free. \<open>mm_inv\<close> joins this with the free list: the list holds the
  entries of \<open>g_nodelist\<close> and exactly the free chunks.

  Every operation replaces a few neighbouring chunks of one region by others of the same
  total size; \<open>mm_replace\<close> is the lemma for such a step.
\<close>

datatype chunk = Chunk (caddr: addr) (clen: nat) (cused: bool)

definition csum :: "chunk list \<Rightarrow> nat" where
  "csum cs = sum_list (map clen cs)"

definition lastlen :: "nat \<Rightarrow> chunk list \<Rightarrow> nat" where
  "lastlen p cs = last (p # map clen cs)"

definition hdr :: "bool \<Rightarrow> nat \<Rightarrow> nat" where
  "hdr u p = (if u then p + 2 ^ 31 else p)"

fun chunks_at :: "mm_heap \<Rightarrow> addr \<Rightarrow> nat \<Rightarrow> chunk list \<Rightarrow> bool" where
  "chunks_at h a p [] = True"
| "chunks_at h a p (Chunk c n u # cs) \<longleftrightarrow>
     c = a \<and> nsize h a = n \<and> npreceding h a = hdr u p \<and> chunks_at h (a + n) n cs"

fun coalesced :: "chunk list \<Rightarrow> bool" where
  "coalesced (x # y # cs) \<longleftrightarrow> (cused x \<or> cused y) \<and> coalesced (y # cs)"
| "coalesced cs = True"

definition chunk_ok :: "nat \<Rightarrow> chunk \<Rightarrow> bool" where
  "chunk_ok g c \<longleftrightarrow> g dvd clen c \<and> 16 \<le> clen c"

definition region_wf :: "nat \<Rightarrow> chunk list \<Rightarrow> bool" where
  "region_wf g cs \<longleftrightarrow>
     (\<exists>a e mid. cs = Chunk a 8 True # mid @ [Chunk e 8 True] \<and> (\<forall>c\<in>set mid. chunk_ok g c)) \<and>
     coalesced cs"

definition faddr :: "chunk list \<Rightarrow> addr set" where
  "faddr cs = {caddr c | c. c \<in> set cs \<and> \<not> cused c}"

definition frees :: "chunk list list \<Rightarrow> addr set" where
  "frees rs = (\<Union>cs\<in>set rs. faddr cs)"

definition mm_layout :: "mm_heap \<Rightarrow> bool" where
  "mm_layout h \<longleftrightarrow>
     g_nodelist h \<noteq> NULL \<and> g_nregions h \<le> length (g_heapstart h) \<and>
     length (g_heapend h) = length (g_heapstart h) \<and>
     (\<forall>i<g_nregions h. 16 dvd g_heapstart h ! i \<and> g_heapstart h ! i < g_heapend h ! i \<and>
        g_heapend h ! i + 8 < 2 ^ 32 \<and> g_heapend h ! i + 8 < g_heapstart h ! i + 2 ^ 31 \<and>
        (g_heapend h ! i + 8 \<le> g_nodelist h \<or> g_nodelist h + 16 * 19 \<le> g_heapstart h ! i)) \<and>
     (\<forall>i<g_nregions h. \<forall>j<g_nregions h. i \<noteq> j \<longrightarrow>
        g_heapend h ! i + 8 \<le> g_heapstart h ! j \<or> g_heapend h ! j + 8 \<le> g_heapstart h ! i)"

definition mm_chunks :: "nat \<Rightarrow> mm_heap \<Rightarrow> chunk list list \<Rightarrow> bool" where
  "mm_chunks g h rs \<longleftrightarrow> length rs = g_nregions h \<and>
     (\<forall>i<length rs. chunks_at h (g_heapstart h ! i) 0 (rs ! i) \<and> region_wf g (rs ! i) \<and>
        g_heapstart h ! i + csum (rs ! i) = g_heapend h ! i + 8) \<and>
     g_heapsize h = sum_list (map csum rs)"

definition mm_inv :: "nat \<Rightarrow> mm_heap \<Rightarrow> chunk list list \<Rightarrow> addr list \<Rightarrow> bool" where
  "mm_inv g h rs fl \<longleftrightarrow> mm_layout h \<and> mm_chunks g h rs \<and> mm_flist h fl \<and> set fl = heads h \<union> frees rs"

subsection \<open>Lists of chunks\<close>

lemma csum_simps [simp]:
  "csum [] = 0" "csum (c # cs) = clen c + csum cs" "csum (xs @ ys) = csum xs + csum ys"
  by (simp_all add: csum_def)

lemma lastlen_simps [simp]:
  "lastlen p [] = p" "lastlen p (c # cs) = lastlen (clen c) cs"
  "lastlen p (xs @ ys) = lastlen (lastlen p xs) ys"
proof -
  show "lastlen p (c # cs) = lastlen (clen c) cs" for c cs
    by (simp add: lastlen_def)
  then show "lastlen p (xs @ ys) = lastlen (lastlen p xs) ys"
    by (induction xs arbitrary: p) (simp_all add: lastlen_def)
qed (simp add: lastlen_def)

lemma faddr_simps [simp]:
  "faddr [] = {}" "faddr (c # cs) = (if cused c then faddr cs else insert (caddr c) (faddr cs))"
  "faddr (xs @ ys) = faddr xs \<union> faddr ys"
  by (auto simp: faddr_def)

lemma chunks_at_append:
  "chunks_at h a p (xs @ ys) \<longleftrightarrow>
     chunks_at h a p xs \<and> chunks_at h (a + csum xs) (lastlen p xs) ys"
proof (induction xs arbitrary: a p)
  case (Cons c xs)
  then show ?case by (cases c) (auto simp: add.assoc)
qed simp

lemma chunks_at_cong:
  assumes "\<And>c. c \<in> set cs \<Longrightarrow> nsize h' (caddr c) = nsize h (caddr c)"
    and "\<And>c. c \<in> set cs \<Longrightarrow> npreceding h' (caddr c) = npreceding h (caddr c)"
    and "chunks_at h a p cs"
  shows "chunks_at h' a p cs"
  using assms
proof (induction cs arbitrary: a p)
  case (Cons c cs)
  then show ?case by (cases c) fastforce
qed simp

lemma chunks_at_range:
  assumes "chunks_at h a p cs" and "c \<in> set cs"
  shows "a \<le> caddr c \<and> caddr c + clen c \<le> a + csum cs"
proof -
  obtain xs ys where "cs = xs @ c # ys"
    using assms(2) by (meson split_list)
  with assms(1) show ?thesis by (cases c) (auto simp: chunks_at_append)
qed

lemma faddr_range:
  assumes "chunks_at h a p cs" and "x \<in> faddr cs" and "\<forall>c\<in>set cs. 0 < clen c"
  shows "a \<le> x \<and> x < a + csum cs"
  using assms chunks_at_range [OF assms(1)] by (fastforce simp: faddr_def)

lemma coalesced_Cons:
  "coalesced (x # ys) \<longleftrightarrow> coalesced ys \<and> (ys = [] \<or> cused x \<or> cused (hd ys))"
  by (cases ys) auto

lemma coalesced_append:
  "coalesced (xs @ ys) \<longleftrightarrow> coalesced xs \<and> coalesced ys \<and>
     (xs = [] \<or> ys = [] \<or> cused (last xs) \<or> cused (hd ys))"
proof (induction xs)
  case (Cons x xs)
  then show ?case by (cases xs) (auto simp: coalesced_Cons)
qed simp

lemma region_wf_pos: "region_wf g cs \<Longrightarrow> c \<in> set cs \<Longrightarrow> 0 < clen c"
  by (auto simp: region_wf_def chunk_ok_def) (metis gr0I not_numeral_le_zero)

text \<open>A chunk of at least 16 bytes, or a free chunk, lies between the guards.\<close>

lemma region_wf_inner:
  assumes "region_wf g (xs @ c # ys)" and "16 \<le> clen c \<or> \<not> cused c"
  shows "xs \<noteq> []" and "ys \<noteq> []" and "chunk_ok g c"
proof -
  obtain a e mid where eq: "xs @ c # ys = Chunk a 8 True # mid @ [Chunk e 8 True]"
    and ok: "\<forall>c\<in>set mid. chunk_ok g c"
    using assms(1) by (auto simp: region_wf_def)
  have c: "c \<noteq> Chunk a 8 True" "c \<noteq> Chunk e 8 True"
    using assms(2) by auto
  show xs: "xs \<noteq> []"
    using eq c by (cases xs) auto
  show ys: "ys \<noteq> []"
  proof
    assume "ys = []"
    with eq have "last (xs @ [c]) = Chunk e 8 True"
      by (metis last.simps last_appendR list.discI append_is_Nil_conv)
    with c show False by simp
  qed
  have "c \<in> set mid"
  proof -
    obtain xs' where "xs = Chunk a 8 True # xs'"
      using eq xs by (cases xs) auto
    moreover obtain ys' where "ys = ys' @ [Chunk e 8 True]"
      using eq ys by (metis append_butlast_last_id last.simps last_appendR list.discI snoc_eq_iff_butlast)
    ultimately have "mid = xs' @ c # ys'"
      using eq by auto
    then show ?thesis by simp
  qed
  with ok show "chunk_ok g c" by blast
qed

text \<open>Replacing inner chunks keeps the guards.\<close>

lemma region_wf_replace:
  assumes wf: "region_wf g (xs @ mid @ ys)" and ne: "xs \<noteq> []" "ys \<noteq> []"
    and ok: "\<forall>c\<in>set mid'. chunk_ok g c" and co: "coalesced (xs @ mid' @ ys)"
  shows "region_wf g (xs @ mid' @ ys)"
proof -
  obtain a e m where eq: "xs @ mid @ ys = Chunk a 8 True # m @ [Chunk e 8 True]"
    and okm: "\<forall>c\<in>set m. chunk_ok g c"
    using wf by (auto simp: region_wf_def)
  obtain xs' where xs: "xs = Chunk a 8 True # xs'"
    using eq ne by (cases xs) auto
  obtain ys' where ys: "ys = ys' @ [Chunk e 8 True]"
    using eq ne by (cases ys rule: rev_cases) auto
  have "m = xs' @ mid @ ys'"
    using eq xs ys by simp
  with okm ok have "\<forall>c\<in>set (xs' @ mid' @ ys'). chunk_ok g c"
    by auto
  then show ?thesis
    using co xs ys by (auto simp: region_wf_def intro!: exI [of _ a] exI [of _ e] exI [of _ "xs' @ mid' @ ys'"])
qed

subsection \<open>The step lemma\<close>

definition same_globals :: "mm_heap \<Rightarrow> mm_heap \<Rightarrow> bool" where
  "same_globals h h' \<longleftrightarrow> g_nodelist h' = g_nodelist h \<and> g_heapsize h' = g_heapsize h \<and>
     g_nregions h' = g_nregions h \<and> g_heapstart h' = g_heapstart h \<and> g_heapend h' = g_heapend h"

lemma same_globals_heads:
  assumes "same_globals h h'"
  shows "nodelist h' = nodelist h" "is_head h' = is_head h" "heads h' = heads h"
  using assms by (auto simp: same_globals_def fun_eq_iff nodelist_def is_head_def heads_def)

lemma mm_layout_globals: "same_globals h h' \<Longrightarrow> mm_layout h' = mm_layout h"
  by (simp add: mm_layout_def same_globals_def)

lemma same_header_globals: "same_header h h' \<Longrightarrow> same_globals h h'"
  by (simp add: same_globals_def same_header_simps)

lemma mm_chunks_same_header:
  assumes "mm_chunks g h rs" and "same_header h h'"
  shows "mm_chunks g h' rs"
proof -
  have "chunks_at h' a p cs = chunks_at h a p cs" for a p cs
    using chunks_at_cong [of cs h' h a p] chunks_at_cong [of cs h h' a p]
    by (auto simp: same_header_simps [OF assms(2)])
  with assms(1) show ?thesis
    by (simp add: mm_chunks_def same_header_simps [OF assms(2)])
qed

text \<open>Where the chunks of region \<open>k\<close> lie, and that everything else lies elsewhere.\<close>

lemma mm_chunks_region:
  assumes "mm_chunks g h rs" and "k < length rs"
  shows "chunks_at h (g_heapstart h ! k) 0 (rs ! k)" and "region_wf g (rs ! k)"
    and "g_heapstart h ! k + csum (rs ! k) = g_heapend h ! k + 8" and "k < g_nregions h"
  using assms by (auto simp: mm_chunks_def)

lemma region_disjoint:
  assumes L: "mm_layout h" and C: "mm_chunks g h rs" and ij: "i < length rs" "j < length rs" "i \<noteq> j"
    and c: "c \<in> set (rs ! i)" and x: "g_heapstart h ! j \<le> x" "x < g_heapstart h ! j + csum (rs ! j)"
  shows "caddr c \<noteq> x"
proof -
  note ri = mm_chunks_region [OF C ij(1)] and rj = mm_chunks_region [OF C ij(2)]
  have "g_heapend h ! i + 8 \<le> g_heapstart h ! j \<or> g_heapend h ! j + 8 \<le> g_heapstart h ! i"
    using L ij C by (auto simp: mm_layout_def mm_chunks_def)
  moreover have "g_heapstart h ! i \<le> caddr c \<and> caddr c < g_heapend h ! i + 8"
    using chunks_at_range [OF ri(1) c] region_wf_pos [OF ri(2) c] ri(3) by linarith
  ultimately show ?thesis
    using x rj(3) by linarith
qed

lemma heads_disjoint:
  assumes L: "mm_layout h" and C: "mm_chunks g h rs" and k: "k < length rs" and hd: "is_head h y"
    and x: "g_heapstart h ! k \<le> x" "x < g_heapstart h ! k + csum (rs ! k)"
  shows "y \<noteq> x"
proof -
  have "g_heapend h ! k + 8 \<le> g_nodelist h \<or> g_nodelist h + 16 * 19 \<le> g_heapstart h ! k"
    using L k C by (auto simp: mm_layout_def mm_chunks_def)
  with hd x mm_chunks_region(3) [OF C k] show ?thesis
    by (auto simp: is_head_def)
qed

text \<open>
  The headers after a step: inside the replaced chunks \<open>mid'\<close>, the header after them
  holds the size of their last chunk, and no other header changed.
\<close>

definition headers_replaced ::
  "mm_heap \<Rightarrow> mm_heap \<Rightarrow> addr \<Rightarrow> nat \<Rightarrow> chunk list \<Rightarrow> chunk \<Rightarrow> bool" where
  "headers_replaced h h' c0 p mid' e \<longleftrightarrow> same_globals h h' \<and> chunks_at h' c0 p mid' \<and>
     npreceding h' (caddr e) = hdr (cused e) (lastlen p mid') \<and>
     (\<forall>x. x < c0 \<or> caddr e \<le> x \<longrightarrow> nsize h' x = nsize h x) \<and>
     (\<forall>x. x < c0 \<or> caddr e < x \<longrightarrow> npreceding h' x = npreceding h x)"

lemma chunks_at_replaced:
  assumes at: "chunks_at h a 0 (xs @ mid @ e # ys)" and pos: "\<forall>c\<in>set (xs @ mid @ e # ys). 0 < clen c"
    and R: "headers_replaced h h' (a + csum xs) (lastlen 0 xs) mid' e" and tot: "csum mid' = csum mid"
  shows "chunks_at h' a 0 (xs @ mid' @ e # ys)"
proof -
  obtain c n u where e: "e = Chunk c n u" by (cases e)
  have xs: "chunks_at h a 0 xs" and c: "c = a + csum xs + csum mid" and n: "0 < n"
    and ys: "chunks_at h (c + n) n ys" and sz: "nsize h c = n"
    using at pos by (auto simp: chunks_at_append e add.assoc)
  have "chunks_at h' a 0 xs"
  proof (rule chunks_at_cong [OF _ _ xs])
    fix d assume d: "d \<in> set xs"
    have "caddr d < a + csum xs"
      using chunks_at_range [OF xs d] pos d by (auto dest!: bspec [where x = d])
    then show "nsize h' (caddr d) = nsize h (caddr d)" "npreceding h' (caddr d) = npreceding h (caddr d)"
      using R by (auto simp: headers_replaced_def)
  qed
  moreover have "chunks_at h' (c + n) n ys"
  proof (rule chunks_at_cong [OF _ _ ys])
    fix d assume "d \<in> set ys"
    then have "c < caddr d"
      using chunks_at_range [OF ys, of d] n by simp
    then show "nsize h' (caddr d) = nsize h (caddr d)" "npreceding h' (caddr d) = npreceding h (caddr d)"
      using R by (auto simp: headers_replaced_def e)
  qed
  ultimately show ?thesis
    using R sz by (auto simp: chunks_at_append headers_replaced_def e tot c)
qed

lemma mm_replace:
  assumes L: "mm_layout h" and C: "mm_chunks g h rs" and k: "k < length rs"
    and split: "rs ! k = xs @ mid @ e # ys" and xs: "xs \<noteq> []"
    and R: "headers_replaced h h' (g_heapstart h ! k + csum xs) (lastlen 0 xs) mid' e"
    and tot: "csum mid' = csum mid" and ok: "\<forall>c\<in>set mid'. chunk_ok g c"
    and co: "coalesced (xs @ mid' @ e # ys)"
  shows "mm_layout h'" and "mm_chunks g h' (rs[k := xs @ mid' @ e # ys])"
    and "frees (rs[k := xs @ mid' @ e # ys]) = (frees rs - faddr mid) \<union> faddr mid'"
proof -
  have G: "same_globals h h'"
    using R by (simp add: headers_replaced_def)
  show "mm_layout h'"
    using L mm_layout_globals [OF G] by simp
  note rk = mm_chunks_region [OF C k]
  let ?a = "g_heapstart h ! k" and ?r = "xs @ mid' @ e # ys"
  have pos: "\<forall>c\<in>set (rs ! k). 0 < clen c"
    using region_wf_pos [OF rk(2)] by blast
  have at: "chunks_at h' ?a 0 ?r"
    using chunks_at_replaced [OF rk(1) [unfolded split] pos [unfolded split] R tot] .
  have wf: "region_wf g ?r"
    using region_wf_replace [OF rk(2) [unfolded split] xs _ ok co] by simp
  have e: "caddr e = ?a + csum xs + csum mid"
    using rk(1) unfolding split by (cases e) (auto simp: chunks_at_append)
  have other: "chunks_at h' (g_heapstart h ! i) 0 (rs ! i)" if i: "i < length rs" "i \<noteq> k" for i
  proof (rule chunks_at_cong [OF _ _ mm_chunks_region(1) [OF C i(1)]])
    fix c assume c: "c \<in> set (rs ! i)"
    have "caddr c < ?a + csum xs \<or> caddr e < caddr c"
      using region_disjoint [OF L C i(1) k i(2) c, of "caddr c"] e split pos by fastforce
    then show "nsize h' (caddr c) = nsize h (caddr c)" "npreceding h' (caddr c) = npreceding h (caddr c)"
      using R by (auto simp: headers_replaced_def)
  qed
  have tr: "csum ?r = csum (rs ! k)"
    by (simp add: split tot)
  have sum: "sum_list (map csum (rs[k := ?r])) = sum_list (map csum rs)"
    using k tr by (simp add: map_update list_update_same_conv [THEN iffD2])
  show "mm_chunks g h' (rs[k := ?r])"
    unfolding mm_chunks_def
  proof (intro conjI allI impI)
    fix i assume i: "i < length (rs[k := ?r])"
    show "chunks_at h' (g_heapstart h' ! i) 0 (rs[k := ?r] ! i)"
      using G at other [of i] i by (cases "i = k") (auto simp: same_globals_def)
    show "region_wf g (rs[k := ?r] ! i)"
      using wf C i by (cases "i = k") (auto simp: mm_chunks_def)
    show "g_heapstart h' ! i + csum (rs[k := ?r] ! i) = g_heapend h' ! i + 8"
      using G C i tr k by (cases "i = k") (auto simp: mm_chunks_def same_globals_def)
  qed (use C G sum in \<open>auto simp: mm_chunks_def same_globals_def\<close>)
  have x_out: "x \<notin> faddr mid" if "x \<in> faddr xs \<or> x \<in> faddr (e # ys)" for x
  proof -
    have "x < ?a + csum xs \<or> caddr e \<le> x" if "x \<in> faddr xs \<or> x \<in> faddr (e # ys)"
      using that faddr_range [of h ?a 0 xs x] faddr_range [of h "caddr e" "lastlen (lastlen 0 xs) mid" "e # ys" x]
        rk(1) pos e unfolding split by (auto simp: chunks_at_append simp del: faddr_simps(2))
    moreover have "?a + csum xs \<le> x \<and> x < caddr e" if "x \<in> faddr mid"
      using that faddr_range [of h "?a + csum xs" "lastlen 0 xs" mid x] rk(1) pos e unfolding split
      by (auto simp: chunks_at_append)
    ultimately show ?thesis using that by fastforce
  qed
  have y_out: "x \<notin> faddr mid" if i: "i < length rs" "i \<noteq> k" "x \<in> faddr (rs ! i)" for x i
  proof
    assume "x \<in> faddr mid"
    then obtain c where c: "c \<in> set mid" "x = caddr c" by (auto simp: faddr_def)
    then have "c \<in> set (rs ! k)" by (simp add: split)
    then have "?a \<le> x" "x < ?a + csum (rs ! k)"
      using chunks_at_range [OF rk(1), of c] pos c by fastforce+
    with i region_disjoint [OF L C i(1) k i(2)] show False
      by (auto simp: faddr_def)
  qed
  have fr: "frees rs' = (\<Union>i<length rs'. faddr (rs' ! i))" for rs'
    by (auto simp: frees_def in_set_conv_nth) (metis nth_mem)
  show "frees (rs[k := ?r]) = (frees rs - faddr mid) \<union> faddr mid'"
  proof (intro equalityI subsetI)
    fix x assume "x \<in> frees (rs[k := ?r])"
    then obtain i where i: "i < length rs" "x \<in> faddr (rs[k := ?r] ! i)"
      by (auto simp: fr)
    show "x \<in> (frees rs - faddr mid) \<union> faddr mid'"
    proof (cases "i = k")
      case True
      with i k have "x \<in> faddr xs \<or> x \<in> faddr (e # ys) \<or> x \<in> faddr mid'" by auto
      moreover have "faddr xs \<union> faddr (e # ys) \<subseteq> frees rs"
        using k by (auto simp: fr split simp del: faddr_simps(2) intro!: bexI [of _ k])
      ultimately show ?thesis using x_out by blast
    next
      case False
      with i y_out [of i x] show ?thesis by (auto simp: fr)
    qed
  next
    fix x assume "x \<in> (frees rs - faddr mid) \<union> faddr mid'"
    then consider "x \<in> faddr mid'" | i where "i < length rs" "x \<in> faddr (rs ! i)" "x \<notin> faddr mid"
      by (auto simp: fr)
    then show "x \<in> frees (rs[k := ?r])"
    proof cases
      case 1
      then show ?thesis using k by (auto simp: fr intro!: bexI [of _ k])
    next
      case (2 i)
      then show ?thesis
        using k by (cases "i = k") (auto simp: fr split simp del: faddr_simps(2) intro!: bexI [of _ i])
    qed
  qed
qed

subsection \<open>The invariant with chunks off the list\<close>

text \<open>
  Inside an operation some free chunks are off the free list: \<open>mm_part\<close> is the invariant
  with the chunks at the addresses \<open>A\<close> missing from it.
\<close>

definition mm_part :: "nat \<Rightarrow> mm_heap \<Rightarrow> chunk list list \<Rightarrow> addr list \<Rightarrow> addr set \<Rightarrow> bool" where
  "mm_part g h rs fl A \<longleftrightarrow> mm_layout h \<and> mm_chunks g h rs \<and> mm_flist h fl \<and>
     set fl = heads h \<union> (frees rs - A)"

lemma mm_inv_part: "mm_inv g h rs fl \<longleftrightarrow> mm_part g h rs fl {}"
  by (simp add: mm_inv_def mm_part_def)

lemma mm_part_globals:
  "mm_part g h rs fl A \<Longrightarrow> same_globals h h' \<Longrightarrow> nsize h' = nsize h \<Longrightarrow> npreceding h' = npreceding h \<Longrightarrow>
     nflink h' = nflink h \<Longrightarrow> nblink h' = nblink h \<Longrightarrow> mm_part g h' rs fl A"
proof -
  assume P: "mm_part g h rs fl A" and G: "same_globals h h'" and e: "nsize h' = nsize h"
    "npreceding h' = npreceding h" "nflink h' = nflink h" "nblink h' = nblink h"
  have "chunks_at h' a p cs = chunks_at h a p cs" for a p cs
    using chunks_at_cong [of cs h' h a p] chunks_at_cong [of cs h h' a p] e by auto
  moreover have "mm_flist h' fl"
    by (rule mm_flist_frame [of h]) (use P G e in \<open>auto simp: mm_part_def same_globals_def\<close>)
  ultimately show ?thesis
    using P G by (auto simp: mm_part_def mm_layout_globals [OF G] same_globals_heads [OF G] mm_chunks_def
        same_globals_def)
qed

text \<open>Every free chunk has an address in some region, and its header there.\<close>

lemma frees_nth: "x \<in> frees rs \<longleftrightarrow> (\<exists>k<length rs. \<exists>c\<in>set (rs ! k). \<not> cused c \<and> x = caddr c)"
  unfolding frees_def faddr_def by (auto; metis in_set_conv_nth)

lemma freesE:
  assumes C: "mm_chunks g h rs" and x: "x \<in> frees rs"
  obtains k xs n ys where "k < length rs" "rs ! k = xs @ Chunk x n False # ys" "xs \<noteq> []" "ys \<noteq> []"
    "16 \<le> n" "g dvd n" "nsize h x = n" "x = g_heapstart h ! k + csum xs"
proof -
  from x obtain k c where k: "k < length rs" and c: "c \<in> set (rs ! k)" "\<not> cused c" "x = caddr c"
    by (auto simp: frees_nth)
  then obtain n where c': "c = Chunk x n False" by (cases c) auto
  obtain xs ys where sp: "rs ! k = xs @ Chunk x n False # ys"
    using c(1) c' by (meson split_list)
  note rk = mm_chunks_region [OF C k]
  have "xs \<noteq> []" "ys \<noteq> []" "chunk_ok g (Chunk x n False)"
    using region_wf_inner [of g xs "Chunk x n False" ys] rk(2) sp by auto
  with that [OF k sp] rk(1) show thesis
    unfolding sp by (auto simp: chunks_at_append chunk_ok_def)
qed

lemma frees_not_head:
  assumes L: "mm_layout h" and C: "mm_chunks g h rs" and x: "x \<in> frees rs"
  shows "\<not> is_head h x" and "x \<noteq> NULL" and "16 \<le> nsize h x"
proof -
  obtain k xs n ys where k: "k < length rs" "rs ! k = xs @ Chunk x n False # ys" "xs \<noteq> []" "16 \<le> n"
    "nsize h x = n" "x = g_heapstart h ! k + csum xs"
    using freesE [OF C x] by metis
  have "hd xs \<in> set (rs ! k)"
    using k by auto
  then have "0 < clen (hd xs)"
    using region_wf_pos [OF mm_chunks_region(2) [OF C k(1)]] by blast
  then have "0 < csum xs"
    using k(3) by (cases xs) auto
  then show "x \<noteq> NULL" using k(6) by simp
  show "16 \<le> nsize h x" using k by simp
  show "\<not> is_head h x"
    using heads_disjoint [OF L C k(1), of x x] k by auto
qed

lemma mm_part_unlink:
  assumes P: "mm_part g h rs fl A" and x: "x \<in> frees rs" "x \<notin> A"
  shows "\<exists>h' fl'. mm_unlink x h = Some h' \<and> mm_part g h' rs fl' (insert x A) \<and> same_header h h' \<and>
    nsize h' = nsize h \<and> npreceding h' = npreceding h"
proof -
  have LCF: "mm_layout h" "mm_chunks g h rs" "mm_flist h fl" "set fl = heads h \<union> (frees rs - A)"
    using P by (auto simp: mm_part_def)
  note nh = frees_not_head [OF LCF(1,2) x(1)]
  obtain as bs where fl: "fl = as @ x # bs"
    using x LCF(4) by (metis DiffI UnI2 split_list)
  obtain h' where h': "mm_unlink x h = Some h'" "mm_flist h' (as @ bs)" "same_header h h'"
    using mm_unlink_flist [OF LCF(3) [unfolded fl] nh(1)] by blast
  have "distinct fl" using LCF(3) by (simp add: mm_flist_def)
  then have "set (as @ bs) = set fl - {x}"
    by (auto simp: fl)
  then have "set (as @ bs) = heads h' \<union> (frees rs - insert x A)"
    using LCF(4) nh(1) by (auto simp: same_header_heads [OF h'(3)] heads_iff)
  then have "mm_part g h' rs (as @ bs) (insert x A)"
    using LCF h' mm_layout_globals [OF same_header_globals [OF h'(3)]] mm_chunks_same_header
    by (auto simp: mm_part_def)
  with h' show ?thesis by (auto simp: same_header_simps [OF h'(3)])
qed

lemma mm_part_add:
  assumes P: "mm_part g h rs fl A" and x: "x \<in> frees rs" "x \<in> A"
  shows "\<exists>h' fl'. mm_addfreechunk x h = Some h' \<and> mm_part g h' rs fl' (A - {x}) \<and> same_header h h' \<and>
    nsize h' = nsize h \<and> npreceding h' = npreceding h"
proof -
  have LCF: "mm_layout h" "mm_chunks g h rs" "mm_flist h fl" "set fl = heads h \<union> (frees rs - A)"
    using P by (auto simp: mm_part_def)
  note nh = frees_not_head [OF LCF(1,2) x(1)]
  have "x \<notin> set fl"
    using LCF(4) x nh(1) by (auto simp: heads_iff)
  then obtain h' as bs where h': "mm_addfreechunk x h = Some h'" "fl = as @ bs"
    "mm_flist h' (as @ x # bs)" "same_header h h'"
    using mm_addfreechunk_flist [OF LCF(3) _ nh(2,1,3)] by blast
  have "set (as @ x # bs) = heads h' \<union> (frees rs - (A - {x}))"
    using LCF(4) h'(2) x by (auto simp: same_header_heads [OF h'(4)])
  then have "mm_part g h' rs (as @ x # bs) (A - {x})"
    using LCF h' mm_layout_globals [OF same_header_globals [OF h'(4)]] mm_chunks_same_header
    by (auto simp: mm_part_def)
  with h' show ?thesis by (auto simp: same_header_simps [OF h'(4)])
qed

lemma frees_outside:
  assumes L: "mm_layout h" and C: "mm_chunks g h rs" and k: "k < length rs"
    and split: "rs ! k = xs @ mid @ e # ys" and x: "x \<in> frees rs" "x \<notin> faddr mid"
  shows "x < g_heapstart h ! k + csum xs \<or> caddr e \<le> x"
proof -
  from x(1) obtain i c where i: "i < length rs" "c \<in> set (rs ! i)" "\<not> cused c" "x = caddr c"
    by (auto simp: frees_nth)
  note rk = mm_chunks_region [OF C k]
  have e: "caddr e = g_heapstart h ! k + csum xs + csum mid"
    using rk(1) unfolding split by (cases e) (auto simp: chunks_at_append)
  show ?thesis
  proof (cases "i = k")
    case False
    then show ?thesis
      using region_disjoint [OF L C i(1) k False i(2), of x] i(4) e
      by (cases "g_heapstart h ! k \<le> x") (auto simp: split)
  next
    case True
    then consider "c \<in> set xs" | "c \<in> set mid" | "c \<in> set (e # ys)"
      using i(2) split by auto
    then show ?thesis
    proof cases
      case 1
      moreover have "0 < clen c"
        using region_wf_pos [OF mm_chunks_region(2) [OF C i(1)] i(2)] .
      ultimately show ?thesis
        using chunks_at_range [of h "g_heapstart h ! k" 0 xs c] rk(1) i(4) unfolding split
        by (auto simp: chunks_at_append)
    next
      case 2
      with i x(2) show ?thesis by (auto simp: faddr_def)
    next
      case 3
      then show ?thesis
        using chunks_at_range [of h "caddr e" "lastlen (lastlen 0 xs) mid" "e # ys" c] rk(1) i(4) e
        unfolding split by (auto simp: chunks_at_append add.assoc)
    qed
  qed
qed

lemma mm_part_replace:
  assumes P: "mm_part g h rs fl (faddr mid)" and k: "k < length rs"
    and split: "rs ! k = xs @ mid @ e # ys" and xs: "xs \<noteq> []"
    and R: "headers_replaced h h' (g_heapstart h ! k + csum xs) (lastlen 0 xs) mid' e"
    and tot: "csum mid' = csum mid" and ok: "\<forall>c\<in>set mid'. chunk_ok g c"
    and co: "coalesced (xs @ mid' @ e # ys)"
    and links: "nflink h' = nflink h" "nblink h' = nblink h"
  shows "mm_part g h' (rs[k := xs @ mid' @ e # ys]) fl (faddr mid')"
proof -
  have LCF: "mm_layout h" "mm_chunks g h rs" "mm_flist h fl" "set fl = heads h \<union> (frees rs - faddr mid)"
    using P by (auto simp: mm_part_def)
  note step = mm_replace [OF LCF(1,2) k split xs R tot ok co]
  have G: "same_globals h h'" using R by (simp add: headers_replaced_def)
  let ?c0 = "g_heapstart h ! k + csum xs"
  have e: "caddr e = ?c0 + csum mid"
    using mm_chunks_region(1) [OF LCF(2) k] unfolding split by (cases e) (auto simp: chunks_at_append)
  have out: "x < ?c0 \<or> caddr e \<le> x" if "x \<in> set fl" for x
  proof (cases "is_head h x")
    case True
    then show ?thesis
      using heads_disjoint [OF LCF(1,2) k True, of x] e unfolding split by fastforce
  next
    case False
    with that LCF(4) have "x \<in> frees rs" "x \<notin> faddr mid" by (auto simp: heads_iff)
    then show ?thesis using frees_outside [OF LCF(1,2) k split] by blast
  qed
  have "mm_flist h' fl"
    by (rule mm_flist_frame [OF LCF(3) links])
       (use G R out in \<open>auto simp: same_globals_def headers_replaced_def\<close>)
  moreover have "x \<notin> faddr mid'" if "x \<in> set fl" "x \<in> frees rs" for x
  proof
    assume "x \<in> faddr mid'"
    moreover have "chunks_at h' ?c0 (lastlen 0 xs) mid'"
      using R by (simp add: headers_replaced_def)
    moreover have "\<forall>c\<in>set mid'. 0 < clen c"
      using ok by (auto simp: chunk_ok_def)
    ultimately have "?c0 \<le> x \<and> x < caddr e"
      using faddr_range [of h' ?c0 "lastlen 0 xs" mid' x] tot e by auto
    with out [OF that(1)] show False by linarith
  qed
  ultimately show ?thesis
    using step LCF(4) unfolding mm_part_def same_globals_heads [OF G] by auto
qed

end
