(* ===== verification/Mm_Malloc.thy ===== *)
theory Mm_Malloc
  imports Mm_Chunks
begin

section \<open>malloc, free and shrinking a chunk\<close>

text \<open>
  The effect of the allocation operations on the abstract heap of \<open>Mm_Chunks\<close>, and that
  they return: the searches end, the assertions hold and the semaphore is given back.
\<close>

subsection \<open>The heap semaphore\<close>

definition sem_of :: "mm_heap \<Rightarrow> int \<times> int \<times> int" where
  "sem_of h = (g_mm_semaphore h, g_holder h, g_counts_held h)"

text \<open>The task \<open>pid\<close> may take the semaphore: it is free, or the task holds it already.\<close>

definition mm_can_take :: "int \<Rightarrow> mm_heap \<Rightarrow> bool" where
  "mm_can_take pid h \<longleftrightarrow> pid \<noteq> - 1 \<and>
     (if g_holder h = pid then g_counts_held h \<ge> 1
      else g_holder h = - 1 \<and> g_counts_held h = 0 \<and> g_mm_semaphore h > 0)"

definition with_sem :: "int \<times> int \<times> int \<Rightarrow> mm_heap \<Rightarrow> mm_heap" where
  "with_sem s h = (case s of (v, p, c) \<Rightarrow> h\<lparr>g_mm_semaphore := v, g_holder := p, g_counts_held := c\<rparr>)"

lemma with_sem_simps [simp]:
  "nsize (with_sem s h) = nsize h" "npreceding (with_sem s h) = npreceding h"
  "nflink (with_sem s h) = nflink h" "nblink (with_sem s h) = nblink h" "mdata (with_sem s h) = mdata h"
  "g_nodelist (with_sem s h) = g_nodelist h" "g_heapsize (with_sem s h) = g_heapsize h"
  "g_nregions (with_sem s h) = g_nregions h" "g_heapstart (with_sem s h) = g_heapstart h"
  "g_heapend (with_sem s h) = g_heapend h" "sem_of (with_sem s h) = s"
  "nodelist (with_sem s h) = nodelist h"
  "with_sem s (with_sem s' h) = with_sem s h" "with_sem (sem_of h) h = h"
  "with_sem s (h\<lparr>mdata := d\<rparr>) = (with_sem s h)\<lparr>mdata := d\<rparr>"
  by (simp_all add: with_sem_def sem_of_def nodelist_def fun_eq_iff split: prod.splits)

lemma same_globals_with_sem [simp]: "same_globals h (with_sem s h)"
  by (simp add: same_globals_def)

text \<open>Taking the semaphore succeeds, and giving it back restores its state.\<close>

lemma takesemaphore_spec:
  assumes "mm_can_take pid h"
  obtains s where "mm_takesemaphore pid h = Some (with_sem s h)"
    and "\<And>h'. sem_of h' = s \<Longrightarrow> mm_givesemaphore pid h' = Some (with_sem (sem_of h) h')"
proof (cases "g_holder h = pid")
  case True
  let ?s = "(g_mm_semaphore h, pid, g_counts_held h + 1)"
  show thesis
  proof (rule that [of ?s])
    show "mm_takesemaphore pid h = Some (with_sem ?s h)"
      using True by (simp add: mm_takesemaphore_def with_sem_def)
    show "mm_givesemaphore pid h' = Some (with_sem (sem_of h) h')" if "sem_of h' = ?s" for h'
      using that True assms by (auto simp: mm_givesemaphore_def sem_of_def with_sem_def mm_can_take_def)
  qed
next
  case False
  let ?s = "(g_mm_semaphore h - 1, pid, 1)"
  show thesis
  proof (rule that [of ?s])
    show "mm_takesemaphore pid h = Some (with_sem ?s h)"
      using False assms by (simp add: mm_takesemaphore_def with_sem_def mm_can_take_def)
    show "mm_givesemaphore pid h' = Some (with_sem (sem_of h) h')" if "sem_of h' = ?s" for h'
      using that False assms by (auto simp: mm_givesemaphore_def sem_of_def with_sem_def mm_can_take_def)
  qed
qed

subsection \<open>Header updates and the free list operations commute\<close>

abbreviation with_headers :: "(addr \<Rightarrow> nat) \<Rightarrow> (addr \<Rightarrow> nat) \<Rightarrow> mm_heap \<Rightarrow> mm_heap" where
  "with_headers S Q h \<equiv> h\<lparr>nsize := S, npreceding := Q\<rparr>"

lemma mm_unlink_headers:
  "mm_unlink x (with_headers S Q h) = map_option (with_headers S Q) (mm_unlink x h)"
  by (simp add: mm_unlink_def Let_def)

lemma mm_findslot_preceding_Some:
  assumes "mm_findslot h sz p n = Some r"
  shows "mm_findslot (h\<lparr>npreceding := Q\<rparr>) sz p n = Some r"
proof (rule mm_findslot.raw_induct
    [where P = "\<lambda>h sz p n r. mm_findslot (h\<lparr>npreceding := Q\<rparr>) sz p n = Some r", OF _ assms])
  fix f h sz p n r
  assume IH: "\<And>h sz p n r. f h sz p n = Some r \<Longrightarrow> mm_findslot (h\<lparr>npreceding := Q\<rparr>) sz p n = Some r"
    and eq: "(if n \<noteq> NULL \<and> nsize h n \<noteq> 0 \<and> nsize h n < sz then f h sz n (nflink h n) else Some (p, n)) = Some r"
  show "mm_findslot (h\<lparr>npreceding := Q\<rparr>) sz p n = Some r"
  proof (cases "n \<noteq> NULL \<and> nsize h n \<noteq> 0 \<and> nsize h n < sz")
    case True
    with eq IH [of h sz n "nflink h n" r] show ?thesis by (subst mm_findslot.simps) simp
  next
    case False
    with eq show ?thesis by (subst mm_findslot.simps) auto
  qed
qed

lemma mm_findslot_preceding: "mm_findslot (h\<lparr>npreceding := Q\<rparr>) sz p n = mm_findslot h sz p n"
proof (cases "mm_findslot (h\<lparr>npreceding := Q\<rparr>) sz p n")
  case None
  then show ?thesis
    using mm_findslot_preceding_Some [of h sz p n _ Q] by (cases "mm_findslot h sz p n") auto
next
  case (Some r)
  then show ?thesis
    using mm_findslot_preceding_Some [OF Some, of "npreceding h"] by simp
qed

lemma mm_addfreechunk_preceding:
  "mm_addfreechunk x (h\<lparr>npreceding := Q\<rparr>) = map_option (\<lambda>h. h\<lparr>npreceding := Q\<rparr>) (mm_addfreechunk x h)"
proof -
  have [simp]: "nodelist (h\<lparr>npreceding := Q\<rparr>) = nodelist h"
    by (simp add: nodelist_def fun_eq_iff)
  show ?thesis
    unfolding mm_addfreechunk_alt
    by (cases "mm_findslot h (nsize h x) (nodelist h (mm_size2ndx (nsize h x)))
          (nflink h (nodelist h (mm_size2ndx (nsize h x))))")
       (auto simp: mm_findslot_preceding mm_link_after_def Let_def)
qed

subsection \<open>malloc\<close>

text \<open>The search finds the smallest chunk that is large enough, if there is one.\<close>

lemma mm_search_best:
  assumes fl: "mm_flist h fl" and s: "16 \<le> s"
  obtains (none) "mm_search h s (nflink h (nodelist h (mm_size2ndx s))) = Some NULL"
      "\<And>y. y \<in> set fl \<Longrightarrow> nsize h y < s"
    | (found) x where "mm_search h s (nflink h (nodelist h (mm_size2ndx s))) = Some x" "x \<in> set fl"
      "\<not> is_head h x" "s \<le> nsize h x" "\<And>y. y \<in> set fl \<Longrightarrow> s \<le> nsize h y \<Longrightarrow> nsize h x \<le> nsize h y"
proof -
  let ?n = "mm_size2ndx s"
  note ndx = size2ndx_bounds [OF s]
  obtain as bs where split: "fl = as @ nodelist h ?n # bs"
    using mm_flist_split [OF fl, of ?n] ndx(1) by auto
  note behind = mm_flist_behind [OF fl [unfolded split]]
  let ?P = "\<lambda>x. nsize h x < s"
  have res: "mm_search h s (nflink h (nodelist h ?n)) = Some (hd (dropWhile ?P bs @ [NULL]))"
    using mm_search_eq [OF behind(1,2)] by (simp add: behind(3))
  have srt: "sorted (map (fkey h) fl)" and cls: "\<And>x. x \<in> set fl \<Longrightarrow> is_head h x \<Longrightarrow> nsize h x = 0"
    using fl by (auto simp: mm_flist_def)
  have small: "nsize h y < s" if y: "y \<in> set (as @ [nodelist h ?n])" for y
  proof (cases "is_head h y")
    case True
    with y s show ?thesis using cls [of y] by (auto simp: split)
  next
    case False
    have "fkey h y \<le> fkey h (nodelist h ?n)"
      using srt y by (auto simp: split sorted_append)
    then have "2 * nsize h y + 1 \<le> 2 ^ (?n + 5)"
      using False ndx(1) by (simp add: fkey_chunk fkey_nodelist)
    then show ?thesis using ndx(2) by (simp add: power_add)
  qed
  show thesis
  proof (cases "dropWhile ?P bs")
    case Nil
    then have "\<forall>y\<in>set bs. nsize h y < s" by (simp add: dropWhile_eq_Nil_conv)
    with small have "\<And>y. y \<in> set fl \<Longrightarrow> nsize h y < s" by (auto simp: split)
    with res Nil show thesis by (intro none) simp_all
  next
    case (Cons x xs)
    then have x: "x \<in> set bs" "\<not> nsize h x < s"
      using set_dropWhileD [of x ?P bs] dropWhile_eq_Cons_conv [of ?P bs x xs] by auto
    then have nh: "\<not> is_head h x"
      using cls [of x] s by (auto simp: split)
    have bs: "bs = takeWhile ?P bs @ x # xs"
      by (metis Cons takeWhile_dropWhile_id)
    have least: "nsize h x \<le> nsize h y" if y: "y \<in> set fl" "s \<le> nsize h y" for y
    proof -
      have "y \<in> set bs"
        using y small [of y] by (auto simp: split)
      then have "y \<in> set (x # xs)"
        using y(2) bs set_takeWhileD [of y ?P bs] by (metis Un_iff not_le set_append)
      moreover have "sorted (map (fkey h) (x # xs))"
        using srt bs unfolding split by (metis map_append sorted_append list.simps(9) sorted_simps(2))
      ultimately have "fkey h x \<le> fkey h y" by auto
      moreover have "\<not> is_head h y"
        using cls [of y] y s by auto
      ultimately show ?thesis using nh by (simp add: fkey_chunk)
    qed
    show thesis
      by (rule found [of x]) (use res Cons x nh least in \<open>auto simp: split\<close>)
  qed
qed

definition carve :: "addr \<Rightarrow> nat \<Rightarrow> nat \<Rightarrow> chunk list" where
  "carve node n s =
     (if n - s \<ge> 16 then [Chunk node s True, Chunk (node + s) (n - s) False] else [Chunk node n True])"

lemma mm_link_after_header: "same_header h (mm_link_after p n x h)"
  unfolding same_header_def
  by (rule exI [of _ "nflink (mm_link_after p n x h)"], rule exI [of _ "nblink (mm_link_after p n x h)"])
     (simp add: mm_link_after_def Let_def)

lemma mm_addfreechunk_header: "mm_addfreechunk x h = Some h' \<Longrightarrow> same_header h h'"
  unfolding mm_addfreechunk_alt Let_def by (auto simp: bind_eq_Some_conv mm_link_after_header)

lemma sem_of_same_header: "same_header h h' \<Longrightarrow> sem_of h' = sem_of h"
  by (simp add: sem_of_def same_header_simps)

text \<open>The numbers in the headers around a chunk.\<close>

lemma lastlen_le: "lastlen p cs \<le> p + csum cs"
proof (induction cs arbitrary: p)
  case (Cons c cs)
  have "lastlen (clen c) cs \<le> clen c + csum cs" by (rule Cons.IH)
  then show ?case by simp
qed simp

lemma region_bounds:
  assumes "mm_layout h" and "mm_chunks g h rs" and "k < length rs"
  shows "csum (rs ! k) < 2 ^ 31" and "g_heapstart h ! k + csum (rs ! k) < 2 ^ 32"
proof -
  have "g_heapend h ! k + 8 < 2 ^ 32 \<and> g_heapend h ! k + 8 < g_heapstart h ! k + 2 ^ 31"
    using assms by (simp add: mm_layout_def mm_chunks_def)
  then show "csum (rs ! k) < 2 ^ 31" and "g_heapstart h ! k + csum (rs ! k) < 2 ^ 32"
    using mm_chunks_region(3) [OF assms(2,3)] by linarith+
qed

lemma chunk_headers:
  assumes L: "mm_layout h" and C: "mm_chunks g h rs" and k: "k < length rs"
    and split: "rs ! k = xs @ Chunk c n u # ys"
  shows "c = g_heapstart h ! k + csum xs" and "nsize h c = n"
    and "npreceding h c = hdr u (lastlen 0 xs)" and "lastlen 0 xs < 2 ^ 31" and "n < 2 ^ 31" and "c + n < 2 ^ 32"
proof -
  show "c = g_heapstart h ! k + csum xs" and "nsize h c = n" and "npreceding h c = hdr u (lastlen 0 xs)"
    using mm_chunks_region(1) [OF C k] by (auto simp: split chunks_at_append)
  then show "lastlen 0 xs < 2 ^ 31" and "n < 2 ^ 31" and "c + n < 2 ^ 32"
    using region_bounds [OF L C k] lastlen_le [of 0 xs] by (auto simp: split)
qed

lemma hdr_simps:
  assumes "p < 2 ^ 31"
  shows "hdr u p AND 2 ^ 31 = (if u then 2 ^ 31 else 0)" "take_bit 31 (hdr u p) = p"
    "hdr u p OR 2 ^ 31 = hdr True p"
  using flag_simps [OF assms] or.right_idem [of p "2 ^ 31"] by (auto simp: hdr_def)

lemma or_hdr: "q < 2 ^ 31 \<Longrightarrow> p < 2 ^ 31 \<Longrightarrow> q OR (hdr u p AND 2 ^ 31) = hdr u q"
  using hdr_simps(1) [of p u] or_flag [of q 31] by (auto simp: hdr_def)

lemmas hdr_num = hdr_simps [simplified] or_hdr [simplified]

lemma malloc_take_spec:
  assumes P: "mm_part g h rs fl {}" and x: "node \<in> frees rs" and s: "16 \<le> s" "g dvd s" "s \<le> nsize h node"
  obtains k xs n e ys h' fl' where "k < length rs" "rs ! k = xs @ Chunk node n False # e # ys" "n = nsize h node"
    "malloc_take node s h = Some h'" "mm_part g h' (rs[k := xs @ carve node n s @ e # ys]) fl' {}"
    "sem_of h' = sem_of h" "mdata h' = mdata h" "same_globals h h'"
proof -
  have LC: "mm_layout h" "mm_chunks g h rs"
    using P by (auto simp: mm_part_def)
  obtain k xs n zs where k: "k < length rs" "rs ! k = xs @ Chunk node n False # zs" "xs \<noteq> []" "zs \<noteq> []"
    "16 \<le> n" "g dvd n" "nsize h node = n"
    using freesE [OF LC(2) x] by metis
  then obtain e ys where zs: "zs = e # ys" by (cases zs) auto
  obtain ea m u where e: "e = Chunk ea m u" by (cases e)
  note sp = k(2) [unfolded zs]
  let ?p = "lastlen 0 xs" and ?c = "carve node n s"
  note hn = chunk_headers [OF LC k(1) sp]
  have sp2: "rs ! k = (xs @ [Chunk node n False]) @ Chunk ea m u # ys"
    using sp e by simp
  note he = chunk_headers [OF LC k(1) sp2, simplified]
  obtain h2 fl2 where h2: "mm_unlink node h = Some h2" "mm_part g h2 rs fl2 {node}" "same_header h h2"
    and same: "nsize h2 = nsize h" "npreceding h2 = npreceding h"
    using mm_part_unlink [OF P x] by auto
  have G2: "same_globals h h2" using same_header_globals [OF h2(3)] .
  let ?rem = "n - s"
  let ?S = "if ?rem \<ge> 16 then (nsize h)(node + s := ?rem, node := s) else nsize h"
  let ?Q' = "if ?rem \<ge> 16 then (npreceding h)(node + s := s, ea := hdr u ?rem) else npreceding h"
  let ?Q = "?Q'(node := hdr True ?p)"
  let ?h3 = "with_headers ?S ?Q' h2" and ?h3' = "with_headers ?S ?Q h2"
  have ea: "ea = node + n" using he(1) hn(1) by simp
  have R: "headers_replaced h2 ?h3' (g_heapstart h2 ! k + csum xs) (lastlen 0 xs) ?c e"
    using s k(5,7) hn ea he(2,3) G2
    by (auto simp: headers_replaced_def same_globals_def carve_def e same hdr_def [of False])
  have ok: "\<forall>c\<in>set ?c. chunk_ok g c" and tot: "csum ?c = csum [Chunk node n False]"
    using s k(5-7) dvd_diff_nat [of g n s] by (auto simp: carve_def chunk_ok_def)
  have co: "coalesced (xs @ ?c @ e # ys)"
    using mm_chunks_region(2) [OF LC(2) k(1)] unfolding sp region_wf_def
    by (auto simp: coalesced_append coalesced_Cons carve_def)
  have P3: "mm_part g ?h3' (rs[k := xs @ ?c @ e # ys]) fl2 (faddr ?c)"
    by (rule mm_part_replace [OF _ k(1) _ k(3) R tot ok co]) (use h2(2) sp in auto)
  have final: "\<exists>h' fl'. malloc_take node s h = Some h' \<and> mm_part g h' (rs[k := xs @ ?c @ e # ys]) fl' {} \<and>
    sem_of h' = sem_of h \<and> mdata h' = mdata h \<and> same_globals h h'"
  proof (cases "?rem \<ge> 16")
    case False
    have "with_headers (nsize h) Q h2 = h2\<lparr>npreceding := Q\<rparr>" for Q
      using same(1) by (cases h2) auto
    with False have "malloc_take node s h = Some ?h3'"
      using k(7) hn(3,4) by (simp add: malloc_take_def h2(1) same Let_def hdr_num)
    moreover have "faddr ?c = {}" using False by (simp add: carve_def)
    ultimately show ?thesis
      using P3 G2 by (auto simp: sem_of_def same_header_simps [OF h2(3)] same_globals_def)
  next
    case True
    then have fc: "faddr ?c = {node + s}" by (simp add: carve_def)
    have "node + s \<in> frees (rs[k := xs @ ?c @ e # ys])"
      using k(1) True by (auto simp: frees_nth carve_def intro!: exI [of _ k])
    then obtain h4 fl4 where h4: "mm_addfreechunk (node + s) ?h3' = Some h4"
      "mm_part g h4 (rs[k := xs @ ?c @ e # ys]) fl4 {}" "same_header ?h3' h4"
      using mm_part_add [OF P3] fc by auto
    have eq: "?h3' = ?h3\<lparr>npreceding := ?Q\<rparr>" by simp
    have "map_option (\<lambda>h. h\<lparr>npreceding := ?Q\<rparr>) (mm_addfreechunk (node + s) ?h3) = Some h4"
      using h4(1) unfolding eq mm_addfreechunk_preceding .
    then obtain h4' where h4': "mm_addfreechunk (node + s) ?h3 = Some h4'" "h4 = h4'\<lparr>npreceding := ?Q\<rparr>"
      unfolding map_option_eq_Some by blast
    have np: "npreceding h4' = ?Q'"
      using same_header_simps [OF mm_addfreechunk_header [OF h4'(1)]] by simp
    have o: "n - s OR (hdr u n AND 2 ^ 31) = hdr u (n - s)" and ns: "n \<noteq> s"
      using True hn(5) or_hdr [of "n - s" n u] by simp_all
    have "malloc_take node s h = Some (set_preceding node (npreceding h4' node OR 2 ^ 31) h4')"
      using True k(7) ea s he(3) h4'(1) ns
      by (simp add: malloc_take_def h2(1) same Let_def o [simplified] fun_upd_twist)
    also have "set_preceding node (npreceding h4' node OR 2 ^ 31) h4' = h4"
      using h4'(2) np hn(3,4) ea k(5) s by (simp add: hdr_num)
    finally show ?thesis
      using h4 G2 same_header_simps [OF h4(3)]
      by (auto simp: sem_of_def same_header_simps [OF h2(3)] same_globals_def)
  qed
  then show thesis
    using that [OF k(1) sp k(7) [symmetric]] by blast
qed


text \<open>The size of the chunk for a request, which does not wrap around.\<close>

lemma request_size:
  assumes "0 < sz" and "sz + 23 < 2 ^ 32"
  shows "sz + 8 \<le> MM_ALIGN_UP (add32 sz SIZEOF_MM_ALLOCNODE)"
    and "MM_ALIGN_UP (add32 sz SIZEOF_MM_ALLOCNODE) < sz + 24"
    and "16 dvd MM_ALIGN_UP (add32 sz SIZEOF_MM_ALLOCNODE)"
    and "16 \<le> MM_ALIGN_UP (add32 sz SIZEOF_MM_ALLOCNODE)"
proof -
  have e: "add32 sz SIZEOF_MM_ALLOCNODE = sz + 8"
    using assms by (simp add: add32_small)
  note b = align_up_bounds [of "sz + 8"]
  show "sz + 8 \<le> MM_ALIGN_UP (add32 sz SIZEOF_MM_ALLOCNODE)"
    and "MM_ALIGN_UP (add32 sz SIZEOF_MM_ALLOCNODE) < sz + 24"
    and d: "16 dvd MM_ALIGN_UP (add32 sz SIZEOF_MM_ALLOCNODE)"
    unfolding e using b assms by auto
  then show "16 \<le> MM_ALIGN_UP (add32 sz SIZEOF_MM_ALLOCNODE)"
    by (intro dvd_imp_le) auto
qed

lemma malloc_ndx: "(if s \<ge> MM_MAX_CHUNK then MM_NNODES - 1 else mm_size2ndx s) = mm_size2ndx s"
  by (simp add: mm_size2ndx_def)

definition chunk_for :: "nat \<Rightarrow> nat" where
  "chunk_for sz = MM_ALIGN_UP (add32 sz SIZEOF_MM_ALLOCNODE)"

lemma malloc_unfold:
  "0 < sz \<Longrightarrow> malloc pid sz h = do {
     h \<leftarrow> mm_takesemaphore pid h;
     node \<leftarrow> mm_search h (chunk_for sz) (nflink h (nodelist h (mm_size2ndx (chunk_for sz))));
     (ret, h) \<leftarrow> (if node \<noteq> NULL then do { h \<leftarrow> malloc_take node (chunk_for sz) h; Some (node + 8, h) }
                 else Some (NULL, h));
     h \<leftarrow> mm_givesemaphore pid h;
     Some (ret, h)
   }"
  unfolding malloc_def Let_def chunk_for_def malloc_ndx SIZEOF_MM_ALLOCNODE_def by simp

lemma malloc_spec:
  assumes I: "mm_inv g h rs fl" and g: "g dvd 16" and t: "mm_can_take pid h"
    and sz: "0 < sz" "sz + 23 < 2 ^ 32"
  obtains (none) "malloc pid sz h = Some (NULL, h)" "\<And>x. x \<in> frees rs \<Longrightarrow> nsize h x < chunk_for sz"
    | (some) k xs node n e ys h' fl' where "k < length rs" "rs ! k = xs @ Chunk node n False # e # ys"
      "chunk_for sz \<le> n" "\<And>x. x \<in> frees rs \<Longrightarrow> chunk_for sz \<le> nsize h x \<Longrightarrow> n \<le> nsize h x"
      "malloc pid sz h = Some (node + 8, h')"
      "mm_inv g h' (rs[k := xs @ carve node n (chunk_for sz) @ e # ys]) fl'"
      "sem_of h' = sem_of h" "mdata h' = mdata h" "same_globals h h'"
proof -
  let ?s = "chunk_for sz"
  have s: "16 \<le> ?s" "g dvd ?s"
    using request_size [OF sz] dvd_trans [OF g] by (auto simp: chunk_for_def)
  obtain sm where take: "mm_takesemaphore pid h = Some (with_sem sm h)"
    and give: "\<And>h'. sem_of h' = sm \<Longrightarrow> mm_givesemaphore pid h' = Some (with_sem (sem_of h) h')"
    using takesemaphore_spec [OF t] by metis
  let ?h1 = "with_sem sm h"
  have P1: "mm_part g ?h1 rs fl {}"
    using I by (auto simp: mm_inv_part intro: mm_part_globals)
  then have F: "mm_flist ?h1 fl" and fl: "set fl = heads ?h1 \<union> frees rs" and LC: "mm_layout ?h1" "mm_chunks g ?h1 rs"
    by (auto simp: mm_part_def)
  show thesis
  proof (cases rule: mm_search_best [OF F s(1), case_names none found])
    case none
    then have "malloc pid sz h = Some (NULL, h)"
      using sz(1) by (simp add: malloc_unfold take give)
    with none(2) fl show thesis by (intro that(1)) auto
  next
    case (found x)
    have x: "x \<in> frees rs"
      using found(2,3) fl by (auto simp: heads_iff)
    have le: "?s \<le> nsize ?h1 x" using found(4) by simp
    obtain k xs n e ys h2 fl' where r: "k < length rs" "rs ! k = xs @ Chunk x n False # e # ys" "n = nsize ?h1 x"
      "malloc_take x ?s ?h1 = Some h2" "mm_part g h2 (rs[k := xs @ carve x n ?s @ e # ys]) fl' {}"
      "sem_of h2 = sem_of ?h1" "mdata h2 = mdata ?h1" "same_globals ?h1 h2"
      using malloc_take_spec [OF P1 x s le] by metis
    let ?h' = "with_sem (sem_of h) h2"
    have "malloc pid sz h = Some (x + 8, ?h')"
      using sz(1) found(1) r(4,6) frees_not_head(2) [OF LC x] by (simp add: malloc_unfold take give)
    moreover have "mm_inv g ?h' (rs[k := xs @ carve x n ?s @ e # ys]) fl'"
      using r(5) by (auto simp: mm_inv_part intro: mm_part_globals)
    moreover have "sem_of ?h' = sem_of h" "mdata ?h' = mdata h" "same_globals h ?h'" "?s \<le> n"
      using r le by (auto simp: same_globals_def)
    moreover have "n \<le> nsize h y" if "y \<in> frees rs" "?s \<le> nsize h y" for y
      using found(5) [of y] that fl r(3) by simp
    ultimately show thesis
      by (intro that(2) [OF r(1,2)])
  qed
qed

end
