(* ===== verification/Mm_Free.thy ===== *)
theory Mm_Free
  imports Mm_Malloc
begin

section \<open>free\<close>

text \<open>
  \<open>free\<close> replaces the chunk and its free neighbours by one free chunk: the two merges
  first, each stated over the headers it changes, then the whole operation.
\<close>

lemma mm_unlink_header_upds:
  "mm_unlink x (h\<lparr>npreceding := Q\<rparr>) = map_option (\<lambda>h. h\<lparr>npreceding := Q\<rparr>) (mm_unlink x h)"
  "mm_unlink x (h\<lparr>nsize := S\<rparr>) = map_option (\<lambda>h. h\<lparr>nsize := S\<rparr>) (mm_unlink x h)"
  by (simp_all add: mm_unlink_def Let_def)

lemma free_merge_next_spec:
  assumes P: "mm_part g h rs fl {}" and k: "k < length rs"
    and split: "rs ! k = xs @ Chunk node n True # ys" and ne: "xs \<noteq> []" "ys \<noteq> []"
  obtains N e zs hN fl' where "ys = N @ e # zs" "N = [] \<or> (\<exists>c. N = [c] \<and> \<not> cused c)" "cused e"
    "free_merge_next node (set_preceding node q h) =
       Some (caddr e, with_headers ((nsize h)(node := n + csum N))
                        ((npreceding h)(node := q, caddr e := hdr True (n + csum N))) hN)"
    "mm_part g hN rs fl' (faddr N)" "same_header h hN" "caddr e = node + n + csum N"
proof -
  have LC: "mm_layout h" "mm_chunks g h rs"
    using P by (auto simp: mm_part_def)
  note hn = chunk_headers [OF LC k split]
  obtain c m u ys' where ys: "ys = Chunk c m u # ys'"
    using ne(2) by (metis chunk.exhaust list.exhaust)
  have split2: "rs ! k = (xs @ [Chunk node n True]) @ Chunk c m u # ys'"
    using split ys by simp
  note hc = chunk_headers [OF LC k split2, simplified]
  have wf: "region_wf g (rs ! k)" using mm_chunks_region(2) [OF LC(2) k] .
  have n: "0 < n" using region_wf_pos [OF wf, of "Chunk node n True"] split by simp
  have c: "c = node + n" using hn(1) hc(1) by simp
  show thesis
  proof (cases u)
    case True
    have "free_merge_next node (set_preceding node q h) =
      Some (c, with_headers (nsize h) ((npreceding h)(node := q)) h)"
      using hn hc c n True by (simp add: free_merge_next_def hdr_num)
    moreover have "(nsize h)(node := n) = nsize h" "(npreceding h)(node := q, c := hdr True n) = (npreceding h)(node := q)"
      using hn hc c n True by (auto simp: fun_eq_iff)
    ultimately show thesis
      using that [of "[]" "Chunk c m u" ys' h fl] ys True P c
      by (simp add: same_header_def) (metis mm_heap.surjective mm_heap.update_convs(3,4))
  next
    case False
    have "c \<in> frees rs"
      using k split2 False by (auto simp: frees_nth intro!: exI [of _ k])
    then obtain hN fl' where hN: "mm_unlink c h = Some hN" "mm_part g hN rs fl' {c}" "same_header h hN"
      "nsize hN = nsize h" "npreceding hN = npreceding h"
      using mm_part_unlink [OF P, of c] by auto
    have ys'ne: "ys' \<noteq> []"
      using region_wf_inner(2) [OF wf [unfolded split2]] False by simp
    then obtain a l v zs where ys': "ys' = Chunk a l v # zs"
      by (metis chunk.exhaust list.exhaust)
    have v: v
      using wf False unfolding split2 ys' region_wf_def by (simp add: coalesced_append)
    have split3: "rs ! k = (xs @ [Chunk node n True, Chunk c m u]) @ Chunk a l v # zs"
      using split2 ys' by simp
    note ha = chunk_headers [OF LC k split3, simplified]
    have a: "a = node + n + m" using ha(1) hn(1) by simp
    have m: "0 < m" using region_wf_pos [OF wf, of "Chunk c m u"] split2 by simp
    have "n + m < 2 ^ 31"
      using region_bounds(1) [OF LC k] split3 by simp
    then have o: "n + m OR (hdr v m AND 2 ^ 31) = hdr True (n + m)"
      using or_hdr [of "n + m" m v] ha v by simp
    have "free_merge_next node (set_preceding node q h) =
      Some (a, with_headers ((nsize h)(node := n + m)) ((npreceding h)(node := q, a := hdr True (n + m))) hN)"
      using hn hc ha c a n m False hN o [simplified]
      by (simp add: free_merge_next_def Let_def mm_unlink_header_upds hdr_num)
    then show thesis
      using that [of "[Chunk c m u]" "Chunk a l v" zs hN fl'] ys ys' False v hN a
      by simp
  qed
qed

lemma free_merge_prev_spec:
  assumes P: "mm_part g h rs fl A" and k: "k < length rs"
    and split: "rs ! k = xs @ Chunk node n True # ys" and ne: "xs \<noteq> []"
    and A: "\<And>x. x \<in> A \<Longrightarrow> node \<le> x"
    and S: "\<And>x. x < node \<Longrightarrow> S x = nsize h x" and Q: "\<And>x. x < node \<Longrightarrow> Q x = npreceding h x"
    and node: "Q node = lastlen 0 xs" and nxt: "node < nxt" "Q nxt = hdr True (S node)"
    and sum: "csum xs + S node < 2 ^ 31"
  obtains P' xs0 hP fl' where "xs = xs0 @ P'" "xs0 \<noteq> []" "P' = [] \<or> (\<exists>c. P' = [c] \<and> \<not> cused c)" "cused (last xs0)"
    "free_merge_prev node nxt (with_headers S Q h) =
       Some (node - csum P', with_headers (S(node - csum P' := csum P' + S node))
                              (Q(nxt := hdr True (csum P' + S node))) hP)"
    "mm_part g hP rs fl' (faddr P' \<union> A)" "same_header h hP" "csum P' \<le> node"
    "Q (node - csum P') = lastlen 0 xs0"
proof -
  have LC: "mm_layout h" "mm_chunks g h rs"
    using P by (auto simp: mm_part_def)
  note hn = chunk_headers [OF LC k split]
  obtain xs0 c m u where xs: "xs = xs0 @ [Chunk c m u]"
    using ne by (metis chunk.exhaust rev_exhaust)
  have split2: "rs ! k = xs0 @ Chunk c m u # Chunk node n True # ys"
    using split xs by simp
  note hc = chunk_headers [OF LC k split2]
  have wf: "region_wf g (rs ! k)" using mm_chunks_region(2) [OF LC(2) k] .
  have m: "0 < m" using region_wf_pos [OF wf, of "Chunk c m u"] split2 by simp
  have c: "node = c + m" using hn(1) hc(1) xs by simp
  show thesis
  proof (cases u)
    case True
    have "free_merge_prev node nxt (with_headers S Q h) = Some (node, with_headers S Q h)"
      using hc c m True node xs Q [of c] by (simp add: free_merge_prev_def hdr_num)
    moreover have "S(node := S node) = S" "Q(nxt := hdr True (S node)) = Q"
      using nxt by (auto simp: fun_eq_iff)
    ultimately show thesis
      using that [of xs "[]" h fl] ne True P xs node
      by (simp add: same_header_def) (metis mm_heap.surjective mm_heap.update_convs(3,4))
  next
    case False
    have "c \<in> frees rs" "c \<notin> A"
      using k split2 False A [of c] c m by (auto simp: frees_nth intro!: exI [of _ k])
    then obtain hP fl' where hP: "mm_unlink c h = Some hP" "mm_part g hP rs fl' (insert c A)" "same_header h hP"
      using mm_part_unlink [OF P, of c] by auto
    have ne0: "xs0 \<noteq> []"
      using region_wf_inner(1) [OF wf [unfolded split2]] False by simp
    have u0: "cused (last xs0)"
      using wf False ne0 unfolding split2 region_wf_def by (simp add: coalesced_append)
    have o: "m + S node OR (hdr True (S node) AND 2 ^ 31) = hdr True (m + S node)"
      using or_hdr [of "m + S node" "S node" True] sum xs by simp
    have "free_merge_prev node nxt (with_headers S Q h) =
      Some (c, with_headers (S(c := m + S node)) (Q(nxt := hdr True (m + S node))) hP)"
      using hc c m False node xs Q [of c] S [of c] hP(1) nxt o [simplified]
      by (simp add: free_merge_prev_def Let_def mm_unlink_headers hdr_num)
    then show thesis
      using that [of xs0 "[Chunk c m u]" hP fl'] ne0 u0 hP xs c False hc Q [of c] m by (simp add: hdr_def)
  qed
qed

text \<open>The chunks of a region when the allocated chunk at \<open>node\<close> is released.\<close>

definition release :: "chunk list \<Rightarrow> addr \<Rightarrow> nat \<Rightarrow> chunk list \<Rightarrow> chunk list" where
  "release xs node n ys =
     (let (xs', P) = (if cused (last xs) then (xs, []) else (butlast xs, [last xs]));
          (N, ys') = (if cused (hd ys) then ([], ys) else ([hd ys], tl ys))
      in xs' @ Chunk (node - csum P) (csum P + n + csum N) False # ys')"

lemma free_chunk_ok: "region_wf g cs \<Longrightarrow> c \<in> set cs \<Longrightarrow> \<not> cused c \<Longrightarrow> chunk_ok g c"
  by (metis region_wf_inner(3) split_list)

lemma free_spec:
  assumes I: "mm_inv g h rs fl" and t: "mm_can_take pid h" and k: "k < length rs"
    and split: "rs ! k = xs @ Chunk node n True # ys" and n: "16 \<le> n"
  obtains h' fl' where "free pid (node + 8) h = Some h'" "mm_inv g h' (rs[k := release xs node n ys]) fl'"
    "sem_of h' = sem_of h" "mdata h' = mdata h" "same_globals h h'"
proof -
  obtain sm where take: "mm_takesemaphore pid h = Some (with_sem sm h)"
    and give: "\<And>h'. sem_of h' = sm \<Longrightarrow> mm_givesemaphore pid h' = Some (with_sem (sem_of h) h')"
    using takesemaphore_spec [OF t] by metis
  let ?h1 = "with_sem sm h"
  have P1: "mm_part g ?h1 rs fl {}"
    using I by (auto simp: mm_inv_part intro: mm_part_globals)
  then have LC: "mm_layout ?h1" "mm_chunks g ?h1 rs"
    by (auto simp: mm_part_def)
  note hn = chunk_headers [OF LC k split]
  have wf: "region_wf g (rs ! k)" using mm_chunks_region(2) [OF LC(2) k] .
  note inner = region_wf_inner [OF wf [unfolded split]]
  have ne: "xs \<noteq> []" "ys \<noteq> []" and g: "g dvd n"
    using inner n by (auto simp: chunk_ok_def)
  let ?q = "lastlen 0 xs"
  obtain N e zs hN flN where N: "ys = N @ e # zs" "N = [] \<or> (\<exists>c. N = [c] \<and> \<not> cused c)" "cused e"
    and mnext: "free_merge_next node (set_preceding node ?q ?h1) =
       Some (caddr e, with_headers ((nsize ?h1)(node := n + csum N))
                        ((npreceding ?h1)(node := ?q, caddr e := hdr True (n + csum N))) hN)"
    and PN: "mm_part g hN rs flN (faddr N)" "same_header ?h1 hN" "caddr e = node + n + csum N"
    using free_merge_next_spec [OF P1 k split ne, of ?q] by metis
  note hN = same_header_simps [OF PN(2)]
  let ?S = "(nsize h)(node := n + csum N)" and ?Q = "(npreceding h)(node := ?q, caddr e := hdr True (n + csum N))"
  have sum: "csum xs + (n + csum N) < 2 ^ 31"
    using region_bounds(1) [OF LC k] split N(1) by simp
  have Nr: "node + n \<le> x" if x: "x \<in> faddr N" for x
  proof -
    have "chunks_at ?h1 (node + n) n N"
      using mm_chunks_region(1) [OF LC(2) k] hn(1) by (simp add: split N(1) chunks_at_append)
    moreover obtain c where "c \<in> set N" "caddr c = x" using x by (auto simp: faddr_def)
    ultimately show ?thesis using chunks_at_range by blast
  qed
  have prem: "\<And>x. x \<in> faddr N \<Longrightarrow> node \<le> x" "\<And>x. x < node \<Longrightarrow> ?S x = nsize hN x"
    "\<And>x. x < node \<Longrightarrow> ?Q x = npreceding hN x" "?Q node = lastlen 0 xs" "node < caddr e"
    "?Q (caddr e) = hdr True (?S node)" "csum xs + ?S node < 2 ^ 31"
    using Nr PN(3) n sum hN by (auto dest: Nr)
  obtain P' xs0 hP flP where P': "xs = xs0 @ P'" "xs0 \<noteq> []" "P' = [] \<or> (\<exists>c. P' = [c] \<and> \<not> cused c)"
      "cused (last xs0)"
    and mprev: "free_merge_prev node (caddr e) (with_headers ?S ?Q hN) =
       Some (node - csum P', with_headers (?S(node - csum P' := csum P' + ?S node))
                              (?Q(caddr e := hdr True (csum P' + ?S node))) hP)"
    and PP: "mm_part g hP rs flP (faddr P' \<union> faddr N)" "same_header hN hP" "csum P' \<le> node"
      "?Q (node - csum P') = lastlen 0 xs0"
    by (rule free_merge_prev_spec [OF PN(1) k split ne(1) prem])
  note hP = same_header_simps [OF PP(2)]
  let ?tot = "csum P' + n + csum N" and ?c0 = "node - csum P'"
  let ?mid = "P' @ [Chunk node n True] @ N" and ?new = "[Chunk (node - csum P') ?tot False]"
  let ?h3 = "with_headers (?S(?c0 := ?tot)) (?Q(caddr e := hdr True ?tot)) hP"
  have G: "same_globals h hP"
    using hN hP by (simp add: same_globals_def)
  have c0: "?c0 = g_heapstart hP ! k + csum xs0"
    using hn(1) G P'(1) by (simp add: same_globals_def)
  have R: "headers_replaced hP ?h3 (g_heapstart hP ! k + csum xs0) (lastlen 0 xs0) ?new e"
    unfolding c0 [symmetric]
    using PP(3,4) PN(3) n N(3) hN hP by (auto simp: headers_replaced_def same_globals_def hdr_def)
  have fin: "P' = [] \<or> (\<exists>c. P' = [c] \<and> chunk_ok g c)" "N = [] \<or> (\<exists>c. N = [c] \<and> chunk_ok g c)"
    using free_chunk_ok [OF wf] P'(1,3) N(1,2) by (auto simp: split)
  then have ok: "\<forall>c\<in>set ?new. chunk_ok g c"
    using g n by (auto simp: chunk_ok_def)
  have co: "coalesced (xs0 @ ?new @ e # zs)"
    using wf P'(2,4) N(3) unfolding split P'(1) N(1) region_wf_def
    by (auto simp: coalesced_append coalesced_Cons)
  have fP: "faddr P' \<union> faddr N = faddr ?mid" by simp
  have P3: "mm_part g ?h3 (rs[k := xs0 @ ?new @ e # zs]) flP (faddr ?new)"
    by (rule mm_part_replace [OF PP(1) [unfolded fP] k _ P'(2) R _ ok co]) (simp_all add: split P'(1) N(1))
  have "?c0 \<in> frees (rs[k := xs0 @ ?new @ e # zs])"
    using k by (auto simp: frees_nth intro!: exI [of _ k])
  then obtain h4 fl4 where h4: "mm_addfreechunk ?c0 ?h3 = Some h4"
    "mm_part g h4 (rs[k := xs0 @ ?new @ e # zs]) fl4 {}" "same_header ?h3 h4"
    using mm_part_add [OF P3, of ?c0] by auto
  let ?h' = "with_sem (sem_of h) h4"
  note hs = same_header_simps [OF h4(3)] hP hN
  have rel: "xs0 @ ?new @ e # zs = release xs node n ys"
    using P' N by (auto simp: release_def)
  have q: "take_bit 31 (npreceding h node) = ?q"
    using hn(3,4) by (simp add: hdr_num)
  have "sem_of h4 = sm"
    using hs by (simp add: sem_of_def with_sem_def split: prod.splits)
  then have "free pid (node + 8) h = Some ?h'"
    using take give mnext mprev h4(1) q by (simp add: free_def add.assoc)
  moreover have "mm_inv g ?h' (rs[k := release xs node n ys]) fl4"
    using h4(2) unfolding rel by (auto simp: mm_inv_part intro: mm_part_globals)
  moreover have "sem_of ?h' = sem_of h" "mdata ?h' = mdata h" "same_globals h ?h'"
    using hs by (simp_all add: same_globals_def)
  ultimately show thesis by (rule that)
qed

end
