(* ===== verification/Mm_Init.thy ===== *)
theory Mm_Init
  imports Mm_Free
begin

section \<open>Initialization and statistics\<close>

text \<open>
  \<open>mm_initialize\<close> establishes the heap invariant and \<open>mm_addregion\<close> keeps it; the walk of
  \<open>mallinfo\<close> ends and its totals are those of the abstract heap.
\<close>

subsection \<open>The table of list heads\<close>

lemma clear_nodes:
  fixes n h
  defines "h' \<equiv> fold mm_clear_node [0..<n] h"
  shows "g_nodelist h' = g_nodelist h" "same_globals h h'" "mdata h' = mdata h"
    and "\<And>i. i < n \<Longrightarrow> nsize h' (nodelist h i) = 0 \<and> nflink h' (nodelist h i) = NULL \<and> nblink h' (nodelist h i) = NULL"
proof -
  have *: "g_nodelist h' = g_nodelist h \<and> same_globals h h' \<and> mdata h' = mdata h \<and>
    (\<forall>i<n. nsize h' (nodelist h i) = 0 \<and> nflink h' (nodelist h i) = NULL \<and> nblink h' (nodelist h i) = NULL)"
    unfolding h'_def
  proof (induction n)
    case (Suc n)
    define H where "H = fold mm_clear_node [0..<n] h"
    have e: "fold mm_clear_node [0..<Suc n] h = mm_clear_node n H"
      by (simp add: H_def)
    have nl [simp]: "nodelist H = nodelist h"
      using Suc by (simp add: nodelist_def fun_eq_iff H_def)
    show ?case
      unfolding e using Suc [folded H_def]
      by (auto simp: mm_clear_node_def same_globals_def less_Suc_eq Let_def)
  qed (simp add: same_globals_def)
  from * show "g_nodelist h' = g_nodelist h" "same_globals h h'" "mdata h' = mdata h" by auto
  show "\<And>i. i < n \<Longrightarrow> nsize h' (nodelist h i) = 0 \<and> nflink h' (nodelist h i) = NULL \<and> nblink h' (nodelist h i) = NULL"
    using * by blast
qed

lemma link_nodes:
  fixes n h
  defines "h' \<equiv> fold mm_link_node [1..<Suc n] h"
  shows "same_globals h h'" "nsize h' = nsize h" "mdata h' = mdata h"
    and "\<And>i. i < n \<Longrightarrow> nflink h' (nodelist h i) = nodelist h (Suc i)"
    and "\<And>i. i < n \<Longrightarrow> nblink h' (nodelist h (Suc i)) = nodelist h i"
    and "nflink h' (nodelist h n) = nflink h (nodelist h n)" and "nblink h' (nodelist h 0) = nblink h (nodelist h 0)"
proof -
  have *: "same_globals h h' \<and> nsize h' = nsize h \<and> mdata h' = mdata h \<and>
    (\<forall>i<n. nflink h' (nodelist h i) = nodelist h (Suc i) \<and> nblink h' (nodelist h (Suc i)) = nodelist h i) \<and>
    (\<forall>i\<ge>n. nflink h' (nodelist h i) = nflink h (nodelist h i)) \<and> nblink h' (nodelist h 0) = nblink h (nodelist h 0)"
    unfolding h'_def
  proof (induction n)
    case (Suc n)
    define H where "H = fold mm_link_node [1..<Suc n] h"
    have e: "fold mm_link_node [1..<Suc (Suc n)] h = mm_link_node (Suc n) H"
      by (simp add: H_def)
    have nl [simp]: "nodelist H = nodelist h"
      using Suc by (simp add: same_globals_def nodelist_def fun_eq_iff H_def)
    show ?case
      unfolding e using Suc [folded H_def] by (auto simp: mm_link_node_def same_globals_def less_Suc_eq)
  qed (simp add: same_globals_def)
  then show "same_globals h h'" "nsize h' = nsize h" "mdata h' = mdata h"
    "\<And>i. i < n \<Longrightarrow> nflink h' (nodelist h i) = nodelist h (Suc i)"
    "\<And>i. i < n \<Longrightarrow> nblink h' (nodelist h (Suc i)) = nodelist h i"
    "nflink h' (nodelist h n) = nflink h (nodelist h n)" "nblink h' (nodelist h 0) = nblink h (nodelist h 0)"
    by auto
qed

lemma dpath_table:
  assumes "\<And>i. i < m \<Longrightarrow> fl (f i) = f (Suc i)" and "\<And>i. i < m \<Longrightarrow> bl (f (Suc i)) = f i"
    and "fl (f m) = n" and "bl (f 0) = p"
  shows "dpath fl bl p (map f [0..<Suc m]) n"
  using assms
proof (induction m arbitrary: n)
  case (Suc m)
  then have "dpath fl bl p (map f [0..<Suc m]) (f (Suc m))" by simp
  with Suc.prems show ?case
    by (subst upt_Suc) (simp add: dpath_append del: upt_Suc, simp)
qed simp

text \<open>The heap without regions.\<close>

lemma mm_part_empty:
  assumes "g_nodelist h \<noteq> NULL" and "length (g_heapend h) = length (g_heapstart h)"
    and "g_nregions h = 0" and "g_heapsize h = 0"
    and "\<And>i. i < 19 \<Longrightarrow> nsize h (nodelist h i) = 0"
    and "dpath (nflink h) (nblink h) NULL (map (nodelist h) [0..<19]) NULL"
  shows "mm_part g h [] (map (nodelist h) [0..<19]) {}"
proof -
  have "map (fkey h) (map (nodelist h) [0..<19]) = map (\<lambda>i. 2 ^ (i + 5)) [0..<19]"
    by (simp add: fkey_nodelist del: upt_rec_numeral)
  moreover have "sorted (map (\<lambda>i. 2 ^ (i + 5) :: nat) [0..<19])"
    by (simp add: upt_rec)
  ultimately have srt: "sorted (map (fkey h) (map (nodelist h) [0..<19]))"
    by metis
  have dist: "distinct (map (nodelist h) [0..<19])"
    by (auto simp: distinct_map inj_on_def)
  have "mm_flist h (map (nodelist h) [0..<19])"
    using assms srt dist by (auto simp: mm_flist_def heads_def simp del: map_map upt_rec_numeral) (auto simp: nodelist_def)
  then show ?thesis
    using assms by (auto simp: mm_part_def mm_layout_def mm_chunks_def frees_def heads_def)
qed

subsection \<open>Adding a region\<close>

text \<open>A region that may be added: not too small or too large, and apart from everything else.\<close>

definition region_fits :: "addr \<Rightarrow> nat \<Rightarrow> mm_heap \<Rightarrow> bool" where
  "region_fits start sz h \<longleftrightarrow> 64 \<le> sz \<and> sz < 2 ^ 31 \<and> start + sz < 2 ^ 32 \<and>
     g_heapsize h + sz < 2 ^ 32 \<and> g_nregions h < length (g_heapstart h) \<and>
     (start + sz \<le> g_nodelist h \<or> g_nodelist h + 16 * 19 \<le> start) \<and>
     (\<forall>i<g_nregions h. g_heapend h ! i + 8 \<le> start \<or> start + sz \<le> g_heapstart h ! i)"

definition fresh_region :: "addr \<Rightarrow> nat \<Rightarrow> chunk list" where
  "fresh_region start sz =
     (let b = MM_ALIGN_UP start; e = MM_ALIGN_DOWN (start + sz)
      in [Chunk b 8 True, Chunk (b + 8) (e - b - 16) False, Chunk (e - 8) 8 True])"

lemma region_bounds_aligned:
  assumes "64 \<le> sz" and "start + sz < 2 ^ 32"
  defines "b \<equiv> MM_ALIGN_UP start" and "e \<equiv> MM_ALIGN_DOWN (start + sz)"
  shows "start \<le> b" "e \<le> start + sz" "16 dvd b" "16 dvd e" "b + 48 \<le> e" "16 dvd e - b - 16"
proof -
  have u: "start \<le> b" "b < start + 16" "16 dvd b"
    unfolding b_def by (rule align_up_bounds; use assms in simp)+
  have e: "e = start + sz - (start + sz) mod 16"
    unfolding e_def by (rule align_down) (use assms in simp)
  then have d: "e \<le> start + sz" "16 dvd e" "start + sz < e + 16"
    by (simp_all add: dvd_minus_mod, presburger?)
  show "start \<le> b" "e \<le> start + sz" "16 dvd b" "16 dvd e" using u d by auto
  have "b + 32 < e" using u d assms by simp
  then show "b + 48 \<le> e" using u(3) d(2) by presburger
  show "16 dvd e - b - 16" using u(3) d(2) by (intro dvd_diff_nat) auto
qed

lemma mm_chunks_snoc:
  assumes "mm_chunks g h rs" and "g_nregions h' = Suc (g_nregions h)"
    and "\<And>i. i < g_nregions h \<Longrightarrow> g_heapstart h' ! i = g_heapstart h ! i \<and> g_heapend h' ! i = g_heapend h ! i"
    and "\<And>i c. i < length rs \<Longrightarrow> c \<in> set (rs ! i) \<Longrightarrow>
           nsize h' (caddr c) = nsize h (caddr c) \<and> npreceding h' (caddr c) = npreceding h (caddr c)"
    and "chunks_at h' (g_heapstart h' ! g_nregions h) 0 r" and "region_wf g r"
    and "g_heapstart h' ! g_nregions h + csum r = g_heapend h' ! g_nregions h + 8"
    and "g_heapsize h' = g_heapsize h + csum r"
  shows "mm_chunks g h' (rs @ [r])"
  unfolding mm_chunks_def
proof (intro conjI allI impI)
  have len: "length rs = g_nregions h" using assms(1) by (simp add: mm_chunks_def)
  fix i assume "i < length (rs @ [r])"
  then consider "i < length rs" | "i = length rs" by fastforce
  then have "chunks_at h' (g_heapstart h' ! i) 0 ((rs @ [r]) ! i) \<and> region_wf g ((rs @ [r]) ! i) \<and>
    g_heapstart h' ! i + csum ((rs @ [r]) ! i) = g_heapend h' ! i + 8"
  proof cases
    case 1
    then show ?thesis
      using mm_chunks_region [OF assms(1) 1] assms(3) [of i] assms(4) [of i]
        chunks_at_cong [of "rs ! i" h' h "g_heapstart h ! i" 0] by (simp add: nth_append)
  next
    case 2
    then have "(rs @ [r]) ! i = r" by simp
    with 2 show ?thesis using assms len by simp
  qed
  then show "chunks_at h' (g_heapstart h' ! i) 0 ((rs @ [r]) ! i)" "region_wf g ((rs @ [r]) ! i)"
    "g_heapstart h' ! i + csum ((rs @ [r]) ! i) = g_heapend h' ! i + 8" by auto
qed (use assms in \<open>auto simp: mm_chunks_def\<close>)

text \<open>The state of \<open>mm_addregion\<close> when it calls \<open>mm_addfreechunk\<close>.\<close>

definition with_region :: "addr \<Rightarrow> nat \<Rightarrow> mm_heap \<Rightarrow> mm_heap" where
  "with_region start sz h =
     (let b = MM_ALIGN_UP start; e = MM_ALIGN_DOWN (start + sz); i = g_nregions h
      in h\<lparr>nsize := (nsize h)(b := 8, b + 8 := e - b - 16, e - 8 := 8),
           npreceding := (npreceding h)(b := hdr True 0, b + 8 := 8, e - 8 := hdr True (e - b - 16)),
           g_heapsize := g_heapsize h + (e - b), g_nregions := Suc i,
           g_heapstart := (g_heapstart h)[i := b], g_heapend := (g_heapend h)[i := e - 8]\<rparr>)"

lemma sub32_small: "b \<le> a \<Longrightarrow> a < 2 ^ 32 \<Longrightarrow> sub32 a b = a - b"
proof -
  assume "b \<le> a" "a < 2 ^ 32"
  then have "a + (2 ^ 32 - b) = (a - b) + 2 ^ 32" by simp
  then show ?thesis unfolding sub32_def using \<open>a < 2 ^ 32\<close> by (simp only: mod_add_self2) simp
qed

lemma mm_addregion_unfold:
  assumes "region_fits start sz h" and "mm_layout h"
  shows "mm_addregion start sz h = mm_addfreechunk (MM_ALIGN_UP start + 8) (with_region start sz h)"
proof -
  let ?b = "MM_ALIGN_UP start" and ?e = "MM_ALIGN_DOWN (start + sz)"
  have b: "start \<le> ?b" "?e \<le> start + sz" "?b + 48 \<le> ?e" "start + sz < 2 ^ 32" "sz < 2 ^ 31"
    "g_heapsize h + sz < 2 ^ 32" "64 \<le> sz"
    using assms(1) region_bounds_aligned [of sz start] by (auto simp: region_fits_def)
  have "add32 start sz = start + sz" "sub32 ?e ?b = ?e - ?b"
    "add32 (g_heapsize h) (?e - ?b) = g_heapsize h + (?e - ?b)" "add32 ?b SIZEOF_MM_ALLOCNODE = ?b + 8"
    "sub32 (?e - ?b) (2 * SIZEOF_MM_ALLOCNODE) = ?e - ?b - 16" "sub32 ?e SIZEOF_MM_ALLOCNODE = ?e - 8"
    using b by (simp_all add: sub32_small)
  moreover have "?e - ?b - 16 OR 2 ^ 31 = hdr True (?e - ?b - 16)"
    using b or_flag [of "?e - ?b - 16" 31] by (simp add: hdr_def)
  moreover have "\<not> (g_nregions h \<ge> length (g_heapstart h) \<or> g_nregions h \<ge> length (g_heapend h))"
    using assms by (auto simp: region_fits_def mm_layout_def)
  moreover have "?b + 8 \<noteq> ?e - 8" "?b \<noteq> ?e - 8" using b by auto
  ultimately show ?thesis
    by (cases h) (simp add: mm_addregion_def with_region_def Let_def hdr_def fun_upd_twist)
qed

lemma mm_part_region:
  assumes P: "mm_part g h rs fl {}" and g: "g dvd 16" and fit: "region_fits start sz h"
  shows "mm_part g (with_region start sz h) (rs @ [fresh_region start sz]) fl {MM_ALIGN_UP start + 8}"
proof -
  let ?b = "MM_ALIGN_UP start" and ?e = "MM_ALIGN_DOWN (start + sz)" and ?h = "with_region start sz h"
  let ?r = "fresh_region start sz"
  have LC: "mm_layout h" "mm_chunks g h rs" "mm_flist h fl" "set fl = heads h \<union> frees rs"
    using P by (auto simp: mm_part_def)
  have ft: "64 \<le> sz" "sz < 2 ^ 31" "start + sz < 2 ^ 32" "g_heapsize h + sz < 2 ^ 32"
    "g_nregions h < length (g_heapstart h)" "length (g_heapend h) = length (g_heapstart h)"
    "start + sz \<le> g_nodelist h \<or> g_nodelist h + 16 * 19 \<le> start"
    "\<And>i. i < g_nregions h \<Longrightarrow> g_heapend h ! i + 8 \<le> start \<or> start + sz \<le> g_heapstart h ! i"
    using fit LC(1) by (auto simp: region_fits_def mm_layout_def)
  note b = region_bounds_aligned [OF ft(1,3)]
  have len: "length rs = g_nregions h" using LC(2) by (simp add: mm_chunks_def)
  have out: "x < ?b \<or> ?e \<le> x" if "i < length rs" "c \<in> set (rs ! i)" "x = caddr c" for x i c
  proof -
    note ri = mm_chunks_region [OF LC(2) that(1)]
    have "g_heapstart h ! i \<le> x \<and> x < g_heapend h ! i + 8"
      using chunks_at_range [OF ri(1) that(2)] region_wf_pos [OF ri(2) that(2)] ri(3) that(3) by linarith
    then show ?thesis using ft(8) [of i] that(1) len b by linarith
  qed
  have outl: "x < ?b \<or> ?e \<le> x" if "x \<in> set fl" for x
  proof (cases "is_head h x")
    case True
    then show ?thesis using ft(7) b by (auto simp: is_head_def)
  next
    case False
    with that LC(4) have "x \<in> frees rs" by (auto simp: heads_iff)
    then show ?thesis using out by (auto simp: frees_nth)
  qed
  have wf: "region_wf g ?r"
    using b(5,6) dvd_trans [OF g b(6)]
    by (auto simp: region_wf_def fresh_region_def Let_def chunk_ok_def intro!: exI [of _ "[Chunk (?b + 8) (?e - ?b - 16) False]"])
  have lay: "mm_layout ?h"
    unfolding mm_layout_def
  proof (intro conjI allI impI)
    fix i assume "i < g_nregions ?h"
    then consider "i < g_nregions h" | "i = g_nregions h" by (fastforce simp: with_region_def Let_def)
    then have "16 dvd g_heapstart ?h ! i \<and> g_heapstart ?h ! i < g_heapend ?h ! i \<and> g_heapend ?h ! i + 8 < 2 ^ 32 \<and>
      g_heapend ?h ! i + 8 < g_heapstart ?h ! i + 2 ^ 31 \<and>
      (g_heapend ?h ! i + 8 \<le> g_nodelist ?h \<or> g_nodelist ?h + 16 * 19 \<le> g_heapstart ?h ! i)"
    proof cases
      case 1
      with LC(1) show ?thesis by (simp add: with_region_def Let_def mm_layout_def)
    next
      case 2
      with ft b show ?thesis by (auto simp: with_region_def Let_def)
    qed
    then show "16 dvd g_heapstart ?h ! i" "g_heapstart ?h ! i < g_heapend ?h ! i" "g_heapend ?h ! i + 8 < 2 ^ 32"
      "g_heapend ?h ! i + 8 < g_heapstart ?h ! i + 2 ^ 31"
      "g_heapend ?h ! i + 8 \<le> g_nodelist ?h \<or> g_nodelist ?h + 16 * 19 \<le> g_heapstart ?h ! i" by auto
  next
    fix i j assume "i < g_nregions ?h" "j < g_nregions ?h" "i \<noteq> j"
    then consider "i < g_nregions h" "j < g_nregions h" | "i < g_nregions h" "j = g_nregions h"
      | "i = g_nregions h" "j < g_nregions h" by (force simp: with_region_def Let_def)
    then show "g_heapend ?h ! i + 8 \<le> g_heapstart ?h ! j \<or> g_heapend ?h ! j + 8 \<le> g_heapstart ?h ! i"
    proof cases
      case 1
      with LC(1) \<open>i \<noteq> j\<close> show ?thesis by (simp add: with_region_def Let_def mm_layout_def)
    next
      case 2
      with ft(5,6) ft(8) [of i] b show ?thesis by (auto simp: with_region_def Let_def)
    next
      case 3
      with ft(5,6) ft(8) [of j] b show ?thesis by (auto simp: with_region_def Let_def)
    qed
  qed (use LC(1) ft in \<open>auto simp: mm_layout_def with_region_def Let_def\<close>)
  have "mm_chunks g ?h (rs @ [?r])"
  proof (rule mm_chunks_snoc [OF LC(2) _ _ _ _ wf])
    show "nsize ?h (caddr c) = nsize h (caddr c) \<and> npreceding ?h (caddr c) = npreceding h (caddr c)"
      if "i < length rs" "c \<in> set (rs ! i)" for i c
      using out [OF that refl] b(5) by (auto simp: with_region_def Let_def)
  qed (use b ft in \<open>auto simp: with_region_def Let_def fresh_region_def hdr_def\<close>)
  moreover have "nsize ?h x = nsize h x" if "x \<in> set fl" for x
    using outl [OF that] b(5) by (auto simp: with_region_def Let_def)
  then have "mm_flist ?h fl"
    by (intro mm_flist_frame [OF LC(3)]) (auto simp: with_region_def Let_def)
  moreover have "frees (rs @ [?r]) = insert (?b + 8) (frees rs)"
    by (simp add: frees_def fresh_region_def Let_def)
  moreover have "heads ?h = heads h"
    by (simp add: heads_def nodelist_def with_region_def Let_def)
  moreover have "?b + 8 \<notin> frees rs"
    using out b(5) by (fastforce simp: frees_nth)
  ultimately show ?thesis
    using lay LC(4) by (auto simp: mm_part_def)
qed

lemma mm_addregion_spec:
  assumes I: "mm_inv g h rs fl" and g: "g dvd 16" and fit: "region_fits start sz h"
  obtains h' fl' where "mm_addregion start sz h = Some h'" "mm_inv g h' (rs @ [fresh_region start sz]) fl'"
    "sem_of h' = sem_of h" "mdata h' = mdata h" "length (g_heapstart h') = length (g_heapstart h)"
    "g_nodelist h' = g_nodelist h"
proof -
  let ?x = "MM_ALIGN_UP start + 8" and ?h = "with_region start sz h"
  have P: "mm_part g h rs fl {}" and L: "mm_layout h"
    using I by (auto simp: mm_inv_part mm_part_def)
  have "?x \<in> frees (rs @ [fresh_region start sz])"
    by (simp add: frees_def fresh_region_def Let_def)
  then obtain h' fl' where h': "mm_addfreechunk ?x ?h = Some h'"
    "mm_part g h' (rs @ [fresh_region start sz]) fl' {}" "same_header ?h h'"
    using mm_part_add [OF mm_part_region [OF P g fit], of ?x] by auto
  have "sem_of h' = sem_of h" "mdata h' = mdata h" "length (g_heapstart h') = length (g_heapstart h)"
    "g_nodelist h' = g_nodelist h"
    using same_header_simps [OF h'(3)] by (auto simp: sem_of_def with_region_def Let_def)
  with h' show thesis
    using that mm_addregion_unfold [OF fit L] by (simp add: mm_inv_part)
qed

lemma mm_initialize_spec:
  assumes g: "g dvd 16" and nl: "g_nodelist h \<noteq> NULL" and len: "length (g_heapend h) = length (g_heapstart h)"
    and fit: "region_fits start sz (h\<lparr>g_heapsize := 0, g_nregions := 0\<rparr>)"
  obtains h' fl' where "mm_initialize start sz h = Some h'" "mm_inv g h' [fresh_region start sz] fl'"
    "sem_of h' = (1, - 1, 0)" "mdata h' = mdata h" "length (g_heapstart h') = length (g_heapstart h)"
    "g_nodelist h' = g_nodelist h"
proof -
  define h0 where "h0 = h\<lparr>g_heapsize := 0, g_nregions := 0\<rparr>"
  define h1 where "h1 = fold mm_clear_node [0..<19] h0"
  define h2 where "h2 = fold mm_link_node [1..<Suc 18] h1"
  note c = clear_nodes [where n = 19 and h = h0, folded h1_def] and l = link_nodes [where n = 18 and h = h1, folded h2_def]
  have nl1: "nodelist h1 = nodelist h0" "nodelist h2 = nodelist h0"
    using same_globals_heads [OF c(2)] same_globals_heads [OF l(1)] by auto
  have G: "same_globals h0 h2" using c(2) l(1) by (simp add: same_globals_def)
  have "dpath (nflink h2) (nblink h2) NULL (map (nodelist h2) [0..<Suc 18]) NULL"
    by (rule dpath_table) (use l(4-7) c(4) nl1 in auto)
  then have "dpath (nflink h2) (nblink h2) NULL (map (nodelist h2) [0..<19]) NULL"
    by (simp only: eval_nat_numeral)
  then have "mm_part g h2 [] (map (nodelist h2) [0..<19]) {}"
    by (intro mm_part_empty) (use G nl len c(4) l(2) nl1 in \<open>auto simp: same_globals_def h0_def\<close>)
  then have I: "mm_inv g (mm_seminitialize h2) [] (map (nodelist h2) [0..<19])"
    by (auto simp: mm_inv_part mm_seminitialize_def same_globals_def intro: mm_part_globals)
  have fit2: "region_fits start sz (mm_seminitialize h2)"
    using fit G by (simp add: region_fits_def same_globals_def mm_seminitialize_def h0_def)
  have "mm_initialize start sz h = mm_addregion start sz (mm_seminitialize h2)"
    by (simp add: mm_initialize_def h2_def h1_def h0_def Let_def)
  moreover have "sem_of (mm_seminitialize h2) = (1, - 1, 0)" "mdata (mm_seminitialize h2) = mdata h"
    "length (g_heapstart (mm_seminitialize h2)) = length (g_heapstart h)" "g_nodelist (mm_seminitialize h2) = g_nodelist h"
    using c(3) l(3) G by (auto simp: mm_seminitialize_def sem_of_def h0_def same_globals_def)
  ultimately show thesis
    using mm_addregion_spec [OF I g fit2] that by simp metis
qed

subsection \<open>mallinfo\<close>

text \<open>The totals of a list of chunks.\<close>

fun info_of :: "chunk list \<Rightarrow> mallinfo \<Rightarrow> mallinfo" where
  "info_of [] i = i"
| "info_of (Chunk c n u # cs) i = info_of cs
     (if u then i\<lparr>uordblks := uordblks i + n\<rparr>
      else i\<lparr>ordblks := ordblks i + 1, fordblks := fordblks i + n, mxordblk := max (mxordblk i) n\<rparr>)"

lemma mallinfo_region_chunks:
  assumes "chunks_at h a p cs" and "\<forall>c\<in>set cs. 0 < clen c" and "p < 2 ^ 31" and "csum cs < 2 ^ 31"
  shows "mallinfo_region h a (a + csum cs) i = Some (a + csum cs, info_of cs i)"
  using assms
proof (induction cs arbitrary: a p i)
  case Nil
  then show ?case by (subst mallinfo_region.simps) simp
next
  case (Cons c cs)
  obtain x n u where c: "c = Chunk x n u" by (cases c)
  have "nsize h a = n" "npreceding h a = hdr u p" "0 < n"
    using Cons.prems by (auto simp: c)
  moreover have "mallinfo_region h (a + n) (a + n + csum cs) j = Some (a + n + csum cs, info_of cs j)" for j
    using Cons.prems by (intro Cons.IH [of _ n]) (auto simp: c)
  ultimately show ?case
    using Cons.prems(3)
    by (subst mallinfo_region.simps) (auto simp: c hdr_num add.assoc)
qed

lemma info_of_append [simp]: "info_of (xs @ ys) i = info_of ys (info_of xs i)"
  by (induction xs i rule: info_of.induct) auto

text \<open>
  The walk stops in front of the last guard chunk, which the code then adds.
\<close>

lemma mallinfo_regions_chunks:
  assumes L: "mm_layout h" and C: "mm_chunks g h rs" and k: "k \<le> length rs"
  shows "mallinfo_regions h [k..<length rs] i = Some (fold info_of (drop k rs) i)"
  using k
proof (induction "length rs - k" arbitrary: k i)
  case (Suc d)
  then have k: "k < length rs" by simp
  note rk = mm_chunks_region [OF C k] and bd = region_bounds [OF L C k]
  obtain a e mid where cs: "rs ! k = (Chunk a 8 True # mid) @ [Chunk e 8 True]"
    using rk(2) by (auto simp: region_wf_def)
  let ?xs = "Chunk a 8 True # mid"
  have at: "chunks_at h (g_heapstart h ! k) 0 ?xs"
    using rk(1) unfolding cs chunks_at_append by blast
  have "\<forall>c\<in>set ?xs. 0 < clen c"
    using region_wf_pos [OF rk(2)] cs by auto
  then have "mallinfo_region h (g_heapstart h ! k) (g_heapstart h ! k + csum ?xs) i =
    Some (g_heapstart h ! k + csum ?xs, info_of ?xs i)"
    by (rule mallinfo_region_chunks [OF at]) (use bd in \<open>auto simp: cs\<close>)
  moreover have "g_heapstart h ! k + csum ?xs = g_heapend h ! k"
    using rk(3) by (simp add: cs)
  moreover have "mallinfo_regions h [Suc k..<length rs] j = Some (fold info_of (drop (Suc k) rs) j)" for j
    using Suc k by (intro Suc.hyps(1)) auto
  moreover have "drop k rs = rs ! k # drop (Suc k) rs" "[k..<length rs] = k # [Suc k..<length rs]"
    using k by (simp_all add: Cons_nth_drop_Suc upt_conv_Cons)
  ultimately show ?case
    by (simp add: cs del: info_of.simps) simp
qed simp

lemma info_of_sum: "uordblks (info_of cs i) + fordblks (info_of cs i) = uordblks i + fordblks i + csum cs"
  by (induction cs i rule: info_of.induct) auto

lemma fold_info_sum:
  "uordblks (fold info_of rs i) + fordblks (fold info_of rs i) = uordblks i + fordblks i + sum_list (map csum rs)"
  by (induction rs arbitrary: i) (auto simp: info_of_sum)

definition no_info :: mallinfo where
  "no_info = \<lparr>arena = 0, ordblks = 0, mxordblk = 0, uordblks = 0, fordblks = 0\<rparr>"

lemma mallinfo_spec:
  assumes "mm_inv g h rs fl"
  shows "mallinfo h = Some ((fold info_of rs no_info)\<lparr>arena := g_heapsize h\<rparr>)"
proof -
  have LC: "mm_layout h" "mm_chunks g h rs" "length rs = g_nregions h" "g_heapsize h = sum_list (map csum rs)"
    using assms by (auto simp: mm_inv_def mm_chunks_def)
  then show ?thesis
    using mallinfo_regions_chunks [OF LC(1,2), of 0 no_info] fold_info_sum [of rs no_info]
    by (simp add: mallinfo_def no_info_def)
qed

end
