(* ===== verification/Mm_Used.thy ===== *)
theory Mm_Used
  imports Mm_Init
begin

section \<open>The allocated chunks\<close>

text \<open>
  The abstract view of a client: the set of the allocated chunks. They are pairwise apart, and each
  operation changes the set in one chunk only.
\<close>

definition used :: "chunk list list \<Rightarrow> chunk set" where
  "used rs = {c \<in> set (concat rs). cused c}"

text \<open>No two chunks of the heap overlap.\<close>

definition apart :: "chunk \<Rightarrow> chunk \<Rightarrow> bool" where
  "apart c d \<longleftrightarrow> caddr c + clen c \<le> caddr d \<or> caddr d + clen d \<le> caddr c"

lemma chunks_at_apart:
  assumes "chunks_at h a p cs" and "\<forall>c\<in>set cs. 0 < clen c"
  shows "distinct cs \<and> (\<forall>c\<in>set cs. \<forall>d\<in>set cs. c \<noteq> d \<longrightarrow> apart c d)"
  using assms
proof (induction cs arbitrary: a p)
  case (Cons c cs)
  obtain x n u where c: "c = Chunk x n u" by (cases c)
  have at: "chunks_at h (a + n) n cs" and x: "x = a" "0 < n"
    using Cons.prems by (auto simp: c)
  have d: "apart c d" "apart d c" "d \<noteq> c" if "d \<in> set cs" for d
    using chunks_at_range [OF at that] Cons.prems(2) that x by (auto simp: c apart_def)
  with Cons.IH [OF at] Cons.prems show ?case by auto
qed simp

lemma region_apart:
  assumes L: "mm_layout h" and C: "mm_chunks g h rs" and ij: "i < length rs" "j < length rs" "i \<noteq> j"
    and c: "c \<in> set (rs ! i)" and d: "d \<in> set (rs ! j)"
  shows "apart c d"
proof -
  note ri = mm_chunks_region [OF C ij(1)] and rj = mm_chunks_region [OF C ij(2)]
  have "g_heapend h ! i + 8 \<le> g_heapstart h ! j \<or> g_heapend h ! j + 8 \<le> g_heapstart h ! i"
    using L ij C by (auto simp: mm_layout_def mm_chunks_def)
  then show ?thesis
    using chunks_at_range [OF ri(1) c] chunks_at_range [OF rj(1) d] ri(3) rj(3) unfolding apart_def by linarith
qed

lemma chunks_apart:
  assumes L: "mm_layout h" and C: "mm_chunks g h rs"
    and c: "c \<in> set (concat rs)" and d: "d \<in> set (concat rs)" and neq: "c \<noteq> d"
  shows "apart c d"
proof -
  obtain i j where i: "i < length rs" "c \<in> set (rs ! i)" and j: "j < length rs" "d \<in> set (rs ! j)"
    using c d by (auto simp: in_set_conv_nth) (metis in_set_conv_nth)
  show ?thesis
  proof (cases "i = j")
    case True
    note ri = mm_chunks_region [OF C i(1)]
    show ?thesis
      using chunks_at_apart [OF ri(1)] region_wf_pos [OF ri(2)] i j True neq by blast
  next
    case False
    then show ?thesis using region_apart [OF L C i(1) j(1) False i(2) j(2)] by blast
  qed
qed

lemma chunk_pos: "mm_chunks g h rs \<Longrightarrow> c \<in> set (concat rs) \<Longrightarrow> 0 < clen c"
  by (auto simp: in_set_conv_nth) (metis mm_chunks_region(2) nth_mem region_wf_pos)

lemma distinct_chunks:
  assumes L: "mm_layout h" and C: "mm_chunks g h rs"
  shows "distinct (concat rs)"
proof -
  have "rs ! i \<noteq> rs ! j" if ij: "i < length rs" "j < length rs" "i \<noteq> j" for i j
  proof
    assume eq: "rs ! i = rs ! j"
    obtain c where c: "c \<in> set (rs ! i)" "0 < clen c"
      using mm_chunks_region(2) [OF C ij(1)] by (fastforce simp: region_wf_def)
    with region_apart [OF L C ij c(1), of c] eq show False by (auto simp: apart_def)
  qed
  then have "distinct rs" by (simp add: distinct_conv_nth)
  moreover have "distinct cs" if cs: "cs \<in> set rs" for cs
  proof -
    obtain i where i: "i < length rs" "cs = rs ! i" using cs by (auto simp: in_set_conv_nth)
    then show ?thesis
      using chunks_at_apart [OF mm_chunks_region(1) [OF C i(1)]] region_wf_pos [OF mm_chunks_region(2) [OF C i(1)]] by blast
  qed
  moreover have "set cs \<inter> set ds = {}" if cd: "cs \<in> set rs" "ds \<in> set rs" "cs \<noteq> ds" for cs ds
  proof -
    obtain i j where i: "i < length rs" "cs = rs ! i" and j: "j < length rs" "ds = rs ! j"
      using cd by (auto simp: in_set_conv_nth)
    then have ij: "i \<noteq> j" using cd by auto
    show ?thesis
    proof (rule ccontr)
      assume "set cs \<inter> set ds \<noteq> {}"
      then obtain c where c: "c \<in> set (rs ! i)" "c \<in> set (rs ! j)" using i j by auto
      have "0 < clen c" using region_wf_pos [OF mm_chunks_region(2) [OF C i(1)] c(1)] .
      with region_apart [OF L C i(1) j(1) ij c] show False by (auto simp: apart_def)
    qed
  qed
  ultimately show ?thesis by (rule distinct_concat)
qed

text \<open>Replacing chunks of a region, seen through \<open>used\<close>.\<close>

lemma used_replace:
  assumes "distinct (concat rs)" and "k < length rs" and "rs ! k = xs @ mid @ ys"
  shows "used (rs[k := xs @ mid' @ ys]) = (used rs - set mid) \<union> {c \<in> set mid'. cused c}"
proof -
  have rs: "rs = take k rs @ (xs @ mid @ ys) # drop (Suc k) rs"
    using id_take_nth_drop [OF assms(2)] assms(3) by simp
  have up: "rs[k := xs @ mid' @ ys] = take k rs @ (xs @ mid' @ ys) # drop (Suc k) rs"
    using upd_conv_take_nth_drop [OF assms(2)] .
  let ?A = "set (concat (take k rs)) \<union> set xs \<union> set ys \<union> set (concat (drop (Suc k) rs))"
  have c: "concat rs = concat (take k rs) @ (xs @ mid @ ys) @ concat (drop (Suc k) rs)"
    by (subst rs) simp
  have s: "set (concat rs) = ?A \<union> set mid"
    unfolding c by (simp add: Un_ac)
  have d: "?A \<inter> set mid = {}"
    using assms(1) unfolding c by auto
  have t: "set (concat (rs[k := xs @ mid' @ ys])) = ?A \<union> set mid'"
    unfolding up by (simp add: Un_ac)
  show ?thesis
    unfolding used_def s t using d by blast
qed

lemma used_split:
  assumes "mm_chunks g h rs" and "Chunk node n True \<in> used rs" and "16 \<le> n"
  obtains k xs ys where "k < length rs" "rs ! k = xs @ Chunk node n True # ys" "xs \<noteq> []" "ys \<noteq> []" "g dvd n"
proof -
  obtain k where k: "k < length rs" "Chunk node n True \<in> set (rs ! k)"
    using assms(2) by (auto simp: used_def in_set_conv_nth) (metis in_set_conv_nth)
  then obtain xs ys where s: "rs ! k = xs @ Chunk node n True # ys"
    by (meson split_list)
  with region_wf_inner [of g xs "Chunk node n True" ys] mm_chunks_region(2) [OF assms(1) k(1)] assms(3)
  show thesis using that k by (auto simp: chunk_ok_def)
qed

subsection \<open>malloc and free\<close>

lemma mm_inv_parts: "mm_inv g h rs fl \<Longrightarrow> mm_layout h \<and> mm_chunks g h rs \<and> distinct (concat rs)"
  using distinct_chunks by (auto simp: mm_inv_def)

text \<open>
  \<open>malloc\<close> fails only when no free chunk is large enough, and then changes nothing; otherwise one
  more chunk is allocated, inside a smallest free chunk that is large enough.
\<close>

lemma malloc_used:
  assumes I: "mm_inv g h rs fl" and g: "g dvd 16" and t: "mm_can_take pid h"
    and sz: "0 < sz" "sz + 23 < 2 ^ 32"
  obtains (none) "malloc pid sz h = Some (NULL, h)" "\<And>x n. Chunk x n False \<in> set (concat rs) \<Longrightarrow> n < chunk_for sz"
    | (some) node n m h' rs' fl' where "malloc pid sz h = Some (node + 8, h')" "mm_inv g h' rs' fl'"
      "Chunk node m False \<in> set (concat rs)"
      "\<And>x l. Chunk x l False \<in> set (concat rs) \<Longrightarrow> chunk_for sz \<le> l \<Longrightarrow> m \<le> l"
      "used rs' = insert (Chunk node n True) (used rs)" "n = chunk_for sz \<or> n = m \<and> m < chunk_for sz + 16"
      "chunk_for sz \<le> n" "n \<le> m"
      "sem_of h' = sem_of h" "mdata h' = mdata h" "same_globals h h'" "Chunk node n True \<notin> used rs"
proof -
  have LC: "mm_layout h" "mm_chunks g h rs" "distinct (concat rs)"
    using mm_inv_parts [OF I] by auto
  have fr: "x \<in> frees rs \<and> nsize h x = n" if c: "Chunk x n False \<in> set (concat rs)" for x n
  proof -
    obtain k where k: "k < length rs" "Chunk x n False \<in> set (rs ! k)"
      using c by (auto simp: in_set_conv_nth) (metis in_set_conv_nth)
    then obtain xs ys where "rs ! k = xs @ Chunk x n False # ys" by (meson split_list)
    from chunk_headers(2) [OF LC(1,2) k(1) this] k show ?thesis
      by (auto simp: frees_nth intro!: exI [of _ k] bexI [of _ "Chunk x n False"])
  qed
  show thesis
  proof (cases rule: malloc_spec [OF I g t sz, case_names none some])
    case none
    with fr show thesis by (intro that(1)) auto
  next
    case (some k xs node m e ys h' fl')
    let ?c = "carve node m (chunk_for sz)" and ?n = "if m - chunk_for sz \<ge> 16 then chunk_for sz else m"
    have sp: "rs ! k = xs @ [Chunk node m False] @ e # ys" using some by simp
    have in1: "Chunk node m False \<in> set (concat rs)"
      using nth_mem [OF some(1)] unfolding set_concat by (rule UN_I) (simp add: some(2))
    have "used (rs[k := xs @ ?c @ e # ys]) = (used rs - {Chunk node m False}) \<union> {c \<in> set ?c. cused c}"
      using used_replace [OF LC(3) some(1) sp, of ?c] by simp
    also have "\<dots> = insert (Chunk node ?n True) (used rs)"
      by (auto simp: carve_def used_def)
    finally have u: "used (rs[k := xs @ ?c @ e # ys]) = insert (Chunk node ?n True) (used rs)" .
    have "Chunk node ?n True \<notin> used rs"
    proof
      assume "Chunk node ?n True \<in> used rs"
      then have "apart (Chunk node ?n True) (Chunk node m False)"
        using chunks_apart [OF LC(1,2) _ in1] by (auto simp: used_def simp del: set_concat)
      moreover have "0 < ?n" "0 < m"
        using chunk_pos [OF LC(2) in1] chunk_pos [OF LC(2), of "Chunk node ?n True"] \<open>Chunk node ?n True \<in> used rs\<close>
        by (auto simp: used_def)
      ultimately show False by (auto simp: apart_def split: if_splits)
    qed
    moreover have "?n = chunk_for sz \<or> ?n = m \<and> m < chunk_for sz + 16" "chunk_for sz \<le> ?n" "?n \<le> m"
      using some(3) by auto
    ultimately show thesis
      using that(2) [of node h' "rs[k := xs @ ?c @ e # ys]" fl' m ?n] some in1 u fr by (auto simp del: set_concat)
  qed
qed

lemma free_used:
  assumes I: "mm_inv g h rs fl" and t: "mm_can_take pid h" and c: "Chunk node n True \<in> used rs" and n: "16 \<le> n"
  obtains h' rs' fl' where "free pid (node + 8) h = Some h'" "mm_inv g h' rs' fl'"
    "used rs' = used rs - {Chunk node n True}"
    "sem_of h' = sem_of h" "mdata h' = mdata h" "same_globals h h'"
proof -
  have LC: "mm_layout h" "mm_chunks g h rs" "distinct (concat rs)"
    using mm_inv_parts [OF I] by auto
  obtain k xs ys where k: "k < length rs" "rs ! k = xs @ Chunk node n True # ys" "xs \<noteq> []" "ys \<noteq> []"
    using used_split [OF LC(2) c n] by metis
  obtain h' fl' where h': "free pid (node + 8) h = Some h'" "mm_inv g h' (rs[k := release xs node n ys]) fl'"
    "sem_of h' = sem_of h" "mdata h' = mdata h" "same_globals h h'"
    using free_spec [OF I t k(1,2) n] by metis
  define P where "P = (if cused (last xs) then [] else [last xs])"
  define N where "N = (if cused (hd ys) then [] else [hd ys])"
  define xs0 where "xs0 = (if cused (last xs) then xs else butlast xs)"
  define ys0 where "ys0 = (if cused (hd ys) then ys else tl ys)"
  let ?new = "[Chunk (node - csum P) (csum P + n + csum N) False]" and ?mid = "P @ [Chunk node n True] @ N"
  have rel: "release xs node n ys = xs0 @ ?new @ ys0"
    by (simp add: release_def P_def N_def xs0_def ys0_def)
  have "rs ! k = xs0 @ ?mid @ ys0"
    using k by (simp add: P_def N_def xs0_def ys0_def)
  from used_replace [OF LC(3) k(1) this, of ?new]
  have "used (rs[k := release xs node n ys]) = used rs - set ?mid \<union> {c \<in> set ?new. cused c}"
    unfolding rel .
  also have "\<dots> = used rs - {Chunk node n True}"
    unfolding used_def P_def N_def by (cases "cused (last xs)"; cases "cused (hd ys)"; force)
  finally show thesis using that [OF h'(1,2)] h' by simp
qed

end
