(* ===== verification/Mm_Realloc.thy ===== *)
theory Mm_Realloc
  imports Mm_Used
begin

section \<open>realloc\<close>

text \<open>
  \<open>realloc\<close> keeps the heap invariant with granularity 16, moves or resizes exactly the given
  chunk, and keeps the bytes of its payload, on each of its paths: shrinking in place, extending
  into the neighbours, and allocating, copying and freeing.
\<close>

subsection \<open>Copying\<close>

lemma memcpy_outside: "x < dest \<or> dest + n \<le> x \<Longrightarrow> memcpy dest src n d x = d x"
  by (induction dest src n d rule: memcpy.induct) auto

lemma memcpy_copies:
  assumes "dest \<le> src \<or> src + n \<le> dest" and "i < n"
  shows "memcpy dest src n d (dest + i) = d (src + i)"
  using assms
proof (induction dest src n d arbitrary: i rule: memcpy.induct)
  case (2 dest src n d)
  show ?case
  proof (cases i)
    case 0
    then show ?thesis by (simp add: memcpy_outside)
  next
    case (Suc j)
    with 2 have "memcpy (dest + 1) (src + 1) n (d(dest := d src)) (dest + 1 + j) = (d(dest := d src)) (src + 1 + j)"
      by (intro "2.IH") auto
    with Suc 2 show ?thesis by auto
  qed
qed simp

subsection \<open>Replacing chunks and putting the free one on the list\<close>

lemma mm_part_finish:
  assumes P: "mm_part g h rs fl (faddr mid)" and k: "k < length rs"
    and split: "rs ! k = xs @ mid @ e # ys" and xs: "xs \<noteq> []"
    and R: "headers_replaced h (with_headers S Q h) (g_heapstart h ! k + csum xs) (lastlen 0 xs) mid' e"
    and tot: "csum mid' = csum mid" and ok: "\<forall>c\<in>set mid'. chunk_ok g c"
    and co: "coalesced (xs @ mid' @ e # ys)" and v: "faddr mid' = {v}"
  obtains h' fl' where "mm_addfreechunk v (with_headers S Q h) = Some h'"
    "mm_part g h' (rs[k := xs @ mid' @ e # ys]) fl' {}" "same_header (with_headers S Q h) h'"
proof -
  have P': "mm_part g (with_headers S Q h) (rs[k := xs @ mid' @ e # ys]) fl (faddr mid')"
    by (rule mm_part_replace [OF P k split xs R tot ok co]) simp_all
  have "v \<in> frees (rs[k := xs @ mid' @ e # ys])"
    using k v by (auto simp: frees_def intro!: bexI [of _ "xs @ mid' @ e # ys"] set_update_memI)
  then show thesis
    using mm_part_add [OF P', of v] v that by auto
qed

lemma used_resize:
  assumes "distinct (concat rs)" and "k < length rs" and "rs ! k = xs @ mid @ ys"
    and "{c \<in> set mid. cused c} = {c0}" and "{c \<in> set mid'. cused c} = {c1}"
  shows "used (rs[k := xs @ mid' @ ys]) = insert c1 (used rs - {c0})"
proof -
  have "used rs - set mid = used rs - {c0}"
    using assms(4) by (auto simp: used_def simp del: set_concat)
  then show ?thesis
    using used_replace [OF assms(1-3), of mid'] assms(5) by simp
qed

text \<open>What the chunk lists of two states share: semaphore, data and globals.\<close>

definition same_rest :: "mm_heap \<Rightarrow> mm_heap \<Rightarrow> bool" where
  "same_rest h h' \<longleftrightarrow> sem_of h' = sem_of h \<and> mdata h' = mdata h \<and> same_globals h h'"

lemma same_rest_refl [simp]: "same_rest h h"
  by (simp add: same_rest_def same_globals_def)

lemma same_rest_trans [trans]: "same_rest h h' \<Longrightarrow> same_rest h' h'' \<Longrightarrow> same_rest h h''"
  by (simp add: same_rest_def same_globals_def)

lemma same_rest_header: "same_header h h' \<Longrightarrow> same_rest h h'"
  by (simp add: same_rest_def same_globals_def sem_of_def same_header_simps)

lemma same_rest_headers [simp]:
  "same_rest h (with_headers S Q h') \<longleftrightarrow> same_rest h h'" "same_rest (with_headers S Q h) h' \<longleftrightarrow> same_rest h h'"
  by (simp_all add: same_rest_def same_globals_def sem_of_def)

subsection \<open>Shrinking\<close>

lemma mm_shrinkchunk_next_used:
  assumes P: "mm_part g h rs fl {}" and k: "k < length rs"
    and split: "rs ! k = xs @ Chunk node n True # Chunk c m True # ys" and xs: "xs \<noteq> []"
    and s: "16 \<le> s" "g dvd s" "s + 16 \<le> n" and g: "g dvd n"
  obtains h' fl' where "mm_shrinkchunk node s h = Some h'" "same_rest h h'"
    "mm_part g h' (rs[k := xs @ [Chunk node s True, Chunk (node + s) (n - s) False] @ Chunk c m True # ys]) fl' {}"
proof -
  have LC: "mm_layout h" "mm_chunks g h rs"
    using P by (auto simp: mm_part_def)
  let ?mid' = "[Chunk node s True, Chunk (node + s) (n - s) False]" and ?e = "Chunk c m True"
  note hn = chunk_headers [OF LC k split]
  have split2: "rs ! k = (xs @ [Chunk node n True]) @ ?e # ys" using split by simp
  note he = chunk_headers [OF LC k split2, simplified]
  have c: "c = node + n" using hn(1) he(1) by simp
  let ?S = "(nsize h)(node + s := n - s, node := s)" and ?Q = "(npreceding h)(node + s := s, c := hdr True (n - s))"
  have R: "headers_replaced h (with_headers ?S ?Q h) (g_heapstart h ! k + csum xs) (lastlen 0 xs) ?mid' ?e"
    using s hn c by (auto simp: headers_replaced_def same_globals_def hdr_def)
  have co: "coalesced (xs @ ?mid' @ ?e # ys)"
    using mm_chunks_region(2) [OF LC(2) k] unfolding split region_wf_def
    by (auto simp: coalesced_append coalesced_Cons)
  obtain h' fl' where h': "mm_addfreechunk (node + s) (with_headers ?S ?Q h) = Some h'"
    "mm_part g h' (rs[k := xs @ ?mid' @ ?e # ys]) fl' {}" "same_header (with_headers ?S ?Q h) h'"
    by (rule mm_part_finish [where mid = "[Chunk node n True]" and mid' = ?mid', OF _ k _ xs R _ _ co])
       (use P split s g in \<open>auto simp: chunk_ok_def\<close>)
  have o: "n - s OR 2 ^ 31 = hdr True (n - s)"
    using hn(5) or_flag [of "n - s" 31] by (simp add: hdr_def)
  have u: "npreceding h (node + n) AND 2 ^ 31 \<noteq> 0"
    using he(3,4) c by (simp add: hdr_num)
  have "mm_shrinkchunk node s h = Some h'"
    using u [simplified] s hn(2) c h'(1) o [simplified] by (simp add: mm_shrinkchunk_def Let_def)
  with h' same_rest_header [OF h'(3)] show thesis by (intro that) simp_all
qed

lemma mm_shrinkchunk_next_free:
  assumes P: "mm_part g h rs fl {}" and k: "k < length rs"
    and split: "rs ! k = xs @ [Chunk node n True, Chunk c m False] @ e # ys" and xs: "xs \<noteq> []"
    and s: "16 \<le> s" "g dvd s" "s < n" and g: "g dvd n"
  obtains h' fl' where "mm_shrinkchunk node s h = Some h'" "same_rest h h'"
    "mm_part g h' (rs[k := xs @ [Chunk node s True, Chunk (node + s) (m + n - s) False] @ e # ys]) fl' {}"
proof -
  have LC: "mm_layout h" "mm_chunks g h rs"
    using P by (auto simp: mm_part_def)
  obtain ea l v where e: "e = Chunk ea l v" by (cases e)
  let ?mid' = "[Chunk node s True, Chunk (node + s) (m + n - s) False]"
  have split1: "rs ! k = xs @ Chunk node n True # Chunk c m False # e # ys" using split by simp
  have split2: "rs ! k = (xs @ [Chunk node n True]) @ Chunk c m False # e # ys" using split by simp
  have split3: "rs ! k = (xs @ [Chunk node n True, Chunk c m False]) @ Chunk ea l v # ys" using split e by simp
  note hn = chunk_headers [OF LC k split1] and hc = chunk_headers [OF LC k split2, simplified]
    and he = chunk_headers [OF LC k split3, simplified]
  have c: "c = node + n" and ea: "ea = node + n + m" using hn(1) hc(1) he(1) by simp_all
  have wf: "region_wf g (rs ! k)" using mm_chunks_region(2) [OF LC(2) k] .
  have m: "16 \<le> m" "g dvd m"
    using free_chunk_ok [OF wf, of "Chunk c m False"] split by (auto simp: chunk_ok_def)
  have "c \<in> frees rs" using k split by (auto simp: frees_nth intro!: exI [of _ k])
  then obtain h1 fl1 where h1: "mm_unlink c h = Some h1" "mm_part g h1 rs fl1 {c}" "same_header h h1"
    "nsize h1 = nsize h" "npreceding h1 = npreceding h"
    using mm_part_unlink [OF P, of c] by auto
  have G: "g_heapstart h1 = g_heapstart h"
    using same_header_simps [OF h1(3)] by simp
  let ?S = "(nsize h)(node + s := m + n - s, node := s)"
  let ?Q = "(npreceding h)(node + s := s, ea := hdr v (m + n - s))"
  have R: "headers_replaced h1 (with_headers ?S ?Q h1) (g_heapstart h1 ! k + csum xs) (lastlen 0 xs) ?mid' e"
    using s hn m ea e h1(4,5) G by (auto simp: headers_replaced_def same_globals_def hdr_def [of False])
  have v: v and co: "coalesced (xs @ ?mid' @ e # ys)"
    using wf unfolding split region_wf_def
    by (auto simp: coalesced_append coalesced_Cons e)
  obtain h' fl' where h': "mm_addfreechunk (node + s) (with_headers ?S ?Q h1) = Some h'"
    "mm_part g h' (rs[k := xs @ ?mid' @ e # ys]) fl' {}" "same_header (with_headers ?S ?Q h1) h'"
    by (rule mm_part_finish [where mid = "[Chunk node n True, Chunk c m False]" and mid' = ?mid', OF _ k split xs R _ _ co])
       (use h1 s m g dvd_diff_nat [of g "m + n" s] in \<open>auto simp: chunk_ok_def\<close>)
  have "m + n < 2 ^ 31" using region_bounds(1) [OF LC k] by (simp add: split)
  then have o: "m + n - s OR (hdr v m AND 2 ^ 31) = hdr v (m + n - s)"
    using or_hdr [of "m + n - s" m v] he(4) by simp
  have u: "npreceding h (node + n) AND 2 ^ 31 = 0"
    using hc(3,4) hn(5) c by (simp add: hdr_num)
  have "mm_shrinkchunk node s h = Some h'"
    using u [simplified] s m hn(2) hc(2) he(2,3) ea c h'(1) h1(1,4,5) o [simplified]
    by (simp add: mm_shrinkchunk_def Let_def)
  with h' same_rest_trans [OF same_rest_header [OF h1(3)], of h'] same_rest_header [OF h'(3)] show thesis
    by (intro that) simp_all
qed

lemma mm_shrinkchunk_used:
  assumes P: "mm_part g h rs fl {}" and c: "Chunk node n True \<in> used rs" and n: "16 \<le> n"
    and s: "16 \<le> s" "g dvd s" "s < n"
  obtains h' rs' fl' n' where "mm_shrinkchunk node s h = Some h'" "same_rest h h'" "mm_part g h' rs' fl' {}"
    "used rs' = insert (Chunk node n' True) (used rs - {Chunk node n True})" "s \<le> n'" "n' \<le> n"
proof -
  have LC: "mm_layout h" "mm_chunks g h rs" "distinct (concat rs)"
    using P distinct_chunks by (auto simp: mm_part_def)
  obtain k xs ys where k: "k < length rs" "rs ! k = xs @ Chunk node n True # ys" "xs \<noteq> []" "ys \<noteq> []" "g dvd n"
    using used_split [OF LC(2) c n] by metis
  obtain x m u zs where ys: "ys = Chunk x m u # zs"
    using k(4) by (metis chunk.exhaust list.exhaust)
  note sp = k(2) [unfolded ys]
  have wf: "region_wf g (rs ! k)" using mm_chunks_region(2) [OF LC(2) k(1)] .
  show thesis
  proof (cases u)
    case False
    have "(xs @ [Chunk node n True]) @ Chunk x m u # zs = rs ! k" using sp by simp
    with region_wf_inner(2) [of g "xs @ [Chunk node n True]" "Chunk x m u" zs] wf False have "zs \<noteq> []" by simp
    then obtain e zs' where zs: "zs = e # zs'" by (cases zs) auto
    have sp': "rs ! k = xs @ [Chunk node n True, Chunk x m False] @ e # zs'"
      using sp zs False by simp
    obtain h' fl' where "mm_shrinkchunk node s h = Some h'" "same_rest h h'"
      "mm_part g h' (rs[k := xs @ [Chunk node s True, Chunk (node + s) (m + n - s) False] @ e # zs']) fl' {}"
      using mm_shrinkchunk_next_free [OF P k(1) sp' k(3) s k(5)] by metis
    moreover have "used (rs[k := xs @ [Chunk node s True, Chunk (node + s) (m + n - s) False] @ e # zs']) =
      insert (Chunk node s True) (used rs - {Chunk node n True})"
      by (rule used_resize [OF LC(3) k(1) sp']) auto
    ultimately show thesis using that s by (metis order.refl less_imp_le)
  next
    case True
    note sp = sp [unfolded True [THEN eq_True [THEN iffD2]]]
    show thesis
    proof (cases "s + 16 \<le> n")
      case b: True
      have sp': "rs ! k = xs @ [Chunk node n True] @ Chunk x m True # zs" using sp by simp
      obtain h' fl' where "mm_shrinkchunk node s h = Some h'" "same_rest h h'"
        "mm_part g h' (rs[k := xs @ [Chunk node s True, Chunk (node + s) (n - s) False] @ Chunk x m True # zs]) fl' {}"
        using mm_shrinkchunk_next_used [OF P k(1) sp k(3) s(1,2) b k(5)] by metis
      moreover have "used (rs[k := xs @ [Chunk node s True, Chunk (node + s) (n - s) False] @ Chunk x m True # zs]) =
        insert (Chunk node s True) (used rs - {Chunk node n True})"
        by (rule used_resize [OF LC(3) k(1) sp']) auto
      ultimately show thesis using that s by (metis order.refl less_imp_le)
    next
      case b: False
      have "rs ! k = (xs @ [Chunk node n True]) @ Chunk x m True # zs" using sp by simp
      note he = chunk_headers [OF LC(1,2) k(1) this] and hn = chunk_headers [OF LC(1,2) k(1) sp]
      have "mm_shrinkchunk node s h = Some h"
        using he hn b by (simp add: mm_shrinkchunk_def Let_def hdr_num add.assoc)
      then show thesis using that [of h rs fl n] P c s by auto
    qed
  qed
qed

subsection \<open>Extending into the neighbours\<close>

lemma realloc_extend_prev_spec:
  fixes p pn t node n :: nat and h :: mm_heap
  defines "mid' \<equiv> (if t < pn then [Chunk p (pn - t) False] else []) @ [Chunk (node - t) (n + t) True]"
  assumes P: "mm_part 16 h rs fl {}" and k: "k < length rs"
    and split: "rs ! k = xs @ [Chunk p pn False, Chunk node n True] @ e # ys" and xs: "xs \<noteq> []"
    and n: "16 \<le> n" "16 dvd n" and t: "0 < t" "t \<le> pn" "16 dvd t"
  obtains h' fl' where "realloc_extend_prev t pn p (caddr e) node mem n h =
      Some (node - t, n + t, node - t + 8, h'\<lparr>mdata := memcpy (node - t + 8) mem (n + t - 8) (mdata h)\<rparr>)"
    "mm_part 16 h' (rs[k := xs @ mid' @ e # ys]) fl' {}" "same_rest h h'"
proof -
  have LC: "mm_layout h" "mm_chunks 16 h rs"
    using P by (auto simp: mm_part_def)
  obtain ea l v where e: "e = Chunk ea l v" by (cases e)
  have split1: "rs ! k = xs @ Chunk p pn False # Chunk node n True # e # ys" using split by simp
  have split2: "rs ! k = (xs @ [Chunk p pn False]) @ Chunk node n True # e # ys" using split by simp
  have split3: "rs ! k = (xs @ [Chunk p pn False, Chunk node n True]) @ Chunk ea l v # ys" using split e by simp
  note hp = chunk_headers [OF LC k split1] and hn = chunk_headers [OF LC k split2, simplified]
    and he = chunk_headers [OF LC k split3, simplified]
  have node: "node = p + pn" and ea: "ea = p + pn + n" using hp(1) hn(1) he(1) by simp_all
  have wf: "region_wf 16 (rs ! k)" using mm_chunks_region(2) [OF LC(2) k] .
  have pn: "16 \<le> pn" "16 dvd pn"
    using free_chunk_ok [OF wf, of "Chunk p pn False"] split by (auto simp: chunk_ok_def)
  have "p \<in> frees rs" using k split by (auto simp: frees_nth intro!: exI [of _ k])
  then obtain h1 fl1 where h1: "mm_unlink p h = Some h1" "mm_part 16 h1 rs fl1 {p}" "same_header h h1"
    "nsize h1 = nsize h" "npreceding h1 = npreceding h"
    using mm_part_unlink [OF P, of p] by auto
  have G: "g_heapstart h1 = g_heapstart h" and md: "mdata h1 = mdata h"
    using same_header_simps [OF h1(3)] by simp_all
  have sum: "pn + n < 2 ^ 31" using region_bounds(1) [OF LC k] by (simp add: split)
  have o: "n + t OR (hdr v n AND 2 ^ 31) = hdr v (n + t)"
    using or_hdr [of "n + t" n v] he(4) sum t by simp
  have tot: "csum mid' = csum [Chunk p pn False, Chunk node n True]"
    using t by (simp add: mid'_def)
  have ok: "\<forall>c\<in>set mid'. chunk_ok 16 c"
    using t n pn dvd_imp_le [of 16 "pn - t"] by (auto simp: mid'_def chunk_ok_def)
  have co: "coalesced (xs @ mid' @ e # ys)"
    using wf unfolding split region_wf_def by (auto simp: coalesced_append coalesced_Cons mid'_def)
  show thesis
  proof (cases "t < pn")
    case True
    let ?S = "(nsize h)(p := pn - t, node - t := n + t)"
    let ?Q = "(npreceding h)(node - t := hdr True (pn - t), ea := hdr v (n + t))"
    have R: "headers_replaced h1 (with_headers ?S ?Q h1) (g_heapstart h1 ! k + csum xs) (lastlen 0 xs) mid' e"
      using True t hp node ea e h1(4,5) G n by (auto simp: headers_replaced_def same_globals_def mid'_def)
    obtain h' fl' where h': "mm_addfreechunk p (with_headers ?S ?Q h1) = Some h'"
      "mm_part 16 h' (rs[k := xs @ mid' @ e # ys]) fl' {}" "same_header (with_headers ?S ?Q h1) h'"
      by (rule mm_part_finish [OF _ k split xs R tot ok co]) (use h1 True in \<open>auto simp: mid'_def\<close>)
    have op: "pn - t OR 2 ^ 31 = hdr True (pn - t)"
      using hp(5) or_flag [of "pn - t" 31] by (simp add: hdr_def)
    have "nsize h' (node - t) = n + t" "mdata h' = mdata h"
      using same_header_simps [OF h'(3)] md by simp_all
    moreover have "p \<noteq> node - t" "ea \<noteq> node - t" using True t node ea n by auto
    ultimately have "realloc_extend_prev t pn p (caddr e) node mem n h =
      Some (node - t, n + t, node - t + 8, h'\<lparr>mdata := memcpy (node - t + 8) mem (n + t - 8) (mdata h)\<rparr>)"
      using True h'(1) h1(1,4,5) hp(2) he(3) e ea op [simplified] o [simplified]
      by (simp add: realloc_extend_prev_def Let_def)
    then show thesis
      using that h'(2) same_rest_trans [OF same_rest_header [OF h1(3)], of h'] same_rest_header [OF h'(3)] by simp
  next
    case False
    then have tp: "t = pn" "node - t = p" using t node by auto
    let ?S = "(nsize h)(p := pn + n)"
    let ?Q = "(npreceding h)(p := hdr True (lastlen 0 xs), ea := hdr v (n + t))"
    have R: "headers_replaced h1 (with_headers ?S ?Q h1) (g_heapstart h1 ! k + csum xs) (lastlen 0 xs) mid' e"
      using tp t hp node ea e h1(4,5) G n by (auto simp: headers_replaced_def same_globals_def mid'_def)
    have P': "mm_part 16 (with_headers ?S ?Q h1) (rs[k := xs @ mid' @ e # ys]) fl1 {}"
      using mm_part_replace [OF _ k split xs R tot ok co] h1(2) tp by (simp add: mid'_def)
    have op: "hdr False (lastlen 0 xs) OR 2 ^ 31 = hdr True (lastlen 0 xs)"
      using hp(4) by (simp add: hdr_num)
    have "ea \<noteq> p" using ea n pn by simp
    then have "realloc_extend_prev t pn p (caddr e) node mem n h =
      Some (node - t, n + t, node - t + 8,
        (with_headers ?S ?Q h1)\<lparr>mdata := memcpy (node - t + 8) mem (n + t - 8) (mdata h)\<rparr>)"
      using tp h1(1,4,5) hp(2,3) he(3) e ea op [simplified] o [simplified] md n(1)
      by (simp add: realloc_extend_prev_def Let_def add.commute)
    then show thesis
      using that P' same_rest_header [OF h1(3)] by simp
  qed
qed

lemma realloc_extend_next_spec:
  fixes c m t node n :: nat and h :: mm_heap
  defines "mid' \<equiv> Chunk node (n + t) True # (if t < m then [Chunk (node + n + t) (m - t) False] else [])"
  assumes P: "mm_part 16 h rs fl {}" and k: "k < length rs"
    and split: "rs ! k = xs @ [Chunk node n True, Chunk c m False] @ e # ys" and xs: "xs \<noteq> []"
    and n: "16 \<le> n" "16 dvd n" and t: "0 < t" "t \<le> m" "16 dvd t"
  obtains h' fl' where "realloc_extend_next t m c node n h = Some h'"
    "mm_part 16 h' (rs[k := xs @ mid' @ e # ys]) fl' {}" "same_rest h h'"
proof -
  have LC: "mm_layout h" "mm_chunks 16 h rs"
    using P by (auto simp: mm_part_def)
  obtain ea l v where e: "e = Chunk ea l v" by (cases e)
  have split1: "rs ! k = xs @ Chunk node n True # Chunk c m False # e # ys" using split by simp
  have split2: "rs ! k = (xs @ [Chunk node n True]) @ Chunk c m False # e # ys" using split by simp
  have split3: "rs ! k = (xs @ [Chunk node n True, Chunk c m False]) @ Chunk ea l v # ys" using split e by simp
  note hn = chunk_headers [OF LC k split1] and hc = chunk_headers [OF LC k split2, simplified]
    and he = chunk_headers [OF LC k split3, simplified]
  have c: "c = node + n" and ea: "ea = node + n + m" using hn(1) hc(1) he(1) by simp_all
  have wf: "region_wf 16 (rs ! k)" using mm_chunks_region(2) [OF LC(2) k] .
  have m: "16 \<le> m" "16 dvd m"
    using free_chunk_ok [OF wf, of "Chunk c m False"] split by (auto simp: chunk_ok_def)
  have "c \<in> frees rs" using k split by (auto simp: frees_nth intro!: exI [of _ k])
  then obtain h1 fl1 where h1: "mm_unlink c h = Some h1" "mm_part 16 h1 rs fl1 {c}" "same_header h h1"
    "nsize h1 = nsize h" "npreceding h1 = npreceding h"
    using mm_part_unlink [OF P, of c] by auto
  have G: "g_heapstart h1 = g_heapstart h"
    using same_header_simps [OF h1(3)] by simp
  have sum: "n + m < 2 ^ 31" using region_bounds(1) [OF LC k] by (simp add: split)
  have tot: "csum mid' = csum [Chunk node n True, Chunk c m False]"
    using t by (simp add: mid'_def)
  have ok: "\<forall>c\<in>set mid'. chunk_ok 16 c"
    using t n m dvd_imp_le [of 16 "m - t"] by (auto simp: mid'_def chunk_ok_def)
  have co: "coalesced (xs @ mid' @ e # ys)"
    using wf unfolding split region_wf_def by (auto simp: coalesced_append coalesced_Cons mid'_def)
  show thesis
  proof (cases "t < m")
    case True
    let ?S = "(nsize h)(node := n + t, node + n + t := m - t)"
    let ?Q = "(npreceding h)(node + n + t := n + t, ea := hdr v (m - t))"
    have R: "headers_replaced h1 (with_headers ?S ?Q h1) (g_heapstart h1 ! k + csum xs) (lastlen 0 xs) mid' e"
      using True t hn c ea e h1(4,5) G n by (auto simp: headers_replaced_def same_globals_def mid'_def hdr_def [of False])
    obtain h' fl' where h': "mm_addfreechunk (node + n + t) (with_headers ?S ?Q h1) = Some h'"
      "mm_part 16 h' (rs[k := xs @ mid' @ e # ys]) fl' {}" "same_header (with_headers ?S ?Q h1) h'"
      by (rule mm_part_finish [OF _ k split xs R tot ok co]) (use h1 True in \<open>auto simp: mid'_def\<close>)
    have o: "m - t OR (hdr v m AND 2 ^ 31) = hdr v (m - t)"
      using or_hdr [of "m - t" m v] he(4) by simp
    have "realloc_extend_next t m c node n h = Some h'"
      using True t n h'(1) h1(1,4,5) he(3) c ea o [simplified]
      by (simp add: realloc_extend_next_def Let_def add.assoc)
    then show thesis
      using that h'(2) same_rest_trans [OF same_rest_header [OF h1(3)], of h'] same_rest_header [OF h'(3)] by simp
  next
    case False
    then have tm: "t = m" using t by auto
    let ?S = "(nsize h)(node := n + t)" and ?Q = "(npreceding h)(ea := hdr v (n + t))"
    have R: "headers_replaced h1 (with_headers ?S ?Q h1) (g_heapstart h1 ! k + csum xs) (lastlen 0 xs) mid' e"
      using tm t hn c ea e h1(4,5) G n by (auto simp: headers_replaced_def same_globals_def mid'_def)
    have P': "mm_part 16 (with_headers ?S ?Q h1) (rs[k := xs @ mid' @ e # ys]) fl1 {}"
      using mm_part_replace [OF _ k split xs R tot ok co] h1(2) tm by (simp add: mid'_def)
    have o: "n + t OR (hdr v m AND 2 ^ 31) = hdr v (n + t)"
      using or_hdr [of "n + t" m v] he(4) sum tm by simp
    have "realloc_extend_next t m c node n h = Some (with_headers ?S ?Q h1)"
      using tm t n h1(1,4,5) he(3) c ea o [simplified]
      by (simp add: realloc_extend_next_def Let_def add.assoc)
    then show thesis
      using that P' same_rest_header [OF h1(3)] by simp
  qed
qed

lemma realloc_takes_spec:
  assumes "realloc_takes needed prevsize nextsize = (tp, tn)" and "0 < needed" "needed \<le> prevsize + nextsize"
    and "16 dvd needed" "16 dvd prevsize" "16 dvd nextsize"
  shows "tp \<le> prevsize" "tn \<le> nextsize" "tp + tn = needed" "16 dvd tp" "16 dvd tn"
  using assms by (auto simp: realloc_takes_def split: if_splits)

text \<open>Both extensions, seen through \<open>used\<close>.\<close>

lemma mm_part_mdata: "mm_part g h rs fl A \<Longrightarrow> mm_part g (h\<lparr>mdata := d\<rparr>) rs fl A"
  by (rule mm_part_globals) (simp_all add: same_globals_def)

lemma mm_part_distinct: "mm_part g h rs fl A \<Longrightarrow> distinct (concat rs)"
  using distinct_chunks by (auto simp: mm_part_def)

lemma nth_in_concat: "k < length rs \<Longrightarrow> c \<in> set (rs ! k) \<Longrightarrow> c \<in> set (concat rs)"
  by (metis UN_I nth_mem set_concat)

text \<open>Extending into the following chunk does not touch the payloads.\<close>

lemma extend_next_used:
  assumes P: "mm_part 16 h rs fl {}" and k: "k < length rs"
    and split: "rs ! k = xs @ Chunk node n True # Chunk c m u # zs" and xs: "xs \<noteq> []"
    and n: "16 \<le> n" "16 dvd n" and t: "t \<le> (if u then 0 else m)" "16 dvd t"
  shows "\<exists>h' rs' fl'. (if t > 0 then realloc_extend_next t (if u then 0 else m) c node n h else Some h) = Some h' \<and>
    mm_part 16 h' rs' fl' {} \<and> same_rest h h' \<and>
    used rs' = insert (Chunk node (n + t) True) (used rs - {Chunk node n True})"
proof (cases "t = 0")
  case True
  have "Chunk node n True \<in> used rs"
    using nth_in_concat [OF k, of "Chunk node n True"] by (simp add: used_def split)
  then show ?thesis using True P by (auto simp: insert_absorb)
next
  case False
  with t have u: "\<not> u" by (auto split: if_splits)
  have C: "mm_chunks 16 h rs" using P by (simp add: mm_part_def)
  have "zs \<noteq> []"
    using region_wf_inner(2) [of 16 "xs @ [Chunk node n True]" "Chunk c m u" zs]
      mm_chunks_region(2) [OF C k] u by (simp add: split)
  then obtain e zs' where zs: "zs = e # zs'" by (cases zs) auto
  have sp: "rs ! k = xs @ [Chunk node n True, Chunk c m False] @ e # zs'"
    using split zs u by simp
  have tm: "0 < t" "t \<le> m" using False t u by auto
  let ?mid' = "Chunk node (n + t) True # (if t < m then [Chunk (node + n + t) (m - t) False] else [])"
  obtain h' fl' where h': "realloc_extend_next t m c node n h = Some h'"
    "mm_part 16 h' (rs[k := xs @ ?mid' @ e # zs']) fl' {}" "same_rest h h'"
    using realloc_extend_next_spec [OF P k sp xs n tm t(2)] by metis
  have "used (rs[k := xs @ ?mid' @ e # zs']) = insert (Chunk node (n + t) True) (used rs - {Chunk node n True})"
    by (rule used_resize [OF mm_part_distinct [OF P] k sp]) auto
  with h' False u show ?thesis by auto
qed

lemma realloc_extend_used:
  assumes P: "mm_part 16 h rs fl {}" and k: "k < length rs"
    and split: "rs ! k = xs @ Chunk p pn v # Chunk node n True # Chunk c m u # zs"
    and n: "16 \<le> n" "16 dvd n" and tp: "tp \<le> (if v then 0 else pn)" "16 dvd tp"
    and tn: "tn \<le> (if u then 0 else m)" "16 dvd tn"
  obtains h' rs' fl' where
    "realloc_extend tp tn (if v then 0 else pn) (if u then 0 else m) p c node (node + 8) n h = Some (node - tp + 8, h')"
    "mm_part 16 h' rs' fl' {}" "sem_of h' = sem_of h"
    "used rs' = insert (Chunk (node - tp) (n + tp + tn) True) (used rs - {Chunk node n True})"
    "\<And>i. i < n - 8 \<Longrightarrow> mdata h' (node - tp + 8 + i) = mdata h (node + 8 + i)"
    "\<And>x. x < node - tp + 8 \<or> node + n \<le> x \<Longrightarrow> mdata h' x = mdata h x"
proof (cases "tp = 0")
  case True
  have sp: "rs ! k = (xs @ [Chunk p pn v]) @ Chunk node n True # Chunk c m u # zs" using split by simp
  from extend_next_used [OF P k sp _ n tn]
  obtain h' rs' fl' where h': "(if tn > 0 then realloc_extend_next tn (if u then 0 else m) c node n h else Some h) = Some h'"
    "mm_part 16 h' rs' fl' {}" "same_rest h h'"
    "used rs' = insert (Chunk node (n + tn) True) (used rs - {Chunk node n True})"
    by auto
  from h'(1,3) have "realloc_extend tp tn (if v then 0 else pn) (if u then 0 else m) p c node (node + 8) n h = Some (node - tp + 8, h')"
    using True by (simp add: realloc_extend_def split: if_splits)
  moreover have "sem_of h' = sem_of h" "mdata h' = mdata h"
    using h'(3) by (auto simp: same_rest_def)
  ultimately show thesis
    using h'(2,4) True by (intro that [of h' rs' fl']) simp_all
next
  case False
  with tp have v: "\<not> v" by (auto split: if_splits)
  have LC: "mm_layout h" "mm_chunks 16 h rs" using P by (auto simp: mm_part_def)
  have xs: "xs \<noteq> []"
    using region_wf_inner(1) [of 16 xs "Chunk p pn v"] mm_chunks_region(2) [OF LC(2) k] v by (simp add: split)
  have sp: "rs ! k = xs @ [Chunk p pn False, Chunk node n True] @ Chunk c m u # zs"
    using split v by simp
  have sp2: "rs ! k = (xs @ [Chunk p pn False]) @ Chunk node n True # Chunk c m u # zs" using sp by simp
  have tpm: "0 < tp" "tp \<le> pn" using False tp v by auto
  have node: "tp \<le> node"
    using chunk_headers(1) [OF LC k sp2] tpm by simp
  let ?mid' = "(if tp < pn then [Chunk p (pn - tp) False] else []) @ [Chunk (node - tp) (n + tp) True]"
  obtain h1 fl1 where h1: "realloc_extend_prev tp pn p c node (node + 8) n h =
      Some (node - tp, n + tp, node - tp + 8, h1\<lparr>mdata := memcpy (node - tp + 8) (node + 8) (n + tp - 8) (mdata h)\<rparr>)"
    "mm_part 16 h1 (rs[k := xs @ ?mid' @ Chunk c m u # zs]) fl1 {}" "same_rest h h1"
    using realloc_extend_prev_spec [OF P k sp xs n tpm tp(2), of "node + 8"] by auto
  let ?rs1 = "rs[k := xs @ ?mid' @ Chunk c m u # zs]"
  let ?d = "memcpy (node - tp + 8) (node + 8) (n + tp - 8) (mdata h)"
  have u1: "used ?rs1 = insert (Chunk (node - tp) (n + tp) True) (used rs - {Chunk node n True})"
    by (rule used_resize [OF mm_part_distinct [OF P] k sp]) auto
  let ?xs1 = "xs @ (if tp < pn then [Chunk p (pn - tp) False] else [])"
  have k1: "k < length ?rs1" and sp1: "?rs1 ! k = ?xs1 @ Chunk (node - tp) (n + tp) True # Chunk c m u # zs"
    using k by auto
  have n1: "16 \<le> n + tp" "16 dvd n + tp" using n tp by auto
  from extend_next_used [OF mm_part_mdata [OF h1(2), of ?d] k1 sp1 _ n1 tn]
  obtain h' rs' fl' where h': "(if tn > 0 then realloc_extend_next tn (if u then 0 else m) c (node - tp) (n + tp) (h1\<lparr>mdata := ?d\<rparr>)
      else Some (h1\<lparr>mdata := ?d\<rparr>)) = Some h'"
    "mm_part 16 h' rs' fl' {}" "same_rest (h1\<lparr>mdata := ?d\<rparr>) h'"
    "used rs' = insert (Chunk (node - tp) (n + tp + tn) True) (used ?rs1 - {Chunk (node - tp) (n + tp) True})"
    using xs by auto
  have "realloc_extend tp tn (if v then 0 else pn) (if u then 0 else m) p c node (node + 8) n h = Some (node - tp + 8, h')"
    using False v h1(1) h'(1) by (simp add: realloc_extend_def)
  moreover have "sem_of h' = sem_of h" and md: "mdata h' = ?d"
    using h1(3) h'(3) by (auto simp: same_rest_def sem_of_def)
  moreover have "Chunk (node - tp) (n + tp) True \<notin> used rs"
  proof
    assume a: "Chunk (node - tp) (n + tp) True \<in> used rs"
    have "Chunk node n True \<in> set (rs ! k)" by (simp add: sp)
    then have "Chunk node n True \<in> set (concat rs)" by (rule nth_in_concat [OF k])
    then have "apart (Chunk (node - tp) (n + tp) True) (Chunk node n True)"
      using a chunks_apart [OF LC] tpm by (auto simp: used_def simp del: set_concat)
    then show False using n tpm node by (auto simp: apart_def)
  qed
  then have "used rs' = insert (Chunk (node - tp) (n + tp + tn) True) (used rs - {Chunk node n True})"
    unfolding h'(4) u1 by auto
  moreover have "mdata h' (node - tp + 8 + i) = mdata h (node + 8 + i)" if "i < n - 8" for i
    unfolding md using memcpy_copies [of "node - tp + 8" "node + 8" "n + tp - 8" i "mdata h"] that tpm by simp
  moreover have "mdata h' x = mdata h x" if "x < node - tp + 8 \<or> node + n \<le> x" for x
    unfolding md using memcpy_outside [of x "node - tp + 8" "n + tp - 8" "node + 8" "mdata h"] that node n by auto
  ultimately show thesis using h'(2) by (intro that)
qed

subsection \<open>The whole operation\<close>

text \<open>What a successful \<open>realloc\<close> of the chunk \<open>Chunk node n True\<close> to \<open>sz\<close> bytes means.\<close>

definition realloc_ok :: "mm_heap \<Rightarrow> chunk list list \<Rightarrow> addr \<Rightarrow> nat \<Rightarrow> nat \<Rightarrow> addr \<Rightarrow> mm_heap \<Rightarrow> chunk list list \<Rightarrow> bool" where
  "realloc_ok h rs node n sz mem h' rs' \<longleftrightarrow>
     (\<exists>new m. mem = new + 8 \<and> sz + 8 \<le> m \<and>
        used rs' = insert (Chunk new m True) (used rs - {Chunk node n True}) \<and>
        (\<forall>i < min sz (n - 8). mdata h' (mem + i) = mdata h (node + 8 + i)) \<and>
        (\<forall>x. x < mem \<or> new + m \<le> x \<longrightarrow> mdata h' x = mdata h x)) \<and> sem_of h' = sem_of h"

lemma realloc_okI:
  assumes "mem = new + 8" and "sz + 8 \<le> m"
    and "used rs' = insert (Chunk new m True) (used rs - {Chunk node n True})"
    and "\<And>i. i < min sz (n - 8) \<Longrightarrow> mdata h' (mem + i) = mdata h (node + 8 + i)"
    and "\<And>x. x < mem \<or> new + m \<le> x \<Longrightarrow> mdata h' x = mdata h x" and "sem_of h' = sem_of h"
  shows "realloc_ok h rs node n sz mem h' rs'"
  using assms unfolding realloc_ok_def by blast

lemma chunk_for_fold: "MM_ALIGN_UP (add32 sz 8) = chunk_for sz"
  by (simp add: chunk_for_def)

lemma realloc_in_place:
  assumes I: "mm_inv 16 h rs fl" and t: "mm_can_take pid h" and c: "Chunk node n True \<in> used rs" and n: "16 \<le> n"
    and sz: "0 < sz" "sz + 64 < 2 ^ 32" and le: "chunk_for sz \<le> n"
  shows "\<exists>h' rs' fl'. realloc pid (node + 8) sz h = Some (node + 8, h') \<and> mm_inv 16 h' rs' fl' \<and>
    realloc_ok h rs node n sz (node + 8) h' rs'"
proof -
  obtain sm where take: "mm_takesemaphore pid h = Some (with_sem sm h)"
    and give: "\<And>h'. sem_of h' = sm \<Longrightarrow> mm_givesemaphore pid h' = Some (with_sem (sem_of h) h')"
    using takesemaphore_spec [OF t] by metis
  have P1: "mm_part 16 (with_sem sm h) rs fl {}"
    using I by (auto simp: mm_inv_part intro: mm_part_globals)
  have LC: "mm_layout h" "mm_chunks 16 h rs" using I by (auto simp: mm_inv_def)
  have s: "sz + 8 \<le> chunk_for sz" "16 \<le> chunk_for sz" "16 dvd chunk_for sz"
    using request_size [of sz] sz by (auto simp: chunk_for_def)
  obtain k xs ys where k: "k < length rs" "rs ! k = xs @ Chunk node n True # ys"
    using used_split [OF LC(2) c n] by metis
  have nn: "nsize h node = n" using chunk_headers(2) [OF LC k] .
  have "\<exists>h1 rs' fl' n'. (if chunk_for sz < n then mm_shrinkchunk node (chunk_for sz) (with_sem sm h)
      else Some (with_sem sm h)) = Some h1 \<and> same_rest (with_sem sm h) h1 \<and> mm_part 16 h1 rs' fl' {} \<and>
    used rs' = insert (Chunk node n' True) (used rs - {Chunk node n True}) \<and> chunk_for sz \<le> n' \<and> n' \<le> n"
  proof (cases "chunk_for sz < n")
    case True
    show ?thesis
      using mm_shrinkchunk_used [OF P1 c n s(2,3) True] True by (simp, metis)
  next
    case False
    then show ?thesis using P1 le c by (auto simp: insert_absorb intro!: exI [of _ rs] exI [of _ n])
  qed
  then obtain h1 rs' fl' n' where h1: "(if chunk_for sz < n then mm_shrinkchunk node (chunk_for sz) (with_sem sm h)
      else Some (with_sem sm h)) = Some h1" "same_rest (with_sem sm h) h1" "mm_part 16 h1 rs' fl' {}"
    "used rs' = insert (Chunk node n' True) (used rs - {Chunk node n True})" "chunk_for sz \<le> n'" "n' \<le> n" by blast
  have md: "sem_of h1 = sm" "mdata h1 = mdata h" using h1(2) by (auto simp: same_rest_def)
  let ?h' = "with_sem (sem_of h) h1"
  have "realloc pid (node + 8) sz h = Some (node + 8, ?h')"
    using sz(1) le h1(1) by (simp add: realloc_def chunk_for_fold take nn give md(1))
  moreover have "mm_inv 16 ?h' rs' fl'"
    using h1(3) by (auto simp: mm_inv_part intro: mm_part_globals)
  moreover have "realloc_ok h rs node n sz (node + 8) ?h' rs'"
    by (rule realloc_okI [OF refl _ h1(4)]) (use h1(5) s(1) md(2) in simp_all)
  ultimately show ?thesis by blast
qed

lemma realloc_grows:
  assumes I: "mm_inv 16 h rs fl" and t: "mm_can_take pid h" and c: "Chunk node n True \<in> used rs" and n: "16 \<le> n"
    and sz: "0 < sz" "sz + 64 < 2 ^ 32" and gt: "n < chunk_for sz"
  shows "realloc pid (node + 8) sz h = Some (NULL, h) \<or>
    (\<exists>mem h' rs' fl'. realloc pid (node + 8) sz h = Some (mem, h') \<and> mm_inv 16 h' rs' fl' \<and>
       realloc_ok h rs node n sz mem h' rs')"
proof -
  obtain sm where take: "mm_takesemaphore pid h = Some (with_sem sm h)"
    and give: "\<And>h'. sem_of h' = sm \<Longrightarrow> mm_givesemaphore pid h' = Some (with_sem (sem_of h) h')"
    using takesemaphore_spec [OF t] by metis
  have P1: "mm_part 16 (with_sem sm h) rs fl {}"
    using I by (auto simp: mm_inv_part intro: mm_part_globals)
  have LC: "mm_layout h" "mm_chunks 16 h rs" using I by (auto simp: mm_inv_def)
  have s: "sz + 8 \<le> chunk_for sz" "16 \<le> chunk_for sz" "16 dvd chunk_for sz" "chunk_for sz < sz + 24"
    using request_size [of sz] sz by (auto simp: chunk_for_def)
  obtain k xs ys where k: "k < length rs" "rs ! k = xs @ Chunk node n True # ys" "xs \<noteq> []" "ys \<noteq> []" "16 dvd n"
    using used_split [OF LC(2) c n] by metis
  obtain x m u zs where ys: "ys = Chunk x m u # zs" using k(4) by (metis chunk.exhaust list.exhaust)
  obtain xs0 p pn v where xs: "xs = xs0 @ [Chunk p pn v]" using k(3) by (metis chunk.exhaust rev_exhaust)
  have sp: "rs ! k = xs0 @ Chunk p pn v # Chunk node n True # Chunk x m u # zs" using k(2) xs ys by simp
  have sp2: "rs ! k = (xs0 @ [Chunk p pn v]) @ Chunk node n True # Chunk x m u # zs" using sp by simp
  have sp3: "rs ! k = (xs0 @ [Chunk p pn v, Chunk node n True]) @ Chunk x m u # zs" using sp by simp
  note hp = chunk_headers [OF LC k(1) sp] and hn = chunk_headers [OF LC k(1) sp2, simplified]
    and hx = chunk_headers [OF LC k(1) sp3, simplified]
  have xa: "x = node + n" and pa: "node = p + pn" using hp(1) hn(1) hx(1) by simp_all
  let ?ns = "if u then 0 else m" and ?ps = "if v then 0 else pn"
  have nxt: "(if npreceding h (node + n) AND 2 ^ 31 = 0 then nsize h (node + n) else 0) = ?ns"
    using hx(2,3,4) hn(4) xa hdr_num(1) [of n u] by simp
  have prv: "take_bit 31 (npreceding h node) = pn" "(if npreceding h p AND 2 ^ 31 = 0 then nsize h p else 0) = ?ps"
    "node - pn = p"
    using hn(3,4) hp(2,3,4) hdr_num(1) [of "lastlen 0 xs0" v] hdr_num(2) [of pn True] pa by simp_all
  have nz: "(node + 8 = NULL) = False" "(sz \<le> 0) = False" "(chunk_for sz \<le> n) = False"
    using sz(1) gt by simp_all
  note unf = realloc_def Let_def chunk_for_fold SIZEOF_MM_ALLOCNODE_def MM_ALLOC_BIT_def diff_add_inverse2 take
    Option.bind.simps with_sem_simps hn(2) nxt prv nz if_False if_True
  have dv: "16 dvd ?ns" "16 dvd ?ps"
    using free_chunk_ok [OF mm_chunks_region(2) [OF LC(2) k(1)], of "Chunk x m u"]
      free_chunk_ok [OF mm_chunks_region(2) [OF LC(2) k(1)], of "Chunk p pn v"] by (simp_all add: sp chunk_ok_def)
  show ?thesis
  proof (cases "chunk_for sz \<le> ?ns + ?ps + n")
    case True
    obtain tp tn where tk: "realloc_takes (chunk_for sz - n) ?ps ?ns = (tp, tn)" by (cases "realloc_takes (chunk_for sz - n) ?ps ?ns")
    note b = realloc_takes_spec [OF tk]
    have b': "tp \<le> ?ps" "tn \<le> ?ns" "tp + tn = chunk_for sz - n" "16 dvd tp" "16 dvd tn"
      using b gt True dv dvd_diff_nat [OF s(3) k(5)] by auto
    obtain h1 rs' fl' where h1: "realloc_extend tp tn ?ps ?ns p x node (node + 8) n (with_sem sm h) = Some (node - tp + 8, h1)"
      "mm_part 16 h1 rs' fl' {}" "sem_of h1 = sem_of (with_sem sm h)"
      "used rs' = insert (Chunk (node - tp) (n + tp + tn) True) (used rs - {Chunk node n True})"
      "\<And>i. i < n - 8 \<Longrightarrow> mdata h1 (node - tp + 8 + i) = mdata (with_sem sm h) (node + 8 + i)"
      "\<And>y. y < node - tp + 8 \<or> node + n \<le> y \<Longrightarrow> mdata h1 y = mdata (with_sem sm h) y"
      using realloc_extend_used [OF P1 k(1) sp n k(5) b'(1,4,2,5)] by metis
    let ?h' = "with_sem (sem_of h) h1"
    have sm: "sem_of h1 = sm" using h1(3) by simp
    have "realloc pid (node + 8) sz h = Some (node - tp + 8, ?h')"
      using True [THEN eq_True [THEN iffD2]] h1(1) [unfolded xa] give [OF sm]
      by (simp only: unf tk prod.case)
    moreover have "mm_inv 16 ?h' rs' fl'"
      using h1(2) by (auto simp: mm_inv_part intro: mm_part_globals)
    moreover have "realloc_ok h rs node n sz (node - tp + 8) ?h' rs'"
    proof -
      have tp: "tp \<le> node" using b'(1) pa by (auto split: if_splits)
      show ?thesis
      proof (rule realloc_okI [OF refl _ h1(4)])
        show "mdata ?h' (node - tp + 8 + i) = mdata h (node + 8 + i)" if "i < min sz (n - 8)" for i
          using h1(5) [of i] that by simp
        show "mdata ?h' y = mdata h y" if "y < node - tp + 8 \<or> node - tp + (n + tp + tn) \<le> y" for y
          using h1(6) [of y] that tp by auto
        show "sz + 8 \<le> n + tp + tn" using s(1) b'(3) gt by simp
      qed simp
    qed
    ultimately show ?thesis by blast
  next
    case False
    have mv: "realloc pid (node + 8) sz h = do {
        (newmem, h) \<leftarrow> malloc pid (chunk_for sz) h;
        if newmem \<noteq> NULL
        then do { h \<leftarrow> free pid (node + 8) (h\<lparr>mdata := memcpy newmem (node + 8) n (mdata h)\<rparr>); Some (newmem, h) }
        else Some (newmem, h) }"
      using False [THEN eq_False [THEN iffD2]]
      by (simp only: unf give [OF with_sem_simps(11)] prod.case)
    have s2: "0 < chunk_for sz" "chunk_for sz + 23 < 2 ^ 32" using s sz by auto
    show ?thesis
    proof (cases rule: malloc_used [OF I dvd_refl t s2, case_names none some])
      case none
      then show ?thesis by (simp add: mv)
    next
      case (some new m' m'' h1 rs1 fl1)
      let ?h2 = "h1\<lparr>mdata := memcpy (new + 8) (node + 8) n (mdata h1)\<rparr>"
      have I2: "mm_inv 16 ?h2 rs1 fl1"
        using some(2) mm_part_mdata by (simp add: mm_inv_part)
      have t2: "mm_can_take pid ?h2"
        using t some(9) by (simp add: mm_can_take_def sem_of_def)
      have c2: "Chunk node n True \<in> used rs1" using c some(5) by simp
      obtain h' rs' fl' where h': "free pid (node + 8) ?h2 = Some h'" "mm_inv 16 h' rs' fl'"
        "used rs' = used rs1 - {Chunk node n True}" "sem_of h' = sem_of ?h2" "mdata h' = mdata ?h2"
        using free_used [OF I2 t2 c2 n] by metis
      have neq: "Chunk new m' True \<noteq> Chunk node n True"
        using some(12) c by auto
      have "Chunk new m' True \<in> used rs1" using some(5) by simp
      then have "apart (Chunk new m' True) (Chunk node n True)"
        using neq c2 chunks_apart [of ?h2 16 rs1] I2 by (auto simp: used_def mm_inv_def simp del: set_concat)
      moreover have m': "n + 8 \<le> m'" "sz + 8 \<le> m'"
        using some(7) request_size(1) [OF s2] gt s(1) by (auto simp: chunk_for_def [of "chunk_for sz"])
      ultimately have ap: "new + 8 \<le> node + 8 \<or> node + 8 + n \<le> new + 8"
        by (auto simp: apart_def)
      have ok: "realloc_ok h rs node n sz (new + 8) h' rs'"
      proof (rule realloc_okI [OF refl m'(2)])
        show "used rs' = insert (Chunk new m' True) (used rs - {Chunk node n True})"
          unfolding h'(3) some(5) using neq by auto
        show "mdata h' (new + 8 + i) = mdata h (node + 8 + i)" if "i < min sz (n - 8)" for i
          using memcpy_copies [OF ap, of i "mdata h"] that some(10) h'(5) by force
        show "mdata h' y = mdata h y" if "y < new + 8 \<or> new + m' \<le> y" for y
          using memcpy_outside [of y "new + 8" n "node + 8" "mdata h"] that m'(1) some(10) h'(5) by auto
      qed (use h'(4) some(9) in \<open>auto simp: sem_of_def\<close>)
      have "realloc pid (node + 8) sz h = Some (new + 8, h')"
        using some(1) h'(1) by (simp add: mv)
      with ok h'(2) show ?thesis by blast
    qed
  qed
qed

end
