(* ===== verification/Mm_Memalign.thy ===== *)
theory Mm_Memalign
  imports Mm_Realloc
begin

section \<open>memalign, zalloc and calloc\<close>

text \<open>
  \<open>memalign\<close> returns an aligned block of the size asked for. It leaves chunks whose size is a
  multiple of 8 and not of 16, so that its theorem is about the invariant with granularity 8.
\<close>

lemma mm_inv_mono: "mm_inv g h rs fl \<Longrightarrow> g' dvd g \<Longrightarrow> mm_inv g' h rs fl"
  unfolding mm_inv_def mm_chunks_def region_wf_def chunk_ok_def by (meson dvd_trans)

lemma csum_dvd:
  assumes "region_wf g cs" and "cs = xs @ c # ys" and "8 dvd g"
  shows "8 dvd csum xs"
proof -
  have "8 dvd clen d" if "d \<in> set cs" for d
    using assms(1) that dvd_trans [OF assms(3)] by (fastforce simp: region_wf_def chunk_ok_def)
  then have "\<forall>d\<in>set xs. 8 dvd clen d" using assms(2) by auto
  then show ?thesis by (induction xs) auto
qed

text \<open>The two alignment points.\<close>

lemma align_point:
  fixes raw a :: nat
  assumes "raw + 2 ^ a \<le> 2 ^ 32" and "a \<le> 32"
  defines "al \<equiv> add32 raw (2 ^ a - 1) AND not32 (2 ^ a - 1)"
  shows "raw \<le> al" "al < raw + 2 ^ a" "2 ^ a dvd al"
proof -
  have pos: "(1::nat) \<le> 2 ^ a" by simp
  let ?s = "raw + (2 ^ a - 1)"
  have lt: "?s < 2 ^ 32" using assms(1) pos by linarith
  have al: "al = ?s - ?s mod 2 ^ a"
    unfolding al_def using and_not32_mask [OF lt assms(2)] lt by simp
  have "?s mod 2 ^ a < 2 ^ a" "?s mod 2 ^ a \<le> ?s" by simp_all
  then show "raw \<le> al" "al < raw + 2 ^ a" using al pos by linarith+
  show "2 ^ a dvd al" unfolding al by (rule dvd_minus_mod)
qed

lemma memalign_split_spec:
  fixes node m a :: nat and h :: mm_heap
  assumes P: "mm_part 8 h rs fl {}" and k: "k < length rs"
    and split: "rs ! k = xs @ Chunk node m True # e # ys" and xs: "xs \<noteq> []" "cused (last xs)"
    and a: "5 \<le> a" "a \<le> 31" and m: "l + 2 * 2 ^ a + 8 \<le> m" "16 \<le> l" and alloc: "l < alloc"
  obtains al nd room h' rs' fl' where "memalign_split (2 ^ a) (node + 8) alloc h = Some (al, nd, room, h')"
    "al = nd + 8" "2 ^ a dvd al" "mm_part 8 h' rs' fl' {}" "same_rest h h'"
    "\<exists>m'. l + 8 < m' \<and> node \<le> nd \<and> nd + m' = node + m \<and>
       used rs' = insert (Chunk nd m' True) (used rs - {Chunk node m True})" "l < room"
proof -
  have LC: "mm_layout h" "mm_chunks 8 h rs"
    using P by (auto simp: mm_part_def)
  obtain ea q u where e: "e = Chunk ea q u" by (cases e)
  have split2: "rs ! k = (xs @ [Chunk node m True]) @ Chunk ea q u # ys" using split e by simp
  note hn = chunk_headers [OF LC k split] and he = chunk_headers [OF LC k split2, simplified]
  have ea: "ea = node + m" using hn(1) he(1) by simp
  have wf: "region_wf 8 (rs ! k)" using mm_chunks_region(2) [OF LC(2) k] .
  have m16: "16 \<le> m" and ok: "8 dvd m"
    using m region_wf_inner(3) [OF wf [unfolded split]] by (auto simp: chunk_ok_def)
  have "16 dvd g_heapstart h ! k" using LC k by (simp add: mm_layout_def mm_chunks_def)
  then have d8: "8 dvd node + 8"
    using hn(1) csum_dvd [OF wf split] by (simp add: dvd_add dvd_trans [of 8 16])
  let ?al = "add32 (node + 8) (2 ^ a - 1) AND not32 (2 ^ a - 1)"
  have bd: "node + 8 + 2 ^ a \<le> 2 ^ 32" using hn(6) m by simp
  have al: "node + 8 \<le> ?al" "?al < node + 8 + 2 ^ a" "2 ^ a dvd ?al"
    using align_point [OF bd] a(2) by auto
  have a8: "8 dvd (2::nat) ^ a"
    using le_imp_power_dvd [of 3 a "2::nat"] a(1) by simp
  then have al8: "8 dvd ?al" using al(3) dvd_trans by blast
  show thesis
  proof (cases "?al = node + 8")
    case True
    have "Chunk node m True \<in> used rs"
      using nth_in_concat [OF k, of "Chunk node m True"] by (simp add: used_def split)
    moreover have "l + 8 < m" using m(1) zero_less_power [of "2::nat" a] by linarith
    ultimately show thesis
      using True P alloc al(3)
      by (intro that [of "node + 8" node alloc h rs fl]) (auto simp: memalign_split_def Let_def insert_absorb)
  next
    case False
    define p where "p = (if ?al - (node + 8) < 16 then ?al + 2 ^ a - (node + 8) else ?al - (node + 8))"
    have ge8: "node + 16 \<le> ?al"
      using False al(1) al8 d8 by presburger
    have a32: "(32::nat) \<le> 2 ^ a" using power_increasing [of 5 a "2::nat"] a(1) by simp
    have p: "16 \<le> p" "p < 2 * 2 ^ a" "8 dvd p" "2 ^ a dvd node + 8 + p"
      using al ge8 a32 al8 a8 d8 by (auto simp: p_def intro!: dvd_diff_nat)
    let ?S = "(nsize h)(node + p := m - p, node := p)"
    let ?Q = "(npreceding h)(node + p := hdr True p, node := lastlen 0 xs, ea := hdr u (m - p))"
    let ?mid' = "[Chunk node p False, Chunk (node + p) (m - p) True]"
    have R: "headers_replaced h (with_headers ?S ?Q h) (g_heapstart h ! k + csum xs) (lastlen 0 xs) ?mid' e"
      using p m hn ea e by (auto simp: headers_replaced_def same_globals_def hdr_def [of False])
    have co: "coalesced (xs @ ?mid' @ e # ys)"
      using wf xs unfolding split region_wf_def by (auto simp: coalesced_append coalesced_Cons)
    obtain h' fl' where h': "mm_addfreechunk node (with_headers ?S ?Q h) = Some h'"
      "mm_part 8 h' (rs[k := xs @ ?mid' @ e # ys]) fl' {}" "same_header (with_headers ?S ?Q h) h'"
      by (rule mm_part_finish [where mid = "[Chunk node m True]" and mid' = ?mid', OF _ k _ xs(1) R _ _ co])
         (use P split p m ok dvd_diff_nat [OF ok p(3)] in \<open>auto simp: chunk_ok_def\<close>)
    have o: "m - p OR (hdr u m AND 2 ^ 31) = hdr u (m - p)" "p OR 2 ^ 31 = hdr True p"
      using or_hdr [of "m - p" m u] or_flag [of p 31] hn(5) p m by (simp_all add: hdr_def [of True])
    have q: "take_bit 31 (npreceding h node) = lastlen 0 xs" using hn(3,4) by (simp add: hdr_num)
    have "memalign_split (2 ^ a) (node + 8) alloc h = Some (node + p + 8, node + p, m - p - 8, h')"
    proof -
      have tri: "(if ?al - 8 - node < 16 then (?al + 2 ^ a, ?al + 2 ^ a - 8, ?al + 2 ^ a - 8 - node)
          else (?al, ?al - 8, ?al - 8 - node)) = (node + p + 8, node + p, p)"
        using ge8 by (auto simp: p_def add.commute [of 8])
      have g: "(?al \<noteq> node + 8) = True" "(node + 8 + 8 \<le> ?al) = True" using False ge8 by simp_all
      have neq: "node + p \<noteq> node" "ea \<noteq> node" "ea \<noteq> node + p" using p m m16 ea by auto
      have sz: "nsize h' (node + p) = m - p" using same_header_simps [OF h'(3)] neq(1) by simp
      have nx: "node + nsize h node - (node + p) = m - p" "node + nsize h node = ea" using hn(2) ea by simp_all
      have rec: "set_preceding ea (m - p OR (npreceding (set_preceding node (take_bit 31 (npreceding h node))
            (set_preceding (node + p) (p OR 2 ^ 31) h)) ea AND 2 ^ 31))
          (set_preceding node (take_bit 31 (npreceding h node)) (set_preceding (node + p) (p OR 2 ^ 31)
            (set_size node p (set_size (node + p) (m - p) h)))) = with_headers ?S ?Q h"
        using o he(3) q neq ea by simp
      have "memalign_split (2 ^ a) (node + 8) alloc h =
        do { h' \<leftarrow> mm_addfreechunk node (with_headers ?S ?Q h); Some (node + p + 8, node + p, m - p - 8, h') }"
        unfolding memalign_split_def Let_def SIZEOF_MM_ALLOCNODE_def SIZEOF_MM_FREENODE_def MM_ALLOC_BIT_def
          diff_add_inverse2 g if_True tri prod.case Option.bind.simps nx rec [symmetric]
        using neq by (simp add: nx ea)
      then show ?thesis using h'(1) by simp
    qed
    moreover have "used (rs[k := xs @ ?mid' @ e # ys]) = insert (Chunk (node + p) (m - p) True) (used rs - {Chunk node m True})"
      by (rule used_resize [OF mm_part_distinct [OF P] k, where mid = "[Chunk node m True]"]) (auto simp: split)
    moreover have "l + 8 < m - p" "l < m - p - 8" using m p(2) by simp_all
    moreover have "node + p + (m - p) = node + m" using m p(2) by simp
    moreover have "2 ^ a dvd node + p + 8" using p(4) by (simp add: ac_simps)
    moreover have "same_rest h h'" using same_rest_header [OF h'(3)] by simp
    ultimately show thesis
      using h'(2) le_add1 [of node p] by (intro that [of "node + p + 8" "node + p" "m - p - 8" h']) blast+
  qed
qed

lemma memalign_spec:
  assumes I: "mm_inv 8 h rs fl" and t: "mm_can_take pid h" and a: "5 \<le> a"
    and sz: "0 < sz" "sz + 2 * 2 ^ a + 64 < 2 ^ 32"
  obtains (none) "memalign pid (2 ^ a) sz h = Some (NULL, h)"
    | (some) node n h' rs' fl' where "memalign pid (2 ^ a) sz h = Some (node + 8, h')" "2 ^ a dvd node + 8"
      "mm_inv 8 h' rs' fl'" "used rs' = insert (Chunk node n True) (used rs)" "sz + 8 \<le> n"
      "sem_of h' = sem_of h" "mdata h' = mdata h"
proof -
  let ?l = "MM_ALIGN_UP sz"
  let ?n = "?l + 2 * 2 ^ a"
  have l: "sz \<le> ?l" "?l < sz + 16" "16 dvd ?l"
    using align_up_bounds [of sz] sz by auto
  have l16: "16 \<le> ?l" using l sz(1) by (intro dvd_imp_le) auto
  have "(2::nat) ^ a < 2 ^ 32" using sz(2) by simp
  then have a31: "a \<le> 31" using power_less_imp_less_exp [of "2::nat" a 32] by simp
  have gt: "(2 ^ a \<le> MM_MIN_CHUNK) = False"
    using power_increasing [of 5 a "2::nat"] a by simp
  have al: "add32 ?l (mul32 2 (2 ^ a)) = ?n" using sz l by simp
  have s: "0 < ?n" "?n + 23 < 2 ^ 32" using l sz by auto
  have g8: "8 dvd (16::nat)" and lt: "?l < ?n" by simp_all
  have mem: "memalign pid (2 ^ a) sz h = do {
      (rawchunk, h) \<leftarrow> malloc pid ?n h;
      if rawchunk = 0 then Some (NULL, h)
      else do {
        h \<leftarrow> mm_takesemaphore pid h;
        (alignedchunk, node, allocsize, h) \<leftarrow> memalign_split (2 ^ a) rawchunk ?n h;
        h \<leftarrow> (if allocsize > ?l then mm_shrinkchunk node (?l + 8) h else Some h);
        h \<leftarrow> mm_givesemaphore pid h;
        Some (alignedchunk, h)
      } }"
    by (simp only: memalign_def gt if_False Let_def al SIZEOF_MM_ALLOCNODE_def)
  have LC: "mm_layout h" "mm_chunks 8 h rs" "distinct (concat rs)"
    using mm_inv_parts [OF I] by auto
  show thesis
  proof (cases rule: malloc_spec [OF I g8 t s, case_names none some])
    case none
    then show thesis using that(1) by (simp add: mem)
  next
    case (some k xs node n e ys h1 fl1)
    define m where "m = (if n - chunk_for ?n \<ge> 16 then chunk_for ?n else n)"
    define rest where "rest = (if n - chunk_for ?n \<ge> 16 then [Chunk (node + chunk_for ?n) (n - chunk_for ?n) False] else []) @ e # ys"
    let ?rs1 = "rs[k := xs @ carve node n (chunk_for ?n) @ e # ys]"
    have sp1: "?rs1 ! k = xs @ Chunk node m True # rest" and k1: "k < length ?rs1"
      using some(1) by (auto simp: m_def rest_def carve_def)
    obtain f zs where rest: "rest = f # zs" by (cases rest) (auto simp: rest_def)
    note wf = mm_chunks_region(2) [OF LC(2) some(1)]
    have xs: "xs \<noteq> []" "cused (last xs)"
      using region_wf_inner(1) [OF wf [unfolded some(2)]] wf
      by (auto simp: some(2) region_wf_def coalesced_append)
    have m: "?l + 2 * 2 ^ a + 8 \<le> m"
      using request_size(1) [OF s] some(3) by (auto simp: m_def chunk_for_def [of ?n])
    have u1: "used ?rs1 = insert (Chunk node m True) (used rs)"
    proof -
      have sp: "rs ! k = xs @ [Chunk node n False] @ e # ys" using some(2) by simp
      have "{c \<in> set (carve node n (chunk_for ?n)). cused c} = {Chunk node m True}"
        by (auto simp: carve_def m_def)
      then show ?thesis
        using used_replace [OF LC(3) some(1) sp, of "carve node n (chunk_for ?n)"] by (auto simp: used_def)
    qed
    have nu: "Chunk x j True \<notin> used rs" if x: "node \<le> x" "x + j = node + m" "16 \<le> j" for x j
    proof
      assume u: "Chunk x j True \<in> used rs"
      have "Chunk node n False \<in> set (concat rs)" by (rule nth_in_concat [OF some(1)]) (simp add: some(2))
      then have "apart (Chunk x j True) (Chunk node n False)"
        using chunks_apart [OF LC(1,2), of "Chunk x j True"] u by (auto simp: used_def simp del: set_concat)
      then show False using x m some(3) by (auto simp: apart_def m_def split: if_splits)
    qed
    have t1: "mm_can_take pid h1" using t some(7) by (simp add: mm_can_take_def sem_of_def)
    obtain sm where take: "mm_takesemaphore pid h1 = Some (with_sem sm h1)"
      and give: "\<And>h'. sem_of h' = sm \<Longrightarrow> mm_givesemaphore pid h' = Some (with_sem (sem_of h1) h')"
      using takesemaphore_spec [OF t1] by metis
    have P2: "mm_part 8 (with_sem sm h1) ?rs1 fl1 {}"
      using some(6) by (auto simp: mm_inv_part intro: mm_part_globals)
    obtain al nd room h2 rs2 fl2 where h2: "memalign_split (2 ^ a) (node + 8) ?n (with_sem sm h1) = Some (al, nd, room, h2)"
      "al = nd + 8" "2 ^ a dvd al" "mm_part 8 h2 rs2 fl2 {}" "same_rest (with_sem sm h1) h2"
      "\<exists>m'. ?l + 8 < m' \<and> node \<le> nd \<and> nd + m' = node + m \<and> used rs2 = insert (Chunk nd m' True) (used ?rs1 - {Chunk node m True})" "?l < room"
      by (rule memalign_split_spec [OF P2 k1 sp1 [unfolded rest] xs a a31 m l16 lt])
    have "used ?rs1 - {Chunk node m True} = used rs"
      using u1 nu [of node m] m l16 by simp
    with h2(6) obtain m' where m': "?l + 8 < m'" "used rs2 = insert (Chunk nd m' True) (used rs)"
      "node \<le> nd" "nd + m' = node + m"
      by metis
    have sz3: "16 \<le> ?l + 8" "8 dvd ?l + 8" "16 \<le> m'" using l16 l(3) m'(1) by (auto intro: dvd_trans [OF g8])
    have c: "Chunk nd m' True \<in> used rs2" using m'(2) by simp
    obtain h3 rs3 fl3 n3 where h3: "mm_shrinkchunk nd (?l + 8) h2 = Some h3" "same_rest h2 h3" "mm_part 8 h3 rs3 fl3 {}"
      "used rs3 = insert (Chunk nd n3 True) (used rs2 - {Chunk nd m' True})" "?l + 8 \<le> n3"
      using mm_shrinkchunk_used [OF h2(4) c sz3(3,1,2) m'(1)] by metis
    have sm: "sem_of h3 = sm" "mdata h3 = mdata h" using h2(5) h3(2) some(8) by (auto simp: same_rest_def)
    have nu2: "Chunk nd m' True \<notin> used rs" by (rule nu [OF m'(3,4) sz3(3)])
    have "memalign pid (2 ^ a) sz h = Some (nd + 8, with_sem (sem_of h1) h3)"
      using some(5) h2(1,2,7) h3(1) give [OF sm(1)] by (simp add: mem take)
    moreover have "used rs3 = insert (Chunk nd n3 True) (used rs)"
      unfolding h3(4) m'(2) using nu2 by simp
    moreover have "mm_inv 8 (with_sem (sem_of h1) h3) rs3 fl3"
      using h3(3) by (auto simp: mm_inv_part intro: mm_part_globals)
    ultimately show thesis
      using that(2) h2(2,3) h3(5) l(1) some(7) sm(2) by simp
  qed
qed

subsection \<open>zalloc and calloc\<close>

lemma memset_eq: "memset s c n d x = (if s \<le> x \<and> x < s + n then c else d x)"
proof (induction n arbitrary: s d)
  case (Suc n)
  have "memset s c (Suc n) d x = memset (s + 1) c n (d(s := c)) x" by simp
  also have "\<dots> = (if s + 1 \<le> x \<and> x < s + 1 + n then c else (d(s := c)) x)" by (rule Suc.IH)
  finally show ?case by auto
qed auto

lemma zalloc_spec:
  assumes I: "mm_inv g h rs fl" and g: "g dvd 16" and t: "mm_can_take pid h"
    and sz: "0 < sz" "sz + 23 < 2 ^ 32"
  obtains (none) "zalloc pid sz h = Some (NULL, h)"
    | (some) node n h' rs' fl' where "zalloc pid sz h = Some (node + 8, h')" "mm_inv g h' rs' fl'"
      "used rs' = insert (Chunk node n True) (used rs)" "sz + 8 \<le> n" "sem_of h' = sem_of h"
      "\<And>x. mdata h' x = (if node + 8 \<le> x \<and> x < node + 8 + sz then 0 else mdata h x)"
proof (cases rule: malloc_used [OF I g t sz, case_names none some])
  case none
  then show thesis by (intro that(1)) (simp add: zalloc_def)
next
  case (some node n m h1 rs' fl')
  let ?h' = "h1\<lparr>mdata := memset (node + 8) 0 sz (mdata h1)\<rparr>"
  have "zalloc pid sz h = Some (node + 8, ?h')"
    by (simp add: zalloc_def some(1))
  moreover have "mm_inv g ?h' rs' fl'"
    using some(2) mm_part_mdata by (simp add: mm_inv_part)
  moreover have "sz + 8 \<le> n"
    using some(7) request_size(1) [OF sz] by (simp add: chunk_for_def)
  ultimately show thesis
    using that(2) some(5,9,10) by (simp add: memset_eq sem_of_def)
qed

end
