(* ===== verification/Mm_Client.thy ===== *)
theory Mm_Client
  imports Mm_Memalign
begin

section \<open>The allocator and its clients\<close>

text \<open>
  The contract of an allocator as a locale: \<open>rep s B\<close> says that \<open>s\<close> is a good state in which
  the blocks \<open>B\<close> (address and length) are allocated. A client that runs a script of
  allocations and releases of blocks it got always gets an answer, and its blocks never overlap.
  The memory manager is an instance. The properties of the memory manager follow.
\<close>

datatype request = Alloc nat | Release nat

text \<open>
  A script runs against the list of the live blocks; \<open>Release i\<close> releases the \<open>i\<close>-th of them.
\<close>

fun run_script ::
  "(nat \<Rightarrow> 's \<Rightarrow> (addr \<times> 's) option) \<Rightarrow> (addr \<Rightarrow> 's \<Rightarrow> 's option) \<Rightarrow> request list \<Rightarrow>
   (addr \<times> nat) list \<Rightarrow> 's \<Rightarrow> ((addr \<times> nat) list \<times> 's) option" where
  "run_script al re [] live s = Some (live, s)"
| "run_script al re (Alloc n # rest) live s = do {
     (p, s) \<leftarrow> al n s;
     run_script al re rest (if p = NULL then live else live @ [(p, n)]) s
   }"
| "run_script al re (Release i # rest) live s =
     (if i < length live
      then do {
        s \<leftarrow> re (fst (live ! i)) s;
        run_script al re rest (take i live @ drop (Suc i) live) s
      }
      else run_script al re rest live s)"

definition blocks_apart :: "(addr \<times> nat) list \<Rightarrow> bool" where
  "blocks_apart bs \<longleftrightarrow>
     (\<forall>i<length bs. \<forall>j<length bs. i \<noteq> j \<longrightarrow>
        fst (bs ! i) + snd (bs ! i) \<le> fst (bs ! j) \<or> fst (bs ! j) + snd (bs ! j) \<le> fst (bs ! i))"

locale block_allocator =
  fixes rep :: "'s \<Rightarrow> (addr \<times> nat) set \<Rightarrow> bool"
    and al :: "nat \<Rightarrow> 's \<Rightarrow> (addr \<times> 's) option"
    and re :: "addr \<Rightarrow> 's \<Rightarrow> 's option"
    and limit :: nat
  assumes al_spec: "rep s B \<Longrightarrow> 0 < n \<Longrightarrow> n < limit \<Longrightarrow> al n s = Some (NULL, s) \<or>
      (\<exists>p m s'. al n s = Some (p, s') \<and> p \<noteq> NULL \<and> n \<le> m \<and> (p, m) \<notin> B \<and> rep s' (insert (p, m) B))"
    and re_spec: "rep s B \<Longrightarrow> (p, m) \<in> B \<Longrightarrow> \<exists>s'. re p s = Some s' \<and> rep s' (B - {(p, m)})"
    and blocks_disjoint: "rep s B \<Longrightarrow> (p, m) \<in> B \<Longrightarrow> (q, k) \<in> B \<Longrightarrow> (p, m) \<noteq> (q, k) \<Longrightarrow> p + m \<le> q \<or> q + k \<le> p"
begin

text \<open>
  \<open>holds live ms\<close>: the live blocks of a client are among the allocated ones, each block at its own
  address; \<open>ms\<close> are the sizes the allocator chose.
\<close>

definition holds :: "(addr \<times> nat) set \<Rightarrow> (addr \<times> nat) list \<Rightarrow> nat list \<Rightarrow> bool" where
  "holds B live ms \<longleftrightarrow> length ms = length live \<and> distinct (zip (map fst live) ms) \<and>
     set (zip (map fst live) ms) \<subseteq> B \<and> (\<forall>i<length live. snd (live ! i) \<le> ms ! i)"

lemma holds_apart:
  assumes "rep s B" and "holds B live ms"
  shows "blocks_apart live"
  unfolding blocks_apart_def
proof (intro allI impI)
  fix i j assume ij: "i < length live" "j < length live" "i \<noteq> j"
  let ?z = "zip (map fst live) ms"
  have len: "length ms = length live" "length ?z = length live" using assms(2) by (auto simp: holds_def)
  have "?z ! i \<noteq> ?z ! j"
    using nth_eq_iff_index_eq [of ?z i j] assms(2) ij len(2) by (simp add: holds_def del: nth_zip)
  moreover have "?z ! i \<in> B" "?z ! j \<in> B"
    using assms(2) ij len nth_mem [of i ?z] nth_mem [of j ?z] by (auto simp: holds_def)
  ultimately have "fst (live ! i) + ms ! i \<le> fst (live ! j) \<or> fst (live ! j) + ms ! j \<le> fst (live ! i)"
    using blocks_disjoint [OF assms(1)] ij len by simp
  moreover have "snd (live ! i) \<le> ms ! i" "snd (live ! j) \<le> ms ! j"
    using assms(2) ij by (auto simp: holds_def)
  ultimately show "fst (live ! i) + snd (live ! i) \<le> fst (live ! j) \<or> fst (live ! j) + snd (live ! j) \<le> fst (live ! i)"
    by linarith
qed

lemma holds_add:
  assumes "holds B live ms" and "(p, m) \<notin> B" and "n \<le> m"
  shows "holds (insert (p, m) B) (live @ [(p, n)]) (ms @ [m])"
  using assms by (auto simp: holds_def nth_append less_Suc_eq)

lemma holds_remove:
  assumes "holds B live ms" and i: "i < length live"
  shows "holds (B - {(fst (live ! i), ms ! i)}) (take i live @ drop (Suc i) live) (take i ms @ drop (Suc i) ms)"
proof -
  let ?z = "zip (map fst live) ms"
  have len: "length ms = length live" using assms(1) by (simp add: holds_def)
  have z: "?z = take i ?z @ (fst (live ! i), ms ! i) # drop (Suc i) ?z"
    using id_take_nth_drop [of i ?z] i len by simp
  have zr: "zip (map fst (take i live @ drop (Suc i) live)) (take i ms @ drop (Suc i) ms) = take i ?z @ drop (Suc i) ?z"
    using i len by (simp add: take_zip drop_zip take_map drop_map)
  have d: "distinct (take i ?z @ (fst (live ! i), ms ! i) # drop (Suc i) ?z)" "set ?z \<subseteq> B"
    using assms(1) z by (auto simp: holds_def)
  have "set (take i ?z @ drop (Suc i) ?z) \<subseteq> B - {(fst (live ! i), ms ! i)}"
    using d set_take_subset [of i ?z] set_drop_subset [of "Suc i" ?z] by auto
  moreover have "distinct (take i ?z @ drop (Suc i) ?z)" using d(1) by auto
  moreover have "\<forall>j<length (take i live @ drop (Suc i) live).
      snd ((take i live @ drop (Suc i) live) ! j) \<le> (take i ms @ drop (Suc i) ms) ! j"
    using assms(1) i len by (auto simp: holds_def nth_append min_def)
  ultimately show ?thesis unfolding holds_def zr using len i by simp
qed

lemma script_runs:
  assumes "rep s B" and "holds B live ms" and "\<forall>n. Alloc n \<in> set script \<longrightarrow> 0 < n \<and> n < limit"
  shows "\<exists>live' s' B'. run_script al re script live s = Some (live', s') \<and> rep s' B' \<and> blocks_apart live'"
  using assms
proof (induction script arbitrary: s B live ms)
  case Nil
  then show ?case using holds_apart by auto
next
  case (Cons r script)
  show ?case
  proof (cases r)
    case (Alloc n)
    with Cons.prems(3) have n: "0 < n" "n < limit" by auto
    from al_spec [OF Cons.prems(1) n] show ?thesis
    proof (elim disjE exE conjE)
      assume "al n s = Some (NULL, s)"
      with Cons.IH [OF Cons.prems(1,2)] Cons.prems(3) Alloc show ?thesis by auto
    next
      fix p m s' assume a: "al n s = Some (p, s')" "p \<noteq> NULL" "n \<le> m" "(p, m) \<notin> B" "rep s' (insert (p, m) B)"
      from Cons.IH [OF a(5) holds_add [OF Cons.prems(2) a(4,3)]] Cons.prems(3) a(1,2) Alloc show ?thesis by auto
    qed
  next
    case (Release i)
    show ?thesis
    proof (cases "i < length live")
      case True
      have "(fst (live ! i), ms ! i) \<in> B"
        using Cons.prems(2) True nth_mem [of i "zip (map fst live) ms"] by (auto simp: holds_def)
      from re_spec [OF Cons.prems(1) this] obtain s' where
        s': "re (fst (live ! i)) s = Some s'" "rep s' (B - {(fst (live ! i), ms ! i)})" by auto
      from Cons.IH [OF s'(2) holds_remove [OF Cons.prems(2) True]] Cons.prems(3) s'(1) True Release
      show ?thesis by auto
    next
      case False
      with Cons.IH [OF Cons.prems(1,2)] Cons.prems(3) Release show ?thesis by auto
    qed
  qed
qed

end

subsection \<open>The memory manager as an allocator\<close>

definition blocks :: "chunk list list \<Rightarrow> (addr \<times> nat) set" where
  "blocks rs = (\<lambda>c. (caddr c + 8, clen c - 8)) ` {c \<in> used rs. 16 \<le> clen c}"

definition mm_rep :: "int \<Rightarrow> mm_heap \<Rightarrow> (addr \<times> nat) set \<Rightarrow> bool" where
  "mm_rep pid h B \<longleftrightarrow> mm_can_take pid h \<and> (\<exists>rs fl. mm_inv 8 h rs fl \<and> B = blocks rs)"

lemma used_cused: "c \<in> used rs \<Longrightarrow> cused c \<and> c \<in> set (concat rs)"
  by (auto simp: used_def)

lemma blocks_iff: "(p, m) \<in> blocks rs \<longleftrightarrow> (\<exists>x n. p = x + 8 \<and> m = n - 8 \<and> 16 \<le> n \<and> Chunk x n True \<in> used rs)"
proof
  assume "(p, m) \<in> blocks rs"
  then obtain c where "c \<in> used rs" "16 \<le> clen c" "p = caddr c + 8" "m = clen c - 8" by (auto simp: blocks_def)
  then show "\<exists>x n. p = x + 8 \<and> m = n - 8 \<and> 16 \<le> n \<and> Chunk x n True \<in> used rs"
    using used_cused [of c rs] by (cases c) auto
qed (force simp: blocks_def)

lemma can_take_sem: "sem_of h' = sem_of h \<Longrightarrow> mm_can_take pid h \<Longrightarrow> mm_can_take pid h'"
  by (simp add: mm_can_take_def sem_of_def)

lemma blocks_insert: "16 \<le> n \<Longrightarrow> used rs' = insert (Chunk x n True) (used rs) \<Longrightarrow> blocks rs' = insert (x + 8, n - 8) (blocks rs)"
proof -
  assume "16 \<le> n" "used rs' = insert (Chunk x n True) (used rs)"
  then have "{c \<in> used rs'. 16 \<le> clen c} = insert (Chunk x n True) {c \<in> used rs. 16 \<le> clen c}" by auto
  then show ?thesis by (simp add: blocks_def)
qed

lemma blocks_remove:
  assumes "16 \<le> n" and "used rs' = used rs - {Chunk x n True}"
  shows "blocks rs' = blocks rs - {(x + 8, n - 8)}"
proof -
  let ?f = "\<lambda>c. (caddr c + 8, clen c - 8)" and ?C = "{c. cused c \<and> 16 \<le> clen c}"
  have inj: "inj_on ?f ?C"
    by (rule inj_onI) (auto intro!: chunk.expand simp: eq_diff_iff)
  have "{c \<in> used rs'. 16 \<le> clen c} = {c \<in> used rs. 16 \<le> clen c} - {Chunk x n True}"
    using assms(2) by auto
  then have "blocks rs' = ?f ` ({c \<in> used rs. 16 \<le> clen c} - {Chunk x n True})"
    by (simp add: blocks_def)
  also have "\<dots> = blocks rs - ?f ` {Chunk x n True}"
    unfolding blocks_def by (rule inj_on_image_set_diff [OF inj]) (use assms(1) used_cused in auto)
  finally show ?thesis by simp
qed

lemma mm_malloc_rep:
  assumes "mm_rep pid h B" and n: "0 < n" "n < 2 ^ 32 - 23"
  shows "malloc pid n h = Some (NULL, h) \<or>
    (\<exists>p m h'. malloc pid n h = Some (p, h') \<and> p \<noteq> NULL \<and> n \<le> m \<and> (p, m) \<notin> B \<and> mm_rep pid h' (insert (p, m) B))"
proof -
  obtain rs fl where I: "mm_inv 8 h rs fl" and B: "B = blocks rs" and t: "mm_can_take pid h"
    using assms(1) by (auto simp: mm_rep_def)
  have n': "n + 23 < 2 ^ 32" using n(2) by simp
  have g8: "8 dvd (16::nat)" by simp
  show ?thesis
  proof (cases rule: malloc_used [OF I g8 t n(1) n', case_names none some])
    case none
    then show ?thesis by simp
  next
    case (some x k m h' rs' fl')
    have k: "16 \<le> k" "n + 8 \<le> k" using some(7) request_size(1,4) [OF n(1) n'] by (auto simp: chunk_for_def)
    have "(x + 8, k - 8) \<notin> B"
      unfolding B blocks_iff using some(12) k by (auto dest: eq_diff_iff [THEN iffD1, rotated 2])
    moreover have "mm_rep pid h' (insert (x + 8, k - 8) B)"
      unfolding B mm_rep_def
      using some(2) blocks_insert [OF k(1) some(5)] can_take_sem [OF some(9) t] by auto
    ultimately show ?thesis using some(1) k by (intro disjI2 exI [of _ "x + 8"] exI [of _ "k - 8"] exI [of _ h']) simp
  qed
qed

lemma mm_free_rep:
  assumes "mm_rep pid h B" and "(p, m) \<in> B"
  shows "\<exists>h'. free pid p h = Some h' \<and> mm_rep pid h' (B - {(p, m)})"
proof -
  obtain rs fl where I: "mm_inv 8 h rs fl" and B: "B = blocks rs" and t: "mm_can_take pid h"
    using assms(1) by (auto simp: mm_rep_def)
  obtain x n where x: "p = x + 8" "m = n - 8" "16 \<le> n" "Chunk x n True \<in> used rs"
    using assms(2) B by (auto simp: blocks_iff)
  obtain h' rs' fl' where "free pid (x + 8) h = Some h'" "mm_inv 8 h' rs' fl'"
    "used rs' = used rs - {Chunk x n True}" "sem_of h' = sem_of h"
    using free_used [OF I t x(4,3)] by metis
  then show ?thesis
    using x B blocks_remove [OF x(3)] can_take_sem [OF _ t] by (auto simp: mm_rep_def)
qed

lemma mm_blocks_disjoint:
  assumes "mm_rep pid h B" and "(p, m) \<in> B" and "(q, k) \<in> B" and "(p, m) \<noteq> (q, k)"
  shows "p + m \<le> q \<or> q + k \<le> p"
proof -
  obtain rs fl where I: "mm_inv 8 h rs fl" and B: "B = blocks rs"
    using assms(1) by (auto simp: mm_rep_def)
  obtain x n where x: "p = x + 8" "m = n - 8" "16 \<le> n" "Chunk x n True \<in> used rs"
    using assms(2) B by (auto simp: blocks_iff)
  obtain y l where y: "q = y + 8" "k = l - 8" "16 \<le> l" "Chunk y l True \<in> used rs"
    using assms(3) B by (auto simp: blocks_iff)
  have "apart (Chunk x n True) (Chunk y l True)"
    using chunks_apart [of h 8 rs] mm_inv_parts [OF I] used_cused [OF x(4)] used_cused [OF y(4)] assms(4) x y by auto
  then show ?thesis using x y by (auto simp: apart_def)
qed

interpretation heap: block_allocator "mm_rep pid" "malloc pid" "free pid" "2 ^ 32 - 23" for pid
  by unfold_locales (erule (2) mm_malloc_rep, erule (1) mm_free_rep, erule (3) mm_blocks_disjoint)

end
