(* ===== verification/Mm_Props.thy ===== *)
theory Mm_Props
  imports Mm_Client
begin

section \<open>The properties of the memory manager\<close>

text \<open>
  What the operations promise to their callers, over the abstract heap \<open>rs\<close> of the chunks:
  \<open>used rs\<close> are the allocated ones. \<open>boot_heap\<close> is a small heap that the initialization
  produces; the witnesses run on it.
\<close>

subsection \<open>A concrete heap\<close>

definition raw_heap :: mm_heap where
  "raw_heap = \<lparr>nsize = \<lambda>_. 0, npreceding = \<lambda>_. 0, nflink = \<lambda>_. 0, nblink = \<lambda>_. 0, mdata = \<lambda>_. 0,
     g_nodelist = 1024, g_heapsize = 0, g_nregions = 0, g_heapstart = [0, 0], g_heapend = [0, 0],
     g_mm_semaphore = 0, g_holder = 0, g_counts_held = 0\<rparr>"

definition boot_heap :: mm_heap where
  "boot_heap = the (mm_initialize 4100 4096 raw_heap)"

lemma raw_heap_fits: "region_fits 4100 4096 (raw_heap\<lparr>g_heapsize := 0, g_nregions := 0\<rparr>)"
  by (simp add: region_fits_def raw_heap_def)

lemma boot_heap_inv:
  shows "\<exists>fl. mm_inv 16 boot_heap [fresh_region 4100 4096] fl" and "mm_can_take 1 boot_heap"
proof -
  obtain h fl where "mm_initialize 4100 4096 raw_heap = Some h" "mm_inv 16 h [fresh_region 4100 4096] fl"
    "sem_of h = (1, - 1, 0)"
    by (rule mm_initialize_spec [OF dvd_refl _ _ raw_heap_fits]) (simp_all add: raw_heap_def)
  then show "\<exists>fl. mm_inv 16 boot_heap [fresh_region 4100 4096] fl" "mm_can_take 1 boot_heap"
    by (auto simp: boot_heap_def mm_can_take_def sem_of_def)
qed

lemma boot_region: "fresh_region 4100 4096 = [Chunk 4112 8 True, Chunk 4120 4064 False, Chunk 8184 8 True]"
  by (simp add: fresh_region_def Let_def align_up align_down)

lemma chunk_for_100: "chunk_for 100 = 112"
  by (simp add: chunk_for_def align_up)

text \<open>A heap with a block of a client.\<close>

lemma boot_block:
  "\<exists>h rs fl node n. mm_inv 16 h rs fl \<and> mm_can_take 1 h \<and> Chunk node n True \<in> used rs \<and> 16 \<le> n"
proof -
  obtain fl where I: "mm_inv 16 boot_heap [fresh_region 4100 4096] fl" using boot_heap_inv(1) by blast
  show ?thesis
  proof (cases rule: malloc_used [OF I dvd_refl boot_heap_inv(2), of 100, case_names _ _ none some])
    case none
    have "Chunk 4120 4064 False \<in> set (concat [fresh_region 4100 4096])" by (simp add: boot_region)
    from none(2) [OF this] show ?thesis by (simp add: chunk_for_100)
  next
    case (some node n m h' rs' fl')
    then show ?thesis using can_take_sem [OF some(9) boot_heap_inv(2)] by (force simp: chunk_for_100)
  qed simp_all
qed

text \<open>The numbers of \<open>mallinfo\<close>.\<close>

lemma fold_info_concat: "fold info_of rs i = info_of (concat rs) i"
  by (induction rs arbitrary: i) auto

lemma info_of_values:
  "uordblks (info_of cs i) = uordblks i + sum_list (map clen (filter cused cs))"
  "ordblks (info_of cs i) = ordblks i + length (filter (Not \<circ> cused) cs)"
  "fordblks (info_of cs i) = fordblks i + sum_list (map clen (filter (Not \<circ> cused) cs))"
  "mxordblk (info_of cs i) = fold max (map clen (filter (Not \<circ> cused) cs)) (mxordblk i)"
  by (induction cs i rule: info_of.induct) (auto simp: max.commute)

subsection \<open>Allocation\<close>

text \<open>
  C36: \<open>malloc\<close> always returns. It returns NULL, the heap unchanged, only when every free chunk is
  too small. Otherwise the heap invariant holds again, exactly one more chunk is allocated, with
  room for the requested bytes; it lies in the smallest free chunk that was large enough, apart
  from every chunk allocated before; no payload byte changed and the semaphore is as before.
\<close>

theorem malloc_correct:
  assumes "mm_inv g h rs fl" and "g dvd 16" and "mm_can_take pid h" and "0 < sz" and "sz + 23 < 2 ^ 32"
  shows "malloc pid sz h = Some (NULL, h) \<and> (\<forall>x n. Chunk x n False \<in> set (concat rs) \<longrightarrow> n < chunk_for sz) \<or>
    (\<exists>node n m h' rs' fl'. malloc pid sz h = Some (node + 8, h') \<and> mm_inv g h' rs' fl' \<and>
       used rs' = insert (Chunk node n True) (used rs) \<and> sz + 8 \<le> n \<and>
       Chunk node m False \<in> set (concat rs) \<and> n \<le> m \<and>
       (\<forall>x l. Chunk x l False \<in> set (concat rs) \<longrightarrow> chunk_for sz \<le> l \<longrightarrow> m \<le> l) \<and>
       (\<forall>c\<in>used rs. apart c (Chunk node n True)) \<and> mdata h' = mdata h \<and> sem_of h' = sem_of h)"
proof (cases rule: malloc_used [OF assms, case_names none some])
  case none
  then show ?thesis by blast
next
  case (some node n m h' rs' fl')
  have ap: "\<forall>c\<in>used rs. apart c (Chunk node n True)"
  proof
    fix c assume c: "c \<in> used rs"
    show "apart c (Chunk node n True)"
      using chunks_apart [of h' g rs' c "Chunk node n True"] mm_inv_parts [OF some(2)] c some(5,12)
        used_cused [of c rs'] used_cused [of "Chunk node n True" rs'] by auto
  qed
  have sz: "sz + 8 \<le> n"
    using some(7) request_size(1) [OF assms(4,5)] by (simp add: chunk_for_def)
  have best: "\<forall>x l. Chunk x l False \<in> set (concat rs) \<longrightarrow> chunk_for sz \<le> l \<longrightarrow> m \<le> l"
    using some(4) by blast
  show ?thesis
    by (rule disjI2, rule exI [of _ node], rule exI [of _ n], rule exI [of _ m], rule exI [of _ h'],
        rule exI [of _ rs'], rule exI [of _ fl'], intro conjI)
       (rule some(1,2,5,3,8,10,9) sz best ap)+
qed

theorem malloc_correct_witness:
  "\<exists>fl. mm_inv 16 boot_heap [fresh_region 4100 4096] fl \<and> mm_can_take 1 boot_heap \<and>
     (\<exists>node h'. malloc 1 100 boot_heap = Some (node + 8, h'))"
proof -
  obtain fl where I: "mm_inv 16 boot_heap [fresh_region 4100 4096] fl" using boot_heap_inv(1) by blast
  have "Chunk 4120 4064 False \<in> set (concat [fresh_region 4100 4096])" by (simp add: boot_region)
  then have "\<exists>node h'. malloc 1 100 boot_heap = Some (node + 8, h')"
    using malloc_correct [OF I dvd_refl boot_heap_inv(2), of 100] by (force simp: chunk_for_100)
  with I boot_heap_inv(2) show ?thesis by blast
qed

text \<open>
  C37: \<open>free\<close> of an allocated block returns, restores the heap invariant, in which no two
  neighbouring chunks are both free, and takes exactly this chunk off the allocated ones. No
  payload byte changed and the semaphore is as before.
\<close>

theorem free_correct:
  assumes "mm_inv g h rs fl" and "mm_can_take pid h" and "Chunk node n True \<in> used rs" and "16 \<le> n"
  shows "\<exists>h' rs' fl'. free pid (node + 8) h = Some h' \<and> mm_inv g h' rs' fl' \<and> (\<forall>cs\<in>set rs'. coalesced cs) \<and>
    used rs' = used rs - {Chunk node n True} \<and> mdata h' = mdata h \<and> sem_of h' = sem_of h"
proof -
  obtain h' rs' fl' where h': "free pid (node + 8) h = Some h'" "mm_inv g h' rs' fl'"
    "used rs' = used rs - {Chunk node n True}" "sem_of h' = sem_of h" "mdata h' = mdata h"
    using free_used [OF assms] by metis
  then have "\<forall>cs\<in>set rs'. coalesced cs"
    by (auto simp: mm_inv_def mm_chunks_def region_wf_def in_set_conv_nth)
  with h' show ?thesis by blast
qed

theorem free_correct_witness:
  "\<exists>h rs fl node n. mm_inv 16 h rs fl \<and> mm_can_take 1 h \<and> Chunk node n True \<in> used rs \<and> 16 \<le> n \<and>
     (\<exists>h' rs' fl'. free 1 (node + 8) h = Some h' \<and> mm_inv 16 h' rs' fl' \<and>
        used rs' = used rs - {Chunk node n True})"
proof -
  obtain h rs fl node n where b: "mm_inv 16 h rs fl" "mm_can_take 1 h" "Chunk node n True \<in> used rs" "16 \<le> n"
    using boot_block by blast
  with free_correct [OF b] show ?thesis by metis
qed

text \<open>
  freeing a block right after it was allocated restores the list of chunks exactly: the
  remainder that \<open>malloc\<close> split off is merged again.
\<close>

theorem malloc_free_roundtrip:
  assumes "mm_inv g h rs fl" and "g dvd 16" and "mm_can_take pid h" and "0 < sz" and "sz + 23 < 2 ^ 32"
    and "malloc pid sz h = Some (mem, h1)" and "mem \<noteq> NULL"
  shows "\<exists>h2 fl2. free pid mem h1 = Some h2 \<and> mm_inv g h2 rs fl2 \<and> mdata h2 = mdata h \<and> sem_of h2 = sem_of h"
proof (cases rule: malloc_spec [OF assms(1-5), case_names none some])
  case none
  with assms(6,7) show ?thesis by simp
next
  case (some k xs node n e ys h' fl')
  let ?s = "chunk_for sz" and ?m = "if n - chunk_for sz \<ge> 16 then chunk_for sz else n"
  let ?rest = "(if n - ?s \<ge> 16 then [Chunk (node + ?s) (n - ?s) False] else []) @ e # ys"
  have eq: "mem = node + 8" "h1 = h'" using some(5) assms(6) by auto
  have LC: "mm_chunks g h rs" using assms(1) by (simp add: mm_inv_def)
  note wf = mm_chunks_region(2) [OF LC some(1)]
  have xs: "xs \<noteq> []" "cused (last xs)" "cused e"
    using region_wf_inner(1) [OF wf [unfolded some(2)]] wf
    by (auto simp: some(2) region_wf_def coalesced_append coalesced_Cons)
  have k': "k < length (rs[k := xs @ carve node n ?s @ e # ys])" using some(1) by simp
  have sp: "rs[k := xs @ carve node n ?s @ e # ys] ! k = xs @ Chunk node ?m True # ?rest"
    using some(1) by (auto simp: carve_def)
  have m16: "16 \<le> ?m" using some(3) request_size(4) [OF assms(4,5)] by (auto simp: chunk_for_def)
  have rel: "release xs node ?m ?rest = rs ! k"
    using xs some(2,3) by (auto simp: release_def)
  obtain h2 fl2 where h2: "free pid (node + 8) h' = Some h2"
    "mm_inv g h2 (rs[k := xs @ carve node n ?s @ e # ys, k := release xs node ?m ?rest]) fl2"
    "sem_of h2 = sem_of h'" "mdata h2 = mdata h'"
    by (rule free_spec [OF some(6) can_take_sem [OF some(7) assms(3)] k' sp m16])
  then show ?thesis
    using some(7,8) eq unfolding rel by auto
qed

theorem malloc_free_roundtrip_witness:
  "\<exists>mem h1 h2 fl2. malloc 1 100 boot_heap = Some (mem, h1) \<and> mem \<noteq> NULL \<and> free 1 mem h1 = Some h2 \<and>
     mm_inv 16 h2 [fresh_region 4100 4096] fl2"
proof -
  obtain fl where I: "mm_inv 16 boot_heap [fresh_region 4100 4096] fl" using boot_heap_inv(1) by blast
  have "Chunk 4120 4064 False \<in> set (concat [fresh_region 4100 4096])" by (simp add: boot_region)
  then obtain node h1 where m: "malloc 1 100 boot_heap = Some (node + 8, h1)"
    by (rule_tac malloc_used [OF I dvd_refl boot_heap_inv(2), of 100]) (force simp: chunk_for_100)+
  with malloc_free_roundtrip [OF I dvd_refl boot_heap_inv(2) _ _ m] show ?thesis by fastforce
qed

subsection \<open>Resizing and aligned allocation\<close>



text \<open>
  \<open>memalign\<close> for an alignment that is a power of two above 16 returns NULL, the heap unchanged,
  or a block whose address is a multiple of the alignment, with room for the requested bytes;
  the heap invariant (with sizes that are multiples of 8) holds again, every allocated chunk
  stays as it was and the new one is apart from them.
\<close>

theorem memalign_correct:
  assumes "mm_inv 8 h rs fl" and "mm_can_take pid h" and "5 \<le> a" and "0 < sz" and "sz + 2 * 2 ^ a + 64 < 2 ^ 32"
  shows "memalign pid (2 ^ a) sz h = Some (NULL, h) \<or>
    (\<exists>node n h' rs' fl'. memalign pid (2 ^ a) sz h = Some (node + 8, h') \<and> 2 ^ a dvd node + 8 \<and>
       mm_inv 8 h' rs' fl' \<and> used rs' = insert (Chunk node n True) (used rs) \<and> sz + 8 \<le> n \<and>
       mdata h' = mdata h \<and> sem_of h' = sem_of h)"
  by (cases rule: memalign_spec [OF assms, case_names none some]) metis+

theorem memalign_correct_witness:
  "\<exists>fl. mm_inv 8 boot_heap [fresh_region 4100 4096] fl \<and>
     (\<exists>mem h'. memalign 1 (2 ^ 5) 100 boot_heap = Some (mem, h') \<and> 2 ^ 5 dvd mem)"
proof -
  obtain fl where I: "mm_inv 8 boot_heap [fresh_region 4100 4096] fl"
    using boot_heap_inv(1) mm_inv_mono [where g = 16 and g' = 8] by auto
  have "\<exists>mem h'. memalign 1 (2 ^ 5) 100 boot_heap = Some (mem, h') \<and> 2 ^ 5 dvd mem"
    using memalign_correct [OF I boot_heap_inv(2), of 5 100] by fastforce
  with I show ?thesis by blast
qed

text \<open>
  \<open>calloc\<close> of \<open>n\<close> elements whose total size does not wrap around returns NULL, the heap
  unchanged, or a block of that size filled with zeros; no other byte changed and every
  allocated chunk stays as it was.
\<close>

theorem calloc_correct:
  assumes "mm_inv g h rs fl" and "g dvd 16" and "mm_can_take pid h" and "0 < n" and "0 < e" and "n * e + 23 < 2 ^ 32"
  shows "calloc pid n e h = Some (NULL, h) \<or>
    (\<exists>node l h' rs' fl'. calloc pid n e h = Some (node + 8, h') \<and> mm_inv g h' rs' fl' \<and>
       used rs' = insert (Chunk node l True) (used rs) \<and> n * e + 8 \<le> l \<and>
       (\<forall>x. mdata h' x = (if node + 8 \<le> x \<and> x < node + 8 + n * e then 0 else mdata h x)) \<and> sem_of h' = sem_of h)"
proof -
  have ne: "0 < n * e" using assms(4,5) by simp
  have c: "calloc pid n e h = zalloc pid (n * e) h"
    using assms(4-6) by (simp add: calloc_def)
  show ?thesis
    unfolding c by (cases rule: zalloc_spec [OF assms(1-3) ne assms(6), case_names none some]) metis+
qed

theorem calloc_correct_witness:
  "\<exists>fl. mm_inv 16 boot_heap [fresh_region 4100 4096] fl \<and> (\<exists>mem h'. calloc 1 10 20 boot_heap = Some (mem, h'))"
proof -
  obtain fl where I: "mm_inv 16 boot_heap [fresh_region 4100 4096] fl" using boot_heap_inv(1) by blast
  from calloc_correct [OF I dvd_refl boot_heap_inv(2), of 10 20] I show ?thesis by fastforce
qed

text \<open>
  the product in \<open>calloc\<close> is a 32-bit one: a request for 65536 elements of 65537 bytes, more
  than four gigabytes, is served by a block of 65536 bytes.
\<close>

theorem calloc_wraps:
  "calloc pid 65536 65537 h = zalloc pid 65536 h"
  by (simp add: calloc_def mul32_def)

subsection \<open>Initialization and statistics\<close>

text \<open>
  \<open>mm_initialize\<close> on a region of at least 64 bytes apart from the table of list heads returns
  and establishes the heap invariant: one free chunk between the two guard chunks, and the
  semaphore free. A further region added by \<open>mm_addregion\<close> keeps the invariant and adds its
  chunk.
\<close>

theorem mm_initialize_correct:
  assumes "g_nodelist h \<noteq> NULL" and "length (g_heapend h) = length (g_heapstart h)"
    and "region_fits start sz (h\<lparr>g_heapsize := 0, g_nregions := 0\<rparr>)"
  shows "\<exists>h' fl'. mm_initialize start sz h = Some h' \<and> mm_inv 16 h' [fresh_region start sz] fl' \<and>
     sem_of h' = (1, - 1, 0) \<and> length (g_heapstart h') = length (g_heapstart h) \<and> g_nodelist h' = g_nodelist h \<and>
     (\<forall>start2 sz2. region_fits start2 sz2 h' \<longrightarrow>
        (\<exists>h'' fl''. mm_addregion start2 sz2 h' = Some h'' \<and>
           mm_inv 16 h'' [fresh_region start sz, fresh_region start2 sz2] fl'' \<and> mdata h'' = mdata h))"
proof -
  obtain h' fl' where h': "mm_initialize start sz h = Some h'" "mm_inv 16 h' [fresh_region start sz] fl'"
    "sem_of h' = (1, - 1, 0)" "mdata h' = mdata h" "length (g_heapstart h') = length (g_heapstart h)"
    "g_nodelist h' = g_nodelist h"
    by (rule mm_initialize_spec [OF dvd_refl assms])
  have "\<exists>h'' fl''. mm_addregion start2 sz2 h' = Some h'' \<and>
      mm_inv 16 h'' [fresh_region start sz, fresh_region start2 sz2] fl'' \<and> mdata h'' = mdata h"
    if fits: "region_fits start2 sz2 h'" for start2 sz2
    by (rule mm_addregion_spec [OF h'(2) dvd_refl fits]) (use h'(4) in auto)
  with h' show ?thesis by blast
qed

theorem mm_initialize_correct_witness:
  "\<exists>h'. mm_initialize 4100 4096 raw_heap = Some h' \<and> region_fits 16384 1024 h' \<and>
     (\<exists>h''. mm_addregion 16384 1024 h' = Some h'')"
proof -
  obtain h' fl' where h': "mm_initialize 4100 4096 raw_heap = Some h'" "mm_inv 16 h' [fresh_region 4100 4096] fl'"
    "length (g_heapstart h') = 2" "g_nodelist h' = 1024"
    "\<forall>start2 sz2. region_fits start2 sz2 h' \<longrightarrow> (\<exists>h'' fl''. mm_addregion start2 sz2 h' = Some h'' \<and>
       mm_inv 16 h'' [fresh_region 4100 4096, fresh_region start2 sz2] fl'' \<and> mdata h'' = mdata raw_heap)"
    using mm_initialize_correct [OF _ _ raw_heap_fits] by (auto simp: raw_heap_def)
  have c: "mm_chunks 16 h' [fresh_region 4100 4096]" using h'(2) by (simp add: mm_inv_def)
  have "g_heapstart h' ! 0 = 4112" "g_heapstart h' ! 0 + 4080 = g_heapend h' ! 0 + 8" "g_nregions h' = 1" "g_heapsize h' = 4080"
    using c mm_chunks_region(1,3) [OF c, of 0] by (auto simp: boot_region mm_chunks_def)
  then have "region_fits 16384 1024 h'"
    using h'(3,4) by (simp add: region_fits_def)
  with h' show ?thesis by blast
qed

text \<open>
  \<open>mallinfo\<close> returns, its assertions hold, and its numbers are those of the heap: the sizes of
  the allocated and of the free chunks, the number of free chunks and the largest of them.
\<close>

theorem mallinfo_correct:
  assumes "mm_inv g h rs fl"
  shows "\<exists>i. mallinfo h = Some i \<and> arena i = g_heapsize h \<and> uordblks i + fordblks i = g_heapsize h \<and>
    uordblks i = sum_list (map clen (filter cused (concat rs))) \<and>
    ordblks i = length (filter (Not \<circ> cused) (concat rs)) \<and>
    fordblks i = sum_list (map clen (filter (Not \<circ> cused) (concat rs))) \<and>
    mxordblk i = fold max (map clen (filter (Not \<circ> cused) (concat rs))) 0"
  using mallinfo_spec [OF assms] fold_info_sum [of rs no_info] assms
  by (auto simp: fold_info_concat info_of_values no_info_def mm_inv_def mm_chunks_def)

theorem mallinfo_correct_witness:
  "\<exists>i. mallinfo boot_heap = Some i \<and> mxordblk i = 4064 \<and> ordblks i = 1 \<and> uordblks i = 16"
proof -
  obtain fl where I: "mm_inv 16 boot_heap [fresh_region 4100 4096] fl" using boot_heap_inv(1) by blast
  from mallinfo_correct [OF I] show ?thesis by (auto simp: boot_region)
qed

subsection \<open>Clients\<close>

text \<open>
  C39: a task that holds or can take the heap semaphore runs any script of allocations and releases of
  its own blocks to the end: no call blocks, fails an assertion or loops, and at the end its live
  blocks, each with the length asked for, are pairwise disjoint.
\<close>

theorem mm_script_runs:
  assumes "mm_rep pid h B" and "\<forall>n. Alloc n \<in> set script \<longrightarrow> 0 < n \<and> n < 2 ^ 32 - 23"
  shows "\<exists>live h' B'. run_script (malloc pid) (free pid) script [] h = Some (live, h') \<and> mm_rep pid h' B' \<and>
    blocks_apart live"
  using heap.script_runs [OF assms(1) _ assms(2), of "[]" "[]"] by (simp add: heap.holds_def)

theorem mm_script_runs_witness:
  "\<exists>live h'. run_script (malloc 1) (free 1) [Alloc 100, Alloc 30, Release 0, Alloc 8] [] boot_heap = Some (live, h') \<and>
     blocks_apart live"
proof -
  obtain fl where "mm_inv 8 boot_heap [fresh_region 4100 4096] fl"
    using boot_heap_inv(1) mm_inv_mono [where g = 16 and g' = 8] by auto
  then have "mm_rep 1 boot_heap (blocks [fresh_region 4100 4096])"
    using boot_heap_inv(2) by (auto simp: mm_rep_def)
  from mm_script_runs [OF this, of "[Alloc 100, Alloc 30, Release 0, Alloc 8]"] show ?thesis by auto
qed

subsection \<open>The heap semaphore\<close>

inductive mm_sem_step :: "mm_heap \<Rightarrow> mm_heap \<Rightarrow> bool" where
  take: "pid \<noteq> - 1 \<Longrightarrow> mm_takesemaphore pid h = Some h' \<Longrightarrow> mm_sem_step h h'"
| try_take: "pid \<noteq> - 1 \<Longrightarrow> mm_trysemaphore pid h = (r, h') \<Longrightarrow> mm_sem_step h h'"
| give: "pid \<noteq> - 1 \<Longrightarrow> mm_givesemaphore pid h = Some h' \<Longrightarrow> mm_sem_step h h'"

definition mm_sem_ok :: "mm_heap \<Rightarrow> bool" where
  "mm_sem_ok h \<longleftrightarrow> g_holder h = - 1 \<and> g_mm_semaphore h = 1 \<and> g_counts_held h = 0 \<or>
     g_holder h \<noteq> - 1 \<and> g_mm_semaphore h = 0 \<and> g_counts_held h \<ge> 1"

lemma mm_sem_ok_step: "mm_sem_step h h' \<Longrightarrow> mm_sem_ok h \<Longrightarrow> mm_sem_ok h'"
  by (induction rule: mm_sem_step.induct)
     (auto simp: mm_sem_ok_def mm_takesemaphore_def mm_trysemaphore_def mm_givesemaphore_def split: if_splits)

lemma mm_sem_ok_reachable: "mm_sem_step\<^sup>*\<^sup>* h h' \<Longrightarrow> mm_sem_ok h \<Longrightarrow> mm_sem_ok h'"
  by (induction rule: rtranclp_induct) (auto intro: mm_sem_ok_step)

text \<open>
  the heap semaphore excludes: after any sequence of takes, tries and gives by any tasks, the
  semaphore is free, or one task holds it at least once and for every other task a take blocks,
  a try fails and a give is refused by the assertion. The holder may take it again.
\<close>

theorem mm_sem_exclusive:
  assumes "mm_sem_step\<^sup>*\<^sup>* (mm_seminitialize h0) h"
  shows "g_holder h = - 1 \<and> g_mm_semaphore h = 1 \<and> g_counts_held h = 0 \<or>
    g_counts_held h \<ge> 1 \<and> mm_takesemaphore (g_holder h) h \<noteq> None \<and>
    (\<forall>q. q \<noteq> g_holder h \<longrightarrow> mm_takesemaphore q h = None \<and> \<not> fst (mm_trysemaphore q h) \<and> mm_givesemaphore q h = None)"
proof -
  have "mm_sem_ok (mm_seminitialize h0)"
    by (simp add: mm_sem_ok_def mm_seminitialize_def)
  from mm_sem_ok_reachable [OF assms this] show ?thesis
    by (auto simp: mm_sem_ok_def mm_takesemaphore_def mm_trysemaphore_def mm_givesemaphore_def)
qed

theorem mm_sem_exclusive_witness:
  "\<exists>h. mm_sem_step\<^sup>*\<^sup>* (mm_seminitialize raw_heap) h \<and> g_holder h = 3 \<and> mm_takesemaphore 4 h = None"
proof -
  obtain h where h: "mm_takesemaphore 3 (mm_seminitialize raw_heap) = Some h" "g_holder h = 3"
    by (simp add: mm_takesemaphore_def mm_seminitialize_def)
  then have s: "mm_sem_step\<^sup>*\<^sup>* (mm_seminitialize raw_heap) h"
    by (intro r_into_rtranclp mm_sem_step.take) auto
  from mm_sem_exclusive [OF s] h(2) s show ?thesis by auto
qed

end
