(* ===== verification/Queue.thy ===== *)
theory Queue
  imports Prelude
begin

section \<open>The queue library (lib/queue)\<close>

text \<open>
  The intrusive queues every kernel list is built from: \<open>sq_queue_t\<close> (entries with a
  forward link) and \<open>dq_queue_t\<close> (entries with both links). A queue is its \<open>head\<close>
  and \<open>tail\<close> pointers; the entries live in a memory of links that all queues share.
  Each operation takes the queue and the memory and returns both, one assignment of
  the C code being one update.

  The contract is \<open>sq_rep\<close> and \<open>dq_rep\<close>: the queue represents the list of its
  entries. The locale \<open>link_fifo\<close> states what the kernel relies on (the effect of every
  operation on the list it represents, and that queues with other entries are not touched),
  \<open>link_deque\<close> extends it with the operations at both ends and in the middle.
\<close>

record links =
  flink :: "addr \<Rightarrow> addr"
  blink :: "addr \<Rightarrow> addr"

record queue =
  head :: addr
  tail :: addr

type_synonym qstate = "queue \<times> links"

definition sq_init :: "queue \<Rightarrow> queue" where
  "sq_init q = q\<lparr>head := NULL, tail := NULL\<rparr>"

definition dq_init :: "queue \<Rightarrow> queue" where
  "dq_init q = q\<lparr>head := NULL, tail := NULL\<rparr>"

abbreviation set_flink :: "addr \<Rightarrow> addr \<Rightarrow> links \<Rightarrow> links" where
  "set_flink a v m \<equiv> m\<lparr>flink := (flink m)(a := v)\<rparr>"

abbreviation set_blink :: "addr \<Rightarrow> addr \<Rightarrow> links \<Rightarrow> links" where
  "set_blink a v m \<equiv> m\<lparr>blink := (blink m)(a := v)\<rparr>"

subsection \<open>Singly linked queues\<close>

definition sq_addfirst :: "addr \<Rightarrow> qstate \<Rightarrow> qstate" where
  "sq_addfirst node = (\<lambda>(q, m).
     let m = set_flink node (head q) m;
         q = (if head q = NULL then q\<lparr>tail := node\<rparr> else q)
     in (q\<lparr>head := node\<rparr>, m))"

definition sq_addlast :: "addr \<Rightarrow> qstate \<Rightarrow> qstate" where
  "sq_addlast node = (\<lambda>(q, m).
     let m = set_flink node NULL m
     in if head q = NULL then (q\<lparr>head := node, tail := node\<rparr>, m)
        else (q\<lparr>tail := node\<rparr>, set_flink (tail q) node m))"

definition sq_addafter :: "addr \<Rightarrow> addr \<Rightarrow> qstate \<Rightarrow> qstate" where
  "sq_addafter prev node = (\<lambda>(q, m).
     if head q = NULL \<or> prev = tail q then sq_addlast node (q, m)
     else let m = set_flink node (flink m prev) m in (q, set_flink prev node m))"

definition sq_remafter :: "addr \<Rightarrow> qstate \<Rightarrow> addr \<times> qstate" where
  "sq_remafter node = (\<lambda>(q, m).
     let ret = flink m node
     in if head q \<noteq> NULL \<and> ret \<noteq> NULL
        then let (q, m) = (if tail q = ret then (q\<lparr>tail := node\<rparr>, set_flink node NULL m)
                           else (q, set_flink node (flink m ret) m))
             in (ret, q, set_flink ret NULL m)
        else (ret, q, m))"

definition sq_remfirst :: "qstate \<Rightarrow> addr \<times> qstate" where
  "sq_remfirst = (\<lambda>(q, m).
     let ret = head q
     in if ret \<noteq> NULL
        then let q = q\<lparr>head := flink m ret\<rparr>;
                 q = (if head q = NULL then q\<lparr>tail := NULL\<rparr> else q)
             in (ret, q, set_flink ret NULL m)
        else (ret, q, m))"

text \<open>
  The search both \<open>sq_rem\<close> and \<open>sq_remlast\<close> make:
  \<^verbatim>\<open>for (prev = queue->head; prev && prev->flink != node; prev = prev->flink);\<close>
  On a cyclic list it does not return, which is the value \<^const>\<open>None\<close>.
\<close>

partial_function (option) sq_findprev :: "links \<Rightarrow> addr \<Rightarrow> addr \<Rightarrow> addr option" where
  "sq_findprev m node prev =
     (if prev \<noteq> NULL \<and> flink m prev \<noteq> node then sq_findprev m node (flink m prev)
      else Some prev)"

definition sq_remlast :: "qstate \<Rightarrow> (addr \<times> qstate) option" where
  "sq_remlast = (\<lambda>(q, m).
     let ret = tail q
     in if ret \<noteq> NULL
        then if head q = tail q
             then Some (ret, q\<lparr>head := NULL, tail := NULL\<rparr>, set_flink ret NULL m)
             else do {
               prev \<leftarrow> sq_findprev m ret (head q);
               let (q, m) = (if prev \<noteq> NULL then (q\<lparr>tail := prev\<rparr>, set_flink prev NULL m)
                             else (q, m));
               Some (ret, q, set_flink ret NULL m)
             }
        else Some (ret, q, m))"

definition sq_rem :: "addr \<Rightarrow> qstate \<Rightarrow> qstate option" where
  "sq_rem node = (\<lambda>(q, m).
     if head q \<noteq> NULL \<and> node \<noteq> NULL
     then if node = head q
          then let q = q\<lparr>head := flink m node\<rparr>
               in Some (if node = tail q then q\<lparr>tail := NULL\<rparr> else q, m)
          else do {
            prev \<leftarrow> sq_findprev m node (head q);
            Some (if prev \<noteq> NULL then snd (sq_remafter prev (q, m)) else (q, m))
          }
     else Some (q, m))"

subsection \<open>Doubly linked queues\<close>

definition dq_addfirst :: "addr \<Rightarrow> qstate \<Rightarrow> qstate" where
  "dq_addfirst node = (\<lambda>(q, m).
     let m = set_flink node (head q) (set_blink node NULL m)
     in if head q = NULL then (q\<lparr>head := node, tail := node\<rparr>, m)
        else (q\<lparr>head := node\<rparr>, set_blink (head q) node m))"

definition dq_addlast :: "addr \<Rightarrow> qstate \<Rightarrow> qstate" where
  "dq_addlast node = (\<lambda>(q, m).
     let m = set_blink node (tail q) (set_flink node NULL m)
     in if head q = NULL then (q\<lparr>head := node, tail := node\<rparr>, m)
        else (q\<lparr>tail := node\<rparr>, set_flink (tail q) node m))"

definition dq_addafter :: "addr \<Rightarrow> addr \<Rightarrow> qstate \<Rightarrow> qstate" where
  "dq_addafter prev node = (\<lambda>(q, m).
     if head q = NULL \<or> prev = tail q then dq_addlast node (q, m)
     else let nxt = flink m prev;
              m = set_blink node prev m;
              m = set_flink node nxt m;
              m = set_blink nxt node m
          in (q, set_flink prev node m))"

definition dq_addbefore :: "addr \<Rightarrow> addr \<Rightarrow> qstate \<Rightarrow> qstate" where
  "dq_addbefore nxt node = (\<lambda>(q, m).
     if head q = NULL \<or> nxt = head q then dq_addfirst node (q, m)
     else let prev = blink m nxt;
              m = set_flink node nxt m;
              m = set_blink node prev m;
              m = set_flink prev node m
          in (q, set_blink nxt node m))"

definition dq_rem :: "addr \<Rightarrow> qstate \<Rightarrow> qstate" where
  "dq_rem node = (\<lambda>(q, m).
     let prev = blink m node;
         nxt = flink m node;
         (q, m) = (if prev = NULL then (q\<lparr>head := nxt\<rparr>, m) else (q, set_flink prev nxt m));
         (q, m) = (if nxt = NULL then (q\<lparr>tail := prev\<rparr>, m) else (q, set_blink nxt prev m))
     in (q, set_blink node NULL (set_flink node NULL m)))"

definition dq_remfirst :: "qstate \<Rightarrow> addr \<times> qstate" where
  "dq_remfirst = (\<lambda>(q, m).
     let ret = head q
     in if ret \<noteq> NULL
        then let nxt = flink m ret;
                 (q, m) = (if nxt = NULL then (q\<lparr>head := NULL, tail := NULL\<rparr>, m)
                           else (q\<lparr>head := nxt\<rparr>, set_blink nxt NULL m))
             in (ret, q, set_blink ret NULL (set_flink ret NULL m))
        else (ret, q, m))"

definition dq_remlast :: "qstate \<Rightarrow> addr \<times> qstate" where
  "dq_remlast = (\<lambda>(q, m).
     let ret = tail q
     in if ret \<noteq> NULL
        then let prev = blink m ret;
                 (q, m) = (if prev = NULL then (q\<lparr>head := NULL, tail := NULL\<rparr>, m)
                           else (q\<lparr>tail := prev\<rparr>, set_flink prev NULL m))
             in (ret, q, set_blink ret NULL (set_flink ret NULL m))
        else (ret, q, m))"

subsection \<open>What a queue represents\<close>

fun spath :: "(addr \<Rightarrow> addr) \<Rightarrow> addr list \<Rightarrow> addr \<Rightarrow> bool" where
  "spath fl [] n = True"
| "spath fl (x # xs) n \<longleftrightarrow> fl x = hd (xs @ [n]) \<and> spath fl xs n"

definition sq_rep :: "queue \<Rightarrow> links \<Rightarrow> addr list \<Rightarrow> bool" where
  "sq_rep q m xs \<longleftrightarrow> spath (flink m) xs NULL \<and> distinct xs \<and> NULL \<notin> set xs \<and>
     head q = hd (xs @ [NULL]) \<and> tail q = last (NULL # xs)"

definition dq_rep :: "queue \<Rightarrow> links \<Rightarrow> addr list \<Rightarrow> bool" where
  "dq_rep q m xs \<longleftrightarrow> dpath (flink m) (blink m) NULL xs NULL \<and> distinct xs \<and> NULL \<notin> set xs \<and>
     head q = hd (xs @ [NULL]) \<and> tail q = last (NULL # xs)"

lemma spath_append:
  "spath fl (xs @ ys) n \<longleftrightarrow> spath fl xs (hd (ys @ [n])) \<and> spath fl ys n"
proof (induction xs)
  case Nil
  then show ?case by simp
next
  case (Cons x xs)
  have "hd ((xs @ ys) @ [n]) = hd (xs @ [hd (ys @ [n])])"
    by (cases xs) auto
  with Cons.IH show ?case by auto
qed

lemma spath_cong:
  "(\<And>y. y \<in> set xs \<Longrightarrow> fl' y = fl y) \<Longrightarrow> spath fl' xs n = spath fl xs n"
  by (induction xs) auto

lemma spath_upd [simp]: "y \<notin> set xs \<Longrightarrow> spath (fl(y := v)) xs n = spath fl xs n"
  by (rule spath_cong) auto

lemma spath_change_next:
  "spath fl xs n \<Longrightarrow> distinct xs \<Longrightarrow> xs \<noteq> [] \<Longrightarrow> spath (fl(last xs := n')) xs n'"
  by (cases xs rule: rev_cases) (auto simp: spath_append)

lemma hd_append_NULL: "NULL \<notin> set xs \<Longrightarrow> hd (xs @ [NULL]) = NULL \<longleftrightarrow> xs = []"
  by (cases xs) auto

lemma last_NULL: "NULL \<notin> set xs \<Longrightarrow> last (NULL # xs) = NULL \<longleftrightarrow> xs = []"
  by (cases xs rule: rev_cases) auto

lemma hd_not_NULL [simp]:
  assumes "NULL \<notin> set xs" and "xs \<noteq> []"
  shows "NULL < hd xs" and "hd xs = NULL \<longleftrightarrow> False"
  using assms by (cases xs; simp)+

lemma last_not_NULL [simp]:
  assumes "NULL \<notin> set xs" and "xs \<noteq> []"
  shows "NULL < last xs" and "last xs = NULL \<longleftrightarrow> False"
  using assms by (cases xs rule: rev_cases; simp)+

lemmas queue_ends = hd_append_NULL last_NULL

subsubsection \<open>Doubly linked\<close>

lemma dq_rep_distinct: "dq_rep q m xs \<Longrightarrow> distinct xs \<and> NULL \<notin> set xs"
  by (simp add: dq_rep_def)

lemma dq_rep_init: "dq_rep (dq_init q) m []"
  by (simp add: dq_rep_def dq_init_def)

lemma dq_rep_addfirst:
  assumes "dq_rep q m xs" and "x \<noteq> NULL" and "x \<notin> set xs" and "dq_addfirst x (q, m) = (q', m')"
  shows "dq_rep q' m' (x # xs)"
proof -
  have path: "dpath (flink m) (blink m) NULL ([] @ xs) NULL"
    using assms(1) by (simp add: dq_rep_def)
  have "dpath (flink m') (blink m') NULL ([] @ x # xs) NULL"
    by (rule dpath_insert [OF path])
       (use assms in \<open>auto simp: dq_rep_def dq_addfirst_def Let_def queue_ends split: if_splits\<close>)
  with assms show ?thesis
    by (cases xs) (auto simp: dq_rep_def dq_addfirst_def Let_def split: if_splits)
qed

lemma dq_rep_addlast:
  assumes "dq_rep q m xs" and "x \<noteq> NULL" and "x \<notin> set xs" and "dq_addlast x (q, m) = (q', m')"
  shows "dq_rep q' m' (xs @ [x])"
proof -
  have path: "dpath (flink m) (blink m) NULL (xs @ []) NULL"
    using assms(1) by (simp add: dq_rep_def)
  have "dpath (flink m') (blink m') NULL (xs @ [x]) NULL"
    by (rule dpath_insert [OF path])
       (use assms in \<open>auto simp: dq_rep_def dq_addlast_def Let_def queue_ends split: if_splits\<close>)
  with assms show ?thesis
    by (cases xs) (auto simp: dq_rep_def dq_addlast_def Let_def split: if_splits)
qed

lemma dq_rep_addafter:
  assumes "dq_rep q m (xs @ y # ys)" and "x \<noteq> NULL" and "x \<notin> set (xs @ y # ys)"
    and "dq_addafter y x (q, m) = (q', m')"
  shows "dq_rep q' m' (xs @ y # x # ys)"
proof (cases ys)
  case Nil
  with assms have "dq_addlast x (q, m) = (q', m')"
    by (auto simp: dq_addafter_def dq_rep_def split: if_splits)
  with assms Nil show ?thesis
    using dq_rep_addlast [of q m "xs @ [y]" x q' m'] by simp
next
  case (Cons z zs)
  have path: "dpath (flink m) (blink m) NULL ((xs @ [y]) @ ys) NULL"
    using assms(1) by (simp add: dq_rep_def)
  have z: "flink m y = z"
    using assms(1) Cons by (auto simp: dq_rep_def dpath_append)
  have cond: "head q \<noteq> NULL" "y \<noteq> tail q"
    using assms(1) Cons by (cases xs; auto simp: dq_rep_def)+
  have "dpath (flink m') (blink m') NULL ((xs @ [y]) @ x # ys) NULL"
    by (rule dpath_insert [OF path])
       (use assms Cons z cond in \<open>auto simp: dq_rep_def dq_addafter_def Let_def\<close>)
  with assms Cons cond show ?thesis
    by (cases xs) (auto simp: dq_rep_def dq_addafter_def Let_def)
qed

lemma dq_rep_addbefore:
  assumes "dq_rep q m (xs @ y # ys)" and "x \<noteq> NULL" and "x \<notin> set (xs @ y # ys)"
    and "dq_addbefore y x (q, m) = (q', m')"
  shows "dq_rep q' m' (xs @ x # y # ys)"
proof (cases xs rule: rev_cases)
  case Nil
  with assms have "dq_addfirst x (q, m) = (q', m')"
    by (auto simp: dq_addbefore_def dq_rep_def split: if_splits)
  with assms Nil show ?thesis
    using dq_rep_addfirst [of q m "y # ys" x q' m'] by simp
next
  case (snoc zs z)
  have path: "dpath (flink m) (blink m) NULL (xs @ (y # ys)) NULL"
    using assms(1) by (simp add: dq_rep_def)
  have z: "blink m y = z"
    using assms(1) snoc by (auto simp: dq_rep_def dpath_append)
  have cond: "head q \<noteq> NULL" "y \<noteq> head q"
    using assms(1) snoc by (cases zs; auto simp: dq_rep_def)+
  have "dpath (flink m') (blink m') NULL (xs @ x # y # ys) NULL"
    by (rule dpath_insert [OF path])
       (use assms snoc z cond in \<open>auto simp: dq_rep_def dq_addbefore_def Let_def\<close>)
  with assms snoc cond show ?thesis
    by (cases zs) (auto simp: dq_rep_def dq_addbefore_def Let_def)
qed

lemma dq_rep_rem:
  assumes "dq_rep q m (xs @ x # ys)" and "dq_rem x (q, m) = (q', m')"
  shows "dq_rep q' m' (xs @ ys)"
proof -
  have path: "dpath (flink m) (blink m) NULL (xs @ x # ys) NULL"
    using assms(1) by (simp add: dq_rep_def)
  have fx: "flink m x = hd (ys @ [NULL])" and bx: "blink m x = last (NULL # xs)"
    using dpath_links [OF path] by auto
  have nz: "flink m x = NULL \<longleftrightarrow> ys = []" "blink m x = NULL \<longleftrightarrow> xs = []"
    using assms(1) fx bx by (auto simp: dq_rep_def queue_ends split: if_splits)
  have "dpath (flink m') (blink m') NULL (xs @ ys) NULL"
    by (rule dpath_remove [OF path])
       (use assms fx bx nz in \<open>auto simp: dq_rep_def dq_rem_def Let_def split: if_splits prod.splits\<close>)
  then show ?thesis
    using assms fx bx nz
    by (cases xs; cases ys rule: rev_cases)
       (auto simp: dq_rep_def dq_rem_def Let_def split: if_splits prod.splits)
qed

lemma dq_remfirst_Nil: "dq_rep q m [] \<Longrightarrow> dq_remfirst (q, m) = (NULL, q, m)"
  by (simp add: dq_rep_def dq_remfirst_def)

lemma dq_remlast_Nil: "dq_rep q m [] \<Longrightarrow> dq_remlast (q, m) = (NULL, q, m)"
  by (simp add: dq_rep_def dq_remlast_def)

text \<open>On a represented queue the operations at the ends are \<open>dq_rem\<close> of that end.\<close>

lemma dq_remfirst_eq_rem: "dq_rep q m (x # xs) \<Longrightarrow> dq_remfirst (q, m) = (x, dq_rem x (q, m))"
  by (cases xs) (auto simp: dq_rep_def dq_remfirst_def dq_rem_def Let_def)

lemma dq_remlast_eq_rem: "dq_rep q m (xs @ [x]) \<Longrightarrow> dq_remlast (q, m) = (x, dq_rem x (q, m))"
  by (cases xs rule: rev_cases)
     (auto simp: dq_rep_def dq_remlast_def dq_rem_def Let_def dpath_append)

lemma dq_rep_remfirst:
  "dq_rep q m (x # xs) \<Longrightarrow> dq_remfirst (q, m) = (r, q', m') \<Longrightarrow> r = x \<and> dq_rep q' m' xs"
  using dq_rep_rem [of q m "[]" x xs] by (auto simp: dq_remfirst_eq_rem)

lemma dq_rep_remlast:
  "dq_rep q m (xs @ [x]) \<Longrightarrow> dq_remlast (q, m) = (r, q', m') \<Longrightarrow> r = x \<and> dq_rep q' m' xs"
  using dq_rep_rem [of q m xs x "[]"] by (auto simp: dq_remlast_eq_rem)

text \<open>Which links an operation writes: those of its entry and of the queue's entries.\<close>

definition same_links :: "addr set \<Rightarrow> links \<Rightarrow> links \<Rightarrow> bool" where
  "same_links A m m' \<longleftrightarrow> (\<forall>y. y \<notin> A \<longrightarrow> flink m' y = flink m y \<and> blink m' y = blink m y)"

lemma dq_rep_same_links:
  assumes "dq_rep p m ys" and "same_links A m m'" and "set ys \<inter> A = {}"
  shows "dq_rep p m' ys"
proof -
  have "dpath (flink m') (blink m') NULL ys NULL = dpath (flink m) (blink m) NULL ys NULL"
    by (rule dpath_cong) (use assms in \<open>auto simp: same_links_def\<close>)
  with assms(1) show ?thesis by (simp add: dq_rep_def)
qed

lemma sq_rep_same_links:
  assumes "sq_rep p m ys" and "same_links A m m'" and "set ys \<inter> A = {}"
  shows "sq_rep p m' ys"
proof -
  have "spath (flink m') ys NULL = spath (flink m) ys NULL"
    by (rule spath_cong) (use assms in \<open>auto simp: same_links_def\<close>)
  with assms(1) show ?thesis by (simp add: sq_rep_def)
qed

lemma dq_addfirst_links:
  "dq_rep q m xs \<Longrightarrow> dq_addfirst x (q, m) = (q', m') \<Longrightarrow> same_links (insert x (set xs)) m m'"
  by (cases xs) (auto simp: dq_rep_def dq_addfirst_def same_links_def Let_def)

lemma dq_addlast_links:
  "dq_rep q m xs \<Longrightarrow> dq_addlast x (q, m) = (q', m') \<Longrightarrow> same_links (insert x (set xs)) m m'"
  by (cases xs rule: rev_cases)
     (auto simp: dq_rep_def dq_addlast_def same_links_def Let_def split: if_splits)

lemma dq_rem_links:
  assumes "dq_rep q m (xs @ x # ys)" and "dq_rem x (q, m) = (q', m')"
  shows "same_links (set (xs @ x # ys)) m m'"
proof -
  have f: "flink m x = hd (ys @ [NULL])" and b: "blink m x = last (NULL # xs)"
    using dpath_links [of "flink m" "blink m" NULL xs x ys NULL] assms(1) by (auto simp: dq_rep_def)
  have "blink m x = NULL \<or> blink m x \<in> set xs"
    unfolding b by (cases xs rule: rev_cases) simp_all
  moreover have "flink m x = NULL \<or> flink m x \<in> set ys"
    unfolding f by (cases ys) simp_all
  ultimately show ?thesis
    using assms(2) unfolding dq_rem_def same_links_def Let_def
    by (auto split: if_splits)
qed

lemma dq_remfirst_links:
  assumes "dq_rep q m xs" and "dq_remfirst (q, m) = (r, q', m')"
  shows "same_links (set xs) m m'"
proof (cases xs)
  case Nil
  with assms show ?thesis by (simp add: dq_remfirst_Nil same_links_def)
next
  case (Cons x zs)
  with assms show ?thesis
    using dq_rem_links [of q m "[]" x zs] by (auto simp: dq_remfirst_eq_rem)
qed

subsubsection \<open>Singly linked\<close>

lemma sq_rep_distinct: "sq_rep q m xs \<Longrightarrow> distinct xs \<and> NULL \<notin> set xs"
  by (simp add: sq_rep_def)

lemma sq_rep_init: "sq_rep (sq_init q) m []"
  by (simp add: sq_rep_def sq_init_def)

lemma sq_rep_addfirst:
  "sq_rep q m xs \<Longrightarrow> x \<noteq> NULL \<Longrightarrow> x \<notin> set xs \<Longrightarrow> sq_addfirst x (q, m) = (q', m') \<Longrightarrow>
     sq_rep q' m' (x # xs)"
  by (cases xs) (auto simp: sq_rep_def sq_addfirst_def Let_def)

lemma sq_rep_addlast:
  assumes "sq_rep q m xs" and "x \<noteq> NULL" and "x \<notin> set xs" and "sq_addlast x (q, m) = (q', m')"
  shows "sq_rep q' m' (xs @ [x])"
  using assms
  by (cases xs rule: rev_cases)
     (auto simp: sq_rep_def sq_addlast_def Let_def spath_append hd_append split: if_splits)

lemma sq_rep_addafter:
  assumes "sq_rep q m (xs @ y # ys)" and "x \<noteq> NULL" and "x \<notin> set (xs @ y # ys)"
    and "sq_addafter y x (q, m) = (q', m')"
  shows "sq_rep q' m' (xs @ y # x # ys)"
proof (cases ys)
  case Nil
  with assms have "sq_addlast x (q, m) = (q', m')"
    by (auto simp: sq_addafter_def sq_rep_def split: if_splits)
  with assms Nil show ?thesis
    using sq_rep_addlast [of q m "xs @ [y]" x q' m'] by simp
next
  case (Cons z zs)
  have "head q \<noteq> NULL" "y \<noteq> tail q"
    using assms(1) Cons by (cases xs; auto simp: sq_rep_def)+
  with assms Cons show ?thesis
    by (cases xs) (auto simp: sq_rep_def sq_addafter_def Let_def spath_append hd_append)
qed

lemma sq_rep_remafter:
  assumes rep: "sq_rep q m (xs @ y # x # ys)" and rem: "sq_remafter y (q, m) = (r, q', m')"
  shows "r = x \<and> sq_rep q' m' (xs @ y # ys)"
proof -
  have x: "flink m y = x" and fx: "flink m x = hd (ys @ [NULL])"
    and h: "head q \<noteq> NULL" "x \<noteq> NULL"
    using rep by (auto simp: sq_rep_def spath_append hd_append)
  have "tail q = last (x # ys)"
    using rep by (simp add: sq_rep_def)
  then have t: "tail q = x \<longleftrightarrow> ys = []"
    using rep by (cases ys rule: rev_cases) (auto simp: sq_rep_def)
  have m: "r = x" "q' = (if ys = [] then q\<lparr>tail := y\<rparr> else q)"
    "flink m' = (flink m)(y := hd (ys @ [NULL]), x := NULL)"
    using rem h t x fx by (auto simp: sq_remafter_def Let_def split: if_splits)
  have "spath (flink m') (xs @ y # ys) NULL"
    using rep unfolding m(3) by (auto simp: sq_rep_def spath_append)
  moreover have "hd ((xs @ y # ys) @ [NULL]) = head q'"
    using rep m(2) by (auto simp: sq_rep_def hd_append)
  moreover have "last (NULL # xs @ y # ys) = tail q'"
    using rep m(2) by (auto simp: sq_rep_def)
  ultimately show ?thesis
    using rep m(1) by (auto simp: sq_rep_def)
qed

lemma sq_rep_remfirst:
  "sq_rep q m (x # xs) \<Longrightarrow> sq_remfirst (q, m) = (r, q', m') \<Longrightarrow> r = x \<and> sq_rep q' m' xs"
  by (cases xs) (auto simp: sq_rep_def sq_remfirst_def Let_def)

lemma sq_remfirst_Nil: "sq_rep q m [] \<Longrightarrow> sq_remfirst (q, m) = (NULL, q, m)"
  by (simp add: sq_rep_def sq_remfirst_def)

lemma sq_addlast_links:
  "sq_rep q m xs \<Longrightarrow> sq_addlast x (q, m) = (q', m') \<Longrightarrow> same_links (insert x (set xs)) m m'"
  by (cases xs rule: rev_cases)
     (auto simp: sq_rep_def sq_addlast_def same_links_def Let_def hd_append split: if_splits)

lemma sq_remfirst_links:
  "sq_rep q m xs \<Longrightarrow> sq_remfirst (q, m) = (r, q', m') \<Longrightarrow> same_links (set xs) m m'"
  by (cases xs) (auto simp: sq_rep_def sq_remfirst_def same_links_def Let_def)

text \<open>The search for the predecessor returns, and finds it.\<close>

lemma sq_findprev_found:
  "spath (flink m) (y # xs @ [p, x]) n \<Longrightarrow> distinct (y # xs @ [p, x]) \<Longrightarrow> NULL \<notin> set (y # xs) \<Longrightarrow> p \<noteq> NULL \<Longrightarrow>
     sq_findprev m x y = Some p"
proof (induction xs arbitrary: y)
  case Nil
  then show ?case by (auto simp: sq_findprev.simps [of m x y] sq_findprev.simps [of m x p])
next
  case (Cons z zs)
  then have "sq_findprev m x z = Some p" by auto
  with Cons.prems show ?case by (auto simp: sq_findprev.simps [of m x y])
qed

lemma sq_rep_remlast:
  assumes "sq_rep q m (xs @ [x])"
  shows "\<exists>q' m'. sq_remlast (q, m) = Some (x, q', m') \<and> sq_rep q' m' xs"
proof (cases xs rule: rev_cases)
  case Nil
  with assms show ?thesis by (simp add: sq_rep_def sq_remlast_def Let_def)
next
  case (snoc ys p)
  have ne: "head q \<noteq> tail q" "tail q = x" "x \<noteq> NULL" "p \<noteq> NULL"
    using assms snoc by (cases ys; auto simp: sq_rep_def)+
  have "sq_findprev m x (head q) = Some p"
  proof (cases ys)
    case Nil
    with assms snoc ne show ?thesis
      by (simp add: sq_rep_def sq_findprev.simps [of m x p])
  next
    case (Cons y zs)
    then show ?thesis
      using assms snoc sq_findprev_found [of m y zs p x NULL] by (simp add: sq_rep_def)
  qed
  with assms snoc ne show ?thesis
    by (auto simp: sq_rep_def sq_remlast_def Let_def spath_append hd_append)
qed

lemma sq_rep_rem:
  assumes rep: "sq_rep q m (xs @ x # ys)"
  shows "\<exists>q' m'. sq_rem x (q, m) = Some (q', m') \<and> sq_rep q' m' (xs @ ys)"
proof (cases xs rule: rev_cases)
  case Nil
  with rep show ?thesis
    by (cases ys rule: rev_cases) (auto simp: sq_rep_def sq_rem_def Let_def)
next
  case (snoc zs p)
  have ne: "head q \<noteq> NULL" "x \<noteq> NULL" "p \<noteq> NULL" "x \<noteq> head q"
    using rep snoc by (cases zs; auto simp: sq_rep_def)+
  have "sq_findprev m x (head q) = Some p"
  proof (cases zs)
    case Nil
    with rep snoc ne show ?thesis
      by (simp add: sq_rep_def sq_findprev.simps [of m x p])
  next
    case (Cons y vs)
    have "spath (flink m) ((y # vs @ [p, x]) @ ys) NULL"
      using rep snoc Cons by (simp add: sq_rep_def)
    then have "spath (flink m) (y # vs @ [p, x]) (hd (ys @ [NULL]))"
      by (metis spath_append)
    with rep snoc Cons show ?thesis
      using sq_findprev_found [of m y vs p x] by (auto simp: sq_rep_def)
  qed
  moreover obtain r q' m' where "sq_remafter p (q, m) = (r, q', m')"
    by (cases "sq_remafter p (q, m)") auto
  moreover from this rep snoc have "sq_rep q' m' (xs @ ys)"
    using sq_rep_remafter [of q m zs p x ys] by simp
  ultimately show ?thesis
    using ne by (simp add: sq_rem_def)
qed

subsection \<open>The queue contract\<close>

text \<open>
  Running \<open>n\<close> removals and collecting what they return, for any removal operation.
\<close>

fun drain :: "('s \<Rightarrow> 'a \<times> 's) \<Rightarrow> nat \<Rightarrow> 's \<Rightarrow> 'a list \<times> 's" where
  "drain rem 0 s = ([], s)"
| "drain rem (Suc n) s =
     (let (x, s) = rem s; (xs, s) = drain rem n s in (x # xs, s))"

locale link_fifo =
  fixes rep :: "'q \<Rightarrow> links \<Rightarrow> addr list \<Rightarrow> bool"
    and init :: "'q \<Rightarrow> 'q"
    and addlast :: "addr \<Rightarrow> 'q \<times> links \<Rightarrow> 'q \<times> links"
    and remfirst :: "'q \<times> links \<Rightarrow> addr \<times> 'q \<times> links"
  assumes rep_init: "rep (init q) m []"
    and rep_distinct: "rep q m xs \<Longrightarrow> distinct xs \<and> NULL \<notin> set xs"
    and rep_addlast: "rep q m xs \<Longrightarrow> x \<noteq> NULL \<Longrightarrow> x \<notin> set xs \<Longrightarrow>
      addlast x (q, m) = (q', m') \<Longrightarrow> rep q' m' (xs @ [x])"
    and rep_remfirst: "rep q m (x # xs) \<Longrightarrow> remfirst (q, m) = (r, q', m') \<Longrightarrow>
      r = x \<and> rep q' m' xs"
    and remfirst_Nil: "rep q m [] \<Longrightarrow> remfirst (q, m) = (NULL, q, m)"
    and rep_same_links: "rep p m ys \<Longrightarrow> same_links A m m' \<Longrightarrow> set ys \<inter> A = {} \<Longrightarrow> rep p m' ys"
    and addlast_links: "rep q m xs \<Longrightarrow> addlast x (q, m) = (q', m') \<Longrightarrow>
      same_links (insert x (set xs)) m m'"
    and remfirst_links: "rep q m xs \<Longrightarrow> remfirst (q, m) = (r, q', m') \<Longrightarrow>
      same_links (set xs) m m'"
begin

lemma rep_addall:
  assumes "rep q m ys" and "distinct (ys @ xs)" and "NULL \<notin> set xs"
  shows "\<exists>q' m'. fold addlast xs (q, m) = (q', m') \<and> rep q' m' (ys @ xs)"
  using assms
proof (induction xs arbitrary: q m ys)
  case Nil
  then show ?case by simp
next
  case (Cons x xs)
  obtain q1 m1 where a: "addlast x (q, m) = (q1, m1)"
    by (cases "addlast x (q, m)") auto
  have "rep q1 m1 (ys @ [x])"
    using Cons.prems rep_addlast [OF _ _ _ a] by auto
  with Cons.IH [of q1 m1 "ys @ [x]"] Cons.prems a show ?case by simp
qed

lemma drain_rep:
  assumes "rep q m (xs @ ys)"
  shows "\<exists>q' m'. drain remfirst (length xs) (q, m) = (xs, q', m') \<and> rep q' m' ys"
  using assms
proof (induction xs arbitrary: q m)
  case Nil
  then show ?case by simp
next
  case (Cons x xs)
  obtain r q1 m1 where a: "remfirst (q, m) = (r, q1, m1)"
    by (cases "remfirst (q, m)") auto
  have "r = x" "rep q1 m1 (xs @ ys)"
    using Cons.prems rep_remfirst [OF _ a] by auto
  with Cons.IH [of q1 m1] a show ?case by auto
qed

text \<open>First in, first out: draining what was added gives it back in order.\<close>

lemma fifo:
  assumes "distinct xs" and "NULL \<notin> set xs"
  shows "fst (drain remfirst (length xs) (fold addlast xs (init q, m))) = xs"
proof -
  obtain q' m' where "fold addlast xs (init q, m) = (q', m')" and "rep q' m' xs"
    using rep_addall [OF rep_init, of xs q m] assms by auto
  then show ?thesis
    using drain_rep [of q' m' xs "[]"] by auto
qed

text \<open>Moving the first entry of one queue to the end of another keeps both lists.\<close>

lemma rep_move:
  assumes p: "rep p m (x # ys)" and q: "rep q m xs" and disj: "set (x # ys) \<inter> set xs = {}"
    and rem: "remfirst (p, m) = (r, p', m1)" and add: "addlast r (q, m1) = (q', m2)"
  shows "r = x \<and> rep p' m2 ys \<and> rep q' m2 (xs @ [x])"
proof -
  have r: "r = x" "rep p' m1 ys"
    using rep_remfirst [OF p rem] by auto
  have q1: "rep q m1 xs"
    using rep_same_links [OF q remfirst_links [OF p rem]] disj by blast
  have "rep q' m2 (xs @ [x])"
    using rep_addlast [OF q1 _ _ add] r(1) disj rep_distinct [OF p] by auto
  moreover have "rep p' m2 ys"
    using rep_same_links [OF r(2) addlast_links [OF q1 add]] r(1) disj rep_distinct [OF p] by auto
  ultimately show ?thesis
    using r(1) by simp
qed

end

locale link_deque = link_fifo +
  fixes addfirst :: "addr \<Rightarrow> 'a \<times> links \<Rightarrow> 'a \<times> links"
    and rem :: "addr \<Rightarrow> 'a \<times> links \<Rightarrow> 'a \<times> links"
    and remlast :: "'a \<times> links \<Rightarrow> addr \<times> 'a \<times> links"
  assumes rep_addfirst: "rep q m xs \<Longrightarrow> x \<noteq> NULL \<Longrightarrow> x \<notin> set xs \<Longrightarrow>
      addfirst x (q, m) = (q', m') \<Longrightarrow> rep q' m' (x # xs)"
    and rep_rem: "rep q m (xs @ x # ys) \<Longrightarrow> rem x (q, m) = (q', m') \<Longrightarrow> rep q' m' (xs @ ys)"
    and rep_remlast: "rep q m (xs @ [x]) \<Longrightarrow> remlast (q, m) = (r, q', m') \<Longrightarrow>
      r = x \<and> rep q' m' xs"
begin

text \<open>Removing an entry just added, at either end, restores the represented list.\<close>

lemma rem_addlast:
  assumes "rep q m xs" and "x \<noteq> NULL" and "x \<notin> set xs" and "rem x (addlast x (q, m)) = (q', m')"
  shows "rep q' m' xs"
proof -
  obtain q1 m1 where a: "addlast x (q, m) = (q1, m1)"
    by (cases "addlast x (q, m)") auto
  from rep_addlast [OF assms(1-3) a] have "rep q1 m1 (xs @ x # [])" by simp
  from rep_rem [OF this] assms(4) a show ?thesis by simp
qed

end

lemmas sq_contract = sq_rep_init sq_rep_distinct sq_rep_addlast sq_rep_remfirst sq_remfirst_Nil
  sq_rep_same_links sq_addlast_links sq_remfirst_links

lemmas dq_contract = dq_rep_init dq_rep_distinct dq_rep_addlast dq_rep_remfirst dq_remfirst_Nil
  dq_rep_same_links dq_addlast_links dq_remfirst_links dq_rep_addfirst dq_rep_rem dq_rep_remlast

interpretation sq: link_fifo sq_rep sq_init sq_addlast sq_remfirst
  by unfold_locales (fact sq_contract)+

interpretation dq: link_deque dq_rep dq_init dq_addlast dq_remfirst dq_addfirst dq_rem dq_remlast
  by unfold_locales (fact dq_contract)+

subsection \<open>Properties\<close>

text \<open>
  C40: removing any entry of a doubly linked queue (\<open>dq_rem\<close>) leaves the other entries
  in order, and every other queue whose entries are different keeps representing the
  same list, although all queues share the memory of links.
\<close>

theorem dq_rem_correct:
  assumes "dq_rep q m (xs @ x # ys)" and "dq_rem x (q, m) = (q', m')"
    and "dq_rep p m zs" and "set zs \<inter> set (xs @ x # ys) = {}"
  shows "dq_rep q' m' (xs @ ys) \<and> dq_rep p m' zs"
  using dq_rep_rem [OF assms(1,2)] dq_rep_same_links [OF assms(3) dq_rem_links [OF assms(1,2)] assms(4)]
  by blast

theorem dq_rem_correct_witness:
  "\<exists>q' m'. dq_rem 20 (\<lparr>head = 10, tail = 20\<rparr>,
       \<lparr>flink = (\<lambda>_. 0)(10 := 20), blink = (\<lambda>_. 0)(20 := 10)\<rparr>) = (q', m') \<and>
     dq_rep q' m' [10] \<and> dq_rep \<lparr>head = 30, tail = 30\<rparr> m' [30]"
proof -
  let ?m = "\<lparr>flink = (\<lambda>_. 0)(10 := 20), blink = (\<lambda>_. 0)(20 := 10)\<rparr>"
  let ?q = "\<lparr>head = 10, tail = 20\<rparr>"
  let ?p = "\<lparr>head = 30, tail = 30\<rparr>"
  have q: "dq_rep ?q ?m ([10] @ 20 # [])" and p: "dq_rep ?p ?m [30]"
    by (simp_all add: dq_rep_def)
  obtain q' m' where r: "dq_rem 20 (?q, ?m) = (q', m')"
    by (cases "dq_rem 20 (?q, ?m)") auto
  from dq_rem_correct [OF q r p] r show ?thesis by simp
qed

text \<open>
  the entry a queue operation moves from the head of one kernel queue to the tail of
  another arrives there, and both queues represent the expected lists afterwards.
\<close>

theorem dq_move_correct:
  assumes "dq_rep p m (x # ys)" and "dq_rep q m xs" and "set (x # ys) \<inter> set xs = {}"
    and "dq_remfirst (p, m) = (r, p', m1)" and "dq_addlast r (q, m1) = (q', m2)"
  shows "r = x \<and> dq_rep p' m2 ys \<and> dq_rep q' m2 (xs @ [x])"
  using assms by (rule dq.rep_move)

theorem dq_move_correct_witness:
  "\<exists>r p' m1 q' m2.
     dq_remfirst (\<lparr>head = 8, tail = 8\<rparr>, \<lparr>flink = \<lambda>_. 0, blink = \<lambda>_. 0\<rparr>) = (r, p', m1) \<and>
     dq_addlast r (\<lparr>head = 4, tail = 4\<rparr>, m1) = (q', m2) \<and> dq_rep p' m2 [] \<and> dq_rep q' m2 [4, 8]"
proof -
  let ?m = "\<lparr>flink = \<lambda>_. 0, blink = \<lambda>_. 0\<rparr>"
  let ?p = "\<lparr>head = 8, tail = 8\<rparr>"
  let ?q = "\<lparr>head = 4, tail = 4\<rparr>"
  have p: "dq_rep ?p ?m [8]" and q: "dq_rep ?q ?m [4]"
    by (simp_all add: dq_rep_def)
  obtain r p' m1 where r: "dq_remfirst (?p, ?m) = (r, p', m1)"
    by (cases "dq_remfirst (?p, ?m)") auto
  obtain q' m2 where a: "dq_addlast r (?q, m1) = (q', m2)"
    by (cases "dq_addlast r (?q, m1)") auto
  from dq_move_correct [OF p q _ r a] r a show ?thesis by auto
qed

text \<open>
  a singly linked queue is first in, first out: entries appended with
  \<open>sq_addlast\<close> are returned by \<open>sq_remfirst\<close> in the order they were added.
\<close>

theorem sq_fifo:
  assumes "distinct xs" and "NULL \<notin> set xs"
  shows "fst (drain sq_remfirst (length xs) (fold sq_addlast xs (sq_init q, m))) = xs"
  using assms by (rule sq.fifo)

theorem sq_fifo_witness:
  "fst (drain sq_remfirst 2 (fold sq_addlast [5, 7]
     (sq_init \<lparr>head = 9, tail = 9\<rparr>, \<lparr>flink = \<lambda>_. 3, blink = \<lambda>_. 3\<rparr>))) = [5, 7]"
  using sq_fifo [of "[5, 7]" "\<lparr>head = 9, tail = 9\<rparr>" "\<lparr>flink = \<lambda>_. 3, blink = \<lambda>_. 3\<rparr>"]
  by (simp add: numeral_2_eq_2)

text \<open>
  the search loop of \<open>sq_rem\<close> ends on every represented queue, and the entry given is
  the one removed, wherever it stands.
\<close>

theorem sq_rem_correct:
  assumes "sq_rep q m (xs @ x # ys)"
  shows "\<exists>q' m'. sq_rem x (q, m) = Some (q', m') \<and> sq_rep q' m' (xs @ ys)"
  using assms by (rule sq_rep_rem)

theorem sq_rem_correct_witness:
  "\<exists>q' m'. sq_rem 7 (\<lparr>head = 5, tail = 7\<rparr>, \<lparr>flink = (\<lambda>_. 0)(5 := 7), blink = \<lambda>_. 0\<rparr>) = Some (q', m')
     \<and> sq_rep q' m' [5]"
proof -
  have "sq_rep \<lparr>head = 5, tail = 7\<rparr> \<lparr>flink = (\<lambda>_. 0)(5 := 7), blink = \<lambda>_. 0\<rparr> ([5] @ 7 # [])"
    by (simp add: sq_rep_def)
  from sq_rem_correct [OF this] show ?thesis by simp
qed

end
