(* ===== verification/Tasklist.thy ===== *)
theory Tasklist
  imports Queue
begin

section \<open>Prioritized task lists\<close>

text \<open>
  The lists of tasks are \<open>dq_queue_t\<close> queues linked through the TCBs, kept in descending order of
  priority, tasks of equal priority in the order in which they came. \<open>sched_addprioritized\<close> and
  \<open>sched_mergepending\<close> work on the links themselves, with the assignments of the C code; the
  theorems show that they implement \<open>prio_insert\<close> on the lists the queues represent: an
  insertion behind all tasks of the same or a higher priority.
\<close>

datatype tstate =
    TSTATE_TASK_INVALID | TSTATE_TASK_PENDING | TSTATE_TASK_READYTORUN | TSTATE_TASK_RUNNING
  | TSTATE_TASK_INACTIVE | TSTATE_WAIT_SEM | TSTATE_WAIT_SIG
  | TSTATE_WAIT_MQNOTEMPTY | TSTATE_WAIT_MQNOTFULL

definition SCHED_PRIORITY_MIN :: nat where [simp]: "SCHED_PRIORITY_MIN = 1"
definition SCHED_PRIORITY_MAX :: nat where [simp]: "SCHED_PRIORITY_MAX = 255"

subsection \<open>The code\<close>

text \<open>\<^verbatim>\<open>for (; next && sched_priority <= next->sched_priority; next = next->flink);\<close>\<close>

partial_function (option) prio_search :: "links \<Rightarrow> (addr \<Rightarrow> nat) \<Rightarrow> nat \<Rightarrow> addr \<Rightarrow> addr option" where
  "prio_search m pr p nxt =
     (if nxt \<noteq> NULL \<and> p \<le> pr nxt then prio_search m pr p (flink m nxt) else Some nxt)"

definition sched_addprioritized :: "(addr \<Rightarrow> nat) \<Rightarrow> addr \<Rightarrow> qstate \<Rightarrow> (bool \<times> qstate) option" where
  "sched_addprioritized pr tcb = (\<lambda>(q, m).
     if \<not> pr tcb \<ge> SCHED_PRIORITY_MIN then None
     else do {
       nxt \<leftarrow> prio_search m pr (pr tcb) (head q);
       if nxt = NULL
       then let prev = tail q
            in if prev = NULL
               then let m = set_blink tcb NULL (set_flink tcb NULL m)
                    in Some (True, q\<lparr>head := tcb, tail := tcb\<rparr>, m)
               else let m = set_blink tcb prev (set_flink tcb NULL m);
                        m = set_flink prev tcb m
                    in Some (False, q\<lparr>tail := tcb\<rparr>, m)
       else let prev = blink m nxt
            in if prev = NULL
               then let m = set_blink tcb NULL (set_flink tcb nxt m);
                        m = set_blink nxt tcb m
                    in Some (True, q\<lparr>head := tcb\<rparr>, m)
               else let m = set_blink tcb prev (set_flink tcb nxt m);
                        m = set_flink prev tcb m;
                        m = set_blink nxt tcb m
                    in Some (False, q, m)
     })"

text \<open>
  The loop of \<open>sched_mergepending\<close> over the pending list. A search that reaches the end of the
  ready-to-run list is the PANIC of the code, the value \<^const>\<open>None\<close>.
\<close>

partial_function (option) mergepending_loop ::
  "(addr \<Rightarrow> nat) \<Rightarrow> addr \<Rightarrow> addr \<Rightarrow> bool \<Rightarrow> queue \<Rightarrow> links \<Rightarrow> (addr \<Rightarrow> tstate) \<Rightarrow>
   (bool \<times> queue \<times> links \<times> (addr \<Rightarrow> tstate)) option" where
  "mergepending_loop pr pndtcb rtrtcb ret q m st =
     (if pndtcb = NULL then Some (ret, q, m, st)
      else do {
        let pndnext = flink m pndtcb;
        rtrtcb \<leftarrow> prio_search m pr (pr pndtcb) rtrtcb;
        if rtrtcb = NULL then None
        else
          let rtrprev = blink m rtrtcb
          in if rtrprev = NULL
             then let m = set_flink pndtcb rtrtcb m;
                      m = set_blink pndtcb NULL m;
                      m = set_blink rtrtcb pndtcb m
                  in mergepending_loop pr pndnext pndtcb True (q\<lparr>head := pndtcb\<rparr>) m
                       (st(rtrtcb := TSTATE_TASK_READYTORUN, pndtcb := TSTATE_TASK_RUNNING))
             else let m = set_flink pndtcb rtrtcb m;
                      m = set_blink pndtcb rtrprev m;
                      m = set_flink rtrprev pndtcb m;
                      m = set_blink rtrtcb pndtcb m
                  in mergepending_loop pr pndnext pndtcb ret q m (st(pndtcb := TSTATE_TASK_READYTORUN))
      })"

definition sched_mergepending ::
  "(addr \<Rightarrow> nat) \<Rightarrow> queue \<Rightarrow> queue \<Rightarrow> links \<Rightarrow> (addr \<Rightarrow> tstate) \<Rightarrow>
   (bool \<times> queue \<times> queue \<times> links \<times> (addr \<Rightarrow> tstate)) option" where
  "sched_mergepending pr g_readytorun g_pendingtasks m st = do {
     (ret, g_readytorun, m, st) \<leftarrow>
       mergepending_loop pr (head g_pendingtasks) (head g_readytorun) False g_readytorun m st;
     Some (ret, g_readytorun, g_pendingtasks\<lparr>head := NULL, tail := NULL\<rparr>, m, st)
   }"

subsection \<open>Insertion into a list by priority\<close>

definition prio_insert :: "('a \<Rightarrow> nat) \<Rightarrow> 'a \<Rightarrow> 'a list \<Rightarrow> 'a list" where
  "prio_insert pr x xs = takeWhile (\<lambda>y. pr x \<le> pr y) xs @ x # dropWhile (\<lambda>y. pr x \<le> pr y) xs"

definition prio_sorted :: "('a \<Rightarrow> nat) \<Rightarrow> 'a list \<Rightarrow> bool" where
  "prio_sorted pr xs \<longleftrightarrow> sorted (map pr (rev xs))"

lemma prio_sorted_simps [simp]:
  "prio_sorted pr []" "prio_sorted pr (x # xs) \<longleftrightarrow> prio_sorted pr xs \<and> (\<forall>y\<in>set xs. pr y \<le> pr x)"
  by (auto simp: prio_sorted_def sorted_append)

lemma prio_sorted_append:
  "prio_sorted pr (xs @ ys) \<longleftrightarrow> prio_sorted pr xs \<and> prio_sorted pr ys \<and> (\<forall>x\<in>set xs. \<forall>y\<in>set ys. pr y \<le> pr x)"
  by (induction xs) auto

lemma prio_insert_split:
  obtains as bs where "xs = as @ bs" "prio_insert pr x xs = as @ x # bs" "\<forall>y\<in>set as. pr x \<le> pr y"
    "bs = [] \<or> pr (hd bs) < pr x"
proof -
  let ?P = "\<lambda>y. pr x \<le> pr y"
  have "\<forall>y\<in>set (takeWhile ?P xs). pr x \<le> pr y" by (auto dest: set_takeWhileD)
  moreover have "dropWhile ?P xs = [] \<or> pr (hd (dropWhile ?P xs)) < pr x"
    using hd_dropWhile [of ?P xs] not_le by blast
  ultimately show thesis
    using that [of "takeWhile ?P xs" "dropWhile ?P xs"] by (simp add: prio_insert_def)
qed

lemma set_prio_insert [simp]: "set (prio_insert pr x xs) = insert x (set xs)"
  by (rule prio_insert_split [of xs pr x]) auto

lemma distinct_prio_insert [simp]: "distinct (prio_insert pr x xs) \<longleftrightarrow> x \<notin> set xs \<and> distinct xs"
  by (rule prio_insert_split [of xs pr x]) auto

lemma prio_sorted_tail: "prio_sorted pr bs \<Longrightarrow> bs = [] \<or> pr (hd bs) < k \<Longrightarrow> y \<in> set bs \<Longrightarrow> pr y < k"
  by (cases bs) auto

lemma prio_sorted_insert: "prio_sorted pr xs \<Longrightarrow> prio_sorted pr (prio_insert pr x xs)"
proof (rule prio_insert_split [of xs pr x])
  fix as bs assume s: "prio_sorted pr xs" and sp: "xs = as @ bs" "prio_insert pr x xs = as @ x # bs"
    "\<forall>y\<in>set as. pr x \<le> pr y" "bs = [] \<or> pr (hd bs) < pr x"
  have "\<forall>y\<in>set bs. pr y < pr x"
    using prio_sorted_tail [of pr bs "pr x"] sp(4) s sp(1) by (auto simp: prio_sorted_append)
  then show ?thesis using s sp by (auto simp: prio_sorted_append less_imp_le)
qed

lemma prio_insert_head:
  "hd (prio_insert pr x xs) = (if xs = [] \<or> pr (hd xs) < pr x then x else hd xs)"
  by (cases xs) (auto simp: prio_insert_def)

lemma prio_insert_last: "xs \<noteq> [] \<Longrightarrow> pr (last xs) < pr x \<Longrightarrow> last (prio_insert pr x xs) = last xs"
proof (rule prio_insert_split [of xs pr x])
  fix as bs assume xs: "xs \<noteq> []" "pr (last xs) < pr x" and sp: "xs = as @ bs" "prio_insert pr x xs = as @ x # bs"
    "\<forall>y\<in>set as. pr x \<le> pr y"
  then have "bs \<noteq> []" by (auto simp: leD)
  with sp show ?thesis by simp
qed

text \<open>The relative order of the other entries, and of the entries of equal priority, is kept.\<close>

lemma prio_insert_removed: "x \<notin> set xs \<Longrightarrow> filter (\<lambda>y. y \<noteq> x) (prio_insert pr x xs) = xs"
proof (rule prio_insert_split [of xs pr x])
  fix as bs assume "x \<notin> set xs" and sp: "xs = as @ bs" "prio_insert pr x xs = as @ x # bs"
  then have "filter (\<lambda>y. y \<noteq> x) as = as" "filter (\<lambda>y. y \<noteq> x) bs = bs" by (auto intro!: filter_True)
  with sp show ?thesis by simp
qed

lemma prio_insert_fifo:
  assumes "prio_sorted pr xs"
  shows "filter (\<lambda>y. pr y = pr x) (prio_insert pr x xs) = filter (\<lambda>y. pr y = pr x) xs @ [x]"
proof (rule prio_insert_split [of xs pr x])
  fix as bs assume sp: "xs = as @ bs" "prio_insert pr x xs = as @ x # bs" "bs = [] \<or> pr (hd bs) < pr x"
  have "\<forall>y\<in>set bs. pr y < pr x"
    using prio_sorted_tail [of pr bs "pr x"] sp(3) assms sp(1) by (auto simp: prio_sorted_append)
  then have "filter (\<lambda>y. pr y = pr x) bs = []" by (auto simp: filter_empty_conv)
  then show ?thesis using sp by simp
qed

subsection \<open>The code implements the insertion\<close>

lemma prio_search_eq:
  assumes "dpath (flink m) (blink m) p xs NULL" and "NULL \<notin> set xs"
  shows "prio_search m pr k (hd (xs @ [NULL])) = Some (hd (dropWhile (\<lambda>y. k \<le> pr y) xs @ [NULL]))"
  using assms
proof (induction xs arbitrary: p)
  case Nil
  then show ?case by (subst prio_search.simps) simp
next
  case (Cons x xs)
  then have "flink m x = hd (xs @ [NULL])" "dpath (flink m) (blink m) x xs NULL" "x \<noteq> NULL" by auto
  with Cons show ?case by (subst prio_search.simps) auto
qed

text \<open>Inserting before an entry: the assignments of both functions are those of \<open>dq_addbefore\<close>.\<close>

lemma addbefore_first:
  "dq_rep q m (y # ys) \<Longrightarrow> dq_addbefore y x (q, m) =
     (q\<lparr>head := x\<rparr>, set_blink y x (set_blink x NULL (set_flink x y m)))"
  by (auto simp: dq_rep_def dq_addbefore_def dq_addfirst_def Let_def)

lemma addbefore_middle:
  assumes "dq_rep q m (xs @ y # ys)" and "xs \<noteq> []"
  shows "dq_addbefore y x (q, m) =
     (q, set_blink y x (set_flink (blink m y) x (set_blink x (blink m y) (set_flink x y m))))"
proof -
  have "head q \<noteq> NULL" "y \<noteq> head q"
    using assms by (cases xs; auto simp: dq_rep_def)+
  then show ?thesis by (simp add: dq_addbefore_def Let_def)
qed

lemma blink_first:
  assumes "dq_rep q m (xs @ y # ys)"
  shows "blink m y = NULL \<longleftrightarrow> xs = []" and "y \<noteq> NULL"
  using assms dpath_links [of "flink m" "blink m" NULL xs y ys NULL]
  by (auto simp: dq_rep_def queue_ends)

lemma dq_addbefore_links:
  assumes "dq_rep q m (xs @ y # ys)" and "dq_addbefore y x (q, m) = (q', m')"
  shows "same_links (insert x (set (xs @ [y]))) m m'"
proof (cases "xs = []")
  case True
  with assms addbefore_first [of q m y ys x] show ?thesis by (auto simp: same_links_def)
next
  case False
  have "blink m y = last xs"
    using assms(1) dpath_links [of "flink m" "blink m" NULL xs y ys NULL] False by (auto simp: dq_rep_def)
  then have "blink m y \<in> set xs" using False by simp
  with assms addbefore_middle [OF assms(1) False, of x] show ?thesis by (auto simp: same_links_def)
qed

lemma sched_addprioritized_spec:
  assumes R: "dq_rep q m xs" and x: "x \<noteq> NULL" "x \<notin> set xs" and p: "1 \<le> pr x"
  obtains q' m' where "sched_addprioritized pr x (q, m) = Some (hd (prio_insert pr x xs) = x, q', m')"
    "dq_rep q' m' (prio_insert pr x xs)" "same_links (insert x (set xs)) m m'"
proof -
  let ?P = "\<lambda>y. pr x \<le> pr y"
  obtain as bs where sp: "xs = as @ bs" "prio_insert pr x xs = as @ x # bs" "dropWhile ?P xs = bs"
  proof (rule prio_insert_split [of xs pr x])
    fix as bs assume a: "xs = as @ bs" "prio_insert pr x xs = as @ x # bs" "\<forall>y\<in>set as. pr x \<le> pr y"
      "bs = [] \<or> pr (hd bs) < pr x"
    then have "dropWhile ?P xs = bs" by (cases bs) (auto simp: dropWhile_append2)
    with a show thesis using that by blast
  qed
  have rep: "dpath (flink m) (blink m) NULL xs NULL" "NULL \<notin> set xs" "head q = hd (xs @ [NULL])" "tail q = last (NULL # xs)"
    using R by (auto simp: dq_rep_def)
  have s: "prio_search m pr (pr x) (head q) = Some (hd (bs @ [NULL]))"
    using prio_search_eq [OF rep(1,2)] rep(3) sp(3) by simp
  show thesis
  proof (cases bs)
    case Nil
    then have ins: "prio_insert pr x xs = xs @ [x]" using sp by simp
    obtain q' m' where a: "dq_addlast x (q, m) = (q', m')" by (cases "dq_addlast x (q, m)")
    have hd: "hd (prio_insert pr x xs) = x \<longleftrightarrow> xs = []"
      using x(2) unfolding ins by (cases xs) auto
    have "head q = NULL \<longleftrightarrow> xs = []" "tail q = NULL \<longleftrightarrow> xs = []"
      using rep(2-4) by (auto simp: queue_ends)
    then have "sched_addprioritized pr x (q, m) = Some (hd (prio_insert pr x xs) = x, q', m')"
      unfolding hd using a s p by (auto simp: Nil sched_addprioritized_def dq_addlast_def Let_def)
    then show thesis
      using that dq_rep_addlast [OF R x a] dq_addlast_links [OF R a] ins by simp
  next
    case (Cons y ys)
    then have ins: "prio_insert pr x xs = as @ x # y # ys" using sp by simp
    have R': "dq_rep q m (as @ y # ys)" using R sp Cons by simp
    obtain q' m' where a: "dq_addbefore y x (q, m) = (q', m')" by (cases "dq_addbefore y x (q, m)")
    note bl = blink_first [OF R']
    have hd: "hd (prio_insert pr x xs) = x \<longleftrightarrow> as = []"
      using x(2) sp(1) unfolding ins by (cases as) auto
    have "sched_addprioritized pr x (q, m) = Some (hd (prio_insert pr x xs) = x, q', m')"
    proof (cases "as = []")
      case True
      with R' addbefore_first [of q m y ys x] a bl s Cons p show ?thesis
        unfolding hd by (simp add: sched_addprioritized_def Let_def)
    next
      case False
      with addbefore_middle [OF R' False, of x] a bl s Cons p show ?thesis
        unfolding hd by (simp add: sched_addprioritized_def Let_def)
    qed
    moreover have "dq_rep q' m' (prio_insert pr x xs)"
      unfolding ins by (rule dq_rep_addbefore [OF R' x(1) _ a]) (use x(2) sp Cons in simp)
    moreover have "set (as @ [y]) \<subseteq> set xs"
      using sp Cons by auto
    then have "same_links (insert x (set xs)) m m'"
      using dq_addbefore_links [OF R' a] by (auto simp: same_links_def)
    ultimately show thesis using that by blast
  qed
qed

text \<open>
  The loop of \<open>sched_mergepending\<close>: the ready-to-run list is \<open>as @ bs\<close>, the search stands at the
  first entry of \<open>bs\<close>, and everything before it has at least the priority of the pending tasks.
\<close>

definition merge_states :: "'a list \<Rightarrow> 'a list \<Rightarrow> 'a list \<Rightarrow> ('a \<Rightarrow> tstate) \<Rightarrow> ('a \<Rightarrow> tstate)" where
  "merge_states ps old new st =
     (let st = (\<lambda>y. if y \<in> set ps then TSTATE_TASK_READYTORUN else st y)
      in if hd new = hd old then st
         else st(hd old := TSTATE_TASK_READYTORUN, hd new := TSTATE_TASK_RUNNING))"

lemma prio_insert_append:
  assumes "\<forall>y\<in>set as. pr x \<le> pr y"
  shows "prio_insert pr x (as @ bs) = as @ prio_insert pr x bs"
  using assms by (simp add: prio_insert_def takeWhile_append2 dropWhile_append2)

text \<open>Once an entry is in front, the head does not change any more.\<close>

lemma fold_insert_head:
  assumes "xs \<noteq> []" and "\<forall>p\<in>set ps. pr p \<le> pr (hd xs)"
  shows "hd (fold (prio_insert pr) ps xs) = hd xs"
  using assms
proof (induction ps arbitrary: xs)
  case (Cons p ps)
  have "prio_insert pr p xs \<noteq> []" by (simp add: prio_insert_def)
  with Cons.IH [of "prio_insert pr p xs"] Cons.prems show ?case
    by (auto simp: prio_insert_head leD)
qed simp

lemma mergepending_loop_spec:
  assumes "dq_rep q m (as @ bs)" and "bs \<noteq> []" and "spath (flink m) ps NULL"
    and "distinct (as @ bs @ ps)" and "NULL \<notin> set ps" and "prio_sorted pr ps"
    and "\<forall>a\<in>set as. \<forall>p\<in>set ps. pr p \<le> pr a" and "\<forall>p\<in>set ps. pr (last bs) < pr p"
    and "prio_sorted pr (as @ bs)"
  shows "\<exists>q' m'. mergepending_loop pr (hd (ps @ [NULL])) (hd bs) ret q m st =
      Some (ret \<or> hd (fold (prio_insert pr) ps (as @ bs)) \<noteq> hd (as @ bs), q', m',
        merge_states ps (as @ bs) (fold (prio_insert pr) ps (as @ bs)) st) \<and>
    dq_rep q' m' (fold (prio_insert pr) ps (as @ bs)) \<and> same_links (set (as @ bs @ ps)) m m'"
  using assms
proof (induction ps arbitrary: as bs ret q m st)
  case Nil
  then show ?case by (subst mergepending_loop.simps) (simp add: merge_states_def same_links_def)
next
  case (Cons p ps)
  have pn: "p \<noteq> NULL" "flink m p = hd (ps @ [NULL])" "p \<notin> set (as @ bs)" "spath (flink m) ps NULL"
    using Cons.prems(3-5) by auto
  obtain cs ds where sp: "bs = cs @ ds" "prio_insert pr p bs = cs @ p # ds" "\<forall>y\<in>set cs. pr p \<le> pr y"
    "ds = [] \<or> pr (hd ds) < pr p"
    by (rule prio_insert_split)
  have "ds \<noteq> []" using Cons.prems(2,8) sp(1,3) by (auto simp: leD)
  then obtain r es where ds: "ds = r # es" by (cases ds) auto
  have rep: "dq_rep q m ((as @ cs) @ r # es)" using Cons.prems(1) sp(1) ds by simp
  have path: "dpath (flink m) (blink m) (last (NULL # as)) bs NULL" "NULL \<notin> set bs"
    using Cons.prems(1) by (auto simp: dq_rep_def dpath_append)
  have "dropWhile (\<lambda>y. pr p \<le> pr y) bs = r # es"
    using sp ds by (simp add: dropWhile_append2)
  then have search: "prio_search m pr (pr p) (hd bs) = Some r"
    using prio_search_eq [OF path] Cons.prems(2) by (cases bs) auto
  have new: "prio_insert pr p (as @ bs) = (as @ cs) @ p # r # es"
    using Cons.prems(7) sp ds prio_insert_append [of as pr p bs] by simp
  note bl = blink_first [OF rep]
  obtain q1 m1 where ab: "dq_addbefore r p (q, m) = (q1, m1)" by (cases "dq_addbefore r p (q, m)")
  have rep1: "dq_rep q1 m1 ((as @ cs) @ p # r # es)"
    by (rule dq_rep_addbefore [OF rep pn(1) _ ab]) (use pn(3) sp(1) ds in simp)
  have ln: "same_links (insert p (set (as @ bs))) m m1"
    using dq_addbefore_links [OF rep ab] sp(1) ds by (auto simp: same_links_def)
  have sp1: "spath (flink m1) ps NULL"
  proof -
    have "flink m1 y = flink m y" if "y \<in> set ps" for y
      using that ln Cons.prems(4) by (auto simp: same_links_def)
    then show ?thesis using pn(4) spath_cong [of ps "flink m1" "flink m"] by auto
  qed
  let ?first = "as @ cs = []"
  let ?st1 = "if ?first then st(r := TSTATE_TASK_READYTORUN, p := TSTATE_TASK_RUNNING) else st(p := TSTATE_TASK_READYTORUN)"
  have step: "mergepending_loop pr p (hd bs) ret q m st =
    mergepending_loop pr (hd (ps @ [NULL])) p (ret \<or> ?first) q1 m1 ?st1"
  proof (cases ?first)
    case True
    with rep addbefore_first [of q m r es p] ab have e: "q1 = q\<lparr>head := p\<rparr>"
      "m1 = set_blink r p (set_blink p NULL (set_flink p r m))" by auto
    show ?thesis
      using True bl pn(1,2) search by (subst mergepending_loop.simps) (simp add: Let_def e)
  next
    case False
    with addbefore_middle [OF rep False, of p] ab have e: "q1 = q"
      "m1 = set_blink r p (set_flink (blink m r) p (set_blink p (blink m r) (set_flink p r m)))" by auto
    show ?thesis
      using False bl pn(1,2) search by (subst mergepending_loop.simps) (auto simp: Let_def e)
  qed
  have srt: "prio_sorted pr ((as @ cs) @ p # r # es)"
    using prio_sorted_insert [OF Cons.prems(9), of p] new by simp
  have "\<exists>q' m'. mergepending_loop pr (hd (ps @ [NULL])) (hd (p # r # es)) (ret \<or> ?first) q1 m1 ?st1 =
      Some ((ret \<or> ?first) \<or> hd (fold (prio_insert pr) ps ((as @ cs) @ p # r # es)) \<noteq> hd ((as @ cs) @ p # r # es), q', m',
        merge_states ps ((as @ cs) @ p # r # es) (fold (prio_insert pr) ps ((as @ cs) @ p # r # es)) ?st1) \<and>
    dq_rep q' m' (fold (prio_insert pr) ps ((as @ cs) @ p # r # es)) \<and>
    same_links (set ((as @ cs) @ (p # r # es) @ ps)) m1 m'"
    by (rule Cons.IH [OF rep1 _ sp1 _ _ _ _ _ srt])
       (use Cons.prems sp ds in \<open>auto intro: order_trans\<close>)
  then obtain q' m' where q': "mergepending_loop pr (hd (ps @ [NULL])) p (ret \<or> ?first) q1 m1 ?st1 =
      Some ((ret \<or> ?first) \<or> hd (fold (prio_insert pr) ps ((as @ cs) @ p # r # es)) \<noteq> hd ((as @ cs) @ p # r # es), q', m',
        merge_states ps ((as @ cs) @ p # r # es) (fold (prio_insert pr) ps ((as @ cs) @ p # r # es)) ?st1)"
    "dq_rep q' m' (fold (prio_insert pr) ps ((as @ cs) @ p # r # es))"
    "same_links (set ((as @ cs) @ (p # r # es) @ ps)) m1 m'"
    by auto
  have h1: "hd (fold (prio_insert pr) ps ((as @ cs) @ p # r # es)) = hd ((as @ cs) @ p # r # es)"
    by (rule fold_insert_head) (use Cons.prems(6,7) sp(3) in \<open>cases as; cases cs; auto intro: order_trans\<close>)+
  have h2: "hd ((as @ cs) @ p # r # es) = (if ?first then p else hd (as @ bs))"
    using sp(1) ds by (cases as; cases cs; auto)
  have hp: "hd (as @ bs) \<noteq> p" using pn(3) Cons.prems(2) by (cases as; cases bs; auto)
  have r: "?first \<Longrightarrow> hd (as @ bs) = r" using sp(1) ds by simp
  have "mergepending_loop pr (hd ((p # ps) @ [NULL])) (hd bs) ret q m st =
    Some (ret \<or> hd (fold (prio_insert pr) (p # ps) (as @ bs)) \<noteq> hd (as @ bs), q', m',
      merge_states (p # ps) (as @ bs) (fold (prio_insert pr) (p # ps) (as @ bs)) st)"
  proof -
    have e1: "fold (prio_insert pr) (p # ps) (as @ bs) = fold (prio_insert pr) ps ((as @ cs) @ p # r # es)"
      using new by simp
    have e2: "merge_states ps ((as @ cs) @ p # r # es) (fold (prio_insert pr) ps ((as @ cs) @ p # r # es)) ?st1 =
      merge_states (p # ps) (as @ bs) (fold (prio_insert pr) ps ((as @ cs) @ p # r # es)) st"
      unfolding merge_states_def Let_def h1 h2 using hp r Cons.prems(4) by (auto simp: fun_eq_iff)
    show ?thesis
      unfolding e1 e2 [symmetric] using step q'(1) hp h1 h2 by auto
  qed
  moreover have "same_links (set (as @ bs @ p # ps)) m m'"
    using ln q'(3) sp(1) ds by (auto simp: same_links_def)
  ultimately show ?case using q'(2) new by auto
qed

lemma sched_mergepending_spec:
  assumes "dq_rep rq m rs" and "dq_rep pq m ps" and "rs \<noteq> []" and "set rs \<inter> set ps = {}"
    and "prio_sorted pr rs" and "prio_sorted pr ps" and "\<forall>p\<in>set ps. pr (last rs) < pr p"
  obtains rq' pq' m' where "sched_mergepending pr rq pq m st =
      Some (hd (fold (prio_insert pr) ps rs) \<noteq> hd rs, rq', pq', m', merge_states ps rs (fold (prio_insert pr) ps rs) st)"
    "dq_rep rq' m' (fold (prio_insert pr) ps rs)" "dq_rep pq' m' []" "same_links (set rs \<union> set ps) m m'"
proof -
  have sp: "spath (flink m) ps NULL"
  proof -
    have "dpath fl bl p xs n \<Longrightarrow> spath fl xs n" for fl bl p xs n
      by (induction xs arbitrary: p) auto
    then show ?thesis using assms(2) by (auto simp: dq_rep_def)
  qed
  have hd: "head pq = hd (ps @ [NULL])" "head rq = hd rs"
    using assms(1-3) by (auto simp: dq_rep_def)
  have "distinct ([] @ rs @ ps)" "NULL \<notin> set ps"
    using assms(1,2,4) by (auto simp: dq_rep_def)
  from mergepending_loop_spec [of rq m "[]" rs ps pr False st, simplified, OF assms(1,3) sp this [simplified] assms(6,7,5)]
  obtain q' m' where r: "mergepending_loop pr (hd (ps @ [NULL])) (hd rs) False rq m st =
      Some (hd (fold (prio_insert pr) ps rs) \<noteq> hd rs, q', m', merge_states ps rs (fold (prio_insert pr) ps rs) st)"
    "dq_rep q' m' (fold (prio_insert pr) ps rs)" "same_links (set rs \<union> set ps) m m'"
    by auto
  then show thesis
    using that [of q' "pq\<lparr>head := NULL, tail := NULL\<rparr>" m'] hd by (simp add: sched_mergepending_def dq_rep_def)
qed

subsection \<open>Properties\<close>

text \<open>
  C21: \<open>sched_addprioritized\<close> returns and inserts the task behind all tasks of the same or a higher
  priority: the list stays in descending order of priority, the tasks of the same priority stay
  first in first out, the result says whether the head changed, and every other queue in
  memory keeps its entries.
\<close>

theorem sched_addprioritized_correct:
  assumes "dq_rep q m xs" and "prio_sorted pr xs" and "x \<noteq> NULL" and "x \<notin> set xs" and "1 \<le> pr x"
  shows "\<exists>q' m' ys. sched_addprioritized pr x (q, m) = Some (hd ys = x, q', m') \<and> dq_rep q' m' ys \<and>
    prio_sorted pr ys \<and> filter (\<lambda>y. y \<noteq> x) ys = xs \<and>
    filter (\<lambda>y. pr y = pr x) ys = filter (\<lambda>y. pr y = pr x) xs @ [x] \<and>
    (\<forall>p zs. dq_rep p m zs \<longrightarrow> set zs \<inter> insert x (set xs) = {} \<longrightarrow> dq_rep p m' zs)"
proof -
  obtain q' m' where r: "sched_addprioritized pr x (q, m) = Some (hd (prio_insert pr x xs) = x, q', m')"
    "dq_rep q' m' (prio_insert pr x xs)" "same_links (insert x (set xs)) m m'"
    using sched_addprioritized_spec [of q m xs x pr] assms by auto
  have "\<forall>p zs. dq_rep p m zs \<longrightarrow> set zs \<inter> insert x (set xs) = {} \<longrightarrow> dq_rep p m' zs"
    using dq_rep_same_links [OF _ r(3)] by blast
  with r show ?thesis
    using prio_sorted_insert [OF assms(2), of x] prio_insert_removed [OF assms(4), of pr]
      prio_insert_fifo [OF assms(2), of x] by blast
qed

definition two_tasks :: "qstate" where
  "two_tasks = (\<lparr>head = 100, tail = 200\<rparr>,
     \<lparr>flink = (\<lambda>_. 0)(100 := 200), blink = (\<lambda>_. 0)(200 := 100)\<rparr>)"

lemma two_tasks_rep: "dq_rep (fst two_tasks) (snd two_tasks) [100, 200]"
  by (simp add: two_tasks_def dq_rep_def)

definition demo_prio :: "addr \<Rightarrow> nat" where
  "demo_prio a = (if a = 100 then 50 else if a = 200 then 0 else if a = 300 then 50 else 80)"

theorem sched_addprioritized_correct_witness:
  "prio_sorted demo_prio [100, 200] \<and>
   (\<exists>q' m' ys. sched_addprioritized demo_prio 300 two_tasks = Some (hd ys = 300, q', m') \<and> dq_rep q' m' ys \<and>
      filter (\<lambda>y. y \<noteq> 300) ys = [100, 200] \<and> filter (\<lambda>y. demo_prio y = 50) ys = [100, 300])"
proof -
  have s: "prio_sorted demo_prio [100, 200]" by (simp add: demo_prio_def)
  have p: "demo_prio 100 = 50" "demo_prio 200 = 0" "demo_prio 300 = 50" by (simp_all add: demo_prio_def)
  have "\<exists>q' m' ys. sched_addprioritized demo_prio 300 (fst two_tasks, snd two_tasks) = Some (hd ys = 300, q', m') \<and>
      dq_rep q' m' ys \<and> filter (\<lambda>y. y \<noteq> 300) ys = [100, 200] \<and>
      filter (\<lambda>y. demo_prio y = demo_prio 300) ys = filter (\<lambda>y. demo_prio y = demo_prio 300) [100, 200] @ [300]"
    using sched_addprioritized_correct [OF two_tasks_rep s, of 300] p by auto
  with s p show ?thesis by simp
qed

text \<open>
  \<open>sched_mergepending\<close> returns, its single pass over both lists having the effect of inserting
  the pending tasks one after the other into the ready-to-run list, which stays sorted; the idle
  task, of lower priority, stays last, so that the panic is not reached. The pending list is
  empty afterwards. The result says whether the head changed, and exactly then the new head is
  marked running and the old one ready to run.
\<close>

theorem sched_mergepending_correct:
  assumes "dq_rep rq m rs" and "dq_rep pq m ps" and "rs \<noteq> []" and "set rs \<inter> set ps = {}"
    and "prio_sorted pr rs" and "prio_sorted pr ps" and "\<forall>p\<in>set ps. pr (last rs) < pr p"
  shows "\<exists>rq' pq' m' st' ys. sched_mergepending pr rq pq m st = Some (hd ys \<noteq> hd rs, rq', pq', m', st') \<and>
    ys = fold (prio_insert pr) ps rs \<and> dq_rep rq' m' ys \<and> dq_rep pq' m' [] \<and> prio_sorted pr ys \<and>
    set ys = set rs \<union> set ps \<and> last ys = last rs \<and>
    (\<forall>x. st' x = (if hd ys \<noteq> hd rs \<and> x = hd ys then TSTATE_TASK_RUNNING
                  else if hd ys \<noteq> hd rs \<and> x = hd rs then TSTATE_TASK_READYTORUN
                  else if x \<in> set ps then TSTATE_TASK_READYTORUN else st x))"
proof -
  let ?ys = "fold (prio_insert pr) ps rs"
  obtain rq' pq' m' where r: "sched_mergepending pr rq pq m st =
      Some (hd ?ys \<noteq> hd rs, rq', pq', m', merge_states ps rs ?ys st)"
    "dq_rep rq' m' ?ys" "dq_rep pq' m' []"
    using sched_mergepending_spec [OF assms, of st] by metis
  have "prio_sorted pr ?ys \<and> set ?ys = set rs \<union> set ps \<and> last ?ys = last rs"
    using assms(3,5,7)
  proof (induction ps arbitrary: rs)
    case (Cons p ps)
    have ne: "prio_insert pr p rs \<noteq> []" by (simp add: prio_insert_def)
    have l: "last (prio_insert pr p rs) = last rs" using prio_insert_last [OF Cons.prems(1), of pr p] Cons.prems(3) by simp
    have "prio_sorted pr (fold (prio_insert pr) ps (prio_insert pr p rs)) \<and>
      set (fold (prio_insert pr) ps (prio_insert pr p rs)) = set (prio_insert pr p rs) \<union> set ps \<and>
      last (fold (prio_insert pr) ps (prio_insert pr p rs)) = last (prio_insert pr p rs)"
      by (rule Cons.IH [OF ne prio_sorted_insert [OF Cons.prems(2)]]) (use Cons.prems(3) l in simp)
    with l show ?case by simp
  qed simp
  moreover have "merge_states ps rs ?ys st x = (if hd ?ys \<noteq> hd rs \<and> x = hd ?ys then TSTATE_TASK_RUNNING
                  else if hd ?ys \<noteq> hd rs \<and> x = hd rs then TSTATE_TASK_READYTORUN
                  else if x \<in> set ps then TSTATE_TASK_READYTORUN else st x)" for x
    by (simp add: merge_states_def Let_def)
  ultimately show ?thesis using r by blast
qed

definition pending_queue :: queue where
  "pending_queue = \<lparr>head = 400, tail = 300\<rparr>"

definition four_links :: links where
  "four_links = \<lparr>flink = (\<lambda>_. 0)(100 := 200, 400 := 300), blink = (\<lambda>_. 0)(200 := 100, 300 := 400)\<rparr>"

theorem sched_mergepending_correct_witness:
  "dq_rep (fst two_tasks) four_links [100, 200] \<and> dq_rep pending_queue four_links [400, 300] \<and>
   (\<exists>rq' pq' m' st'. sched_mergepending demo_prio (fst two_tasks) pending_queue four_links (\<lambda>_. TSTATE_TASK_PENDING) =
      Some (True, rq', pq', m', st') \<and> dq_rep rq' m' [400, 100, 300, 200] \<and> st' 400 = TSTATE_TASK_RUNNING)"
proof -
  have r: "dq_rep (fst two_tasks) four_links [100, 200]" "dq_rep pending_queue four_links [400, 300]"
    by (simp_all add: two_tasks_def four_links_def pending_queue_def dq_rep_def)
  have f: "fold (prio_insert demo_prio) [400, 300] [100, 200] = [400, 100, 300, 200]"
    by (simp add: prio_insert_def demo_prio_def)
  have "\<exists>rq' pq' m' st' ys. sched_mergepending demo_prio (fst two_tasks) pending_queue four_links (\<lambda>_. TSTATE_TASK_PENDING) =
      Some (hd ys \<noteq> hd [100, 200], rq', pq', m', st') \<and>
    ys = fold (prio_insert demo_prio) [400, 300] [100, 200] \<and> dq_rep rq' m' ys \<and>
    (\<forall>x. st' x = (if hd ys \<noteq> hd [100, 200] \<and> x = hd ys then TSTATE_TASK_RUNNING
                  else if hd ys \<noteq> hd [100, 200] \<and> x = hd [100, 200] then TSTATE_TASK_READYTORUN
                  else if x \<in> set [400, 300] then TSTATE_TASK_READYTORUN else TSTATE_TASK_PENDING))"
    using sched_mergepending_correct [OF r, of demo_prio "\<lambda>_. TSTATE_TASK_PENDING"] by (fastforce simp: demo_prio_def)
  with r f show ?thesis by auto
qed

end
