(* ===== verification/Sched.thy ===== *)
theory Sched
  imports Tasklist
begin

section \<open>The scheduler: state and operations\<close>

text \<open>
  The kernel state and the operations on the task lists. A task is the address of its TCB.
  The lists of \<open>g_tasklisttable\<close> are HOL lists, indexed by the state they belong to
  (\<open>TSTATE_TASK_READYTORUN\<close> stands for \<open>g_readytorun\<close>, which also holds the running task at its
  head); that the pointer code implements the list operations is shown in \<open>Queue\<close> and
  \<open>Tasklist\<close>. \<open>cpu\<close> is the task whose registers are in the processor: a context switch
  (\<open>up_switchcontext\<close>, or \<open>up_savestate\<close> and \<open>up_restorestate\<close> in an interrupt handler) sets it to
  the head of the ready-to-run list. \<open>current_regs\<close> tells that the processor is in an interrupt
  handler. The architecture part is that of \<open>arch/arm/src/armv7-m\<close>.

  Every operation runs with interrupts disabled. \<^const>\<open>None\<close> is a failed assertion, a PANIC or a
  dereferenced NULL pointer.
\<close>

subsection \<open>State\<close>

record tcb =
  sched_priority :: nat
  base_priority :: nat
  pend_reprios :: "nat list"
  task_state :: tstate
  round_robin :: bool
  lockcount :: nat
  timeslice :: int
  waitsem :: addr
  msgwaitq :: addr
  pterrno :: int

record kernel =
  tcb :: "addr \<Rightarrow> tcb"
  tasklist :: "tstate \<Rightarrow> addr list"
  cpu :: addr
  current_regs :: bool
  g_irqerrno :: int

abbreviation g_readytorun :: "'z kernel_scheme \<Rightarrow> addr list" where
  "g_readytorun k \<equiv> tasklist k TSTATE_TASK_READYTORUN"

abbreviation g_pendingtasks :: "'z kernel_scheme \<Rightarrow> addr list" where
  "g_pendingtasks k \<equiv> tasklist k TSTATE_TASK_PENDING"

abbreviation prio :: "'z kernel_scheme \<Rightarrow> addr \<Rightarrow> nat" where
  "prio k t \<equiv> sched_priority (tcb k t)"

abbreviation state_of :: "'z kernel_scheme \<Rightarrow> addr \<Rightarrow> tstate" where
  "state_of k t \<equiv> task_state (tcb k t)"

text \<open>Assignments to a field of a TCB and to a list.\<close>

definition upd_tcb :: "addr \<Rightarrow> (tcb \<Rightarrow> tcb) \<Rightarrow> 'z kernel_scheme \<Rightarrow> 'z kernel_scheme" where
  "upd_tcb t f k = k\<lparr>tcb := (tcb k)(t := f (tcb k t))\<rparr>"

definition set_list :: "tstate \<Rightarrow> addr list \<Rightarrow> 'z kernel_scheme \<Rightarrow> 'z kernel_scheme" where
  "set_list s xs k = k\<lparr>tasklist := (tasklist k)(s := xs)\<rparr>"

definition list_head :: "addr list \<Rightarrow> addr" where
  "list_head xs = (case xs of [] \<Rightarrow> NULL | x # _ \<Rightarrow> x)"

text \<open>The links of a task in its list.\<close>

fun flink_in :: "addr list \<Rightarrow> addr \<Rightarrow> addr" where
  "flink_in (x # y # xs) t = (if x = t then y else flink_in (y # xs) t)"
| "flink_in xs t = NULL"

fun blink_in :: "addr list \<Rightarrow> addr \<Rightarrow> addr" where
  "blink_in (x # y # xs) t = (if y = t then x else blink_in (y # xs) t)"
| "blink_in xs t = NULL"

text \<open>\<open>g_tasklisttable\<close>: the list of a state and whether it is prioritized.\<close>

fun list_of :: "tstate \<Rightarrow> tstate" where
  "list_of TSTATE_TASK_RUNNING = TSTATE_TASK_READYTORUN"
| "list_of s = s"

fun prioritized :: "tstate \<Rightarrow> bool" where
  "prioritized TSTATE_TASK_INVALID = False"
| "prioritized TSTATE_TASK_INACTIVE = False"
| "prioritized TSTATE_WAIT_SIG = False"
| "prioritized _ = True"

definition is_ready_state :: "tstate \<Rightarrow> bool" where
  "is_ready_state s \<longleftrightarrow> s = TSTATE_TASK_READYTORUN \<or> s = TSTATE_TASK_RUNNING"

definition is_blocked_state :: "tstate \<Rightarrow> bool" where
  "is_blocked_state s \<longleftrightarrow> s \<in> {TSTATE_TASK_INACTIVE, TSTATE_WAIT_SEM, TSTATE_WAIT_SIG,
     TSTATE_WAIT_MQNOTEMPTY, TSTATE_WAIT_MQNOTFULL}"

definition MAX_LOCK_COUNT :: nat where [simp]: "MAX_LOCK_COUNT = 127"

definition EINVAL :: int where [simp]: "EINVAL = 22"
definition EPERM :: int where [simp]: "EPERM = 1"
definition ENOENT :: int where [simp]: "ENOENT = 2"
definition ENOMEM :: int where [simp]: "ENOMEM = 12"
definition EBUSY :: int where [simp]: "EBUSY = 16"
definition EEXIST :: int where [simp]: "EEXIST = 17"
definition EINTR :: int where [simp]: "EINTR = 4"
definition EAGAIN :: int where [simp]: "EAGAIN = 11"
definition ETIMEDOUT :: int where [simp]: "ETIMEDOUT = 110"
definition ERROR :: int where [simp]: "ERROR = - 1"
definition OK :: int where [simp]: "OK = 0"

definition O_RDOK :: nat where "O_RDOK = 1"
definition O_WROK :: nat where "O_WROK = 2"

text \<open>\<open>*get_errno_ptr() = e\<close>\<close>

definition set_errno :: "int \<Rightarrow> 'z kernel_scheme \<Rightarrow> 'z kernel_scheme" where
  "set_errno e k =
     (let rtcb = list_head (g_readytorun k)
      in if \<not> current_regs k \<and> state_of k rtcb = TSTATE_TASK_RUNNING
         then upd_tcb rtcb (pterrno_update (\<lambda>_. e)) k
         else k\<lparr>g_irqerrno := e\<rparr>)"

definition get_errno :: "'z kernel_scheme \<Rightarrow> int" where
  "get_errno k =
     (let rtcb = list_head (g_readytorun k)
      in if \<not> current_regs k \<and> state_of k rtcb = TSTATE_TASK_RUNNING
         then pterrno (tcb k rtcb) else g_irqerrno k)"

subsection \<open>The task lists\<close>

abbreviation set_state :: "addr \<Rightarrow> tstate \<Rightarrow> 'z kernel_scheme \<Rightarrow> 'z kernel_scheme" where
  "set_state t s k \<equiv> upd_tcb t (task_state_update (\<lambda>_. s)) k"

abbreviation set_prio :: "addr \<Rightarrow> nat \<Rightarrow> 'z kernel_scheme \<Rightarrow> 'z kernel_scheme" where
  "set_prio t p k \<equiv> upd_tcb t (sched_priority_update (\<lambda>_. p)) k"

text \<open>
  \<open>sched_addprioritized\<close> and \<open>sched_mergepending\<close> on the lists, as \<open>Tasklist\<close> shows them.
\<close>

definition add_prioritized :: "addr \<Rightarrow> tstate \<Rightarrow> 'z kernel_scheme \<Rightarrow> (bool \<times> 'z kernel_scheme) option" where
  "add_prioritized t s k =
     (if \<not> prio k t \<ge> SCHED_PRIORITY_MIN then None
      else let xs = prio_insert (prio k) t (tasklist k s) in Some (list_head xs = t, set_list s xs k))"

fun merge_loop :: "addr list \<Rightarrow> bool \<Rightarrow> 'z kernel_scheme \<Rightarrow> (bool \<times> 'z kernel_scheme) option" where
  "merge_loop [] ret k = Some (ret, k)"
| "merge_loop (p # ps) ret k =
     (let rtr = list_head (g_readytorun k); xs = prio_insert (prio k) p (g_readytorun k)
      in if last xs = p then None
         else if list_head xs = p
         then merge_loop ps True (set_state p TSTATE_TASK_RUNNING (set_state rtr TSTATE_TASK_READYTORUN
                (set_list TSTATE_TASK_READYTORUN xs k)))
         else merge_loop ps ret (set_state p TSTATE_TASK_READYTORUN (set_list TSTATE_TASK_READYTORUN xs k)))"

definition merge_pending :: "'z kernel_scheme \<Rightarrow> (bool \<times> 'z kernel_scheme) option" where
  "merge_pending k = do {
     (ret, k) \<leftarrow> merge_loop (g_pendingtasks k) False k;
     Some (ret, set_list TSTATE_TASK_PENDING [] k)
   }"

definition sched_addreadytorun :: "addr \<Rightarrow> 'z kernel_scheme \<Rightarrow> (bool \<times> 'z kernel_scheme) option" where
  "sched_addreadytorun btcb k =
     (let rtcb = list_head (g_readytorun k)
      in if lockcount (tcb k rtcb) \<noteq> 0 \<and> prio k rtcb < prio k btcb
         then do {
           (_, k) \<leftarrow> add_prioritized btcb TSTATE_TASK_PENDING k;
           Some (False, set_state btcb TSTATE_TASK_PENDING k)
         }
         else do {
           (first, k) \<leftarrow> add_prioritized btcb TSTATE_TASK_READYTORUN k;
           if first
           then let nxt = flink_in (g_readytorun k) btcb
                in if lockcount (tcb k rtcb) = 0 \<and> nxt \<noteq> NULL
                   then Some (True, set_state nxt TSTATE_TASK_READYTORUN (set_state btcb TSTATE_TASK_RUNNING k))
                   else None
           else Some (False, set_state btcb TSTATE_TASK_READYTORUN k)
         })"

definition sched_removereadytorun :: "addr \<Rightarrow> 'z kernel_scheme \<Rightarrow> (bool \<times> 'z kernel_scheme) option" where
  "sched_removereadytorun rtcb k = do {
     (ret, k) \<leftarrow>
       (if blink_in (g_readytorun k) rtcb = NULL
        then let nxt = flink_in (g_readytorun k) rtcb
             in if nxt \<noteq> NULL then Some (True, set_state nxt TSTATE_TASK_RUNNING k) else None
        else Some (False, k));
     Some (ret, set_state rtcb TSTATE_TASK_INVALID
                  (set_list TSTATE_TASK_READYTORUN (remove1 rtcb (g_readytorun k)) k))
   }"

definition sched_addblocked :: "addr \<Rightarrow> tstate \<Rightarrow> 'z kernel_scheme \<Rightarrow> 'z kernel_scheme option" where
  "sched_addblocked btcb s k =
     (if \<not> is_blocked_state s then None
      else do {
        k \<leftarrow> (if prioritized s then map_option snd (add_prioritized btcb (list_of s) k)
             else Some (set_list (list_of s) (tasklist k (list_of s) @ [btcb]) k));
        Some (set_state btcb s k)
      })"

definition sched_removeblocked :: "addr \<Rightarrow> 'z kernel_scheme \<Rightarrow> 'z kernel_scheme option" where
  "sched_removeblocked btcb k =
     (let s = state_of k btcb
      in if \<not> is_blocked_state s then None
         else Some (set_state btcb TSTATE_TASK_INVALID
                      (set_list (list_of s) (remove1 btcb (tasklist k (list_of s))) k)))"

subsection \<open>Context switches (arch/arm/src/armv7-m)\<close>

definition switch_context :: "'z kernel_scheme \<Rightarrow> 'z kernel_scheme" where
  "switch_context k = k\<lparr>cpu := list_head (g_readytorun k)\<rparr>"

definition up_block_task :: "addr \<Rightarrow> tstate \<Rightarrow> 'z kernel_scheme \<Rightarrow> 'z kernel_scheme option" where
  "up_block_task t s k =
     (if \<not> is_ready_state (state_of k t) then None
      else do {
        (switch_needed, k) \<leftarrow> sched_removereadytorun t k;
        k \<leftarrow> sched_addblocked t s k;
        (switch_needed, k) \<leftarrow>
          (if g_pendingtasks k \<noteq> []
           then do { (b, k) \<leftarrow> merge_pending k; Some (switch_needed \<or> b, k) }
           else Some (switch_needed, k));
        Some (if switch_needed then switch_context k else k)
      })"

definition RR_TICKS :: int where [simp]: "RR_TICKS = 20"

definition up_unblock_task :: "addr \<Rightarrow> 'z kernel_scheme \<Rightarrow> 'z kernel_scheme option" where
  "up_unblock_task t k =
     (if \<not> is_blocked_state (state_of k t) then None
      else do {
        k \<leftarrow> sched_removeblocked t k;
        let k = upd_tcb t (timeslice_update (\<lambda>_. RR_TICKS)) k;
        (switch_needed, k) \<leftarrow> sched_addreadytorun t k;
        Some (if switch_needed then switch_context k else k)
      })"

definition up_reprioritize_rtr :: "addr \<Rightarrow> nat \<Rightarrow> 'z kernel_scheme \<Rightarrow> 'z kernel_scheme option" where
  "up_reprioritize_rtr t p k =
     (if \<not> is_ready_state (state_of k t) \<or> p < SCHED_PRIORITY_MIN \<or> p > SCHED_PRIORITY_MAX then None
      else do {
        (b1, k) \<leftarrow> sched_removereadytorun t k;
        let k = set_prio t p k;
        (b2, k) \<leftarrow> sched_addreadytorun t k;
        if b1 \<noteq> b2
        then do {
          k \<leftarrow> (if g_pendingtasks k \<noteq> [] then map_option snd (merge_pending k) else Some k);
          Some (switch_context k)
        }
        else Some k
      })"

definition up_release_pending :: "'z kernel_scheme \<Rightarrow> 'z kernel_scheme option" where
  "up_release_pending k = do {
     (b, k) \<leftarrow> merge_pending k;
     Some (if b then switch_context k else k)
   }"

subsection \<open>Preemption locks and priorities\<close>

definition sched_lock :: "'z kernel_scheme \<Rightarrow> 'z kernel_scheme option" where
  "sched_lock k =
     (let rtcb = list_head (g_readytorun k)
      in if rtcb \<noteq> NULL \<and> \<not> current_regs k
         then if lockcount (tcb k rtcb) < MAX_LOCK_COUNT
              then Some (upd_tcb rtcb (lockcount_update Suc) k) else None
         else Some k)"

definition sched_unlock :: "'z kernel_scheme \<Rightarrow> 'z kernel_scheme option" where
  "sched_unlock k =
     (let rtcb = list_head (g_readytorun k)
      in if rtcb \<noteq> NULL \<and> \<not> current_regs k
         then let k = (if lockcount (tcb k rtcb) \<noteq> 0 then upd_tcb rtcb (lockcount_update (\<lambda>n. n - 1)) k else k)
              in if lockcount (tcb k rtcb) \<le> 0
                 then let k = upd_tcb rtcb (lockcount_update (\<lambda>_. 0)) k
                      in if g_pendingtasks k \<noteq> [] then up_release_pending k else Some k
                 else Some k
         else Some k)"

definition sched_lockcount :: "'z kernel_scheme \<Rightarrow> nat" where
  "sched_lockcount k = lockcount (tcb k (list_head (g_readytorun k)))"

text \<open>The result is the return value; the requested priority is a C int.\<close>

definition sched_setpriority :: "addr \<Rightarrow> int \<Rightarrow> 'z kernel_scheme \<Rightarrow> (int \<times> 'z kernel_scheme) option" where
  "sched_setpriority t p k =
     (let rtcb = list_head (g_readytorun k)
      in if p < int SCHED_PRIORITY_MIN \<or> p > int SCHED_PRIORITY_MAX then Some (ERROR, set_errno EINVAL k)
         else do {
           k \<leftarrow> (case state_of k t of
                  TSTATE_TASK_RUNNING \<Rightarrow>
                    (let nxt = flink_in (g_readytorun k) t
                     in if nxt = NULL then None
                        else if p \<le> int (prio k nxt) then up_reprioritize_rtr t (nat p) k
                        else Some (set_prio t (nat p) k))
                | TSTATE_TASK_READYTORUN \<Rightarrow>
                    (if p > int (prio k rtcb) then up_reprioritize_rtr t (nat p) k
                     else do {
                       (b, k) \<leftarrow> sched_removereadytorun t k;
                       if b then None
                       else do {
                         (b, k) \<leftarrow> sched_addreadytorun t (set_prio t (nat p) k);
                         if b then None else Some k
                       }
                     })
                | s \<Rightarrow>
                    (if prioritized s
                     then map_option snd (add_prioritized t (list_of s)
                            (set_prio t (nat p) (set_list (list_of s) (remove1 t (tasklist k (list_of s))) k)))
                     else Some (set_prio t (nat p) k)));
           Some (OK, k)
         })"

definition sched_reprioritize :: "addr \<Rightarrow> int \<Rightarrow> 'z kernel_scheme \<Rightarrow> (int \<times> 'z kernel_scheme) option" where
  "sched_reprioritize t p k = do {
     (ret, k) \<leftarrow> sched_setpriority t p k;
     Some (ret, if ret = 0
                then upd_tcb t (\<lambda>c. c\<lparr>base_priority := nat p, pend_reprios := []\<rparr>) k else k)
   }"

definition sched_yield :: "'z kernel_scheme \<Rightarrow> (int \<times> 'z kernel_scheme) option" where
  "sched_yield k =
     (let rtcb = list_head (g_readytorun k) in sched_setpriority rtcb (int (prio k rtcb)) k)"

definition task_activate :: "addr \<Rightarrow> 'z kernel_scheme \<Rightarrow> (int \<times> 'z kernel_scheme) option" where
  "task_activate t k = map_option (\<lambda>k. (OK, k)) (up_unblock_task t k)"

definition sched_process_timeslice :: "'z kernel_scheme \<Rightarrow> 'z kernel_scheme option" where
  "sched_process_timeslice k =
     (let rtcb = list_head (g_readytorun k)
      in if round_robin (tcb k rtcb)
         then if timeslice (tcb k rtcb) \<le> 1
              then if lockcount (tcb k rtcb) = 0
                   then let k = upd_tcb rtcb (timeslice_update (\<lambda>_. RR_TICKS)) k;
                            nxt = flink_in (g_readytorun k) rtcb
                        in if nxt \<noteq> NULL \<and> prio k nxt \<ge> prio k rtcb
                           then up_reprioritize_rtr rtcb (prio k rtcb) k else Some k
                   else Some k
              else Some (upd_tcb rtcb (timeslice_update (\<lambda>n. n - 1)) k)
         else Some k)"

end
