(* ===== verification/Sched_Inv.thy ===== *)
theory Sched_Inv
  imports Sched
begin

section \<open>The invariant of the scheduler\<close>

text \<open>
  \<open>tasks_ok\<close> relates the states, the priorities and the lists: every task is on exactly the list
  of its state, the head of the ready-to-run list and only this task is running, the
  prioritized lists are in descending order of priority, and the idle task of priority 0 is the
  last ready-to-run task. It is stated over the three functions alone, so that each
  operation is a few function updates. \<open>sched_ok\<close> adds what holds between the operations: tasks
  are pending only while the running task has preemption disabled, and the processor runs the head
  of the ready-to-run list.
\<close>

abbreviation (input) RTR :: tstate where "RTR \<equiv> TSTATE_TASK_READYTORUN"

definition tasks_ok :: "(addr \<Rightarrow> tstate) \<Rightarrow> (addr \<Rightarrow> nat) \<Rightarrow> (tstate \<Rightarrow> addr list) \<Rightarrow> bool" where
  "tasks_ok st pr L \<longleftrightarrow>
     L RTR \<noteq> [] \<and> st NULL = TSTATE_TASK_INVALID \<and> (\<forall>s. distinct (L s)) \<and>
     (\<forall>s t. t \<in> set (L s) \<longleftrightarrow> s \<noteq> TSTATE_TASK_INVALID \<and> list_of (st t) = s) \<and>
     (\<forall>t. st t = TSTATE_TASK_RUNNING \<longleftrightarrow> t = hd (L RTR)) \<and>
     (\<forall>s. prioritized s \<longrightarrow> prio_sorted pr (L s)) \<and>
     pr (last (L RTR)) = 0 \<and>
     (\<forall>t. st t \<noteq> TSTATE_TASK_INVALID \<longrightarrow> t \<noteq> last (L RTR) \<longrightarrow> 1 \<le> pr t \<and> pr t \<le> 255)"

definition lists_ok :: "'z kernel_scheme \<Rightarrow> bool" where
  "lists_ok k \<longleftrightarrow> tasks_ok (state_of k) (prio k) (tasklist k)"

definition sched_ok :: "'z kernel_scheme \<Rightarrow> bool" where
  "sched_ok k \<longleftrightarrow> lists_ok k \<and> cpu k = hd (g_readytorun k) \<and>
     (g_pendingtasks k \<noteq> [] \<longrightarrow> lockcount (tcb k (hd (g_readytorun k))) > 0)"

lemma tasks_okD:
  assumes "tasks_ok st pr L"
  shows "L RTR \<noteq> []" and "st NULL = TSTATE_TASK_INVALID" and "distinct (L s)"
    and "t \<in> set (L s) \<longleftrightarrow> s \<noteq> TSTATE_TASK_INVALID \<and> list_of (st t) = s"
    and "st t = TSTATE_TASK_RUNNING \<longleftrightarrow> t = hd (L RTR)"
    and "prioritized s \<Longrightarrow> prio_sorted pr (L s)"
    and "pr (last (L RTR)) = 0"
    and "st t \<noteq> TSTATE_TASK_INVALID \<Longrightarrow> t \<noteq> last (L RTR) \<Longrightarrow> 1 \<le> pr t"
    and "st t \<noteq> TSTATE_TASK_INVALID \<Longrightarrow> t \<noteq> last (L RTR) \<Longrightarrow> pr t \<le> 255"
  using assms unfolding tasks_ok_def by auto

lemma list_of_simps [simp]:
  "list_of s = TSTATE_TASK_INVALID \<longleftrightarrow> s = TSTATE_TASK_INVALID"
  "list_of s = TSTATE_TASK_RUNNING \<longleftrightarrow> False"
  "list_of s = RTR \<longleftrightarrow> s = RTR \<or> s = TSTATE_TASK_RUNNING"
  "list_of s = TSTATE_TASK_PENDING \<longleftrightarrow> s = TSTATE_TASK_PENDING"
  "list_of (list_of s) = list_of s"
  by (cases s; simp)+

lemma list_of_blocked [simp]: "is_blocked_state s \<Longrightarrow> list_of s = s"
  by (cases s) (auto simp: is_blocked_state_def)

lemma tasks_ok_unused:
  assumes "tasks_ok st pr L"
  shows "L TSTATE_TASK_INVALID = []" "L TSTATE_TASK_RUNNING = []"
proof -
  have "x \<notin> set (L TSTATE_TASK_INVALID)" "x \<notin> set (L TSTATE_TASK_RUNNING)" for x
    using tasks_okD(4) [OF assms, of x] by simp_all
  then show "L TSTATE_TASK_INVALID = []" "L TSTATE_TASK_RUNNING = []"
    by (metis hd_in_set)+
qed

lemma prio_sorted_cong: "(\<And>t. t \<in> set xs \<Longrightarrow> pr' t = pr t) \<Longrightarrow> prio_sorted pr' xs = prio_sorted pr xs"
  by (induction xs) auto

lemma prio_sorted_remove1: "prio_sorted pr xs \<Longrightarrow> prio_sorted pr (remove1 t xs)"
  by (induction xs) (auto dest: in_set_remove1 [THEN iffD1] notin_set_remove1)

lemma prio_sorted_hd: "prio_sorted pr xs \<Longrightarrow> t \<in> set xs \<Longrightarrow> pr t \<le> pr (hd xs)"
  by (cases xs) auto

subsection \<open>Steps on the three functions\<close>

text \<open>Taking a task off the ready-to-run list.\<close>

lemma tasks_ok_remove_ready:
  assumes ok: "tasks_ok st pr L" and t: "t \<in> set (L RTR)" "t \<noteq> last (L RTR)"
  defines "st' \<equiv> if t = hd (L RTR) then st(hd (tl (L RTR)) := TSTATE_TASK_RUNNING) else st"
  shows "tasks_ok (st'(t := TSTATE_TASK_INVALID)) pr (L(RTR := remove1 t (L RTR)))"
proof -
  note D = tasks_okD [OF ok]
  let ?rs = "L RTR"
  obtain as bs where rs: "?rs = as @ t # bs" "t \<notin> set as"
    using t(1) by (meson split_list_first)
  have bs: "bs \<noteq> []" using t(2) rs by auto
  have dist: "distinct (as @ t # bs)" using D(3) [of RTR] rs by simp
  have rem: "remove1 t ?rs = as @ bs" using rs by (simp add: remove1_append)
  have hd: "hd (as @ bs) = (if t = hd ?rs then hd (tl ?rs) else hd ?rs)"
    using rs dist by (cases as) auto
  have last: "last (as @ bs) = last ?rs" using rs bs by simp
  have mem: "x \<in> set (as @ bs) \<longleftrightarrow> x \<in> set ?rs \<and> x \<noteq> t" for x using rs dist by auto
  have hdm: "hd (as @ bs) \<in> set (as @ bs)" using bs by (intro hd_in_set) simp
  have hs: "list_of (st (hd (as @ bs))) = RTR" "hd (as @ bs) \<noteq> t"
    using hdm mem D(4) [of _ RTR] by auto
  have st': "st'(t := TSTATE_TASK_INVALID) = (\<lambda>x. if x = t then TSTATE_TASK_INVALID
      else if x = hd (as @ bs) then TSTATE_TASK_RUNNING else st x)"
    using hd hs(2) D(5) by (auto simp: st'_def fun_eq_iff)
  have "x \<in> set ((L(RTR := as @ bs)) s) \<longleftrightarrow> s \<noteq> TSTATE_TASK_INVALID \<and>
      list_of ((st'(t := TSTATE_TASK_INVALID)) x) = s" for s x
    unfolding st' using mem [of x] D(4) [of x s] D(4) [of x RTR] D(4) [of t s] hs D(4) [of t RTR] t(1) by auto
  moreover have "(st'(t := TSTATE_TASK_INVALID)) x = TSTATE_TASK_RUNNING \<longleftrightarrow> x = hd (as @ bs)" for x
    unfolding st' using hd hs(2) D(5) [of x] by auto
  moreover have "prioritized s \<Longrightarrow> prio_sorted pr ((L(RTR := as @ bs)) s)" for s
    using D(6) [of s] rs by (auto simp: prio_sorted_append)
  moreover have "distinct ((L(RTR := as @ bs)) s)" for s using D(3) [of s] dist by auto
  moreover have "(st'(t := TSTATE_TASK_INVALID)) x \<noteq> TSTATE_TASK_INVALID \<Longrightarrow> x \<noteq> last ?rs \<Longrightarrow> 1 \<le> pr x \<and> pr x \<le> 255" for x
    unfolding st' using D(8,9) [of x] hs D(8,9) [of "hd (as @ bs)"] by (auto split: if_splits)
  moreover have "(st'(t := TSTATE_TASK_INVALID)) NULL = TSTATE_TASK_INVALID"
  proof -
    have "hd (as @ bs) \<noteq> NULL" using hs(1) D(2) by (intro notI) simp
    then show ?thesis unfolding st' using D(2) by simp
  qed
  ultimately show ?thesis
    unfolding tasks_ok_def rem using bs last D(7) by auto
qed

text \<open>Putting a task on the ready-to-run list.\<close>

lemma tasks_ok_add_ready:
  assumes ok: "tasks_ok st pr L" and t: "st t = TSTATE_TASK_INVALID" "t \<noteq> NULL" "1 \<le> pr t" "pr t \<le> 255"
  defines "rs' \<equiv> prio_insert pr t (L RTR)"
  defines "st' \<equiv> if hd rs' = t then st(t := TSTATE_TASK_RUNNING, hd (L RTR) := RTR) else st(t := RTR)"
  shows "tasks_ok st' pr (L(RTR := rs'))" and "last rs' = last (L RTR)"
proof -
  note D = tasks_okD [OF ok]
  have nt: "t \<notin> set (L s)" for s using D(4) [of t s] t(1) by auto
  have hdm: "hd (L RTR) \<in> set (L RTR)" using D(1) by simp
  then have h: "hd (L RTR) \<noteq> t" "st (hd (L RTR)) = TSTATE_TASK_RUNNING" using nt D(5) by auto
  show last: "last rs' = last (L RTR)"
    unfolding rs'_def using prio_insert_last [OF D(1), of pr t] D(7) t(3) by simp
  have hd: "hd rs' = t \<or> hd rs' = hd (L RTR)"
    by (auto simp: rs'_def prio_insert_head)
  have "x \<in> set ((L(RTR := rs')) s) \<longleftrightarrow> s \<noteq> TSTATE_TASK_INVALID \<and> list_of (st' x) = s" for s x
    using D(4) [of x s] D(4) [of x RTR] t(1) h hdm D(4) [of "hd (L RTR)" s] by (auto simp: st'_def rs'_def)
  moreover have "st' x = TSTATE_TASK_RUNNING \<longleftrightarrow> x = hd rs'" for x
    using D(5) [of x] h hd t(1) by (auto simp: st'_def)
  moreover have "prioritized s \<Longrightarrow> prio_sorted pr ((L(RTR := rs')) s)" for s
    using D(6) [of s] D(6) [of RTR] by (auto simp: rs'_def prio_sorted_insert)
  moreover have "distinct ((L(RTR := rs')) s)" for s
    using D(3) [of s] D(3) [of RTR] nt by (auto simp: rs'_def)
  moreover have "st' x \<noteq> TSTATE_TASK_INVALID \<Longrightarrow> x \<noteq> last (L RTR) \<Longrightarrow> 1 \<le> pr x \<and> pr x \<le> 255" for x
    using D(8,9) [of x] h t(3,4) by (cases "x = t"; cases "x = hd (L RTR)") (auto simp: st'_def split: if_splits)
  moreover have "st' NULL = TSTATE_TASK_INVALID"
    using D(2) h t(2) by (auto simp: st'_def)
  moreover have "rs' \<noteq> []" by (simp add: rs'_def prio_insert_def)
  ultimately show "tasks_ok st' pr (L(RTR := rs'))"
    unfolding tasks_ok_def using last D(7) by auto
qed

text \<open>The other lists: a task may be put on one, and taken off it.\<close>

definition plain_list :: "tstate \<Rightarrow> bool" where
  "plain_list s \<longleftrightarrow> s \<noteq> TSTATE_TASK_INVALID \<and> s \<noteq> RTR \<and> s \<noteq> TSTATE_TASK_RUNNING"

lemma plain_list_of [simp]: "plain_list s \<Longrightarrow> list_of s = s"
  by (cases s) (auto simp: plain_list_def)

lemma tasks_ok_add_plain:
  assumes ok: "tasks_ok st pr L" and s: "plain_list s"
    and t: "st t = TSTATE_TASK_INVALID" "t \<noteq> NULL" "1 \<le> pr t" "pr t \<le> 255"
    and xs: "set xs = insert t (set (L s))" "distinct xs" "prioritized s \<Longrightarrow> prio_sorted pr xs"
  shows "tasks_ok (st(t := s)) pr (L(s := xs))"
proof -
  note D = tasks_okD [OF ok]
  have h: "hd (L RTR) \<noteq> t"
    using D(1) D(4) [of t RTR] t(1) by auto
  have "x \<in> set ((L(s := xs)) u) \<longleftrightarrow> u \<noteq> TSTATE_TASK_INVALID \<and> list_of ((st(t := s)) x) = u" for u x
    using D(4) [of x u] D(4) [of t u] xs(1) s t(1) by (auto simp: plain_list_def)
  moreover have "(st(t := s)) x = TSTATE_TASK_RUNNING \<longleftrightarrow> x = hd ((L(s := xs)) RTR)" for x
    using D(5) [of x] s h by (auto simp: plain_list_def)
  moreover have "prioritized u \<Longrightarrow> prio_sorted pr ((L(s := xs)) u)" for u
    using D(6) [of u] xs(3) by auto
  moreover have "distinct ((L(s := xs)) u)" for u using D(3) [of u] xs(2) by auto
  moreover have "(st(t := s)) x \<noteq> TSTATE_TASK_INVALID \<Longrightarrow> x \<noteq> last (L RTR) \<Longrightarrow> 1 \<le> pr x \<and> pr x \<le> 255" for x
    using D(8,9) [of x] t(3,4) by (auto split: if_splits)
  ultimately show ?thesis
    unfolding tasks_ok_def using D(1,2,7) s t(2) by (auto simp: plain_list_def)
qed

lemma tasks_ok_remove_plain:
  assumes ok: "tasks_ok st pr L" and s: "plain_list s" "st t = s"
  shows "tasks_ok (st(t := TSTATE_TASK_INVALID)) pr (L(s := remove1 t (L s)))"
proof -
  note D = tasks_okD [OF ok]
  have h: "hd (L RTR) \<noteq> t" using D(5) [of t] s by (auto simp: plain_list_def)
  have "x \<in> set ((L(s := remove1 t (L s))) u) \<longleftrightarrow> u \<noteq> TSTATE_TASK_INVALID \<and>
      list_of ((st(t := TSTATE_TASK_INVALID)) x) = u" for u x
  proof (cases "x = t")
    case True
    have "t \<notin> set (L u)" if "u \<noteq> s" using D(4) [of t u] s that by auto
    then show ?thesis using True D(3) [of s] by auto
  next
    case False
    then show ?thesis using D(4) [of x u] by auto
  qed
  moreover have "(st(t := TSTATE_TASK_INVALID)) x = TSTATE_TASK_RUNNING \<longleftrightarrow> x = hd ((L(s := remove1 t (L s))) RTR)" for x
    using D(5) [of x] s h by (auto simp: plain_list_def)
  moreover have "prioritized u \<Longrightarrow> prio_sorted pr ((L(s := remove1 t (L s))) u)" for u
    using D(6) [of u] by (auto simp: prio_sorted_remove1)
  moreover have "distinct ((L(s := remove1 t (L s))) u)" for u using D(3) [of u] by auto
  moreover have "(st(t := TSTATE_TASK_INVALID)) x \<noteq> TSTATE_TASK_INVALID \<Longrightarrow> x \<noteq> last (L RTR) \<Longrightarrow> 1 \<le> pr x \<and> pr x \<le> 255" for x
    using D(8,9) [of x] by (auto split: if_splits)
  ultimately show ?thesis
    unfolding tasks_ok_def using D(1,2,7) s by (auto simp: plain_list_def)
qed

text \<open>Changing the priority of a task whose place in its list does not depend on it.\<close>

lemma tasks_ok_prio:
  assumes ok: "tasks_ok st pr L" and t: "t \<noteq> last (L RTR)" "1 \<le> p" "p \<le> 255"
    and srt: "\<And>s. prioritized s \<Longrightarrow> t \<in> set (L s) \<Longrightarrow> prio_sorted (pr(t := p)) (L s)"
  shows "tasks_ok st (pr(t := p)) L"
proof -
  note D = tasks_okD [OF ok]
  have "prio_sorted (pr(t := p)) (L s)" if "prioritized s" for s
  proof (cases "t \<in> set (L s)")
    case False
    then have "prio_sorted (pr(t := p)) (L s) = prio_sorted pr (L s)" by (intro prio_sorted_cong) auto
    with D(6) [OF that] show ?thesis by simp
  qed (use srt that in blast)
  then show ?thesis
    using ok t unfolding tasks_ok_def by auto
qed


subsection \<open>The list operations\<close>

text \<open>What the list operations leave alone.\<close>

definition rest :: "'z kernel_scheme \<Rightarrow> (addr \<Rightarrow> tcb) \<times> bool \<times> int \<times> 'z" where
  "rest k = (\<lambda>t. (tcb k t)\<lparr>task_state := TSTATE_TASK_INVALID, timeslice := 0\<rparr>,
             current_regs k, g_irqerrno k, kernel.more k)"

lemma rest_eqD:
  assumes "rest k' = rest k"
  shows "prio k' t = prio k t" "lockcount (tcb k' t) = lockcount (tcb k t)"
    "base_priority (tcb k' t) = base_priority (tcb k t)" "pend_reprios (tcb k' t) = pend_reprios (tcb k t)"
    "round_robin (tcb k' t) = round_robin (tcb k t)"
    "waitsem (tcb k' t) = waitsem (tcb k t)" "msgwaitq (tcb k' t) = msgwaitq (tcb k t)"
    "pterrno (tcb k' t) = pterrno (tcb k t)"
    "current_regs k' = current_regs k" "g_irqerrno k' = g_irqerrno k" "kernel.more k' = kernel.more k"
proof -
  have "(tcb k' t)\<lparr>task_state := TSTATE_TASK_INVALID, timeslice := 0\<rparr> =
      (tcb k t)\<lparr>task_state := TSTATE_TASK_INVALID, timeslice := 0\<rparr>"
    using assms by (simp add: rest_def fun_eq_iff)
  note this [THEN arg_cong, of sched_priority] this [THEN arg_cong, of lockcount]
    this [THEN arg_cong, of base_priority] this [THEN arg_cong, of pend_reprios]
    this [THEN arg_cong, of round_robin] this [THEN arg_cong, of waitsem]
    this [THEN arg_cong, of msgwaitq] this [THEN arg_cong, of pterrno]
  then show "prio k' t = prio k t" "lockcount (tcb k' t) = lockcount (tcb k t)"
    "base_priority (tcb k' t) = base_priority (tcb k t)" "pend_reprios (tcb k' t) = pend_reprios (tcb k t)"
    "round_robin (tcb k' t) = round_robin (tcb k t)"
    "waitsem (tcb k' t) = waitsem (tcb k t)" "msgwaitq (tcb k' t) = msgwaitq (tcb k t)"
    "pterrno (tcb k' t) = pterrno (tcb k t)"
    by simp_all
  show "current_regs k' = current_regs k" "g_irqerrno k' = g_irqerrno k" "kernel.more k' = kernel.more k"
    using assms by (simp_all add: rest_def)
qed

lemma rest_upd [simp]:
  "rest (set_state t s k) = rest k" "rest (set_list s xs k) = rest k"
  "rest (switch_context k) = rest k" "rest (upd_tcb t (timeslice_update f) k) = rest k"
  by (auto simp: rest_def upd_tcb_def set_list_def switch_context_def fun_eq_iff)

lemma kernel_upd [simp]:
  "tasklist (upd_tcb t f k) = tasklist k" "cpu (upd_tcb t f k) = cpu k"
  "current_regs (upd_tcb t f k) = current_regs k" "tcb (upd_tcb t f k) = (tcb k)(t := f (tcb k t))"
  "kernel.more (upd_tcb t f k) = kernel.more k"
  "tasklist (set_list s xs k) = (tasklist k)(s := xs)" "cpu (set_list s xs k) = cpu k"
  "current_regs (set_list s xs k) = current_regs k" "tcb (set_list s xs k) = tcb k"
  "kernel.more (set_list s xs k) = kernel.more k"
  "tasklist (switch_context k) = tasklist k" "cpu (switch_context k) = list_head (g_readytorun k)"
  "tcb (switch_context k) = tcb k" "current_regs (switch_context k) = current_regs k"
  "kernel.more (switch_context k) = kernel.more k"
  by (simp_all add: upd_tcb_def set_list_def switch_context_def)

lemma list_head_hd [simp]: "xs \<noteq> [] \<Longrightarrow> list_head xs = hd xs"
  by (cases xs) (simp_all add: list_head_def)

lemma list_head_Cons [simp]: "list_head (x # xs) = x"
  by (simp add: list_head_def)

lemma lists_okD: "lists_ok k \<Longrightarrow> tasks_ok (state_of k) (prio k) (tasklist k)"
  by (simp add: lists_ok_def)

lemma lists_ok_funs:
  "tasks_ok st pr L \<Longrightarrow> st = state_of k \<Longrightarrow> pr = prio k \<Longrightarrow> L = tasklist k \<Longrightarrow> lists_ok k"
  by (simp add: lists_ok_def)

lemma nonnull_tasks: "lists_ok k \<Longrightarrow> t \<in> set (tasklist k s) \<Longrightarrow> t \<noteq> NULL"
  using tasks_okD(2) [OF lists_okD, of k] tasks_okD(4) [OF lists_okD, of k t s] by (intro notI) auto

lemma flink_in_hd: "flink_in (x # xs) x = list_head xs"
  by (cases xs) (simp_all add: list_head_def)

lemma blink_in_notin: "t \<notin> set (tl xs) \<Longrightarrow> blink_in xs t = NULL"
  by (induction xs t rule: blink_in.induct) auto

lemma blink_in_NULL:
  "distinct xs \<Longrightarrow> NULL \<notin> set xs \<Longrightarrow> t \<in> set xs \<Longrightarrow> blink_in xs t = NULL \<longleftrightarrow> t = hd xs"
proof (induction xs t rule: blink_in.induct)
  case (1 x y xs t)
  then show ?case by (cases "y = t"; cases "x = t") (auto simp: blink_in_notin)
qed auto

lemma sched_removereadytorun_ok:
  assumes ok: "lists_ok k" and t: "t \<in> set (g_readytorun k)" "t \<noteq> last (g_readytorun k)"
  obtains k' where "sched_removereadytorun t k = Some (t = hd (g_readytorun k), k')"
    "lists_ok k'" "rest k' = rest k" "cpu k' = cpu k" "state_of k' t = TSTATE_TASK_INVALID"
    "tasklist k' = (tasklist k)(RTR := remove1 t (g_readytorun k))"
proof -
  note D = tasks_okD [OF lists_okD [OF ok]]
  let ?rs = "g_readytorun k"
  let ?st = "if t = hd ?rs then (state_of k)(hd (tl ?rs) := TSTATE_TASK_RUNNING) else state_of k"
  have R: "tasks_ok (?st(t := TSTATE_TASK_INVALID)) (prio k) ((tasklist k)(RTR := remove1 t ?rs))"
    using tasks_ok_remove_ready [OF lists_okD [OF ok] t] .
  have bl: "blink_in ?rs t = NULL \<longleftrightarrow> t = hd ?rs"
    using nonnull_tasks [OF ok] by (intro blink_in_NULL D(3) t(1)) auto
  define k1 where "k1 = (if t = hd ?rs then set_state (hd (tl ?rs)) TSTATE_TASK_RUNNING k else k)"
  define k' where "k' = set_state t TSTATE_TASK_INVALID (set_list RTR (remove1 t ?rs) k1)"
  have fl: "flink_in ?rs t = hd (tl ?rs) \<and> hd (tl ?rs) \<noteq> NULL" if "t = hd ?rs"
  proof -
    obtain x xs where rs: "?rs = x # xs" using D(1) by (cases ?rs) auto
    with t(2) that have "xs \<noteq> []" by auto
    then show ?thesis
      using rs that flink_in_hd [of x xs] nonnull_tasks [OF ok, of "hd xs" RTR] by simp
  qed
  have "sched_removereadytorun t k = Some (t = hd ?rs, k')"
    using fl by (auto simp: sched_removereadytorun_def bl k'_def k1_def)
  moreover have "lists_ok k'"
    by (rule lists_ok_funs [OF R]) (auto simp: k'_def k1_def fun_eq_iff)
  moreover have "rest k' = rest k" "cpu k' = cpu k" "state_of k' t = TSTATE_TASK_INVALID"
    "tasklist k' = (tasklist k)(RTR := remove1 t ?rs)"
    by (auto simp: k'_def k1_def)
  ultimately show thesis using that by blast
qed

lemma sched_addreadytorun_ok:
  assumes ok: "lists_ok k" and t: "state_of k t = TSTATE_TASK_INVALID" "t \<noteq> NULL" "1 \<le> prio k t" "prio k t \<le> 255"
  defines "lock \<equiv> lockcount (tcb k (hd (g_readytorun k))) \<noteq> 0 \<and> prio k (hd (g_readytorun k)) < prio k t"
  defines "s \<equiv> if lock then TSTATE_TASK_PENDING else RTR"
  obtains k' where "sched_addreadytorun t k = Some (\<not> lock \<and> prio k (hd (g_readytorun k)) < prio k t, k')"
    "lists_ok k'" "rest k' = rest k" "cpu k' = cpu k"
    "tasklist k' = (tasklist k)(s := prio_insert (prio k) t (tasklist k s))"
proof -
  note D = tasks_okD [OF lists_okD [OF ok]]
  let ?rs = "g_readytorun k"
  have nt: "t \<notin> set (tasklist k s)" for s using D(4) [of t s] t(1) by auto
  have h: "list_head ?rs = hd ?rs" using D(1) by simp
  show thesis
  proof (cases lock)
    case True
    define k' where "k' = set_state t TSTATE_TASK_PENDING
      (set_list TSTATE_TASK_PENDING (prio_insert (prio k) t (g_pendingtasks k)) k)"
    have "sched_addreadytorun t k = Some (False, k')"
      using True t(3) by (simp add: sched_addreadytorun_def add_prioritized_def h lock_def k'_def Let_def)
    moreover have "lists_ok k'"
      using tasks_ok_add_plain [OF lists_okD [OF ok], of TSTATE_TASK_PENDING t
          "prio_insert (prio k) t (g_pendingtasks k)"] t D(3) [of TSTATE_TASK_PENDING]
        D(6) [of TSTATE_TASK_PENDING] nt [of TSTATE_TASK_PENDING]
      by (intro lists_ok_funs [of _ _ _ k']) (auto simp: k'_def plain_list_def prio_sorted_insert fun_eq_iff)
    ultimately show thesis
      using that [of k'] True by (simp add: k'_def s_def)
  next
    case False
    let ?xs = "prio_insert (prio k) t ?rs"
    have R: "tasks_ok (if hd ?xs = t then (state_of k)(t := TSTATE_TASK_RUNNING, hd ?rs := RTR)
        else (state_of k)(t := RTR)) (prio k) ((tasklist k)(RTR := ?xs))"
      using tasks_ok_add_ready(1) [OF lists_okD [OF ok] t] .
    have hdt: "hd ?xs = t \<longleftrightarrow> prio k (hd ?rs) < prio k t"
      using prio_insert_head [of "prio k" t ?rs] D(1) nt [of RTR] by (auto split: if_splits)
    have xs: "?xs \<noteq> []" by (simp add: prio_insert_def)
    have nxt: "flink_in ?xs t = hd ?rs" if "hd ?xs = t"
    proof -
      have "?xs = t # ?rs"
        using hdt that D(1) by (cases ?rs) (auto simp: prio_insert_def)
      then show ?thesis using flink_in_hd [of t ?rs] D(1) by simp
    qed
    have hn: "hd ?rs \<noteq> NULL" "hd ?rs \<noteq> t"
      using nonnull_tasks [OF ok, of "hd ?rs" RTR] D(1) nt [of RTR] by auto
    define k' where "k' = (if hd ?xs = t
      then set_state (hd ?rs) RTR (set_state t TSTATE_TASK_RUNNING (set_list RTR ?xs k))
      else set_state t RTR (set_list RTR ?xs k))"
    have "sched_addreadytorun t k = Some (prio k (hd ?rs) < prio k t, k')"
      using False t(3) xs hn hdt
      by (auto simp: sched_addreadytorun_def add_prioritized_def h lock_def k'_def nxt Let_def)
    moreover have "lists_ok k'"
      using hn by (intro lists_ok_funs [OF R]) (auto simp: k'_def fun_eq_iff)
    ultimately show thesis
      using that [of k'] False by (auto simp: k'_def s_def)
  qed
qed


lemma sched_addblocked_ok:
  assumes ok: "lists_ok k" and s: "is_blocked_state s"
    and t: "state_of k t = TSTATE_TASK_INVALID" "t \<noteq> NULL" "1 \<le> prio k t" "prio k t \<le> 255"
  defines "xs \<equiv> if prioritized s then prio_insert (prio k) t (tasklist k s) else tasklist k s @ [t]"
  obtains k' where "sched_addblocked t s k = Some k'" "lists_ok k'" "rest k' = rest k" "cpu k' = cpu k"
    "tasklist k' = (tasklist k)(s := xs)" "state_of k' t = s"
proof -
  note D = tasks_okD [OF lists_okD [OF ok]]
  have nt: "t \<notin> set (tasklist k s)" using D(4) [of t s] t(1) by auto
  define k' where "k' = set_state t s (set_list s xs k)"
  have "sched_addblocked t s k = Some k'"
    using s t(3) by (auto simp: sched_addblocked_def add_prioritized_def k'_def xs_def Let_def)
  moreover have "plain_list s" using s by (auto simp: is_blocked_state_def plain_list_def)
  then have "tasks_ok ((state_of k)(t := s)) (prio k) ((tasklist k)(s := xs))"
    using nt D(3) [of s] D(6) [of s]
    by (intro tasks_ok_add_plain [OF lists_okD [OF ok] _ t]) (auto simp: xs_def prio_sorted_insert)
  then have "lists_ok k'"
    by (rule lists_ok_funs) (auto simp: k'_def fun_eq_iff)
  ultimately show thesis using that [of k'] by (simp add: k'_def)
qed

lemma sched_removeblocked_ok:
  assumes ok: "lists_ok k" and s: "is_blocked_state (state_of k t)"
  obtains k' where "sched_removeblocked t k = Some k'" "lists_ok k'" "rest k' = rest k" "cpu k' = cpu k"
    "tasklist k' = (tasklist k)(state_of k t := remove1 t (tasklist k (state_of k t)))"
    "state_of k' t = TSTATE_TASK_INVALID"
proof -
  let ?s = "state_of k t"
  define k' where "k' = set_state t TSTATE_TASK_INVALID (set_list ?s (remove1 t (tasklist k ?s)) k)"
  have "sched_removeblocked t k = Some k'"
    using s by (simp add: sched_removeblocked_def k'_def Let_def)
  moreover have "plain_list ?s" using s by (auto simp: is_blocked_state_def plain_list_def)
  then have "tasks_ok ((state_of k)(t := TSTATE_TASK_INVALID)) (prio k) ((tasklist k)(?s := remove1 t (tasklist k ?s)))"
    by (rule tasks_ok_remove_plain [OF lists_okD [OF ok]]) simp
  then have "lists_ok k'"
    by (rule lists_ok_funs) (auto simp: k'_def fun_eq_iff)
  ultimately show thesis using that [of k'] by (simp add: k'_def)
qed

lemma fold_insert_ne: "xs \<noteq> [] \<Longrightarrow> fold (prio_insert pr) ps xs \<noteq> []"
  by (induction ps arbitrary: xs) (auto simp: prio_insert_def)

lemma fold_insert_hd_mono: "xs \<noteq> [] \<Longrightarrow> pr (hd xs) \<le> pr (hd (fold (prio_insert pr) ps xs))"
proof (induction ps arbitrary: xs)
  case (Cons p ps)
  have "prio_insert pr p xs \<noteq> []" by (simp add: prio_insert_def)
  then have "pr (hd (prio_insert pr p xs)) \<le> pr (hd (fold (prio_insert pr) ps (prio_insert pr p xs)))"
    by (rule Cons.IH)
  moreover have "pr (hd xs) \<le> pr (hd (prio_insert pr p xs))" using Cons.prems by (simp add: prio_insert_head)
  ultimately show ?case by simp
qed simp

lemma set_fold_insert [simp]: "set (fold (prio_insert pr) ps xs) = set ps \<union> set xs"
  by (induction ps arbitrary: xs) auto

lemma merge_loop_ok:
  assumes "lists_ok (set_list TSTATE_TASK_PENDING ps k)"
  shows "\<exists>k'. merge_loop ps ret k = Some (ret \<or> hd (fold (prio_insert (prio k)) ps (g_readytorun k)) \<noteq> hd (g_readytorun k), k') \<and>
    lists_ok (set_list TSTATE_TASK_PENDING [] k') \<and> rest k' = rest k \<and> cpu k' = cpu k \<and>
    tasklist k' = (tasklist k)(RTR := fold (prio_insert (prio k)) ps (g_readytorun k))"
  using assms
proof (induction ps arbitrary: ret k)
  case Nil
  then show ?case by simp
next
  case (Cons p ps)
  let ?L = "(tasklist k)(TSTATE_TASK_PENDING := ps)" and ?rs = "g_readytorun k"
  let ?xs = "prio_insert (prio k) p ?rs"
  let ?st = "(state_of k)(p := TSTATE_TASK_INVALID)"
  have ok: "tasks_ok (state_of k) (prio k) ((tasklist k)(TSTATE_TASK_PENDING := p # ps))"
    using lists_okD [OF Cons.prems] by (simp cong: if_cong)
  note D = tasks_okD [OF ok]
  have sp: "state_of k p = TSTATE_TASK_PENDING" using D(4) [of p TSTATE_TASK_PENDING] by simp
  have rs: "?rs \<noteq> []" using D(1) by simp
  have pn: "p \<noteq> NULL" using sp D(2) by (intro notI) simp
  have pl: "p \<noteq> last ?rs" using D(4) [of p RTR] sp last_in_set [OF rs] by (intro notI) simp
  have pp: "1 \<le> prio k p" "prio k p \<le> 255" using D(8,9) [of p] sp pl by simp_all
  have hp: "hd ?rs \<noteq> p" using D(4) [of p RTR] sp hd_in_set [OF rs] by (intro notI) simp
  have ok1: "tasks_ok ?st (prio k) ?L"
    using tasks_ok_remove_plain [OF ok, of TSTATE_TASK_PENDING p] sp by (simp add: plain_list_def)
  have ok2: "tasks_ok (if hd ?xs = p then ?st(p := TSTATE_TASK_RUNNING, hd ?rs := RTR) else ?st(p := RTR))
      (prio k) (?L(RTR := ?xs))" and la: "last ?xs = last ?rs"
    using tasks_ok_add_ready [OF ok1, of p] pp pn by (simp_all split del: if_split cong: if_cong)
  define k1 where "k1 = (if hd ?xs = p
    then set_state p TSTATE_TASK_RUNNING (set_state (hd ?rs) RTR (set_list RTR ?xs k))
    else set_state p RTR (set_list RTR ?xs k))"
  have xs: "?xs \<noteq> []" by (simp add: prio_insert_def)
  have step: "merge_loop (p # ps) ret k = merge_loop ps (ret \<or> hd ?xs = p) k1"
    using pl la rs xs by (simp add: k1_def Let_def)
  have "lists_ok (set_list TSTATE_TASK_PENDING ps k1)"
    using hp by (intro lists_ok_funs [OF ok2]) (auto simp: k1_def fun_eq_iff)
  moreover have pr1: "prio k1 = prio k" by (auto simp: k1_def fun_eq_iff)
  moreover have L1: "tasklist k1 = (tasklist k)(RTR := ?xs)" by (auto simp: k1_def)
  moreover have "rest k1 = rest k" "cpu k1 = cpu k" by (auto simp: k1_def)
  ultimately obtain k' where k': "merge_loop ps (ret \<or> hd ?xs = p) k1 = Some ((ret \<or> hd ?xs = p) \<or>
      hd (fold (prio_insert (prio k)) ps ?xs) \<noteq> hd ?xs, k')"
    "lists_ok (set_list TSTATE_TASK_PENDING [] k')" "rest k' = rest k" "cpu k' = cpu k"
    "tasklist k' = (tasklist k)(RTR := fold (prio_insert (prio k)) ps ?xs)"
    using Cons.IH [of k1 "ret \<or> hd ?xs = p"] by (auto simp: fun_upd_def cong: if_cong)
  have "(hd ?xs = p \<or> hd (fold (prio_insert (prio k)) ps ?xs) \<noteq> hd ?xs) \<longleftrightarrow>
      hd (fold (prio_insert (prio k)) ps ?xs) \<noteq> hd ?rs"
  proof (cases "hd ?xs = p")
    case True
    then have "prio k (hd ?rs) < prio k p" using hp rs by (auto simp: prio_insert_head split: if_splits)
    also have "\<dots> \<le> prio k (hd (fold (prio_insert (prio k)) ps ?xs))"
      using fold_insert_hd_mono [OF xs, of "prio k" ps] True by simp
    finally show ?thesis using True by auto
  next
    case False
    then have "hd ?xs = hd ?rs" by (auto simp: prio_insert_head split: if_splits)
    with hp show ?thesis by simp
  qed
  then have "merge_loop (p # ps) ret k = Some (ret \<or> hd (fold (prio_insert (prio k)) (p # ps) ?rs) \<noteq> hd ?rs, k')"
    using step k'(1) by auto
  then show ?case using k'(2-5) by auto
qed

lemma merge_pending_ok:
  assumes ok: "lists_ok k"
  defines "rs \<equiv> fold (prio_insert (prio k)) (g_pendingtasks k) (g_readytorun k)"
  obtains k' where "merge_pending k = Some (hd rs \<noteq> hd (g_readytorun k), k')"
    "lists_ok k'" "rest k' = rest k" "cpu k' = cpu k"
    "tasklist k' = (tasklist k)(RTR := rs, TSTATE_TASK_PENDING := [])"
proof -
  have "lists_ok (set_list TSTATE_TASK_PENDING (g_pendingtasks k) k)"
    using ok by (simp add: lists_ok_def)
  from merge_loop_ok [OF this, of False] obtain k1 where
    k1: "merge_loop (g_pendingtasks k) False k = Some (hd rs \<noteq> hd (g_readytorun k), k1)"
    "lists_ok (set_list TSTATE_TASK_PENDING [] k1)" "rest k1 = rest k" "cpu k1 = cpu k"
    "tasklist k1 = (tasklist k)(RTR := rs)"
    by (auto simp: rs_def)
  show thesis
    by (rule that [of "set_list TSTATE_TASK_PENDING [] k1"]) (use k1 in \<open>simp_all add: merge_pending_def\<close>)
qed

end
