(* ===== verification/Sched_Ops.thy ===== *)
theory Sched_Ops
  imports Sched_Inv
begin

section \<open>The operations of the scheduler\<close>

text \<open>
  Each operation of \<open>Sched\<close>, started in a state that satisfies \<open>sched_ok\<close>, returns (no assertion
  fails and no NULL pointer is followed), re-establishes \<open>sched_ok\<close>, and changes the lists, the
  states and the priorities as described.
\<close>

lemma sched_okD:
  assumes "sched_ok k"
  shows "lists_ok k" and "cpu k = hd (g_readytorun k)" and "g_readytorun k \<noteq> []"
    and "g_pendingtasks k \<noteq> [] \<Longrightarrow> lockcount (tcb k (hd (g_readytorun k))) > 0"
  using assms tasks_okD(1) [OF lists_okD] by (auto simp: sched_ok_def)

lemma lists_ok_upd_tcb:
  assumes "\<And>c. task_state (f c) = task_state c" and "\<And>c. sched_priority (f c) = sched_priority c"
  shows "lists_ok (upd_tcb t f k) = lists_ok k"
proof -
  have "state_of (upd_tcb t f k) = state_of k" "prio (upd_tcb t f k) = prio k"
    using assms by (auto simp: fun_eq_iff)
  then show ?thesis unfolding lists_ok_def by simp
qed

lemma ready_iff: "lists_ok k \<Longrightarrow> t \<in> set (g_readytorun k) \<longleftrightarrow> is_ready_state (state_of k t)"
  using tasks_okD(4) [OF lists_okD, of k t RTR] by (simp add: is_ready_state_def)

lemma running_iff: "lists_ok k \<Longrightarrow> state_of k t = TSTATE_TASK_RUNNING \<longleftrightarrow> t = hd (g_readytorun k)"
  using tasks_okD(5) [OF lists_okD] .

lemma task_prio:
  assumes "lists_ok k" and "state_of k t \<noteq> TSTATE_TASK_INVALID" and "t \<noteq> last (g_readytorun k)"
  shows "1 \<le> prio k t" and "prio k t \<le> 255"
  using tasks_okD(8,9) [OF lists_okD [OF assms(1)] assms(2,3)] .

lemma task_nonnull: "lists_ok k \<Longrightarrow> state_of k t \<noteq> TSTATE_TASK_INVALID \<Longrightarrow> t \<noteq> NULL"
  using tasks_okD(2) [OF lists_okD, of k] by (intro notI) simp

lemma not_idle:
  assumes "lists_ok k" and "\<not> is_ready_state (state_of k t)"
  shows "t \<noteq> last (g_readytorun k)"
  using assms ready_iff [OF assms(1), of t] last_in_set [OF tasks_okD(1) [OF lists_okD [OF assms(1)]]] by auto

lemma state_by_list:
  assumes "lists_ok k" and "t \<in> set (tasklist k s)" and "plain_list s"
  shows "state_of k t = s"
  using tasks_okD(4) [OF lists_okD [OF assms(1)], of t s] assms(2,3)
  by (cases "state_of k t") (auto simp: plain_list_def)

lemma blocked_in_list: "lists_ok k \<Longrightarrow> is_blocked_state s \<Longrightarrow> t \<in> set (tasklist k s) \<longleftrightarrow> state_of k t = s"
  using tasks_okD(4) [OF lists_okD, of k t s] state_by_list [of k t s]
  by (auto simp: is_blocked_state_def plain_list_def)

lemma blocked_plain: "is_blocked_state s \<Longrightarrow> plain_list s \<and> s \<noteq> TSTATE_TASK_PENDING"
  by (auto simp: is_blocked_state_def plain_list_def)

lemma head_max_prio:
  assumes "lists_ok k" and "t \<in> set (g_readytorun k)"
  shows "prio k t \<le> prio k (hd (g_readytorun k))"
  using prio_sorted_hd [OF tasks_okD(6) [OF lists_okD [OF assms(1)], of RTR] assms(2)] by simp

subsection \<open>Blocking and unblocking\<close>

theorem up_block_task_ok:
  assumes ok: "sched_ok k" and t: "t \<in> set (g_readytorun k)" "t \<noteq> last (g_readytorun k)" and s: "is_blocked_state s"
  defines "ws \<equiv> if prioritized s then prio_insert (prio k) t (tasklist k s) else tasklist k s @ [t]"
  obtains k' where "up_block_task t s k = Some k'" "sched_ok k'" "rest k' = rest k" "state_of k' t = s"
    "tasklist k' = (tasklist k)(s := ws, TSTATE_TASK_PENDING := [],
       RTR := fold (prio_insert (prio k)) (g_pendingtasks k) (remove1 t (g_readytorun k)))"
proof -
  note L = sched_okD(1) [OF ok]
  have st: "is_ready_state (state_of k t)" "state_of k t \<noteq> TSTATE_TASK_INVALID"
    using ready_iff [OF L, of t] t(1) by (auto simp: is_ready_state_def)
  obtain k1 where k1: "sched_removereadytorun t k = Some (t = hd (g_readytorun k), k1)" "lists_ok k1"
    "rest k1 = rest k" "cpu k1 = cpu k" "state_of k1 t = TSTATE_TASK_INVALID"
    "tasklist k1 = (tasklist k)(RTR := remove1 t (g_readytorun k))"
    using sched_removereadytorun_ok [OF L t] by blast
  note r1 = rest_eqD [OF k1(3)]
  have pk1: "prio k1 = prio k" using r1(1) by auto
  have ws1: "ws = (if prioritized s then prio_insert (prio k1) t (tasklist k1 s) else tasklist k1 s @ [t])"
    using blocked_plain [OF s] k1(6) pk1 by (auto simp: ws_def plain_list_def)
  have pr1: "1 \<le> prio k1 t" "prio k1 t \<le> 255" using task_prio [OF L st(2) t(2)] r1(1) by simp_all
  obtain k2 where k2: "sched_addblocked t s k1 = Some k2" "lists_ok k2" "rest k2 = rest k1" "cpu k2 = cpu k1"
    "tasklist k2 = (tasklist k1)(s := ws)" "state_of k2 t = s"
    using sched_addblocked_ok [OF k1(2) s k1(5) task_nonnull [OF L st(2)] pr1] unfolding ws1 by blast
  have pk2: "prio k2 = prio k" using rest_eqD(1) [OF k2(3)] pk1 by auto
  have L2: "g_readytorun k2 = remove1 t (g_readytorun k)" "g_pendingtasks k2 = g_pendingtasks k"
    using k2(5) k1(6) blocked_plain [OF s] by (auto simp: plain_list_def)
  let ?rs = "fold (prio_insert (prio k)) (g_pendingtasks k) (remove1 t (g_readytorun k))"
  have hd1: "t = hd (g_readytorun k) \<or> hd (g_readytorun k) = hd (remove1 t (g_readytorun k))"
    using sched_okD(3) [OF ok] by (cases "g_readytorun k") auto
  obtain k3 b where k3: "(if g_pendingtasks k2 \<noteq> []
       then do { (b, k') \<leftarrow> merge_pending k2; Some (t = hd (g_readytorun k) \<or> b, k') }
       else Some (t = hd (g_readytorun k), k2)) = Some (b, k3)" "b \<or> cpu k = hd ?rs"
    "lists_ok k3" "rest k3 = rest k" "cpu k3 = cpu k"
    "tasklist k3 = (tasklist k)(s := ws, TSTATE_TASK_PENDING := [], RTR := ?rs)"
  proof (cases "g_pendingtasks k = []")
    case True
    then have "tasklist k2 = (tasklist k)(s := ws, TSTATE_TASK_PENDING := [], RTR := ?rs)"
      using k2(5) k1(6) blocked_plain [OF s] by (auto simp: fun_eq_iff plain_list_def)
    with True show thesis
      using that [of "t = hd (g_readytorun k)" k2] k1(3,4) k2(2-4) L2(2) hd1 sched_okD(2) [OF ok] by auto
  next
    case False
    obtain k3 where k3: "merge_pending k2 = Some (hd ?rs \<noteq> hd (remove1 t (g_readytorun k)), k3)" "lists_ok k3"
      "rest k3 = rest k2" "cpu k3 = cpu k2" "tasklist k3 = (tasklist k2)(RTR := ?rs, TSTATE_TASK_PENDING := [])"
      using merge_pending_ok [OF k2(2)] unfolding L2 pk2 by blast
    have "tasklist k3 = (tasklist k)(s := ws, TSTATE_TASK_PENDING := [], RTR := ?rs)"
      using k3(5) k2(5) k1(6) blocked_plain [OF s] by (auto simp: fun_eq_iff plain_list_def)
    with False show thesis
      using that [of "t = hd (g_readytorun k) \<or> hd ?rs \<noteq> hd (remove1 t (g_readytorun k))" k3]
        k1(3,4) k2(3,4) k3(1-4) L2(2) hd1 sched_okD(2) [OF ok] by auto
  qed
  have run: "up_block_task t s k = Some (if b then switch_context k3 else k3)"
    using st(1) k1(1) k2(1) k3(1) unfolding up_block_task_def by simp
  have ne: "?rs \<noteq> []" using tasks_okD(1) [OF lists_okD [OF k3(3)]] k3(6) by simp
  let ?k = "if b then switch_context k3 else k3"
  have L': "lists_ok ?k" using k3(3) by (simp add: lists_ok_def)
  have "sched_ok ?k"
    using L' k3 ne by (auto simp: sched_ok_def)
  moreover have "state_of ?k t = s"
    by (rule state_by_list [OF L']) (use k3(6) blocked_plain [OF s] in \<open>auto simp: ws_def plain_list_def\<close>)
  ultimately show thesis
    using that [of ?k] run k3 by auto
qed

definition ready_list :: "'z kernel_scheme \<Rightarrow> addr \<Rightarrow> tstate" where
  "ready_list k t = (if lockcount (tcb k (hd (g_readytorun k))) \<noteq> 0 \<and> prio k (hd (g_readytorun k)) < prio k t
                     then TSTATE_TASK_PENDING else RTR)"

lemma hd_insert_iff:
  assumes "lists_ok k" and "state_of k t = TSTATE_TASK_INVALID"
  shows "hd (prio_insert (prio k) t (g_readytorun k)) = t \<longleftrightarrow> prio k (hd (g_readytorun k)) < prio k t"
    and "\<not> prio k (hd (g_readytorun k)) < prio k t \<Longrightarrow> hd (prio_insert (prio k) t (g_readytorun k)) = hd (g_readytorun k)"
  using prio_insert_head [of "prio k" t "g_readytorun k"] tasks_okD(1) [OF lists_okD [OF assms(1)]] ready_iff [OF assms(1), of t] assms(2)
  by (auto simp: is_ready_state_def split: if_splits)

lemma sched_addreadytorun_ready_list:
  assumes ok: "lists_ok k" and t: "state_of k t = TSTATE_TASK_INVALID" "t \<noteq> NULL" "1 \<le> prio k t" "prio k t \<le> 255"
  obtains k' where "sched_addreadytorun t k = Some (hd (g_readytorun k') \<noteq> hd (g_readytorun k), k')"
    "lists_ok k'" "rest k' = rest k" "cpu k' = cpu k"
    "tasklist k' = (tasklist k)(ready_list k t := prio_insert (prio k) t (tasklist k (ready_list k t)))"
proof -
  obtain k' where k': "sched_addreadytorun t k =
      Some (\<not> (lockcount (tcb k (hd (g_readytorun k))) \<noteq> 0 \<and> prio k (hd (g_readytorun k)) < prio k t) \<and> prio k (hd (g_readytorun k)) < prio k t, k')"
    "lists_ok k'" "rest k' = rest k" "cpu k' = cpu k"
    "tasklist k' = (tasklist k)(ready_list k t := prio_insert (prio k) t (tasklist k (ready_list k t)))"
    using sched_addreadytorun_ok [OF ok t] unfolding ready_list_def by blast
  have ht: "t \<noteq> hd (g_readytorun k)"
    using running_iff [OF ok, of t] t(1) by auto
  have "hd (g_readytorun k') \<noteq> hd (g_readytorun k) \<longleftrightarrow>
      \<not> (lockcount (tcb k (hd (g_readytorun k))) \<noteq> 0 \<and> prio k (hd (g_readytorun k)) < prio k t) \<and> prio k (hd (g_readytorun k)) < prio k t"
    using hd_insert_iff [OF ok t(1)] ht k'(5) by (auto simp: ready_list_def)
  with k' that show thesis by simp
qed

theorem up_unblock_task_ok:
  assumes ok: "sched_ok k" and t: "is_blocked_state (state_of k t)"
  obtains k' where "up_unblock_task t k = Some k'" "sched_ok k'" "rest k' = rest k"
    "tasklist k' = (tasklist k)(state_of k t := remove1 t (tasklist k (state_of k t)),
       ready_list k t := prio_insert (prio k) t (tasklist k (ready_list k t)))"
proof -
  note L = sched_okD(1) [OF ok]
  have st: "state_of k t \<noteq> TSTATE_TASK_INVALID" "t \<noteq> last (g_readytorun k)"
    using t not_idle [OF L, of t] by (auto simp: is_blocked_state_def is_ready_state_def)
  obtain k1 where k1: "sched_removeblocked t k = Some k1" "lists_ok k1" "rest k1 = rest k" "cpu k1 = cpu k"
    "tasklist k1 = (tasklist k)(state_of k t := remove1 t (tasklist k (state_of k t)))" "state_of k1 t = TSTATE_TASK_INVALID"
    by (rule sched_removeblocked_ok [OF L t])
  define k2 where "k2 = upd_tcb t (timeslice_update (\<lambda>_. RR_TICKS)) k1"
  have k2: "lists_ok k2" "rest k2 = rest k" "cpu k2 = cpu k" "tasklist k2 = tasklist k1" "state_of k2 t = TSTATE_TASK_INVALID"
    using k1 by (auto simp: k2_def lists_ok_upd_tcb)
  have pk: "prio k2 = prio k" using rest_eqD(1) [OF k2(2)] by auto
  have rl: "ready_list k2 t = ready_list k t" "g_readytorun k2 = g_readytorun k"
    "tasklist k2 (ready_list k t) = tasklist k (ready_list k t)"
    using k2(4) k1(5) blocked_plain [OF t] rest_eqD(1,2) [OF k2(2)] by (auto simp: ready_list_def plain_list_def)
  have pr2: "1 \<le> prio k2 t" "prio k2 t \<le> 255"
    using task_prio [OF L st] rest_eqD(1) [OF k2(2)] by simp_all
  obtain k3 where k3: "sched_addreadytorun t k2 = Some (hd (g_readytorun k3) \<noteq> hd (g_readytorun k2), k3)" "lists_ok k3"
    "rest k3 = rest k2" "cpu k3 = cpu k2"
    "tasklist k3 = (tasklist k2)(ready_list k2 t := prio_insert (prio k2) t (tasklist k2 (ready_list k2 t)))"
    using sched_addreadytorun_ready_list [OF k2(1,5) task_nonnull [OF L st(1)] pr2] by blast
  let ?k = "if hd (g_readytorun k3) \<noteq> hd (g_readytorun k2) then switch_context k3 else k3"
  have "up_unblock_task t k = Some ?k"
    using t k1(1) k3(1) unfolding up_unblock_task_def by (simp add: k2_def)
  moreover have "sched_ok ?k"
  proof -
    have hl: "hd (g_readytorun k3) = hd (g_readytorun k) \<and> lockcount (tcb k3 (hd (g_readytorun k))) > 0" if "g_pendingtasks k3 \<noteq> []"
    proof (cases "ready_list k t = RTR")
      case True
      then have p: "g_pendingtasks k \<noteq> []"
        using that k3(5) k2(4) k1(5) rl(1) blocked_plain [OF t] by (auto split: if_splits)
      then have "\<not> prio k (hd (g_readytorun k)) < prio k t"
        using True sched_okD(4) [OF ok] by (auto simp: ready_list_def)
      then show ?thesis
        using hd_insert_iff(2) [OF k2(1,5)] rest_eqD(1) [OF k2(2)] pk rl True k3(5) sched_okD(4) [OF ok p] rest_eqD(2) [OF k3(3)] rest_eqD(2) [OF k2(2)] by auto
    next
      case False
      then show ?thesis
        using k3(5) rl rest_eqD(2) [OF k3(3)] rest_eqD(2) [OF k2(2)] by (auto simp: ready_list_def split: if_splits)
    qed
    have "lists_ok ?k" using k3(2) by (simp add: lists_ok_def)
    then show ?thesis
      using k3(2,4) k2(3) hl rl(2) sched_okD(2) [OF ok] tasks_okD(1) [OF lists_okD [OF k3(2)]] by (auto simp: sched_ok_def)
  qed
  moreover have "rest ?k = rest k" using k3(3) k2(2) by simp
  moreover have "tasklist ?k = (tasklist k)(state_of k t := remove1 t (tasklist k (state_of k t)),
       ready_list k t := prio_insert (prio k) t (tasklist k (ready_list k t)))"
    using k3(5) k2(4) k1(5) rl pk by simp
  ultimately show thesis by (rule that)
qed

subsection \<open>Changing a priority\<close>

lemma prio_set_prio: "prio (set_prio t p k) = (prio k)(t := p)"
  by (auto simp: fun_eq_iff)

lemma rest_set_prio: "rest k1 = rest k \<Longrightarrow> rest (set_prio t p k1) = rest (set_prio t p k)"
proof -
  assume r: "rest k1 = rest k"
  have "(tcb k1 u)\<lparr>task_state := TSTATE_TASK_INVALID, timeslice := 0\<rparr> = (tcb k u)\<lparr>task_state := TSTATE_TASK_INVALID, timeslice := 0\<rparr>" for u
    using r by (simp add: rest_def fun_eq_iff)
  from this [of t, THEN arg_cong, of "sched_priority_update (\<lambda>_. p)"]
  have "(tcb k1 t)\<lparr>sched_priority := p, task_state := TSTATE_TASK_INVALID, timeslice := 0\<rparr> =
    (tcb k t)\<lparr>sched_priority := p, task_state := TSTATE_TASK_INVALID, timeslice := 0\<rparr>"
    by (cases "tcb k1 t"; cases "tcb k t") simp
  with r show ?thesis by (auto simp: rest_def upd_tcb_def fun_eq_iff)
qed

lemma lists_ok_set_prio:
  assumes "lists_ok k" "t \<noteq> last (g_readytorun k)" "1 \<le> p" "p \<le> 255"
    and "\<And>s. prioritized s \<Longrightarrow> t \<in> set (tasklist k s) \<Longrightarrow> prio_sorted ((prio k)(t := p)) (tasklist k s)"
  shows "lists_ok (set_prio t p k)"
  by (rule lists_ok_funs [OF tasks_ok_prio [OF lists_okD [OF assms(1)] assms(2-5)]])
     (auto simp: fun_eq_iff)

definition same_waiters :: "'z kernel_scheme \<Rightarrow> 'z kernel_scheme \<Rightarrow> bool" where
  "same_waiters k k' \<longleftrightarrow> (\<forall>s. is_blocked_state s \<longrightarrow> set (tasklist k' s) = set (tasklist k s)) \<and>
     set (g_readytorun k') \<union> set (g_pendingtasks k') = set (g_readytorun k) \<union> set (g_pendingtasks k)"

lemma same_waitersI: "(\<And>s. plain_list s \<Longrightarrow> s \<noteq> TSTATE_TASK_PENDING \<Longrightarrow> set (tasklist k' s) = set (tasklist k s)) \<Longrightarrow>
    set (g_readytorun k') \<union> set (g_pendingtasks k') = set (g_readytorun k) \<union> set (g_pendingtasks k) \<Longrightarrow> same_waiters k k'"
  using blocked_plain by (auto simp: same_waiters_def)

text \<open>Reinserting a ready task, the common part of the operations.\<close>

lemma reinsert_ok:
  assumes L: "lists_ok k" and t: "t \<in> set (g_readytorun k)" "t \<noteq> last (g_readytorun k)" and p: "1 \<le> p" "p \<le> 255"
  obtains k1 k2 where "sched_removereadytorun t k = Some (t = hd (g_readytorun k), k1)"
    "sched_addreadytorun t (set_prio t p k1) = Some (hd (g_readytorun k2) \<noteq> hd (remove1 t (g_readytorun k)), k2)"
    "lists_ok k2" "rest k2 = rest (set_prio t p k)" "cpu k2 = cpu k"
    "(let rs = remove1 t (g_readytorun k); h = hd rs;
          s = (if lockcount (tcb k h) \<noteq> 0 \<and> prio k h < p then TSTATE_TASK_PENDING else RTR);
          L = (tasklist k)(RTR := rs)
      in tasklist k2 = L(s := prio_insert ((prio k)(t := p)) t (L s)))"
    "remove1 t (g_readytorun k) \<noteq> []" "hd (remove1 t (g_readytorun k)) \<noteq> t"
proof -
  obtain k1 where k1: "sched_removereadytorun t k = Some (t = hd (g_readytorun k), k1)" "lists_ok k1"
    "rest k1 = rest k" "cpu k1 = cpu k" "state_of k1 t = TSTATE_TASK_INVALID"
    "tasklist k1 = (tasklist k)(RTR := remove1 t (g_readytorun k))"
    using sched_removereadytorun_ok [OF L t] by blast
  let ?rs = "remove1 t (g_readytorun k)" and ?k1 = "set_prio t p k1"
  have ne: "?rs \<noteq> []" using tasks_okD(1) [OF lists_okD [OF k1(2)]] k1(6) by simp
  have dist: "distinct (g_readytorun k)" using tasks_okD(3) [OF lists_okD [OF L]] .
  have nt: "t \<notin> set (tasklist k1 s)" for s
    using tasks_okD(4) [OF lists_okD [OF k1(2)], of t s] k1(5) by auto
  have ht: "hd ?rs \<noteq> t" using nt [of RTR] k1(6) hd_in_set [OF ne] by auto
  have lt: "t \<noteq> last (g_readytorun k1)"
    using nt [of RTR] last_in_set [OF ne] k1(6) by auto
  have L1: "lists_ok ?k1"
    by (rule lists_ok_set_prio [OF k1(2) lt p]) (use nt in blast)
  have st: "state_of ?k1 t = TSTATE_TASK_INVALID" "1 \<le> prio ?k1 t" "prio ?k1 t \<le> 255" using k1(5) p by simp_all
  have nn: "t \<noteq> NULL" using nonnull_tasks [OF L t(1)] .
  obtain k2 where k2: "sched_addreadytorun t ?k1 = Some (hd (g_readytorun k2) \<noteq> hd (g_readytorun ?k1), k2)"
    "lists_ok k2" "rest k2 = rest ?k1" "cpu k2 = cpu ?k1"
    "tasklist k2 = (tasklist ?k1)(ready_list ?k1 t := prio_insert (prio ?k1) t (tasklist ?k1 (ready_list ?k1 t)))"
    using sched_addreadytorun_ready_list [OF L1 st(1) nn st(2,3)] by blast
  have rl: "ready_list ?k1 t = (if lockcount (tcb k (hd ?rs)) \<noteq> 0 \<and> prio k (hd ?rs) < p then TSTATE_TASK_PENDING else RTR)"
    using k1(6) rest_eqD(1,2) [OF k1(3)] ht by (simp add: ready_list_def)
  have pr1: "prio ?k1 = (prio k)(t := p)" using rest_eqD(1) [OF k1(3)] by (auto simp: fun_eq_iff)
  show thesis
  proof (rule that)
    show "sched_removereadytorun t k = Some (t = hd (g_readytorun k), k1)" by fact
    show "sched_addreadytorun t ?k1 = Some (hd (g_readytorun k2) \<noteq> hd ?rs, k2)" using k2(1) k1(6) by simp
    show "rest k2 = rest (set_prio t p k)" using k2(3) rest_set_prio [OF k1(3)] by simp
    show "cpu k2 = cpu k" using k2(4) k1(4) by simp
    have "tasklist ?k1 = (tasklist k)(RTR := ?rs)" using k1(6) by simp
    then show "let rs = ?rs; h = hd rs;
          s = (if lockcount (tcb k h) \<noteq> 0 \<and> prio k h < p then TSTATE_TASK_PENDING else RTR);
          L = (tasklist k)(RTR := rs)
      in tasklist k2 = L(s := prio_insert ((prio k)(t := p)) t (L s))"
      using k2(5) unfolding Let_def rl pr1 by simp
  qed (fact k2 ne ht)+
qed

theorem up_reprioritize_rtr_ok:
  assumes ok: "sched_ok k" and t: "t \<in> set (g_readytorun k)" "t \<noteq> last (g_readytorun k)" and p: "1 \<le> p" "p \<le> 255"
  obtains k' where "up_reprioritize_rtr t p k = Some k'" "sched_ok k'" "rest k' = rest (set_prio t p k)"
    "same_waiters k k'"
    "t = hd (g_readytorun k) \<Longrightarrow> p \<le> prio k (hd (tl (g_readytorun k))) \<Longrightarrow>
       tasklist k' = (tasklist k)(TSTATE_TASK_PENDING := [], RTR := fold (prio_insert ((prio k)(t := p))) (g_pendingtasks k)
         (prio_insert ((prio k)(t := p)) t (tl (g_readytorun k))))"
proof -
  note L = sched_okD(1) [OF ok]
  let ?rs = "g_readytorun k" and ?pr = "(prio k)(t := p)"
  let ?r1 = "remove1 t ?rs"
  let ?s = "if lockcount (tcb k (hd ?r1)) \<noteq> 0 \<and> prio k (hd ?r1) < p then TSTATE_TASK_PENDING else RTR"
  obtain k1 k2 where k1: "sched_removereadytorun t k = Some (t = hd ?rs, k1)"
    and k2: "sched_addreadytorun t (set_prio t p k1) = Some (hd (g_readytorun k2) \<noteq> hd ?r1, k2)"
    "lists_ok k2" "rest k2 = rest (set_prio t p k)" "cpu k2 = cpu k"
    and T2: "tasklist k2 = (tasklist k)(RTR := ?r1, ?s := prio_insert ?pr t (((tasklist k)(RTR := ?r1)) ?s))"
    and r1: "?r1 \<noteq> []" "hd ?r1 \<noteq> t"
    using reinsert_ok [OF L t p] unfolding Let_def by blast
  have st: "is_ready_state (state_of k t)" using ready_iff [OF L] t(1) by simp
  have r1': "t = hd ?rs \<or> hd ?r1 = hd ?rs" "t = hd ?rs \<Longrightarrow> ?r1 = tl ?rs" using sched_okD(3) [OF ok] by (cases ?rs; auto)+
  have pk2: "prio k2 = ?pr" using rest_eqD(1) [OF k2(3)] by (auto simp: fun_eq_iff)
  have lock2: "lockcount (tcb k2 u) = lockcount (tcb k u)" for u using rest_eqD(2) [OF k2(3), of u] by (cases "u = t") auto
  have h2: "hd (g_readytorun k2) = (if ?s = RTR \<and> prio k (hd ?r1) < p then t else hd ?r1)"
    using r1 by (auto simp: T2 prio_insert_head)
  have sr: "set ?rs = insert t (set ?r1)" using t(1) tasks_okD(3) [OF lists_okD [OF L], of RTR] by auto
  have w2: "same_waiters k k2"
    by (rule same_waitersI) (auto simp: T2 plain_list_def sr)
  let ?b1 = "t = hd ?rs" and ?b2 = "hd (g_readytorun k2) \<noteq> hd ?r1"
  have run: "up_reprioritize_rtr t p k = (if ?b1 \<noteq> ?b2
      then do { k \<leftarrow> (if g_pendingtasks k2 \<noteq> [] then map_option snd (merge_pending k2) else Some k2); Some (switch_context k) }
      else Some k2)"
    using st p k1 k2(1) unfolding up_reprioritize_rtr_def by simp
  show thesis
  proof (cases "?b1 = ?b2")
    case True
    have hd2: "hd (g_readytorun k2) = hd ?rs"
    proof (cases ?b1)
      case b1: True
      with True have "hd (g_readytorun k2) = t" unfolding h2 by presburger
      with b1 show ?thesis by simp
    next
      case False
      with True r1'(1) show ?thesis by simp
    qed
    have "lockcount (tcb k2 (hd ?rs)) > 0" if pend: "g_pendingtasks k2 \<noteq> []"
    proof (cases "g_pendingtasks k = []")
      case True
      then have "?s \<noteq> RTR" using pend T2 by (auto split: if_splits)
      moreover from this have "hd (g_readytorun k2) = hd ?r1" using h2 by auto
      ultimately show ?thesis using lock2 hd2 by (auto split: if_splits)
    next
      case False
      then show ?thesis using sched_okD(4) [OF ok] lock2 by simp
    qed
    then have "sched_ok k2" using k2(2,4) hd2 sched_okD(2) [OF ok] by (auto simp: sched_ok_def)
    moreover have "\<not> p \<le> prio k (hd (tl ?rs))" if "t = hd ?rs"
    proof -
      have "prio k (hd ?r1) < p" using True that h2 by presburger
      with r1'(2) [OF that] show ?thesis by simp
    qed
    ultimately show thesis using that [of k2] True run k2 w2 by auto
  next
    case False
    define rs' where "rs' = fold (prio_insert ?pr) (g_pendingtasks k2) (g_readytorun k2)"
    obtain k3 where k3: "(if g_pendingtasks k2 \<noteq> [] then map_option snd (merge_pending k2) else Some k2) = Some k3"
      "lists_ok k3" "rest k3 = rest k2" "tasklist k3 = (tasklist k2)(RTR := rs', TSTATE_TASK_PENDING := [])"
    proof (cases "g_pendingtasks k2 = []")
      case True
      then have "tasklist k2 = (tasklist k2)(RTR := rs', TSTATE_TASK_PENDING := [])" by (auto simp: rs'_def fun_eq_iff)
      then show thesis using that [of k2] True k2(2) by simp
    next
      case False
      obtain k3 where "merge_pending k2 = Some (hd rs' \<noteq> hd (g_readytorun k2), k3)" "lists_ok k3" "rest k3 = rest k2"
        "tasklist k3 = (tasklist k2)(RTR := rs', TSTATE_TASK_PENDING := [])"
        using merge_pending_ok [OF k2(2)] unfolding rs'_def pk2 by blast
      then show thesis using that [of k3] False by simp
    qed
    have L3: "lists_ok (switch_context k3)" using k3(2) by (simp add: lists_ok_def)
    have "up_reprioritize_rtr t p k = Some (switch_context k3)"
      using False run k3(1) by simp
    moreover have "sched_ok (switch_context k3)"
      using L3 tasks_okD(1) [OF lists_okD [OF L3]] k3(4) by (auto simp: sched_ok_def)
    moreover have "same_waiters k (switch_context k3)"
      by (rule same_waitersI) (auto simp: k3(4) rs'_def T2 plain_list_def sr)
    moreover have "tasklist k3 = (tasklist k)(TSTATE_TASK_PENDING := [], RTR := fold (prio_insert ?pr) (g_pendingtasks k)
         (prio_insert ?pr t (tl ?rs)))" if "t = hd ?rs" "p \<le> prio k (hd (tl ?rs))"
    proof -
      have "?s = RTR" "?r1 = tl ?rs" using that r1' by auto
      then have "g_readytorun k2 = prio_insert ?pr t (tl ?rs)" "g_pendingtasks k2 = g_pendingtasks k"
        using T2 by simp_all
      then show ?thesis unfolding k3(4) rs'_def T2 using \<open>?s = RTR\<close> by (auto simp: fun_eq_iff)
    qed
    ultimately show thesis using that [of "switch_context k3"] k2(3) k3(3) by simp
  qed
qed

lemma sched_ok_upd_tcb:
  assumes "\<And>c. task_state (f c) = task_state c" and "\<And>c. sched_priority (f c) = sched_priority c"
    and "\<And>c. lockcount (f c) = lockcount c"
  shows "sched_ok (upd_tcb t f k) = sched_ok k"
  using lists_ok_upd_tcb [of f t k] assms by (simp add: sched_ok_def)

lemma sched_ok_set_errno [simp]: "sched_ok (set_errno e k) = sched_ok k"
proof (cases "\<not> current_regs k \<and> state_of k (list_head (g_readytorun k)) = TSTATE_TASK_RUNNING")
  case True
  then show ?thesis
    using sched_ok_upd_tcb [of "pterrno_update (\<lambda>_. e)" "list_head (g_readytorun k)" k] by (simp add: set_errno_def Let_def)
next
  case False
  then show ?thesis by (auto simp: set_errno_def Let_def sched_ok_def lists_ok_def)
qed

lemma sched_setpriority_error:
  "p < 1 \<or> 255 < p \<Longrightarrow> sched_setpriority t p k = Some (ERROR, set_errno EINVAL k)"
  by (auto simp: sched_setpriority_def Let_def)

text \<open>A task that waits on one of the other lists.\<close>

lemma setpriority_waiting:
  assumes ok: "sched_ok k" and s: "plain_list (state_of k t)" "prioritized (state_of k t)" and p: "1 \<le> p" "p \<le> 255"
  defines "s \<equiv> state_of k t"
  obtains k' where
    "add_prioritized t s (set_prio t p (set_list s (remove1 t (tasklist k s)) k)) =
       Some (list_head (tasklist k' s) = t, k')"
    "sched_ok k'" "rest k' = rest (set_prio t p k)" "same_waiters k k'"
proof -
  note L = sched_okD(1) [OF ok]
  note D = tasks_okD [OF lists_okD [OF L]]
  have st: "state_of k t \<noteq> TSTATE_TASK_INVALID" "\<not> is_ready_state (state_of k t)"
    using s by (auto simp: plain_list_def is_ready_state_def)
  have idle: "t \<noteq> last (g_readytorun k)" using not_idle [OF L st(2)] .
  have sp: "s \<noteq> RTR" "RTR \<noteq> s" "s \<noteq> TSTATE_TASK_INVALID" using s by (auto simp: plain_list_def s_def)
  have R1: "tasks_ok ((state_of k)(t := TSTATE_TASK_INVALID)) (prio k) ((tasklist k)(s := remove1 t (tasklist k s)))"
    using tasks_ok_remove_plain [OF lists_okD [OF L] s(1), of t] by (simp add: s_def)
  have nt: "t \<notin> set (((tasklist k)(s := remove1 t (tasklist k s))) u)" for u
    using tasks_okD(4) [OF R1, of t u] by auto
  have R2: "tasks_ok ((state_of k)(t := TSTATE_TASK_INVALID)) ((prio k)(t := p)) ((tasklist k)(s := remove1 t (tasklist k s)))"
    by (rule tasks_ok_prio [OF R1]) (use idle sp p nt in auto)
  let ?xs = "prio_insert ((prio k)(t := p)) t (remove1 t (tasklist k s))"
  have R3: "tasks_ok ((state_of k)(t := TSTATE_TASK_INVALID, t := s)) ((prio k)(t := p))
      ((tasklist k)(s := remove1 t (tasklist k s), s := ?xs))"
    by (rule tasks_ok_add_plain [OF R2])
      (use s p task_nonnull [OF L st(1)] nt [of s] tasks_okD(3) [OF R2, of s] tasks_okD(6) [OF R2, of s] in \<open>auto simp: s_def prio_sorted_insert\<close>)
  define k' where "k' = set_list s ?xs (set_prio t p (set_list s (remove1 t (tasklist k s)) k))"
  have pr: "prio (set_prio t p (set_list s (remove1 t (tasklist k s)) k)) = (prio k)(t := p)"
    by (auto simp: fun_eq_iff)
  have "add_prioritized t s (set_prio t p (set_list s (remove1 t (tasklist k s)) k)) = Some (list_head (tasklist k' s) = t, k')"
    unfolding add_prioritized_def pr using p by (simp add: k'_def Let_def)
  moreover have "lists_ok k'"
    by (rule lists_ok_funs [OF R3]) (auto simp: k'_def s_def fun_eq_iff)
  then have "sched_ok k'"
  proof -
    have h: "g_readytorun k' = g_readytorun k" "tcb k' u = (tcb (set_prio t p k)) u" "cpu k' = cpu k" for u
      using sp by (auto simp: k'_def)
    have "lockcount (tcb k' u) = lockcount (tcb k u)" for u using h(2) [of u] by (cases "u = t") auto
    moreover have "g_pendingtasks k' \<noteq> [] \<Longrightarrow> g_pendingtasks k \<noteq> []"
      using D(4) [of t TSTATE_TASK_PENDING] by (auto simp: k'_def s_def split: if_splits)
    ultimately show ?thesis
      using \<open>lists_ok k'\<close> h sched_okD(2,4) [OF ok] by (auto simp: sched_ok_def)
  qed
  moreover have "rest k' = rest (set_prio t p k)"
    unfolding k'_def rest_upd(2) by (rule rest_set_prio) simp
  moreover have "same_waiters k k'"
    using D(4) [of t s] D(3) [of s] sp s by (intro same_waitersI) (auto simp: k'_def s_def plain_list_def)
  ultimately show thesis by (rule that)
qed

lemma prio_sorted_fresh: "t \<notin> set xs \<Longrightarrow> prio_sorted (pr(t := p)) xs = prio_sorted pr xs"
  by (rule prio_sorted_cong) auto

lemma setpriority_running:
  assumes ok: "sched_ok k" and rs: "g_readytorun k = t # n # rs" and p: "1 \<le> p" "p \<le> 255" "prio k n < p"
  shows "sched_ok (set_prio t p k)"
proof -
  note L = sched_okD(1) [OF ok]
  have srt: "prio_sorted (prio k) (t # n # rs)" and d: "distinct (t # n # rs)"
    using tasks_okD(6) [OF lists_okD [OF L], of RTR] tasks_okD(3) [OF lists_okD [OF L], of RTR] rs by simp_all
  have "state_of k t = TSTATE_TASK_RUNNING" using running_iff [OF L] rs by simp
  then have only: "t \<in> set (tasklist k s) \<Longrightarrow> s = RTR" for s
    using tasks_okD(4) [OF lists_okD [OF L], of t s] by simp
  have "prio_sorted ((prio k)(t := p)) (t # n # rs)"
    using srt d p(3) prio_sorted_fresh [of t "n # rs" "prio k" p] by (auto simp del: fun_upd_apply simp: fun_upd_apply)
  then have "prio_sorted ((prio k)(t := p)) (tasklist k s)" if "t \<in> set (tasklist k s)" for s
    using only [OF that] rs by simp
  moreover have "t \<noteq> last (g_readytorun k)" using rs d by auto
  ultimately have "lists_ok (set_prio t p k)" by (intro lists_ok_set_prio [OF L _ p(1,2)])
  then show ?thesis
    using ok by (auto simp: sched_ok_def)
qed

lemma setpriority_plain_eq:
  assumes "plain_list (state_of k t)" and "1 \<le> p" "p \<le> 255"
  shows "sched_setpriority t (int p) k =
    (if prioritized (state_of k t)
     then map_option (\<lambda>x. (OK, snd x)) (add_prioritized t (state_of k t)
            (set_prio t p (set_list (state_of k t) (remove1 t (tasklist k (state_of k t))) k)))
     else Some (OK, set_prio t p k))"
proof -
  have b: "do { k \<leftarrow> map_option snd x; Some (OK, k) } = map_option (\<lambda>x. (OK, snd x)) x" for x :: "(bool \<times> 'z kernel_scheme) option"
    by (cases x) auto
  show ?thesis
    using assms unfolding sched_setpriority_def Let_def plain_list_def
    by (cases "state_of k t") (simp_all add: b [unfolded OK_def])
qed

theorem sched_setpriority_ok:
  assumes ok: "sched_ok k" and t: "state_of k t \<noteq> TSTATE_TASK_INVALID" "t \<noteq> last (g_readytorun k)"
    and p: "1 \<le> p" "p \<le> 255"
  obtains k' where "sched_setpriority t (int p) k = Some (OK, k')" "sched_ok k'"
    "rest k' = rest (set_prio t p k)" "same_waiters k k'"
proof -
  note L = sched_okD(1) [OF ok]
  let ?rs = "g_readytorun k"
  have h: "list_head ?rs = hd ?rs" using sched_okD(3) [OF ok] by simp
  have tm: "is_ready_state (state_of k t) \<Longrightarrow> t \<in> set ?rs" using ready_iff [OF L] by simp
  consider (running) "state_of k t = TSTATE_TASK_RUNNING" | (ready) "state_of k t = RTR"
    | (waiting) "plain_list (state_of k t)"
    using t(1) by (cases "state_of k t") (auto simp: plain_list_def)
  then show thesis
  proof cases
    case running
    then have "t = hd ?rs" using running_iff [OF L] by simp
    with t(2) sched_okD(3) [OF ok] obtain n rs where rs: "?rs = t # n # rs"
      by (cases ?rs; cases "tl ?rs") auto
    have n: "flink_in ?rs t = n" "n \<noteq> NULL" using rs nonnull_tasks [OF L, of n RTR] by simp_all
    show thesis
    proof (cases "p \<le> prio k n")
      case True
      obtain k' where "up_reprioritize_rtr t p k = Some k'" "sched_ok k'" "rest k' = rest (set_prio t p k)" "same_waiters k k'"
        using up_reprioritize_rtr_ok [OF ok _ t(2) p] rs by auto
      then show thesis using that [of k'] running n True p h by (simp add: sched_setpriority_def)
    next
      case False
      then show thesis
        using that [of "set_prio t p k"] setpriority_running [OF ok rs p] running n p h
        by (simp add: sched_setpriority_def same_waiters_def)
    qed
  next
    case ready
    note tm = tm [unfolded is_ready_state_def ready, simplified]
    have nh: "t \<noteq> hd ?rs" using ready running_iff [OF L, of t] by auto
    show thesis
    proof (cases "p > prio k (hd ?rs)")
      case True
      obtain k' where "up_reprioritize_rtr t p k = Some k'" "sched_ok k'" "rest k' = rest (set_prio t p k)" "same_waiters k k'"
        using up_reprioritize_rtr_ok [OF ok tm t(2) p] by blast
      then show thesis using that [of k'] ready True p h by (simp add: sched_setpriority_def)
    next
      case False
      let ?r1 = "remove1 t ?rs"
      have hd1: "hd ?r1 = hd ?rs" using nh sched_okD(3) [OF ok] by (cases ?rs) auto
      obtain k1 k2 where k1: "sched_removereadytorun t k = Some (t = hd ?rs, k1)"
        and k2: "sched_addreadytorun t (set_prio t p k1) = Some (hd (g_readytorun k2) \<noteq> hd ?r1, k2)"
        "lists_ok k2" "rest k2 = rest (set_prio t p k)" "cpu k2 = cpu k"
        "let rs = ?r1; h = hd rs;
          s = (if lockcount (tcb k h) \<noteq> 0 \<and> prio k h < p then TSTATE_TASK_PENDING else RTR);
          L = (tasklist k)(RTR := rs)
        in tasklist k2 = L(s := prio_insert ((prio k)(t := p)) t (L s))"
        and r1: "?r1 \<noteq> []" "hd ?r1 \<noteq> t"
        using reinsert_ok [OF L tm t(2) p] by blast
      have T2: "tasklist k2 = (tasklist k)(RTR := prio_insert ((prio k)(t := p)) t ?r1)"
        using k2(5) False hd1 unfolding Let_def by simp
      have h2: "hd (g_readytorun k2) = hd ?rs"
        using False r1 hd1 by (simp add: T2 prio_insert_head)
      have "sched_setpriority t (int p) k = Some (OK, k2)"
        using ready False p k1 k2(1) nh h2 hd1 h by (simp add: sched_setpriority_def)
      moreover have "lockcount (tcb k2 u) = lockcount (tcb k u)" for u using rest_eqD(2) [OF k2(3), of u] by (cases "u = t") auto
      then have "sched_ok k2"
        using k2(2,4) h2 T2 sched_okD(2,4) [OF ok] by (auto simp: sched_ok_def)
      moreover have sr: "set ?rs = insert t (set ?r1)" using tm tasks_okD(3) [OF lists_okD [OF L], of RTR] by auto
      have "same_waiters k k2"
        by (rule same_waitersI) (auto simp: T2 plain_list_def sr)
      ultimately show thesis using that k2(3) by blast
    qed
  next
    case waiting
    show thesis
    proof (cases "prioritized (state_of k t)")
      case True
      obtain k' b where "add_prioritized t (state_of k t) (set_prio t p (set_list (state_of k t) (remove1 t (tasklist k (state_of k t))) k)) =
          Some (b, k')" "sched_ok k'" "rest k' = rest (set_prio t p k)" "same_waiters k k'"
        using setpriority_waiting [OF ok waiting True p] by blast
      then show thesis
        using that [of k'] setpriority_plain_eq [OF waiting p] True by simp
    next
      case False
      have only: "t \<in> set (tasklist k s) \<Longrightarrow> s = state_of k t" for s
        using tasks_okD(4) [OF lists_okD [OF L], of t s] waiting by simp
      have "lists_ok (set_prio t p k)"
        by (rule lists_ok_set_prio [OF L t(2) p]) (use only False in metis)
      then have "sched_ok (set_prio t p k)" using ok by (auto simp: sched_ok_def)
      then show thesis
        using that [of "set_prio t p k"] setpriority_plain_eq [OF waiting p] False by (simp add: same_waiters_def)
    qed
  qed
qed

lemma sched_reprioritize_ok:
  assumes ok: "sched_ok k" and t: "state_of k t \<noteq> TSTATE_TASK_INVALID" "t \<noteq> last (g_readytorun k)"
    and p: "1 \<le> p" "p \<le> 255"
  obtains k' where "sched_reprioritize t (int p) k = Some (OK, k')" "sched_ok k'" "same_waiters k k'"
    "rest k' = rest (upd_tcb t (\<lambda>c. c\<lparr>sched_priority := p, base_priority := p, pend_reprios := []\<rparr>) k)"
proof -
  obtain k1 where k1: "sched_setpriority t (int p) k = Some (OK, k1)" "sched_ok k1" "rest k1 = rest (set_prio t p k)" "same_waiters k k1"
    using sched_setpriority_ok [OF ok t p] by blast
  let ?f = "\<lambda>c. c\<lparr>base_priority := p, pend_reprios := []\<rparr>"
  have "sched_ok (upd_tcb t ?f k1)" using k1(2) by (simp add: sched_ok_upd_tcb)
  moreover have "(tcb k1 u)\<lparr>task_state := TSTATE_TASK_INVALID, timeslice := 0\<rparr> = (tcb (set_prio t p k) u)\<lparr>task_state := TSTATE_TASK_INVALID, timeslice := 0\<rparr>" for u
    using k1(3) unfolding rest_def by (auto simp: fun_eq_iff)
  then have "(tcb (upd_tcb t ?f k1) u)\<lparr>task_state := TSTATE_TASK_INVALID, timeslice := 0\<rparr> =
     (tcb (upd_tcb t (\<lambda>c. c\<lparr>sched_priority := p, base_priority := p, pend_reprios := []\<rparr>) k) u)\<lparr>task_state := TSTATE_TASK_INVALID, timeslice := 0\<rparr>" for u
    by (cases "tcb k1 u"; cases "tcb k u"; cases "u = t") (auto dest: meta_spec [of _ u])
  then have "rest (upd_tcb t ?f k1) = rest (upd_tcb t (\<lambda>c. c\<lparr>sched_priority := p, base_priority := p, pend_reprios := []\<rparr>) k)"
    using rest_eqD(9-11) [OF k1(3)] by (simp add: rest_def upd_tcb_def)
  ultimately show thesis
    using that [of "upd_tcb t ?f k1"] k1(1,4) by (simp add: sched_reprioritize_def same_waiters_def)
qed

subsection \<open>Preemption locks\<close>

lemma up_release_pending_ok:
  assumes ok: "lists_ok k" "cpu k = hd (g_readytorun k)"
  obtains k' where "up_release_pending k = Some k'" "sched_ok k'" "rest k' = rest k"
    "tasklist k' = (tasklist k)(RTR := fold (prio_insert (prio k)) (g_pendingtasks k) (g_readytorun k), TSTATE_TASK_PENDING := [])"
proof -
  let ?rs = "fold (prio_insert (prio k)) (g_pendingtasks k) (g_readytorun k)"
  obtain k1 where k1: "merge_pending k = Some (hd ?rs \<noteq> hd (g_readytorun k), k1)"
    "lists_ok k1" "rest k1 = rest k" "cpu k1 = cpu k"
    "tasklist k1 = (tasklist k)(RTR := ?rs, TSTATE_TASK_PENDING := [])"
    using merge_pending_ok [OF ok(1)] by blast
  let ?k = "if hd ?rs \<noteq> hd (g_readytorun k) then switch_context k1 else k1"
  have "?rs \<noteq> []" using tasks_okD(1) [OF lists_okD [OF k1(2)]] k1(5) by simp
  moreover have "lists_ok ?k" using k1(2) by (simp add: lists_ok_def)
  ultimately have "sched_ok ?k" using k1 ok(2) by (auto simp: sched_ok_def)
  then show thesis using that [of ?k] k1 by (auto simp: up_release_pending_def)
qed

theorem sched_lock_ok:
  assumes ok: "sched_ok k" and "\<not> current_regs k" and "lockcount (tcb k (hd (g_readytorun k))) < MAX_LOCK_COUNT"
  defines "k' \<equiv> upd_tcb (hd (g_readytorun k)) (lockcount_update Suc) k"
  shows "sched_lock k = Some k'" "sched_ok k'"
proof -
  have "hd (g_readytorun k) \<noteq> NULL" "list_head (g_readytorun k) = hd (g_readytorun k)"
    using nonnull_tasks [OF sched_okD(1) [OF ok], of "hd (g_readytorun k)" RTR] sched_okD(3) [OF ok] by simp_all
  then show "sched_lock k = Some k'" using assms by (simp add: sched_lock_def k'_def)
  show "sched_ok k'" using ok by (simp add: sched_ok_def k'_def lists_ok_upd_tcb)
qed

theorem sched_unlock_ok:
  assumes ok: "sched_ok k" and "\<not> current_regs k"
  defines "r \<equiv> hd (g_readytorun k)"
  defines "k1 \<equiv> upd_tcb r (lockcount_update (\<lambda>n. n - 1)) k"
  obtains k' where "sched_unlock k = Some k'" "sched_ok k'" "rest k' = rest k1"
    "tasklist k' = (if lockcount (tcb k r) \<le> 1
       then (tasklist k)(RTR := fold (prio_insert (prio k)) (g_pendingtasks k) (g_readytorun k), TSTATE_TASK_PENDING := [])
       else tasklist k)"
proof -
  have r: "r \<noteq> NULL" "list_head (g_readytorun k) = r"
    using nonnull_tasks [OF sched_okD(1) [OF ok], of "hd (g_readytorun k)" RTR] sched_okD(3) [OF ok] by (simp_all add: r_def)
  have L: "lists_ok k1" "cpu k1 = hd (g_readytorun k1)"
    using sched_okD(1,2) [OF ok] by (simp_all add: k1_def lists_ok_upd_tcb)
  have eq: "(if lockcount (tcb k r) \<noteq> 0 then upd_tcb r (lockcount_update (\<lambda>n. n - 1)) k else k) = k1"
    by (auto simp: k1_def upd_tcb_def fun_eq_iff intro!: kernel.equality tcb.equality)
  have z: "upd_tcb r (lockcount_update (\<lambda>_. 0)) k1 = k1" if "lockcount (tcb k r) \<le> 1"
    using that by (auto simp: k1_def upd_tcb_def fun_eq_iff intro!: kernel.equality tcb.equality)
  have un: "sched_unlock k = (if lockcount (tcb k r) \<le> 1
      then if g_pendingtasks k \<noteq> [] then up_release_pending k1 else Some k1 else Some k1)"
  proof -
    have "lockcount (tcb k1 r) \<le> 0 \<longleftrightarrow> lockcount (tcb k r) \<le> 1" "g_pendingtasks k1 = g_pendingtasks k" by (auto simp: k1_def)
    then show ?thesis
      using r assms(2) z unfolding sched_unlock_def Let_def r(2) eq by simp
  qed
  have pk: "prio k1 = prio k" by (auto simp: k1_def fun_eq_iff)
  consider (more) "\<not> lockcount (tcb k r) \<le> 1" | (none) "lockcount (tcb k r) \<le> 1" "g_pendingtasks k = []"
    | (release) "lockcount (tcb k r) \<le> 1" "g_pendingtasks k \<noteq> []" by blast
  then show thesis
  proof cases
    case more
    then have "sched_ok k1" using L by (auto simp: sched_ok_def k1_def r_def)
    then show thesis using that [of k1] un more by (simp add: k1_def)
  next
    case none
    then have "sched_ok k1" using L by (auto simp: sched_ok_def k1_def)
    moreover have "tasklist k1 = (tasklist k)(RTR := fold (prio_insert (prio k)) (g_pendingtasks k) (g_readytorun k), TSTATE_TASK_PENDING := [])"
      using none(2) by (auto simp: k1_def fun_eq_iff)
    ultimately show thesis using that [of k1] un none by simp
  next
    case release
    have T: "tasklist k1 = tasklist k" by (simp add: k1_def)
    obtain k' where "up_release_pending k1 = Some k'" "sched_ok k'" "rest k' = rest k1"
      "tasklist k' = (tasklist k)(RTR := fold (prio_insert (prio k)) (g_pendingtasks k) (g_readytorun k), TSTATE_TASK_PENDING := [])"
      using up_release_pending_ok [OF L] unfolding T pk by blast
    then show thesis using that [of k'] un release by simp
  qed
qed

subsection \<open>Yielding the processor\<close>

text \<open>The ready-to-run list is the tasks of the highest priority followed by those below it.\<close>

definition top_tasks :: "'z kernel_scheme \<Rightarrow> addr list" where
  "top_tasks k = takeWhile (\<lambda>t. prio k t = prio k (hd (g_readytorun k))) (g_readytorun k)"

lemma prio_insert_equal:
  assumes "\<forall>y\<in>set as. pr y = pr t" and "bs = [] \<or> pr (hd bs) < pr t"
  shows "prio_insert pr t (as @ bs) = as @ t # bs"
  using assms by (cases bs) (auto simp: prio_insert_def takeWhile_append2 dropWhile_append2)

lemma takeWhile_split_sorted:
  assumes "prio_sorted pr (t # xs)"
  obtains as bs where "xs = as @ bs" "\<forall>y\<in>set as. pr y = pr t" "bs = [] \<or> pr (hd bs) < pr t"
    "takeWhile (\<lambda>y. pr y = pr t) (t # xs) = t # as"
proof (rule that)
  let ?P = "\<lambda>y. pr y = pr t"
  show "xs = takeWhile ?P xs @ dropWhile ?P xs" by simp
  show "\<forall>y\<in>set (takeWhile ?P xs). pr y = pr t" by (auto dest: set_takeWhileD)
  have "hd (dropWhile ?P xs) \<in> set xs" "pr (hd (dropWhile ?P xs)) \<noteq> pr t" if "dropWhile ?P xs \<noteq> []"
    using hd_dropWhile [OF that] set_dropWhileD [OF hd_in_set [OF that]] by simp_all
  then show "dropWhile ?P xs = [] \<or> pr (hd (dropWhile ?P xs)) < pr t"
    using assms by (auto simp: order_less_le)
qed simp

theorem sched_yield_ok:
  assumes ok: "sched_ok k" and n: "g_pendingtasks k = []" and idle: "length (g_readytorun k) > 1"
    and top: "g_readytorun k = top_tasks k @ ls"
  obtains k' where "sched_yield k = Some (OK, k')" "sched_ok k'" "rest k' = rest k"
    "tasklist k' = (tasklist k)(RTR := rotate1 (top_tasks k) @ ls)"
    "top_tasks k' = rotate1 (top_tasks k)"
proof -
  note L = sched_okD(1) [OF ok]
  let ?rs = "g_readytorun k"
  obtain t m rs where rs: "?rs = t # m # rs" using idle by (cases ?rs; cases "tl ?rs") auto
  have st: "state_of k t = TSTATE_TASK_RUNNING" "t \<noteq> last ?rs"
    using running_iff [OF L, of t] rs tasks_okD(3) [OF lists_okD [OF L], of RTR] by auto
  have p: "1 \<le> prio k t" "prio k t \<le> 255" using task_prio [OF L _ st(2)] st(1) by auto
  have srt: "prio_sorted (prio k) (t # m # rs)" using tasks_okD(6) [OF lists_okD [OF L], of RTR] rs by simp
  obtain as bs where ab: "m # rs = as @ bs" "\<forall>y\<in>set as. prio k y = prio k t" "bs = [] \<or> prio k (hd bs) < prio k t"
    "takeWhile (\<lambda>y. prio k y = prio k t) (t # m # rs) = t # as"
    by (rule takeWhile_split_sorted [OF srt])
  have tt: "top_tasks k = t # as" using ab(4) rs by (simp add: top_tasks_def)
  have bs: "bs = ls" using top rs ab(1) tt by simp
  have ins: "prio_insert (prio k) t (m # rs) = as @ t # ls"
    using prio_insert_equal [OF ab(2,3)] ab(1) bs by simp
  have h: "list_head ?rs = t" using rs by simp
  have n1: "flink_in ?rs t = m" "m \<noteq> NULL" using rs nonnull_tasks [OF L, of m RTR] by simp_all
  have same: "set_prio t (prio k t) k = k" "(prio k)(t := prio k t) = prio k"
    by (auto simp: upd_tcb_def fun_eq_iff intro!: kernel.equality tcb.equality)
  have fin: "top_tasks k' = rotate1 (top_tasks k)"
    if r: "rest k' = rest k" and tl: "tasklist k' = (tasklist k)(RTR := rotate1 (top_tasks k) @ ls)" for k'
  proof -
    have "hd (as @ t # ls) \<in> set (t # as)" by (cases as) auto
    then have "prio k (hd (as @ t # ls)) = prio k t" using ab(2) by auto
    moreover have "takeWhile (\<lambda>y. prio k y = prio k t) (as @ t # ls) = as @ [t]"
      using ab(2,3) bs by (cases ls) (auto simp: takeWhile_append2)
    ultimately show ?thesis using rest_eqD(1) [OF r] tl tt by (simp add: top_tasks_def [of k'])
  qed
  show thesis
  proof (cases "prio k t \<le> prio k m")
    case True
    obtain k' where k': "up_reprioritize_rtr t (prio k t) k = Some k'" "sched_ok k'" "rest k' = rest k"
      "tasklist k' = (tasklist k)(TSTATE_TASK_PENDING := [], RTR := as @ t # ls)"
      using up_reprioritize_rtr_ok [OF ok _ st(2) p] True rs n same ins by auto
    have "(tasklist k)(TSTATE_TASK_PENDING := [], RTR := as @ t # ls) = (tasklist k)(RTR := rotate1 (top_tasks k) @ ls)"
      using n tt by (auto simp: fun_eq_iff)
    then have tl: "tasklist k' = (tasklist k)(RTR := rotate1 (top_tasks k) @ ls)" using k'(4) by simp
    have "sched_yield k = Some (OK, k')"
      using k'(1) p st(1) h n1 True by (simp add: sched_yield_def sched_setpriority_def)
    then show thesis using that [of k'] k'(2,3) tl fin [OF k'(3) tl] by blast
  next
    case False
    then have "as = []" using ab(1,2) by (cases as) auto
    then have tl: "tasklist k = (tasklist k)(RTR := rotate1 (top_tasks k) @ ls)"
      using tt top by (auto simp: fun_eq_iff)
    have "sched_yield k = Some (OK, k)"
      using p st(1) h n1 False same by (simp add: sched_yield_def sched_setpriority_def)
    then show thesis using that [of k] ok tl fin [OF refl tl] by blast
  qed
qed

text \<open>The end of a time slice is a yield with a fresh slice.\<close>

definition slice_over :: "'z kernel_scheme \<Rightarrow> bool" where
  "slice_over k \<longleftrightarrow> (let c = tcb k (hd (g_readytorun k)) in round_robin c \<and> timeslice c \<le> 1 \<and> lockcount c = 0)"

lemma top_tasks_upd:
  assumes "\<And>c. sched_priority (f c) = sched_priority c"
  shows "top_tasks (upd_tcb t f k) = top_tasks k"
proof -
  have p: "prio (upd_tcb t f k) u = prio k u" for u using assms by simp
  show ?thesis unfolding top_tasks_def p by simp
qed

lemma process_timeslice_yield:
  assumes ok: "sched_ok k" and s: "slice_over k" and n: "length (g_readytorun k) > 1"
  shows "map_option (\<lambda>k. (OK, k)) (sched_process_timeslice k) =
    sched_yield (upd_tcb (hd (g_readytorun k)) (timeslice_update (\<lambda>_. RR_TICKS)) k)"
proof -
  note L = sched_okD(1) [OF ok]
  obtain t m rs where rs: "g_readytorun k = t # m # rs" using n by (cases "g_readytorun k"; cases "tl (g_readytorun k)") auto
  have st: "state_of k t = TSTATE_TASK_RUNNING" "t \<noteq> last (g_readytorun k)" "t \<noteq> m"
    using running_iff [OF L, of t] rs tasks_okD(3) [OF lists_okD [OF L], of RTR] by auto
  have p: "1 \<le> prio k t" "prio k t \<le> 255" using task_prio [OF L _ st(2)] st(1) by auto
  have m: "m \<noteq> NULL" using nonnull_tasks [OF L, of m RTR] rs by simp
  let ?k = "upd_tcb t (timeslice_update (\<lambda>_. RR_TICKS)) k"
  have same: "set_prio t (prio k t) ?k = ?k"
    by (auto simp: upd_tcb_def fun_eq_iff intro!: kernel.equality tcb.equality)
  show ?thesis
    using s rs st p m same
    by (cases "up_reprioritize_rtr t (prio k t) ?k")
       (auto simp: sched_process_timeslice_def slice_over_def sched_yield_def sched_setpriority_def Let_def)
qed

lemma process_timeslice_idle:
  assumes "sched_ok k" and "\<not> (slice_over k \<and> length (g_readytorun k) > 1)"
  obtains f where "sched_process_timeslice k = Some (upd_tcb (hd (g_readytorun k)) (timeslice_update f) k)"
proof -
  obtain t rs where rs: "g_readytorun k = t # rs" using sched_okD(3) [OF assms(1)] by (cases "g_readytorun k") auto
  have id: "upd_tcb t (timeslice_update (\<lambda>n. n)) k = k" by (auto simp: upd_tcb_def fun_eq_iff intro!: kernel.equality tcb.equality)
  have "\<exists>f. sched_process_timeslice k = Some (upd_tcb t (timeslice_update f) k)"
  proof (cases "slice_over k")
    case True
    then have "rs = []" using assms(2) rs by auto
    then show ?thesis using True rs by (auto simp: sched_process_timeslice_def slice_over_def Let_def)
  next
    case False
    then show ?thesis
      using rs exI [of "\<lambda>f. Some k = Some (upd_tcb t (timeslice_update f) k)" "\<lambda>n. n"] id
      by (auto simp: sched_process_timeslice_def slice_over_def Let_def)
  qed
  then show thesis using that rs by auto
qed

theorem sched_process_timeslice_ok:
  assumes ok: "sched_ok k" and top: "g_readytorun k = top_tasks k @ ls"
  obtains k' where "sched_process_timeslice k = Some k'" "sched_ok k'" "rest k' = rest k"
    "tasklist k' = (if slice_over k then (tasklist k)(RTR := rotate1 (top_tasks k) @ ls) else tasklist k)"
proof (cases "slice_over k \<and> length (g_readytorun k) > 1")
  case True
  let ?k = "upd_tcb (hd (g_readytorun k)) (timeslice_update (\<lambda>_. RR_TICKS)) k"
  have tt: "top_tasks ?k = top_tasks k" by (rule top_tasks_upd) simp
  have a: "sched_ok ?k" "g_pendingtasks ?k = []" "length (g_readytorun ?k) > 1" "g_readytorun ?k = top_tasks ?k @ ls"
    using ok True sched_okD(4) [OF ok] top unfolding tt by (auto simp: sched_ok_upd_tcb slice_over_def Let_def)
  obtain k' where k': "sched_yield ?k = Some (OK, k')" "sched_ok k'" "rest k' = rest ?k"
    "tasklist k' = (tasklist ?k)(RTR := rotate1 (top_tasks ?k) @ ls)"
    by (rule sched_yield_ok [OF a]) blast
  have "map_option (\<lambda>k. (OK, k)) (sched_process_timeslice k) = Some (OK, k')"
    using process_timeslice_yield [OF ok] True k'(1) by simp
  then have "sched_process_timeslice k = Some k'" by auto
  then show thesis using that [of k'] k' True tt by simp
next
  case False
  then obtain f where f: "sched_process_timeslice k = Some (upd_tcb (hd (g_readytorun k)) (timeslice_update f) k)"
    using process_timeslice_idle [OF ok] by blast
  have "tasklist k = (tasklist k)(RTR := rotate1 (top_tasks k) @ ls)" if "slice_over k"
  proof -
    have "length (g_readytorun k) = 1" using that False sched_okD(3) [OF ok] by (cases "g_readytorun k") auto
    then obtain x where "g_readytorun k = [x]" by (cases "g_readytorun k") auto
    with top have "rotate1 (top_tasks k) @ ls = g_readytorun k" by (cases "top_tasks k") auto
    then show ?thesis by (auto simp: fun_eq_iff)
  qed
  then show thesis using that [OF f] ok by (auto simp: sched_ok_upd_tcb)
qed

end
