(* ===== verification/Task.thy ===== *)
theory Task
  imports Sched_Ops
begin

section \<open>Task creation and deletion\<close>

text \<open>
  The table of process ids (\<open>g_pidhash\<close>) and the operations that create, delete and restart
  tasks. The kernel state is extended by the table, the last pid handed out and the
  fields \<open>pid\<close> and \<open>init_priority\<close> of the TCBs. \<open>CONFIG_MAX_TASKS\<close> is 16, the value of most of the
  configurations; \<open>pid_t\<close> is a 32-bit integer, and its increment wraps.

  The allocation of a TCB, of the file descriptors and of the stack are arguments of
  \<open>thread_create\<close> (their result); the file, environment, signal and stack data of a TCB
  are not part of the state, so releasing them changes nothing here. The entry point and
  the arguments of a task are not modelled.
\<close>

record task_kernel = kernel +
  g_lastpid :: int
  g_pidhash :: "nat \<Rightarrow> addr \<times> int"
  tcb_pid :: "addr \<Rightarrow> int"
  init_priority :: "addr \<Rightarrow> nat"

definition MAX_TASKS :: nat where [simp]: "MAX_TASKS = 16"

definition PIDHASH :: "int \<Rightarrow> nat" where
  "PIDHASH pid = nat (pid AND (int MAX_TASKS - 1))"

definition INVALID_PROCESS_ID :: int where [simp]: "INVALID_PROCESS_ID = 0"


definition PID_MAX :: int where "PID_MAX = 2 ^ 31 - 1"

definition inc_pid :: "int \<Rightarrow> int" where
  "inc_pid p = (if p = PID_MAX then - (2 ^ 31) else p + 1)"

definition zero_tcb :: tcb where
  "zero_tcb = \<lparr>sched_priority = 0, base_priority = 0, pend_reprios = [], task_state = TSTATE_TASK_INVALID,
     round_robin = False, lockcount = 0, timeslice = 0, waitsem = NULL, msgwaitq = NULL, pterrno = 0\<rparr>"

text \<open>\<open>os_start\<close>: the task lists, the pid table and the idle task.\<close>

definition os_start :: "addr \<Rightarrow> task_kernel" where
  "os_start g_idletcb =
     \<lparr>tcb = (\<lambda>_. zero_tcb)(g_idletcb := zero_tcb\<lparr>task_state := TSTATE_TASK_RUNNING\<rparr>),
      tasklist = (\<lambda>_. [])(TSTATE_TASK_READYTORUN := [g_idletcb]),
      cpu = g_idletcb, current_regs = False, g_irqerrno = 0,
      g_lastpid = 0,
      g_pidhash = (\<lambda>_. (NULL, INVALID_PROCESS_ID))(PIDHASH 0 := (g_idletcb, 0)),
      tcb_pid = (\<lambda>_. 0), init_priority = (\<lambda>_. 0)\<rparr>"

definition sched_gettcb :: "int \<Rightarrow> 'z task_kernel_scheme \<Rightarrow> addr" where
  "sched_gettcb pid k =
     (if pid \<ge> 0
      then let (t, p) = g_pidhash k (PIDHASH pid) in if pid = p then t else NULL
      else NULL)"

definition sched_verifytcb :: "addr \<Rightarrow> 'z task_kernel_scheme \<Rightarrow> bool" where
  "sched_verifytcb t k \<longleftrightarrow> t = fst (g_pidhash k (PIDHASH (tcb_pid k t)))"

fun assignpid_loop :: "nat \<Rightarrow> addr \<Rightarrow> 'z task_kernel_scheme \<Rightarrow> int \<times> 'z task_kernel_scheme" where
  "assignpid_loop 0 t k = (ERROR, k)"
| "assignpid_loop (Suc tries) t k =
     (let k = k\<lparr>g_lastpid := inc_pid (g_lastpid k)\<rparr>;
          k = (if g_lastpid k \<le> 0 then k\<lparr>g_lastpid := 1\<rparr> else k);
          next_pid = g_lastpid k;
          hash_ndx = PIDHASH next_pid
      in if fst (g_pidhash k hash_ndx) = NULL
         then (OK, k\<lparr>g_pidhash := (g_pidhash k)(hash_ndx := (t, next_pid)),
                      tcb_pid := (tcb_pid k)(t := next_pid)\<rparr>)
         else assignpid_loop tries t k)"

definition task_assignpid :: "addr \<Rightarrow> 'z task_kernel_scheme \<Rightarrow> (int \<times> 'z task_kernel_scheme) option" where
  "task_assignpid t k = do {
     k \<leftarrow> sched_lock k;
     let (ret, k) = assignpid_loop MAX_TASKS t k;
     k \<leftarrow> sched_unlock k;
     Some (ret, k)
   }"

definition task_schedsetup :: "addr \<Rightarrow> int \<Rightarrow> 'z task_kernel_scheme \<Rightarrow> (int \<times> 'z task_kernel_scheme) option" where
  "task_schedsetup t priority k = do {
     (ret, k) \<leftarrow> task_assignpid t k;
     if ret = OK
     then do {
       let p = nat (priority mod 256);
       let k = upd_tcb t (\<lambda>c. c\<lparr>sched_priority := p, base_priority := p, task_state := TSTATE_TASK_INVALID\<rparr>)
                 (k\<lparr>init_priority := (init_priority k)(t := p)\<rparr>);
       k \<leftarrow> sched_lock k;
       let k = set_list TSTATE_TASK_INACTIVE (t # tasklist k TSTATE_TASK_INACTIVE) k;
       let k = set_state t TSTATE_TASK_INACTIVE k;
       k \<leftarrow> sched_unlock k;
       Some (ret, k)
     }
     else Some (ret, k)
   }"

definition sched_releasepid :: "int \<Rightarrow> 'z task_kernel_scheme \<Rightarrow> 'z task_kernel_scheme" where
  "sched_releasepid pid k = k\<lparr>g_pidhash := (g_pidhash k)(PIDHASH pid := (NULL, INVALID_PROCESS_ID))\<rparr>"

definition sched_releasetcb :: "addr \<Rightarrow> 'z task_kernel_scheme \<Rightarrow> 'z task_kernel_scheme" where
  "sched_releasetcb t k =
     (if t \<noteq> NULL \<and> tcb_pid k t \<noteq> 0 then sched_releasepid (tcb_pid k t) k else k)"

text \<open>
  \<open>t\<close> is the block \<open>kzalloc\<close> returned, \<open>files\<close> and \<open>stack\<close> tell whether the file descriptors and
  the stack could be set up.
\<close>

definition thread_create ::
  "addr \<Rightarrow> bool \<Rightarrow> bool \<Rightarrow> int \<Rightarrow> 'z task_kernel_scheme \<Rightarrow> (int \<times> 'z task_kernel_scheme) option" where
  "thread_create t files stack priority k =
     (if t = NULL then Some (ERROR, set_errno ENOMEM k)
      else let k = upd_tcb t (\<lambda>_. zero_tcb) (k\<lparr>tcb_pid := (tcb_pid k)(t := 0), init_priority := (init_priority k)(t := 0)\<rparr>)
           in if \<not> files \<or> \<not> stack then Some (ERROR, set_errno ENOMEM (sched_releasetcb t k))
              else do {
                (ret, k) \<leftarrow> task_schedsetup t priority k;
                if ret \<noteq> OK then Some (ERROR, set_errno ENOMEM (sched_releasetcb t k))
                else do {
                  let pid = tcb_pid k t;
                  (ret, k) \<leftarrow> task_activate t k;
                  if ret \<noteq> OK
                  then Some (ERROR, set_errno ENOMEM (sched_releasetcb t
                              (set_list TSTATE_TASK_INACTIVE (remove1 t (tasklist k TSTATE_TASK_INACTIVE)) k)))
                  else Some (pid, k)
                }
              })"

definition remove_from_list :: "addr \<Rightarrow> 'z task_kernel_scheme \<Rightarrow> 'z task_kernel_scheme" where
  "remove_from_list t k =
     (let s = list_of (state_of k t)
      in set_state t TSTATE_TASK_INVALID (set_list s (remove1 t (tasklist k s)) k))"

text \<open>\<open>task_delete\<close> of another task than the running one.\<close>

definition task_delete_other :: "int \<Rightarrow> 'z task_kernel_scheme \<Rightarrow> (int \<times> 'z task_kernel_scheme) option" where
  "task_delete_other pid k = do {
     k \<leftarrow> sched_lock k;
     let dtcb = sched_gettcb pid k;
     if dtcb = NULL
     then do { k \<leftarrow> sched_unlock k; Some (ERROR, k) }
     else if state_of k dtcb = TSTATE_TASK_RUNNING then None
     else do {
       let k = remove_from_list dtcb k;
       k \<leftarrow> sched_unlock k;
       Some (ERROR, sched_releasetcb dtcb k)
     }
   }"

text \<open>
  In \<open>task_deletecurrent\<close> the pid is neither 0 nor that of the new head, so \<open>task_delete\<close>
  takes its other branch; a second \<open>exit\<close> from within would be \<^const>\<open>None\<close>.
\<close>

definition task_deletecurrent :: "'z task_kernel_scheme \<Rightarrow> (int \<times> 'z task_kernel_scheme) option" where
  "task_deletecurrent k = do {
     let dtcb = list_head (g_readytorun k);
     (_, k) \<leftarrow> sched_removereadytorun dtcb k;
     let rtcb = list_head (g_readytorun k);
     k \<leftarrow> sched_lock k;
     let k = set_state rtcb TSTATE_TASK_READYTORUN k;
     k \<leftarrow> sched_addblocked dtcb TSTATE_TASK_INACTIVE k;
     (_, k) \<leftarrow> (if tcb_pid k dtcb = 0 \<or> tcb_pid k dtcb = tcb_pid k (list_head (g_readytorun k)) then None
               else task_delete_other (tcb_pid k dtcb) k);
     let k = set_state rtcb TSTATE_TASK_RUNNING k;
     k \<leftarrow> (if g_pendingtasks k \<noteq> [] then map_option snd (merge_pending k) else Some k);
     k \<leftarrow> sched_unlock k;
     Some (OK, k)
   }"

definition up_exit :: "'z task_kernel_scheme \<Rightarrow> 'z task_kernel_scheme option" where
  "up_exit k = map_option (\<lambda>(_, k). switch_context k) (task_deletecurrent k)"

text \<open>The first component is \<^const>\<open>None\<close> when the call does not return.\<close>

definition task_delete :: "int \<Rightarrow> 'z task_kernel_scheme \<Rightarrow> (int option \<times> 'z task_kernel_scheme) option" where
  "task_delete pid k =
     (if pid = 0 \<or> pid = tcb_pid k (list_head (g_readytorun k))
      then map_option (\<lambda>k. (None, k)) (up_exit k)
      else map_option (\<lambda>(ret, k). (Some ret, k)) (task_delete_other pid k))"

definition task_restart :: "int \<Rightarrow> 'z task_kernel_scheme \<Rightarrow> (int \<times> 'z task_kernel_scheme) option" where
  "task_restart pid k = do {
     k \<leftarrow> sched_lock k;
     if pid = 0 \<or> pid = tcb_pid k (list_head (g_readytorun k)) then Some (ERROR, k)
     else let t = sched_gettcb pid k
          in if t = NULL then Some (ERROR, k)
             else do {
               let k = remove_from_list t k;
               let k = upd_tcb t (\<lambda>c. c\<lparr>sched_priority := init_priority k t, base_priority := init_priority k t,
                                         pend_reprios := []\<rparr>) k;
               let k = set_list TSTATE_TASK_INACTIVE (t # tasklist k TSTATE_TASK_INACTIVE) k;
               let k = set_state t TSTATE_TASK_INACTIVE k;
               (status, k) \<leftarrow> task_activate t k;
               if status \<noteq> OK
               then Some (ERROR, sched_releasetcb t (set_list TSTATE_TASK_INACTIVE
                            (remove1 t (tasklist k TSTATE_TASK_INACTIVE)) k))
               else do { k \<leftarrow> sched_unlock k; Some (OK, k) }
             }
   }"

subsection \<open>Process ids\<close>

lemma PIDHASH_mod: "PIDHASH pid = nat (pid mod 16)"
proof -
  have "mask 4 = (15 :: int)" by (simp add: mask_eq_exp_minus_1)
  then have "pid AND 15 = take_bit 4 pid" by (simp add: take_bit_eq_mask)
  then show ?thesis by (simp add: PIDHASH_def take_bit_eq_mod)
qed

definition next_pid :: "int \<Rightarrow> int" where
  "next_pid p = (if p = PID_MAX then 1 else p + 1)"

lemma next_pid_iter:
  "0 \<le> p \<Longrightarrow> p \<le> PID_MAX \<Longrightarrow> j \<le> 16 \<Longrightarrow>
   (next_pid ^^ j) p = (if p + int j \<le> PID_MAX then p + int j else p + int j - PID_MAX)"
  by (induction j) (auto simp: next_pid_def PID_MAX_def)

text \<open>Sixteen candidates in a row hit every slot but possibly the idle task's.\<close>

lemma next_pid_covers:
  assumes "0 \<le> p" "p \<le> PID_MAX" "1 \<le> i" "i < 16"
  obtains j where "1 \<le> j" "j \<le> 16" "PIDHASH ((next_pid ^^ j) p) = i"
proof -
  let ?d = "(int i - p - 1) mod 16"
  have d: "0 \<le> ?d" "?d < 16" by simp_all
  let ?j = "nat ?d + 1"
  have J: "(p + int ?j) mod 16 = int i" 
  proof -
    have "(p + 1 + (int i - p - 1) mod 16) mod 16 = (p + 1 + (int i - p - 1)) mod 16" by (rule mod_add_right_eq)
    then show ?thesis using assms d by (simp add: algebra_simps)
  qed
  show thesis
  proof (cases "p + int ?j \<le> PID_MAX")
    case True
    then have "(next_pid ^^ ?j) p = p + int ?j" using next_pid_iter [of p ?j] assms d by simp
    then show thesis using that [of ?j] J d by (simp add: PIDHASH_mod)
  next
    case False
    let ?w = "PID_MAX - p"
    have w: "0 \<le> ?w" "?w < 16" using False assms d by auto
    let ?k = "nat (?w + int i)"
    show thesis
    proof (cases "?w + int i \<le> 16")
      case True
      then have "(next_pid ^^ ?k) p = int i" using next_pid_iter [of p ?k] assms w by simp
      then show thesis using that [of ?k] True assms w by (simp add: PIDHASH_mod)
    next
      case F: False
      have dw: "0 \<le> ?d - ?w" "?d - ?w < 16" using False d w by (simp_all add: algebra_simps)
      have "PID_MAX + 1 = 16 * 134217728" by (simp add: PID_MAX_def)
      then have eq: "p + int ?j = 16 * 134217728 + (?d - ?w)" using d by (simp add: algebra_simps)
      have "int i = (p + int ?j) mod 16" using J by (rule sym)
      also have "\<dots> = (16 * 134217728 + (?d - ?w)) mod 16" by (simp only: eq)
      also have "\<dots> = ?d - ?w" unfolding mod_mult_self4 using dw by (rule mod_pos_pos_trivial)
      finally have False using F d by simp
      then show thesis ..
    qed
  qed
qed

lemma assignpid_loop_Suc:
  assumes "0 \<le> g_lastpid k" "g_lastpid k \<le> PID_MAX"
  defines "p \<equiv> next_pid (g_lastpid k)"
  shows "assignpid_loop (Suc n) t k =
    (if fst (g_pidhash k (PIDHASH p)) = NULL
     then (OK, k\<lparr>g_lastpid := p, g_pidhash := (g_pidhash k)(PIDHASH p := (t, p)), tcb_pid := (tcb_pid k)(t := p)\<rparr>)
     else assignpid_loop n t (k\<lparr>g_lastpid := p\<rparr>))"
  using assms by (auto simp: p_def next_pid_def inc_pid_def PID_MAX_def Let_def)

declare assignpid_loop.simps(2) [simp del]

lemma next_pid_range: "0 \<le> p \<Longrightarrow> p \<le> PID_MAX \<Longrightarrow> 1 \<le> next_pid p \<and> next_pid p \<le> PID_MAX"
  by (auto simp: next_pid_def PID_MAX_def)

lemma assignpid_loop_ok:
  assumes "0 \<le> g_lastpid k" "g_lastpid k \<le> PID_MAX" "1 \<le> j" "j \<le> n"
    and "fst (g_pidhash k (PIDHASH ((next_pid ^^ j) (g_lastpid k)))) = NULL"
  shows "\<exists>p. 1 \<le> p \<and> p \<le> PID_MAX \<and> fst (g_pidhash k (PIDHASH p)) = NULL \<and>
    assignpid_loop n t k =
      (OK, k\<lparr>g_lastpid := p, g_pidhash := (g_pidhash k)(PIDHASH p := (t, p)), tcb_pid := (tcb_pid k)(t := p)\<rparr>)"
  using assms
proof (induction n arbitrary: k j)
  case (Suc n)
  let ?p = "next_pid (g_lastpid k)"
  let ?k = "k\<lparr>g_lastpid := ?p\<rparr>"
  have r: "1 \<le> ?p" "?p \<le> PID_MAX" using next_pid_range Suc.prems(1,2) by auto
  note S = assignpid_loop_Suc [OF Suc.prems(1,2), of n t]
  show ?case
  proof (cases "fst (g_pidhash k (PIDHASH ?p)) = NULL")
    case True
    show ?thesis unfolding S using r True by (intro exI [of _ ?p]) (simp add: fun_upd_def)
  next
    case False
    obtain i where j: "j = Suc i" using Suc.prems(3) by (cases j) auto
    with False Suc.prems(5) have i: "1 \<le> i" by (cases i) auto
    have "fst (g_pidhash ?k (PIDHASH ((next_pid ^^ i) (g_lastpid ?k)))) = NULL"
      using Suc.prems(5) j by (simp add: funpow_swap1)
    from Suc.IH [OF _ _ i _ this] show ?thesis
      using Suc.prems(4) j r False unfolding S by simp
  qed
qed simp

lemma assignpid_loop_full:
  assumes "0 \<le> g_lastpid k" "g_lastpid k \<le> PID_MAX" and "\<forall>i. i < 16 \<longrightarrow> fst (g_pidhash k i) \<noteq> NULL"
  shows "\<exists>p. 0 \<le> p \<and> p \<le> PID_MAX \<and> assignpid_loop n t k = (ERROR, k\<lparr>g_lastpid := p\<rparr>)"
  using assms
proof (induction n arbitrary: k)
  case 0
  then show ?case by (intro exI [of _ "g_lastpid k"]) simp
next
  case (Suc n)
  let ?p = "next_pid (g_lastpid k)"
  have r: "1 \<le> ?p" "?p \<le> PID_MAX" using next_pid_range Suc.prems(1,2) by auto
  have "fst (g_pidhash k (PIDHASH ?p)) \<noteq> NULL" using Suc.prems(3) by (simp add: PIDHASH_mod)
  then show ?case
    using Suc.IH [of "k\<lparr>g_lastpid := ?p\<rparr>"] Suc.prems r assignpid_loop_Suc [OF Suc.prems(1,2), of n t] by auto
qed

end
