(* ===== verification/Task_Ops.thy ===== *)
theory Task_Ops
  imports Task
begin

section \<open>Creating and deleting tasks keeps the invariants\<close>

text \<open>
  \<open>pid_ok\<close> is the invariant of the pid table: every live task (one with a state other than
  invalid) is registered in the slot of its pid, every registered task is live, and the idle
  task has pid 0. The lemmas give the result of every operation of \<open>Task\<close> and show that it keeps
  \<open>sched_ok\<close> and \<open>pid_ok\<close>.
\<close>

definition live :: "'z kernel_scheme \<Rightarrow> addr set" where
  "live k = {t. state_of k t \<noteq> TSTATE_TASK_INVALID}"

definition pid_ok :: "'z task_kernel_scheme \<Rightarrow> bool" where
  "pid_ok k \<longleftrightarrow> 0 \<le> g_lastpid k \<and> g_lastpid k \<le> PID_MAX \<and>
     tcb_pid k (last (g_readytorun k)) = 0 \<and>
     (\<forall>i t p. i < 16 \<longrightarrow> g_pidhash k i = (t, p) \<longrightarrow> t \<noteq> NULL \<longrightarrow>
        PIDHASH p = i \<and> tcb_pid k t = p \<and> t \<in> live k) \<and>
     (\<forall>t. t \<in> live k \<longrightarrow> 0 \<le> tcb_pid k t \<and> g_pidhash k (PIDHASH (tcb_pid k t)) = (t, tcb_pid k t))"

lemma pid_okD:
  assumes "pid_ok k"
  shows "0 \<le> g_lastpid k" "g_lastpid k \<le> PID_MAX" "tcb_pid k (last (g_readytorun k)) = 0"
    "i < 16 \<Longrightarrow> fst (g_pidhash k i) \<noteq> NULL \<Longrightarrow> fst (g_pidhash k i) \<in> live k"
    "i < 16 \<Longrightarrow> fst (g_pidhash k i) \<noteq> NULL \<Longrightarrow> tcb_pid k (fst (g_pidhash k i)) = snd (g_pidhash k i)"
    "i < 16 \<Longrightarrow> fst (g_pidhash k i) \<noteq> NULL \<Longrightarrow> PIDHASH (snd (g_pidhash k i)) = i"
    "t \<in> live k \<Longrightarrow> 0 \<le> tcb_pid k t" "t \<in> live k \<Longrightarrow> g_pidhash k (PIDHASH (tcb_pid k t)) = (t, tcb_pid k t)"
  using assms unfolding pid_ok_def by (cases "g_pidhash k i"; auto)+

lemma PIDHASH_less [simp]: "PIDHASH p < 16"
  by (simp add: PIDHASH_mod nat_less_iff)

lemma live_lists:
  assumes "lists_ok k"
  shows "live k = (\<Union>s. set (tasklist k s))"
proof (rule set_eqI)
  fix t
  have "t \<in> set (tasklist k (list_of (state_of k t)))" if "state_of k t \<noteq> TSTATE_TASK_INVALID"
    using tasks_okD(4) [OF lists_okD [OF assms], of t "list_of (state_of k t)"] that by simp
  moreover have "state_of k t \<noteq> TSTATE_TASK_INVALID" if "t \<in> set (tasklist k s)" for s
    using tasks_okD(4) [OF lists_okD [OF assms], of t s] that by auto
  ultimately show "t \<in> live k \<longleftrightarrow> t \<in> (\<Union>s. set (tasklist k s))" by (auto simp: live_def)
qed

lemma Union_list_insert:
  "set xs = insert t (set (L s)) \<Longrightarrow> (\<Union>u. set ((L(s := xs)) u)) = insert t (\<Union>u. set (L u))"
  by (auto split: if_splits)

lemma more_eqD:
  assumes "kernel.more k' = kernel.more (k :: 'z task_kernel_scheme)"
  shows "g_lastpid k' = g_lastpid k" "g_pidhash k' = g_pidhash k" "tcb_pid k' = tcb_pid k"
    "init_priority k' = init_priority k" "task_kernel.more k' = task_kernel.more k"
  using assms by (cases k; cases k'; simp)+

lemma pid_ok_cong:
  assumes "kernel.more k' = kernel.more k" and "live k' = live k" and "last (g_readytorun k') = last (g_readytorun k)"
  shows "pid_ok k' = pid_ok k"
  unfolding pid_ok_def using more_eqD [OF assms(1)] assms(2,3) by simp

text \<open>Updates of the pid data leave the scheduler alone.\<close>

lemma ext_upd [simp]:
  "lists_ok (k\<lparr>g_lastpid := a\<rparr>) = lists_ok k" "lists_ok (k\<lparr>g_pidhash := b\<rparr>) = lists_ok k"
  "lists_ok (k\<lparr>tcb_pid := c\<rparr>) = lists_ok k" "lists_ok (k\<lparr>init_priority := d\<rparr>) = lists_ok k"
  "sched_ok (k\<lparr>g_lastpid := a\<rparr>) = sched_ok k" "sched_ok (k\<lparr>g_pidhash := b\<rparr>) = sched_ok k"
  "sched_ok (k\<lparr>tcb_pid := c\<rparr>) = sched_ok k" "sched_ok (k\<lparr>init_priority := d\<rparr>) = sched_ok k"
  "live (k\<lparr>g_lastpid := a\<rparr>) = live k" "live (k\<lparr>g_pidhash := b\<rparr>) = live k"
  "live (k\<lparr>tcb_pid := c\<rparr>) = live k" "live (k\<lparr>init_priority := d\<rparr>) = live k"
  by (simp_all add: sched_ok_def lists_ok_def live_def)

lemma upd_tcb_ext [simp]:
  "g_lastpid (upd_tcb t f k) = g_lastpid k" "g_pidhash (upd_tcb t f k) = g_pidhash k"
  "tcb_pid (upd_tcb t f k) = tcb_pid k" "init_priority (upd_tcb t f k) = init_priority k"
  "g_lastpid (set_list s xs k) = g_lastpid k" "g_pidhash (set_list s xs k) = g_pidhash k"
  "tcb_pid (set_list s xs k) = tcb_pid k" "init_priority (set_list s xs k) = init_priority k"
  by (simp_all add: upd_tcb_def set_list_def)

lemma upd_tcb_ext_comm:
  "(upd_tcb t f k)\<lparr>g_lastpid := a\<rparr> = upd_tcb t f (k\<lparr>g_lastpid := a\<rparr>)"
  "(upd_tcb t f k)\<lparr>g_pidhash := b\<rparr> = upd_tcb t f (k\<lparr>g_pidhash := b\<rparr>)"
  "(upd_tcb t f k)\<lparr>tcb_pid := c\<rparr> = upd_tcb t f (k\<lparr>tcb_pid := c\<rparr>)"
  "(upd_tcb t f k)\<lparr>init_priority := d\<rparr> = upd_tcb t f (k\<lparr>init_priority := d\<rparr>)"
  by (simp_all add: upd_tcb_def)

lemma upd_tcb_comm: "t \<noteq> u \<Longrightarrow> upd_tcb t f (upd_tcb u g k) = upd_tcb u g (upd_tcb t f k)"
  by (simp add: upd_tcb_def fun_upd_twist)

lemma set_list_upd_tcb: "set_list s xs (upd_tcb t f k) = upd_tcb t f (set_list s xs k)"
  by (simp add: upd_tcb_def set_list_def)

subsection \<open>A lock that is released at once\<close>

definition locked :: "'z kernel_scheme \<Rightarrow> 'z kernel_scheme" where
  "locked k = upd_tcb (hd (g_readytorun k)) (lockcount_update Suc) k"

definition lockable :: "'z kernel_scheme \<Rightarrow> bool" where
  "lockable k \<longleftrightarrow> \<not> current_regs k \<and> lockcount (tcb k (hd (g_readytorun k))) < MAX_LOCK_COUNT"

lemma sched_lock_locked: "sched_ok k \<Longrightarrow> lockable k \<Longrightarrow> sched_lock k = Some (locked k)"
  using sched_lock_ok(1) [of k] by (simp add: locked_def lockable_def)

lemma sched_unlock_locked:
  assumes "g_readytorun k \<noteq> []" and "hd (g_readytorun k) \<noteq> NULL" and "\<not> current_regs k"
    and "g_pendingtasks k \<noteq> [] \<Longrightarrow> lockcount (tcb k (hd (g_readytorun k))) > 0"
  shows "sched_unlock (locked k) = Some k"
proof -
  let ?r = "hd (g_readytorun k)"
  have h: "list_head (g_readytorun (locked k)) = ?r" "\<not> current_regs (locked k)"
    "lockcount (tcb (locked k) ?r) = Suc (lockcount (tcb k ?r))"
    using assms by (simp_all add: locked_def)
  have dec: "upd_tcb ?r (lockcount_update (\<lambda>n. n - 1)) (locked k) = k"
    by (auto simp: locked_def upd_tcb_def fun_eq_iff intro!: kernel.equality tcb.equality)
  have zero: "upd_tcb ?r (lockcount_update (\<lambda>_. 0)) k = k" if "lockcount (tcb k ?r) = 0"
    using that by (auto simp: upd_tcb_def fun_eq_iff intro!: kernel.equality tcb.equality)
  show ?thesis
    unfolding sched_unlock_def Let_def h(1) using h(2,3) dec zero assms(2,4) by auto
qed

lemma sched_ok_unlock: "sched_ok k \<Longrightarrow> \<not> current_regs k \<Longrightarrow> sched_unlock (locked k) = Some k"
  by (rule sched_unlock_locked)
    (use sched_okD [of k] nonnull_tasks [OF sched_okD(1), of k "hd (g_readytorun k)" RTR] in auto)

lemma assignpid_loop_upd_tcb:
  "assignpid_loop n t (upd_tcb r f k) = (case assignpid_loop n t k of (ret, k) \<Rightarrow> (ret, upd_tcb r f k))"
proof (induction n arbitrary: k)
  case (Suc n)
  show ?case unfolding assignpid_loop.simps Let_def
    by (simp add: upd_tcb_ext_comm Suc.IH split del: if_split) (simp add: upd_tcb_ext_comm Suc.IH)
qed simp

lemma assignpid_loop_frame:
  "assignpid_loop n t k = (ret, k') \<Longrightarrow> \<exists>a b c. k' = k\<lparr>g_lastpid := a, g_pidhash := b, tcb_pid := c\<rparr>"
proof (induction n arbitrary: k)
  case 0
  then show ?case
    by (intro exI [of _ "g_lastpid k"] exI [of _ "g_pidhash k"] exI [of _ "tcb_pid k"]) simp
next
  case (Suc n)
  show ?case
  proof (cases "fst (g_pidhash k (PIDHASH (if inc_pid (g_lastpid k) \<le> 0 then 1 else inc_pid (g_lastpid k)))) = NULL")
    case True
    then show ?thesis using Suc.prems unfolding assignpid_loop.simps Let_def by (auto split: if_splits)
  next
    case False
    then obtain p where "assignpid_loop n t (k\<lparr>g_lastpid := p\<rparr>) = (ret, k')"
      using Suc.prems unfolding assignpid_loop.simps Let_def by (auto split: if_splits)
    from Suc.IH [OF this] show ?thesis by auto
  qed
qed

lemma task_assignpid_eq:
  assumes "sched_ok k" and "lockable k"
  shows "task_assignpid t k = Some (assignpid_loop MAX_TASKS t k)"
proof -
  obtain ret k' where l: "assignpid_loop 16 t k = (ret, k')" by (cases "assignpid_loop 16 t k")
  from assignpid_loop_frame [OF this] obtain a b c where k': "k' = k\<lparr>g_lastpid := a, g_pidhash := b, tcb_pid := c\<rparr>" by blast
  have "sched_ok k'" "\<not> current_regs k'" using assms by (auto simp: k' lockable_def)
  then have u: "sched_unlock (locked k') = Some k'" by (rule sched_ok_unlock)
  have "assignpid_loop 16 t (locked k) = (ret, locked k')"
    using l k' by (simp add: locked_def assignpid_loop_upd_tcb)
  then show ?thesis
    using sched_lock_locked [OF assms] u l by (simp add: task_assignpid_def)
qed

subsection \<open>Creating a task\<close>

lemma not_live:
  assumes "lists_ok k" and "t \<notin> live k"
  shows "state_of k t = TSTATE_TASK_INVALID" "t \<notin> set (tasklist k s)" "t \<noteq> hd (g_readytorun k)" "t \<noteq> last (g_readytorun k)"
proof -
  show st: "state_of k t = TSTATE_TASK_INVALID" using assms(2) by (simp add: live_def)
  show nt: "t \<notin> set (tasklist k s)" for s using assms live_lists [OF assms(1)] by auto
  show "t \<noteq> hd (g_readytorun k)" "t \<noteq> last (g_readytorun k)"
    using nt [of RTR] tasks_okD(1) [OF lists_okD [OF assms(1)]] by auto
qed

text \<open>The TCB of a task that is not live can be written freely.\<close>

lemma sched_ok_new_tcb:
  assumes ok: "sched_ok k" and t: "t \<notin> live k" and f: "task_state (f (tcb k t)) = TSTATE_TASK_INVALID"
  shows "sched_ok (upd_tcb t f k)"
proof -
  note L = sched_okD(1) [OF ok]
  note N = not_live [OF L t]
  let ?k = "upd_tcb t f k"
  have st: "state_of ?k = state_of k" using N(1) f by (auto simp: fun_eq_iff)
  have "prio_sorted (prio ?k) (tasklist k s) = prio_sorted (prio k) (tasklist k s)" for s
    by (rule prio_sorted_cong) (use N(2) in auto)
  moreover have "prio ?k (last (g_readytorun k)) = prio k (last (g_readytorun k))" using N(4) by simp
  moreover have "prio ?k u = prio k u" if "state_of k u \<noteq> TSTATE_TASK_INVALID" for u using that N(1) by auto
  ultimately have "tasks_ok (state_of k) (prio ?k) (tasklist k)"
    using lists_okD [OF L] unfolding tasks_ok_def by auto
  then have "lists_ok ?k" by (rule lists_ok_funs) (use st in auto)
  then show ?thesis using ok N(3) by (auto simp: sched_ok_def)
qed

lemma task_schedsetup_ok:
  assumes ok: "sched_ok k" "lockable k" and t: "t \<notin> live k" "t \<noteq> NULL" and p: "1 \<le> p" "p \<le> 255"
    and a: "assignpid_loop MAX_TASKS t k = (OK, k1)"
  obtains k2 where "task_schedsetup t (int p) k = Some (OK, k2)" "sched_ok k2" "live k2 = insert t (live k)"
    "tasklist k2 = (tasklist k)(TSTATE_TASK_INACTIVE := t # tasklist k TSTATE_TASK_INACTIVE)"
    "g_lastpid k2 = g_lastpid k1" "g_pidhash k2 = g_pidhash k1" "tcb_pid k2 = tcb_pid k1"
    "\<And>u. u \<noteq> t \<Longrightarrow> tcb k2 u = tcb k u" "prio k2 t = p" "state_of k2 t = TSTATE_TASK_INACTIVE"
    "current_regs k2 = current_regs k"
proof -
  from assignpid_loop_frame [OF a] obtain a b c where k1: "k1 = k\<lparr>g_lastpid := a, g_pidhash := b, tcb_pid := c\<rparr>" by blast
  have ok1: "sched_ok k1" "live k1 = live k" "tasklist k1 = tasklist k" "tcb k1 = tcb k" "current_regs k1 = current_regs k"
    using ok(1) by (simp_all add: k1)
  let ?f = "\<lambda>c. c\<lparr>sched_priority := p, base_priority := p, task_state := TSTATE_TASK_INVALID\<rparr>"
  let ?r = "hd (g_readytorun k)"
  define k2 where "k2 = upd_tcb t ?f (k1\<lparr>init_priority := (init_priority k1)(t := p)\<rparr>)"
  have ok2: "sched_ok k2"
    unfolding k2_def by (rule sched_ok_new_tcb) (use ok1 t in simp_all)
  note N = not_live [OF sched_okD(1) [OF ok(1)] t(1)]
  have L2: "tasklist k2 = tasklist k" "current_regs k2 = current_regs k" "state_of k2 t = TSTATE_TASK_INVALID" "prio k2 t = p"
    "tcb k2 u = (if u = t then ?f (tcb k t) else tcb k u)" for u
    by (simp_all add: k2_def ok1)
  have "lockable k2" using ok(2) N(3) L2 by (auto simp: lockable_def)
  then have lock: "sched_lock k2 = Some (locked k2)" by (rule sched_lock_locked [OF ok2])
  define k3 where "k3 = set_state t TSTATE_TASK_INACTIVE (set_list TSTATE_TASK_INACTIVE (t # tasklist k TSTATE_TASK_INACTIVE) k2)"
  have "tasks_ok ((state_of k2)(t := TSTATE_TASK_INACTIVE)) (prio k2) ((tasklist k2)(TSTATE_TASK_INACTIVE := t # tasklist k TSTATE_TASK_INACTIVE))"
    by (rule tasks_ok_add_plain [OF lists_okD [OF sched_okD(1) [OF ok2]]])
       (use L2 p t(2) N(2) tasks_okD(3) [OF lists_okD [OF sched_okD(1) [OF ok(1)]], of TSTATE_TASK_INACTIVE] in \<open>auto simp: plain_list_def\<close>)
  then have lists3: "lists_ok k3" by (rule lists_ok_funs) (auto simp: k3_def fun_eq_iff)
  have ok3: "sched_ok k3" using ok2 lists3 N(3) L2 by (auto simp: sched_ok_def k3_def)
  have lk: "set_state t TSTATE_TASK_INACTIVE (set_list TSTATE_TASK_INACTIVE (t # tasklist k TSTATE_TASK_INACTIVE) (locked k2)) = locked k3"
    using N(3) L2(1) upd_tcb_comm [of t ?r] by (simp add: locked_def k3_def set_list_upd_tcb)
  have un: "sched_unlock (locked k3) = Some k3"
    by (rule sched_ok_unlock [OF ok3]) (use ok(2) L2 in \<open>auto simp: k3_def lockable_def\<close>)
  have "tasklist (locked k2) = tasklist k" by (simp add: locked_def L2)
  then have "task_schedsetup t (int p) k = Some (OK, k3)"
    using a p task_assignpid_eq [OF ok, of t] lock lk un unfolding task_schedsetup_def
    by (simp add: k2_def [symmetric])
  moreover have "live k3 = insert t (live k)"
    using L2(5) by (auto simp: live_def k3_def)
  moreover have "tcb k3 u = tcb k u" if "u \<noteq> t" for u using L2(5) [of u] that by (simp add: k3_def)
  moreover have "tasklist k3 = (tasklist k)(TSTATE_TASK_INACTIVE := t # tasklist k TSTATE_TASK_INACTIVE)"
    "g_lastpid k3 = g_lastpid k1" "g_pidhash k3 = g_pidhash k1" "tcb_pid k3 = tcb_pid k1"
    "prio k3 t = p" "state_of k3 t = TSTATE_TASK_INACTIVE" "current_regs k3 = current_regs k"
    using L2(1,2,4) by (simp_all add: k3_def k2_def ok1)
  ultimately show thesis using that [of k3] ok3 by blast
qed

lemma pid_ok_register:
  assumes ok: "pid_ok k" "lists_ok k" and t: "t \<notin> live k" "t \<noteq> NULL" and p: "1 \<le> p" "p \<le> PID_MAX" and free: "fst (g_pidhash k (PIDHASH p)) = NULL"
    and k': "g_lastpid k' = p" "g_pidhash k' = (g_pidhash k)(PIDHASH p := (t, p))" "tcb_pid k' = (tcb_pid k)(t := p)"
    "live k' = insert t (live k)" "last (g_readytorun k') = last (g_readytorun k)"
  shows "pid_ok k'" and "\<forall>u\<in>live k. tcb_pid k u \<noteq> p" and "sched_gettcb p k' = t"
proof -
  note P = pid_okD [OF ok(1)]
  have nn: "u \<noteq> NULL" if "u \<in> live k" for u using that task_nonnull [OF ok(2)] by (auto simp: live_def)
  have slot: "PIDHASH (tcb_pid k u) \<noteq> PIDHASH p" if "u \<in> live k" for u
    using P(8) [OF that] free nn [OF that] by auto
  then show "\<forall>u\<in>live k. tcb_pid k u \<noteq> p" by auto
  show "sched_gettcb p k' = t" using p k'(2) by (simp add: sched_gettcb_def)
  have lt: "last (g_readytorun k) \<noteq> t" using not_live(4) [OF ok(2) t(1)] by auto
  have "PIDHASH q = i \<and> tcb_pid k' u = q \<and> u \<in> live k'" if "i < 16" "g_pidhash k' i = (u, q)" "u \<noteq> NULL" for i u q
  proof (cases "i = PIDHASH p")
    case True
    then show ?thesis using that k' by simp
  next
    case False
    then have "g_pidhash k i = (u, q)" using that k' by simp
    then show ?thesis using P(4-6) [of i] that k' t(1) by auto
  qed
  moreover have "0 \<le> tcb_pid k' u \<and> g_pidhash k' (PIDHASH (tcb_pid k' u)) = (u, tcb_pid k' u)" if "u \<in> live k'" for u
    using that p slot [of u] P(7,8) [of u] k' t(1) by (cases "u = t") auto
  ultimately show "pid_ok k'"
    unfolding pid_ok_def using p k'(1,3,5) lt P(3) by simp
qed

lemma free_slot_assigned:
  assumes ok: "pid_ok k" "sched_ok k" and i: "i < MAX_TASKS" "fst (g_pidhash k i) = NULL"
  obtains p where "1 \<le> p" "p \<le> PID_MAX" "fst (g_pidhash k (PIDHASH p)) = NULL"
    "assignpid_loop MAX_TASKS t k =
      (OK, k\<lparr>g_lastpid := p, g_pidhash := (g_pidhash k)(PIDHASH p := (t, p)), tcb_pid := (tcb_pid k)(t := p)\<rparr>)"
proof -
  note P = pid_okD [OF ok(1)]
  have idle: "last (g_readytorun k) \<in> live k"
    using live_lists [OF sched_okD(1) [OF ok(2)]] last_in_set [OF sched_okD(3) [OF ok(2)]] by auto
  have "g_pidhash k (PIDHASH 0) = (last (g_readytorun k), 0)" using P(8) [OF idle] P(3) by simp
  moreover have "last (g_readytorun k) \<noteq> NULL"
    using idle task_nonnull [OF sched_okD(1) [OF ok(2)]] by (auto simp: live_def)
  ultimately have "i \<noteq> 0" using i(2) by (cases "i = 0") (auto simp: PIDHASH_mod)
  then obtain j where "1 \<le> j" "j \<le> 16" "PIDHASH ((next_pid ^^ j) (g_lastpid k)) = i"
    using next_pid_covers [OF P(1,2), of i] i(1) by auto
  then show thesis
    using assignpid_loop_ok [OF P(1,2), of j MAX_TASKS t] i(2) that by auto
qed

theorem thread_create_ok:
  assumes ok: "sched_ok k" "pid_ok k" "lockable k" and t: "t \<notin> live k" "t \<noteq> NULL" and p: "1 \<le> p" "p \<le> 255"
    and i: "i < MAX_TASKS" "fst (g_pidhash k i) = NULL"
  obtains k' pid where "thread_create t True True (int p) k = Some (pid, k')" "sched_ok k'" "pid_ok k'"
    "1 \<le> pid" "\<forall>u\<in>live k. tcb_pid k u \<noteq> pid" "sched_gettcb pid k' = t" "live k' = insert t (live k)"
    "tasklist k' = (let s = (if lockcount (tcb k (hd (g_readytorun k))) \<noteq> 0 \<and> prio k (hd (g_readytorun k)) < p
        then TSTATE_TASK_PENDING else RTR) in (tasklist k)(s := prio_insert ((prio k)(t := p)) t (tasklist k s)))"
    "current_regs k' = current_regs k" "\<And>u. u \<noteq> t \<Longrightarrow> lockcount (tcb k' u) = lockcount (tcb k u)"
proof -
  define k0 where "k0 = upd_tcb t (\<lambda>_. zero_tcb) (k\<lparr>tcb_pid := (tcb_pid k)(t := 0), init_priority := (init_priority k)(t := 0)\<rparr>)"
  note L = sched_okD(1) [OF ok(1)]
  note N = not_live [OF L t(1)]
  have ok0: "sched_ok k0" unfolding k0_def by (rule sched_ok_new_tcb) (use ok(1) t in \<open>simp_all add: zero_tcb_def\<close>)
  have l0: "live k0 = live k" using N(1) by (auto simp: k0_def live_def zero_tcb_def)
  have T0: "tasklist k0 = tasklist k" "g_pidhash k0 = g_pidhash k" "g_lastpid k0 = g_lastpid k" "current_regs k0 = current_regs k"
    "tcb_pid k0 = (tcb_pid k)(t := 0)"
    "u \<noteq> t \<Longrightarrow> tcb k0 u = tcb k u" for u by (simp_all add: k0_def)
  have pid0: "pid_ok k0"
    using ok(2) t N(4) unfolding pid_ok_def T0 l0 by auto
  have lock0: "lockable k0" using ok(3) T0 N(3) by (auto simp: lockable_def)
  obtain q where q: "1 \<le> q" "q \<le> PID_MAX" "fst (g_pidhash k0 (PIDHASH q)) = NULL"
    "assignpid_loop MAX_TASKS t k0 = (OK, k0\<lparr>g_lastpid := q, g_pidhash := (g_pidhash k0)(PIDHASH q := (t, q)), tcb_pid := (tcb_pid k0)(t := q)\<rparr>)"
    using free_slot_assigned [OF pid0 ok0 i(1)] i(2) T0(2) by auto
  have t0: "t \<notin> live k0" using t l0 by simp
  obtain k2 where k2: "task_schedsetup t (int p) k0 = Some (OK, k2)" "sched_ok k2" "live k2 = insert t (live k0)"
    "tasklist k2 = (tasklist k0)(TSTATE_TASK_INACTIVE := t # tasklist k0 TSTATE_TASK_INACTIVE)"
    "g_lastpid k2 = q" "g_pidhash k2 = (g_pidhash k0)(PIDHASH q := (t, q))" "tcb_pid k2 = (tcb_pid k0)(t := q)"
    "\<And>u. u \<noteq> t \<Longrightarrow> tcb k2 u = tcb k0 u" "prio k2 t = p" "state_of k2 t = TSTATE_TASK_INACTIVE" "current_regs k2 = current_regs k0"
    using task_schedsetup_ok [OF ok0 lock0 t0 t(2) p q(4)] by (auto simp del: fun_upd_apply)
  have R: "pid_ok k2" "\<forall>u\<in>live k0. tcb_pid k0 u \<noteq> q" "sched_gettcb q k2 = t"
    using pid_ok_register [OF pid0 sched_okD(1) [OF ok0] t0 t(2) q(1-3) k2(5-7,3)] k2(4) by simp_all
  have bl: "is_blocked_state (state_of k2 t)" using k2(10) by (simp add: is_blocked_state_def)
  obtain k3 where k3: "up_unblock_task t k2 = Some k3" "sched_ok k3" "rest k3 = rest k2"
    "tasklist k3 = (tasklist k2)(state_of k2 t := remove1 t (tasklist k2 (state_of k2 t)),
       ready_list k2 t := prio_insert (prio k2) t (tasklist k2 (ready_list k2 t)))"
    by (rule up_unblock_task_ok [OF k2(2) bl])
  have r: "ready_list k2 t = (if lockcount (tcb k (hd (g_readytorun k))) \<noteq> 0 \<and> prio k (hd (g_readytorun k)) < p then TSTATE_TASK_PENDING else RTR)"
    using N(3) k2(4,8,9) T0 by (auto simp: ready_list_def)
  have pr: "prio k2 = (prio k)(t := p)" using k2(8,9) T0 by (auto simp: fun_eq_iff)
  have T3: "tasklist k3 = (tasklist k)(ready_list k2 t := prio_insert ((prio k)(t := p)) t (tasklist k (ready_list k2 t)))"
    unfolding k3(4) pr k2(4,10) T0(1) by (auto simp: fun_eq_iff r)
  have l3: "live k3 = insert t (live k)"
    unfolding live_lists [OF sched_okD(1) [OF k3(2)]] live_lists [OF L] T3 by (rule Union_list_insert) simp
  have last3: "last (g_readytorun k3) = last (g_readytorun k2)"
  proof -
    have "prio_insert ((prio k)(t := p)) t (g_readytorun k) \<noteq> []" by (simp add: prio_insert_def)
    moreover have "last (prio_insert ((prio k)(t := p)) t (g_readytorun k)) = last (g_readytorun k)"
      by (rule prio_insert_last) (use N(4) p tasks_okD(7) [OF lists_okD [OF L]] sched_okD(3) [OF ok(1)] in auto)
    ultimately show ?thesis using T3 k2(4) T0(1) by (auto simp: r)
  qed
  have m3: "kernel.more k3 = kernel.more k2" using rest_eqD(11) [OF k3(3)] .
  have p3: "pid_ok k3" using pid_ok_cong [OF m3 _ last3] l3 k2(3) l0 R(1) by simp
  have g3: "sched_gettcb q k3 = t" using R(3) unfolding sched_gettcb_def more_eqD(2) [OF m3] .
  have fresh: "\<forall>u\<in>live k. tcb_pid k u \<noteq> q"
  proof
    fix u assume u: "u \<in> live k"
    then show "tcb_pid k u \<noteq> q" using R(2) l0 T0(5) t(1) by (cases "u = t") auto
  qed
  have "thread_create t True True (int p) k = Some (q, k3)"
    using t(2) k2(1,7) k3(1) unfolding thread_create_def by (simp add: k0_def [symmetric] task_activate_def Let_def)
  moreover have "tasklist k3 = (let s = (if lockcount (tcb k (hd (g_readytorun k))) \<noteq> 0 \<and> prio k (hd (g_readytorun k)) < p
        then TSTATE_TASK_PENDING else RTR) in (tasklist k)(s := prio_insert ((prio k)(t := p)) t (tasklist k s)))"
    using T3 unfolding r Let_def .
  moreover have "current_regs k3 = current_regs k" using rest_eqD(9) [OF k3(3)] k2(11) T0(4) by simp
  moreover have "lockcount (tcb k3 u) = lockcount (tcb k u)" if "u \<noteq> t" for u
    using rest_eqD(2) [OF k3(3), of u] k2(8) [OF that] T0(6) [OF that] by simp
  ultimately show thesis
    using that [of q k3] k3(2) p3 q(1) fresh g3 l3 by blast
qed

lemma thread_create_full:
  assumes ok: "sched_ok k" "lockable k" "0 \<le> g_lastpid k" "g_lastpid k \<le> PID_MAX" and t: "t \<notin> live k" "t \<noteq> NULL"
    and full: "\<forall>i<MAX_TASKS. fst (g_pidhash k i) \<noteq> NULL"
  obtains q where "thread_create t True True p k = Some (ERROR, set_errno ENOMEM
    (upd_tcb t (\<lambda>_. zero_tcb) (k\<lparr>tcb_pid := (tcb_pid k)(t := 0), init_priority := (init_priority k)(t := 0), g_lastpid := q\<rparr>)))"
    "0 \<le> q" "q \<le> PID_MAX"
proof -
  define k0 where "k0 = upd_tcb t (\<lambda>_. zero_tcb) (k\<lparr>tcb_pid := (tcb_pid k)(t := 0), init_priority := (init_priority k)(t := 0)\<rparr>)"
  note N = not_live [OF sched_okD(1) [OF ok(1)] t(1)]
  have ok0: "sched_ok k0" unfolding k0_def by (rule sched_ok_new_tcb) (use ok(1) t in \<open>simp_all add: zero_tcb_def\<close>)
  have lock0: "lockable k0" using ok(2) N(3) by (auto simp: lockable_def k0_def)
  have "\<exists>q. 0 \<le> q \<and> q \<le> PID_MAX \<and> assignpid_loop MAX_TASKS t k0 = (ERROR, k0\<lparr>g_lastpid := q\<rparr>)"
    by (rule assignpid_loop_full) (use ok full in \<open>auto simp: k0_def\<close>)
  then obtain q where q: "assignpid_loop MAX_TASKS t k0 = (ERROR, k0\<lparr>g_lastpid := q\<rparr>)" "0 \<le> q" "q \<le> PID_MAX" by blast
  have "task_schedsetup t p k0 = Some (ERROR, k0\<lparr>g_lastpid := q\<rparr>)"
    using task_assignpid_eq [OF ok0 lock0, of t] q by (simp add: task_schedsetup_def)
  then have "thread_create t True True p k = Some (ERROR, set_errno ENOMEM (sched_releasetcb t (k0\<lparr>g_lastpid := q\<rparr>)))"
    using t(2) unfolding thread_create_def by (simp add: k0_def [symmetric] Let_def)
  moreover have "sched_releasetcb t (k0\<lparr>g_lastpid := q\<rparr>) = k0\<lparr>g_lastpid := q\<rparr>"
    by (simp add: sched_releasetcb_def k0_def)
  moreover have "k0\<lparr>g_lastpid := q\<rparr> = upd_tcb t (\<lambda>_. zero_tcb) (k\<lparr>tcb_pid := (tcb_pid k)(t := 0), init_priority := (init_priority k)(t := 0), g_lastpid := q\<rparr>)"
    by (simp add: k0_def upd_tcb_def)
  ultimately show thesis using that [of q] q(2,3) by simp
qed

subsection \<open>Deleting a task\<close>

lemma remove_from_list_ok:
  assumes ok: "sched_ok k" and d: "d \<in> live k" "d \<noteq> hd (g_readytorun k)" "d \<noteq> last (g_readytorun k)"
  defines "k' \<equiv> remove_from_list d k"
  shows "sched_ok k'" "live k' = live k - {d}"
    "tasklist k' = (tasklist k)(list_of (state_of k d) := remove1 d (tasklist k (list_of (state_of k d))))"
    "last (g_readytorun k') = last (g_readytorun k)" "hd (g_readytorun k') = hd (g_readytorun k)"
proof -
  note L = sched_okD(1) [OF ok]
  let ?s = "list_of (state_of k d)"
  have st: "state_of k d \<noteq> TSTATE_TASK_INVALID" "state_of k d \<noteq> TSTATE_TASK_RUNNING"
    using d running_iff [OF L, of d] by (auto simp: live_def)
  have fin: "lists_ok k'" if "tasks_ok ((state_of k)(d := TSTATE_TASK_INVALID)) (prio k) ((tasklist k)(?s := remove1 d (tasklist k ?s)))"
    using that by (rule lists_ok_funs) (auto simp: k'_def remove_from_list_def Let_def fun_eq_iff)
  have L': "lists_ok k'"
  proof (cases "state_of k d = RTR")
    case True
    then show ?thesis
      using fin tasks_ok_remove_ready [OF lists_okD [OF L], of d] ready_iff [OF L, of d] d by (simp add: is_ready_state_def)
  next
    case False
    then have "plain_list (state_of k d)" using st by (auto simp: plain_list_def)
    then show ?thesis using fin tasks_ok_remove_plain [OF lists_okD [OF L], of "state_of k d" d] by simp
  qed
  show T: "tasklist k' = (tasklist k)(?s := remove1 d (tasklist k ?s))"
    by (simp add: k'_def remove_from_list_def Let_def)
  show "live k' = live k - {d}" by (auto simp: k'_def remove_from_list_def Let_def live_def)
  obtain x xs where rs: "g_readytorun k = x # xs" using sched_okD(3) [OF ok] by (cases "g_readytorun k") auto
  show hd: "hd (g_readytorun k') = hd (g_readytorun k)" using rs d(2) by (auto simp: T)
  show "last (g_readytorun k') = last (g_readytorun k)"
    using rs d(2,3) by (cases xs rule: rev_cases) (auto simp: T remove1_append)
  have "lockcount (tcb k' u) = lockcount (tcb k u)" for u by (simp add: k'_def remove_from_list_def Let_def)
  moreover have "g_pendingtasks k' \<noteq> [] \<Longrightarrow> g_pendingtasks k \<noteq> []" by (auto simp: T split: if_splits)
  moreover have "cpu k' = cpu k" by (simp add: k'_def remove_from_list_def Let_def)
  ultimately show "sched_ok k'" using L' ok hd by (auto simp: sched_ok_def)
qed

lemma remove_from_list_frame [simp]:
  "g_pidhash (remove_from_list d k) = g_pidhash k" "tcb_pid (remove_from_list d k) = tcb_pid k"
  "g_lastpid (remove_from_list d k) = g_lastpid k" "current_regs (remove_from_list d k) = current_regs k"
  by (simp_all add: remove_from_list_def Let_def)

lemma gettcb_live:
  assumes "pid_ok k" and "sched_gettcb pid k = d" "d \<noteq> NULL"
  shows "d \<in> live k" "tcb_pid k d = pid" "0 \<le> pid"
proof -
  have p: "0 \<le> pid" "g_pidhash k (PIDHASH pid) = (d, pid)"
    using assms(2,3) by (auto simp: sched_gettcb_def Let_def split: if_splits prod.splits)
  then show "0 \<le> pid" "d \<in> live k" "tcb_pid k d = pid" using pid_okD(4,5) [OF assms(1), of "PIDHASH pid"] assms(3) by auto
qed

lemma pid_ok_release:
  assumes ok: "pid_ok k" "lists_ok k" and d: "d \<in> live k" "tcb_pid k d = pid" "pid \<noteq> 0"
    and k': "g_lastpid k' = g_lastpid k" "g_pidhash k' = (g_pidhash k)(PIDHASH pid := (NULL, INVALID_PROCESS_ID))" "tcb_pid k' = tcb_pid k"
    "live k' = live k - {d}" "last (g_readytorun k') = last (g_readytorun k)"
  shows "pid_ok k'" "sched_gettcb pid k' = NULL"
proof -
  note P = pid_okD [OF ok(1)]
  have own: "PIDHASH (tcb_pid k u) \<noteq> PIDHASH pid" if "u \<in> live k" "u \<noteq> d" for u
    using P(8) [OF that(1)] P(8) [OF d(1)] d(2) that(2) by auto
  have slot: "g_pidhash k (PIDHASH pid) = (d, pid)" using P(8) [OF d(1)] d(2) by simp
  have A: "PIDHASH q = i \<and> tcb_pid k' u = q \<and> u \<in> live k'" if "i < 16" "g_pidhash k' i = (u, q)" "u \<noteq> NULL" for i u q
  proof -
    have i: "i \<noteq> PIDHASH pid" "g_pidhash k i = (u, q)" using that k'(2) by (auto split: if_splits)
    then have u: "PIDHASH q = i" "tcb_pid k u = q" "u \<in> live k" using P(4-6) [of i] that by auto
    then have "u \<noteq> d" using i(1) d(2) by auto
    with u k' show ?thesis by simp
  qed
  have B: "0 \<le> tcb_pid k' u \<and> g_pidhash k' (PIDHASH (tcb_pid k' u)) = (u, tcb_pid k' u)" if "u \<in> live k'" for u
  proof -
    have "u \<in> live k" "u \<noteq> d" using that k'(4) by auto
    then show ?thesis using P(7,8) [of u] own [of u] k' by simp
  qed
  show "pid_ok k'" unfolding pid_ok_def using A B P(1-3) k'(1,3,5) by simp
  show "sched_gettcb pid k' = NULL" using k'(2) by (simp add: sched_gettcb_def)
qed

theorem task_delete_other_ok:
  assumes ok: "sched_ok k" "pid_ok k" "lockable k" and d: "sched_gettcb pid k = d" "d \<noteq> NULL" "d \<noteq> hd (g_readytorun k)" "pid \<noteq> 0"
  obtains k' where "task_delete_other pid k = Some (ERROR, k')" "sched_ok k'" "pid_ok k'" "live k' = live k - {d}"
    "sched_gettcb pid k' = NULL" "current_regs k' = current_regs k"
    "tasklist k' = (tasklist k)(list_of (state_of k d) := remove1 d (tasklist k (list_of (state_of k d))))"
proof -
  note G = gettcb_live [OF ok(2) d(1,2)]
  note L = sched_okD(1) [OF ok(1)]
  have last: "d \<noteq> last (g_readytorun k)" using pid_okD(3) [OF ok(2)] G(2) d(4) by auto
  note R = remove_from_list_ok [OF ok(1) G(1) d(3) last]
  let ?k = "remove_from_list d k"
  have lk: "remove_from_list d (locked k) = locked ?k"
    using d(3) R(3,5) upd_tcb_comm [of d "hd (g_readytorun k)"]
    by (simp add: remove_from_list_def locked_def Let_def set_list_upd_tcb)
  have un: "sched_unlock (locked ?k) = Some ?k"
    by (rule sched_ok_unlock [OF R(1)]) (use ok(3) in \<open>simp add: lockable_def\<close>)
  have g: "sched_gettcb pid (locked k) = d" using d(1) unfolding sched_gettcb_def locked_def upd_tcb_ext .
  have st: "state_of (locked k) d \<noteq> TSTATE_TASK_RUNNING" using d(3) running_iff [OF L, of d] by (simp add: locked_def)
  let ?k' = "sched_releasepid pid ?k"
  have rel: "sched_releasetcb d ?k = ?k'" using d(2,4) G(2) by (simp add: sched_releasetcb_def)
  have run: "task_delete_other pid k = Some (ERROR, ?k')"
    using sched_lock_locked [OF ok(1,3)] g st d(2) lk un rel by (simp add: task_delete_other_def)
  have "pid_ok ?k'" "sched_gettcb pid ?k' = NULL"
    by (rule pid_ok_release [OF ok(2) L G(1,2) d(4)]; use R(2,4) in \<open>simp add: sched_releasepid_def\<close>)+
  then show thesis
    using that [of ?k'] run R by (simp add: sched_releasepid_def)
qed

subsection \<open>A task that exits\<close>

text \<open>
  The state just before the pending tasks are merged: the exiting task is gone, its pid is
  released, and the new head of the ready-to-run list has been locked once.
\<close>

definition exited :: "'z task_kernel_scheme \<Rightarrow> 'z task_kernel_scheme \<Rightarrow> 'z task_kernel_scheme" where
  "exited k k1 = sched_releasepid (tcb_pid k (hd (g_readytorun k))) k1"

lemma sched_lock_nonidle:
  assumes "g_readytorun k \<noteq> []" "hd (g_readytorun k) \<noteq> NULL" "lockable k"
  shows "sched_lock k = Some (locked k)"
  using assms by (simp add: sched_lock_def lockable_def locked_def)

lemma deletecurrent_unfold:
  assumes ok: "sched_ok k" "pid_ok k" "\<not> current_regs k" and rs: "g_readytorun k = d # r # rs"
    and lock: "lockcount (tcb k r) + 1 < MAX_LOCK_COUNT"
    and k1: "sched_removereadytorun d k = Some (True, k1)" "lists_ok k1" "rest k1 = rest k"
      "tasklist k1 = (tasklist k)(RTR := r # rs)" "state_of k1 d = TSTATE_TASK_INVALID"
  shows "task_deletecurrent k =
     do { k \<leftarrow> (if g_pendingtasks k \<noteq> [] then map_option snd (merge_pending (locked (exited k k1))) else Some (locked (exited k k1)));
          k \<leftarrow> sched_unlock k; Some (OK, k) }"
proof -
  note L = sched_okD(1) [OF ok(1)]
  note m1 = more_eqD [OF rest_eqD(11) [OF k1(3)]]
  have dr: "d \<noteq> r" using tasks_okD(3) [OF lists_okD [OF L], of RTR] rs by simp
  have nn: "r \<noteq> NULL" "d \<noteq> NULL" using nonnull_tasks [OF L, of _ RTR] rs by auto
  have live: "d \<in> live k" "r \<in> live k" using live_lists [OF L] rs by (auto intro: exI [of _ RTR])
  have d1: "d \<notin> set (tasklist k1 s)" for s using tasks_okD(4) [OF lists_okD [OF k1(2)], of d s] k1(5) by auto
  have r1: "state_of k1 r = TSTATE_TASK_RUNNING" using running_iff [OF k1(2), of r] k1(4) by simp
  have dl: "d \<noteq> last (g_readytorun k)"
    using rs tasks_okD(3) [OF lists_okD [OF L], of RTR] by auto
  have pid: "tcb_pid k d \<noteq> 0" "tcb_pid k d \<noteq> tcb_pid k r" "0 \<le> tcb_pid k d" "g_pidhash k (PIDHASH (tcb_pid k d)) = (d, tcb_pid k d)"
  proof -
    note P = pid_okD [OF ok(2)]
    have "last (g_readytorun k) \<in> live k"
      using live_lists [OF L] last_in_set [OF sched_okD(3) [OF ok(1)]] by auto
    then show "tcb_pid k d \<noteq> 0" using P(8) [OF live(1)] P(8) [of "last (g_readytorun k)"] P(3) dl by auto
    show "tcb_pid k d \<noteq> tcb_pid k r" using P(8) [OF live(1)] P(8) [OF live(2)] dr by auto
    show "0 \<le> tcb_pid k d" "g_pidhash k (PIDHASH (tcb_pid k d)) = (d, tcb_pid k d)" using P(7,8) [OF live(1)] by simp_all
  qed
  have lc: "lockcount (tcb k1 r) = lockcount (tcb k r)" "\<not> current_regs k1" using rest_eqD(2,9) [OF k1(3)] ok(3) by simp_all
  have l1: "sched_lock k1 = Some (locked k1)"
    by (rule sched_lock_nonidle) (use k1(4) nn lock lc in \<open>simp_all add: lockable_def\<close>)
  define k2 where "k2 = set_state r RTR (locked k1)"
  define k3 where "k3 = set_state d TSTATE_TASK_INACTIVE (set_list TSTATE_TASK_INACTIVE (tasklist k TSTATE_TASK_INACTIVE @ [d]) k2)"
  have T3: "tasklist k3 = (tasklist k)(RTR := r # rs, TSTATE_TASK_INACTIVE := tasklist k TSTATE_TASK_INACTIVE @ [d])"
    "g_pidhash k3 = g_pidhash k" "tcb_pid k3 = tcb_pid k" "current_regs k3 = current_regs k1"
    by (simp_all add: k3_def k2_def locked_def k1(4) m1)
  have ab: "sched_addblocked d TSTATE_TASK_INACTIVE k2 = Some k3"
    by (simp add: sched_addblocked_def is_blocked_state_def k3_def k2_def locked_def k1(4))
  have l3: "sched_lock k3 = Some (locked k3)"
    by (rule sched_lock_nonidle) (use T3 nn lock lc k1(4) dr in \<open>simp_all add: lockable_def k3_def k2_def locked_def\<close>)
  have g3: "sched_gettcb (tcb_pid k d) (locked k3) = d"
    using pid(3,4) T3 by (simp add: sched_gettcb_def locked_def)
  have s3: "state_of (locked k3) d = TSTATE_TASK_INACTIVE" using dr T3(1) by (simp add: locked_def k3_def)
  define k4 where "k4 = remove_from_list d k3"
  have rem: "remove_from_list d (locked k3) = locked k4"
    using T3(1) dr upd_tcb_comm [of d r] by (simp add: k4_def remove_from_list_def locked_def Let_def set_list_upd_tcb k3_def)
  have T4: "g_readytorun k4 = r # rs" "\<not> current_regs k4" "lockcount (tcb k4 r) = Suc (lockcount (tcb k r))" "tcb_pid k4 = tcb_pid k"
    using lc dr T3 k1(4) by (simp_all add: k4_def remove_from_list_def Let_def k3_def k2_def locked_def)
  have un: "sched_unlock (locked k4) = Some k4"
    by (rule sched_unlock_locked) (use T4 nn in simp_all)
  have del: "task_delete_other (tcb_pid k d) k3 = Some (ERROR, sched_releasepid (tcb_pid k d) k4)"
    using l3 g3 s3 nn rem un pid(1) T4(4) by (simp add: task_delete_other_def sched_releasetcb_def)
  have bk: "set_state r TSTATE_TASK_RUNNING k4 = locked k1"
  proof -
    have "tcb (set_state r TSTATE_TASK_RUNNING k4) u = tcb (locked k1) u" for u
      using k1(4,5) dr r1 by (cases "u = d"; cases "u = r") (auto simp: k4_def remove_from_list_def Let_def k3_def k2_def locked_def intro!: tcb.equality)
    moreover have "tasklist (set_state r TSTATE_TASK_RUNNING k4) u = tasklist (locked k1) u" for u
      using k1(4) d1 [of TSTATE_TASK_INACTIVE] dr
      by (auto simp: k4_def remove_from_list_def Let_def k3_def k2_def locked_def remove1_append)
    ultimately show ?thesis
      by (intro kernel.equality ext) (auto simp: k4_def remove_from_list_def Let_def k3_def k2_def locked_def set_list_def upd_tcb_def)
  qed
  have pk: "g_pidhash k4 = g_pidhash k1" using arg_cong [OF bk, of g_pidhash] by (simp add: locked_def)
  have fin: "set_state r TSTATE_TASK_RUNNING (sched_releasepid (tcb_pid k d) k4) = locked (exited k k1)"
    using bk rs k1(4) pk by (simp add: locked_def exited_def sched_releasepid_def upd_tcb_ext_comm [symmetric])
  have pend: "g_pendingtasks (sched_releasepid (tcb_pid k d) k4) = g_pendingtasks k"
    using arg_cong [OF fin, of tasklist] k1(4) by (simp add: locked_def exited_def sched_releasepid_def)
  show ?thesis
    unfolding task_deletecurrent_def Let_def
    using rs k1(1,4) l1 ab del fin pend pid(1,2) T3(1,3) by (simp add: k2_def [symmetric])
qed

theorem up_exit_ok:
  assumes ok: "sched_ok k" "pid_ok k" "\<not> current_regs k" and rs: "g_readytorun k = d # r # rs"
    and lock: "lockcount (tcb k r) + 1 < MAX_LOCK_COUNT"
  obtains k' where "up_exit k = Some k'" "sched_ok k'" "pid_ok k'" "live k' = live k - {d}"
    "tasklist k' = (tasklist k)(RTR := fold (prio_insert (prio k)) (g_pendingtasks k) (r # rs), TSTATE_TASK_PENDING := [])"
    "cpu k' = hd (g_readytorun k')" "\<not> current_regs k'" "g_pendingtasks k = [] \<Longrightarrow> lockcount (tcb k' r) = lockcount (tcb k r)"
    "hd (g_readytorun k') \<noteq> r \<Longrightarrow> lockcount (tcb k' r) = Suc (lockcount (tcb k r))"
proof -
  note L = sched_okD(1) [OF ok(1)]
  have dl: "d \<noteq> last (g_readytorun k)" and dm: "d \<in> set (g_readytorun k)" and hd: "d = hd (g_readytorun k)" and dr: "d \<noteq> r"
    using rs tasks_okD(3) [OF lists_okD [OF L], of RTR] by auto
  have live: "d \<in> live k" using live_lists [OF L] dm by auto
  obtain k1 where k1: "sched_removereadytorun d k = Some (True, k1)" "lists_ok k1" "rest k1 = rest k" "cpu k1 = cpu k"
    "state_of k1 d = TSTATE_TASK_INVALID" "tasklist k1 = (tasklist k)(RTR := r # rs)"
    using sched_removereadytorun_ok [OF L dm dl] rs dr by auto
  note m1 = more_eqD [OF rest_eqD(11) [OF k1(3)]]
  let ?e = "exited k k1" and ?rs = "fold (prio_insert (prio k)) (g_pendingtasks k) (r # rs)"
  have un: "task_deletecurrent k = do { k \<leftarrow> (if g_pendingtasks k \<noteq> [] then map_option snd (merge_pending (locked ?e)) else Some (locked ?e));
      k \<leftarrow> sched_unlock k; Some (OK, k) }"
    by (rule deletecurrent_unfold [OF ok rs lock k1(1-3,6,5)])
  have e: "lists_ok ?e" "tasklist ?e = (tasklist k)(RTR := r # rs)" "\<not> current_regs ?e" "tcb ?e = tcb k1" "cpu ?e = cpu k"
    using k1(2,4,6) rest_eqD(9) [OF k1(3)] ok(3) by (simp_all add: exited_def sched_releasepid_def)
  have lk: "lists_ok (locked ?e)" "tasklist (locked ?e) = (tasklist k)(RTR := r # rs)" "\<not> current_regs (locked ?e)"
    "lockcount (tcb (locked ?e) r) = Suc (lockcount (tcb k r))" "prio (locked ?e) = prio k"
    using e rest_eqD(1,2) [OF k1(3)] by (auto simp: locked_def lists_ok_upd_tcb fun_eq_iff)
  have nn: "r \<noteq> NULL" using nonnull_tasks [OF L, of r RTR] rs by auto
  obtain k3 where k3: "task_deletecurrent k = Some (OK, k3)" "lists_ok k3" "kernel.more k3 = kernel.more ?e"
    "\<not> current_regs k3"
    "tasklist k3 = (tasklist k)(RTR := ?rs, TSTATE_TASK_PENDING := [])"
    "g_pendingtasks k = [] \<Longrightarrow> lockcount (tcb k3 r) = lockcount (tcb k r)"
    "hd ?rs \<noteq> r \<Longrightarrow> lockcount (tcb k3 r) = Suc (lockcount (tcb k r))"
  proof (cases "g_pendingtasks k = []")
    case True
    have "sched_unlock (locked ?e) = Some ?e"
      by (rule sched_unlock_locked) (use e nn True in simp_all)
    moreover have "tasklist ?e = (tasklist k)(RTR := ?rs, TSTATE_TASK_PENDING := [])"
      using True e(2) by (auto simp: fun_eq_iff)
    ultimately show thesis
      using that [of ?e] un True e rest_eqD(2) [OF k1(3)] by simp
  next
    case False
    have pe: "g_pendingtasks (locked ?e) = g_pendingtasks k" "g_readytorun (locked ?e) = r # rs" using lk(2) by simp_all
    obtain k2 where k2: "merge_pending (locked ?e) = Some (hd ?rs \<noteq> hd (r # rs), k2)" "lists_ok k2" "rest k2 = rest (locked ?e)"
      "tasklist k2 = (tasklist (locked ?e))(RTR := ?rs, TSTATE_TASK_PENDING := [])"
      using merge_pending_ok [OF lk(1)] unfolding pe lk(5) by blast
    define h where "h = list_head (g_readytorun k2)"
    have T2: "tasklist k2 = (tasklist k)(RTR := ?rs, TSTATE_TASK_PENDING := [])" unfolding k2(4) lk(2) by simp
    have h: "h = hd ?rs" using tasks_okD(1) [OF lists_okD [OF k2(2)]] T2 by (simp add: h_def)
    have c2: "\<not> current_regs k2" "lockcount (tcb k2 r) = Suc (lockcount (tcb k r))"
      using rest_eqD(2,9) [OF k2(3)] lk(3,4) by simp_all
    define f where "f = lockcount_update (\<lambda>n. n - 1)"
    have "\<exists>k3. sched_unlock k2 = Some k3 \<and> lists_ok k3 \<and> \<not> current_regs k3 \<and> kernel.more k3 = kernel.more k2 \<and> tasklist k3 = tasklist k2 \<and>
      (\<forall>u. u \<noteq> h \<longrightarrow> tcb k3 u = tcb k2 u)"
      unfolding sched_unlock_def Let_def h_def [symmetric] using k2(2) c2 T2
      by (auto simp: lists_ok_upd_tcb)
    then obtain k3 where "sched_unlock k2 = Some k3" "lists_ok k3" "\<not> current_regs k3" "kernel.more k3 = kernel.more k2" "tasklist k3 = tasklist k2"
      "\<And>u. u \<noteq> h \<Longrightarrow> tcb k3 u = tcb k2 u" by blast
    then show thesis
      using that [of k3] un False k2 T2 h c2 rest_eqD(11) [OF k2(3)] by (simp add: locked_def)
  qed
  let ?k = "switch_context k3"
  have m3: "g_lastpid ?k = g_lastpid k" "g_pidhash ?k = (g_pidhash k)(PIDHASH (tcb_pid k d) := (NULL, INVALID_PROCESS_ID))" "tcb_pid ?k = tcb_pid k"
    using more_eqD [OF k3(3)] m1 rs by (simp_all add: exited_def sched_releasepid_def switch_context_def)
  have L3: "lists_ok ?k" using k3(2) by (simp add: lists_ok_def)
  have ne: "?rs \<noteq> []" using tasks_okD(1) [OF lists_okD [OF k3(2)]] k3(5) by simp
  have sch: "sched_ok ?k" using L3 k3(5) ne by (simp add: sched_ok_def)
  have l3: "live ?k = live k - {d}"
  proof -
    have "d \<notin> set (tasklist k1 s)" for s using tasks_okD(4) [OF lists_okD [OF k1(2)], of d s] k1(5) by auto
    then have d1: "d \<notin> set (((tasklist k)(RTR := r # rs)) s)" for s unfolding k1(6) .
    have A: "u \<in> set (tasklist ?k s) \<Longrightarrow> u \<in> live k - {d}" for u s
      using d1 [of s] d1 [of TSTATE_TASK_PENDING] d1 [of RTR] rs exI [of "\<lambda>x. u \<in> set (tasklist k x)" RTR] unfolding live_lists [OF L]
      by (auto simp: k3(5) split: if_splits)
    have B: "u \<in> set (tasklist k s) \<Longrightarrow> u \<noteq> d \<Longrightarrow> u \<in> live ?k" for u s
      using rs unfolding live_lists [OF L3] by (cases "s = RTR"; cases "s = TSTATE_TASK_PENDING") (auto simp: k3(5) intro: exI [of _ s] exI [of _ RTR])
    show ?thesis
    proof (rule set_eqI)
      fix u show "u \<in> live ?k \<longleftrightarrow> u \<in> live k - {d}"
        using A [of u] B [of u] live_lists [OF L3] live_lists [OF L] by blast
    qed
  qed
  have pid: "tcb_pid k d \<noteq> 0"
  proof -
    note P = pid_okD [OF ok(2)]
    have "last (g_readytorun k) \<in> live k" using live_lists [OF L] last_in_set [OF sched_okD(3) [OF ok(1)]] by auto
    then show ?thesis using P(8) [OF live] P(8) [of "last (g_readytorun k)"] P(3) dl by auto
  qed
  have last: "last (g_readytorun ?k) = last (g_readytorun k)"
  proof -
    have "last (fold (prio_insert (prio k)) ps xs) = last xs" if "xs \<noteq> []" "\<forall>p\<in>set ps. prio k (last xs) < prio k p" for ps xs
      using that
    proof (induction ps arbitrary: xs)
      case (Cons p ps)
      have "prio_insert (prio k) p xs \<noteq> []" by (simp add: prio_insert_def)
      then show ?case using Cons.IH [of "prio_insert (prio k) p xs"] Cons.prems prio_insert_last [of xs "prio k" p] by simp
    qed simp
    moreover have "prio k (last (r # rs)) < prio k p" if p: "p \<in> set (g_pendingtasks k)" for p
    proof -
      have "state_of k p = TSTATE_TASK_PENDING" using state_by_list [OF L p] by (simp add: plain_list_def)
      then have "1 \<le> prio k p" using task_prio(1) [OF L, of p] not_idle [OF L, of p] by (simp add: is_ready_state_def)
      moreover have "last (r # rs) = last (g_readytorun k)" using rs by simp
      ultimately show ?thesis using tasks_okD(7) [OF lists_okD [OF L]] by simp
    qed
    ultimately show ?thesis using rs k3(5) by simp
  qed
  have "pid_ok ?k" by (rule pid_ok_release(1) [OF ok(2) L live refl pid m3 l3 last])
  then show thesis
    using that [of ?k] k3 sch l3 ne by (simp add: up_exit_def)
qed

lemma task_restart_error:
  assumes "sched_ok k" "lockable k" and "pid = 0 \<or> pid = tcb_pid k (hd (g_readytorun k)) \<or> sched_gettcb pid k = NULL"
  shows "task_restart pid k = Some (ERROR, locked k)"
proof -
  have "tcb_pid (locked k) = tcb_pid k" "list_head (g_readytorun (locked k)) = hd (g_readytorun k)" "sched_gettcb pid (locked k) = sched_gettcb pid k"
    using sched_okD(3) [OF assms(1)] by (simp_all add: locked_def sched_gettcb_def)
  then show ?thesis
    using sched_lock_locked [OF assms(1,2)] assms(3) by (auto simp: task_restart_def Let_def)
qed

subsection \<open>The state after booting\<close>

lemma os_start_ok:
  assumes "idle \<noteq> NULL"
  shows "sched_ok (os_start idle)" "pid_ok (os_start idle)" "live (os_start idle) = {idle}" "lockable (os_start idle)"
proof -
  have l: "s = RTR \<or> tasklist (os_start idle) s = []" for s by (simp add: os_start_def)
  have st: "state_of (os_start idle) t = (if t = idle then TSTATE_TASK_RUNNING else TSTATE_TASK_INVALID)" for t
    by (simp add: os_start_def zero_tcb_def)
  have pr: "prio (os_start idle) t = 0" for t by (simp add: os_start_def zero_tcb_def)
  have rt: "g_readytorun (os_start idle) = [idle]" by (simp add: os_start_def)
  have "tasks_ok (state_of (os_start idle)) (prio (os_start idle)) (tasklist (os_start idle))"
    unfolding tasks_ok_def
  proof (intro conjI allI)
    fix s t
    show "t \<in> set (tasklist (os_start idle) s) \<longleftrightarrow> s \<noteq> TSTATE_TASK_INVALID \<and> list_of (state_of (os_start idle) t) = s"
      using l [of s] rt st [of t] by auto
    show "distinct (tasklist (os_start idle) s)" "prioritized s \<longrightarrow> prio_sorted (prio (os_start idle)) (tasklist (os_start idle) s)"
      using l [of s] rt by auto
  qed (use assms rt st pr in auto)
  then show "sched_ok (os_start idle)" using rt by (simp add: sched_ok_def lists_ok_def os_start_def)
  show lv: "live (os_start idle) = {idle}" by (auto simp: live_def st)
  show "lockable (os_start idle)" by (simp add: lockable_def os_start_def zero_tcb_def)
  show "pid_ok (os_start idle)" unfolding pid_ok_def lv rt
    by (auto simp: os_start_def PIDHASH_mod PID_MAX_def split: if_splits)
qed

end
