(* ===== verification/Kernel.thy ===== *)
theory Kernel
  imports Task_Ops
begin

section \<open>Properties of the scheduler\<close>

text \<open>
  The kernel as a state machine: the operations of the scheduler and of the task
  management in any order, each under the condition its callers establish, started in the state
  of \<open>os_start\<close>. The invariant \<open>kernel_inv\<close> holds in every reachable state and every enabled operation
  returns. The interface the synchronisation objects use, blocking on a queue and being woken
  from it, is the locale \<open>wait_queues\<close>; \<open>up_block_task\<close> and \<open>up_unblock_task\<close> provide it.
\<close>

subsection \<open>The kernel as a state machine\<close>

datatype kernel_op =
    Block tstate | Unblock addr | Lock | Unlock | Reprioritize addr int | Yield | Tick
  | Create addr int | Delete int | Exit

fun exec :: "kernel_op \<Rightarrow> task_kernel \<Rightarrow> task_kernel option" where
  "exec (Block s) k = up_block_task (list_head (g_readytorun k)) s k"
| "exec (Unblock t) k = up_unblock_task t k"
| "exec Lock k = sched_lock k"
| "exec Unlock k = sched_unlock k"
| "exec (Reprioritize t p) k = map_option snd (sched_reprioritize t p k)"
| "exec Yield k = map_option snd (sched_yield k)"
| "exec Tick k = sched_process_timeslice k"
| "exec (Create t p) k = map_option snd (thread_create t True True p k)"
| "exec (Delete pid) k = map_option snd (task_delete_other pid k)"
| "exec Exit k = up_exit k"

text \<open>When an operation may be called: what its callers check or the programmer has to ensure.\<close>

fun enabled :: "kernel_op \<Rightarrow> task_kernel \<Rightarrow> bool" where
  "enabled (Block s) k \<longleftrightarrow> is_blocked_state s \<and> length (g_readytorun k) > 1"
| "enabled (Unblock t) k \<longleftrightarrow> is_blocked_state (state_of k t)"
| "enabled Lock k \<longleftrightarrow> sched_lockcount k < MAX_LOCK_COUNT"
| "enabled Unlock k \<longleftrightarrow> True"
| "enabled (Reprioritize t p) k \<longleftrightarrow> state_of k t \<noteq> TSTATE_TASK_INVALID \<and> t \<noteq> last (g_readytorun k)"
| "enabled Yield k \<longleftrightarrow> True"
| "enabled Tick k \<longleftrightarrow> True"
| "enabled (Create t p) k \<longleftrightarrow> t \<noteq> NULL \<and> state_of k t = TSTATE_TASK_INVALID \<and> 1 \<le> p \<and> p \<le> 255 \<and>
     sched_lockcount k < MAX_LOCK_COUNT"
| "enabled (Delete pid) k \<longleftrightarrow> pid \<noteq> 0 \<and> pid \<noteq> tcb_pid k (list_head (g_readytorun k)) \<and>
     sched_lockcount k < MAX_LOCK_COUNT"
| "enabled Exit k \<longleftrightarrow> length (g_readytorun k) > 1 \<and> lockcount (tcb k (g_readytorun k ! 1)) + 1 < MAX_LOCK_COUNT"

inductive reachable :: "task_kernel \<Rightarrow> bool" where
  boot: "idle \<noteq> NULL \<Longrightarrow> reachable (os_start idle)"
| step: "reachable k \<Longrightarrow> enabled op k \<Longrightarrow> exec op k = Some k' \<Longrightarrow> reachable k'"

definition kernel_inv :: "task_kernel \<Rightarrow> bool" where
  "kernel_inv k \<longleftrightarrow> sched_ok k \<and> pid_ok k \<and> \<not> current_regs k"

lemma idle_unique:
  assumes "lists_ok k" and "t \<in> live k"
  shows "t = last (g_readytorun k) \<longleftrightarrow> prio k t = 0"
  using tasks_okD(7) [OF lists_okD [OF assms(1)]] tasks_okD(8) [OF lists_okD [OF assms(1)], of t] assms(2)
  by (cases "t = last (g_readytorun k)") (auto simp: live_def)

lemma idle_live: "lists_ok k \<Longrightarrow> last (g_readytorun k) \<in> live k"
  using live_lists [of k] last_in_set [OF tasks_okD(1) [OF lists_okD]] by auto

lemma kernel_inv_step:
  assumes inv: "kernel_inv k" and ok: "sched_ok k'" and more: "kernel.more k' = kernel.more k"
    and cr: "current_regs k' = current_regs k" and live: "live k' = live k"
    and prio: "prio k' (last (g_readytorun k)) = 0"
  shows "kernel_inv k'"
proof -
  have L: "lists_ok k" "lists_ok k'" using inv sched_okD(1) ok by (auto simp: kernel_inv_def)
  have "last (g_readytorun k) = last (g_readytorun k')"
    using idle_unique [OF L(2), of "last (g_readytorun k)"] idle_live [OF L(1)] live prio by simp
  then show ?thesis
    using pid_ok_cong [OF more live] inv ok cr by (auto simp: kernel_inv_def)
qed

text \<open>The operations that keep everything but the lists and one priority.\<close>

lemma kernel_inv_rest:
  assumes inv: "kernel_inv k" and ok: "sched_ok k'" and r: "rest k' = rest k" and live: "live k' = live k"
  shows "kernel_inv k'"
  by (rule kernel_inv_step [OF inv ok rest_eqD(11,9) [OF r] live])
     (use rest_eqD(1) [OF r] tasks_okD(7) [OF lists_okD [OF sched_okD(1)], of k] inv in \<open>auto simp: kernel_inv_def\<close>)

lemma same_waiters_live:
  assumes "lists_ok k" "lists_ok k'" "same_waiters k k'"
  shows "live k' = live k"
proof (rule set_eqI)
  fix t
  have "t \<in> live k0 \<longleftrightarrow> t \<in> set (g_readytorun k0) \<union> set (g_pendingtasks k0) \<or> (\<exists>s. is_blocked_state s \<and> t \<in> set (tasklist k0 s))"
    if "lists_ok k0" for k0 :: "'a kernel_scheme"
    using tasks_okD(4) [OF lists_okD [OF that], of t] unfolding live_def
    by (cases "state_of k0 t") (auto simp: is_blocked_state_def)
  then show "t \<in> live k' \<longleftrightarrow> t \<in> live k" using assms unfolding same_waiters_def by auto
qed

lemma kernel_inv_set_errno: "kernel_inv k \<Longrightarrow> kernel_inv (set_errno e k)"
proof (rule kernel_inv_step)
  assume inv: "kernel_inv k"
  then show "sched_ok (set_errno e k)" by (simp add: kernel_inv_def)
  show "prio (set_errno e k) (last (g_readytorun k)) = 0"
    using tasks_okD(7) [OF lists_okD [OF sched_okD(1)], of k] inv by (auto simp: kernel_inv_def set_errno_def Let_def)
qed (auto simp: set_errno_def Let_def live_def)

lemma kernel_invD:
  assumes "kernel_inv k"
  shows "sched_ok k" "pid_ok k" "\<not> current_regs k" "lists_ok k"
    "list_head (g_readytorun k) = hd (g_readytorun k)" "hd (g_readytorun k) \<in> set (g_readytorun k)"
    "prio k (last (g_readytorun k)) = 0"
    "length (g_readytorun k) > 1 \<Longrightarrow> hd (g_readytorun k) \<noteq> last (g_readytorun k)"
    "sched_lockcount k < MAX_LOCK_COUNT \<Longrightarrow> lockable k"
proof -
  have ok: "sched_ok k" "pid_ok k" "\<not> current_regs k" using assms by (auto simp: kernel_inv_def)
  then show "sched_ok k" "pid_ok k" "\<not> current_regs k" "lists_ok k" using sched_okD(1) by auto
  show h: "list_head (g_readytorun k) = hd (g_readytorun k)" "hd (g_readytorun k) \<in> set (g_readytorun k)"
    using sched_okD(3) [OF ok(1)] by simp_all
  note D = tasks_okD [OF lists_okD [OF sched_okD(1) [OF ok(1)]]]
  show "prio k (last (g_readytorun k)) = 0" by (rule D(7))
  show "hd (g_readytorun k) \<noteq> last (g_readytorun k)" if "length (g_readytorun k) > 1"
    using that D(3) [of RTR] by (cases "g_readytorun k"; cases "tl (g_readytorun k)") auto
  show "lockable k" if "sched_lockcount k < MAX_LOCK_COUNT" using that ok(3) h by (simp add: lockable_def sched_lockcount_def)
qed

lemma exec_block:
  assumes inv: "kernel_inv k" and en: "enabled (Block s) k"
  shows "\<exists>k'. exec (Block s) k = Some k' \<and> kernel_inv k'"
proof -
  note ok = kernel_invD(1-3) [OF inv] and L = kernel_invD(4) [OF inv] and h = kernel_invD(5,6) [OF inv]
    and hl = kernel_invD(8) [OF inv] and lk = kernel_invD(9) [OF inv]
  note Lv = live_lists [OF L]
  let ?rs = "g_readytorun k"
  have s: "is_blocked_state s" "length ?rs > 1" using en by simp_all
  obtain k' where k': "up_block_task (hd ?rs) s k = Some k'" "sched_ok k'" "rest k' = rest k"
    "tasklist k' = (tasklist k)(s := (if prioritized s then prio_insert (prio k) (hd ?rs) (tasklist k s) else tasklist k s @ [hd ?rs]),
       TSTATE_TASK_PENDING := [], RTR := fold (prio_insert (prio k)) (g_pendingtasks k) (remove1 (hd ?rs) ?rs))"
    by (rule up_block_task_ok [OF ok(1) h(2) hl [OF s(2)] s(1)])
  have sr: "set ?rs = insert (hd ?rs) (set (remove1 (hd ?rs) ?rs))"
    using h(2) tasks_okD(3) [OF lists_okD [OF L], of RTR] by auto
  have "live k' = live k"
  proof (rule set_eqI)
    fix u
    have "(\<exists>v. u \<in> set (tasklist k' v)) \<longleftrightarrow> (\<exists>v. u \<in> set (tasklist k v))"
    proof
      assume "\<exists>v. u \<in> set (tasklist k' v)"
      then obtain v where "u \<in> set (tasklist k' v)" by blast
      then show "\<exists>v. u \<in> set (tasklist k v)"
        using h(2) set_remove1_subset [of "hd ?rs" ?rs] by (auto simp: k'(4) split: if_splits)
    next
      assume "\<exists>v. u \<in> set (tasklist k v)"
      then obtain v where v: "u \<in> set (tasklist k v)" by blast
      show "\<exists>v. u \<in> set (tasklist k' v)"
      proof (cases "u = hd ?rs")
        case True
        then show ?thesis using blocked_plain [OF s(1)] by (intro exI [of _ s]) (auto simp: k'(4) plain_list_def)
      next
        case False
        have "u \<in> set (g_readytorun k')" if "v = TSTATE_TASK_PENDING \<or> v = RTR"
          using that v False by (auto simp: k'(4))
        moreover have "u \<in> set (tasklist k' v)" if "v \<noteq> TSTATE_TASK_PENDING" "v \<noteq> RTR"
          using that v by (auto simp: k'(4))
        ultimately show ?thesis by blast
      qed
    qed
    then show "u \<in> live k' \<longleftrightarrow> u \<in> live k" unfolding Lv live_lists [OF sched_okD(1) [OF k'(2)]] by simp
  qed
  then show ?thesis using kernel_inv_rest [OF inv k'(2,3)] k'(1) h by simp
qed

lemma exec_unblock:
  assumes inv: "kernel_inv k" and en: "enabled (Unblock t) k"
  shows "\<exists>k'. exec (Unblock t) k = Some k' \<and> kernel_inv k'"
proof -
  note ok = kernel_invD(1-3) [OF inv] and L = kernel_invD(4) [OF inv] and h = kernel_invD(5,6) [OF inv]
    and hl = kernel_invD(8) [OF inv] and lk = kernel_invD(9) [OF inv]
  note Lv = live_lists [OF L]
  let ?rs = "g_readytorun k"
  have s: "is_blocked_state (state_of k t)" using en by simp
  obtain k' where k': "up_unblock_task t k = Some k'" "sched_ok k'" "rest k' = rest k"
    "tasklist k' = (tasklist k)(state_of k t := remove1 t (tasklist k (state_of k t)),
       ready_list k t := prio_insert (prio k) t (tasklist k (ready_list k t)))"
    by (rule up_unblock_task_ok [OF ok(1) s])
  have ne: "ready_list k t \<noteq> state_of k t" using blocked_plain [OF s] by (auto simp: ready_list_def plain_list_def)
  have "live k' = live k"
  proof -
    have "insert t (\<Union>v. set (((tasklist k)(state_of k t := remove1 t (tasklist k (state_of k t)))) v)) = (\<Union>v. set (tasklist k v))"
      using Union_list_insert [of "tasklist k (state_of k t)" t
          "(tasklist k)(state_of k t := remove1 t (tasklist k (state_of k t)))" "state_of k t"]
        blocked_in_list [OF L s, of t] tasks_okD(3) [OF lists_okD [OF L], of "state_of k t"] by auto
    moreover have "live k' = insert t (\<Union>v. set (((tasklist k)(state_of k t := remove1 t (tasklist k (state_of k t)))) v))"
      unfolding live_lists [OF sched_okD(1) [OF k'(2)]] k'(4) by (rule Union_list_insert) (use ne in simp)
    ultimately show ?thesis unfolding Lv by simp
  qed
  then show ?thesis using kernel_inv_rest [OF inv k'(2,3)] k'(1) by simp
qed

lemma exec_lock:
  assumes inv: "kernel_inv k" and en: "enabled Lock k"
  shows "\<exists>k'. exec Lock k = Some k' \<and> kernel_inv k'"
proof -
  note ok = kernel_invD(1-3) [OF inv] and L = kernel_invD(4) [OF inv] and h = kernel_invD(5,6) [OF inv]
    and hl = kernel_invD(8) [OF inv] and lk = kernel_invD(9) [OF inv]
  note Lv = live_lists [OF L]
  let ?rs = "g_readytorun k"
  have "kernel_inv (locked k)"
    by (rule kernel_inv_step [OF inv]) (use ok(1) tasks_okD(7) [OF lists_okD [OF L]] sched_lock_ok(2) [OF ok(1,3)] lk en
      in \<open>auto simp: locked_def live_def lockable_def\<close>)
  then show ?thesis using sched_lock_locked [OF ok(1) lk] en by simp
qed

lemma exec_unlock:
  assumes inv: "kernel_inv k" and en: "enabled Unlock k"
  shows "\<exists>k'. exec Unlock k = Some k' \<and> kernel_inv k'"
proof -
  note ok = kernel_invD(1-3) [OF inv] and L = kernel_invD(4) [OF inv] and h = kernel_invD(5,6) [OF inv]
    and hl = kernel_invD(8) [OF inv] and lk = kernel_invD(9) [OF inv]
  note Lv = live_lists [OF L]
  let ?rs = "g_readytorun k"
  let ?k1 = "upd_tcb (hd ?rs) (lockcount_update (\<lambda>n. n - 1)) k"
  obtain k' where k': "sched_unlock k = Some k'" "sched_ok k'" "rest k' = rest ?k1"
    "tasklist k' = (if lockcount (tcb k (hd ?rs)) \<le> 1
       then (tasklist k)(RTR := fold (prio_insert (prio k)) (g_pendingtasks k) ?rs, TSTATE_TASK_PENDING := []) else tasklist k)"
    by (rule sched_unlock_ok [OF ok(1,3)])
  have "same_waiters k k'" by (rule same_waitersI) (auto simp: k'(4) plain_list_def)
  then have "live k' = live k" using same_waiters_live L sched_okD(1) [OF k'(2)] by blast
  then have "kernel_inv k'"
    by (rule kernel_inv_step [OF inv k'(2), rotated 2])
       (use rest_eqD(1,9,11) [OF k'(3)] tasks_okD(7) [OF lists_okD [OF L]] in auto)
  then show ?thesis using k'(1) by simp
qed

lemma exec_reprioritize:
  assumes inv: "kernel_inv k" and en: "enabled (Reprioritize t p) k"
  shows "\<exists>k'. exec (Reprioritize t p) k = Some k' \<and> kernel_inv k'"
proof -
  note ok = kernel_invD(1-3) [OF inv] and L = kernel_invD(4) [OF inv] and h = kernel_invD(5,6) [OF inv]
    and hl = kernel_invD(8) [OF inv] and lk = kernel_invD(9) [OF inv]
  note Lv = live_lists [OF L]
  let ?rs = "g_readytorun k"
  have t: "state_of k t \<noteq> TSTATE_TASK_INVALID" "t \<noteq> last ?rs" using en by simp_all
  show ?thesis
  proof (cases "1 \<le> p \<and> p \<le> 255")
    case True
    obtain k' where k': "sched_reprioritize t (int (nat p)) k = Some (OK, k')" "sched_ok k'" "same_waiters k k'"
      "rest k' = rest (upd_tcb t (\<lambda>c. c\<lparr>sched_priority := nat p, base_priority := nat p, pend_reprios := []\<rparr>) k)"
      by (rule sched_reprioritize_ok [OF ok(1) t, of "nat p"]) (use True in auto)
    have "live k' = live k" using same_waiters_live L sched_okD(1) [OF k'(2)] k'(3) by blast
    then have "kernel_inv k'"
      by (rule kernel_inv_step [OF inv k'(2), rotated 2])
         (use rest_eqD(1,9,11) [OF k'(4)] tasks_okD(7) [OF lists_okD [OF L]] t in auto)
    then show ?thesis using k'(1) True by simp
  next
    case False
    have "kernel_inv (set_errno EINVAL k)" by (rule kernel_inv_set_errno [OF inv])
    moreover have "sched_setpriority t p k = Some (ERROR, set_errno EINVAL k)"
      using False by (intro sched_setpriority_error) auto
    ultimately show ?thesis by (simp add: sched_reprioritize_def)
  qed
qed

lemma exec_yield:
  assumes inv: "kernel_inv k" and en: "enabled Yield k"
  shows "\<exists>k'. exec Yield k = Some k' \<and> kernel_inv k'"
proof -
  note ok = kernel_invD(1-3) [OF inv] and L = kernel_invD(4) [OF inv] and h = kernel_invD(5,6) [OF inv]
    and hl = kernel_invD(8) [OF inv] and lk = kernel_invD(9) [OF inv]
  note Lv = live_lists [OF L]
  let ?rs = "g_readytorun k"
  show ?thesis
  proof (cases "length ?rs > 1")
    case True
    let ?t = "hd ?rs"
    have st: "state_of k ?t \<noteq> TSTATE_TASK_INVALID" using running_iff [OF L, of ?t] by simp
    obtain k' where k': "sched_setpriority ?t (int (prio k ?t)) k = Some (OK, k')" "sched_ok k'"
      "rest k' = rest (set_prio ?t (prio k ?t) k)" "same_waiters k k'"
      by (rule sched_setpriority_ok [OF ok(1) st hl [OF True] task_prio [OF L st hl [OF True]]])
    have "live k' = live k" using same_waiters_live L sched_okD(1) [OF k'(2)] k'(4) by blast
    then have "kernel_inv k'"
      by (rule kernel_inv_step [OF inv k'(2), rotated 2])
         (use rest_eqD(1,9,11) [OF k'(3)] tasks_okD(7) [OF lists_okD [OF L]] hl [OF True] in auto)
    then show ?thesis using k'(1) h by (simp add: sched_yield_def)
  next
    case False
    then have "prio k (hd ?rs) = 0"
      using tasks_okD(7) [OF lists_okD [OF L]] sched_okD(3) [OF ok(1)] by (cases ?rs) auto
    then have "exec Yield k = Some (set_errno EINVAL k)"
      using h sched_setpriority_error [of 0 "hd ?rs" k] by (simp add: sched_yield_def)
    moreover have "kernel_inv (set_errno EINVAL k)" by (rule kernel_inv_set_errno [OF inv])
    ultimately show ?thesis by blast
  qed
qed

lemma exec_tick:
  assumes inv: "kernel_inv k" and en: "enabled Tick k"
  shows "\<exists>k'. exec Tick k = Some k' \<and> kernel_inv k'"
proof -
  note ok = kernel_invD(1-3) [OF inv] and L = kernel_invD(4) [OF inv] and h = kernel_invD(5,6) [OF inv]
    and hl = kernel_invD(8) [OF inv] and lk = kernel_invD(9) [OF inv]
  note Lv = live_lists [OF L]
  let ?rs = "g_readytorun k"
  have sp: "?rs = top_tasks k @ dropWhile (\<lambda>t. prio k t = prio k (hd ?rs)) ?rs" by (simp add: top_tasks_def)
  obtain k' where k': "sched_process_timeslice k = Some k'" "sched_ok k'" "rest k' = rest k"
    "tasklist k' = (if slice_over k then (tasklist k)(RTR := rotate1 (top_tasks k) @ dropWhile (\<lambda>t. prio k t = prio k (hd ?rs)) ?rs) else tasklist k)"
    by (rule sched_process_timeslice_ok [OF ok(1) sp])
  have "set ?rs = set (top_tasks k) \<union> set (dropWhile (\<lambda>t. prio k t = prio k (hd ?rs)) ?rs)" using arg_cong [OF sp, of set] by simp
  then have "same_waiters k k'" by (intro same_waitersI) (auto simp: k'(4) plain_list_def)
  then have "live k' = live k" using same_waiters_live L sched_okD(1) [OF k'(2)] by blast
  then show ?thesis using kernel_inv_rest [OF inv k'(2,3)] k'(1) by simp
qed

lemma exec_create:
  assumes inv: "kernel_inv k" and en: "enabled (Create t p) k"
  shows "\<exists>k'. exec (Create t p) k = Some k' \<and> kernel_inv k'"
proof -
  note ok = kernel_invD(1-3) [OF inv] and L = kernel_invD(4) [OF inv] and h = kernel_invD(5,6) [OF inv]
    and hl = kernel_invD(8) [OF inv] and lk = kernel_invD(9) [OF inv]
  note Lv = live_lists [OF L]
  let ?rs = "g_readytorun k"
  have t: "t \<notin> live k" "t \<noteq> NULL" and p: "1 \<le> nat p" "nat p \<le> 255" "int (nat p) = p" and lock: "lockable k"
    using en lk by (auto simp: live_def)
  show ?thesis
  proof (cases "\<exists>i<MAX_TASKS. fst (g_pidhash k i) = NULL")
    case True
    then obtain i where i: "i < MAX_TASKS" "fst (g_pidhash k i) = NULL" by blast
    obtain k' pid where k': "thread_create t True True p k = Some (pid, k')" "sched_ok k'" "pid_ok k'" "current_regs k' = current_regs k"
    proof (rule thread_create_ok [OF ok(1,2) lock t p(1,2) i])
      fix k' pid
      assume "thread_create t True True (int (nat p)) k = Some (pid, k')" "sched_ok k'" "pid_ok k'" "current_regs k' = current_regs k"
      then show thesis using that [of pid k'] p(3) by simp
    qed
    then show ?thesis using ok(3) by (simp add: kernel_inv_def)
  next
    case False
    obtain q where q: "thread_create t True True p k = Some (ERROR, set_errno ENOMEM
        (upd_tcb t (\<lambda>_. zero_tcb) (k\<lparr>tcb_pid := (tcb_pid k)(t := 0), init_priority := (init_priority k)(t := 0), g_lastpid := q\<rparr>)))"
      "0 \<le> q" "q \<le> PID_MAX"
      by (rule thread_create_full [OF ok(1) lock pid_okD(1,2) [OF ok(2)] t]) (use False in auto)
    let ?k = "upd_tcb t (\<lambda>_. zero_tcb) (k\<lparr>tcb_pid := (tcb_pid k)(t := 0), init_priority := (init_priority k)(t := 0), g_lastpid := q\<rparr>)"
    note N = not_live [OF L t(1)]
    have "sched_ok ?k" by (rule sched_ok_new_tcb) (use ok(1) t in \<open>simp_all add: zero_tcb_def\<close>)
    moreover have lv: "live ?k = live k" using N(1) by (auto simp: live_def zero_tcb_def)
    moreover have "pid_ok ?k"
      using ok(2) t(1) N(4) q(2,3) unfolding pid_ok_def lv by auto
    ultimately have "kernel_inv ?k" using ok(3) by (simp add: kernel_inv_def)
    then have "kernel_inv (set_errno ENOMEM ?k)" by (rule kernel_inv_set_errno)
    then show ?thesis using q(1) by simp
  qed
qed

lemma exec_delete:
  assumes inv: "kernel_inv k" and en: "enabled (Delete pid) k"
  shows "\<exists>k'. exec (Delete pid) k = Some k' \<and> kernel_inv k'"
proof -
  note ok = kernel_invD(1-3) [OF inv] and L = kernel_invD(4) [OF inv] and h = kernel_invD(5,6) [OF inv]
    and hl = kernel_invD(8) [OF inv] and lk = kernel_invD(9) [OF inv]
  note Lv = live_lists [OF L]
  let ?rs = "g_readytorun k"
  have lock: "lockable k" and pid: "pid \<noteq> 0" "pid \<noteq> tcb_pid k (hd ?rs)" using en lk h by auto
  show ?thesis
  proof (cases "sched_gettcb pid k = NULL")
    case True
    have "sched_gettcb pid (locked k) = NULL" using True unfolding sched_gettcb_def locked_def upd_tcb_ext .
    then have "task_delete_other pid k = Some (ERROR, k)"
      using sched_lock_locked [OF ok(1) lock] sched_ok_unlock [OF ok(1,3)] by (simp add: task_delete_other_def)
    then show ?thesis using inv by simp
  next
    case False
    then have "sched_gettcb pid k \<noteq> hd ?rs" using gettcb_live(2) [OF ok(2) refl False] pid by auto
    then obtain k' where "task_delete_other pid k = Some (ERROR, k')" "sched_ok k'" "pid_ok k'" "current_regs k' = current_regs k"
      using task_delete_other_ok [OF ok(1,2) lock refl False _ pid(1)] by blast
    then show ?thesis using ok(3) by (simp add: kernel_inv_def)
  qed
qed

lemma exec_exit:
  assumes inv: "kernel_inv k" and en: "enabled Exit k"
  shows "\<exists>k'. exec Exit k = Some k' \<and> kernel_inv k'"
proof -
  note ok = kernel_invD(1-3) [OF inv] and L = kernel_invD(4) [OF inv] and h = kernel_invD(5,6) [OF inv]
    and hl = kernel_invD(8) [OF inv] and lk = kernel_invD(9) [OF inv]
  note Lv = live_lists [OF L]
  let ?rs = "g_readytorun k"
  have "length ?rs > 1" "lockcount (tcb k (?rs ! 1)) + 1 < MAX_LOCK_COUNT" using en by auto
  then obtain d r rs where rs: "?rs = d # r # rs" "lockcount (tcb k r) + 1 < MAX_LOCK_COUNT"
    by (cases ?rs; cases "tl ?rs") auto
  obtain k' where "up_exit k = Some k'" "sched_ok k'" "pid_ok k'" "\<not> current_regs k'"
    using up_exit_ok [OF ok rs] by blast
  then show ?thesis by (simp add: kernel_inv_def)
qed

lemma exec_ok: "kernel_inv k \<Longrightarrow> enabled op k \<Longrightarrow> \<exists>k'. exec op k = Some k' \<and> kernel_inv k'"
  by (cases op) (blast intro: exec_block exec_unblock exec_lock exec_unlock exec_reprioritize exec_yield exec_tick exec_create exec_delete exec_exit)+

lemma reachable_inv: "reachable k \<Longrightarrow> kernel_inv k"
proof (induction rule: reachable.induct)
  case (boot idle)
  then show ?case using os_start_ok [of idle] by (simp add: kernel_inv_def lockable_def)
next
  case (step k op k')
  then show ?case using exec_ok [of k op] by auto
qed

subsection \<open>The interface of the waiting queues\<close>

text \<open>
  Blocking the running task on a prioritized queue inserts it by priority and unblocking
  takes a task off; nothing else on the queues changes.
\<close>

locale wait_queues =
  fixes inv :: "'k \<Rightarrow> bool"
    and queue :: "'s \<Rightarrow> bool"
    and waiting :: "'k \<Rightarrow> 's \<Rightarrow> 'a list"
    and pr :: "'k \<Rightarrow> 'a \<Rightarrow> nat"
    and running :: "'k \<Rightarrow> 'a"
    and can_block :: "'k \<Rightarrow> bool"
    and block :: "'s \<Rightarrow> 'k \<Rightarrow> 'k option"
    and unblock :: "'a \<Rightarrow> 'k \<Rightarrow> 'k option"
  assumes sorted: "inv k \<Longrightarrow> queue s \<Longrightarrow> prio_sorted (pr k) (waiting k s) \<and> distinct (waiting k s)"
    and not_waiting: "inv k \<Longrightarrow> queue s \<Longrightarrow> running k \<notin> set (waiting k s)"
    and block: "inv k \<Longrightarrow> queue s \<Longrightarrow> can_block k \<Longrightarrow>
      \<exists>k'. block s k = Some k' \<and> inv k' \<and> (\<forall>t. pr k' t = pr k t) \<and>
        waiting k' s = prio_insert (pr k) (running k) (waiting k s) \<and> (\<forall>u. queue u \<longrightarrow> u \<noteq> s \<longrightarrow> waiting k' u = waiting k u)"
    and unblock: "inv k \<Longrightarrow> queue s \<Longrightarrow> t \<in> set (waiting k s) \<Longrightarrow>
      \<exists>k'. unblock t k = Some k' \<and> inv k' \<and> (\<forall>t. pr k' t = pr k t) \<and>
        waiting k' s = remove1 t (waiting k s) \<and> (\<forall>u. queue u \<longrightarrow> u \<noteq> s \<longrightarrow> waiting k' u = waiting k u)"
begin

text \<open>A task that blocks and is woken leaves the queue as it was.\<close>

lemma block_unblock:
  assumes "inv k" "queue s" "can_block k"
  shows "\<exists>k1 k2. block s k = Some k1 \<and> unblock (running k) k1 = Some k2 \<and> inv k2 \<and>
    (\<forall>u. queue u \<longrightarrow> waiting k2 u = waiting k u)"
proof -
  obtain k1 where k1: "block s k = Some k1" "inv k1" "waiting k1 s = prio_insert (pr k) (running k) (waiting k s)"
    "\<forall>u. queue u \<longrightarrow> u \<noteq> s \<longrightarrow> waiting k1 u = waiting k u"
    using block [OF assms] by blast
  have "running k \<in> set (waiting k1 s)" by (simp add: k1(3))
  from unblock [OF k1(2) assms(2) this] obtain k2 where
    k2: "unblock (running k) k1 = Some k2" "inv k2" "waiting k2 s = remove1 (running k) (waiting k1 s)"
    "\<forall>u. queue u \<longrightarrow> u \<noteq> s \<longrightarrow> waiting k2 u = waiting k1 u"
    by blast
  have "remove1 (running k) (prio_insert (pr k) (running k) (waiting k s)) = waiting k s"
    using prio_insert_removed [OF not_waiting [OF assms(1,2)], of "pr k"] distinct_remove1_removeAll [of "prio_insert (pr k) (running k) (waiting k s)"]
      sorted [OF assms(1,2)] not_waiting [OF assms(1,2)]
    by (simp add: removeAll_filter_not_eq) (metis (mono_tags, lifting) filter_cong)
  then show ?thesis using k1 k2 by (metis (no_types, lifting))
qed

text \<open>Waking the first task of a queue again and again wakes all of them, highest priority first.\<close>

lemma drain:
  assumes "inv k" "queue s"
  shows "\<exists>k'. fold (\<lambda>t r. Option.bind r (unblock t)) (waiting k s) (Some k) = Some k' \<and> inv k' \<and> waiting k' s = [] \<and>
    (\<forall>u. queue u \<longrightarrow> u \<noteq> s \<longrightarrow> waiting k' u = waiting k u)"
proof -
  have "waiting k s = xs \<Longrightarrow> inv k \<Longrightarrow> \<exists>k'. fold (\<lambda>t r. Option.bind r (unblock t)) xs (Some k) = Some k' \<and> inv k' \<and> waiting k' s = [] \<and>
    (\<forall>u. queue u \<longrightarrow> u \<noteq> s \<longrightarrow> waiting k' u = waiting k u)" for xs
  proof (induction xs arbitrary: k)
    case (Cons t xs)
    then obtain k1 where k1: "unblock t k = Some k1" "inv k1" "waiting k1 s = xs"
      "\<forall>u. queue u \<longrightarrow> u \<noteq> s \<longrightarrow> waiting k1 u = waiting k u"
      using unblock [OF Cons.prems(2) assms(2), of t] by auto
    from Cons.IH [OF k1(3,2)] show ?case using k1(1,4) by auto
  qed auto
  with assms(1) show ?thesis by blast
qed

end

definition sync_queue :: "tstate \<Rightarrow> bool" where
  "sync_queue s \<longleftrightarrow> is_blocked_state s \<and> prioritized s"

interpretation wq: wait_queues "sched_ok :: 'z kernel_scheme \<Rightarrow> bool" sync_queue tasklist prio
  "\<lambda>k. hd (g_readytorun k)" "\<lambda>k. length (g_readytorun k) > 1"
  "\<lambda>s k. up_block_task (hd (g_readytorun k)) s k" up_unblock_task
proof unfold_locales
  fix k :: "'z kernel_scheme" and s
  assume ok: "sched_ok k" and s: "sync_queue s"
  note L = sched_okD(1) [OF ok]
  note D = tasks_okD [OF lists_okD [OF L]]
  have b: "is_blocked_state s" "prioritized s" using s by (auto simp: sync_queue_def)
  show "prio_sorted (prio k) (tasklist k s) \<and> distinct (tasklist k s)" using D(3,6) b(2) by blast
  show "hd (g_readytorun k) \<notin> set (tasklist k s)"
    using blocked_in_list [OF L b(1)] running_iff [OF L, of "hd (g_readytorun k)"] b(1) by (auto simp: is_blocked_state_def)
  show "\<exists>k'. up_block_task (hd (g_readytorun k)) s k = Some k' \<and> sched_ok k' \<and> (\<forall>t. prio k' t = prio k t) \<and>
      tasklist k' s = prio_insert (prio k) (hd (g_readytorun k)) (tasklist k s) \<and>
      (\<forall>u. sync_queue u \<longrightarrow> u \<noteq> s \<longrightarrow> tasklist k' u = tasklist k u)" if "length (g_readytorun k) > 1"
  proof -
    have t: "hd (g_readytorun k) \<in> set (g_readytorun k)" "hd (g_readytorun k) \<noteq> last (g_readytorun k)"
      using that D(3) [of RTR] sched_okD(3) [OF ok] by (cases "g_readytorun k"; cases "tl (g_readytorun k)"; auto)+
    obtain k' where k': "up_block_task (hd (g_readytorun k)) s k = Some k'" "sched_ok k'" "rest k' = rest k"
      "tasklist k' = (tasklist k)(s := (if prioritized s then prio_insert (prio k) (hd (g_readytorun k)) (tasklist k s) else tasklist k s @ [hd (g_readytorun k)]),
         TSTATE_TASK_PENDING := [], RTR := fold (prio_insert (prio k)) (g_pendingtasks k) (remove1 (hd (g_readytorun k)) (g_readytorun k)))"
      by (rule up_block_task_ok [OF ok t b(1)])
    have ne: "u \<noteq> RTR \<and> u \<noteq> TSTATE_TASK_PENDING" if "sync_queue u" for u
      using that by (auto simp: sync_queue_def is_blocked_state_def)
    show ?thesis
      using k'(1,2) rest_eqD(1) [OF k'(3)] ne ne [OF s] b(2) by (auto simp: k'(4))
  qed
  show "\<exists>k'. up_unblock_task t k = Some k' \<and> sched_ok k' \<and> (\<forall>t. prio k' t = prio k t) \<and>
      tasklist k' s = remove1 t (tasklist k s) \<and> (\<forall>u. sync_queue u \<longrightarrow> u \<noteq> s \<longrightarrow> tasklist k' u = tasklist k u)"
    if t: "t \<in> set (tasklist k s)" for t
  proof -
    have st: "state_of k t = s" using blocked_in_list [OF L b(1)] t by simp
    then have bt: "is_blocked_state (state_of k t)" using b(1) by simp
    obtain k' where k': "up_unblock_task t k = Some k'" "sched_ok k'" "rest k' = rest k"
      "tasklist k' = (tasklist k)(state_of k t := remove1 t (tasklist k (state_of k t)),
         ready_list k t := prio_insert (prio k) t (tasklist k (ready_list k t)))"
      by (rule up_unblock_task_ok [OF ok bt])
    have ne: "u \<noteq> ready_list k t" if "sync_queue u" for u
      using that by (auto simp: sync_queue_def is_blocked_state_def ready_list_def)
    show ?thesis
      using k'(1,2) rest_eqD(1) [OF k'(3)] ne ne [OF s] st by (auto simp: k'(4))
  qed
qed

end
