(* ===== verification/Waiting.thy ===== *)
theory Waiting
  imports Kernel
begin

section \<open>Tasks that wait for an object\<close>

text \<open>
  Semaphores and message queues share one pattern: a field of the TCB names the object a task waits for,
  and the task is on the prioritized list of its state together with the tasks that wait for
  other objects. The locale \<open>wait_objects\<close> has a state \<open>s\<close>, the set \<open>S\<close> of the states that use the field, and the
  field; it shows what blocking the running task and waking a waiting one do to the tasks that wait for each
  object. It is interpreted for the three waiting states of the semaphores and message queues.
\<close>

definition waiting_on :: "tstate \<Rightarrow> (tcb \<Rightarrow> addr) \<Rightarrow> 'z kernel_scheme \<Rightarrow> addr \<Rightarrow> addr list" where
  "waiting_on s fld k ob = filter (\<lambda>t. fld (tcb k t) = ob) (tasklist k s)"

text \<open>Exactly the tasks in a state of \<open>S\<close> name an object.\<close>

definition wait_field_ok :: "tstate set \<Rightarrow> (tcb \<Rightarrow> addr) \<Rightarrow> 'z kernel_scheme \<Rightarrow> bool" where
  "wait_field_ok S fld k \<longleftrightarrow> (\<forall>t. state_of k t \<noteq> TSTATE_TASK_INVALID \<longrightarrow> fld (tcb k t) \<noteq> NULL \<longleftrightarrow> state_of k t \<in> S)"

lemma set_errno_eq:
  assumes "sched_ok k" and "\<not> current_regs k"
  shows "set_errno e k = upd_tcb (hd (g_readytorun k)) (pterrno_update (\<lambda>_. e)) k"
  using assms(2) sched_okD(3) [OF assms(1)] running_iff [OF sched_okD(1) [OF assms(1)], of "hd (g_readytorun k)"]
  by (simp add: set_errno_def)

lemma get_errno_eq:
  assumes "sched_ok k" and "\<not> current_regs k"
  shows "get_errno k = pterrno (tcb k (hd (g_readytorun k)))"
  using assms(2) sched_okD(3) [OF assms(1)] running_iff [OF sched_okD(1) [OF assms(1)], of "hd (g_readytorun k)"]
  by (simp add: get_errno_def)

lemma upd_tcb_twice: "upd_tcb t f (upd_tcb t g k) = upd_tcb t (\<lambda>c. f (g c)) k"
  by (simp add: upd_tcb_def)

lemma prio_insert_eqI:
  assumes "\<forall>y\<in>set as. pr x \<le> pr y" and "bs = [] \<or> pr (hd bs) < pr x"
  shows "prio_insert pr x (as @ bs) = as @ x # bs"
  using assms by (cases bs) (auto simp: prio_insert_def takeWhile_append2 dropWhile_append2)

lemma length_prio_insert [simp]: "length (prio_insert pr x xs) = Suc (length xs)"
  by (rule prio_insert_split [of xs pr x]) auto

lemma filter_prio_insert:
  assumes "prio_sorted pr xs"
  shows "filter P (prio_insert pr x xs) = (if P x then prio_insert pr x (filter P xs) else filter P xs)"
proof (rule prio_insert_split [of xs pr x])
  fix as bs assume sp: "xs = as @ bs" "prio_insert pr x xs = as @ x # bs" "\<forall>y\<in>set as. pr x \<le> pr y" "bs = [] \<or> pr (hd bs) < pr x"
  have "\<forall>y\<in>set bs. pr y < pr x"
    using prio_sorted_tail [of pr bs "pr x"] sp(4) assms sp(1) by (auto simp: prio_sorted_append)
  then have "filter P bs = [] \<or> pr (hd (filter P bs)) < pr x"
    by (cases "filter P bs") (auto dest: filter_eq_ConsD)
  then have "prio_insert pr x (filter P as @ filter P bs) = filter P as @ x # filter P bs"
    using sp(3) by (intro prio_insert_eqI) auto
  then show ?thesis using sp(1,2) by simp
qed

lemma running_state: "sched_ok k \<Longrightarrow> state_of k (hd (g_readytorun k)) = TSTATE_TASK_RUNNING"
  using running_iff [OF sched_okD(1), of k] by blast

lemma prio_sorted_filter: "prio_sorted pr xs \<Longrightarrow> prio_sorted pr (filter P xs)"
  by (induction xs) auto

text \<open>A step that changes no list of \<open>S\<close> and no field keeps the agreement.\<close>

lemma wait_field_keep:
  assumes "sched_ok k" "sched_ok k'" "wait_field_ok S fld k" "\<And>t. fld (tcb k' t) = fld (tcb k t)"
    "\<And>v. v \<in> S \<Longrightarrow> is_blocked_state v \<and> set (tasklist k' v) = set (tasklist k v)" "live k' \<subseteq> live k"
  shows "wait_field_ok S fld k'"
proof -
  have "state_of k' t = v \<longleftrightarrow> state_of k t = v" if "v \<in> S" for t v
    using assms(5) [OF that] blocked_in_list [OF sched_okD(1) [OF assms(2)], of v t]
      blocked_in_list [OF sched_okD(1) [OF assms(1)], of v t] by simp
  then have "state_of k' t \<in> S \<longleftrightarrow> state_of k t \<in> S" for t by metis
  then show ?thesis using assms(3,4,6) unfolding wait_field_ok_def live_def by auto
qed

locale wait_objects =
  fixes s :: tstate and S :: "tstate set" and fld :: "tcb \<Rightarrow> addr"
  assumes s_in: "s \<in> S"
    and S_blocked: "v \<in> S \<Longrightarrow> is_blocked_state v \<and> prioritized v"
    and fld_state: "fld (c\<lparr>task_state := x, timeslice := y\<rparr>) = fld c"
begin

lemma rest_fld: "rest k' = rest k \<Longrightarrow> fld (tcb k' t) = fld (tcb k t)"
proof -
  assume "rest k' = rest k"
  then have "(tcb k' t)\<lparr>task_state := TSTATE_TASK_INVALID, timeslice := 0\<rparr> =
      (tcb k t)\<lparr>task_state := TSTATE_TASK_INVALID, timeslice := 0\<rparr>" by (simp add: rest_def fun_eq_iff)
  from arg_cong [OF this, of fld] show ?thesis by (simp only: fld_state)
qed

lemma in_list: "sched_ok k \<Longrightarrow> t \<in> set (tasklist k s) \<longleftrightarrow> state_of k t = s"
  using blocked_in_list [OF sched_okD(1), of k s t] S_blocked [OF s_in] by simp

lemma mem: "sched_ok k \<Longrightarrow> t \<in> set (waiting_on s fld k ob) \<longleftrightarrow> state_of k t = s \<and> fld (tcb k t) = ob"
  using in_list [of k t] by (auto simp: waiting_on_def)

lemma sorted: "sched_ok k \<Longrightarrow> prio_sorted (prio k) (tasklist k s)"
  using tasks_okD(6) [OF lists_okD [OF sched_okD(1)], of k s] S_blocked [OF s_in] by simp

lemma sorted_waiting: "sched_ok k \<Longrightarrow> prio_sorted (prio k) (waiting_on s fld k ob)"
  using sorted [of k] by (simp add: waiting_on_def prio_sorted_filter)

text \<open>
  The running task names an object and blocks: it is queued among the tasks that wait for the object.
\<close>

lemma block_running:
  assumes ok: "sched_ok k" and w: "wait_field_ok S fld k" and n: "length (g_readytorun k) > 1" and ob: "ob \<noteq> NULL"
    and f: "\<And>c. task_state (f c) = task_state c" "\<And>c. sched_priority (f c) = sched_priority c"
      "\<And>c. lockcount (f c) = lockcount c" "\<And>c. fld (f c) = ob"
  defines "r \<equiv> hd (g_readytorun k)"
  obtains k' where "up_block_task r s (upd_tcb r f k) = Some k'" "sched_ok k'" "rest k' = rest (upd_tcb r f k)" "state_of k' r = s"
    "waiting_on s fld k' = (waiting_on s fld k)(ob := prio_insert (prio k) r (waiting_on s fld k ob))" "wait_field_ok S fld k'"
    "g_readytorun k' = fold (prio_insert (prio k)) (g_pendingtasks k) (tl (g_readytorun k))" "g_pendingtasks k' = []"
    "\<And>v. is_blocked_state v \<Longrightarrow> v \<noteq> s \<Longrightarrow> tasklist k' v = tasklist k v"
    "tasklist k' s = prio_insert (prio k) r (tasklist k s)" "live k' = live k"
proof -
  let ?k = "upd_tcb r f k"
  note L = sched_okD(1) [OF ok]
  have run: "state_of k r = TSTATE_TASK_RUNNING" using running_state [OF ok] by (simp add: r_def)
  have S: "sched_ok ?k" using ok f by (simp add: sched_ok_upd_tcb)
  have t: "r \<in> set (g_readytorun ?k)" "r \<noteq> last (g_readytorun ?k)" "remove1 r (g_readytorun k) = tl (g_readytorun k)"
    using n tasks_okD(3) [OF lists_okD [OF L], of RTR]
    by (cases "g_readytorun k"; cases "tl (g_readytorun k)"; auto simp: r_def)+
  have pk: "prio ?k = prio k" using f(2) by (auto simp: fun_eq_iff upd_tcb_def)
  note sb = S_blocked [OF s_in]
  obtain k' where k': "up_block_task r s ?k = Some k'" "sched_ok k'" "rest k' = rest ?k" "state_of k' r = s"
    "tasklist k' = (tasklist ?k)(s := (if prioritized s then prio_insert (prio ?k) r (tasklist ?k s) else tasklist ?k s @ [r]),
       TSTATE_TASK_PENDING := [], RTR := fold (prio_insert (prio ?k)) (g_pendingtasks ?k) (remove1 r (g_readytorun ?k)))"
    by (rule up_block_task_ok [OF S t(1,2)]) (use sb in auto)
  have sn: "s \<noteq> RTR" "s \<noteq> TSTATE_TASK_PENDING" using sb by (auto simp: is_blocked_state_def)
  have T: "tasklist k' = (tasklist k)(s := prio_insert (prio k) r (tasklist k s), TSTATE_TASK_PENDING := [],
      RTR := fold (prio_insert (prio k)) (g_pendingtasks k) (tl (g_readytorun k)))"
    unfolding k'(5) pk using sb t(3) by simp
  have Ts: "tasklist k' s = prio_insert (prio k) r (tasklist k s)" using T sn by auto
  have fl: "fld (tcb k' t) = (if t = r then ob else fld (tcb k t))" for t
    using rest_fld [OF k'(3), of t] f(4) by (simp add: upd_tcb_def)
  have nr: "r \<notin> set (tasklist k s)" using in_list [OF ok, of r] run sb by (auto simp: is_blocked_state_def)
  have W: "waiting_on s fld k' u = (if u = ob then prio_insert (prio k) r (waiting_on s fld k u) else waiting_on s fld k u)" for u
  proof -
    have "filter (\<lambda>t. fld (tcb k' t) = u) (tasklist k s) = waiting_on s fld k u"
      unfolding waiting_on_def fl using nr by (intro filter_cong) auto
    then show ?thesis
      unfolding waiting_on_def [of s fld k'] Ts filter_prio_insert [OF sorted [OF ok]] using fl [of r] by auto
  qed
  have oth: "tasklist k' v = tasklist k v" if "is_blocked_state v" "v \<noteq> s" for v
    using T that by (auto simp: is_blocked_state_def)
  have lv: "live k' = live k"
  proof -
    have rs: "set (g_readytorun k) = insert r (set (tl (g_readytorun k)))"
      using sched_okD(3) [OF ok] by (cases "g_readytorun k") (auto simp: r_def)
    have "(\<Union>v. set (tasklist k' v)) = (\<Union>v. set (tasklist k v))" (is "?A = ?B")
    proof
      show "?A \<subseteq> ?B" unfolding T using rs sn by (fastforce split: if_splits)
      have "set (tasklist k v) \<subseteq> ?A" for v
      proof (cases "v = RTR \<or> v = TSTATE_TASK_PENDING")
        case True
        then have "set (tasklist k v) \<subseteq> insert r (set (g_readytorun k'))" unfolding T using rs by auto
        moreover have "r \<in> set (tasklist k' s)" unfolding Ts by simp
        ultimately show ?thesis by blast
      next
        case False
        then have "set (tasklist k v) \<subseteq> set (tasklist k' v)" unfolding T by auto
        then show ?thesis by blast
      qed
      then show "?B \<subseteq> ?A" by blast
    qed
    then show ?thesis using live_lists [OF L] live_lists [OF sched_okD(1) [OF k'(2)]] by simp
  qed
  have "wait_field_ok S fld k'"
    unfolding wait_field_ok_def
  proof (intro allI impI)
    fix u assume u: "state_of k' u \<noteq> TSTATE_TASK_INVALID"
    show "fld (tcb k' u) \<noteq> NULL \<longleftrightarrow> state_of k' u \<in> S"
    proof (cases "u = r")
      case True
      then show ?thesis using fl ob k'(4) s_in by simp
    next
      case False
      have st: "state_of k' u = v \<longleftrightarrow> state_of k u = v" if "v \<in> S" for v
        using blocked_in_list [OF sched_okD(1) [OF k'(2)], of v u] blocked_in_list [OF L, of v u] S_blocked [OF that] oth [of v] Ts False
        by (cases "v = s") auto
      have "state_of k u \<noteq> TSTATE_TASK_INVALID" using u lv by (auto simp: live_def)
      moreover have "state_of k' u \<in> S \<longleftrightarrow> state_of k u \<in> S" using st by metis
      ultimately show ?thesis using w fl False by (simp add: wait_field_ok_def)
    qed
  qed
  moreover have "waiting_on s fld k' = (waiting_on s fld k)(ob := prio_insert (prio k) r (waiting_on s fld k ob))"
    using W by (auto simp: fun_eq_iff)
  moreover have "g_readytorun k' = fold (prio_insert (prio k)) (g_pendingtasks k) (tl (g_readytorun k))" "g_pendingtasks k' = []"
    using T by simp_all
  ultimately show thesis using that [of k'] k'(1-4) oth Ts lv by blast
qed

text \<open>A waiting task gives its object up and is woken.\<close>

lemma wake:
  assumes ok: "sched_ok k" and w: "wait_field_ok S fld k" and ob: "ob \<noteq> NULL" and t: "t \<in> set (waiting_on s fld k ob)"
    and f: "\<And>c. task_state (f c) = task_state c" "\<And>c. sched_priority (f c) = sched_priority c"
      "\<And>c. lockcount (f c) = lockcount c" "\<And>c. fld (f c) = NULL"
  obtains k' where "up_unblock_task t (upd_tcb t f k) = Some k'" "sched_ok k'" "rest k' = rest (upd_tcb t f k)"
    "\<And>u. u \<noteq> NULL \<Longrightarrow> waiting_on s fld k' u = (if u = ob then remove1 t (waiting_on s fld k ob) else waiting_on s fld k u)"
    "wait_field_ok S fld k'"
    "tasklist k' = (tasklist k)(s := remove1 t (tasklist k s), ready_list k t := prio_insert (prio k) t (tasklist k (ready_list k t)))"
    "\<And>v. is_blocked_state v \<Longrightarrow> v \<noteq> s \<Longrightarrow> tasklist k' v = tasklist k v"
    "tasklist k' s = remove1 t (tasklist k s)" "live k' = live k"
proof -
  let ?k = "upd_tcb t f k"
  note L = sched_okD(1) [OF ok]
  have st: "state_of k t = s" "fld (tcb k t) = ob" using mem [OF ok] t by auto
  have S: "sched_ok ?k" using ok f by (simp add: sched_ok_upd_tcb)
  note sb = S_blocked [OF s_in]
  have sn: "s \<noteq> RTR" "s \<noteq> TSTATE_TASK_PENDING" using sb by (auto simp: is_blocked_state_def)
  have pk: "prio ?k = prio k" using f(2) by (auto simp: fun_eq_iff upd_tcb_def)
  have st1: "state_of ?k t = s" using st f(1) by (simp add: upd_tcb_def)
  have rl: "ready_list ?k t = ready_list k t" using f by (simp add: ready_list_def upd_tcb_def)
  have bl: "is_blocked_state (state_of ?k t)" using st1 sb by simp
  obtain k' where k': "up_unblock_task t ?k = Some k'" "sched_ok k'" "rest k' = rest ?k"
    "tasklist k' = (tasklist ?k)(state_of ?k t := remove1 t (tasklist ?k (state_of ?k t)),
       ready_list ?k t := prio_insert (prio ?k) t (tasklist ?k (ready_list ?k t)))"
    by (rule up_unblock_task_ok [OF S bl])
  have T: "tasklist k' = (tasklist k)(s := remove1 t (tasklist k s), ready_list k t := prio_insert (prio k) t (tasklist k (ready_list k t)))"
    using k'(4) unfolding rl pk st1 by simp
  have rn: "ready_list k t = RTR \<or> ready_list k t = TSTATE_TASK_PENDING" by (simp add: ready_list_def)
  have Ts: "tasklist k' s = remove1 t (tasklist k s)" using T rn sn by auto
  have oth: "tasklist k' v = tasklist k v" if "is_blocked_state v" "v \<noteq> s" for v
    using T rn that by (auto simp: is_blocked_state_def)
  have fl: "fld (tcb k' u) = (if u = t then NULL else fld (tcb k u))" for u
    using rest_fld [OF k'(3), of u] f(4) by (simp add: upd_tcb_def)
  have d: "distinct (tasklist k s)" by (rule tasks_okD(3) [OF lists_okD [OF L]])
  have W: "waiting_on s fld k' u = (if u = ob then remove1 t (waiting_on s fld k u) else waiting_on s fld k u)" if "u \<noteq> NULL" for u
  proof -
    have "filter (\<lambda>x. fld (tcb k' x) = u) (remove1 t (tasklist k s)) = filter (\<lambda>x. fld (tcb k x) = u) (remove1 t (tasklist k s))"
      using d by (intro filter_cong) (auto simp: fl)
    also have "\<dots> = remove1 t (filter (\<lambda>x. fld (tcb k x) = u) (tasklist k s))" by (rule filter_remove1)
    finally have "waiting_on s fld k' u = remove1 t (waiting_on s fld k u)" by (simp add: waiting_on_def Ts)
    moreover have "t \<notin> set (waiting_on s fld k u)" if "u \<noteq> ob" using that st(2) by (simp add: waiting_on_def)
    ultimately show ?thesis by (simp add: remove1_idem)
  qed
  have lv: "live k' = live k"
  proof -
    have ts: "set (tasklist k s) = insert t (set (remove1 t (tasklist k s)))" using in_list [OF ok, of t] st(1) d by auto
    have "(\<Union>v. set (tasklist k' v)) = (\<Union>v. set (tasklist k v))" (is "?A = ?B")
    proof
      show "?A \<subseteq> ?B" unfolding T using ts rn sn by (fastforce split: if_splits)
      have "set (tasklist k v) \<subseteq> ?A" for v
      proof (cases "v = s")
        case True
        have "t \<in> set (tasklist k' (ready_list k t))" unfolding T by simp
        then have "t \<in> ?A" by blast
        moreover have "set (tasklist k' s) \<subseteq> ?A" by blast
        ultimately show ?thesis unfolding True ts using Ts by simp
      next
        case False
        then have "set (tasklist k v) \<subseteq> set (tasklist k' v)" unfolding T by auto
        then show ?thesis by blast
      qed
      then show "?B \<subseteq> ?A" by blast
    qed
    then show ?thesis using live_lists [OF L] live_lists [OF sched_okD(1) [OF k'(2)]] by simp
  qed
  have "wait_field_ok S fld k'"
    unfolding wait_field_ok_def
  proof (intro allI impI)
    fix u assume u: "state_of k' u \<noteq> TSTATE_TASK_INVALID"
    have inS: "state_of k' u = v \<longleftrightarrow> u \<in> set (tasklist k' v)" if "v \<in> S" for v
      using blocked_in_list [OF sched_okD(1) [OF k'(2)], of v u] S_blocked [OF that] by simp
    show "fld (tcb k' u) \<noteq> NULL \<longleftrightarrow> state_of k' u \<in> S"
    proof (cases "u = t")
      case True
      have "t \<notin> set (tasklist k' v)" if "v \<in> S" for v
        using oth [of v] S_blocked [OF that] Ts d blocked_in_list [OF L, of v t] st(1) by (cases "v = s") auto
      then show ?thesis using inS True fl by metis
    next
      case False
      have st: "state_of k' u = v \<longleftrightarrow> state_of k u = v" if "v \<in> S" for v
        using inS [OF that] blocked_in_list [OF L, of v u] S_blocked [OF that] oth [of v] Ts False d
        by (cases "v = s") auto
      have "state_of k u \<noteq> TSTATE_TASK_INVALID" using u lv by (auto simp: live_def)
      moreover have "state_of k' u \<in> S \<longleftrightarrow> state_of k u \<in> S" using st by metis
      ultimately show ?thesis using w fl False by (simp add: wait_field_ok_def)
    qed
  qed
  then show thesis using that [of k'] k'(1-3) W T oth Ts lv by simp
qed

end

interpretation sem_waits: wait_objects TSTATE_WAIT_SEM "{TSTATE_WAIT_SEM}" waitsem
  by unfold_locales (auto simp: is_blocked_state_def)

interpretation not_empty: wait_objects TSTATE_WAIT_MQNOTEMPTY "{TSTATE_WAIT_MQNOTEMPTY, TSTATE_WAIT_MQNOTFULL}" msgwaitq
  by unfold_locales (auto simp: is_blocked_state_def)

interpretation not_full: wait_objects TSTATE_WAIT_MQNOTFULL "{TSTATE_WAIT_MQNOTEMPTY, TSTATE_WAIT_MQNOTFULL}" msgwaitq
  by unfold_locales (auto simp: is_blocked_state_def)

end
