(* ===== verification/Sem.thy ===== *)
theory Sem
  imports Waiting
begin

section \<open>Counting semaphores\<close>

text \<open>
  The POSIX semaphores of \<open>sched/sem_*.c\<close> and \<open>lib/semaphore\<close>, with CONFIG_PRIORITY_INHERITANCE disabled as
  in all configurations but one, so that the calls on semaphore holders are empty. A semaphore is
  the address of its 16-bit count; a negative count is minus the number of waiting tasks. A call
  of \<open>sem_wait\<close> that blocks ends with the context switch (\<open>Blocked\<close>); \<open>sem_wait_resume\<close> is the rest of
  the call, executed when the task runs again.
\<close>

record sem_kernel = task_kernel +
  semcount :: "addr \<Rightarrow> int"

definition s16 :: "int \<Rightarrow> int" where
  "s16 x = (x + 32768) mod 65536 - 32768"

definition SEM_VALUE_MAX :: int where [simp]: "SEM_VALUE_MAX = 32767"

definition set_count :: "addr \<Rightarrow> int \<Rightarrow> 'z sem_kernel_scheme \<Rightarrow> 'z sem_kernel_scheme" where
  "set_count sem c k = k\<lparr>semcount := (semcount k)(sem := s16 c)\<rparr>"

datatype 'k result = Returned int 'k | Blocked 'k

definition sem_init :: "addr \<Rightarrow> nat \<Rightarrow> 'z sem_kernel_scheme \<Rightarrow> int \<times> 'z sem_kernel_scheme" where
  "sem_init sem val k =
     (if sem \<noteq> NULL \<and> int val \<le> SEM_VALUE_MAX then (OK, set_count sem (int val) k)
      else (ERROR, set_errno EINVAL k))"

definition sem_getvalue :: "addr \<Rightarrow> 'z sem_kernel_scheme \<Rightarrow> int option \<times> 'z sem_kernel_scheme" where
  "sem_getvalue sem k = (if sem \<noteq> NULL then (Some (semcount k sem), k) else (None, set_errno EINVAL k))"

definition sem_wait :: "addr \<Rightarrow> 'z sem_kernel_scheme \<Rightarrow> 'z sem_kernel_scheme result option" where
  "sem_wait sem k =
     (let rtcb = list_head (g_readytorun k);
          k = set_errno EINVAL k
      in if sem \<noteq> NULL
         then if semcount k sem > 0
              then Some (Returned OK (upd_tcb rtcb (waitsem_update (\<lambda>_. NULL)) (set_count sem (semcount k sem - 1) k)))
              else if waitsem (tcb k rtcb) \<noteq> NULL then None
              else let k = set_count sem (semcount k sem - 1) k;
                       k = upd_tcb rtcb (waitsem_update (\<lambda>_. sem)) k;
                       k = set_errno 0 k
                   in map_option Blocked (up_block_task rtcb TSTATE_WAIT_SEM k)
         else Some (Returned ERROR k))"

definition sem_wait_resume :: "'z sem_kernel_scheme \<Rightarrow> int \<times> 'z sem_kernel_scheme" where
  "sem_wait_resume k = (if get_errno k \<noteq> EINTR \<and> get_errno k \<noteq> ETIMEDOUT then (OK, k) else (ERROR, k))"

definition sem_trywait :: "addr \<Rightarrow> 'z sem_kernel_scheme \<Rightarrow> int \<times> 'z sem_kernel_scheme" where
  "sem_trywait sem k =
     (let rtcb = list_head (g_readytorun k);
          k = set_errno EINVAL k
      in if sem \<noteq> NULL
         then let k = set_errno EAGAIN k
              in if semcount k sem > 0
                 then (OK, upd_tcb rtcb (waitsem_update (\<lambda>_. NULL)) (set_count sem (semcount k sem - 1) k))
                 else (ERROR, k)
         else (ERROR, k))"

text \<open>The loop over \<open>g_waitingforsemaphore\<close>.\<close>

fun find_waiter :: "(addr \<Rightarrow> addr) \<Rightarrow> addr \<Rightarrow> addr list \<Rightarrow> addr" where
  "find_waiter ws sem [] = NULL"
| "find_waiter ws sem (t # ts) = (if ws t \<noteq> sem then find_waiter ws sem ts else t)"

definition sem_post :: "addr \<Rightarrow> 'z sem_kernel_scheme \<Rightarrow> (int \<times> 'z sem_kernel_scheme) option" where
  "sem_post sem k =
     (if sem \<noteq> NULL
      then if \<not> semcount k sem < SEM_VALUE_MAX then None
           else let k = set_count sem (semcount k sem + 1) k
                in if semcount k sem \<le> 0
                   then let stcb = find_waiter (\<lambda>t. waitsem (tcb k t)) sem (tasklist k TSTATE_WAIT_SEM)
                        in if stcb \<noteq> NULL
                           then map_option (\<lambda>k. (OK, k)) (up_unblock_task stcb (upd_tcb stcb (waitsem_update (\<lambda>_. NULL)) k))
                           else Some (OK, k)
                   else Some (OK, k)
      else Some (ERROR, k))"

text \<open>A signal or a timeout ends the wait of a task.\<close>

definition sem_waitirq :: "addr \<Rightarrow> int \<Rightarrow> 'z sem_kernel_scheme \<Rightarrow> 'z sem_kernel_scheme option" where
  "sem_waitirq wtcb errcode k =
     (if state_of k wtcb = TSTATE_WAIT_SEM
      then let sem = waitsem (tcb k wtcb)
           in if \<not> (sem \<noteq> NULL \<and> semcount k sem < 0) then None
              else let k = set_count sem (semcount k sem + 1) k;
                       k = upd_tcb wtcb (waitsem_update (\<lambda>_. NULL)) k;
                       k = upd_tcb wtcb (pterrno_update (\<lambda>_. errcode)) k
                   in up_unblock_task wtcb k
      else Some k)"

text \<open>The handler of the watchdog of \<open>sem_timedwait\<close>.\<close>

definition sem_timeout :: "int \<Rightarrow> 'z sem_kernel_scheme \<Rightarrow> 'z sem_kernel_scheme option" where
  "sem_timeout pid k =
     (let wtcb = sched_gettcb pid k
      in if wtcb \<noteq> NULL \<and> state_of k wtcb = TSTATE_WAIT_SEM then sem_waitirq wtcb ETIMEDOUT k else Some k)"

definition sem_destroy :: "addr \<Rightarrow> 'z sem_kernel_scheme \<Rightarrow> int \<times> 'z sem_kernel_scheme" where
  "sem_destroy sem k =
     (if sem \<noteq> NULL then (OK, if semcount k sem \<ge> 0 then set_count sem 1 k else k)
      else (ERROR, set_errno (- EINVAL) k))"

subsection \<open>The invariant\<close>

definition waiters :: "'z sem_kernel_scheme \<Rightarrow> addr \<Rightarrow> addr list" where
  "waiters k sem = filter (\<lambda>t. waitsem (tcb k t) = sem) (tasklist k TSTATE_WAIT_SEM)"

text \<open>
  The tasks that wait for a semaphore are as many as its count says, no count is out of
  range, and exactly the tasks in the state \<open>TSTATE_WAIT_SEM\<close> have a semaphore they wait for.
\<close>

definition sem_ok :: "'z sem_kernel_scheme \<Rightarrow> bool" where
  "sem_ok k \<longleftrightarrow> sched_ok k \<and>
     (\<forall>sem. sem \<noteq> NULL \<longrightarrow> length (waiters k sem) = nat (- semcount k sem) \<and> semcount k sem \<le> SEM_VALUE_MAX) \<and>
     (\<forall>t. state_of k t \<noteq> TSTATE_TASK_INVALID \<longrightarrow> waitsem (tcb k t) \<noteq> NULL \<longleftrightarrow> state_of k t = TSTATE_WAIT_SEM) \<and>
     length (tasklist k TSTATE_WAIT_SEM) < 32768"

lemma s16_id [simp]: "- 32768 \<le> c \<Longrightarrow> c < 32768 \<Longrightarrow> s16 c = c"
  by (simp add: s16_def)

lemma sem_okD:
  assumes "sem_ok k"
  shows "sched_ok k" "sem \<noteq> NULL \<Longrightarrow> length (waiters k sem) = nat (- semcount k sem)"
    "sem \<noteq> NULL \<Longrightarrow> semcount k sem \<le> SEM_VALUE_MAX"
    "state_of k t \<noteq> TSTATE_TASK_INVALID \<Longrightarrow> waitsem (tcb k t) \<noteq> NULL \<longleftrightarrow> state_of k t = TSTATE_WAIT_SEM"
    "length (tasklist k TSTATE_WAIT_SEM) < 32768"
  using assms by (auto simp: sem_ok_def)

lemma sem_count_bounds:
  assumes "sem_ok k" "sem \<noteq> NULL"
  shows "- 32768 < semcount k sem" "semcount k sem \<le> 32767"
proof -
  have "length (waiters k sem) \<le> length (tasklist k TSTATE_WAIT_SEM)" by (simp add: waiters_def)
  then show "- 32768 < semcount k sem" using sem_okD(2) [OF assms] sem_okD(5) [OF assms(1)] by auto
  show "semcount k sem \<le> 32767" using sem_okD(3) [OF assms] by simp
qed

lemma find_waiter_eq: "NULL \<notin> set ts \<Longrightarrow> find_waiter ws sem ts = list_head (filter (\<lambda>t. ws t = sem) ts)"
  by (induction ts) (auto simp: list_head_def)

lemma sem_more_eqD:
  assumes "kernel.more k' = kernel.more (k :: 'z sem_kernel_scheme)"
  shows "semcount k' = semcount k"
  using assms by (cases k; cases k') simp

lemma sem_ext [simp]:
  "semcount (upd_tcb t f k) = semcount k" "semcount (set_list s xs k) = semcount k"
  "tcb (set_count sem c k) = tcb k" "tasklist (set_count sem c k) = tasklist k" "cpu (set_count sem c k) = cpu k"
  "current_regs (set_count sem c k) = current_regs k"
  "semcount (set_count sem c k) = (semcount k)(sem := s16 c)"
  "sched_ok (set_count sem c k) = sched_ok k" "lists_ok (set_count sem c k) = lists_ok k"
  "pid_ok (set_count sem c k) = pid_ok k"
  by (simp_all add: upd_tcb_def set_list_def set_count_def sched_ok_def lists_ok_def pid_ok_def live_def)

end
