(* ===== verification/Sem_Ops.thy ===== *)
theory Sem_Ops
  imports Sem
begin

section \<open>The operations on semaphores\<close>

text \<open>
  Every operation of \<open>Sem\<close> on a state that satisfies \<open>sem_ok\<close>: its result, the tasks that wait afterwards
  for every semaphore, and that \<open>sem_ok\<close> holds again. The steps of the scheduler are used
  through \<open>up_block_task_ok\<close> and \<open>up_unblock_task_ok\<close>.
\<close>

lemma set_count_upd_tcb: "set_count sem c (upd_tcb t f k) = upd_tcb t f (set_count sem c k)"
  by (simp add: set_count_def upd_tcb_def)

text \<open>The tasks that wait for a semaphore, as the locale \<open>wait_objects\<close> has them.\<close>

lemma waiters_eq: "waiters k = waiting_on TSTATE_WAIT_SEM waitsem k"
  by (simp add: fun_eq_iff waiters_def waiting_on_def)

lemma waiters_mem: "sched_ok k \<Longrightarrow> t \<in> set (waiters k sem) \<longleftrightarrow> state_of k t = TSTATE_WAIT_SEM \<and> waitsem (tcb k t) = sem"
  unfolding waiters_eq by (rule sem_waits.mem)

lemma sem_ok_iff:
  "sem_ok k \<longleftrightarrow> sched_ok k \<and> wait_field_ok {TSTATE_WAIT_SEM} waitsem k \<and>
     (\<forall>sem. sem \<noteq> NULL \<longrightarrow> length (waiters k sem) = nat (- semcount k sem) \<and> semcount k sem \<le> SEM_VALUE_MAX) \<and>
     length (tasklist k TSTATE_WAIT_SEM) < 32768"
  by (auto simp: sem_ok_def wait_field_ok_def)

lemma wait_field_ok_set_count [simp]: "wait_field_ok S fld (set_count sem c k) = wait_field_ok S fld k"
  by (simp add: wait_field_ok_def)

lemma waiting_on_set_count [simp]: "waiting_on s fld (set_count sem c k) = waiting_on s fld k"
  by (simp add: waiting_on_def fun_eq_iff)

lemma live_set_count [simp]: "live (set_count sem c k) = live k"
  by (simp add: live_def)

subsection \<open>Waiting\<close>

lemma sem_wait_null: "sem_wait NULL k = Some (Returned ERROR (set_errno EINVAL k))"
  by (simp add: sem_wait_def)

text \<open>A semaphore with a positive count is taken at once.\<close>

lemma sem_wait_take:
  assumes ok: "sem_ok k" and "\<not> current_regs k" and s: "sem \<noteq> NULL" "semcount k sem > 0"
  obtains k' where "sem_wait sem k = Some (Returned OK k')" "sem_ok k'" "semcount k' = (semcount k)(sem := semcount k sem - 1)"
    "tasklist k' = tasklist k" "cpu k' = cpu k" "waiters k' = waiters k" "\<And>t. state_of k' t = state_of k t"
    "current_regs k' = current_regs k"
proof -
  let ?r = "hd (g_readytorun k)"
  note S = sem_okD(1) [OF ok]
  note e = set_errno_eq [OF S assms(2)]
  define k' where "k' = upd_tcb ?r (waitsem_update (\<lambda>_. NULL)) (set_count sem (semcount k sem - 1) (set_errno EINVAL k))"
  have r: "sem_wait sem k = Some (Returned OK k')"
    using s sched_okD(3) [OF S] by (simp add: sem_wait_def k'_def e Let_def)
  have b: "s16 (semcount k sem - 1) = semcount k sem - 1" using sem_count_bounds [OF ok s(1)] s(2) by simp
  have f: "semcount k' = (semcount k)(sem := semcount k sem - 1)" "tasklist k' = tasklist k" "cpu k' = cpu k"
    "current_regs k' = current_regs k" "state_of k' t = state_of k t" for t
    by (simp_all add: k'_def e b)
  have run: "state_of k ?r = TSTATE_TASK_RUNNING" using running_iff [OF sched_okD(1) [OF S]] by simp
  have wn: "waitsem (tcb k ?r) = NULL" using sem_okD(4) [OF ok, of ?r] run by simp
  have w: "waitsem (tcb k' t) = waitsem (tcb k t)" for t using wn by (simp add: k'_def e)
  have ws: "waiters k' = waiters k" by (simp add: waiters_def fun_eq_iff w f)
  have "sched_ok k'" using S by (simp add: k'_def e sched_ok_upd_tcb)
  moreover have "length (waiters k' u) = nat (- semcount k' u) \<and> semcount k' u \<le> SEM_VALUE_MAX" if "u \<noteq> NULL" for u
    using sem_okD(2,3) [OF ok that] s(2) unfolding ws f by auto
  ultimately have "sem_ok k'" using sem_okD(4,5) [OF ok] unfolding sem_ok_def f w by auto
  with r f ws that show thesis by blast
qed

text \<open>Otherwise the task blocks, behind the waiting tasks of the same and of higher priority.\<close>

lemma sem_wait_block:
  assumes ok: "sem_ok k" and cr: "\<not> current_regs k" and s: "sem \<noteq> NULL" "semcount k sem \<le> 0"
    and n: "length (g_readytorun k) > 1" "length (tasklist k TSTATE_WAIT_SEM) < 32767"
  obtains k' where "sem_wait sem k = Some (Blocked k')" "sem_ok k'" "semcount k' = (semcount k)(sem := semcount k sem - 1)"
    "waiters k' sem = prio_insert (prio k) (cpu k) (waiters k sem)" "\<And>u. u \<noteq> sem \<Longrightarrow> waiters k' u = waiters k u"
    "state_of k' (cpu k) = TSTATE_WAIT_SEM" "pterrno (tcb k' (cpu k)) = 0" "current_regs k' = current_regs k"
    "g_readytorun k' = fold (prio_insert (prio k)) (g_pendingtasks k) (tl (g_readytorun k))"
    "tasklist k' TSTATE_WAIT_SEM = prio_insert (prio k) (cpu k) (tasklist k TSTATE_WAIT_SEM)"
proof -
  let ?r = "hd (g_readytorun k)"
  note S = sem_okD(1) [OF ok]
  have run: "state_of k ?r = TSTATE_TASK_RUNNING" using running_iff [OF sched_okD(1) [OF S]] by simp
  have wn: "waitsem (tcb k ?r) = NULL" using sem_okD(4) [OF ok, of ?r] run by simp
  have c: "cpu k = ?r" by (rule sched_okD(2) [OF S])
  define k1 where "k1 = upd_tcb ?r (\<lambda>c. c\<lparr>waitsem := sem, pterrno := 0\<rparr>) (set_count sem (semcount k sem - 1) k)"
  note e = set_errno_eq [OF S cr]
  have e1: "set_errno 0 (upd_tcb ?r (waitsem_update (\<lambda>_. sem)) (set_count sem (semcount k sem - 1) (set_errno EINVAL k))) = k1"
    (is "set_errno 0 ?k = k1")
  proof -
    have "sched_ok ?k" using S by (simp add: e sched_ok_upd_tcb)
    then have "set_errno 0 ?k = upd_tcb ?r (pterrno_update (\<lambda>_. 0)) ?k"
      using set_errno_eq [of ?k 0] cr by (simp add: e)
    then show ?thesis by (simp add: e k1_def set_count_upd_tcb upd_tcb_twice)
  qed
  have b: "s16 (semcount k sem - 1) = semcount k sem - 1" using sem_count_bounds [OF ok s(1)] s(2) n
  proof -
    have "length (waiters k sem) \<le> length (tasklist k TSTATE_WAIT_SEM)" by (simp add: waiters_def)
    then show ?thesis using sem_okD(2) [OF ok s(1)] n(2) s(2) by simp
  qed
  have wait: "sem_wait sem k = map_option Blocked (up_block_task ?r TSTATE_WAIT_SEM k1)"
    using s sched_okD(3) [OF S] wn e1 by (simp add: sem_wait_def Let_def e)
  let ?f = "\<lambda>c. c\<lparr>waitsem := sem, pterrno := 0\<rparr>" and ?k = "set_count sem (semcount k sem - 1) k"
  have wf: "wait_field_ok {TSTATE_WAIT_SEM} waitsem ?k" using ok by (simp add: sem_ok_iff)
  have S1: "sched_ok ?k" "1 < length (g_readytorun ?k)" using S n(1) by simp_all
  obtain k' where k': "up_block_task ?r TSTATE_WAIT_SEM k1 = Some k'" "sched_ok k'" "rest k' = rest k1" "state_of k' ?r = TSTATE_WAIT_SEM"
    "waiting_on TSTATE_WAIT_SEM waitsem k' = (waiters k)(sem := prio_insert (prio k) ?r (waiters k sem))" "wait_field_ok {TSTATE_WAIT_SEM} waitsem k'"
    "g_readytorun k' = fold (prio_insert (prio k)) (g_pendingtasks k) (tl (g_readytorun k))"
    "tasklist k' TSTATE_WAIT_SEM = prio_insert (prio k) ?r (tasklist k TSTATE_WAIT_SEM)"
    by (rule sem_waits.block_running [OF S1(1) wf S1(2) s(1), of ?f]) (simp_all add: k1_def waiters_eq)
  have k1: "semcount k1 = (semcount k)(sem := semcount k sem - 1)" "current_regs k1 = current_regs k" by (simp_all add: k1_def b)
  have sc: "semcount k' = (semcount k)(sem := semcount k sem - 1)" using sem_more_eqD [OF rest_eqD(11) [OF k'(3)]] k1(1) by simp
  have W: "waiters k' = (waiters k)(sem := prio_insert (prio k) ?r (waiters k sem))" using k'(5) by (simp add: waiters_eq)
  have A: "length (waiters k' u) = nat (- semcount k' u) \<and> semcount k' u \<le> SEM_VALUE_MAX" if "u \<noteq> NULL" for u
    using sem_okD(2,3) [OF ok that] s(2) by (auto simp: W sc)
  have "sem_ok k'" unfolding sem_ok_iff using k'(2,6,8) A n(2) by simp
  moreover have "pterrno (tcb k' ?r) = 0" using rest_eqD(8) [OF k'(3), of ?r] by (simp add: k1_def)
  moreover have "current_regs k' = current_regs k" using rest_eqD(9) [OF k'(3)] k1(2) by simp
  ultimately show thesis
    using that [of k'] wait k'(1,4,7,8) sc W unfolding c by simp
qed

subsection \<open>Waking a task\<close>

text \<open>The common end of \<open>sem_post\<close> and \<open>sem_waitirq\<close>: a waiting task is restarted.\<close>

lemma sem_wake_ok:
  assumes ok: "sem_ok k" and s: "sem \<noteq> NULL" and t: "t \<in> set (waiters k sem)"
    and f: "\<And>c. task_state (f c) = task_state c" "\<And>c. sched_priority (f c) = sched_priority c"
      "\<And>c. lockcount (f c) = lockcount c" "\<And>c. waitsem (f c) = NULL"
  defines "k1 \<equiv> upd_tcb t f (set_count sem (semcount k sem + 1) k)"
  obtains k' where "up_unblock_task t k1 = Some k'" "sem_ok k'" "semcount k' = (semcount k)(sem := semcount k sem + 1)"
    "waiters k' sem = remove1 t (waiters k sem)" "\<And>u. u \<noteq> sem \<Longrightarrow> u \<noteq> NULL \<Longrightarrow> waiters k' u = waiters k u"
    "tasklist k' = (tasklist k)(TSTATE_WAIT_SEM := remove1 t (tasklist k TSTATE_WAIT_SEM),
       ready_list k t := prio_insert (prio k) t (tasklist k (ready_list k t)))"
    "rest k' = rest k1" "current_regs k' = current_regs k"
proof -
  note S = sem_okD(1) [OF ok]
  note L = sched_okD(1) [OF S]
  have st: "state_of k t = TSTATE_WAIT_SEM" "waitsem (tcb k t) = sem" using waiters_mem [OF S] t by auto
  have neg: "semcount k sem < 0"
  proof (rule ccontr)
    assume "\<not> ?thesis"
    then have "waiters k sem = []" using sem_okD(2) [OF ok s] by simp
    with t show False by simp
  qed
  have b: "s16 (semcount k sem + 1) = semcount k sem + 1" using sem_count_bounds [OF ok s] neg by simp
  let ?k = "set_count sem (semcount k sem + 1) k"
  have wf: "wait_field_ok {TSTATE_WAIT_SEM} waitsem ?k" using ok by (simp add: sem_ok_iff)
  have S1: "sched_ok ?k" "t \<in> set (waiting_on TSTATE_WAIT_SEM waitsem ?k sem)" using S t by (simp_all add: waiters_eq)
  have rl: "ready_list ?k t = ready_list k t" by (simp add: ready_list_def)
  obtain k' where k': "up_unblock_task t k1 = Some k'" "sched_ok k'" "rest k' = rest k1"
    "\<And>u. u \<noteq> NULL \<Longrightarrow> waiting_on TSTATE_WAIT_SEM waitsem k' u = (if u = sem then remove1 t (waiters k sem) else waiters k u)"
    "wait_field_ok {TSTATE_WAIT_SEM} waitsem k'"
    "tasklist k' = (tasklist k)(TSTATE_WAIT_SEM := remove1 t (tasklist k TSTATE_WAIT_SEM),
       ready_list k t := prio_insert (prio k) t (tasklist k (ready_list k t)))"
    "tasklist k' TSTATE_WAIT_SEM = remove1 t (tasklist k TSTATE_WAIT_SEM)"
    by (rule sem_waits.wake [OF S1(1) wf s S1(2), of f]) (simp_all add: f k1_def waiters_eq rl)
  have sc: "semcount k' = (semcount k)(sem := semcount k sem + 1)"
    using sem_more_eqD [OF rest_eqD(11) [OF k'(3)]] by (simp add: k1_def b)
  have W: "waiters k' u = (if u = sem then remove1 t (waiters k sem) else waiters k u)" if "u \<noteq> NULL" for u
    using k'(4) [OF that] by (simp add: waiters_eq)
  have A: "length (waiters k' u) = nat (- semcount k' u) \<and> semcount k' u \<le> SEM_VALUE_MAX" if "u \<noteq> NULL" for u
    using sem_okD(2,3) [OF ok that] neg t by (auto simp: W [OF that] sc length_remove1)
  have "length (tasklist k' TSTATE_WAIT_SEM) < 32768" using k'(7) sem_okD(5) [OF ok] by (auto simp: length_remove1)
  then have "sem_ok k'" unfolding sem_ok_iff using k'(2,5) A by simp
  moreover have "current_regs k' = current_regs k" using rest_eqD(9) [OF k'(3)] by (simp add: k1_def)
  ultimately show thesis using that [of k'] k'(1,3,6) sc W s by simp
qed

text \<open>\<open>sem_post\<close> wakes the first task that waits for the semaphore, or increments the count.\<close>

lemma sem_post_wake:
  assumes ok: "sem_ok k" and s: "sem \<noteq> NULL" and w: "waiters k sem = t # ts"
  obtains k' where "sem_post sem k = Some (OK, k')" "sem_ok k'" "semcount k' = (semcount k)(sem := semcount k sem + 1)"
    "waiters k' sem = ts" "\<And>u. u \<noteq> sem \<Longrightarrow> u \<noteq> NULL \<Longrightarrow> waiters k' u = waiters k u" "pterrno (tcb k' t) = pterrno (tcb k t)"
    "tasklist k' = (tasklist k)(TSTATE_WAIT_SEM := remove1 t (tasklist k TSTATE_WAIT_SEM),
       ready_list k t := prio_insert (prio k) t (tasklist k (ready_list k t)))" "current_regs k' = current_regs k"
proof -
  note S = sem_okD(1) [OF ok]
  have neg: "semcount k sem < 0" using sem_okD(2) [OF ok s] w by auto
  have b: "s16 (semcount k sem + 1) = semcount k sem + 1" using sem_count_bounds [OF ok s] neg by simp
  let ?k = "set_count sem (semcount k sem + 1) k"
  have "NULL \<notin> set (tasklist k TSTATE_WAIT_SEM)" using nonnull_tasks [OF sched_okD(1) [OF S]] by blast
  then have fw: "find_waiter (\<lambda>t. waitsem (tcb ?k t)) sem (tasklist ?k TSTATE_WAIT_SEM) = t"
    using w by (simp add: find_waiter_eq waiters_def)
  have tn: "t \<noteq> NULL" using nonnull_tasks [OF sched_okD(1) [OF S], of t TSTATE_WAIT_SEM] w
    by (metis filter_is_subset list.set_intros(1) subsetD waiters_def)
  have t: "t \<in> set (waiters k sem)" using w by simp
  obtain k' where k': "up_unblock_task t (upd_tcb t (waitsem_update (\<lambda>_. NULL)) ?k) = Some k'" "sem_ok k'"
    "semcount k' = (semcount k)(sem := semcount k sem + 1)"
    "waiters k' sem = remove1 t (waiters k sem)" "\<And>u. u \<noteq> sem \<Longrightarrow> u \<noteq> NULL \<Longrightarrow> waiters k' u = waiters k u"
    "tasklist k' = (tasklist k)(TSTATE_WAIT_SEM := remove1 t (tasklist k TSTATE_WAIT_SEM),
       ready_list k t := prio_insert (prio k) t (tasklist k (ready_list k t)))"
    "rest k' = rest (upd_tcb t (waitsem_update (\<lambda>_. NULL)) ?k)" "current_regs k' = current_regs k"
    by (rule sem_wake_ok [OF ok s t, of "waitsem_update (\<lambda>_. NULL)"]) auto
  have "sem_post sem k = Some (OK, k')"
    using s neg fw tn k'(1) b unfolding sem_post_def Let_def by simp
  moreover have "pterrno (tcb k' t) = pterrno (tcb k t)" using rest_eqD(8) [OF k'(7), of t] by simp
  ultimately show thesis using that [of k'] k' w by simp
qed

lemma sem_post_free:
  assumes ok: "sem_ok k" and s: "sem \<noteq> NULL" and w: "waiters k sem = []" and m: "semcount k sem < SEM_VALUE_MAX"
  shows "sem_post sem k = Some (OK, set_count sem (semcount k sem + 1) k)"
    and "sem_ok (set_count sem (semcount k sem + 1) k)"
proof -
  have nn: "0 \<le> semcount k sem" using sem_okD(2) [OF ok s] w by simp
  have b: "s16 (semcount k sem + 1) = semcount k sem + 1" using nn m by simp
  then show "sem_post sem k = Some (OK, set_count sem (semcount k sem + 1) k)"
    using s m nn unfolding sem_post_def Let_def by simp
  have W: "waiters (set_count sem (semcount k sem + 1) k) = waiters k" by (simp add: waiters_def fun_eq_iff)
  show "sem_ok (set_count sem (semcount k sem + 1) k)"
    using ok nn m b w unfolding sem_ok_def W by auto
qed

lemma sem_waitirq_ok:
  assumes ok: "sem_ok k" and t: "state_of k t = TSTATE_WAIT_SEM"
  defines "sem \<equiv> waitsem (tcb k t)"
  obtains k' where "sem_waitirq t e k = Some k'" "sem_ok k'" "semcount k' = (semcount k)(sem := semcount k sem + 1)"
    "waiters k' sem = remove1 t (waiters k sem)" "\<And>u. u \<noteq> sem \<Longrightarrow> u \<noteq> NULL \<Longrightarrow> waiters k' u = waiters k u"
    "pterrno (tcb k' t) = e" "current_regs k' = current_regs k"
    "tasklist k' = (tasklist k)(TSTATE_WAIT_SEM := remove1 t (tasklist k TSTATE_WAIT_SEM),
       ready_list k t := prio_insert (prio k) t (tasklist k (ready_list k t)))"
proof -
  note S = sem_okD(1) [OF ok]
  have s: "sem \<noteq> NULL" using sem_okD(4) [OF ok, of t] t by (simp add: sem_def)
  have w: "t \<in> set (waiters k sem)" using waiters_mem [OF S] t by (simp add: sem_def)
  have neg: "semcount k sem < 0"
  proof (rule ccontr)
    assume "\<not> ?thesis"
    then have "waiters k sem = []" using sem_okD(2) [OF ok s] by simp
    with w show False by simp
  qed
  let ?f = "\<lambda>c. c\<lparr>waitsem := NULL, pterrno := e\<rparr>" and ?k = "set_count sem (semcount k sem + 1) k"
  obtain k' where k': "up_unblock_task t (upd_tcb t ?f ?k) = Some k'" "sem_ok k'" "semcount k' = (semcount k)(sem := semcount k sem + 1)"
    "waiters k' sem = remove1 t (waiters k sem)" "\<And>u. u \<noteq> sem \<Longrightarrow> u \<noteq> NULL \<Longrightarrow> waiters k' u = waiters k u"
    "tasklist k' = (tasklist k)(TSTATE_WAIT_SEM := remove1 t (tasklist k TSTATE_WAIT_SEM),
       ready_list k t := prio_insert (prio k) t (tasklist k (ready_list k t)))"
    "rest k' = rest (upd_tcb t ?f ?k)" "current_regs k' = current_regs k"
    by (rule sem_wake_ok [OF ok s w, of ?f]) auto
  have "sem_waitirq t e k = Some k'"
    using t s neg k'(1) by (simp add: sem_waitirq_def sem_def [symmetric] upd_tcb_twice)
  moreover have "pterrno (tcb k' t) = e" using rest_eqD(8) [OF k'(7), of t] by simp
  ultimately show thesis using that [of k'] k' by blast
qed

subsection \<open>Steps of other components\<close>

lemma sem_ok_keep:
  assumes "sem_ok k" "sched_ok k'" "tasklist k' TSTATE_WAIT_SEM = tasklist k TSTATE_WAIT_SEM"
    "\<And>t. waitsem (tcb k' t) = waitsem (tcb k t)" "semcount k' = semcount k" "live k' = live k"
  shows "sem_ok k'"
proof -
  have w: "waiters k' = waiters k" using assms(3,4) by (simp add: waiters_def fun_eq_iff)
  have "wait_field_ok {TSTATE_WAIT_SEM} waitsem k'"
    by (rule wait_field_keep [of k]) (use assms in \<open>auto simp: sem_ok_iff is_blocked_state_def\<close>)
  then show ?thesis using assms unfolding sem_ok_iff w by simp
qed

end
