(* ===== verification/Mq.thy ===== *)
theory Mq
  imports Sem_Ops "HOL-Library.Word"
begin

section \<open>Message queues\<close>

text \<open>
  The POSIX message queues of \<open>sched/mq_*.c\<close> and \<open>lib/mqueue\<close>, in the configuration without signals
  (CONFIG_DISABLE_SIGNALS), so that there is no notification. A message queue, a message and a message
  descriptor are records at their addresses; the singly linked lists are HOL lists. The results of \<open>kmalloc\<close> and
  \<open>kzalloc\<close> are arguments (\<open>mem\<close>, \<open>blk\<close>), \<open>NULL\<close> being a failed allocation.

  A call that blocks ends with the context switch; its rest, executed when the task runs again, is
  the function with the suffix \<open>_resume\<close>, as for the semaphores. \<^const>\<open>None\<close> is a PANIC.
\<close>

subsection \<open>Data\<close>

type_synonym byte = "8 word"

definition MQ_MAX_BYTES :: nat where [simp]: "MQ_MAX_BYTES = 32"
definition MQ_MAX_MSGS :: int where [simp]: "MQ_MAX_MSGS = 16"
definition MQ_PRIO_MAX :: int where [simp]: "MQ_PRIO_MAX = 255"
definition NUM_MSG_DESCRIPTORS :: nat where [simp]: "NUM_MSG_DESCRIPTORS = 24"
definition NUM_INTERRUPT_MSGS :: nat where [simp]: "NUM_INTERRUPT_MSGS = 8"

definition O_CREAT :: nat where "O_CREAT = 4"
definition O_EXCL :: nat where "O_EXCL = 8"
definition O_NONBLOCK :: nat where "O_NONBLOCK = 64"

definition EMSGSIZE :: int where [simp]: "EMSGSIZE = 90"

datatype mqalloc = MQ_ALLOC_FIXED | MQ_ALLOC_DYN | MQ_ALLOC_IRQ

text \<open>\<open>mail\<close> has the \<open>msglen\<close> bytes of the message.\<close>

record mqmsg =
  msg_type :: mqalloc
  priority :: nat
  mail :: "byte list"

record msgq_s =
  msglist :: "addr list"
  maxmsgs :: int
  nmsgs :: int
  nconnect :: int
  nwaitnotfull :: int
  nwaitnotempty :: int
  maxmsgsize :: nat
  unlinked :: bool
  mq_name :: string

record mq_des =
  des_msgq :: addr
  oflags :: nat

record mq_kernel = sem_kernel +
  mqueue :: "addr \<Rightarrow> msgq_s"
  message :: "addr \<Rightarrow> mqmsg"
  descr :: "addr \<Rightarrow> mq_des"
  msgdesq :: "addr \<Rightarrow> addr list"
  g_msgqueues :: "addr list"
  g_msgfree :: "addr list"
  g_msgfreeirq :: "addr list"
  g_desfree :: "addr list"
  sched_freed :: "addr list"

definition upd_mq :: "addr \<Rightarrow> (msgq_s \<Rightarrow> msgq_s) \<Rightarrow> 'z mq_kernel_scheme \<Rightarrow> 'z mq_kernel_scheme" where
  "upd_mq q f k = k\<lparr>mqueue := (mqueue k)(q := f (mqueue k q))\<rparr>"

definition upd_msg :: "addr \<Rightarrow> (mqmsg \<Rightarrow> mqmsg) \<Rightarrow> 'z mq_kernel_scheme \<Rightarrow> 'z mq_kernel_scheme" where
  "upd_msg m f k = k\<lparr>message := (message k)(m := f (message k m))\<rparr>"

abbreviation queue_of :: "'z mq_kernel_scheme \<Rightarrow> addr \<Rightarrow> addr" where
  "queue_of k mqdes \<equiv> des_msgq (descr k mqdes)"

subsection \<open>Messages (mq\_initialize.c, mq\_msgfree.c, mq\_sndinternal.c)\<close>

definition SIZEOF_MQMSG :: nat where "SIZEOF_MQMSG = 40"
definition SIZEOF_MQ_DES :: nat where "SIZEOF_MQ_DES = 12"

definition mq_msgblockalloc :: "addr \<Rightarrow> nat \<Rightarrow> mqalloc \<Rightarrow> 'z mq_kernel_scheme \<Rightarrow> addr list \<times> 'z mq_kernel_scheme" where
  "mq_msgblockalloc mem n ty k =
     (if mem \<noteq> NULL
      then let ms = map (\<lambda>i. mem + i * SIZEOF_MQMSG) [0..<n] in (ms, fold (\<lambda>m. upd_msg m (msg_type_update (\<lambda>_. ty))) ms k)
      else ([], k))"

definition mq_desblockalloc :: "addr \<Rightarrow> 'z mq_kernel_scheme \<Rightarrow> 'z mq_kernel_scheme" where
  "mq_desblockalloc blk k =
     (if blk \<noteq> NULL
      then k\<lparr>g_desfree := g_desfree k @ map (\<lambda>i. blk + 4 + i * SIZEOF_MQ_DES) [0..<NUM_MSG_DESCRIPTORS]\<rparr>
      else k)"

text \<open>\<open>nmsg\<close> is CONFIG_PREALLOC_MQ_MSGS.\<close>

definition mq_initialize :: "addr \<Rightarrow> addr \<Rightarrow> addr \<Rightarrow> nat \<Rightarrow> 'z mq_kernel_scheme \<Rightarrow> 'z mq_kernel_scheme" where
  "mq_initialize mem irqmem blk nmsg k =
     (let k = k\<lparr>g_msgqueues := [], g_msgfree := [], g_msgfreeirq := []\<rparr>;
          (ms, k) = mq_msgblockalloc mem nmsg MQ_ALLOC_FIXED k;
          k = k\<lparr>g_msgfree := ms\<rparr>;
          (ms, k) = mq_msgblockalloc irqmem NUM_INTERRUPT_MSGS MQ_ALLOC_IRQ k;
          k = k\<lparr>g_msgfreeirq := ms\<rparr>
      in mq_desblockalloc blk k)"

text \<open>
  The heap is not part of this state: a call of \<open>sched_free\<close>, which gives the block back at
  once or, in an interrupt handler, later, is recorded in \<open>sched_freed\<close>, in the order of the calls.
\<close>

definition call_sched_free :: "addr \<Rightarrow> 'z mq_kernel_scheme \<Rightarrow> 'z mq_kernel_scheme" where [simp]:
  "call_sched_free mem k = k\<lparr>sched_freed := sched_freed k @ [mem]\<rparr>"

definition mq_msgfree :: "addr \<Rightarrow> 'z mq_kernel_scheme \<Rightarrow> 'z mq_kernel_scheme" where
  "mq_msgfree m k =
     (case msg_type (message k m) of
        MQ_ALLOC_FIXED \<Rightarrow> k\<lparr>g_msgfree := g_msgfree k @ [m]\<rparr>
      | MQ_ALLOC_IRQ \<Rightarrow> k\<lparr>g_msgfreeirq := g_msgfreeirq k @ [m]\<rparr>
      | MQ_ALLOC_DYN \<Rightarrow> call_sched_free m k)"

definition mq_msgalloc :: "addr \<Rightarrow> 'z mq_kernel_scheme \<Rightarrow> (addr \<times> 'z mq_kernel_scheme) option" where
  "mq_msgalloc mem k =
     (case g_msgfree k of
        m # ms \<Rightarrow> Some (m, k\<lparr>g_msgfree := ms\<rparr>)
      | [] \<Rightarrow>
          (if current_regs k
           then case g_msgfreeirq k of m # ms \<Rightarrow> Some (m, k\<lparr>g_msgfreeirq := ms\<rparr>) | [] \<Rightarrow> Some (NULL, k)
           else if mem \<noteq> NULL then Some (mem, upd_msg mem (msg_type_update (\<lambda>_. MQ_ALLOC_DYN)) k)
           else None))"

subsection \<open>Sending (mq\_send.c, mq\_sndinternal.c)\<close>

text \<open>The message is a list of bytes, or \<^const>\<open>None\<close> for a null pointer.\<close>

definition mq_verifysend :: "addr \<Rightarrow> byte list option \<Rightarrow> int \<Rightarrow> 'z mq_kernel_scheme \<Rightarrow> int \<times> 'z mq_kernel_scheme" where
  "mq_verifysend mqdes msg p k =
     (if msg = None \<or> mqdes = NULL \<or> p < 0 \<or> p > MQ_PRIO_MAX then (ERROR, set_errno EINVAL k)
      else if oflags (descr k mqdes) AND O_WROK = 0 then (ERROR, set_errno EPERM k)
      else if length (the msg) > maxmsgsize (mqueue k (queue_of k mqdes)) then (ERROR, set_errno EMSGSIZE k)
      else (OK, k))"

text \<open>One pass of the loop of \<open>mq_waitsend\<close>, up to the context switch.\<close>

definition mq_waitsend_block :: "addr \<Rightarrow> 'z mq_kernel_scheme \<Rightarrow> 'z mq_kernel_scheme result option" where
  "mq_waitsend_block mqdes k =
     (let q = queue_of k mqdes;
          rtcb = list_head (g_readytorun k);
          k = upd_tcb rtcb (msgwaitq_update (\<lambda>_. q)) k;
          k = upd_mq q (nwaitnotfull_update (\<lambda>n. s16 (n + 1))) k;
          k = set_errno OK k
      in map_option Blocked (up_block_task rtcb TSTATE_WAIT_MQNOTFULL k))"

definition mq_waitsend :: "addr \<Rightarrow> 'z mq_kernel_scheme \<Rightarrow> 'z mq_kernel_scheme result option" where
  "mq_waitsend mqdes k =
     (let q = mqueue k (queue_of k mqdes)
      in if nmsgs q \<ge> maxmsgs q
         then if oflags (descr k mqdes) AND O_NONBLOCK \<noteq> 0 then Some (Returned ERROR (set_errno EAGAIN k))
              else mq_waitsend_block mqdes k
         else Some (Returned OK k))"

definition mq_waitsend_resume :: "addr \<Rightarrow> 'z mq_kernel_scheme \<Rightarrow> 'z mq_kernel_scheme result option" where
  "mq_waitsend_resume mqdes k =
     (let q = mqueue k (queue_of k mqdes)
      in if get_errno k \<noteq> OK then Some (Returned ERROR k)
         else if nmsgs q \<ge> maxmsgs q then mq_waitsend_block mqdes k
         else Some (Returned OK k))"

text \<open>The loop over the messages and the insertion at the place found.\<close>

fun mq_insert :: "(addr \<Rightarrow> nat) \<Rightarrow> nat \<Rightarrow> addr \<Rightarrow> addr list \<Rightarrow> addr list" where
  "mq_insert pr p m [] = [m]"
| "mq_insert pr p m (n # ns) = (if p \<le> pr n then n # mq_insert pr p m ns else m # n # ns)"

definition mq_dosend :: "addr \<Rightarrow> addr \<Rightarrow> byte list \<Rightarrow> nat \<Rightarrow> 'z mq_kernel_scheme \<Rightarrow> (int \<times> 'z mq_kernel_scheme) option" where
  "mq_dosend mqdes m msg p k = do {
     k \<leftarrow> sched_lock k;
     let q = queue_of k mqdes;
     let k = upd_msg m (\<lambda>c. c\<lparr>priority := p, mail := msg\<rparr>) k;
     let k = upd_mq q (\<lambda>c. c\<lparr>msglist := mq_insert (\<lambda>n. priority (message k n)) p m (msglist c), nmsgs := s16 (nmsgs c + 1)\<rparr>) k;
     k \<leftarrow> (if nwaitnotempty (mqueue k q) > 0
          then let btcb = find_waiter (\<lambda>t. msgwaitq (tcb k t)) q (tasklist k TSTATE_WAIT_MQNOTEMPTY)
               in if btcb = NULL then None
                  else let k = upd_tcb btcb (msgwaitq_update (\<lambda>_. NULL)) k;
                           k = upd_mq q (nwaitnotempty_update (\<lambda>n. s16 (n - 1))) k
                       in up_unblock_task btcb k
          else Some k);
     k \<leftarrow> sched_unlock k;
     Some (OK, k)
   }"

text \<open>What follows the wait in \<open>mq_send\<close>.\<close>

definition mq_send_finish :: "addr \<Rightarrow> byte list \<Rightarrow> nat \<Rightarrow> addr \<Rightarrow> 'z mq_kernel_scheme result \<Rightarrow> 'z mq_kernel_scheme result option" where
  "mq_send_finish mqdes msg p mem r =
     (case r of
        Blocked k \<Rightarrow> Some (Blocked k)
      | Returned ret k \<Rightarrow> do {
          (m, k) \<leftarrow> (if ret = OK then mq_msgalloc mem k else Some (NULL, k));
          (ret, k) \<leftarrow> (if m \<noteq> NULL then mq_dosend mqdes m msg p k else Some (ERROR, k));
          k \<leftarrow> sched_unlock k;
          Some (Returned ret k)
        })"

definition mq_send :: "addr \<Rightarrow> byte list option \<Rightarrow> int \<Rightarrow> addr \<Rightarrow> 'z mq_kernel_scheme \<Rightarrow> 'z mq_kernel_scheme result option" where
  "mq_send mqdes msg p mem k =
     (let (ret, k) = mq_verifysend mqdes msg p k
      in if ret \<noteq> OK then Some (Returned ERROR k)
         else do {
           k \<leftarrow> sched_lock k;
           let q = mqueue k (queue_of k mqdes);
           r \<leftarrow> (if current_regs k \<or> nmsgs q < maxmsgs q then Some (Returned OK k) else mq_waitsend mqdes k);
           mq_send_finish mqdes (the msg) (nat p) mem r
         })"

definition mq_send_resume :: "addr \<Rightarrow> byte list \<Rightarrow> nat \<Rightarrow> addr \<Rightarrow> 'z mq_kernel_scheme \<Rightarrow> 'z mq_kernel_scheme result option" where
  "mq_send_resume mqdes msg p mem k = do {
     r \<leftarrow> mq_waitsend_resume mqdes k;
     mq_send_finish mqdes msg p mem r
   }"

subsection \<open>Receiving (mq\_receive.c, mq\_rcvinternal.c)\<close>

text \<open>\<open>buf\<close> says that the buffer is not a null pointer, \<open>len\<close> is its size.\<close>

definition mq_verifyreceive :: "addr \<Rightarrow> bool \<Rightarrow> nat \<Rightarrow> 'z mq_kernel_scheme \<Rightarrow> int \<times> 'z mq_kernel_scheme" where
  "mq_verifyreceive mqdes buf len k =
     (if \<not> buf \<or> mqdes = NULL then (ERROR, set_errno EINVAL k)
      else if oflags (descr k mqdes) AND O_RDOK = 0 then (ERROR, set_errno EPERM k)
      else if len < maxmsgsize (mqueue k (queue_of k mqdes)) then (ERROR, set_errno EMSGSIZE k)
      else (OK, k))"

datatype 'k waited = Got addr 'k | Waits 'k

text \<open>The message taken off the queue (\<open>NULL\<close> if none), or a blocked task.\<close>

definition mq_waitreceive :: "addr \<Rightarrow> 'z mq_kernel_scheme \<Rightarrow> 'z mq_kernel_scheme waited option" where
  "mq_waitreceive mqdes k =
     (let q = queue_of k mqdes
      in case msglist (mqueue k q) of
           m # ms \<Rightarrow> Some (Got m (upd_mq q (\<lambda>c. c\<lparr>msglist := ms, nmsgs := s16 (nmsgs c - 1)\<rparr>) k))
         | [] \<Rightarrow>
             (if oflags (descr k mqdes) AND O_NONBLOCK = 0
              then let rtcb = list_head (g_readytorun k);
                       k = upd_tcb rtcb (msgwaitq_update (\<lambda>_. q)) k;
                       k = upd_mq q (nwaitnotempty_update (\<lambda>n. s16 (n + 1))) k;
                       k = set_errno OK k
                   in map_option Waits (up_block_task rtcb TSTATE_WAIT_MQNOTEMPTY k)
              else Some (Got NULL (set_errno EAGAIN k))))"

definition mq_waitreceive_resume :: "addr \<Rightarrow> 'z mq_kernel_scheme \<Rightarrow> 'z mq_kernel_scheme waited option" where
  "mq_waitreceive_resume mqdes k = (if get_errno k \<noteq> OK then Some (Got NULL k) else mq_waitreceive mqdes k)"

text \<open>The bytes and the priority given to the caller.\<close>

definition mq_doreceive :: "addr \<Rightarrow> addr \<Rightarrow> 'z mq_kernel_scheme \<Rightarrow> (byte list \<times> nat \<times> 'z mq_kernel_scheme) option" where
  "mq_doreceive mqdes m k = do {
     let data = mail (message k m);
     let p = priority (message k m);
     let k = mq_msgfree m k;
     let q = queue_of k mqdes;
     k \<leftarrow> (if nwaitnotfull (mqueue k q) > 0
          then let btcb = find_waiter (\<lambda>t. msgwaitq (tcb k t)) q (tasklist k TSTATE_WAIT_MQNOTFULL)
               in if btcb = NULL then None
                  else let k = upd_tcb btcb (msgwaitq_update (\<lambda>_. NULL)) k;
                           k = upd_mq q (nwaitnotfull_update (\<lambda>n. s16 (n - 1))) k
                       in up_unblock_task btcb k
          else Some k);
     Some (data, p, k)
   }"

text \<open>The message with its priority, the failure with the errno set, or a blocked task.\<close>

datatype 'k received = Received "byte list" nat 'k | Failed 'k | Waiting 'k

definition mq_receive_finish :: "addr \<Rightarrow> 'z mq_kernel_scheme waited \<Rightarrow> 'z mq_kernel_scheme received option" where
  "mq_receive_finish mqdes r =
     (case r of
        Waits k \<Rightarrow> Some (Waiting k)
      | Got m k \<Rightarrow>
          (if m \<noteq> NULL then do { (data, p, k) \<leftarrow> mq_doreceive mqdes m k; k \<leftarrow> sched_unlock k; Some (Received data p k) }
           else do { k \<leftarrow> sched_unlock k; Some (Failed k) }))"

definition mq_receive :: "addr \<Rightarrow> bool \<Rightarrow> nat \<Rightarrow> 'z mq_kernel_scheme \<Rightarrow> 'z mq_kernel_scheme received option" where
  "mq_receive mqdes buf len k =
     (let (ret, k) = mq_verifyreceive mqdes buf len k
      in if ret \<noteq> OK then Some (Failed k)
         else do {
           k \<leftarrow> sched_lock k;
           r \<leftarrow> mq_waitreceive mqdes k;
           mq_receive_finish mqdes r
         })"

definition mq_receive_resume :: "addr \<Rightarrow> 'z mq_kernel_scheme \<Rightarrow> 'z mq_kernel_scheme received option" where
  "mq_receive_resume mqdes k = do {
     r \<leftarrow> mq_waitreceive_resume mqdes k;
     mq_receive_finish mqdes r
   }"

subsection \<open>Interrupted waits (mq\_waitirq.c, mq\_timedsend.c, mq\_timedreceive.c)\<close>

definition mq_waitirq :: "addr \<Rightarrow> int \<Rightarrow> 'z mq_kernel_scheme \<Rightarrow> 'z mq_kernel_scheme option" where
  "mq_waitirq wtcb errcode k =
     (if state_of k wtcb = TSTATE_WAIT_MQNOTEMPTY \<or> state_of k wtcb = TSTATE_WAIT_MQNOTFULL
      then let q = msgwaitq (tcb k wtcb)
           in if q = NULL then None
              else let k = upd_tcb wtcb (msgwaitq_update (\<lambda>_. NULL)) k
                   in do {
                     k \<leftarrow> (if state_of k wtcb = TSTATE_WAIT_MQNOTEMPTY
                          then if nwaitnotempty (mqueue k q) \<le> 0 then None
                               else Some (upd_mq q (nwaitnotempty_update (\<lambda>n. s16 (n - 1))) k)
                          else if nwaitnotfull (mqueue k q) \<le> 0 then None
                               else Some (upd_mq q (nwaitnotfull_update (\<lambda>n. s16 (n - 1))) k));
                     up_unblock_task wtcb (upd_tcb wtcb (pterrno_update (\<lambda>_. errcode)) k)
                   }
      else Some k)"

definition mq_rcvtimeout :: "int \<Rightarrow> 'z mq_kernel_scheme \<Rightarrow> 'z mq_kernel_scheme option" where
  "mq_rcvtimeout pid k =
     (let wtcb = sched_gettcb pid k
      in if wtcb \<noteq> NULL \<and> state_of k wtcb = TSTATE_WAIT_MQNOTEMPTY then mq_waitirq wtcb ETIMEDOUT k else Some k)"

definition mq_sndtimeout :: "int \<Rightarrow> 'z mq_kernel_scheme \<Rightarrow> 'z mq_kernel_scheme option" where
  "mq_sndtimeout pid k =
     (let wtcb = sched_gettcb pid k
      in if wtcb \<noteq> NULL \<and> state_of k wtcb = TSTATE_WAIT_MQNOTFULL then mq_waitirq wtcb ETIMEDOUT k else Some k)"

subsection \<open>Queues and descriptors (mq\_open.c, mq\_close.c, mq\_unlink.c)\<close>

fun mq_findnamed_loop :: "(addr \<Rightarrow> msgq_s) \<Rightarrow> string \<Rightarrow> addr list \<Rightarrow> addr" where
  "mq_findnamed_loop mq nm [] = NULL"
| "mq_findnamed_loop mq nm (q # qs) = (if mq_name (mq q) = nm then q else mq_findnamed_loop mq nm qs)"

definition mq_findnamed :: "string \<Rightarrow> 'z mq_kernel_scheme \<Rightarrow> addr" where
  "mq_findnamed nm k = mq_findnamed_loop (mqueue k) nm (g_msgqueues k)"

definition mq_desalloc :: "addr \<Rightarrow> 'z mq_kernel_scheme \<Rightarrow> addr \<times> 'z mq_kernel_scheme" where
  "mq_desalloc blk k =
     (let k = (if g_desfree k = [] then mq_desblockalloc blk k else k)
      in case g_desfree k of [] \<Rightarrow> (NULL, k) | d # ds \<Rightarrow> (d, k\<lparr>g_desfree := ds\<rparr>))"

definition mq_descreate :: "addr \<Rightarrow> addr \<Rightarrow> nat \<Rightarrow> addr \<Rightarrow> 'z mq_kernel_scheme \<Rightarrow> addr \<times> 'z mq_kernel_scheme" where
  "mq_descreate mtcb q fl blk k =
     (let (d, k) = mq_desalloc blk k
      in if d \<noteq> NULL
         then (d, k\<lparr>descr := (descr k)(d := \<lparr>des_msgq = q, oflags = fl\<rparr>), msgdesq := (msgdesq k)(mtcb := msgdesq k mtcb @ [d])\<rparr>)
         else (d, k))"

text \<open>The attributes are the maximal number and size of messages; the result \<open>NULL\<close> stands for \<open>(mqd_t)ERROR\<close>.\<close>

definition new_msgq :: "string \<Rightarrow> (nat \<times> nat) option \<Rightarrow> msgq_s" where
  "new_msgq nm attr =
     \<lparr>msglist = [], maxmsgs = (case attr of Some (n, _) \<Rightarrow> s16 (int n) | None \<Rightarrow> MQ_MAX_MSGS),
      nmsgs = 0, nconnect = 1, nwaitnotfull = 0, nwaitnotempty = 0,
      maxmsgsize = (case attr of Some (_, sz) \<Rightarrow> if sz \<le> MQ_MAX_BYTES then sz else MQ_MAX_BYTES | None \<Rightarrow> MQ_MAX_BYTES),
      unlinked = False, mq_name = nm\<rparr>"

definition mq_open_locked :: "string \<Rightarrow> nat \<Rightarrow> (nat \<times> nat) option \<Rightarrow> addr \<Rightarrow> addr \<Rightarrow> addr \<Rightarrow> 'z mq_kernel_scheme \<Rightarrow> addr \<times> 'z mq_kernel_scheme" where
  "mq_open_locked nm fl attr mem blk rtcb k =
     (if length nm > 0
      then let q = mq_findnamed nm k
           in if q \<noteq> NULL
              then if fl AND O_CREAT = 0 \<or> fl AND O_EXCL = 0
                   then let (d, k) = mq_descreate rtcb q fl blk k
                        in (d, if d \<noteq> NULL then upd_mq q (nconnect_update (\<lambda>n. s16 (n + 1))) k else k)
                   else (NULL, k)
              else if fl AND O_CREAT \<noteq> 0 \<and> mem \<noteq> NULL
              then let (d, k) = mq_descreate rtcb mem fl blk k
                   in (d, if d \<noteq> NULL
                          then k\<lparr>mqueue := (mqueue k)(mem := new_msgq nm attr), g_msgqueues := g_msgqueues k @ [mem]\<rparr>
                          else call_sched_free mem k)
              else (NULL, k)
      else (NULL, k))"

definition mq_open :: "string option \<Rightarrow> nat \<Rightarrow> (nat \<times> nat) option \<Rightarrow> addr \<Rightarrow> addr \<Rightarrow> 'z mq_kernel_scheme \<Rightarrow>
    (addr \<times> 'z mq_kernel_scheme) option" where
  "mq_open name fl attr mem blk k =
     (let rtcb = list_head (g_readytorun k)
      in case name of
           None \<Rightarrow> Some (NULL, k)
         | Some nm \<Rightarrow> do {
             k \<leftarrow> sched_lock k;
             let (d, k) = mq_open_locked nm fl attr mem blk rtcb k;
             k \<leftarrow> sched_unlock k;
             Some (d, k)
           })"

definition mq_msgqfree :: "addr \<Rightarrow> 'z mq_kernel_scheme \<Rightarrow> 'z mq_kernel_scheme" where
  "mq_msgqfree q k = call_sched_free q (fold mq_msgfree (msglist (mqueue k q)) k)"

definition mq_close_locked :: "addr \<Rightarrow> addr \<Rightarrow> 'z mq_kernel_scheme \<Rightarrow> 'z mq_kernel_scheme" where
  "mq_close_locked mqdes rtcb k =
     (let k = k\<lparr>msgdesq := (msgdesq k)(rtcb := remove1 mqdes (msgdesq k rtcb))\<rparr>;
          q = queue_of k mqdes;
          k = (if nconnect (mqueue k q) \<noteq> 0 then upd_mq q (nconnect_update (\<lambda>n. n - 1)) k else k);
          k = (if nconnect (mqueue k q) = 0 \<and> unlinked (mqueue k q)
               then mq_msgqfree q (k\<lparr>g_msgqueues := remove1 q (g_msgqueues k)\<rparr>) else k)
      in k\<lparr>g_desfree := g_desfree k @ [mqdes]\<rparr>)"

definition mq_close :: "addr \<Rightarrow> 'z mq_kernel_scheme \<Rightarrow> (int \<times> 'z mq_kernel_scheme) option" where
  "mq_close mqdes k =
     (let rtcb = list_head (g_readytorun k)
      in if mqdes \<noteq> NULL
         then do {
           k \<leftarrow> sched_lock k;
           k \<leftarrow> sched_unlock (mq_close_locked mqdes rtcb k);
           Some (OK, k)
         }
         else Some (ERROR, k))"

definition mq_unlink :: "string option \<Rightarrow> 'z mq_kernel_scheme \<Rightarrow> (int \<times> 'z mq_kernel_scheme) option" where
  "mq_unlink name k =
     (case name of
        None \<Rightarrow> Some (ERROR, k)
      | Some nm \<Rightarrow> do {
          k \<leftarrow> sched_lock k;
          let q = mq_findnamed nm k;
          let (ret, k) =
            (if q \<noteq> NULL
             then (OK, if nconnect (mqueue k q) = 0 then mq_msgqfree q (k\<lparr>g_msgqueues := remove1 q (g_msgqueues k)\<rparr>)
                       else upd_mq q (unlinked_update (\<lambda>_. True)) k)
             else (ERROR, k));
          k \<leftarrow> sched_unlock k;
          Some (ret, k)
        })"

record mq_attr =
  mq_maxmsg :: int
  mq_msgsize :: nat
  mq_flags :: nat
  mq_curmsgs :: int

definition mq_getattr :: "addr \<Rightarrow> 'z mq_kernel_scheme \<Rightarrow> mq_attr option" where
  "mq_getattr mqdes k =
     (if mqdes \<noteq> NULL
      then let q = mqueue k (queue_of k mqdes)
           in Some \<lparr>mq_maxmsg = maxmsgs q, mq_msgsize = maxmsgsize q, mq_flags = oflags (descr k mqdes), mq_curmsgs = nmsgs q\<rparr>
      else None)"

text \<open>The mask \<open>~O_NONBLOCK\<close> is applied by subtracting the bit that is set.\<close>

definition mq_setattr :: "addr \<Rightarrow> nat \<Rightarrow> 'z mq_kernel_scheme \<Rightarrow> int \<times> 'z mq_kernel_scheme" where
  "mq_setattr mqdes fl k =
     (if mqdes \<noteq> NULL
      then let old = oflags (descr k mqdes)
           in (OK, k\<lparr>descr := (descr k)(mqdes := (descr k mqdes)\<lparr>oflags := (fl AND O_NONBLOCK) OR (old - (old AND O_NONBLOCK))\<rparr>)\<rparr>)
      else (ERROR, k))"

end
