(* ===== verification/Calm.thy ===== *)
theory Calm
  imports Waiting
begin

section \<open>Steps that leave the waiting tasks alone\<close>

text \<open>
  \<open>sched_lock\<close>, \<open>sched_unlock\<close> and assignments of errno frame most calls of the kernel. They keep the blocked tasks, the priorities and
  the state of the other components (\<open>calm\<close>), so that a component's invariant survives them.
\<close>

definition calm :: "'z kernel_scheme \<Rightarrow> 'z kernel_scheme \<Rightarrow> bool" where
  "calm k k' \<longleftrightarrow> (\<forall>v. is_blocked_state v \<longrightarrow> tasklist k' v = tasklist k v) \<and>
     (\<forall>t. waitsem (tcb k' t) = waitsem (tcb k t) \<and> msgwaitq (tcb k' t) = msgwaitq (tcb k t) \<and> prio k' t = prio k t) \<and>
     live k' = live k \<and> current_regs k' = current_regs k \<and> kernel.more k' = kernel.more k"

lemma calm_refl [simp]: "calm k k"
  by (simp add: calm_def)

lemma calm_trans: "calm k k1 \<Longrightarrow> calm k1 k2 \<Longrightarrow> calm k k2"
  by (simp add: calm_def)

lemma calm_upd_tcb:
  assumes "\<And>c. waitsem (f c) = waitsem c" "\<And>c. msgwaitq (f c) = msgwaitq c" "\<And>c. sched_priority (f c) = sched_priority c" "\<And>c. task_state (f c) = task_state c"
  shows "calm k (upd_tcb t f k)"
proof -
  have "live (upd_tcb t f k) = live k" using assms(4) by (auto simp: live_def upd_tcb_def)
  then show ?thesis using assms by (simp add: calm_def upd_tcb_def)
qed

lemma sched_lock_calm:
  assumes "sched_ok k" "current_regs k \<or> lockcount (tcb k (hd (g_readytorun k))) < MAX_LOCK_COUNT"
  obtains k' where "sched_lock k = Some k'" "sched_ok k'" "calm k k'" "g_readytorun k' = g_readytorun k"
    "\<not> current_regs k \<Longrightarrow> lockcount (tcb k' (hd (g_readytorun k))) = Suc (lockcount (tcb k (hd (g_readytorun k))))"
    "g_pendingtasks k' = g_pendingtasks k"
proof (cases "current_regs k")
  case True
  then show thesis using that [of k] assms(1) by (simp add: sched_lock_def)
next
  case False
  let ?k = "upd_tcb (hd (g_readytorun k)) (lockcount_update Suc) k"
  have "calm k ?k" by (rule calm_upd_tcb) simp_all
  then show thesis using that [of ?k] sched_lock_ok [OF assms(1) False] assms(2) False by (simp add: upd_tcb_def)
qed

lemma runnable_iff:
  assumes "lists_ok k"
  shows "is_ready_state (state_of k t) \<or> state_of k t = TSTATE_TASK_PENDING \<longleftrightarrow> t \<in> set (g_readytorun k) \<union> set (g_pendingtasks k)"
  using ready_iff [OF assms, of t] tasks_okD(4) [OF lists_okD [OF assms], of t TSTATE_TASK_PENDING] by simp

lemma sched_unlock_calm:
  assumes "sched_ok k"
  obtains k' where "sched_unlock k = Some k'" "sched_ok k'" "calm k k'"
    "\<And>t. is_ready_state (state_of k t) \<or> state_of k t = TSTATE_TASK_PENDING \<Longrightarrow> is_ready_state (state_of k' t) \<or> state_of k' t = TSTATE_TASK_PENDING"
proof (cases "current_regs k")
  case True
  then show thesis using that [of k] assms by (simp add: sched_unlock_def)
next
  case False
  define r where "r = hd (g_readytorun k)"
  define k1 where "k1 = upd_tcb r (lockcount_update (\<lambda>n. n - 1)) k"
  obtain k' where k': "sched_unlock k = Some k'" "sched_ok k'" "rest k' = rest k1"
    "tasklist k' = (if lockcount (tcb k r) \<le> 1
       then (tasklist k)(RTR := fold (prio_insert (prio k)) (g_pendingtasks k) (g_readytorun k), TSTATE_TASK_PENDING := []) else tasklist k)"
    using sched_unlock_ok [OF assms False] unfolding k1_def r_def by blast
  note L = sched_okD(1) [OF assms] and L' = sched_okD(1) [OF k'(2)]
  have T: "tasklist k' v = tasklist k v" if "is_blocked_state v" for v using k'(4) that by (auto simp: is_blocked_state_def)
  have U: "set (g_readytorun k') \<union> set (g_pendingtasks k') = set (g_readytorun k) \<union> set (g_pendingtasks k)"
    unfolding k'(4) by auto
  have "live k' = live k"
    by (rule same_waiters_live [OF L L' same_waitersI]) (use U in \<open>auto simp: k'(4) plain_list_def\<close>)
  moreover have "waitsem (tcb k' t) = waitsem (tcb k t) \<and> msgwaitq (tcb k' t) = msgwaitq (tcb k t) \<and> prio k' t = prio k t" for t
    using rest_eqD(1,6,7) [OF k'(3), of t] by (simp add: k1_def upd_tcb_def)
  moreover have "current_regs k' = current_regs k" "kernel.more k' = kernel.more k"
    using rest_eqD(9,11) [OF k'(3)] by (simp_all add: k1_def upd_tcb_def)
  ultimately have "calm k k'" using T by (simp add: calm_def)
  moreover have "is_ready_state (state_of k' t) \<or> state_of k' t = TSTATE_TASK_PENDING \<longleftrightarrow>
      is_ready_state (state_of k t) \<or> state_of k t = TSTATE_TASK_PENDING" for t
    using U unfolding runnable_iff [OF L, of t] runnable_iff [OF L', of t] by blast
  ultimately show thesis using that [of k'] k'(1,2) by blast
qed

lemma set_errno_calm:
  assumes "sched_ok k"
  shows "calm k (set_errno e k)"
proof (cases "current_regs k")
  case True
  then show ?thesis by (simp add: set_errno_def calm_def live_def)
next
  case False
  show ?thesis unfolding set_errno_eq [OF assms False] by (intro calm_upd_tcb) simp_all
qed

text \<open>Room for \<open>n\<close> more preemption locks.\<close>

definition lock_free :: "nat \<Rightarrow> 'z kernel_scheme \<Rightarrow> bool" where
  "lock_free n k \<longleftrightarrow> current_regs k \<or> lockcount (tcb k (hd (g_readytorun k))) + n \<le> MAX_LOCK_COUNT"

end
