(* ===== verification/Mq_Ops.thy ===== *)
theory Mq_Ops
  imports Mq Calm "HOL-Library.Multiset"
begin

section \<open>The operations on message queues\<close>

text \<open>
  The invariant \<open>mq_ok\<close> of the message queues and what sending, receiving, waiting and waking do to it
  and to the contents of a queue. The steps of the scheduler are used through the locale \<open>wait_objects\<close>.
\<close>

subsection \<open>The invariant\<close>

abbreviation NE :: tstate where "NE \<equiv> TSTATE_WAIT_MQNOTEMPTY"
abbreviation NF :: tstate where "NF \<equiv> TSTATE_WAIT_MQNOTFULL"

fun wait_count :: "tstate \<Rightarrow> msgq_s \<Rightarrow> int" where
  "wait_count TSTATE_WAIT_MQNOTEMPTY c = nwaitnotempty c"
| "wait_count _ c = nwaitnotfull c"

fun upd_wait_count :: "tstate \<Rightarrow> (int \<Rightarrow> int) \<Rightarrow> msgq_s \<Rightarrow> msgq_s" where
  "upd_wait_count TSTATE_WAIT_MQNOTEMPTY f c = nwaitnotempty_update f c"
| "upd_wait_count _ f c = nwaitnotfull_update f c"

abbreviation msg_waits :: "tstate \<Rightarrow> 'z mq_kernel_scheme \<Rightarrow> addr \<Rightarrow> addr list" where
  "msg_waits s \<equiv> waiting_on s msgwaitq"

text \<open>The counters are the numbers of waiting tasks.\<close>

definition mq_waits_ok :: "'z mq_kernel_scheme \<Rightarrow> bool" where
  "mq_waits_ok k \<longleftrightarrow> wait_field_ok {NE, NF} msgwaitq k \<and>
     (\<forall>s\<in>{NE, NF}. length (tasklist k s) < 32768 \<and>
       (\<forall>q. q \<noteq> NULL \<longrightarrow> wait_count s (mqueue k q) = int (length (msg_waits s k q))))"

text \<open>Every message, free or in a queue.\<close>

definition all_msgs :: "'z mq_kernel_scheme \<Rightarrow> addr list" where
  "all_msgs k = g_msgfree k @ g_msgfreeirq k @ concat (map (\<lambda>q. msglist (mqueue k q)) (g_msgqueues k))"

text \<open>
  No message is in two places; the messages of a queue are in descending order of priority and fit
  the size of the queue; the counter of a queue is right.
\<close>

definition mq_msgs_ok :: "'z mq_kernel_scheme \<Rightarrow> bool" where
  "mq_msgs_ok k \<longleftrightarrow> distinct (all_msgs k) \<and> NULL \<notin> set (all_msgs k) \<and> distinct (g_msgqueues k) \<and> NULL \<notin> set (g_msgqueues k) \<and>
     (\<forall>m\<in>set (g_msgfree k). msg_type (message k m) = MQ_ALLOC_FIXED) \<and>
     (\<forall>m\<in>set (g_msgfreeirq k). msg_type (message k m) = MQ_ALLOC_IRQ) \<and>
     (\<forall>q\<in>set (g_msgqueues k). nmsgs (mqueue k q) = int (length (msglist (mqueue k q))) \<and> nmsgs (mqueue k q) < 32768 \<and>
        prio_sorted (\<lambda>m. priority (message k m)) (msglist (mqueue k q)) \<and>
        (\<forall>m\<in>set (msglist (mqueue k q)). length (mail (message k m)) \<le> maxmsgsize (mqueue k q)))"

definition mq_ok :: "'z mq_kernel_scheme \<Rightarrow> bool" where
  "mq_ok k \<longleftrightarrow> sem_ok k \<and> mq_waits_ok k \<and> mq_msgs_ok k"

text \<open>What a queue holds.\<close>

definition contents :: "'z mq_kernel_scheme \<Rightarrow> addr \<Rightarrow> (nat \<times> byte list) list" where
  "contents k q = map (\<lambda>m. (priority (message k m), mail (message k m))) (msglist (mqueue k q))"

lemma mq_okD:
  assumes "mq_ok k"
  shows "sem_ok k" "sched_ok k" "mq_waits_ok k" "mq_msgs_ok k" "wait_field_ok {NE, NF} msgwaitq k"
  using assms by (auto simp: mq_ok_def mq_waits_ok_def sem_okD(1))

lemma mq_waitsD:
  assumes "mq_waits_ok k" "s \<in> {NE, NF}"
  shows "length (tasklist k s) < 32768" "q \<noteq> NULL \<Longrightarrow> wait_count s (mqueue k q) = int (length (msg_waits s k q))"
  using assms by (auto simp: mq_waits_ok_def)

lemma mq_ext [simp]:
  "tcb (upd_mq q g k) = tcb k" "tasklist (upd_mq q g k) = tasklist k" "cpu (upd_mq q g k) = cpu k"
  "current_regs (upd_mq q g k) = current_regs k" "semcount (upd_mq q g k) = semcount k"
  "message (upd_mq q g k) = message k" "descr (upd_mq q g k) = descr k" "g_msgqueues (upd_mq q g k) = g_msgqueues k"
  "g_msgfree (upd_mq q g k) = g_msgfree k" "g_msgfreeirq (upd_mq q g k) = g_msgfreeirq k"
  "mqueue (upd_mq q g k) = (mqueue k)(q := g (mqueue k q))"
  "tcb (upd_msg m h k) = tcb k" "tasklist (upd_msg m h k) = tasklist k" "cpu (upd_msg m h k) = cpu k"
  "current_regs (upd_msg m h k) = current_regs k" "semcount (upd_msg m h k) = semcount k"
  "message (upd_msg m h k) = (message k)(m := h (message k m))" "descr (upd_msg m h k) = descr k"
  "g_msgqueues (upd_msg m h k) = g_msgqueues k" "mqueue (upd_msg m h k) = mqueue k"
  "g_msgfree (upd_msg m h k) = g_msgfree k" "g_msgfreeirq (upd_msg m h k) = g_msgfreeirq k"
  "mqueue (upd_tcb t f k) = mqueue k" "message (upd_tcb t f k) = message k" "descr (upd_tcb t f k) = descr k"
  "g_msgqueues (upd_tcb t f k) = g_msgqueues k" "g_msgfree (upd_tcb t f k) = g_msgfree k" "g_msgfreeirq (upd_tcb t f k) = g_msgfreeirq k"
  by (simp_all add: upd_mq_def upd_msg_def upd_tcb_def)

text \<open>The scheduler's part of the state is that of the TCBs, the lists and the processor.\<close>

lemma kernel_cong:
  assumes "tcb k' = tcb k" "tasklist k' = tasklist k" "cpu k' = cpu k"
  shows "sched_ok k' = sched_ok k" "waiting_on s fld k' = waiting_on s fld k" "wait_field_ok S fld k' = wait_field_ok S fld k"
    "live k' = live k"
  by (simp_all add: assms sched_ok_def lists_ok_def waiting_on_def wait_field_ok_def live_def fun_eq_iff)

lemma mq_more_eqD:
  assumes "kernel.more k' = kernel.more (k :: 'z mq_kernel_scheme)"
  shows "mqueue k' = mqueue k" "message k' = message k" "descr k' = descr k" "g_msgqueues k' = g_msgqueues k"
    "g_msgfree k' = g_msgfree k" "g_msgfreeirq k' = g_msgfreeirq k" "semcount k' = semcount k"
proof -
  have "k' = k\<lparr>tcb := tcb k', tasklist := tasklist k', cpu := cpu k', current_regs := current_regs k', g_irqerrno := g_irqerrno k'\<rparr>"
    using assms by (intro kernel.equality) simp_all
  note * = arg_cong [OF this]
  show "mqueue k' = mqueue k" using * [of mqueue] by simp
  show "message k' = message k" using * [of message] by simp
  show "descr k' = descr k" using * [of descr] by simp
  show "g_msgqueues k' = g_msgqueues k" using * [of g_msgqueues] by simp
  show "g_msgfree k' = g_msgfree k" using * [of g_msgfree] by simp
  show "g_msgfreeirq k' = g_msgfreeirq k" using * [of g_msgfreeirq] by simp
  show "semcount k' = semcount k" using * [of semcount] by simp
qed

lemma msgs_ok_cong:
  assumes "message k' = message k" "g_msgqueues k' = g_msgqueues k" "g_msgfree k' = g_msgfree k" "g_msgfreeirq k' = g_msgfreeirq k"
    "\<And>q. msglist (mqueue k' q) = msglist (mqueue k q)" "\<And>q. nmsgs (mqueue k' q) = nmsgs (mqueue k q)"
    "\<And>q. maxmsgsize (mqueue k' q) = maxmsgsize (mqueue k q)"
  shows "mq_msgs_ok k' = mq_msgs_ok k" "all_msgs k' = all_msgs k" "contents k' = contents k"
  by (simp_all add: mq_msgs_ok_def all_msgs_def contents_def assms fun_eq_iff)

lemma upd_wait_count_fields [simp]:
  "msglist (upd_wait_count s g c) = msglist c" "nmsgs (upd_wait_count s g c) = nmsgs c" "maxmsgsize (upd_wait_count s g c) = maxmsgsize c"
  "maxmsgs (upd_wait_count s g c) = maxmsgs c"
  by (cases s; simp)+

lemma wait_count_upd [simp]:
  "s \<in> {NE, NF} \<Longrightarrow> u \<in> {NE, NF} \<Longrightarrow> wait_count u (upd_wait_count s g c) = (if u = s then g (wait_count s c) else wait_count u c)"
  by auto

lemma upd_wait_count_fun: "upd_wait_count NE g = nwaitnotempty_update g" "upd_wait_count NF g = nwaitnotfull_update g"
  by (simp_all add: fun_eq_iff)

lemma mq_wait_objects: "s \<in> {NE, NF} \<Longrightarrow> wait_objects s {NE, NF} msgwaitq"
  using not_empty.wait_objects_axioms not_full.wait_objects_axioms by auto

subsection \<open>Blocking and waking\<close>

text \<open>A task that waits in the other state is not affected.\<close>

lemma waiting_other:
  assumes "sched_ok k" "tasklist k' u = tasklist k u" "is_blocked_state u"
    "\<And>t. state_of k t = u \<Longrightarrow> msgwaitq (tcb k' t) = msgwaitq (tcb k t)"
  shows "msg_waits u k' q = msg_waits u k q"
proof -
  have "\<forall>t\<in>set (tasklist k u). state_of k t = u" using blocked_in_list [OF sched_okD(1) [OF assms(1)] assms(3)] by simp
  then show ?thesis unfolding waiting_on_def assms(2) using assms(4) by (intro filter_cong) auto
qed

lemma mq_block_ok:
  assumes ok: "mq_ok k" and cr: "\<not> current_regs k" and s: "s \<in> {NE, NF}" and q: "q \<noteq> NULL"
    and n: "length (g_readytorun k) > 1" "length (tasklist k s) < 32767"
  defines "r \<equiv> hd (g_readytorun k)"
  defines "k1 \<equiv> set_errno OK (upd_mq q (upd_wait_count s (\<lambda>n. s16 (n + 1))) (upd_tcb r (msgwaitq_update (\<lambda>_. q)) k))"
  obtains k' where "up_block_task r s k1 = Some k'" "mq_ok k'" "state_of k' r = s" "pterrno (tcb k' r) = OK"
    "msg_waits s k' = (msg_waits s k)(q := prio_insert (prio k) r (msg_waits s k q))"
    "\<And>u. u \<in> {NE, NF} \<Longrightarrow> u \<noteq> s \<Longrightarrow> msg_waits u k' = msg_waits u k"
    "contents k' = contents k" "current_regs k' = current_regs k" "descr k' = descr k"
    "g_readytorun k' = fold (prio_insert (prio k)) (g_pendingtasks k) (tl (g_readytorun k))"
    "\<And>p. maxmsgs (mqueue k' p) = maxmsgs (mqueue k p)" "rest k' = rest k1"
proof -
  note S = mq_okD(2) [OF ok]
  note WO = mq_wait_objects [OF s]
  let ?f = "\<lambda>c. c\<lparr>msgwaitq := q, pterrno := OK\<rparr>" and ?k = "upd_mq q (upd_wait_count s (\<lambda>n. s16 (n + 1))) k"
  have k1: "k1 = upd_tcb r ?f ?k"
  proof -
    let ?j = "upd_mq q (upd_wait_count s (\<lambda>n. s16 (n + 1))) (upd_tcb r (msgwaitq_update (\<lambda>_. q)) k)"
    have "sched_ok ?j" using S by (simp add: kernel_cong(1) [of ?j "upd_tcb r (msgwaitq_update (\<lambda>_. q)) k"] sched_ok_upd_tcb)
    then have "k1 = upd_tcb (hd (g_readytorun ?j)) (pterrno_update (\<lambda>_. OK)) ?j"
      unfolding k1_def using cr by (intro set_errno_eq) simp_all
    moreover have "?j = upd_tcb r (msgwaitq_update (\<lambda>_. q)) ?k" by (simp add: upd_mq_def upd_tcb_def)
    ultimately show ?thesis by (simp add: r_def upd_tcb_twice)
  qed
  have C: "sched_ok ?k = sched_ok k" "wait_field_ok S' fld ?k = wait_field_ok S' fld k" "waiting_on s' fld ?k = waiting_on s' fld k" "live ?k = live k" for S' s' fld
    by (rule kernel_cong; simp)+
  obtain k' where k': "up_block_task r s (upd_tcb r ?f ?k) = Some k'" "sched_ok k'" "rest k' = rest (upd_tcb r ?f ?k)" "state_of k' r = s"
    "msg_waits s k' = (msg_waits s k)(q := prio_insert (prio k) r (msg_waits s k q))" "wait_field_ok {NE, NF} msgwaitq k'"
    "g_readytorun k' = fold (prio_insert (prio k)) (g_pendingtasks k) (tl (g_readytorun k))" 
    "\<And>v. is_blocked_state v \<Longrightarrow> v \<noteq> s \<Longrightarrow> tasklist k' v = tasklist k v"
    "tasklist k' s = prio_insert (prio k) r (tasklist k s)" "live k' = live k"
    by (rule wait_objects.block_running [OF WO, of ?k q ?f]) (use S mq_okD(5) [OF ok] n(1) q in \<open>simp_all add: C r_def\<close>)
  have b: "is_blocked_state NE" "is_blocked_state NF" "is_blocked_state TSTATE_WAIT_SEM" by (simp_all add: is_blocked_state_def)
  have M: "kernel.more k' = kernel.more (upd_tcb r ?f ?k)" by (rule rest_eqD(11) [OF k'(3)])
  have F: "mqueue k' = (mqueue k)(q := upd_wait_count s (\<lambda>n. s16 (n + 1)) (mqueue k q))" "message k' = message k" "descr k' = descr k"
    "g_msgqueues k' = g_msgqueues k" "g_msgfree k' = g_msgfree k" "g_msgfreeirq k' = g_msgfreeirq k" "semcount k' = semcount k"
    using mq_more_eqD [OF M] by simp_all
  have run: "state_of k r = TSTATE_TASK_RUNNING" using running_state [OF S] by (simp add: r_def)
  have oth: "msg_waits u k' = msg_waits u k" if u: "u \<in> {NE, NF}" "u \<noteq> s" for u
  proof
    fix p
    show "msg_waits u k' p = msg_waits u k p"
    proof (rule waiting_other [OF S])
      show "tasklist k' u = tasklist k u" using k'(8) [of u] u b by auto
      show "is_blocked_state u" using u b by auto
      show "msgwaitq (tcb k' t) = msgwaitq (tcb k t)" if "state_of k t = u" for t
        using rest_eqD(7) [OF k'(3), of t] that run u by (auto simp: upd_tcb_def)
    qed
  qed
  have len: "s16 (wait_count s (mqueue k q) + 1) = int (length (msg_waits s k q)) + 1"
  proof -
    have "length (msg_waits s k q) \<le> length (tasklist k s)" by (simp add: waiting_on_def)
    then show ?thesis using mq_waitsD(2) [OF mq_okD(3) [OF ok] s q] n(2) by simp
  qed
  have W: "mq_waits_ok k'"
    unfolding mq_waits_ok_def
  proof (intro conjI ballI allI impI)
    fix u assume u: "u \<in> {NE, NF}"
    show "length (tasklist k' u) < 32768"
      using k'(8) [of u] k'(9) mq_waitsD(1) [OF mq_okD(3) [OF ok] u] n(2) u b by (cases "u = s") auto
    fix p :: addr assume p: "p \<noteq> NULL"
    show "wait_count u (mqueue k' p) = int (length (msg_waits u k' p))"
      using len mq_waitsD(2) [OF mq_okD(3) [OF ok] u p] k'(5) oth [OF u] s u by (auto simp: F(1))
  qed (rule k'(6))
  have X: "mq_msgs_ok k' = mq_msgs_ok k" "contents k' = contents k"
    by (rule msgs_ok_cong; simp add: F)+
  have "sem_ok k'"
  proof (rule sem_ok_keep [OF mq_okD(1) [OF ok] k'(2)])
    show "tasklist k' TSTATE_WAIT_SEM = tasklist k TSTATE_WAIT_SEM" using k'(8) b s by auto
    show "waitsem (tcb k' t) = waitsem (tcb k t)" for t using rest_eqD(6) [OF k'(3), of t] by (simp add: upd_tcb_def)
  qed (simp_all add: F k'(10))
  then have "mq_ok k'" using W X mq_okD(4) [OF ok] by (simp add: mq_ok_def)
  moreover have "pterrno (tcb k' r) = OK" "current_regs k' = current_regs k"
    using rest_eqD(8,9) [OF k'(3)] by (simp_all add: upd_tcb_def)
  ultimately show thesis
    using that [of k'] k'(1,3-5,7) oth X(2) F(1,3) unfolding k1 by simp
qed

text \<open>A waiting task is woken and its wait taken off the counter.\<close>

lemma mq_wake_ok:
  assumes ok: "mq_ok k" and s: "s \<in> {NE, NF}" and q: "q \<noteq> NULL" and t: "t \<in> set (msg_waits s k q)"
    and f: "\<And>c. task_state (f c) = task_state c" "\<And>c. sched_priority (f c) = sched_priority c"
      "\<And>c. lockcount (f c) = lockcount c" "\<And>c. msgwaitq (f c) = NULL" "\<And>c. waitsem (f c) = waitsem c"
  defines "k1 \<equiv> upd_tcb t f (upd_mq q (upd_wait_count s (\<lambda>n. s16 (n - 1))) k)"
  obtains k' where "up_unblock_task t k1 = Some k'" "mq_ok k'" "rest k' = rest k1"
    "\<And>p. p \<noteq> NULL \<Longrightarrow> msg_waits s k' p = (if p = q then remove1 t (msg_waits s k q) else msg_waits s k p)"
    "\<And>u. u \<in> {NE, NF} \<Longrightarrow> u \<noteq> s \<Longrightarrow> msg_waits u k' = msg_waits u k"
    "contents k' = contents k" "current_regs k' = current_regs k" "descr k' = descr k"
    "tasklist k' = (tasklist k)(s := remove1 t (tasklist k s), ready_list k t := prio_insert (prio k) t (tasklist k (ready_list k t)))"
    "\<And>p. maxmsgs (mqueue k' p) = maxmsgs (mqueue k p)" "all_msgs k' = all_msgs k" "g_msgqueues k' = g_msgqueues k"
proof -
  note S = mq_okD(2) [OF ok]
  note WO = mq_wait_objects [OF s]
  let ?k = "upd_mq q (upd_wait_count s (\<lambda>n. s16 (n - 1))) k"
  have C: "sched_ok ?k = sched_ok k" "wait_field_ok S' fld ?k = wait_field_ok S' fld k" "waiting_on s' fld ?k = waiting_on s' fld k" "live ?k = live k" for S' s' fld
    by (rule kernel_cong; simp)+
  have st: "state_of k t = s" "msgwaitq (tcb k t) = q" using wait_objects.mem [OF WO S] t by auto
  have rl: "ready_list ?k t = ready_list k t" by (simp add: ready_list_def)
  obtain k' where k': "up_unblock_task t k1 = Some k'" "sched_ok k'" "rest k' = rest k1"
    "\<And>p. p \<noteq> NULL \<Longrightarrow> msg_waits s k' p = (if p = q then remove1 t (msg_waits s k q) else msg_waits s k p)"
    "wait_field_ok {NE, NF} msgwaitq k'"
    "tasklist k' = (tasklist k)(s := remove1 t (tasklist k s), ready_list k t := prio_insert (prio k) t (tasklist k (ready_list k t)))"
    "\<And>v. is_blocked_state v \<Longrightarrow> v \<noteq> s \<Longrightarrow> tasklist k' v = tasklist k v" "tasklist k' s = remove1 t (tasklist k s)" "live k' = live k"
    by (rule wait_objects.wake [OF WO, of ?k q t f]) (use S mq_okD(5) [OF ok] q t f in \<open>simp_all add: C k1_def rl\<close>)
  have b: "is_blocked_state NE" "is_blocked_state NF" "is_blocked_state TSTATE_WAIT_SEM" by (simp_all add: is_blocked_state_def)
  have M: "kernel.more k' = kernel.more k1" by (rule rest_eqD(11) [OF k'(3)])
  have F: "mqueue k' = (mqueue k)(q := upd_wait_count s (\<lambda>n. s16 (n - 1)) (mqueue k q))" "message k' = message k" "descr k' = descr k"
    "g_msgqueues k' = g_msgqueues k" "g_msgfree k' = g_msgfree k" "g_msgfreeirq k' = g_msgfreeirq k" "semcount k' = semcount k"
    using mq_more_eqD [OF M] by (simp_all add: k1_def)
  have oth: "msg_waits u k' = msg_waits u k" if u: "u \<in> {NE, NF}" "u \<noteq> s" for u
  proof
    fix p
    show "msg_waits u k' p = msg_waits u k p"
    proof (rule waiting_other [OF S])
      show "tasklist k' u = tasklist k u" using k'(7) [of u] u b by auto
      show "is_blocked_state u" using u b by auto
      show "msgwaitq (tcb k' x) = msgwaitq (tcb k x)" if "state_of k x = u" for x
        using rest_eqD(7) [OF k'(3), of x] that st u by (auto simp: k1_def upd_tcb_def)
    qed
  qed
  have len: "s16 (wait_count s (mqueue k q) - 1) = int (length (msg_waits s k q)) - 1"
  proof -
    have "length (msg_waits s k q) \<le> length (tasklist k s)" by (simp add: waiting_on_def)
    moreover have "0 < length (msg_waits s k q)" using t by (cases "msg_waits s k q") auto
    ultimately show ?thesis using mq_waitsD [OF mq_okD(3) [OF ok] s] q by simp
  qed
  have W: "mq_waits_ok k'"
    unfolding mq_waits_ok_def
  proof (intro conjI ballI allI impI)
    fix u assume u: "u \<in> {NE, NF}"
    show "length (tasklist k' u) < 32768"
      using k'(7) [of u] k'(8) mq_waitsD(1) [OF mq_okD(3) [OF ok] u] u b by (cases "u = s") (auto simp: length_remove1)
    fix p :: addr assume p: "p \<noteq> NULL"
    have "0 < length (msg_waits s k q)" using t by (rule length_pos_if_in_set)
    then have l: "int (length (msg_waits s k q)) - 1 = int (length (remove1 t (msg_waits s k q)))" using t by (auto simp only: length_remove1 if_True)
    show "wait_count u (mqueue k' p) = int (length (msg_waits u k' p))"
      using len [unfolded l] mq_waitsD(2) [OF mq_okD(3) [OF ok] u p] k'(4) [OF p] oth [OF u] s u by (auto simp: F(1))
  qed (rule k'(5))
  have X: "mq_msgs_ok k' = mq_msgs_ok k" "all_msgs k' = all_msgs k" "contents k' = contents k"
    by (rule msgs_ok_cong; simp add: F)+
  have "sem_ok k'"
  proof (rule sem_ok_keep [OF mq_okD(1) [OF ok] k'(2)])
    show "tasklist k' TSTATE_WAIT_SEM = tasklist k TSTATE_WAIT_SEM" using k'(7) b s by auto
    show "waitsem (tcb k' x) = waitsem (tcb k x)" for x using rest_eqD(6) [OF k'(3), of x] f(5) by (simp add: k1_def upd_tcb_def)
  qed (simp_all add: F k'(9))
  then have "mq_ok k'" using W X mq_okD(4) [OF ok] by (simp add: mq_ok_def)
  moreover have "current_regs k' = current_regs k" using rest_eqD(9) [OF k'(3)] by (simp add: k1_def)
  ultimately show thesis
    using that [of k'] k'(1,3,4,6) oth X F by simp
qed

subsection \<open>Locks and errno\<close>

lemma mq_ok_calm:
  assumes "mq_ok k" "sched_ok k'" "calm k k'"
  shows "mq_ok k'" "contents k' = contents k" "all_msgs k' = all_msgs k" "mqueue k' = mqueue k" "descr k' = descr k"
    "g_msgqueues k' = g_msgqueues k" "s \<in> {NE, NF} \<Longrightarrow> msg_waits s k' = msg_waits s k" "current_regs k' = current_regs k"
    "message k' = message k" "g_msgfree k' = g_msgfree k" "g_msgfreeirq k' = g_msgfreeirq k"
proof -
  note M = mq_more_eqD [of k' k] and c = assms(3) [unfolded calm_def]
  have F: "mqueue k' = mqueue k" "message k' = message k" "descr k' = descr k" "g_msgqueues k' = g_msgqueues k"
    "g_msgfree k' = g_msgfree k" "g_msgfreeirq k' = g_msgfreeirq k" "semcount k' = semcount k"
    using M c by simp_all
  have b: "is_blocked_state NE" "is_blocked_state NF" "is_blocked_state TSTATE_WAIT_SEM" by (simp_all add: is_blocked_state_def)
  have T: "tasklist k' v = tasklist k v" if "v \<in> {NE, NF, TSTATE_WAIT_SEM}" for v using c b that by auto
  have W: "msg_waits u k' = msg_waits u k" if "u \<in> {NE, NF}" for u
    using T [of u] that c by (auto simp: waiting_on_def fun_eq_iff)
  have X: "mq_msgs_ok k' = mq_msgs_ok k" "all_msgs k' = all_msgs k" "contents k' = contents k"
    by (rule msgs_ok_cong; simp add: F)+
  have "wait_field_ok {NE, NF} msgwaitq k'"
    by (rule wait_field_keep [OF mq_okD(2) [OF assms(1)] assms(2) mq_okD(5) [OF assms(1)]]) (use c T b in auto)
  then have "mq_waits_ok k'"
    using mq_waitsD [OF mq_okD(3) [OF assms(1)]] W T by (auto simp: mq_waits_ok_def F(1))
  moreover have "sem_ok k'" by (rule sem_ok_keep [OF mq_okD(1) [OF assms(1)] assms(2)]) (use c T F in auto)
  ultimately show "mq_ok k'" using X(1) mq_okD(4) [OF assms(1)] by (simp add: mq_ok_def)
  show "contents k' = contents k" "all_msgs k' = all_msgs k" "mqueue k' = mqueue k" "descr k' = descr k"
    "g_msgqueues k' = g_msgqueues k" "s \<in> {NE, NF} \<Longrightarrow> msg_waits s k' = msg_waits s k" "current_regs k' = current_regs k"
    "message k' = message k" "g_msgfree k' = g_msgfree k" "g_msgfreeirq k' = g_msgfreeirq k"
    using X F W c by auto
qed

subsection \<open>Messages in and out of a queue\<close>

lemma mq_ok_frame:
  assumes "mq_ok k" "mq_msgs_ok k'" "tcb k' = tcb k" "tasklist k' = tasklist k" "cpu k' = cpu k" "semcount k' = semcount k"
    "\<And>s q. wait_count s (mqueue k' q) = wait_count s (mqueue k q)"
  shows "mq_ok k'"
proof -
  note C = kernel_cong [OF assms(3-5)]
  have "sem_ok k'" by (rule sem_ok_keep [OF mq_okD(1) [OF assms(1)]]) (use mq_okD(2) [OF assms(1)] C assms in simp_all)
  moreover have "mq_waits_ok k'" using mq_okD(3) [OF assms(1)] by (simp add: mq_waits_ok_def C assms(4,7))
  ultimately show ?thesis using assms(2) by (simp add: mq_ok_def)
qed

lemma mset_concat_upd:
  assumes "distinct xs" "q \<in> set xs" "mset (g q) = add_mset m (mset (f q))" "\<And>x. x \<noteq> q \<Longrightarrow> g x = f x"
  shows "mset (concat (map g xs)) = add_mset m (mset (concat (map f xs)))"
  using assms(1,2)
proof (induction xs)
  case (Cons x xs)
  show ?case
  proof (cases "x = q")
    case True
    have "g y = f y" if "y \<in> set xs" for y using that True Cons.prems(1) by (intro assms(4)) auto
    then have "concat (map g xs) = concat (map f xs)" by (metis map_cong)
    then show ?thesis using True assms(3) by simp
  next
    case False
    then show ?thesis using Cons assms(4) [of x] by simp
  qed
qed simp

lemma distinct_add_mset: "mset ys = add_mset m (mset xs) \<Longrightarrow> distinct ys \<longleftrightarrow> m \<notin> set xs \<and> distinct xs"
  using mset_eq_imp_distinct_iff [of ys "m # xs"] by simp

lemma set_add_mset: "mset ys = add_mset m (mset xs) \<Longrightarrow> set ys = insert m (set xs)"
  using mset_eq_setD [of ys "m # xs"] by simp

lemma mq_insert_eq: "mq_insert pr (pr m) m ns = prio_insert pr m ns"
  by (induction ns) (auto simp: prio_insert_def)

lemma map_prio_insert: "map f (prio_insert (\<lambda>x. g (f x)) x xs) = prio_insert g (f x) (map f xs)"
  by (simp add: prio_insert_def takeWhile_map dropWhile_map comp_def)

lemma mset_prio_insert: "mset (prio_insert pr x xs) = add_mset x (mset xs)"
  by (rule prio_insert_split [of xs pr x]) auto

lemma prio_insert_cong: "(\<And>y. y \<in> insert x (set xs) \<Longrightarrow> pr' y = pr y) \<Longrightarrow> prio_insert pr' x xs = prio_insert pr x xs"
  by (auto simp: prio_insert_def intro!: arg_cong2 [of _ _ _ _ append] takeWhile_cong dropWhile_cong)

lemma msgs_okD:
  assumes "mq_msgs_ok k"
  shows "distinct (all_msgs k)" "NULL \<notin> set (all_msgs k)" "distinct (g_msgqueues k)" "NULL \<notin> set (g_msgqueues k)"
    "m \<in> set (g_msgfree k) \<Longrightarrow> msg_type (message k m) = MQ_ALLOC_FIXED" "m \<in> set (g_msgfreeirq k) \<Longrightarrow> msg_type (message k m) = MQ_ALLOC_IRQ"
    "q \<in> set (g_msgqueues k) \<Longrightarrow> nmsgs (mqueue k q) = int (length (msglist (mqueue k q)))"
    "q \<in> set (g_msgqueues k) \<Longrightarrow> nmsgs (mqueue k q) < 32768"
    "q \<in> set (g_msgqueues k) \<Longrightarrow> prio_sorted (\<lambda>m. priority (message k m)) (msglist (mqueue k q))"
    "q \<in> set (g_msgqueues k) \<Longrightarrow> m \<in> set (msglist (mqueue k q)) \<Longrightarrow> length (mail (message k m)) \<le> maxmsgsize (mqueue k q)"
  using assms by (auto simp: mq_msgs_ok_def)

lemma queue_msgs: "q \<in> set (g_msgqueues k) \<Longrightarrow> m \<in> set (msglist (mqueue k q)) \<Longrightarrow> m \<in> set (all_msgs k)"
  by (auto simp: all_msgs_def)

text \<open>Allocation: a message that is nowhere else.\<close>

definition msg_available :: "addr \<Rightarrow> 'z mq_kernel_scheme \<Rightarrow> bool" where
  "msg_available mem k \<longleftrightarrow> (mem \<noteq> NULL \<longrightarrow> mem \<notin> set (all_msgs k)) \<and>
     (g_msgfree k \<noteq> [] \<or> (if current_regs k then g_msgfreeirq k \<noteq> [] else mem \<noteq> NULL))"

lemma mq_msgalloc_ok:
  assumes ok: "mq_ok k" and av: "msg_available mem k"
  obtains m k1 where "mq_msgalloc mem k = Some (m, k1)" "m \<noteq> NULL" "mq_ok k1" "m \<notin> set (all_msgs k1)"
    "\<And>q. q \<in> set (g_msgqueues k) \<Longrightarrow> contents k1 q = contents k q" "tcb k1 = tcb k" "tasklist k1 = tasklist k"
    "cpu k1 = cpu k" "current_regs k1 = current_regs k" "mqueue k1 = mqueue k" "descr k1 = descr k" "g_msgqueues k1 = g_msgqueues k"
proof -
  note D = msgs_okD [OF mq_okD(4) [OF ok]]
  consider (fixed) m ms where "g_msgfree k = m # ms" | (irq) m ms where "g_msgfree k = []" "current_regs k" "g_msgfreeirq k = m # ms"
    | (dyn) "g_msgfree k = []" "\<not> current_regs k" "mem \<noteq> NULL"
    using av by (cases "g_msgfree k"; cases "g_msgfreeirq k") (auto simp: msg_available_def split: if_splits)
  then show thesis
  proof cases
    case (fixed m ms)
    let ?k = "k\<lparr>g_msgfree := ms\<rparr>"
    have a: "all_msgs k = m # all_msgs ?k" using fixed by (simp add: all_msgs_def)
    have "mq_msgs_ok ?k" using D fixed a unfolding mq_msgs_ok_def by simp
    then have "mq_ok ?k" by (rule mq_ok_frame [OF ok]) simp_all
    then show thesis using that [of m ?k] fixed a D(1,2) by (simp add: mq_msgalloc_def contents_def)
  next
    case (irq m ms)
    let ?k = "k\<lparr>g_msgfreeirq := ms\<rparr>"
    have a: "all_msgs k = m # all_msgs ?k" using irq by (simp add: all_msgs_def)
    have "mq_msgs_ok ?k" using D irq a unfolding mq_msgs_ok_def by simp
    then have "mq_ok ?k" by (rule mq_ok_frame [OF ok]) simp_all
    then show thesis using that [of m ?k] irq a D(1,2) by (simp add: mq_msgalloc_def contents_def)
  next
    case dyn
    let ?k = "upd_msg mem (msg_type_update (\<lambda>_. MQ_ALLOC_DYN)) k"
    have n: "mem \<notin> set (all_msgs k)" using av dyn by (simp add: msg_available_def)
    have a: "all_msgs ?k = all_msgs k" by (simp add: all_msgs_def)
    have m: "message ?k x = message k x" if "x \<in> set (all_msgs k)" for x using that n by auto
    have f: "priority (message ?k x) = priority (message k x)" "mail (message ?k x) = mail (message k x)" for x by simp_all
    have "mq_msgs_ok ?k" using D m a unfolding mq_msgs_ok_def f by (auto simp: all_msgs_def)
    then have "mq_ok ?k" by (rule mq_ok_frame [OF ok]) simp_all
    moreover have "contents ?k = contents k" by (simp add: contents_def f fun_eq_iff)
    ultimately show thesis using that [of mem ?k] dyn n a by (simp add: mq_msgalloc_def)
  qed
qed

text \<open>The first half of \<open>mq_dosend\<close>: the message is filled and inserted.\<close>

definition mq_put :: "addr \<Rightarrow> addr \<Rightarrow> byte list \<Rightarrow> nat \<Rightarrow> 'z mq_kernel_scheme \<Rightarrow> 'z mq_kernel_scheme" where
  "mq_put q m msg p k =
     (let k = upd_msg m (\<lambda>c. c\<lparr>priority := p, mail := msg\<rparr>) k
      in upd_mq q (\<lambda>c. c\<lparr>msglist := mq_insert (\<lambda>n. priority (message k n)) p m (msglist c), nmsgs := s16 (nmsgs c + 1)\<rparr>) k)"

lemma mq_put_ok:
  assumes ok: "mq_ok k" and m: "m \<noteq> NULL" "m \<notin> set (all_msgs k)" and q: "q \<in> set (g_msgqueues k)"
    and l: "length msg \<le> maxmsgsize (mqueue k q)" "nmsgs (mqueue k q) < 32767"
  shows "mq_ok (mq_put q m msg p k)"
    and "contents (mq_put q m msg p k) q = prio_insert fst (p, msg) (contents k q)"
    and "\<And>u. u \<in> set (g_msgqueues k) \<Longrightarrow> u \<noteq> q \<Longrightarrow> contents (mq_put q m msg p k) u = contents k u"
proof -
  let ?k = "mq_put q m msg p k"
  note D = msgs_okD [OF mq_okD(4) [OF ok]]
  define pr where "pr = (\<lambda>n. priority (message ?k n))"
  have msg: "message ?k = (message k)(m := (message k m)\<lparr>priority := p, mail := msg\<rparr>)" by (simp add: mq_put_def Let_def)
  have prm: "pr m = p" "\<And>n. n \<noteq> m \<Longrightarrow> pr n = priority (message k n)" by (simp_all add: pr_def msg)
  have mq: "mqueue ?k = (mqueue k)(q := (mqueue k q)\<lparr>msglist := prio_insert pr m (msglist (mqueue k q)), nmsgs := nmsgs (mqueue k q) + 1\<rparr>)"
  proof -
    have "(\<lambda>n. priority (message (upd_msg m (\<lambda>c. c\<lparr>priority := p, mail := msg\<rparr>) k) n)) = pr" by (simp add: pr_def mq_put_def Let_def)
    moreover have "s16 (nmsgs (mqueue k q) + 1) = nmsgs (mqueue k q) + 1" using D(7) [OF q] l(2) by simp
    ultimately show ?thesis using mq_insert_eq [of pr m] prm(1) by (simp add: mq_put_def Let_def fun_eq_iff)
  qed
  have rest: "g_msgqueues ?k = g_msgqueues k" "g_msgfree ?k = g_msgfree k" "g_msgfreeirq ?k = g_msgfreeirq k" by (simp_all add: mq_put_def Let_def)
  have nm: "m \<notin> set (msglist (mqueue k u))" if "u \<in> set (g_msgqueues k)" for u using queue_msgs [OF that] m(2) by blast
  have A: "mset (all_msgs ?k) = add_mset m (mset (all_msgs k))"
    using mset_concat_upd [OF D(3) q, of "\<lambda>u. msglist (mqueue ?k u)" m "\<lambda>u. msglist (mqueue k u)"]
    unfolding all_msgs_def rest by (simp add: mq mset_prio_insert)
  have srt: "prio_sorted pr xs = prio_sorted (\<lambda>n. priority (message k n)) xs" if "m \<notin> set xs" for xs
    using that by (intro prio_sorted_cong prm(2)) blast
  have C: "contents ?k u = contents k u" if "u \<in> set (g_msgqueues k)" "u \<noteq> q" for u
    using nm [OF that(1)] that(2) unfolding contents_def mq by (simp add: msg)
  have Cq: "contents ?k q = prio_insert fst (p, msg) (contents k q)"
  proof -
    let ?f = "\<lambda>n. (priority (message ?k n), mail (message ?k n))"
    have "contents ?k q = map ?f (prio_insert (\<lambda>n. fst (?f n)) m (msglist (mqueue k q)))" by (simp add: contents_def mq pr_def)
    also have "\<dots> = prio_insert fst (?f m) (map ?f (msglist (mqueue k q)))" by (rule map_prio_insert)
    also have "map ?f (msglist (mqueue k q)) = contents k q" unfolding contents_def using nm [OF q] by (auto simp: msg)
    also have "?f m = (p, msg)" by (simp add: msg)
    finally show ?thesis .
  qed
  have M: "mq_msgs_ok ?k"
    unfolding mq_msgs_ok_def rest
  proof (intro conjI ballI)
    show "distinct (all_msgs ?k)" using A D(1) m(2) by (simp add: distinct_add_mset)
    show "NULL \<notin> set (all_msgs ?k)" using set_add_mset [OF A] D(2) m(1) by simp
    fix x assume "x \<in> set (g_msgfree k)"
    then show "msg_type (message ?k x) = MQ_ALLOC_FIXED" using D(5) by (auto simp: msg)
  next
    fix x assume "x \<in> set (g_msgfreeirq k)"
    then show "msg_type (message ?k x) = MQ_ALLOC_IRQ" using D(6) by (auto simp: msg)
  next
    fix u assume u: "u \<in> set (g_msgqueues k)"
    show "nmsgs (mqueue ?k u) = int (length (msglist (mqueue ?k u)))" "nmsgs (mqueue ?k u) < 32768"
      using D(7,8) [OF u] l(2) by (auto simp: mq)
    have "prio_sorted pr (msglist (mqueue k u))" using srt [OF nm [OF u]] D(9) [OF u] by simp
    then show "prio_sorted (\<lambda>m. priority (message ?k m)) (msglist (mqueue ?k u))"
      unfolding pr_def [symmetric] by (auto simp: mq prio_sorted_insert)
    fix x assume "x \<in> set (msglist (mqueue ?k u))"
    then show "length (mail (message ?k x)) \<le> maxmsgsize (mqueue ?k u)"
      using D(10) [OF u, of x] nm [OF u] l(1) by (auto simp: mq msg split: if_splits)
  qed (use D in auto)
  have wc: "wait_count s (mqueue ?k u) = wait_count s (mqueue k u)" for s u by (cases s) (simp_all add: mq)
  show "mq_ok ?k" by (rule mq_ok_frame [OF ok M _ _ _ _ wc]) (simp_all add: mq_put_def Let_def)
  show "contents ?k q = prio_insert fst (p, msg) (contents k q)" by (rule Cq)
  show "\<And>u. u \<in> set (g_msgqueues k) \<Longrightarrow> u \<noteq> q \<Longrightarrow> contents ?k u = contents k u" by (rule C)
qed

text \<open>The head of a queue is taken off and freed.\<close>

definition mq_take :: "addr \<Rightarrow> 'z mq_kernel_scheme \<Rightarrow> 'z mq_kernel_scheme" where
  "mq_take q k = upd_mq q (\<lambda>c. c\<lparr>msglist := tl (msglist c), nmsgs := s16 (nmsgs c - 1)\<rparr>) k"

lemma mq_take_ok:
  assumes ok: "mq_ok k" and q: "q \<in> set (g_msgqueues k)" and ms: "msglist (mqueue k q) = m # ms"
  shows "mq_ok (mq_take q k)" "contents (mq_take q k) = (contents k)(q := tl (contents k q))"
    "m \<notin> set (all_msgs (mq_take q k))" "m \<noteq> NULL" "message (mq_take q k) = message k"
    "hd (contents k q) = (priority (message k m), mail (message k m))" "contents k q \<noteq> []"
proof -
  let ?k = "mq_take q k"
  note D = msgs_okD [OF mq_okD(4) [OF ok]]
  have mq: "mqueue ?k = (mqueue k)(q := (mqueue k q)\<lparr>msglist := ms, nmsgs := nmsgs (mqueue k q) - 1\<rparr>)"
    using D(7,8) [OF q] ms by (simp add: mq_take_def fun_eq_iff)
  have rest: "g_msgqueues ?k = g_msgqueues k" "g_msgfree ?k = g_msgfree k" "g_msgfreeirq ?k = g_msgfreeirq k" "message ?k = message k"
    by (simp_all add: mq_take_def)
  then show "message ?k = message k" by simp
  have A: "mset (all_msgs k) = add_mset m (mset (all_msgs ?k))"
    using mset_concat_upd [OF D(3) q, of "\<lambda>u. msglist (mqueue k u)" m "\<lambda>u. msglist (mqueue ?k u)"]
    unfolding all_msgs_def rest by (simp add: mq ms)
  show mn: "m \<notin> set (all_msgs ?k)" "m \<noteq> NULL" using distinct_add_mset [OF A] set_add_mset [OF A] D(1,2) by auto
  have M: "mq_msgs_ok ?k"
    unfolding mq_msgs_ok_def rest
  proof (intro conjI ballI)
    show "distinct (all_msgs ?k)" using distinct_add_mset [OF A] D(1) by simp
    show "NULL \<notin> set (all_msgs ?k)" using set_add_mset [OF A] D(2) by simp
    fix u assume u: "u \<in> set (g_msgqueues k)"
    show "nmsgs (mqueue ?k u) = int (length (msglist (mqueue ?k u)))" "nmsgs (mqueue ?k u) < 32768"
      using D(7,8) [OF u] ms by (auto simp: mq)
    show "prio_sorted (\<lambda>m. priority (message k m)) (msglist (mqueue ?k u))" using D(9) [OF u] ms by (auto simp: mq)
    fix x assume "x \<in> set (msglist (mqueue ?k u))"
    then show "length (mail (message k x)) \<le> maxmsgsize (mqueue ?k u)"
      using D(10) [OF u, of x] ms by (auto simp: mq split: if_splits)
  qed (use D in auto)
  have wc: "wait_count s (mqueue ?k u) = wait_count s (mqueue k u)" for s u by (cases s) (simp_all add: mq)
  show "mq_ok ?k" by (rule mq_ok_frame [OF ok M _ _ _ _ wc]) (simp_all add: mq_take_def)
  show "contents ?k = (contents k)(q := tl (contents k q))" by (simp add: contents_def mq rest ms fun_eq_iff)
  show "hd (contents k q) = (priority (message k m), mail (message k m))" "contents k q \<noteq> []" by (simp_all add: contents_def ms)
qed

lemma mq_msgfree_ok:
  assumes ok: "mq_ok k" and m: "m \<noteq> NULL" "m \<notin> set (all_msgs k)"
  shows "mq_ok (mq_msgfree m k)" "contents (mq_msgfree m k) = contents k" "mqueue (mq_msgfree m k) = mqueue k"
    "message (mq_msgfree m k) = message k" "tcb (mq_msgfree m k) = tcb k" "tasklist (mq_msgfree m k) = tasklist k"
    "current_regs (mq_msgfree m k) = current_regs k" "descr (mq_msgfree m k) = descr k" "g_msgqueues (mq_msgfree m k) = g_msgqueues k"
    "set (all_msgs (mq_msgfree m k)) \<subseteq> insert m (set (all_msgs k))"
proof -
  let ?k = "mq_msgfree m k"
  note D = msgs_okD [OF mq_okD(4) [OF ok]]
  have F: "mqueue ?k = mqueue k" "message ?k = message k" "tcb ?k = tcb k" "tasklist ?k = tasklist k" "cpu ?k = cpu k" "semcount ?k = semcount k"
    "current_regs ?k = current_regs k" "descr ?k = descr k" "g_msgqueues ?k = g_msgqueues k"
    by (simp_all add: mq_msgfree_def split: mqalloc.splits)
  have A: "distinct (all_msgs ?k)" "set (all_msgs ?k) \<subseteq> insert m (set (all_msgs k))"
    using D(1) m(2) by (auto simp: all_msgs_def mq_msgfree_def split: mqalloc.splits)
  have T: "x \<in> set (g_msgfree ?k) \<Longrightarrow> msg_type (message k x) = MQ_ALLOC_FIXED" "x \<in> set (g_msgfreeirq ?k) \<Longrightarrow> msg_type (message k x) = MQ_ALLOC_IRQ" for x
    using D(5,6) [of x] by (auto simp: mq_msgfree_def split: mqalloc.splits)
  have "mq_msgs_ok ?k"
    unfolding mq_msgs_ok_def F using A T D m(1) by auto
  then show "mq_ok ?k" by (rule mq_ok_frame [OF ok]) (simp_all add: F)
  show "contents ?k = contents k" "mqueue ?k = mqueue k" "message ?k = message k" "tcb ?k = tcb k" "tasklist ?k = tasklist k"
    "current_regs ?k = current_regs k" "descr ?k = descr k" "g_msgqueues ?k = g_msgqueues k" "set (all_msgs ?k) \<subseteq> insert m (set (all_msgs k))"
    using A(2) by (simp_all add: contents_def F fun_eq_iff)
qed

subsection \<open>The end of a send or receive: the first waiting task is woken\<close>

definition mq_wake_first :: "tstate \<Rightarrow> addr \<Rightarrow> 'z mq_kernel_scheme \<Rightarrow> 'z mq_kernel_scheme option" where
  "mq_wake_first s q k =
     (if wait_count s (mqueue k q) > 0
      then let btcb = find_waiter (\<lambda>t. msgwaitq (tcb k t)) q (tasklist k s)
           in if btcb = NULL then None
              else let k = upd_tcb btcb (msgwaitq_update (\<lambda>_. NULL)) k;
                       k = upd_mq q (upd_wait_count s (\<lambda>n. s16 (n - 1))) k
                   in up_unblock_task btcb k
      else Some k)"

lemma upd_mq_upd_tcb: "upd_mq q g (upd_tcb t f k) = upd_tcb t f (upd_mq q g k)"
  by (simp add: upd_mq_def upd_tcb_def)

lemma mq_wake_first_ok:
  assumes ok: "mq_ok k" and s: "s \<in> {NE, NF}" and q: "q \<noteq> NULL"
  obtains k' where "mq_wake_first s q k = Some k'" "mq_ok k'" "contents k' = contents k" "all_msgs k' = all_msgs k"
    "\<And>u. u \<noteq> NULL \<Longrightarrow> msg_waits s k' u = (if u = q then tl (msg_waits s k q) else msg_waits s k u)"
    "\<And>u. u \<in> {NE, NF} \<Longrightarrow> u \<noteq> s \<Longrightarrow> msg_waits u k' = msg_waits u k"
    "\<And>t ts. msg_waits s k q = t # ts \<Longrightarrow> is_ready_state (state_of k' t) \<or> state_of k' t = TSTATE_TASK_PENDING"
    "current_regs k' = current_regs k" "descr k' = descr k" "g_msgqueues k' = g_msgqueues k"
    "\<And>u. maxmsgs (mqueue k' u) = maxmsgs (mqueue k u)"
proof (cases "msg_waits s k q")
  case Nil
  then have "mq_wake_first s q k = Some k" using mq_waitsD(2) [OF mq_okD(3) [OF ok] s q] by (simp add: mq_wake_first_def)
  then show thesis using that [of k] ok Nil by simp
next
  case (Cons t' ts')
  note S = mq_okD(2) [OF ok]
  have tm: "t' \<in> set (msg_waits s k q)" using Cons by simp
  have nn: "NULL \<notin> set (tasklist k s)" using nonnull_tasks [OF sched_okD(1) [OF S]] by blast
  then have fw: "find_waiter (\<lambda>t. msgwaitq (tcb k t)) q (tasklist k s) = t'"
    using Cons by (simp add: find_waiter_eq waiting_on_def)
  have tn: "t' \<noteq> NULL" using tm nn by (intro notI) (simp add: waiting_on_def)
  let ?k1 = "upd_tcb t' (msgwaitq_update (\<lambda>_. NULL)) (upd_mq q (upd_wait_count s (\<lambda>n. s16 (n - 1))) k)"
  obtain k' where k': "up_unblock_task t' ?k1 = Some k'" "mq_ok k'" "rest k' = rest ?k1"
    "\<And>p. p \<noteq> NULL \<Longrightarrow> msg_waits s k' p = (if p = q then remove1 t' (msg_waits s k q) else msg_waits s k p)"
    "\<And>u. u \<in> {NE, NF} \<Longrightarrow> u \<noteq> s \<Longrightarrow> msg_waits u k' = msg_waits u k"
    "contents k' = contents k" "current_regs k' = current_regs k" "descr k' = descr k"
    "tasklist k' = (tasklist k)(s := remove1 t' (tasklist k s), ready_list k t' := prio_insert (prio k) t' (tasklist k (ready_list k t')))"
    "\<And>p. maxmsgs (mqueue k' p) = maxmsgs (mqueue k p)" "all_msgs k' = all_msgs k" "g_msgqueues k' = g_msgqueues k"
    by (rule mq_wake_ok [OF ok s q tm, of "msgwaitq_update (\<lambda>_. NULL)"]) auto
  have "wait_count s (mqueue k q) > 0" using mq_waitsD(2) [OF mq_okD(3) [OF ok] s q] Cons by simp
  then have run: "mq_wake_first s q k = Some k'"
    using fw tn k'(1) by (simp add: mq_wake_first_def upd_mq_upd_tcb)
  have "t' \<in> set (tasklist k' (ready_list k t'))" by (simp add: k'(9))
  then have "t' \<in> set (g_readytorun k') \<union> set (g_pendingtasks k')" by (auto simp: ready_list_def split: if_splits)
  then have "is_ready_state (state_of k' t') \<or> state_of k' t' = TSTATE_TASK_PENDING"
    using runnable_iff [OF sched_okD(1) [OF mq_okD(2) [OF k'(2)]], of t'] by simp
  then show thesis using that [of k'] run k' Cons by simp
qed

text \<open>\<open>mq_dosend\<close> with the lock around it.\<close>

lemma mq_dosend_eq:
  "mq_dosend mqdes m msg p k = do {
     k \<leftarrow> sched_lock k;
     k \<leftarrow> mq_wake_first NE (queue_of k mqdes) (mq_put (queue_of k mqdes) m msg p k);
     k \<leftarrow> sched_unlock k;
     Some (OK, k)
   }"
  unfolding mq_dosend_def mq_wake_first_def mq_put_def Let_def wait_count.simps upd_wait_count.simps by (rule refl)

lemma mq_put_fields [simp]:
  "g_msgqueues (mq_put q m msg p k) = g_msgqueues k" "tcb (mq_put q m msg p k) = tcb k" "tasklist (mq_put q m msg p k) = tasklist k"
  "cpu (mq_put q m msg p k) = cpu k" "current_regs (mq_put q m msg p k) = current_regs k" "descr (mq_put q m msg p k) = descr k"
  "maxmsgs (mqueue (mq_put q m msg p k) u) = maxmsgs (mqueue k u)"
  by (simp_all add: mq_put_def Let_def)

lemma mq_dosend_ok:
  assumes ok: "mq_ok k" and m: "m \<noteq> NULL" "m \<notin> set (all_msgs k)" and q: "q = queue_of k mqdes" "q \<in> set (g_msgqueues k)"
    and l: "length msg \<le> maxmsgsize (mqueue k q)" "nmsgs (mqueue k q) < 32767"
    and lk: "current_regs k \<or> lockcount (tcb k (hd (g_readytorun k))) < MAX_LOCK_COUNT"
  obtains k' where "mq_dosend mqdes m msg p k = Some (OK, k')" "mq_ok k'" "contents k' q = prio_insert fst (p, msg) (contents k q)"
    "\<And>u. u \<in> set (g_msgqueues k) \<Longrightarrow> u \<noteq> q \<Longrightarrow> contents k' u = contents k u"
    "\<And>u. u \<noteq> NULL \<Longrightarrow> msg_waits NE k' u = (if u = q then tl (msg_waits NE k q) else msg_waits NE k u)"
    "msg_waits NF k' = msg_waits NF k"
    "\<And>t ts. msg_waits NE k q = t # ts \<Longrightarrow> is_ready_state (state_of k' t) \<or> state_of k' t = TSTATE_TASK_PENDING"
    "current_regs k' = current_regs k" "descr k' = descr k" "g_msgqueues k' = g_msgqueues k" "\<And>u. maxmsgs (mqueue k' u) = maxmsgs (mqueue k u)"
proof -
  have q0: "q \<noteq> NULL" using q(2) msgs_okD(4) [OF mq_okD(4) [OF ok]] by (intro notI) simp
  obtain k1 where k1: "sched_lock k = Some k1" "sched_ok k1" "calm k k1"
    by (rule sched_lock_calm [OF mq_okD(2) [OF ok] lk]) blast
  note C1 = mq_ok_calm [OF ok k1(2,3)]
  have m1: "m \<notin> set (all_msgs k1)" "q \<in> set (g_msgqueues k1)" "length msg \<le> maxmsgsize (mqueue k1 q)" "nmsgs (mqueue k1 q) < 32767"
    using m q l C1 by simp_all
  let ?k2 = "mq_put q m msg p k1"
  note P = mq_put_ok [OF C1(1) m(1) m1]
  have W2: "msg_waits s ?k2 = msg_waits s k1" for s by (rule kernel_cong) simp_all
  obtain k3 where k3: "mq_wake_first NE q ?k2 = Some k3" "mq_ok k3" "contents k3 = contents ?k2"
    "\<And>u. u \<noteq> NULL \<Longrightarrow> msg_waits NE k3 u = (if u = q then tl (msg_waits NE k1 q) else msg_waits NE k1 u)" "msg_waits NF k3 = msg_waits NF k1"
    "\<And>t ts. msg_waits NE k1 q = t # ts \<Longrightarrow> is_ready_state (state_of k3 t) \<or> state_of k3 t = TSTATE_TASK_PENDING"
    "current_regs k3 = current_regs k1" "descr k3 = descr k1" "g_msgqueues k3 = g_msgqueues k1" "\<And>u. maxmsgs (mqueue k3 u) = maxmsgs (mqueue k1 u)"
    by (rule mq_wake_first_ok [OF P(1) _ q0, of NE]) (simp, rule that, (assumption | simp add: W2)+)
  obtain k' where k': "sched_unlock k3 = Some k'" "sched_ok k'" "calm k3 k'"
    "\<And>t. is_ready_state (state_of k3 t) \<or> state_of k3 t = TSTATE_TASK_PENDING \<Longrightarrow> is_ready_state (state_of k' t) \<or> state_of k' t = TSTATE_TASK_PENDING"
    by (rule sched_unlock_calm [OF mq_okD(2) [OF k3(2)]]) blast
  note C2 = mq_ok_calm [OF k3(2) k'(2,3)]
  have "mq_dosend mqdes m msg p k = Some (OK, k')"
    using k1(1) k3(1) k'(1) q(1) C1(5) by (simp add: mq_dosend_eq)
  then show thesis
    using that [of k'] C1 C2 k3 k'(4) P(2,3) by simp
qed

lemma mq_doreceive_eq:
  "mq_doreceive mqdes m k =
     map_option (\<lambda>k'. (mail (message k m), priority (message k m), k')) (mq_wake_first NF (queue_of (mq_msgfree m k) mqdes) (mq_msgfree m k))"
  unfolding mq_doreceive_def mq_wake_first_def Let_def wait_count.simps upd_wait_count.simps
  by (cases "nwaitnotfull (mqueue (mq_msgfree m k) (queue_of (mq_msgfree m k) mqdes)) > 0") (simp_all add: map_conv_bind_option comp_def)

lemma mq_doreceive_ok:
  assumes ok: "mq_ok k" and m: "m \<noteq> NULL" "m \<notin> set (all_msgs k)" and q: "q = queue_of k mqdes" "q \<noteq> NULL"
  obtains k' where "mq_doreceive mqdes m k = Some (mail (message k m), priority (message k m), k')" "mq_ok k'" "contents k' = contents k"
    "\<And>u. u \<noteq> NULL \<Longrightarrow> msg_waits NF k' u = (if u = q then tl (msg_waits NF k q) else msg_waits NF k u)"
    "msg_waits NE k' = msg_waits NE k"
    "\<And>t ts. msg_waits NF k q = t # ts \<Longrightarrow> is_ready_state (state_of k' t) \<or> state_of k' t = TSTATE_TASK_PENDING"
    "current_regs k' = current_regs k" "descr k' = descr k" "g_msgqueues k' = g_msgqueues k" "\<And>u. maxmsgs (mqueue k' u) = maxmsgs (mqueue k u)"
    "set (all_msgs k') \<subseteq> insert m (set (all_msgs k))"
proof -
  let ?k = "mq_msgfree m k"
  note F = mq_msgfree_ok [OF ok m]
  have W: "msg_waits s ?k = msg_waits s k" for s by (simp add: waiting_on_def fun_eq_iff F)
  obtain k' where k': "mq_wake_first NF q ?k = Some k'" "mq_ok k'" "contents k' = contents ?k" "all_msgs k' = all_msgs ?k"
    "\<And>u. u \<noteq> NULL \<Longrightarrow> msg_waits NF k' u = (if u = q then tl (msg_waits NF k q) else msg_waits NF k u)" "msg_waits NE k' = msg_waits NE k"
    "\<And>t ts. msg_waits NF k q = t # ts \<Longrightarrow> is_ready_state (state_of k' t) \<or> state_of k' t = TSTATE_TASK_PENDING"
    "current_regs k' = current_regs ?k" "descr k' = descr ?k" "g_msgqueues k' = g_msgqueues ?k" "\<And>u. maxmsgs (mqueue k' u) = maxmsgs (mqueue ?k u)"
    by (rule mq_wake_first_ok [OF F(1) _ q(2), of NF]) (simp, rule that, (assumption | simp add: W)+)
  have "mq_doreceive mqdes m k = Some (mail (message k m), priority (message k m), k')"
    using k'(1) q(1) F(8) by (simp add: mq_doreceive_eq)
  then show thesis using that [of k'] k' F by simp
qed

subsection \<open>Sending\<close>

text \<open>Delivery, once there is room in the queue.\<close>

lemma mq_send_finish_ok:
  assumes ok: "mq_ok k" and av: "msg_available mem k" and q: "q = queue_of k mqdes" "q \<in> set (g_msgqueues k)"
    and l: "length msg \<le> maxmsgsize (mqueue k q)" "nmsgs (mqueue k q) < 32767" and lk: "lock_free 1 k"
  obtains k' where "mq_send_finish mqdes msg p mem (Returned OK k) = Some (Returned OK k')" "mq_ok k'"
    "contents k' q = prio_insert fst (p, msg) (contents k q)" "\<And>u. u \<in> set (g_msgqueues k) \<Longrightarrow> u \<noteq> q \<Longrightarrow> contents k' u = contents k u"
    "\<And>u. u \<noteq> NULL \<Longrightarrow> msg_waits NE k' u = (if u = q then tl (msg_waits NE k q) else msg_waits NE k u)" "msg_waits NF k' = msg_waits NF k"
    "\<And>t ts. msg_waits NE k q = t # ts \<Longrightarrow> is_ready_state (state_of k' t) \<or> state_of k' t = TSTATE_TASK_PENDING"
    "current_regs k' = current_regs k" "descr k' = descr k" "g_msgqueues k' = g_msgqueues k" "\<And>u. maxmsgs (mqueue k' u) = maxmsgs (mqueue k u)"
proof -
  obtain m k1 where m: "mq_msgalloc mem k = Some (m, k1)" "m \<noteq> NULL" "mq_ok k1" "m \<notin> set (all_msgs k1)"
    and k1: "\<And>q. q \<in> set (g_msgqueues k) \<Longrightarrow> contents k1 q = contents k q" "tcb k1 = tcb k" "tasklist k1 = tasklist k"
    "cpu k1 = cpu k" "current_regs k1 = current_regs k" "mqueue k1 = mqueue k" "descr k1 = descr k" "g_msgqueues k1 = g_msgqueues k"
    using mq_msgalloc_ok [OF ok av] by blast
  have W: "msg_waits s k1 = msg_waits s k" for s by (simp add: waiting_on_def fun_eq_iff k1)
  obtain k2 where k2: "mq_dosend mqdes m msg p k1 = Some (OK, k2)" "mq_ok k2" "contents k2 q = prio_insert fst (p, msg) (contents k1 q)"
    "\<And>u. u \<in> set (g_msgqueues k1) \<Longrightarrow> u \<noteq> q \<Longrightarrow> contents k2 u = contents k1 u"
    "\<And>u. u \<noteq> NULL \<Longrightarrow> msg_waits NE k2 u = (if u = q then tl (msg_waits NE k1 q) else msg_waits NE k1 u)" "msg_waits NF k2 = msg_waits NF k1"
    "\<And>t ts. msg_waits NE k1 q = t # ts \<Longrightarrow> is_ready_state (state_of k2 t) \<or> state_of k2 t = TSTATE_TASK_PENDING"
    "current_regs k2 = current_regs k1" "descr k2 = descr k1" "g_msgqueues k2 = g_msgqueues k1" "\<And>u. maxmsgs (mqueue k2 u) = maxmsgs (mqueue k1 u)"
  proof (rule mq_dosend_ok [OF m(3,2,4), of q mqdes msg p])
    show "q = queue_of k1 mqdes" "q \<in> set (g_msgqueues k1)" "length msg \<le> maxmsgsize (mqueue k1 q)" "nmsgs (mqueue k1 q) < 32767"
      "current_regs k1 \<or> lockcount (tcb k1 (hd (g_readytorun k1))) < MAX_LOCK_COUNT"
      using q l lk by (auto simp: k1 lock_free_def)
  qed (rule that)
  obtain k' where k': "sched_unlock k2 = Some k'" "sched_ok k'" "calm k2 k'"
    "\<And>t. is_ready_state (state_of k2 t) \<or> state_of k2 t = TSTATE_TASK_PENDING \<Longrightarrow> is_ready_state (state_of k' t) \<or> state_of k' t = TSTATE_TASK_PENDING"
    by (rule sched_unlock_calm [OF mq_okD(2) [OF k2(2)]]) blast
  note C = mq_ok_calm [OF k2(2) k'(2,3)]
  have "mq_send_finish mqdes msg p mem (Returned OK k) = Some (Returned OK k')"
    using m(1,2) k2(1) k'(1) by (simp add: mq_send_finish_def)
  then show thesis using that [of k'] C k2 k'(4) k1 q(2) by (simp add: W)
qed

lemma calm_lock_avail: "mq_ok k \<Longrightarrow> sched_ok k' \<Longrightarrow> calm k k' \<Longrightarrow> msg_available mem k \<Longrightarrow> msg_available mem k'"
  using mq_ok_calm [of k k'] by (simp add: msg_available_def)

lemma mq_verifysend_ok:
  assumes "mqdes \<noteq> NULL" "0 \<le> p" "p \<le> MQ_PRIO_MAX" "oflags (descr k mqdes) AND O_WROK \<noteq> 0" "length d \<le> maxmsgsize (mqueue k (queue_of k mqdes))"
  shows "mq_verifysend mqdes (Some d) p k = (OK, k)"
  using assms by (simp add: mq_verifysend_def)

text \<open>A writer with a valid descriptor and message.\<close>

definition can_send :: "addr \<Rightarrow> byte list \<Rightarrow> int \<Rightarrow> 'z mq_kernel_scheme \<Rightarrow> bool" where
  "can_send mqdes d p k \<longleftrightarrow> mqdes \<noteq> NULL \<and> 0 \<le> p \<and> p \<le> MQ_PRIO_MAX \<and> oflags (descr k mqdes) AND O_WROK \<noteq> 0 \<and>
     queue_of k mqdes \<in> set (g_msgqueues k) \<and> length d \<le> maxmsgsize (mqueue k (queue_of k mqdes))"

lemma mq_send_deliver:
  assumes ok: "mq_ok k" and s: "can_send mqdes d p k" and q: "q = queue_of k mqdes" and av: "msg_available mem k"
    and l: "current_regs k \<or> nmsgs (mqueue k q) < maxmsgs (mqueue k q)" "nmsgs (mqueue k q) < 32767" and lk: "lock_free 2 k"
  obtains k' where "mq_send mqdes (Some d) p mem k = Some (Returned OK k')" "mq_ok k'"
    "contents k' q = prio_insert fst (nat p, d) (contents k q)" "\<And>u. u \<in> set (g_msgqueues k) \<Longrightarrow> u \<noteq> q \<Longrightarrow> contents k' u = contents k u"
    "\<And>u. u \<noteq> NULL \<Longrightarrow> msg_waits NE k' u = (if u = q then tl (msg_waits NE k q) else msg_waits NE k u)" "msg_waits NF k' = msg_waits NF k"
    "\<And>t ts. msg_waits NE k q = t # ts \<Longrightarrow> is_ready_state (state_of k' t) \<or> state_of k' t = TSTATE_TASK_PENDING"
    "current_regs k' = current_regs k" "descr k' = descr k" "g_msgqueues k' = g_msgqueues k" "\<And>u. maxmsgs (mqueue k' u) = maxmsgs (mqueue k u)"
proof -
  note S = mq_okD(2) [OF ok]
  have lk1: "current_regs k \<or> lockcount (tcb k (hd (g_readytorun k))) < MAX_LOCK_COUNT" using lk by (auto simp: lock_free_def)
  obtain k1 where k1: "sched_lock k = Some k1" "sched_ok k1" "calm k k1" "g_readytorun k1 = g_readytorun k"
    "\<not> current_regs k \<Longrightarrow> lockcount (tcb k1 (hd (g_readytorun k))) = Suc (lockcount (tcb k (hd (g_readytorun k))))"
    by (rule sched_lock_calm [OF S lk1]) blast
  note C = mq_ok_calm [OF ok k1(2,3)]
  have lf: "lock_free 1 k1" using lk k1(4,5) C(8) by (auto simp: lock_free_def)
  have v: "mq_verifysend mqdes (Some d) p k = (OK, k)" by (rule mq_verifysend_ok) (use s in \<open>simp_all add: can_send_def\<close>)
  obtain k' where k': "mq_send_finish mqdes d (nat p) mem (Returned OK k1) = Some (Returned OK k')" "mq_ok k'"
    "contents k' q = prio_insert fst (nat p, d) (contents k1 q)" "\<And>u. u \<in> set (g_msgqueues k1) \<Longrightarrow> u \<noteq> q \<Longrightarrow> contents k' u = contents k1 u"
    "\<And>u. u \<noteq> NULL \<Longrightarrow> msg_waits NE k' u = (if u = q then tl (msg_waits NE k1 q) else msg_waits NE k1 u)" "msg_waits NF k' = msg_waits NF k1"
    "\<And>t ts. msg_waits NE k1 q = t # ts \<Longrightarrow> is_ready_state (state_of k' t) \<or> state_of k' t = TSTATE_TASK_PENDING"
    "current_regs k' = current_regs k1" "descr k' = descr k1" "g_msgqueues k' = g_msgqueues k1" "\<And>u. maxmsgs (mqueue k' u) = maxmsgs (mqueue k1 u)"
    by (rule mq_send_finish_ok [OF C(1) calm_lock_avail [OF ok k1(2,3) av] _ _ _ _ lf, of q mqdes d "nat p"])
       (use q s l in \<open>simp_all add: C can_send_def\<close>)
  have "mq_send mqdes (Some d) p mem k = Some (Returned OK k')"
    using k1(1) k'(1) v l q by (simp add: mq_send_def C)
  then show thesis using that [of k'] k' C by simp
qed

text \<open>With a full queue the caller blocks, or fails if it may not block.\<close>

lemma mq_send_full:
  assumes ok: "mq_ok k" and s: "can_send mqdes d p k" and q: "q = queue_of k mqdes"
    and l: "\<not> current_regs k" "maxmsgs (mqueue k q) \<le> nmsgs (mqueue k q)" and lk: "lock_free 1 k"
  shows "oflags (descr k mqdes) AND O_NONBLOCK \<noteq> 0 \<Longrightarrow>
      \<exists>k'. mq_send mqdes (Some d) p mem k = Some (Returned ERROR k') \<and> mq_ok k' \<and> contents k' = contents k \<and>
        msg_waits NE k' = msg_waits NE k \<and> msg_waits NF k' = msg_waits NF k \<and> descr k' = descr k \<and> g_msgqueues k' = g_msgqueues k"
    and "oflags (descr k mqdes) AND O_NONBLOCK = 0 \<Longrightarrow> length (g_readytorun k) > 1 \<Longrightarrow> length (tasklist k NF) < 32767 \<Longrightarrow>
      \<exists>k'. mq_send mqdes (Some d) p mem k = Some (Blocked k') \<and> mq_ok k' \<and> contents k' = contents k \<and>
        msg_waits NF k' = (msg_waits NF k)(q := prio_insert (prio k) (cpu k) (msg_waits NF k q)) \<and> msg_waits NE k' = msg_waits NE k \<and>
        state_of k' (cpu k) = NF \<and> descr k' = descr k"
proof -
  note S = mq_okD(2) [OF ok]
  have lk1: "current_regs k \<or> lockcount (tcb k (hd (g_readytorun k))) < MAX_LOCK_COUNT" using lk by (auto simp: lock_free_def)
  obtain k1 where k1: "sched_lock k = Some k1" "sched_ok k1" "calm k k1" "g_readytorun k1 = g_readytorun k"
    by (rule sched_lock_calm [OF S lk1]) blast
  note C = mq_ok_calm [OF ok k1(2,3)]
  have c: "prio k1 t = prio k t" "is_blocked_state v \<Longrightarrow> tasklist k1 v = tasklist k v" for t v using k1(3) by (simp_all add: calm_def)
  have v: "mq_verifysend mqdes (Some d) p k = (OK, k)" by (rule mq_verifysend_ok) (use s in \<open>simp_all add: can_send_def\<close>)
  have snd: "mq_send mqdes (Some d) p mem k = (do { r \<leftarrow> mq_waitsend mqdes k1; mq_send_finish mqdes d (nat p) mem r })"
    using k1(1) v l q by (simp add: mq_send_def C)
  {
    assume nb: "oflags (descr k mqdes) AND O_NONBLOCK \<noteq> 0"
    let ?k = "set_errno EAGAIN k1"
    have S2: "sched_ok ?k" using k1(2) by simp
    note C2 = mq_ok_calm [OF C(1) S2 set_errno_calm [OF k1(2)]]
    obtain k' where k': "sched_unlock ?k = Some k'" "sched_ok k'" "calm ?k k'" by (rule sched_unlock_calm [OF S2]) blast
    note C3 = mq_ok_calm [OF C2(1) k'(2,3)]
    have "mq_waitsend mqdes k1 = Some (Returned ERROR ?k)" using nb l q by (simp add: mq_waitsend_def C)
    then have "mq_send mqdes (Some d) p mem k = Some (Returned ERROR k')"
      unfolding snd using k'(1) by (simp add: mq_send_finish_def)
    then show "\<exists>k'. mq_send mqdes (Some d) p mem k = Some (Returned ERROR k') \<and> mq_ok k' \<and> contents k' = contents k \<and>
        msg_waits NE k' = msg_waits NE k \<and> msg_waits NF k' = msg_waits NF k \<and> descr k' = descr k \<and> g_msgqueues k' = g_msgqueues k"
      using C C2 C3 by auto
  next
    assume nb: "oflags (descr k mqdes) AND O_NONBLOCK = 0" "length (g_readytorun k) > 1" "length (tasklist k NF) < 32767"
    have q0: "q \<noteq> NULL" using s q msgs_okD(4) [OF mq_okD(4) [OF ok]] by (intro notI) (simp add: can_send_def)
    have nf: "is_blocked_state NF" by (simp add: is_blocked_state_def)
    obtain k' where k': "up_block_task (hd (g_readytorun k1)) NF (set_errno OK (upd_mq q (upd_wait_count NF (\<lambda>n. s16 (n + 1)))
         (upd_tcb (hd (g_readytorun k1)) (msgwaitq_update (\<lambda>_. q)) k1))) = Some k'" "mq_ok k'" "state_of k' (hd (g_readytorun k1)) = NF"
      "msg_waits NF k' = (msg_waits NF k1)(q := prio_insert (prio k1) (hd (g_readytorun k1)) (msg_waits NF k1 q))"
      "\<And>u. u \<in> {NE, NF} \<Longrightarrow> u \<noteq> NF \<Longrightarrow> msg_waits u k' = msg_waits u k1" "contents k' = contents k1" "descr k' = descr k1"
      by (rule mq_block_ok [OF C(1) _ _ q0, of NF]) (use l nb nf c k1(4) C(8) in auto)
    have "mq_waitsend mqdes k1 = Some (Blocked k')"
      using nb(1) l(2) q k'(1) sched_okD(3) [OF S] by (simp add: mq_waitsend_def mq_waitsend_block_def Let_def C k1(4) upd_wait_count_fun)
    then have r: "mq_send mqdes (Some d) p mem k = Some (Blocked k')" unfolding snd by (simp add: mq_send_finish_def)
    have pk: "prio k1 = prio k" using c(1) by auto
    have "hd (g_readytorun k1) = cpu k" using k1(4) sched_okD(2) [OF S] by simp
    then show "\<exists>k'. mq_send mqdes (Some d) p mem k = Some (Blocked k') \<and> mq_ok k' \<and> contents k' = contents k \<and>
        msg_waits NF k' = (msg_waits NF k)(q := prio_insert (prio k) (cpu k) (msg_waits NF k q)) \<and> msg_waits NE k' = msg_waits NE k \<and>
        state_of k' (cpu k) = NF \<and> descr k' = descr k"
      using r k'(2-7) C pk by auto
  }
qed

subsection \<open>Receiving\<close>

definition can_receive :: "addr \<Rightarrow> nat \<Rightarrow> 'z mq_kernel_scheme \<Rightarrow> bool" where
  "can_receive mqdes len k \<longleftrightarrow> mqdes \<noteq> NULL \<and> oflags (descr k mqdes) AND O_RDOK \<noteq> 0 \<and>
     queue_of k mqdes \<in> set (g_msgqueues k) \<and> maxmsgsize (mqueue k (queue_of k mqdes)) \<le> len"

lemma mq_verifyreceive_ok: "can_receive mqdes len k \<Longrightarrow> mq_verifyreceive mqdes True len k = (OK, k)"
  by (simp add: can_receive_def mq_verifyreceive_def)

text \<open>Taking the head of a queue that is not empty, up to the end of the call.\<close>

lemma mq_receive_rest:
  assumes ok: "mq_ok k" and q: "q = queue_of k mqdes" "q \<in> set (g_msgqueues k)" and c: "contents k q = (p, d) # xs"
  obtains k' where "(do { r \<leftarrow> mq_waitreceive mqdes k; mq_receive_finish mqdes r }) = Some (Received d p k')" "mq_ok k'"
    "contents k' = (contents k)(q := xs)" "length d \<le> maxmsgsize (mqueue k q)"
    "\<And>u. u \<noteq> NULL \<Longrightarrow> msg_waits NF k' u = (if u = q then tl (msg_waits NF k q) else msg_waits NF k u)" "msg_waits NE k' = msg_waits NE k"
    "\<And>t ts. msg_waits NF k q = t # ts \<Longrightarrow> is_ready_state (state_of k' t) \<or> state_of k' t = TSTATE_TASK_PENDING"
    "current_regs k' = current_regs k" "descr k' = descr k" "g_msgqueues k' = g_msgqueues k" "\<And>u. maxmsgs (mqueue k' u) = maxmsgs (mqueue k u)"
proof -
  note D = msgs_okD [OF mq_okD(4) [OF ok]]
  have q0: "q \<noteq> NULL" using q(2) D(4) by (intro notI) simp
  obtain m ms where ms: "msglist (mqueue k q) = m # ms" using c by (cases "msglist (mqueue k q)") (auto simp: contents_def)
  note T = mq_take_ok [OF ok q(2) ms]
  let ?k = "mq_take q k"
  have pd: "priority (message k m) = p" "mail (message k m) = d" using T(6) c by simp_all
  have F: "descr ?k = descr k" "current_regs ?k = current_regs k" "g_msgqueues ?k = g_msgqueues k" "maxmsgs (mqueue ?k u) = maxmsgs (mqueue k u)"
    "tcb ?k = tcb k" "tasklist ?k = tasklist k" for u by (simp_all add: mq_take_def)
  have W: "msg_waits s ?k = msg_waits s k" for s by (simp add: waiting_on_def fun_eq_iff F)
  obtain k2 where k2: "mq_doreceive mqdes m ?k = Some (mail (message ?k m), priority (message ?k m), k2)" "mq_ok k2" "contents k2 = contents ?k"
    "\<And>u. u \<noteq> NULL \<Longrightarrow> msg_waits NF k2 u = (if u = q then tl (msg_waits NF ?k q) else msg_waits NF ?k u)" "msg_waits NE k2 = msg_waits NE ?k"
    "\<And>t ts. msg_waits NF ?k q = t # ts \<Longrightarrow> is_ready_state (state_of k2 t) \<or> state_of k2 t = TSTATE_TASK_PENDING"
    "current_regs k2 = current_regs ?k" "descr k2 = descr ?k" "g_msgqueues k2 = g_msgqueues ?k" "\<And>u. maxmsgs (mqueue k2 u) = maxmsgs (mqueue ?k u)"
  proof (rule mq_doreceive_ok [OF T(1,4,3), of q mqdes])
    show "q = queue_of ?k mqdes" using q(1) F by simp
    show "q \<noteq> NULL" by (rule q0)
  qed (rule that)
  obtain k' where k': "sched_unlock k2 = Some k'" "sched_ok k'" "calm k2 k'"
    "\<And>t. is_ready_state (state_of k2 t) \<or> state_of k2 t = TSTATE_TASK_PENDING \<Longrightarrow> is_ready_state (state_of k' t) \<or> state_of k' t = TSTATE_TASK_PENDING"
    by (rule sched_unlock_calm [OF mq_okD(2) [OF k2(2)]]) blast
  note C = mq_ok_calm [OF k2(2) k'(2,3)]
  have t: "upd_mq q (\<lambda>c. c\<lparr>msglist := ms, nmsgs := s16 (nmsgs c - 1)\<rparr>) k = ?k" using ms by (simp add: mq_take_def upd_mq_def)
  have "(do { r \<leftarrow> mq_waitreceive mqdes k; mq_receive_finish mqdes r }) = Some (Received d p k')"
    using ms q(1) t T(4,5) k2(1) k'(1) pd by (simp add: mq_waitreceive_def mq_receive_finish_def)
  moreover have "length d \<le> maxmsgsize (mqueue k q)" using D(10) [OF q(2), of m] ms pd by simp
  ultimately show thesis using that [of k'] C k2 k'(4) T(2) c F by (simp add: W)
qed

lemma mq_receive_deliver:
  assumes ok: "mq_ok k" and r: "can_receive mqdes len k" and q: "q = queue_of k mqdes" and c: "contents k q = (p, d) # xs" and lk: "lock_free 1 k"
  obtains k' where "mq_receive mqdes True len k = Some (Received d p k')" "mq_ok k'" "contents k' = (contents k)(q := xs)" "length d \<le> len"
    "\<And>u. u \<noteq> NULL \<Longrightarrow> msg_waits NF k' u = (if u = q then tl (msg_waits NF k q) else msg_waits NF k u)" "msg_waits NE k' = msg_waits NE k"
    "\<And>t ts. msg_waits NF k q = t # ts \<Longrightarrow> is_ready_state (state_of k' t) \<or> state_of k' t = TSTATE_TASK_PENDING"
    "current_regs k' = current_regs k" "descr k' = descr k" "g_msgqueues k' = g_msgqueues k" "\<And>u. maxmsgs (mqueue k' u) = maxmsgs (mqueue k u)"
proof -
  have lk1: "current_regs k \<or> lockcount (tcb k (hd (g_readytorun k))) < MAX_LOCK_COUNT" using lk by (auto simp: lock_free_def)
  obtain k1 where k1: "sched_lock k = Some k1" "sched_ok k1" "calm k k1"
    by (rule sched_lock_calm [OF mq_okD(2) [OF ok] lk1]) blast
  note C = mq_ok_calm [OF ok k1(2,3)]
  have q1: "q = queue_of k1 mqdes" "q \<in> set (g_msgqueues k1)" "contents k1 q = (p, d) # xs" using q r c by (simp_all add: C can_receive_def)
  obtain k' where k': "(do { r \<leftarrow> mq_waitreceive mqdes k1; mq_receive_finish mqdes r }) = Some (Received d p k')" "mq_ok k'"
    "contents k' = (contents k1)(q := xs)" "length d \<le> maxmsgsize (mqueue k1 q)"
    "\<And>u. u \<noteq> NULL \<Longrightarrow> msg_waits NF k' u = (if u = q then tl (msg_waits NF k1 q) else msg_waits NF k1 u)" "msg_waits NE k' = msg_waits NE k1"
    "\<And>t ts. msg_waits NF k1 q = t # ts \<Longrightarrow> is_ready_state (state_of k' t) \<or> state_of k' t = TSTATE_TASK_PENDING"
    "current_regs k' = current_regs k1" "descr k' = descr k1" "g_msgqueues k' = g_msgqueues k1" "\<And>u. maxmsgs (mqueue k' u) = maxmsgs (mqueue k1 u)"
    using mq_receive_rest [OF C(1) q1] by blast
  have "mq_receive mqdes True len k = Some (Received d p k')"
    using mq_verifyreceive_ok [OF r] k1(1) k'(1) by (simp add: mq_receive_def)
  moreover have "length d \<le> len" using k'(4) r q by (simp add: C can_receive_def)
  ultimately show thesis using that [of k'] k' C by simp
qed

text \<open>With an empty queue the caller blocks, or fails if it may not block.\<close>

lemma mq_receive_empty:
  assumes ok: "mq_ok k" and r: "can_receive mqdes len k" and q: "q = queue_of k mqdes" and c: "contents k q = []"
    and lk: "lock_free 1 k" and cr: "\<not> current_regs k"
  shows "oflags (descr k mqdes) AND O_NONBLOCK \<noteq> 0 \<Longrightarrow>
      \<exists>k'. mq_receive mqdes True len k = Some (Failed k') \<and> mq_ok k' \<and> contents k' = contents k \<and>
        msg_waits NE k' = msg_waits NE k \<and> msg_waits NF k' = msg_waits NF k \<and> descr k' = descr k \<and> g_msgqueues k' = g_msgqueues k"
    and "oflags (descr k mqdes) AND O_NONBLOCK = 0 \<Longrightarrow> length (g_readytorun k) > 1 \<Longrightarrow> length (tasklist k NE) < 32767 \<Longrightarrow>
      \<exists>k'. mq_receive mqdes True len k = Some (Waiting k') \<and> mq_ok k' \<and> contents k' = contents k \<and>
        msg_waits NE k' = (msg_waits NE k)(q := prio_insert (prio k) (cpu k) (msg_waits NE k q)) \<and> msg_waits NF k' = msg_waits NF k \<and>
        state_of k' (cpu k) = NE \<and> descr k' = descr k"
proof -
  note S = mq_okD(2) [OF ok]
  have lk1: "current_regs k \<or> lockcount (tcb k (hd (g_readytorun k))) < MAX_LOCK_COUNT" using lk by (auto simp: lock_free_def)
  obtain k1 where k1: "sched_lock k = Some k1" "sched_ok k1" "calm k k1" "g_readytorun k1 = g_readytorun k"
    by (rule sched_lock_calm [OF S lk1]) blast
  note C = mq_ok_calm [OF ok k1(2,3)]
  have cc: "prio k1 t = prio k t" "is_blocked_state v \<Longrightarrow> tasklist k1 v = tasklist k v" for t v using k1(3) by (simp_all add: calm_def)
  have ms: "msglist (mqueue k q) = []" using c by (simp add: contents_def)
  have rcv: "mq_receive mqdes True len k = (do { r \<leftarrow> mq_waitreceive mqdes k1; mq_receive_finish mqdes r })"
    using k1(1) mq_verifyreceive_ok [OF r] by (simp add: mq_receive_def)
  {
    assume nb: "oflags (descr k mqdes) AND O_NONBLOCK \<noteq> 0"
    let ?k = "set_errno EAGAIN k1"
    have S2: "sched_ok ?k" using k1(2) by simp
    note C2 = mq_ok_calm [OF C(1) S2 set_errno_calm [OF k1(2)]]
    obtain k' where k': "sched_unlock ?k = Some k'" "sched_ok k'" "calm ?k k'" by (rule sched_unlock_calm [OF S2]) blast
    note C3 = mq_ok_calm [OF C2(1) k'(2,3)]
    have "mq_waitreceive mqdes k1 = Some (Got NULL ?k)" using nb ms q by (simp add: mq_waitreceive_def C)
    then have "mq_receive mqdes True len k = Some (Failed k')" unfolding rcv using k'(1) by (simp add: mq_receive_finish_def)
    then show "\<exists>k'. mq_receive mqdes True len k = Some (Failed k') \<and> mq_ok k' \<and> contents k' = contents k \<and>
        msg_waits NE k' = msg_waits NE k \<and> msg_waits NF k' = msg_waits NF k \<and> descr k' = descr k \<and> g_msgqueues k' = g_msgqueues k"
      using C C2 C3 by auto
  next
    assume nb: "oflags (descr k mqdes) AND O_NONBLOCK = 0" "length (g_readytorun k) > 1" "length (tasklist k NE) < 32767"
    have q0: "q \<noteq> NULL" using r q msgs_okD(4) [OF mq_okD(4) [OF ok]] by (intro notI) (simp add: can_receive_def)
    have ne: "is_blocked_state NE" by (simp add: is_blocked_state_def)
    obtain k' where k': "up_block_task (hd (g_readytorun k1)) NE (set_errno OK (upd_mq q (upd_wait_count NE (\<lambda>n. s16 (n + 1)))
         (upd_tcb (hd (g_readytorun k1)) (msgwaitq_update (\<lambda>_. q)) k1))) = Some k'" "mq_ok k'" "state_of k' (hd (g_readytorun k1)) = NE"
      "msg_waits NE k' = (msg_waits NE k1)(q := prio_insert (prio k1) (hd (g_readytorun k1)) (msg_waits NE k1 q))"
      "\<And>u. u \<in> {NE, NF} \<Longrightarrow> u \<noteq> NE \<Longrightarrow> msg_waits u k' = msg_waits u k1" "contents k' = contents k1" "descr k' = descr k1"
      by (rule mq_block_ok [OF C(1) _ _ q0, of NE]) (use cr nb ne cc k1(4) C(8) in auto)
    have "mq_waitreceive mqdes k1 = Some (Waits k')"
      using nb(1) ms q k'(1) sched_okD(3) [OF S] by (simp add: mq_waitreceive_def Let_def C k1(4) upd_wait_count_fun)
    then have rr: "mq_receive mqdes True len k = Some (Waiting k')" unfolding rcv by (simp add: mq_receive_finish_def)
    have pk: "prio k1 = prio k" using cc(1) by auto
    have "hd (g_readytorun k1) = cpu k" using k1(4) sched_okD(2) [OF S] by simp
    then show "\<exists>k'. mq_receive mqdes True len k = Some (Waiting k') \<and> mq_ok k' \<and> contents k' = contents k \<and>
        msg_waits NE k' = (msg_waits NE k)(q := prio_insert (prio k) (cpu k) (msg_waits NE k q)) \<and> msg_waits NF k' = msg_waits NF k \<and>
        state_of k' (cpu k) = NE \<and> descr k' = descr k"
      using rr k'(2-7) C pk by auto
  }
qed

text \<open>A signal or timeout takes the task off the waiting tasks with the error as its errno.\<close>

lemma mq_waitirq_ok:
  assumes ok: "mq_ok k" and s: "s \<in> {NE, NF}" and t: "state_of k t = s"
  obtains k' where "mq_waitirq t e k = Some k'" "mq_ok k'" "contents k' = contents k" "pterrno (tcb k' t) = e"
    "msg_waits s k' (msgwaitq (tcb k t)) = remove1 t (msg_waits s k (msgwaitq (tcb k t)))"
    "is_ready_state (state_of k' t) \<or> state_of k' t = TSTATE_TASK_PENDING" "descr k' = descr k" "g_msgqueues k' = g_msgqueues k"
proof -
  note S = mq_okD(2) [OF ok]
  let ?q = "msgwaitq (tcb k t)"
  have q: "?q \<noteq> NULL" using mq_okD(5) [OF ok] t s by (auto simp: wait_field_ok_def)
  have tm: "t \<in> set (msg_waits s k ?q)" using wait_objects.mem [OF mq_wait_objects [OF s] S] t by simp
  have pos: "wait_count s (mqueue k ?q) > 0"
    using mq_waitsD(2) [OF mq_okD(3) [OF ok] s q] length_pos_if_in_set [OF tm] by simp
  let ?f = "\<lambda>c. c\<lparr>msgwaitq := NULL, pterrno := e\<rparr>"
  let ?k1 = "upd_tcb t ?f (upd_mq ?q (upd_wait_count s (\<lambda>n. s16 (n - 1))) k)"
  obtain k' where k': "up_unblock_task t ?k1 = Some k'" "mq_ok k'" "rest k' = rest ?k1"
    "\<And>p. p \<noteq> NULL \<Longrightarrow> msg_waits s k' p = (if p = ?q then remove1 t (msg_waits s k ?q) else msg_waits s k p)"
    "contents k' = contents k" "descr k' = descr k" "g_msgqueues k' = g_msgqueues k"
    "tasklist k' = (tasklist k)(s := remove1 t (tasklist k s), ready_list k t := prio_insert (prio k) t (tasklist k (ready_list k t)))"
    by (rule mq_wake_ok [OF ok s q tm, of ?f], simp, simp, simp, simp, simp, rule that, (assumption | simp)+)
  have "mq_waitirq t e k = up_unblock_task t ?k1"
    using t s q pos by (auto simp: mq_waitirq_def Let_def upd_mq_upd_tcb upd_tcb_twice upd_wait_count_fun)
  moreover have "t \<in> set (tasklist k' (ready_list k t))" by (simp add: k'(8))
  then have "t \<in> set (g_readytorun k') \<union> set (g_pendingtasks k')" by (auto simp: ready_list_def split: if_splits)
  then have "is_ready_state (state_of k' t) \<or> state_of k' t = TSTATE_TASK_PENDING"
    using runnable_iff [OF sched_okD(1) [OF mq_okD(2) [OF k'(2)]], of t] by simp
  moreover have "pterrno (tcb k' t) = e" using rest_eqD(8) [OF k'(3), of t] by simp
  ultimately show thesis using that [of k'] k'(1,2,4-7) q by simp
qed

end
