(* ===== verification/Mq_Open.thy ===== *)
theory Mq_Open
  imports Mq_Ops
begin

section \<open>Opening, closing and unlinking message queues\<close>

text \<open>
  The reference counts of the message queues: \<open>nconnect\<close> is the number of open descriptors of a queue, so that a
  queue is freed when its last descriptor is closed and not before. The messages of a freed queue go back to the
  free lists.
\<close>

definition open_descs :: "'z mq_kernel_scheme \<Rightarrow> addr set" where
  "open_descs k = (\<Union>t. set (msgdesq k t))"

definition refs :: "'z mq_kernel_scheme \<Rightarrow> addr \<Rightarrow> addr set" where
  "refs k q = {d \<in> open_descs k. queue_of k d = q}"

definition mq_desc_ok :: "'z mq_kernel_scheme \<Rightarrow> bool" where
  "mq_desc_ok k \<longleftrightarrow> finite (open_descs k) \<and> NULL \<notin> open_descs k \<and> (\<forall>t. distinct (msgdesq k t)) \<and>
     (\<forall>t u. t \<noteq> u \<longrightarrow> set (msgdesq k t) \<inter> set (msgdesq k u) = {}) \<and>
     distinct (g_desfree k) \<and> NULL \<notin> set (g_desfree k) \<and> set (g_desfree k) \<inter> open_descs k = {} \<and>
     (\<forall>d\<in>open_descs k. queue_of k d \<in> set (g_msgqueues k)) \<and>
     (\<forall>q\<in>set (g_msgqueues k). nconnect (mqueue k q) = int (card (refs k q)))"

lemma desc_okD:
  assumes "mq_desc_ok k"
  shows "finite (open_descs k)" "NULL \<notin> open_descs k" "distinct (msgdesq k t)" "t \<noteq> u \<Longrightarrow> set (msgdesq k t) \<inter> set (msgdesq k u) = {}"
    "distinct (g_desfree k)" "NULL \<notin> set (g_desfree k)" "set (g_desfree k) \<inter> open_descs k = {}"
    "d \<in> open_descs k \<Longrightarrow> queue_of k d \<in> set (g_msgqueues k)" "q \<in> set (g_msgqueues k) \<Longrightarrow> nconnect (mqueue k q) = int (card (refs k q))"
    "finite (refs k q)"
  using assms unfolding mq_desc_ok_def refs_def by auto

lemma desc_more_eqD:
  assumes "kernel.more k' = kernel.more (k :: 'z mq_kernel_scheme)"
  shows "msgdesq k' = msgdesq k" "g_desfree k' = g_desfree k" "sched_freed k' = sched_freed k"
proof -
  have "k' = k\<lparr>tcb := tcb k', tasklist := tasklist k', cpu := cpu k', current_regs := current_regs k', g_irqerrno := g_irqerrno k'\<rparr>"
    using assms by (intro kernel.equality) simp_all
  note * = arg_cong [OF this]
  show "msgdesq k' = msgdesq k" using * [of msgdesq] by simp
  show "g_desfree k' = g_desfree k" using * [of g_desfree] by simp
  show "sched_freed k' = sched_freed k" using * [of sched_freed] by simp
qed

lemma desc_ok_cong:
  assumes "msgdesq k' = msgdesq k" "g_desfree k' = g_desfree k" "descr k' = descr k" "g_msgqueues k' = g_msgqueues k"
    "\<And>q. nconnect (mqueue k' q) = nconnect (mqueue k q)"
  shows "mq_desc_ok k' = mq_desc_ok k"
  unfolding mq_desc_ok_def open_descs_def refs_def assms by (rule refl)

lemma desc_ok_calm:
  assumes "calm k k'" "mq_desc_ok k"
  shows "mq_desc_ok k'" "open_descs k' = open_descs k" "refs k' = refs k" "msgdesq k' = msgdesq k" "g_desfree k' = g_desfree k"
proof -
  have m: "kernel.more k' = kernel.more k" using assms(1) by (simp add: calm_def)
  note E = mq_more_eqD [OF m] desc_more_eqD [OF m]
  show "mq_desc_ok k'" using desc_ok_cong [of k' k] E assms(2) by simp
  show "open_descs k' = open_descs k" "refs k' = refs k" "msgdesq k' = msgdesq k" "g_desfree k' = g_desfree k"
    by (simp_all add: open_descs_def refs_def E fun_eq_iff)
qed

subsection \<open>Descriptors\<close>

text \<open>A fresh block of descriptors, if one is needed.\<close>

definition block_fresh :: "addr \<Rightarrow> 'z mq_kernel_scheme \<Rightarrow> bool" where
  "block_fresh blk k \<longleftrightarrow> (\<forall>i. blk + 4 + i * SIZEOF_MQ_DES \<notin> open_descs k)"

lemma mq_desblockalloc_ok:
  assumes "mq_desc_ok k" "g_desfree k = []" "block_fresh blk k"
  shows "mq_desc_ok (mq_desblockalloc blk k)"
proof -
  let ?ds = "map (\<lambda>i. blk + 4 + i * SIZEOF_MQ_DES) [0..<NUM_MSG_DESCRIPTORS]" and ?k = "mq_desblockalloc blk k"
  have "distinct ?ds" by (simp add: distinct_map SIZEOF_MQ_DES_def inj_on_def)
  moreover have "NULL \<notin> set ?ds" by auto
  moreover have "set ?ds \<inter> open_descs k = {}" using assms(3) by (auto simp: block_fresh_def)
  moreover have "g_desfree ?k = (if blk = NULL then [] else ?ds)" "open_descs ?k = open_descs k" "refs ?k = refs k" "msgdesq ?k = msgdesq k"
    "descr ?k = descr k" "g_msgqueues ?k = g_msgqueues k" "mqueue ?k = mqueue k"
    using assms(2) by (simp_all add: mq_desblockalloc_def open_descs_def refs_def fun_eq_iff)
  ultimately show ?thesis using assms(1) unfolding mq_desc_ok_def by auto
qed

lemma mq_desblockalloc_fields:
  "msgdesq (mq_desblockalloc blk k) = msgdesq k" "descr (mq_desblockalloc blk k) = descr k" "g_msgqueues (mq_desblockalloc blk k) = g_msgqueues k"
  "mqueue (mq_desblockalloc blk k) = mqueue k" "tcb (mq_desblockalloc blk k) = tcb k" "tasklist (mq_desblockalloc blk k) = tasklist k"
  "cpu (mq_desblockalloc blk k) = cpu k" "semcount (mq_desblockalloc blk k) = semcount k" "message (mq_desblockalloc blk k) = message k"
  "g_msgfree (mq_desblockalloc blk k) = g_msgfree k" "g_msgfreeirq (mq_desblockalloc blk k) = g_msgfreeirq k" "current_regs (mq_desblockalloc blk k) = current_regs k"
  by (simp_all add: mq_desblockalloc_def)

text \<open>\<open>mq_descreate\<close> opens a descriptor that no task has.\<close>

lemma mq_descreate_ok:
  assumes ok: "mq_ok k" "mq_desc_ok k" and bf: "block_fresh blk k"
  obtains d k' where "mq_descreate t q fl blk k = (d, k')" "mq_ok k'" "mqueue k' = mqueue k" "g_msgqueues k' = g_msgqueues k" "contents k' = contents k"
    "tcb k' = tcb k" "tasklist k' = tasklist k" "cpu k' = cpu k" "current_regs k' = current_regs k"
    "d = NULL \<Longrightarrow> mq_desc_ok k'" "d = NULL \<Longrightarrow> open_descs k' = open_descs k"
    "d \<noteq> NULL \<Longrightarrow> d \<notin> open_descs k \<and> descr k' = (descr k)(d := \<lparr>des_msgq = q, oflags = fl\<rparr>) \<and>
       msgdesq k' = (msgdesq k)(t := msgdesq k t @ [d]) \<and> distinct (g_desfree k') \<and> NULL \<notin> set (g_desfree k') \<and>
       set (g_desfree k') \<inter> insert d (open_descs k) = {}"
proof -
  define k0 where "k0 = (if g_desfree k = [] then mq_desblockalloc blk k else k)"
  note F = mq_desblockalloc_fields [of blk k]
  have D0: "mq_desc_ok k0" using mq_desblockalloc_ok [OF ok(2) _ bf] ok(2) by (simp add: k0_def)
  have F0: "mqueue k0 = mqueue k" "g_msgqueues k0 = g_msgqueues k" "tcb k0 = tcb k" "tasklist k0 = tasklist k" "cpu k0 = cpu k" "semcount k0 = semcount k"
    "message k0 = message k" "g_msgfree k0 = g_msgfree k" "g_msgfreeirq k0 = g_msgfreeirq k" "msgdesq k0 = msgdesq k" "descr k0 = descr k" "current_regs k0 = current_regs k"
    by (simp_all add: k0_def F)
  have O0: "open_descs k0 = open_descs k" by (simp add: open_descs_def F0)
  note Dd = desc_okD [OF D0, unfolded O0]
  have frame: "mq_ok k' \<and> contents k' = contents k"
    if "mqueue k' = mqueue k" "g_msgqueues k' = g_msgqueues k" "tcb k' = tcb k" "tasklist k' = tasklist k" "cpu k' = cpu k" "semcount k' = semcount k"
    "message k' = message k" "g_msgfree k' = g_msgfree k" "g_msgfreeirq k' = g_msgfreeirq k" for k' :: "'a mq_kernel_scheme"
  proof -
    have X: "mq_msgs_ok k' = mq_msgs_ok k" "contents k' = contents k" by (rule msgs_ok_cong; simp add: that)+
    show ?thesis using mq_ok_frame [OF ok(1), of k'] X mq_okD(4) [OF ok(1)] that by simp
  qed
  show thesis
  proof (cases "g_desfree k0")
    case Nil
    then have "mq_descreate t q fl blk k = (NULL, k0)" by (simp add: mq_descreate_def mq_desalloc_def k0_def [symmetric])
    then show thesis using that [of NULL k0] frame [of k0] F0 D0 O0 by simp
  next
    case (Cons d ds)
    let ?k = "k0\<lparr>g_desfree := ds, descr := (descr k0)(d := \<lparr>des_msgq = q, oflags = fl\<rparr>), msgdesq := (msgdesq k0)(t := msgdesq k0 t @ [d])\<rparr>"
    have dn: "d \<noteq> NULL" using Dd(6) Cons by auto
    have "mq_descreate t q fl blk k = (d, ?k)" using dn Cons by (simp add: mq_descreate_def mq_desalloc_def k0_def [symmetric])
    moreover have "d \<notin> open_descs k" "distinct ds" "NULL \<notin> set ds" "set ds \<inter> insert d (open_descs k) = {}" using Dd(5-7) Cons by auto
    ultimately show thesis using that [of d ?k] frame [of ?k] F0 dn by simp
  qed
qed

lemma desc_ok_open:
  assumes ok: "mq_desc_ok k" and d: "d \<noteq> NULL" "d \<notin> open_descs k"
    and m: "msgdesq k' = (msgdesq k)(t := msgdesq k t @ [d])" "descr k' = (descr k)(d := \<lparr>des_msgq = q, oflags = fl\<rparr>)"
    and f: "distinct (g_desfree k')" "NULL \<notin> set (g_desfree k')" "set (g_desfree k') \<inter> insert d (open_descs k) = {}"
    and q: "set (g_msgqueues k') = insert q (set (g_msgqueues k))"
    and n: "\<And>u. u \<in> set (g_msgqueues k') \<Longrightarrow> nconnect (mqueue k' u) = (if u = q then int (card (refs k q)) + 1 else nconnect (mqueue k u))"
  shows "mq_desc_ok k'" "open_descs k' = insert d (open_descs k)" "refs k' q = insert d (refs k q)" "\<And>u. u \<noteq> q \<Longrightarrow> refs k' u = refs k u"
proof -
  note D = desc_okD [OF ok]
  show O: "open_descs k' = insert d (open_descs k)" by (auto simp: open_descs_def m split: if_splits)
  have R: "refs k' u = (if u = q then insert d (refs k u) else refs k u)" for u using d(2) by (auto simp: refs_def O m)
  then show "refs k' q = insert d (refs k q)" "\<And>u. u \<noteq> q \<Longrightarrow> refs k' u = refs k u" by simp_all
  have dn: "d \<notin> set (msgdesq k u)" for u using d(2) by (auto simp: open_descs_def)
  have dr: "d \<notin> refs k q" using d(2) by (simp add: refs_def)
  show "mq_desc_ok k'"
    unfolding mq_desc_ok_def
  proof (intro conjI allI ballI impI)
    show "finite (open_descs k')" "NULL \<notin> open_descs k'" using O D(1,2) d(1) by auto
    show "distinct (msgdesq k' u)" for u using D(3) [of u] dn [of t] by (auto simp: m)
    show "set (msgdesq k' u) \<inter> set (msgdesq k' v) = {}" if "u \<noteq> v" for u v using D(4) [OF that] dn that by (auto simp: m)
    show "distinct (g_desfree k')" "NULL \<notin> set (g_desfree k')" "set (g_desfree k') \<inter> open_descs k' = {}" using f O by auto
    show "queue_of k' x \<in> set (g_msgqueues k')" if "x \<in> open_descs k'" for x using that D(8) [of x] q O by (auto simp: m)
    show "nconnect (mqueue k' u) = int (card (refs k' u))" if "u \<in> set (g_msgqueues k')" for u
      using n [OF that] D(9) [of u] R [of u] dr D(10) [of q] that q by auto
  qed
qed

lemma desc_ok_close:
  assumes ok: "mq_desc_ok k" and d: "d \<in> set (msgdesq k t)"
    and m: "msgdesq k' = (msgdesq k)(t := remove1 d (msgdesq k t))" "descr k' = descr k" "g_desfree k' = g_desfree k @ [d]"
    and q: "\<And>x. x \<in> open_descs k \<Longrightarrow> x \<noteq> d \<Longrightarrow> queue_of k x \<in> set (g_msgqueues k')"
    and n: "\<And>u. u \<in> set (g_msgqueues k') \<Longrightarrow> nconnect (mqueue k' u) = int (card (refs k u - {d}))"
  shows "mq_desc_ok k'" "open_descs k' = open_descs k - {d}" "\<And>u. refs k' u = refs k u - {d}"
proof -
  note D = desc_okD [OF ok]
  have dn: "d \<notin> set (msgdesq k u)" if "u \<noteq> t" for u using D(4) [OF that] d by auto
  show O: "open_descs k' = open_descs k - {d}"
    using D(3) [of t] dn by (auto simp: open_descs_def m split: if_splits)
  show R: "refs k' u = refs k u - {d}" for u by (auto simp: refs_def O m)
  have od: "d \<in> open_descs k" using d by (auto simp: open_descs_def)
  show "mq_desc_ok k'"
    unfolding mq_desc_ok_def
  proof (intro conjI allI ballI impI)
    show "finite (open_descs k')" "NULL \<notin> open_descs k'" using O D(1,2) by auto
    show "distinct (msgdesq k' u)" for u using D(3) [of u] by (auto simp: m)
    show "set (msgdesq k' u) \<inter> set (msgdesq k' v) = {}" if "u \<noteq> v" for u v
      using D(4) [OF that] that set_remove1_subset [of d "msgdesq k t"] by (auto simp: m)
    show "distinct (g_desfree k')" "NULL \<notin> set (g_desfree k')" "set (g_desfree k') \<inter> open_descs k' = {}"
      using D(2,5-7) od O by (auto simp: m)
    show "queue_of k' x \<in> set (g_msgqueues k')" if "x \<in> open_descs k'" for x using that q [of x] O by (simp add: m)
    show "nconnect (mqueue k' u) = int (card (refs k' u))" if "u \<in> set (g_msgqueues k')" for u using n [OF that] R by simp
  qed
qed

subsection \<open>Freeing a queue\<close>

text \<open>
  Where freed memory goes: the two lists of free messages and the blocks given to \<open>sched_free\<close>;
  and what they are after a queue is freed: each message of the queue is on the list of its kind,
  the dynamic messages and, last, the queue itself are given to \<open>sched_free\<close>.
\<close>

definition pools :: "'z mq_kernel_scheme \<Rightarrow> addr list \<times> addr list \<times> addr list" where
  "pools k = (g_msgfree k, g_msgfreeirq k, sched_freed k)"

definition msgs_of_type :: "mqalloc \<Rightarrow> addr list \<Rightarrow> 'z mq_kernel_scheme \<Rightarrow> addr list" where
  "msgs_of_type ty ms k = filter (\<lambda>m. msg_type (message k m) = ty) ms"

definition reclaimed :: "addr \<Rightarrow> 'z mq_kernel_scheme \<Rightarrow> addr list \<times> addr list \<times> addr list" where
  "reclaimed q k = (let ms = msglist (mqueue k q) in
     (g_msgfree k @ msgs_of_type MQ_ALLOC_FIXED ms k, g_msgfreeirq k @ msgs_of_type MQ_ALLOC_IRQ ms k,
      sched_freed k @ msgs_of_type MQ_ALLOC_DYN ms k @ [q]))"

lemma pools_cong:
  assumes "g_msgfree k' = g_msgfree k" "g_msgfreeirq k' = g_msgfreeirq k" "sched_freed k' = sched_freed k" "message k' = message k"
    "\<And>q. msglist (mqueue k' q) = msglist (mqueue k q)"
  shows "pools k' = pools k" "reclaimed q k' = reclaimed q k"
  using assms by (simp_all add: pools_def reclaimed_def msgs_of_type_def)

lemma pools_calm:
  assumes "calm k k'"
  shows "pools k' = pools k" "reclaimed q k' = reclaimed q k"
  using assms by (intro pools_cong; simp add: calm_def mq_more_eqD [of k' k] desc_more_eqD [of k' k])+

lemma fold_msgfree_pools:
  "pools (fold mq_msgfree ms k) = (g_msgfree k @ msgs_of_type MQ_ALLOC_FIXED ms k, g_msgfreeirq k @ msgs_of_type MQ_ALLOC_IRQ ms k,
     sched_freed k @ msgs_of_type MQ_ALLOC_DYN ms k)"
proof (induction ms arbitrary: k)
  case (Cons m ms)
  have "message (mq_msgfree m k) = message k" by (simp add: mq_msgfree_def split: mqalloc.splits)
  then show ?case using Cons.IH [of "mq_msgfree m k"] by (simp add: msgs_of_type_def mq_msgfree_def split: mqalloc.splits)
qed (simp add: pools_def msgs_of_type_def)

lemma fold_msgfree_ok:
  assumes "mq_ok k" "distinct ms" "set ms \<inter> set (all_msgs k) = {}" "NULL \<notin> set ms"
  shows "mq_ok (fold mq_msgfree ms k) \<and> contents (fold mq_msgfree ms k) = contents k \<and> mqueue (fold mq_msgfree ms k) = mqueue k \<and>
    tcb (fold mq_msgfree ms k) = tcb k \<and> tasklist (fold mq_msgfree ms k) = tasklist k \<and> current_regs (fold mq_msgfree ms k) = current_regs k \<and>
    descr (fold mq_msgfree ms k) = descr k \<and> g_msgqueues (fold mq_msgfree ms k) = g_msgqueues k \<and>
    msgdesq (fold mq_msgfree ms k) = msgdesq k \<and> g_desfree (fold mq_msgfree ms k) = g_desfree k"
  using assms
proof (induction ms arbitrary: k)
  case (Cons m ms)
  have m: "m \<noteq> NULL" "m \<notin> set (all_msgs k)" using Cons.prems by auto
  note F = mq_msgfree_ok [OF Cons.prems(1) m]
  have "msgdesq (mq_msgfree m k) = msgdesq k" "g_desfree (mq_msgfree m k) = g_desfree k"
    by (simp_all add: mq_msgfree_def split: mqalloc.splits)
  moreover have "set ms \<inter> set (all_msgs (mq_msgfree m k)) = {}" using F(10) Cons.prems(2,3) by auto
  ultimately show ?case using Cons.IH [of "mq_msgfree m k"] Cons.prems F by simp
qed simp

lemma mq_msgqfree_ok:
  assumes ok: "mq_ok k" and q: "q \<in> set (g_msgqueues k)"
  defines "k' \<equiv> mq_msgqfree q (k\<lparr>g_msgqueues := remove1 q (g_msgqueues k)\<rparr>)"
  shows "mq_ok k'" "contents k' = contents k" "mqueue k' = mqueue k" "tcb k' = tcb k" "tasklist k' = tasklist k" "current_regs k' = current_regs k"
    "descr k' = descr k" "g_msgqueues k' = remove1 q (g_msgqueues k)" "msgdesq k' = msgdesq k" "g_desfree k' = g_desfree k"
    "pools k' = reclaimed q k"
proof -
  let ?k = "k\<lparr>g_msgqueues := remove1 q (g_msgqueues k)\<rparr>" and ?ms = "msglist (mqueue k q)"
  note D = msgs_okD [OF mq_okD(4) [OF ok]]
  obtain as bs where sp: "g_msgqueues k = as @ q # bs" "q \<notin> set as" using q by (meson split_list_first)
  have rm: "remove1 q (g_msgqueues k) = as @ bs" using sp by (simp add: remove1_append)
  have sub: "u \<in> set (g_msgqueues ?k) \<Longrightarrow> u \<in> set (g_msgqueues k)" for u using sp rm by auto
  have al: "distinct (all_msgs ?k)" "set (all_msgs ?k) \<subseteq> set (all_msgs k)" "set ?ms \<inter> set (all_msgs ?k) = {}" "distinct ?ms" "NULL \<notin> set ?ms"
  proof -
    have A: "all_msgs ?k = g_msgfree k @ g_msgfreeirq k @ concat (map (\<lambda>q. msglist (mqueue k q)) (as @ bs))" by (simp add: all_msgs_def rm)
    have B: "all_msgs k = g_msgfree k @ g_msgfreeirq k @ concat (map (\<lambda>q. msglist (mqueue k q)) (as @ q # bs))" by (simp add: all_msgs_def sp(1))
    show "distinct (all_msgs ?k)" "set (all_msgs ?k) \<subseteq> set (all_msgs k)" "set ?ms \<inter> set (all_msgs ?k) = {}" "distinct ?ms" "NULL \<notin> set ?ms"
      using D(1,2) unfolding A B by auto
  qed
  have "mq_msgs_ok ?k"
    unfolding mq_msgs_ok_def
  proof (intro conjI ballI)
    show "distinct (all_msgs ?k)" "NULL \<notin> set (all_msgs ?k)" using al(1,2) D(2) by blast+
    show "distinct (g_msgqueues ?k)" using D(3) by simp
    show "NULL \<notin> set (g_msgqueues ?k)" using D(4) sub by blast
  qed (use D(5-10) sub in simp_all)
  then have ok1: "mq_ok ?k" by (rule mq_ok_frame [OF ok]) simp_all
  note F = fold_msgfree_ok [OF ok1 al(4,3,5)]
  let ?f = "fold mq_msgfree ?ms ?k"
  have k': "k' = ?f\<lparr>sched_freed := sched_freed ?f @ [q]\<rparr>" by (simp add: k'_def mq_msgqfree_def)
  have X: "mq_msgs_ok k' = mq_msgs_ok ?f" "contents k' = contents ?f" unfolding k' by (rule msgs_ok_cong; simp)+
  show "mq_ok k'" by (rule mq_ok_frame [of ?f]) (use F X(1) mq_okD(4) [of ?f] in \<open>simp_all add: k'\<close>)
  show "pools k' = reclaimed q k"
    using fold_msgfree_pools [of ?ms ?k] by (simp add: k' pools_def reclaimed_def msgs_of_type_def Let_def)
  have "contents ?k = contents k" by (simp add: contents_def fun_eq_iff)
  then show "contents k' = contents k" using F X(2) by simp
  show "mqueue k' = mqueue k" "tcb k' = tcb k" "tasklist k' = tasklist k" "current_regs k' = current_regs k"
    "descr k' = descr k" "g_msgqueues k' = remove1 q (g_msgqueues k)" "msgdesq k' = msgdesq k" "g_desfree k' = g_desfree k"
    unfolding k' using F by simp_all
qed

subsection \<open>The three operations\<close>

lemma findnamed_mem: "mq_findnamed nm k \<noteq> NULL \<Longrightarrow> mq_findnamed nm k \<in> set (g_msgqueues k) \<and> mq_name (mqueue k (mq_findnamed nm k)) = nm"
proof -
  have "mq_findnamed_loop mq nm qs \<noteq> NULL \<Longrightarrow> mq_findnamed_loop mq nm qs \<in> set qs \<and> mq_name (mq (mq_findnamed_loop mq nm qs)) = nm" for mq qs
    by (induction qs) (auto split: if_splits)
  then show "mq_findnamed nm k \<noteq> NULL \<Longrightarrow> mq_findnamed nm k \<in> set (g_msgqueues k) \<and> mq_name (mqueue k (mq_findnamed nm k)) = nm"
    by (simp add: mq_findnamed_def)
qed

lemma mq_close_locked_ok:
  assumes ok: "mq_ok k" "mq_desc_ok k" and d: "d \<in> set (msgdesq k t)"
  defines "q \<equiv> queue_of k d" and "k' \<equiv> mq_close_locked d t k"
  shows "mq_ok k'" "mq_desc_ok k'" "open_descs k' = open_descs k - {d}" "contents k' = contents k"
    "g_msgqueues k' = (if refs k q = {d} \<and> unlinked (mqueue k q) then remove1 q (g_msgqueues k) else g_msgqueues k)"
    "pools k' = (if refs k q = {d} \<and> unlinked (mqueue k q) then reclaimed q k else pools k)"
proof -
  note S = mq_okD(2) [OF ok(1)] and D = desc_okD [OF ok(2)]
  have od: "d \<in> open_descs k" using d by (auto simp: open_descs_def)
  have q: "q \<in> set (g_msgqueues k)" using D(8) [OF od] by (simp add: q_def)
  have dr: "d \<in> refs k q" using od by (simp add: refs_def q_def)
  have card: "nconnect (mqueue k q) = int (card (refs k q))" "card (refs k q) > 0" using D(9) [OF q] dr D(10) [of q] by (auto simp: card_gt_0_iff)
  have z: "nconnect (mqueue k q) - 1 = 0 \<longleftrightarrow> refs k q = {d}" using card dr by (auto simp: card_1_singleton_iff)
  let ?f = "\<lambda>n :: int. n - 1"
  define k2 where "k2 = upd_mq q (nconnect_update ?f) (k\<lparr>msgdesq := (msgdesq k)(t := remove1 d (msgdesq k t))\<rparr>)"
  define fr where "fr \<longleftrightarrow> refs k q = {d} \<and> unlinked (mqueue k q)"
  define k3 where "k3 = (if fr then mq_msgqfree q (k2\<lparr>g_msgqueues := remove1 q (g_msgqueues k2)\<rparr>) else k2)"
  have k2f: "mqueue k2 = (mqueue k)(q := nconnect_update ?f (mqueue k q))" "g_msgqueues k2 = g_msgqueues k" "descr k2 = descr k"
    "msgdesq k2 = (msgdesq k)(t := remove1 d (msgdesq k t))" "g_desfree k2 = g_desfree k" "message k2 = message k" "g_msgfree k2 = g_msgfree k"
    "g_msgfreeirq k2 = g_msgfreeirq k" "tcb k2 = tcb k" "tasklist k2 = tasklist k" "cpu k2 = cpu k" "semcount k2 = semcount k"
    by (simp_all add: k2_def upd_mq_def)
  have X: "mq_msgs_ok k2 = mq_msgs_ok k" "contents k2 = contents k" by (rule msgs_ok_cong; simp add: k2f)+
  have "wait_count s (mqueue k2 u) = wait_count s (mqueue k u)" for s u by (cases s) (simp_all add: k2f)
  with X have ok2: "mq_ok k2" using mq_okD(4) [OF ok(1)] by (intro mq_ok_frame [OF ok(1)]) (simp_all add: k2f)
  have q2: "q \<in> set (g_msgqueues k2)" using q by (simp add: k2f)
  have k3f: "mq_ok k3" "contents k3 = contents k" "mqueue k3 = mqueue k2" "descr k3 = descr k"
    "g_msgqueues k3 = (if fr then remove1 q (g_msgqueues k) else g_msgqueues k)" "msgdesq k3 = msgdesq k2" "g_desfree k3 = g_desfree k"
    using mq_msgqfree_ok [OF ok2 q2] ok2 X by (simp_all add: k3_def k2f)
  have k': "k' = k3\<lparr>g_desfree := g_desfree k3 @ [d]\<rparr>"
  proof -
    define j where "j = k\<lparr>msgdesq := (msgdesq k)(t := remove1 d (msgdesq k t))\<rparr>"
    have a: "(if nconnect (mqueue j q) \<noteq> 0 then upd_mq q (nconnect_update ?f) j else j) = k2"
      using card by (simp add: j_def k2_def)
    have b: "(if nconnect (mqueue k2 q) = 0 \<and> unlinked (mqueue k2 q) then mq_msgqfree q (k2\<lparr>g_msgqueues := remove1 q (g_msgqueues k2)\<rparr>) else k2) = k3"
      using z by (simp add: k3_def fr_def k2f)
    have "queue_of j d = q" by (simp add: j_def q_def)
    then show ?thesis unfolding k'_def mq_close_locked_def Let_def j_def [symmetric] by (simp only: a b)
  qed
  have Y: "mq_msgs_ok k' = mq_msgs_ok k3" "contents k' = contents k3" unfolding k' by (rule msgs_ok_cong; simp)+
  have P: "pools k2 = pools k" "reclaimed q k2 = reclaimed q k" by (rule pools_cong; simp add: k2_def upd_mq_def)+
  show "pools k' = (if refs k q = {d} \<and> unlinked (mqueue k q) then reclaimed q k else pools k)"
    using mq_msgqfree_ok(11) [OF ok2 q2] P by (simp add: k' k3_def fr_def pools_def)
  show "mq_ok k'" by (rule mq_ok_frame [OF k3f(1)]) (use Y mq_okD(4) [OF k3f(1)] in \<open>simp_all add: k'\<close>)
  show "contents k' = contents k" using Y k3f(2) by simp
  show gk: "g_msgqueues k' = (if refs k q = {d} \<and> unlinked (mqueue k q) then remove1 q (g_msgqueues k) else g_msgqueues k)"
    by (simp add: k' k3f fr_def)
  have gq: "u \<in> set (g_msgqueues k') \<longleftrightarrow> u \<in> set (g_msgqueues k) \<and> \<not> (fr \<and> u = q)" for u
    using msgs_okD(3) [OF mq_okD(4) [OF ok(1)]] by (auto simp: k' k3f)
  have f4: "msgdesq k' = (msgdesq k)(t := remove1 d (msgdesq k t))" "descr k' = descr k" "g_desfree k' = g_desfree k @ [d]"
    by (simp_all add: k' k3f k2f)
  have a4: "queue_of k x \<in> set (g_msgqueues k')" if "x \<in> open_descs k" "x \<noteq> d" for x
    using D(8) [OF that(1)] that unfolding gq fr_def by (auto simp: refs_def)
  have n4: "nconnect (mqueue k' u) = int (card (refs k u - {d}))" if "u \<in> set (g_msgqueues k')" for u
  proof (cases "u = q")
    case True
    then show ?thesis using card dr D(10) [of q] by (simp add: k' k3f k2f card_Diff_singleton of_nat_diff Suc_leI)
  next
    case False
    then have "d \<notin> refs k u" by (auto simp: refs_def q_def)
    then show ?thesis using False D(9) [of u] that gq by (simp add: k' k3f k2f)
  qed
  show "mq_desc_ok k'" "open_descs k' = open_descs k - {d}" using desc_ok_close(1,2) [OF ok(2) d f4 a4 n4] by auto
qed

lemma mq_close_ok:
  assumes ok: "mq_ok k" "mq_desc_ok k" and d: "d \<in> set (msgdesq k (cpu k))" and lk: "lock_free 1 k"
  defines "q \<equiv> queue_of k d"
  obtains k' where "mq_close d k = Some (OK, k')" "mq_ok k'" "mq_desc_ok k'" "open_descs k' = open_descs k - {d}"
    "g_msgqueues k' = (if refs k q = {d} \<and> unlinked (mqueue k q) then remove1 q (g_msgqueues k) else g_msgqueues k)" "contents k' = contents k"
    "pools k' = (if refs k q = {d} \<and> unlinked (mqueue k q) then reclaimed q k else pools k)"
proof -
  note S = mq_okD(2) [OF ok(1)]
  have lk1: "current_regs k \<or> lockcount (tcb k (hd (g_readytorun k))) < MAX_LOCK_COUNT" using lk by (auto simp: lock_free_def)
  obtain k1 where k1: "sched_lock k = Some k1" "sched_ok k1" "calm k k1" by (rule sched_lock_calm [OF S lk1]) blast
  note C = mq_ok_calm [OF ok(1) k1(2,3)] and C' = desc_ok_calm [OF k1(3) ok(2)]
  have d1: "d \<in> set (msgdesq k1 (cpu k))" using d C' by simp
  note L = mq_close_locked_ok [OF C(1) C'(1) d1]
  obtain k' where k': "sched_unlock (mq_close_locked d (cpu k) k1) = Some k'" "sched_ok k'" "calm (mq_close_locked d (cpu k) k1) k'"
    by (rule sched_unlock_calm [OF mq_okD(2) [OF L(1)]]) blast
  note E = mq_ok_calm [OF L(1) k'(2,3)] and E' = desc_ok_calm [OF k'(3) L(2)]
  have "d \<in> open_descs k" using d by (auto simp: open_descs_def)
  then have "d \<noteq> NULL" using desc_okD(2) [OF ok(2)] by (intro notI) simp
  moreover have "list_head (g_readytorun k) = cpu k" using sched_okD(2,3) [OF S] by simp
  ultimately have "mq_close d k = Some (OK, k')" using k'(1) k1(1) by (simp add: mq_close_def)
  then show thesis using that [of k'] E E' L C C' pools_calm [OF k1(3)] pools_calm [OF k'(3)] by (simp add: q_def)
qed

text \<open>The outcome of an open: a new descriptor of the calling task for the queue, or none.\<close>

definition opened :: "addr \<Rightarrow> addr \<Rightarrow> addr \<Rightarrow> nat \<Rightarrow> 'z mq_kernel_scheme \<Rightarrow> 'z mq_kernel_scheme \<Rightarrow> bool" where
  "opened d t q fl k k' \<longleftrightarrow>
     (if d = NULL then open_descs k' = open_descs k
      else d \<notin> open_descs k \<and> open_descs k' = insert d (open_descs k) \<and> descr k' d = \<lparr>des_msgq = q, oflags = fl\<rparr> \<and> d \<in> set (msgdesq k' t))"

text \<open>The memory of a new queue: no queue has it and no task waits there.\<close>

definition queue_fresh :: "addr \<Rightarrow> 'z mq_kernel_scheme \<Rightarrow> bool" where
  "queue_fresh mem k \<longleftrightarrow> mem \<notin> set (g_msgqueues k) \<and> (\<forall>s\<in>{NE, NF}. msg_waits s k mem = [])"

lemma open_existing_ok:
  assumes ok: "mq_ok k" "mq_desc_ok k" and bf: "block_fresh blk k" and q: "q \<in> set (g_msgqueues k)" "card (refs k q) < 32767"
  obtains d k' where "(let (d, k) = mq_descreate t q fl blk k in (d, if d \<noteq> NULL then upd_mq q (nconnect_update (\<lambda>n. s16 (n + 1))) k else k)) = (d, k')"
    "mq_ok k'" "mq_desc_ok k'" "contents k' = contents k" "g_msgqueues k' = g_msgqueues k" "\<And>u. mq_name (mqueue k' u) = mq_name (mqueue k u)"
    "opened d t q fl k k'"
proof (rule mq_descreate_ok [OF ok bf, of t q fl])
  fix d k1
  assume c: "mq_descreate t q fl blk k = (d, k1)" and ok1: "mq_ok k1"
    and f: "mqueue k1 = mqueue k" "g_msgqueues k1 = g_msgqueues k" "contents k1 = contents k"
    and n: "d = NULL \<Longrightarrow> mq_desc_ok k1" 
    and s: "d \<noteq> NULL \<Longrightarrow> d \<notin> open_descs k \<and> descr k1 = (descr k)(d := \<lparr>des_msgq = q, oflags = fl\<rparr>) \<and>
       msgdesq k1 = (msgdesq k)(t := msgdesq k t @ [d]) \<and> distinct (g_desfree k1) \<and> NULL \<notin> set (g_desfree k1) \<and>
       set (g_desfree k1) \<inter> insert d (open_descs k) = {}"
    and z: "d = NULL \<Longrightarrow> open_descs k1 = open_descs k"
  show thesis
  proof (cases "d = NULL")
    case True
    then show thesis using that [of d k1] c ok1 f n z by (simp add: opened_def)
  next
    case False
    note S = s [OF False]
    let ?k = "upd_mq q (nconnect_update (\<lambda>n. s16 (n + 1))) k1"
    have e: "msgdesq ?k = msgdesq k1" "g_desfree ?k = g_desfree k1" by (simp_all add: upd_mq_def)
    have nc: "nconnect (mqueue ?k u) = (if u = q then int (card (refs k q)) + 1 else nconnect (mqueue k u))" for u
      using desc_okD(9) [OF ok(2) q(1)] q(2) by (simp add: f)
    have D: "mq_desc_ok ?k \<and> open_descs ?k = insert d (open_descs k)"
      using desc_ok_open(1,2) [OF ok(2) False, of ?k t q fl] S q(1) nc by (simp add: e f insert_absorb)
    have X: "mq_msgs_ok ?k = mq_msgs_ok k1" "contents ?k = contents k1" by (rule msgs_ok_cong; simp)+
    have "mq_ok ?k"
    proof (rule mq_ok_frame [OF ok1])
      show "mq_msgs_ok ?k" using X mq_okD(4) [OF ok1] by simp
      show "wait_count w (mqueue ?k u) = wait_count w (mqueue k1 u)" for w u by (cases w) simp_all
    qed simp_all
    then show thesis using that [of d ?k] c False D X f S by (simp add: opened_def e)
  qed
qed

lemma all_msgs_snoc:
  assumes "g_msgqueues k' = g_msgqueues k @ [q]" "msglist (mqueue k' q) = []"
    "\<And>u. u \<in> set (g_msgqueues k) \<Longrightarrow> msglist (mqueue k' u) = msglist (mqueue k u)" "g_msgfree k' = g_msgfree k" "g_msgfreeirq k' = g_msgfreeirq k"
  shows "all_msgs k' = all_msgs k"
  using assms by (simp add: all_msgs_def cong: map_cong)

lemma open_new_ok:
  assumes ok: "mq_ok k" "mq_desc_ok k" and bf: "block_fresh blk k" and q: "queue_fresh mem k" "mem \<noteq> NULL"
  obtains d k' where "(let (d, k) = mq_descreate t mem fl blk k in (d, if d \<noteq> NULL
       then k\<lparr>mqueue := (mqueue k)(mem := new_msgq nm attr), g_msgqueues := g_msgqueues k @ [mem]\<rparr> else call_sched_free mem k)) = (d, k')"
    "mq_ok k'" "mq_desc_ok k'" "\<And>u. u \<noteq> mem \<Longrightarrow> contents k' u = contents k u" "d \<noteq> NULL \<Longrightarrow> mqueue k' mem = new_msgq nm attr"
    "g_msgqueues k' = (if d = NULL then g_msgqueues k else g_msgqueues k @ [mem])" "opened d t mem fl k k'"
proof (rule mq_descreate_ok [OF ok bf, of t mem fl])
  fix d k1
  assume c: "mq_descreate t mem fl blk k = (d, k1)" and ok1: "mq_ok k1"
    and f: "mqueue k1 = mqueue k" "g_msgqueues k1 = g_msgqueues k" "contents k1 = contents k" and tl: "tcb k1 = tcb k" "tasklist k1 = tasklist k"
    and n: "d = NULL \<Longrightarrow> mq_desc_ok k1" 
    and s: "d \<noteq> NULL \<Longrightarrow> d \<notin> open_descs k \<and> descr k1 = (descr k)(d := \<lparr>des_msgq = mem, oflags = fl\<rparr>) \<and>
       msgdesq k1 = (msgdesq k)(t := msgdesq k t @ [d]) \<and> distinct (g_desfree k1) \<and> NULL \<notin> set (g_desfree k1) \<and>
       set (g_desfree k1) \<inter> insert d (open_descs k) = {}"
    and z: "d = NULL \<Longrightarrow> open_descs k1 = open_descs k"
  have m: "mem \<notin> set (g_msgqueues k)" "\<And>s. s \<in> {NE, NF} \<Longrightarrow> msg_waits s k1 mem = []"
    using q(1) tl by (auto simp: queue_fresh_def waiting_on_def)
  show thesis
  proof (cases "d = NULL")
    case True
    let ?k = "call_sched_free mem k1"
    have X: "mq_msgs_ok ?k = mq_msgs_ok k1" "contents ?k = contents k1" by (rule msgs_ok_cong; simp)+
    have "mq_ok ?k" by (rule mq_ok_frame [OF ok1]) (use X(1) mq_okD(4) [OF ok1] in simp_all)
    moreover have "mq_desc_ok ?k = mq_desc_ok k1" by (rule desc_ok_cong) simp_all
    moreover have "open_descs ?k = open_descs k1" by (simp add: open_descs_def)
    ultimately show thesis using that [of d ?k] c f n z True X(2) by (simp add: opened_def)
  next
    case False
    note S = s [OF False]
    let ?k = "k1\<lparr>mqueue := (mqueue k1)(mem := new_msgq nm attr), g_msgqueues := g_msgqueues k1 @ [mem]\<rparr>"
    have r0: "refs k mem = {}" using desc_okD(8) [OF ok(2)] m(1) by (auto simp: refs_def)
    have nc: "nconnect (mqueue ?k u) = (if u = mem then int (card (refs k mem)) + 1 else nconnect (mqueue k u))" for u
      using r0 by (simp add: f new_msgq_def)
    have D: "mq_desc_ok ?k \<and> open_descs ?k = insert d (open_descs k)"
      using desc_ok_open(1,2) [OF ok(2) False, of ?k t mem fl] S nc by (simp add: f)
    note M = mq_okD(4) [OF ok1]
    have al: "all_msgs ?k = all_msgs k1" by (rule all_msgs_snoc) (use m(1) in \<open>auto simp: f new_msgq_def\<close>)
    have mo: "mq_msgs_ok ?k"
      unfolding mq_msgs_ok_def al
    proof (intro conjI ballI)
      show "distinct (g_msgqueues ?k)" "NULL \<notin> set (g_msgqueues ?k)" using msgs_okD(3,4) [OF M] m(1) q(2) f by auto
    qed (use msgs_okD [OF M] m(1) in \<open>auto simp: f new_msgq_def split: if_splits\<close>)
    have C: "sched_ok ?k = sched_ok k1" "waiting_on s' fld ?k = waiting_on s' fld k1" "wait_field_ok S' fld ?k = wait_field_ok S' fld k1" "live ?k = live k1" for S' s' fld
      by (rule kernel_cong; simp)+
    have wc: "nwaitnotempty (new_msgq nm attr) = 0" "nwaitnotfull (new_msgq nm attr) = 0" by (simp_all add: new_msgq_def)
    have "mq_waits_ok ?k" using mq_okD(3) [OF ok1] m(2) wc unfolding mq_waits_ok_def C by auto
    moreover have "sem_ok ?k" by (rule sem_ok_keep [OF mq_okD(1) [OF ok1]]) (use mq_okD(2) [OF ok1] C in simp_all)
    ultimately have "mq_ok ?k" using mo by (simp add: mq_ok_def)
    moreover have "contents ?k u = contents k u" if "u \<noteq> mem" for u using that fun_cong [OF f(3), of u] by (simp add: contents_def)
    ultimately show thesis using that [of d ?k] c False D f S by (simp add: opened_def)
  qed
qed


text \<open>\<open>creates\<close> and \<open>reopens\<close>: the two ways in which \<open>mq_open\<close> can succeed.\<close>

definition reopens :: "string \<Rightarrow> nat \<Rightarrow> 'z mq_kernel_scheme \<Rightarrow> bool" where
  "reopens nm fl k \<longleftrightarrow> nm \<noteq> [] \<and> mq_findnamed nm k \<noteq> NULL \<and> (fl AND O_CREAT = 0 \<or> fl AND O_EXCL = 0)"

definition creates :: "string \<Rightarrow> nat \<Rightarrow> addr \<Rightarrow> 'z mq_kernel_scheme \<Rightarrow> bool" where
  "creates nm fl mem k \<longleftrightarrow> nm \<noteq> [] \<and> mq_findnamed nm k = NULL \<and> fl AND O_CREAT \<noteq> 0 \<and> mem \<noteq> NULL"

lemma mq_open_locked_ok:
  fixes k :: "'z mq_kernel_scheme" and nm :: string
  assumes ok: "mq_ok k" "mq_desc_ok k" and bf: "block_fresh blk k" and mf: "queue_fresh mem k"
    and bd: "\<And>q. q \<in> set (g_msgqueues k) \<Longrightarrow> card (refs k q) < 32767"
  defines "q \<equiv> mq_findnamed nm k"
  obtains d k' where "mq_open_locked nm fl attr mem blk t k = (d, k')" "mq_ok k'" "mq_desc_ok k'"
    "\<And>u. u \<in> set (g_msgqueues k) \<Longrightarrow> contents k' u = contents k u"
    "\<not> reopens nm fl k \<Longrightarrow> \<not> creates nm fl mem k \<Longrightarrow> d = NULL" 
    "g_msgqueues k' = (if d \<noteq> NULL \<and> creates nm fl mem k then g_msgqueues k @ [mem] else g_msgqueues k)"
    "opened d t (if reopens nm fl k then q else mem) fl k k'"
    "d \<noteq> NULL \<Longrightarrow> mq_name (mqueue k' (queue_of k' d)) = nm"
proof -
  consider "reopens nm fl k" | "\<not> reopens nm fl k" "creates nm fl mem k" | "\<not> reopens nm fl k" "\<not> creates nm fl mem k" by blast
  then show thesis
  proof cases
    case 1
    have nn: "q \<noteq> NULL" using 1 by (simp add: reopens_def q_def)
    note F = findnamed_mem [OF nn [unfolded q_def], folded q_def]
    have cr: "\<not> creates nm fl mem k" using nn by (simp add: creates_def q_def)
    have m: "mq_open_locked nm fl attr mem blk t k = (let (d, k) = mq_descreate t q fl blk k in (d, if d \<noteq> NULL then upd_mq q (nconnect_update (\<lambda>n. s16 (n + 1))) k else k))"
      using 1 nn unfolding mq_open_locked_def reopens_def q_def [symmetric] by (simp add: Let_def)
    show thesis
    proof (rule open_existing_ok [OF ok bf conjunct1 [OF F] bd [OF conjunct1 [OF F]], of t fl])
      fix d k2
      assume *: "(let (d, k) = mq_descreate t q fl blk k in (d, if d \<noteq> NULL then upd_mq q (nconnect_update (\<lambda>n. s16 (n + 1))) k else k)) = (d, k2)"
        "mq_ok k2" "mq_desc_ok k2" "contents k2 = contents k" "g_msgqueues k2 = g_msgqueues k" "\<And>u. mq_name (mqueue k2 u) = mq_name (mqueue k u)"
        "opened d t q fl k k2"
      have "mq_name (mqueue k2 (queue_of k2 d)) = nm" if "d \<noteq> NULL" using *(6,7) F that by (simp add: opened_def)
      then show thesis using that [of d k2] * m 1 cr by simp
    qed
  next
    case 2
    have z: "mem \<noteq> NULL" using 2 by (simp add: creates_def)
    have m: "mq_open_locked nm fl attr mem blk t k = (let (d, k) = mq_descreate t mem fl blk k in (d, if d \<noteq> NULL
         then k\<lparr>mqueue := (mqueue k)(mem := new_msgq nm attr), g_msgqueues := g_msgqueues k @ [mem]\<rparr> else call_sched_free mem k))"
      using 2 unfolding mq_open_locked_def creates_def by (simp del: call_sched_free_def)
    show thesis
    proof (rule open_new_ok [OF ok bf mf z, of t fl nm attr])
      fix d k2
      assume *: "(let (d, k) = mq_descreate t mem fl blk k in (d, if d \<noteq> NULL
         then k\<lparr>mqueue := (mqueue k)(mem := new_msgq nm attr), g_msgqueues := g_msgqueues k @ [mem]\<rparr> else call_sched_free mem k)) = (d, k2)"
        "mq_ok k2" "mq_desc_ok k2" "\<And>u. u \<noteq> mem \<Longrightarrow> contents k2 u = contents k u" "d \<noteq> NULL \<Longrightarrow> mqueue k2 mem = new_msgq nm attr"
        "g_msgqueues k2 = (if d = NULL then g_msgqueues k else g_msgqueues k @ [mem])" "opened d t mem fl k k2"
      have "mq_name (mqueue k2 (queue_of k2 d)) = nm" if "d \<noteq> NULL" using *(5,7) that by (simp add: opened_def new_msgq_def)
      moreover have "contents k2 u = contents k u" if "u \<in> set (g_msgqueues k)" for u using *(4) that mf unfolding queue_fresh_def by metis
      ultimately show thesis using that [of d k2] * m 2 by simp
    qed
  next
    case 3
    then have "mq_open_locked nm fl attr mem blk t k = (NULL, k)" unfolding mq_open_locked_def reopens_def creates_def by (auto simp: Let_def)
    then show thesis using 3 ok that [of NULL k] by (simp add: opened_def)
  qed
qed

lemma mq_open_ok:
  fixes k :: "'z mq_kernel_scheme" and nm :: string
  assumes ok: "mq_ok k" "mq_desc_ok k" and lk: "lock_free 1 k" and bf: "block_fresh blk k" and mf: "queue_fresh mem k"
    and bd: "\<And>q. q \<in> set (g_msgqueues k) \<Longrightarrow> card (refs k q) < 32767"
  obtains d k' where "mq_open (Some nm) fl attr mem blk k = Some (d, k')" "mq_ok k'" "mq_desc_ok k'"
    "\<And>u. u \<in> set (g_msgqueues k) \<Longrightarrow> contents k' u = contents k u"
    "\<not> reopens nm fl k \<Longrightarrow> \<not> creates nm fl mem k \<Longrightarrow> d = NULL" 
    "g_msgqueues k' = (if d \<noteq> NULL \<and> creates nm fl mem k then g_msgqueues k @ [mem] else g_msgqueues k)"
    "opened d (cpu k) (if reopens nm fl k then mq_findnamed nm k else mem) fl k k'"
    "d \<noteq> NULL \<Longrightarrow> mq_name (mqueue k' (queue_of k' d)) = nm"
proof -
  note S = mq_okD(2) [OF ok(1)]
  have lk1: "current_regs k \<or> lockcount (tcb k (hd (g_readytorun k))) < MAX_LOCK_COUNT" using lk by (auto simp: lock_free_def)
  obtain k1 where k1: "sched_lock k = Some k1" "sched_ok k1" "calm k k1" by (rule sched_lock_calm [OF S lk1]) blast
  note C = mq_ok_calm [OF ok(1) k1(2,3)] and C' = desc_ok_calm [OF k1(3) ok(2)]
  have E: "mq_findnamed nm k1 = mq_findnamed nm k" "block_fresh blk k1" "queue_fresh mem k1" "reopens nm fl k1 = reopens nm fl k"
    "creates nm fl mem k1 = creates nm fl mem k" "\<And>d u k2. opened d (cpu k) u fl k1 k2 = opened d (cpu k) u fl k k2"
    using bf mf C C' by (simp_all add: mq_findnamed_def block_fresh_def queue_fresh_def reopens_def creates_def opened_def)
  have bd1: "card (refs k1 q) < 32767" if "q \<in> set (g_msgqueues k1)" for q using bd that C C' by simp
  obtain d k2 where m: "mq_open_locked nm fl attr mem blk (cpu k) k1 = (d, k2)" "mq_ok k2" "mq_desc_ok k2"
     "\<And>u. u \<in> set (g_msgqueues k1) \<Longrightarrow> contents k2 u = contents k1 u" "\<not> reopens nm fl k1 \<Longrightarrow> \<not> creates nm fl mem k1 \<Longrightarrow> d = NULL"
     "g_msgqueues k2 = (if d \<noteq> NULL \<and> creates nm fl mem k1 then g_msgqueues k1 @ [mem] else g_msgqueues k1)"
     "opened d (cpu k) (if reopens nm fl k1 then mq_findnamed nm k1 else mem) fl k1 k2" "d \<noteq> NULL \<Longrightarrow> mq_name (mqueue k2 (queue_of k2 d)) = nm"
    by (rule mq_open_locked_ok [OF C(1) C'(1) E(2,3) bd1]) (assumption | rule that)+
  obtain k' where k': "sched_unlock k2 = Some k'" "sched_ok k'" "calm k2 k'" by (rule sched_unlock_calm [OF mq_okD(2) [OF m(2)]]) blast
  note D = mq_ok_calm [OF m(2) k'(2,3)] and D' = desc_ok_calm [OF k'(3) m(3)]
  have r: "list_head (g_readytorun k) = cpu k" using sched_okD(2,3) [OF S] by simp
  have "mq_open (Some nm) fl attr mem blk k = Some (d, k')" using m(1) k'(1) k1(1) by (simp add: mq_open_def r)
  moreover have "opened d (cpu k) (if reopens nm fl k then mq_findnamed nm k else mem) fl k k'"
    using m(7) D D' unfolding E by (simp add: opened_def)
  ultimately show thesis using that [of d k'] D D' m C unfolding E by simp
qed

lemma mq_unlink_ok:
  fixes k :: "'z mq_kernel_scheme" and nm :: string
  assumes ok: "mq_ok k" "mq_desc_ok k" and lk: "lock_free 1 k"
  defines "q \<equiv> mq_findnamed nm k"
  obtains k' where "mq_unlink (Some nm) k = Some (if q = NULL then ERROR else OK, k')" "mq_ok k'" "mq_desc_ok k'" "open_descs k' = open_descs k"
    "g_msgqueues k' = (if q \<noteq> NULL \<and> refs k q = {} then remove1 q (g_msgqueues k) else g_msgqueues k)" "contents k' = contents k"
    "q \<noteq> NULL \<Longrightarrow> refs k q \<noteq> {} \<Longrightarrow> unlinked (mqueue k' q)"
    "pools k' = (if q \<noteq> NULL \<and> refs k q = {} then reclaimed q k else pools k)"
proof -
  note S = mq_okD(2) [OF ok(1)] and D = desc_okD [OF ok(2)]
  have lk1: "current_regs k \<or> lockcount (tcb k (hd (g_readytorun k))) < MAX_LOCK_COUNT" using lk by (auto simp: lock_free_def)
  obtain k1 where k1: "sched_lock k = Some k1" "sched_ok k1" "calm k k1" by (rule sched_lock_calm [OF S lk1]) blast
  note C = mq_ok_calm [OF ok(1) k1(2,3)] and C' = desc_ok_calm [OF k1(3) ok(2)]
  have E: "mq_findnamed nm k1 = q" using C by (simp add: q_def mq_findnamed_def)
  define k2 where "k2 = (if q \<noteq> NULL then if nconnect (mqueue k1 q) = 0 then mq_msgqfree q (k1\<lparr>g_msgqueues := remove1 q (g_msgqueues k1)\<rparr>)
      else upd_mq q (unlinked_update (\<lambda>_. True)) k1 else k1)"
  note P = pools_calm [OF k1(3)]
  have U: "pools (upd_mq q (unlinked_update (\<lambda>_. True)) k1) = pools k1" by (rule pools_cong; simp add: upd_mq_def)
  have "mq_ok k2 \<and> mq_desc_ok k2 \<and> open_descs k2 = open_descs k \<and> contents k2 = contents k \<and>
    g_msgqueues k2 = (if q \<noteq> NULL \<and> refs k q = {} then remove1 q (g_msgqueues k) else g_msgqueues k) \<and> (q \<noteq> NULL \<longrightarrow> refs k q \<noteq> {} \<longrightarrow> unlinked (mqueue k2 q)) \<and>
    pools k2 = (if q \<noteq> NULL \<and> refs k q = {} then reclaimed q k else pools k)"
  proof (cases "q = NULL")
    case True
    then show ?thesis using C C' P by (simp add: k2_def)
  next
    case False
    have q: "q \<in> set (g_msgqueues k)" using findnamed_mem [of nm k] False by (simp add: q_def)
    have z: "nconnect (mqueue k1 q) = 0 \<longleftrightarrow> refs k q = {}" using D(9) [OF q] D(10) [of q] C by simp
    show ?thesis
    proof (cases "refs k q = {}")
      case True
      then have k2: "k2 = mq_msgqfree q (k1\<lparr>g_msgqueues := remove1 q (g_msgqueues k1)\<rparr>)" using False z by (simp add: k2_def)
      have q1: "q \<in> set (g_msgqueues k1)" using q C by simp
      note F = mq_msgqfree_ok [OF C(1) q1, folded k2]
      have O: "open_descs k2 = open_descs k" "refs k2 = refs k" by (simp_all add: open_descs_def refs_def F C' C fun_eq_iff)
      have "mq_desc_ok k2"
        unfolding mq_desc_ok_def O
      proof (intro conjI allI ballI impI)
        fix d assume d: "d \<in> open_descs k"
        then have "queue_of k d \<noteq> q" using True by (auto simp: refs_def)
        then show "queue_of k2 d \<in> set (g_msgqueues k2)" using D(8) [OF d] C by (simp add: F)
      next
        fix u assume "u \<in> set (g_msgqueues k2)"
        then have "u \<in> set (g_msgqueues k)" using set_remove1_subset [of q "g_msgqueues k"] C by (auto simp: F)
        then show "nconnect (mqueue k2 u) = int (card (refs k u))" using D(9) [of u] C by (simp add: F)
      qed (use D C' in \<open>simp_all add: F\<close>)
      then show ?thesis using F O C False True P by simp
    next
      case n: False
      then have k2: "k2 = upd_mq q (unlinked_update (\<lambda>_. True)) k1" using False z by (simp add: k2_def)
      have X: "mq_msgs_ok k2 = mq_msgs_ok k1" "contents k2 = contents k1" unfolding k2 by (rule msgs_ok_cong; simp)+
      have "mq_ok k2"
      proof (rule mq_ok_frame [OF C(1)])
        show "mq_msgs_ok k2" using X mq_okD(4) [OF C(1)] by simp
        show "wait_count w (mqueue k2 u) = wait_count w (mqueue k1 u)" for w u by (cases w) (simp_all add: k2)
      qed (simp_all add: k2)
      moreover have "mq_desc_ok k2 = mq_desc_ok k1" by (rule desc_ok_cong) (simp_all add: k2 upd_mq_def)
      moreover have "open_descs k2 = open_descs k1" by (simp add: k2 upd_mq_def open_descs_def)
      ultimately show ?thesis using X C C' False n P U by (simp add: k2)
    qed
  qed
  then have k2: "mq_ok k2" "mq_desc_ok k2" "open_descs k2 = open_descs k" "contents k2 = contents k"
    "g_msgqueues k2 = (if q \<noteq> NULL \<and> refs k q = {} then remove1 q (g_msgqueues k) else g_msgqueues k)" "q \<noteq> NULL \<Longrightarrow> refs k q \<noteq> {} \<Longrightarrow> unlinked (mqueue k2 q)"
    "pools k2 = (if q \<noteq> NULL \<and> refs k q = {} then reclaimed q k else pools k)"
    by blast+
  obtain k' where k': "sched_unlock k2 = Some k'" "sched_ok k'" "calm k2 k'" by (rule sched_unlock_calm [OF mq_okD(2) [OF k2(1)]]) blast
  note G = mq_ok_calm [OF k2(1) k'(2,3)] and G' = desc_ok_calm [OF k'(3) k2(2)]
  have "mq_unlink (Some nm) k = Some (if q = NULL then ERROR else OK, k')"
    using k'(1) unfolding mq_unlink_def k2_def by (cases "q = NULL") (simp_all add: k1(1) E)
  then show thesis using that [of k'] G G' k2 pools_calm(1) [OF k'(3)] by simp
qed

end
