(* ===== verification/Sched_Props.thy ===== *)
theory Sched_Props
  imports Kernel
begin

section \<open>What the scheduler guarantees\<close>

text \<open>
  The properties of the scheduler and of the task management. The witnesses start from
  the idle task at address 1 and create tasks with \<open>thread_create\<close>.
\<close>

definition boot2 :: task_kernel where
  "boot2 = snd (the (thread_create 3 True True 100 (snd (the (thread_create 2 True True 100 (os_start 1))))))"

definition boot3 :: task_kernel where
  "boot3 = snd (the (thread_create 4 True True 100 boot2))"

lemma count_list_distinct: "distinct xs \<Longrightarrow> x \<in> set xs \<Longrightarrow> count_list xs x = 1"
  by (induction xs) (auto simp: count_notin)

lemma reachable_create:
  assumes "reachable k" and "enabled (Create t p) k"
  shows "reachable (snd (the (thread_create t True True p k)))"
proof -
  obtain k' where "exec (Create t p) k = Some k'" using exec_ok [OF reachable_inv] assms by blast
  then show ?thesis using reachable.step [OF assms(1,2)] by auto
qed

lemma boot2_reachable: "reachable boot2"
proof -
  have "enabled (Create 2 100) (os_start 1)" by code_simp
  moreover have "enabled (Create 3 100) (snd (the (thread_create 2 True True 100 (os_start 1))))" by code_simp
  ultimately show ?thesis
    unfolding boot2_def by (intro reachable_create reachable.boot) simp_all
qed

lemma boot3_reachable: "reachable boot3"
proof -
  have "enabled (Create 4 100) boot2" by code_simp
  then show ?thesis unfolding boot3_def by (intro reachable_create boot2_reachable)
qed

lemma boot2_ok: "sched_ok boot2" "pid_ok boot2" "\<not> current_regs boot2"
  using reachable_inv [OF boot2_reachable] by (simp_all add: kernel_inv_def)

lemma boot3_ok: "sched_ok boot3" "pid_ok boot3" "\<not> current_regs boot3"
  using reachable_inv [OF boot3_reachable] by (simp_all add: kernel_inv_def)

lemma boot_lists: "g_readytorun boot2 = [2, 3, 1]" "g_readytorun boot3 = [2, 3, 4, 1]" "g_pendingtasks boot2 = []" "g_pendingtasks boot3 = []"
  by code_simp+

subsection \<open>The state machine\<close>

text \<open>
  C1: In every state the kernel can reach from \<open>os_start\<close> by blocking, unblocking, (un)locking,
  changing priorities, yielding, timer ticks, creating and deleting tasks, the task in the
  processor is the head of the ready-to-run list and has the highest priority of all
  ready-to-run tasks; a task waits among the pending tasks only while the running task has
  preemption disabled; and every task is on the list of its state exactly once.
\<close>

theorem running_highest_priority:
  assumes "reachable k"
  shows "cpu k = hd (g_readytorun k) \<and> state_of k (cpu k) = TSTATE_TASK_RUNNING \<and>
    (\<forall>t. is_ready_state (state_of k t) \<longrightarrow> prio k t \<le> prio k (cpu k)) \<and>
    (g_pendingtasks k \<noteq> [] \<longrightarrow> sched_lockcount k > 0) \<and>
    (\<forall>t. state_of k t \<noteq> TSTATE_TASK_INVALID \<longrightarrow> count_list (tasklist k (list_of (state_of k t))) t = 1)"
proof (intro conjI)
  have ok: "sched_ok k" using reachable_inv [OF assms] by (simp add: kernel_inv_def)
  note L = sched_okD(1) [OF ok]
  note D = tasks_okD [OF lists_okD [OF L]]
  show c: "cpu k = hd (g_readytorun k)" by (rule sched_okD(2) [OF ok])
  show "state_of k (cpu k) = TSTATE_TASK_RUNNING" using c running_iff [OF L] by simp
  show "\<forall>t. is_ready_state (state_of k t) \<longrightarrow> prio k t \<le> prio k (cpu k)"
    using head_max_prio [OF L] ready_iff [OF L] c by auto
  show "g_pendingtasks k \<noteq> [] \<longrightarrow> sched_lockcount k > 0"
    using sched_okD(3,4) [OF ok] by (simp add: sched_lockcount_def)
  show "\<forall>t. state_of k t \<noteq> TSTATE_TASK_INVALID \<longrightarrow> count_list (tasklist k (list_of (state_of k t))) t = 1"
  proof (intro allI impI)
    fix t assume "state_of k t \<noteq> TSTATE_TASK_INVALID"
    then have "t \<in> set (tasklist k (list_of (state_of k t)))" using D(4) by simp
    then show "count_list (tasklist k (list_of (state_of k t))) t = 1"
      using D(3) by (intro count_list_distinct)
  qed
qed

theorem running_highest_priority_witness:
  "cpu boot2 = hd (g_readytorun boot2) \<and> prio boot2 3 \<le> prio boot2 (cpu boot2)"
  using running_highest_priority [OF boot2_reachable] boot_lists(1) ready_iff [OF sched_okD(1) [OF boot2_ok(1)], of 3] by auto

text \<open>
  C2: No operation of the kernel fails in a reachable state: whenever its calling conditions hold, it
  returns (no assertion fails, there is no PANIC and no NULL pointer is followed) and the state
  it returns is reachable, so the next operation finds its invariants too.
\<close>

theorem kernel_never_stuck:
  assumes "reachable k" and "enabled op k"
  shows "\<exists>k'. exec op k = Some k' \<and> reachable k'"
  using exec_ok [OF reachable_inv [OF assms(1)] assms(2)] reachable.step [OF assms] by blast

theorem kernel_never_stuck_witness:
  "\<exists>k'. exec (Block TSTATE_WAIT_SEM) boot2 = Some k' \<and> reachable k'"
  by (rule kernel_never_stuck [OF boot2_reachable]) (simp add: boot_lists is_blocked_state_def)

subsection \<open>Blocking and unblocking\<close>

text \<open>
  C4: \<open>up_block_task\<close> on the running task: the call returns with the task on the list of its new
  state at the place of its priority, the tasks that were pending merged into the
  ready-to-run list, the scheduler invariant intact and the processor given to the new head.
\<close>

theorem up_block_task_spec:
  assumes "sched_ok k" and "length (g_readytorun k) > 1" and "is_blocked_state s" and "prioritized s"
  shows "\<exists>k'. up_block_task (cpu k) s k = Some k' \<and> sched_ok k' \<and> state_of k' (cpu k) = s \<and>
    tasklist k' s = prio_insert (prio k) (cpu k) (tasklist k s) \<and> g_pendingtasks k' = [] \<and>
    g_readytorun k' = fold (prio_insert (prio k)) (g_pendingtasks k) (tl (g_readytorun k)) \<and>
    cpu k' = hd (g_readytorun k')"
proof -
  have t: "cpu k \<in> set (g_readytorun k)" "cpu k \<noteq> last (g_readytorun k)" "remove1 (cpu k) (g_readytorun k) = tl (g_readytorun k)"
    using assms(2) sched_okD(2,3) [OF assms(1)] tasks_okD(3) [OF lists_okD [OF sched_okD(1) [OF assms(1)]], of RTR]
    by (cases "g_readytorun k"; cases "tl (g_readytorun k)"; auto)+
  obtain k' where k': "up_block_task (cpu k) s k = Some k'" "sched_ok k'" "state_of k' (cpu k) = s"
    "tasklist k' = (tasklist k)(s := (if prioritized s then prio_insert (prio k) (cpu k) (tasklist k s) else tasklist k s @ [cpu k]),
       TSTATE_TASK_PENDING := [], RTR := fold (prio_insert (prio k)) (g_pendingtasks k) (remove1 (cpu k) (g_readytorun k)))"
    by (rule up_block_task_ok [OF assms(1) t(1,2) assms(3)])
  moreover have "s \<noteq> RTR" "s \<noteq> TSTATE_TASK_PENDING" using assms(3) by (auto simp: is_blocked_state_def)
  ultimately show ?thesis using assms(4) t(3) sched_okD(2) [OF k'(2)] by simp
qed

theorem up_block_task_spec_witness:
  "\<exists>k'. up_block_task 2 TSTATE_WAIT_SEM boot2 = Some k' \<and> tasklist k' TSTATE_WAIT_SEM = [2] \<and> g_readytorun k' = [3, 1] \<and> cpu k' = 3"
proof -
  have "cpu boot2 = 2" "tasklist boot2 TSTATE_WAIT_SEM = []" by code_simp+
  then show ?thesis
    using up_block_task_spec [OF boot2_ok(1), of TSTATE_WAIT_SEM] by (auto simp: boot_lists is_blocked_state_def prio_insert_def)
qed

text \<open>
  C3: \<open>up_unblock_task\<close>: the woken task runs at once exactly if it has a higher priority than the
  running task and preemption is not disabled; with preemption disabled it becomes pending;
  otherwise it becomes ready-to-run behind the tasks of its own priority, and the running task
  keeps the processor.
\<close>

theorem up_unblock_task_spec:
  assumes "sched_ok k" and "is_blocked_state (state_of k t)"
  shows "\<exists>k'. up_unblock_task t k = Some k' \<and> sched_ok k' \<and>
    (if prio k (cpu k) < prio k t
     then if sched_lockcount k = 0 then cpu k' = t \<and> g_readytorun k' = t # g_readytorun k
          else cpu k' = cpu k \<and> state_of k' t = TSTATE_TASK_PENDING
     else cpu k' = cpu k \<and> g_readytorun k' = prio_insert (prio k) t (g_readytorun k) \<and> state_of k' t = TSTATE_TASK_READYTORUN)"
proof -
  note L = sched_okD(1) [OF assms(1)]
  obtain k' where k': "up_unblock_task t k = Some k'" "sched_ok k'"
    "tasklist k' = (tasklist k)(state_of k t := remove1 t (tasklist k (state_of k t)),
       ready_list k t := prio_insert (prio k) t (tasklist k (ready_list k t)))"
    by (rule up_unblock_task_ok [OF assms])
  have b: "state_of k t \<noteq> RTR" "state_of k t \<noteq> TSTATE_TASK_PENDING" "\<not> is_ready_state (state_of k t)"
    using assms(2) by (auto simp: is_blocked_state_def is_ready_state_def)
  have c: "cpu k = hd (g_readytorun k)" "cpu k' = hd (g_readytorun k')" "g_readytorun k \<noteq> []"
    "sched_lockcount k = lockcount (tcb k (hd (g_readytorun k)))"
    using sched_okD(2,3) [OF assms(1)] sched_okD(2) [OF k'(2)] by (simp_all add: sched_lockcount_def)
  have nt: "t \<noteq> hd (g_readytorun k)" using b(3) ready_iff [OF L, of t] c(3) by auto
  consider (low) "\<not> prio k (cpu k) < prio k t" | (lock) "prio k (cpu k) < prio k t" "sched_lockcount k \<noteq> 0"
    | (high) "prio k (cpu k) < prio k t" "sched_lockcount k = 0" by blast
  then show ?thesis
  proof cases
    case low
    then have r: "g_readytorun k' = prio_insert (prio k) t (g_readytorun k)" using c k'(3) b by (simp add: ready_list_def)
    then have h: "hd (g_readytorun k') = hd (g_readytorun k)" using low c by (simp add: prio_insert_head)
    have "is_ready_state (state_of k' t)" "state_of k' t \<noteq> TSTATE_TASK_RUNNING"
      using ready_iff [OF sched_okD(1) [OF k'(2)], of t] running_iff [OF sched_okD(1) [OF k'(2)], of t] r h nt by auto
    then show ?thesis using low k'(1,2) r h c by (simp add: is_ready_state_def)
  next
    case lock
    then have "g_readytorun k' = g_readytorun k" "t \<in> set (g_pendingtasks k')" using c k'(3) b by (simp_all add: ready_list_def)
    then show ?thesis using lock k'(1,2) c state_by_list [OF sched_okD(1) [OF k'(2)], of t TSTATE_TASK_PENDING] by (simp add: plain_list_def)
  next
    case high
    then have "g_readytorun k' = prio_insert (prio k) t (g_readytorun k)" using c k'(3) b by (simp add: ready_list_def)
    moreover have "prio_insert (prio k) t (g_readytorun k) = t # g_readytorun k"
      using high c by (cases "g_readytorun k") (simp_all add: prio_insert_def)
    ultimately show ?thesis using high k'(1,2) c by simp
  qed
qed

definition blocked3 :: task_kernel where
  "blocked3 = the (up_block_task 2 TSTATE_WAIT_SEM boot2)"

lemma blocked3_ok: "sched_ok blocked3" "state_of blocked3 2 = TSTATE_WAIT_SEM" "cpu blocked3 = 3" "prio blocked3 3 = 100" "prio blocked3 2 = 100"
  "g_readytorun blocked3 = [3, 1]"
proof -
  have "reachable blocked3"
    using reachable.step [OF boot2_reachable, of "Block TSTATE_WAIT_SEM"] exec_ok [OF reachable_inv [OF boot2_reachable], of "Block TSTATE_WAIT_SEM"]
    by (auto simp: blocked3_def boot_lists is_blocked_state_def)
  then show "sched_ok blocked3" using reachable_inv by (auto simp: kernel_inv_def)
qed code_simp+

theorem up_unblock_task_spec_witness:
  "\<exists>k'. up_unblock_task 2 blocked3 = Some k' \<and> cpu k' = 3 \<and> g_readytorun k' = prio_insert (prio blocked3) 2 [3, 1]"
  using up_unblock_task_spec [OF blocked3_ok(1), of 2] blocked3_ok(2-6) by (auto simp: is_blocked_state_def)

text \<open>
  A task that blocks on a queue of waiting tasks and is woken again leaves all these queues as
  they were.
\<close>

theorem block_unblock_roundtrip:
  assumes "sched_ok k" and "sync_queue s" and "length (g_readytorun k) > 1"
  shows "\<exists>k1 k2. up_block_task (hd (g_readytorun k)) s k = Some k1 \<and> up_unblock_task (hd (g_readytorun k)) k1 = Some k2 \<and>
    sched_ok k2 \<and> (\<forall>u. sync_queue u \<longrightarrow> tasklist k2 u = tasklist k u)"
  by (rule wq.block_unblock [OF assms])

theorem block_unblock_roundtrip_witness:
  "\<exists>k1 k2. up_block_task 2 TSTATE_WAIT_SEM boot2 = Some k1 \<and> up_unblock_task 2 k1 = Some k2 \<and> sched_ok k2"
  using block_unblock_roundtrip [OF boot2_ok(1), of TSTATE_WAIT_SEM] by (auto simp: boot_lists sync_queue_def is_blocked_state_def)

subsection \<open>Sharing the processor\<close>

text \<open>The state after \<open>n\<close> calls of \<open>sched_yield\<close>, each by the task then running.\<close>

fun yields :: "nat \<Rightarrow> 'z kernel_scheme \<Rightarrow> 'z kernel_scheme option" where
  "yields 0 k = Some k"
| "yields (Suc n) k = do { (_, k) \<leftarrow> sched_yield k; yields n k }"

lemma yields_rotate:
  assumes "sched_ok k" and "g_pendingtasks k = []" and "length (g_readytorun k) > 1"
    and "g_readytorun k = top_tasks k @ ls"
  shows "\<exists>k'. yields n k = Some k' \<and> sched_ok k' \<and> g_readytorun k' = rotate n (top_tasks k) @ ls"
  using assms
proof (induction n arbitrary: k)
  case (Suc n)
  obtain k1 where k1: "sched_yield k = Some (OK, k1)" "sched_ok k1"
    "tasklist k1 = (tasklist k)(RTR := rotate1 (top_tasks k) @ ls)" "top_tasks k1 = rotate1 (top_tasks k)"
    by (rule sched_yield_ok [OF Suc.prems]) blast
  have ln: "length (rotate1 (top_tasks k) @ ls) > 1" using Suc.prems(3,4) by (metis length_append length_rotate1)
  obtain k' where "yields n k1 = Some k'" "sched_ok k'" "g_readytorun k' = rotate n (top_tasks k1) @ ls"
    using Suc.IH [OF k1(2)] k1(3,4) Suc.prems(2) ln by auto
  then show ?case using k1(1,4) by (simp add: rotate1_rotate_swap [symmetric] flip: rotate_Suc)
qed simp

text \<open>
  C5: Round robin by \<open>sched_yield\<close>: if the tasks of the highest priority, none of which has
  preemption disabled, call \<open>sched_yield\<close> in turn, the processor goes round among them in
  the order of the list, so each of them runs after at most as many calls as there are such
  tasks; the tasks of lower priority keep their places. A caller that holds \<open>sched_lock\<close> is
  not covered: what happens then is \<open>yield_under_lock\<close> below.
\<close>

theorem yield_round_robin:
  assumes "sched_ok k" and "g_pendingtasks k = []" and "length (g_readytorun k) > 1"
    and "list_all (\<lambda>t. lockcount (tcb k t) = 0) (top_tasks k)"
  shows "\<exists>k'. yields n k = Some k' \<and> sched_ok k' \<and> cpu k' = top_tasks k ! (n mod length (top_tasks k)) \<and>
    drop (length (top_tasks k)) (g_readytorun k') = drop (length (top_tasks k)) (g_readytorun k)"
proof -
  let ?ls = "dropWhile (\<lambda>t. prio k t = prio k (hd (g_readytorun k))) (g_readytorun k)"
  have sp: "g_readytorun k = top_tasks k @ ?ls" by (simp add: top_tasks_def)
  have ne: "top_tasks k \<noteq> []" using sched_okD(3) [OF assms(1)] by (cases "g_readytorun k") (auto simp: top_tasks_def)
  obtain k' where k': "yields n k = Some k'" "sched_ok k'" "g_readytorun k' = rotate n (top_tasks k) @ ?ls"
    using yields_rotate [OF assms(1-3) sp] by blast
  have "hd (rotate n (top_tasks k)) = top_tasks k ! (n mod length (top_tasks k))" using hd_rotate_conv_nth [OF ne] .
  then have "cpu k' = top_tasks k ! (n mod length (top_tasks k))" using sched_okD(2) [OF k'(2)] k'(3) ne by simp
  moreover have "drop (length (top_tasks k)) (g_readytorun k') = ?ls" using k'(3) by simp
  moreover have "drop (length (top_tasks k)) (g_readytorun k) = ?ls" by (subst sp) simp
  ultimately show ?thesis using k'(1,2) by simp
qed

theorem yield_round_robin_witness:
  "\<exists>k'. yields 5 boot3 = Some k' \<and> cpu k' = 4"
proof -
  have t: "top_tasks boot3 = [2, 3, 4]" by code_simp
  have "list_all (\<lambda>t. lockcount (tcb boot3 t) = 0) (top_tasks boot3)" by code_simp
  then show ?thesis using yield_round_robin [OF boot3_ok(1) boot_lists(4), of 5] boot_lists(2) t by auto
qed

text \<open>
  \<open>sched_yield\<close> does not look at the lock count: a task that holds \<open>sched_lock\<close> and yields
  hands the processor to the next task of its priority, although it is to be the only task that
  runs until it unlocks or blocks.
\<close>

theorem yield_under_lock:
  "\<exists>k k'. sched_lock boot3 = Some k \<and> cpu k = 2 \<and> sched_lockcount k = 1 \<and>
     sched_yield k = Some (OK, k') \<and> cpu k' = 3 \<and> lockcount (tcb k' 2) = 1"
proof -
  let ?k = "locked boot3"
  have lk: "lockable boot3" "lockcount (tcb boot3 2) = 0" by code_simp+
  have k: "sched_lock boot3 = Some ?k" "sched_ok ?k"
    using sched_lock_ok [OF boot3_ok(1)] lk(1) by (simp_all add: locked_def lockable_def)
  have l: "tasklist ?k = tasklist boot3" and lc: "lockcount (tcb ?k 2) = 1"
    using lk(2) boot_lists(2) by (simp_all add: locked_def)
  have "top_tasks ?k = top_tasks boot3"
    by (auto simp: top_tasks_def locked_def intro: takeWhile_cong)
  also have "\<dots> = [2, 3, 4]" by code_simp
  finally have t: "g_readytorun ?k = top_tasks ?k @ [1]" "top_tasks ?k = [2, 3, 4]" using l boot_lists(2) by simp_all
  obtain k' where k': "sched_yield ?k = Some (OK, k')" "sched_ok k'" "rest k' = rest ?k"
    "tasklist k' = (tasklist ?k)(RTR := rotate1 (top_tasks ?k) @ [1])"
    using sched_yield_ok [OF k(2) _ _ t(1)] l boot_lists(2,4) by auto
  have "cpu ?k = 2" "cpu k' = 3" using sched_okD(2) [OF k(2)] sched_okD(2) [OF k'(2)] k'(4) l t boot_lists(2) by simp_all
  moreover have "lockcount (tcb k' 2) = 1" using rest_eqD(2) [OF k'(3)] lc by simp
  ultimately show ?thesis using k(1) k'(1) lc l boot_lists(2) by (auto simp: sched_lockcount_def)
qed

text \<open>
  Time slices: a tick of the timer moves the running round-robin task behind the other
  tasks of its priority exactly when its slice is used up and preemption is not
  disabled; in all other cases the ready-to-run list is unchanged.
\<close>

theorem timeslice_rotation:
  assumes "sched_ok k"
  shows "\<exists>k'. sched_process_timeslice k = Some k' \<and> sched_ok k' \<and> (\<forall>t. prio k' t = prio k t) \<and>
    g_readytorun k' = (let c = tcb k (cpu k) in
      if round_robin c \<and> timeslice c \<le> 1 \<and> lockcount c = 0
      then rotate1 (top_tasks k) @ drop (length (top_tasks k)) (g_readytorun k) else g_readytorun k)"
proof -
  let ?ls = "dropWhile (\<lambda>t. prio k t = prio k (hd (g_readytorun k))) (g_readytorun k)"
  have sp: "g_readytorun k = top_tasks k @ ?ls" by (simp add: top_tasks_def)
  have ls: "drop (length (top_tasks k)) (g_readytorun k) = ?ls" by (subst sp) simp
  obtain k' where k': "sched_process_timeslice k = Some k'" "sched_ok k'" "rest k' = rest k"
    "tasklist k' = (if slice_over k then (tasklist k)(RTR := rotate1 (top_tasks k) @ ?ls) else tasklist k)"
    by (rule sched_process_timeslice_ok [OF assms sp])
  then show ?thesis
    using rest_eqD(1) [OF k'(3)] sched_okD(2) [OF assms] unfolding ls by (auto simp: slice_over_def Let_def)
qed

theorem timeslice_rotation_witness:
  "\<exists>k'. sched_process_timeslice boot3 = Some k' \<and> sched_ok k' \<and> g_readytorun k' = [2, 3, 4, 1]"
proof -
  have "round_robin (tcb boot3 (cpu boot3)) = False" by code_simp
  then show ?thesis using timeslice_rotation [OF boot3_ok(1)] boot_lists(2) by auto
qed

text \<open>
  C6: Preemption locks: \<open>sched_unlock\<close> that ends the last lock gives the processor to the task of the
  highest priority among the ready and the pending tasks and leaves no task pending; an
  inner \<open>sched_unlock\<close> changes no list.
\<close>

theorem sched_unlock_spec:
  assumes "sched_ok k" and "\<not> current_regs k"
  shows "\<exists>k'. sched_unlock k = Some k' \<and> sched_ok k' \<and>
    (if sched_lockcount k \<le> 1
     then g_pendingtasks k' = [] \<and>
       g_readytorun k' = fold (prio_insert (prio k)) (g_pendingtasks k) (g_readytorun k) \<and>
       (\<forall>t\<in>set (g_readytorun k) \<union> set (g_pendingtasks k). prio k t \<le> prio k (cpu k'))
     else tasklist k' = tasklist k \<and> cpu k' = cpu k \<and> sched_lockcount k' = sched_lockcount k - 1)"
proof -
  let ?r = "hd (g_readytorun k)"
  have sl: "sched_lockcount k = lockcount (tcb k ?r)" using sched_okD(3) [OF assms(1)] by (simp add: sched_lockcount_def)
  obtain k' where k': "sched_unlock k = Some k'" "sched_ok k'" "rest k' = rest (upd_tcb ?r (lockcount_update (\<lambda>n. n - 1)) k)"
    "tasklist k' = (if lockcount (tcb k ?r) \<le> 1
       then (tasklist k)(RTR := fold (prio_insert (prio k)) (g_pendingtasks k) (g_readytorun k), TSTATE_TASK_PENDING := [])
       else tasklist k)"
    by (rule sched_unlock_ok [OF assms])
  have c: "cpu k' = hd (g_readytorun k')" by (rule sched_okD(2) [OF k'(2)])
  have pr: "prio k' t = prio k t" for t using rest_eqD(1) [OF k'(3), of t] by (cases "t = ?r") auto
  show ?thesis
  proof (cases "sched_lockcount k \<le> 1")
    case True
    then have r: "g_readytorun k' = fold (prio_insert (prio k)) (g_pendingtasks k) (g_readytorun k)" using k'(4) sl by simp
    have "prio k t \<le> prio k (cpu k')" if "t \<in> set (g_readytorun k) \<union> set (g_pendingtasks k)" for t
      using head_max_prio [OF sched_okD(1) [OF k'(2)], of t] that r pr c by auto
    then show ?thesis using True k'(1,2,4) sl by simp
  next
    case False
    then have "tasklist k' = tasklist k" using k'(4) sl by simp
    moreover have "sched_lockcount k' = sched_lockcount k - 1"
      using rest_eqD(2) [OF k'(3), of ?r] sl sched_okD(3) [OF assms(1)] \<open>tasklist k' = tasklist k\<close> by (simp add: sched_lockcount_def)
    ultimately show ?thesis using False k'(1,2) c sched_okD(2) [OF assms(1)] by simp
  qed
qed

theorem sched_unlock_spec_witness:
  "\<exists>k'. sched_unlock boot2 = Some k' \<and> sched_ok k' \<and> g_pendingtasks k' = []"
proof -
  have "sched_lockcount boot2 = 0" by code_simp
  then show ?thesis using sched_unlock_spec [OF boot2_ok(1,3)] by auto
qed

text \<open>
  \<open>sched_setpriority\<close> on any task but the idle task: a priority outside the range is refused with
  \<open>EINVAL\<close> and changes nothing else; a valid one is set, the tasks on every waiting list are
  the same, the scheduler invariant holds, and the processor runs a task of the highest priority.
\<close>

theorem sched_setpriority_spec:
  assumes "sched_ok k" and "state_of k t \<noteq> TSTATE_TASK_INVALID" and "t \<noteq> last (g_readytorun k)"
  shows "if p < int SCHED_PRIORITY_MIN \<or> p > int SCHED_PRIORITY_MAX
    then sched_setpriority t p k = Some (ERROR, set_errno EINVAL k)
    else \<exists>k'. sched_setpriority t p k = Some (OK, k') \<and> sched_ok k' \<and>
      (\<forall>u. prio k' u = (if u = t then nat p else prio k u)) \<and>
      (\<forall>s. is_blocked_state s \<longrightarrow> set (tasklist k' s) = set (tasklist k s)) \<and>
      (\<forall>u\<in>set (g_readytorun k'). prio k' u \<le> prio k' (cpu k'))"
proof (cases "p < int SCHED_PRIORITY_MIN \<or> p > int SCHED_PRIORITY_MAX")
  case True
  then show ?thesis using sched_setpriority_error [of p t k] by auto
next
  case False
  then have p: "1 \<le> nat p" "nat p \<le> 255" "int (nat p) = p" by auto
  obtain k' where k': "sched_setpriority t (int (nat p)) k = Some (OK, k')" "sched_ok k'"
    "rest k' = rest (set_prio t (nat p) k)" "same_waiters k k'"
    by (rule sched_setpriority_ok [OF assms p(1,2)])
  have "prio k' u \<le> prio k' (cpu k')" if "u \<in> set (g_readytorun k')" for u
    using head_max_prio [OF sched_okD(1) [OF k'(2)] that] sched_okD(2) [OF k'(2)] by simp
  moreover have "prio k' u = (if u = t then nat p else prio k u)" for u using rest_eqD(1) [OF k'(3), of u] by simp
  ultimately show ?thesis using False k'(1,2,4) unfolding p(3) same_waiters_def by auto
qed

theorem sched_setpriority_spec_witness:
  "\<exists>k'. sched_setpriority 3 150 boot2 = Some (OK, k') \<and> sched_ok k' \<and> prio k' 3 = 150 \<and> prio k' 2 = 100"
proof -
  have "state_of boot2 3 \<noteq> TSTATE_TASK_INVALID" "prio boot2 2 = 100" by code_simp+
  then show ?thesis using sched_setpriority_spec [OF boot2_ok(1), of 3 150] boot_lists(1) by auto
qed

subsection \<open>Creating and deleting tasks\<close>

text \<open>
  C7: Creating a task while a slot of the pid table is free succeeds: the new pid is positive and
  that of no live task, \<open>sched_gettcb\<close> maps it to the new TCB, the task becomes ready (or pending while
  preemption is disabled) and the invariants of the scheduler and of the pid table hold. This
  includes the case that the pid counter wraps around.
\<close>

theorem thread_create_spec:
  assumes "sched_ok k" and "pid_ok k" and "lockable k" and "t \<notin> live k" and "t \<noteq> NULL"
    and "1 \<le> p" and "p \<le> 255" and "\<exists>i<MAX_TASKS. fst (g_pidhash k i) = NULL"
  shows "\<exists>pid k'. thread_create t True True (int p) k = Some (pid, k') \<and> sched_ok k' \<and> pid_ok k' \<and>
    1 \<le> pid \<and> (\<forall>u\<in>live k. tcb_pid k u \<noteq> pid) \<and> sched_gettcb pid k' = t \<and> live k' = insert t (live k)"
proof -
  obtain i where i: "i < MAX_TASKS" "fst (g_pidhash k i) = NULL" using assms(8) by blast
  show ?thesis by (rule thread_create_ok [OF assms(1-7) i]) blast
qed

theorem thread_create_spec_witness:
  "\<exists>pid k'. thread_create 5 True True 10 boot2 = Some (pid, k') \<and> sched_ok k' \<and> sched_gettcb pid k' = 5"
proof -
  have "lockable boot2" "state_of boot2 5 = TSTATE_TASK_INVALID" "fst (g_pidhash boot2 7) = NULL" by code_simp+
  moreover from this have "\<exists>i<MAX_TASKS. fst (g_pidhash boot2 i) = NULL" by (intro exI [of _ 7]) simp
  ultimately show ?thesis using thread_create_spec [OF boot2_ok(1,2), of 5 10] by (auto simp: live_def)
qed

text \<open>
  When all slots of the pid table are taken, no task is created: the call returns \<open>ERROR\<close>, and
  neither a list nor the pid table nor any live task changes.
\<close>

theorem thread_create_no_slot:
  assumes "sched_ok k" and "pid_ok k" and "lockable k" and "t \<notin> live k" and "t \<noteq> NULL"
    and "\<forall>i<MAX_TASKS. fst (g_pidhash k i) \<noteq> NULL"
  shows "\<exists>k'. thread_create t True True p k = Some (ERROR, k') \<and> get_errno k' = ENOMEM \<and> tasklist k' = tasklist k \<and>
    g_pidhash k' = g_pidhash k \<and> live k' = live k \<and> cpu k' = cpu k"
proof -
  obtain q where q: "thread_create t True True p k = Some (ERROR, set_errno ENOMEM
    (upd_tcb t (\<lambda>_. zero_tcb) (k\<lparr>tcb_pid := (tcb_pid k)(t := 0), init_priority := (init_priority k)(t := 0), g_lastpid := q\<rparr>)))"
    by (rule thread_create_full [OF assms(1,3) pid_okD(1,2) [OF assms(2)] assms(4-6)])
  note N = not_live [OF sched_okD(1) [OF assms(1)] assms(4)]
  have h: "list_head (g_readytorun k) = hd (g_readytorun k)" "state_of k (hd (g_readytorun k)) = TSTATE_TASK_RUNNING"
    using sched_okD(3) [OF assms(1)] running_iff [OF sched_okD(1) [OF assms(1)]] by simp_all
  show ?thesis
    unfolding q using h N(1,3) assms(3)
    by (auto simp: set_errno_def get_errno_def Let_def live_def lockable_def zero_tcb_def)
qed

text \<open>A pid table whose slots are all taken: fifteen inactive tasks beside the idle task.\<close>

definition full_table :: task_kernel where
  "full_table = (os_start 1)\<lparr>
     tcb := (\<lambda>t. if t = 1 then zero_tcb\<lparr>task_state := TSTATE_TASK_RUNNING\<rparr>
                  else if 2 \<le> t \<and> t < 17 then zero_tcb\<lparr>sched_priority := 1, task_state := TSTATE_TASK_INACTIVE\<rparr> else zero_tcb),
     tasklist := (\<lambda>_. [])(TSTATE_TASK_READYTORUN := [1], TSTATE_TASK_INACTIVE := [2..<17]),
     g_pidhash := (\<lambda>i. (i + 1, int i)), tcb_pid := (\<lambda>t. int t - 1), g_lastpid := 15\<rparr>"

lemma full_table_ok: "sched_ok full_table" "pid_ok full_table"
proof -
  have st: "state_of full_table t = (if t = 1 then TSTATE_TASK_RUNNING else if 2 \<le> t \<and> t < 17 then TSTATE_TASK_INACTIVE else TSTATE_TASK_INVALID)" for t
    by (simp add: full_table_def zero_tcb_def)
  have pr: "prio full_table t = (if 2 \<le> t \<and> t < 17 then 1 else 0)" for t
    by (simp add: full_table_def zero_tcb_def)
  have tl: "tasklist full_table s = (if s = RTR then [1] else if s = TSTATE_TASK_INACTIVE then [2..<17] else [])" for s
    by (simp add: full_table_def)
  have "tasks_ok (state_of full_table) (prio full_table) (tasklist full_table)"
    unfolding tasks_ok_def
  proof (intro conjI allI)
    fix s t
    show "t \<in> set (tasklist full_table s) \<longleftrightarrow> s \<noteq> TSTATE_TASK_INVALID \<and> list_of (state_of full_table t) = s"
      unfolding st tl by (auto split: if_splits simp del: upt_rec_numeral)
    show "distinct (tasklist full_table s)" unfolding tl by simp
    show "prioritized s \<longrightarrow> prio_sorted (prio full_table) (tasklist full_table s)" unfolding tl by auto
  qed (auto simp: st pr tl)
  then show "sched_ok full_table" by (simp add: sched_ok_def lists_ok_def tl) (simp add: full_table_def os_start_def)
  have "live full_table = {1..16}" by (auto simp: live_def st)
  then show "pid_ok full_table" unfolding pid_ok_def tl
    by (auto simp: full_table_def PIDHASH_mod PID_MAX_def)
qed

theorem thread_create_no_slot_witness:
  "\<exists>k'. thread_create 20 True True 1 full_table = Some (ERROR, k') \<and> get_errno k' = ENOMEM"
proof -
  have "lockable full_table" "state_of full_table 20 = TSTATE_TASK_INVALID" by code_simp+
  moreover have "\<forall>i\<in>set [0..<16]. fst (g_pidhash full_table i) \<noteq> NULL" by code_simp
  ultimately show ?thesis using thread_create_no_slot [OF full_table_ok, of 20 1] by (auto simp: live_def)
qed

text \<open>
  Deleting another task removes it from the list of its state and from the pid table and keeps
  the invariants. The call returns \<open>ERROR\<close>, also when the task has been deleted.
\<close>

theorem task_delete_spec:
  assumes "sched_ok k" and "pid_ok k" and "lockable k" and "sched_gettcb pid k = d" and "d \<noteq> NULL"
    and "pid \<noteq> 0" and "pid \<noteq> tcb_pid k (cpu k)"
  shows "\<exists>k'. task_delete pid k = Some (Some ERROR, k') \<and> sched_ok k' \<and> pid_ok k' \<and> live k' = live k - {d} \<and>
    sched_gettcb pid k' = NULL \<and> (\<forall>s. set (tasklist k' s) = set (tasklist k s) - {d})"
proof -
  note L = sched_okD(1) [OF assms(1)]
  note D = tasks_okD [OF lists_okD [OF L]]
  have h: "list_head (g_readytorun k) = cpu k" "cpu k = hd (g_readytorun k)" using sched_okD(2,3) [OF assms(1)] by simp_all
  have "d \<noteq> hd (g_readytorun k)" using gettcb_live(2) [OF assms(2,4,5)] assms(7) h by auto
  then obtain k' where k': "task_delete_other pid k = Some (ERROR, k')" "sched_ok k'" "pid_ok k'" "live k' = live k - {d}" "sched_gettcb pid k' = NULL"
    "tasklist k' = (tasklist k)(list_of (state_of k d) := remove1 d (tasklist k (list_of (state_of k d))))"
    using task_delete_other_ok [OF assms(1-5) _ assms(6)] by blast
  have "set (tasklist k' s) = set (tasklist k s) - {d}" for s
    using D(3) [of "list_of (state_of k d)"] D(4) [of d s] by (auto simp: k'(6))
  then show ?thesis using k' assms(6,7) h by (simp add: task_delete_def)
qed

theorem task_delete_spec_witness:
  "\<exists>k'. task_delete 2 boot2 = Some (Some ERROR, k') \<and> sched_ok k' \<and> 3 \<notin> set (g_readytorun k')"
proof -
  have "lockable boot2" "sched_gettcb 2 boot2 = 3" "tcb_pid boot2 (cpu boot2) = 1" by code_simp+
  then show ?thesis using task_delete_spec [OF boot2_ok(1,2), of 2 3] by auto
qed

text \<open>
  A task that exits leaves the lists and the pid table, the pending tasks are merged, and the head
  of the ready-to-run list gets the processor. If a pending task takes over, however, the next
  ready task \<open>r\<close> keeps the preemption lock that \<open>task_deletecurrent\<close> took on it: its lock
  count is one higher than before and nothing will decrement it.
\<close>

theorem exit_spec:
  assumes "sched_ok k" and "pid_ok k" and "\<not> current_regs k" and "g_readytorun k = d # r # rs"
    and "lockcount (tcb k r) + 1 < MAX_LOCK_COUNT"
  shows "\<exists>k'. up_exit k = Some k' \<and> sched_ok k' \<and> pid_ok k' \<and> live k' = live k - {d} \<and>
    g_readytorun k' = fold (prio_insert (prio k)) (g_pendingtasks k) (r # rs) \<and> cpu k' = hd (g_readytorun k') \<and>
    (g_pendingtasks k = [] \<longrightarrow> lockcount (tcb k' r) = lockcount (tcb k r)) \<and>
    (cpu k' \<noteq> r \<longrightarrow> lockcount (tcb k' r) = Suc (lockcount (tcb k r)))"
  by (rule up_exit_ok [OF assms]) auto

text \<open>The running task disables preemption and makes a task of a higher priority ready.\<close>

definition pending_kernel :: task_kernel where
  "pending_kernel = snd (the (thread_create 4 True True 200 (the (sched_lock boot2))))"

lemma pending_kernel_ok: "sched_ok pending_kernel" "pid_ok pending_kernel" "\<not> current_regs pending_kernel"
proof -
  have "enabled Lock boot2" "enabled (Create 4 200) (the (sched_lock boot2))" by code_simp+
  then have "reachable pending_kernel"
    unfolding pending_kernel_def using exec_ok [OF reachable_inv [OF boot2_reachable], of Lock] reachable.step [OF boot2_reachable, of Lock]
    by (intro reachable_create) auto
  then show "sched_ok pending_kernel" "pid_ok pending_kernel" "\<not> current_regs pending_kernel"
    using reachable_inv by (auto simp: kernel_inv_def)
qed

theorem exit_spec_witness:
  "\<exists>k'. up_exit pending_kernel = Some k' \<and> sched_ok k' \<and> cpu k' = 4 \<and> lockcount (tcb k' 3) = 1"
proof -
  have e: "g_readytorun pending_kernel = 2 # 3 # [1]" "lockcount (tcb pending_kernel 3) = 0" "g_pendingtasks pending_kernel = [4]"
    "prio pending_kernel 3 = 100" "prio pending_kernel 1 = 0" "prio pending_kernel 4 = 200" by code_simp+
  show ?thesis
    using exit_spec [OF pending_kernel_ok e(1)] e(2-6) by (auto simp: prio_insert_def)
qed

text \<open>
  \<open>task_restart\<close> of the calling task, of pid 0 or of an unknown pid returns \<open>ERROR\<close> with preemption
  still disabled: the lock taken on entry is not released.
\<close>

theorem task_restart_error_keeps_lock:
  assumes "sched_ok k" and "lockable k" and "pid = 0 \<or> pid = tcb_pid k (cpu k) \<or> sched_gettcb pid k = NULL"
  shows "\<exists>k'. task_restart pid k = Some (ERROR, k') \<and> sched_lockcount k' = Suc (sched_lockcount k)"
proof -
  have "list_head (g_readytorun k) = hd (g_readytorun k)" "cpu k = hd (g_readytorun k)" using sched_okD(2,3) [OF assms(1)] by simp_all
  then show ?thesis
    using task_restart_error [OF assms(1,2), of pid] assms(3) by (simp add: locked_def sched_lockcount_def)
qed

theorem task_restart_error_keeps_lock_witness:
  "\<exists>k'. task_restart 9 boot2 = Some (ERROR, k') \<and> sched_lockcount k' = 1"
proof -
  have "lockable boot2" "sched_gettcb 9 boot2 = NULL" "sched_lockcount boot2 = 0" by code_simp+
  then show ?thesis using task_restart_error_keeps_lock [OF boot2_ok(1), of 9] by auto
qed

end
