(* ===== verification/Sem_Props.thy ===== *)
theory Sem_Props
  imports Sem_Ops Sched_Props
begin

section \<open>What the semaphores guarantee\<close>

text \<open>
  The properties of the semaphores. The witnesses use a semaphore at address 500 and the
  tasks 2 and 3 of \<open>boot2\<close>.
\<close>

definition sem_boot :: "int \<Rightarrow> sem_kernel" where
  "sem_boot c = task_kernel.extend boot2 \<lparr>semcount = (\<lambda>_. 0)(500 := c)\<rparr>"

lemma sem_boot_fields:
  "tcb (sem_boot c) = tcb boot2" "tasklist (sem_boot c) = tasklist boot2" "cpu (sem_boot c) = cpu boot2"
  "current_regs (sem_boot c) = current_regs boot2" "semcount (sem_boot c) = (\<lambda>_. 0)(500 := c)"
  by (simp_all add: sem_boot_def task_kernel.defs)

lemma boot2_wait: "tasklist boot2 TSTATE_WAIT_SEM = []" "cpu boot2 = 2" "current_regs boot2 = False"
  by code_simp+

lemma create_live:
  assumes "sched_ok k" "pid_ok k" "lockable k" "t \<notin> live k" "t \<noteq> NULL" "1 \<le> p" "p \<le> 255" "fst (g_pidhash k 9) = NULL"
  shows "live (snd (the (thread_create t True True (int p) k))) = insert t (live k)"
    "sched_ok (snd (the (thread_create t True True (int p) k)))" "pid_ok (snd (the (thread_create t True True (int p) k)))"
  by (rule thread_create_ok [OF assms(1-7) _ assms(8)]; simp)+

lemma boot2_live: "live boot2 = {1, 2, 3}"
proof -
  define k0 where "k0 = os_start 1"
  define k1 where "k1 = snd (the (thread_create 2 True True (int 100) k0))"
  have o: "sched_ok k0" "pid_ok k0" "live k0 = {1}" "lockable k0" unfolding k0_def by (rule os_start_ok, simp)+
  have f: "fst (g_pidhash k0 9) = NULL" unfolding k0_def by code_simp
  have c: "live k1 = insert 2 {1}" "sched_ok k1" "pid_ok k1"
    unfolding k1_def using create_live [OF o(1,2,4) _ _ _ _ f, of 2 100] o(3) by simp_all
  have "lockable (snd (the (thread_create 2 True True 100 (os_start 1))))"
    "fst (g_pidhash (snd (the (thread_create 2 True True 100 (os_start 1)))) 9) = NULL" by code_simp+
  then have g: "lockable k1" "fst (g_pidhash k1 9) = NULL" unfolding k1_def k0_def by simp_all
  have "boot2 = snd (the (thread_create 3 True True (int 100) k1))" by (simp add: boot2_def k1_def k0_def)
  then have "live boot2 = insert 3 {2, 1}"
    using create_live(1) [OF c(2,3) g(1) _ _ _ _ g(2), of 3 100] c(1) by simp
  then show ?thesis by auto
qed

lemma sem_boot_ok:
  assumes "0 \<le> c" "c \<le> SEM_VALUE_MAX"
  shows "sem_ok (sem_boot c)"
proof -
  have ok: "sched_ok (sem_boot c)" using boot2_ok(1) by (simp add: sched_ok_def lists_ok_def sem_boot_fields)
  have "waitsem (tcb boot2 1) = NULL" "waitsem (tcb boot2 2) = NULL" "waitsem (tcb boot2 3) = NULL" by code_simp+
  then have t: "waitsem (tcb boot2 t) = NULL" if "state_of boot2 t \<noteq> TSTATE_TASK_INVALID" for t
  proof -
    have "t \<in> {1, 2, 3}" using that boot2_live by (auto simp: live_def)
    then show ?thesis using \<open>waitsem (tcb boot2 1) = NULL\<close> \<open>waitsem (tcb boot2 2) = NULL\<close> \<open>waitsem (tcb boot2 3) = NULL\<close> by blast
  qed
  have "state_of boot2 u \<noteq> TSTATE_WAIT_SEM" for u
    using sem_waits.in_list [OF ok, of u] boot2_wait(1) by (simp add: sem_boot_fields)
  then show ?thesis
    using ok assms t boot2_wait(1) by (simp add: sem_ok_def sem_boot_fields waiters_def)
qed

subsection \<open>Conservation of the count\<close>

lemma sem_trywait_ok:
  assumes ok: "sem_ok k" and cr: "\<not> current_regs k"
  obtains k' where "sem_trywait sem k = (if sem \<noteq> NULL \<and> semcount k sem > 0 then OK else ERROR, k')" "sem_ok k'"
    "semcount k' = (if sem \<noteq> NULL \<and> semcount k sem > 0 then (semcount k)(sem := semcount k sem - 1) else semcount k)"
    "tasklist k' = tasklist k" "waiters k' = waiters k" "cpu k' = cpu k" "current_regs k' = current_regs k"
    "get_errno k' = (if sem = NULL then EINVAL else EAGAIN)"
proof -
  let ?r = "hd (g_readytorun k)" and ?e = "if sem = NULL then EINVAL else EAGAIN"
  let ?t = "sem \<noteq> NULL \<and> semcount k sem > 0"
  note S = sem_okD(1) [OF ok]
  note e = set_errno_eq [OF S cr]
  define k' where "k' = (if ?t then upd_tcb ?r (\<lambda>c. c\<lparr>pterrno := ?e, waitsem := NULL\<rparr>) (set_count sem (semcount k sem - 1) k)
    else upd_tcb ?r (pterrno_update (\<lambda>_. ?e)) k)"
  have run: "state_of k ?r = TSTATE_TASK_RUNNING" using running_iff [OF sched_okD(1) [OF S]] by simp
  have wn: "waitsem (tcb k ?r) = NULL" using sem_okD(4) [OF ok, of ?r] run by simp
  have e2: "set_errno EAGAIN (set_errno EINVAL k) = upd_tcb ?r (pterrno_update (\<lambda>_. EAGAIN)) k"
  proof -
    have "set_errno EAGAIN (upd_tcb ?r (pterrno_update (\<lambda>_. EINVAL)) k) =
        upd_tcb (hd (g_readytorun (upd_tcb ?r (pterrno_update (\<lambda>_. EINVAL)) k))) (pterrno_update (\<lambda>_. EAGAIN)) (upd_tcb ?r (pterrno_update (\<lambda>_. EINVAL)) k)"
      by (rule set_errno_eq) (use S cr in \<open>simp_all add: sched_ok_upd_tcb\<close>)
    then show ?thesis unfolding e by (simp add: upd_tcb_twice)
  qed
  have h: "list_head (g_readytorun k) = ?r" using sched_okD(3) [OF S] by simp
  have r: "sem_trywait sem k = (if ?t then OK else ERROR, k')"
    unfolding sem_trywait_def Let_def h e2 using e
    by (auto simp: k'_def set_count_upd_tcb upd_tcb_twice)
  have b: "?t \<Longrightarrow> s16 (semcount k sem - 1) = semcount k sem - 1" using sem_count_bounds [OF ok, of sem] by simp
  have f: "semcount k' = (if ?t then (semcount k)(sem := semcount k sem - 1) else semcount k)" "tasklist k' = tasklist k" "cpu k' = cpu k"
    "current_regs k' = current_regs k" "state_of k' t = state_of k t" "waitsem (tcb k' t) = waitsem (tcb k t)" for t
    using b wn by (auto simp: k'_def)
  have ws: "waiters k' = waiters k" by (simp add: waiters_def fun_eq_iff f)
  have sk: "sched_ok k'" using S by (auto simp: k'_def sched_ok_upd_tcb)
  moreover have "length (waiters k' u) = nat (- semcount k' u) \<and> semcount k' u \<le> SEM_VALUE_MAX" if "u \<noteq> NULL" for u
    using sem_okD(2,3) [OF ok that] unfolding ws f by auto
  ultimately have so: "sem_ok k'" using sem_okD(4,5) [OF ok] unfolding sem_ok_def f by auto
  have "get_errno k' = ?e"
    using get_errno_eq [OF sk] f(2,4) cr by (simp add: k'_def)
  with r f ws so that show thesis by blast
qed

text \<open>
  The operations on a semaphore in any order, by whatever task runs, with two counters: the
  number of times the semaphore was granted (taken at once, or given to a woken task) and
  the number of posts. Other operations of the kernel may come between.
\<close>

inductive sem_run :: "addr \<Rightarrow> int \<Rightarrow> sem_kernel \<Rightarrow> nat \<Rightarrow> nat \<Rightarrow> bool" for sem v where
  start: "sem_ok k \<Longrightarrow> semcount k sem = v \<Longrightarrow> 0 \<le> v \<Longrightarrow> sem_run sem v k 0 0"
| take: "sem_run sem v k g p \<Longrightarrow> \<not> current_regs k \<Longrightarrow> sem_wait sem k = Some (Returned OK k') \<Longrightarrow> sem_run sem v k' (g + 1) p"
| block: "sem_run sem v k g p \<Longrightarrow> \<not> current_regs k \<Longrightarrow> length (g_readytorun k) > 1 \<Longrightarrow> length (tasklist k TSTATE_WAIT_SEM) < 32767 \<Longrightarrow>
    sem_wait sem k = Some (Blocked k') \<Longrightarrow> sem_run sem v k' g p"
| tries: "sem_run sem v k g p \<Longrightarrow> \<not> current_regs k \<Longrightarrow> sem_trywait sem k = (r, k') \<Longrightarrow> sem_run sem v k' (if r = OK then g + 1 else g) p"
| post: "sem_run sem v k g p \<Longrightarrow> sem_post sem k = Some (OK, k') \<Longrightarrow> sem_run sem v k' (if waiters k sem = [] then g else g + 1) (p + 1)"
| irq: "sem_run sem v k g p \<Longrightarrow> sem_waitirq t e k = Some k' \<Longrightarrow> sem_run sem v k' g p"
| other: "sem_run sem v k g p \<Longrightarrow> sem_ok k' \<Longrightarrow> semcount k' sem = semcount k sem \<Longrightarrow> sem_run sem v k' g p"

lemma sem_run_inv:
  assumes "sem_run sem v k g p" and s: "sem \<noteq> NULL"
  shows "sem_ok k \<and> v + int p = int g + max 0 (semcount k sem)"
  using assms(1)
proof (induction rule: sem_run.induct)
  case (start k)
  then show ?case by simp
next
  case (take k g p k')
  have c: "semcount k sem > 0"
  proof (rule ccontr)
    assume "\<not> ?thesis"
    then show False using take.hyps(3) s
      by (auto simp: sem_wait_def Let_def set_errno_def split: if_splits)
  qed
  obtain k1 where "sem_wait sem k = Some (Returned OK k1)" "sem_ok k1" "semcount k1 = (semcount k)(sem := semcount k sem - 1)"
    using sem_wait_take [OF _ take.hyps(2) s c] take.IH by blast
  then show ?case using take.hyps(3) take.IH c by simp
next
  case (block k g p k')
  have c: "semcount k sem \<le> 0"
  proof (rule ccontr)
    assume "\<not> ?thesis"
    then show False using block.hyps(5) s by (auto simp: sem_wait_def Let_def set_errno_def split: if_splits)
  qed
  obtain k1 where "sem_wait sem k = Some (Blocked k1)" "sem_ok k1" "semcount k1 = (semcount k)(sem := semcount k sem - 1)"
    using sem_wait_block [OF _ block.hyps(2) s c block.hyps(3,4)] block.IH by blast
  then show ?case using block.hyps(5) block.IH c by simp
next
  case (tries k g p r k')
  obtain k1 where "sem_trywait sem k = (if sem \<noteq> NULL \<and> semcount k sem > 0 then OK else ERROR, k1)" "sem_ok k1"
    "semcount k1 = (if sem \<noteq> NULL \<and> semcount k sem > 0 then (semcount k)(sem := semcount k sem - 1) else semcount k)"
    using sem_trywait_ok [OF _ tries.hyps(2)] tries.IH by blast
  then show ?case using tries.hyps(3) tries.IH s by auto
next
  case (post k g p k')
  then have ok: "sem_ok k" by simp
  show ?case
  proof (cases "waiters k sem")
    case Nil
    have m: "semcount k sem < SEM_VALUE_MAX" using post.hyps(2) s by (auto simp: sem_post_def split: if_splits)
    have "0 \<le> semcount k sem" using sem_okD(2) [OF ok s] Nil by simp
    moreover have "k' = set_count sem (semcount k sem + 1) k" "sem_ok k'"
      using sem_post_free [OF ok s Nil m] post.hyps(2) by simp_all
    ultimately show ?thesis using post.IH Nil m by simp
  next
    case (Cons t ts)
    have "semcount k sem < 0" using sem_okD(2) [OF ok s] Cons by auto
    moreover obtain k1 where "sem_post sem k = Some (OK, k1)" "sem_ok k1" "semcount k1 = (semcount k)(sem := semcount k sem + 1)"
      using sem_post_wake [OF ok s Cons] by blast
    ultimately show ?thesis using post.hyps(2) post.IH Cons by auto
  qed
next
  case (irq k g p t e k')
  then have ok: "sem_ok k" by simp
  show ?case
  proof (cases "state_of k t = TSTATE_WAIT_SEM")
    case True
    let ?s = "waitsem (tcb k t)"
    have "?s \<noteq> NULL" using sem_okD(4) [OF ok, of t] True by simp
    then have "semcount k ?s < 0" using irq.hyps(2) True by (auto simp: sem_waitirq_def Let_def split: if_splits)
    moreover obtain k1 where "sem_waitirq t e k = Some k1" "sem_ok k1" "semcount k1 = (semcount k)(?s := semcount k ?s + 1)"
      using sem_waitirq_ok [OF ok True] by blast
    ultimately show ?thesis using irq.hyps(2) irq.IH by (cases "?s = sem") auto
  next
    case False
    then show ?thesis using irq by (simp add: sem_waitirq_def)
  qed
next
  case (other k g p k')
  then show ?case by simp
qed

text \<open>
  C8: Conservation: whatever tasks and interrupt handlers do with a semaphore of initial value \<open>v\<close> (waiting,
  trying, posting, interrupted or timed-out waits), it is never granted more than \<open>v\<close> times plus the
  number of posts; and as long as a task waits for it, it has been granted exactly that often, so no
  wake-up is lost. With \<open>v = 1\<close> and each holder posting once, this is mutual exclusion.
\<close>

theorem sem_conservation:
  assumes "sem_run sem v k granted posted" and "sem \<noteq> NULL"
  shows "int granted \<le> v + int posted \<and> (waiters k sem \<noteq> [] \<longrightarrow> int granted = v + int posted) \<and>
    (semcount k sem < 0 \<longrightarrow> length (waiters k sem) = nat (- semcount k sem))"
proof -
  note i = sem_run_inv [OF assms]
  then have "length (waiters k sem) = nat (- semcount k sem)" using sem_okD(2) assms(2) by blast
  then show ?thesis using i by (cases "waiters k sem") auto
qed

theorem sem_conservation_witness:
  "\<exists>k. sem_run 500 1 k 1 0 \<and> int 1 \<le> 1 + int 0"
proof -
  have b: "sem_run 500 1 (sem_boot 1) 0 0" by (rule sem_run.start) (simp_all add: sem_boot_ok sem_boot_fields)
  obtain k where "sem_wait 500 (sem_boot 1) = Some (Returned OK k)"
    using sem_wait_take [OF sem_boot_ok [of 1], of 500] by (auto simp: sem_boot_fields boot2_wait)
  from sem_run.take [OF b _ this] have "sem_run 500 1 k 1 0" by (simp add: sem_boot_fields boot2_wait)
  with sem_conservation [OF this] show ?thesis by auto
qed

subsection \<open>The operations\<close>

text \<open>
  \<open>sem_wait\<close>: a positive count is decremented and the caller keeps the processor; otherwise the
  caller blocks, queued behind the waiters of the same and of higher priority, and the processor goes to the
  next ready task. The 16-bit count never wraps.
\<close>

theorem sem_wait_spec:
  assumes "sem_ok k" and "\<not> current_regs k" and "sem \<noteq> NULL" and "length (g_readytorun k) > 1"
    and "length (tasklist k TSTATE_WAIT_SEM) < 32767"
  shows "if semcount k sem > 0
    then \<exists>k'. sem_wait sem k = Some (Returned OK k') \<and> sem_ok k' \<and> cpu k' = cpu k \<and>
      semcount k' sem = semcount k sem - 1 \<and> waiters k' sem = []
    else \<exists>k'. sem_wait sem k = Some (Blocked k') \<and> sem_ok k' \<and> semcount k' sem = semcount k sem - 1 \<and>
      waiters k' sem = prio_insert (prio k) (cpu k) (waiters k sem) \<and> state_of k' (cpu k) = TSTATE_WAIT_SEM \<and>
      cpu k' = hd (fold (prio_insert (prio k)) (g_pendingtasks k) (tl (g_readytorun k)))"
proof (cases "semcount k sem > 0")
  case True
  have "waiters k sem = []" using sem_okD(2) [OF assms(1,3)] True by simp
  moreover obtain k' where "sem_wait sem k = Some (Returned OK k')" "sem_ok k'" "semcount k' = (semcount k)(sem := semcount k sem - 1)"
    "cpu k' = cpu k" "waiters k' = waiters k"
    by (rule sem_wait_take [OF assms(1-3) True])
  ultimately show ?thesis using True by auto
next
  case False
  then have c: "semcount k sem \<le> 0" by simp
  obtain k' where k': "sem_wait sem k = Some (Blocked k')" "sem_ok k'" "semcount k' = (semcount k)(sem := semcount k sem - 1)"
    "waiters k' sem = prio_insert (prio k) (cpu k) (waiters k sem)" "state_of k' (cpu k) = TSTATE_WAIT_SEM"
    "g_readytorun k' = fold (prio_insert (prio k)) (g_pendingtasks k) (tl (g_readytorun k))"
    by (rule sem_wait_block [OF assms(1-3) c assms(4,5)]) blast
  then show ?thesis using False sched_okD(2) [OF sem_okD(1) [OF k'(2)]] by auto
qed

theorem sem_wait_spec_witness:
  "\<exists>k'. sem_wait 500 (sem_boot 0) = Some (Blocked k') \<and> sem_ok k' \<and> waiters k' 500 = [2] \<and> cpu k' = 3"
  using sem_wait_spec [OF sem_boot_ok [of 0], of 500]
  by (auto simp: sem_boot_fields boot2_wait boot_lists waiters_def prio_insert_def)

text \<open>
  \<open>sem_post\<close> with waiting tasks hands the semaphore to the first waiter, one of the highest
  priority among the tasks waiting for this semaphore; it leaves the list of waiters, its errno is untouched (so
  that its \<open>sem_wait\<close> returns \<open>OK\<close>), and no task that waits for another semaphore is affected. The woken
  task runs at once if its priority is higher than the poster's and preemption is enabled.
\<close>

theorem sem_post_spec:
  assumes "sem_ok k" and "sem \<noteq> NULL" and "waiters k sem = t # ts"
  shows "\<exists>k'. sem_post sem k = Some (OK, k') \<and> sem_ok k' \<and> waiters k' sem = ts \<and>
    (\<forall>u\<in>set ts. prio k u \<le> prio k t) \<and> pterrno (tcb k' t) = pterrno (tcb k t) \<and>
    (\<forall>u. u \<noteq> sem \<longrightarrow> u \<noteq> NULL \<longrightarrow> waiters k' u = waiters k u \<and> semcount k' u = semcount k u) \<and>
    semcount k' sem = semcount k sem + 1 \<and>
    (cpu k' = t \<longleftrightarrow> prio k (cpu k) < prio k t \<and> sched_lockcount k = 0)"
proof -
  note S = sem_okD(1) [OF assms(1)]
  obtain k' where k': "sem_post sem k = Some (OK, k')" "sem_ok k'" "semcount k' = (semcount k)(sem := semcount k sem + 1)"
    "waiters k' sem = ts" "\<And>u. u \<noteq> sem \<Longrightarrow> u \<noteq> NULL \<Longrightarrow> waiters k' u = waiters k u" "pterrno (tcb k' t) = pterrno (tcb k t)"
    "tasklist k' = (tasklist k)(TSTATE_WAIT_SEM := remove1 t (tasklist k TSTATE_WAIT_SEM),
       ready_list k t := prio_insert (prio k) t (tasklist k (ready_list k t)))"
    by (rule sem_post_wake [OF assms]) blast
  have "prio_sorted (prio k) (waiters k sem)"
  proof -
    have "prio_sorted pr xs \<Longrightarrow> prio_sorted pr (filter P xs)" for pr P and xs :: "addr list" by (induction xs) auto
    then show ?thesis using sem_waits.sorted [OF S] by (simp add: waiters_def)
  qed
  then have srt: "\<forall>u\<in>set ts. prio k u \<le> prio k t" using assms(3) by simp
  have st: "state_of k t = TSTATE_WAIT_SEM" using waiters_mem [OF S, of t sem] assms(3) by simp
  have nt: "t \<noteq> hd (g_readytorun k)" using running_iff [OF sched_okD(1) [OF S], of t] st by auto
  have c: "cpu k = hd (g_readytorun k)" "cpu k' = hd (g_readytorun k')" "g_readytorun k \<noteq> []"
    "sched_lockcount k = lockcount (tcb k (hd (g_readytorun k)))"
    using sched_okD(2,3) [OF S] sched_okD(2) [OF sem_okD(1) [OF k'(2)]] by (simp_all add: sched_lockcount_def)
  have "cpu k' = t \<longleftrightarrow> prio k (cpu k) < prio k t \<and> sched_lockcount k = 0"
    unfolding c(2) k'(7) using nt c by (auto simp: ready_list_def prio_insert_head)
  then show ?thesis using k' srt by (simp add: fun_upd_apply)
qed

definition sem_blocked :: sem_kernel where
  "sem_blocked = (case the (sem_wait 500 (sem_boot 0)) of Blocked k \<Rightarrow> k)"

lemma sem_blocked_ok: "sem_ok sem_blocked" "waiters sem_blocked 500 = [2]" "semcount sem_blocked 500 = - 1"
  "state_of sem_blocked 2 = TSTATE_WAIT_SEM" "waitsem (tcb sem_blocked 2) = 500"
proof -
  have c: "\<not> current_regs (sem_boot 0)" "length (g_readytorun (sem_boot 0)) > 1" "length (tasklist (sem_boot 0) TSTATE_WAIT_SEM) < 32767" "semcount (sem_boot 0) 500 \<le> 0"
    by (simp_all add: sem_boot_fields boot2_wait boot_lists)
  obtain k' where k': "sem_wait 500 (sem_boot 0) = Some (Blocked k')" "sem_ok k'" "semcount k' = (semcount (sem_boot 0))(500 := semcount (sem_boot 0) 500 - 1)"
    "waiters k' 500 = prio_insert (prio (sem_boot 0)) (cpu (sem_boot 0)) (waiters (sem_boot 0) 500)" "state_of k' (cpu (sem_boot 0)) = TSTATE_WAIT_SEM"
    by (rule sem_wait_block [OF sem_boot_ok [of 0] c(1) _ c(4,2,3)]) auto
  then have e: "sem_blocked = k'" by (simp add: sem_blocked_def)
  show ok: "sem_ok sem_blocked" using k' e by simp
  show w: "waiters sem_blocked 500 = [2]" using k' e by (simp add: waiters_def sem_boot_fields boot2_wait prio_insert_def)
  show "semcount sem_blocked 500 = - 1" using k' e by (simp add: sem_boot_fields)
  show "state_of sem_blocked 2 = TSTATE_WAIT_SEM" "waitsem (tcb sem_blocked 2) = 500"
    using waiters_mem [OF sem_okD(1) [OF ok], of 2 500] w by simp_all
qed

theorem sem_post_spec_witness:
  "\<exists>k'. sem_post 500 sem_blocked = Some (OK, k') \<and> sem_ok k' \<and> waiters k' 500 = []"
  using sem_post_spec [OF sem_blocked_ok(1), of 500] sem_blocked_ok(2) by auto

text \<open>
  C9: A signal or a timeout ends a wait: the count taken by the waiting task is given back, the task leaves
  the waiters, gets the error code as its errno and becomes ready; when it runs with this errno, its
  \<open>sem_wait\<close> returns \<open>ERROR\<close>. A timeout for a task that no longer waits changes nothing.
\<close>

theorem sem_waitirq_spec:
  assumes "sem_ok k" and "e = EINTR \<or> e = ETIMEDOUT"
  shows "\<exists>k'. sem_waitirq t e k = Some k' \<and> sem_ok k' \<and>
    (if state_of k t = TSTATE_WAIT_SEM
     then let sem = waitsem (tcb k t) in
       semcount k' sem = semcount k sem + 1 \<and> waiters k' sem = remove1 t (waiters k sem) \<and> pterrno (tcb k' t) = e \<and>
       (is_ready_state (state_of k' t) \<or> state_of k' t = TSTATE_TASK_PENDING) \<and>
       (\<forall>k2 :: sem_kernel. sched_ok k2 \<longrightarrow> \<not> current_regs k2 \<longrightarrow> cpu k2 = t \<longrightarrow> pterrno (tcb k2 t) = e \<longrightarrow> fst (sem_wait_resume k2) = ERROR)
     else k' = k)"
proof (cases "state_of k t = TSTATE_WAIT_SEM")
  case True
  let ?s = "waitsem (tcb k t)"
  obtain k' where k': "sem_waitirq t e k = Some k'" "sem_ok k'" "semcount k' = (semcount k)(?s := semcount k ?s + 1)"
    "waiters k' ?s = remove1 t (waiters k ?s)" "pterrno (tcb k' t) = e"
    "tasklist k' = (tasklist k)(TSTATE_WAIT_SEM := remove1 t (tasklist k TSTATE_WAIT_SEM),
       ready_list k t := prio_insert (prio k) t (tasklist k (ready_list k t)))"
    by (rule sem_waitirq_ok [OF assms(1) True]) blast
  note L' = sched_okD(1) [OF sem_okD(1) [OF k'(2)]]
  have "t \<in> set (tasklist k' (ready_list k t))" by (simp add: k'(6))
  then have "is_ready_state (state_of k' t) \<or> state_of k' t = TSTATE_TASK_PENDING"
    using ready_iff [OF L', of t] state_by_list [OF L', of t TSTATE_TASK_PENDING] by (auto simp: ready_list_def plain_list_def split: if_splits)
  moreover have "fst (sem_wait_resume k2) = ERROR" if "sched_ok k2" "\<not> current_regs k2" "cpu k2 = t" "pterrno (tcb k2 t) = e" for k2 :: sem_kernel
    using that assms(2) get_errno_eq [OF that(1,2)] sched_okD(2) [OF that(1)] by (auto simp: sem_wait_resume_def)
  ultimately show ?thesis using True k' by (auto simp: Let_def)
next
  case False
  then show ?thesis using assms(1) by (simp add: sem_waitirq_def)
qed

theorem sem_waitirq_spec_witness:
  "\<exists>k'. sem_waitirq 2 EINTR sem_blocked = Some k' \<and> sem_ok k' \<and> semcount k' 500 = 0 \<and> pterrno (tcb k' 2) = EINTR"
  using sem_waitirq_spec [OF sem_blocked_ok(1), of EINTR 2] sem_blocked_ok(3-5) by (auto simp: Let_def)

text \<open>
  Deleting a task that waits for a semaphore leaves the count of the semaphore behind: in this run
  the only waiter is deleted, the count stays \<open>-1\<close> with no task waiting, and a later \<open>sem_post\<close> only brings it to
  0, so that the semaphore is still not available.
\<close>

theorem delete_waiter_loses_count:
  "let k = (case the (sem_wait 500 (sem_boot 0)) of Blocked k \<Rightarrow> k);
       k1 = snd (the (task_delete_other 1 k));
       k2 = snd (the (sem_post 500 k1))
   in waiters k 500 = [2] \<and> waiters k1 500 = [] \<and> semcount k1 500 = - 1 \<and> semcount k2 500 = 0 \<and>
      fst (sem_trywait 500 k2) = ERROR"
  by code_simp

end
