(* ===== verification/Mq_Props.thy ===== *)
theory Mq_Props
  imports Mq_Open Sem_Props
begin

section \<open>What the message queues guarantee\<close>

text \<open>
  The properties of the message queues. The witnesses use the tasks 2 and 3 of \<open>boot2\<close>, a queue at address 600 with
  the descriptor 650 for both tasks, and two preallocated messages.
\<close>

definition mq_boot :: mq_kernel where
  "mq_boot = sem_kernel.extend (sem_boot 0)
     \<lparr>mqueue = (\<lambda>_. new_msgq [] None), message = (\<lambda>_. \<lparr>msg_type = MQ_ALLOC_FIXED, priority = 0, mail = []\<rparr>),
      descr = (\<lambda>_. \<lparr>des_msgq = 600, oflags = 3\<rparr>), msgdesq = (\<lambda>_. []), g_msgqueues = [600],
      g_msgfree = [700, 740], g_msgfreeirq = [], g_desfree = [], sched_freed = []\<rparr>"

lemma mq_boot_fields:
  "tcb mq_boot = tcb boot2" "tasklist mq_boot = tasklist boot2" "cpu mq_boot = cpu boot2" "current_regs mq_boot = current_regs boot2"
  "semcount mq_boot = (\<lambda>_. 0)(500 := 0)" "mqueue mq_boot = (\<lambda>_. new_msgq [] None)" "g_msgqueues mq_boot = [600]" "g_msgfree mq_boot = [700, 740]"
  "g_msgfreeirq mq_boot = []" "message mq_boot = (\<lambda>_. \<lparr>msg_type = MQ_ALLOC_FIXED, priority = 0, mail = []\<rparr>)"
  "descr mq_boot = (\<lambda>_. \<lparr>des_msgq = 600, oflags = 3\<rparr>)"
  by (simp_all add: mq_boot_def sem_kernel.defs sem_boot_fields)

lemma boot2_mq: "tasklist boot2 NE = []" "tasklist boot2 NF = []" "msgwaitq (tcb boot2 1) = NULL" "msgwaitq (tcb boot2 2) = NULL"
  "msgwaitq (tcb boot2 3) = NULL" "lockcount (tcb boot2 2) = 0" "length (g_readytorun boot2) = 3" "hd (g_readytorun boot2) = 2"
  by code_simp+

lemma mq_boot_ok: "mq_ok mq_boot"
proof -
  note C = kernel_cong [of mq_boot boot2, OF mq_boot_fields(1-3)]
  have S: "sched_ok mq_boot" using boot2_ok(1) by (simp add: sched_ok_def lists_ok_def mq_boot_fields)
  have L: "live mq_boot = {1, 2, 3}" using boot2_live by (simp add: live_def mq_boot_fields)
  have st: "state_of mq_boot t \<notin> {NE, NF, TSTATE_WAIT_SEM}" for t
    using not_empty.in_list [OF S, of t] not_full.in_list [OF S, of t] sem_waits.in_list [OF S, of t] boot2_mq boot2_wait by (auto simp: mq_boot_fields)
  have "wait_field_ok {NE, NF} msgwaitq mq_boot"
    unfolding wait_field_ok_def
  proof (intro allI impI)
    fix t assume "state_of mq_boot t \<noteq> TSTATE_TASK_INVALID"
    then have "t \<in> {1, 2, 3}" using L by (auto simp: live_def)
    then have "msgwaitq (tcb mq_boot t) = NULL" using boot2_mq by (auto simp: mq_boot_fields)
    then show "msgwaitq (tcb mq_boot t) \<noteq> NULL \<longleftrightarrow> state_of mq_boot t \<in> {NE, NF}" using st [of t] by auto
  qed
  then have "mq_waits_ok mq_boot" by (auto simp: mq_waits_ok_def mq_boot_fields boot2_mq waiting_on_def new_msgq_def)
  moreover have "mq_msgs_ok mq_boot" by (simp add: mq_msgs_ok_def all_msgs_def mq_boot_fields new_msgq_def)
  moreover have "sem_ok mq_boot"
    using sem_boot_ok [of 0] S by (simp add: sem_ok_def waiters_def mq_boot_fields sem_boot_fields)
  ultimately show ?thesis by (simp add: mq_ok_def)
qed

lemma mq_boot_send: "can_send 650 [1] 5 mq_boot" "can_receive 650 32 mq_boot" "msg_available 0 mq_boot" "lock_free 2 mq_boot" "lock_free 1 mq_boot"
  "contents mq_boot 600 = []" "msg_waits NE mq_boot 600 = []" "queue_of mq_boot 650 = 600"
  by (simp_all add: can_send_def can_receive_def msg_available_def lock_free_def mq_boot_fields boot2_mq O_WROK_def O_RDOK_def
      all_msgs_def new_msgq_def contents_def waiting_on_def)

subsection \<open>First in, first out within a priority\<close>

lemma prio_sorted_map: "prio_sorted (\<lambda>x. g (f x)) xs \<Longrightarrow> prio_sorted g (map f xs)"
  by (simp add: prio_sorted_def rev_map comp_def)

lemma contents_sorted:
  assumes "mq_ok k" "q \<in> set (g_msgqueues k)"
  shows "prio_sorted fst (contents k q)"
  using msgs_okD(9) [OF mq_okD(4) [OF assms(1)] assms(2)] unfolding contents_def by (intro prio_sorted_map) simp

lemma filter_prio_fifo:
  assumes "prio_sorted fst xs"
  shows "filter (\<lambda>m. fst m = p) (prio_insert fst x xs) = filter (\<lambda>m. fst m = p) (xs @ [x])"
proof -
  have "prio_insert fst x (filter (\<lambda>m. fst m = fst x) xs @ []) = filter (\<lambda>m. fst m = fst x) xs @ [x]"
    by (rule prio_insert_eqI) auto
  then show ?thesis using filter_prio_insert [OF assms, of "\<lambda>m. fst m = p" x] by auto
qed

text \<open>
  The traffic of one queue: the messages sent to it and received from it so far, by any tasks and interrupt
  handlers, directly or after a wait. Steps that block or fail, sends to other queues, interrupted waits and
  the other operations of the kernel keep the contents of the queue (\<open>other\<close>), as the specifications below show.
\<close>

inductive mq_run :: "addr \<Rightarrow> mq_kernel \<Rightarrow> (nat \<times> byte list) list \<Rightarrow> (nat \<times> byte list) list \<Rightarrow> bool" for q where
  start: "mq_ok k \<Longrightarrow> q \<in> set (g_msgqueues k) \<Longrightarrow> contents k q = [] \<Longrightarrow> mq_run q k [] []"
| send: "mq_run q k ss rs \<Longrightarrow> can_send mqdes d p k \<Longrightarrow> queue_of k mqdes = q \<Longrightarrow> msg_available mem k \<Longrightarrow> nmsgs (mqueue k q) < 32767 \<Longrightarrow>
    lock_free 2 k \<Longrightarrow> mq_send mqdes (Some d) p mem k = Some (Returned OK k') \<Longrightarrow> mq_run q k' (ss @ [(nat p, d)]) rs"
| resend: "mq_run q k ss rs \<Longrightarrow> can_send mqdes d p k \<Longrightarrow> queue_of k mqdes = q \<Longrightarrow> msg_available mem k \<Longrightarrow> nmsgs (mqueue k q) < 32767 \<Longrightarrow>
    lock_free 1 k \<Longrightarrow> mq_send_resume mqdes d (nat p) mem k = Some (Returned OK k') \<Longrightarrow> mq_run q k' (ss @ [(nat p, d)]) rs"
| receive: "mq_run q k ss rs \<Longrightarrow> can_receive mqdes len k \<Longrightarrow> queue_of k mqdes = q \<Longrightarrow> lock_free 1 k \<Longrightarrow>
    mq_receive mqdes True len k = Some (Received d p k') \<Longrightarrow> mq_run q k' ss (rs @ [(p, d)])"
| rereceive: "mq_run q k ss rs \<Longrightarrow> can_receive mqdes len k \<Longrightarrow> queue_of k mqdes = q \<Longrightarrow>
    mq_receive_resume mqdes k = Some (Received d p k') \<Longrightarrow> mq_run q k' ss (rs @ [(p, d)])"
| other: "mq_run q k ss rs \<Longrightarrow> mq_ok k' \<Longrightarrow> q \<in> set (g_msgqueues k') \<Longrightarrow> contents k' q = contents k q \<Longrightarrow> mq_run q k' ss rs"

lemma waitsend_full_not_ok:
  assumes "\<not> nmsgs (mqueue k (queue_of k mqdes)) < maxmsgs (mqueue k (queue_of k mqdes))"
  shows "do { r \<leftarrow> mq_waitsend mqdes k; mq_send_finish mqdes d p mem r } \<noteq> Some (Returned OK k')"
    and "do { r \<leftarrow> mq_waitsend_resume mqdes k; mq_send_finish mqdes d p mem r } \<noteq> Some (Returned OK k')"
  using assms
  by (auto simp: mq_waitsend_def mq_waitsend_resume_def mq_waitsend_block_def mq_send_finish_def Let_def bind_eq_Some_conv split: if_splits)

lemma mq_send_room:
  assumes "mq_ok k" "can_send mqdes d p k" "lock_free 2 k" "mq_send mqdes (Some d) p mem k = Some (Returned OK k')"
  shows "current_regs k \<or> nmsgs (mqueue k (queue_of k mqdes)) < maxmsgs (mqueue k (queue_of k mqdes))"
proof (rule ccontr)
  assume n: "\<not> ?thesis"
  have lk: "current_regs k \<or> lockcount (tcb k (hd (g_readytorun k))) < MAX_LOCK_COUNT" using assms(3) by (auto simp: lock_free_def)
  obtain k1 where k1: "sched_lock k = Some k1" "sched_ok k1" "calm k k1"
    by (rule sched_lock_calm [OF mq_okD(2) [OF assms(1)] lk]) blast
  note C = mq_ok_calm [OF assms(1) k1(2,3)]
  have v: "mq_verifysend mqdes (Some d) p k = (OK, k)" by (rule mq_verifysend_ok) (use assms(2) in \<open>simp_all add: can_send_def\<close>)
  have "mq_send mqdes (Some d) p mem k = (do { r \<leftarrow> mq_waitsend mqdes k1; mq_send_finish mqdes d (nat p) mem r })"
    using k1(1) v n by (simp add: mq_send_def C)
  moreover have "\<not> nmsgs (mqueue k1 (queue_of k1 mqdes)) < maxmsgs (mqueue k1 (queue_of k1 mqdes))" using n by (simp add: C)
  ultimately show False using waitsend_full_not_ok(1) assms(4) by metis
qed

lemma receive_nonempty:
  assumes "contents k (queue_of k mqdes) = []"
  shows "do { r \<leftarrow> mq_waitreceive mqdes k; mq_receive_finish mqdes r } \<noteq> Some (Received d p k')"
    and "do { r \<leftarrow> mq_waitreceive_resume mqdes k; mq_receive_finish mqdes r } \<noteq> Some (Received d p k')"
  using assms
  by (auto simp: contents_def mq_waitreceive_def mq_waitreceive_resume_def mq_receive_finish_def Let_def bind_eq_Some_conv split: if_splits)

lemma mq_receive_eq:
  assumes "mq_ok k" "can_receive mqdes len k" "lock_free 1 k"
  obtains k1 where "sched_ok k1" "calm k k1" "mq_receive mqdes True len k = (do { r \<leftarrow> mq_waitreceive mqdes k1; mq_receive_finish mqdes r })"
proof -
  have lk: "current_regs k \<or> lockcount (tcb k (hd (g_readytorun k))) < MAX_LOCK_COUNT" using assms(3) by (auto simp: lock_free_def)
  obtain k1 where k1: "sched_lock k = Some k1" "sched_ok k1" "calm k k1"
    by (rule sched_lock_calm [OF mq_okD(2) [OF assms(1)] lk]) blast
  then show thesis using that [of k1] mq_verifyreceive_ok [OF assms(2)] by (simp add: mq_receive_def)
qed

lemma mq_run_inv:
  assumes "mq_run q k ss rs"
  shows "mq_ok k \<and> q \<in> set (g_msgqueues k) \<and> (\<forall>p. filter (\<lambda>m. fst m = p) ss = filter (\<lambda>m. fst m = p) (rs @ contents k q)) \<and>
    mset ss = mset rs + mset (contents k q)"
  using assms
proof (induction rule: mq_run.induct)
  case (send k ss rs mqdes d p mem k')
  then have ok: "mq_ok k" and q: "q \<in> set (g_msgqueues k)" by simp_all
  obtain k1 where "mq_send mqdes (Some d) p mem k = Some (Returned OK k1)" "mq_ok k1" "contents k1 q = prio_insert fst (nat p, d) (contents k q)"
    "g_msgqueues k1 = g_msgqueues k"
    using mq_send_deliver [OF ok send.hyps(2) send.hyps(3) [symmetric] send.hyps(4)] mq_send_room [OF ok send.hyps(2,6,7)] send.hyps(3,5,6) by metis
  then show ?case
    using send.hyps(7) send.IH filter_prio_fifo [OF contents_sorted [OF ok q]] by (simp add: mset_prio_insert)
next
  case (resend k ss rs mqdes d p mem k')
  then have ok: "mq_ok k" and q: "q \<in> set (g_msgqueues k)" by simp_all
  have "\<not> nmsgs (mqueue k q) \<ge> maxmsgs (mqueue k q)" "get_errno k = OK"
    using waitsend_full_not_ok(2) [of k mqdes d "nat p" mem k'] resend.hyps(3,7)
    by (auto simp: mq_send_resume_def mq_waitsend_resume_def mq_send_finish_def Let_def bind_eq_Some_conv split: if_splits)
  then have r: "mq_send_finish mqdes d (nat p) mem (Returned OK k) = Some (Returned OK k')"
    using resend.hyps(3,7) by (simp add: mq_send_resume_def mq_waitsend_resume_def Let_def)
  obtain k1 where "mq_send_finish mqdes d (nat p) mem (Returned OK k) = Some (Returned OK k1)" "mq_ok k1"
    "contents k1 q = prio_insert fst (nat p, d) (contents k q)" "g_msgqueues k1 = g_msgqueues k"
  proof (rule mq_send_finish_ok [OF ok resend.hyps(4) resend.hyps(3) [symmetric] q _ resend.hyps(5,6), of d "nat p"])
    show "length d \<le> maxmsgsize (mqueue k q)" using resend.hyps(2,3) by (auto simp: can_send_def)
  qed (rule that)
  then show ?case
    using r resend.IH filter_prio_fifo [OF contents_sorted [OF ok q]] by (simp add: mset_prio_insert)
next
  case (receive k ss rs mqdes len d p k')
  then have ok: "mq_ok k" and q: "q \<in> set (g_msgqueues k)" by simp_all
  obtain k1 where k1: "sched_ok k1" "calm k k1" "mq_receive mqdes True len k = (do { r \<leftarrow> mq_waitreceive mqdes k1; mq_receive_finish mqdes r })"
    by (rule mq_receive_eq [OF ok receive.hyps(2,4)])
  note C = mq_ok_calm [OF ok k1(1,2)]
  have "contents k q \<noteq> []" using receive_nonempty(1) [of k1 mqdes d p k'] receive.hyps(3,5) k1(3) by (auto simp: C)
  then obtain p1 d1 xs where c: "contents k q = (p1, d1) # xs" by (cases "contents k q") auto
  obtain k2 where "mq_receive mqdes True len k = Some (Received d1 p1 k2)" "mq_ok k2" "contents k2 = (contents k)(q := xs)" "g_msgqueues k2 = g_msgqueues k"
    by (rule mq_receive_deliver [OF ok receive.hyps(2) receive.hyps(3) [symmetric] c receive.hyps(4)]) (rule that, assumption+)
  then show ?case using receive.hyps(5) receive.IH c by simp
next
  case (rereceive k ss rs mqdes len d p k')
  then have ok: "mq_ok k" and q: "q \<in> set (g_msgqueues k)" by simp_all
  have "contents k q \<noteq> []" using receive_nonempty(2) [of k mqdes d p k'] rereceive.hyps(3,4) by (auto simp: mq_receive_resume_def)
  then obtain p1 d1 xs where c: "contents k q = (p1, d1) # xs" by (cases "contents k q") auto
  have "get_errno k = OK" using rereceive.hyps(4)
    by (auto simp: mq_receive_resume_def mq_waitreceive_resume_def mq_receive_finish_def bind_eq_Some_conv split: if_splits)
  then have r: "(do { r \<leftarrow> mq_waitreceive mqdes k; mq_receive_finish mqdes r }) = Some (Received d p k')"
    using rereceive.hyps(4) by (simp add: mq_receive_resume_def mq_waitreceive_resume_def)
  obtain k2 where "(do { r \<leftarrow> mq_waitreceive mqdes k; mq_receive_finish mqdes r }) = Some (Received d1 p1 k2)" "mq_ok k2"
    "contents k2 = (contents k)(q := xs)" "g_msgqueues k2 = g_msgqueues k"
    by (rule mq_receive_rest [OF ok rereceive.hyps(3) [symmetric] q c]) (rule that, assumption+)
  then show ?case using r rereceive.IH c by simp
qed simp_all

text \<open>
  C10: A message queue neither loses nor invents nor duplicates messages, and keeps the order of messages of the
  same priority: after any traffic, for every priority the messages sent are those received followed by those still in the
  queue, in the order they were sent, whoever sent and received them.
\<close>

theorem mq_fifo:
  assumes "mq_run q k sent received"
  shows "(\<forall>p. filter (\<lambda>m. fst m = p) sent = filter (\<lambda>m. fst m = p) received @ filter (\<lambda>m. fst m = p) (contents k q)) \<and>
    mset sent = mset received + mset (contents k q)"
  using mq_run_inv [OF assms] by simp

theorem mq_fifo_witness:
  "\<exists>k. mq_run 600 k [(5, [1])] [] \<and> contents k 600 = [(5, [1])]"
proof -
  obtain k' where k': "mq_send 650 (Some [1]) 5 0 mq_boot = Some (Returned OK k')"
    by (rule mq_send_deliver [OF mq_boot_ok mq_boot_send(1) mq_boot_send(8) [symmetric] mq_boot_send(3) _ _ mq_boot_send(4)])
       (simp_all add: mq_boot_fields new_msgq_def)
  have "mq_run 600 mq_boot [] []" by (rule mq_run.start) (simp_all add: mq_boot_ok mq_boot_send mq_boot_fields)
  from mq_run.send [OF this mq_boot_send(1,8,3) _ mq_boot_send(4) k'] have r: "mq_run 600 k' [(5, [1])] []"
    by (simp add: mq_boot_fields new_msgq_def)
  have "mset (contents k' 600) = {#(5, [1])#}" using mq_fifo [OF r] by simp
  then have "contents k' 600 = [(5, [1])]" by simp
  with r show ?thesis by blast
qed

subsection \<open>The operations\<close>

text \<open>
  C11: \<open>mq_send\<close> by a task or interrupt handler with a valid descriptor and message: with room in the queue (or from
  an interrupt) the message is inserted behind those of the same and of higher priority, no other queue changes, and the
  first of the tasks waiting for a message, one of the highest priority, becomes ready; with a full queue the call fails at
  once if the descriptor is non-blocking, and otherwise the caller is queued by priority.
\<close>

theorem mq_send_spec:
  assumes "mq_ok k" and "can_send mqdes d p k" and "q = queue_of k mqdes" and "msg_available mem k" and "lock_free 2 k"
    and "nmsgs (mqueue k q) < 32767" and "length (g_readytorun k) > 1" and "length (tasklist k NF) < 32767"
  shows "if current_regs k \<or> nmsgs (mqueue k q) < maxmsgs (mqueue k q)
    then \<exists>k'. mq_send mqdes (Some d) p mem k = Some (Returned OK k') \<and> mq_ok k' \<and>
      contents k' q = prio_insert fst (nat p, d) (contents k q) \<and> (\<forall>u\<in>set (g_msgqueues k). u \<noteq> q \<longrightarrow> contents k' u = contents k u) \<and>
      msg_waits NE k' q = tl (msg_waits NE k q) \<and>
      (\<forall>t ts. msg_waits NE k q = t # ts \<longrightarrow> (\<forall>u\<in>set ts. prio k u \<le> prio k t) \<and> (is_ready_state (state_of k' t) \<or> state_of k' t = TSTATE_TASK_PENDING))
    else if oflags (descr k mqdes) AND O_NONBLOCK \<noteq> 0
    then \<exists>k'. mq_send mqdes (Some d) p mem k = Some (Returned ERROR k') \<and> mq_ok k' \<and> contents k' = contents k
    else \<exists>k'. mq_send mqdes (Some d) p mem k = Some (Blocked k') \<and> mq_ok k' \<and> contents k' = contents k \<and>
      msg_waits NF k' q = prio_insert (prio k) (cpu k) (msg_waits NF k q) \<and> state_of k' (cpu k) = NF"
proof (cases "current_regs k \<or> nmsgs (mqueue k q) < maxmsgs (mqueue k q)")
  case True
  have q0: "q \<noteq> NULL" using assms(2,3) msgs_okD(4) [OF mq_okD(4) [OF assms(1)]] by (intro notI) (simp add: can_send_def)
  obtain k' where k': "mq_send mqdes (Some d) p mem k = Some (Returned OK k')" "mq_ok k'"
    "contents k' q = prio_insert fst (nat p, d) (contents k q)" "\<And>u. u \<in> set (g_msgqueues k) \<Longrightarrow> u \<noteq> q \<Longrightarrow> contents k' u = contents k u"
    "\<And>u. u \<noteq> NULL \<Longrightarrow> msg_waits NE k' u = (if u = q then tl (msg_waits NE k q) else msg_waits NE k u)"
    "\<And>t ts. msg_waits NE k q = t # ts \<Longrightarrow> is_ready_state (state_of k' t) \<or> state_of k' t = TSTATE_TASK_PENDING"
    by (rule mq_send_deliver [OF assms(1-4) True assms(6,5)]) (rule that, (assumption | simp)+)
  have "\<forall>u\<in>set ts. prio k u \<le> prio k t" if "msg_waits NE k q = t # ts" for t ts
    using not_empty.sorted_waiting [OF mq_okD(2) [OF assms(1)], of q] that by simp
  then show ?thesis using True k' q0 by auto
next
  case False
  have "lock_free 1 k" using assms(5) by (auto simp: lock_free_def)
  note F = mq_send_full [OF assms(1-3) _ _ this, of mem]
  show ?thesis
  proof (cases "oflags (descr k mqdes) AND O_NONBLOCK = 0")
    case True
    obtain k' where "mq_send mqdes (Some d) p mem k = Some (Blocked k')" "mq_ok k'" "contents k' = contents k"
      "msg_waits NF k' = (msg_waits NF k)(q := prio_insert (prio k) (cpu k) (msg_waits NF k q))" "state_of k' (cpu k) = NF"
      using F(2) [OF _ _ True assms(7,8)] False by auto
    then show ?thesis using False True by auto
  next
    case nb: False
    obtain k' where "mq_send mqdes (Some d) p mem k = Some (Returned ERROR k')" "mq_ok k'" "contents k' = contents k"
      using F(1) [OF _ _ nb] False by auto
    then show ?thesis using False nb by auto
  qed
qed

theorem mq_send_spec_witness:
  "\<exists>k'. mq_send 650 (Some [1]) 5 0 mq_boot = Some (Returned OK k') \<and> mq_ok k' \<and> contents k' 600 = [(5, [1])]"
  using mq_send_spec [OF mq_boot_ok mq_boot_send(1) _ mq_boot_send(3,4), of 600]
  by (auto simp: mq_boot_send mq_boot_fields new_msgq_def boot2_mq prio_insert_def)

text \<open>
  \<open>mq_receive\<close> by a task with a valid descriptor and a large enough buffer: from a queue that is not empty it returns the first
  message, which has the highest priority and fits the buffer, and wakes the first task waiting for room; with an empty queue it
  fails at once if the descriptor is non-blocking, and otherwise the caller is queued by priority. A
  task that was woken by a send continues (\<open>mq_receive_resume\<close>) with the first message of the queue.
\<close>

theorem mq_receive_spec:
  assumes "mq_ok k" and "can_receive mqdes len k" and "q = queue_of k mqdes" and "lock_free 1 k" and "\<not> current_regs k"
    and "length (g_readytorun k) > 1" and "length (tasklist k NE) < 32767"
  shows "case contents k q of
      (p, d) # xs \<Rightarrow> (\<forall>(p', _)\<in>set xs. p' \<le> p) \<and> length d \<le> len \<and>
        (\<exists>k'. mq_receive mqdes True len k = Some (Received d p k') \<and> mq_ok k' \<and> contents k' = (contents k)(q := xs) \<and>
          msg_waits NF k' q = tl (msg_waits NF k q) \<and>
          (\<forall>t ts. msg_waits NF k q = t # ts \<longrightarrow> is_ready_state (state_of k' t) \<or> state_of k' t = TSTATE_TASK_PENDING)) \<and>
        (pterrno (tcb k (cpu k)) = OK \<longrightarrow> (\<exists>k'. mq_receive_resume mqdes k = Some (Received d p k') \<and> contents k' = (contents k)(q := xs)))
    | [] \<Rightarrow> if oflags (descr k mqdes) AND O_NONBLOCK \<noteq> 0
        then \<exists>k'. mq_receive mqdes True len k = Some (Failed k') \<and> mq_ok k' \<and> contents k' = contents k
        else \<exists>k'. mq_receive mqdes True len k = Some (Waiting k') \<and> mq_ok k' \<and> contents k' = contents k \<and>
          msg_waits NE k' q = prio_insert (prio k) (cpu k) (msg_waits NE k q) \<and> state_of k' (cpu k) = NE"
proof (cases "contents k q")
  case Nil
  note E = mq_receive_empty [OF assms(1-3) Nil assms(4,5)]
  show ?thesis
  proof (cases "oflags (descr k mqdes) AND O_NONBLOCK = 0")
    case True
    obtain k' where "mq_receive mqdes True len k = Some (Waiting k')" "mq_ok k'" "contents k' = contents k"
      "msg_waits NE k' = (msg_waits NE k)(q := prio_insert (prio k) (cpu k) (msg_waits NE k q))" "state_of k' (cpu k) = NE"
      using E(2) [OF True assms(6,7)] by auto
    then show ?thesis using Nil True by auto
  next
    case False
    obtain k' where "mq_receive mqdes True len k = Some (Failed k')" "mq_ok k'" "contents k' = contents k"
      using E(1) [OF False] by auto
    then show ?thesis using Nil False by auto
  qed
next
  case (Cons pd xs)
  obtain p d where pd: "pd = (p, d)" by (cases pd)
  note c = Cons [unfolded pd]
  have q: "q \<in> set (g_msgqueues k)" using assms(2,3) by (simp add: can_receive_def)
  have q0: "q \<noteq> NULL" using q msgs_okD(4) [OF mq_okD(4) [OF assms(1)]] by (intro notI) simp
  obtain k' where k': "mq_receive mqdes True len k = Some (Received d p k')" "mq_ok k'" "contents k' = (contents k)(q := xs)" "length d \<le> len"
    "\<And>u. u \<noteq> NULL \<Longrightarrow> msg_waits NF k' u = (if u = q then tl (msg_waits NF k q) else msg_waits NF k u)"
    "\<And>t ts. msg_waits NF k q = t # ts \<Longrightarrow> is_ready_state (state_of k' t) \<or> state_of k' t = TSTATE_TASK_PENDING"
    by (rule mq_receive_deliver [OF assms(1-3) c assms(4)]) (rule that, (assumption | simp)+)
  obtain k2 where k2: "(do { r \<leftarrow> mq_waitreceive mqdes k; mq_receive_finish mqdes r }) = Some (Received d p k2)" "contents k2 = (contents k)(q := xs)"
    by (rule mq_receive_rest [OF assms(1,3) q c]) (rule that, assumption+)
  have "mq_receive_resume mqdes k = Some (Received d p k2)" if "pterrno (tcb k (cpu k)) = OK"
    using that k2(1) get_errno_eq [OF mq_okD(2) [OF assms(1)] assms(5)] sched_okD(2) [OF mq_okD(2) [OF assms(1)]]
    by (simp add: mq_receive_resume_def mq_waitreceive_resume_def)
  moreover have "\<forall>(p', _)\<in>set xs. p' \<le> p" using contents_sorted [OF assms(1) q] c by auto
  ultimately show ?thesis using c k' k2(2) q0 by auto
qed

definition mq_sent :: mq_kernel where
  "mq_sent = (case the (mq_send 650 (Some [1]) 5 0 mq_boot) of Returned _ k \<Rightarrow> k)"

lemma mq_sent_ok: "mq_ok mq_sent" "contents mq_sent 600 = [(5, [1])]" "descr mq_sent = descr mq_boot" "g_msgqueues mq_sent = [600]"
proof -
  obtain k' where k': "mq_send 650 (Some [1]) 5 0 mq_boot = Some (Returned OK k')" "mq_ok k'" "contents k' 600 = prio_insert fst (nat 5, [1]) (contents mq_boot 600)"
    "descr k' = descr mq_boot" "g_msgqueues k' = g_msgqueues mq_boot"
    by (rule mq_send_deliver [OF mq_boot_ok mq_boot_send(1) mq_boot_send(8) [symmetric] mq_boot_send(3) _ _ mq_boot_send(4)])
       (simp_all add: mq_boot_fields new_msgq_def)
  then have "mq_sent = k'" by (simp add: mq_sent_def)
  then show "mq_ok mq_sent" "contents mq_sent 600 = [(5, [1])]" "descr mq_sent = descr mq_boot" "g_msgqueues mq_sent = [600]"
    using k' by (simp_all add: mq_boot_send prio_insert_def mq_boot_fields)
qed

lemma mq_sent_state: "maxmsgsize (mqueue mq_sent 600) = 32" "lockcount (tcb mq_sent (hd (g_readytorun mq_sent))) = 0"
  "current_regs mq_sent = False" "length (g_readytorun mq_sent) = 3" "tasklist mq_sent NE = []"
  by code_simp+

theorem mq_receive_spec_witness:
  "\<exists>k'. mq_receive 650 True 32 mq_sent = Some (Received [1] 5 k') \<and> mq_ok k' \<and> contents k' 600 = []"
proof -
  have "can_receive 650 32 mq_sent" "lock_free 1 mq_sent" "queue_of mq_sent 650 = 600"
    using mq_sent_ok mq_sent_state by (simp_all add: can_receive_def lock_free_def mq_boot_fields O_RDOK_def)
  from mq_receive_spec [OF mq_sent_ok(1) this(1) this(3) [symmetric] this(2)] show ?thesis
    using mq_sent_ok mq_sent_state by auto
qed

text \<open>
  A timeout or signal ends the wait of a task for a message queue: it leaves the waiting tasks, the counter of the queue
  is corrected, the error becomes its errno and the task is ready; when it runs with this errno, its \<open>mq_receive\<close> or \<open>mq_send\<close>
  fails without touching the queue. A timeout for a task that no longer waits changes nothing.
\<close>

theorem mq_waitirq_spec:
  assumes "mq_ok k" and "e \<noteq> OK"
  shows "if state_of k t \<in> {NE, NF}
    then \<exists>k'. mq_waitirq t e k = Some k' \<and> mq_ok k' \<and> contents k' = contents k \<and> pterrno (tcb k' t) = e \<and>
      msg_waits (state_of k t) k' (msgwaitq (tcb k t)) = remove1 t (msg_waits (state_of k t) k (msgwaitq (tcb k t))) \<and>
      (is_ready_state (state_of k' t) \<or> state_of k' t = TSTATE_TASK_PENDING) \<and>
      (\<forall>k2 :: mq_kernel. mq_ok k2 \<and> \<not> current_regs k2 \<and> cpu k2 = t \<and> pterrno (tcb k2 t) = e \<longrightarrow>
        (\<exists>k3. mq_receive_resume mqdes k2 = Some (Failed k3) \<and> mq_ok k3 \<and> contents k3 = contents k2) \<and>
        (\<exists>k3. mq_send_resume mqdes d p mem k2 = Some (Returned ERROR k3) \<and> mq_ok k3 \<and> contents k3 = contents k2))
    else mq_waitirq t e k = Some k"
proof (cases "state_of k t \<in> {NE, NF}")
  case True
  obtain k' where k': "mq_waitirq t e k = Some k'" "mq_ok k'" "contents k' = contents k" "pterrno (tcb k' t) = e"
    "msg_waits (state_of k t) k' (msgwaitq (tcb k t)) = remove1 t (msg_waits (state_of k t) k (msgwaitq (tcb k t)))"
    "is_ready_state (state_of k' t) \<or> state_of k' t = TSTATE_TASK_PENDING"
    by (rule mq_waitirq_ok [OF assms(1) True refl, of e]) (rule that, assumption+)
  have R: "(\<exists>k3. mq_receive_resume mqdes k2 = Some (Failed k3) \<and> mq_ok k3 \<and> contents k3 = contents k2) \<and>
        (\<exists>k3. mq_send_resume mqdes d p mem k2 = Some (Returned ERROR k3) \<and> mq_ok k3 \<and> contents k3 = contents k2)"
    if "mq_ok k2 \<and> \<not> current_regs k2 \<and> cpu k2 = t \<and> pterrno (tcb k2 t) = e" for k2 :: mq_kernel
  proof -
    have k2: "mq_ok k2" "\<not> current_regs k2" using that by auto
    have en: "get_errno k2 \<noteq> OK" using get_errno_eq [OF mq_okD(2) [OF k2(1)] k2(2)] sched_okD(2) [OF mq_okD(2) [OF k2(1)]] that assms(2) by simp
    obtain k3 where k3: "sched_unlock k2 = Some k3" "sched_ok k3" "calm k2 k3" by (rule sched_unlock_calm [OF mq_okD(2) [OF k2(1)]]) blast
    show ?thesis
      using k3(1) mq_ok_calm(1,2) [OF k2(1) k3(2,3)] en
      by (simp add: mq_receive_resume_def mq_waitreceive_resume_def mq_receive_finish_def mq_send_resume_def mq_waitsend_resume_def mq_send_finish_def Let_def)
  qed
  show ?thesis using True k' R by simp
next
  case False
  then show ?thesis by (simp add: mq_waitirq_def)
qed

definition mq_waiting :: mq_kernel where
  "mq_waiting = (case the (mq_receive 650 True 32 mq_boot) of Waiting k \<Rightarrow> k)"

lemma mq_waiting_ok: "mq_ok mq_waiting" "state_of mq_waiting 2 = NE"
proof -
  have "oflags (descr mq_boot 650) AND O_NONBLOCK = 0" by (simp add: mq_boot_fields O_NONBLOCK_def)
  then obtain k' where k': "mq_receive 650 True 32 mq_boot = Some (Waiting k')" "mq_ok k'" "state_of k' 2 = NE"
    using mq_receive_empty(2) [OF mq_boot_ok mq_boot_send(2) mq_boot_send(8) [symmetric] mq_boot_send(6,5)]
    by (auto simp: mq_boot_fields boot2_mq boot2_wait)
  then have "mq_waiting = k'" by (simp add: mq_waiting_def)
  then show "mq_ok mq_waiting" "state_of mq_waiting 2 = NE" using k' by simp_all
qed

theorem mq_waitirq_spec_witness:
  "\<exists>k'. mq_waitirq 2 ETIMEDOUT mq_waiting = Some k' \<and> mq_ok k' \<and> pterrno (tcb k' 2) = ETIMEDOUT"
  using mq_waitirq_spec [OF mq_waiting_ok(1), of ETIMEDOUT 2 650 "[]" 0 0] mq_waiting_ok(2) by auto

text \<open>
  Deleting a task that waits for a message leaves the counter of the queue behind: in this run the only receiver is
  deleted, the counter stays 1 with no task waiting, and the next \<open>mq_send\<close> to the queue ends in the PANIC of \<open>mq_dosend\<close>.
\<close>

theorem delete_receiver_panics:
  "let k1 = snd (the (task_delete_other 1 mq_waiting))
   in msg_waits NE mq_waiting 600 = [2] \<and> msg_waits NE k1 600 = [] \<and> nwaitnotempty (mqueue k1 600) = 1 \<and>
      Option.is_none (mq_send 650 (Some [1]) 5 0 k1) \<and> \<not> Option.is_none (mq_send 650 (Some [1]) 5 0 mq_waiting)"
  by code_simp

subsection \<open>Descriptors\<close>

text \<open>
  \<open>mq_open\<close> by name: a queue of that name is opened unless O_CREAT and O_EXCL ask for a new one; with O_CREAT a missing queue
  is created, empty and behind the others; the caller gets a descriptor no task had, with its open flags, for a queue of that name.
  In every other case, and when no descriptor is left, the call returns the error. It always returns with the reference
  counts right and the messages of all queues unchanged.
\<close>

theorem mq_open_spec:
  assumes "mq_ok k" and "mq_desc_ok k" and "lock_free 1 k" and "block_fresh blk k" and "queue_fresh mem k"
    and "\<forall>q\<in>set (g_msgqueues k). card (refs k q) < 32767"
  shows "\<exists>d k'. mq_open (Some nm) fl attr mem blk k = Some (d, k') \<and> mq_ok k' \<and> mq_desc_ok k' \<and>
    (\<forall>u\<in>set (g_msgqueues k). contents k' u = contents k u) \<and>
    (if d = NULL then open_descs k' = open_descs k \<and> g_msgqueues k' = g_msgqueues k
     else (reopens nm fl k \<or> creates nm fl mem k) \<and> d \<notin> open_descs k \<and> open_descs k' = insert d (open_descs k) \<and>
       d \<in> set (msgdesq k' (cpu k)) \<and> oflags (descr k' d) = fl \<and> mq_name (mqueue k' (queue_of k' d)) = nm \<and>
       (if reopens nm fl k then queue_of k' d = mq_findnamed nm k \<and> g_msgqueues k' = g_msgqueues k
        else queue_of k' d = mem \<and> g_msgqueues k' = g_msgqueues k @ [mem]))"
proof -
  obtain d k' where *: "mq_open (Some nm) fl attr mem blk k = Some (d, k')" "mq_ok k'" "mq_desc_ok k'"
    "\<And>u. u \<in> set (g_msgqueues k) \<Longrightarrow> contents k' u = contents k u" "\<not> reopens nm fl k \<Longrightarrow> \<not> creates nm fl mem k \<Longrightarrow> d = NULL"
    "g_msgqueues k' = (if d \<noteq> NULL \<and> creates nm fl mem k then g_msgqueues k @ [mem] else g_msgqueues k)"
    "opened d (cpu k) (if reopens nm fl k then mq_findnamed nm k else mem) fl k k'" "d \<noteq> NULL \<Longrightarrow> mq_name (mqueue k' (queue_of k' d)) = nm"
    by (rule mq_open_ok [OF assms(1-5) bspec [OF assms(6)]]) (assumption | rule that)+
  have "reopens nm fl k \<Longrightarrow> \<not> creates nm fl mem k" by (simp add: reopens_def creates_def)
  with * show ?thesis by (intro exI [of _ d] exI [of _ k']) (auto simp: opened_def)
qed

text \<open>The state of \<open>mq_boot\<close> without a queue.\<close>

definition mq_empty :: mq_kernel where
  "mq_empty = mq_boot\<lparr>g_msgqueues := []\<rparr>"

lemma mq_empty_ok: "mq_ok mq_empty" "mq_desc_ok mq_empty" "lock_free 1 mq_empty" "block_fresh 800 mq_empty" "queue_fresh 600 mq_empty"
  "g_msgqueues mq_empty = []" "cpu mq_empty = 2"
proof -
  let ?k = "mq_msgqfree 600 (mq_boot\<lparr>g_msgqueues := remove1 600 (g_msgqueues mq_boot)\<rparr>)"
  have e: "mq_empty = ?k\<lparr>sched_freed := []\<rparr>"
    by (simp add: mq_empty_def mq_msgqfree_def mq_boot_fields new_msgq_def) (simp add: mq_boot_def sem_kernel.defs)
  have ok: "mq_ok ?k" using mq_msgqfree_ok(1) [OF mq_boot_ok, of 600] by (simp add: mq_boot_fields)
  have "mq_msgs_ok mq_empty = mq_msgs_ok ?k" unfolding e by (rule msgs_ok_cong; simp)
  then show "mq_ok mq_empty" using mq_okD(4) [OF ok] by (intro mq_ok_frame [OF ok]) (simp_all add: e)
  have F: "msgdesq mq_empty = (\<lambda>_. [])" "g_desfree mq_empty = []" by (simp_all add: mq_empty_def mq_boot_def sem_kernel.defs)
  then show "mq_desc_ok mq_empty" "block_fresh 800 mq_empty"
    by (simp_all add: mq_desc_ok_def open_descs_def block_fresh_def mq_empty_def)
  show "lock_free 1 mq_empty" using mq_boot_send(5) by (simp add: lock_free_def mq_empty_def)
  show "queue_fresh 600 mq_empty" by (simp add: queue_fresh_def mq_empty_def waiting_on_def mq_boot_fields boot2_mq)
  show "g_msgqueues mq_empty = []" by (simp add: mq_empty_def)
  show "cpu mq_empty = 2" by (simp add: mq_empty_def mq_boot_fields) code_simp
qed

lemma mq_empty_creates: "creates ''q'' 7 600 mq_empty" "\<not> reopens ''q'' 7 mq_empty"
  by (simp_all add: creates_def reopens_def mq_findnamed_def mq_empty_ok O_CREAT_def)

definition mq_opened :: mq_kernel where
  "mq_opened = snd (the (mq_open (Some ''q'') 7 None 600 800 mq_empty))"

lemma mq_open_empty: "fst (the (mq_open (Some ''q'') 7 None 600 800 mq_empty)) = 804"
  by code_simp

theorem mq_open_spec_witness:
  "mq_open (Some ''q'') 7 None 600 800 mq_empty = Some (804, mq_opened) \<and> mq_ok mq_opened \<and> mq_desc_ok mq_opened \<and>
   open_descs mq_opened = {804} \<and> queue_of mq_opened 804 = 600 \<and> g_msgqueues mq_opened = [600] \<and> 804 \<in> set (msgdesq mq_opened 2)"
proof -
  have "open_descs mq_empty = {}" by (simp add: open_descs_def mq_empty_def mq_boot_def sem_kernel.defs)
  then show ?thesis
    using mq_open_spec [OF mq_empty_ok(1-5), of "''q''" 7 None] mq_open_empty mq_empty_creates
    by (auto simp: mq_empty_ok mq_opened_def)
qed

text \<open>
  C12: The life of a message queue. Closing a descriptor of the running task releases just this descriptor, and the queue goes away exactly if it
  was unlinked and the descriptor was the last one; unlinking a queue removes it at once if no descriptor is open and
  otherwise marks it. When the queue goes away, and only then, each of its messages returns to the free list it came from or, if
  it was allocated dynamically, to \<open>sched_free\<close>, and the queue itself is given to \<open>sched_free\<close>, once and last. No open descriptor is
  ever left without its queue, the reference counts stay the numbers of open descriptors, and the other queues keep their messages.
\<close>

theorem mq_close_unlink_spec:
  assumes "mq_ok k" and "mq_desc_ok k" and "lock_free 1 k"
  shows "(\<forall>d\<in>set (msgdesq k (cpu k)). let q = queue_of k d; freed = (refs k q = {d} \<and> unlinked (mqueue k q)) in
      \<exists>k'. mq_close d k = Some (OK, k') \<and> mq_ok k' \<and> mq_desc_ok k' \<and> open_descs k' = open_descs k - {d} \<and> contents k' = contents k \<and>
        g_msgqueues k' = (if freed then remove1 q (g_msgqueues k) else g_msgqueues k) \<and>
        pools k' = (if freed then reclaimed q k else pools k)) \<and>
    (let q = mq_findnamed nm k; freed = (q \<noteq> NULL \<and> refs k q = {}) in
      \<exists>k'. mq_unlink (Some nm) k = Some (if q = NULL then ERROR else OK, k') \<and> mq_ok k' \<and> mq_desc_ok k' \<and> open_descs k' = open_descs k \<and> contents k' = contents k \<and>
        g_msgqueues k' = (if freed then remove1 q (g_msgqueues k) else g_msgqueues k) \<and>
        pools k' = (if freed then reclaimed q k else pools k) \<and>
        (q \<noteq> NULL \<and> refs k q \<noteq> {} \<longrightarrow> unlinked (mqueue k' q)))"
proof (intro conjI ballI)
  fix d assume d: "d \<in> set (msgdesq k (cpu k))"
  show "let q = queue_of k d; freed = (refs k q = {d} \<and> unlinked (mqueue k q)) in
      \<exists>k'. mq_close d k = Some (OK, k') \<and> mq_ok k' \<and> mq_desc_ok k' \<and> open_descs k' = open_descs k - {d} \<and> contents k' = contents k \<and>
        g_msgqueues k' = (if freed then remove1 q (g_msgqueues k) else g_msgqueues k) \<and>
        pools k' = (if freed then reclaimed q k else pools k)"
    unfolding Let_def by (rule mq_close_ok [OF assms(1,2) d assms(3)]) blast
next
  show "let q = mq_findnamed nm k; freed = (q \<noteq> NULL \<and> refs k q = {}) in
      \<exists>k'. mq_unlink (Some nm) k = Some (if q = NULL then ERROR else OK, k') \<and> mq_ok k' \<and> mq_desc_ok k' \<and> open_descs k' = open_descs k \<and> contents k' = contents k \<and>
        g_msgqueues k' = (if freed then remove1 q (g_msgqueues k) else g_msgqueues k) \<and>
        pools k' = (if freed then reclaimed q k else pools k) \<and>
        (q \<noteq> NULL \<and> refs k q \<noteq> {} \<longrightarrow> unlinked (mqueue k' q))"
    unfolding Let_def by (rule mq_unlink_ok [OF assms, of nm]) blast
qed

lemma mq_opened_ok: "mq_ok mq_opened" "mq_desc_ok mq_opened" "lock_free 1 mq_opened" "cpu mq_opened = 2" "msgdesq mq_opened 2 = [804]"
  "queue_of mq_opened 804 = 600" "g_msgqueues mq_opened = [600]" "unlinked (mqueue mq_opened 600) = False" "refs mq_opened 600 = {804}"
proof -
  obtain d k' where *: "mq_open (Some ''q'') 7 None 600 800 mq_empty = Some (d, k')" "mq_ok k'" "mq_desc_ok k'"
    "g_msgqueues k' = (if d \<noteq> NULL \<and> creates ''q'' 7 600 mq_empty then g_msgqueues mq_empty @ [600] else g_msgqueues mq_empty)"
    "opened d (cpu mq_empty) (if reopens ''q'' 7 mq_empty then mq_findnamed ''q'' mq_empty else 600) 7 mq_empty k'"
    by (rule mq_open_ok [OF mq_empty_ok(1-5)]) (auto simp: mq_empty_ok intro: that)
  have d: "d = 804" "k' = mq_opened" using *(1) mq_open_empty by (simp_all add: mq_opened_def)
  have "open_descs mq_empty = {}" by (simp add: open_descs_def mq_empty_def mq_boot_def sem_kernel.defs)
  then have o: "open_descs mq_opened = {804}" "queue_of mq_opened 804 = 600" using *(5) d mq_empty_creates by (simp_all add: opened_def)
  show "mq_ok mq_opened" "mq_desc_ok mq_opened" "queue_of mq_opened 804 = 600" "refs mq_opened 600 = {804}" using * d o by (auto simp: refs_def)
  show "lock_free 1 mq_opened" "cpu mq_opened = 2" "msgdesq mq_opened 2 = [804]" "g_msgqueues mq_opened = [600]"
     "unlinked (mqueue mq_opened 600) = False" unfolding lock_free_def by code_simp+
qed

text \<open>The queue \<open>mq_opened\<close> with one message in it, unlinked while its descriptor is open, and the state after the last close.\<close>

definition mq_filled :: mq_kernel where
  "mq_filled = upd_mq 600 (unlinked_update (\<lambda>_. True))
     (upd_mq 600 (msglist_update (\<lambda>_. [700]) \<circ> nmsgs_update (\<lambda>_. 1)) (mq_opened\<lparr>g_msgfree := [740]\<rparr>))"

lemma mq_opened_pools: "pools mq_opened = ([700, 740], [], [])" "g_msgfreeirq mq_opened = []" "sched_freed mq_opened = []"
  "mq_findnamed ''q'' mq_opened = 600" "msg_type (message mq_opened 700) = MQ_ALLOC_FIXED" "msg_type (message mq_opened 740) = MQ_ALLOC_FIXED"
  "mail (message mq_opened 700) = []"
  by code_simp+

lemma mq_filled_ok: "mq_ok mq_filled" "mq_desc_ok mq_filled" "lock_free 1 mq_filled" "cpu mq_filled = 2" "msgdesq mq_filled 2 = [804]"
  "queue_of mq_filled 804 = 600" "g_msgqueues mq_filled = [600]" "unlinked (mqueue mq_filled 600)" "refs mq_filled 600 = {804}"
  "reclaimed 600 mq_filled = ([740, 700], [], [600])"
proof -
  note f = mq_filled_def upd_mq_def
  have "mq_msgs_ok mq_filled"
    by (simp add: mq_msgs_ok_def all_msgs_def f mq_opened_ok mq_opened_pools prio_sorted_def)
  then show "mq_ok mq_filled"
  proof (rule mq_ok_frame [OF mq_opened_ok(1)])
    show "wait_count s (mqueue mq_filled q) = wait_count s (mqueue mq_opened q)" for s q by (cases s) (simp_all add: f)
  qed (simp_all add: f)
  have "mq_desc_ok mq_filled = mq_desc_ok mq_opened" by (rule desc_ok_cong) (simp_all add: f)
  then show "mq_desc_ok mq_filled" using mq_opened_ok(2) by simp
  show "lock_free 1 mq_filled" using mq_opened_ok(3) by (simp add: lock_free_def f)
  show "refs mq_filled 600 = {804}" using mq_opened_ok(9) by (simp add: refs_def open_descs_def f)
  show "cpu mq_filled = 2" "msgdesq mq_filled 2 = [804]" "queue_of mq_filled 804 = 600" "g_msgqueues mq_filled = [600]"
    "unlinked (mqueue mq_filled 600)" "reclaimed 600 mq_filled = ([740, 700], [], [600])"
    using mq_opened_ok mq_opened_pools by (simp_all add: f reclaimed_def msgs_of_type_def)
qed

theorem mq_close_unlink_spec_witness:
  "(\<exists>k'. mq_close 804 mq_opened = Some (OK, k') \<and> mq_desc_ok k' \<and> g_msgqueues k' = [600] \<and> pools k' = ([700, 740], [], [])) \<and>
   (\<exists>k'. mq_unlink (Some ''q'') mq_opened = Some (OK, k') \<and> mq_desc_ok k' \<and> g_msgqueues k' = [600] \<and> unlinked (mqueue k' 600)) \<and>
   (\<exists>k'. mq_close 804 mq_filled = Some (OK, k') \<and> mq_desc_ok k' \<and> g_msgqueues k' = [] \<and> pools k' = ([740, 700], [], [600]))"
proof -
  note o = mq_close_unlink_spec [OF mq_opened_ok(1-3), of "''q''"] and f = mq_close_unlink_spec [OF mq_filled_ok(1-3), of "''q''"]
  have 1: "\<exists>k'. mq_close 804 mq_opened = Some (OK, k') \<and> mq_desc_ok k' \<and> g_msgqueues k' = [600] \<and> pools k' = ([700, 740], [], [])"
    using conjunct1 [OF o] unfolding mq_opened_ok mq_opened_pools by (auto simp: Let_def mq_opened_ok)
  have 2: "\<exists>k'. mq_unlink (Some ''q'') mq_opened = Some (OK, k') \<and> mq_desc_ok k' \<and> g_msgqueues k' = [600] \<and> unlinked (mqueue k' 600)"
    using conjunct2 [OF o] unfolding mq_opened_ok mq_opened_pools by (auto simp: Let_def mq_opened_ok)
  have 3: "\<exists>k'. mq_close 804 mq_filled = Some (OK, k') \<and> mq_desc_ok k' \<and> g_msgqueues k' = [] \<and> pools k' = ([740, 700], [], [600])"
    using conjunct1 [OF f] unfolding mq_filled_ok by (auto simp: Let_def mq_filled_ok)
  show ?thesis using 1 2 3 by blast
qed

end
