(* ===== verification/Wdog.thy ===== *)
theory Wdog
  imports Sched
begin

section \<open>Watchdog timers\<close>

text \<open>
  The watchdogs of \<open>sched/wd_*.c\<close>. The active watchdogs form a queue ordered by their time of expiration; the
  field \<open>lag\<close> of a watchdog is the number of ticks between its predecessor's expiration and its own.
  The singly linked lists are HOL lists (the operations on them are verified in \<open>Queue\<close>); the walk through the
  active list in \<open>wd_start\<close> keeps the entries passed, the current one and the rest.

  A watchdog function is an argument of \<open>wd_timer\<close>: it maps the watchdog state to the state it leaves
  behind (it may start, cancel and create watchdogs), and the calls are returned in their order. Errors
  are the errno value (\<^const>\<open>Inl\<close>), and a PANIC is \<^const>\<open>None\<close>.
\<close>

record wdogs =
  lag :: "addr \<Rightarrow> int"
  active :: "addr \<Rightarrow> bool"
  wfunc :: "addr \<Rightarrow> addr"
  parm :: "addr \<Rightarrow> nat list"
  g_wdactivelist :: "addr list"
  g_wdfreelist :: "addr list"

definition MAX_WDOGPARMS :: nat where [simp]: "MAX_WDOGPARMS = 4"

definition set_lag :: "addr \<Rightarrow> int \<Rightarrow> wdogs \<Rightarrow> wdogs" where
  "set_lag t l w = w\<lparr>lag := (lag w)(t := l)\<rparr>"

text \<open>\<open>pool\<close> is the block \<open>kmalloc\<close> returned, \<open>sz\<close> the size of a watchdog and \<open>n\<close> CONFIG_PREALLOC_WDOGS.\<close>

definition wd_initialize :: "addr \<Rightarrow> nat \<Rightarrow> nat \<Rightarrow> wdogs \<Rightarrow> wdogs" where
  "wd_initialize pool sz n w =
     w\<lparr>g_wdfreelist := (if pool \<noteq> NULL then map (\<lambda>i. pool + i * sz) [0..<n] else []),
       g_wdactivelist := []\<rparr>"

definition wd_create :: "wdogs \<Rightarrow> addr \<times> wdogs" where
  "wd_create w =
     (case g_wdfreelist w of
        [] \<Rightarrow> (NULL, w)
      | t # ts \<Rightarrow> (t, w\<lparr>g_wdfreelist := ts, active := (active w)(t := False)\<rparr>))"

text \<open>The watchdog behind \<open>t\<close> in the list inherits its remaining ticks.\<close>

definition wd_cancel :: "addr \<Rightarrow> wdogs \<Rightarrow> (int \<times> wdogs) option" where
  "wd_cancel t w =
     (if t \<noteq> NULL \<and> active w t
      then if t \<notin> set (g_wdactivelist w) then None
           else let nxt = flink_in (g_wdactivelist w) t;
                    w = (if nxt \<noteq> NULL then set_lag nxt (lag w nxt + lag w t) w else w)
                in Some (OK, w\<lparr>g_wdactivelist := remove1 t (g_wdactivelist w), active := (active w)(t := False)\<rparr>)
      else Some (ERROR, w))"

text \<open>The two loops of \<open>wd_start\<close>: to positive time, and past the shorter delays.\<close>

fun wd_advance_neg :: "(addr \<Rightarrow> int) \<Rightarrow> int \<Rightarrow> addr list \<Rightarrow> addr \<Rightarrow> addr list \<Rightarrow> int \<times> addr list \<times> addr \<times> addr list" where
  "wd_advance_neg lg now pre c [] = (now + lg c, pre, c, [])"
| "wd_advance_neg lg now pre c (d # ds) =
     (let now = now + lg c in if now < 0 then wd_advance_neg lg now (pre @ [c]) d ds else (now, pre, c, d # ds))"

fun wd_advance :: "(addr \<Rightarrow> int) \<Rightarrow> int \<Rightarrow> int \<Rightarrow> addr list \<Rightarrow> addr \<Rightarrow> addr list \<Rightarrow> int \<times> addr list \<times> addr \<times> addr list" where
  "wd_advance lg delay now pre c [] = (now, pre, c, [])"
| "wd_advance lg delay now pre c (d # ds) =
     (if now \<le> delay then wd_advance lg delay (now + lg d) (pre @ [c]) d ds else (now, pre, c, d # ds))"

text \<open>\<open>delay\<close> plus one, unless that overflows.\<close>

definition wd_delay :: "int \<Rightarrow> int" where
  "wd_delay delay = (if delay \<le> 0 then 1 else if delay + 1 \<ge> 2 ^ 31 then delay else delay + 1)"

definition wd_insert :: "addr \<Rightarrow> int \<Rightarrow> wdogs \<Rightarrow> wdogs" where
  "wd_insert t delay w =
     (case g_wdactivelist w of
        [] \<Rightarrow> set_lag t delay (w\<lparr>g_wdactivelist := [t]\<rparr>)
      | c # cs \<Rightarrow>
          (let (now, pre, c, cs) = wd_advance_neg (lag w) 0 [] c cs;
               (now, pre, c, cs) = wd_advance (lag w) delay now pre c cs
           in if delay < now
              then let delay = delay - (now - lag w c);
                       w = set_lag c (lag w c - delay) w
                   in set_lag t delay (w\<lparr>g_wdactivelist := pre @ t # c # cs\<rparr>)
              else let delay = delay - now
                   in case cs of
                        [] \<Rightarrow> set_lag t delay (w\<lparr>g_wdactivelist := pre @ [c, t]\<rparr>)
                      | d # ds \<Rightarrow> set_lag t delay ((set_lag d (lag w d - delay) w)\<lparr>g_wdactivelist := pre @ c # t # d # ds\<rparr>)))"

definition wd_start :: "addr \<Rightarrow> int \<Rightarrow> addr \<Rightarrow> nat list \<Rightarrow> wdogs \<Rightarrow> (int + wdogs) option" where
  "wd_start t delay fn parms w =
     (if t = NULL \<or> length parms > MAX_WDOGPARMS \<or> delay < 0 then Some (Inl EINVAL)
      else do {
        w \<leftarrow> (if active w t then map_option snd (wd_cancel t w) else Some w);
        let w = w\<lparr>wfunc := (wfunc w)(t := fn), parm := (parm w)(t := parms)\<rparr>;
        let w = wd_insert t (wd_delay delay) w;
        Some (Inr (w\<lparr>active := (active w)(t := True)\<rparr>))
      })"

definition wd_delete :: "addr \<Rightarrow> wdogs \<Rightarrow> (int + wdogs) option" where
  "wd_delete t w =
     (if t = NULL then Some (Inl EINVAL)
      else do {
        w \<leftarrow> (if active w t then map_option snd (wd_cancel t w) else Some w);
        Some (Inr (w\<lparr>g_wdfreelist := g_wdfreelist w @ [t]\<rparr>))
      })"

fun wd_gettime_loop :: "(addr \<Rightarrow> int) \<Rightarrow> addr \<Rightarrow> int \<Rightarrow> addr list \<Rightarrow> int" where
  "wd_gettime_loop lg t delay [] = 0"
| "wd_gettime_loop lg t delay (c # cs) =
     (let delay = delay + lg c in if c = t then delay else wd_gettime_loop lg t delay cs)"

definition wd_gettime :: "addr \<Rightarrow> wdogs \<Rightarrow> int" where
  "wd_gettime t w = (if t \<noteq> NULL \<and> active w t then wd_gettime_loop (lag w) t 0 (g_wdactivelist w) else 0)"

partial_function (option) wd_expire :: "(addr \<Rightarrow> wdogs \<Rightarrow> wdogs) \<Rightarrow> wdogs \<Rightarrow> (addr list \<times> wdogs) option" where
  "wd_expire call w =
     (case g_wdactivelist w of
        [] \<Rightarrow> Some ([], w)
      | t # ts \<Rightarrow>
          (if lag w t \<le> 0
           then let w = w\<lparr>g_wdactivelist := ts\<rparr>;
                    w = (case ts of [] \<Rightarrow> w | u # _ \<Rightarrow> set_lag u (lag w u + lag w t) w);
                    w = w\<lparr>active := (active w)(t := False)\<rparr>
                in do { (log, w) \<leftarrow> wd_expire call (call t w); Some (t # log, w) }
           else Some ([], w)))"

definition wd_timer :: "(addr \<Rightarrow> wdogs \<Rightarrow> wdogs) \<Rightarrow> wdogs \<Rightarrow> (addr list \<times> wdogs) option" where
  "wd_timer call w =
     (case g_wdactivelist w of
        [] \<Rightarrow> Some ([], w)
      | t # _ \<Rightarrow> (let w = set_lag t (lag w t - 1) w in if lag w t \<le> 0 then wd_expire call w else Some ([], w)))"

subsection \<open>The times of expiration\<close>

fun expiries :: "(addr \<Rightarrow> int) \<Rightarrow> int \<Rightarrow> addr list \<Rightarrow> (addr \<times> int) list" where
  "expiries lg b [] = []"
| "expiries lg b (x # xs) = (x, b + lg x) # expiries lg (b + lg x) xs"

text \<open>The abstract view: how many ticks every active watchdog has left.\<close>

definition remaining :: "wdogs \<Rightarrow> addr \<Rightarrow> int option" where
  "remaining w = map_of (expiries (lag w) 0 (g_wdactivelist w))"

definition wd_ok :: "wdogs \<Rightarrow> bool" where
  "wd_ok w \<longleftrightarrow> distinct (g_wdactivelist w) \<and> NULL \<notin> set (g_wdactivelist w) \<and>
     (\<forall>t. active w t \<longleftrightarrow> t \<in> set (g_wdactivelist w)) \<and> (\<forall>t\<in>set (g_wdactivelist w). 0 \<le> lag w t) \<and>
     (\<forall>(t, e)\<in>set (expiries (lag w) 0 (g_wdactivelist w)). e < 2 ^ 31)"

text \<open>Between two ticks every active watchdog has at least one tick left.\<close>

definition wd_idle :: "wdogs \<Rightarrow> bool" where
  "wd_idle w \<longleftrightarrow> wd_ok w \<and> (\<forall>(t, e)\<in>set (expiries (lag w) 0 (g_wdactivelist w)). 1 \<le> e)"

definition total_lag :: "(addr \<Rightarrow> int) \<Rightarrow> addr list \<Rightarrow> int" where
  "total_lag lg xs = sum_list (map lg xs)"

lemma total_lag_simps [simp]: "total_lag lg [] = 0" "total_lag lg (x # xs) = lg x + total_lag lg xs"
  "total_lag lg (xs @ ys) = total_lag lg xs + total_lag lg ys"
  by (simp_all add: total_lag_def)

lemma expiries_append: "expiries lg b (xs @ ys) = expiries lg b xs @ expiries lg (b + total_lag lg xs) ys"
  by (induction xs arbitrary: b) (auto simp: add.assoc)

lemma expiries_cong: "(\<And>t. t \<in> set xs \<Longrightarrow> lg' t = lg t) \<Longrightarrow> expiries lg' b xs = expiries lg b xs"
  by (induction xs arbitrary: b) auto

lemma map_fst_expiries [simp]: "map fst (expiries lg b xs) = xs"
  by (induction xs arbitrary: b) auto

lemma expiries_mono: "(\<And>t. t \<in> set xs \<Longrightarrow> 0 \<le> lg t) \<Longrightarrow> (t, e) \<in> set (expiries lg b xs) \<Longrightarrow> b \<le> e"
proof (induction xs arbitrary: b)
  case (Cons x xs)
  from Cons.prems consider "(t, e) = (x, b + lg x)" | "(t, e) \<in> set (expiries lg (b + lg x) xs)" by auto
  then show ?case using Cons.IH [of "b + lg x"] Cons.prems(1) [of x] Cons.prems(1) by cases fastforce+
qed simp

lemma expiries_upper: "(\<And>t. t \<in> set xs \<Longrightarrow> 0 \<le> lg t) \<Longrightarrow> (t, e) \<in> set (expiries lg b xs) \<Longrightarrow> e \<le> b + total_lag lg xs"
proof (induction xs arbitrary: b)
  case (Cons x xs)
  have "0 \<le> total_lag lg xs" using Cons.prems(1) by (auto simp: total_lag_def intro!: sum_list_nonneg)
  then show ?case using Cons.IH [of "b + lg x"] Cons.prems by (auto simp: add.assoc)
qed simp

text \<open>Insertion by time, behind the watchdogs that expire at the same tick.\<close>

definition time_insert :: "addr \<Rightarrow> int \<Rightarrow> (addr \<times> int) list \<Rightarrow> (addr \<times> int) list" where
  "time_insert t d ts = takeWhile (\<lambda>(_, e). e \<le> d) ts @ (t, d) # dropWhile (\<lambda>(_, e). e \<le> d) ts"

lemma wd_advance_spec:
  assumes "\<And>t. t \<in> set (c # cs) \<Longrightarrow> 0 \<le> lg t" and "now = b + total_lag lg pre + lg c"
    and "\<forall>(t, e)\<in>set (expiries lg b pre). e \<le> delay"
    and "wd_advance lg delay now pre c cs = (now', pre', c', cs')"
  shows "pre' @ c' # cs' = pre @ c # cs \<and> now' = b + total_lag lg pre' + lg c' \<and>
    (\<forall>(t, e)\<in>set (expiries lg b pre'). e \<le> delay) \<and> (delay < now' \<or> cs' = [])"
  using assms
proof (induction cs arbitrary: now pre c)
  case (Cons d ds)
  show ?case
  proof (cases "now \<le> delay")
    case True
    have e: "wd_advance lg delay (now + lg d) (pre @ [c]) d ds = (now', pre', c', cs')" using Cons.prems(4) True by simp
    show ?thesis
      using Cons.IH [OF _ _ _ e] Cons.prems(1-3) True by (auto simp: expiries_append add.assoc)
  qed (use Cons.prems in auto)
qed auto

lemma wd_advance_neg_head:
  assumes "0 \<le> lg c"
  shows "wd_advance_neg lg 0 [] c cs = (lg c, [], c, cs)"
  using assms by (cases cs) (simp_all add: Let_def)

lemma takeWhile_split: "\<forall>x\<in>set as. P x \<Longrightarrow> bs = [] \<or> \<not> P (hd bs) \<Longrightarrow> takeWhile P (as @ bs) = as \<and> dropWhile P (as @ bs) = bs"
  by (cases bs) (auto simp: takeWhile_append2 dropWhile_append2)

text \<open>The walk through the list is an insertion by time.\<close>

lemma wd_insert_spec:
  assumes ok: "wd_ok w" and t: "t \<noteq> NULL" "t \<notin> set (g_wdactivelist w)" and d: "1 \<le> delay"
  shows "expiries (lag (wd_insert t delay w)) 0 (g_wdactivelist (wd_insert t delay w)) =
      time_insert t delay (expiries (lag w) 0 (g_wdactivelist w))"
    and "\<forall>u\<in>set (g_wdactivelist (wd_insert t delay w)). 0 \<le> lag (wd_insert t delay w) u"
    and "active (wd_insert t delay w) = active w" "g_wdfreelist (wd_insert t delay w) = g_wdfreelist w"
    "wfunc (wd_insert t delay w) = wfunc w" "parm (wd_insert t delay w) = parm w"
proof -
  let ?w = "wd_insert t delay w"
  have P: "expiries (lag ?w) 0 (g_wdactivelist ?w) = time_insert t delay (expiries (lag w) 0 (g_wdactivelist w)) \<and>
    (\<forall>u\<in>set (g_wdactivelist ?w). 0 \<le> lag ?w u) \<and> active ?w = active w \<and> g_wdfreelist ?w = g_wdfreelist w \<and>
    wfunc ?w = wfunc w \<and> parm ?w = parm w"
  proof (cases "g_wdactivelist w")
    case Nil
    then show ?thesis using d by (simp add: wd_insert_def set_lag_def time_insert_def)
  next
    case (Cons c cs)
    have nn: "\<And>u. u \<in> set (c # cs) \<Longrightarrow> 0 \<le> lag w u" and dist: "distinct (c # cs)" using ok Cons by (auto simp: wd_ok_def)
    obtain now' pre' c' cs' where a: "wd_advance (lag w) delay (lag w c) [] c cs = (now', pre', c', cs')"
      by (cases "wd_advance (lag w) delay (lag w c) [] c cs") auto
    have sp: "pre' @ c' # cs' = c # cs" "now' = total_lag (lag w) pre' + lag w c'"
      "\<forall>(u, e)\<in>set (expiries (lag w) 0 pre'). e \<le> delay" "delay < now' \<or> cs' = []"
      using wd_advance_spec [OF nn _ _ a, of 0] by auto
    have ne: "wd_advance_neg (lag w) 0 [] c cs = (lag w c, [], c, cs)" using wd_advance_neg_head nn by simp
    have notin: "t \<notin> set pre'" "t \<noteq> c'" "t \<notin> set cs'" "c' \<notin> set pre'" "c' \<notin> set cs'"
      using t(2) dist unfolding Cons sp(1) [symmetric] by auto
    have nn': "\<And>u. u \<in> set (pre' @ c' # cs') \<Longrightarrow> 0 \<le> lag w u" using nn sp(1) by simp
    have pre_le: "total_lag (lag w) pre' \<le> delay"
    proof (cases pre' rule: rev_cases)
      case Nil
      then show ?thesis using d by simp
    next
      case (snoc ps p)
      have "(p, total_lag (lag w) pre') \<in> set (expiries (lag w) 0 pre')" by (simp add: snoc expiries_append)
      then show ?thesis using sp(3) by auto
    qed
    show ?thesis
    proof (cases "delay < now'")
      case True
      let ?d = "delay - (now' - lag w c')"
      have W: "?w = set_lag t ?d ((set_lag c' (lag w c' - ?d) w)\<lparr>g_wdactivelist := pre' @ t # c' # cs'\<rparr>)"
        using True by (simp add: wd_insert_def Cons ne a Let_def)
      have lg: "lag ?w = (lag w)(c' := now' - delay, t := delay - total_lag (lag w) pre')"
        using sp(2) by (simp add: W set_lag_def algebra_simps)
      have e1: "expiries (lag ?w) b pre' = expiries (lag w) b pre'" "expiries (lag ?w) b cs' = expiries (lag w) b cs'" for b
        using notin by (auto simp: lg intro!: expiries_cong)
      have e2: "total_lag (lag ?w) pre' = total_lag (lag w) pre'"
        using notin by (auto simp: lg total_lag_def intro!: arg_cong [of _ _ sum_list])
      have "expiries (lag ?w) 0 (g_wdactivelist ?w) = expiries (lag w) 0 pre' @ (t, delay) # (c', now') # expiries (lag w) now' cs'"
      proof -
        have "g_wdactivelist ?w = pre' @ t # c' # cs'" by (simp add: W set_lag_def)
        moreover have "lag ?w t = delay - total_lag (lag w) pre'" "lag ?w c' = now' - delay" using notin by (simp_all add: lg)
        ultimately show ?thesis by (simp add: expiries_append e1 e2)
      qed
      moreover have "expiries (lag w) 0 (c # cs) = expiries (lag w) 0 pre' @ (c', now') # expiries (lag w) now' cs'"
        unfolding sp(1) [symmetric] using sp(2) by (simp add: expiries_append)
      moreover have "time_insert t delay (expiries (lag w) 0 pre' @ (c', now') # expiries (lag w) now' cs') =
          expiries (lag w) 0 pre' @ (t, delay) # (c', now') # expiries (lag w) now' cs'"
        using takeWhile_split [of "expiries (lag w) 0 pre'" "\<lambda>(_, e). e \<le> delay" "(c', now') # expiries (lag w) now' cs'"] sp(3) True
        by (auto simp: time_insert_def)
      moreover have "0 \<le> lag ?w u" if "u \<in> set (g_wdactivelist ?w)" for u
        using that nn' [of u] pre_le True unfolding lg by (auto simp: W set_lag_def)
      ultimately show ?thesis by (simp add: Cons) (simp add: W set_lag_def)
    next
      case False
      then have cs: "cs' = []" using sp(4) by simp
      have W: "?w = set_lag t (delay - now') (w\<lparr>g_wdactivelist := pre' @ [c', t]\<rparr>)"
        using False cs by (simp add: wd_insert_def Cons ne a Let_def)
      have e1: "expiries (lag ?w) b pre' = expiries (lag w) b pre'" for b
        using notin by (auto simp: W set_lag_def intro!: expiries_cong)
      have e2: "total_lag (lag ?w) pre' = total_lag (lag w) pre'"
        using notin by (auto simp: W set_lag_def total_lag_def intro!: arg_cong [of _ _ sum_list])
      have "expiries (lag ?w) 0 (g_wdactivelist ?w) = expiries (lag w) 0 pre' @ [(c', now'), (t, delay)]"
      proof -
        have "g_wdactivelist ?w = pre' @ [c', t]" by (simp add: W set_lag_def)
        moreover have "lag ?w t = delay - now'" "lag ?w c' = lag w c'" using notin by (simp_all add: W set_lag_def)
        ultimately show ?thesis using sp(2) by (simp add: expiries_append e1 e2)
      qed
      moreover have "expiries (lag w) 0 (c # cs) = expiries (lag w) 0 pre' @ [(c', now')]"
        unfolding sp(1) [symmetric] using sp(2) cs by (simp add: expiries_append)
      moreover have "time_insert t delay (expiries (lag w) 0 pre' @ [(c', now')]) = expiries (lag w) 0 pre' @ [(c', now'), (t, delay)]"
        using takeWhile_split [of "expiries (lag w) 0 pre' @ [(c', now')]" "\<lambda>(_, e). e \<le> delay" "[]"] sp(3) False
        by (auto simp: time_insert_def)
      moreover have "0 \<le> lag ?w u" if "u \<in> set (g_wdactivelist ?w)" for u
        using that nn' [of u] False cs by (auto simp: W set_lag_def)
      ultimately show ?thesis by (simp add: Cons) (simp add: W set_lag_def)
    qed
  qed
  then show "expiries (lag ?w) 0 (g_wdactivelist ?w) = time_insert t delay (expiries (lag w) 0 (g_wdactivelist w))"
    "\<forall>u\<in>set (g_wdactivelist ?w). 0 \<le> lag ?w u" "active ?w = active w" "g_wdfreelist ?w = g_wdfreelist w"
    "wfunc ?w = wfunc w" "parm ?w = parm w" by blast+
qed

end
