(* ===== verification/Wdog_Props.thy ===== *)
theory Wdog_Props
  imports Wdog
begin

section \<open>The watchdogs are a timer service\<close>

text \<open>
  The operations on the list of lags implement a map from the active watchdogs to the ticks
  they have left (\<open>remaining\<close>). The locale \<open>timer_service\<close> states what the users of the watchdogs rely on;
  that a watchdog fires at its tick and at no other is proved there once.
\<close>

subsection \<open>Cancelling and starting\<close>

lemma flink_in_split: "distinct (as @ t # bs) \<Longrightarrow> flink_in (as @ t # bs) t = list_head bs"
proof (induction as)
  case Nil
  then show ?case by (cases bs) (auto simp: list_head_def)
next
  case (Cons a as)
  have e: "flink_in ((a # as) @ t # bs) t = flink_in (as @ t # bs) t" using Cons.prems by (cases as) auto
  show ?case unfolding e using Cons.prems by (intro Cons.IH) simp
qed

lemma wd_okD:
  assumes "wd_ok w"
  shows "distinct (g_wdactivelist w)" "NULL \<notin> set (g_wdactivelist w)" "active w t \<longleftrightarrow> t \<in> set (g_wdactivelist w)"
    "t \<in> set (g_wdactivelist w) \<Longrightarrow> 0 \<le> lag w t" "(t, e) \<in> set (expiries (lag w) 0 (g_wdactivelist w)) \<Longrightarrow> e < 2 ^ 31"
  using assms by (auto simp: wd_ok_def)

lemma fst_expiries: "t \<in> fst ` set (expiries lg b xs) \<longleftrightarrow> t \<in> set xs"
proof -
  have "set (map fst (expiries lg b xs)) = set xs" by (simp only: map_fst_expiries)
  then show ?thesis unfolding set_map by blast
qed

lemma filter_expiries_notin: "t \<notin> set xs \<Longrightarrow> filter (\<lambda>(u, _). u \<noteq> t) (expiries lg b xs) = expiries lg b xs"
  using fst_expiries [of t lg b xs] by (intro filter_True) force

lemma wd_cancel_ok:
  assumes ok: "wd_ok w" and t: "t \<in> set (g_wdactivelist w)"
  obtains w' where "wd_cancel t w = Some (OK, w')" "wd_ok w'" "g_wdactivelist w' = remove1 t (g_wdactivelist w)"
    "expiries (lag w') 0 (g_wdactivelist w') = filter (\<lambda>(u, _). u \<noteq> t) (expiries (lag w) 0 (g_wdactivelist w))"
    "g_wdfreelist w' = g_wdfreelist w" "active w' = (active w)(t := False)"
proof -
  note D = wd_okD [OF ok]
  obtain as bs where sp: "g_wdactivelist w = as @ t # bs" using t by (meson split_list)
  have dist: "distinct (as @ t # bs)" using D(1) sp by simp
  have t0: "t \<noteq> NULL" "active w t" using D(2,3) t by metis+
  have fl: "flink_in (g_wdactivelist w) t = list_head bs" using flink_in_split [OF dist] sp by simp
  let ?lg = "if bs = [] then lag w else (lag w)(hd bs := lag w (hd bs) + lag w t)"
  define w' where "w' = w\<lparr>lag := ?lg, g_wdactivelist := as @ bs, active := (active w)(t := False)\<rparr>"
  have rem: "remove1 t (g_wdactivelist w) = as @ bs" using dist sp by (simp add: remove1_append)
  have hn: "bs \<noteq> [] \<Longrightarrow> hd bs \<noteq> NULL" using D(2) sp by (cases bs) auto
  have run: "wd_cancel t w = Some (OK, w')"
    using t0 t fl rem hn by (cases bs) (auto simp: wd_cancel_def w'_def set_lag_def Let_def list_head_def)
  have hb: "bs \<noteq> [] \<Longrightarrow> hd bs \<notin> set as" using dist by (cases bs) auto
  have as: "expiries (lag w') b as = expiries (lag w) b as" "total_lag (lag w') as = total_lag (lag w) as" for b
    using dist hb by (auto simp: w'_def total_lag_def intro!: expiries_cong arg_cong [of _ _ sum_list])
  have bs: "expiries (lag w') b bs = expiries (lag w) (b + lag w t) bs" for b
  proof (cases bs)
    case (Cons u us)
    then have "u \<notin> set us" using dist by simp
    then have "expiries (lag w') x us = expiries (lag w) x us" for x using Cons by (auto simp: w'_def intro!: expiries_cong)
    then show ?thesis using Cons by (simp add: w'_def add.commute add.left_commute)
  qed simp
  have ex: "expiries (lag w') 0 (as @ bs) = filter (\<lambda>(u, _). u \<noteq> t) (expiries (lag w) 0 (as @ t # bs))"
    using dist by (simp add: expiries_append as bs filter_expiries_notin)
  have "wd_ok w'"
    unfolding wd_ok_def
  proof (intro conjI)
    show "\<forall>u\<in>set (g_wdactivelist w'). 0 \<le> lag w' u"
      using D(4) sp by (cases bs) (auto simp: w'_def)
    show "\<forall>(u, e)\<in>set (expiries (lag w') 0 (g_wdactivelist w')). e < 2 ^ 31"
      using D(5) ex sp by (auto simp: w'_def)
  qed (use dist D(2,3) sp in \<open>auto simp: w'_def\<close>)
  then show thesis using that [of w'] run rem ex sp by (simp add: w'_def)
qed

lemma fst_time_insert: "set (map fst (time_insert t d ts)) = insert t (set (map fst ts))"
proof -
  have "set (map fst ts) = set (map fst (takeWhile (\<lambda>(_, e). e \<le> d) ts @ dropWhile (\<lambda>(_, e). e \<le> d) ts))" by simp
  then show ?thesis unfolding time_insert_def by (auto simp del: takeWhile_dropWhile_id)
qed

lemma set_time_insert: "set (time_insert t d ts) = insert (t, d) (set ts)"
proof -
  have "set ts = set (takeWhile (\<lambda>(_, e). e \<le> d) ts @ dropWhile (\<lambda>(_, e). e \<le> d) ts)" by simp
  then show ?thesis unfolding time_insert_def by (auto simp del: takeWhile_dropWhile_id)
qed

lemma map_of_time_insert:
  assumes "t \<notin> fst ` set ts"
  shows "map_of (time_insert t d ts) = (map_of ts)(t \<mapsto> d)"
proof -
  have n: "t \<notin> fst ` set (takeWhile (\<lambda>(_, e). e \<le> d) ts)" using assms set_takeWhileD by fast
  have "map_of ts = map_of (dropWhile (\<lambda>(_, e). e \<le> d) ts) ++ map_of (takeWhile (\<lambda>(_, e). e \<le> d) ts)"
    by (metis map_of_append takeWhile_dropWhile_id)
  then show ?thesis using n by (auto simp: time_insert_def map_add_def fun_eq_iff dom_map_of_conv_image_fst [symmetric] split: option.splits)
qed

lemma wd_delay_range: "0 \<le> d \<Longrightarrow> d < 2 ^ 31 \<Longrightarrow> 1 \<le> wd_delay d \<and> wd_delay d < 2 ^ 31"
  by (auto simp: wd_delay_def)

lemma filter_key_time_insert:
  "filter (\<lambda>(u, _). u \<noteq> t) (time_insert t d ts) = filter (\<lambda>(u, _). u \<noteq> t) ts"
proof -
  have "filter (\<lambda>(u, _). u \<noteq> t) ts =
      filter (\<lambda>(u, _). u \<noteq> t) (takeWhile (\<lambda>(_, e). e \<le> d) ts @ dropWhile (\<lambda>(_, e). e \<le> d) ts)" by simp
  then show ?thesis unfolding time_insert_def filter_append by simp
qed

lemma expiries_lag: "expiries lg' b xs = expiries lg b xs \<Longrightarrow> \<forall>u\<in>set xs. lg' u = lg u"
  by (induction xs arbitrary: b) auto

lemma distinct_expiries: "distinct xs \<Longrightarrow> distinct (map fst (time_insert t d (expiries lg 0 xs))) \<longleftrightarrow> t \<notin> set xs"
proof -
  assume d: "distinct xs"
  let ?P = "\<lambda>(_, e). e \<le> d"
  have s: "map fst (takeWhile ?P (expiries lg 0 xs)) @ map fst (dropWhile ?P (expiries lg 0 xs)) = xs"
    by (simp flip: map_append)
  have "distinct (map fst (takeWhile ?P (expiries lg 0 xs)) @ t # map fst (dropWhile ?P (expiries lg 0 xs))) \<longleftrightarrow>
      t \<notin> set (map fst (takeWhile ?P (expiries lg 0 xs)) @ map fst (dropWhile ?P (expiries lg 0 xs))) \<and>
      distinct (map fst (takeWhile ?P (expiries lg 0 xs)) @ map fst (dropWhile ?P (expiries lg 0 xs)))" by auto
  then show ?thesis using d unfolding s by (simp add: time_insert_def)
qed

lemma wd_start_ok:
  assumes ok: "wd_ok w" and t: "t \<noteq> NULL" and d: "0 \<le> delay" "delay < 2 ^ 31" and p: "length parms \<le> MAX_WDOGPARMS"
  obtains w' where "wd_start t delay fn parms w = Some (Inr w')" "wd_ok w'"
    "expiries (lag w') 0 (g_wdactivelist w') =
       time_insert t (wd_delay delay) (filter (\<lambda>(u, _). u \<noteq> t) (expiries (lag w) 0 (g_wdactivelist w)))"
    "g_wdfreelist w' = g_wdfreelist w" "wfunc w' t = fn" "parm w' t = parms"
proof -
  obtain w1 where w1: "(if active w t then map_option snd (wd_cancel t w) else Some w) = Some w1" "wd_ok w1" "t \<notin> set (g_wdactivelist w1)"
    "expiries (lag w1) 0 (g_wdactivelist w1) = filter (\<lambda>(u, _). u \<noteq> t) (expiries (lag w) 0 (g_wdactivelist w))" "g_wdfreelist w1 = g_wdfreelist w"
  proof (cases "active w t")
    case True
    then have "t \<in> set (g_wdactivelist w)" using wd_okD(3) [OF ok] by simp
    from wd_cancel_ok [OF ok this] obtain w' where "wd_cancel t w = Some (OK, w')" "wd_ok w'" "g_wdactivelist w' = remove1 t (g_wdactivelist w)"
      "expiries (lag w') 0 (g_wdactivelist w') = filter (\<lambda>(u, _). u \<noteq> t) (expiries (lag w) 0 (g_wdactivelist w))" "g_wdfreelist w' = g_wdfreelist w" by blast
    then show thesis using that [of w'] True wd_okD(1) [OF ok] by simp
  next
    case False
    then show thesis using that [of w] ok wd_okD(3) [OF ok] filter_expiries_notin [of t "g_wdactivelist w"] by simp
  qed
  define w2 where "w2 = w1\<lparr>wfunc := (wfunc w1)(t := fn), parm := (parm w1)(t := parms)\<rparr>"
  have w2: "wd_ok w2" "g_wdactivelist w2 = g_wdactivelist w1" "lag w2 = lag w1" "g_wdfreelist w2 = g_wdfreelist w1" "active w2 = active w1"
    using w1(2) by (simp_all add: w2_def wd_ok_def)
  let ?d = "wd_delay delay"
  have dr: "1 \<le> ?d" "?d < 2 ^ 31" using wd_delay_range [OF d] by auto
  note I = wd_insert_spec [OF w2(1) t _ dr(1), unfolded w2(2), OF w1(3)]
  let ?w3 = "wd_insert t ?d w2"
  define w' where "w' = ?w3\<lparr>active := (active ?w3)(t := True)\<rparr>"
  have ex: "expiries (lag w') 0 (g_wdactivelist w') = time_insert t ?d (expiries (lag w1) 0 (g_wdactivelist w1))"
    using I(1) w2(3) by (simp add: w'_def)
  have gl: "set (g_wdactivelist w') = insert t (set (g_wdactivelist w1))"
    using arg_cong [OF ex, of "\<lambda>x. set (map fst x)"] unfolding fst_time_insert map_fst_expiries .
  have "wd_ok w'"
    unfolding wd_ok_def
  proof (intro conjI)
    show "distinct (g_wdactivelist w')"
      using arg_cong [OF ex, of "\<lambda>x. distinct (map fst x)"] distinct_expiries [OF wd_okD(1) [OF w1(2)]] w1(3) by simp
    show "NULL \<notin> set (g_wdactivelist w')" using gl t wd_okD(2) [OF w1(2)] by simp
    show "\<forall>u. active w' u \<longleftrightarrow> u \<in> set (g_wdactivelist w')" unfolding gl using I(3) w2(5) wd_okD(3) [OF w1(2)] by (auto simp: w'_def)
    show "\<forall>u\<in>set (g_wdactivelist w'). 0 \<le> lag w' u" using I(2) by (simp add: w'_def)
    show "\<forall>(u, e)\<in>set (expiries (lag w') 0 (g_wdactivelist w')). e < 2 ^ 31"
      unfolding ex set_time_insert using dr wd_okD(5) [OF w1(2)] by auto
  qed
  moreover have "wd_start t delay fn parms w = Some (Inr w')"
    using t d p w1(1) by (simp add: wd_start_def w'_def w2_def Let_def)
  ultimately show thesis
    using that [of w'] ex w1(4,5) I(4-6) w2(4) by (simp add: w'_def w2_def)
qed

lemma map_of_filter_key: "map_of (filter (\<lambda>(u, _). u \<noteq> t) ts) = (map_of ts)(t := None)"
  by (induction ts) (auto simp: fun_eq_iff)

lemma wd_gettime_loop_eq:
  "wd_gettime_loop lg t b xs = (case map_of (expiries lg b xs) t of None \<Rightarrow> 0 | Some e \<Rightarrow> e)"
  by (induction xs arbitrary: b) (auto simp: Let_def)

subsection \<open>The timer interrupt\<close>

definition due :: "wdogs \<Rightarrow> addr list" where
  "due w = map fst (filter (\<lambda>(_, e). e \<le> 0) (expiries (lag w) 0 (g_wdactivelist w)))"

text \<open>What a watchdog function may do: anything that keeps the list valid and adds no watchdog that is due at once.\<close>

definition handler_ok :: "(addr \<Rightarrow> wdogs \<Rightarrow> wdogs) \<Rightarrow> bool" where
  "handler_ok call \<longleftrightarrow> (\<forall>t w. wd_ok w \<longrightarrow> wd_ok (call t w) \<and> length (due (call t w)) \<le> length (due w))"

text \<open>The state in which the function of the first watchdog is called.\<close>

definition wd_pop :: "addr \<Rightarrow> addr list \<Rightarrow> wdogs \<Rightarrow> wdogs" where
  "wd_pop t ts w = (case ts of [] \<Rightarrow> w\<lparr>g_wdactivelist := ts\<rparr> | u # _ \<Rightarrow> set_lag u (lag w u + lag w t) (w\<lparr>g_wdactivelist := ts\<rparr>))
     \<lparr>active := (active w)(t := False)\<rparr>"

lemma wd_expire_step:
  assumes "g_wdactivelist w = t # ts"
  shows "wd_expire call w = (if lag w t \<le> 0 then do { (log, w) \<leftarrow> wd_expire call (call t (wd_pop t ts w)); Some (t # log, w) } else Some ([], w))"
  by (subst wd_expire.simps) (use assms in \<open>auto simp: wd_pop_def Let_def set_lag_def split: list.splits\<close>)

lemma wd_pop_ok:
  assumes ok: "wd_ok w" and l: "g_wdactivelist w = t # ts" "lag w t \<le> 0"
  shows "wd_ok (wd_pop t ts w)" "expiries (lag (wd_pop t ts w)) 0 (g_wdactivelist (wd_pop t ts w)) = expiries (lag w) 0 ts"
    "g_wdactivelist (wd_pop t ts w) = ts" "due w = t # due (wd_pop t ts w)"
proof -
  note D = wd_okD [OF ok]
  have z: "lag w t = 0" using D(4) [of t] l by simp
  have lg: "lag (wd_pop t ts w) = lag w" using z by (auto simp: wd_pop_def set_lag_def split: list.splits)
  show g: "g_wdactivelist (wd_pop t ts w) = ts" by (auto simp: wd_pop_def set_lag_def split: list.splits)
  then show e: "expiries (lag (wd_pop t ts w)) 0 (g_wdactivelist (wd_pop t ts w)) = expiries (lag w) 0 ts" using lg by simp
  have a: "active (wd_pop t ts w) = (active w)(t := False)" by (auto simp: wd_pop_def set_lag_def split: list.splits)
  show "wd_ok (wd_pop t ts w)"
    unfolding wd_ok_def e unfolding g a lg using ok l z by (auto simp: wd_ok_def)
  show "due w = t # due (wd_pop t ts w)" unfolding due_def e using l z by simp
qed

lemma due_Nil:
  assumes "wd_ok w" "g_wdactivelist w = t # ts" "\<not> lag w t \<le> 0"
  shows "due w = []" "wd_idle w"
proof -
  have *: "1 \<le> e" if "(u, e) \<in> set (expiries (lag w) 0 (g_wdactivelist w))" for u e
    using that expiries_mono [of ts "lag w" u e "lag w t"] wd_okD(4) [OF assms(1)] assms(2,3) by auto
  show "due w = []" using * by (fastforce simp: due_def filter_empty_conv)
  show "wd_idle w" using * assms(1) by (auto simp: wd_idle_def)
qed

lemma wd_expire_terminates:
  assumes "handler_ok call" and "wd_ok w"
  shows "\<exists>log w'. wd_expire call w = Some (log, w') \<and> wd_idle w' \<and> length log \<le> length (due w)"
  using assms(2)
proof (induction "length (due w)" arbitrary: w rule: less_induct)
  case less
  show ?case
  proof (cases "g_wdactivelist w")
    case Nil
    then show ?thesis using less.prems by (subst wd_expire.simps) (auto simp: wd_idle_def)
  next
    case (Cons t ts)
    show ?thesis
    proof (cases "lag w t \<le> 0")
      case True
      note P = wd_pop_ok [OF less.prems Cons True]
      have h: "wd_ok (call t (wd_pop t ts w))" "length (due (call t (wd_pop t ts w))) \<le> length (due (wd_pop t ts w))"
        using assms(1) P(1) by (auto simp: handler_ok_def)
      then obtain log w' where "wd_expire call (call t (wd_pop t ts w)) = Some (log, w')" "wd_idle w'"
        "length log \<le> length (due (call t (wd_pop t ts w)))"
        using less.hyps [of "call t (wd_pop t ts w)"] P(4) by auto
      then show ?thesis using wd_expire_step [OF Cons, of call] True h(2) P(4) by auto
    next
      case False
      then show ?thesis using wd_expire_step [OF Cons, of call] due_Nil [OF less.prems Cons] by simp
    qed
  qed
qed

lemma wd_expire_quiet:
  assumes "wd_ok w"
  shows "\<exists>w'. wd_expire (\<lambda>_ w. w) w = Some (due w, w') \<and> wd_idle w' \<and>
    expiries (lag w') 0 (g_wdactivelist w') = filter (\<lambda>(_, e). e > 0) (expiries (lag w) 0 (g_wdactivelist w))"
  using assms
proof (induction "length (g_wdactivelist w)" arbitrary: w)
  case 0
  then show ?case by (subst wd_expire.simps) (auto simp: wd_idle_def due_def)
next
  case (Suc n)
  then obtain t ts where l: "g_wdactivelist w = t # ts" by (cases "g_wdactivelist w") auto
  show ?case
  proof (cases "lag w t \<le> 0")
    case True
    note P = wd_pop_ok [OF Suc.prems l True]
    have z: "lag w t = 0" using wd_okD(4) [OF Suc.prems, of t] l True by simp
    obtain w' where "wd_expire (\<lambda>_ w. w) (wd_pop t ts w) = Some (due (wd_pop t ts w), w')" "wd_idle w'"
      "expiries (lag w') 0 (g_wdactivelist w') = filter (\<lambda>(_, e). e > 0) (expiries (lag w) 0 ts)"
      using Suc.hyps(1) [of "wd_pop t ts w"] Suc.hyps(2) P l by auto
    then show ?thesis using wd_expire_step [OF l, of "\<lambda>_ w. w"] True P(4) l z by simp
  next
    case False
    note E = due_Nil [OF Suc.prems l False]
    have "filter (\<lambda>(_, e). e > 0) (expiries (lag w) 0 (g_wdactivelist w)) = expiries (lag w) 0 (g_wdactivelist w)"
      using E(2) by (intro filter_True) (auto simp: wd_idle_def)
    then show ?thesis using wd_expire_step [OF l, of "\<lambda>_ w. w"] False E by simp
  qed
qed

subsection \<open>The interface of a timer service\<close>

text \<open>The expirations of \<open>n\<close> ticks, tick by tick.\<close>

fun ticks :: "('w \<Rightarrow> ('a list \<times> 'w) option) \<Rightarrow> nat \<Rightarrow> 'w \<Rightarrow> ('a list list \<times> 'w) option" where
  "ticks tick 0 w = Some ([], w)"
| "ticks tick (Suc n) w = do { (l, w) \<leftarrow> tick w; (ls, w) \<leftarrow> ticks tick n w; Some (l # ls, w) }"

locale timer_service =
  fixes inv :: "'w \<Rightarrow> bool"
    and left :: "'w \<Rightarrow> 'a \<Rightarrow> int option"
    and start :: "'a \<Rightarrow> int \<Rightarrow> 'w \<Rightarrow> 'w option"
    and stop :: "'a \<Rightarrow> 'w \<Rightarrow> 'w option"
    and tick :: "'w \<Rightarrow> ('a list \<times> 'w) option"
    and valid :: "'a \<Rightarrow> bool"
  assumes start: "inv w \<Longrightarrow> valid t \<Longrightarrow> 0 \<le> d \<Longrightarrow> d < 2 ^ 31 - 1 \<Longrightarrow>
      \<exists>w'. start t d w = Some w' \<and> inv w' \<and> left w' = (left w)(t \<mapsto> d + 1)"
    and stop: "inv w \<Longrightarrow> valid t \<Longrightarrow> \<exists>w'. stop t w = Some w' \<and> inv w' \<and> left w' = (left w)(t := None)"
    and tick: "inv w \<Longrightarrow> \<exists>l w'. tick w = Some (l, w') \<and> inv w' \<and> (\<forall>t. t \<in> set l \<longleftrightarrow> left w t = Some 1) \<and>
      (\<forall>t. left w' t = (case left w t of None \<Rightarrow> None | Some e \<Rightarrow> if e = 1 then None else Some (e - 1)))"
    and positive: "inv w \<Longrightarrow> left w t = Some e \<Longrightarrow> 1 \<le> e"
begin

text \<open>A timer with \<open>e\<close> ticks left expires at the tick number \<open>e\<close> and at no other of the next \<open>n\<close>.\<close>

lemma expires_at:
  assumes "inv w" "left w t = Some e"
  shows "\<exists>ls w'. ticks tick n w = Some (ls, w') \<and> inv w' \<and> length ls = n \<and> (\<forall>i<n. t \<in> set (ls ! i) \<longleftrightarrow> int i + 1 = e)"
  using assms
proof (induction n arbitrary: w e)
  case (Suc n)
  obtain l w1 where w1: "tick w = Some (l, w1)" "inv w1" "t \<in> set l \<longleftrightarrow> e = 1"
    "left w1 t = (if e = 1 then None else Some (e - 1))"
    using tick [OF Suc.prems(1)] Suc.prems(2) by force
  obtain ls w' where r: "ticks tick n w1 = Some (ls, w')" "inv w'" "length ls = n"
    "\<forall>i<n. t \<in> set (ls ! i) \<longleftrightarrow> int i + 1 = e - 1"
  proof (cases "e = 1")
    case True
    then have n: "left w1 t = None" using w1(4) by simp
    have "inv w0 \<Longrightarrow> left w0 t = None \<Longrightarrow> \<exists>ls w'. ticks tick m w0 = Some (ls, w') \<and> inv w' \<and> length ls = m \<and> (\<forall>i<m. t \<notin> set (ls ! i))" for w0 m
    proof (induction m arbitrary: w0)
      case (Suc m)
      obtain l1 w2 where "tick w0 = Some (l1, w2)" "inv w2" "t \<notin> set l1" "left w2 t = None"
        using tick [OF Suc.prems(1)] Suc.prems(2) by force
      then show ?case using Suc.IH [of w2] by (force simp: nth_Cons split: nat.splits)
    qed simp
    from this [OF w1(2) n, of n] obtain ls w' where "ticks tick n w1 = Some (ls, w')" "inv w'" "length ls = n" "\<forall>i<n. t \<notin> set (ls ! i)"
      by blast
    then show thesis using that [of ls w'] True by auto
  next
    case False
    then show thesis using Suc.IH [OF w1(2), of "e - 1"] w1(4) that by auto
  qed
  have "\<forall>i<Suc n. t \<in> set ((l # ls) ! i) \<longleftrightarrow> int i + 1 = e"
    using r(4) w1(3) by (auto simp: nth_Cons split: nat.splits)
  then show ?case using w1(1) r(1-3) by (intro exI [of _ "l # ls"] exI [of _ w']) simp
qed simp

text \<open>So a started timer expires after its delay, whatever other timers there are.\<close>

lemma started_expires:
  assumes "inv w" "valid t" "0 \<le> d" "d < 2 ^ 31 - 1"
  shows "\<exists>w1 ls w'. start t d w = Some w1 \<and> ticks tick n w1 = Some (ls, w') \<and> inv w' \<and> (\<forall>i<n. t \<in> set (ls ! i) \<longleftrightarrow> int i = d)"
proof -
  obtain w1 where "start t d w = Some w1" "inv w1" "left w1 t = Some (d + 1)" using start [OF assms] by force
  then show ?thesis using expires_at [of w1 t "d + 1" n] by auto
qed

end

lemma expiries_shift: "expiries lg (b - 1) xs = map (\<lambda>(u, e). (u, e - 1)) (expiries lg b xs)"
  by (induction xs arbitrary: b) (simp_all add: diff_add_eq)

text \<open>The first statement of the interrupt handler takes a tick from every watchdog.\<close>

lemma wd_tick_head:
  assumes ok: "wd_idle w" and Cons: "g_wdactivelist w = t # ts"
  shows "wd_ok (set_lag t (lag w t - 1) w)"
    and "expiries (lag (set_lag t (lag w t - 1) w)) 0 (g_wdactivelist (set_lag t (lag w t - 1) w)) =
      map (\<lambda>(u, e). (u, e - 1)) (expiries (lag w) 0 (g_wdactivelist w))"
    and "due (set_lag t (lag w t - 1) w) = map fst (filter (\<lambda>(_, e). e = 1) (expiries (lag w) 0 (g_wdactivelist w)))"
proof -
  let ?w = "set_lag t (lag w t - 1) w"
  have wok: "wd_ok w" using ok by (simp add: wd_idle_def)
  note D = wd_okD [OF wok]
  have tn: "t \<notin> set ts" using D(1) Cons by simp
  show ex: "expiries (lag ?w) 0 (g_wdactivelist ?w) = map (\<lambda>(u, e). (u, e - 1)) (expiries (lag w) 0 (g_wdactivelist w))"
  proof -
    have "expiries (lag ?w) (lag w t - 1) ts = expiries (lag w) (lag w t - 1) ts" using tn by (auto simp: set_lag_def intro!: expiries_cong)
    then show ?thesis using Cons expiries_shift [of "lag w" "lag w t" ts] by (simp add: set_lag_def)
  qed
  have pos: "1 \<le> e" if "(u, e) \<in> set (expiries (lag w) 0 (g_wdactivelist w))" for u e
    using ok that by (auto simp: wd_idle_def)
  show "wd_ok ?w"
    unfolding wd_ok_def ex using D pos [of t "lag w t"] Cons by (fastforce simp: set_lag_def)
  have "filter (\<lambda>x. snd x \<le> 1) xs = filter (\<lambda>x. snd x = 1) xs" if "\<forall>x\<in>set xs. 1 \<le> snd x" for xs :: "(addr \<times> int) list"
    using that by (intro filter_cong) auto
  moreover have "\<forall>x\<in>set (expiries (lag w) 0 (g_wdactivelist w)). 1 \<le> snd x" using pos by auto
  ultimately show "due ?w = map fst (filter (\<lambda>(_, e). e = 1) (expiries (lag w) 0 (g_wdactivelist w)))"
    unfolding due_def ex by (simp add: filter_map comp_def case_prod_unfold)
qed

lemma wd_timer_quiet:
  assumes ok: "wd_idle w"
  obtains w' where "wd_timer (\<lambda>_ w. w) w = Some (map fst (filter (\<lambda>(_, e). e = 1) (expiries (lag w) 0 (g_wdactivelist w))), w')"
    "wd_idle w'" "expiries (lag w') 0 (g_wdactivelist w') =
       map (\<lambda>(u, e). (u, e - 1)) (filter (\<lambda>(_, e). e \<noteq> 1) (expiries (lag w) 0 (g_wdactivelist w)))"
proof (cases "g_wdactivelist w")
  case Nil
  then show thesis using that [of w] ok by (simp add: wd_timer_def)
next
  case (Cons t ts)
  let ?w = "set_lag t (lag w t - 1) w"
  note T = wd_tick_head [OF ok Cons]
  have run: "wd_timer (\<lambda>_ w. w) w = wd_expire (\<lambda>_ w. w) ?w"
    using wd_expire_step [of ?w t ts "\<lambda>_ w. w"] Cons by (simp add: wd_timer_def Let_def set_lag_def)
  obtain w' where w': "wd_expire (\<lambda>_ w. w) ?w = Some (due ?w, w')" "wd_idle w'"
    "expiries (lag w') 0 (g_wdactivelist w') = filter (\<lambda>(_, e). e > 0) (expiries (lag ?w) 0 (g_wdactivelist ?w))"
    using wd_expire_quiet [OF T(1)] by blast
  have f2: "filter (\<lambda>x. 1 < snd x) xs = filter (\<lambda>x. snd x \<noteq> 1) xs" if "\<forall>x\<in>set xs. 1 \<le> snd x" for xs :: "(addr \<times> int) list"
    using that by (intro filter_cong) auto
  have p: "\<forall>x\<in>set (expiries (lag w) 0 (g_wdactivelist w)). 1 \<le> snd x" using ok by (auto simp: wd_idle_def)
  have "expiries (lag w') 0 (g_wdactivelist w') = map (\<lambda>(u, e). (u, e - 1)) (filter (\<lambda>(_, e). e \<noteq> 1) (expiries (lag w) 0 (g_wdactivelist w)))"
    unfolding w'(3) T(2) using f2 [OF p] by (simp add: filter_map comp_def case_prod_unfold)
  then show thesis using that [of w'] run w'(1,2) T(3) by simp
qed

text \<open>The watchdogs, with functions that leave the watchdogs alone, are such a service.\<close>

definition wd_start_state :: "addr \<Rightarrow> int \<Rightarrow> wdogs \<Rightarrow> wdogs option" where
  "wd_start_state t d w = (case wd_start t d 0 [] w of Some (Inr w') \<Rightarrow> Some w' | _ \<Rightarrow> None)"

lemma remaining_distinct: "wd_ok w \<Longrightarrow> distinct (map fst (expiries (lag w) 0 (g_wdactivelist w)))"
  using wd_okD(1) by simp

lemma remaining_mem: "wd_ok w \<Longrightarrow> remaining w t = Some e \<longleftrightarrow> (t, e) \<in> set (expiries (lag w) 0 (g_wdactivelist w))"
  unfolding remaining_def using remaining_distinct [of w] by (simp add: map_of_eq_Some_iff del: map_fst_expiries)

lemma remaining_start:
  assumes "expiries (lag w') 0 (g_wdactivelist w') = time_insert t d (filter (\<lambda>(u, _). u \<noteq> t) (expiries (lag w) 0 (g_wdactivelist w)))"
  shows "remaining w' = (remaining w)(t \<mapsto> d)"
proof -
  have "t \<notin> fst ` set (filter (\<lambda>(u, _). u \<noteq> t) (expiries (lag w) 0 (g_wdactivelist w)))" by auto
  from map_of_time_insert [OF this, of d] show ?thesis
    unfolding remaining_def assms map_of_filter_key by simp
qed

lemma wd_idle_start:
  assumes "wd_idle w" "wd_ok w'" "1 \<le> d"
    "expiries (lag w') 0 (g_wdactivelist w') = time_insert t d (filter (\<lambda>(u, _). u \<noteq> t) (expiries (lag w) 0 (g_wdactivelist w)))"
  shows "wd_idle w'"
  using assms(1-3) unfolding wd_idle_def assms(4) set_time_insert by auto

interpretation wd: timer_service wd_idle remaining wd_start_state "\<lambda>t w. map_option snd (wd_cancel t w)" "wd_timer (\<lambda>_ w. w)" "\<lambda>t. t \<noteq> NULL"
proof unfold_locales
  fix w assume ok: "wd_idle w"
  then have wok: "wd_ok w" by (simp add: wd_idle_def)
  show "1 \<le> e" if "remaining w t = Some e" for t e
    using ok that remaining_mem [OF wok] by (auto simp: wd_idle_def)
  show "\<exists>w'. wd_start_state t d w = Some w' \<and> wd_idle w' \<and> remaining w' = (remaining w)(t \<mapsto> d + 1)"
    if t: "t \<noteq> NULL" "0 \<le> d" "d < 2 ^ 31 - 1" for t d
  proof -
    have d: "wd_delay d = d + 1" "d < 2 ^ 31" using t by (auto simp: wd_delay_def)
    obtain w' where w': "wd_start t d 0 [] w = Some (Inr w')" "wd_ok w'"
      "expiries (lag w') 0 (g_wdactivelist w') = time_insert t (wd_delay d) (filter (\<lambda>(u, _). u \<noteq> t) (expiries (lag w) 0 (g_wdactivelist w)))"
      by (rule wd_start_ok [OF wok t(1,2) d(2), of "[]" 0]) auto
    show ?thesis
      using w'(1) wd_idle_start [OF ok w'(2) _ w'(3)] remaining_start [OF w'(3)] d(1) t(2) by (simp add: wd_start_state_def)
  qed
  show "\<exists>w'. map_option snd (wd_cancel t w) = Some w' \<and> wd_idle w' \<and> remaining w' = (remaining w)(t := None)" if "t \<noteq> NULL" for t
  proof (cases "t \<in> set (g_wdactivelist w)")
    case True
    obtain w' where w': "wd_cancel t w = Some (OK, w')" "wd_ok w'"
      "expiries (lag w') 0 (g_wdactivelist w') = filter (\<lambda>(u, _). u \<noteq> t) (expiries (lag w) 0 (g_wdactivelist w))"
      using wd_cancel_ok [OF wok True] by blast
    have "wd_idle w'" using ok w'(2) unfolding wd_idle_def w'(3) by auto
    then show ?thesis using w' by (simp add: remaining_def map_of_filter_key)
  next
    case False
    then have "remaining w t = None" using fst_expiries [of t "lag w" 0 "g_wdactivelist w"] by (simp add: remaining_def map_of_eq_None_iff)
    then show ?thesis using False ok wd_okD(3) [OF wok, of t] by (auto simp: wd_cancel_def)
  qed
  show "\<exists>l w'. wd_timer (\<lambda>_ w. w) w = Some (l, w') \<and> wd_idle w' \<and> (\<forall>t. t \<in> set l \<longleftrightarrow> remaining w t = Some 1) \<and>
      (\<forall>t. remaining w' t = (case remaining w t of None \<Rightarrow> None | Some e \<Rightarrow> if e = 1 then None else Some (e - 1)))"
  proof -
    obtain w' where w': "wd_timer (\<lambda>_ w. w) w = Some (map fst (filter (\<lambda>(_, e). e = 1) (expiries (lag w) 0 (g_wdactivelist w))), w')"
      "wd_idle w'" "expiries (lag w') 0 (g_wdactivelist w') = map (\<lambda>(u, e). (u, e - 1)) (filter (\<lambda>(_, e). e \<noteq> 1) (expiries (lag w) 0 (g_wdactivelist w)))"
      by (rule wd_timer_quiet [OF ok])
    have "wd_ok w'" using w'(2) by (simp add: wd_idle_def)
    have R: "remaining w' t = (case remaining w t of None \<Rightarrow> None | Some e \<Rightarrow> if e = 1 then None else Some (e - 1))" for t
    proof -
      have "remaining w' t = Some e' \<longleftrightarrow> (\<exists>e. remaining w t = Some e \<and> e \<noteq> 1 \<and> e' = e - 1)" for e'
        unfolding remaining_mem [OF \<open>wd_ok w'\<close>] remaining_mem [OF wok] w'(3) by force
      then show ?thesis by (cases "remaining w' t"; cases "remaining w t") (auto split: option.splits)
    qed
    have "t \<in> set (map fst (filter (\<lambda>(_, e). e = 1) (expiries (lag w) 0 (g_wdactivelist w)))) \<longleftrightarrow> remaining w t = Some 1" for t
      unfolding remaining_mem [OF wok] by force
    then show ?thesis using w'(1,2) R by blast
  qed
qed

subsection \<open>Functions that restart their watchdog\<close>

definition wd_restart :: "int \<Rightarrow> addr \<Rightarrow> wdogs \<Rightarrow> wdogs" where
  "wd_restart d t w = (case wd_start t d 0 [] w of Some (Inr w') \<Rightarrow> w' | _ \<Rightarrow> w)"

lemma length_filter_filter_le: "length (filter P (filter Q xs)) \<le> length (filter P xs)"
  by (induction xs) auto

lemma filter_time_insert:
  assumes "0 < d"
  shows "filter (\<lambda>(_, e). e \<le> 0) (time_insert t d ts) = filter (\<lambda>(_, e). e \<le> 0) ts"
proof -
  have "filter (\<lambda>(_, e). e \<le> 0) ts =
      filter (\<lambda>(_, e). e \<le> 0) (takeWhile (\<lambda>(_, e). e \<le> d) ts @ dropWhile (\<lambda>(_, e). e \<le> d) ts)" by simp
  then show ?thesis using assms unfolding time_insert_def filter_append by simp
qed

lemma wd_restart_handler_ok:
  assumes d: "0 \<le> d" "d < 2 ^ 31"
  shows "handler_ok (wd_restart d)"
  unfolding handler_ok_def
proof (intro allI impI)
  fix t w assume ok: "wd_ok w"
  show "wd_ok (wd_restart d t w) \<and> length (due (wd_restart d t w)) \<le> length (due w)"
  proof (cases "t = NULL")
    case True
    then show ?thesis using ok by (simp add: wd_restart_def wd_start_def)
  next
    case False
    obtain w' where w': "wd_start t d 0 [] w = Some (Inr w')" "wd_ok w'"
      "expiries (lag w') 0 (g_wdactivelist w') = time_insert t (wd_delay d) (filter (\<lambda>(u, _). u \<noteq> t) (expiries (lag w) 0 (g_wdactivelist w)))"
      by (rule wd_start_ok [OF ok False d, of "[]" 0]) auto
    have "0 < wd_delay d" using wd_delay_range [OF d] by simp
    then show ?thesis
      using w'(1,2) length_filter_filter_le [of "\<lambda>(_, e). e \<le> 0" "\<lambda>(u, _). u \<noteq> t" "expiries (lag w) 0 (g_wdactivelist w)"]
      by (simp add: wd_restart_def due_def w'(3) filter_time_insert)
  qed
qed

subsection \<open>Properties\<close>

text \<open>Three watchdogs: the two at 200 and 300 expire in 2 and 7 ticks, the one at 400 is idle.\<close>

definition wd3 :: wdogs where
  "wd3 = \<lparr>lag = (\<lambda>t. if t = 200 then 2 else 5), active = (\<lambda>t. t = 200 \<or> t = 300), wfunc = (\<lambda>_. 0), parm = (\<lambda>_. []),
     g_wdactivelist = [200, 300], g_wdfreelist = []\<rparr>"

lemma wd3_idle: "wd_idle wd3"
  by (auto simp: wd_idle_def wd_ok_def wd3_def)

lemmas wd3_ok = wd3_idle [unfolded wd_idle_def, THEN conjunct1]

text \<open>
  C16: Starting a watchdog refines the update of a map from watchdogs to remaining ticks. In a valid state and
  for a valid call \<open>wd_start\<close> succeeds, keeps the invariant and gives the watchdog \<open>delay + 1\<close> ticks (\<open>delay\<close> when that would
  overflow), whether or not it was active, while no other watchdog's time changes; in the delta list it stands
  behind the watchdogs that expire at the same tick.
\<close>

theorem wd_start_refines:
  assumes "wd_ok w" and "t \<noteq> NULL" and "0 \<le> delay" "delay < 2 ^ 31" and "length parms \<le> MAX_WDOGPARMS"
  shows "\<exists>w'. wd_start t delay fn parms w = Some (Inr w') \<and> wd_ok w' \<and> remaining w' = (remaining w)(t \<mapsto> wd_delay delay) \<and>
    expiries (lag w') 0 (g_wdactivelist w') =
      time_insert t (wd_delay delay) (filter (\<lambda>(u, _). u \<noteq> t) (expiries (lag w) 0 (g_wdactivelist w)))"
proof -
  obtain w' where w': "wd_start t delay fn parms w = Some (Inr w')" "wd_ok w'"
    "expiries (lag w') 0 (g_wdactivelist w') =
       time_insert t (wd_delay delay) (filter (\<lambda>(u, _). u \<noteq> t) (expiries (lag w) 0 (g_wdactivelist w)))"
    by (rule wd_start_ok [OF assms, where fn = fn]) blast
  then show ?thesis using remaining_start [OF w'(3)] by blast
qed

theorem wd_start_refines_witness:
  "\<exists>w'. wd_start 400 4 0 [] wd3 = Some (Inr w') \<and> wd_ok w' \<and> remaining w' = (remaining wd3)(400 \<mapsto> 5) \<and>
    expiries (lag w') 0 (g_wdactivelist w') = [(200, 2), (400, 5), (300, 7)]"
  using wd_start_refines [OF wd3_ok, of 400 4 "[]" 0] by (simp add: wd_delay_def time_insert_def wd3_def)

text \<open>
  C17: Watchdogs are on time. A watchdog started with a delay of \<open>d\<close> ticks expires exactly at the tick number \<open>d\<close> (from
  0) of any number of following ticks and at no other, whatever watchdogs are active (with functions that leave the
  watchdogs alone); every tick returns.
\<close>

theorem wd_fires_on_time:
  assumes "wd_idle w" and "t \<noteq> NULL" and "0 \<le> d" "d < 2 ^ 31 - 1"
  shows "\<exists>w1 ls w'. wd_start t d 0 [] w = Some (Inr w1) \<and> ticks (wd_timer (\<lambda>_ w. w)) n w1 = Some (ls, w') \<and> wd_idle w' \<and>
    (\<forall>i<n. t \<in> set (ls ! i) \<longleftrightarrow> int i = d)"
proof -
  obtain w1 ls w' where "wd_start_state t d w = Some w1" "ticks (wd_timer (\<lambda>_ w. w)) n w1 = Some (ls, w')" "wd_idle w'"
    "\<forall>i<n. t \<in> set (ls ! i) \<longleftrightarrow> int i = d"
    using wd.started_expires [OF assms] by blast
  then show ?thesis by (auto simp: wd_start_state_def split: option.splits sum.splits)
qed

theorem wd_fires_on_time_witness:
  "\<exists>w1 ls w'. wd_start 400 4 0 [] wd3 = Some (Inr w1) \<and> ticks (wd_timer (\<lambda>_ w. w)) 6 w1 = Some (ls, w') \<and> wd_idle w' \<and>
    (\<forall>i<6. 400 \<in> set (ls ! i) \<longleftrightarrow> int i = 4)"
  using wd_fires_on_time [OF wd3_idle, of 400 4 6] by simp

text \<open>
  C18: The timer interrupt terminates. Whatever the watchdog functions do, as long as they keep the list valid and add no
  watchdog that is already due, the loop of \<open>wd_timer\<close> ends after at most as many calls as watchdogs had one tick left, and the
  remaining watchdogs all have time left. Functions that restart their own watchdog, with any delay, satisfy this.
\<close>

theorem wd_timer_terminates:
  assumes "wd_idle w"
  shows "(\<forall>call. handler_ok call \<longrightarrow> (\<exists>log w'. wd_timer call w = Some (log, w') \<and> wd_idle w' \<and>
      length log \<le> length (filter (\<lambda>(_, e). e = 1) (expiries (lag w) 0 (g_wdactivelist w))))) \<and>
    (\<forall>d. 0 \<le> d \<and> d < 2 ^ 31 \<longrightarrow> handler_ok (wd_restart d))"
proof (intro conjI allI impI)
  fix call assume h: "handler_ok call"
  show "\<exists>log w'. wd_timer call w = Some (log, w') \<and> wd_idle w' \<and>
      length log \<le> length (filter (\<lambda>(_, e). e = 1) (expiries (lag w) 0 (g_wdactivelist w)))"
  proof (cases "g_wdactivelist w")
    case Nil
    then show ?thesis using assms by (simp add: wd_timer_def)
  next
    case (Cons t ts)
    note T = wd_tick_head [OF assms Cons]
    from wd_expire_terminates [OF h T(1)] obtain log w' where
      r: "wd_expire call (set_lag t (lag w t - 1) w) = Some (log, w')" "wd_idle w'" "length log \<le> length (due (set_lag t (lag w t - 1) w))"
      by blast
    moreover have "wd_timer call w = wd_expire call (set_lag t (lag w t - 1) w)"
      using wd_expire_step [of "set_lag t (lag w t - 1) w" t ts call] Cons by (simp add: wd_timer_def Let_def set_lag_def)
    ultimately show ?thesis using T(3) by auto
  qed
qed (simp add: wd_restart_handler_ok)

theorem wd_timer_terminates_witness:
  "\<exists>log w'. wd_timer (wd_restart 0) (set_lag 200 1 wd3) = Some (log, w') \<and> wd_idle w' \<and> length log \<le> 1"
proof -
  have "wd_idle (set_lag 200 1 wd3)" by (auto simp: wd_idle_def wd_ok_def wd3_def set_lag_def)
  from wd_timer_terminates [OF this] show ?thesis by (force simp: wd3_def set_lag_def)
qed

text \<open>
  \<open>wd_gettime\<close> reads the map: it returns the remaining ticks of an active watchdog and 0 of an inactive one, and the
  sum it computes stays within a 32-bit signed integer.
\<close>

theorem wd_gettime_bounds:
  assumes "wd_ok w"
  shows "wd_gettime t w = (case remaining w t of None \<Rightarrow> 0 | Some e \<Rightarrow> e) \<and> 0 \<le> wd_gettime t w \<and> wd_gettime t w < 2 ^ 31"
proof -
  have e: "wd_gettime t w = (case remaining w t of None \<Rightarrow> 0 | Some e \<Rightarrow> e)"
  proof (cases "t \<in> set (g_wdactivelist w)")
    case True
    then have "t \<noteq> NULL" "active w t" using wd_okD(2,3) [OF assms] by metis+
    then show ?thesis by (simp add: wd_gettime_def wd_gettime_loop_eq remaining_def)
  next
    case False
    then have "remaining w t = None" using fst_expiries [of t "lag w" 0 "g_wdactivelist w"] by (simp add: remaining_def map_of_eq_None_iff)
    then show ?thesis using False wd_okD(3) [OF assms, of t] by (simp add: wd_gettime_def)
  qed
  have "0 \<le> e \<and> e < 2 ^ 31" if "remaining w t = Some e" for e
    using that wd_okD(5) [OF assms, of t e] expiries_mono [of "g_wdactivelist w" "lag w" t e 0] wd_okD(4) [OF assms]
    unfolding remaining_mem [OF assms] by simp
  then show ?thesis unfolding e by (auto split: option.splits)
qed

theorem wd_gettime_bounds_witness: "wd_gettime 300 wd3 = 7 \<and> 0 \<le> wd_gettime 300 wd3"
  using wd_gettime_bounds [OF wd3_ok, of 300] by (simp add: remaining_def wd3_def)

text \<open>
  Starting an idle watchdog and cancelling it restores the list: \<open>wd_cancel\<close> gives the ticks that \<open>wd_start\<close> took from the
  successor back to it, so that every other watchdog keeps its time and its place.
\<close>

theorem wd_start_cancel_roundtrip:
  assumes "wd_ok w" and "t \<noteq> NULL" and "0 \<le> delay" "delay < 2 ^ 31" and "length parms \<le> MAX_WDOGPARMS" and "\<not> active w t"
  shows "\<exists>w1 w2. wd_start t delay fn parms w = Some (Inr w1) \<and> wd_cancel t w1 = Some (OK, w2) \<and> wd_ok w2 \<and>
    g_wdactivelist w2 = g_wdactivelist w \<and> active w2 = active w \<and> (\<forall>u\<in>set (g_wdactivelist w). lag w2 u = lag w u)"
proof -
  have nt: "t \<notin> set (g_wdactivelist w)" using assms(6) wd_okD(3) [OF assms(1)] by simp
  obtain w1 where w1: "wd_start t delay fn parms w = Some (Inr w1)" "wd_ok w1"
    "expiries (lag w1) 0 (g_wdactivelist w1) =
       time_insert t (wd_delay delay) (filter (\<lambda>(u, _). u \<noteq> t) (expiries (lag w) 0 (g_wdactivelist w)))"
    by (rule wd_start_ok [OF assms(1-5), where fn = fn]) blast
  have "t \<in> set (g_wdactivelist w1)"
    using arg_cong [OF w1(3), of "\<lambda>x. set (map fst x)"] unfolding fst_time_insert map_fst_expiries by simp
  from wd_cancel_ok [OF w1(2) this] obtain w2 where w2: "wd_cancel t w1 = Some (OK, w2)" "wd_ok w2"
    "expiries (lag w2) 0 (g_wdactivelist w2) = filter (\<lambda>(u, _). u \<noteq> t) (expiries (lag w1) 0 (g_wdactivelist w1))" by blast
  have ex: "expiries (lag w2) 0 (g_wdactivelist w2) = expiries (lag w) 0 (g_wdactivelist w)"
    unfolding w2(3) w1(3) filter_key_time_insert using filter_expiries_notin [OF nt] by simp
  have g: "g_wdactivelist w2 = g_wdactivelist w" using arg_cong [OF ex, of "map fst"] by simp
  have "active w2 = active w" using wd_okD(3) [OF w2(2)] wd_okD(3) [OF assms(1)] g by (simp add: fun_eq_iff)
  then show ?thesis using w1(1) w2(1,2) g expiries_lag [OF ex [unfolded g]] by blast
qed

theorem wd_start_cancel_roundtrip_witness:
  "\<exists>w1 w2. wd_start 400 4 0 [] wd3 = Some (Inr w1) \<and> wd_cancel 400 w1 = Some (OK, w2) \<and> lag w2 300 = 5"
  using wd_start_cancel_roundtrip [OF wd3_ok, where t = 400 and delay = 4 and parms = "[]" and fn = 0] by (force simp: wd3_def)

end
