(* ===== verification/Cstring.thy ===== *)
theory Cstring
  imports Prelude
begin

section \<open>C strings\<close>

text \<open>
  A string of the C library is read from a pointer on: the list of the characters from there to the end of the
  object it lies in. A read beyond the end is \<^const>\<open>None\<close>. \<open>lib/string\<close> has the functions.
\<close>

abbreviation NUL :: char where "NUL \<equiv> CHR 0x00"

fun strlen :: "char list \<Rightarrow> nat option" where
  "strlen [] = None"
| "strlen (c # s) = (if c \<noteq> NUL then map_option Suc (strlen s) else Some 0)"

text \<open>The offset of the character, or \<^term>\<open>Some None\<close> for the result NULL.\<close>

fun strchr :: "char list \<Rightarrow> char \<Rightarrow> nat option option" where
  "strchr [] c = None"
| "strchr (d # s) c =
     (if d \<noteq> NUL then if d = c then Some (Some 0) else map_option (map_option Suc) (strchr s c) else Some None)"

text \<open>The string at a pointer, without its terminator.\<close>

fun cstring :: "char list \<Rightarrow> char list option" where
  "cstring [] = None"
| "cstring (c # s) = (if c \<noteq> NUL then map_option (Cons c) (cstring s) else Some [])"

lemma strlen_term [simp]: "NUL \<notin> set s \<Longrightarrow> strlen (s @ NUL # r) = Some (length s)"
  by (induction s) auto

lemma cstring_term [simp]: "NUL \<notin> set s \<Longrightarrow> cstring (s @ NUL # r) = Some s"
  by (induction s) auto

lemma strchr_found [simp]: "NUL \<notin> set s \<Longrightarrow> c \<notin> set s \<Longrightarrow> c \<noteq> NUL \<Longrightarrow> strchr (s @ c # r) c = Some (Some (length s))"
  by (induction s) auto

lemma strchr_missing [simp]: "NUL \<notin> set s \<Longrightarrow> c \<notin> set s \<Longrightarrow> strchr (s @ NUL # r) c = Some None"
  by (induction s) auto

end
