(* ===== verification/Env.thy ===== *)
theory Env
  imports Calm Cstring
begin

section \<open>Environment variables\<close>

text \<open>
  The environment of a task (\<open>sched/env_*.c\<close>): a reference-counted block of strings \<open>name=value\<close>, each with its terminator, shared by
  the threads of a task. The blocks are in a store (\<open>environ\<close>), \<^const>\<open>None\<close> where no block is allocated; \<open>envp\<close> is
  the field of the TCB. \<open>ev_alloc\<close> is the length of \<open>ev_env\<close>. The results of \<open>kmalloc\<close> and \<open>krealloc\<close> are arguments. An
  access to a freed block or beyond its end is \<^const>\<open>None\<close>.
\<close>

subsection \<open>State and the search in a block (env\_findvar.c, env\_removevar.c)\<close>

record environ_s =
  ev_crefs :: nat
  ev_env :: "char list"

record env_kernel = task_kernel +
  envp :: "addr \<Rightarrow> addr"
  environ :: "addr \<Rightarrow> environ_s option"


text \<open>The first argument has its terminator.\<close>

fun env_cmpname :: "char list \<Rightarrow> char list \<Rightarrow> bool option" where
  "env_cmpname (a # as) (b # bs) = (if a = b then env_cmpname as bs else Some (a = NUL \<and> b = CHR ''=''))"
| "env_cmpname _ _ = None"

text \<open>\<open>ptr\<close> is the offset of the rest of the block.\<close>

function env_findvar_loop :: "char list \<Rightarrow> char list \<Rightarrow> nat \<Rightarrow> nat option option" where
  "env_findvar_loop nm rs ptr =
     (if rs = [] then Some None
      else do {
        b \<leftarrow> env_cmpname (nm @ [NUL]) rs;
        if b then Some (Some ptr)
        else do { n \<leftarrow> strlen rs; env_findvar_loop nm (drop (n + 1) rs) (ptr + (n + 1)) }
      })"
  by auto
termination by (relation "measure (\<lambda>(_, rs, _). length rs)") auto

declare env_findvar_loop.simps [simp del]

definition env_findvar :: "environ_s \<Rightarrow> char list \<Rightarrow> nat option option" where
  "env_findvar e nm = env_findvar_loop nm (ev_env e) 0"

definition env_removevar :: "environ_s \<Rightarrow> nat \<Rightarrow> (int \<times> environ_s) option" where
  "env_removevar e pvar =
     (if pvar < length (ev_env e)
      then do {
        n \<leftarrow> strlen (drop pvar (ev_env e));
        Some (OK, e\<lparr>ev_env := take pvar (ev_env e) @ drop (pvar + (n + 1)) (ev_env e)\<rparr>)
      }
      else Some (ERROR, e))"

definition env_krealloc :: "addr \<Rightarrow> addr \<Rightarrow> 'z env_kernel_scheme \<Rightarrow> 'z env_kernel_scheme" where
  "env_krealloc ep tmp k = k\<lparr>environ := (environ k)(ep := None, tmp := environ k ep)\<rparr>"

subsection \<open>Reading and changing variables\<close>

definition getenv :: "char list option \<Rightarrow> 'z env_kernel_scheme \<Rightarrow> (char list option \<times> 'z env_kernel_scheme) option" where
  "getenv name k =
     (case name of
        None \<Rightarrow> Some (None, set_errno EINVAL k)
      | Some nm \<Rightarrow> do {
          k \<leftarrow> sched_lock k;
          let ep = envp k (list_head (g_readytorun k));
          r \<leftarrow> (if ep = NULL then Some (Inl ENOENT)
               else do {
                 e \<leftarrow> environ k ep;
                 pvar \<leftarrow> env_findvar e nm;
                 case pvar of
                   None \<Rightarrow> Some (Inl ENOENT)
                 | Some p \<Rightarrow> do {
                     pvalue \<leftarrow> strchr (drop p (ev_env e)) (CHR ''='');
                     case pvalue of
                       None \<Rightarrow> Some (Inl EINVAL)
                     | Some i \<Rightarrow> map_option Inr (cstring (drop (p + i + 1) (ev_env e)))
                   }
               });
          k \<leftarrow> sched_unlock k;
          Some (case r of Inl err \<Rightarrow> (None, set_errno err k) | Inr v \<Rightarrow> (Some v, k))
        })"

text \<open>\<open>tmp\<close> is the result of \<open>krealloc\<close> or \<open>kmalloc\<close>.\<close>

definition unsetenv :: "char list option \<Rightarrow> addr \<Rightarrow> 'z env_kernel_scheme \<Rightarrow> (int \<times> 'z env_kernel_scheme) option" where
  "unsetenv name tmp k =
     (case name of
        None \<Rightarrow> Some (ERROR, set_errno EINVAL k)
      | Some nm \<Rightarrow> do {
          k \<leftarrow> sched_lock k;
          let rtcb = list_head (g_readytorun k);
          let ep = envp k rtcb;
          (ret, k) \<leftarrow> (if ep = NULL then Some (OK, k)
               else do {
                 e \<leftarrow> environ k ep;
                 pvar \<leftarrow> env_findvar e nm;
                 case pvar of
                   None \<Rightarrow> Some (OK, k)
                 | Some p \<Rightarrow> do {
                     (_, e) \<leftarrow> env_removevar e p;
                     let k = k\<lparr>environ := (environ k)(ep \<mapsto> e)\<rparr>;
                     Some (if tmp = NULL then (ENOMEM, k) else (OK, (env_krealloc ep tmp k)\<lparr>envp := (envp k)(rtcb := tmp)\<rparr>))
                   }
               });
          k \<leftarrow> sched_unlock k;
          Some (if ret = OK then (OK, k) else (ERROR, set_errno ret k))
        })"

definition env_entry :: "char list \<Rightarrow> char list \<Rightarrow> char list" where
  "env_entry nm v = nm @ CHR ''='' # v @ [NUL]"

text \<open>What \<open>setenv\<close> does under the lock; the result \<^const>\<open>None\<close> of the inner option is the early return.\<close>

definition setenv_locked :: "char list \<Rightarrow> char list \<Rightarrow> bool \<Rightarrow> addr \<Rightarrow> addr \<Rightarrow> 'z env_kernel_scheme \<Rightarrow> (int \<times> 'z env_kernel_scheme) option" where
  "setenv_locked nm v overwrite tmp rtcb k =
     (let ep = envp k rtcb
      in if ep = NULL
         then Some (if tmp = NULL then (ENOMEM, k)
                    else (OK, k\<lparr>environ := (environ k)(tmp \<mapsto> \<lparr>ev_crefs = 1, ev_env = env_entry nm v\<rparr>), envp := (envp k)(rtcb := tmp)\<rparr>))
         else do {
           e \<leftarrow> environ k ep;
           pvar \<leftarrow> env_findvar e nm;
           if pvar \<noteq> None \<and> \<not> overwrite then Some (OK, k)
           else do {
             e \<leftarrow> (case pvar of None \<Rightarrow> Some e | Some p \<Rightarrow> map_option snd (env_removevar e p));
             let k = k\<lparr>environ := (environ k)(ep \<mapsto> e)\<rparr>;
             Some (if tmp = NULL then (ENOMEM, k)
                   else (OK, (env_krealloc ep tmp k)\<lparr>environ := (environ (env_krealloc ep tmp k))(tmp \<mapsto> e\<lparr>ev_env := ev_env e @ env_entry nm v\<rparr>),
                                                    envp := (envp k)(rtcb := tmp)\<rparr>))
           }
         })"

definition setenv :: "char list option \<Rightarrow> char list option \<Rightarrow> bool \<Rightarrow> addr \<Rightarrow> 'z env_kernel_scheme \<Rightarrow> (int \<times> 'z env_kernel_scheme) option" where
  "setenv name value overwrite tmp k =
     (case name of
        None \<Rightarrow> Some (ERROR, set_errno EINVAL k)
      | Some nm \<Rightarrow>
          (if value = None \<or> value = Some []
           then if overwrite then unsetenv (Some nm) tmp k else Some (OK, k)
           else do {
             k \<leftarrow> sched_lock k;
             (ret, k) \<leftarrow> setenv_locked nm (the value) overwrite tmp (list_head (g_readytorun k)) k;
             k \<leftarrow> sched_unlock k;
             Some (if ret = OK then (OK, k) else (ERROR, set_errno ret k))
           }))"

text \<open>\<open>dup\<close> tells that \<open>strdup\<close> got its memory. A string without \<open>=\<close> is accepted and ignored.\<close>

definition putenv :: "char list option \<Rightarrow> bool \<Rightarrow> addr \<Rightarrow> 'z env_kernel_scheme \<Rightarrow> (int \<times> 'z env_kernel_scheme) option" where
  "putenv str dup tmp k =
     (case str of
        None \<Rightarrow> Some (ERROR, set_errno EINVAL k)
      | Some s \<Rightarrow>
          (if \<not> dup then Some (ERROR, set_errno ENOMEM k)
           else do {
             pequal \<leftarrow> strchr (s @ [NUL]) (CHR ''='');
             case pequal of
               None \<Rightarrow> Some (OK, k)
             | Some i \<Rightarrow> setenv (Some (take i s)) (Some (drop (i + 1) s)) True tmp k
           }))"

subsection \<open>Tasks and threads\<close>

definition env_dup :: "addr \<Rightarrow> addr \<Rightarrow> 'z env_kernel_scheme \<Rightarrow> (int \<times> 'z env_kernel_scheme) option" where
  "env_dup ptcb tmp k =
     (if ptcb = NULL then Some (- EINVAL, k)
      else let parent = list_head (g_readytorun k)
      in do {
        k \<leftarrow> sched_lock k;
        (ret, ep, k) \<leftarrow> (if envp k parent \<noteq> NULL
             then do {
               e \<leftarrow> environ k (envp k parent);
               Some (if tmp = NULL then (- ENOMEM, NULL, k)
                     else (OK, tmp, k\<lparr>environ := (environ k)(tmp \<mapsto> \<lparr>ev_crefs = 1, ev_env = ev_env e\<rparr>)\<rparr>))
             }
             else Some (OK, NULL, k));
        let k = k\<lparr>envp := (envp k)(ptcb := ep)\<rparr>;
        k \<leftarrow> sched_unlock k;
        Some (ret, k)
      })"

definition env_share :: "addr \<Rightarrow> 'z env_kernel_scheme \<Rightarrow> (int \<times> 'z env_kernel_scheme) option" where
  "env_share ptcb k =
     (if ptcb = NULL then Some (- EINVAL, k)
      else let ep = envp k (list_head (g_readytorun k))
      in do {
        k \<leftarrow> sched_lock k;
        k \<leftarrow> (if ep \<noteq> NULL
             then do { e \<leftarrow> environ k ep; Some (k\<lparr>environ := (environ k)(ep \<mapsto> e\<lparr>ev_crefs := add32 (ev_crefs e) 1\<rparr>)\<rparr>) }
             else Some k);
        let k = k\<lparr>envp := (envp k)(ptcb := ep)\<rparr>;
        k \<leftarrow> sched_unlock k;
        Some (OK, k)
      })"

definition env_release :: "addr \<Rightarrow> 'z env_kernel_scheme \<Rightarrow> (int \<times> 'z env_kernel_scheme) option" where
  "env_release ptcb k =
     (if ptcb = NULL then Some (- EINVAL, k)
      else do {
        k \<leftarrow> sched_lock k;
        let ep = envp k ptcb;
        k \<leftarrow> (if ep \<noteq> NULL
             then do {
               e \<leftarrow> environ k ep;
               let k = (if ev_crefs e \<le> 1 then k\<lparr>environ := (environ k)(ep := None)\<rparr>
                        else k\<lparr>environ := (environ k)(ep \<mapsto> e\<lparr>ev_crefs := ev_crefs e - 1\<rparr>)\<rparr>);
               Some (k\<lparr>envp := (envp k)(ptcb := NULL)\<rparr>)
             }
             else Some k);
        k \<leftarrow> sched_unlock k;
        Some (OK, k)
      })"

definition clearenv :: "'z env_kernel_scheme \<Rightarrow> (int \<times> 'z env_kernel_scheme) option" where
  "clearenv k = env_release (list_head (g_readytorun k)) k"

end
