(* ===== verification/Env_Ops.thy ===== *)
theory Env_Ops
  imports Env
begin

section \<open>The environment block as a list of variables\<close>

text \<open>
  A block is the concatenation of the entries of a list of variables (\<open>encode\<close>); \<open>env_parse\<close> reads the list back. \<open>env_findvar\<close> and
  \<open>env_removevar\<close> are then lookup and removal in the list. The calls of the kernel are given by one equation each: the lock and unlock around
  them cancel, so that the effect is an assignment to the environment of the running task.
\<close>

subsection \<open>Blocks\<close>

definition valid_name :: "char list \<Rightarrow> bool" where
  "valid_name n \<longleftrightarrow> NUL \<notin> set n \<and> CHR ''='' \<notin> set n"

definition env_wf :: "(char list \<times> char list) list \<Rightarrow> bool" where
  "env_wf vs \<longleftrightarrow> (\<forall>(n, v)\<in>set vs. valid_name n \<and> NUL \<notin> set v) \<and> distinct (map fst vs)"

definition encode :: "(char list \<times> char list) list \<Rightarrow> char list" where
  "encode vs = concat (map (\<lambda>(n, v). env_entry n v) vs)"

function env_parse :: "char list \<Rightarrow> (char list \<times> char list) list" where
  "env_parse s =
     (if s = [] then []
      else let e = takeWhile (\<lambda>c. c \<noteq> NUL) s
           in (takeWhile (\<lambda>c. c \<noteq> CHR ''='') e, tl (dropWhile (\<lambda>c. c \<noteq> CHR ''='') e)) # env_parse (tl (dropWhile (\<lambda>c. c \<noteq> NUL) s)))"
  by auto
termination
proof (relation "measure length")
  fix s :: "char list" assume "s \<noteq> []"
  then show "(tl (dropWhile (\<lambda>c. c \<noteq> NUL) s), s) \<in> measure length"
    using length_dropWhile_le [of "\<lambda>c. c \<noteq> NUL" s] by (cases s) (auto simp: less_Suc_eq_le intro: le_trans [OF diff_le_self])
qed simp

declare env_parse.simps [simp del]

lemma encode_simps [simp]: "encode [] = []" "encode ((n, v) # vs) = env_entry n v @ encode vs" "encode (vs @ ws) = encode vs @ encode ws"
  by (simp_all add: encode_def)

lemma env_wfD:
  assumes "env_wf vs"
  shows "(n, v) \<in> set vs \<Longrightarrow> valid_name n" "(n, v) \<in> set vs \<Longrightarrow> NUL \<notin> set v" "distinct (map fst vs)"
  using assms by (auto simp: env_wf_def)

lemma env_wf_append: "env_wf (vs @ ws) \<longleftrightarrow> env_wf vs \<and> env_wf ws \<and> fst ` set vs \<inter> fst ` set ws = {}"
  by (auto simp: env_wf_def)

lemma env_wf_Cons: "env_wf ((n, v) # vs) \<longleftrightarrow> valid_name n \<and> NUL \<notin> set v \<and> n \<notin> fst ` set vs \<and> env_wf vs"
  by (auto simp: env_wf_def)

lemma env_wf_Nil [simp]: "env_wf []"
  by (simp add: env_wf_def)

lemma env_parse_encode: "env_wf vs \<Longrightarrow> env_parse (encode vs) = vs"
proof (induction vs)
  case (Cons x vs)
  obtain n v where x: "x = (n, v)" by (cases x)
  have w: "valid_name n" "NUL \<notin> set v" "env_wf vs" using Cons.prems by (simp_all add: x env_wf_Cons)
  let ?s = "encode (x # vs)"
  have s: "?s = (n @ CHR ''='' # v) @ NUL # encode vs" by (simp add: x env_entry_def)
  have nn: "\<forall>c\<in>set (n @ CHR ''='' # v). c \<noteq> NUL" using w by (auto simp: valid_name_def)
  have t: "takeWhile (\<lambda>c. c \<noteq> NUL) ?s = n @ CHR ''='' # v" "dropWhile (\<lambda>c. c \<noteq> NUL) ?s = NUL # encode vs"
    unfolding s using nn by (simp_all add: takeWhile_append dropWhile_append)
  have e: "takeWhile (\<lambda>c. c \<noteq> CHR ''='') (n @ CHR ''='' # v) = n" "dropWhile (\<lambda>c. c \<noteq> CHR ''='') (n @ CHR ''='' # v) = CHR ''='' # v"
    using w(1) by (auto simp: valid_name_def takeWhile_append dropWhile_append)
  have "?s \<noteq> []" by (simp add: s)
  then show ?case using Cons.IH [OF w(3)] 
    unfolding env_parse.simps [of ?s] t Let_def e by (simp add: x)
qed (simp add: env_parse.simps)

lemma env_cmpname_eq:
  assumes "valid_name nm" "valid_name n"
  shows "env_cmpname (nm @ [NUL]) (env_entry n v @ r) = Some (nm = n)"
  using assms
proof (induction nm arbitrary: n)
  case Nil
  then show ?case by (cases n) (auto simp: env_entry_def valid_name_def)
next
  case (Cons a nm)
  show ?case
  proof (cases n)
    case Nil
    then show ?thesis using Cons.prems by (auto simp: env_entry_def valid_name_def)
  next
    case (Cons c cs)
    have "env_cmpname (nm @ [NUL]) (env_entry cs v @ r) = Some (nm = cs)"
      by (rule Cons.IH) (use Cons.prems Cons in \<open>auto simp: valid_name_def\<close>)
    then show ?thesis using Cons.prems Cons by (auto simp: env_entry_def valid_name_def)
  qed
qed

lemma strlen_entry [simp]:
  "valid_name n \<Longrightarrow> NUL \<notin> set v \<Longrightarrow> strlen (env_entry n v @ r) = Some (length n + length v + 1)"
  using strlen_term [of "n @ CHR ''='' # v" r] by (simp add: env_entry_def valid_name_def)

lemma length_entry [simp]: "length (env_entry n v) = length n + length v + 2"
  by (simp add: env_entry_def)

lemma findvar_skip:
  assumes "valid_name nm" "valid_name n" "NUL \<notin> set v" "nm \<noteq> n"
  shows "env_findvar_loop nm (env_entry n v @ r) p = env_findvar_loop nm r (p + length (env_entry n v))"
  using assms by (subst env_findvar_loop.simps) (simp add: env_cmpname_eq, simp add: env_entry_def)

lemma findvar_missing:
  assumes "valid_name nm" "env_wf vs" "nm \<notin> fst ` set vs"
  shows "env_findvar_loop nm (encode vs) p = Some None"
  using assms(2,3)
proof (induction vs arbitrary: p)
  case (Cons x vs)
  then show ?case using assms(1) by (cases x) (simp add: findvar_skip env_wf_Cons)
qed (simp add: env_findvar_loop.simps)

lemma findvar_found:
  assumes "valid_name nm" "env_wf (as @ (nm, v) # bs)"
  shows "env_findvar_loop nm (encode (as @ (nm, v) # bs)) p = Some (Some (p + length (encode as)))"
  using assms(2)
proof (induction as arbitrary: p)
  case Nil
  then show ?case using assms(1) by (subst env_findvar_loop.simps) (simp add: env_cmpname_eq, simp add: env_entry_def)
next
  case (Cons x as)
  obtain n w where x: "x = (n, w)" by (cases x)
  have "valid_name n" "NUL \<notin> set w" "nm \<noteq> n" "env_wf (as @ (nm, v) # bs)" using Cons.prems by (auto simp: x env_wf_Cons)
  then show ?case using Cons.IH [of "p + length (env_entry n w)"] findvar_skip [OF assms(1), of n w] by (simp add: x)
qed

lemma removevar_entry:
  assumes "env_wf (as @ (nm, v) # bs)" "ev_env e = encode (as @ (nm, v) # bs)"
  shows "env_removevar e (length (encode as)) = Some (OK, e\<lparr>ev_env := encode (as @ bs)\<rparr>)"
proof -
  have "valid_name nm" "NUL \<notin> set v" using assms(1) by (auto simp: env_wf_append env_wf_Cons)
  then show ?thesis using assms(2) by (simp add: env_removevar_def)
qed

text \<open>Removal of a variable from the list, and its split.\<close>

definition del_var :: "char list \<Rightarrow> (char list \<times> char list) list \<Rightarrow> (char list \<times> char list) list" where
  "del_var nm vs = filter (\<lambda>x. fst x \<noteq> nm) vs"

lemma env_wf_del [simp]: "env_wf vs \<Longrightarrow> env_wf (del_var nm vs)"
  by (auto simp: env_wf_def del_var_def distinct_map_filter)

lemma map_of_del: "map_of (del_var nm vs) = (map_of vs)(nm := None)"
  by (induction vs) (auto simp: del_var_def fun_eq_iff)

lemma del_missing: "nm \<notin> fst ` set vs \<Longrightarrow> del_var nm vs = vs"
  by (auto simp: del_var_def filter_id_conv)

lemma in_del [simp]: "nm \<notin> fst ` set (del_var nm vs)"
  by (auto simp: del_var_def)

lemma del_split: "env_wf (as @ (nm, v) # bs) \<Longrightarrow> del_var nm (as @ (nm, v) # bs) = as @ bs"
  using del_missing [of nm as] del_missing [of nm bs] by (simp add: env_wf_append env_wf_Cons del_var_def)

lemma split_var:
  assumes "map_of vs nm = Some v"
  obtains as bs where "vs = as @ (nm, v) # bs"
  using map_of_SomeD [OF assms] by (meson split_list)

text \<open>Lookup and removal on a block.\<close>

lemma env_find_block:
  assumes "valid_name nm" "env_wf vs" "ev_env e = encode vs"
  shows "map_of vs nm = None \<Longrightarrow> env_findvar e nm = Some None"
    "map_of vs nm = Some v \<Longrightarrow> \<exists>p. env_findvar e nm = Some (Some p) \<and> env_removevar e p = Some (OK, e\<lparr>ev_env := encode (del_var nm vs)\<rparr>) \<and>
       strchr (drop p (ev_env e)) (CHR ''='') = Some (Some (length nm)) \<and> cstring (drop (p + length nm + 1) (ev_env e)) = Some v"
proof -
  show "env_findvar e nm = Some None" if "map_of vs nm = None"
    using findvar_missing [OF assms(1,2)] that assms(3) by (auto simp: env_findvar_def map_of_eq_None_iff)
  show "\<exists>p. env_findvar e nm = Some (Some p) \<and> env_removevar e p = Some (OK, e\<lparr>ev_env := encode (del_var nm vs)\<rparr>) \<and>
       strchr (drop p (ev_env e)) (CHR ''='') = Some (Some (length nm)) \<and> cstring (drop (p + length nm + 1) (ev_env e)) = Some v"
    if "map_of vs nm = Some v"
  proof -
    from that obtain as bs where vs: "vs = as @ (nm, v) # bs" by (rule split_var)
    note w = assms(2) [unfolded vs]
    have v: "NUL \<notin> set v" "NUL \<notin> set nm" "CHR ''='' \<notin> set nm" using w assms(1) by (auto simp: env_wf_append env_wf_Cons valid_name_def)
    have d: "drop (length (encode as)) (ev_env e) = nm @ CHR ''='' # v @ NUL # encode bs" using assms(3) by (simp add: vs env_entry_def)
    have "drop (length (encode as) + length nm + 1) (ev_env e) = drop (length nm + 1) (drop (length (encode as)) (ev_env e))" by (simp add: add.commute)
    then have "drop (length (encode as) + length nm + 1) (ev_env e) = v @ NUL # encode bs" unfolding d by simp
    then show ?thesis
      using findvar_found [OF assms(1) w, of 0] removevar_entry [OF w] assms(3) del_split [OF w] d v
      by (intro exI [of _ "length (encode as)"]) (simp add: env_findvar_def vs)
  qed
qed


subsection \<open>The environment of a task\<close>

definition env_holds :: "'z env_kernel_scheme \<Rightarrow> addr \<Rightarrow> (char list \<times> char list) list \<Rightarrow> bool" where
  "env_holds k t vs \<longleftrightarrow> env_wf vs \<and>
     (if envp k t = NULL then vs = [] else \<exists>e. environ k (envp k t) = Some e \<and> ev_env e = encode vs)"

text \<open>
  Every task has a well-formed environment or none, and the count of a block is the number of the tasks that refer to it.
\<close>

definition env_ok :: "'z env_kernel_scheme \<Rightarrow> bool" where
  "env_ok k \<longleftrightarrow> environ k NULL = None \<and> (\<forall>t. \<exists>vs. env_holds k t vs) \<and>
     (\<forall>a e. environ k a = Some e \<longrightarrow> finite {t. envp k t = a} \<and> {t. envp k t = a} \<noteq> {} \<and> ev_crefs e = card {t. envp k t = a})"

definition env_block :: "'z env_kernel_scheme \<Rightarrow> addr \<Rightarrow> environ_s" where
  "env_block k t = (case environ k (envp k t) of Some e \<Rightarrow> e | None \<Rightarrow> \<lparr>ev_crefs = 1, ev_env = []\<rparr>)"

definition put_env :: "addr \<Rightarrow> addr \<Rightarrow> environ_s \<Rightarrow> 'z env_kernel_scheme \<Rightarrow> 'z env_kernel_scheme" where
  "put_env r tmp e k = k\<lparr>environ := (environ k)(envp k r := None, tmp \<mapsto> e), envp := (envp k)(r := tmp)\<rparr>"

lemma env_okD:
  assumes "env_ok k"
  shows "environ k NULL = None" "\<exists>vs. env_holds k t vs" "environ k a = Some e \<Longrightarrow> finite {t. envp k t = a}"
    "environ k a = Some e \<Longrightarrow> {t. envp k t = a} \<noteq> {}" "environ k a = Some e \<Longrightarrow> ev_crefs e = card {t. envp k t = a}"
  using assms unfolding env_ok_def by blast+

lemma env_holds_unique: "env_holds k t vs \<Longrightarrow> env_holds k t ws \<Longrightarrow> vs = ws"
  unfolding env_holds_def using env_parse_encode by (auto split: if_splits) metis

lemma env_block_holds:
  assumes "env_ok k" "env_holds k t vs"
  shows "ev_env (env_block k t) = encode vs" "envp k t \<noteq> NULL \<Longrightarrow> environ k (envp k t) = Some (env_block k t)"
    "envp k t = NULL \<Longrightarrow> vs = []" "env_wf vs" "envp k t = NULL \<Longrightarrow> env_block k t = \<lparr>ev_crefs = 1, ev_env = []\<rparr>"
  using assms env_okD(1) [OF assms(1)] by (auto simp: env_holds_def env_block_def split: option.splits if_splits)

text \<open>A step of the running task between lock and unlock that touches only the environments.\<close>

lemma env_locked [simp]:
  "envp (locked k) = envp k" "environ (locked k) = environ k" "g_readytorun (locked k) = g_readytorun k" "current_regs (locked k) = current_regs k"
  by (simp_all add: locked_def upd_tcb_def)

lemma env_upd_locked [simp]:
  "(locked k)\<lparr>environ := f\<rparr> = locked (k\<lparr>environ := f\<rparr>)" "(locked k)\<lparr>envp := g\<rparr> = locked (k\<lparr>envp := g\<rparr>)"
  by (simp_all add: locked_def upd_tcb_def)

lemma sched_ok_env [simp]:
  "sched_ok (k\<lparr>environ := f\<rparr>) = sched_ok k" "sched_ok (k\<lparr>envp := g\<rparr>) = sched_ok k"
  "lockable (k\<lparr>environ := f\<rparr>) = lockable k" "lockable (k\<lparr>envp := g\<rparr>) = lockable k"
  by (simp_all add: sched_ok_def lists_ok_def lockable_def)

lemma run_locked:
  assumes "sched_ok k" "lockable k"
  shows "sched_lock k = Some (locked k)" "sched_unlock (locked k) = Some k" "list_head (g_readytorun k) = hd (g_readytorun k)"
  using assms sched_lock_locked [OF assms] sched_ok_unlock [OF assms(1)] sched_okD(3) [OF assms(1)] by (simp_all add: lockable_def)

lemma getenv_eq:
  assumes S: "sched_ok k" "lockable k" and ok: "env_ok k" "env_holds k (hd (g_readytorun k)) vs" and nm: "valid_name nm"
  shows "getenv (Some nm) k = Some (map_of vs nm, if map_of vs nm = None then set_errno ENOENT k else k)"
proof -
  let ?r = "hd (g_readytorun k)"
  note L = run_locked [OF S] and B = env_block_holds [OF ok]
  note F = env_find_block [OF nm B(4) B(1)]
  show ?thesis
  proof (cases "envp k ?r = NULL")
    case True
    then show ?thesis using B(3) L by (simp add: getenv_def)
  next
    case False
    note E = B(2) [OF False]
    show ?thesis
    proof (cases "map_of vs nm")
      case None
      then show ?thesis using False E F(1) L by (simp add: getenv_def)
    next
      case (Some v)
      then show ?thesis using False E F(2) [of v] L by (auto simp: getenv_def)
    qed
  qed
qed

lemma unsetenv_eq:
  assumes S: "sched_ok k" "lockable k" and ok: "env_ok k" "env_holds k (hd (g_readytorun k)) vs" and nm: "valid_name nm"
  defines "r \<equiv> hd (g_readytorun k)"
  defines "e \<equiv> (env_block k r)\<lparr>ev_env := encode (del_var nm vs)\<rparr>"
  shows "unsetenv (Some nm) tmp k =
    (if map_of vs nm = None then Some (OK, k)
     else if tmp = NULL then Some (ERROR, set_errno ENOMEM (put_env r (envp k r) e k))
     else Some (OK, put_env r tmp e k))"
proof -
  note L = run_locked [OF S] and B = env_block_holds [OF ok, folded r_def]
  note F = env_find_block [OF nm B(4) B(1)]
  show ?thesis
  proof (cases "map_of vs nm")
    case None
    then show ?thesis using B(2) F(1) L by (cases "envp k r = NULL") (simp_all add: unsetenv_def r_def)
  next
    case (Some v)
    have n: "envp k r \<noteq> NULL" using B(3) Some by (intro notI) simp
    obtain p where p: "env_findvar (env_block k r) nm = Some (Some p)" "env_removevar (env_block k r) p = Some (OK, e)"
      using F(2) [OF Some] unfolding e_def by blast
    have u: "sched_unlock (locked (k\<lparr>environ := f\<rparr>)) = Some (k\<lparr>environ := f\<rparr>)"
       "sched_unlock (locked (k\<lparr>environ := f, envp := g\<rparr>)) = Some (k\<lparr>environ := f, envp := g\<rparr>)" for f g
      using S by (intro run_locked(2); simp)+
    show ?thesis
      using n p B(2) L Some by (simp add: unsetenv_def r_def put_env_def env_krealloc_def u Let_def)
  qed
qed

lemma setenv_eq:
  assumes S: "sched_ok k" "lockable k" and ok: "env_ok k" "env_holds k (hd (g_readytorun k)) vs" and nm: "valid_name nm" "NUL \<notin> set v" "v \<noteq> []"
  defines "r \<equiv> hd (g_readytorun k)"
  defines "e \<equiv> \<lambda>ws. (env_block k r)\<lparr>ev_env := encode ws\<rparr>"
  shows "setenv (Some nm) (Some v) overwrite tmp k =
    (if map_of vs nm \<noteq> None \<and> \<not> overwrite then Some (OK, k)
     else if tmp = NULL then Some (ERROR, set_errno ENOMEM (if envp k r = NULL then k else put_env r (envp k r) (e (del_var nm vs)) k))
     else Some (OK, put_env r tmp (e (del_var nm vs @ [(nm, v)])) k))"
proof -
  note L = run_locked [OF S] and B = env_block_holds [OF ok, folded r_def]
  note F = env_find_block [OF nm(1) B(4) B(1)]
  have u: "sched_unlock (locked (k\<lparr>environ := f\<rparr>)) = Some (k\<lparr>environ := f\<rparr>)"
     "sched_unlock (locked (k\<lparr>environ := f, envp := g\<rparr>)) = Some (k\<lparr>environ := f, envp := g\<rparr>)" for f g
    using S by (intro run_locked(2); simp)+
  have s: "setenv (Some nm) (Some v) overwrite tmp k = (do { (ret, k) \<leftarrow> setenv_locked nm v overwrite tmp r (locked k);
     k \<leftarrow> sched_unlock k; Some (if ret = OK then (OK, k) else (ERROR, set_errno ret k)) })"
    using nm(3) L by (simp add: setenv_def r_def)
  show ?thesis
  proof (cases "envp k r = NULL")
    case True
    have "(environ k)(NULL := None) = environ k" using env_okD(1) [OF ok(1)] by auto
    then show ?thesis
      unfolding s using True B(3,5) L u by (simp add: setenv_locked_def put_env_def e_def del_var_def)
  next
    case n: False
    show ?thesis
    proof (cases "map_of vs nm")
      case None
      have "del_var nm vs = vs" by (rule del_missing) (use None in \<open>simp add: map_of_eq_None_iff\<close>)
      moreover have e: "e vs = env_block k r" using B(1) by (simp add: e_def B(1) [symmetric])
      ultimately show ?thesis
        unfolding s using n None B(1) B(2) [OF n] F(1) L u e by (simp add: setenv_locked_def put_env_def env_krealloc_def) (simp add: e_def)
    next
      case (Some w)
      obtain p where p: "env_findvar (env_block k r) nm = Some (Some p)" "env_removevar (env_block k r) p = Some (OK, e (del_var nm vs))"
        using F(2) [OF Some] unfolding e_def by blast
      show ?thesis
        unfolding s using n p B(2) L Some u by (simp add: setenv_locked_def put_env_def e_def env_krealloc_def)
    qed
  qed
qed


subsection \<open>What the calls keep\<close>

definition env_private :: "'z env_kernel_scheme \<Rightarrow> addr \<Rightarrow> bool" where
  "env_private k r \<longleftrightarrow> envp k r = NULL \<or> {t. envp k t = envp k r} = {r}"

lemma env_cong:
  assumes "envp k' = envp k" "environ k' = environ k"
  shows "env_ok k' = env_ok k" "env_holds k' t vs = env_holds k t vs" "env_private k' t = env_private k t" "env_block k' t = env_block k t"
  using assms by (simp_all add: env_ok_def env_holds_def env_private_def env_block_def)

lemma env_set_errno [simp]: "envp (set_errno e k) = envp k" "environ (set_errno e k) = environ k" "tasklist (set_errno e k) = tasklist k"
  by (simp_all add: set_errno_def upd_tcb_def Let_def)

lemma lockable_set_errno: "lockable (set_errno e k) = lockable k"
  by (auto simp: lockable_def set_errno_def upd_tcb_def Let_def)

lemma sched_put_env [simp]:
  "sched_ok (put_env r tmp e k) = sched_ok k" "lockable (put_env r tmp e k) = lockable k" "tasklist (put_env r tmp e k) = tasklist k"
  by (simp_all add: put_env_def)

lemma env_users:
  assumes "env_ok k" "a \<noteq> NULL" "environ k a = None"
  shows "envp k t \<noteq> a"
proof
  assume "envp k t = a"
  moreover obtain vs where "env_holds k t vs" using env_okD(2) [OF assms(1)] by blast
  ultimately show False using assms(2,3) by (auto simp: env_holds_def)
qed

lemma env_ok_put:
  assumes ok: "env_ok k" and pr: "env_private k r" and tmp: "tmp \<noteq> NULL" "tmp = envp k r \<or> environ k tmp = None"
    and e: "ev_crefs e = 1" "ev_env e = encode vs" "env_wf vs"
  shows "env_ok (put_env r tmp e k)" "env_holds (put_env r tmp e k) r vs" "t \<noteq> r \<Longrightarrow> env_holds (put_env r tmp e k) t ws = env_holds k t ws"
    "env_private (put_env r tmp e k) r" "t \<noteq> r \<Longrightarrow> env_private k t \<Longrightarrow> env_private (put_env r tmp e k) t"
proof -
  let ?k = "put_env r tmp e k"
  have E: "envp ?k = (envp k)(r := tmp)" "environ ?k = (environ k)(envp k r := None, tmp \<mapsto> e)" by (simp_all add: put_env_def)
  have other: "envp k t \<noteq> tmp \<and> (envp k t \<noteq> NULL \<longrightarrow> envp k t \<noteq> envp k r)" if "t \<noteq> r" for t
  proof -
    have "envp k t \<noteq> NULL \<longrightarrow> envp k t \<noteq> envp k r" using pr that by (auto simp: env_private_def)
    then show ?thesis using tmp env_users [OF ok tmp(1)] by auto
  qed
  show r: "env_holds ?k r vs" using tmp e by (simp add: env_holds_def E)
  have h: "env_holds ?k t ws = env_holds k t ws" if "t \<noteq> r" for t ws using other [OF that] that by (auto simp: env_holds_def E)
  then show "t \<noteq> r \<Longrightarrow> env_holds ?k t ws = env_holds k t ws" by blast
  have u: "{t. envp ?k t = tmp} = {r}" using other by (auto simp: E)
  have v: "{t. envp ?k t = a} = {t. envp k t = a}" if "a \<noteq> tmp" "a \<noteq> envp k r" for a using that by (auto simp: E)
  show "env_private ?k r" using u by (simp add: env_private_def E)
  show "env_private ?k t" if "t \<noteq> r" "env_private k t"
    using that v [of "envp k t"] other [OF that(1)] by (auto simp: env_private_def E)
  show "env_ok ?k"
    unfolding env_ok_def
  proof (intro conjI allI impI)
    show "environ ?k NULL = None" using env_okD(1) [OF ok] tmp(1) by (simp add: E)
    show "\<exists>vs. env_holds ?k t vs" for t using r h env_okD(2) [OF ok] by (cases "t = r") auto
  next
    fix a b assume *: "environ ?k a = Some b"
    have "finite {t. envp ?k t = a} \<and> {t. envp ?k t = a} \<noteq> {} \<and> ev_crefs b = card {t. envp ?k t = a}"
    proof (cases "a = tmp")
      case True
      then show ?thesis using * u e(1) by (simp add: E)
    next
      case False
      then have a: "a \<noteq> envp k r" "environ k a = Some b" using * by (auto simp: E split: if_splits)
      show ?thesis unfolding v [OF False a(1)] using env_okD(3-5) [OF ok a(2)] by blast
    qed
    then show "finite {t. envp ?k t = a}" "{t. envp ?k t = a} \<noteq> {}" "ev_crefs b = card {t. envp ?k t = a}" by blast+
  qed
qed

lemma env_crefs_private:
  assumes "env_ok k" "env_private k r"
  shows "ev_crefs (env_block k r) = 1"
proof (cases "environ k (envp k r)")
  case (Some e)
  then have "envp k r \<noteq> NULL" using env_okD(1) [OF assms(1)] by (intro notI) simp
  then show ?thesis using assms(2) Some env_okD(5) [OF assms(1) Some] by (simp add: env_private_def env_block_def)
qed (simp add: env_block_def)

text \<open>The state of a task that may change its environment, and its variables.\<close>

definition env_inv :: "'z env_kernel_scheme \<Rightarrow> bool" where
  "env_inv k \<longleftrightarrow> sched_ok k \<and> lockable k \<and> env_ok k \<and> env_private k (hd (g_readytorun k))"

definition cur_vars :: "'z env_kernel_scheme \<Rightarrow> (char list \<times> char list) list" where
  "cur_vars k = env_parse (ev_env (env_block k (hd (g_readytorun k))))"

definition alloc_ok :: "addr \<Rightarrow> 'z env_kernel_scheme \<Rightarrow> bool" where
  "alloc_ok tmp k \<longleftrightarrow> tmp = NULL \<or> tmp = envp k (hd (g_readytorun k)) \<or> environ k tmp = None"

lemma cur_vars_holds:
  assumes "env_ok k"
  shows "env_holds k (hd (g_readytorun k)) (cur_vars k)"
proof -
  obtain vs where vs: "env_holds k (hd (g_readytorun k)) vs" using env_okD(2) [OF assms] by blast
  then have "cur_vars k = vs" using env_block_holds(1,4) [OF assms vs] env_parse_encode by (simp add: cur_vars_def)
  then show ?thesis using vs by simp
qed

lemma env_inv_put:
  assumes "env_inv k" "tmp \<noteq> NULL" "alloc_ok tmp k" "env_wf vs"
  defines "r \<equiv> hd (g_readytorun k)"
  defines "k' \<equiv> put_env r tmp ((env_block k r)\<lparr>ev_env := encode vs\<rparr>) k"
  shows "env_inv k'" "cur_vars k' = vs" "env_inv (set_errno x k')" "cur_vars (set_errno x k') = vs"
proof -
  have I: "sched_ok k" "lockable k" "env_ok k" "env_private k r" using assms(1) by (simp_all add: env_inv_def r_def)
  note P = env_ok_put [OF I(3,4) assms(2), of "(env_block k r)\<lparr>ev_env := encode vs\<rparr>" vs, folded k'_def]
  have c: "ev_crefs ((env_block k r)\<lparr>ev_env := encode vs\<rparr>) = 1" using env_crefs_private [OF I(3,4)] by simp
  have t: "tmp = envp k r \<or> environ k tmp = None" using assms(2,3) by (simp add: alloc_ok_def r_def)
  have g: "hd (g_readytorun k') = r" by (simp add: k'_def r_def)
  show "env_inv k'" using I P(1,4) c t assms(4) g unfolding env_inv_def by (simp add: k'_def)
  have "env_holds k' r vs" using P(2) c t assms(4) by simp
  then show v: "cur_vars k' = vs" using env_holds_unique cur_vars_holds [of k'] P(1) c t assms(4) g by simp
  show "env_inv (set_errno x k')" using \<open>env_inv k'\<close> sched_ok_set_errno lockable_set_errno [of x k'] env_cong [of "set_errno x k'" k'] by (simp add: env_inv_def)
  show "cur_vars (set_errno x k') = vs" using v env_cong(4) [of "set_errno x k'" k'] by (simp add: cur_vars_def)
qed

lemma env_inv_set_errno: "env_inv k \<Longrightarrow> env_inv (set_errno x k) \<and> cur_vars (set_errno x k) = cur_vars k"
  using sched_ok_set_errno lockable_set_errno [of x k] env_cong [of "set_errno x k" k] by (simp add: env_inv_def cur_vars_def)


subsection \<open>Commands against a map\<close>

text \<open>
  The contract of a store whose commands act on an abstract value; a script is then the fold of the specified commands.
\<close>

fun run_cmds :: "('c \<Rightarrow> 's \<Rightarrow> ('r \<times> 's) option) \<Rightarrow> 'c list \<Rightarrow> 's \<Rightarrow> 's option" where
  "run_cmds ex [] s = Some s"
| "run_cmds ex (c # cs) s = do { (_, s) \<leftarrow> ex c s; run_cmds ex cs s }"

fun script_ok :: "('c \<Rightarrow> 's \<Rightarrow> ('r \<times> 's) option) \<Rightarrow> ('c \<Rightarrow> 's \<Rightarrow> bool) \<Rightarrow> 'c list \<Rightarrow> 's \<Rightarrow> bool" where
  "script_ok ex ok [] s = True"
| "script_ok ex ok (c # cs) s = (ok c s \<and> (case ex c s of None \<Rightarrow> True | Some (_, s) \<Rightarrow> script_ok ex ok cs s))"

locale command_store =
  fixes inv :: "'s \<Rightarrow> bool" and abs :: "'s \<Rightarrow> 'a" and ok :: "'c \<Rightarrow> 's \<Rightarrow> bool" and ex :: "'c \<Rightarrow> 's \<Rightarrow> ('r \<times> 's) option" and spec :: "'c \<Rightarrow> 'a \<Rightarrow> 'a"
  assumes step: "inv s \<Longrightarrow> ok c s \<Longrightarrow> \<exists>r s'. ex c s = Some (r, s') \<and> inv s' \<and> abs s' = spec c (abs s)"
begin

lemma script:
  "inv s \<Longrightarrow> script_ok ex ok cs s \<Longrightarrow> \<exists>s'. run_cmds ex cs s = Some s' \<and> inv s' \<and> abs s' = fold spec cs (abs s)"
proof (induction cs arbitrary: s)
  case (Cons c cs)
  obtain r s' where s': "ex c s = Some (r, s')" "inv s'" "abs s' = spec c (abs s)" using step [of s c] Cons.prems by auto
  moreover have "script_ok ex ok cs s'" using Cons.prems(2) s'(1) by simp
  ultimately show ?case using Cons.IH [of s'] by simp
qed simp

end

datatype env_cmd = Setenv "char list" "char list" bool addr | Unsetenv "char list" addr | Putenv "char list" addr

fun env_exec :: "env_cmd \<Rightarrow> 'z env_kernel_scheme \<Rightarrow> (int \<times> 'z env_kernel_scheme) option" where
  "env_exec (Setenv n v overwrite tmp) k = setenv (Some n) (Some v) overwrite tmp k"
| "env_exec (Unsetenv n tmp) k = unsetenv (Some n) tmp k"
| "env_exec (Putenv s tmp) k = putenv (Some s) True tmp k"

fun env_cmd_ok :: "env_cmd \<Rightarrow> 'z env_kernel_scheme \<Rightarrow> bool" where
  "env_cmd_ok (Setenv n v overwrite tmp) k \<longleftrightarrow> valid_name n \<and> NUL \<notin> set v \<and> alloc_ok tmp k"
| "env_cmd_ok (Unsetenv n tmp) k \<longleftrightarrow> valid_name n \<and> alloc_ok tmp k"
| "env_cmd_ok (Putenv s tmp) k \<longleftrightarrow> NUL \<notin> set s \<and> alloc_ok tmp k"

text \<open>
  The meaning of the commands on a map: a failed allocation (\<open>NULL\<close>) still loses the old value, and an empty value removes the variable.
\<close>

definition set_spec :: "char list \<Rightarrow> char list \<Rightarrow> bool \<Rightarrow> addr \<Rightarrow> (char list \<rightharpoonup> char list) \<Rightarrow> (char list \<rightharpoonup> char list)" where
  "set_spec n v overwrite tmp m =
     (if v = [] then if overwrite then m(n := None) else m
      else if n \<in> dom m \<and> \<not> overwrite then m
      else if tmp = NULL then m(n := None) else m(n \<mapsto> v))"

fun env_spec :: "env_cmd \<Rightarrow> (char list \<rightharpoonup> char list) \<Rightarrow> (char list \<rightharpoonup> char list)" where
  "env_spec (Setenv n v overwrite tmp) m = set_spec n v overwrite tmp m"
| "env_spec (Unsetenv n tmp) m = m(n := None)"
| "env_spec (Putenv s tmp) m =
     (if CHR ''='' \<in> set s
      then set_spec (takeWhile (\<lambda>c. c \<noteq> CHR ''='') s) (tl (dropWhile (\<lambda>c. c \<noteq> CHR ''='') s)) True tmp m else m)"

lemma env_invD:
  assumes "env_inv k"
  shows "sched_ok k" "lockable k" "env_ok k" "env_private k (hd (g_readytorun k))" "env_holds k (hd (g_readytorun k)) (cur_vars k)" "env_wf (cur_vars k)"
  using assms cur_vars_holds [of k] by (auto simp: env_inv_def env_holds_def)

lemma alloc_same:
  assumes "env_inv k"
  shows "alloc_ok (envp k (hd (g_readytorun k))) k"
  by (simp add: alloc_ok_def)

lemma unsetenv_ok:
  assumes I: "env_inv k" and a: "alloc_ok tmp k" and n: "valid_name n"
  shows "\<exists>r k'. unsetenv (Some n) tmp k = Some (r, k') \<and> env_inv k' \<and> map_of (cur_vars k') = (map_of (cur_vars k))(n := None)"
proof -
  note D = env_invD [OF I]
  note E = unsetenv_eq [OF D(1-3,5) n, of tmp]
  note P = env_inv_put [OF I _ _ env_wf_del [OF D(6), of n]]
  show ?thesis
  proof (cases "map_of (cur_vars k) n")
    case None
    then show ?thesis using E I by (auto simp: fun_upd_idem)
  next
    case (Some v)
    have ep: "envp k (hd (g_readytorun k)) \<noteq> NULL" using env_block_holds(3) [OF D(3,5)] Some by (intro notI) simp
    show ?thesis
    proof (cases "tmp = NULL")
      case True
      then show ?thesis using E Some P(3,4) [OF ep alloc_same [OF I]] by (simp add: map_of_del)
    next
      case False
      then show ?thesis using E Some P(1,2) [OF False a] by (simp add: map_of_del)
    qed
  qed
qed

lemma map_of_put: "map_of (del_var n vs @ [(n, v)]) = (map_of vs)(n \<mapsto> v)"
  by (simp add: map_of_append map_of_del fun_eq_iff map_add_def split: option.splits)

lemma setenv_ok:
  assumes I: "env_inv k" and a: "alloc_ok tmp k" and n: "valid_name n" "NUL \<notin> set v"
  shows "\<exists>r k'. setenv (Some n) (Some v) overwrite tmp k = Some (r, k') \<and> env_inv k' \<and>
    map_of (cur_vars k') = set_spec n v overwrite tmp (map_of (cur_vars k))"
proof (cases "v = []")
  case True
  then show ?thesis using unsetenv_ok [OF I a n(1)] I by (simp add: setenv_def set_spec_def)
next
  case v: False
  note D = env_invD [OF I]
  note E = setenv_eq [OF D(1-3,5) n v, of overwrite tmp]
  let ?vs = "cur_vars k"
  have w: "env_wf (del_var n ?vs @ [(n, v)])" using env_wf_del [OF D(6), of n] n in_del [of n ?vs] by (simp add: env_wf_append env_wf_Cons)
  consider "map_of ?vs n \<noteq> None \<and> \<not> overwrite" | "\<not> (map_of ?vs n \<noteq> None \<and> \<not> overwrite)" "tmp = NULL" | "\<not> (map_of ?vs n \<noteq> None \<and> \<not> overwrite)" "tmp \<noteq> NULL" by blast
  then show ?thesis
  proof cases
    case 1
    then show ?thesis using E I v by (auto simp: set_spec_def)
  next
    case 2
    have s: "set_spec n v overwrite tmp (map_of ?vs) = (map_of ?vs)(n := None)" using 2 v by (auto simp: set_spec_def dom_def)
    show ?thesis
    proof (cases "envp k (hd (g_readytorun k)) = NULL")
      case True
      then have "cur_vars k = []" by (rule env_block_holds(3) [OF D(3,5)])
      then show ?thesis using E [unfolded if_not_P [OF 2(1)]] 2(2) True env_inv_set_errno [OF I, of ENOMEM] s by simp
    next
      case False
      then show ?thesis using E [unfolded if_not_P [OF 2(1)]] 2(2) s env_inv_put(3,4) [OF I False alloc_same [OF I] env_wf_del [OF D(6)], of ENOMEM n] by (simp add: map_of_del)
    qed
  next
    case 3
    then have "set_spec n v overwrite tmp (map_of ?vs) = (map_of ?vs)(n \<mapsto> v)" using v by (auto simp: set_spec_def dom_def)
    then show ?thesis using E [unfolded if_not_P [OF 3(1)]] 3(2) env_inv_put(1,2) [OF I 3(2) a w] by (simp add: map_of_put del: map_of_append encode_simps)
  qed
qed

lemma strchr_split:
  assumes "NUL \<notin> set s"
  shows "strchr (s @ [NUL]) c = Some (if c \<in> set s then Some (length (takeWhile (\<lambda>d. d \<noteq> c) s)) else None)"
  using assms by (induction s) auto

lemma putenv_ok:
  assumes I: "env_inv k" and a: "alloc_ok tmp k" and s: "NUL \<notin> set s"
  shows "\<exists>r k'. putenv (Some s) True tmp k = Some (r, k') \<and> env_inv k' \<and> map_of (cur_vars k') = env_spec (Putenv s tmp) (map_of (cur_vars k))"
proof (cases "CHR ''='' \<in> set s")
  case True
  let ?n = "takeWhile (\<lambda>c. c \<noteq> CHR ''='') s" and ?d = "dropWhile (\<lambda>c. c \<noteq> CHR ''='') s"
  have sp: "s = ?n @ ?d" by simp
  have "take (length ?n) s = ?n" by (rule takeWhile_eq_take [symmetric])
  moreover have "drop (length ?n + 1) s = tl ?d"
    using arg_cong [OF sp, of "drop (length ?n + 1)"] by (simp add: drop_Suc del: takeWhile_dropWhile_id)
  moreover have "valid_name ?n" using s set_takeWhileD [of _ _ s] by (auto simp: valid_name_def)
  moreover have "set (tl ?d) \<subseteq> set s" using set_dropWhileD list.set_sel(2) by (metis subsetI tl_Nil)
  ultimately have "putenv (Some s) True tmp k = setenv (Some ?n) (Some (tl ?d)) True tmp k" "valid_name ?n" "NUL \<notin> set (tl ?d)"
    using True strchr_split [OF s] s by (auto simp: putenv_def)
  then show ?thesis using True setenv_ok [OF I a, of ?n "tl ?d" True] by simp
next
  case False
  then show ?thesis using I strchr_split [OF s] by (simp add: putenv_def)
qed

interpretation env_store: command_store env_inv "\<lambda>k. map_of (cur_vars k)" env_cmd_ok env_exec env_spec
proof
  fix k :: "'z env_kernel_scheme" and c
  assume "env_inv k" "env_cmd_ok c k"
  then show "\<exists>r k'. env_exec c k = Some (r, k') \<and> env_inv k' \<and> map_of (cur_vars k') = env_spec c (map_of (cur_vars k))"
    by (cases c) (simp_all add: setenv_ok unsetenv_ok putenv_ok del: env_spec.simps(3))
qed


subsection \<open>New tasks and threads\<close>

text \<open>A thread shares the block of its parent, a task gets a copy; the last user of a block frees it.\<close>

lemma env_share_ok:
  assumes S: "sched_ok k" "lockable k" and ok: "env_ok k" and t: "t \<noteq> NULL" "envp k t = NULL"
    and b: "Suc (card {u. envp k u = envp k (hd (g_readytorun k))}) < 2 ^ 32"
  defines "r \<equiv> hd (g_readytorun k)"
  obtains k' where "env_share t k = Some (OK, k')" "env_ok k'" "envp k' = (envp k)(t := envp k r)" "\<And>vs. env_holds k r vs \<Longrightarrow> env_holds k' t vs"
    "\<And>u vs. u \<noteq> t \<Longrightarrow> env_holds k' u vs = env_holds k u vs" "sched_ok k'" "lockable k'" "tasklist k' = tasklist k"
    "\<And>a. a \<noteq> envp k r \<Longrightarrow> environ k' a = environ k a"
proof (cases "envp k r = NULL")
  case True
  have f: "(envp k)(t := NULL) = envp k" using t(2) by (rule fun_upd_idem)
  then have "env_share t k = Some (OK, k)" using run_locked [OF S] True t(1) by (simp add: env_share_def r_def [symmetric])
  moreover have "env_holds k t vs" if "env_holds k r vs" for vs using that True t(2) by (simp add: env_holds_def)
  ultimately show thesis using that [of k] ok True f S by simp
next
  case n: False
  let ?a = "envp k r" and ?U = "{u. envp k u = envp k r}"
  obtain vs where vs: "env_holds k r vs" using env_okD(2) [OF ok] by blast
  obtain e where e: "environ k ?a = Some e" using vs n by (auto simp: env_holds_def)
  define k' where "k' = k\<lparr>environ := (environ k)(?a \<mapsto> e\<lparr>ev_crefs := Suc (ev_crefs e)\<rparr>), envp := (envp k)(t := ?a)\<rparr>"
  have c: "ev_crefs e = card ?U" "finite ?U" using env_okD(3,5) [OF ok e] by simp_all
  have E: "envp k' = (envp k)(t := ?a)" "environ k' = (environ k)(?a \<mapsto> e\<lparr>ev_crefs := Suc (ev_crefs e)\<rparr>)" by (simp_all add: k'_def)
  have tn: "t \<notin> ?U" using t(2) n by simp
  have add: "add32 (ev_crefs e) 1 = Suc (ev_crefs e)" using b c(1) by (simp add: r_def)
  have "sched_unlock (locked k') = Some k'" by (rule run_locked(2)) (use S in \<open>simp_all add: k'_def\<close>)
  then have res: "env_share t k = Some (OK, k')"
    using run_locked [OF S] n t(1) e add by (simp add: env_share_def r_def [symmetric] k'_def Let_def)
  have h: "env_holds k' u ws = env_holds k u ws" if "u \<noteq> t" for u ws using that e by (auto simp: env_holds_def E)
  have ht: "env_holds k' t ws" if "env_holds k r ws" for ws using that n e by (auto simp: env_holds_def E)
  have U: "{u. envp k' u = ?a} = insert t ?U" "\<And>a. a \<noteq> ?a \<Longrightarrow> a \<noteq> NULL \<Longrightarrow> {u. envp k' u = a} = {u. envp k u = a}" using t(2) by (auto simp: E)
  have "env_ok k'"
    unfolding env_ok_def
  proof (intro conjI allI impI)
    show "environ k' NULL = None" using env_okD(1) [OF ok] n by (simp add: E)
    show "\<exists>vs. env_holds k' u vs" for u using h [of u] ht vs env_okD(2) [OF ok, of u] by (cases "u = t") auto
  next
    fix a x assume x: "environ k' a = Some x"
    have "finite {u. envp k' u = a} \<and> {u. envp k' u = a} \<noteq> {} \<and> ev_crefs x = card {u. envp k' u = a}"
    proof (cases "a = ?a")
      case True
      have "x = e\<lparr>ev_crefs := Suc (ev_crefs e)\<rparr>" using x unfolding True by (simp add: E)
      then show ?thesis unfolding True U(1) using c tn by simp
    next
      case False
      have a: "environ k a = Some x" using x False by (simp add: E)
      have z: "a \<noteq> NULL" using a env_okD(1) [OF ok] by (intro notI) simp
      show ?thesis unfolding U(2) [OF False z] using env_okD(3-5) [OF ok a] by blast
    qed
    then show "finite {u. envp k' u = a}" "{u. envp k' u = a} \<noteq> {}" "ev_crefs x = card {u. envp k' u = a}" by blast+
  qed
  moreover have "sched_ok k'" "lockable k'" "tasklist k' = tasklist k" using S by (simp_all add: k'_def)
  ultimately show thesis using that [of k'] res h ht E by simp
qed

lemma env_dup_ok:
  assumes S: "sched_ok k" "lockable k" and ok: "env_ok k" and t: "t \<noteq> NULL" "envp k t = NULL" and tmp: "environ k tmp = None"
  defines "r \<equiv> hd (g_readytorun k)"
  obtains k' ret where "env_dup t tmp k = Some (ret, k')" "env_ok k'" "ret = (if envp k r \<noteq> NULL \<and> tmp = NULL then - ENOMEM else OK)"
    "\<And>vs. env_holds k r vs \<Longrightarrow> env_holds k' t (if tmp = NULL then [] else vs)" "env_private k' t"
    "\<And>u vs. u \<noteq> t \<Longrightarrow> env_holds k' u vs = env_holds k u vs"
proof (cases "envp k r = NULL \<or> tmp = NULL")
  case True
  have e: "k\<lparr>envp := (envp k)(t := NULL)\<rparr> = k" using t(2) by (simp add: fun_upd_idem)
  obtain vs where vs: "env_holds k r vs" using env_okD(2) [OF ok] by blast
  have "env_dup t tmp k = Some (if envp k r \<noteq> NULL \<and> tmp = NULL then - ENOMEM else OK, k)"
  proof (cases "envp k r = NULL")
    case z: True
    then show ?thesis using run_locked [OF S] t(1) e by (simp add: env_dup_def r_def [symmetric])
  next
    case z: False
    then show ?thesis using run_locked [OF S] t(1) e True env_block_holds(2) [OF ok vs z] by (simp add: env_dup_def r_def [symmetric])
  qed
  moreover have "env_holds k t (if tmp = NULL then [] else ws)" if "env_holds k r ws" for ws
    using that True t(2) by (auto simp: env_holds_def)
  ultimately show thesis using that [of _ k] ok t(2) by (simp add: env_private_def)
next
  case False
  then have n: "envp k r \<noteq> NULL" "tmp \<noteq> NULL" by auto
  obtain vs where vs: "env_holds k r vs" using env_okD(2) [OF ok] by blast
  note B = env_block_holds [OF ok vs]
  let ?e = "\<lparr>ev_crefs = 1, ev_env = ev_env (env_block k r)\<rparr>"
  define k' where "k' = put_env t tmp ?e k"
  have pr: "env_private k t" using t(2) by (simp add: env_private_def)
  note P = env_ok_put [OF ok pr n(2), of ?e vs, folded k'_def]
  have k': "k' = k\<lparr>environ := (environ k)(tmp \<mapsto> ?e), envp := (envp k)(t := tmp)\<rparr>"
  proof -
    have "(environ k)(NULL := None) = environ k" using env_okD(1) [OF ok] by (simp add: fun_upd_idem)
    then show ?thesis by (simp add: k'_def put_env_def t(2))
  qed
  have "sched_unlock (locked k') = Some k'" by (rule run_locked(2)) (use S in \<open>simp_all add: k'_def\<close>)
  then have "env_dup t tmp k = Some (OK, k')"
    using run_locked [OF S] n t(1) B(2) by (simp add: env_dup_def r_def [symmetric] k')
  then show thesis using that [of OK k'] P n B tmp env_holds_unique [OF vs] by auto
qed

lemma env_release_ok:
  assumes S: "sched_ok k" "lockable k" and ok: "env_ok k" and t: "t \<noteq> NULL"
  defines "a \<equiv> envp k t"
  obtains k' where "env_release t k = Some (OK, k')" "env_ok k'" "envp k' = (envp k)(t := NULL)"
    "a \<noteq> NULL \<Longrightarrow> environ k' a = None \<longleftrightarrow> {u. envp k u = a} = {t}" "\<And>u vs. u \<noteq> t \<Longrightarrow> env_holds k' u vs = env_holds k u vs"
proof (cases "a = NULL")
  case True
  then have "env_release t k = Some (OK, k)" using run_locked [OF S] t by (simp add: env_release_def a_def)
  then show thesis using that [of k] ok True by (auto simp: a_def fun_upd_idem)
next
  case n: False
  let ?U = "{u. envp k u = a}"
  obtain e where e: "environ k a = Some e" using env_users [OF ok n, of t] by (cases "environ k a") (auto simp: a_def)
  have c: "ev_crefs e = card ?U" "finite ?U" "t \<in> ?U" using env_okD(3,5) [OF ok e] by (simp_all add: a_def)
  have one: "ev_crefs e \<le> 1 \<longleftrightarrow> ?U = {t}"
  proof
    assume "ev_crefs e \<le> 1"
    then show "?U = {t}" using c card_le_Suc0_iff_eq [OF c(2)] by auto
  qed (use c in simp)
  define f where "f = (if ?U = {t} then None else Some (e\<lparr>ev_crefs := ev_crefs e - 1\<rparr>))"
  have fe: "f = (if ev_crefs e \<le> 1 then None else Some (e\<lparr>ev_crefs := ev_crefs e - 1\<rparr>))" unfolding f_def one by (rule refl)
  define k' where "k' = k\<lparr>environ := (environ k)(a := f), envp := (envp k)(t := NULL)\<rparr>"
  have E: "envp k' = (envp k)(t := NULL)" "environ k' = (environ k)(a := f)" by (simp_all add: k'_def)
  have "sched_unlock (locked k') = Some k'" by (rule run_locked(2)) (use S in \<open>simp_all add: k'_def\<close>)
  then have res: "env_release t k = Some (OK, k')"
    using run_locked [OF S] n t e fe by (cases "ev_crefs e \<le> 1") (simp_all add: env_release_def a_def [symmetric] k'_def Let_def)
  have h: "env_holds k' u ws = env_holds k u ws" if u: "u \<noteq> t" for u ws
  proof (cases "envp k u = a")
    case True
    then have "u \<in> ?U" by simp
    then have "?U \<noteq> {t}" using u by blast
    then show ?thesis using True u e by (auto simp: env_holds_def E f_def)
  next
    case False
    then show ?thesis using u by (simp add: env_holds_def E)
  qed
  have U: "{u. envp k' u = a} = ?U - {t}" "\<And>b. b \<noteq> a \<Longrightarrow> b \<noteq> NULL \<Longrightarrow> {u. envp k' u = b} = {u. envp k u = b}" using n by (auto simp: E a_def)
  have "env_ok k'"
    unfolding env_ok_def
  proof (intro conjI allI impI)
    show "environ k' NULL = None" using env_okD(1) [OF ok] n by (simp add: E)
    have "env_holds k' t []" by (simp add: env_holds_def E)
    then show "\<exists>vs. env_holds k' u vs" for u using h [of u] env_okD(2) [OF ok, of u] by (cases "u = t") auto
  next
    fix b x assume x: "environ k' b = Some x"
    have "finite {u. envp k' u = b} \<and> {u. envp k' u = b} \<noteq> {} \<and> ev_crefs x = card {u. envp k' u = b}"
    proof (cases "b = a")
      case True
      have "?U \<noteq> {t}" "x = e\<lparr>ev_crefs := ev_crefs e - 1\<rparr>" using x True by (auto simp: E f_def split: if_splits)
      then show ?thesis unfolding True U(1) using c by (auto simp: card_Diff_singleton)
    next
      case False
      have b: "environ k b = Some x" using x False by (simp add: E)
      have z: "b \<noteq> NULL" using b env_okD(1) [OF ok] by (intro notI) simp
      show ?thesis unfolding U(2) [OF False z] using env_okD(3-5) [OF ok b] by blast
    qed
    then show "finite {u. envp k' u = b}" "{u. envp k' u = b} \<noteq> {}" "ev_crefs x = card {u. envp k' u = b}" by blast+
  qed
  moreover have "environ k' a = None \<longleftrightarrow> ?U = {t}" by (simp add: E f_def)
  ultimately show thesis using res h E(1) by (intro that [of k'])
qed

end
