(* ===== verification/Env_Props.thy ===== *)
theory Env_Props
  imports Env_Ops Sched_Props
begin

section \<open>What the environment guarantees\<close>

text \<open>
  The variables of a task behave as a map, and the reference counts decide when a block is freed. The witnesses run in the state
  \<open>boot2\<close>, with no environment yet.
\<close>

definition env_boot :: env_kernel where
  "env_boot = task_kernel.extend boot2 \<lparr>envp = (\<lambda>_. NULL), environ = (\<lambda>_. None)\<rparr>"

lemma env_boot_fields:
  "tcb env_boot = tcb boot2" "tasklist env_boot = tasklist boot2" "cpu env_boot = cpu boot2" "current_regs env_boot = current_regs boot2"
  "envp env_boot = (\<lambda>_. NULL)" "environ env_boot = (\<lambda>_. None)"
  by (simp_all add: env_boot_def task_kernel.defs)

lemma env_boot_inv: "env_inv env_boot" "cur_vars env_boot = []"
proof -
  have "sched_ok env_boot" using boot2_ok(1) by (simp add: sched_ok_def lists_ok_def env_boot_fields)
  moreover have "lockable env_boot" unfolding lockable_def env_boot_fields by code_simp
  ultimately show "env_inv env_boot" by (simp add: env_inv_def env_ok_def env_holds_def env_private_def env_boot_fields)
  show "cur_vars env_boot = []" by (simp add: cur_vars_def env_block_def env_boot_fields env_parse.simps)
qed

subsection \<open>A map of variables\<close>

text \<open>
  C19: The environment refines a map from names to values: after any script of \<open>setenv\<close>, \<open>unsetenv\<close> and \<open>putenv\<close> by a task
  with an environment of its own, whatever the allocations return, every call has returned and \<open>getenv\<close> gives the value that the commands on the
  map give: the latest value, none after an unset or a failed allocation, the old one when overwriting was not asked for.
\<close>

theorem env_refines_map:
  assumes "env_inv k" and "script_ok env_exec env_cmd_ok cs k" and "valid_name nm"
  shows "\<exists>k' k''. run_cmds env_exec cs k = Some k' \<and> env_inv k' \<and> getenv (Some nm) k' = Some (fold env_spec cs (map_of (cur_vars k)) nm, k'')"
proof -
  obtain k' where k': "run_cmds env_exec cs k = Some k'" "env_inv k'" "map_of (cur_vars k') = fold env_spec cs (map_of (cur_vars k))"
    using env_store.script [OF assms(1,2)] by blast
  note D = env_invD [OF k'(2)]
  show ?thesis using k' getenv_eq [OF D(1-3,5) assms(3)] by simp
qed

theorem env_refines_map_witness:
  "\<exists>k' k''. run_cmds env_exec [Setenv ''A'' ''1'' True 900, Putenv ''B=2'' 900, Setenv ''A'' ''3'' False 900, Unsetenv ''B'' 950] env_boot = Some k' \<and>
     getenv (Some ''A'') k' = Some (Some ''1'', k'')"
proof -
  have "script_ok env_exec env_cmd_ok [Setenv ''A'' ''1'' True 900, Putenv ''B=2'' 900, Setenv ''A'' ''3'' False 900, Unsetenv ''B'' 950] env_boot"
    by code_simp
  from env_refines_map [OF env_boot_inv(1) this, of "''A''"] show ?thesis
    by (auto simp: valid_name_def env_boot_inv set_spec_def dom_def)
qed


subsection \<open>Sharing\<close>

text \<open>
  C20: Environment blocks are well formed and counted: from a state in which every block is a sequence of \<open>name=value\<close> strings with distinct names and its count is
  the number of its users, \<open>env_dup\<close> gives a new task a copy of its own, \<open>env_share\<close> gives a new thread the block of its parent, and
  \<open>env_release\<close> frees a block exactly with its last user; every other task keeps its variables, and the blocks stay well formed and counted.
\<close>

theorem env_blocks_counted:
  assumes "sched_ok k" and "lockable k" and "env_ok k" and "t \<noteq> NULL" and "r = hd (g_readytorun k)" and "env_holds k r vs"
  shows "(envp k t = NULL \<and> environ k tmp = None \<longrightarrow>
      (\<exists>k'. env_dup t tmp k = Some (if envp k r \<noteq> NULL \<and> tmp = NULL then - ENOMEM else OK, k') \<and> env_ok k' \<and>
        env_holds k' t (if tmp = NULL then [] else vs) \<and> env_private k' t \<and> (\<forall>u ws. u \<noteq> t \<longrightarrow> env_holds k' u ws = env_holds k u ws))) \<and>
    (envp k t = NULL \<and> Suc (card {u. envp k u = envp k r}) < 2 ^ 32 \<longrightarrow>
      (\<exists>k'. env_share t k = Some (OK, k') \<and> env_ok k' \<and> envp k' t = envp k r \<and> env_holds k' t vs \<and>
        (\<forall>u ws. u \<noteq> t \<longrightarrow> env_holds k' u ws = env_holds k u ws))) \<and>
    (\<exists>k'. env_release t k = Some (OK, k') \<and> env_ok k' \<and> envp k' t = NULL \<and>
      (envp k t \<noteq> NULL \<longrightarrow> (environ k' (envp k t) = None \<longleftrightarrow> {u. envp k u = envp k t} = {t})) \<and>
      (\<forall>u ws. u \<noteq> t \<longrightarrow> env_holds k' u ws = env_holds k u ws))"
proof (intro conjI impI)
  assume a: "envp k t = NULL \<and> environ k tmp = None"
  show "\<exists>k'. env_dup t tmp k = Some (if envp k r \<noteq> NULL \<and> tmp = NULL then - ENOMEM else OK, k') \<and> env_ok k' \<and>
        env_holds k' t (if tmp = NULL then [] else vs) \<and> env_private k' t \<and> (\<forall>u ws. u \<noteq> t \<longrightarrow> env_holds k' u ws = env_holds k u ws)"
    by (rule env_dup_ok [OF assms(1-4), of tmp]) (use a assms(5,6) in blast)+
next
  assume a: "envp k t = NULL \<and> Suc (card {u. envp k u = envp k r}) < 2 ^ 32"
  show "\<exists>k'. env_share t k = Some (OK, k') \<and> env_ok k' \<and> envp k' t = envp k r \<and> env_holds k' t vs \<and>
        (\<forall>u ws. u \<noteq> t \<longrightarrow> env_holds k' u ws = env_holds k u ws)"
  proof (rule env_share_ok [OF assms(1-4)])
    fix k' assume "env_share t k = Some (OK, k')" "env_ok k'" "envp k' = (envp k)(t := envp k (hd (g_readytorun k)))"
      "\<And>vs. env_holds k (hd (g_readytorun k)) vs \<Longrightarrow> env_holds k' t vs" "\<And>u vs. u \<noteq> t \<Longrightarrow> env_holds k' u vs = env_holds k u vs"
    then show ?thesis using assms(5,6) by (intro exI [of _ k']) simp
  qed (use a assms(5) in simp_all)
next
  show "\<exists>k'. env_release t k = Some (OK, k') \<and> env_ok k' \<and> envp k' t = NULL \<and>
      (envp k t \<noteq> NULL \<longrightarrow> (environ k' (envp k t) = None \<longleftrightarrow> {u. envp k u = envp k t} = {t})) \<and>
      (\<forall>u ws. u \<noteq> t \<longrightarrow> env_holds k' u ws = env_holds k u ws)"
  proof (rule env_release_ok [OF assms(1-4)])
    fix k' assume "env_release t k = Some (OK, k')" "env_ok k'" "envp k' = (envp k)(t := NULL)"
      "envp k t \<noteq> NULL \<Longrightarrow> environ k' (envp k t) = None \<longleftrightarrow> {u. envp k u = envp k t} = {t}" "\<And>u vs. u \<noteq> t \<Longrightarrow> env_holds k' u vs = env_holds k u vs"
    then show ?thesis by (intro exI [of _ k']) simp
  qed
qed

text \<open>\<open>A=1\<close> in the environment of task 2, and the same shared with task 3.\<close>

definition env_one :: env_kernel where
  "env_one = snd (the (setenv (Some ''A'') (Some ''1'') True 900 env_boot))"

definition env_shared :: env_kernel where
  "env_shared = snd (the (env_share 3 env_one))"

lemma env_one_ok: "env_inv env_one" "cur_vars env_one = [(''A'', ''1'')]" "envp env_one = (\<lambda>_. NULL)(2 := 900)" "hd (g_readytorun env_one) = 2"
  "environ env_one = [900 \<mapsto> \<lparr>ev_crefs = 1, ev_env = ''A=1'' @ [NUL]\<rparr>]"
proof -
  note D = env_invD [OF env_boot_inv(1)]
  have h: "hd (g_readytorun env_boot) = 2" unfolding env_boot_fields by code_simp
  have v: "valid_name ''A''" by (simp add: valid_name_def)
  have e: "env_one = put_env 2 900 ((env_block env_boot 2)\<lparr>ev_env := encode [(''A'', ''1'')]\<rparr>) env_boot"
    using setenv_eq [OF D(1-3) _ v, of "[]" "''1''" True 900] D(5) h
    by (simp add: env_one_def env_boot_inv del_var_def)
  have w: "env_wf [(''A'', ''1'')]" by (simp add: env_wf_def valid_name_def)
  show "env_inv env_one" "cur_vars env_one = [(''A'', ''1'')]"
    using env_inv_put(1,2) [OF env_boot_inv(1) _ _ w, of 900] unfolding e h by (simp_all add: alloc_ok_def env_boot_fields)
  show "envp env_one = (\<lambda>_. NULL)(2 := 900)" "environ env_one = [900 \<mapsto> \<lparr>ev_crefs = 1, ev_env = ''A=1'' @ [NUL]\<rparr>]"
    unfolding e put_env_def by (simp_all add: env_boot_fields env_block_def env_entry_def)
  show "hd (g_readytorun env_one) = 2" unfolding e using h by simp
qed

theorem env_blocks_counted_witness:
  "(\<exists>k'. env_share 3 env_one = Some (OK, k') \<and> env_ok k' \<and> envp k' 3 = 900 \<and> env_holds k' 3 [(''A'', ''1'')]) \<and>
   (\<exists>k'. env_dup 3 950 env_one = Some (OK, k') \<and> env_ok k' \<and> env_private k' 3) \<and>
   (\<exists>k'. env_release 2 env_one = Some (OK, k') \<and> env_ok k' \<and> environ k' 900 = None)"
proof -
  note D = env_invD [OF env_one_ok(1)]
  have h: "env_holds env_one 2 [(''A'', ''1'')]" using D(5) env_one_ok(2,4) by simp
  have c: "{u. envp env_one u = 900} = {2}" by (auto simp: env_one_ok(3))
  note C = env_blocks_counted [OF D(1-3) _ env_one_ok(4) [symmetric] h]
  have n: "(3 :: nat) \<noteq> NULL" "(2 :: nat) \<noteq> NULL" by simp_all
  have e: "envp env_one 3 = NULL" "envp env_one 2 = 900" "environ env_one 950 = None" by (simp_all add: env_one_ok)
  have "\<exists>k'. env_share 3 env_one = Some (OK, k') \<and> env_ok k' \<and> envp k' 3 = 900 \<and> env_holds k' 3 [(''A'', ''1'')]"
    using C [OF n(1), of 950, THEN conjunct2, THEN conjunct1] unfolding e c by (elim impE exE) (simp, blast)
  moreover have "\<exists>k'. env_dup 3 950 env_one = Some (OK, k') \<and> env_ok k' \<and> env_private k' 3"
    using C [OF n(1), of 950, THEN conjunct1] unfolding e by (elim impE exE) (simp, auto)
  moreover have "\<exists>k'. env_release 2 env_one = Some (OK, k') \<and> env_ok k' \<and> environ k' 900 = None"
    using C [OF n(2), of 950, THEN conjunct2, THEN conjunct2] unfolding e c by (elim exE) auto
  ultimately show ?thesis by (intro conjI)
qed

text \<open>
  A thread that sets a variable in a shared environment leaves the other threads behind when \<open>krealloc\<close> moves the block: the call
  returns OK, but the pointers of the other users refer to freed memory.
\<close>

theorem shared_setenv_dangles:
  assumes "sched_ok k" and "lockable k" and "env_ok k" and "r = hd (g_readytorun k)" and "env_holds k r vs"
    and "u \<noteq> r" and "envp k u = envp k r" and "envp k r \<noteq> NULL"
    and "valid_name nm" and "NUL \<notin> set v" and "v \<noteq> []" and "map_of vs nm = None \<or> overwrite" and "tmp \<noteq> NULL" and "environ k tmp = None"
  shows "\<exists>k'. setenv (Some nm) (Some v) overwrite tmp k = Some (OK, k') \<and> envp k' u = envp k u \<and> environ k' (envp k' u) = None \<and> \<not> env_ok k'"
proof -
  define k' where "k' = put_env r tmp ((env_block k r)\<lparr>ev_env := encode (del_var nm vs @ [(nm, v)])\<rparr>) k"
  have "setenv (Some nm) (Some v) overwrite tmp k = Some (OK, k')"
    using setenv_eq [OF assms(1-3) assms(5) [unfolded assms(4)] assms(9-11), of overwrite tmp] assms(4,12,13) by (auto simp: k'_def)
  moreover have "tmp \<noteq> envp k r" using env_users [OF assms(3,13,14)] by blast
  then have e: "envp k' u = envp k u" "environ k' (envp k u) = None" using assms(6,7) by (simp_all add: k'_def put_env_def)
  moreover have "\<not> env_ok k'" using env_users [of k' "envp k u" u] e assms(7,8) by auto
  ultimately show ?thesis by auto
qed

lemma env_shared_ok: "sched_ok env_shared" "lockable env_shared" "env_ok env_shared" "hd (g_readytorun env_shared) = 2" "env_holds env_shared 2 [(''A'', ''1'')]"
  "envp env_shared 3 = 900" "envp env_shared 2 = 900" "environ env_shared 950 = None"
proof -
  note D = env_invD [OF env_one_ok(1)]
  have h: "env_holds env_one 2 [(''A'', ''1'')]" using D(5) env_one_ok(2,4) by simp
  have c: "{u. envp env_one u = 900} = {2}" by (auto simp: env_one_ok(3))
  have e: "envp env_one 3 = NULL" "envp env_one 2 = 900" by (simp_all add: env_one_ok)
  obtain k' where k': "env_share 3 env_one = Some (OK, k')" "env_ok k'" "envp k' = (envp env_one)(3 := envp env_one 2)"
    "\<And>u vs. u \<noteq> 3 \<Longrightarrow> env_holds k' u vs = env_holds env_one u vs" "sched_ok k'" "lockable k'" "tasklist k' = tasklist env_one"
    "\<And>a. a \<noteq> envp env_one 2 \<Longrightarrow> environ k' a = environ env_one a"
    by (rule env_share_ok [OF D(1-3), of 3, unfolded env_one_ok(4) e c]) (simp_all add: env_one_ok)
  then have s: "env_shared = k'" by (simp add: env_shared_def)
  show "sched_ok env_shared" "lockable env_shared" "env_ok env_shared" "hd (g_readytorun env_shared) = 2" "env_holds env_shared 2 [(''A'', ''1'')]"
    "envp env_shared 3 = 900" "envp env_shared 2 = 900" "environ env_shared 950 = None"
    unfolding s using k' h e env_one_ok by simp_all
qed

theorem shared_setenv_dangles_witness:
  "\<exists>k'. setenv (Some ''B'') (Some ''2'') True 950 env_shared = Some (OK, k') \<and> envp k' 3 = 900 \<and> environ k' 900 = None"
  using shared_setenv_dangles [OF env_shared_ok(1-3) env_shared_ok(4) [symmetric] env_shared_ok(5), of 3 "''B''" "''2''" True 950]
  by (auto simp: env_shared_ok valid_name_def)

end
