(* ===== verification/Pthread.thy ===== *)
theory Pthread
  imports Sem_Ops Calm
begin

section \<open>Mutexes, condition variables and barriers\<close>

text \<open>
  The synchronisation of threads (\<open>sched/pthread_mutex*.c\<close>, \<open>pthread_cond*.c\<close>, \<open>pthread_barrier*.c\<close>), built on semaphores and on preemption
  locks, with CONFIG_MUTEX_TYPES. The semaphore of a mutex follows its \<open>pid\<close> field; a condition variable and a barrier begin with their semaphore.

  A call that blocks ends with the context switch; the functions with the suffix \<open>_resume\<close> are the rest of the call when
  the task runs again, with the local variable \<open>mypid\<close> as an argument.
\<close>

subsection \<open>Data\<close>

unbundle bit_operations_syntax

definition EDEADLK :: int where [simp]: "EDEADLK = 35"

datatype mutex_type = PTHREAD_MUTEX_NORMAL | PTHREAD_MUTEX_ERRORCHECK | PTHREAD_MUTEX_RECURSIVE

record pthread_mutex_s =
  m_pid :: int
  m_type :: mutex_type
  nlocks :: int

record pth_kernel = sem_kernel +
  mutex :: "addr \<Rightarrow> pthread_mutex_s"
  barrier_count :: "addr \<Rightarrow> nat"

definition mutex_sem :: "addr \<Rightarrow> addr" where
  "mutex_sem m = m + 4"

definition upd_mutex :: "addr \<Rightarrow> (pthread_mutex_s \<Rightarrow> pthread_mutex_s) \<Rightarrow> 'z pth_kernel_scheme \<Rightarrow> 'z pth_kernel_scheme" where
  "upd_mutex m f k = k\<lparr>mutex := (mutex k)(m := f (mutex k m))\<rparr>"

definition getpid :: "'z task_kernel_scheme \<Rightarrow> int" where
  "getpid k = tcb_pid k (list_head (g_readytorun k))"

subsection \<open>Taking and giving a semaphore (pthread\_initialize.c)\<close>

partial_function (option) takesemaphore_loop :: "addr \<Rightarrow> 'z sem_kernel_scheme \<Rightarrow> 'z sem_kernel_scheme result option" where
  "takesemaphore_loop sem k = do {
     r \<leftarrow> sem_wait sem k;
     case r of
       Blocked k \<Rightarrow> Some (Blocked k)
     | Returned ret k \<Rightarrow>
         (if ret = OK then Some (Returned OK k)
          else if get_errno k \<noteq> EINTR then Some (Returned ERROR (set_errno EINVAL k))
          else takesemaphore_loop sem k)
   }"

definition pthread_takesemaphore :: "addr \<Rightarrow> 'z sem_kernel_scheme \<Rightarrow> 'z sem_kernel_scheme result option" where
  "pthread_takesemaphore sem k =
     (if sem \<noteq> NULL then takesemaphore_loop sem k else Some (Returned ERROR (set_errno EINVAL k)))"

definition pthread_takesemaphore_resume :: "addr \<Rightarrow> 'z sem_kernel_scheme \<Rightarrow> 'z sem_kernel_scheme result option" where
  "pthread_takesemaphore_resume sem k =
     (let (ret, k) = sem_wait_resume k
      in if ret = OK then Some (Returned OK k)
         else if get_errno k \<noteq> EINTR then Some (Returned ERROR (set_errno EINVAL k))
         else takesemaphore_loop sem k)"

definition pthread_givesemaphore :: "addr \<Rightarrow> 'z sem_kernel_scheme \<Rightarrow> (int \<times> 'z sem_kernel_scheme) option" where
  "pthread_givesemaphore sem k =
     (if sem \<noteq> NULL
      then do { (ret, k) \<leftarrow> sem_post sem k; Some (if ret = OK then (OK, k) else (ERROR, set_errno EINVAL k)) }
      else Some (ERROR, set_errno EINVAL k))"

subsection \<open>Mutexes\<close>

text \<open>The attributes are the type, if they are given.\<close>

definition pthread_mutex_init :: "addr \<Rightarrow> mutex_type option \<Rightarrow> 'z pth_kernel_scheme \<Rightarrow> int \<times> 'z pth_kernel_scheme" where
  "pthread_mutex_init m attr k =
     (if m = NULL then (EINVAL, k)
      else let ty = (case attr of None \<Rightarrow> PTHREAD_MUTEX_NORMAL | Some ty \<Rightarrow> ty);
               k = upd_mutex m (m_pid_update (\<lambda>_. 0)) k;
               (status, k) = sem_init (mutex_sem m) 1 k;
               ret = (if status \<noteq> OK then EINVAL else OK)
           in (ret, upd_mutex m (\<lambda>c. c\<lparr>m_type := ty, nlocks := 0\<rparr>) k))"

definition mutex_lock_finish :: "addr \<Rightarrow> int \<Rightarrow> 'z pth_kernel_scheme result \<Rightarrow> 'z pth_kernel_scheme result option" where
  "mutex_lock_finish m mypid r =
     (case r of
        Blocked k \<Rightarrow> Some (Blocked k)
      | Returned ret k \<Rightarrow> do {
          k \<leftarrow> sched_unlock (if ret = OK then upd_mutex m (\<lambda>c. c\<lparr>m_pid := mypid, nlocks := 1\<rparr>) k else k);
          Some (Returned ret k)
        })"

definition pthread_mutex_lock :: "addr \<Rightarrow> 'z pth_kernel_scheme \<Rightarrow> 'z pth_kernel_scheme result option" where
  "pthread_mutex_lock m k =
     (let mypid = getpid k
      in if m = NULL then Some (Returned EINVAL k)
         else do {
           k \<leftarrow> sched_lock k;
           if m_pid (mutex k m) = mypid
           then let (ret, k) = (if m_type (mutex k m) = PTHREAD_MUTEX_RECURSIVE then (OK, upd_mutex m (nlocks_update (\<lambda>n. n + 1)) k)
                                else (EDEADLK, k))
                in do { k \<leftarrow> sched_unlock k; Some (Returned ret k) }
           else do { r \<leftarrow> pthread_takesemaphore (mutex_sem m) k; mutex_lock_finish m mypid r }
         })"

definition pthread_mutex_lock_resume :: "addr \<Rightarrow> int \<Rightarrow> 'z pth_kernel_scheme \<Rightarrow> 'z pth_kernel_scheme result option" where
  "pthread_mutex_lock_resume m mypid k = do { r \<leftarrow> pthread_takesemaphore_resume (mutex_sem m) k; mutex_lock_finish m mypid r }"

definition pthread_mutex_trylock :: "addr \<Rightarrow> 'z pth_kernel_scheme \<Rightarrow> (int \<times> 'z pth_kernel_scheme) option" where
  "pthread_mutex_trylock m k =
     (if m = NULL then Some (EINVAL, k)
      else do {
        k \<leftarrow> sched_lock k;
        let (status, k) = sem_trywait (mutex_sem m) k;
        let (ret, k) = (if status = OK then (OK, upd_mutex m (m_pid_update (\<lambda>_. getpid k)) k)
                        else if get_errno k = EAGAIN then (EBUSY, k) else (EINVAL, k));
        k \<leftarrow> sched_unlock k;
        Some (ret, k)
      })"

definition pthread_mutex_unlock :: "addr \<Rightarrow> 'z pth_kernel_scheme \<Rightarrow> (int \<times> 'z pth_kernel_scheme) option" where
  "pthread_mutex_unlock m k =
     (if m = NULL then Some (EINVAL, k)
      else do {
        k \<leftarrow> sched_lock k;
        (ret, k) \<leftarrow>
          (if m_pid (mutex k m) \<noteq> getpid k then Some (EPERM, k)
           else if m_type (mutex k m) = PTHREAD_MUTEX_RECURSIVE \<and> nlocks (mutex k m) > 1
           then Some (OK, upd_mutex m (nlocks_update (\<lambda>n. n - 1)) k)
           else pthread_givesemaphore (mutex_sem m) (upd_mutex m (\<lambda>c. c\<lparr>m_pid := 0, nlocks := 0\<rparr>) k));
        k \<leftarrow> sched_unlock k;
        Some (ret, k)
      })"

definition pthread_mutex_destroy :: "addr \<Rightarrow> 'z pth_kernel_scheme \<Rightarrow> (int \<times> 'z pth_kernel_scheme) option" where
  "pthread_mutex_destroy m k =
     (if m = NULL then Some (EINVAL, k)
      else do {
        k \<leftarrow> sched_lock k;
        let (ret, k) = (if m_pid (mutex k m) \<noteq> 0 then (EBUSY, k)
                        else let (status, k) = sem_destroy (mutex_sem m) k in (if status \<noteq> OK then EINVAL else OK, k));
        k \<leftarrow> sched_unlock k;
        Some (ret, k)
      })"

subsection \<open>Condition variables\<close>

definition pthread_cond_init :: "addr \<Rightarrow> 'z pth_kernel_scheme \<Rightarrow> int \<times> 'z pth_kernel_scheme" where
  "pthread_cond_init c k =
     (if c = NULL then (EINVAL, k) else let (status, k) = sem_init c 0 k in (if status \<noteq> OK then EINVAL else OK, k))"

definition pthread_cond_destroy :: "addr \<Rightarrow> 'z pth_kernel_scheme \<Rightarrow> int \<times> 'z pth_kernel_scheme" where
  "pthread_cond_destroy c k =
     (if c = NULL then (EINVAL, k) else let (status, k) = sem_destroy c k in (if status \<noteq> OK then EINVAL else OK, k))"

text \<open>
  A wait blocks for the condition, and then perhaps for the mutex; the number is the value of \<open>ret\<close> so far.
\<close>

datatype 'k cond_wait = CondReturned int 'k | WaitsCond int 'k | WaitsMutex int 'k

definition cond_wait_finish :: "addr \<Rightarrow> int \<Rightarrow> 'z pth_kernel_scheme result \<Rightarrow> 'z pth_kernel_scheme cond_wait" where
  "cond_wait_finish m ret r =
     (case r of
        Blocked k \<Rightarrow> WaitsMutex ret k
      | Returned x k \<Rightarrow>
          let ret = ret OR x
          in CondReturned ret (if ret = OK then upd_mutex m (m_pid_update (\<lambda>_. getpid k)) k else k))"

definition cond_wait_reacquire :: "addr \<Rightarrow> int \<Rightarrow> 'z pth_kernel_scheme result \<Rightarrow> 'z pth_kernel_scheme cond_wait option" where
  "cond_wait_reacquire m ret r =
     (case r of
        Blocked k \<Rightarrow> Some (WaitsCond ret k)
      | Returned x k \<Rightarrow> do {
          k \<leftarrow> sched_unlock k;
          r \<leftarrow> pthread_takesemaphore (mutex_sem m) k;
          Some (cond_wait_finish m (ret OR x) r)
        })"

definition pthread_cond_wait :: "addr \<Rightarrow> addr \<Rightarrow> 'z pth_kernel_scheme \<Rightarrow> 'z pth_kernel_scheme cond_wait option" where
  "pthread_cond_wait c m k =
     (if c = NULL \<or> m = NULL then Some (CondReturned EINVAL k)
      else if m_pid (mutex k m) \<noteq> getpid k then Some (CondReturned EPERM k)
      else do {
        k \<leftarrow> sched_lock k;
        (ret, k) \<leftarrow> pthread_givesemaphore (mutex_sem m) (upd_mutex m (m_pid_update (\<lambda>_. 0)) k);
        r \<leftarrow> pthread_takesemaphore c k;
        cond_wait_reacquire m ret r
      })"

definition cond_wait_resume_cond :: "addr \<Rightarrow> addr \<Rightarrow> int \<Rightarrow> 'z pth_kernel_scheme \<Rightarrow> 'z pth_kernel_scheme cond_wait option" where
  "cond_wait_resume_cond c m ret k = do { r \<leftarrow> pthread_takesemaphore_resume c k; cond_wait_reacquire m ret r }"

definition cond_wait_resume_mutex :: "addr \<Rightarrow> int \<Rightarrow> 'z pth_kernel_scheme \<Rightarrow> 'z pth_kernel_scheme cond_wait option" where
  "cond_wait_resume_mutex m ret k = do { r \<leftarrow> pthread_takesemaphore_resume (mutex_sem m) k; Some (cond_wait_finish m ret r) }"

definition pthread_cond_signal :: "addr \<Rightarrow> 'z pth_kernel_scheme \<Rightarrow> (int \<times> 'z pth_kernel_scheme) option" where
  "pthread_cond_signal c k =
     (if c = NULL then Some (EINVAL, k)
      else case sem_getvalue c k of
             (None, k) \<Rightarrow> Some (EINVAL, k)
           | (Some sval, k) \<Rightarrow> (if sval < 0 then pthread_givesemaphore c k else Some (OK, k)))"

function broadcast_loop :: "addr \<Rightarrow> int \<Rightarrow> int \<Rightarrow> 'z pth_kernel_scheme \<Rightarrow> (int \<times> 'z pth_kernel_scheme) option" where
  "broadcast_loop c sval ret k =
     (if sval < 0 then do { (ret, k) \<leftarrow> pthread_givesemaphore c k; broadcast_loop c (sval + 1) ret k } else Some (ret, k))"
  by auto
termination by (relation "measure (\<lambda>(_, sval, _, _). nat (- sval))") auto

declare broadcast_loop.simps [simp del]

definition pthread_cond_broadcast :: "addr \<Rightarrow> 'z pth_kernel_scheme \<Rightarrow> (int \<times> 'z pth_kernel_scheme) option" where
  "pthread_cond_broadcast c k =
     (if c = NULL then Some (EINVAL, k)
      else do {
        k \<leftarrow> sched_lock k;
        (ret, k) \<leftarrow> (case sem_getvalue c k of (None, k) \<Rightarrow> Some (EINVAL, k) | (Some sval, k) \<Rightarrow> broadcast_loop c sval OK k);
        k \<leftarrow> sched_unlock k;
        Some (ret, k)
      })"

subsection \<open>Barriers\<close>

definition PTHREAD_BARRIER_SERIAL_THREAD :: int where [simp]: "PTHREAD_BARRIER_SERIAL_THREAD = 4096"

definition pthread_barrier_init :: "addr \<Rightarrow> nat \<Rightarrow> 'z pth_kernel_scheme \<Rightarrow> int \<times> 'z pth_kernel_scheme" where
  "pthread_barrier_init b count k =
     (if b = NULL \<or> count = 0 then (EINVAL, k)
      else let (_, k) = sem_init b 0 k in (OK, k\<lparr>barrier_count := (barrier_count k)(b := count)\<rparr>))"

definition pthread_barrier_destroy :: "addr \<Rightarrow> 'z pth_kernel_scheme \<Rightarrow> int \<times> 'z pth_kernel_scheme" where
  "pthread_barrier_destroy b k =
     (if b = NULL then (EINVAL, k)
      else let (_, k) = sem_destroy b k in (OK, k\<lparr>barrier_count := (barrier_count k)(b := 0)\<rparr>))"

text \<open>The comparison with the unsigned count converts the other side to an unsigned 32-bit number.\<close>

definition u32 :: "int \<Rightarrow> int" where
  "u32 x = x mod 2 ^ 32"

partial_function (option) barrier_release_loop :: "addr \<Rightarrow> int \<Rightarrow> 'z pth_kernel_scheme \<Rightarrow> 'z pth_kernel_scheme option" where
  "barrier_release_loop b sval k =
     (if sval < 0 then do { (_, k) \<leftarrow> sem_post b k; barrier_release_loop b (semcount k b) k } else Some k)"

partial_function (option) barrier_wait_loop :: "addr \<Rightarrow> 'z pth_kernel_scheme \<Rightarrow> 'z pth_kernel_scheme result option" where
  "barrier_wait_loop b k = do {
     r \<leftarrow> sem_wait b k;
     case r of
       Blocked k \<Rightarrow> Some (Blocked k)
     | Returned ret k \<Rightarrow>
         (if ret = OK then do { k \<leftarrow> sched_unlock k; Some (Returned 0 k) }
          else if get_errno k \<noteq> EINTR then let e = get_errno k in do { k \<leftarrow> sched_unlock k; Some (Returned e k) }
          else barrier_wait_loop b k)
   }"

definition pthread_barrier_wait :: "addr \<Rightarrow> 'z pth_kernel_scheme \<Rightarrow> 'z pth_kernel_scheme result option" where
  "pthread_barrier_wait b k =
     (if b = NULL then Some (Returned EINVAL k)
      else do {
        k \<leftarrow> sched_lock k;
        case sem_getvalue b k of
          (None, k) \<Rightarrow> do { k \<leftarrow> sched_unlock k; Some (Returned EINVAL k) }
        | (Some sval, k) \<Rightarrow>
            (if u32 (1 - sval) \<ge> int (barrier_count k b)
             then do {
               k \<leftarrow> barrier_release_loop b sval k;
               k \<leftarrow> sched_unlock k;
               Some (Returned PTHREAD_BARRIER_SERIAL_THREAD k)
             }
             else barrier_wait_loop b k)
      })"

definition pthread_barrier_wait_resume :: "addr \<Rightarrow> 'z pth_kernel_scheme \<Rightarrow> 'z pth_kernel_scheme result option" where
  "pthread_barrier_wait_resume b k =
     (let (ret, k) = sem_wait_resume k
      in if ret = OK then do { k \<leftarrow> sched_unlock k; Some (Returned 0 k) }
         else if get_errno k \<noteq> EINTR then let e = get_errno k in do { k \<leftarrow> sched_unlock k; Some (Returned e k) }
         else barrier_wait_loop b k)"

end
