(* ===== verification/Pthread_Ops.thy ===== *)
theory Pthread_Ops
  imports Pthread
begin

section \<open>What the semaphore calls leave alone\<close>

text \<open>
  Every operation of the scheduler changes only task states, time slices, the lists and the processor; the
  semaphore calls also the count and, in \<open>errno\<close> and the semaphore waited for, the TCB of one task. So the mutexes and the
  pids survive them.
\<close>

subsection \<open>The scheduler\<close>

lemma merge_loop_rest: "merge_loop ps b k = Some (b', k') \<Longrightarrow> rest k' = rest k"
  by (induction ps b k rule: merge_loop.induct) (auto simp: Let_def rest_upd split: if_splits)

lemma merge_pending_rest: "merge_pending k = Some (b, k') \<Longrightarrow> rest k' = rest k"
  by (auto simp: merge_pending_def bind_eq_Some_conv rest_upd dest: merge_loop_rest)

lemma addreadytorun_rest: "sched_addreadytorun t k = Some (b, k') \<Longrightarrow> rest k' = rest k"
  by (auto simp: sched_addreadytorun_def add_prioritized_def bind_eq_Some_conv rest_upd Let_def split: if_splits)

lemma removereadytorun_rest: "sched_removereadytorun t k = Some (b, k') \<Longrightarrow> rest k' = rest k"
  by (auto simp: sched_removereadytorun_def bind_eq_Some_conv rest_upd Let_def split: if_splits)

lemma addblocked_rest: "sched_addblocked t s k = Some k' \<Longrightarrow> rest k' = rest k"
  by (auto simp: sched_addblocked_def add_prioritized_def bind_eq_Some_conv rest_upd Let_def split: if_splits)

lemma up_block_task_rest:
  assumes "up_block_task t s k = Some k'"
  shows "rest k' = rest k"
proof -
  obtain b k1 where 1: "sched_removereadytorun t k = Some (b, k1)"
    using assms by (cases "sched_removereadytorun t k") (auto simp: up_block_task_def split: if_splits)
  obtain k2 where 2: "sched_addblocked t s k1 = Some k2"
    using assms 1 by (cases "sched_addblocked t s k1") (auto simp: up_block_task_def split: if_splits)
  have 3: "(do { (c, k3) \<leftarrow> (if g_pendingtasks k2 \<noteq> [] then do { (c, k3) \<leftarrow> merge_pending k2; Some (b \<or> c, k3) } else Some (b, k2));
       Some (if c then switch_context k3 else k3) }) = Some k'"
    using assms 1 2 by (cases "is_ready_state (state_of k t)") (simp_all add: up_block_task_def)
  have "rest k' = rest k2"
  proof (cases "g_pendingtasks k2 = []")
    case True
    then show ?thesis using 3 by auto
  next
    case False
    then obtain c k3 where "merge_pending k2 = Some (c, k3)" using 3 by (cases "merge_pending k2") auto
    then show ?thesis using 3 False merge_pending_rest [of k2 c k3] by auto
  qed
  then show ?thesis using removereadytorun_rest [OF 1] addblocked_rest [OF 2] by simp
qed

lemma up_unblock_task_rest:
  assumes "up_unblock_task t k = Some k'"
  shows "rest k' = rest k"
proof -
  let ?u = "upd_tcb t (timeslice_update (\<lambda>_. RR_TICKS))"
  obtain k1 where 1: "sched_removeblocked t k = Some k1"
    using assms by (cases "sched_removeblocked t k") (auto simp: up_unblock_task_def split: if_splits)
  obtain b k2 where 2: "sched_addreadytorun t (?u k1) = Some (b, k2)"
    using assms 1 by (cases "sched_addreadytorun t (?u k1)") (auto simp: up_unblock_task_def split: if_splits)
  have "k' = (if b then switch_context k2 else k2)" using assms 1 2 by (simp add: up_unblock_task_def split: if_splits)
  moreover have "rest k1 = rest k" using 1 by (auto simp: sched_removeblocked_def Let_def split: if_splits)
  ultimately show ?thesis using addreadytorun_rest [OF 2] by simp
qed

subsection \<open>Locks and semaphores\<close>

text \<open>Only the TCBs of the tasks in \<open>T\<close> may get another \<open>errno\<close>.\<close>

definition quiet :: "addr set \<Rightarrow> 'z sem_kernel_scheme \<Rightarrow> 'z sem_kernel_scheme \<Rightarrow> bool" where
  "quiet T k k' \<longleftrightarrow> tcb_pid k' = tcb_pid k \<and> sem_kernel.more k' = sem_kernel.more k \<and> (\<forall>t. t \<notin> T \<longrightarrow> pterrno (tcb k' t) = pterrno (tcb k t))"

lemma quiet_refl [simp]: "quiet T k k"
  by (simp add: quiet_def)

lemma quiet_trans: "quiet T k k1 \<Longrightarrow> quiet T k1 k2 \<Longrightarrow> quiet T k k2"
  by (simp add: quiet_def)

lemma quiet_mono: "quiet T k k' \<Longrightarrow> T \<subseteq> U \<Longrightarrow> quiet U k k'"
  by (auto simp: quiet_def)

lemma quiet_more:
  assumes "kernel.more k' = kernel.more k" "\<And>t. t \<notin> T \<Longrightarrow> pterrno (tcb k' t) = pterrno (tcb k t)"
  shows "quiet T k k'"
proof -
  have "k' = k\<lparr>tcb := tcb k', tasklist := tasklist k', cpu := cpu k', current_regs := current_regs k', g_irqerrno := g_irqerrno k'\<rparr>"
    using assms(1) by (intro kernel.equality) simp_all
  note * = arg_cong [OF this]
  show ?thesis using * [of tcb_pid] * [of sem_kernel.more] assms(2) by (simp add: quiet_def)
qed

lemma quiet_rest: "rest k' = rest k \<Longrightarrow> quiet {} k k'"
  by (rule quiet_more) (rule rest_eqD(11), assumption, rule rest_eqD(8), assumption)

lemma quiet_upd_tcb: "(\<And>c. t \<notin> T \<Longrightarrow> pterrno (f c) = pterrno c) \<Longrightarrow> quiet T k (upd_tcb t f k)"
  by (rule quiet_more) (simp_all, metis)

lemma quiet_set_count [simp]: "quiet T k (set_count sem c k)"
  by (simp add: quiet_def set_count_def)

lemma quiet_set_errno: "quiet {list_head (g_readytorun k)} k (set_errno e k)"
  by (rule quiet_more) (auto simp: set_errno_def upd_tcb_def Let_def)

lemma sched_lock_quiet: "sched_lock k = Some k' \<Longrightarrow> quiet T k k'"
  by (auto simp: sched_lock_def Let_def intro!: quiet_upd_tcb split: if_splits)

lemma sched_unlock_quiet:
  assumes "sched_unlock k = Some k'"
  shows "quiet T k k'"
proof -
  let ?r = "list_head (g_readytorun k)"
  have p: "quiet {} k1 k2" if "up_release_pending k1 = Some k2" for k1 k2 :: "'a sem_kernel_scheme"
    using that by (intro quiet_rest) (auto simp: up_release_pending_def bind_eq_Some_conv merge_pending_rest split: if_splits)
  have l: "quiet {} k (upd_tcb ?r (lockcount_update f) k)" for f by (rule quiet_upd_tcb) simp
  define k1 where "k1 = (if lockcount (tcb k ?r) \<noteq> 0 then upd_tcb ?r (lockcount_update (\<lambda>n. n - 1)) k else k)"
  have 1: "quiet {} k k1" using l by (simp add: k1_def)
  have 2: "quiet {} k1 (upd_tcb ?r (lockcount_update (\<lambda>_. 0)) k1)" by (rule quiet_upd_tcb) simp
  have "quiet {} k k'"
    using assms 1 quiet_trans [OF 1 2] quiet_trans [OF quiet_trans [OF 1 2] p]
    unfolding sched_unlock_def Let_def k1_def [symmetric] by (auto split: if_splits)
  then show ?thesis by (rule quiet_mono) simp
qed

lemma tasklist_set_errno [simp]: "tasklist (set_errno e k) = tasklist k" "semcount (set_errno e k) = semcount k" "waitsem (tcb (set_errno e k) t) = waitsem (tcb k t)"
  by (auto simp: set_errno_def upd_tcb_def Let_def)

lemma sem_wait_quiet:
  assumes "sem_wait sem k = Some r" "r = Returned ret k' \<or> r = Blocked k'"
  shows "quiet {list_head (g_readytorun k)} k k'"
proof -
  let ?r = "list_head (g_readytorun k)"
  let ?k = "set_errno EINVAL k"
  have e: "quiet {?r} k ?k" by (rule quiet_set_errno)
  have t: "quiet {?r} j (upd_tcb ?r f j)" for f and j :: "'a sem_kernel_scheme" by (rule quiet_upd_tcb) simp
  consider "sem = NULL" "k' = ?k" | "k' = upd_tcb ?r (waitsem_update (\<lambda>_. NULL)) (set_count sem (semcount ?k sem - 1) ?k)"
    | "up_block_task ?r TSTATE_WAIT_SEM (set_errno 0 (upd_tcb ?r (waitsem_update (\<lambda>_. sem)) (set_count sem (semcount ?k sem - 1) ?k))) = Some k'"
    using assms by (auto simp: sem_wait_def Let_def split: if_splits)
  then show ?thesis
  proof cases
    case 1
    then show ?thesis using e by simp
  next
    case 2
    then show ?thesis using quiet_trans [OF quiet_trans [OF e quiet_set_count] t] by simp
  next
    case 3
    let ?j = "upd_tcb ?r (waitsem_update (\<lambda>_. sem)) (set_count sem (semcount ?k sem - 1) ?k)"
    have a: "quiet {?r} k ?j" by (rule quiet_trans [OF quiet_trans [OF e quiet_set_count] t])
    have "quiet {?r} ?j (set_errno 0 ?j)" using quiet_set_errno [of ?j 0] by simp
    then show ?thesis
      using quiet_trans [OF quiet_trans [OF a] quiet_mono [OF quiet_rest [OF up_block_task_rest [OF 3]]]] by simp
  qed
qed

lemma sem_post_quiet:
  assumes "sem_post sem k = Some (ret, k')"
  shows "quiet {} k k'"
proof -
  let ?k = "set_count sem (semcount k sem + 1) k"
  consider "k' = k" | "k' = ?k" | t where "up_unblock_task t (upd_tcb t (waitsem_update (\<lambda>_. NULL)) ?k) = Some k'"
    using assms by (auto simp: sem_post_def Let_def split: if_splits)
  then show ?thesis
  proof cases
    case 3
    have "quiet {} ?k (upd_tcb t (waitsem_update (\<lambda>_. NULL)) ?k)" by (rule quiet_upd_tcb) simp
    then show ?thesis using quiet_trans [OF quiet_trans [OF quiet_set_count] quiet_rest [OF up_unblock_task_rest [OF 3]]] by simp
  qed simp_all
qed

lemma sem_waitirq_quiet:
  assumes "sem_waitirq t e k = Some k'"
  shows "quiet {t} k k'"
proof -
  let ?s = "waitsem (tcb k t)"
  let ?k = "set_count ?s (semcount k ?s + 1) k"
  have a: "quiet {t} k (upd_tcb t f (upd_tcb t g ?k))" for f g by (rule quiet_trans [OF quiet_trans [OF quiet_set_count]]; rule quiet_upd_tcb) simp_all
  show ?thesis
  proof (cases "state_of k t = TSTATE_WAIT_SEM")
    case True
    have 2: "up_unblock_task t (upd_tcb t (pterrno_update (\<lambda>_. e)) (upd_tcb t (waitsem_update (\<lambda>_. NULL)) ?k)) = Some k'"
      using assms True unfolding sem_waitirq_def Let_def by (cases "?s \<noteq> NULL \<and> semcount k ?s < 0") (simp_all only: if_True if_False simp_thms option.simps)
    show ?thesis by (rule quiet_trans [OF a quiet_mono [OF quiet_rest [OF up_unblock_task_rest [OF 2]]]]) simp
  next
    case False
    then show ?thesis using assms by (simp add: sem_waitirq_def)
  qed
qed

lemma sem_trywait_quiet:
  assumes "sem_trywait sem k = (ret, k')"
  shows "quiet {list_head (g_readytorun k)} k k'"
proof -
  let ?r = "list_head (g_readytorun k)"
  have e: "quiet {?r} k (set_errno x k)" for x by (rule quiet_set_errno)
  have e2: "quiet {?r} k (set_errno y (set_errno x k))" for x y using quiet_trans [OF e quiet_set_errno [of "set_errno x k" y, simplified]] .
  have t: "quiet {?r} j (upd_tcb ?r f j)" for f and j :: "'a sem_kernel_scheme" by (rule quiet_upd_tcb) simp
  show ?thesis using assms e e2 quiet_trans [OF quiet_trans [OF e2 quiet_set_count] t] by (auto simp: sem_trywait_def Let_def split: if_splits)
qed

end
