(* ===== verification/Mutex.thy ===== *)
theory Mutex
  imports Pthread_Ops Sem_Props
begin

section \<open>Mutual exclusion\<close>

text \<open>
  The invariant of a mutex that is not recursive, with the tasks \<open>H\<close> that have it and the tasks \<open>B\<close> inside a call of \<open>pthread_mutex_lock\<close> that has blocked.
  A task of \<open>B\<close> that no longer waits was either interrupted by a signal (its \<open>errno\<close> tells) or has been
  given the semaphore by an unlock (\<open>granted\<close>) and will have the mutex when it runs.
\<close>

definition granted :: "addr \<Rightarrow> 'z sem_kernel_scheme \<Rightarrow> addr set \<Rightarrow> addr set" where
  "granted s k B = {t \<in> B. t \<notin> set (waiters k s) \<and> pterrno (tcb k t) \<notin> {EINTR, ETIMEDOUT}}"

definition mutex_inv :: "addr \<Rightarrow> 'z pth_kernel_scheme \<Rightarrow> addr set \<Rightarrow> addr set \<Rightarrow> bool" where
  "mutex_inv m k H B \<longleftrightarrow> (let s = mutex_sem m in
     sem_ok k \<and> finite H \<and> finite B \<and> H \<inter> B = {} \<and>
     set (waiters k s) \<subseteq> B \<and> B \<inter> set (tasklist k TSTATE_WAIT_SEM) \<subseteq> set (waiters k s) \<and>
     (\<forall>t\<in>set (waiters k s). pterrno (tcb k t) = 0) \<and>
     semcount k s = 1 - int (card H) - int (card (granted s k B)) - int (length (waiters k s)) \<and>
     (\<forall>t\<in>H. m_pid (mutex k m) = tcb_pid k t) \<and> (H = {} \<longrightarrow> m_pid (mutex k m) = 0) \<and>
     m_type (mutex k m) \<noteq> PTHREAD_MUTEX_RECURSIVE \<and> (\<forall>t\<in>H \<union> B. tcb_pid k t \<noteq> 0))"

lemma mutex_invD:
  assumes "mutex_inv m k H B"
  defines "s \<equiv> mutex_sem m"
  shows "sem_ok k" "finite H" "finite B" "H \<inter> B = {}" "set (waiters k s) \<subseteq> B" "B \<inter> set (tasklist k TSTATE_WAIT_SEM) \<subseteq> set (waiters k s)"
    "t \<in> set (waiters k s) \<Longrightarrow> pterrno (tcb k t) = 0" "semcount k s = 1 - int (card H) - int (card (granted s k B)) - int (length (waiters k s))"
    "t \<in> H \<Longrightarrow> m_pid (mutex k m) = tcb_pid k t" "H = {} \<Longrightarrow> m_pid (mutex k m) = 0" "m_type (mutex k m) \<noteq> PTHREAD_MUTEX_RECURSIVE"
    "t \<in> H \<union> B \<Longrightarrow> tcb_pid k t \<noteq> 0" "s \<noteq> NULL" "sched_ok k" "finite (granted s k B)"
  using assms unfolding mutex_inv_def Let_def by (auto simp: sem_okD(1) granted_def mutex_sem_def)

text \<open>At most one task has the mutex or has been given it.\<close>

lemma mutex_one:
  assumes "mutex_inv m k H B"
  shows "card H + card (granted (mutex_sem m) k B) \<le> 1"
proof -
  note I = mutex_invD [OF assms]
  have "length (waiters k (mutex_sem m)) = nat (- semcount k (mutex_sem m))" using sem_okD(2) [OF I(1,13)] by simp
  then show ?thesis using I(8) by (cases "waiters k (mutex_sem m)") auto
qed

lemma mutex_free:
  assumes "mutex_inv m k H B" "semcount k (mutex_sem m) > 0"
  shows "H = {}" "granted (mutex_sem m) k B = {}" "waiters k (mutex_sem m) = []" "semcount k (mutex_sem m) = 1"
proof -
  note I = mutex_invD [OF assms(1)]
  have "card H = 0" "card (granted (mutex_sem m) k B) = 0" "length (waiters k (mutex_sem m)) = 0" using I(8) assms(2) by linarith+
  then show "H = {}" "granted (mutex_sem m) k B = {}" "waiters k (mutex_sem m) = []" "semcount k (mutex_sem m) = 1" using I(2,8,15) by auto
qed

subsection \<open>Steps\<close>

lemma sem_ok_calm:
  assumes "sem_ok k" "sched_ok k'" "calm k k'"
  shows "sem_ok k'" "semcount k' = semcount k" "waiters k' = waiters k" "tasklist k' TSTATE_WAIT_SEM = tasklist k TSTATE_WAIT_SEM"
proof -
  have b: "is_blocked_state TSTATE_WAIT_SEM" by (simp add: is_blocked_state_def)
  have c: "tasklist k' TSTATE_WAIT_SEM = tasklist k TSTATE_WAIT_SEM" "\<And>t. waitsem (tcb k' t) = waitsem (tcb k t)" "live k' = live k"
    "kernel.more k' = kernel.more k"
    using assms(3) b by (auto simp: calm_def)
  show m: "semcount k' = semcount k" by (rule sem_more_eqD [OF c(4)])
  show "sem_ok k'" by (rule sem_ok_keep [OF assms(1,2) c(1,2) m c(3)])
  show "waiters k' = waiters k" "tasklist k' TSTATE_WAIT_SEM = tasklist k TSTATE_WAIT_SEM" by (simp_all add: waiters_def c fun_eq_iff)
qed

lemma quietD:
  assumes "quiet T k (k' :: 'z pth_kernel_scheme)"
  shows "tcb_pid k' = tcb_pid k" "mutex k' = mutex k" "barrier_count k' = barrier_count k" "t \<notin> T \<Longrightarrow> pterrno (tcb k' t) = pterrno (tcb k t)"
proof -
  have "sem_kernel.more k' = sem_kernel.more k" using assms by (simp add: quiet_def)
  then have "k' = k\<lparr>tcb := tcb k', tasklist := tasklist k', cpu := cpu k', current_regs := current_regs k', g_irqerrno := g_irqerrno k',
      g_lastpid := g_lastpid k', g_pidhash := g_pidhash k', tcb_pid := tcb_pid k', init_priority := init_priority k', semcount := semcount k'\<rparr>"
    by (intro sem_kernel.equality) simp_all
  note * = arg_cong [OF this]
  show "mutex k' = mutex k" using * [of mutex] by simp
  show "barrier_count k' = barrier_count k" using * [of barrier_count] by simp
  show "tcb_pid k' = tcb_pid k" "t \<notin> T \<Longrightarrow> pterrno (tcb k' t) = pterrno (tcb k t)" using assms by (simp_all add: quiet_def)
qed

text \<open>A step of the lock, of the unlock or of another task that keeps what the invariant is about.\<close>

lemma mutex_inv_frame:
  assumes I: "mutex_inv m k H B" and k': "sem_ok k'" "semcount k' (mutex_sem m) = semcount k (mutex_sem m)"
    "waiters k' (mutex_sem m) = waiters k (mutex_sem m)" "B \<inter> set (tasklist k' TSTATE_WAIT_SEM) \<subseteq> set (waiters k (mutex_sem m))"
    "mutex k' m = mutex k m" "\<And>t. t \<in> H \<union> B \<Longrightarrow> tcb_pid k' t = tcb_pid k t" "\<And>t. t \<in> B \<Longrightarrow> pterrno (tcb k' t) = pterrno (tcb k t)"
  shows "mutex_inv m k' H B"
proof -
  note D = mutex_invD [OF I]
  have g: "granted (mutex_sem m) k' B = granted (mutex_sem m) k B" using k'(3,7) by (auto simp: granted_def)
  show ?thesis unfolding mutex_inv_def Let_def g k'(2,3,5) using D k'(1,4,6,7) by auto
qed

lemma mutex_inv_calm:
  assumes "mutex_inv m k H B" "sched_ok k'" "calm k k'" "quiet T k k'" "T \<inter> B = {}"
  shows "mutex_inv m k' H B"
proof -
  note D = mutex_invD [OF assms(1)] and C = sem_ok_calm [OF mutex_invD(1) [OF assms(1)] assms(2,3)] and Q = quietD [OF assms(4)]
  show ?thesis by (rule mutex_inv_frame [OF assms(1) C(1)]) (use C D(6) Q assms(5) in auto)
qed

lemma sem_wait_nonnull:
  assumes "sem \<noteq> NULL"
  shows "pthread_takesemaphore sem k = sem_wait sem k" "takesemaphore_loop sem k = sem_wait sem k"
proof -
  have "sem_wait sem k = Some (Returned ret k') \<Longrightarrow> ret = OK" for ret k'
    using assms by (auto simp: sem_wait_def Let_def split: if_splits)
  then show "takesemaphore_loop sem k = sem_wait sem k"
    by (subst takesemaphore_loop.simps) (auto split: Option.bind_splits result.splits)
  then show "pthread_takesemaphore sem k = sem_wait sem k" using assms by (simp add: pthread_takesemaphore_def)
qed


lemma upd_mutex_fields [simp]:
  "tcb (upd_mutex m f k) = tcb k" "tasklist (upd_mutex m f k) = tasklist k" "cpu (upd_mutex m f k) = cpu k" "current_regs (upd_mutex m f k) = current_regs k"
  "semcount (upd_mutex m f k) = semcount k" "tcb_pid (upd_mutex m f k) = tcb_pid k" "mutex (upd_mutex m f k) = (mutex k)(m := f (mutex k m))"
  by (simp_all add: upd_mutex_def)

lemma upd_mutex_sem [simp]: "sem_ok (upd_mutex m f k) = sem_ok k" "waiters (upd_mutex m f k) = waiters k" "sched_ok (upd_mutex m f k) = sched_ok k" "granted s (upd_mutex m f k) = granted s k"
proof -
  show w: "waiters (upd_mutex m f k) = waiters k" by (simp add: waiters_def fun_eq_iff)
  show o: "sched_ok (upd_mutex m f k) = sched_ok k" by (simp add: sched_ok_def lists_ok_def)
  show "sem_ok (upd_mutex m f k) = sem_ok k" unfolding sem_ok_def w o by simp
  show "granted s (upd_mutex m f k) = granted s k" by (simp add: granted_def fun_eq_iff w)
qed

lemma running_not_waiting:
  assumes "sched_ok k"
  shows "cpu k \<notin> set (tasklist k TSTATE_WAIT_SEM)" "cpu k \<notin> set (waiters k s)" "list_head (g_readytorun k) = cpu k"
proof -
  have "state_of k (cpu k) = TSTATE_TASK_RUNNING" using running_state [OF assms] sched_okD(2) [OF assms] by simp
  then show "cpu k \<notin> set (tasklist k TSTATE_WAIT_SEM)" "cpu k \<notin> set (waiters k s)" using sem_waits.in_list [OF assms] waiters_mem [OF assms] by auto
  show "list_head (g_readytorun k) = cpu k" using sched_okD(2,3) [OF assms] by simp
qed

text \<open>The semaphore is free: the caller has the mutex.\<close>

lemma mutex_take:
  assumes I: "mutex_inv m k H B" and cr: "\<not> current_regs k" and p: "tcb_pid k (cpu k) \<noteq> 0" and f: "semcount k (mutex_sem m) > 0"
  obtains k' where "sem_wait (mutex_sem m) k = Some (Returned OK k')" "cpu k' = cpu k" "getpid k' = getpid k" "sched_ok k'"
    "H = {}" "mutex_inv m (upd_mutex m (\<lambda>c. c\<lparr>m_pid := tcb_pid k (cpu k), nlocks := n c\<rparr>) k') {cpu k} (B - {cpu k})"
proof -
  let ?s = "mutex_sem m" and ?r = "cpu k"
  note D = mutex_invD [OF I] and F = mutex_free [OF I f]
  obtain k' where k': "sem_wait ?s k = Some (Returned OK k')" "sem_ok k'" "semcount k' = (semcount k)(?s := semcount k ?s - 1)"
    "tasklist k' = tasklist k" "cpu k' = cpu k" "waiters k' = waiters k"
    by (rule sem_wait_take [OF D(1) cr D(13) f]) (rule that)
  have q: "quiet {?r} k k'" using sem_wait_quiet [OF k'(1)] running_not_waiting(3) [OF D(14)] by simp
  note Q = quietD [OF q]
  let ?k = "upd_mutex m (\<lambda>c. c\<lparr>m_pid := tcb_pid k ?r, nlocks := n c\<rparr>) k'"
  have g: "granted ?s k' (B - {?r}) = {}" using F(2) Q(4) by (auto simp: granted_def k'(6))
  have "mutex_inv m ?k {?r} (B - {?r})"
    unfolding mutex_inv_def Let_def upd_mutex_sem g using D(3,6,11,12) k' F p Q by auto
  moreover have "getpid k' = getpid k" using Q(1) by (simp add: getpid_def k'(4))
  ultimately show thesis using that [of k'] k' F(1) sem_okD(1) by blast
qed

text \<open>The semaphore is taken: the caller waits for it.\<close>

lemma mutex_block:
  assumes I: "mutex_inv m k H B" and cr: "\<not> current_regs k" and p: "tcb_pid k (cpu k) \<noteq> 0" and f: "\<not> semcount k (mutex_sem m) > 0"
    and n: "length (g_readytorun k) > 1" "length (tasklist k TSTATE_WAIT_SEM) < 32767"
    and r: "cpu k \<notin> H" "cpu k \<notin> granted (mutex_sem m) k B"
  obtains k' where "sem_wait (mutex_sem m) k = Some (Blocked k')" "mutex_inv m k' H (insert (cpu k) B)"
proof -
  let ?s = "mutex_sem m" and ?r = "cpu k"
  note D = mutex_invD [OF I]
  have f': "semcount k ?s \<le> 0" using f by simp
  obtain k' where k': "sem_wait ?s k = Some (Blocked k')" "sem_ok k'" "semcount k' = (semcount k)(?s := semcount k ?s - 1)"
    "waiters k' ?s = prio_insert (prio k) ?r (waiters k ?s)" "pterrno (tcb k' ?r) = 0"
    "tasklist k' TSTATE_WAIT_SEM = prio_insert (prio k) ?r (tasklist k TSTATE_WAIT_SEM)"
    by (rule sem_wait_block [OF D(1) cr D(13) f' n]) (rule that)
  have q: "quiet {?r} k k'" using sem_wait_quiet [OF k'(1)] running_not_waiting(3) [OF D(14)] by simp
  note Q = quietD [OF q]
  have "x \<in> granted ?s k' (insert ?r B) \<longleftrightarrow> x \<in> granted ?s k B" for x
    using r(2) Q(4) [of x] by (cases "x = ?r") (simp_all add: granted_def k'(4))
  then have g: "granted ?s k' (insert ?r B) = granted ?s k B" by blast
  have e: "pterrno (tcb k' t) = 0" if "t \<in> set (waiters k' ?s)" for t
    using that D(7) [of t] Q(4) [of t] k'(4,5) by (cases "t = ?r") auto
  have "mutex_inv m k' H (insert ?r B)"
    unfolding mutex_inv_def Let_def g
  proof (intro conjI)
    show "H \<inter> insert ?r B = {}" using D(4) r(1) by simp
    show "set (waiters k' ?s) \<subseteq> insert ?r B" "insert ?r B \<inter> set (tasklist k' TSTATE_WAIT_SEM) \<subseteq> set (waiters k' ?s)"
      using D(5,6) k'(4,6) by auto
    show "semcount k' ?s = 1 - int (card H) - int (card (granted ?s k B)) - int (length (waiters k' ?s))" using D(8) k'(3,4) by simp
  qed (use D k'(2) e p Q in auto)
  then show thesis using that [of k'] k' by blast
qed

text \<open>An unlock gives the semaphore to the first waiting task, or frees it.\<close>

lemma mutex_give:
  assumes I: "mutex_inv m k {r} B"
  obtains k' where "pthread_givesemaphore (mutex_sem m) (upd_mutex m (\<lambda>c. c\<lparr>m_pid := 0, nlocks := 0\<rparr>) k) = Some (OK, k')" "mutex_inv m k' {} B"
proof -
  let ?s = "mutex_sem m" and ?k = "upd_mutex m (\<lambda>c. c\<lparr>m_pid := 0, nlocks := 0\<rparr>) k"
  note D = mutex_invD [OF I]
  have ok: "sem_ok ?k" using D(1) by simp
  have z: "granted ?s k B = {}" using mutex_one [OF I] D(15) by auto
  show thesis
  proof (cases "waiters k ?s")
    case Nil
    have c: "semcount k ?s = 0" using D(8) z Nil by simp
    let ?k' = "set_count ?s (semcount ?k ?s + 1) ?k"
    have p: "sem_post ?s ?k = Some (OK, ?k')" "sem_ok ?k'" by (rule sem_post_free [OF ok D(13)]; use Nil c in simp)+
    have "waiters ?k' = waiters k" by (simp add: waiters_def fun_eq_iff)
    moreover have "granted ?s ?k' B = {}" using z by (auto simp: granted_def waiters_def)
    moreover have "mutex ?k' = mutex ?k" "tcb_pid ?k' = tcb_pid k" by (simp_all add: set_count_def)
    ultimately have "mutex_inv m ?k' {} B" unfolding mutex_inv_def Let_def using D p(2) Nil c by simp
    then show thesis using that [of ?k'] p(1) D(13) by (simp add: pthread_givesemaphore_def)
  next
    case (Cons t ts)
    have w: "waiters ?k ?s = t # ts" using Cons by simp
    obtain k' where k': "sem_post ?s ?k = Some (OK, k')" "sem_ok k'" "semcount k' = (semcount ?k)(?s := semcount ?k ?s + 1)"
      "waiters k' ?s = ts"
      "tasklist k' = (tasklist ?k)(TSTATE_WAIT_SEM := remove1 t (tasklist ?k TSTATE_WAIT_SEM),
         ready_list ?k t := prio_insert (prio ?k) t (tasklist ?k (ready_list ?k t)))"
      by (rule sem_post_wake [OF ok D(13) w]) (rule that)
    note Q = quietD [OF sem_post_quiet [OF k'(1)]]
    have tB: "t \<in> B" "t \<notin> set ts" "pterrno (tcb k t) = 0"
    proof -
      have "distinct (waiters k ?s)" using tasks_okD(3) [OF lists_okD [OF sched_okD(1) [OF D(14)]]] by (simp add: waiters_def)
      then show "t \<notin> set ts" using Cons by simp
      show "t \<in> B" "pterrno (tcb k t) = 0" using D(5,7) Cons by auto
    qed
    have g: "granted ?s k' B = {t}"
      using z tB k'(4) Q(4) Cons by (auto simp: granted_def)
    have l: "set (tasklist k' TSTATE_WAIT_SEM) \<subseteq> set (tasklist k TSTATE_WAIT_SEM) - {t}"
    proof -
      have "distinct (tasklist k TSTATE_WAIT_SEM)" using tasks_okD(3) [OF lists_okD [OF sched_okD(1) [OF D(14)]]] by simp
      moreover have "ready_list ?k t \<noteq> TSTATE_WAIT_SEM" by (simp add: ready_list_def)
      ultimately show ?thesis by (simp add: k'(5))
    qed
    have "mutex_inv m k' {} B"
      unfolding mutex_inv_def Let_def g k'(4)
    proof (intro conjI)
      show "set ts \<subseteq> B" "B \<inter> set (tasklist k' TSTATE_WAIT_SEM) \<subseteq> set ts" using D(5,6) l Cons by auto
      show "\<forall>t\<in>set ts. pterrno (tcb k' t) = 0" using D(7) Q(4) Cons by simp
      show "semcount k' ?s = 1 - int (card {}) - int (card {t}) - int (length ts)" using D(8) k'(3) z Cons by simp
    qed (use D k'(2) Q in simp_all)
    then show thesis using that [of k'] k'(1) D(13) by (simp add: pthread_givesemaphore_def)
  qed
qed


subsection \<open>The calls\<close>

definition mutex_caller :: "addr \<Rightarrow> 'z pth_kernel_scheme \<Rightarrow> addr set \<Rightarrow> bool" where
  "mutex_caller m k H \<longleftrightarrow> m \<noteq> NULL \<and> \<not> current_regs k \<and> tcb_pid k (cpu k) \<noteq> 0 \<and>
     (\<forall>t\<in>H. tcb_pid k t = tcb_pid k (cpu k) \<longrightarrow> t = cpu k) \<and>
     length (g_readytorun k) > 1 \<and> length (tasklist k TSTATE_WAIT_SEM) < 32767"

text \<open>After \<open>sched_lock\<close> nothing has changed but the lock; after \<open>sched_unlock\<close> the invariant still holds.\<close>

lemma mutex_locked:
  assumes I: "mutex_inv m k H B" and c: "mutex_caller m k H" and l: "lock_free 1 k"
  obtains k1 where "sched_lock k = Some k1" "mutex_inv m k1 H B" "mutex_caller m k1 H" "cpu k1 = cpu k" "tcb_pid k1 = tcb_pid k" "getpid k1 = tcb_pid k (cpu k)"
    "mutex k1 = mutex k" "pterrno (tcb k1 t) = pterrno (tcb k t)" "semcount k1 = semcount k" "waiters k1 = waiters k"
proof -
  note D = mutex_invD [OF I]
  have lk: "current_regs k \<or> lockcount (tcb k (hd (g_readytorun k))) < MAX_LOCK_COUNT" using l by (auto simp: lock_free_def)
  obtain k1 where k1: "sched_lock k = Some k1" "sched_ok k1" "calm k k1" "g_readytorun k1 = g_readytorun k"
    by (rule sched_lock_calm [OF D(14) lk]) (rule that)
  have q: "quiet {} k k1" by (rule sched_lock_quiet [OF k1(1)])
  note Q = quietD [OF q] and C = sem_ok_calm [OF D(1) k1(2,3)]
  have cpu: "cpu k1 = cpu k" using sched_okD(2) [OF k1(2)] sched_okD(2) [OF D(14)] k1(4) by simp
  have "current_regs k1 = current_regs k" using k1(3) by (simp add: calm_def)
  then have "mutex_caller m k1 H" using c Q(1) C(4) k1(4) cpu by (simp add: mutex_caller_def)
  moreover have "getpid k1 = tcb_pid k (cpu k)" using Q(1) running_not_waiting(3) [OF k1(2)] cpu by (simp add: getpid_def)
  ultimately show thesis using that [of k1] mutex_inv_calm [OF I k1(2,3) q] k1(1) cpu Q C by simp
qed

lemma mutex_unlocked:
  assumes I: "mutex_inv m k H B"
  obtains k' where "sched_unlock k = Some k'" "mutex_inv m k' H B" "mutex k' = mutex k"
proof -
  obtain k' where k': "sched_unlock k = Some k'" "sched_ok k'" "calm k k'" by (rule sched_unlock_calm [OF mutex_invD(14) [OF I]]) blast
  have q: "quiet {} k k'" by (rule sched_unlock_quiet [OF k'(1)])
  show thesis using that [OF k'(1) mutex_inv_calm [OF I k'(2,3) q]] quietD(2) [OF q] by simp
qed

lemma mutex_acquire:
  assumes I: "mutex_inv m k H B" and c: "mutex_caller m k H" and r: "cpu k \<notin> H" "cpu k \<notin> granted (mutex_sem m) k B"
  obtains (taken) k' where "(do { r \<leftarrow> sem_wait (mutex_sem m) k; mutex_lock_finish m (tcb_pid k (cpu k)) r }) = Some (Returned OK k')" "H = {}" "mutex_inv m k' {cpu k} (B - {cpu k})"
  | (blocked) k' where "(do { r \<leftarrow> sem_wait (mutex_sem m) k; mutex_lock_finish m (tcb_pid k (cpu k)) r }) = Some (Blocked k')" "mutex_inv m k' H (insert (cpu k) B)"
      "cpu k \<notin> H" "\<not> semcount k (mutex_sem m) > 0"
proof (cases "semcount k (mutex_sem m) > 0")
  case True
  have p: "\<not> current_regs k" "tcb_pid k (cpu k) \<noteq> 0" using c by (simp_all add: mutex_caller_def)
  obtain k' where k': "sem_wait (mutex_sem m) k = Some (Returned OK k')" "H = {}"
    "mutex_inv m (upd_mutex m (\<lambda>c. c\<lparr>m_pid := tcb_pid k (cpu k), nlocks := 1\<rparr>) k') {cpu k} (B - {cpu k})"
    by (rule mutex_take [OF I p True, of "\<lambda>_. 1"]) (rule that)
  obtain k'' where "sched_unlock (upd_mutex m (\<lambda>c. c\<lparr>m_pid := tcb_pid k (cpu k), nlocks := 1\<rparr>) k') = Some k''" "mutex_inv m k'' {cpu k} (B - {cpu k})"
    by (rule mutex_unlocked [OF k'(3)]) (rule that)
  then show thesis using taken [of k''] k' by (simp add: mutex_lock_finish_def)
next
  case False
  have p: "\<not> current_regs k" "tcb_pid k (cpu k) \<noteq> 0" "length (g_readytorun k) > 1" "length (tasklist k TSTATE_WAIT_SEM) < 32767"
    using c by (simp_all add: mutex_caller_def)
  obtain k' where "sem_wait (mutex_sem m) k = Some (Blocked k')" "mutex_inv m k' H (insert (cpu k) B)"
    by (rule mutex_block [OF I p(1,2) False p(3,4) r]) (rule that)
  then show thesis using blocked [of k'] r False by (simp add: mutex_lock_finish_def)
qed

lemma mutex_lock_step:
  assumes I: "mutex_inv m k H B" and c: "mutex_caller m k H" and l: "lock_free 1 k" and b: "cpu k \<notin> B"
  obtains (taken) k' where "pthread_mutex_lock m k = Some (Returned OK k')" "H = {}" "mutex_inv m k' {cpu k} B"
  | (owner) k' where "pthread_mutex_lock m k = Some (Returned EDEADLK k')" "H = {cpu k}" "mutex_inv m k' H B"
  | (blocked) k' where "pthread_mutex_lock m k = Some (Blocked k')" "mutex_inv m k' H (insert (cpu k) B)"
      "cpu k \<notin> H" "\<not> semcount k (mutex_sem m) > 0"
proof -
  have m: "m \<noteq> NULL" "tcb_pid k (cpu k) \<noteq> 0" using c by (simp_all add: mutex_caller_def)
  obtain k1 where k1: "sched_lock k = Some k1" "mutex_inv m k1 H B" "mutex_caller m k1 H" "cpu k1 = cpu k" "tcb_pid k1 = tcb_pid k" "mutex k1 = mutex k" "semcount k1 = semcount k"
    by (rule mutex_locked [OF I c l]) (rule that)
  note D = mutex_invD [OF I]
  have g: "getpid k = tcb_pid k (cpu k)" using running_not_waiting(3) [OF D(14)] by (simp add: getpid_def)
  show thesis
  proof (cases "m_pid (mutex k m) = tcb_pid k (cpu k)")
    case True
    have "H = {cpu k}" using D(9,10) True m(2) c unfolding mutex_caller_def by (metis is_singletonI' is_singleton_the_elem singletonI)
    moreover obtain k' where "sched_unlock k1 = Some k'" "mutex_inv m k' H B" by (rule mutex_unlocked [OF k1(2)]) (rule that)
    ultimately show thesis using owner [of k'] True m k1 g D(11) by (simp add: pthread_mutex_lock_def)
  next
    case False
    then have r: "cpu k1 \<notin> H" using D(9) [of "cpu k"] k1(4) by auto
    have r2: "cpu k1 \<notin> granted (mutex_sem m) k1 B" using b k1(4) by (simp add: granted_def)
    have e: "pthread_mutex_lock m k = (do { r \<leftarrow> sem_wait (mutex_sem m) k1; mutex_lock_finish m (tcb_pid k1 (cpu k1)) r })"
      using False m k1 g by (simp add: pthread_mutex_lock_def sem_wait_nonnull(1) [OF D(13)])
    show thesis
      using mutex_acquire [OF k1(2,3) r r2] taken blocked b k1(4,7) unfolding e by auto
  qed
qed

lemma mutex_resume_step:
  assumes I: "mutex_inv m k H B" and c: "mutex_caller m k H" and b: "cpu k \<in> B"
  obtains (taken) k' where "pthread_mutex_lock_resume m (getpid k) k = Some (Returned OK k')" "H = {}" "mutex_inv m k' {cpu k} (B - {cpu k})"
  | (error) k' where "pthread_mutex_lock_resume m (getpid k) k = Some (Returned ERROR k')" "mutex_inv m k' H (B - {cpu k})"
  | (blocked) k' where "pthread_mutex_lock_resume m (getpid k) k = Some (Blocked k')" "mutex_inv m k' H B"
proof -
  let ?s = "mutex_sem m" and ?r = "cpu k"
  note D = mutex_invD [OF I]
  have g: "getpid k = tcb_pid k ?r" using running_not_waiting(3) [OF D(14)] by (simp add: getpid_def)
  have cr: "\<not> current_regs k" using c by (simp add: mutex_caller_def)
  have en: "get_errno k = pterrno (tcb k ?r)" using get_errno_eq [OF D(14) cr] sched_okD(2) [OF D(14)] by simp
  have nw: "?r \<notin> set (waiters k ?s)" by (rule running_not_waiting(2) [OF D(14)])
  have rH: "?r \<notin> H" using b D(4) by auto
  consider "?r \<in> granted ?s k B" | "pterrno (tcb k ?r) = EINTR" "?r \<notin> granted ?s k B" | "pterrno (tcb k ?r) = ETIMEDOUT" "?r \<notin> granted ?s k B"
    using b nw by (auto simp: granted_def)
  then show thesis
  proof cases
    case 1
    have one: "card H + card (granted ?s k B) \<le> 1" by (rule mutex_one [OF I])
    have "card (granted ?s k B) \<ge> 1" using 1 D(15) by (metis One_nat_def Suc_leI card_gt_0_iff empty_iff)
    then have n: "card H = 0" "card (granted ?s k B) = 1" using one by linarith+
    have H: "H = {}" using n(1) D(2) by simp
    obtain x where "granted ?s k B = {x}" by (rule card_1_singletonE [OF n(2)])
    then have G: "granted ?s k B = {?r}" using 1 by simp
    let ?k = "upd_mutex m (\<lambda>c. c\<lparr>m_pid := tcb_pid k ?r, nlocks := 1\<rparr>) k"
    have "granted ?s k (B - {?r}) = {}" using G by (auto simp: granted_def)
    then have "mutex_inv m ?k {?r} (B - {?r})"
      unfolding mutex_inv_def Let_def upd_mutex_sem using D H G b nw by auto
    then obtain k' where k': "sched_unlock ?k = Some k'" "mutex_inv m k' {?r} (B - {?r})" by (rule mutex_unlocked) (rule that)
    have "pterrno (tcb k ?r) \<notin> {EINTR, ETIMEDOUT}" using 1 by (simp add: granted_def)
    then have "pthread_mutex_lock_resume m (getpid k) k = Some (Returned OK k')"
      using k'(1) en g by (simp add: pthread_mutex_lock_resume_def pthread_takesemaphore_resume_def sem_wait_resume_def mutex_lock_finish_def)
    then show thesis using taken [of k'] H k'(2) by blast
  next
    case 2
    have e: "pthread_mutex_lock_resume m (getpid k) k = (do { r \<leftarrow> sem_wait ?s k; mutex_lock_finish m (tcb_pid k ?r) r })"
      using 2(1) en g by (simp add: pthread_mutex_lock_resume_def pthread_takesemaphore_resume_def sem_wait_resume_def sem_wait_nonnull(2) [OF D(13)])
    show thesis using mutex_acquire [OF I c rH 2(2)] taken blocked b unfolding e by (auto simp: insert_absorb)
  next
    case 3
    let ?k = "set_errno EINVAL k"
    have G: "granted ?s k (B - {?r}) = granted ?s k B" using 3(2) by (auto simp: granted_def)
    have i: "mutex_inv m k H (B - {?r})" unfolding mutex_inv_def Let_def G using D nw by auto
    have q: "quiet {?r} k ?k" using quiet_set_errno [of k EINVAL] running_not_waiting(3) [OF D(14)] by simp
    have "mutex_inv m ?k H (B - {?r})"
      by (rule mutex_inv_calm [OF i _ set_errno_calm [OF D(14)] q]) (use D(14) in \<open>simp_all add: sched_ok_set_errno\<close>)
    then obtain k' where "sched_unlock ?k = Some k'" "mutex_inv m k' H (B - {?r})" by (rule mutex_unlocked) (rule that)
    then show thesis
      using error [of k'] 3(1) en by (simp add: pthread_mutex_lock_resume_def pthread_takesemaphore_resume_def sem_wait_resume_def mutex_lock_finish_def)
  qed
qed


lemma mutex_trylock_step:
  assumes I: "mutex_inv m k H B" and c: "mutex_caller m k H" and l: "lock_free 1 k" and b: "cpu k \<notin> B"
  obtains (taken) k' where "pthread_mutex_trylock m k = Some (OK, k')" "H = {}" "mutex_inv m k' {cpu k} B"
  | (busy) k' where "pthread_mutex_trylock m k = Some (EBUSY, k')" "mutex_inv m k' H B"
proof -
  let ?s = "mutex_sem m" and ?r = "cpu k"
  have m: "m \<noteq> NULL" "tcb_pid k (cpu k) \<noteq> 0" using c by (simp_all add: mutex_caller_def)
  obtain k1 where k1: "sched_lock k = Some k1" "mutex_inv m k1 H B" "mutex_caller m k1 H" "cpu k1 = cpu k" "tcb_pid k1 = tcb_pid k" "getpid k1 = tcb_pid k ?r"
    by (rule mutex_locked [OF I c l]) (rule that)
  note D = mutex_invD [OF k1(2)]
  have cr: "\<not> current_regs k1" using k1(3) by (simp add: mutex_caller_def)
  obtain k2 where k2: "sem_trywait ?s k1 = (if ?s \<noteq> NULL \<and> semcount k1 ?s > 0 then OK else ERROR, k2)" "sem_ok k2"
    "semcount k2 = (if ?s \<noteq> NULL \<and> semcount k1 ?s > 0 then (semcount k1)(?s := semcount k1 ?s - 1) else semcount k1)"
    "tasklist k2 = tasklist k1" "waiters k2 = waiters k1" "get_errno k2 = (if ?s = NULL then EINVAL else EAGAIN)"
    by (rule sem_trywait_ok [OF D(1) cr, of ?s]) (rule that)
  have q: "quiet {?r} k1 k2" using sem_trywait_quiet [OF k2(1)] running_not_waiting(3) [OF D(14)] k1(4) by simp
  note Q = quietD [OF q]
  have pid: "getpid k2 = tcb_pid k ?r" using k1(6) Q(1) k2(4) by (simp add: getpid_def)
  have F: "mutex_inv m k2 H B" if "\<not> semcount k1 ?s > 0"
  proof (rule mutex_inv_frame [OF k1(2) k2(2)])
    show "pterrno (tcb k2 t) = pterrno (tcb k1 t)" if "t \<in> B" for t using Q(4) [of t] that b by auto
  qed (use that k2(3-5) D(6) Q(1,2) in auto)
  show thesis
  proof (cases "semcount k1 ?s > 0")
    case True
    note E = mutex_free [OF k1(2) True]
    let ?k = "upd_mutex m (m_pid_update (\<lambda>_. getpid k2)) k2"
    have "x \<notin> granted ?s k2 B" for x
    proof (cases "x = ?r")
      case True
      then show ?thesis using b by (simp add: granted_def)
    next
      case False
      then have "x \<in> granted ?s k2 B \<longleftrightarrow> x \<in> granted ?s k1 B" using Q(4) [of x] k2(5) by (simp add: granted_def)
      then show ?thesis using E(2) by simp
    qed
    then have g: "granted ?s k2 B = {}" by blast
    have "mutex_inv m ?k {?r} B"
      unfolding mutex_inv_def Let_def upd_mutex_sem g using D(3,5-7,11-13) k2 E b m Q(1,2) True pid k1(5) by auto
    then obtain k' where "sched_unlock ?k = Some k'" "mutex_inv m k' {?r} B" by (rule mutex_unlocked) (rule that)
    then show thesis using taken [of k'] True E(1) m(1) k1(1) k2(1) D(13) by (simp add: pthread_mutex_trylock_def)
  next
    case False
    obtain k' where "sched_unlock k2 = Some k'" "mutex_inv m k' H B" by (rule mutex_unlocked [OF F [OF False]]) (rule that)
    then show thesis using busy [of k'] False m(1) k1(1) k2(1,6) D(13) by (simp add: pthread_mutex_trylock_def)
  qed
qed

lemma mutex_unlock_step:
  assumes I: "mutex_inv m k H B" and c: "mutex_caller m k H" and l: "lock_free 1 k"
  obtains (released) k' where "pthread_mutex_unlock m k = Some (OK, k')" "H = {cpu k}" "mutex_inv m k' {} B"
  | (other) k' where "pthread_mutex_unlock m k = Some (EPERM, k')" "cpu k \<notin> H" "mutex_inv m k' H B"
proof -
  have m: "m \<noteq> NULL" "tcb_pid k (cpu k) \<noteq> 0" using c by (simp_all add: mutex_caller_def)
  obtain k1 where k1: "sched_lock k = Some k1" "mutex_inv m k1 H B" "mutex k1 = mutex k" "getpid k1 = tcb_pid k (cpu k)"
    by (rule mutex_locked [OF I c l]) (rule that)
  note D = mutex_invD [OF I]
  show thesis
  proof (cases "m_pid (mutex k m) = tcb_pid k (cpu k)")
    case True
    have H: "H = {cpu k}" using D(9,10) True m(2) c unfolding mutex_caller_def by (metis is_singletonI' is_singleton_the_elem singletonI)
    obtain k2 where k2: "pthread_givesemaphore (mutex_sem m) (upd_mutex m (\<lambda>c. c\<lparr>m_pid := 0, nlocks := 0\<rparr>) k1) = Some (OK, k2)" "mutex_inv m k2 {} B"
      by (rule mutex_give [OF k1(2) [unfolded H]]) (rule that)
    obtain k' where "sched_unlock k2 = Some k'" "mutex_inv m k' {} B" by (rule mutex_unlocked [OF k2(2)]) (rule that)
    then show thesis using released [of k'] H True m k1 k2(1) D(11) by (simp add: pthread_mutex_unlock_def)
  next
    case False
    then have "cpu k \<notin> H" using D(9) by auto
    moreover obtain k' where "sched_unlock k1 = Some k'" "mutex_inv m k' H B" by (rule mutex_unlocked [OF k1(2)]) (rule that)
    ultimately show thesis using other [of k'] False m k1 by (simp add: pthread_mutex_unlock_def)
  qed
qed

lemma mutex_irq_step:
  assumes I: "mutex_inv m k H B" and i: "sem_waitirq t EINTR k = Some k'"
  shows "mutex_inv m k' H B"
proof (cases "state_of k t = TSTATE_WAIT_SEM")
  case False
  then show ?thesis using I i by (simp add: sem_waitirq_def)
next
  case True
  let ?s = "mutex_sem m"
  note D = mutex_invD [OF I]
  note L = lists_okD [OF sched_okD(1) [OF D(14)]]
  define u where "u = waitsem (tcb k t)"
  obtain k2 where k2: "sem_waitirq t EINTR k = Some k2" "sem_ok k2" "semcount k2 = (semcount k)(u := semcount k u + 1)"
    "waiters k2 u = remove1 t (waiters k u)" "\<And>v. v \<noteq> u \<Longrightarrow> v \<noteq> NULL \<Longrightarrow> waiters k2 v = waiters k v" "pterrno (tcb k2 t) = EINTR"
    "tasklist k2 = (tasklist k)(TSTATE_WAIT_SEM := remove1 t (tasklist k TSTATE_WAIT_SEM), ready_list k t := prio_insert (prio k) t (tasklist k (ready_list k t)))"
    by (rule sem_waitirq_ok [OF D(1) True, of EINTR, folded u_def]) (rule that)
  have k': "k' = k2" using i k2(1) by simp
  note Q = quietD [OF sem_waitirq_quiet [OF k2(1)]]
  have di: "distinct (tasklist k TSTATE_WAIT_SEM)" "distinct (waiters k v)" for v using tasks_okD(3) [OF L] by (simp_all add: waiters_def)
  have l: "set (tasklist k2 TSTATE_WAIT_SEM) = set (tasklist k TSTATE_WAIT_SEM) - {t}"
    using di(1) by (simp add: k2(7) ready_list_def)
  have tw: "t \<in> set (tasklist k TSTATE_WAIT_SEM)" using True sem_waits.in_list [OF D(14)] by simp
  show ?thesis
  proof (cases "u = ?s")
    case s: True
    have t: "t \<in> set (waiters k ?s)" using True s waiters_mem [OF D(14)] by (simp add: u_def)
    have w: "set (waiters k2 ?s) = set (waiters k ?s) - {t}" "length (waiters k2 ?s) = length (waiters k ?s) - 1"
      using k2(4) s di(2) t by (simp_all add: length_remove1)
    have ln: "length (waiters k ?s) > 0" using t by (cases "waiters k ?s") auto
    have "x \<in> granted ?s k2 B \<longleftrightarrow> x \<in> granted ?s k B" for x
      using Q(4) [of x] k2(6) t by (cases "x = t") (simp_all add: granted_def w)
    then have g: "granted ?s k2 B = granted ?s k B" by blast
    show ?thesis
      unfolding mutex_inv_def Let_def g k'
    proof (intro conjI)
      show "\<forall>x\<in>set (waiters k2 ?s). pterrno (tcb k2 x) = 0" using Q(4) D(7) w by auto
      show "semcount k2 ?s = 1 - int (card H) - int (card (granted ?s k B)) - int (length (waiters k2 ?s))"
        unfolding w(2) of_nat_diff [OF Suc_leI [OF ln], unfolded One_nat_def [symmetric]] using D(8) k2(3) s by simp
    qed (use D k2(2) Q w l in auto)
  next
    case False
    have "t \<notin> set (waiters k ?s)" using False waiters_mem [OF D(14)] by (simp add: u_def)
    then have "t \<notin> B" using D(6) tw by auto
    then have pe: "pterrno (tcb k2 x) = pterrno (tcb k x)" if "x \<in> B" for x using Q(4) [of x] that by blast
    show ?thesis unfolding k'
    proof (rule mutex_inv_frame [OF I k2(2)])
      show "pterrno (tcb k2 x) = pterrno (tcb k x)" if "x \<in> B" for x by (rule pe [OF that])
    qed (use k2(3) k2(5) [of ?s] D(6,13) False l Q(1,2) \<open>t \<notin> B\<close> in auto)
  qed
qed

text \<open>
  The tasks that have the mutex and those inside a blocked call of \<open>pthread_mutex_lock\<close>, after any calls by the tasks that run, signals, and
  other steps of the kernel between them.
\<close>

inductive mutex_run :: "addr \<Rightarrow> pth_kernel \<Rightarrow> addr set \<Rightarrow> addr set \<Rightarrow> bool" for m where
  start: "sem_ok k \<Longrightarrow> semcount k (mutex_sem m) = 1 \<Longrightarrow> m_pid (mutex k m) = 0 \<Longrightarrow> m_type (mutex k m) \<noteq> PTHREAD_MUTEX_RECURSIVE \<Longrightarrow> mutex_run m k {} {}"
| lock: "mutex_run m k H B \<Longrightarrow> mutex_caller m k H \<Longrightarrow> lock_free 1 k \<Longrightarrow> cpu k \<notin> B \<Longrightarrow> pthread_mutex_lock m k = Some (Returned ret k') \<Longrightarrow>
    mutex_run m k' (if ret = OK then insert (cpu k) H else H) B"
| lock_blocks: "mutex_run m k H B \<Longrightarrow> mutex_caller m k H \<Longrightarrow> lock_free 1 k \<Longrightarrow> cpu k \<notin> B \<Longrightarrow> pthread_mutex_lock m k = Some (Blocked k') \<Longrightarrow>
    mutex_run m k' H (insert (cpu k) B)"
| resume: "mutex_run m k H B \<Longrightarrow> mutex_caller m k H \<Longrightarrow> cpu k \<in> B \<Longrightarrow> pthread_mutex_lock_resume m (getpid k) k = Some (Returned ret k') \<Longrightarrow>
    mutex_run m k' (if ret = OK then insert (cpu k) H else H) (B - {cpu k})"
| resume_blocks: "mutex_run m k H B \<Longrightarrow> mutex_caller m k H \<Longrightarrow> cpu k \<in> B \<Longrightarrow> pthread_mutex_lock_resume m (getpid k) k = Some (Blocked k') \<Longrightarrow>
    mutex_run m k' H B"
| trylock: "mutex_run m k H B \<Longrightarrow> mutex_caller m k H \<Longrightarrow> lock_free 1 k \<Longrightarrow> cpu k \<notin> B \<Longrightarrow> pthread_mutex_trylock m k = Some (ret, k') \<Longrightarrow>
    mutex_run m k' (if ret = OK then insert (cpu k) H else H) B"
| unlock: "mutex_run m k H B \<Longrightarrow> mutex_caller m k H \<Longrightarrow> lock_free 1 k \<Longrightarrow> cpu k \<notin> B \<Longrightarrow> pthread_mutex_unlock m k = Some (ret, k') \<Longrightarrow>
    mutex_run m k' (if ret = OK then H - {cpu k} else H) B"
| signal: "mutex_run m k H B \<Longrightarrow> sem_waitirq t EINTR k = Some k' \<Longrightarrow> mutex_run m k' H B"
| other: "mutex_run m k H B \<Longrightarrow> sem_ok k' \<Longrightarrow> mutex k' m = mutex k m \<Longrightarrow> semcount k' (mutex_sem m) = semcount k (mutex_sem m) \<Longrightarrow>
    waiters k' (mutex_sem m) = waiters k (mutex_sem m) \<Longrightarrow> B \<inter> set (tasklist k' TSTATE_WAIT_SEM) \<subseteq> set (waiters k (mutex_sem m)) \<Longrightarrow>
    \<forall>t\<in>H \<union> B. tcb_pid k' t = tcb_pid k t \<Longrightarrow> \<forall>t\<in>B. pterrno (tcb k' t) = pterrno (tcb k t) \<Longrightarrow> mutex_run m k' H B"

lemma mutex_run_inv: "mutex_run m k H B \<Longrightarrow> mutex_inv m k H B"
proof (induction rule: mutex_run.induct)
  case (start k)
  have s: "mutex_sem m \<noteq> NULL" by (simp add: mutex_sem_def)
  have "waiters k (mutex_sem m) = []" using sem_okD(2) [OF start(1) s] start(2) by simp
  then show ?case using start by (simp add: mutex_inv_def granted_def)
next
  case (lock k H B ret k')
  show ?case by (rule mutex_lock_step [OF lock.IH lock.hyps(2-4)]) (use lock.hyps(5) in auto)
next
  case (lock_blocks k H B k')
  show ?case by (rule mutex_lock_step [OF lock_blocks.IH lock_blocks.hyps(2-4)]) (use lock_blocks.hyps(5) in auto)
next
  case (resume k H B ret k')
  show ?case by (rule mutex_resume_step [OF resume.IH resume.hyps(2-3)]) (use resume.hyps(4) in auto)
next
  case (resume_blocks k H B k')
  show ?case by (rule mutex_resume_step [OF resume_blocks.IH resume_blocks.hyps(2-3)]) (use resume_blocks.hyps(4) in auto)
next
  case (trylock k H B ret k')
  show ?case by (rule mutex_trylock_step [OF trylock.IH trylock.hyps(2-4)]) (use trylock.hyps(5) in auto)
next
  case (unlock k H B ret k')
  show ?case by (rule mutex_unlock_step [OF unlock.IH unlock.hyps(2,3)]) (use unlock.hyps(5) in auto)
next
  case (signal k H B t k')
  then show ?case by (blast intro: mutex_irq_step)
next
  case (other k H B k')
  show ?case by (rule mutex_inv_frame [OF other.IH]) (use other.hyps in auto)
qed

end
