(* ===== verification/Mutex_Props.thy ===== *)
theory Mutex_Props
  imports Mutex
begin

section \<open>What mutexes, condition variables and barriers guarantee\<close>

text \<open>
  The witnesses use the tasks 2 and 3 of \<open>boot2\<close>, a mutex at address 500 (its semaphore is at 504), and a condition
  variable and a barrier for two threads, both at address 600.
\<close>

definition pth_boot :: pth_kernel where
  "pth_boot = sem_kernel.extend (sem_boot 0) \<lparr>mutex = \<lambda>_. \<lparr>m_pid = 7, m_type = PTHREAD_MUTEX_NORMAL, nlocks = 3\<rparr>, barrier_count = \<lambda>_. 2\<rparr>"

lemma pth_boot_fields:
  "tcb pth_boot = tcb boot2" "tasklist pth_boot = tasklist boot2" "cpu pth_boot = cpu boot2" "current_regs pth_boot = current_regs boot2"
  "semcount pth_boot = (\<lambda>_. 0)" "barrier_count pth_boot = (\<lambda>_. 2)" "tcb_pid pth_boot = tcb_pid boot2"
  "mutex pth_boot = (\<lambda>_. \<lparr>m_pid = 7, m_type = PTHREAD_MUTEX_NORMAL, nlocks = 3\<rparr>)"
  by (auto simp: pth_boot_def sem_boot_def sem_kernel.defs task_kernel.defs)

lemma boot2_pth: "lockcount (tcb boot2 2) = 0" "tcb_pid boot2 2 = 1" "length (g_readytorun boot2) = 3" "hd (g_readytorun boot2) = 2"
  by code_simp+

lemma pth_boot_ok: "sem_ok pth_boot"
proof -
  have w: "waiters pth_boot = waiters (sem_boot 0)" by (simp add: waiters_def pth_boot_fields sem_boot_fields fun_eq_iff)
  have S: "sched_ok pth_boot" using boot2_ok(1) by (simp add: sched_ok_def lists_ok_def pth_boot_fields)
  show ?thesis using sem_boot_ok [of 0] S by (simp add: sem_ok_def w pth_boot_fields sem_boot_fields)
qed

subsection \<open>Mutexes\<close>

text \<open>An initialised mutex is free.\<close>

lemma mutex_init_run:
  assumes "sem_ok k" "m \<noteq> NULL" "semcount k (mutex_sem m) \<ge> 0" "ty \<noteq> Some PTHREAD_MUTEX_RECURSIVE"
  shows "fst (pthread_mutex_init m ty k) = OK" "mutex_run m (snd (pthread_mutex_init m ty k)) {} {}"
proof -
  let ?s = "mutex_sem m"
  have s: "?s \<noteq> NULL" by (simp add: mutex_sem_def)
  have w: "waiters k ?s = []" using sem_okD(2) [OF assms(1) s] assms(3) by simp
  let ?k = "snd (pthread_mutex_init m ty k)"
  have f: "tcb ?k = tcb k" "tasklist ?k = tasklist k" "semcount ?k = (semcount k)(?s := 1)" "cpu ?k = cpu k" "current_regs ?k = current_regs k"
    "m_pid (mutex ?k m) = 0" "m_type (mutex ?k m) = (case ty of None \<Rightarrow> PTHREAD_MUTEX_NORMAL | Some ty \<Rightarrow> ty)"
    using assms(2) s by (auto simp: pthread_mutex_init_def sem_init_def upd_mutex_def set_count_def Let_def)
  have ws: "waiters ?k = waiters k" by (simp add: waiters_def f fun_eq_iff)
  have S: "sched_ok ?k" using sem_okD(1) [OF assms(1)] by (simp add: sched_ok_def lists_ok_def f)
  have "length (waiters k u) = nat (- ((semcount k)(?s := 1)) u) \<and> ((semcount k)(?s := 1)) u \<le> SEM_VALUE_MAX" if "u \<noteq> NULL" for u
    using sem_okD(2,3) [OF assms(1) that] w assms(3) by auto
  then have "sem_ok ?k" using sem_okD(4,5) [OF assms(1)] S unfolding sem_ok_def ws f by blast
  then show "mutex_run m ?k {} {}" by (rule mutex_run.start) (use assms(4) f in \<open>auto split: option.splits\<close>)
  show "fst (pthread_mutex_init m ty k) = OK" using assms(2) s by (simp add: pthread_mutex_init_def sem_init_def upd_mutex_def Let_def)
qed

text \<open>
  C13: Mutual exclusion for a mutex that is not recursive, in every run from its initialisation in which the threads lock, try and unlock it, are interrupted by signals while
  they wait for it, and the kernel does other work between that does not touch the mutex and its waiters. The mutex is not used with a condition variable and not destroyed in
  such a run. At most one thread has it; the \<open>pid\<close> field is that of its holder; as long as
  it is held the semaphore has no count; and a thread that was handed the mutex while blocked excludes every other holder.
\<close>

theorem mutex_exclusive:
  assumes "mutex_run m k H B"
  shows "(\<forall>t\<in>H. \<forall>u\<in>H. t = u) \<and> (\<forall>t\<in>H. m_pid (mutex k m) = tcb_pid k t \<and> semcount k (mutex_sem m) \<le> 0 \<and> granted (mutex_sem m) k B = {})"
proof -
  note I = mutex_run_inv [OF assms]
  note D = mutex_invD [OF I]
  have o: "card H + card (granted (mutex_sem m) k B) \<le> 1" by (rule mutex_one [OF I])
  have "t = u" if "t \<in> H" "u \<in> H" for t u
    using o that D(2) card_le_Suc0_iff_eq [of H] by (cases "card H") auto
  moreover have "granted (mutex_sem m) k B = {} \<and> semcount k (mutex_sem m) \<le> 0" if "t \<in> H" for t
  proof -
    have "card H > 0" using that D(2) by (auto simp: card_gt_0_iff)
    then have "card (granted (mutex_sem m) k B) = 0" "semcount k (mutex_sem m) \<le> 0" using o D(8) by linarith+
    then show ?thesis using D(15) by simp
  qed
  ultimately show ?thesis using D(9) by blast
qed

definition mutex_locked_boot :: pth_kernel where
  "mutex_locked_boot = (case the (pthread_mutex_lock 500 (snd (pthread_mutex_init 500 None pth_boot))) of Returned _ k \<Rightarrow> k)"

lemma mutex_boot_lock:
  "mutex_run 500 (snd (pthread_mutex_init 500 None pth_boot)) {} {}" "mutex_caller 500 (snd (pthread_mutex_init 500 None pth_boot)) {}"
  "lock_free 1 (snd (pthread_mutex_init 500 None pth_boot))"
  "pthread_mutex_lock 500 (snd (pthread_mutex_init 500 None pth_boot)) = Some (Returned OK mutex_locked_boot)"
proof -
  let ?k = "snd (pthread_mutex_init 500 None pth_boot)"
  have f: "tcb ?k = tcb boot2" "tasklist ?k = tasklist boot2" "cpu ?k = 2" "current_regs ?k = False" "tcb_pid ?k = tcb_pid boot2" "m_pid (mutex ?k 500) = 0"
      "semcount ?k 504 = 1"
    using boot2_wait by (simp_all add: pthread_mutex_init_def sem_init_def upd_mutex_def set_count_def Let_def pth_boot_fields mutex_sem_def)
  show r: "mutex_run 500 ?k {} {}" by (rule mutex_init_run(2) [OF pth_boot_ok]) (simp_all add: pth_boot_fields)
  show c: "mutex_caller 500 ?k {}" "lock_free 1 ?k" unfolding mutex_caller_def lock_free_def f using boot2_pth boot2_wait by simp_all
  show "pthread_mutex_lock 500 ?k = Some (Returned OK mutex_locked_boot)"
  proof (rule mutex_lock_step [OF mutex_run_inv [OF r] c])
    assume "\<not> semcount ?k (mutex_sem 500) > 0"
    then show ?thesis using f(7) by (simp add: mutex_sem_def)
  qed (simp_all add: mutex_locked_boot_def)
qed

theorem mutex_exclusive_witness: "m_pid (mutex mutex_locked_boot 500) = tcb_pid mutex_locked_boot 2 \<and> semcount mutex_locked_boot 504 \<le> 0"
proof -
  have "cpu (snd (pthread_mutex_init 500 None pth_boot)) = 2"
    using boot2_wait by (simp add: pthread_mutex_init_def sem_init_def upd_mutex_def set_count_def Let_def pth_boot_fields mutex_sem_def)
  then have "mutex_run 500 mutex_locked_boot {2} {}" using mutex_run.lock [OF mutex_boot_lock(1-3) _ mutex_boot_lock(4)] by simp
  from mutex_exclusive [OF this] show ?thesis by (simp add: mutex_sem_def)
qed

text \<open>
  What the calls return to a thread: locking takes a free mutex, refuses the holder with \<open>EDEADLK\<close>, and blocks any other thread; unlocking
  releases the mutex for its holder and refuses any other thread with \<open>EPERM\<close>; trying returns at once, with the mutex or with \<open>EBUSY\<close>. No call fails an assertion.
\<close>

theorem mutex_calls:
  assumes "mutex_run m k H B" and "mutex_caller m k H" and "lock_free 1 k" and "cpu k \<notin> B"
  shows "(\<exists>r. pthread_mutex_lock m k = Some r \<and> (case r of Returned ret k' \<Rightarrow> ret = (if H = {} then OK else EDEADLK) \<and> H \<subseteq> {cpu k}
      | Blocked k' \<Rightarrow> cpu k \<notin> H \<and> semcount k (mutex_sem m) \<le> 0)) \<and>
    (\<exists>k'. pthread_mutex_unlock m k = Some (if cpu k \<in> H then OK else EPERM, k')) \<and>
    (\<exists>ret k'. pthread_mutex_trylock m k = Some (ret, k') \<and> (ret = OK \<and> H = {} \<or> ret = EBUSY))"
proof -
  note I = mutex_run_inv [OF assms(1)]
  show ?thesis
  proof (intro conjI)
    show "\<exists>r. pthread_mutex_lock m k = Some r \<and> (case r of Returned ret k' \<Rightarrow> ret = (if H = {} then OK else EDEADLK) \<and> H \<subseteq> {cpu k}
      | Blocked k' \<Rightarrow> cpu k \<notin> H \<and> semcount k (mutex_sem m) \<le> 0)"
      by (rule mutex_lock_step [OF I assms(2-4)]) auto
    show "\<exists>k'. pthread_mutex_unlock m k = Some (if cpu k \<in> H then OK else EPERM, k')"
      by (rule mutex_unlock_step [OF I assms(2,3)]) auto
    show "\<exists>ret k'. pthread_mutex_trylock m k = Some (ret, k') \<and> (ret = OK \<and> H = {} \<or> ret = EBUSY)"
      by (rule mutex_trylock_step [OF I assms(2-4)]) auto
  qed
qed

theorem mutex_calls_witness:
  "\<exists>k'. pthread_mutex_unlock 500 (snd (pthread_mutex_init 500 None pth_boot)) = Some (EPERM, k')"
  using mutex_calls [OF mutex_boot_lock(1-3)] by simp

text \<open>
  A recursive mutex that was taken by \<open>pthread_mutex_trylock\<close> and then locked again by its holder is free after one unlock, although it was
  locked twice: \<open>pthread_mutex_trylock\<close> does not set the number of locks.
\<close>

theorem recursive_trylock_released_early:
  "let k = snd (pthread_mutex_init 500 (Some PTHREAD_MUTEX_RECURSIVE) pth_boot);
       (r1, k) = the (pthread_mutex_trylock 500 k);
       (r2, k) = (case the (pthread_mutex_lock 500 k) of Returned r k \<Rightarrow> (r, k) | Blocked k \<Rightarrow> (ERROR, k));
       (r3, k) = the (pthread_mutex_unlock 500 k)
   in (r1, r2, r3, m_pid (mutex k 500), semcount k 504) = (OK, OK, OK, 0, 1)"
  by code_simp

subsection \<open>Waking all the waiting threads\<close>

definition runnable :: "'z kernel_scheme \<Rightarrow> addr set" where
  "runnable k = set (g_readytorun k) \<union> set (g_pendingtasks k)"

text \<open>No thread waits for the semaphore any more: those that did can run, with the errno they had; the other semaphores are as before.\<close>

definition all_woken :: "addr \<Rightarrow> 'z sem_kernel_scheme \<Rightarrow> 'z sem_kernel_scheme \<Rightarrow> bool" where
  "all_woken s k k' \<longleftrightarrow> sem_ok k' \<and> waiters k' s = [] \<and> semcount k' = (semcount k)(s := max 0 (semcount k s)) \<and>
     runnable k \<union> set (waiters k s) \<subseteq> runnable k' \<and>
     (\<forall>u. u \<noteq> s \<longrightarrow> u \<noteq> NULL \<longrightarrow> waiters k' u = waiters k u) \<and> quiet {} k k'"

lemma all_woken_none:
  assumes "sem_ok k" "s \<noteq> NULL" "waiters k s = []"
  shows "all_woken s k k" "\<not> semcount k s < 0"
proof -
  show "\<not> semcount k s < 0" using sem_okD(2) [OF assms(1,2)] assms(3) by simp
  then have "max 0 (semcount k s) = semcount k s" by simp
  then show "all_woken s k k" using assms by (simp add: all_woken_def fun_upd_idem)
qed

lemma all_woken_post:
  assumes ok: "sem_ok k" and s: "s \<noteq> NULL" and w: "waiters k s = t # ts"
  obtains k' where "sem_post s k = Some (OK, k')" "sem_ok k'" "waiters k' s = ts" "semcount k' s = semcount k s + 1" "semcount k s < 0"
    "\<And>k''. all_woken s k' k'' \<Longrightarrow> all_woken s k k''"
proof -
  obtain k' where k': "sem_post s k = Some (OK, k')" "sem_ok k'" "semcount k' = (semcount k)(s := semcount k s + 1)"
    "waiters k' s = ts" "\<And>u. u \<noteq> s \<Longrightarrow> u \<noteq> NULL \<Longrightarrow> waiters k' u = waiters k u" "pterrno (tcb k' t) = pterrno (tcb k t)"
    "tasklist k' = (tasklist k)(TSTATE_WAIT_SEM := remove1 t (tasklist k TSTATE_WAIT_SEM),
       ready_list k t := prio_insert (prio k) t (tasklist k (ready_list k t)))"
    by (rule sem_post_wake [OF ok s w]) (rule that)
  have n: "semcount k s < 0" using sem_okD(2) [OF ok s] w by auto
  have q: "quiet {} k k'' \<longleftrightarrow> quiet {} k' k''" for k'' using sem_post_quiet [OF k'(1)] by (simp add: quiet_def)
  have r: "runnable k' = insert t (runnable k)" unfolding runnable_def k'(7) by (auto simp: ready_list_def)
  show thesis
  proof (rule that [OF k'(1,2,4) _ n])
    show "semcount k' s = semcount k s + 1" using k'(3) by simp
    show "all_woken s k k''" if A: "all_woken s k' k''" for k''
      using A n k'(5) unfolding all_woken_def k'(3,4) w r q by auto
  qed
qed

lemma broadcast_all:
  assumes "sem_ok k" "s \<noteq> NULL"
  shows "\<exists>k'. broadcast_loop s (semcount k s) OK k = Some (OK, k') \<and> all_woken s k k'"
  using assms(1)
proof (induction "waiters k s" arbitrary: k)
  case Nil
  then show ?case using all_woken_none [OF Nil(2) assms(2)] by (simp add: broadcast_loop.simps [of s "semcount k s"])
next
  case (Cons t ts)
  obtain k1 where k1: "sem_post s k = Some (OK, k1)" "sem_ok k1" "waiters k1 s = ts" "semcount k1 s = semcount k s + 1" "semcount k s < 0"
    "\<And>k''. all_woken s k1 k'' \<Longrightarrow> all_woken s k k''"
    by (rule all_woken_post [OF Cons(3) assms(2) Cons(2) [symmetric]]) (rule that)
  obtain k' where "broadcast_loop s (semcount k1 s) OK k1 = Some (OK, k')" "all_woken s k1 k'" using Cons(1) [OF k1(3) [symmetric] k1(2)] by blast
  then show ?case using k1 assms(2) by (subst broadcast_loop.simps) (simp add: pthread_givesemaphore_def)
qed

lemma barrier_release_all:
  assumes "sem_ok k" "s \<noteq> NULL"
  shows "\<exists>k'. barrier_release_loop s (semcount k s) k = Some k' \<and> all_woken s k k'"
  using assms(1)
proof (induction "waiters k s" arbitrary: k)
  case Nil
  then show ?case using all_woken_none [OF Nil(2) assms(2)] by (simp add: barrier_release_loop.simps [of s "semcount k s"])
next
  case (Cons t ts)
  obtain k1 where k1: "sem_post s k = Some (OK, k1)" "sem_ok k1" "waiters k1 s = ts" "semcount k s < 0"
    "\<And>k''. all_woken s k1 k'' \<Longrightarrow> all_woken s k k''"
    by (rule all_woken_post [OF Cons(3) assms(2) Cons(2) [symmetric]]) (rule that)
  obtain k' where "barrier_release_loop s (semcount k1 s) k1 = Some k'" "all_woken s k1 k'" using Cons(1) [OF k1(3) [symmetric] k1(2)] by blast
  then show ?case using k1 by (subst barrier_release_loop.simps) simp
qed

text \<open>The preemption lock around the loop.\<close>

lemma all_woken_locked:
  assumes ok: "sem_ok k" and l: "lock_free 1 k" and cr: "\<not> current_regs k"
  obtains k1 where "sched_lock k = Some k1" "sem_ok k1" "semcount k1 = semcount k" "waiters k1 = waiters k" "calm k k1" "g_readytorun k1 = g_readytorun k"
    "g_pendingtasks k1 = g_pendingtasks k" "quiet {} k k1"
    "\<And>k2. all_woken s k1 k2 \<Longrightarrow> \<exists>k'. sched_unlock k2 = Some k' \<and> all_woken s k k'"
proof -
  have lk: "current_regs k \<or> lockcount (tcb k (hd (g_readytorun k))) < MAX_LOCK_COUNT" using l by (auto simp: lock_free_def)
  obtain k1 where k1: "sched_lock k = Some k1" "sched_ok k1" "calm k k1" "g_readytorun k1 = g_readytorun k" "g_pendingtasks k1 = g_pendingtasks k"
    by (rule sched_lock_calm [OF sem_okD(1) [OF ok] lk]) (rule that)
  note C = sem_ok_calm [OF ok k1(2,3)]
  have q1: "quiet {} k k1" by (rule sched_lock_quiet [OF k1(1)])
  have "\<exists>k'. sched_unlock k2 = Some k' \<and> all_woken s k k'" if A: "all_woken s k1 k2" for k2
  proof -
    have S2: "sem_ok k2" using A by (simp add: all_woken_def)
    obtain k' where k': "sched_unlock k2 = Some k'" "sched_ok k'" "calm k2 k'"
      "\<And>t. is_ready_state (state_of k2 t) \<or> state_of k2 t = TSTATE_TASK_PENDING \<Longrightarrow> is_ready_state (state_of k' t) \<or> state_of k' t = TSTATE_TASK_PENDING"
      by (rule sched_unlock_calm [OF sem_okD(1) [OF S2]]) (rule that)
    note C' = sem_ok_calm [OF S2 k'(2,3)]
    have r: "runnable k2 \<subseteq> runnable k'"
      using k'(4) unfolding runnable_def runnable_iff [OF sched_okD(1) [OF sem_okD(1) [OF S2]]] runnable_iff [OF sched_okD(1) [OF k'(2)]] by blast
    have r1: "runnable k1 = runnable k" by (simp add: runnable_def k1)
    have q: "quiet {} k k' \<longleftrightarrow> quiet {} k1 k2" using sched_unlock_quiet [OF k'(1), of "{}"] q1 by (simp add: quiet_def)
    have "all_woken s k k'" using A r C'(1) unfolding all_woken_def C' C q r1 by blast
    then show ?thesis using k'(1) by blast
  qed
  then show thesis using that [of k1] k1 C q1 by blast
qed

subsection \<open>Condition variables\<close>

text \<open>
  C14: Signalling a condition variable wakes its first waiter, of the highest priority, and does nothing when no thread waits; a broadcast ends and
  wakes all the waiters, whose waits return normally, and leaves the condition variable without a count, so that no wake-up is stored.
\<close>

theorem cond_signal_broadcast:
  assumes "sem_ok k" and "c \<noteq> NULL" and "lock_free 1 k" and "\<not> current_regs k" and "semcount k c \<le> 0"
  shows "(\<exists>k'. pthread_cond_broadcast c k = Some (OK, k') \<and> all_woken c k k' \<and> semcount k' c = 0) \<and>
    (case waiters k c of
       [] \<Rightarrow> pthread_cond_signal c k = Some (OK, k)
     | t # ts \<Rightarrow> \<exists>k'. pthread_cond_signal c k = Some (OK, k') \<and> sem_ok k' \<and> waiters k' c = ts \<and> t \<in> runnable k' \<and> semcount k' c \<le> 0)"
proof
  obtain k1 where k1: "sched_lock k = Some k1" "sem_ok k1" "\<And>k2. all_woken c k1 k2 \<Longrightarrow> \<exists>k'. sched_unlock k2 = Some k' \<and> all_woken c k k'"
    by (rule all_woken_locked [OF assms(1,3,4), of c]) (rule that)
  obtain k2 where k2: "broadcast_loop c (semcount k1 c) OK k1 = Some (OK, k2)" "all_woken c k1 k2" using broadcast_all [OF k1(2) assms(2)] by blast
  obtain k' where k': "sched_unlock k2 = Some k'" "all_woken c k k'" using k1(3) [OF k2(2)] by blast
  then have "semcount k' c = 0" using assms(5) by (simp add: all_woken_def)
  then show "\<exists>k'. pthread_cond_broadcast c k = Some (OK, k') \<and> all_woken c k k' \<and> semcount k' c = 0"
    using k1(1) k2(1) k' assms(2) by (simp add: pthread_cond_broadcast_def sem_getvalue_def)
  show "case waiters k c of
       [] \<Rightarrow> pthread_cond_signal c k = Some (OK, k)
     | t # ts \<Rightarrow> \<exists>k'. pthread_cond_signal c k = Some (OK, k') \<and> sem_ok k' \<and> waiters k' c = ts \<and> t \<in> runnable k' \<and> semcount k' c \<le> 0"
  proof (cases "waiters k c")
    case Nil
    then show ?thesis using all_woken_none(2) [OF assms(1,2) Nil] assms(2) by (simp add: pthread_cond_signal_def sem_getvalue_def)
  next
    case (Cons t ts)
    obtain k' where k': "sem_post c k = Some (OK, k')" "sem_ok k'" "semcount k' = (semcount k)(c := semcount k c + 1)" "waiters k' c = ts"
      "tasklist k' = (tasklist k)(TSTATE_WAIT_SEM := remove1 t (tasklist k TSTATE_WAIT_SEM),
         ready_list k t := prio_insert (prio k) t (tasklist k (ready_list k t)))"
      by (rule sem_post_wake [OF assms(1,2) Cons]) (rule that)
    have "semcount k c < 0" using sem_okD(2) [OF assms(1,2)] Cons by auto
    moreover have "t \<in> runnable k'" unfolding runnable_def k'(5) by (auto simp: ready_list_def)
    ultimately show ?thesis using k' assms(2) Cons by (simp add: pthread_cond_signal_def sem_getvalue_def pthread_givesemaphore_def)
  qed
qed

definition pth_blocked :: pth_kernel where
  "pth_blocked = (case the (sem_wait 600 pth_boot) of Blocked k \<Rightarrow> k)"

lemma pth_blocked_ok: "sem_ok pth_blocked" "waiters pth_blocked 600 = [2]" "semcount pth_blocked 600 = - 1" "\<not> current_regs pth_blocked" "lock_free 1 pth_blocked"
  "cpu pth_blocked = 3" "barrier_count pth_blocked 600 = 2" "length (g_readytorun pth_blocked) = 2" "length (tasklist pth_blocked TSTATE_WAIT_SEM) = 1"
proof -
  have c: "\<not> current_regs pth_boot" "(600 :: addr) \<noteq> NULL" "semcount pth_boot 600 \<le> 0" "length (g_readytorun pth_boot) > 1" "length (tasklist pth_boot TSTATE_WAIT_SEM) < 32767"
    by (simp_all add: pth_boot_fields boot2_wait boot2_pth)
  obtain k' where k': "sem_wait 600 pth_boot = Some (Blocked k')" "sem_ok k'" "semcount k' = (semcount pth_boot)(600 := semcount pth_boot 600 - 1)"
    "waiters k' 600 = prio_insert (prio pth_boot) (cpu pth_boot) (waiters pth_boot 600)"
    by (rule sem_wait_block [OF pth_boot_ok c]) (rule that)
  then have e: "pth_blocked = k'" by (simp add: pth_blocked_def)
  show "sem_ok pth_blocked" "waiters pth_blocked 600 = [2]" "semcount pth_blocked 600 = - 1"
    using k' e by (simp_all add: waiters_def pth_boot_fields boot2_wait prio_insert_def)
  show "\<not> current_regs pth_blocked" by code_simp
  show "lock_free 1 pth_blocked" by code_simp
  show "cpu pth_blocked = 3" by code_simp
  show "barrier_count pth_blocked 600 = 2" by code_simp
  show "length (g_readytorun pth_blocked) = 2" by code_simp
  show "length (tasklist pth_blocked TSTATE_WAIT_SEM) = 1" by code_simp
qed

theorem cond_signal_broadcast_witness: "\<exists>k'. pthread_cond_broadcast 600 pth_blocked = Some (OK, k') \<and> 2 \<in> runnable k' \<and> semcount k' 600 = 0"
  using cond_signal_broadcast [OF pth_blocked_ok(1) _ pth_blocked_ok(5,4), of 600] pth_blocked_ok(2,3) by (auto simp: all_woken_def)

subsection \<open>Barriers\<close>

text \<open>
  C15: A barrier for \<open>n\<close> threads holds the first \<open>n - 1\<close> threads that arrive; the next one does not block: it releases all of them, gets the serial value,
  and leaves the barrier empty for its next use. A blocked thread has errno 0 and a released one still has it, so that its call returns 0.
\<close>

theorem barrier_spec:
  assumes "sem_ok k" and "b \<noteq> NULL" and "lock_free 1 k" and "\<not> current_regs k" and "semcount k b \<le> 0"
    and "length (g_readytorun k) > 1" and "length (tasklist k TSTATE_WAIT_SEM) < 32767"
  shows "if length (waiters k b) + 1 \<ge> barrier_count k b
    then \<exists>k'. pthread_barrier_wait b k = Some (Returned PTHREAD_BARRIER_SERIAL_THREAD k') \<and> all_woken b k k' \<and> semcount k' b = 0 \<and> barrier_count k' = barrier_count k
    else \<exists>k'. pthread_barrier_wait b k = Some (Blocked k') \<and> sem_ok k' \<and> waiters k' b = prio_insert (prio k) (cpu k) (waiters k b) \<and>
      state_of k' (cpu k) = TSTATE_WAIT_SEM \<and> pterrno (tcb k' (cpu k)) = 0 \<and> semcount k' b \<le> 0 \<and> barrier_count k' = barrier_count k"
proof -
  obtain k1 where k1: "sched_lock k = Some k1" "sem_ok k1" "semcount k1 = semcount k" "waiters k1 = waiters k" "calm k k1" "g_readytorun k1 = g_readytorun k"
    "quiet {} k k1" "\<And>k2. all_woken b k1 k2 \<Longrightarrow> \<exists>k'. sched_unlock k2 = Some k' \<and> all_woken b k k'"
    by (rule all_woken_locked [OF assms(1,3,4), of b]) (rule that)
  have n: "semcount k b = - int (length (waiters k b))" using sem_okD(2) [OF assms(1,2)] assms(5) by simp
  have "length (waiters k b) < 32768" using sem_count_bounds(1) [OF assms(1,2)] n by simp
  then have u: "u32 (1 - semcount k b) = int (length (waiters k b)) + 1" unfolding n by (simp add: u32_def)
  have bc: "barrier_count k1 = barrier_count k" using quietD(3) [OF k1(7)] .
  have e: "pthread_barrier_wait b k = (if length (waiters k b) + 1 \<ge> barrier_count k b
      then do { k \<leftarrow> barrier_release_loop b (semcount k1 b) k1; k \<leftarrow> sched_unlock k; Some (Returned PTHREAD_BARRIER_SERIAL_THREAD k) }
      else barrier_wait_loop b k1)"
    using assms(2) k1(1) bc u k1(3) by (auto simp: pthread_barrier_wait_def sem_getvalue_def)
  show ?thesis
  proof (cases "length (waiters k b) + 1 \<ge> barrier_count k b")
    case True
    obtain k2 where k2: "barrier_release_loop b (semcount k1 b) k1 = Some k2" "all_woken b k1 k2" using barrier_release_all [OF k1(2) assms(2)] by blast
    obtain k' where k': "sched_unlock k2 = Some k'" "all_woken b k k'" using k1(8) [OF k2(2)] by blast
    have "quiet {} k k'" "semcount k' b = 0" using k'(2) assms(5) by (simp_all add: all_woken_def)
    then show ?thesis using True k2(1) k' quietD(3) [of "{}" k k'] unfolding e by simp
  next
    case False
    have st: "cpu k1 = cpu k" using sched_okD(2) [OF sem_okD(1) [OF k1(2)]] sched_okD(2) [OF sem_okD(1) [OF assms(1)]] k1(6) by simp
    have c: "\<not> current_regs k1" "semcount k1 b \<le> 0" "length (g_readytorun k1) > 1" "length (tasklist k1 TSTATE_WAIT_SEM) < 32767" "prio k1 = prio k"
      using k1 assms(4-7) by (auto simp: calm_def is_blocked_state_def fun_eq_iff)
    obtain k' where k': "sem_wait b k1 = Some (Blocked k')" "sem_ok k'" "semcount k' = (semcount k1)(b := semcount k1 b - 1)"
      "waiters k' b = prio_insert (prio k1) (cpu k1) (waiters k1 b)" "state_of k' (cpu k1) = TSTATE_WAIT_SEM" "pterrno (tcb k' (cpu k1)) = 0"
      by (rule sem_wait_block [OF k1(2) c(1) assms(2) c(2-4)]) (rule that)
    have "barrier_count k' = barrier_count k1" using quietD(3) [OF sem_wait_quiet [OF k'(1)]] by simp
    moreover have "barrier_wait_loop b k1 = Some (Blocked k')" using k'(1) by (subst barrier_wait_loop.simps) simp
    ultimately show ?thesis using False k' c(2,5) st bc k1(4) unfolding e by simp
  qed
qed

theorem barrier_spec_witness:
  "\<exists>k'. pthread_barrier_wait 600 pth_blocked = Some (Returned PTHREAD_BARRIER_SERIAL_THREAD k') \<and> 2 \<in> runnable k' \<and> semcount k' 600 = 0"
  using barrier_spec [OF pth_blocked_ok(1) _ pth_blocked_ok(5,4), of 600] pth_blocked_ok by (auto simp: all_woken_def)

end
