(* ===== verification/Calendar.thy ===== *)
theory Calendar
  imports "HOL-Library.Monad_Syntax" "HOL-Library.Signed_Division"
begin

section \<open>Calendar time\<close>

text \<open>
  The conversions between seconds since the epoch and calendar dates (\<open>lib/time\<close>), in the three variants the configuration selects: the
  simple one (the default), the Gregorian calendar (CONFIG\_GREGORIAN\_TIME) and the Julian calendar before October 1582 (CONFIG\_JULIAN\_TIME). The type \<open>time_t\<close> is
  an unsigned 32-bit integer. \<open>int\<close> and \<open>long\<close> are signed 32-bit integers, which wrap around: the conversion \<open>s32\<close> stands where a result is stored or divided (wrapping the terms
  of a sum or product is no different from wrapping the result). A division of signed numbers truncates.
\<close>

subsection \<open>Common parts\<close>

definition to_time_t :: "int \<Rightarrow> int" where
  "to_time_t x = x mod 2 ^ 32"

definition s32 :: "int \<Rightarrow> int" where
  "s32 x = (x + 2 ^ 31) mod 2 ^ 32 - 2 ^ 31"

lemma s32_id [simp]: "- 2147483648 \<le> x \<Longrightarrow> x < 2147483648 \<Longrightarrow> s32 x = x"
  by (simp add: s32_def)

record tm =
  tm_sec :: int
  tm_min :: int
  tm_hour :: int
  tm_mday :: int
  tm_mon :: int
  tm_year :: int

definition clock_isleapyear :: "int \<Rightarrow> bool" where
  "clock_isleapyear year =
     (if year smod 400 \<noteq> 0 then (if year smod 100 \<noteq> 0 then (if year smod 4 \<noteq> 0 then False else True) else False) else True)"

definition g_daysbeforemonth :: "int list" where
  "g_daysbeforemonth = [0, 31, 59, 90, 120, 151, 181, 212, 243, 273, 304, 334, 365]"

text \<open>None: a read outside the table.\<close>

definition clock_daysbeforemonth :: "int \<Rightarrow> bool \<Rightarrow> int option" where
  "clock_daysbeforemonth month leapyear =
     (if 0 \<le> month \<and> month < 13
      then let retval = g_daysbeforemonth ! nat month in Some (if month \<ge> 2 \<and> leapyear then retval + 1 else retval)
      else None)"

subsection \<open>The Gregorian and the Julian calendar\<close>

definition JD_OF_EPOCH :: int where [simp]: "JD_OF_EPOCH = 2440588"
definition GREG_DUTC :: int where [simp]: "GREG_DUTC = - 141427"
definition GREG_YEAR :: int where [simp]: "GREG_YEAR = 1582"
definition GREG_MONTH :: int where [simp]: "GREG_MONTH = 10"
definition GREG_DAY :: int where [simp]: "GREG_DAY = 15"

definition clock_utc2gregorian :: "int \<Rightarrow> int \<times> int \<times> int" where
  "clock_utc2gregorian jd =
     (let l = s32 (jd + 68569);
          n = s32 (4 * l) sdiv 146097;
          l = s32 (l - s32 (146097 * n + 3) sdiv 4);
          i = s32 (4000 * (l + 1)) sdiv 1461001;
          l = s32 (l - s32 (1461 * i) sdiv 4 + 31);
          j = s32 (80 * l) sdiv 2447;
          d = s32 (l - s32 (2447 * j) sdiv 80);
          l = j sdiv 11;
          m = s32 (j + 2 - 12 * l);
          y = s32 (100 * (n - 49) + i + l)
      in (y, m, d))"

definition clock_utc2julian :: "int \<Rightarrow> int \<times> int \<times> int" where
  "clock_utc2julian jd =
     (let j = s32 (jd + 1402);
          k = s32 (j - 1) sdiv 1461;
          l = s32 (j - 1461 * k);
          n = s32 (s32 (l - 1) sdiv 365 - l sdiv 1461);
          i = s32 (l - 365 * n + 30);
          j = s32 (80 * i) sdiv 2447;
          d = s32 (i - s32 (2447 * j) sdiv 80);
          i = j sdiv 11;
          m = s32 (j + 2 - 12 * i);
          y = s32 (4 * k + n + i - 4716)
      in (y, m, d))"

text \<open>The comparison of an unsigned number with \<open>GREG_DUTC\<close> converts the latter to an unsigned number.\<close>

definition utc2calendar_gregorian :: "bool \<Rightarrow> int \<Rightarrow> (int \<times> int \<times> int) option" where
  "utc2calendar_gregorian config_julian utc =
     (if config_julian \<and> \<not> utc \<ge> to_time_t GREG_DUTC
      then Some (clock_utc2julian (to_time_t (utc + JD_OF_EPOCH)))
      else Some (clock_utc2gregorian (to_time_t (utc + JD_OF_EPOCH))))"

definition clock_gregorian2utc :: "int \<Rightarrow> int \<Rightarrow> int \<Rightarrow> int" where
  "clock_gregorian2utc year month day =
     (let temp = (if month \<le> 2 then - 1 else 0)
      in to_time_t (s32 (1461 * (year + 4800 + temp)) sdiv 4 + s32 (367 * (month - 2 - 12 * temp)) sdiv 12
           - s32 (3 * (s32 (year + 4900 + temp) sdiv 100)) sdiv 4 + day - 32075))"

definition clock_julian2utc :: "int \<Rightarrow> int \<Rightarrow> int \<Rightarrow> int" where
  "clock_julian2utc year month day =
     to_time_t (367 * year - s32 (7 * (year + 5001 + s32 (month - 9) sdiv 7)) sdiv 4 + s32 (275 * month) sdiv 9 + day + 1729777)"

definition clock_calendar2utc :: "bool \<Rightarrow> int \<Rightarrow> int \<Rightarrow> int \<Rightarrow> int" where
  "clock_calendar2utc config_julian year month day =
     (let dyear = s32 (month - 1) sdiv 12;
          month = s32 (month - 12 * dyear);
          year = s32 (year + dyear);
          (month, year) = (if month < 1 then (s32 (month + 12), s32 (year - 1)) else (month, year));
          isgreg = (if year > GREG_YEAR then True
                    else if year < GREG_YEAR then False
                    else if month > GREG_MONTH then True
                    else if month < GREG_MONTH then False
                    else day \<ge> GREG_DAY)
      in if config_julian \<and> \<not> isgreg then to_time_t (clock_julian2utc year month day - JD_OF_EPOCH)
         else to_time_t (clock_gregorian2utc year month day - JD_OF_EPOCH))"

definition mktime_gregorian :: "bool \<Rightarrow> tm \<Rightarrow> int" where
  "mktime_gregorian config_julian tp =
     (let jdn = clock_calendar2utc config_julian (s32 (tm_year tp + 1900)) (s32 (tm_mon tp + 1)) (tm_mday tp)
      in to_time_t (((jdn * 24 + tm_hour tp) * 60 + tm_min tp) * 60 + tm_sec tp))"

subsection \<open>The simple variant\<close>

text \<open>The loop over the years: the year, relative to 1970, the days into it, and whether it is a leap year.\<close>

function year_loop :: "int \<Rightarrow> int \<Rightarrow> int \<times> int \<times> bool" where
  "year_loop value days =
     (let leapyear = clock_isleapyear (value + 1970);
          tmp = (if leapyear then 366 else 365)
      in if days \<ge> tmp then year_loop (value + 1) (days - tmp) else (value, days, leapyear))"
  by pat_completeness auto
termination by (relation "measure (\<lambda>(_, days). nat days)") (auto split: if_splits)

declare year_loop.simps [simp del]

text \<open>The search for the month, by bisection.\<close>

function month_loop :: "int \<Rightarrow> bool \<Rightarrow> int \<Rightarrow> int \<Rightarrow> int option" where
  "month_loop days leapyear lo hi = do {
     let value = (lo + hi) div 2;
     tmp \<leftarrow> clock_daysbeforemonth (value + 1) leapyear;
     r \<leftarrow> (if tmp > days
           then do {
             tmp \<leftarrow> clock_daysbeforemonth value leapyear;
             Some (if tmp > days then Inr (lo, value - 1) else Inl value)
           }
           else Some (Inr (value + 1, hi)));
     case r of
       Inl value \<Rightarrow> Some value
     | Inr (lo, hi) \<Rightarrow> if lo < hi then month_loop days leapyear lo hi else Some lo
   }"
  by pat_completeness auto
termination
  by (relation "measure (\<lambda>(_, _, lo, hi). nat (hi - lo))") (auto simp: bind_eq_Some_conv split: if_splits)

declare month_loop.simps [simp del]

definition clock_utc2calendar :: "int \<Rightarrow> (int \<times> int \<times> int) option" where
  "clock_utc2calendar days =
     (let value = days div (4 * 365 + 1);
          days = days - value * (4 * 365 + 1);
          (value, days, leapyear) = year_loop (4 * value) days;
          year = 1970 + value
      in do {
        value \<leftarrow> month_loop days leapyear 0 11;
        prior \<leftarrow> clock_daysbeforemonth value leapyear;
        Some (year, value + 1, days - prior + 1)
      })"

definition mktime :: "tm \<Rightarrow> int option" where
  "mktime tp = do {
     let days = to_time_t ((tm_year tp - 70) * 365);
     let days = to_time_t (days + s32 (tm_year tp - 69) div 4);
     prior \<leftarrow> clock_daysbeforemonth (tm_mon tp) (clock_isleapyear (s32 (tm_year tp + 1900)));
     let days = to_time_t (days + prior);
     let days = to_time_t (days + (tm_mday tp - 1));
     Some (to_time_t (((days * 24 + tm_hour tp) * 60 + tm_min tp) * 60 + tm_sec tp))
   }"

text \<open>Without the Gregorian calendar \<open>clock_calendar2utc\<close> is \<open>mktime\<close>, with the year and the month as they are.\<close>

definition calendar2utc_simple :: "int \<Rightarrow> int \<Rightarrow> int \<Rightarrow> int option" where
  "calendar2utc_simple year month day = mktime \<lparr>tm_sec = 0, tm_min = 0, tm_hour = 0, tm_mday = day, tm_mon = month, tm_year = year\<rparr>"

subsection \<open>Broken-down time\<close>

definition SEC_PER_MIN :: int where [simp]: "SEC_PER_MIN = 60"
definition SEC_PER_HOUR :: int where [simp]: "SEC_PER_HOUR = 60 * SEC_PER_MIN"
definition SEC_PER_DAY :: int where [simp]: "SEC_PER_DAY = 24 * SEC_PER_HOUR"

text \<open>The variant of \<open>clock_utc2calendar\<close> is an argument.\<close>

definition gmtime_r :: "(int \<Rightarrow> (int \<times> int \<times> int) option) \<Rightarrow> int \<Rightarrow> tm option" where
  "gmtime_r utc2calendar timer = do {
     let epoch = timer;
     let jdn = epoch div SEC_PER_DAY;
     let epoch = epoch - SEC_PER_DAY * jdn;
     let hour = epoch div SEC_PER_HOUR;
     let epoch = epoch - SEC_PER_HOUR * hour;
     let min = epoch div SEC_PER_MIN;
     let epoch = epoch - SEC_PER_MIN * min;
     let sec = epoch;
     (year, month, day) \<leftarrow> utc2calendar jdn;
     Some \<lparr>tm_sec = sec, tm_min = min, tm_hour = hour, tm_mday = day, tm_mon = month - 1, tm_year = year - 1900\<rparr>
   }"

end
