(* ===== verification/Calendar_Ops.thy ===== *)
theory Calendar_Ops
  imports Calendar
begin

section \<open>The calendar as a sequence of days\<close>

text \<open>
  The reference: the date \<open>n\<close> days after January 1, 1970 is found by going from each day to the next one. \<open>jdn\<close> numbers the days; dates and
  numbers determine each other.
\<close>

definition leap_year :: "int \<Rightarrow> bool" where
  "leap_year y \<longleftrightarrow> 4 dvd y \<and> (\<not> 100 dvd y \<or> 400 dvd y)"

definition days_in_month :: "int \<Rightarrow> int \<Rightarrow> int" where
  "days_in_month y m = (if m = 2 then (if leap_year y then 29 else 28) else if m \<in> {4, 6, 9, 11} then 30 else 31)"

fun next_day :: "int \<times> int \<times> int \<Rightarrow> int \<times> int \<times> int" where
  "next_day (y, m, d) =
     (if d < days_in_month y m then (y, m, d + 1) else if m < 12 then (y, m + 1, 1) else (y + 1, 1, 1))"

definition date_after :: "nat \<Rightarrow> int \<times> int \<times> int" where
  "date_after n = (next_day ^^ n) (1970, 1, 1)"

fun valid_date :: "int \<times> int \<times> int \<Rightarrow> bool" where
  "valid_date (y, m, d) \<longleftrightarrow> 1 \<le> m \<and> m \<le> 12 \<and> 1 \<le> d \<and> d \<le> days_in_month y m"

subsection \<open>Arithmetic\<close>

lemma div_eqI: "b * q \<le> a \<Longrightarrow> a < b * q + b \<Longrightarrow> a div b = (q :: int)"
  by (rule int_div_pos_eq [of a b q "a - b * q"]) auto

lemma sdiv_nonneg: "0 \<le> a \<Longrightarrow> 0 < b \<Longrightarrow> a sdiv b = (a :: int) div b"
  by (cases "a = 0") (simp_all add: signed_divide_int_def)

lemma isleapyear_eq: "clock_isleapyear y = leap_year y"
proof -
  have s: "y smod n = 0 \<longleftrightarrow> n dvd y" if "n > 0" for n
  proof -
    have "y smod n = sgn y * (\<bar>y\<bar> mod n)" using that by (simp add: signed_modulo_int_def)
    then have "y smod n = 0 \<longleftrightarrow> n dvd \<bar>y\<bar>" using that by (cases "y = 0") (simp_all add: dvd_eq_mod_eq_0 sgn_if)
    then show ?thesis by simp
  qed
  have "(400 :: int) dvd y \<Longrightarrow> 100 dvd y" "(100 :: int) dvd y \<Longrightarrow> 4 dvd y" by presburger+
  then show ?thesis by (auto simp: clock_isleapyear_def leap_year_def s)
qed

lemma century_split:
  obtains q a i :: int where "y = 400 * q + 100 * a + i" "0 \<le> a" "a < 4" "0 \<le> i" "i < 100"
proof (rule that)
  have "y = 400 * (y div 400) + y mod 400" "y mod 400 = 100 * (y mod 400 div 100) + y mod 400 mod 100" by simp_all
  then show "y = 400 * (y div 400) + 100 * (y mod 400 div 100) + y mod 400 mod 100" by linarith
  have "0 \<le> y mod 400" "y mod 400 < 400" by simp_all
  then show "0 \<le> y mod 400 div 100" "y mod 400 div 100 < 4" by linarith+
qed simp_all

text \<open>The number of days before March of a year, from some day on.\<close>

definition ystart :: "int \<Rightarrow> int" where
  "ystart y = 1461 * (y + 4800) div 4 - 3 * ((y + 4900) div 100) div 4"

lemma ystart_eq:
  assumes "0 \<le> a" "a < 4" "0 \<le> i" "i < 100"
  shows "ystart (400 * q + 100 * a + i - 4900) = 146097 * q + 36524 * a - 36525 + 1461 * i div 4 + (if a = 0 then 0 else 1)"
proof -
  have "(1461 * (400 * q + 100 * a + i - 4900 + 4800)) div 4 = 146100 * q + 36525 * a - 36525 + 1461 * i div 4"
    by (rule div_eqI) auto
  moreover have "(400 * q + 100 * a + i - 4900 + 4900) div 100 = 4 * q + a" by (rule div_eqI) (use assms in auto)
  moreover have "3 * (4 * q + a) div 4 = 3 * q + a - (if a = 0 then 0 else 1)" by (rule div_eqI) (use assms in auto)
  ultimately show ?thesis by (simp add: ystart_def)
qed

lemma leap_year_eq:
  assumes "0 \<le> a" "a < 4" "0 \<le> i" "i < 100"
  shows "leap_year (400 * q + 100 * a + i - 4900) \<longleftrightarrow> (if i = 0 then a = 1 else 4 dvd i)"
proof -
  have h: "100 dvd 400 * q + 100 * a + i - 4900 \<longleftrightarrow> i = 0"
  proof -
    have "400 * q + 100 * a + i - 4900 = 100 * (4 * q + a - 49) + i" by simp
    then have "100 dvd 400 * q + 100 * a + i - 4900 \<longleftrightarrow> 100 dvd i" by (metis dvd_add_right_iff dvd_triv_left)
    then show ?thesis using assms zdvd_not_zless [of i 100] by auto
  qed
  have f: "4 dvd 400 * q + 100 * a + i - 4900 \<longleftrightarrow> 4 dvd i"
  proof -
    have "400 * q + 100 * a + i - 4900 = 4 * (100 * q + 25 * a - 1225) + i" by simp
    then show ?thesis by (metis dvd_add_right_iff dvd_triv_left)
  qed
  have t: "400 dvd 400 * q + 100 * a - 4900 \<longleftrightarrow> a = 1"
  proof -
    have "400 * q + 100 * a - 4900 = 400 * (q - 12) + 100 * (a - 1)" by simp
    then have "400 dvd 400 * q + 100 * a - 4900 \<longleftrightarrow> 400 dvd 100 * (a - 1)" by (metis dvd_add_right_iff dvd_triv_left)
    also consider "a = 0" | "a = 1" | "a = 2" | "a = 3" using assms by linarith
    then have "400 dvd 100 * (a - 1) \<longleftrightarrow> a = 1" by cases simp_all
    finally show ?thesis .
  qed
  show ?thesis using h f t by (auto simp: leap_year_def)
qed

lemma ystart_step: "ystart (y + 1) = ystart y + (if leap_year (y + 1) then 366 else 365)"
proof -
  obtain q a i where y: "y + 4900 = 400 * q + 100 * a + i" "0 \<le> a" "a < 4" "0 \<le> i" "i < 100" by (rule century_split)
  then have e: "y = 400 * q + 100 * a + i - 4900" by simp
  consider "i < 99" | "i = 99" "a < 3" | "i = 99" "a = 3" using y by linarith
  then show ?thesis
  proof cases
    case 1
    have s: "y + 1 = 400 * q + 100 * a + (i + 1) - 4900" using e by simp
    have "1461 * (i + 1) div 4 = 1461 * i div 4 + (if 4 dvd i + 1 then 366 else 365)"
    proof -
      define p s where "p = i div 4" and "s = i mod 4"
      have i: "i = 4 * p + s" "0 \<le> s" "s < 4" by (simp_all add: p_def s_def)
      then consider "s = 0" | "s = 1" | "s = 2" | "s = 3" by linarith
      then have "1461 * i div 4 = 1461 * p + 365 * s" "1461 * (i + 1) div 4 = 1461 * p + 365 * (s + 1) + (if s = 3 then 1 else 0)"
        by (cases; unfold i(1); intro div_eqI; simp)+
      moreover have "4 dvd i + 1 \<longleftrightarrow> s = 3" using i by presburger
      ultimately show ?thesis by simp
    qed
    moreover have "i + 1 \<noteq> 0" using y by simp
    ultimately show ?thesis
      unfolding s unfolding e using ystart_eq [of a "i + 1" q] ystart_eq [of a i q] leap_year_eq [of a "i + 1" q] y 1 by auto
  next
    case 2
    have s: "y + 1 = 400 * q + 100 * (a + 1) + 0 - 4900" using e 2 by simp
    show ?thesis
      unfolding s unfolding e using ystart_eq [of "a + 1" 0 q] ystart_eq [of a i q] leap_year_eq [of "a + 1" 0 q] y 2 by auto
  next
    case 3
    have s: "y + 1 = 400 * (q + 1) + 100 * 0 + 0 - 4900" using e 3 by simp
    show ?thesis
      unfolding s unfolding e using ystart_eq [of 0 0 "q + 1"] ystart_eq [of a i q] leap_year_eq [of 0 0 "q + 1"] y 3 by auto
  qed
qed

subsection \<open>Day numbers\<close>

fun jdn :: "int \<times> int \<times> int \<Rightarrow> int" where
  "jdn (y, m, d) = (if m \<le> 2 then ystart (y - 1) + 367 * (m + 10) div 12 else ystart y + 367 * (m - 2) div 12) + d - 32075"

definition days_before :: "int \<Rightarrow> bool \<Rightarrow> int" where
  "days_before m leap = g_daysbeforemonth ! nat m + (if m \<ge> 2 \<and> leap then 1 else 0)"

lemma daysbeforemonth_eq: "0 \<le> m \<Longrightarrow> m \<le> 12 \<Longrightarrow> clock_daysbeforemonth m leap = Some (days_before m leap)"
  by (simp add: clock_daysbeforemonth_def days_before_def Let_def)

lemma month_cases:
  assumes "1 \<le> m" "m \<le> (12 :: int)"
  obtains "m = 1" | "m = 2" | "m = 3" | "m = 4" | "m = 5" | "m = 6" | "m = 7" | "m = 8" | "m = 9" | "m = 10" | "m = 11" | "m = 12"
proof -
  have "m = 1 \<or> m = 2 \<or> m = 3 \<or> m = 4 \<or> m = 5 \<or> m = 6 \<or> m = 7 \<or> m = 8 \<or> m = 9 \<or> m = 10 \<or> m = 11 \<or> m = 12"
    using assms by presburger
  then show thesis using that by blast
qed

text \<open>The number of January 1.\<close>

definition jan1 :: "int \<Rightarrow> int" where
  "jan1 y = ystart (y - 1) - 31738"

lemma jan1_step: "jan1 (y + 1) = jan1 y + (if leap_year y then 366 else 365)"
  using ystart_step [of "y - 1"] by (simp add: jan1_def)

lemma jdn_eq:
  assumes "1 \<le> m" "m \<le> 12"
  shows "jdn (y, m, d) = jan1 y + days_before (m - 1) (leap_year y) + d - 1"
  using assms ystart_step [of "y - 1"] by (cases rule: month_cases) (simp_all add: jan1_def days_before_def g_daysbeforemonth_def)

lemma days_before_step:
  assumes "1 \<le> m" "m \<le> 12"
  shows "days_before m (leap_year y) = days_before (m - 1) (leap_year y) + days_in_month y m"
  using assms by (cases rule: month_cases) (simp_all add: days_before_def g_daysbeforemonth_def days_in_month_def)

lemma days_before_ends: "days_before 0 l = 0" "days_before 12 l = (if l then 366 else 365)"
  by (simp_all add: days_before_def g_daysbeforemonth_def)

lemma days_before_mono:
  assumes "0 \<le> m" "m \<le> n" "n \<le> 12"
  shows "days_before m (leap_year y) \<le> days_before n (leap_year y)"
  using assms(2,1,3)
proof (induction n rule: int_ge_induct)
  case (step n)
  have "days_in_month y (n + 1) \<ge> 0" by (simp add: days_in_month_def)
  then show ?case using step days_before_step [of "n + 1" y] by simp
qed simp

lemma jan1_mono:
  assumes "x \<le> y"
  shows "jan1 x \<le> jan1 y"
  using assms
proof (induction y rule: int_ge_induct)
  case (step y)
  then show ?case using jan1_step [of y] by (simp split: if_splits)
qed simp

lemma jdn_next: "valid_date D \<Longrightarrow> jdn (next_day D) = jdn D + 1 \<and> valid_date (next_day D)"
proof (cases D)
  case (fields y m d)
  assume v: "valid_date D"
  then have m: "1 \<le> m" "m \<le> 12" "1 \<le> d" "d \<le> days_in_month y m" by (simp_all add: fields)
  have p: "days_in_month y m \<ge> 1" for y m by (simp add: days_in_month_def)
  consider "d < days_in_month y m" | "d = days_in_month y m" "m < 12" | "d = days_in_month y m" "m = 12" using m by linarith
  then show ?thesis
  proof cases
    case 1
    then show ?thesis using m jdn_eq [OF m(1,2)] by (simp add: fields)
  next
    case 2
    have "next_day D = (y, m + 1, 1)" using 2 by (simp add: fields)
    moreover have "jdn (y, m + 1, 1) = jdn D + 1"
      unfolding fields using 2 m jdn_eq [OF m(1,2), of y d] jdn_eq [of "m + 1" y 1] days_before_step [OF m(1,2), of y] by simp
    ultimately show ?thesis using 2 m p by simp
  next
    case 3
    have "next_day D = (y + 1, 1, 1)" using 3 by (simp add: fields)
    moreover have "jdn (y + 1, 1, 1) = jdn D + 1"
      unfolding fields using 3 m jdn_eq [OF m(1,2), of y d] jdn_eq [of 1 "y + 1" 1] days_before_step [OF m(1,2), of y] days_before_ends jan1_step [of y] by simp
    ultimately show ?thesis using p by simp
  qed
qed

lemma jdn_range:
  assumes "valid_date (y, m, d)"
  shows "jan1 y \<le> jdn (y, m, d)" "jdn (y, m, d) < jan1 (y + 1)"
proof -
  have m: "1 \<le> m" "m \<le> 12" "1 \<le> d" "d \<le> days_in_month y m" using assms by simp_all
  show "jan1 y \<le> jdn (y, m, d)" using m jdn_eq [OF m(1,2), of y d] days_before_mono [of 0 "m - 1" y] days_before_ends(1) by simp
  show "jdn (y, m, d) < jan1 (y + 1)"
    using m jdn_eq [OF m(1,2), of y d] days_before_step [OF m(1,2), of y] days_before_mono [of m 12 y] days_before_ends(2) jan1_step [of y] by simp
qed

lemma jdn_inj:
  assumes "valid_date D" "valid_date D'" "jdn D = jdn D'"
  shows "D = D'"
proof -
  obtain y m d y' m' d' where D: "D = (y, m, d)" "D' = (y', m', d')" by (cases D, cases D')
  note R = jdn_range [OF assms(1) [unfolded D]] jdn_range [OF assms(2) [unfolded D]]
  have m: "1 \<le> m" "m \<le> 12" "1 \<le> d" "d \<le> days_in_month y m" "1 \<le> m'" "m' \<le> 12" "1 \<le> d'" "d' \<le> days_in_month y' m'" using assms by (simp_all add: D)
  have "\<not> y < y'" "\<not> y' < y" using R assms(3) jan1_mono [of "y + 1" y'] jan1_mono [of "y' + 1" y] unfolding D by auto
  then have y: "y' = y" by simp
  note E = jdn_eq [OF m(1,2), of y d] jdn_eq [OF m(5,6), of y d'] days_before_step [OF m(1,2), of y] days_before_step [OF m(5,6), of y]
  have "\<not> m < m'" using E assms(3) m days_before_mono [of m "m' - 1" y] unfolding D y by auto
  moreover have "\<not> m' < m" using E assms(3) m days_before_mono [of m' "m - 1" y] unfolding D y by auto
  ultimately have "m' = m" by simp
  then show ?thesis using E assms(3) unfolding D y by simp
qed

lemma date_after_jdn: "valid_date (date_after n)" "jdn (date_after n) = JD_OF_EPOCH + int n"
proof -
  have "valid_date (date_after n) \<and> jdn (date_after n) = JD_OF_EPOCH + int n"
  proof (induction n)
    case 0
    show ?case by (simp add: date_after_def days_in_month_def ystart_def)
  next
    case (Suc n)
    have "date_after (Suc n) = next_day (date_after n)" by (simp add: date_after_def)
    then show ?case using jdn_next Suc by simp
  qed
  then show "valid_date (date_after n)" "jdn (date_after n) = JD_OF_EPOCH + int n" by simp_all
qed

lemma date_after_eqI: "valid_date D \<Longrightarrow> jdn D = JD_OF_EPOCH + int n \<Longrightarrow> D = date_after n"
  by (rule jdn_inj) (simp_all only: date_after_jdn)

end
