(* ===== verification/Calendar_Greg.thy ===== *)
theory Calendar_Greg
  imports Calendar_Ops
begin

section \<open>The conversions and the calendar\<close>

text \<open>
  The conversions of \<open>Calendar\<close> compute the dates of \<open>Calendar_Ops\<close>: the Gregorian one by the arithmetic of the day of the century and the month that begins the year with March, the default one by its
  loops over the years and the months, as long as every fourth year is a leap year.
\<close>

subsection \<open>From day numbers to dates\<close>

text \<open>The day of the year that begins with March, from the day of the century.\<close>

lemma year_of_century:
  fixes l :: int
  assumes "0 \<le> l" "l \<le> 36524"
  defines "i \<equiv> 4000 * (l + 1) div 1461001"
  defines "r \<equiv> l - 1461 * i div 4"
  shows "0 \<le> i" "i \<le> 99" "0 \<le> r" "r \<le> 365" "r = 365 \<Longrightarrow> 4 dvd i + 1"
proof -
  define k where "k = 1461 * i div 4"
  have i: "1461001 * i \<le> 4000 * (l + 1)" "4000 * (l + 1) < 1461001 * i + 1461001"
    using mult_div_mod_eq [of 1461001 "4000 * (l + 1)"] pos_mod_bound [of 1461001 "4000 * (l + 1)"] pos_mod_sign [of 1461001 "4000 * (l + 1)"]
    unfolding i_def by linarith+
  have k: "4 * k \<le> 1461 * i" "1461 * i < 4 * k + 4" unfolding k_def by linarith+
  have r: "r = l - k" by (simp add: r_def k_def)
  show i0: "0 \<le> i" "i \<le> 99" using i assms(1,2) by simp_all
  show "0 \<le> r"
  proof (rule ccontr)
    assume "\<not> 0 \<le> r"
    then have "4000 * (l + 1) \<le> 4000 * k" unfolding r by simp
    then have "1461001 * i \<le> 1461000 * i" using i(1) k(1) by simp
    then have "i = 0" using i0 by simp
    then show False using k(1) assms(1) \<open>\<not> 0 \<le> r\<close> unfolding r by simp
  qed
  have "1000 * (1461 * i) \<le> 1000 * (4 * k + 3)" using k(2) by simp
  then have "4000 * r < 1460100" using i(2) i0(2) unfolding r by simp
  then show "r \<le> 365" by simp
  show "4 dvd i + 1" if "r = 365"
  proof -
    define p s where "p = i div 4" and "s = i mod 4"
    have e: "i = 4 * p + s" "0 \<le> s" "s < 4" by (simp_all add: p_def s_def)
    have "k = 1461 * p + 365 * s" unfolding k_def e(1) by (rule div_eqI) (use e in auto)
    then have "s = 3" using i that i0 e unfolding r by simp
    then show ?thesis using e(1) by presburger
  qed
qed

text \<open>The month and the day from the day of that year, counted from 31.\<close>

lemma month_of_year:
  fixes l :: int
  assumes "31 \<le> l" "l \<le> 396"
  defines "j \<equiv> 80 * l div 2447"
  defines "d \<equiv> l - 2447 * j div 80"
  shows "1 \<le> j" "j \<le> 12" "1 \<le> d" "2447 * j div 80 = 367 * j div 12"
    "d \<le> (if j = 12 then l - 367 else if j \<in> {2, 4, 7, 9} then 30 else 31)"
proof -
  have j: "2447 * j \<le> 80 * l" "80 * l < 2447 * j + 2447" unfolding j_def by linarith+
  show j1: "1 \<le> j" "j \<le> 12" using j assms(1,2) by linarith+
  then have "1 \<le> d \<and> 2447 * j div 80 = 367 * j div 12 \<and> d \<le> (if j = 12 then l - 367 else if j \<in> {2, 4, 7, 9} then 30 else 31)"
    using j unfolding d_def by (cases rule: month_cases) simp_all
  then show "1 \<le> d" "2447 * j div 80 = 367 * j div 12" "d \<le> (if j = 12 then l - 367 else if j \<in> {2, 4, 7, 9} then 30 else 31)" by simp_all
qed

lemma utc2gregorian_ok:
  assumes "0 \<le> jd" "jd + 68569 < 2 ^ 29"
  shows "valid_date (clock_utc2gregorian jd)" "jdn (clock_utc2gregorian jd) = jd"
proof -
  define l where "l = jd + 68569"
  define n where "n = 4 * l div 146097"
  define q a where "q = n div 4" and "a = n mod 4"
  have n: "n = 4 * q + a" "0 \<le> a" "a < 4" by (simp_all add: q_def a_def)
  define l1 where "l1 = l - (146097 * n + 3) div 4"
  have ln: "146097 * n \<le> 4 * l" "4 * l < 146097 * n + 146097" unfolding n_def by linarith+
  have n0: "0 \<le> n" using ln assms unfolding l_def by simp
  have "(146097 * n + 3) div 4 = 146097 * q + 36524 * a + (if a = 0 then 0 else 1)"
    unfolding n(1) by (rule div_eqI) (use n in auto)
  then have l1: "l1 = l - 146097 * q - 36524 * a - (if a = 0 then 0 else 1)" by (simp add: l1_def)
  have b: "0 \<le> l1" "l1 \<le> 36524" "l1 = 36524 \<Longrightarrow> a = 0" using ln n unfolding l1 by (auto split: if_splits)
  define i where "i = 4000 * (l1 + 1) div 1461001"
  define r where "r = l1 - 1461 * i div 4"
  note Y = year_of_century [OF b(1,2), folded i_def, folded r_def]
  define j where "j = 80 * (r + 31) div 2447"
  define d where "d = r + 31 - 2447 * j div 80"
  have M: "1 \<le> j" "j \<le> 12" "1 \<le> d" "2447 * j div 80 = 367 * j div 12" "d \<le> (if j = 12 then r + 31 - 367 else if j \<in> {2, 4, 7, 9} then 30 else 31)"
    using month_of_year [of "r + 31", folded j_def, folded d_def] Y(3,4) by simp_all
  define y where "y = 400 * q + 100 * a + i - 4900"
  have e: "clock_utc2gregorian jd = (if j < 11 then (y, j + 2, d) else (y + 1, j - 10, d))"
  proof -
    have L: "0 \<le> l" "4 * l + 4 \<le> 2147483648" "n \<le> 14700" using assms ln unfolding l_def by simp_all
    have w: "s32 l = l" "s32 (4 * l) = 4 * l" "s32 (146097 * n + 3) = 146097 * n + 3" "s32 l1 = l1" "s32 (4000 * (l1 + 1)) = 4000 * (l1 + 1)"
      "s32 (1461 * i) = 1461 * i" "s32 (r + 31) = r + 31" "s32 (80 * (r + 31)) = 80 * (r + 31)" "s32 (2447 * j) = 2447 * j" "s32 d = d"
      using L ln n0 b Y(1-4) M(1-3,5) by (simp_all split: if_splits)
    have s: "(4 * l) sdiv 146097 = n" "(146097 * n + 3) sdiv 4 = (146097 * n + 3) div 4" "(4000 * (l1 + 1)) sdiv 1461001 = i"
      "(1461 * i) sdiv 4 = 1461 * i div 4" "(80 * (r + 31)) sdiv 2447 = j" "(2447 * j) sdiv 80 = 2447 * j div 80" "j sdiv 11 = j div 11"
      using assms n0 b Y M by (simp_all add: sdiv_nonneg n_def i_def j_def l_def)
    have t: "l - (146097 * n + 3) div 4 = l1" "l1 - 1461 * i div 4 + 31 = r + 31" "r + 31 - 2447 * j div 80 = d" by (simp_all add: l1_def r_def d_def)
    have v: "s32 (j + 2 - 12 * (j div 11)) = j + 2 - 12 * (j div 11)" "s32 (100 * (n - 49) + i + j div 11) = 100 * (n - 49) + i + j div 11"
      using L n0 Y(1,2) M(1,2) by simp_all
    have "j div 11 = (if j < 11 then 0 else 1)" using M by (auto intro!: div_eqI)
    then show ?thesis
      unfolding clock_utc2gregorian_def Let_def l_def [symmetric] w s t v using n(1) by (auto simp: y_def)
  qed
  have ys: "ystart y = l - l1 - 36525 + 1461 * i div 4"
    unfolding y_def using ystart_eq [of a i q] n(2,3) Y(1,2) l1 by simp
  show "jdn (clock_utc2gregorian jd) = jd"
    unfolding e using M ys by (auto simp: d_def r_def l_def)
  have "leap_year (y + 1)" if "d = 29" "j = 12"
  proof -
    have r: "r = 365" using that M(5) Y(4) by simp
    show ?thesis
    proof (cases "i = 99")
      case True
      then have "l1 = 36524" using r by (simp add: r_def)
      then have "y + 1 = 400 * q + 100 * 1 + 0 - 4900" using b(3) True by (simp add: y_def)
      then show ?thesis by (simp only: leap_year_eq) simp
    next
      case False
      then have y1: "y + 1 = 400 * q + 100 * a + (i + 1) - 4900" and "i + 1 < 100" using Y(2) by (simp_all add: y_def)
      then have "leap_year (y + 1) \<longleftrightarrow> (if i + 1 = 0 then a = 1 else 4 dvd i + 1)"
        unfolding y1 using n(2,3) Y(1) by (intro leap_year_eq) simp_all
      then show ?thesis using Y(1,5) r by simp
    qed
  qed
  then have "d \<le> 28 \<or> d = 29 \<and> leap_year (y + 1)" if "j = 12" using that M(5) Y(4) by fastforce
  then show "valid_date (clock_utc2gregorian jd)"
    unfolding e using M by (cases rule: month_cases [OF M(1,2)]) (auto simp: days_in_month_def)
qed

lemma utc2calendar_gregorian_eq:
  assumes "int n + JD_OF_EPOCH + 68569 < 2 ^ 29"
  shows "utc2calendar_gregorian False (int n) = Some (date_after n)"
proof -
  have "to_time_t (int n + JD_OF_EPOCH) = JD_OF_EPOCH + int n" using assms by (simp add: to_time_t_def)
  then show ?thesis
    unfolding utc2calendar_gregorian_def using date_after_eqI [OF utc2gregorian_ok] assms by simp
qed

subsection \<open>From dates to day numbers\<close>

lemma calendar2utc_ok:
  assumes "valid_date (y, m, d)" "0 \<le> y" "y \<le> 1000000" "JD_OF_EPOCH \<le> jdn (y, m, d)" "jdn (y, m, d) < 2 ^ 32"
  shows "clock_calendar2utc False y m d = jdn (y, m, d) - JD_OF_EPOCH"
proof -
  have m: "1 \<le> m" "m \<le> 12" using assms(1) by simp_all
  have "clock_gregorian2utc y m d = jdn (y, m, d)"
  proof (cases "m \<le> 2")
    case True
    have "s32 (1461 * (y + 4800 + - 1)) = 1461 * (y + 4800 + - 1)" "s32 (367 * (m + 10)) = 367 * (m + 10)"
      "s32 (y + 4900 + - 1) = y + 4900 + - 1" "s32 (3 * ((y - 1 + 4900) div 100)) = 3 * ((y - 1 + 4900) div 100)"
      using assms(2,3) m True by simp_all
    moreover have "(1461 * (y + 4800 + - 1)) sdiv 4 = 1461 * (y - 1 + 4800) div 4" "(367 * (m + 10)) sdiv 12 = 367 * (m + 10) div 12"
      "(y + 4900 + - 1) sdiv 100 = (y - 1 + 4900) div 100" "(3 * ((y - 1 + 4900) div 100)) sdiv 4 = 3 * ((y - 1 + 4900) div 100) div 4"
      using assms(2) m by (simp_all add: sdiv_nonneg pos_imp_zdiv_nonneg_iff algebra_simps)
    moreover have "m - 2 - 12 * - 1 = m + 10" by simp
    ultimately have "clock_gregorian2utc y m d = to_time_t (jdn (y, m, d))"
      unfolding clock_gregorian2utc_def Let_def if_P [OF True] by (simp add: True ystart_def algebra_simps)
    then show ?thesis using assms(4,5) by (simp add: to_time_t_def)
  next
    case False
    have "s32 (1461 * (y + 4800 + 0)) sdiv 4 = 1461 * (y + 4800) div 4" "s32 (367 * (m - 2 - 12 * 0)) sdiv 12 = 367 * (m - 2) div 12"
      "s32 (y + 4900 + 0) sdiv 100 = (y + 4900) div 100" "s32 (3 * ((y + 4900) div 100)) sdiv 4 = 3 * ((y + 4900) div 100) div 4"
      using assms(2,3) m False by (simp_all add: sdiv_nonneg pos_imp_zdiv_nonneg_iff)
    then have "clock_gregorian2utc y m d = to_time_t (jdn (y, m, d))"
      unfolding clock_gregorian2utc_def Let_def if_not_P [OF False] by (simp add: False ystart_def algebra_simps)
    then show ?thesis using assms(4,5) by (simp add: to_time_t_def)
  qed
  moreover have "(m - 1) sdiv 12 = 0" using m by (simp add: sdiv_nonneg)
  ultimately show ?thesis using m assms(2-5) by (simp add: clock_calendar2utc_def Let_def to_time_t_def)
qed

subsection \<open>The simple variant\<close>

lemma year_loop_ok:
  assumes "0 \<le> days" "year_loop v days = (v', days', l)"
  shows "jan1 (1970 + v') + days' = jan1 (1970 + v) + days" "0 \<le> days'" "days' < (if l then 366 else 365)" "l = leap_year (1970 + v')" "v \<le> v'"
proof -
  have "jan1 (1970 + v') + days' = jan1 (1970 + v) + days \<and> 0 \<le> days' \<and> days' < (if l then 366 else 365) \<and> l = leap_year (1970 + v') \<and> v \<le> v'"
    using assms
  proof (induction v days rule: year_loop.induct)
    case (1 v days)
    let ?n = "if clock_isleapyear (v + 1970) then 366 else (365 :: int)"
    show ?case
    proof (cases "?n \<le> days")
      case True
      have "year_loop (v + 1) (days - ?n) = (v', days', l)" using 1(3) True by (subst (asm) year_loop.simps) (simp add: Let_def)
      then show ?thesis using 1(1) [OF refl refl True] True jan1_step [of "1970 + v"] by (auto simp add: isleapyear_eq add.commute add.left_commute)
    next
      case False
      then have "(v', days', l) = (v, days, clock_isleapyear (v + 1970))" using 1(3) by (subst (asm) year_loop.simps) (auto simp: Let_def)
      then show ?thesis using 1(2) False by (auto simp add: isleapyear_eq add.commute)
    qed
  qed
  then show "jan1 (1970 + v') + days' = jan1 (1970 + v) + days" "0 \<le> days'" "days' < (if l then 366 else 365)" "l = leap_year (1970 + v')" "v \<le> v'"
    by auto
qed

lemma month_loop_step:
  assumes "0 \<le> lo" "lo \<le> hi" "hi \<le> 11"
  defines "v \<equiv> (lo + hi) div 2"
  shows "month_loop days l lo hi =
    (if days_before (v + 1) l > days
     then if days_before v l > days then (if lo < v - 1 then month_loop days l lo (v - 1) else Some lo) else Some v
     else if v + 1 < hi then month_loop days l (v + 1) hi else Some (v + 1))"
proof -
  have v: "0 \<le> v" "v \<le> 11" using assms by (simp_all add: v_def)
  then have B: "clock_daysbeforemonth v l = Some (days_before v l)" "clock_daysbeforemonth (v + 1) l = Some (days_before (v + 1) l)"
    by (simp_all add: daysbeforemonth_eq)
  show ?thesis
    by (subst month_loop.simps) (simp add: v_def [symmetric] B Let_def)
qed

lemma month_loop_ok:
  assumes "0 \<le> lo" "lo \<le> hi" "hi \<le> 11" "days_before lo (leap_year y) \<le> days" "days < days_before (hi + 1) (leap_year y)"
  shows "\<exists>m. month_loop days (leap_year y) lo hi = Some m \<and> 0 \<le> m \<and> m \<le> 11 \<and> days_before m (leap_year y) \<le> days \<and> days < days_before (m + 1) (leap_year y)"
  using assms
proof (induction "nat (hi - lo)" arbitrary: lo hi rule: less_induct)
  case less
  let ?l = "leap_year y"
  define v where "v = (lo + hi) div 2"
  have v: "lo \<le> v" "v \<le> hi" "0 \<le> v" "v \<le> 11" using less.prems by (simp_all add: v_def)
  note S = month_loop_step [OF less.prems(1-3), of days ?l, folded v_def]
  consider "days_before (v + 1) ?l \<le> days" | "days < days_before (v + 1) ?l" "days < days_before v ?l" | "days < days_before (v + 1) ?l" "days_before v ?l \<le> days"
    by linarith
  then show ?case
  proof cases
    case 1
    then have h: "v < hi" using less.prems(5) v by (cases "v = hi") auto
    show ?thesis
    proof (cases "v + 1 < hi")
      case True
      then show ?thesis using less.hyps [of hi "v + 1"] 1 v less.prems S by simp
    next
      case False
      then have "hi = v + 1" using h by simp
      then show ?thesis using 1 v less.prems S by simp
    qed
  next
    case 2
    then have h: "lo < v" using less.prems(4) v by (cases "v = lo") auto
    show ?thesis
    proof (cases "lo < v - 1")
      case True
      then show ?thesis using less.hyps [of "v - 1" lo] 2 v less.prems S by simp
    next
      case False
      then have "v = lo + 1" using h by simp
      then show ?thesis using 2 v less.prems S by simp
    qed
  next
    case 3
    then show ?thesis using S v by simp
  qed
qed

text \<open>Until 2100 every fourth year is a leap year.\<close>

lemma leap_years_2100:
  "\<forall>v\<in>set (map int [0..<32]). leap_year (1970 + 4 * v + 2) \<and> \<not> leap_year (1970 + 4 * v) \<and> \<not> leap_year (1970 + 4 * v + 1) \<and> \<not> leap_year (1970 + 4 * v + 3)"
  by code_simp

lemma jan1_four:
  assumes "0 \<le> v" "v \<le> 32"
  shows "jan1 (1970 + 4 * v) = JD_OF_EPOCH + 1461 * v"
  using assms
proof (induction v rule: int_ge_induct)
  case base
  show ?case by (simp add: jan1_def ystart_def)
next
  case (step v)
  have l: "leap_year (1970 + 4 * v + 2)" "\<not> leap_year (1970 + 4 * v)" "\<not> leap_year (1970 + 4 * v + 1)" "\<not> leap_year (1970 + 4 * v + 3)"
  proof -
    have "v \<in> set (map int [0..<32])" using step.prems step.hyps by (auto simp: image_iff intro!: bexI [of _ "nat v"])
    from leap_years_2100 [rule_format, OF this]
    show "leap_year (1970 + 4 * v + 2)" "\<not> leap_year (1970 + 4 * v)" "\<not> leap_year (1970 + 4 * v + 1)" "\<not> leap_year (1970 + 4 * v + 3)" by blast+
  qed
  then show ?case using step jan1_step [of "1970 + 4 * v"] jan1_step [of "1970 + 4 * v + 1"] jan1_step [of "1970 + 4 * v + 2"] jan1_step [of "1970 + 4 * v + 3"]
    by (simp add: algebra_simps)
qed

lemma utc2calendar_ok:
  assumes "n < 1461 * 33"
  shows "clock_utc2calendar (int n) = Some (date_after n)"
proof -
  define v where "v = int n div 1461"
  have v: "0 \<le> v" "v \<le> 32" using assms by (simp_all add: v_def)
  obtain v' days l where y: "year_loop (4 * v) (int n - v * 1461) = (v', days, l)" by (metis prod_cases3)
  have "0 \<le> int n - v * 1461" by (simp add: v_def minus_mult_div_eq_mod mult.commute)
  note Y = year_loop_ok [OF this y]
  have d: "jan1 (1970 + v') + days = JD_OF_EPOCH + int n" using Y(1) jan1_four [OF v] by simp
  obtain m where m: "month_loop days l 0 11 = Some m" "0 \<le> m" "m \<le> 11" "days_before m l \<le> days" "days < days_before (m + 1) l"
    using month_loop_ok [of 0 11 "1970 + v'" days] Y(2-4) days_before_ends by auto
  let ?D = "(1970 + v', m + 1, days - days_before m l + 1)"
  have "clock_utc2calendar (int n) = Some ?D"
    using y m(1-3) by (simp add: clock_utc2calendar_def v_def [symmetric] daysbeforemonth_eq Let_def)
  moreover have "valid_date ?D" using m Y(4) days_before_step [of "m + 1" "1970 + v'"] by simp
  moreover have "jdn ?D = JD_OF_EPOCH + int n" using jdn_eq [of "m + 1" "1970 + v'"] m(2,3) Y(4) d by simp
  ultimately show ?thesis using date_after_eqI by simp
qed

end
