(* ===== verification/Calendar_Props.thy ===== *)
theory Calendar_Props
  imports Calendar_Greg
begin

section \<open>What the time conversions guarantee\<close>

text \<open>
  The conversions agree with the calendar, and \<open>mktime\<close> inverts \<open>gmtime_r\<close>; two theorems show where the default variant and the Julian variant go wrong.
\<close>

text \<open>
  C32: The Gregorian conversion and the default one agree with the calendar: day \<open>n\<close> after the epoch is the date reached from January 1, 1970 in \<open>n\<close> steps from one
  day to the next, with the leap years of the Gregorian calendar. The default conversion, which counts every fourth year as a leap year, agrees for the first 1461 * 33 days, up to
  January 1, 2102; the Gregorian one as long as four times its day number fits in a signed 32-bit \<open>long\<close>, for about 534 million days. The days of a 32-bit \<open>time_t\<close> are fewer than 50000.
\<close>

theorem calendar_agrees:
  "(int n + JD_OF_EPOCH + 68569 < 2 ^ 29 \<longrightarrow> utc2calendar_gregorian False (int n) = Some (date_after n)) \<and>
   (n < 1461 * 33 \<longrightarrow> clock_utc2calendar (int n) = Some (date_after n))"
  using utc2calendar_gregorian_eq utc2calendar_ok by simp

theorem calendar_agrees_witness:
  "utc2calendar_gregorian False 60 = Some (1970, 3, 2) \<and> clock_utc2calendar 60 = Some (1970, 3, 2)"
proof -
  have "date_after 60 = (1970, 3, 2)" by code_simp
  then show ?thesis using calendar_agrees [of 60] by simp
qed

lemma to_time_t_id: "0 \<le> x \<and> x < 2 ^ 32 \<Longrightarrow> to_time_t x = x"
  by (simp add: to_time_t_def)

text \<open>The parts of a time of day.\<close>

lemma time_of_day:
  fixes t :: int
  assumes "0 \<le> t"
  shows "((t div 86400 * 24 + (t - 86400 * (t div 86400)) div 3600) * 60 +
      (t - 86400 * (t div 86400) - 3600 * ((t - 86400 * (t div 86400)) div 3600)) div 60) * 60 +
      (t - 86400 * (t div 86400) - 3600 * ((t - 86400 * (t div 86400)) div 3600) -
       60 * ((t - 86400 * (t div 86400) - 3600 * ((t - 86400 * (t div 86400)) div 3600)) div 60)) = t"
  by (simp add: algebra_simps)

lemma date_after_year: "date_after n = (y, m, d) \<Longrightarrow> 1970 \<le> y"
proof -
  assume D: "date_after n = (y, m, d)"
  have "jan1 1970 \<le> jdn (y, m, d)" using date_after_jdn(2) [of n] unfolding D by (simp add: jan1_def ystart_def)
  then have "\<not> y + 1 \<le> 1970" using jdn_range(2) [of y m d] date_after_jdn(1) [of n] jan1_mono [of "y + 1" 1970] unfolding D by auto
  then show ?thesis by simp
qed

lemma date_after_year_le:
  assumes "date_after n = (y, m, d)" "int n < 49711"
  shows "y \<le> 2106"
proof (rule ccontr)
  assume "\<not> y \<le> 2106"
  then have "jan1 2107 \<le> jan1 y" by (intro jan1_mono) simp
  moreover have "jan1 2107 = JD_OF_EPOCH + 50038" by (simp add: jan1_def ystart_def)
  ultimately show False using jdn_range(1) [of y m d] date_after_jdn [of n] assms by simp
qed

text \<open>
  C33: The Gregorian \<open>mktime\<close> inverts \<open>gmtime_r\<close> on every \<open>time_t\<close>.
\<close>

theorem mktime_gmtime_gregorian:
  assumes "0 \<le> t" and "t < 2 ^ 32"
  shows "\<exists>tm. gmtime_r (utc2calendar_gregorian False) t = Some tm \<and> mktime_gregorian False tm = t"
proof -
  define n where "n = nat (t div 86400)"
  have n: "int n = t div 86400" using assms by (simp add: n_def)
  have b: "int n < 49711" using assms n by simp
  obtain y m d where D: "date_after n = (y, m, d)" by (cases "date_after n")
  have j: "jdn (y, m, d) = JD_OF_EPOCH + int n" "valid_date (y, m, d)" using date_after_jdn [of n] unfolding D by simp_all
  have u: "utc2calendar_gregorian False (t div 86400) = Some (y, m, d)" using utc2calendar_gregorian_eq [of n] b n D by simp
  have c: "clock_calendar2utc False y m d = t div 86400"
    using calendar2utc_ok [OF j(2)] j(1) date_after_year [OF D] date_after_year_le [OF D b] b n by simp
  have "s32 y = y" "s32 m = m" using date_after_year [OF D] date_after_year_le [OF D b] j(2) by simp_all
  then show ?thesis
    using u c time_of_day [OF assms(1)] assms by (simp add: gmtime_r_def Let_def mktime_gregorian_def to_time_t_def)
qed

theorem mktime_gmtime_gregorian_witness:
  "\<exists>tm. gmtime_r (utc2calendar_gregorian False) 1000000000 = Some tm \<and> mktime_gregorian False tm = 1000000000"
  using mktime_gmtime_gregorian [of 1000000000] by simp

lemma jan1_simple:
  assumes "1970 \<le> y" "y \<le> 2100"
  shows "jan1 y = JD_OF_EPOCH + (y - 1970) * 365 + (y - 1969) div 4"
  using assms
proof (induction y rule: int_ge_induct)
  case base
  show ?case by (simp add: jan1_def ystart_def)
next
  case (step y)
  have "100 dvd y \<longrightarrow> 400 dvd y"
  proof
    assume "100 dvd y"
    then obtain c where "y = 100 * c" by (auto simp: dvd_def)
    then have "y = 2000" using step.hyps step.prems by simp
    then show "400 dvd y" by simp
  qed
  then have "leap_year y \<longleftrightarrow> 4 dvd y" by (auto simp: leap_year_def)
  moreover have "(y + 1 - 1969) div 4 = (y - 1969) div 4 + (if 4 dvd y then 1 else 0)" by presburger
  ultimately show ?case using step jan1_step [of y] by simp
qed

text \<open>
  The default \<open>mktime\<close> inverts the default \<open>gmtime_r\<close> on every time before the year 2101; the month it reads from the table is always in range.
\<close>

theorem mktime_gmtime:
  assumes "0 \<le> t" and "t < 47847 * 86400"
  shows "\<exists>tm. gmtime_r clock_utc2calendar t = Some tm \<and> mktime tm = Some t"
proof -
  define n where "n = nat (t div 86400)"
  have n: "int n = t div 86400" using assms by (simp add: n_def)
  have b: "int n < 47847" using assms n by simp
  obtain y m d where D: "date_after n = (y, m, d)" by (cases "date_after n")
  have j: "jdn (y, m, d) = JD_OF_EPOCH + int n" "valid_date (y, m, d)" using date_after_jdn [of n] unfolding D by simp_all
  have m: "1 \<le> m" "m \<le> 12" "1 \<le> d" using j(2) by simp_all
  have u: "clock_utc2calendar (t div 86400) = Some (y, m, d)" using utc2calendar_ok [of n] b n D by simp
  have y: "1970 \<le> y" "y \<le> 2100"
  proof -
    show "1970 \<le> y" by (rule date_after_year [OF D])
    have "jan1 2101 = JD_OF_EPOCH + 47847" by (simp add: jan1_def ystart_def)
    then have "\<not> 2101 \<le> y" using jan1_mono [of 2101 y] jdn_range(1) [OF j(2)] j(1) b by auto
    then show "y \<le> 2100" by simp
  qed
  have k: "int n = (y - 1970) * 365 + (y - 1969) div 4 + days_before (m - 1) (leap_year y) + d - 1"
    using j(1) jdn_eq [OF m(1,2), of y d] jan1_simple [OF y] by simp
  define A Q L where "A = (y - 1970) * 365" and "Q = (y - 1969) div 4" and "L = days_before (m - 1) (leap_year y)"
  have "0 \<le> L" "0 \<le> Q" "0 \<le> A"
    using days_before_mono [of 0 "m - 1" y] m days_before_ends(1) y by (simp_all add: A_def Q_def L_def)
  moreover have "A + Q + L + (d - 1) < 47847" using k b by (simp add: A_def Q_def L_def)
  ultimately have z: "0 \<le> (y - 1970) * 365 \<and> (y - 1970) * 365 < 2 ^ 32"
    "0 \<le> (y - 1970) * 365 + (y - 1969) div 4 \<and> (y - 1970) * 365 + (y - 1969) div 4 < 2 ^ 32"
     "0 \<le> (y - 1970) * 365 + (y - 1969) div 4 + days_before (m - 1) (leap_year y) \<and> (y - 1970) * 365 + (y - 1969) div 4 + days_before (m - 1) (leap_year y) < 2 ^ 32"
    using m(3) unfolding A_def [symmetric] Q_def [symmetric] L_def [symmetric] by auto
  have e: "((y - 1970) * 365 + (y - 1969) div 4 + days_before (m - 1) (leap_year y)) + (d - 1) = t div 86400" using k n by linarith
  have r: "0 \<le> t div 86400 \<and> t div 86400 < 2 ^ 32" using n b by simp
  let ?tm = "\<lambda>s mi h. \<lparr>tm_sec = s, tm_min = mi, tm_hour = h, tm_mday = d, tm_mon = m - 1, tm_year = y - 1900\<rparr>"
  have B: "clock_daysbeforemonth (m - 1) (clock_isleapyear y) = Some (days_before (m - 1) (leap_year y))" using m by (simp add: daysbeforemonth_eq isleapyear_eq)
  have mk: "mktime (?tm s mi h) = Some (to_time_t (((t div 86400 * 24 + h) * 60 + mi) * 60 + s))" for s mi h
  proof -
    have "y - 1900 - 70 = y - 1970" "s32 (y - 1900 - 69) = y - 1969" "s32 (y - 1900 + 1900) = y" using y by simp_all
    then show ?thesis unfolding mktime_def by (simp only: tm.simps Let_def to_time_t_id z r e B bind.bind_lunit option.inject)
  qed
  show ?thesis
    using u time_of_day [OF assms(1)] assms by (simp add: gmtime_r_def Let_def mk to_time_t_id)
qed

theorem mktime_gmtime_witness: "\<exists>tm. gmtime_r clock_utc2calendar 1000000000 = Some tm \<and> mktime tm = Some 1000000000"
  using mktime_gmtime [of 1000000000] by simp

text \<open>
  The default conversions take 2100 for a leap year: \<open>mktime\<close> is a day late for all of 2101, and \<open>gmtime_r\<close> gives January 1, 2102 twice.
\<close>

theorem mktime_late_2101:
  "gmtime_r clock_utc2calendar (47847 * 86400) = Some \<lparr>tm_sec = 0, tm_min = 0, tm_hour = 0, tm_mday = 1, tm_mon = 0, tm_year = 201\<rparr> \<and>
   mktime \<lparr>tm_sec = 0, tm_min = 0, tm_hour = 0, tm_mday = 1, tm_mon = 0, tm_year = 201\<rparr> = Some (47848 * 86400) \<and>
   clock_utc2calendar 48212 = Some (2102, 1, 1) \<and> clock_utc2calendar 48213 = Some (2102, 1, 1)"
  by code_simp

text \<open>
  With the Julian calendar enabled the unsigned comparison puts every time of a 32-bit \<open>time_t\<close> before October 1582, so that the epoch is converted to December 19, 1969.
\<close>

theorem julian_epoch:
  "gmtime_r (utc2calendar_gregorian True) 0 = Some \<lparr>tm_sec = 0, tm_min = 0, tm_hour = 0, tm_mday = 19, tm_mon = 11, tm_year = 69\<rparr>"
  by code_simp

end
