(* ===== verification/Crc_Props.thy ===== *)
theory Crc_Props
  imports Crc
begin

section \<open>What the CRC guarantees\<close>

text \<open>
  The step with the table is eight serial steps, each of which is linear and injective. So the CRC is the remainder that the serial definition computes, and two messages that differ within four bytes have different CRCs.
\<close>

subsection \<open>The serial step is linear and injective\<close>

lemma crc_bit_xor: "crc_bit (a XOR b) = crc_bit a XOR crc_bit b"
  by (auto simp: crc_bit_def bit_xor_iff drop_bit_xor ac_simps xor_self_eq)

lemma crc_bit_0: "crc_bit x = 0 \<longleftrightarrow> x = 0"
proof
  assume z: "crc_bit x = 0"
  have e: "\<not> bit x 0"
  proof
    assume "bit x 0"
    then have "drop_bit 1 x XOR 0xedb88320 = 0" using z by (simp add: crc_bit_def)
    then have "bit (drop_bit 1 x XOR 0xedb88320) 31 = bit (0 :: 32 word) 31" by simp
    moreover have "bit (0xedb88320 :: 32 word) 31" by code_simp
    moreover have "\<not> bit (drop_bit 1 x) 31" by (auto simp: bit_drop_bit_eq dest: bit_imp_le_length)
    ultimately show False by (simp add: bit_xor_iff)
  qed
  then have "drop_bit 1 x = 0" using z by (simp add: crc_bit_def)
  then have "\<not> bit x (Suc n)" for n using bit_drop_bit_eq [of 1 x] by (auto simp: fun_eq_iff)
  then have "\<not> bit x n" for n using e by (cases n) simp_all
  then show "x = 0" by (intro bit_eqI) simp
qed (simp add: crc_bit_def)

lemma crc_bits_xor: "(crc_bit ^^ n) (a XOR b) = (crc_bit ^^ n) a XOR (crc_bit ^^ n) b"
  by (induction n) (simp_all add: crc_bit_xor)

lemma crc_bits_0: "(crc_bit ^^ n) x = 0 \<longleftrightarrow> x = 0"
  by (induction n) (simp_all add: crc_bit_0)

lemma xor_cancel: "a XOR b = a XOR c \<Longrightarrow> b = (c :: 32 word)"
proof -
  assume "a XOR b = a XOR c"
  then have "a XOR (a XOR b) = a XOR (a XOR c)" by simp
  then show ?thesis by (simp flip: xor.assoc)
qed

lemma crc_bit_inj: "crc_bit a = crc_bit b \<Longrightarrow> a = b"
proof -
  assume "crc_bit a = crc_bit b"
  then have "crc_bit (a XOR b) = 0" by (simp add: crc_bit_xor)
  then show ?thesis using xor_cancel [of b a b] by (simp add: crc_bit_0 ac_simps)
qed

lemma crc_bits_inj: "(crc_bit ^^ n) a = (crc_bit ^^ n) b \<Longrightarrow> a = b"
  by (induction n) (auto dest: crc_bit_inj)

text \<open>Zero bits are shifted out.\<close>

lemma crc_bits_shift: "(\<And>i. i < n \<Longrightarrow> \<not> bit x i) \<Longrightarrow> (crc_bit ^^ n) x = drop_bit n x"
proof (induction n arbitrary: x)
  case (Suc n)
  have "crc_bit x = drop_bit 1 x" using Suc.prems [of 0] by (simp add: crc_bit_def)
  moreover have "(crc_bit ^^ n) (drop_bit 1 x) = drop_bit n (drop_bit 1 x)"
    by (rule Suc.IH) (use Suc.prems in \<open>simp add: bit_drop_bit_eq\<close>)
  ultimately show ?case by (simp add: funpow_swap1)
qed simp

subsection \<open>The table\<close>

lemma crc_table_ok_nth:
  "crc_table_ok xs ys \<Longrightarrow> 2 * j + 1 < length ys \<Longrightarrow> crc_bit (ys ! (2 * j)) = xs ! j \<and> ys ! (2 * j + 1) = ys ! (2 * j) XOR 0x77073096"
proof (induction xs ys arbitrary: j rule: crc_table_ok.induct)
  case (1 x xs a b ys)
  then show ?case by (cases j) auto
qed auto

lemma crc_bit_double: "j < 128 \<Longrightarrow> crc_bit (of_nat (2 * j)) = of_nat j"
proof -
  assume j: "j < 128"
  have "\<not> bit (of_nat (2 * j) :: 32 word) 0" by (simp add: bit_0)
  moreover have "drop_bit 1 (of_nat (2 * j) :: 32 word) = of_nat j"
  proof (rule word_unat_eq_iff [THEN iffD2])
    have "unat (of_nat k :: 32 word) = k" if "k < 256" for k using that by (simp add: unat_of_nat)
    from this [of j] this [of "2 * j"] show "unat (drop_bit 1 (of_nat (2 * j) :: 32 word)) = unat (of_nat j :: 32 word)"
      using j by (simp only: unat_drop_bit_eq) (simp add: drop_bit_eq_div)
  qed
  ultimately show ?thesis by (simp add: crc_bit_def)
qed

lemma length_crc32_tab: "length crc32_tab = 256"
  by (simp add: crc32_tab_def)

lemma crc_table: "i < 256 \<Longrightarrow> crc32_tab ! i = (crc_bit ^^ 8) (of_nat i)"
proof (induction i rule: less_induct)
  case (less i)
  have T1: "(crc_bit ^^ 8) 1 = 0x77073096" by code_simp
  have E: "crc32_tab ! (2 * j) = (crc_bit ^^ 8) (of_nat (2 * j))" if "2 * j \<le> i" for j
  proof (cases "j = 0")
    case True
    then show ?thesis by (simp add: crc32_tab_def crc_bits_0 flip: funpow_swap1)
  next
    case False
    have j: "j < 128" "j < i" using that less.prems False by auto
    have "crc_bit (crc32_tab ! (2 * j)) = (crc_bit ^^ 8) (of_nat j)"
      using crc_table_ok_nth [OF crc_table_checked, of j] less.IH [of j] j length_crc32_tab by simp
    also have "\<dots> = (crc_bit ^^ 8) (crc_bit (of_nat (2 * j)))" using crc_bit_double [OF j(1)] by simp
    also have "\<dots> = crc_bit ((crc_bit ^^ 8) (of_nat (2 * j)))" by (rule funpow_swap1 [symmetric])
    finally show ?thesis by (rule crc_bit_inj)
  qed
  show ?case
  proof (cases "even i")
    case True
    then obtain j where "i = 2 * j" by blast
    then show ?thesis using E [of j] by simp
  next
    case False
    then obtain j where j: "i = 2 * j + 1" by (auto elim: oddE)
    have "crc32_tab ! i = crc32_tab ! (2 * j) XOR 0x77073096"
      using crc_table_ok_nth [OF crc_table_checked, of j] j less.prems length_crc32_tab by simp
    also have "\<dots> = (crc_bit ^^ 8) (of_nat (2 * j)) XOR (crc_bit ^^ 8) 1" using E [of j] j T1 by simp
    also have "\<dots> = (crc_bit ^^ 8) (of_nat (2 * j) XOR 1)" by (simp add: crc_bits_xor)
    also have "of_nat (2 * j) XOR 1 = (of_nat i :: 32 word)" using j by (simp add: xor_one_eq)
    finally show ?thesis .
  qed
qed

text \<open>A step by the table is eight serial steps.\<close>

lemma crc32_step_eq: "crc32_step b c = crc_byte b c"
proof -
  let ?x = "c XOR ucast b :: 32 word"
  let ?l = "?x AND mask 8"
  let ?h = "?x AND NOT (mask 8)"
  have m: "(0xff :: 32 word) = mask 8" by (simp add: mask_eq_exp_minus_1)
  have x: "?x = ?l XOR ?h" by (rule bit_eqI) (simp only: bit_and_iff bit_xor_iff bit_not_iff, blast)
  have "?l = take_bit 8 ?x" by (simp add: take_bit_eq_mask)
  then have "unat ?l = take_bit 8 (unat ?x)" by transfer (simp add: nat_take_bit_eq take_bit_nat_eq)
  then have "unat ?l < 256" using take_bit_nat_less_exp [of 8 "unat ?x"] by simp
  then have "crc32_tab ! unat ?l = (crc_bit ^^ 8) ?l" using crc_table [of "unat ?l"] by simp
  moreover have "(crc_bit ^^ 8) ?h = drop_bit 8 ?h"
    by (rule crc_bits_shift) (simp add: bit_and_iff bit_not_iff bit_mask_iff)
  moreover have "drop_bit 8 ?h = drop_bit 8 c"
    by (rule bit_eqI) (auto simp: bit_drop_bit_eq bit_and_iff bit_not_iff bit_mask_iff bit_xor_iff bit_ucast_iff dest: bit_imp_le_length)
  ultimately show ?thesis unfolding crc32_step_def crc_byte_def m by (subst (2) x) (simp add: crc_bits_xor)
qed

lemma crc32part_fold: "len \<le> length src \<Longrightarrow> crc32part src len c = fold crc_byte (take len src) c"
proof (induction src len c rule: crc32part.induct)
  case (2 src len c)
  then show ?case by (cases src) (simp_all add: crc32_step_eq)
qed simp

text \<open>
  C34: The table-driven computation equals the serial one, bit by bit with the reflected CRC-32 polynomial: every entry of the table is right.
\<close>

theorem crc32_serial:
  assumes "len \<le> length src"
  shows "crc32part src len c = fold crc_byte (take len src) c"
  by (rule crc32part_fold [OF assms])

theorem crc32_serial_witness: "crc32part [0x31, 0x32] 2 0xffffffff = fold crc_byte [0x31, 0x32] 0xffffffff"
  using crc32_serial [of 2 "[0x31, 0x32]"] by simp

subsection \<open>Detection of errors\<close>

fun pack :: "8 word list \<Rightarrow> 32 word" where
  "pack [] = 0"
| "pack (b # bs) = ucast b XOR push_bit 8 (pack bs)"

lemma bit_pack_Cons: "bit (pack (b # bs)) n \<longleftrightarrow> (if n < 8 then bit b n else n < 32 \<and> bit (pack bs) (n - 8))"
  by (auto simp: bit_xor_iff bit_ucast_iff bit_push_bit_iff dest: bit_imp_le_length)

lemma bit_pack: "bit (pack bs) n \<Longrightarrow> n < 8 * length bs"
proof (induction bs arbitrary: n)
  case (Cons b bs)
  show ?case
  proof (cases "n < 8")
    case False
    then have "bit (pack bs) (n - 8)" using Cons.prems by (simp only: bit_pack_Cons if_False)
    then show ?thesis using Cons.IH [of "n - 8"] by simp
  qed simp
qed simp

lemma pack_inj:
  "length u = length v \<Longrightarrow> length u \<le> 4 \<Longrightarrow> pack u = pack v \<Longrightarrow> u = v"
proof (induction u v rule: list_induct2)
  case (Cons a as b bs)
  have e: "bit (pack (a # as)) n \<longleftrightarrow> bit (pack (b # bs)) n" for n using Cons.prems(2) by (simp only:)
  have "bit a n \<longleftrightarrow> bit b n" if "n < 8" for n using e [of n] that unfolding bit_pack_Cons by simp
  then have "a = b" by (intro bit_eqI) simp_all
  moreover have "bit (pack as) n \<longleftrightarrow> bit (pack bs) n" for n
  proof (cases "n < 24")
    case True
    then show ?thesis using e [of "n + 8"] unfolding bit_pack_Cons by simp
  next
    case False
    then show ?thesis using bit_pack [of as n] bit_pack [of bs n] Cons.prems(1) Cons.hyps by auto
  qed
  then have "pack as = pack bs" by (rule bit_eqI)
  then have "as = bs" using Cons.IH Cons.prems(1) by simp
  ultimately show ?case by (simp only:)
qed simp

lemma fold_crc_pack: "length bs \<le> 4 \<Longrightarrow> fold crc_byte bs c = (crc_bit ^^ (8 * length bs)) (c XOR pack bs)"
proof (induction bs arbitrary: c)
  case (Cons b bs)
  let ?p = "pack bs"
  have "(crc_bit ^^ 8) (push_bit 8 ?p) = drop_bit 8 (push_bit 8 ?p)" by (rule crc_bits_shift) (simp add: bit_push_bit_iff)
  also have "\<dots> = ?p"
  proof (rule bit_eqI)
    fix n
    show "bit (drop_bit 8 (push_bit 8 ?p)) n \<longleftrightarrow> bit ?p n"
      using bit_pack [of bs n] Cons.prems by (auto simp: bit_drop_bit_eq bit_push_bit_iff)
  qed
  finally have s: "(crc_bit ^^ 8) (push_bit 8 ?p) = ?p" .
  have "fold crc_byte (b # bs) c = (crc_bit ^^ (8 * length bs)) ((crc_bit ^^ 8) (c XOR ucast b) XOR ?p)"
    using Cons.IH Cons.prems by (simp add: crc_byte_def [of b])
  also have "(crc_bit ^^ 8) (c XOR ucast b) XOR ?p = (crc_bit ^^ 8) (c XOR pack (b # bs))"
    by (simp add: crc_bits_xor s xor.assoc)
  finally show ?case using funpow_add [of "8 * length bs" 8 crc_bit] by (simp add: ac_simps)
qed simp

lemma fold_crc_inj: "fold crc_byte bs c = fold crc_byte bs c' \<Longrightarrow> c = c'"
proof (induction bs arbitrary: c c')
  case (Cons b bs)
  then have "crc_byte b c = crc_byte b c'" by simp
  then have "c XOR ucast b = c' XOR ucast b" unfolding crc_byte_def by (rule crc_bits_inj)
  then show ?case using xor_cancel [of "ucast b" c c'] by (simp add: ac_simps)
qed simp

text \<open>
  The CRC detects every error burst of up to 32 bits: two messages that differ only within four consecutive bytes have different check sums, whatever the
  initial value.
\<close>

theorem crc32_burst:
  assumes "length u = length v" and "length u \<le> 4" and "u \<noteq> v"
  shows "crc32part (p @ u @ s) (length (p @ u @ s)) c \<noteq> crc32part (p @ v @ s) (length (p @ v @ s)) c"
proof
  assume e: "crc32part (p @ u @ s) (length (p @ u @ s)) c = crc32part (p @ v @ s) (length (p @ v @ s)) c"
  have t: "crc32part m (length m) c = fold crc_byte m c" for m by (simp add: crc32part_fold)
  let ?c = "fold crc_byte p c"
  have "fold crc_byte u ?c = fold crc_byte v ?c" using e unfolding t by (simp add: fold_crc_inj)
  then have "?c XOR pack u = ?c XOR pack v" using assms(1,2) by (simp add: fold_crc_pack) (rule crc_bits_inj)
  then have "pack u = pack v" by (rule xor_cancel)
  then show False using pack_inj assms by blast
qed

theorem crc32_burst_witness:
  "crc32part ([1] @ [2, 3] @ [4]) (length ([1] @ [2, 3] @ [4 :: 8 word])) 0 \<noteq> crc32part ([1] @ [2, 5] @ [4]) (length ([1] @ [2, 5] @ [4 :: 8 word])) 0"
  by (rule crc32_burst) simp_all

end
