(* ===== verification/Qsort.thy ===== *)
theory Qsort
  imports "HOL-Library.Multiset"
begin

section \<open>Sorting an array\<close>

text \<open>
  \<open>qsort\<close> of \<open>lib/stdlib/lib_qsort.c\<close>: quicksort with a three-way partition that collects the elements equal to the pivot at both ends, the
  pseudo-median of nine as pivot, and insertion sort for short arrays and for arrays that the partition left unchanged. The array is the list of its elements and a
  pointer into it is the index of an element; exchanging two elements byte by byte or word by word, which depends on size and alignment, is the exchange of the list's elements.
  The comparison function is an argument.
\<close>

type_synonym 'a cmp = "'a \<Rightarrow> 'a \<Rightarrow> int"

definition swap :: "nat \<Rightarrow> nat \<Rightarrow> 'a list \<Rightarrow> 'a list" where
  "swap a b xs = xs[a := xs ! b, b := xs ! a]"

fun vecswap :: "nat \<Rightarrow> nat \<Rightarrow> nat \<Rightarrow> 'a list \<Rightarrow> 'a list" where
  "vecswap a b 0 xs = xs"
| "vecswap a b (Suc n) xs = vecswap (a + 1) (b + 1) n (swap a b xs)"

definition med3 :: "'a cmp \<Rightarrow> 'a list \<Rightarrow> nat \<Rightarrow> nat \<Rightarrow> nat \<Rightarrow> nat" where
  "med3 compar xs a b c =
     (if compar (xs ! a) (xs ! b) < 0
      then (if compar (xs ! b) (xs ! c) < 0 then b else if compar (xs ! a) (xs ! c) < 0 then c else a)
      else (if compar (xs ! b) (xs ! c) > 0 then b else if compar (xs ! a) (xs ! c) < 0 then a else c))"

subsection \<open>Insertion sort\<close>

fun insert_loop :: "'a cmp \<Rightarrow> nat \<Rightarrow> nat \<Rightarrow> 'a list \<Rightarrow> 'a list" where
  "insert_loop compar base 0 xs = xs"
| "insert_loop compar base (Suc pl) xs =
     (if Suc pl > base \<and> compar (xs ! pl) (xs ! Suc pl) > 0 then insert_loop compar base pl (swap (Suc pl) pl xs) else xs)"

function insertion_sort :: "'a cmp \<Rightarrow> nat \<Rightarrow> nat \<Rightarrow> nat \<Rightarrow> 'a list \<Rightarrow> 'a list" where
  "insertion_sort compar base stop pm xs =
     (if pm < stop then insertion_sort compar base stop (pm + 1) (insert_loop compar base pm xs) else xs)"
  by pat_completeness auto
termination by (relation "measure (\<lambda>(_, _, stop, pm, _). stop - pm)") auto

declare insertion_sort.simps [simp del]

subsection \<open>Partition\<close>

definition choose_pivot :: "'a cmp \<Rightarrow> nat \<Rightarrow> nat \<Rightarrow> 'a list \<Rightarrow> nat" where
  "choose_pivot compar base nmemb xs =
     (let pm = base + nmemb div 2
      in if nmemb > 7
         then let pl = base;
                  pn = base + (nmemb - 1);
                  (pl, pm, pn) =
                    (if nmemb > 40
                     then let d = nmemb div 8
                          in (med3 compar xs pl (pl + d) (pl + 2 * d), med3 compar xs (pm - d) pm (pm + d), med3 compar xs (pn - 2 * d) (pn - d) pn)
                     else (pl, pm, pn))
              in med3 compar xs pl pm pn
         else pm)"

text \<open>
  The two inner loops; the flag is \<open>swap_cnt\<close>. The test \<open>0 < pc\<close> only makes the recursion total: in a partition \<open>pb\<close> is greater than \<open>base\<close>, so that it follows from
  \<open>pb \<le> pc\<close>.
\<close>

function left_loop :: "'a cmp \<Rightarrow> nat \<Rightarrow> nat \<Rightarrow> nat \<Rightarrow> nat \<Rightarrow> bool \<Rightarrow> 'a list \<Rightarrow> nat \<times> nat \<times> bool \<times> 'a list" where
  "left_loop compar base pc pa pb swapped xs =
     (if pb \<le> pc \<and> compar (xs ! pb) (xs ! base) \<le> 0
      then if compar (xs ! pb) (xs ! base) = 0
           then left_loop compar base pc (pa + 1) (pb + 1) True (swap pa pb xs)
           else left_loop compar base pc pa (pb + 1) swapped xs
      else (pa, pb, swapped, xs))"
  by pat_completeness auto
termination by (relation "measure (\<lambda>(_, _, pc, _, pb, _, _). Suc pc - pb)") auto

function right_loop :: "'a cmp \<Rightarrow> nat \<Rightarrow> nat \<Rightarrow> nat \<Rightarrow> nat \<Rightarrow> bool \<Rightarrow> 'a list \<Rightarrow> nat \<times> nat \<times> bool \<times> 'a list" where
  "right_loop compar base pb pc pd swapped xs =
     (if pb \<le> pc \<and> 0 < pc \<and> compar (xs ! pc) (xs ! base) \<ge> 0
      then if compar (xs ! pc) (xs ! base) = 0
           then right_loop compar base pb (pc - 1) (pd - 1) True (swap pc pd xs)
           else right_loop compar base pb (pc - 1) pd swapped xs
      else (pc, pd, swapped, xs))"
  by pat_completeness auto
termination by (relation "measure (\<lambda>(_, _, _, pc, _, _, _). pc)") auto

declare left_loop.simps [simp del] right_loop.simps [simp del]

lemma left_loop_mono: "left_loop compar base pc pa pb swapped xs = (pa', pb', sw', xs') \<Longrightarrow> pb \<le> pb'"
proof (induction compar base pc pa pb swapped xs rule: left_loop.induct)
  case (1 compar base pc pa pb swapped xs)
  then show ?case by (subst (asm) left_loop.simps) (fastforce split: if_splits)
qed

lemma right_loop_mono: "right_loop compar base pb pc pd swapped xs = (pc', pd', sw', xs') \<Longrightarrow> pc' \<le> pc"
proof (induction compar base pb pc pd swapped xs rule: right_loop.induct)
  case (1 compar base pb pc pd swapped xs)
  then show ?case by (subst (asm) right_loop.simps) (fastforce split: if_splits)
qed

function partition_loop :: "'a cmp \<Rightarrow> nat \<Rightarrow> nat \<Rightarrow> nat \<Rightarrow> nat \<Rightarrow> nat \<Rightarrow> bool \<Rightarrow> 'a list \<Rightarrow> nat \<times> nat \<times> nat \<times> nat \<times> bool \<times> 'a list" where
  "partition_loop compar base pa pb pc pd swapped xs =
     (case left_loop compar base pc pa pb swapped xs of (pa, pb, swapped, xs) \<Rightarrow>
      case right_loop compar base pb pc pd swapped xs of (pc, pd, swapped, xs) \<Rightarrow>
        if pb > pc then (pa, pb, pc, pd, swapped, xs)
        else partition_loop compar base pa (pb + 1) (pc - 1) pd True (swap pb pc xs))"
  by pat_completeness auto
termination
  by (relation "measure (\<lambda>(_, _, _, pb, pc, _, _, _). Suc pc - pb)")
     (auto dest!: left_loop_mono [OF sym] right_loop_mono [OF sym])

declare partition_loop.simps [simp del]

subsection \<open>Quicksort\<close>

text \<open>The exchange of the elements that equal the pivot with those next to the middle.\<close>

definition gather_equal :: "nat \<Rightarrow> nat \<Rightarrow> nat \<Rightarrow> nat \<Rightarrow> nat \<Rightarrow> nat \<Rightarrow> 'a list \<Rightarrow> 'a list" where
  "gather_equal base pn pa pb pc pd xs =
     (let r = (if pa - base < pb - pa then pa - base else pb - pa);
          xs = vecswap base (pb - r) r xs;
          r = (if pd - pc < pn - pd - 1 then pd - pc else pn - pd - 1)
      in vecswap pb (pn - r) r xs)"

definition qsort_partition :: "'a cmp \<Rightarrow> nat \<Rightarrow> nat \<Rightarrow> 'a list \<Rightarrow> nat \<times> nat \<times> nat \<times> nat \<times> bool \<times> 'a list" where
  "qsort_partition compar base nmemb xs =
     partition_loop compar base (base + 1) (base + 1) (base + (nmemb - 1)) (base + (nmemb - 1)) False
       (swap base (choose_pivot compar base nmemb xs) xs)"

text \<open>The indices stay in the array, so that both parts are shorter than it.\<close>

lemma left_loop_bounds:
  "left_loop compar base pc pa pb swapped xs = (pa', pb', sw', xs') \<Longrightarrow> pb \<le> N \<Longrightarrow> pc < N \<Longrightarrow> pa \<le> pa' \<and> pb' \<le> N"
proof (induction compar base pc pa pb swapped xs rule: left_loop.induct)
  case (1 compar base pc pa pb swapped xs)
  then show ?case by (subst (asm) (3) left_loop.simps) (fastforce split: if_splits)
qed

lemma right_loop_bounds:
  "right_loop compar base pb pc pd swapped xs = (pc', pd', sw', xs') \<Longrightarrow> base < pb \<Longrightarrow> base \<le> pc \<Longrightarrow> base \<le> pc' \<and> pd' \<le> pd"
proof (induction compar base pb pc pd swapped xs rule: right_loop.induct)
  case (1 compar base pb pc pd swapped xs)
  then show ?case by (subst (asm) (3) right_loop.simps) (fastforce split: if_splits)
qed

lemma partition_loop_bounds:
  "partition_loop compar base pa pb pc pd swapped xs = (pa', pb', pc', pd', sw', xs') \<Longrightarrow> base < pb \<Longrightarrow> base \<le> pc \<Longrightarrow> pb \<le> N \<Longrightarrow> pc < N \<Longrightarrow>
   pa \<le> pa' \<and> pb' \<le> N \<and> base \<le> pc' \<and> pd' \<le> pd"
proof (induction compar base pa pb pc pd swapped xs rule: partition_loop.induct)
  case (1 compar base pa pb pc pd swapped xs)
  obtain pa1 pb1 s1 xs1 where l: "left_loop compar base pc pa pb swapped xs = (pa1, pb1, s1, xs1)" by (metis prod_cases4)
  obtain pc2 pd2 s2 xs2 where r: "right_loop compar base pb1 pc pd s1 xs1 = (pc2, pd2, s2, xs2)" by (metis prod_cases4)
  have L: "pa \<le> pa1" "pb1 \<le> N" "pb \<le> pb1" using left_loop_bounds [OF l] left_loop_mono [OF l] 1(3-6) by simp_all
  have R: "base \<le> pc2" "pd2 \<le> pd" "pc2 \<le> pc" using right_loop_bounds [OF r] right_loop_mono [OF r] L 1(3-6) by simp_all
  note e = 1(2) [unfolded partition_loop.simps [of compar base pa pb] l r prod.case]
  show ?case
  proof (cases "pb1 > pc2")
    case True
    then show ?thesis using e L R by simp
  next
    case False
    have "partition_loop compar base pa1 (pb1 + 1) (pc2 - 1) pd2 True (swap pb1 pc2 xs2) = (pa', pb', pc', pd', sw', xs')" using e False by simp
    from 1(1) [OF l [symmetric] refl refl r [symmetric] refl refl False this] have "base \<le> pc2 - 1 \<Longrightarrow> pc2 - 1 < N \<Longrightarrow> ?thesis"
      using L R False 1(3-6) by auto
    then show ?thesis using L R False 1(3-6) by simp
  qed
qed

lemma partition_bounds:
  assumes "qsort_partition compar base nmemb xs = (pa, pb, pc, pd, sw, xs')" "0 < nmemb"
  shows "pb - pa < nmemb \<and> pd - pc < nmemb"
  using partition_loop_bounds [of compar base "base + 1" "base + 1" "base + (nmemb - 1)" "base + (nmemb - 1)" False _ pa pb pc pd sw xs' "base + nmemb"]
    assms unfolding qsort_partition_def by fastforce

function qsort :: "'a cmp \<Rightarrow> nat \<Rightarrow> nat \<Rightarrow> 'a list \<Rightarrow> 'a list" where
  "qsort compar base nmemb xs =
     (if nmemb < 7 then insertion_sort compar base (base + nmemb) (base + 1) xs
      else case qsort_partition compar base nmemb xs of (pa, pb, pc, pd, swapped, xs) \<Rightarrow>
        if \<not> swapped then insertion_sort compar base (base + nmemb) (base + 1) xs
        else
          let pn = base + nmemb;
              xs = gather_equal base pn pa pb pc pd xs;
              xs = (if pb - pa > 1 then qsort compar base (pb - pa) xs else xs)
          in if pd - pc > 1 then qsort compar (pn - (pd - pc)) (pd - pc) xs else xs)"
  by pat_completeness auto
termination
  by (relation "measure (\<lambda>(_, _, nmemb, _). nmemb)") (auto dest!: partition_bounds [OF sym])

declare qsort.simps [simp del]

end
