(* ===== verification/Qsort_Props.thy ===== *)
theory Qsort_Props
  imports Qsort
begin

section \<open>The array is sorted\<close>

text \<open>
  Each loop of \<open>qsort\<close> permutes a part of the array (\<open>perm_on\<close>) and keeps its invariant: the partition collects the elements below, equal to and above the pivot, \<open>gather_equal\<close> moves the equal ones to the middle, and the
  two recursive calls sort the rest.
\<close>

subsection \<open>Rearranging a part of an array\<close>

definition perm_on :: "nat \<Rightarrow> nat \<Rightarrow> 'a list \<Rightarrow> 'a list \<Rightarrow> bool" where
  "perm_on lo hi xs ys \<longleftrightarrow> length ys = length xs \<and> mset ys = mset xs \<and> (\<forall>i. i < lo \<or> hi \<le> i \<longrightarrow> ys ! i = xs ! i) \<and>
     (\<forall>i. lo \<le> i \<and> i < hi \<longrightarrow> (\<exists>j. lo \<le> j \<and> j < hi \<and> ys ! i = xs ! j))"

lemma perm_on_refl [simp]: "perm_on lo hi xs xs"
  by (auto simp: perm_on_def)

lemma perm_on_trans: "perm_on lo hi xs ys \<Longrightarrow> perm_on lo hi ys zs \<Longrightarrow> perm_on lo hi xs zs"
  unfolding perm_on_def by metis

lemma perm_on_mono: "perm_on lo hi xs ys \<Longrightarrow> lo' \<le> lo \<Longrightarrow> hi \<le> hi' \<Longrightarrow> perm_on lo' hi' xs ys"
  unfolding perm_on_def by (metis le_trans linorder_not_le order_less_le_trans)

lemma perm_on_length: "perm_on lo hi xs ys \<Longrightarrow> length ys = length xs"
  by (simp add: perm_on_def)

lemma perm_on_outside: "perm_on lo hi xs ys \<Longrightarrow> i < lo \<or> hi \<le> i \<Longrightarrow> ys ! i = xs ! i"
  by (auto simp: perm_on_def)

lemma perm_on_all: "perm_on lo hi xs ys \<Longrightarrow> (\<And>i. lo \<le> i \<Longrightarrow> i < hi \<Longrightarrow> P (xs ! i)) \<Longrightarrow> lo \<le> i \<Longrightarrow> i < hi \<Longrightarrow> P (ys ! i)"
  unfolding perm_on_def by metis

lemma length_swap [simp]: "length (swap a b xs) = length xs"
  by (simp add: swap_def)

lemma swap_nth: "a < length xs \<Longrightarrow> b < length xs \<Longrightarrow> swap a b xs ! i = (if i = a then xs ! b else if i = b then xs ! a else xs ! i)"
  by (auto simp: swap_def nth_list_update)

lemma perm_on_swap:
  assumes "lo \<le> a" "a < hi" "lo \<le> b" "b < hi" "hi \<le> length xs"
  shows "perm_on lo hi xs (swap a b xs)"
proof -
  have "mset (swap a b xs) = mset xs" using assms by (simp add: swap_def mset_swap)
  moreover have "swap a b xs ! i = (if i = a then xs ! b else if i = b then xs ! a else xs ! i)" for i using assms by (simp add: swap_nth)
  ultimately show ?thesis using assms by (auto simp: perm_on_def)
qed

definition total_preorder :: "'a cmp \<Rightarrow> bool" where
  "total_preorder compar \<longleftrightarrow> (\<forall>x y. compar x y < 0 \<longleftrightarrow> compar y x > 0) \<and> (\<forall>x y z. compar x y \<le> 0 \<longrightarrow> compar y z \<le> 0 \<longrightarrow> compar x z \<le> 0)"

lemma total_preorderD:
  assumes "total_preorder compar"
  shows "compar x y < 0 \<longleftrightarrow> compar y x > 0" "compar x y \<le> 0 \<Longrightarrow> compar y z \<le> 0 \<Longrightarrow> compar x z \<le> 0" "compar x y = 0 \<longleftrightarrow> compar y x = 0"
    "compar x y \<le> 0 \<longleftrightarrow> compar y x \<ge> 0" "compar x x = 0"
proof -
  have a: "compar x y < 0 \<longleftrightarrow> compar y x > 0" for x y using assms by (simp add: total_preorder_def)
  show "compar x y < 0 \<longleftrightarrow> compar y x > 0" by (rule a)
  show "compar x y \<le> 0 \<Longrightarrow> compar y z \<le> 0 \<Longrightarrow> compar x z \<le> 0" using assms by (auto simp: total_preorder_def)
  show "compar x y = 0 \<longleftrightarrow> compar y x = 0" using a [of x y] a [of y x] by linarith
  show "compar x y \<le> 0 \<longleftrightarrow> compar y x \<ge> 0" using a [of x y] a [of y x] by linarith
  show "compar x x = 0" using a [of x x] by linarith
qed

definition sorted_on :: "'a cmp \<Rightarrow> nat \<Rightarrow> nat \<Rightarrow> 'a list \<Rightarrow> bool" where
  "sorted_on compar lo hi xs \<longleftrightarrow> (\<forall>i j. lo \<le> i \<and> i < j \<and> j < hi \<longrightarrow> compar (xs ! i) (xs ! j) \<le> 0)"

lemma sorted_on_short: "hi \<le> lo + 1 \<Longrightarrow> sorted_on compar lo hi xs"
  by (auto simp: sorted_on_def)

subsection \<open>Insertion sort\<close>

lemma insert_loop_perm: "pl < hi \<Longrightarrow> hi \<le> length xs \<Longrightarrow> perm_on base hi xs (insert_loop compar base pl xs)"
proof (induction compar base pl xs rule: insert_loop.induct)
  case (2 compar base pl xs)
  show ?case
  proof (cases "Suc pl > base \<and> compar (xs ! pl) (xs ! Suc pl) > 0")
    case True
    then have "perm_on base hi xs (swap (Suc pl) pl xs)" using 2(2,3) by (intro perm_on_swap) auto
    then show ?thesis using 2(1) [OF True] 2(2,3) True by (auto intro: perm_on_trans)
  next
    case False
    then show ?thesis by auto
  qed
qed simp

lemma insert_loop_sorts:
  assumes c: "total_preorder compar"
  shows "base \<le> pl \<Longrightarrow> pl \<le> pm \<Longrightarrow> pm < length xs \<Longrightarrow>
    (\<And>i j. base \<le> i \<Longrightarrow> i < j \<Longrightarrow> j \<le> pm \<Longrightarrow> i \<noteq> pl \<Longrightarrow> j \<noteq> pl \<Longrightarrow> compar (xs ! i) (xs ! j) \<le> 0) \<Longrightarrow>
    (\<And>j. pl < j \<Longrightarrow> j \<le> pm \<Longrightarrow> compar (xs ! pl) (xs ! j) \<le> 0) \<Longrightarrow> sorted_on compar base (Suc pm) (insert_loop compar base pl xs)"
proof (induction pl arbitrary: xs)
  case 0
  have "compar (xs ! i) (xs ! j) \<le> 0" if "base \<le> i" "i < j" "j < Suc pm" for i j
    using 0(4) [of i j] 0(5) [of j] that by (cases "i = 0") auto
  then show ?case by (simp add: sorted_on_def)
next
  case (Suc pl)
  note P = total_preorderD [OF c]
  show ?case
  proof (cases "Suc pl > base \<and> compar (xs ! pl) (xs ! Suc pl) > 0")
    case True
    let ?ys = "swap (Suc pl) pl xs"
    have n: "?ys ! i = (if i = Suc pl then xs ! pl else if i = pl then xs ! Suc pl else xs ! i)" for i
      using Suc.prems by (simp add: swap_nth)
    have "sorted_on compar base (Suc pm) (insert_loop compar base pl ?ys)"
    proof (rule Suc.IH)
      fix i j
      assume "base \<le> i" "i < j" "j \<le> pm" "i \<noteq> pl" "j \<noteq> pl"
      then show "compar (?ys ! i) (?ys ! j) \<le> 0"
        using Suc.prems(4) [of i j] Suc.prems(4) [of pl j] Suc.prems(4) [of i pl] True unfolding n by auto
    next
      fix j
      assume "pl < j" "j \<le> pm"
      then show "compar (?ys ! pl) (?ys ! j) \<le> 0"
        using Suc.prems(5) [of j] True P(1) [of "xs ! Suc pl" "xs ! pl"] unfolding n by (cases "j = Suc pl") auto
    qed (use Suc.prems True in auto)
    then show ?thesis using True by simp
  next
    case False
    have "compar (xs ! i) (xs ! j) \<le> 0" if ij: "base \<le> i" "i < j" "j < Suc pm" for i j
    proof -
      consider "i \<noteq> Suc pl" "j \<noteq> Suc pl" | "i = Suc pl" | "j = Suc pl" "i < pl" | "j = Suc pl" "i = pl" using ij by linarith
      then show ?thesis
      proof cases
        case 3
        then have "compar (xs ! i) (xs ! pl) \<le> 0" "compar (xs ! pl) (xs ! Suc pl) \<le> 0" using Suc.prems(2) Suc.prems(4) [of i pl] ij False by auto
        then show ?thesis using P(2) 3 by blast
      qed (use Suc.prems(4) [of i j] Suc.prems(5) [of j] ij False in auto)
    qed
    then show ?thesis using False by (auto simp: sorted_on_def)
  qed
qed

lemma insertion_sort_ok:
  assumes "total_preorder compar" "stop \<le> length xs" "base < pm" "sorted_on compar base pm xs"
  shows "perm_on base stop xs (insertion_sort compar base stop pm xs)" "sorted_on compar base stop (insertion_sort compar base stop pm xs)"
proof -
  have "perm_on base stop xs (insertion_sort compar base stop pm xs) \<and> sorted_on compar base stop (insertion_sort compar base stop pm xs)"
    using assms(2-4)
  proof (induction "stop - pm" arbitrary: pm xs)
    case 0
    then show ?case by (subst (1 2) insertion_sort.simps) (auto simp: sorted_on_def)
  next
    case (Suc d)
    let ?ys = "insert_loop compar base pm xs"
    have p: "perm_on base stop xs ?ys" using Suc.prems Suc.hyps(2) by (intro insert_loop_perm) auto
    have "sorted_on compar base (Suc pm) ?ys"
      by (rule insert_loop_sorts [OF assms(1)]) (use Suc.prems Suc.hyps(2) in \<open>auto simp: sorted_on_def\<close>)
    then show ?case
      using Suc.hyps(1) [of "Suc pm" ?ys] Suc.hyps(2) Suc.prems p perm_on_length [OF p]
      by (subst (1 2) insertion_sort.simps) (auto intro: perm_on_trans)
  qed
  then show "perm_on base stop xs (insertion_sort compar base stop pm xs)" "sorted_on compar base stop (insertion_sort compar base stop pm xs)" by simp_all
qed

subsection \<open>Partition\<close>

text \<open>The pivot is at \<open>base\<close>: equal elements below \<open>pa\<close> and above \<open>pd\<close>, smaller ones from \<open>pa\<close>, greater ones up to \<open>pd\<close>, unknown ones between.\<close>

definition part_inv :: "'a cmp \<Rightarrow> nat \<Rightarrow> nat \<Rightarrow> nat \<Rightarrow> nat \<Rightarrow> nat \<Rightarrow> nat \<Rightarrow> 'a list \<Rightarrow> bool" where
  "part_inv compar base N pa pb pc pd xs \<longleftrightarrow> base < pa \<and> pa \<le> pb \<and> pb \<le> Suc pc \<and> pc \<le> pd \<and> pd < N \<and> N \<le> length xs \<and>
     (\<forall>i. base \<le> i \<and> i < pa \<longrightarrow> compar (xs ! i) (xs ! base) = 0) \<and> (\<forall>i. pa \<le> i \<and> i < pb \<longrightarrow> compar (xs ! i) (xs ! base) < 0) \<and>
     (\<forall>i. pc < i \<and> i \<le> pd \<longrightarrow> compar (xs ! i) (xs ! base) > 0) \<and> (\<forall>i. pd < i \<and> i < N \<longrightarrow> compar (xs ! i) (xs ! base) = 0)"

lemma left_loop_inv:
  assumes "left_loop compar base pc pa pb swapped xs = (pa', pb', sw', xs')" "part_inv compar base N pa pb pc pd xs"
  shows "part_inv compar base N pa' pb' pc pd xs' \<and> perm_on base N xs xs' \<and> (pb' \<le> pc \<longrightarrow> compar (xs' ! pb') (xs' ! base) > 0)"
  using assms
proof (induction compar base pc pa pb swapped xs rule: left_loop.induct)
  case (1 compar base pc pa pb swapped xs)
  note I = 1(4) [unfolded part_inv_def]
  consider "\<not> (pb \<le> pc \<and> compar (xs ! pb) (xs ! base) \<le> 0)" | "pb \<le> pc" "compar (xs ! pb) (xs ! base) < 0" | "pb \<le> pc" "compar (xs ! pb) (xs ! base) = 0"
    by linarith
  then show ?case
  proof cases
    case 1
    then show ?thesis using \<open>left_loop compar base pc pa pb swapped xs = _\<close> \<open>part_inv _ _ _ _ _ _ _ xs\<close> by (subst (asm) left_loop.simps) auto
  next
    case 2
    have "part_inv compar base N pa (pb + 1) pc pd xs" unfolding part_inv_def using I 2 by (auto simp: less_Suc_eq)
    then show ?thesis using 1(2) 2 1(3) by (subst (asm) (2) left_loop.simps) auto
  next
    case 3
    let ?ys = "swap pa pb xs"
    have n: "?ys ! i = (if i = pa then xs ! pb else if i = pb then xs ! pa else xs ! i)" for i using I 3 by (auto simp: swap_nth)
    have "part_inv compar base N (pa + 1) (pb + 1) pc pd ?ys" unfolding part_inv_def n using I 3 by (auto simp: less_Suc_eq)
    moreover have "perm_on base N xs ?ys" by (rule perm_on_swap) (use I 3 in auto)
    ultimately show ?thesis using 1(1) 3 1(3) by (subst (asm) (2) left_loop.simps) (auto intro: perm_on_trans)
  qed
qed

lemma right_loop_inv:
  assumes "right_loop compar base pb pc pd swapped xs = (pc', pd', sw', xs')" "part_inv compar base N pa pb pc pd xs"
  shows "part_inv compar base N pa pb pc' pd' xs' \<and> perm_on base N xs xs' \<and> (pb \<le> pc' \<longrightarrow> compar (xs' ! pc') (xs' ! base) < 0 \<and> xs' ! pb = xs ! pb \<and> xs' ! base = xs ! base)"
  using assms
proof (induction compar base pb pc pd swapped xs rule: right_loop.induct)
  case (1 compar base pb pc pd swapped xs)
  note I = 1(4) [unfolded part_inv_def]
  have z: "pb \<le> pc \<Longrightarrow> 0 < pc" using I by auto
  consider "\<not> (pb \<le> pc \<and> compar (xs ! pc) (xs ! base) \<ge> 0)" | "pb \<le> pc" "compar (xs ! pc) (xs ! base) > 0" | "pb \<le> pc" "compar (xs ! pc) (xs ! base) = 0"
    by linarith
  then show ?case
  proof cases
    case 1
    then show ?thesis using \<open>right_loop compar base pb pc pd swapped xs = _\<close> \<open>part_inv _ _ _ _ _ _ _ xs\<close> z by (subst (asm) right_loop.simps) auto
  next
    case 2
    obtain c where c: "pc = Suc c" using z 2 by (cases pc) auto
    have "part_inv compar base N pa pb c pd xs" unfolding part_inv_def
    proof (intro conjI allI impI)
      fix i
      assume "c < i \<and> i \<le> pd"
      then have "i = pc \<or> pc < i \<and> i \<le> pd" using c by auto
      then show "compar (xs ! i) (xs ! base) > 0" using I 2 by blast
    qed (use I 2 c in auto)
    moreover have "right_loop compar base pb c pd swapped xs = (pc', pd', sw', xs')"
      using 1(3) 2 c by (subst (asm) right_loop.simps) simp
    ultimately show ?thesis using 1(2) 2 c by auto
  next
    case 3
    let ?ys = "swap pc pd xs"
    obtain c d where c: "pc = Suc c" "pd = Suc d" using z 3 I by (cases pc; cases pd) auto
    have n: "?ys ! i = (if i = pc then xs ! pd else if i = pd then xs ! pc else xs ! i)" for i using I 3 by (auto simp: swap_nth)
    have ys: "?ys ! base = xs ! base" using n [of base] I 3 by auto
    have "part_inv compar base N pa pb c d ?ys" unfolding part_inv_def ys
    proof (intro conjI allI impI)
      fix i
      assume "c < i \<and> i \<le> d"
      then have "i = pc \<and> pc < pd \<or> pc < i \<and> i < pd" using c by auto
      then show "compar (?ys ! i) (xs ! base) > 0" using I unfolding n by auto
    next
      fix i
      assume "d < i \<and> i < N"
      then have "i = pd \<or> pd < i \<and> i < N" using c by auto
      then show "compar (?ys ! i) (xs ! base) = 0" using I 3 unfolding n by auto
    next
      fix i
      assume "base \<le> i \<and> i < pa"
      moreover from this have "i \<noteq> pc" "i \<noteq> pd" using I 3 by auto
      ultimately show "compar (?ys ! i) (xs ! base) = 0" using I unfolding n by simp
    next
      fix i
      assume "pa \<le> i \<and> i < pb"
      moreover from this have "i \<noteq> pc" "i \<noteq> pd" using I 3 by auto
      ultimately show "compar (?ys ! i) (xs ! base) < 0" using I unfolding n by simp
    qed (use I 3 c in auto)
    moreover have "perm_on base N xs ?ys" by (rule perm_on_swap) (use I 3 in auto)
    moreover have "right_loop compar base pb c d True ?ys = (pc', pd', sw', xs')"
      using 1(3) 3 c by (subst (asm) right_loop.simps) simp
    moreover have "?ys ! pb = xs ! pb" if "pb \<le> pc'"
    proof -
      have "pc' \<le> c" by (rule right_loop_mono) fact
      then show ?thesis using that c I n [of pb] by auto
    qed
    ultimately show ?thesis using 1(1) 3 c ys by (auto intro: perm_on_trans)
  qed
qed

lemma partition_loop_inv:
  assumes "partition_loop compar base pa pb pc pd swapped xs = (pa', pb', pc', pd', sw', xs')" "part_inv compar base N pa pb pc pd xs"
  shows "part_inv compar base N pa' pb' pc' pd' xs' \<and> perm_on base N xs xs' \<and> pb' = Suc pc'"
  using assms
proof (induction compar base pa pb pc pd swapped xs rule: partition_loop.induct)
  case (1 compar base pa pb pc pd swapped xs)
  obtain pa1 pb1 s1 xs1 where l: "left_loop compar base pc pa pb swapped xs = (pa1, pb1, s1, xs1)" by (metis prod_cases4)
  obtain pc2 pd2 s2 xs2 where r: "right_loop compar base pb1 pc pd s1 xs1 = (pc2, pd2, s2, xs2)" by (metis prod_cases4)
  have L: "part_inv compar base N pa1 pb1 pc pd xs1" "perm_on base N xs xs1" "pb1 \<le> pc \<Longrightarrow> compar (xs1 ! pb1) (xs1 ! base) > 0"
    using left_loop_inv [OF l 1(3)] by simp_all
  have R: "part_inv compar base N pa1 pb1 pc2 pd2 xs2" "perm_on base N xs1 xs2"
    "pb1 \<le> pc2 \<Longrightarrow> compar (xs2 ! pc2) (xs2 ! base) < 0 \<and> xs2 ! pb1 = xs1 ! pb1 \<and> xs2 ! base = xs1 ! base"
    using right_loop_inv [OF r L(1)] by auto
  note e = 1(2) [unfolded partition_loop.simps [of compar base pa pb] l r prod.case]
  have p: "perm_on base N xs xs2" using L(2) R(2) by (rule perm_on_trans)
  show ?case
  proof (cases "pb1 > pc2")
    case True
    then have "pb1 = Suc pc2" using R(1) by (simp add: part_inv_def)
    then show ?thesis using e True R(1) p by auto
  next
    case False
    have mono: "pc2 \<le> pc" by (rule right_loop_mono [OF r])
    have g: "compar (xs2 ! pc2) (xs2 ! base) < 0" "compar (xs2 ! pb1) (xs2 ! base) > 0" using False L(3) R(3) mono by auto
    then have lt: "pb1 < pc2" using False by (cases "pb1 = pc2") auto
    let ?ys = "swap pb1 pc2 xs2"
    note I = R(1) [unfolded part_inv_def]
    have n: "?ys ! i = (if i = pb1 then xs2 ! pc2 else if i = pc2 then xs2 ! pb1 else xs2 ! i)" for i using I lt by (auto simp: swap_nth)
    obtain c where c: "pc2 = Suc c" using lt by (cases pc2) auto
    have ys: "?ys ! base = xs2 ! base" using n [of base] I lt by auto
    have "part_inv compar base N pa1 (pb1 + 1) c pd2 ?ys" unfolding part_inv_def ys
    proof (intro conjI allI impI)
      fix i
      assume "c < i \<and> i \<le> pd2"
      then have "i = pc2 \<or> pc2 < i \<and> i \<le> pd2" using c by auto
      then show "compar (?ys ! i) (xs2 ! base) > 0" using I g lt unfolding n by auto
    next
      fix i
      assume "pa1 \<le> i \<and> i < pb1 + 1"
      then have "i = pb1 \<or> pa1 \<le> i \<and> i < pb1" by auto
      then show "compar (?ys ! i) (xs2 ! base) < 0" using I g lt unfolding n by auto
    next
      fix i
      assume "base \<le> i \<and> i < pa1"
      then show "compar (?ys ! i) (xs2 ! base) = 0" using I lt unfolding n by auto
    next
      fix i
      assume "pd2 < i \<and> i < N"
      then show "compar (?ys ! i) (xs2 ! base) = 0" using I lt unfolding n by auto
    qed (use I lt c in auto)
    moreover have "perm_on base N xs2 ?ys" by (rule perm_on_swap) (use I lt in auto)
    moreover have "partition_loop compar base pa1 (pb1 + 1) (pc2 - 1) pd2 True ?ys = (pa', pb', pc', pd', sw', xs')" using e False by simp
    moreover note 1(1) [OF l [symmetric] refl refl r [symmetric] refl refl False]
    ultimately show ?thesis using p c by (auto intro: perm_on_trans)
  qed
qed

lemma med3_in: "a \<in> R \<Longrightarrow> b \<in> R \<Longrightarrow> c \<in> R \<Longrightarrow> med3 compar xs a b c \<in> R"
  by (simp add: med3_def)

lemma choose_pivot_in: "7 \<le> n \<Longrightarrow> choose_pivot compar base n xs \<in> {base..<base + n}"
  unfolding choose_pivot_def Let_def
  by (cases "n > 40"; cases "n > 7"; simp del: atLeastLessThan_iff; (intro med3_in)?; (unfold atLeastLessThan_iff)?; linarith?)

lemma partition_ok:
  assumes c: "total_preorder compar" and n: "7 \<le> n" "base + n \<le> length xs" and p: "qsort_partition compar base n xs = (pa, pb, pc, pd, sw, xs')"
  shows "part_inv compar base (base + n) pa pb pc pd xs'" "perm_on base (base + n) xs xs'" "pb = Suc pc"
proof -
  let ?p = "choose_pivot compar base n xs"
  let ?ys = "swap base ?p xs"
  have b: "base \<le> ?p" "?p < base + n" using choose_pivot_in [OF n(1), of compar base xs] by simp_all
  have s: "perm_on base (base + n) xs ?ys" by (rule perm_on_swap) (use b n in auto)
  have "part_inv compar base (base + n) (base + 1) (base + 1) (base + (n - 1)) (base + (n - 1)) ?ys"
    using n total_preorderD(5) [OF c] by (auto simp: part_inv_def less_Suc_eq)
  from partition_loop_inv [OF p [unfolded qsort_partition_def] this]
  show "part_inv compar base (base + n) pa pb pc pd xs'" "perm_on base (base + n) xs xs'" "pb = Suc pc"
    using s by (auto intro: perm_on_trans)
qed

text \<open>The exchange of two blocks that do not overlap.\<close>

lemma vecswap_nth:
  "a + n \<le> b \<Longrightarrow> b + n \<le> length xs \<Longrightarrow>
   vecswap a b n xs ! i = (if a \<le> i \<and> i < a + n then xs ! (i - a + b) else if b \<le> i \<and> i < b + n then xs ! (i - b + a) else xs ! i)"
proof (induction a b n xs rule: vecswap.induct)
  case (2 a b n xs)
  have n: "swap a b xs ! i = (if i = a then xs ! b else if i = b then xs ! a else xs ! i)" for i using 2(2,3) by (auto simp: swap_nth)
  have e: "vecswap a b (Suc n) xs ! i =
      (if a + 1 \<le> i \<and> i < a + 1 + n then swap a b xs ! (i - (a + 1) + (b + 1))
       else if b + 1 \<le> i \<and> i < b + 1 + n then swap a b xs ! (i - (b + 1) + (a + 1)) else swap a b xs ! i)"
    using 2(1) 2(2,3) by simp
  consider k where "i = a + 1 + k" "k < n" | k where "i = b + 1 + k" "k < n" | "i = a" | "i = b" | "i < a" | "a + 1 + n \<le> i" "i < b" | "b + 1 + n \<le> i"
    by (cases "i \<le> a"; cases "i < a + 1 + n"; cases "i \<le> b"; cases "i < b + 1 + n") (metis Suc_eq_plus1 Suc_leI add_less_cancel_left le_Suc_ex nat_less_le not_less)+
  then show ?case unfolding e n by cases (use 2(2,3) in auto)
qed auto

lemma vecswap_perm:
  "lo \<le> a \<Longrightarrow> a + n \<le> b \<Longrightarrow> b + n \<le> hi \<Longrightarrow> hi \<le> length xs \<Longrightarrow> perm_on lo hi xs (vecswap a b n xs)"
proof (induction a b n xs rule: vecswap.induct)
  case (2 a b n xs)
  have "perm_on lo hi xs (swap a b xs)" by (rule perm_on_swap) (use 2 in auto)
  then show ?case using 2 by (auto intro: perm_on_trans)
qed simp

text \<open>After the exchanges the smaller elements come first and the greater ones last.\<close>

definition three_parts :: "'a cmp \<Rightarrow> 'a \<Rightarrow> nat \<Rightarrow> nat \<Rightarrow> nat \<Rightarrow> nat \<Rightarrow> 'a list \<Rightarrow> bool" where
  "three_parts compar p base m1 m2 N xs \<longleftrightarrow> (\<forall>i. base \<le> i \<and> i < m1 \<longrightarrow> compar (xs ! i) p < 0) \<and>
     (\<forall>i. m1 \<le> i \<and> i < m2 \<longrightarrow> compar (xs ! i) p = 0) \<and> (\<forall>i. m2 \<le> i \<and> i < N \<longrightarrow> compar (xs ! i) p > 0)"

lemma gather_equal_ok:
  assumes I: "part_inv compar base N pa pb pc pd xs" and e: "pb = Suc pc"
  shows "perm_on base N xs (gather_equal base N pa pb pc pd xs)"
    "three_parts compar (xs ! base) base (base + (pb - pa)) (N - (pd - pc)) N (gather_equal base N pa pb pc pd xs)"
proof -
  note D = I [unfolded part_inv_def]
  let ?p = "xs ! base"
  define r where "r = (if pa - base < pb - pa then pa - base else pb - pa)"
  define s where "s = (if pd - pc < N - pd - 1 then pd - pc else N - pd - 1)"
  define ys where "ys = vecswap base (pb - r) r xs"
  define zs where "zs = vecswap pb (N - s) s ys"
  have g: "gather_equal base N pa pb pc pd xs = zs" by (simp only: gather_equal_def r_def s_def ys_def zs_def Let_def)
  have r: "r \<le> pa - base" "r \<le> pb - pa" "r = pa - base \<or> r = pb - pa" by (auto simp: r_def)
  have s: "s \<le> pd - pc" "s \<le> N - pd - 1" "s = pd - pc \<or> s = N - pd - 1" by (auto simp: s_def)
  have py: "perm_on base N xs ys" unfolding ys_def by (rule vecswap_perm) (use D r e in auto)
  have ly: "length ys = length xs" by (rule perm_on_length [OF py])
  have pz: "perm_on base N ys zs" unfolding zs_def by (rule vecswap_perm) (use D s e ly in auto)
  show "perm_on base N xs (gather_equal base N pa pb pc pd xs)" unfolding g by (rule perm_on_trans [OF py pz])
  have y: "ys ! i = (if base \<le> i \<and> i < base + r then xs ! (i - base + (pb - r)) else if pb - r \<le> i \<and> i < pb - r + r then xs ! (i - (pb - r) + base) else xs ! i)" for i
    unfolding ys_def by (rule vecswap_nth) (use D r e in auto)
  have z: "zs ! i = (if pb \<le> i \<and> i < pb + s then ys ! (i - pb + (N - s)) else if N - s \<le> i \<and> i < N - s + s then ys ! (i - (N - s) + pb) else ys ! i)" for i
    unfolding zs_def by (rule vecswap_nth) (use D s e ly in auto)
  have E1: "\<And>i. base \<le> i \<Longrightarrow> i < pa \<Longrightarrow> compar (xs ! i) ?p = 0" and L1: "\<And>i. pa \<le> i \<Longrightarrow> i < pb \<Longrightarrow> compar (xs ! i) ?p < 0"
    and G1: "\<And>i. pc < i \<Longrightarrow> i \<le> pd \<Longrightarrow> compar (xs ! i) ?p > 0" and E2: "\<And>i. pd < i \<Longrightarrow> i < N \<Longrightarrow> compar (xs ! i) ?p = 0"
    using D by blast+
  have yl: "compar (ys ! i) ?p < 0" if "base \<le> i" "i < base + (pb - pa)" for i
  proof (cases "i < base + r")
    case True
    then have "compar (xs ! (i - base + (pb - r))) ?p < 0" using that r D by (intro L1) auto
    then show ?thesis using y [of i] that True by simp
  next
    case False
    then have "\<not> (pb - r \<le> i)" "pa \<le> i" "i < pb" using that r D by auto
    then show ?thesis using y [of i] False L1 by simp
  qed
  have ye: "compar (ys ! i) ?p = 0" if "base + (pb - pa) \<le> i" "i < pb" for i
  proof (cases "pb - r \<le> i")
    case True
    then have "compar (xs ! (i - (pb - r) + base)) ?p = 0" using that r D by (intro E1) auto
    moreover have "\<not> i < base + r" "i < pb - r + r" using that r True D by auto
    ultimately show ?thesis using y [of i] True that by simp
  next
    case False
    then show ?thesis using y [of i] that E1 [of i] r D by auto
  qed
  have yg: "ys ! i = xs ! i" if "pb \<le> i" for i using y [of i] that r D by auto
  have zl: "zs ! i = ys ! i" if "i < pb" for i using z [of i] that s D e by auto
  have zg: "compar (zs ! i) ?p > 0" if "N - (pd - pc) \<le> i" "i < N" for i
  proof (cases "N - s \<le> i")
    case True
    then have "compar (xs ! (i - (N - s) + pb)) ?p > 0" using that s D e by (intro G1) auto
    moreover have "\<not> i < pb + s" "i < N - s + s" using that s True D e by auto
    ultimately show ?thesis using z [of i] True that yg [of "i - (N - s) + pb"] by simp
  next
    case False
    then have "pb + s \<le> i" "i \<le> pd" using that s D e by auto
    then show ?thesis using z [of i] False yg [of i] G1 [of i] e by simp
  qed
  have ze: "compar (zs ! i) ?p = 0" if "pb \<le> i" "i < N - (pd - pc)" for i
  proof (cases "i < pb + s")
    case True
    then have "compar (xs ! (i - pb + (N - s))) ?p = 0" using that s D e by (intro E2) auto
    moreover have "pb \<le> i - pb + (N - s)" using s D e by auto
    ultimately show ?thesis using z [of i] True that yg [of "i - pb + (N - s)"] by simp
  next
    case False
    then have "pd < i" "\<not> N - s \<le> i" using that s D e by auto
    then show ?thesis using z [of i] False that yg [of i] E2 [of i] by simp
  qed
  show "three_parts compar ?p base (base + (pb - pa)) (N - (pd - pc)) N (gather_equal base N pa pb pc pd xs)"
    unfolding three_parts_def g
  proof (intro conjI allI impI)
    fix i
    assume "base \<le> i \<and> i < base + (pb - pa)"
    moreover from this have "i < pb" using D by auto
    ultimately show "compar (zs ! i) ?p < 0" using zl [of i] yl [of i] by simp
  next
    fix i
    assume "base + (pb - pa) \<le> i \<and> i < N - (pd - pc)"
    then show "compar (zs ! i) ?p = 0" using zl [of i] ye [of i] ze [of i] by (cases "i < pb") simp_all
  next
    fix i
    assume "N - (pd - pc) \<le> i \<and> i < N"
    then show "compar (zs ! i) ?p > 0" using zg by simp
  qed
qed

lemma three_parts_perm:
  assumes "three_parts compar p base m1 m2 N xs" "m1 \<le> m2"
  shows "perm_on base m1 xs ys \<Longrightarrow> three_parts compar p base m1 m2 N ys" "perm_on m2 N xs ys \<Longrightarrow> three_parts compar p base m1 m2 N ys"
proof -
  note T = assms(1) [unfolded three_parts_def]
  show "three_parts compar p base m1 m2 N ys" if P: "perm_on base m1 xs ys"
  proof -
    have "compar (ys ! i) p < 0" if "base \<le> i" "i < m1" for i by (rule perm_on_all [OF P _ that]) (use T in auto)
    moreover have "ys ! i = xs ! i" if "m1 \<le> i" for i using perm_on_outside [OF P] that by simp
    ultimately show ?thesis using T assms(2) by (simp add: three_parts_def)
  qed
  show "three_parts compar p base m1 m2 N ys" if P: "perm_on m2 N xs ys"
  proof -
    have "compar (ys ! i) p > 0" if "m2 \<le> i" "i < N" for i by (rule perm_on_all [OF P _ that]) (use T in auto)
    moreover have "ys ! i = xs ! i" if "i < m2" for i using perm_on_outside [OF P] that by simp
    ultimately show ?thesis using T assms(2) by (simp add: three_parts_def)
  qed
qed

lemma three_parts_sorted:
  assumes c: "total_preorder compar" and T: "three_parts compar p base m1 m2 N xs" and m: "m1 \<le> m2"
    and s: "sorted_on compar base m1 xs" "sorted_on compar m2 N xs"
  shows "sorted_on compar base N xs"
  unfolding sorted_on_def
proof (intro allI impI)
  fix i j
  assume ij: "base \<le> i \<and> i < j \<and> j < N"
  note P = total_preorderD [OF c]
  note T = T [unfolded three_parts_def]
  have lo: "compar (xs ! i) p \<le> 0" if "i < m2" using that T ij by (cases "i < m1") (auto simp: order.strict_implies_order)
  have hi: "compar p (xs ! j) \<le> 0" if "m1 \<le> j" using that T ij P(3,4) by (cases "j < m2") (auto simp: order.strict_implies_order)
  consider "i < m2" "m1 \<le> j" | "j < m1" | "m2 \<le> i" by linarith
  then show "compar (xs ! i) (xs ! j) \<le> 0"
  proof cases
    case 1
    then show ?thesis using P(2) lo hi by blast
  next
    case 2
    then show ?thesis using s(1) ij by (simp add: sorted_on_def)
  next
    case 3
    then show ?thesis using s(2) ij by (simp add: sorted_on_def)
  qed
qed

lemma sort_part:
  assumes "1 < n \<Longrightarrow> perm_on lo (lo + n) xs (f xs) \<and> sorted_on compar lo (lo + n) (f xs)"
  defines "ys \<equiv> if n > 1 then f xs else xs"
  shows "perm_on lo (lo + n) xs ys" "sorted_on compar lo (lo + n) ys"
  using assms by (auto intro: sorted_on_short)

lemma qsort_ok:
  assumes "total_preorder compar"
  shows "base + n \<le> length xs \<Longrightarrow> perm_on base (base + n) xs (qsort compar base n xs) \<and> sorted_on compar base (base + n) (qsort compar base n xs)"
proof (induction n arbitrary: base xs rule: less_induct)
  case (less n)
  have ins: "perm_on base (base + n) ys (insertion_sort compar base (base + n) (base + 1) ys) \<and>
      sorted_on compar base (base + n) (insertion_sort compar base (base + n) (base + 1) ys)" if "length ys = length xs" for ys
    using insertion_sort_ok [OF assms, of "base + n" ys base "base + 1"] less.prems that by (simp add: sorted_on_short)
  show ?case
  proof (cases "n < 7")
    case True
    then show ?thesis using ins [of xs] by (subst (1 2) qsort.simps) simp
  next
    case False
    obtain pa pb pc pd sw xs1 where p: "qsort_partition compar base n xs = (pa, pb, pc, pd, sw, xs1)" by (metis prod_cases6)
    have 7: "7 \<le> n" using False by simp
    note P = partition_ok [OF assms 7 less.prems p]
    note B = partition_bounds [OF p]
    have l1: "length xs1 = length xs" by (rule perm_on_length [OF P(2)])
    show ?thesis
    proof (cases sw)
      case False
      then show ?thesis using ins [OF l1] P(2) p \<open>\<not> n < 7\<close> by (subst (1 2) qsort.simps) (auto intro: perm_on_trans)
    next
      case True
      define N where "N = base + n"
      define xs2 where "xs2 = gather_equal base N pa pb pc pd xs1"
      define m1 m2 where "m1 = base + (pb - pa)" and "m2 = N - (pd - pc)"
      note G = gather_equal_ok [OF P(1) P(3), folded N_def, folded xs2_def, folded m1_def m2_def]
      have m: "m1 \<le> m2" "m2 + (pd - pc) = N" "base \<le> m2" "m1 \<le> N" using P(1,3) unfolding part_inv_def m1_def m2_def N_def by auto
      have l2: "length xs2 = length xs" using perm_on_length [OF G(1)] l1 by simp
      define xs3 where "xs3 = (if pb - pa > 1 then qsort compar base (pb - pa) xs2 else xs2)"
      have L: "perm_on base m1 xs2 xs3" "sorted_on compar base m1 xs3"
        unfolding m1_def xs3_def by (rule sort_part, rule less.IH; use B 7 m less.prems l2 in \<open>simp add: m1_def N_def\<close>)+
      have l3: "length xs3 = length xs" using perm_on_length [OF L(1)] l2 by simp
      define xs4 where "xs4 = (if pd - pc > 1 then qsort compar m2 (pd - pc) xs3 else xs3)"
      have R: "perm_on m2 N xs3 xs4" "sorted_on compar m2 N xs4"
        unfolding m(2) [symmetric] xs4_def by (rule sort_part, rule less.IH; use B 7 m less.prems l3 in \<open>simp add: N_def\<close>)+
      have q: "qsort compar base n xs = xs4"
        using False p True by (subst qsort.simps) (simp add: Let_def N_def [symmetric] xs2_def [symmetric] m2_def [symmetric] xs3_def xs4_def)
      have T: "three_parts compar (xs1 ! base) base m1 m2 N xs4"
        by (rule three_parts_perm(2) [OF three_parts_perm(1) [OF G(2) m(1) L(1)] m(1) R(1)])
      have "sorted_on compar base m1 xs4"
        unfolding sorted_on_def
      proof (intro allI impI)
        fix i j
        assume "base \<le> i \<and> i < j \<and> j < m1"
        then show "compar (xs4 ! i) (xs4 ! j) \<le> 0" using L(2) perm_on_outside [OF R(1)] m(1) by (simp add: sorted_on_def)
      qed
      then have "sorted_on compar base N xs4" by (rule three_parts_sorted [OF assms T m(1) _ R(2)])
      moreover have "perm_on base N xs xs4"
        using P(2) G(1) perm_on_mono [OF L(1), of base N] perm_on_mono [OF R(1), of base N] m by (auto simp: N_def intro: perm_on_trans)
      ultimately show ?thesis unfolding q N_def by simp
    qed
  qed
qed

text \<open>
  C35: \<open>qsort\<close> sorts: with a comparison function that is a total preorder the elements of the array are the same as before, in ascending order, and nothing outside the array
  changes. The function ends for every comparison function.
\<close>

theorem qsort_sorts:
  assumes "total_preorder compar" and "base + n \<le> length xs"
  shows "mset (qsort compar base n xs) = mset xs \<and> length (qsort compar base n xs) = length xs \<and>
    (\<forall>i. i < base \<or> base + n \<le> i \<longrightarrow> qsort compar base n xs ! i = xs ! i) \<and>
    (\<forall>i j. base \<le> i \<and> i < j \<and> j < base + n \<longrightarrow> compar (qsort compar base n xs ! i) (qsort compar base n xs ! j) \<le> 0)"
  using qsort_ok [OF assms] by (simp add: perm_on_def sorted_on_def)

theorem qsort_sorts_witness: "mset (qsort (\<lambda>x y. x - y) 1 8 [9, 5, 3, 8, 1, 7, 2, 6, 4, 0]) = mset [9, 5, 3, 8, 1, 7, 2, 6, 4, 0 :: int]"
proof -
  have "total_preorder (\<lambda>x y :: int. x - y)" by (simp add: total_preorder_def)
  from qsort_sorts [OF this, of 1 8 "[9, 5, 3, 8, 1, 7, 2, 6, 4, 0]"] show ?thesis by simp
qed

end
