(* ===== verification/Inode.thy ===== *)
theory Inode
  imports Sem
begin

section \<open>The tree of inodes\<close>

text \<open>
  The pseudo file system of \<open>fs/fs_inode*.c\<close>: a tree of inodes in which the children of a node are linked in the order of their names by \<open>i_peer\<close>. A string is the list of its
  characters without the terminator, so that the terminator is read where the list ends. An address without an inode is memory that is not allocated or was freed, and an
  access to it makes the result \<^const>\<open>None\<close>. The results of \<open>kzalloc\<close> are an argument \<open>kz\<close>.

  \<open>tree_sem\<close> is the semaphore that serialises the access to the tree; \<open>inode_semtake\<close> is modelled where it does not have to wait.
\<close>

unbundle bit_operations_syntax

subsection \<open>Data\<close>

record inode =
  i_peer :: addr
  i_child :: addr
  i_crefs :: int
  i_flags :: nat
  i_ops :: addr
  i_private :: addr
  i_name :: string

record fs =
  inode :: "addr \<rightharpoonup> inode"
  root_inode :: addr
  tree_sem :: int


definition FSNODEFLAG_TYPE_MASK :: nat where [simp]: "FSNODEFLAG_TYPE_MASK = 3"
definition FSNODEFLAG_TYPE_BLOCK :: nat where [simp]: "FSNODEFLAG_TYPE_BLOCK = 1"
definition FSNODEFLAG_TYPE_MOUNTPT :: nat where [simp]: "FSNODEFLAG_TYPE_MOUNTPT = 2"
definition FSNODEFLAG_DELETED :: nat where [simp]: "FSNODEFLAG_DELETED = 4"

definition INODE_IS_MOUNTPT :: "inode \<Rightarrow> bool" where
  "INODE_IS_MOUNTPT i \<longleftrightarrow> i_flags i AND FSNODEFLAG_TYPE_MOUNTPT = FSNODEFLAG_TYPE_MOUNTPT"

definition upd_inode :: "addr \<Rightarrow> (inode \<Rightarrow> inode) \<Rightarrow> fs \<Rightarrow> fs option" where
  "upd_inode a f k = do { n \<leftarrow> inode k a; Some (k\<lparr>inode := (inode k)(a \<mapsto> f n)\<rparr>) }"

definition kfree :: "addr \<Rightarrow> fs \<Rightarrow> fs option" where
  "kfree a k = do { n \<leftarrow> inode k a; Some (k\<lparr>inode := (inode k)(a := None)\<rparr>) }"

definition inode_semtake :: "fs \<Rightarrow> fs option" where
  "inode_semtake k = (if tree_sem k > 0 then Some (k\<lparr>tree_sem := tree_sem k - 1\<rparr>) else None)"

definition inode_semgive :: "fs \<Rightarrow> fs" where
  "inode_semgive k = k\<lparr>tree_sem := tree_sem k + 1\<rparr>"

subsection \<open>Names\<close>

abbreviation SLASH :: char where "SLASH \<equiv> CHR ''/''"

definition at_end :: "string \<Rightarrow> bool" where
  "at_end s \<longleftrightarrow> s = [] \<or> hd s = SLASH"

text \<open>Characters are compared as unsigned numbers, as on ARM.\<close>

fun inode_compare :: "string \<Rightarrow> string \<Rightarrow> int" where
  "inode_compare fname [] = (if at_end fname then 0 else 1)"
| "inode_compare fname (n # nname) =
     (if at_end fname then - 1
      else if (of_char (hd fname) :: nat) > of_char n then 1
      else if (of_char (hd fname) :: nat) < of_char n then - 1
      else inode_compare (tl fname) nname)"

fun inode_nextname :: "string \<Rightarrow> string" where
  "inode_nextname [] = []"
| "inode_nextname (c # name) = (if c \<noteq> SLASH then inode_nextname name else name)"

fun inode_namecpy :: "string \<Rightarrow> string" where
  "inode_namecpy [] = []"
| "inode_namecpy (c # src) = (if c \<noteq> SLASH then c # inode_namecpy src else [])"

subsection \<open>Search\<close>

text \<open>The results are the node, the node to its left, the node above, the rest of the path, and \<open>relpath\<close> if it is set.\<close>

partial_function (option) search_loop ::
  "fs \<Rightarrow> string \<Rightarrow> addr \<Rightarrow> addr \<Rightarrow> addr \<Rightarrow> (addr \<times> addr \<times> addr \<times> string \<times> string option) option" where
  "search_loop k name node left parent =
     (if node = NULL then Some (NULL, left, parent, name, None)
      else do {
        n \<leftarrow> inode k node;
        let result = inode_compare name (i_name n);
        if result < 0 then Some (NULL, left, parent, name, None)
        else if result > 0 then search_loop k name (i_peer n) node parent
        else
          let name = inode_nextname name
          in if name = [] \<or> INODE_IS_MOUNTPT n then Some (node, left, parent, name, Some name)
             else search_loop k name (i_child n) NULL node
      })"

declare search_loop.simps [code]

definition inode_search :: "string \<Rightarrow> fs \<Rightarrow> (addr \<times> addr \<times> addr \<times> string \<times> string option) option" where
  "inode_search path k = search_loop k (tl path) (root_inode k) NULL NULL"

subsection \<open>Adding inodes\<close>

definition zero_inode :: inode where
  "zero_inode = \<lparr>i_peer = NULL, i_child = NULL, i_crefs = 0, i_flags = 0, i_ops = NULL, i_private = NULL, i_name = []\<rparr>"

definition inode_alloc :: "(fs \<Rightarrow> addr) \<Rightarrow> string \<Rightarrow> fs \<Rightarrow> addr \<times> fs" where
  "inode_alloc kz name k =
     (let node = kz k
      in if node \<noteq> NULL then (node, k\<lparr>inode := (inode k)(node \<mapsto> zero_inode\<lparr>i_name := inode_namecpy name\<rparr>)\<rparr>) else (NULL, k))"

definition inode_insert :: "addr \<Rightarrow> addr \<Rightarrow> addr \<Rightarrow> fs \<Rightarrow> fs option" where
  "inode_insert node peer parent k =
     (if peer \<noteq> NULL then do {
        p \<leftarrow> inode k peer;
        k \<leftarrow> upd_inode node (i_peer_update (\<lambda>_. i_peer p)) k;
        upd_inode peer (i_peer_update (\<lambda>_. node)) k
      }
      else if parent \<noteq> NULL then do {
        p \<leftarrow> inode k parent;
        k \<leftarrow> upd_inode node (i_peer_update (\<lambda>_. i_child p)) k;
        upd_inode parent (i_child_update (\<lambda>_. node)) k
      }
      else do {
        k \<leftarrow> upd_inode node (i_peer_update (\<lambda>_. root_inode k)) k;
        Some (k\<lparr>root_inode := node\<rparr>)
      })"

lemma length_nextname: "inode_nextname name \<noteq> [] \<Longrightarrow> length (inode_nextname name) < length name"
  by (induction name) (auto split: if_splits)

function reserve_loop :: "(fs \<Rightarrow> addr) \<Rightarrow> string \<Rightarrow> addr \<Rightarrow> addr \<Rightarrow> fs \<Rightarrow> (int \<times> addr \<times> fs) option" where
  "reserve_loop kz name left parent k =
     (let next_name = inode_nextname name
      in if next_name \<noteq> []
         then let (node, k) = inode_alloc kz name k
              in if node \<noteq> NULL
                 then do { k \<leftarrow> inode_insert node left parent k; reserve_loop kz next_name NULL node k }
                 else Some (- ENOMEM, NULL, k)
         else let (node, k) = inode_alloc kz name k
              in if node \<noteq> NULL
                 then do { k \<leftarrow> inode_insert node left parent k; Some (OK, node, k) }
                 else Some (- ENOMEM, NULL, k))"
  by pat_completeness auto
termination
  by (relation "measure (\<lambda>(_, name, _, _, _). length name)") (auto simp: length_nextname)

declare reserve_loop.simps [simp del]

definition inode_reserve :: "(fs \<Rightarrow> addr) \<Rightarrow> string \<Rightarrow> fs \<Rightarrow> (int \<times> addr \<times> fs) option" where
  "inode_reserve kz path k =
     (if path = [] \<or> hd path \<noteq> SLASH then Some (- EINVAL, NULL, k)
      else do {
        (node, left, parent, name, _) \<leftarrow> inode_search path k;
        if node \<noteq> NULL then Some (- EEXIST, NULL, k) else reserve_loop kz name left parent k
      })"

subsection \<open>Removing inodes\<close>

partial_function (option) inode_free :: "addr \<Rightarrow> fs \<Rightarrow> fs option" where
  "inode_free node k =
     (if node \<noteq> NULL
      then do {
        n \<leftarrow> inode k node;
        k \<leftarrow> inode_free (i_peer n) k;
        n \<leftarrow> inode k node;
        k \<leftarrow> inode_free (i_child n) k;
        kfree node k
      }
      else Some k)"

declare inode_free.simps [code]

definition inode_unlink :: "addr \<Rightarrow> addr \<Rightarrow> addr \<Rightarrow> fs \<Rightarrow> fs option" where
  "inode_unlink node peer parent k = do {
     n \<leftarrow> inode k node;
     k \<leftarrow> (if peer \<noteq> NULL then upd_inode peer (i_peer_update (\<lambda>_. i_peer n)) k
           else if parent \<noteq> NULL then upd_inode parent (i_child_update (\<lambda>_. i_peer n)) k
           else Some (k\<lparr>root_inode := i_peer n\<rparr>));
     upd_inode node (i_peer_update (\<lambda>_. NULL)) k
   }"

definition inode_remove :: "string \<Rightarrow> fs \<Rightarrow> (int \<times> fs) option" where
  "inode_remove path k =
     (if path = [] \<or> hd path \<noteq> SLASH then Some (- EINVAL, k)
      else do {
        (node, left, parent, _, _) \<leftarrow> inode_search path k;
        if node \<noteq> NULL
        then do {
          k \<leftarrow> inode_unlink node left parent k;
          n \<leftarrow> inode k node;
          if i_crefs n \<noteq> 0
          then do { k \<leftarrow> upd_inode node (i_flags_update (\<lambda>f. f OR FSNODEFLAG_DELETED)) k; Some (- EBUSY, k) }
          else do { k \<leftarrow> inode_free (i_child n) k; k \<leftarrow> kfree node k; Some (OK, k) }
        }
        else Some (- ENOENT, k)
      })"

subsection \<open>References\<close>

text \<open>Results: the node, and the rest of the path behind a mount point.\<close>

definition inode_find :: "string \<Rightarrow> fs \<Rightarrow> (addr \<times> string option \<times> fs) option" where
  "inode_find path k =
     (if path = [] \<or> hd path \<noteq> SLASH then Some (NULL, None, k)
      else do {
        k \<leftarrow> inode_semtake k;
        (node, _, _, _, relpath) \<leftarrow> inode_search path k;
        k \<leftarrow> (if node \<noteq> NULL then upd_inode node (i_crefs_update (\<lambda>c. s16 (c + 1))) k else Some k);
        Some (node, relpath, inode_semgive k)
      })"

definition inode_addref :: "addr \<Rightarrow> fs \<Rightarrow> fs option" where
  "inode_addref node k =
     (if node \<noteq> NULL
      then do {
        k \<leftarrow> inode_semtake k;
        k \<leftarrow> upd_inode node (i_crefs_update (\<lambda>c. s16 (c + 1))) k;
        Some (inode_semgive k)
      }
      else Some k)"

definition inode_release :: "addr \<Rightarrow> fs \<Rightarrow> fs option" where
  "inode_release node k =
     (if node \<noteq> NULL
      then do {
        k \<leftarrow> inode_semtake k;
        k \<leftarrow> upd_inode node (i_crefs_update (\<lambda>c. if c \<noteq> 0 then s16 (c - 1) else c)) k;
        n \<leftarrow> inode k node;
        if i_crefs n \<le> 0 \<and> i_flags n AND FSNODEFLAG_DELETED \<noteq> 0
        then do { k \<leftarrow> inode_free (i_child n) (inode_semgive k); kfree node k }
        else Some (inode_semgive k)
      }
      else Some k)"

subsection \<open>Drivers\<close>

definition not16 :: "nat \<Rightarrow> nat" where
  "not16 m = 65535 - m"

definition register_driver :: "(fs \<Rightarrow> addr) \<Rightarrow> string \<Rightarrow> addr \<Rightarrow> addr \<Rightarrow> fs \<Rightarrow> (int \<times> fs) option" where
  "register_driver kz path fops priv k = do {
     k \<leftarrow> inode_semtake k;
     (ret, node, k) \<leftarrow> inode_reserve kz path k;
     if ret \<ge> 0
     then do {
       k \<leftarrow> upd_inode node (\<lambda>n. n\<lparr>i_flags := i_flags n AND not16 FSNODEFLAG_TYPE_MASK, i_ops := fops, i_private := priv\<rparr>) k;
       Some (OK, inode_semgive k)
     }
     else Some (ret, inode_semgive k)
   }"

definition register_blockdriver :: "(fs \<Rightarrow> addr) \<Rightarrow> string \<Rightarrow> addr \<Rightarrow> addr \<Rightarrow> fs \<Rightarrow> (int \<times> fs) option" where
  "register_blockdriver kz path bops priv k = do {
     k \<leftarrow> inode_semtake k;
     (ret, node, k) \<leftarrow> inode_reserve kz path k;
     if ret \<ge> 0
     then do {
       k \<leftarrow> upd_inode node (\<lambda>n. n\<lparr>i_flags := (i_flags n AND not16 FSNODEFLAG_TYPE_MASK) OR FSNODEFLAG_TYPE_BLOCK, i_ops := bops, i_private := priv\<rparr>) k;
       Some (OK, inode_semgive k)
     }
     else Some (ret, inode_semgive k)
   }"

definition unregister_driver :: "string \<Rightarrow> fs \<Rightarrow> (int \<times> fs) option" where
  "unregister_driver path k = do {
     k \<leftarrow> inode_semtake k;
     (ret, k) \<leftarrow> inode_remove path k;
     Some (ret, inode_semgive k)
   }"

definition unregister_blockdriver :: "string \<Rightarrow> fs \<Rightarrow> (int \<times> fs) option" where
  "unregister_blockdriver path k = do {
     k \<leftarrow> inode_semtake k;
     (ret, k) \<leftarrow> inode_remove path k;
     Some (ret, inode_semgive k)
   }"

end
