(* ===== verification/Files.thy ===== *)
theory Files
  imports Inode
begin

section \<open>File descriptors\<close>

text \<open>
  The lists of open files of \<open>fs/fs_files.c\<close> and the calls \<open>open\<close>, \<open>close\<close>, \<open>dup\<close> and \<open>dup2\<close> on them. A task has a list of files, which its threads share; the argument \<open>l\<close> of the operations is the list that
  \<open>sched_getfiles\<close> returns. An open file refers to an inode and counts as a reference to it. The operations of a driver or a mounted file system are an argument \<open>ops\<close>: their results, which may depend on the state, and whether they
  are there. The semaphore of a list is taken where it is available; \<open>f_priv\<close>, which only drivers use, is left out. A call that fails returns the value of \<open>errno\<close> as \<^const>\<open>Inl\<close>.
\<close>

record file_s =
  f_oflags :: nat
  f_pos :: int
  f_inode :: addr

record filelist =
  fl_sem :: int
  fl_crefs :: int
  fl_files :: "file_s list"

record fsys =
  fsd :: fs
  filelist :: "addr \<rightharpoonup> filelist"

record file_operations =
  open_op :: "(string option \<Rightarrow> fsys \<Rightarrow> int) option"
  close_op :: "(fsys \<Rightarrow> int) option"
  read_op :: bool
  write_op :: bool

definition EBADF :: int where [simp]: "EBADF = 9"
definition EMFILE :: int where [simp]: "EMFILE = 24"
definition ENXIO :: int where [simp]: "ENXIO = 6"
definition EACCES :: int where [simp]: "EACCES = 13"
definition ENOSYS :: int where [simp]: "ENOSYS = 38"
definition CONFIG_NFILE_DESCRIPTORS :: nat where [simp]: "CONFIG_NFILE_DESCRIPTORS = 8"
definition FSNODEFLAG_TYPE_DRIVER :: nat where [simp]: "FSNODEFLAG_TYPE_DRIVER = 0"

definition INODE_IS_DRIVER :: "inode \<Rightarrow> bool" where
  "INODE_IS_DRIVER i \<longleftrightarrow> i_flags i AND FSNODEFLAG_TYPE_MASK = FSNODEFLAG_TYPE_DRIVER"

definition no_file :: file_s where
  "no_file = \<lparr>f_oflags = 0, f_pos = 0, f_inode = NULL\<rparr>"

text \<open>The state that \<open>fs_initialize\<close> leaves: no inode, no list, and the semaphore of the tree available.\<close>

definition fs_init :: fsys where
  "fs_init = \<lparr>fsd = \<lparr>inode = Map.empty, root_inode = NULL, tree_sem = 1\<rparr>, filelist = Map.empty\<rparr>"

definition upd_list :: "addr \<Rightarrow> (filelist \<Rightarrow> filelist) \<Rightarrow> fsys \<Rightarrow> fsys option" where
  "upd_list l f k = do { L \<leftarrow> filelist k l; Some (k\<lparr>filelist := (filelist k)(l \<mapsto> f L)\<rparr>) }"

definition get_file :: "addr \<Rightarrow> nat \<Rightarrow> fsys \<Rightarrow> file_s option" where
  "get_file l i k = do { L \<leftarrow> filelist k l; if i < length (fl_files L) then Some (fl_files L ! i) else None }"

definition set_file :: "addr \<Rightarrow> nat \<Rightarrow> file_s \<Rightarrow> fsys \<Rightarrow> fsys option" where
  "set_file l i f k = upd_list l (\<lambda>L. L\<lparr>fl_files := (fl_files L)[i := f]\<rparr>) k"

definition on_fs :: "(fs \<Rightarrow> fs option) \<Rightarrow> fsys \<Rightarrow> fsys option" where
  "on_fs f k = do { s \<leftarrow> f (fsd k); Some (k\<lparr>fsd := s\<rparr>) }"

subsection \<open>The lists of files\<close>

definition files_semtake :: "addr \<Rightarrow> fsys \<Rightarrow> fsys option" where
  "files_semtake l k = do { L \<leftarrow> filelist k l; if fl_sem L > 0 then upd_list l (fl_sem_update (\<lambda>s. s - 1)) k else None }"

definition files_semgive :: "addr \<Rightarrow> fsys \<Rightarrow> fsys option" where
  "files_semgive l k = upd_list l (fl_sem_update (\<lambda>s. s + 1)) k"

definition file_close :: "(addr \<Rightarrow> file_operations) \<Rightarrow> addr \<Rightarrow> nat \<Rightarrow> fsys \<Rightarrow> (int \<times> fsys) option" where
  "file_close ops l i k = do {
     f \<leftarrow> get_file l i k;
     if f_inode f \<noteq> NULL
     then do {
       n \<leftarrow> inode (fsd k) (f_inode f);
       let ret = (if i_ops n \<noteq> NULL then case close_op (ops (i_ops n)) of Some cl \<Rightarrow> cl k | None \<Rightarrow> OK else OK);
       k \<leftarrow> on_fs (inode_release (f_inode f)) k;
       k \<leftarrow> set_file l i no_file k;
       Some (ret, k)
     }
     else Some (OK, k)
   }"

definition files_alloclist :: "(fsys \<Rightarrow> addr) \<Rightarrow> fsys \<Rightarrow> addr \<times> fsys" where
  "files_alloclist kz k =
     (let l = kz k
      in if l \<noteq> NULL then (l, k\<lparr>filelist := (filelist k)(l \<mapsto> \<lparr>fl_sem = 1, fl_crefs = 1, fl_files = replicate CONFIG_NFILE_DESCRIPTORS no_file\<rparr>)\<rparr>) else (NULL, k))"

definition files_addreflist :: "addr \<Rightarrow> fsys \<Rightarrow> fsys option" where
  "files_addreflist l k = (if l \<noteq> NULL then upd_list l (fl_crefs_update (\<lambda>c. s16 (c + 1))) k else Some k)"

fun close_all :: "(addr \<Rightarrow> file_operations) \<Rightarrow> addr \<Rightarrow> nat \<Rightarrow> nat \<Rightarrow> fsys \<Rightarrow> fsys option" where
  "close_all ops l i 0 k = Some k"
| "close_all ops l i (Suc n) k = do { (_, k) \<leftarrow> file_close ops l i k; close_all ops l (Suc i) n k }"

definition files_releaselist :: "(addr \<Rightarrow> file_operations) \<Rightarrow> addr \<Rightarrow> fsys \<Rightarrow> fsys option" where
  "files_releaselist ops l k =
     (if l \<noteq> NULL
      then do {
        k \<leftarrow> upd_list l (fl_crefs_update (\<lambda>c. s16 (c - 1))) k;
        L \<leftarrow> filelist k l;
        if fl_crefs L \<le> 0
        then do { k \<leftarrow> close_all ops l 0 CONFIG_NFILE_DESCRIPTORS k; Some (k\<lparr>filelist := (filelist k)(l := None)\<rparr>) }
        else Some k
      }
      else Some k)"

definition call_open :: "(addr \<Rightarrow> file_operations) \<Rightarrow> inode \<Rightarrow> string option \<Rightarrow> fsys \<Rightarrow> int" where
  "call_open ops n relpath k = (case open_op (ops (i_ops n)) of Some op \<Rightarrow> op relpath k | None \<Rightarrow> OK)"

text \<open>The second half of \<open>files_dup\<close>, once the target is closed.\<close>

definition dup_finish :: "(addr \<Rightarrow> file_operations) \<Rightarrow> addr \<Rightarrow> nat \<Rightarrow> nat \<Rightarrow> int \<Rightarrow> fsys \<Rightarrow> ((int + int) \<times> fsys) option" where
  "dup_finish ops l i1 i2 ret k = do {
     f1 \<leftarrow> get_file l i1 k;
     k \<leftarrow> on_fs (inode_addref (f_inode f1)) k;
     k \<leftarrow> set_file l i2 f1 k;
     n \<leftarrow> inode (fsd k) (f_inode f1);
     let ret = (if i_ops n \<noteq> NULL then call_open ops n None k else ret);
     if i_ops n \<noteq> NULL \<and> ret < 0
     then do {
       k \<leftarrow> on_fs (inode_release (f_inode f1)) k;
       k \<leftarrow> set_file l i2 no_file k;
       k \<leftarrow> files_semgive l k;
       Some (Inl (- ret), k)
     }
     else do { k \<leftarrow> files_semgive l k; Some (Inr OK, k) }
   }"

definition files_dup :: "(addr \<Rightarrow> file_operations) \<Rightarrow> addr \<Rightarrow> nat \<Rightarrow> nat \<Rightarrow> fsys \<Rightarrow> ((int + int) \<times> fsys) option" where
  "files_dup ops l i1 i2 k = do {
     f1 \<leftarrow> get_file l i1 k;
     if f_inode f1 = NULL then Some (Inl EBADF, k)
     else do {
       n \<leftarrow> inode (fsd k) (f_inode f1);
       if INODE_IS_MOUNTPT n then Some (Inl ENOSYS, k)
       else if l = NULL then Some (Inl EMFILE, k)
       else do {
         k \<leftarrow> files_semtake l k;
         (ret, k) \<leftarrow> file_close ops l i2 k;
         if ret < 0 then do { k \<leftarrow> files_semgive l k; Some (Inl (- ret), k) }
         else dup_finish ops l i1 i2 ret k
       }
     }
   }"

text \<open>The first free entry from \<open>minfd\<close> on; the loop ends at the first one.\<close>

definition first_free :: "file_s list \<Rightarrow> nat \<Rightarrow> nat option" where
  "first_free fs minfd = find (\<lambda>i. f_inode (fs ! i) = NULL) [minfd..<length fs]"

definition files_allocate :: "addr \<Rightarrow> addr \<Rightarrow> nat \<Rightarrow> int \<Rightarrow> nat \<Rightarrow> fsys \<Rightarrow> (int \<times> fsys) option" where
  "files_allocate l x oflags pos minfd k =
     (if l \<noteq> NULL
      then do {
        k \<leftarrow> files_semtake l k;
        L \<leftarrow> filelist k l;
        case first_free (fl_files L) minfd of
          Some i \<Rightarrow> do {
            k \<leftarrow> set_file l i \<lparr>f_oflags = oflags, f_pos = pos, f_inode = x\<rparr> k;
            k \<leftarrow> files_semgive l k;
            Some (int i, k)
          }
        | None \<Rightarrow> do { k \<leftarrow> files_semgive l k; Some (ERROR, k) }
      }
      else Some (ERROR, k))"

definition files_close :: "(addr \<Rightarrow> file_operations) \<Rightarrow> addr \<Rightarrow> int \<Rightarrow> fsys \<Rightarrow> (int \<times> fsys) option" where
  "files_close ops l fd k =
     (if l = NULL then Some (- EMFILE, k)
      else if fd < 0 \<or> fd \<ge> int CONFIG_NFILE_DESCRIPTORS then Some (- EBADF, k)
      else do {
        f \<leftarrow> get_file l (nat fd) k;
        if f_inode f = NULL then Some (- EBADF, k)
        else do {
          k \<leftarrow> files_semtake l k;
          (ret, k) \<leftarrow> file_close ops l (nat fd) k;
          k \<leftarrow> files_semgive l k;
          Some (ret, k)
        }
      })"

definition files_release :: "addr \<Rightarrow> int \<Rightarrow> fsys \<Rightarrow> fsys option" where
  "files_release l fd k =
     (if l \<noteq> NULL \<and> fd \<ge> 0 \<and> fd < int CONFIG_NFILE_DESCRIPTORS
      then do { k \<leftarrow> files_semtake l k; k \<leftarrow> set_file l (nat fd) no_file k; files_semgive l k }
      else Some k)"

subsection \<open>The calls\<close>

definition inode_checkflags :: "(addr \<Rightarrow> file_operations) \<Rightarrow> inode \<Rightarrow> nat \<Rightarrow> int" where
  "inode_checkflags ops n oflags =
     (if oflags AND O_RDOK \<noteq> 0 \<and> \<not> read_op (ops (i_ops n)) \<or> oflags AND O_WROK \<noteq> 0 \<and> \<not> write_op (ops (i_ops n)) then - EACCES else OK)"

definition fs_open :: "(addr \<Rightarrow> file_operations) \<Rightarrow> addr \<Rightarrow> string \<Rightarrow> nat \<Rightarrow> fsys \<Rightarrow> ((int + int) \<times> fsys) option" where
  "fs_open ops l path oflags k =
     (if l = NULL then Some (Inl EMFILE, k)
      else do {
        (x, relpath, s) \<leftarrow> inode_find path (fsd k);
        let k = k\<lparr>fsd := s\<rparr>;
        if x = NULL then Some (Inl ENOENT, k)
        else do {
          n \<leftarrow> inode (fsd k) x;
          if \<not> INODE_IS_DRIVER n \<and> \<not> INODE_IS_MOUNTPT n \<or> i_ops n = NULL
          then do { k \<leftarrow> on_fs (inode_release x) k; Some (Inl ENXIO, k) }
          else if inode_checkflags ops n oflags < 0
          then do { k \<leftarrow> on_fs (inode_release x) k; Some (Inl (- inode_checkflags ops n oflags), k) }
          else do {
            (fd, k) \<leftarrow> files_allocate l x oflags 0 0 k;
            if fd < 0 then do { k \<leftarrow> on_fs (inode_release x) k; Some (Inl EMFILE, k) }
            else
              let ret = call_open ops n (if INODE_IS_MOUNTPT n then relpath else None) k
              in if ret < 0
                 then do { k \<leftarrow> files_release l fd k; k \<leftarrow> on_fs (inode_release x) k; Some (Inl (- ret), k) }
                 else Some (Inr fd, k)
          }
        }
      })"

definition fs_close :: "(addr \<Rightarrow> file_operations) \<Rightarrow> addr \<Rightarrow> int \<Rightarrow> fsys \<Rightarrow> ((int + int) \<times> fsys) option" where
  "fs_close ops l fd k =
     (if fd < 0 \<or> fd \<ge> int CONFIG_NFILE_DESCRIPTORS then Some (Inl EBADF, k)
      else do {
        (ret, k) \<leftarrow> files_close ops l fd k;
        Some (if ret < 0 then Inl (- ret) else Inr OK, k)
      })"

definition DUP_ISOPEN :: "int \<Rightarrow> addr \<Rightarrow> fsys \<Rightarrow> bool" where
  "DUP_ISOPEN fd l k \<longleftrightarrow> 0 \<le> fd \<and> fd < int CONFIG_NFILE_DESCRIPTORS \<and> (case get_file l (nat fd) k of Some f \<Rightarrow> f_inode f \<noteq> NULL | None \<Rightarrow> False)"

definition file_dup :: "addr \<Rightarrow> int \<Rightarrow> nat \<Rightarrow> fsys \<Rightarrow> ((int + int) \<times> fsys) option" where
  "file_dup l fd minfd k =
     (if l = NULL then Some (Inl EMFILE, k)
      else if \<not> DUP_ISOPEN fd l k then Some (Inl EBADF, k)
      else do {
        f \<leftarrow> get_file l (nat fd) k;
        k \<leftarrow> on_fs (inode_addref (f_inode f)) k;
        (fd2, k) \<leftarrow> files_allocate l (f_inode f) (f_oflags f) (f_pos f) minfd k;
        if fd2 < 0 then do { k \<leftarrow> on_fs (inode_release (f_inode f)) k; Some (Inl EMFILE, k) }
        else Some (Inr fd2, k)
      })"

definition dup :: "addr \<Rightarrow> int \<Rightarrow> fsys \<Rightarrow> ((int + int) \<times> fsys) option" where
  "dup l fd k = (if 0 \<le> fd \<and> fd < int CONFIG_NFILE_DESCRIPTORS then file_dup l fd 0 k else Some (Inl EBADF, k))"

definition dup2 :: "(addr \<Rightarrow> file_operations) \<Rightarrow> addr \<Rightarrow> int \<Rightarrow> int \<Rightarrow> fsys \<Rightarrow> ((int + int) \<times> fsys) option" where
  "dup2 ops l fd1 fd2 k =
     (if l = NULL then Some (Inl EMFILE, k)
      else if \<not> DUP_ISOPEN fd1 l k then Some (Inl EBADF, k)
      else if fd1 = fd2 then Some (Inr fd1, k)
      else if fd2 < 0 \<or> fd2 \<ge> int CONFIG_NFILE_DESCRIPTORS then Some (Inl EBADF, k)
      else files_dup ops l (nat fd1) (nat fd2) k)"

end
