(* ===== verification/Inode_Ops.thy ===== *)
theory Inode_Ops
  imports Inode "HOL-Library.Tree" "HOL-Library.Multiset"
begin

section \<open>The inodes as a tree of names\<close>

text \<open>
  The inodes in memory represent a binary tree of addresses: the left subtree of a node holds its children, the right one its peers to the right. A path is the
  list of its components, and \<open>lookup\<close> finds the node of a path in the tree. \<open>locate\<close> is the search as the code makes it, over the ordered peers; it splits the
  tree into the subtree at which the search ends and the context around it (\<open>ctx\<close>). The pointer to that subtree is the slot the code writes to insert or remove a node.
\<close>

subsection \<open>Names and paths\<close>

function comps :: "string \<Rightarrow> string list" where
  "comps name = inode_namecpy name # (if inode_nextname name = [] then [] else comps (inode_nextname name))"
  by pat_completeness auto
termination by (relation "measure length") (auto simp: length_nextname)

declare comps.simps [simp del]

lemma comps_not_Nil [simp]: "comps name \<noteq> []"
  by (subst comps.simps) simp

lemma hd_comps [simp]: "hd (comps name) = inode_namecpy name"
  by (subst comps.simps) simp

lemma tl_comps: "tl (comps name) = (if inode_nextname name = [] then [] else comps (inode_nextname name))"
  by (subst comps.simps) simp

lemma namecpy_no_slash [simp]: "SLASH \<notin> set (inode_namecpy name)"
  by (induction name) auto

definition name_less :: "string \<Rightarrow> string \<Rightarrow> bool" where
  "name_less a b \<longleftrightarrow> inode_compare a b < 0"

lemma at_end_simps [simp]: "at_end []" "at_end (c # s) \<longleftrightarrow> c = SLASH"
  by (simp_all add: at_end_def)

lemma of_char_eq: "(of_char c :: nat) = of_char d \<longleftrightarrow> c = d"
  by simp

lemma compare_eq: "SLASH \<notin> set n \<Longrightarrow> inode_compare f n = 0 \<longleftrightarrow> inode_namecpy f = n"
proof (induction f n rule: inode_compare.induct)
  case (1 f)
  then show ?case by (cases f) auto
next
  case (2 f m n)
  then show ?case by (cases f) (auto simp: not_less intro: ccontr)
qed

lemma compare_less: "inode_compare f n < 0 \<longleftrightarrow> name_less (inode_namecpy f) n"
  unfolding name_less_def
proof (induction f n rule: inode_compare.induct)
  case (1 f)
  then show ?case by (cases f) auto
next
  case (2 f m n)
  then show ?case by (cases f) auto
qed

lemma compare_greater: "SLASH \<notin> set n \<Longrightarrow> inode_compare f n > 0 \<longleftrightarrow> name_less n (inode_namecpy f)"
  unfolding name_less_def
proof (induction f n rule: inode_compare.induct)
  case (1 f)
  then show ?case by (cases f) auto
next
  case (2 f m n)
  then show ?case by (cases f) auto
qed

lemma name_less_simps:
  "\<not> name_less f []" "name_less [] (m # n)"
  "x \<noteq> SLASH \<Longrightarrow> name_less (x # f) (m # n) \<longleftrightarrow> (of_char x :: nat) < of_char m \<or> x = m \<and> name_less f n"
  by (auto simp: name_less_def not_less of_char_eq intro: ccontr dest: le_neq_implies_less)

lemma name_less_trans: "SLASH \<notin> set a \<Longrightarrow> SLASH \<notin> set b \<Longrightarrow> name_less a b \<Longrightarrow> name_less b c \<Longrightarrow> name_less a c"
proof (induction a b arbitrary: c rule: list_induct2')
  case (4 x xs y ys)
  then show ?case by (cases c) (auto simp: name_less_simps)
next
  case (3 y ys)
  then show ?case by (cases c) (auto simp: name_less_simps)
qed (simp_all add: name_less_simps)

lemma name_less_irrefl: "SLASH \<notin> set a \<Longrightarrow> \<not> name_less a a"
  by (induction a) (auto simp: name_less_simps)

lemma name_cases:
  assumes "SLASH \<notin> set n"
  obtains "inode_compare f n < 0" "name_less (inode_namecpy f) n" "inode_namecpy f \<noteq> n" "\<not> name_less n (inode_namecpy f)"
  | "inode_compare f n > 0" "name_less n (inode_namecpy f)" "inode_namecpy f \<noteq> n" "\<not> name_less (inode_namecpy f) n"
  | "inode_compare f n = 0" "inode_namecpy f = n"
  using compare_eq [OF assms, of f] compare_less [of f n] compare_greater [OF assms, of f] by linarith

subsection \<open>Trees\<close>

fun ptr :: "addr tree \<Rightarrow> addr" where
  "ptr Leaf = NULL"
| "ptr (Node c a r) = a"

fun nodes_ok :: "(addr \<rightharpoonup> inode) \<Rightarrow> addr tree \<Rightarrow> bool" where
  "nodes_ok h Leaf \<longleftrightarrow> True"
| "nodes_ok h (Node c a r) \<longleftrightarrow> a \<noteq> NULL \<and> (\<exists>n. h a = Some n \<and> i_child n = ptr c \<and> i_peer n = ptr r) \<and> nodes_ok h c \<and> nodes_ok h r"

fun peers :: "addr tree \<Rightarrow> addr list" where
  "peers Leaf = []"
| "peers (Node c a r) = a # peers r"

fun names_ok :: "(addr \<Rightarrow> string) \<Rightarrow> addr tree \<Rightarrow> bool" where
  "names_ok nm Leaf \<longleftrightarrow> True"
| "names_ok nm (Node c a r) \<longleftrightarrow> SLASH \<notin> set (nm a) \<and> (\<forall>b\<in>set (peers r). name_less (nm a) (nm b)) \<and> names_ok nm c \<and> names_ok nm r"

definition name_of :: "fs \<Rightarrow> addr \<Rightarrow> string" where
  "name_of k a = i_name (the (inode k a))"

definition mountpt :: "fs \<Rightarrow> addr \<Rightarrow> bool" where
  "mountpt k a = INODE_IS_MOUNTPT (the (inode k a))"

text \<open>The file system represents the tree.\<close>

definition fs_rep :: "fs \<Rightarrow> addr tree \<Rightarrow> bool" where
  "fs_rep k t \<longleftrightarrow> root_inode k = ptr t \<and> nodes_ok (inode k) t \<and> distinct (inorder t) \<and> names_ok (name_of k) t"

text \<open>The specification of a search: the node of a path; a mount point answers for all paths below it.\<close>

fun lookup :: "(addr \<Rightarrow> string) \<Rightarrow> (addr \<Rightarrow> bool) \<Rightarrow> string list \<Rightarrow> addr tree \<Rightarrow> addr option" where
  "lookup nm mp cs Leaf = None"
| "lookup nm mp cs (Node ch a r) =
     (if hd cs = nm a then if tl cs = [] \<or> mp a then Some a else lookup nm mp (tl cs) ch else lookup nm mp cs r)"

lemma peers_set: "set (peers t) \<subseteq> set_tree t"
  by (induction t) auto

lemma ptr_eq: "nodes_ok h t \<Longrightarrow> ptr t = NULL \<longleftrightarrow> t = Leaf"
  by (cases t) auto

lemma nodes_ok_cong: "nodes_ok h t \<Longrightarrow> (\<And>a. a \<in> set_tree t \<Longrightarrow> h' a = h a) \<Longrightarrow> nodes_ok h' t"
  by (induction t) auto

lemma nodes_ok_dom: "nodes_ok h t \<Longrightarrow> a \<in> set_tree t \<Longrightarrow> a \<noteq> NULL \<and> h a \<noteq> None"
  by (induction t) auto

lemma names_ok_cong: "names_ok nm t \<Longrightarrow> (\<And>a. a \<in> set_tree t \<Longrightarrow> nm' a = nm a) \<Longrightarrow> names_ok nm' t"
proof (induction t)
  case (Node c a r)
  have "\<And>b. b \<in> set (peers r) \<Longrightarrow> nm' b = nm b" using Node.prems(2) peers_set [of r] by auto
  then show ?case using Node by auto
qed simp

lemma lookup_cong: "(\<And>a. a \<in> set_tree t \<Longrightarrow> nm' a = nm a \<and> mp' a = mp a) \<Longrightarrow> lookup nm' mp' cs t = lookup nm mp cs t"
  by (induction t arbitrary: cs) auto

lemma lookup_Some: "lookup nm mp cs t = Some a \<Longrightarrow> a \<in> set_tree t"
  by (induction t arbitrary: cs) (auto split: if_splits)

lemma lookup_not_peer: "hd cs \<notin> nm ` set (peers t) \<Longrightarrow> lookup nm mp cs t = None"
  by (induction t) auto

subsection \<open>Contexts\<close>

datatype ctx = Hole | InPeer "addr tree" addr ctx | InChild ctx addr "addr tree"

fun fill :: "ctx \<Rightarrow> addr tree \<Rightarrow> addr tree" where
  "fill Hole s = s"
| "fill (InPeer c a C) s = Node c a (fill C s)"
| "fill (InChild C a r) s = Node (fill C s) a r"

fun ctx_nodes :: "ctx \<Rightarrow> addr list" where
  "ctx_nodes Hole = []"
| "ctx_nodes (InPeer c a C) = inorder c @ a # ctx_nodes C"
| "ctx_nodes (InChild C a r) = ctx_nodes C @ a # inorder r"

text \<open>Where the pointer to the subtree is: in the node to the left, in the node above, or in \<open>root_inode\<close>.\<close>

fun slot_of :: "ctx \<Rightarrow> addr \<Rightarrow> addr \<Rightarrow> addr \<times> addr" where
  "slot_of Hole l p = (l, p)"
| "slot_of (InPeer c a C) l p = slot_of C a p"
| "slot_of (InChild C a r) l p = slot_of C NULL a"

definition slot :: "addr \<times> addr \<Rightarrow> fs \<Rightarrow> addr" where
  "slot lp k = (case lp of (l, p) \<Rightarrow> if l \<noteq> NULL then i_peer (the (inode k l)) else if p \<noteq> NULL then i_child (the (inode k p)) else root_inode k)"

definition set_slot :: "addr \<times> addr \<Rightarrow> addr \<Rightarrow> fs \<Rightarrow> fs" where
  "set_slot lp q k = (case lp of (l, p) \<Rightarrow>
     if l \<noteq> NULL then k\<lparr>inode := (inode k)(l := map_option (i_peer_update (\<lambda>_. q)) (inode k l))\<rparr>
     else if p \<noteq> NULL then k\<lparr>inode := (inode k)(p := map_option (i_child_update (\<lambda>_. q)) (inode k p))\<rparr>
     else k\<lparr>root_inode := q\<rparr>)"

definition owner :: "addr \<times> addr \<Rightarrow> addr" where
  "owner lp = (if fst lp \<noteq> NULL then fst lp else snd lp)"

lemma set_fill: "set_tree (fill C s) = set (ctx_nodes C) \<union> set_tree s"
  by (induction C) auto

lemma mset_fill: "mset (inorder (fill C s)) = mset (ctx_nodes C) + mset (inorder s)"
  by (induction C) auto

lemma distinct_fill: "distinct (inorder (fill C s)) \<longleftrightarrow> distinct (ctx_nodes C) \<and> distinct (inorder s) \<and> set (ctx_nodes C) \<inter> set_tree s = {}"
proof -
  have "distinct (inorder (fill C s)) \<longleftrightarrow> distinct (ctx_nodes C @ inorder s)"
    by (rule mset_eq_imp_distinct_iff) (simp add: mset_fill)
  then show ?thesis by simp
qed

lemma owner_slot_of: "nodes_ok h (fill C s) \<Longrightarrow> C \<noteq> Hole \<Longrightarrow> owner (slot_of C l p) \<in> set (ctx_nodes C) \<and> owner (slot_of C l p) \<noteq> NULL"
proof (induction C arbitrary: l p)
  case (InPeer c a C)
  then show ?case by (cases "C = Hole") (auto simp: owner_def)
next
  case (InChild C a r)
  then show ?case by (cases "C = Hole") (auto simp: owner_def)
qed simp

lemma inode_set_slot: "x \<noteq> owner lp \<Longrightarrow> x \<noteq> NULL \<Longrightarrow> inode (set_slot lp q k) x = inode k x"
  by (auto simp: set_slot_def owner_def split: prod.splits if_splits)

lemma root_set_slot: "owner lp \<noteq> NULL \<Longrightarrow> root_inode (set_slot lp q k) = root_inode k"
  by (auto simp: set_slot_def owner_def split: prod.splits if_splits)

lemma slot_set_slot: "(owner lp \<noteq> NULL \<Longrightarrow> inode k (owner lp) \<noteq> None) \<Longrightarrow> slot lp (set_slot lp q k) = q"
  by (auto simp: slot_def set_slot_def owner_def split: prod.splits)

lemma slot_cong:
  "(owner lp \<noteq> NULL \<Longrightarrow> inode k' (owner lp) = inode k (owner lp)) \<Longrightarrow> (owner lp = NULL \<Longrightarrow> root_inode k' = root_inode k) \<Longrightarrow> slot lp k' = slot lp k"
  by (auto simp: slot_def owner_def split: prod.splits if_splits)

lemma set_slot_fields:
  assumes "inode k a = Some n" "a \<noteq> NULL"
  shows "\<exists>n'. inode (set_slot lp q k) a = Some n' \<and> (lp = (NULL, a) \<or> i_child n' = i_child n) \<and> (fst lp = a \<or> i_peer n' = i_peer n)"
  using assms by (cases lp) (auto simp: set_slot_def)

text \<open>Writing the slot exchanges the subtree.\<close>

lemma fill_set_slot:
  assumes "nodes_ok (inode k) (fill C s)" "distinct (ctx_nodes C)" "slot (l, p) k = ptr (fill C s)"
    and "owner (l, p) \<noteq> NULL \<Longrightarrow> inode k (owner (l, p)) \<noteq> None" "owner (l, p) \<notin> set (ctx_nodes C)"
    and "\<And>a. a \<noteq> NULL \<Longrightarrow> a = owner (l, p) \<or> a \<in> set (ctx_nodes C) \<Longrightarrow> inode k' a = inode (set_slot (slot_of C l p) q k) a"
    and "root_inode k' = root_inode (set_slot (slot_of C l p) q k)" "nodes_ok (inode k') s'" "ptr s' = q"
  shows "nodes_ok (inode k') (fill C s') \<and> slot (l, p) k' = ptr (fill C s')"
  using assms
proof (induction C arbitrary: l p)
  case Hole
  have "slot (l, p) k' = slot (l, p) (set_slot (l, p) q k)"
    by (rule slot_cong) (use Hole.prems(6) [of "owner (l, p)"] Hole.prems(7) in auto)
  then show ?case using Hole.prems slot_set_slot [of "(l, p)" k q] by simp
next
  case (InPeer c a C)
  let ?lp = "slot_of C a p"
  obtain n where n: "inode k a = Some n" "a \<noteq> NULL" "i_child n = ptr c" "i_peer n = ptr (fill C s)" "nodes_ok (inode k) c" "nodes_ok (inode k) (fill C s)"
    using InPeer.prems(1) by auto
  have o: "owner ?lp = a \<and> C = Hole \<or> owner ?lp \<in> set (ctx_nodes C)" using owner_slot_of [OF n(6), of a p] n(2) by (cases "C = Hole") (auto simp: owner_def)
  have on: "owner ?lp \<noteq> NULL" using owner_slot_of [OF n(6), of a p] n(2) by (cases "C = Hole") (auto simp: owner_def)
  have IH: "nodes_ok (inode k') (fill C s') \<and> slot (a, p) k' = ptr (fill C s')"
    by (rule InPeer.IH) (use InPeer.prems n in \<open>auto simp: slot_def owner_def\<close>)
  obtain n' where n': "inode (set_slot ?lp q k) a = Some n'" "?lp = (NULL, a) \<or> i_child n' = i_child n"
    using set_slot_fields [OF n(1,2), of ?lp q] by blast
  have "?lp \<noteq> (NULL, a)" using o InPeer.prems(2) n(2) by (cases "C = Hole") (auto simp: owner_def)
  then have a: "inode k' a = Some n'" "i_child n' = ptr c" using InPeer.prems(6) [of a] n' n by auto
  have c: "nodes_ok (inode k') c"
  proof (rule nodes_ok_cong [OF n(5)])
    fix x assume x: "x \<in> set_tree c"
    have "x \<noteq> NULL" using nodes_ok_dom [OF n(5) x] by simp
    moreover have "x \<noteq> owner ?lp" using o x InPeer.prems(2) by auto
    ultimately show "inode k' x = inode k x" using InPeer.prems(6) [of x] x inode_set_slot [of x ?lp q k] by simp
  qed
  have "slot (l, p) k' = slot (l, p) k"
  proof (rule slot_cong)
    have "owner (l, p) \<noteq> owner ?lp" using o InPeer.prems(5) by auto
    then show "inode k' (owner (l, p)) = inode k (owner (l, p))" if "owner (l, p) \<noteq> NULL"
      using that InPeer.prems(6) [of "owner (l, p)"] inode_set_slot [of "owner (l, p)" ?lp q k] by simp
    show "root_inode k' = root_inode k" using InPeer.prems(7) root_set_slot [OF on] by simp
  qed
  then show ?case using IH a c n InPeer.prems(3) by (simp add: slot_def)
next
  case (InChild C a r)
  let ?lp = "slot_of C NULL a"
  obtain n where n: "inode k a = Some n" "a \<noteq> NULL" "i_child n = ptr (fill C s)" "i_peer n = ptr r" "nodes_ok (inode k) r" "nodes_ok (inode k) (fill C s)"
    using InChild.prems(1) by auto
  have o: "?lp = (NULL, a) \<and> C = Hole \<or> owner ?lp \<in> set (ctx_nodes C)" using owner_slot_of [OF n(6), of NULL a] by (cases "C = Hole") auto
  have on: "owner ?lp \<noteq> NULL" using owner_slot_of [OF n(6), of NULL a] n(2) by (cases "C = Hole") (auto simp: owner_def)
  have IH: "nodes_ok (inode k') (fill C s') \<and> slot (NULL, a) k' = ptr (fill C s')"
    by (rule InChild.IH) (use InChild.prems n in \<open>auto simp: slot_def owner_def\<close>)
  obtain n' where n': "inode (set_slot ?lp q k) a = Some n'" "fst ?lp = a \<or> i_peer n' = i_peer n"
    using set_slot_fields [OF n(1,2), of ?lp q] by blast
  have "fst ?lp \<noteq> a" using o InChild.prems(2) n(2) by (auto simp: owner_def)
  then have a: "inode k' a = Some n'" "i_peer n' = ptr r" using InChild.prems(6) [of a] n' n by auto
  have oa: "owner ?lp = a \<or> owner ?lp \<in> set (ctx_nodes C)" using o by (auto simp: owner_def)
  have c: "nodes_ok (inode k') r"
  proof (rule nodes_ok_cong [OF n(5)])
    fix x assume x: "x \<in> set_tree r"
    have "x \<noteq> NULL" using nodes_ok_dom [OF n(5) x] by simp
    moreover have "x \<noteq> owner ?lp" using oa x InChild.prems(2) by auto
    ultimately show "inode k' x = inode k x" using InChild.prems(6) [of x] x inode_set_slot [of x ?lp q k] by simp
  qed
  have "slot (l, p) k' = slot (l, p) k"
  proof (rule slot_cong)
    have "owner (l, p) \<noteq> owner ?lp" using oa InChild.prems(5) by auto
    then show "inode k' (owner (l, p)) = inode k (owner (l, p))" if "owner (l, p) \<noteq> NULL"
      using that InChild.prems(6) [of "owner (l, p)"] inode_set_slot [of "owner (l, p)" ?lp q k] by simp
    show "root_inode k' = root_inode k" using InChild.prems(7) root_set_slot [OF on] by simp
  qed
  then show ?case using IH a c n InChild.prems(3) by (simp add: slot_def)
qed

end
