(* ===== verification/Inode_Search.thy ===== *)
theory Inode_Search
  imports Inode_Ops "HOL-Library.Sublist"
begin

section \<open>Searching, adding and removing inodes\<close>

text \<open>
  \<open>inode_search\<close> finds the node of a path, or the place where it belongs; adding and removing nodes there changes the paths below it and no others.
\<close>

subsection \<open>Search\<close>

fun locate :: "(addr \<Rightarrow> string) \<Rightarrow> (addr \<Rightarrow> bool) \<Rightarrow> string list \<Rightarrow> addr tree \<Rightarrow> ctx \<times> string list \<times> addr tree" where
  "locate nm mp cs Leaf = (Hole, cs, Leaf)"
| "locate nm mp cs (Node ch a r) =
     (if name_less (hd cs) (nm a) then (Hole, cs, Node ch a r)
      else if hd cs \<noteq> nm a then (case locate nm mp cs r of (C, ds, s) \<Rightarrow> (InPeer ch a C, ds, s))
      else if tl cs = [] \<or> mp a then (Hole, cs, Node ch a r)
      else (case locate nm mp (tl cs) ch of (C, ds, s) \<Rightarrow> (InChild C a r, ds, s)))"

definition found :: "(addr \<Rightarrow> string) \<Rightarrow> string list \<Rightarrow> addr tree \<Rightarrow> bool" where
  "found nm ds s \<longleftrightarrow> s \<noteq> Leaf \<and> nm (ptr s) = hd ds"

lemma fill_locate: "locate nm mp cs t = (C, ds, s) \<Longrightarrow> fill C s = t"
  by (induction t arbitrary: cs C) (auto split: if_splits prod.splits)

lemma search_locate:
  assumes "nodes_ok (inode k) t" "names_ok (name_of k) t" "locate (name_of k) (mountpt k) (comps name) t = (C, ds, s)"
  shows "\<exists>name'. comps name' = ds \<and> search_loop k name (ptr t) l p =
    Some (if found (name_of k) ds s then (ptr s, fst (slot_of C l p), snd (slot_of C l p), inode_nextname name', Some (inode_nextname name'))
          else (NULL, fst (slot_of C l p), snd (slot_of C l p), name', None))"
  using assms
proof (induction t arbitrary: name l p C)
  case Leaf
  then show ?case by (subst search_loop.simps) (auto simp: found_def)
next
  case (Node ch a r)
  obtain n where n: "inode k a = Some n" "a \<noteq> NULL" "i_child n = ptr ch" "i_peer n = ptr r" "nodes_ok (inode k) ch" "nodes_ok (inode k) r"
    using Node.prems(1) by auto
  have nm: "name_of k a = i_name n" "mountpt k a = INODE_IS_MOUNTPT n" using n(1) by (simp_all add: name_of_def mountpt_def)
  have sl: "SLASH \<notin> set (i_name n)" and ok: "names_ok (name_of k) ch" "names_ok (name_of k) r" using Node.prems(2) nm by auto
  note S = search_loop.simps [of k name "ptr (Node ch a r)" l p]
  show ?case
  proof (rule name_cases [OF sl, of name])
    assume c: "inode_compare name (i_name n) < 0" "name_less (inode_namecpy name) (i_name n)" "inode_namecpy name \<noteq> i_name n"
    then show ?thesis using Node.prems(3) n nm S by (auto simp: found_def intro!: exI [of _ name])
  next
    assume c: "inode_compare name (i_name n) > 0" "inode_namecpy name \<noteq> i_name n" "\<not> name_less (inode_namecpy name) (i_name n)"
    obtain C' where C': "locate (name_of k) (mountpt k) (comps name) r = (C', ds, s)" "C = InPeer ch a C'"
      using Node.prems(3) c nm by (auto split: prod.splits)
    have "search_loop k name (ptr (Node ch a r)) l p = search_loop k name (ptr r) a p" using c n S by simp
    moreover have "slot_of C l p = slot_of C' a p" using C'(2) by simp
    ultimately show ?thesis using Node.IH(2) [OF n(6) ok(2) C'(1), of a p] by (simp only:)
  next
    assume c: "inode_compare name (i_name n) = 0" "inode_namecpy name = i_name n"
    then have nl: "\<not> name_less (i_name n) (i_name n)" using name_less_irrefl [OF sl] by simp
    show ?thesis
    proof (cases "inode_nextname name = [] \<or> mountpt k a")
      case True
      then have "tl (comps name) = [] \<or> mountpt k a" by (auto simp: tl_comps)
      then show ?thesis using Node.prems(3) c n nm nl S True by (auto simp: found_def Let_def intro!: exI [of _ name])
    next
      case False
      then have t: "tl (comps name) = comps (inode_nextname name)" by (simp add: tl_comps)
      obtain C' where C': "locate (name_of k) (mountpt k) (comps (inode_nextname name)) ch = (C', ds, s)" "C = InChild C' a r"
        using Node.prems(3) c nm nl t False by (auto split: prod.splits)
      have "search_loop k name (ptr (Node ch a r)) l p = search_loop k (inode_nextname name) (ptr ch) NULL a" using c n nm S False by simp
      moreover have "slot_of C l p = slot_of C' NULL a" using C'(2) by simp
      ultimately show ?thesis using Node.IH(1) [OF n(5) ok(1) C'(1), of NULL a] by (simp only:)
    qed
  qed
qed

text \<open>On ordered names the search is right.\<close>

lemma lookup_locate:
  assumes "names_ok nm t" "\<forall>c\<in>set cs. SLASH \<notin> set c" "cs \<noteq> []" "locate nm mp cs t = (C, ds, s)"
  shows "lookup nm mp cs t = (if found nm ds s then Some (ptr s) else None)
    \<and> (\<not> found nm ds s \<longrightarrow> (\<forall>b\<in>set (peers s). name_less (hd ds) (nm b)))"
  using assms
proof (induction t arbitrary: cs C)
  case (Node ch a r)
  have i: "\<not> name_less (nm a) (nm a)" using Node.prems(1) name_less_irrefl by simp
  have sl: "SLASH \<notin> set (hd cs)" "SLASH \<notin> set (nm a)" using Node.prems(1-3) by (cases cs; simp)+
  show ?case
  proof (cases "name_less (hd cs) (nm a)")
    case True
    have less: "name_less (hd cs) (nm b)" if "b = a \<or> b \<in> set (peers r)" for b
      using that True Node.prems(1) name_less_trans [OF sl True, of "nm b"] by auto
    then have "hd cs \<notin> nm ` set (peers (Node ch a r))" using name_less_irrefl [OF sl(1)] by (metis image_iff list.set_intros peers.simps(2) set_ConsD)
    then have "lookup nm mp cs (Node ch a r) = None" by (rule lookup_not_peer)
    moreover have "hd cs \<noteq> nm a" using True i by auto
    ultimately show ?thesis using True Node.prems(4) less i by (auto simp: found_def)
  next
    case ge: False
    show ?thesis
    proof (cases "hd cs = nm a")
      case eq: True
      show ?thesis
      proof (cases "tl cs = [] \<or> mp a")
        case True
        then show ?thesis using ge eq Node.prems(4) by (auto simp: found_def)
      next
        case False
        obtain C' where C': "locate nm mp (tl cs) ch = (C', ds, s)" using ge eq False Node.prems(4) by (auto split: prod.splits)
        have "\<forall>c\<in>set (tl cs). SLASH \<notin> set c" using Node.prems(2) by (cases cs) auto
        then show ?thesis using Node.IH(1) [OF _ _ _ C'] Node.prems(1) False eq ge by simp
      qed
    next
      case False
      then obtain C' where C': "locate nm mp cs r = (C', ds, s)" using ge Node.prems(4) by (auto split: prod.splits)
      then show ?thesis using Node.IH(2) [OF _ Node.prems(2,3) C'] Node.prems(1) False by simp
    qed
  qed
qed (auto simp: found_def)

text \<open>Which paths go through the place of the search: all others do not depend on the subtree there.\<close>

definition splits :: "(addr \<Rightarrow> string) \<Rightarrow> (addr \<Rightarrow> bool) \<Rightarrow> addr tree \<Rightarrow> ctx \<Rightarrow> string \<Rightarrow> string list \<Rightarrow> bool" where
  "splits nm mp t C d pre \<longleftrightarrow>
     (\<forall>gs s'. gs \<noteq> [] \<longrightarrow> hd gs = d \<longrightarrow> lookup nm mp (pre @ gs) (fill C s') = lookup nm mp gs s')
     \<and> (\<forall>es. es \<noteq> [] \<longrightarrow> (\<forall>s'. lookup nm mp es (fill C s') = lookup nm mp es t)
         \<or> (\<exists>gs. es = pre @ gs \<and> gs \<noteq> [] \<and> (\<forall>s'. lookup nm mp es (fill C s') = lookup nm mp gs s')))
     \<and> (\<forall>es. es \<noteq> [] \<longrightarrow> prefix es pre \<longrightarrow> lookup nm mp es t \<noteq> None)"

lemma splitsD:
  assumes "splits nm mp t C d pre"
  shows "gs \<noteq> [] \<Longrightarrow> hd gs = d \<Longrightarrow> lookup nm mp (pre @ gs) (fill C s') = lookup nm mp gs s'"
    and "es \<noteq> [] \<Longrightarrow> (\<forall>s'. lookup nm mp es (fill C s') = lookup nm mp es t) \<or> (\<exists>gs. es = pre @ gs \<and> gs \<noteq> [] \<and> (\<forall>s'. lookup nm mp es (fill C s') = lookup nm mp gs s'))"
    and "es \<noteq> [] \<Longrightarrow> prefix es pre \<Longrightarrow> lookup nm mp es t \<noteq> None"
  using assms unfolding splits_def by simp_all

lemma lookup_fill:
  assumes "names_ok nm t" "locate nm mp cs t = (C, ds, s)" "cs \<noteq> []"
  shows "\<exists>pre. cs = pre @ ds \<and> ds \<noteq> [] \<and> splits nm mp t C (hd ds) pre"
  using assms
proof (induction t arbitrary: cs C)
  case Leaf
  then show ?case by (auto simp: splits_def)
next
  case (Node ch a r)
  show ?case
  proof (cases "name_less (hd cs) (nm a) \<or> hd cs = nm a \<and> (tl cs = [] \<or> mp a)")
    case True
    then have "C = Hole" "ds = cs" "s = Node ch a r" using Node.prems(2) by (auto split: if_splits prod.splits)
    then show ?thesis using Node.prems(3) by (auto simp: splits_def)
  next
    case ge: False
    show ?thesis
    proof (cases "hd cs = nm a")
      case eq: True
      then have ne: "tl cs \<noteq> []" "\<not> mp a" "cs = nm a # tl cs" using ge Node.prems(3) by (auto simp: neq_Nil_conv)
      have i: "\<not> name_less (nm a) (nm a)" using Node.prems(1) name_less_irrefl by simp
      then obtain C' where C': "locate nm mp (tl cs) ch = (C', ds, s)" "C = InChild C' a r"
        using eq ne(1,2) Node.prems(2) by (auto split: prod.splits)
      have ok: "names_ok nm ch" using Node.prems(1) by simp
      obtain pre where p: "tl cs = pre @ ds" "ds \<noteq> []" "splits nm mp ch C' (hd ds) pre"
        using Node.IH(1) [OF ok C'(1) ne(1)] by blast
      note pre = p(1,2) splitsD [OF p(3)]
      have "(\<forall>s'. lookup nm mp es (fill C s') = lookup nm mp es (Node ch a r)) \<or> (\<exists>gs. es = (nm a # pre) @ gs \<and> gs \<noteq> [] \<and> (\<forall>s'. lookup nm mp es (fill C s') = lookup nm mp gs s'))"
        if "es \<noteq> []" for es
      proof (cases "hd es = nm a \<and> tl es \<noteq> []")
        case True
        then have "es = nm a # tl es" using that by (cases es) auto
        then show ?thesis using pre(4) [of "tl es"] True C'(2) ne(2) by (cases es) auto
      next
        case False
        then show ?thesis using C'(2) by auto
      qed
      moreover have "lookup nm mp es (Node ch a r) \<noteq> None" if "es \<noteq> []" "prefix es (nm a # pre)" for es
        using that pre(5) [of "tl es"] by (cases es) auto
      ultimately show ?thesis using pre(1-3) C'(2) ne by (intro exI [of _ "nm a # pre"]) (auto simp: splits_def)
    next
      case False
      then obtain C' where C': "locate nm mp cs r = (C', ds, s)" "C = InPeer ch a C'" using ge Node.prems(2) by (auto split: prod.splits)
      have ok: "names_ok nm r" using Node.prems(1) by simp
      obtain pre where p: "cs = pre @ ds" "ds \<noteq> []" "splits nm mp r C' (hd ds) pre"
        using Node.IH(2) [OF ok C'(1) Node.prems(3)] by blast
      note pre = p(1,2) splitsD [OF p(3)]
      have "hd (pre @ gs) \<noteq> nm a" if "gs \<noteq> []" "hd gs = hd ds" for gs using that False pre(1,2) by (cases pre) auto
      moreover have "(\<forall>s'. lookup nm mp es (fill C s') = lookup nm mp es (Node ch a r)) \<or> (\<exists>gs. es = pre @ gs \<and> gs \<noteq> [] \<and> (\<forall>s'. lookup nm mp es (fill C s') = lookup nm mp gs s'))"
        if "es \<noteq> []" for es
        using pre(4) [OF that] C'(2) by (cases "hd es = nm a") auto
      moreover have "lookup nm mp es (Node ch a r) \<noteq> None" if "es \<noteq> []" "prefix es pre" for es
        using that pre(5) [of es] False pre(1) by (cases es) (auto simp: prefix_def)
      ultimately show ?thesis using pre(1-3) C'(2) by (intro exI [of _ pre]) (auto simp: splits_def)
    qed
  qed
qed


lemma locate_cong: "(\<And>a. a \<in> set_tree t \<Longrightarrow> nm' a = nm a \<and> mp' a = mp a) \<Longrightarrow> locate nm' mp' cs t = locate nm mp cs t"
  by (induction t arbitrary: cs) (auto split: prod.splits)

end
