(* ===== verification/Inode_Update.thy ===== *)
theory Inode_Update
  imports Inode_Search
begin

section \<open>Adding and removing inodes\<close>

text \<open>
  The effect of \<open>inode_insert\<close>, \<open>inode_unlink\<close>, \<open>inode_free\<close> and the loop of \<open>inode_reserve\<close> on the tree that the inodes represent. The search ends at a slot of the tree:
  insertion puts a node before the subtree there, removal takes its first node out.
\<close>

subsection \<open>The file system around a slot\<close>

definition at_slot :: "ctx \<Rightarrow> addr tree \<Rightarrow> addr \<times> addr \<Rightarrow> fs \<Rightarrow> bool" where
  "at_slot C s lp k \<longleftrightarrow> fs_rep k (fill C s) \<and> lp = slot_of C NULL NULL"

lemma slot_fill: "nodes_ok (inode k) (fill C s) \<Longrightarrow> slot (l, p) k = ptr (fill C s) \<Longrightarrow> slot (slot_of C l p) k = ptr s"
proof (induction C arbitrary: l p)
  case (InPeer c a C)
  then show ?case by (auto simp: slot_def)
next
  case (InChild C a r)
  then show ?case by (auto simp: slot_def)
qed simp

lemma at_slot_ptr: "at_slot C s lp k \<Longrightarrow> slot lp k = ptr s"
  by (auto simp: at_slot_def fs_rep_def intro!: slot_fill simp: slot_def [of "(NULL, NULL)"])

lemma at_slot_owner: "at_slot C s lp k \<Longrightarrow> owner lp = NULL \<and> lp = (NULL, NULL) \<and> C = Hole \<or> owner lp \<noteq> NULL \<and> owner lp \<in> set (ctx_nodes C) \<and> inode k (owner lp) \<noteq> None"
  using owner_slot_of [of "inode k" C s NULL NULL] nodes_ok_dom [of "inode k" "fill C s" "owner lp"]
  by (cases "C = Hole") (auto simp: at_slot_def fs_rep_def owner_def set_fill)

text \<open>Contexts compose.\<close>

fun ccomp :: "ctx \<Rightarrow> ctx \<Rightarrow> ctx" where
  "ccomp Hole D = D"
| "ccomp (InPeer c a C) D = InPeer c a (ccomp C D)"
| "ccomp (InChild C a r) D = InChild (ccomp C D) a r"

lemma fill_ccomp [simp]: "fill (ccomp C D) s = fill C (fill D s)"
  by (induction C) auto

lemma slot_of_ccomp [simp]: "slot_of (ccomp C D) l p = (case slot_of C l p of (l, p) \<Rightarrow> slot_of D l p)"
  by (induction C arbitrary: l p) auto

lemma peers_fill_Node: "peers (fill C (Node ch a s)) = peers (fill C (Node ch' a s))"
  by (induction C) auto

lemma names_ok_child: "names_ok nm (fill C (Node ch a s)) \<longleftrightarrow> names_ok nm (fill C (Node Leaf a s)) \<and> names_ok nm ch"
  by (induction C) (auto simp: peers_fill_Node [of _ ch a s Leaf])

lemma peers_fill_sub: "set (peers s') \<subseteq> set (peers s) \<Longrightarrow> set (peers (fill C s')) \<subseteq> set (peers (fill C s))"
  by (induction C) auto

lemma names_ok_sub: "names_ok nm (fill C s) \<Longrightarrow> names_ok nm s' \<Longrightarrow> set (peers s') \<subseteq> set (peers s) \<Longrightarrow> names_ok nm (fill C s')"
proof (induction C)
  case (InPeer c a C)
  then show ?case using peers_fill_sub [OF InPeer.prems(3), of C] by auto
qed auto

text \<open>Writing the slot of a represented tree, while other inodes may change outside of it.\<close>

lemma at_slot_write:
  assumes "at_slot C s lp k" "distinct (inorder s')" "set (ctx_nodes C) \<inter> set_tree s' = {}" "ptr s' = q"
    and "\<And>a. a \<in> set (ctx_nodes C) \<Longrightarrow> inode k' a = inode (set_slot lp q k) a"
    and "root_inode k' = root_inode (set_slot lp q k)" "nodes_ok (inode k') s'" "names_ok (name_of k') (fill C s')"
  shows "at_slot C s' lp k'"
proof -
  have lp: "lp = slot_of C NULL NULL" and rep: "root_inode k = ptr (fill C s)" "nodes_ok (inode k) (fill C s)" "distinct (inorder (fill C s))"
    using assms(1) by (simp_all add: at_slot_def fs_rep_def)
  have "nodes_ok (inode k') (fill C s') \<and> slot (NULL, NULL) k' = ptr (fill C s')"
    by (rule fill_set_slot [OF rep(2), of NULL NULL k' q])
       (use assms(5-7) rep lp assms(4) nodes_ok_dom [OF rep(2), of NULL] in \<open>auto simp: distinct_fill slot_def owner_def set_fill\<close>)
  then show ?thesis using lp assms(2,3,8) rep(3) by (simp add: at_slot_def fs_rep_def distinct_fill slot_def)
qed

subsection \<open>Insertion\<close>

text \<open>Everything but the links of an inode.\<close>

definition same_inode :: "inode \<Rightarrow> inode \<Rightarrow> bool" where
  "same_inode n n' \<longleftrightarrow> i_name n' = i_name n \<and> i_crefs n' = i_crefs n \<and> i_flags n' = i_flags n \<and> i_ops n' = i_ops n \<and> i_private n' = i_private n"

definition keeps :: "fs \<Rightarrow> fs \<Rightarrow> bool" where
  "keeps k k' \<longleftrightarrow> tree_sem k' = tree_sem k \<and> (\<forall>a n. inode k a = Some n \<longrightarrow> (\<exists>n'. inode k' a = Some n' \<and> same_inode n n'))"

lemma keeps_refl: "keeps k k"
  by (simp add: keeps_def same_inode_def)

lemma keeps_trans: "keeps k k' \<Longrightarrow> keeps k' k'' \<Longrightarrow> keeps k k''"
  unfolding keeps_def same_inode_def by metis

lemma keeps_name: "keeps k k' \<Longrightarrow> inode k a \<noteq> None \<Longrightarrow> name_of k' a = name_of k a \<and> mountpt k' a = mountpt k a"
  by (fastforce simp: keeps_def name_of_def mountpt_def same_inode_def INODE_IS_MOUNTPT_def)

lemma insert_set_slot:
  assumes "at_slot C s lp k" "inode k a = Some n" "a \<noteq> NULL" "a \<notin> set_tree (fill C s)"
  shows "inode_insert a (fst lp) (snd lp) k = Some (set_slot lp a (k\<lparr>inode := (inode k)(a \<mapsto> n\<lparr>i_peer := ptr s\<rparr>)\<rparr>))"
proof -
  have "a \<noteq> owner lp" using at_slot_owner [OF assms(1)] assms(3,4) by (auto simp: set_fill)
  then show ?thesis using at_slot_ptr [OF assms(1)] at_slot_owner [OF assms(1)] assms(2)
    by (cases lp) (auto simp: inode_insert_def upd_inode_def set_slot_def slot_def owner_def fun_upd_twist split: if_splits)
qed

lemma keeps_set_slot: "keeps k (set_slot lp q k)"
  by (auto simp: keeps_def same_inode_def set_slot_def split: prod.splits)


lemma inode_set_slot_dom: "owner lp \<noteq> NULL \<and> inode k (owner lp) \<noteq> None \<or> lp = (NULL, NULL) \<Longrightarrow> dom (inode (set_slot lp q k)) = dom (inode k)"
  by (auto simp: set_slot_def owner_def split: prod.splits if_splits)

definition new_inode :: "string \<Rightarrow> addr \<Rightarrow> inode" where
  "new_inode nm p = zero_inode\<lparr>i_name := nm, i_peer := p\<rparr>"

lemma new_inode_sel [simp]:
  "i_name (new_inode nm p) = nm" "i_peer (new_inode nm p) = p" "i_child (new_inode nm p) = NULL" "i_flags (new_inode nm p) = 0" "i_crefs (new_inode nm p) = 0"
  by (simp_all add: new_inode_def zero_inode_def)

lemma alloc_insert:
  assumes "at_slot C s lp k" "kz k \<noteq> NULL" "inode k (kz k) = None"
    and "names_ok ((name_of k)(kz k := inode_namecpy name)) (fill C (Node Leaf (kz k) s))"
  obtains k1 k' where "inode_alloc kz name k = (kz k, k1)" "inode_insert (kz k) (fst lp) (snd lp) k1 = Some k'" "at_slot C (Node Leaf (kz k) s) lp k'" "keeps k k'"
    "inode k' (kz k) = Some (new_inode (inode_namecpy name) (ptr s))" "dom (inode k') = insert (kz k) (dom (inode k))" "\<And>b. b \<notin> set_tree (fill C s) \<Longrightarrow> b \<noteq> NULL \<Longrightarrow> inode k b \<noteq> None \<Longrightarrow> inode k' b = inode k b"
proof -
  let ?a = "kz k"
  let ?n = "zero_inode\<lparr>i_name := inode_namecpy name\<rparr>"
  let ?k1 = "k\<lparr>inode := (inode k)(?a \<mapsto> ?n)\<rparr>"
  let ?k2 = "k\<lparr>inode := (inode k)(?a \<mapsto> new_inode (inode_namecpy name) (ptr s))\<rparr>"
  let ?k' = "set_slot lp ?a ?k2"
  have rep: "nodes_ok (inode k) (fill C s)" "distinct (inorder (fill C s))" "names_ok (name_of k) (fill C s)" "root_inode k = ptr (fill C s)"
    using assms(1) by (simp_all add: at_slot_def fs_rep_def)
  have out: "?a \<notin> set_tree (fill C s)" using nodes_ok_dom [OF rep(1), of ?a] assms(3) by auto
  have eq: "nodes_ok (inode ?k1) (fill C s)" by (rule nodes_ok_cong [OF rep(1)]) (use out in auto)
  have nm: "name_of ?k1 x = name_of k x" if "x \<in> set_tree (fill C s)" for x using that out by (auto simp: name_of_def)
  have at1: "at_slot C s lp ?k1"
    using assms(1) eq rep names_ok_cong [OF rep(3) nm] by (simp add: at_slot_def fs_rep_def)
  have ins: "inode_insert ?a (fst lp) (snd lp) ?k1 = Some ?k'"
    using insert_set_slot [OF at1, of ?a ?n] assms(2) out by (simp add: new_inode_def)
  have o: "owner lp \<noteq> ?a" using at_slot_owner [OF assms(1)] assms(2) out by (auto simp: set_fill)
  have a: "inode ?k' ?a = Some (new_inode (inode_namecpy name) (ptr s))" using inode_set_slot [of ?a lp ?a ?k2] o assms(2) by simp
  have K: "keeps k ?k'"
  proof (rule keeps_trans [OF _ keeps_set_slot])
    show "keeps k ?k2" using assms(3) by (auto simp: keeps_def same_inode_def)
  qed
  have ne: "x \<noteq> ?a \<Longrightarrow> x \<noteq> NULL \<Longrightarrow> inode ?k' x = inode (set_slot lp ?a k) x" for x
    by (auto simp: set_slot_def split: prod.splits)
  have s_ok: "nodes_ok (inode k) s" using rep(1) by (induction C) auto
  have "nodes_ok (inode ?k') s"
  proof (rule nodes_ok_cong [OF s_ok])
    fix x assume x: "x \<in> set_tree s"
    then have "x \<noteq> ?a" "x \<noteq> NULL" "x \<noteq> owner lp"
      using out nodes_ok_dom [OF s_ok x] at_slot_owner [OF assms(1)] rep(2) by (auto simp: set_fill distinct_fill)
    then show "inode ?k' x = inode k x" using inode_set_slot [of x lp ?a ?k2] by simp
  qed
  then have nok: "nodes_ok (inode ?k') (Node Leaf ?a s)" using a assms(2) by simp
  have names: "names_ok (name_of ?k') (fill C (Node Leaf ?a s))"
  proof (rule names_ok_cong [OF assms(4)])
    fix x assume "x \<in> set_tree (fill C (Node Leaf ?a s))"
    then have "x = ?a \<or> x \<in> set_tree (fill C s)" by (auto simp: set_fill)
    then show "name_of ?k' x = ((name_of k)(?a := inode_namecpy name)) x"
      using a keeps_name [OF K, of x] nodes_ok_dom [OF rep(1), of x] out by (auto simp: name_of_def)
  qed
  have ctx: "x \<noteq> NULL" "x \<noteq> ?a" if "x \<in> set (ctx_nodes C)" for x using that out nodes_ok_dom [OF rep(1), of x] by (auto simp: set_fill)
  have "at_slot C (Node Leaf ?a s) lp ?k'"
    by (rule at_slot_write [OF assms(1), where q = ?a])
       (use nok names rep(2) out ctx ne in \<open>auto simp: distinct_fill set_fill\<close>, auto simp: set_slot_def split: prod.splits)
  moreover have "dom (inode ?k') = insert ?a (dom (inode k))"
  proof -
    have "owner lp \<noteq> NULL \<and> inode ?k2 (owner lp) \<noteq> None \<or> lp = (NULL, NULL)" using at_slot_owner [OF assms(1)] o by auto
    from inode_set_slot_dom [OF this, of ?a] show ?thesis by simp
  qed
  moreover have "inode ?k' b = inode k b" if "b \<notin> set_tree (fill C s)" "b \<noteq> NULL" "inode k b \<noteq> None" for b
  proof -
    have "b \<noteq> owner lp" "b \<noteq> ?a" using that at_slot_owner [OF assms(1)] assms(3) by (auto simp: set_fill)
    then show ?thesis using inode_set_slot [of b lp ?a ?k2] that(2) by simp
  qed
  ultimately show ?thesis using that [of ?k1 ?k'] ins K a assms(2) by (simp add: inode_alloc_def Let_def)
qed


subsection \<open>The loop of reserve\<close>

fun chain :: "addr list \<Rightarrow> addr tree \<Rightarrow> addr tree" where
  "chain [] s = s"
| "chain (a # as) s = Node (chain as Leaf) a s"

definition reserved :: "(fs \<Rightarrow> addr) \<Rightarrow> string list \<Rightarrow> ctx \<Rightarrow> addr tree \<Rightarrow> fs \<Rightarrow> addr list \<Rightarrow> int \<Rightarrow> addr \<Rightarrow> fs \<Rightarrow> bool" where
  "reserved kz cs C s k ns ret node k' \<longleftrightarrow>
     fs_rep k' (fill C (chain ns s)) \<and> keeps k k' \<and> map (name_of k') ns = take (length ns) cs
     \<and> dom (inode k') = dom (inode k) \<union> set ns \<and> (\<forall>a\<in>set ns. inode k a = None \<and> i_flags (the (inode k' a)) = 0 \<and> i_crefs (the (inode k' a)) = 0)
     \<and> (\<forall>b. b \<notin> set_tree (fill C s) \<and> b \<noteq> NULL \<and> inode k b \<noteq> None \<longrightarrow> inode k' b = inode k b)
     \<and> (ret = OK \<and> length ns = length cs \<and> node = last ns \<or> ret = - ENOMEM \<and> node = NULL \<and> length ns < length cs \<and> kz k' = NULL)"

lemma not_mountpt_new: "i_flags (the (inode k a)) = 0 \<Longrightarrow> \<not> mountpt k a"
  by (simp add: mountpt_def INODE_IS_MOUNTPT_def)

lemma reserved_stop: "at_slot C s lp k \<Longrightarrow> kz k = NULL \<Longrightarrow> cs \<noteq> [] \<Longrightarrow> reserved kz cs C s k [] (- ENOMEM) NULL k"
  by (simp add: reserved_def at_slot_def keeps_refl)

lemma reserved_last:
  assumes "at_slot C (Node Leaf a s) lp k'" "keeps k k'" "inode k' a = Some (new_inode c q)" "dom (inode k') = insert a (dom (inode k))" "inode k a = None"
    and "\<And>b. b \<notin> set_tree (fill C s) \<Longrightarrow> b \<noteq> NULL \<Longrightarrow> inode k b \<noteq> None \<Longrightarrow> inode k' b = inode k b"
  shows "reserved kz [c] C s k [a] OK a k'"
  using assms by (simp add: reserved_def at_slot_def name_of_def)

lemma reserved_step:
  assumes "keeps k k1" "inode k1 a = Some (new_inode c q)" "dom (inode k1) = insert a (dom (inode k))" "inode k a = None"
    and "\<And>b. b \<notin> set_tree (fill C s) \<Longrightarrow> b \<noteq> NULL \<Longrightarrow> inode k b \<noteq> None \<Longrightarrow> inode k1 b = inode k b"
    and "reserved kz cs (ccomp C (InChild Hole a s)) Leaf k1 ns ret node k'" "cs \<noteq> []"
  shows "reserved kz (c # cs) C s k (a # ns) ret node k'"
proof -
  have R: "keeps k1 k'" "\<And>b. b \<in> set ns \<Longrightarrow> inode k1 b = None" "\<And>b. b \<notin> set_tree (fill C (Node Leaf a s)) \<Longrightarrow> b \<noteq> NULL \<Longrightarrow> inode k1 b \<noteq> None \<Longrightarrow> inode k' b = inode k1 b"
    using assms(6) by (simp_all add: reserved_def)
  have "name_of k' a = c \<and> i_flags (the (inode k' a)) = 0 \<and> i_crefs (the (inode k' a)) = 0" using assms(2) R(1) by (fastforce simp: keeps_def same_inode_def name_of_def)
  moreover have "inode k b = None" if "b \<in> set ns" for b using R(2) [OF that] assms(3) by auto
  moreover have "inode k' b = inode k b" if "b \<notin> set_tree (fill C s)" "b \<noteq> NULL" "inode k b \<noteq> None" for b
  proof -
    have "b \<noteq> a" using that(3) assms(4) by auto
    then show ?thesis using R(3) [of b] assms(5) [OF that] that by (auto simp: set_fill)
  qed
  moreover have "keeps k k'" by (rule keeps_trans [OF assms(1) R(1)])
  ultimately show ?thesis using assms(3,4,6,7) by (auto simp: reserved_def)
qed

lemma reserve_loop_ok:
  assumes "\<And>k. kz k \<noteq> NULL \<Longrightarrow> inode k (kz k) = None" "at_slot C s lp k"
    and "\<And>a. a \<notin> set_tree (fill C s) \<Longrightarrow> names_ok ((name_of k)(a := inode_namecpy name)) (fill C (Node Leaf a s))"
  shows "\<exists>ns ret node k'. reserve_loop kz name (fst lp) (snd lp) k = Some (ret, node, k') \<and> reserved kz (comps name) C s k ns ret node k'"
  using assms(2,3)
proof (induction "length name" arbitrary: name C s lp k rule: less_induct)
  case less
  note R = reserve_loop.simps [of kz name "fst lp" "snd lp" k]
  show ?case
  proof (cases "kz k = NULL")
    case True
    then have "inode_alloc kz name k = (NULL, k)" by (simp add: inode_alloc_def)
    then have "reserve_loop kz name (fst lp) (snd lp) k = Some (- ENOMEM, NULL, k)" using R by (simp add: Let_def)
    then show ?thesis using reserved_stop [of C s lp k kz "comps name"] less.prems(1) True by auto
  next
    case nz: False
    note fr = assms(1) [OF nz]
    have "kz k \<notin> set_tree (fill C s)" using less.prems(1) nodes_ok_dom [of "inode k" "fill C s" "kz k"] fr by (auto simp: at_slot_def fs_rep_def)
    note N = less.prems(2) [OF this]
    obtain k1 k' where K: "inode_alloc kz name k = (kz k, k1)" "inode_insert (kz k) (fst lp) (snd lp) k1 = Some k'" "at_slot C (Node Leaf (kz k) s) lp k'" "keeps k k'"
      "inode k' (kz k) = Some (new_inode (inode_namecpy name) (ptr s))" "dom (inode k') = insert (kz k) (dom (inode k))"
      and fk: "\<And>b. b \<notin> set_tree (fill C s) \<Longrightarrow> b \<noteq> NULL \<Longrightarrow> inode k b \<noteq> None \<Longrightarrow> inode k' b = inode k b"
      by (rule alloc_insert [where kz = kz, OF less.prems(1) nz fr N]) blast
    show ?thesis
    proof (cases "inode_nextname name = []")
      case True
      then have "reserve_loop kz name (fst lp) (snd lp) k = Some (OK, kz k, k')" using R K nz by (simp add: Let_def)
      moreover have "comps name = [inode_namecpy name]" using True by (simp add: comps.simps)
      ultimately show ?thesis using reserved_last [OF K(3,4,5,6) fr fk] by auto
    next
      case False
      let ?D = "ccomp C (InChild Hole (kz k) s)"
      have at: "at_slot ?D Leaf (NULL, kz k) k'" using K(3) by (auto simp: at_slot_def split: prod.splits)
      have names: "names_ok ((name_of k')(a := inode_namecpy (inode_nextname name))) (fill ?D (Node Leaf a Leaf))" if a: "a \<notin> set_tree (fill ?D Leaf)" for a
      proof -
        have "names_ok (name_of k') (fill C (Node Leaf (kz k) s))" using K(3) by (simp add: at_slot_def fs_rep_def)
        then have "names_ok ((name_of k')(a := inode_namecpy (inode_nextname name))) (fill C (Node Leaf (kz k) s))"
          by (rule names_ok_cong) (use a in auto)
        then show ?thesis by (simp add: names_ok_child [of _ C "Node Leaf a Leaf"])
      qed
      obtain ns ret node k2 where I: "reserve_loop kz (inode_nextname name) NULL (kz k) k' = Some (ret, node, k2)" "reserved kz (comps (inode_nextname name)) ?D Leaf k' ns ret node k2"
        using less.hyps [OF length_nextname [OF False] at names] by auto
      have "reserve_loop kz name (fst lp) (snd lp) k = Some (ret, node, k2)" using R K nz False I(1) by (simp add: Let_def)
      moreover have "comps name = inode_namecpy name # comps (inode_nextname name)" using False by (simp add: comps.simps [of name])
      ultimately show ?thesis using reserved_step [OF K(4,5,6) fr fk I(2)] by auto
    qed
  qed
qed

end
