(* ===== verification/Inode_Remove.thy ===== *)
theory Inode_Remove
  imports Inode_Update
begin

section \<open>Removing inodes and the paths after a change\<close>

text \<open>
  \<open>inode_unlink\<close> takes the first node of the subtree at a slot out of the tree, with its children; \<open>inode_free\<close> frees a whole subtree and always ends on one. The second part
  computes the nodes of all paths after an insertion or a removal from the nodes before.
\<close>

lemma names_ok_part: "names_ok nm (fill C s) \<Longrightarrow> names_ok nm s"
  by (induction C) auto

lemma nodes_ok_part: "nodes_ok h (fill C s) \<Longrightarrow> nodes_ok h s"
  by (induction C) auto

lemma unlink_ok:
  assumes "at_slot C (Node ch x r) lp k" "inode k x = Some n"
  obtains k' where "inode_unlink x (fst lp) (snd lp) k = Some k'" "at_slot C r lp k'" "keeps k k'" "dom (inode k') = dom (inode k)"
    "inode k' x = Some (n\<lparr>i_peer := NULL\<rparr>)" "nodes_ok (inode k') (Node ch x Leaf)" "\<And>a. a \<notin> set_tree (fill C (Node ch x r)) \<Longrightarrow> inode k' a = inode k a"
proof -
  let ?k1 = "set_slot lp (ptr r) k"
  let ?k' = "?k1\<lparr>inode := (inode ?k1)(x \<mapsto> n\<lparr>i_peer := NULL\<rparr>)\<rparr>"
  have rep: "nodes_ok (inode k) (fill C (Node ch x r))" "distinct (inorder (fill C (Node ch x r)))" "names_ok (name_of k) (fill C (Node ch x r))"
    using assms(1) by (simp_all add: at_slot_def fs_rep_def)
  have sub: "nodes_ok (inode k) ch" "nodes_ok (inode k) r" "i_child n = ptr ch" "i_peer n = ptr r" "x \<noteq> NULL"
    using nodes_ok_part [OF rep(1)] assms(2) by auto
  have o: "owner lp = NULL \<and> lp = (NULL, NULL) \<or> owner lp \<noteq> NULL \<and> owner lp \<in> set (ctx_nodes C) \<and> inode k (owner lp) \<noteq> None"
    using at_slot_owner [OF assms(1)] by blast
  have d: "a \<noteq> owner lp" if "a \<in> set_tree (Node ch x r)" for a
    using that o rep(2) nodes_ok_dom [OF nodes_ok_part [OF rep(1)] that] by (auto simp: distinct_fill)
  have k1x: "inode ?k1 x = Some n" using inode_set_slot [of x lp "ptr r" k] d [of x] sub assms(2) by simp
  have unl: "inode_unlink x (fst lp) (snd lp) k = Some ?k'"
    using o assms(2) k1x sub by (cases lp) (auto simp: inode_unlink_def upd_inode_def set_slot_def owner_def split: if_splits)
  have K: "keeps k ?k'"
  proof (rule keeps_trans [OF keeps_set_slot])
    show "keeps ?k1 ?k'" using k1x by (auto simp: keeps_def same_inode_def)
  qed
  have same: "inode ?k' a = inode k a" if "a \<in> set_tree (Node ch x r)" "a \<noteq> x" for a
    using that inode_set_slot [of a lp "ptr r" k] d [of a] nodes_ok_dom [OF nodes_ok_part [OF rep(1)], of a] by simp
  have part: "distinct (inorder (Node ch x r))" using rep(2) by (simp add: distinct_fill)
  have ch: "nodes_ok (inode ?k') ch" by (rule nodes_ok_cong [OF sub(1)]) (use same part in auto)
  have r: "nodes_ok (inode ?k') r" by (rule nodes_ok_cong [OF sub(2)]) (use same part in auto)
  have out: "x \<notin> set (ctx_nodes C)" using rep(2) by (auto simp: distinct_fill)
  have "set_tree (fill C r) \<subseteq> dom (inode k)" using nodes_ok_dom [OF rep(1)] by (auto simp: set_fill)
  then have "names_ok (name_of ?k') (fill C r)"
    using names_ok_cong [OF names_ok_sub [OF rep(3), of r], of "name_of ?k'"] keeps_name [OF K] names_ok_part [OF rep(3)] by (fastforce simp: set_fill)
  then have at: "at_slot C r lp ?k'"
    by (intro at_slot_write [OF assms(1), where q = "ptr r"]) (use rep(2) r out in \<open>auto simp: distinct_fill\<close>)
  have dom: "dom (inode ?k') = dom (inode k)" using inode_set_slot_dom [of lp k "ptr r"] o k1x by auto
  have fr: "inode ?k' a = inode k a" if "a \<notin> set_tree (fill C (Node ch x r))" for a
  proof (cases "a = NULL")
    case True
    then show ?thesis using sub(5) o by (auto simp: set_slot_def owner_def split: prod.splits)
  next
    case False
    then show ?thesis using that inode_set_slot [of a lp "ptr r" k] o by (auto simp: set_fill)
  qed
  show ?thesis by (rule that [OF unl at K dom _ _ fr]) (use ch sub in auto)
qed

lemma free_ok: "nodes_ok (inode k) t \<Longrightarrow> distinct (inorder t) \<Longrightarrow> inode_free (ptr t) k = Some (k\<lparr>inode := \<lambda>a. if a \<in> set_tree t then None else inode k a\<rparr>)"
proof (induction t arbitrary: k)
  case Leaf
  then show ?case using inode_free.simps [of NULL k] by simp
next
  case (Node c a r)
  obtain n where n: "inode k a = Some n" "a \<noteq> NULL" "i_child n = ptr c" "i_peer n = ptr r" "nodes_ok (inode k) c" "nodes_ok (inode k) r"
    using Node.prems(1) by auto
  let ?k1 = "k\<lparr>inode := \<lambda>x. if x \<in> set_tree r then None else inode k x\<rparr>"
  have d: "a \<notin> set_tree r" "a \<notin> set_tree c" "distinct (inorder c)" "distinct (inorder r)" "set_tree c \<inter> set_tree r = {}" using Node.prems(2) by auto
  have "nodes_ok (inode ?k1) c" by (rule nodes_ok_cong [OF n(5)]) (use d in auto)
  note F = Node.IH(1) [OF this d(3)] Node.IH(2) [OF n(6) d(4)]
  have "inode_free (i_peer n) k = Some ?k1" using F(2) n(4) by simp
  moreover have "inode ?k1 a = Some n" using n(1) d(1) by simp
  moreover have "inode_free (i_child n) ?k1 = Some (?k1\<lparr>inode := \<lambda>x. if x \<in> set_tree c then None else inode ?k1 x\<rparr>)" (is "_ = Some ?k2") using F(1) n(3) by simp
  moreover have "kfree a ?k2 = Some (k\<lparr>inode := \<lambda>x. if x \<in> set_tree (Node c a r) then None else inode k x\<rparr>)"
    using n(1) d(1,2) by (auto simp: kfree_def fun_eq_iff intro!: arg_cong [of _ _ "\<lambda>h. k\<lparr>inode := h\<rparr>"])
  ultimately show ?case using n(1,2) inode_free.simps [of a k] by simp
qed

subsection \<open>Paths after an insertion\<close>

lemma namecpy_id: "SLASH \<notin> set f \<Longrightarrow> inode_namecpy f = f"
  by (induction f) auto

lemma name_less_linear: "SLASH \<notin> set a \<Longrightarrow> SLASH \<notin> set b \<Longrightarrow> \<not> name_less a b \<Longrightarrow> a \<noteq> b \<Longrightarrow> name_less b a"
  using name_cases [of b a] namecpy_id [of a] by metis

lemma comps_no_slash: "c \<in> set (comps name) \<Longrightarrow> SLASH \<notin> set c"
proof (induction name rule: comps.induct)
  case (1 name)
  then show ?case by (subst (asm) (2) comps.simps) (auto split: if_splits)
qed

lemma locate_level: "locate nm mp cs t = (C, ds, s) \<Longrightarrow> a \<notin> set_tree t \<Longrightarrow> a \<in> set (peers (fill C (Node Leaf a s))) \<Longrightarrow> ds = cs"
proof (induction t arbitrary: C)
  case (Node c x r)
  have "set (peers r) \<subseteq> set_tree r" by (rule peers_set)
  then show ?case using Node by (auto split: if_splits prod.splits)
qed auto

lemma peers_fill_new: "b \<in> set (peers (fill C (Node Leaf a s))) \<Longrightarrow> b = a \<or> b \<in> set (peers (fill C s))"
  by (induction C) auto

lemma locate_fits:
  assumes "names_ok nm t" "\<forall>c\<in>set cs. SLASH \<notin> set c" "cs \<noteq> []" "locate nm mp cs t = (C, ds, s)" "\<not> found nm ds s" "a \<notin> set_tree t"
    and "nm' a = hd ds" "\<And>b. b \<noteq> a \<Longrightarrow> nm' b = nm b"
  shows "names_ok nm' (fill C (Node Leaf a s))"
  using assms(1-6)
proof (induction t arbitrary: cs C)
  case Leaf
  then show ?case using assms(7) by (cases cs) auto
next
  case (Node c x r)
  have L: "\<forall>b\<in>set (peers s). name_less (hd ds) (nm b)" using lookup_locate [OF Node.prems(1-4)] Node.prems(5) by simp
  have cong: "names_ok nm' u" if "names_ok nm u" "a \<notin> set_tree u" for u by (rule names_ok_cong [OF that(1)]) (use that(2) assms(8) in metis)
  have sl: "SLASH \<notin> set (hd cs)" "SLASH \<notin> set (nm x)" using Node.prems(1-3) by (cases cs; simp)+
  have ax: "a \<noteq> x" "a \<notin> set_tree c" "a \<notin> set_tree r" using Node.prems(6) by auto
  have pr: "\<forall>b\<in>set (peers r). nm' b = nm b" using assms(8) ax(3) peers_set [of r] by (metis subsetD)
  have a_peers: "a \<notin> set (peers u)" if "a \<notin> set_tree u" for u using that peers_set [of u] by auto
  show ?case
  proof (cases "name_less (hd cs) (nm x) \<or> hd cs = nm x \<and> (tl cs = [] \<or> mp x)")
    case True
    then have "C = Hole" "ds = cs" "s = Node c x r" using Node.prems(4) by (auto split: if_splits prod.splits)
    then show ?thesis using pr L sl assms(7) cong [OF Node.prems(1,6)] ax a_peers [of r] assms(7,8) by auto
  next
    case ge: False
    show ?thesis
    proof (cases "hd cs = nm x")
      case eq: True
      then have ne: "tl cs \<noteq> []" "\<not> mp x" using ge by auto
      then obtain C' where C': "locate nm mp (tl cs) c = (C', ds, s)" "C = InChild C' x r"
        using eq ge Node.prems(4) by (auto split: prod.splits)
      have "\<forall>c\<in>set (tl cs). SLASH \<notin> set c" using Node.prems(2) by (cases cs) auto
      then show ?thesis using pr Node.IH(1) [OF _ _ ne(1) C'(1) Node.prems(5)] cong [of r] ax a_peers [of r] Node.prems(1) C'(2) assms(8) by auto
    next
      case False
      then obtain C' where C': "locate nm mp cs r = (C', ds, s)" "C = InPeer c x C'" using ge Node.prems(4) by (auto split: prod.splits)
      have less: "name_less (nm x) (hd cs)" using name_less_linear [OF sl] ge False by simp
      have "name_less (nm x) (nm' b)" if b: "b \<in> set (peers (fill C' (Node Leaf a s)))" for b
      proof (cases "b = a")
        case True
        then show ?thesis using locate_level [OF C'(1) ax(3)] b less assms(7) by simp
      next
        case False
        then show ?thesis using peers_fill_new [OF b] fill_locate [OF C'(1)] Node.prems(1) assms(8) by auto
      qed
      then show ?thesis using Node.IH(2) [OF _ Node.prems(2,3) C'(1) Node.prems(5)] cong [of c] ax Node.prems(1) C'(2) assms(8) by auto
    qed
  qed
qed


lemma lookup_chain:
  assumes "map nm ns = take (length ns) ds" "\<forall>a\<in>set ns. \<not> mp a" "ns \<noteq> []" "gs \<noteq> []" "hd ds \<notin> nm ` set (peers s)"
  shows "lookup nm mp gs (chain ns s) =
    (if hd gs = hd ds then if prefix gs ds \<and> length gs \<le> length ns then Some (ns ! (length gs - 1)) else None else lookup nm mp gs s)"
  using assms
proof (induction ns arbitrary: gs ds s)
  case (Cons a ns)
  obtain d ds' where ds: "ds = d # ds'" "nm a = d" "map nm ns = take (length ns) ds'" using Cons.prems(1) by (cases ds) auto
  obtain g gs' where gs: "gs = g # gs'" using Cons.prems(4) by (cases gs) auto
  show ?case
  proof (cases "g = d \<and> gs' \<noteq> []")
    case True
    show ?thesis
    proof (cases ns)
      case Nil
      then show ?thesis using True ds gs Cons.prems(2) by (cases gs') auto
    next
      case (Cons b ns')
      have "lookup nm mp gs' (chain ns Leaf) =
        (if hd gs' = hd ds' then if prefix gs' ds' \<and> length gs' \<le> length ns then Some (ns ! (length gs' - 1)) else None else None)"
        using Cons.IH [OF ds(3), of gs' Leaf] True Cons Cons.prems(2) by simp
      moreover have "hd gs' = hd ds'" if "prefix gs' ds'" using that True by (cases gs'; cases ds') auto
      moreover have "lookup nm mp gs (chain (a # ns) s) = lookup nm mp gs' (chain ns Leaf)" using True ds(2) gs Cons.prems(2) by simp
      moreover have "hd gs = hd ds" "prefix gs ds \<longleftrightarrow> prefix gs' ds'" "length gs \<le> length (a # ns) \<longleftrightarrow> length gs' \<le> length ns" using True gs ds(1) by simp_all
      moreover have "(a # ns) ! (length gs - 1) = ns ! (length gs' - 1)" using True gs by (cases gs') simp_all
      ultimately show ?thesis by (simp split del: if_split cong: if_cong) presburger
    qed
  next
    case False
    then show ?thesis using ds gs Cons.prems(2,5) lookup_not_peer [of gs nm s mp] by auto
  qed
qed simp


lemma lookup_inserted:
  assumes "names_ok nm t" "\<forall>c\<in>set cs. SLASH \<notin> set c" "cs \<noteq> []" "locate nm mp cs t = (C, ds, s)" "\<not> found nm ds s"
    and "\<And>a. a \<in> set_tree t \<Longrightarrow> nm' a = nm a \<and> mp' a = mp a" "map nm' ns = take (length ns) ds" "\<forall>a\<in>set ns. \<not> mp' a"
  shows "es \<noteq> [] \<Longrightarrow> lookup nm mp es t \<noteq> None \<or> \<not> prefix es cs \<Longrightarrow> lookup nm' mp' es (fill C (chain ns s)) = lookup nm mp es t"
    and "length ns = length ds \<Longrightarrow> lookup nm' mp' cs (fill C (chain ns s)) = Some (last ns)"
    and "length ns < length ds \<Longrightarrow> lookup nm' mp' cs (fill C (chain ns s)) = None"
    and "length ns = length ds \<Longrightarrow> es \<noteq> [] \<Longrightarrow> prefix es cs \<Longrightarrow> lookup nm' mp' es (fill C (chain ns s)) \<noteq> None"
proof -
  have ok: "names_ok nm' t" by (rule names_ok_cong [OF assms(1)]) (use assms(6) in simp)
  have old: "lookup nm mp es t = lookup nm' mp' es t" for es using lookup_cong [of t nm' nm mp' mp es] assms(6) by simp
  have loc: "locate nm' mp' cs t = (C, ds, s)" using assms(4) locate_cong [of t nm' nm mp' mp cs] assms(6) by simp
  have fill: "fill C s = t" by (rule fill_locate [OF loc])
  have less: "\<forall>b\<in>set (peers s). name_less (hd ds) (nm' b)"
  proof -
    have "\<not> found nm' ds s" using assms(5,6) fill by (cases s) (auto simp: found_def set_fill)
    then show ?thesis using lookup_locate [OF ok assms(2,3) loc] by simp
  qed
  obtain pre where p: "cs = pre @ ds" "ds \<noteq> []" "splits nm' mp' t C (hd ds) pre" using lookup_fill [OF ok loc assms(3)] by blast
  note pre = p(1,2) splitsD [OF p(3)]
  have sl: "SLASH \<notin> set (hd ds)" using assms(2) pre(1,2) by (cases ds) auto
  have np: "hd ds \<notin> nm' ` set (peers s)" using less name_less_irrefl [OF sl] by auto
  have ch: "lookup nm' mp' gs (chain ns s) =
      (if hd gs = hd ds then if prefix gs ds \<and> length gs \<le> length ns then Some (ns ! (length gs - 1)) else None else lookup nm' mp' gs s)" if "gs \<noteq> []" for gs
  proof (cases "ns = []")
    case True
    then show ?thesis using that lookup_not_peer [of gs nm' s mp'] np by simp
  next
    case False
    then show ?thesis using lookup_chain [OF assms(7,8) False that np] by simp
  qed
  have dd: "hd ds \<notin> nm' ` set (peers s) \<Longrightarrow> gs \<noteq> [] \<Longrightarrow> hd gs = hd ds \<Longrightarrow> lookup nm' mp' (pre @ gs) t = None" for gs
    using pre(3) [of gs s] fill lookup_not_peer [of gs nm' s mp'] by simp
  show keep: "lookup nm' mp' es (fill C (chain ns s)) = lookup nm mp es t" if es: "es \<noteq> []" "lookup nm mp es t \<noteq> None \<or> \<not> prefix es cs" for es
    using pre(4) [OF es(1)]
  proof (elim disjE exE conjE)
    assume "\<forall>s'. lookup nm' mp' es (fill C s') = lookup nm' mp' es t"
    then show ?thesis by (simp add: old)
  next
    fix gs assume gs: "es = pre @ gs" "gs \<noteq> []" "\<forall>s'. lookup nm' mp' es (fill C s') = lookup nm' mp' gs s'"
    have "lookup nm' mp' es t = lookup nm' mp' gs s" using gs(3) fill by metis
    then show ?thesis using gs ch [OF gs(2)] dd [OF np gs(2)] es(2) old [of es] pre(1) by auto
  qed
  have new: "lookup nm' mp' (pre @ gs) (fill C (chain ns s)) = (if prefix gs ds \<and> length gs \<le> length ns then Some (ns ! (length gs - 1)) else None)"
    if "gs \<noteq> []" "hd gs = hd ds" for gs using pre(3) [OF that] ch [OF that(1)] that(2) by simp
  show "lookup nm' mp' cs (fill C (chain ns s)) = Some (last ns)" if "length ns = length ds"
    using new [of ds] pre(1,2) that last_conv_nth [of ns] by (cases "ns = []") auto
  show "lookup nm' mp' cs (fill C (chain ns s)) = None" if "length ns < length ds"
    using new [of ds] pre(1,2) that by simp
  show "lookup nm' mp' es (fill C (chain ns s)) \<noteq> None" if e: "length ns = length ds" "es \<noteq> []" "prefix es cs" for es
  proof (cases "prefix es pre")
    case True
    then show ?thesis using keep [OF e(2)] pre(5) [OF e(2) True] old [of es] by simp
  next
    case False
    then obtain gs where gs: "es = pre @ gs" "gs \<noteq> []" "prefix gs ds" using e(3) pre(1) by (auto simp: prefix_append)
    then have "hd gs = hd ds" by (cases gs; cases ds) auto
    then show ?thesis using new [OF gs(2)] gs e(1) prefix_length_le [OF gs(3)] by simp
  qed
qed

subsection \<open>Paths after a removal\<close>

lemma lookup_removed:
  assumes "names_ok nm t" "\<forall>c\<in>set cs. SLASH \<notin> set c" "cs \<noteq> []" "locate nm mp cs t = (C, ds, Node ch x r)" "found nm ds (Node ch x r)"
    and "\<And>a. a \<in> set_tree t \<Longrightarrow> nm' a = nm a \<and> mp' a = mp a"
  obtains ps where "prefix ps cs" "ps \<noteq> []" "lookup nm mp ps t = Some x" "\<not> mp x \<longrightarrow> ps = cs"
    "\<And>es. es \<noteq> [] \<Longrightarrow> lookup nm' mp' es (fill C r) = (if prefix ps es then None else lookup nm mp es t)"
    "\<And>gs. gs \<noteq> [] \<Longrightarrow> \<not> mp x \<Longrightarrow> lookup nm mp (ps @ gs) t = lookup nm mp gs ch"
proof -
  have fill: "fill C (Node ch x r) = t" by (rule fill_locate [OF assms(4)])
  obtain pre where p: "cs = pre @ ds" "ds \<noteq> []" "splits nm mp t C (hd ds) pre" using lookup_fill [OF assms(1,4,3)] by blast
  note pre = p(1,2) splitsD [OF p(3)]
  have part: "names_ok nm (Node ch x r)" using assms(1) fill names_ok_part by metis
  then have np: "nm x \<notin> nm ` set (peers r)" using name_less_irrefl [of "nm x"] by auto
  have hd: "nm x = hd ds" using assms(5) by (simp add: found_def)
  let ?ps = "pre @ [hd ds]"
  have px: "lookup nm mp ?ps t = Some x" using pre(3) [of "[hd ds]" "Node ch x r"] fill hd by simp
  have gone: "lookup nm mp (pre @ gs) (fill C r) = None" if "gs \<noteq> []" "hd gs = hd ds" for gs
    using pre(3) [OF that, of r] lookup_not_peer [of gs nm r mp] np hd that(2) by simp
  have cong: "lookup nm' mp' es (fill C r) = lookup nm mp es (fill C r)" for es
    by (rule lookup_cong) (use assms(6) fill in \<open>auto simp: set_fill\<close>)
  have fin: "lookup nm' mp' es (fill C r) = (if prefix ?ps es then None else lookup nm mp es t)" if es: "es \<noteq> []" for es
  proof (cases "prefix ?ps es")
    case True
    then obtain gs where "es = pre @ hd ds # gs" by (auto simp: prefix_def)
    then show ?thesis using gone [of "hd ds # gs"] cong [of es] by simp
  next
    case False
    show ?thesis using pre(4) [OF es]
    proof (elim disjE exE conjE)
      assume "\<forall>s'. lookup nm mp es (fill C s') = lookup nm mp es t"
      then show ?thesis using False cong [of es] by simp
    next
      fix gs assume gs: "es = pre @ gs" "gs \<noteq> []" "\<forall>s'. lookup nm mp es (fill C s') = lookup nm mp gs s'"
      have "hd gs \<noteq> hd ds" using False gs(1,2) by (cases gs) (auto simp: prefix_def)
      then have "lookup nm mp gs (Node ch x r) = lookup nm mp gs r" using hd by simp
      then show ?thesis using False gs(3) fill cong [of es] by metis
    qed
  qed
  have last: "ds = [hd ds]" if "\<not> mp x"
  proof -
    have "\<not> name_less (nm x) (nm x)" using part name_less_irrefl by simp
    then have "tl ds = [] \<or> mp x" using assms(4,5) by (induction t arbitrary: cs C) (auto simp: found_def split: if_splits prod.splits)
    then show ?thesis using that pre(2) by (cases ds) auto
  qed
  show ?thesis
  proof (rule that [of ?ps])
    show "prefix ?ps cs" using pre(1,2) by (cases ds) auto
    show "\<not> mp x \<longrightarrow> ?ps = cs" using pre(1) last by auto
    show "lookup nm mp (?ps @ gs) t = lookup nm mp gs ch" if "gs \<noteq> []" "\<not> mp x" for gs
      using pre(3) [of "hd ds # gs" "Node ch x r"] fill hd that by simp
  qed (use px fin in auto)
qed

end
