(* ===== verification/Inode_Props.thy ===== *)
theory Inode_Props
  imports Inode_Remove
begin

section \<open>Correctness of the inode tree\<close>

text \<open>
  The operations on the tree of inodes against the map from paths to nodes that the tree represents: the search, adding a path, removing one, the references that defer the
  removal, and the drivers on top of them.
\<close>

definition node_at :: "fs \<Rightarrow> addr tree \<Rightarrow> string list \<Rightarrow> addr option" where
  "node_at k t cs = lookup (name_of k) (mountpt k) cs t"

lemma node_at_mem: "fs_rep k t \<Longrightarrow> node_at k t cs = Some x \<Longrightarrow> x \<in> set_tree t \<and> x \<noteq> NULL \<and> (\<exists>n. inode k x = Some n)"
  using lookup_Some [of "name_of k" "mountpt k" cs t x] nodes_ok_dom [of "inode k" t x] by (auto simp: node_at_def fs_rep_def)

text \<open>The search, with the slot where it ends.\<close>

lemma search_ok:
  assumes "fs_rep k t"
  obtains C ds s lp name' where "locate (name_of k) (mountpt k) (comps name) t = (C, ds, s)" "comps name' = ds" "at_slot C s lp k" "fill C s = t"
    "found (name_of k) ds s \<Longrightarrow> node_at k t (comps name) = Some (ptr s)" "\<not> found (name_of k) ds s \<Longrightarrow> node_at k t (comps name) = None"
    "inode_search (SLASH # name) k = Some (if found (name_of k) ds s then (ptr s, fst lp, snd lp, inode_nextname name', Some (inode_nextname name'))
       else (NULL, fst lp, snd lp, name', None))"
proof -
  obtain C ds s where L: "locate (name_of k) (mountpt k) (comps name) t = (C, ds, s)" by (metis prod_cases3)
  have rep: "nodes_ok (inode k) t" "names_ok (name_of k) t" "root_inode k = ptr t" using assms by (simp_all add: fs_rep_def)
  obtain name' where S: "comps name' = ds" "search_loop k name (ptr t) NULL NULL =
      Some (if found (name_of k) ds s then (ptr s, fst (slot_of C NULL NULL), snd (slot_of C NULL NULL), inode_nextname name', Some (inode_nextname name'))
          else (NULL, fst (slot_of C NULL NULL), snd (slot_of C NULL NULL), name', None))"
    using search_locate [OF rep(1,2) L, of NULL NULL] by blast
  have "lookup (name_of k) (mountpt k) (comps name) t = (if found (name_of k) ds s then Some (ptr s) else None)"
    using lookup_locate [OF rep(2) _ comps_not_Nil L] comps_no_slash by blast
  then show ?thesis using that [OF L S(1), of "slot_of C NULL NULL"] S(2) assms fill_locate [OF L] rep(3) by (simp add: at_slot_def node_at_def inode_search_def)
qed

text \<open>
  C22: \<open>inode_search\<close> returns on every file system that represents a tree, and finds for every path the node that the tree has for it, or none if there is none.
\<close>

theorem inode_search_refines:
  assumes "fs_rep k t"
  shows "\<exists>node left parent rest relpath. inode_search (SLASH # name) k = Some (node, left, parent, rest, relpath)
    \<and> node_at k t (comps name) = (if node = NULL then None else Some node) \<and> (relpath = None \<longleftrightarrow> node = NULL)"
proof (rule search_ok [OF assms, of name])
  fix C ds s lp name'
  assume a: "found (name_of k) ds s \<Longrightarrow> node_at k t (comps name) = Some (ptr s)" "\<not> found (name_of k) ds s \<Longrightarrow> node_at k t (comps name) = None"
    "inode_search (SLASH # name) k = Some (if found (name_of k) ds s then (ptr s, fst lp, snd lp, inode_nextname name', Some (inode_nextname name'))
       else (NULL, fst lp, snd lp, name', None))"
  show ?thesis
  proof (cases "found (name_of k) ds s")
    case True
    then show ?thesis using a(1,3) node_at_mem [OF assms] by simp
  next
    case False
    then show ?thesis using a(2,3) by simp
  qed
qed

lemma reserve_ok:
  assumes "fs_rep k t" "\<And>k. kz k \<noteq> NULL \<Longrightarrow> inode k (kz k) = None"
  obtains ret node k' t' where "inode_reserve kz (SLASH # name) k = Some (ret, node, k')" "fs_rep k' t'" "keeps k k'"
    "node_at k t (comps name) \<noteq> None \<Longrightarrow> ret = - EEXIST \<and> node = NULL \<and> k' = k"
    "node_at k t (comps name) = None \<Longrightarrow> ret = OK \<and> node_at k' t' (comps name) = Some node \<and> inode k node = None \<and> i_flags (the (inode k' node)) = 0
         \<and> (\<forall>es. es \<noteq> [] \<and> prefix es (comps name) \<longrightarrow> node_at k' t' es \<noteq> None)
       \<or> ret = - ENOMEM \<and> node = NULL \<and> kz k' = NULL \<and> node_at k' t' (comps name) = None"
    "\<And>es. es \<noteq> [] \<Longrightarrow> node_at k t es \<noteq> None \<or> \<not> prefix es (comps name) \<Longrightarrow> node_at k' t' es = node_at k t es"
    "\<And>a n. inode k a = None \<Longrightarrow> inode k' a = Some n \<Longrightarrow> i_crefs n = 0 \<and> i_flags n = 0" "set_tree t \<subseteq> set_tree t'" "set_tree t' \<subseteq> set_tree t \<union> {a. inode k a = None}"
    "\<And>b. b \<notin> set_tree t \<Longrightarrow> b \<noteq> NULL \<Longrightarrow> inode k b \<noteq> None \<Longrightarrow> inode k' b = inode k b"
proof (rule search_ok [OF assms(1), of name])
  fix C ds s lp name'
  assume L: "locate (name_of k) (mountpt k) (comps name) t = (C, ds, s)" and n: "comps name' = ds" and at: "at_slot C s lp k" and fill: "fill C s = t"
    and a: "found (name_of k) ds s \<Longrightarrow> node_at k t (comps name) = Some (ptr s)" "\<not> found (name_of k) ds s \<Longrightarrow> node_at k t (comps name) = None"
    "inode_search (SLASH # name) k = Some (if found (name_of k) ds s then (ptr s, fst lp, snd lp, inode_nextname name', Some (inode_nextname name'))
       else (NULL, fst lp, snd lp, name', None))"
  have R: "names_ok (name_of k) t" "\<forall>c\<in>set (comps name). SLASH \<notin> set c" "comps name \<noteq> []"
    using assms(1) comps_no_slash by (auto simp: fs_rep_def)
  show ?thesis
  proof (cases "found (name_of k) ds s")
    case True
    then have "inode_reserve kz (SLASH # name) k = Some (- EEXIST, NULL, k)"
      using a(3) node_at_mem [OF assms(1) a(1)] by (simp add: inode_reserve_def)
    then show ?thesis by (rule that) (use a(1) [OF True] assms(1) keeps_refl [of k] in auto)
  next
    case False
    have fits: "names_ok ((name_of k)(b := inode_namecpy name')) (fill C (Node Leaf b s))" if "b \<notin> set_tree (fill C s)" for b
      using locate_fits [OF R L False, of b "(name_of k)(b := inode_namecpy name')"] that fill n hd_comps [of name'] by simp
    obtain ns ret node k' where S: "reserve_loop kz name' (fst lp) (snd lp) k = Some (ret, node, k')" "reserved kz ds C s k ns ret node k'"
      using reserve_loop_ok [OF assms(2) at fits] n by auto
    let ?t' = "fill C (chain ns s)"
    have ret: "inode_reserve kz (SLASH # name) k = Some (ret, node, k')" using S(1) a(3) False by (simp add: inode_reserve_def)
    have K: "keeps k k'" "fs_rep k' ?t'" using S(2) by (simp_all add: reserved_def)
    have cong: "name_of k' b = name_of k b \<and> mountpt k' b = mountpt k b" if "b \<in> set_tree t" for b
      using keeps_name [OF K(1), of b] nodes_ok_dom [of "inode k" t b] assms(1) that by (auto simp: fs_rep_def)
    have ns: "map (name_of k') ns = take (length ns) ds" "\<forall>a\<in>set ns. \<not> mountpt k' a" using S(2) not_mountpt_new by (auto simp: reserved_def)
    note I = lookup_inserted [where nm' = "name_of k'" and mp' = "mountpt k'" and ns = ns, OF R L False cong ns, folded node_at_def]
    have "inode k (last ns) = None \<and> i_flags (the (inode k' (last ns))) = 0" if "length ns = length ds"
    proof -
      have "last ns \<in> set ns" using that n comps_not_Nil [of name'] by (intro last_in_set) auto
      then show ?thesis using S(2) by (simp add: reserved_def)
    qed
    then have "ret = OK \<and> node_at k' ?t' (comps name) = Some node \<and> inode k node = None \<and> i_flags (the (inode k' node)) = 0
         \<and> (\<forall>es. es \<noteq> [] \<and> prefix es (comps name) \<longrightarrow> node_at k' ?t' es \<noteq> None)
       \<or> ret = - ENOMEM \<and> node = NULL \<and> kz k' = NULL \<and> node_at k' ?t' (comps name) = None"
      using S(2) I(2-4) unfolding reserved_def by metis
    moreover have "i_crefs n = 0 \<and> i_flags n = 0" if "inode k b = None" "inode k' b = Some n" for b n
    proof -
      have "dom (inode k') = dom (inode k) \<union> set ns" and new: "\<forall>a\<in>set ns. i_flags (the (inode k' a)) = 0 \<and> i_crefs (the (inode k' a)) = 0"
        using S(2) by (simp_all add: reserved_def)
      then have "b \<in> set ns" using that by blast
      then show ?thesis using new that(2) by fastforce
    qed
    moreover have "set_tree (chain ns s) = set ns \<union> set_tree s" by (induction ns arbitrary: s) auto
    then have "set_tree ?t' = set_tree t \<union> set ns" using fill by (auto simp: set_fill)
    moreover have "set ns \<subseteq> {a. inode k a = None}" using S(2) by (auto simp: reserved_def)
    moreover have "inode k' b = inode k b" if "b \<notin> set_tree t" "b \<noteq> NULL" "inode k b \<noteq> None" for b using S(2) that fill by (simp add: reserved_def)
    ultimately show ?thesis using that [OF ret K(2,1)] I(1) a(2) [OF False] by auto
  qed
qed

text \<open>Changes of an inode that leave its name and links alone.\<close>

lemma fs_rep_upd:
  assumes "fs_rep k t" "inode k x = Some n" "i_name m = i_name n" "i_peer m = i_peer n" "i_child m = i_child n" "INODE_IS_MOUNTPT m = INODE_IS_MOUNTPT n"
  shows "fs_rep (k\<lparr>inode := (inode k)(x \<mapsto> m), tree_sem := v\<rparr>) t" "node_at (k\<lparr>inode := (inode k)(x \<mapsto> m), tree_sem := v\<rparr>) t es = node_at k t es"
proof -
  let ?k = "k\<lparr>inode := (inode k)(x \<mapsto> m), tree_sem := v\<rparr>"
  have nm: "name_of ?k = name_of k" "mountpt ?k = mountpt k" using assms by (auto simp: name_of_def mountpt_def fun_eq_iff)
  have "nodes_ok (inode ?k) t" if "nodes_ok (inode k) t" using that by (induction t) (use assms in auto)
  then show "fs_rep ?k t" "node_at ?k t es = node_at k t es" using assms(1) nm by (simp_all add: fs_rep_def node_at_def)
qed

lemma fs_rep_sem: "fs_rep (k\<lparr>tree_sem := v\<rparr>) t = fs_rep k t" "node_at (k\<lparr>tree_sem := v\<rparr>) t es = node_at k t es"
proof -
  have "name_of (k\<lparr>tree_sem := v\<rparr>) = name_of k" "mountpt (k\<lparr>tree_sem := v\<rparr>) = mountpt k" by (auto simp: name_of_def mountpt_def fun_eq_iff)
  then show "fs_rep (k\<lparr>tree_sem := v\<rparr>) t = fs_rep k t" "node_at (k\<lparr>tree_sem := v\<rparr>) t es = node_at k t es" by (simp_all add: fs_rep_def node_at_def)
qed


text \<open>
  C23: \<open>register_driver\<close> and \<open>register_blockdriver\<close> add a new path with the operations, the data and the type of the driver. The other paths keep their nodes; only missing leading parts
  of the new path are added. A path that is in use, or lies below a mount point, is refused with \<open>-EEXIST\<close> and nothing changes. When the memory is used up the result is \<open>-ENOMEM\<close>
  and the path is not added. The semaphore of the tree is given back in every case.
\<close>

theorem register_driver_correct:
  assumes "fs_rep k t" "tree_sem k > 0" "\<And>k. kz k \<noteq> NULL \<Longrightarrow> inode k (kz k) = None"
  shows "\<exists>ret k' t'. (if block then register_blockdriver else register_driver) kz (SLASH # name) fops priv k = Some (ret, k') \<and> fs_rep k' t' \<and> tree_sem k' = tree_sem k \<and>
    (if node_at k t (comps name) \<noteq> None then ret = - EEXIST \<and> k' = k
     else (ret = OK \<and> (\<exists>node n. node_at k' t' (comps name) = Some node \<and> inode k node = None \<and> inode k' node = Some n
              \<and> i_ops n = fops \<and> i_private n = priv \<and> i_flags n = (if block then FSNODEFLAG_TYPE_BLOCK else 0))
             \<and> (\<forall>es. es \<noteq> [] \<and> prefix es (comps name) \<longrightarrow> node_at k' t' es \<noteq> None)
           \<or> ret = - ENOMEM \<and> node_at k' t' (comps name) = None \<and> kz (k'\<lparr>tree_sem := tree_sem k - 1\<rparr>) = NULL)
          \<and> (\<forall>es. es \<noteq> [] \<and> (node_at k t es \<noteq> None \<or> \<not> prefix es (comps name)) \<longrightarrow> node_at k' t' es = node_at k t es))"
proof -
  let ?k0 = "k\<lparr>tree_sem := tree_sem k - 1\<rparr>"
  let ?reg = "(if block then register_blockdriver else register_driver) kz (SLASH # name) fops priv k"
  let ?fl = "\<lambda>n. if block then (i_flags n AND not16 FSNODEFLAG_TYPE_MASK) OR FSNODEFLAG_TYPE_BLOCK else i_flags n AND not16 FSNODEFLAG_TYPE_MASK"
  have take: "inode_semtake k = Some ?k0" using assms(2) by (simp add: inode_semtake_def)
  have rep0: "fs_rep ?k0 t" using assms(1) by (simp add: fs_rep_sem)
  show ?thesis
  proof (rule reserve_ok [OF rep0 assms(3), of name])
    fix ret node k' t'
    assume r: "inode_reserve kz (SLASH # name) ?k0 = Some (ret, node, k')" "fs_rep k' t'" "keeps ?k0 k'"
      and found: "node_at ?k0 t (comps name) \<noteq> None \<Longrightarrow> ret = - EEXIST \<and> node = NULL \<and> k' = ?k0"
      and new: "node_at ?k0 t (comps name) = None \<Longrightarrow> ret = OK \<and> node_at k' t' (comps name) = Some node \<and> inode ?k0 node = None \<and> i_flags (the (inode k' node)) = 0
         \<and> (\<forall>es. es \<noteq> [] \<and> prefix es (comps name) \<longrightarrow> node_at k' t' es \<noteq> None)
       \<or> ret = - ENOMEM \<and> node = NULL \<and> kz k' = NULL \<and> node_at k' t' (comps name) = None"
      and old: "\<And>es. es \<noteq> [] \<Longrightarrow> node_at ?k0 t es \<noteq> None \<or> \<not> prefix es (comps name) \<Longrightarrow> node_at k' t' es = node_at ?k0 t es"
    have sem: "tree_sem k' = tree_sem k - 1" using r(3) by (simp add: keeps_def)
    show ?thesis
    proof (cases "ret = OK")
      case True
      then have N: "node_at k t (comps name) = None" "node_at k' t' (comps name) = Some node" "inode k node = None" "i_flags (the (inode k' node)) = 0"
        "\<forall>es. es \<noteq> [] \<and> prefix es (comps name) \<longrightarrow> node_at k' t' es \<noteq> None"
        using found new by (cases "node_at k t (comps name) = None"; simp add: fs_rep_sem)+
      obtain n where n: "inode k' node = Some n" "i_flags n = 0" using node_at_mem [OF r(2) N(2)] N(4) by auto
      let ?m = "n\<lparr>i_flags := ?fl n, i_ops := fops, i_private := priv\<rparr>"
      let ?k2 = "k'\<lparr>inode := (inode k')(node \<mapsto> ?m), tree_sem := tree_sem k\<rparr>"
      have m: "INODE_IS_MOUNTPT ?m = INODE_IS_MOUNTPT n" "?fl n = (if block then FSNODEFLAG_TYPE_BLOCK else 0)" using n(2) by (auto simp: INODE_IS_MOUNTPT_def)
      have "?reg = Some (OK, ?k2)"
        using take r(1) True n(1) sem by (simp add: register_driver_def register_blockdriver_def upd_inode_def inode_semgive_def)
      moreover note fs_rep_upd [OF r(2) n(1), of ?m "tree_sem k"]
      ultimately show ?thesis using N n m old by (intro exI [of _ OK] exI [of _ ?k2] exI [of _ t']) (simp add: fs_rep_sem)
    next
      case False
      let ?k2 = "k'\<lparr>tree_sem := tree_sem k\<rparr>"
      have neg: "ret < 0" using False found new by (cases "node_at ?k0 t (comps name) = None") auto
      have "?reg = Some (ret, ?k2)"
        using take r(1) neg sem by (simp add: register_driver_def register_blockdriver_def inode_semgive_def)
      moreover have "?k2\<lparr>tree_sem := tree_sem k - 1\<rparr> = k'" using sem by simp
      ultimately show ?thesis using r(2) False found new old
        by (intro exI [of _ ret] exI [of _ ?k2] exI [of _ t']) (auto simp: fs_rep_sem)
    qed
  qed
qed


subsection \<open>Removal\<close>

text \<open>The removed node with its children is a tree of its own.\<close>

lemma remove_ok:
  assumes "fs_rep k t" "node_at k t (comps name) = Some x" "inode k x = Some n"
  obtains lp k1 t' ch ps where "inode_remove (SLASH # name) k =
      (if i_crefs n \<noteq> 0 then do { k \<leftarrow> upd_inode x (i_flags_update (\<lambda>f. f OR FSNODEFLAG_DELETED)) k1; Some (- EBUSY, k) }
       else do { k \<leftarrow> inode_free (i_child n) k1; k \<leftarrow> kfree x k; Some (OK, k) })"
    "inode k1 x = Some (n\<lparr>i_peer := NULL\<rparr>)" "fs_rep k1 t'" "keeps k k1" "dom (inode k1) = dom (inode k)"
    "nodes_ok (inode k1) (Node ch x Leaf)" "distinct (inorder (Node ch x Leaf))" "set_tree (Node ch x Leaf) = set_tree t - set_tree t'" "set_tree t' \<subseteq> set_tree t" "i_child n = ptr ch"
    "\<And>b. b \<notin> set_tree t \<Longrightarrow> inode k1 b = inode k b"
    "prefix ps (comps name)" "ps \<noteq> []" "node_at k t ps = Some x" "\<not> mountpt k x \<longrightarrow> ps = comps name"
    "\<And>es. es \<noteq> [] \<Longrightarrow> node_at k1 t' es = (if prefix ps es then None else node_at k t es)"
    "\<And>gs y. gs \<noteq> [] \<Longrightarrow> \<not> mountpt k x \<Longrightarrow> node_at k t (ps @ gs) = Some y \<Longrightarrow> y \<in> set_tree ch"
proof (rule search_ok [OF assms(1), of name])
  fix C ds s lp name'
  assume L: "locate (name_of k) (mountpt k) (comps name) t = (C, ds, s)" and n: "comps name' = ds" and at: "at_slot C s lp k" and fill: "fill C s = t"
    and a: "found (name_of k) ds s \<Longrightarrow> node_at k t (comps name) = Some (ptr s)" "\<not> found (name_of k) ds s \<Longrightarrow> node_at k t (comps name) = None"
    "inode_search (SLASH # name) k = Some (if found (name_of k) ds s then (ptr s, fst lp, snd lp, inode_nextname name', Some (inode_nextname name'))
       else (NULL, fst lp, snd lp, name', None))"
  have R: "names_ok (name_of k) t" "\<forall>c\<in>set (comps name). SLASH \<notin> set c" "comps name \<noteq> []"
    using assms(1) comps_no_slash by (auto simp: fs_rep_def)
  have F: "found (name_of k) ds s" using a(2) assms(2) by auto
  then obtain ch r where s: "s = Node ch x r" using a(1) assms(2) by (cases s) (auto simp: found_def)
  have x: "x \<noteq> NULL" using node_at_mem [OF assms(1,2)] by simp
  have d: "distinct (inorder t)" using assms(1) by (simp add: fs_rep_def)
  obtain k1 where U: "inode_unlink x (fst lp) (snd lp) k = Some k1" "at_slot C r lp k1" "keeps k k1" "dom (inode k1) = dom (inode k)"
    "inode k1 x = Some (n\<lparr>i_peer := NULL\<rparr>)" "nodes_ok (inode k1) (Node ch x Leaf)" "\<And>b. b \<notin> set_tree t \<Longrightarrow> inode k1 b = inode k b"
    unfolding fill [symmetric] s by (rule unlink_ok [OF at [unfolded s] assms(3)]) blast
  have cong: "name_of k1 b = name_of k b \<and> mountpt k1 b = mountpt k b" if "b \<in> set_tree t" for b
    using keeps_name [OF U(3), of b] nodes_ok_dom [of "inode k" t b] assms(1) that by (auto simp: fs_rep_def)
  obtain ps where ps: "prefix ps (comps name)" "ps \<noteq> []" "node_at k t ps = Some x" "\<not> mountpt k x \<longrightarrow> ps = comps name"
    "\<And>es. es \<noteq> [] \<Longrightarrow> node_at k1 (fill C r) es = (if prefix ps es then None else node_at k t es)"
    "\<And>gs y. gs \<noteq> [] \<Longrightarrow> \<not> mountpt k x \<Longrightarrow> node_at k t (ps @ gs) = Some y \<Longrightarrow> y \<in> set_tree ch"
    using lookup_removed [where nm' = "name_of k1" and mp' = "mountpt k1", OF R L [unfolded s] F [unfolded s] cong] lookup_Some unfolding node_at_def by metis
  have rem: "inode_remove (SLASH # name) k =
      (if i_crefs n \<noteq> 0 then do { k \<leftarrow> upd_inode x (i_flags_update (\<lambda>f. f OR FSNODEFLAG_DELETED)) k1; Some (- EBUSY, k) }
       else do { k \<leftarrow> inode_free (i_child n) k1; k \<leftarrow> kfree x k; Some (OK, k) })"
    using a(3) F s x U(1,5) by (simp add: inode_remove_def)
  have tree: "fs_rep k1 (fill C r)" using U(2) by (simp add: at_slot_def)
  have dd: "distinct (inorder (fill C (Node ch x r)))" using d fill s by simp
  show ?thesis
  proof (rule that [OF rem U(5) tree U(3,4,6) _ _ _ _ U(7) ps])
    show "distinct (inorder (Node ch x Leaf))" using dd by (simp add: distinct_fill)
    show "set_tree (Node ch x Leaf) = set_tree t - set_tree (fill C r)" "set_tree (fill C r) \<subseteq> set_tree t" using dd fill s by (auto simp: distinct_fill set_fill)
    show "i_child n = ptr ch" using U(5,6) by simp
  qed
qed

lemma free_node:
  assumes "nodes_ok (inode k) (Node ch x Leaf)" "distinct (inorder (Node ch x Leaf))"
  shows "do { k \<leftarrow> inode_free (ptr ch) k; kfree x k } = Some (k\<lparr>inode := \<lambda>a. if a \<in> set_tree (Node ch x Leaf) then None else inode k a\<rparr>)"
proof -
  have "nodes_ok (inode k) ch" "distinct (inorder ch)" "x \<notin> set_tree ch" "\<exists>n. inode k x = Some n" using assms by auto
  then show ?thesis using free_ok [of k ch] by (auto simp: kfree_def fun_eq_iff intro!: arg_cong [of _ _ "\<lambda>h. k\<lparr>inode := h\<rparr>"])
qed

lemma fs_rep_frame:
  assumes "fs_rep k t" "\<And>a. a \<in> set_tree t \<Longrightarrow> inode k' a = inode k a" "root_inode k' = root_inode k"
  shows "fs_rep k' t" "node_at k' t es = node_at k t es"
proof -
  have c: "name_of k' a = name_of k a \<and> mountpt k' a = mountpt k a" if "a \<in> set_tree t" for a
    using assms(2) [OF that] by (auto simp: name_of_def mountpt_def)
  have "nodes_ok (inode k') t" if "nodes_ok (inode k) t" by (rule nodes_ok_cong [OF that]) (use assms(2) in simp)
  moreover have "names_ok (name_of k') t" if "names_ok (name_of k) t" by (rule names_ok_cong [OF that]) (use c in simp)
  ultimately show "fs_rep k' t" using assms(1,3) by (simp add: fs_rep_def)
  show "node_at k' t es = node_at k t es" unfolding node_at_def by (rule lookup_cong) (use c in simp)
qed

lemma dom_free: "dom (\<lambda>a. if a \<in> A then None else h a) = dom h - A"
  by (auto split: if_splits)

lemma inode_remove_free:
  assumes "fs_rep k t" "node_at k t (comps name) = Some x" "i_crefs (the (inode k x)) = 0"
  obtains k' t' ps where "inode_remove (SLASH # name) k = Some (OK, k')" "fs_rep k' t'" "tree_sem k' = tree_sem k" "dom (inode k') = dom (inode k) - (set_tree t - set_tree t')"
    "prefix ps (comps name)" "node_at k t ps = Some x" "\<not> mountpt k x \<longrightarrow> ps = comps name"
    "\<And>es. es \<noteq> [] \<Longrightarrow> node_at k' t' es = (if prefix ps es then None else node_at k t es)"
proof -
  obtain n where n: "inode k x = Some n" "i_crefs n = 0" using node_at_mem [OF assms(1,2)] assms(3) by auto
  show ?thesis
  proof (rule remove_ok [OF assms(1,2) n(1)])
    fix k1 t' ch ps
    assume rem: "inode_remove (SLASH # name) k =
        (if i_crefs n \<noteq> 0 then do { k \<leftarrow> upd_inode x (i_flags_update (\<lambda>f. f OR FSNODEFLAG_DELETED)) k1; Some (- EBUSY, k) }
         else do { k \<leftarrow> inode_free (i_child n) k1; k \<leftarrow> kfree x k; Some (OK, k) })"
      and k1: "fs_rep k1 t'" "keeps k k1" "dom (inode k1) = dom (inode k)"
      and tr: "nodes_ok (inode k1) (Node ch x Leaf)" "distinct (inorder (Node ch x Leaf))" "set_tree (Node ch x Leaf) = set_tree t - set_tree t'" "i_child n = ptr ch"
      and ps: "prefix ps (comps name)" "ps \<noteq> []" "node_at k t ps = Some x" "\<not> mountpt k x \<longrightarrow> ps = comps name"
        "\<And>es. es \<noteq> [] \<Longrightarrow> node_at k1 t' es = (if prefix ps es then None else node_at k t es)"
    let ?A = "set_tree (Node ch x Leaf)"
    let ?k2 = "k1\<lparr>inode := \<lambda>a. if a \<in> ?A then None else inode k1 a\<rparr>"
    have "inode_remove (SLASH # name) k = Some (OK, ?k2)" using rem n(2) tr(4) free_node [OF tr(1,2)] by (auto split: Option.bind_splits)
    moreover have "fs_rep ?k2 t'" "\<And>es. node_at ?k2 t' es = node_at k1 t' es" by (rule fs_rep_frame [OF k1(1)]; use tr(3) in auto)+
    moreover have "dom (inode ?k2) = dom (inode k) - (set_tree t - set_tree t')" using k1(3) dom_free [of ?A "inode k1"] by (simp add: tr(3) [symmetric])
    moreover have "tree_sem ?k2 = tree_sem k" using k1(2) by (simp add: keeps_def)
    ultimately show ?thesis using that [of ?k2 t' ps] ps by simp
  qed
qed

lemma inode_remove_busy:
  assumes "fs_rep k t" "node_at k t (comps name) = Some x" "inode k x = Some n" "i_crefs n \<noteq> 0"
  obtains k' t' ps ch where "inode_remove (SLASH # name) k = Some (- EBUSY, k')" "fs_rep k' t'" "tree_sem k' = tree_sem k" "dom (inode k') = dom (inode k)"
    "inode k' x = Some (i_flags_update (\<lambda>f. f OR FSNODEFLAG_DELETED) (n\<lparr>i_peer := NULL\<rparr>))"
    "nodes_ok (inode k') (Node ch x Leaf)" "distinct (inorder (Node ch x Leaf))" "set_tree (Node ch x Leaf) = set_tree t - set_tree t'"
    "prefix ps (comps name)" "node_at k t ps = Some x" "\<not> mountpt k x \<longrightarrow> ps = comps name"
    "\<And>es. es \<noteq> [] \<Longrightarrow> node_at k' t' es = (if prefix ps es then None else node_at k t es)"
proof (rule remove_ok [OF assms(1-3)])
  fix k1 t' ch ps
  assume rem: "inode_remove (SLASH # name) k =
      (if i_crefs n \<noteq> 0 then do { k \<leftarrow> upd_inode x (i_flags_update (\<lambda>f. f OR FSNODEFLAG_DELETED)) k1; Some (- EBUSY, k) }
       else do { k \<leftarrow> inode_free (i_child n) k1; k \<leftarrow> kfree x k; Some (OK, k) })"
    and k1: "inode k1 x = Some (n\<lparr>i_peer := NULL\<rparr>)" "fs_rep k1 t'" "keeps k k1" "dom (inode k1) = dom (inode k)"
    and tr: "nodes_ok (inode k1) (Node ch x Leaf)" "distinct (inorder (Node ch x Leaf))" "set_tree (Node ch x Leaf) = set_tree t - set_tree t'" "i_child n = ptr ch"
    and ps: "prefix ps (comps name)" "ps \<noteq> []" "node_at k t ps = Some x" "\<not> mountpt k x \<longrightarrow> ps = comps name"
      "\<And>es. es \<noteq> [] \<Longrightarrow> node_at k1 t' es = (if prefix ps es then None else node_at k t es)"
  let ?m = "i_flags_update (\<lambda>f. f OR FSNODEFLAG_DELETED) (n\<lparr>i_peer := NULL\<rparr>)"
  let ?k2 = "k1\<lparr>inode := (inode k1)(x \<mapsto> ?m)\<rparr>"
  have rep: "fs_rep ?k2 t'" "\<And>es. node_at ?k2 t' es = node_at k1 t' es" by (rule fs_rep_frame [OF k1(2)]; use tr(3) in auto)+
  have "nodes_ok (inode ?k2) ch" by (rule nodes_ok_cong [of "inode k1"]) (use tr in auto)
  then have "nodes_ok (inode ?k2) (Node ch x Leaf)" using tr(1,4) by simp
  moreover have "inode_remove (SLASH # name) k = Some (- EBUSY, ?k2)" using rem assms(4) k1(1) by (simp add: upd_inode_def)
  moreover have "tree_sem ?k2 = tree_sem k" "dom (inode ?k2) = dom (inode k)" using k1(1,3,4) by (auto simp: keeps_def)
  ultimately show ?thesis using that [of ?k2 t' ch ps] rep tr(2,3) ps by simp
qed

text \<open>
  C24: \<open>inode_remove\<close>, as \<open>unregister_driver\<close> and \<open>unregister_blockdriver\<close> call it, removes the node of a path with all paths below it and no others. If the node is not referenced
  the result is OK and exactly the inodes that left the tree are freed, otherwise the result is \<open>-EBUSY\<close>, nothing is freed, and the node is marked as deleted. For a path below a mount point
  the node is the mount point itself. A path without a node is refused with \<open>-ENOENT\<close>.
\<close>

theorem unregister_driver_correct:
  assumes "fs_rep k t" "tree_sem k > 0" "u = unregister_driver \<or> u = unregister_blockdriver"
  shows "\<exists>ret k' t'. u (SLASH # name) k = Some (ret, k') \<and> fs_rep k' t' \<and> tree_sem k' = tree_sem k \<and>
    (case node_at k t (comps name) of
       None \<Rightarrow> ret = - ENOENT \<and> k' = k
     | Some x \<Rightarrow> (\<exists>ps. prefix ps (comps name) \<and> node_at k t ps = Some x \<and> (\<not> mountpt k x \<longrightarrow> ps = comps name)
           \<and> (\<forall>es. es \<noteq> [] \<longrightarrow> node_at k' t' es = (if prefix ps es then None else node_at k t es)))
         \<and> (if i_crefs (the (inode k x)) = 0 then ret = OK \<and> dom (inode k') = dom (inode k) - (set_tree t - set_tree t')
            else ret = - EBUSY \<and> dom (inode k') = dom (inode k) \<and> i_flags (the (inode k' x)) = i_flags (the (inode k x)) OR FSNODEFLAG_DELETED))"
proof -
  let ?k0 = "k\<lparr>tree_sem := tree_sem k - 1\<rparr>"
  let ?give = "\<lambda>k'. k'\<lparr>tree_sem := tree_sem k\<rparr>"
  have u: "u (SLASH # name) k = do { (ret, k) \<leftarrow> inode_remove (SLASH # name) ?k0; Some (ret, inode_semgive k) }"
    using assms(2,3) by (auto simp: unregister_driver_def unregister_blockdriver_def inode_semtake_def)
  have rep0: "fs_rep ?k0 t" using assms(1) by (simp add: fs_rep_sem)
  have mp: "mountpt ?k0 x = mountpt k x" for x by (simp add: mountpt_def)
  show ?thesis
  proof (cases "node_at k t (comps name)")
    case None
    have "inode_remove (SLASH # name) ?k0 = Some (- ENOENT, ?k0)"
      by (rule search_ok [OF rep0, of name]) (use None in \<open>auto simp: inode_remove_def fs_rep_sem split: if_splits\<close>)
    then show ?thesis using None assms(1) u by (auto simp: inode_semgive_def)
  next
    case (Some x)
    then have S0: "node_at ?k0 t (comps name) = Some x" by (simp add: fs_rep_sem)
    obtain n where n: "inode k x = Some n" using node_at_mem [OF assms(1) Some] by blast
    show ?thesis
    proof (cases "i_crefs n = 0")
      case True
      then have "i_crefs (the (inode ?k0 x)) = 0" using n by simp
      then show ?thesis
      proof (rule inode_remove_free [OF rep0 S0])
        fix k' t' ps
        assume r: "inode_remove (SLASH # name) ?k0 = Some (OK, k')" "fs_rep k' t'" "tree_sem k' = tree_sem ?k0" "dom (inode k') = dom (inode ?k0) - (set_tree t - set_tree t')"
          "prefix ps (comps name)" "node_at ?k0 t ps = Some x" "\<not> mountpt ?k0 x \<longrightarrow> ps = comps name" "\<And>es. es \<noteq> [] \<Longrightarrow> node_at k' t' es = (if prefix ps es then None else node_at ?k0 t es)"
        show ?thesis using u Some n True mp r
          by (intro exI [of _ OK] exI [of _ "?give k'"] exI [of _ t']) (simp add: fs_rep_sem inode_semgive_def, blast)
      qed
    next
      case False
      have n0: "inode ?k0 x = Some n" using n by simp
      show ?thesis
      proof (rule inode_remove_busy [OF rep0 S0 n0 False])
        fix k' t' ps
        assume r: "inode_remove (SLASH # name) ?k0 = Some (- EBUSY, k')" "fs_rep k' t'" "tree_sem k' = tree_sem ?k0" "dom (inode k') = dom (inode ?k0)"
          "inode k' x = Some (i_flags_update (\<lambda>f. f OR FSNODEFLAG_DELETED) (n\<lparr>i_peer := NULL\<rparr>))"
          "prefix ps (comps name)" "node_at ?k0 t ps = Some x" "\<not> mountpt ?k0 x \<longrightarrow> ps = comps name" "\<And>es. es \<noteq> [] \<Longrightarrow> node_at k' t' es = (if prefix ps es then None else node_at ?k0 t es)"
        show ?thesis using u Some n False mp r
          by (intro exI [of _ "- EBUSY"] exI [of _ "?give k'"] exI [of _ t']) (simp add: fs_rep_sem inode_semgive_def, blast)
      qed
    qed
  qed
qed

subsection \<open>References\<close>

text \<open>A removed node that is still referenced: it is outside the tree, with its children, and marked.\<close>

definition detached :: "fs \<Rightarrow> addr tree \<Rightarrow> addr tree \<Rightarrow> addr \<Rightarrow> int \<Rightarrow> bool" where
  "detached k t ch x c \<longleftrightarrow> fs_rep k t \<and> nodes_ok (inode k) (Node ch x Leaf) \<and> distinct (inorder (Node ch x Leaf)) \<and> set_tree t \<inter> set_tree (Node ch x Leaf) = {}
     \<and> i_crefs (the (inode k x)) = c \<and> i_flags (the (inode k x)) AND FSNODEFLAG_DELETED \<noteq> 0 \<and> tree_sem k > 0"

lemma release_unfold:
  assumes "inode k x = Some n" "x \<noteq> NULL" "tree_sem k > 0" "0 < i_crefs n" "i_crefs n < 2 ^ 15"
  shows "inode_release x k =
    (if i_crefs n = 1 \<and> i_flags n AND FSNODEFLAG_DELETED \<noteq> 0
     then do { k \<leftarrow> inode_free (i_child n) (k\<lparr>inode := (inode k)(x \<mapsto> n\<lparr>i_crefs := i_crefs n - 1\<rparr>)\<rparr>); kfree x k }
     else Some (k\<lparr>inode := (inode k)(x \<mapsto> n\<lparr>i_crefs := i_crefs n - 1\<rparr>)\<rparr>))"
proof -
  have s: "s16 (i_crefs n - 1) = i_crefs n - 1" using assms(4,5) by (intro s16_id) simp_all
  have m: "i_crefs_update (\<lambda>c. if c \<noteq> 0 then s16 (c - 1) else c) n = n\<lparr>i_crefs := i_crefs n - 1\<rparr>" using s assms(4) by (cases n) simp
  show ?thesis using assms by (simp add: inode_release_def inode_semtake_def inode_semgive_def upd_inode_def m del: inode.update_convs)
qed

lemma release_detached:
  assumes "detached k t ch x c" "1 < c" "c < 2 ^ 15"
  obtains k' where "inode_release x k = Some k'" "detached k' t ch x (c - 1)" "dom (inode k') = dom (inode k)" "tree_sem k' = tree_sem k"
proof -
  obtain n where n: "inode k x = Some n" "i_child n = ptr ch" "i_peer n = NULL" "x \<noteq> NULL" using assms(1) by (auto simp: detached_def)
  have f: "i_crefs n = c" "i_flags n AND FSNODEFLAG_DELETED \<noteq> 0" using assms(1) n(1) by (simp_all add: detached_def)
  let ?m = "n\<lparr>i_crefs := c - 1\<rparr>"
  let ?k = "k\<lparr>inode := (inode k)(x \<mapsto> ?m)\<rparr>"
  have "inode_release x k = Some ?k" using release_unfold [OF n(1,4)] f assms by (simp add: detached_def)
  moreover have "fs_rep ?k t" by (rule fs_rep_frame [of k]) (use assms(1) in \<open>auto simp: detached_def\<close>)
  moreover have "nodes_ok (inode ?k) ch" by (rule nodes_ok_cong [of "inode k"]) (use assms(1) in \<open>auto simp: detached_def\<close>)
  ultimately show ?thesis using that [of ?k] assms(1) n f by (auto simp: detached_def)
qed

lemma release_last:
  assumes "detached k t ch x 1"
  obtains k' where "inode_release x k = Some k'" "fs_rep k' t" "dom (inode k') = dom (inode k) - set_tree (Node ch x Leaf)" "tree_sem k' = tree_sem k"
proof -
  obtain n where n: "inode k x = Some n" "i_child n = ptr ch" "i_peer n = NULL" "x \<noteq> NULL" using assms(1) by (auto simp: detached_def)
  have f: "i_crefs n = 1" "i_flags n AND FSNODEFLAG_DELETED \<noteq> 0" using assms(1) n(1) by (simp_all add: detached_def)
  let ?A = "set_tree (Node ch x Leaf)"
  let ?m = "n\<lparr>i_crefs := 0\<rparr>"
  let ?k = "k\<lparr>inode := (inode k)(x \<mapsto> ?m)\<rparr>"
  let ?k' = "?k\<lparr>inode := \<lambda>a. if a \<in> ?A then None else inode ?k a\<rparr>"
  have "nodes_ok (inode ?k) ch" by (rule nodes_ok_cong [of "inode k"]) (use assms(1) in \<open>auto simp: detached_def\<close>)
  then have "do { k \<leftarrow> inode_free (ptr ch) ?k; kfree x k } = Some ?k'"
    by (intro free_node) (use assms n in \<open>auto simp: detached_def\<close>)
  then have "inode_release x k = Some ?k'"
    using release_unfold [OF n(1,4)] n(2) f assms by (simp add: detached_def)
  moreover have "fs_rep ?k' t" by (rule fs_rep_frame [of k]) (use assms(1) in \<open>auto simp: detached_def\<close>)
  moreover have "dom (inode ?k') = dom (inode k) - ?A" using dom_free [of ?A "inode ?k"] n(1) by auto
  ultimately show ?thesis by (intro that [of ?k']) simp_all
qed

primrec releases :: "addr \<Rightarrow> nat \<Rightarrow> fs \<Rightarrow> fs option" where
  "releases x 0 k = Some k"
| "releases x (Suc c) k = Option.bind (inode_release x k) (releases x c)"

lemma releases_detached:
  assumes "detached k t ch x (int c)" "j < c" "c < 2 ^ 15"
  shows "\<exists>k'. releases x j k = Some k' \<and> fs_rep k' t \<and> dom (inode k') = dom (inode k)"
  using assms
proof (induction j arbitrary: k c)
  case 0
  then show ?case by (simp add: detached_def)
next
  case (Suc j)
  obtain k' where k': "inode_release x k = Some k'" "detached k' t ch x (int c - 1)" "dom (inode k') = dom (inode k)"
    by (rule release_detached [OF Suc.prems(1)]) (use Suc.prems in auto)
  have "detached k' t ch x (int (c - 1))" using k'(2) Suc.prems(2) by (simp add: of_nat_diff)
  from Suc.IH [OF this] show ?case using k' Suc.prems by auto
qed

lemma releases_last:
  assumes "detached k t ch x (int (Suc c))" "Suc c < 2 ^ 15"
  shows "\<exists>k'. releases x (Suc c) k = Some k' \<and> fs_rep k' t \<and> dom (inode k') = dom (inode k) - set_tree (Node ch x Leaf) \<and> tree_sem k' = tree_sem k"
  using assms
proof (induction c arbitrary: k)
  case 0
  then have "detached k t ch x 1" by simp
  then show ?case by (rule release_last) auto
next
  case (Suc c)
  obtain k' where k': "inode_release x k = Some k'" "detached k' t ch x (int (Suc (Suc c)) - 1)" "dom (inode k') = dom (inode k)" "tree_sem k' = tree_sem k"
    by (rule release_detached [OF Suc.prems(1)]) (use Suc.prems in auto)
  have "detached k' t ch x (int (Suc c))" using k'(2) by simp
  from Suc.IH [OF this] show ?case using k' Suc.prems(2) by (subst releases.simps) auto
qed

lemma deleted_flag: "(f OR FSNODEFLAG_DELETED) AND FSNODEFLAG_DELETED \<noteq> 0"
proof -
  have "(f OR FSNODEFLAG_DELETED) AND FSNODEFLAG_DELETED = FSNODEFLAG_DELETED" by (rule bit_eqI) (auto simp: bit_and_iff bit_or_iff)
  then show ?thesis by simp
qed

lemma remove_busy:
  assumes "fs_rep k t" "tree_sem k > 0" "node_at k t (comps name) = Some x" "i_crefs (the (inode k x)) \<noteq> 0"
  obtains k1 t' ch where "unregister_driver (SLASH # name) k = Some (- EBUSY, k1)" "detached k1 t' ch x (i_crefs (the (inode k x)))"
    "set_tree (Node ch x Leaf) = set_tree t - set_tree t'" "dom (inode k1) = dom (inode k)" "tree_sem k1 = tree_sem k"
proof -
  obtain n where n: "inode k x = Some n" using node_at_mem [OF assms(1,3)] by blast
  let ?k0 = "k\<lparr>tree_sem := tree_sem k - 1\<rparr>"
  have S0: "fs_rep ?k0 t" "node_at ?k0 t (comps name) = Some x" "inode ?k0 x = Some n" "i_crefs n \<noteq> 0" using assms n by (simp_all add: fs_rep_sem)
  show ?thesis
  proof (rule inode_remove_busy [OF S0])
    fix k' t' ch
    assume r: "inode_remove (SLASH # name) ?k0 = Some (- EBUSY, k')" "fs_rep k' t'" "tree_sem k' = tree_sem ?k0" "dom (inode k') = dom (inode ?k0)"
      "inode k' x = Some (i_flags_update (\<lambda>f. f OR FSNODEFLAG_DELETED) (n\<lparr>i_peer := NULL\<rparr>))"
      "nodes_ok (inode k') (Node ch x Leaf)" "distinct (inorder (Node ch x Leaf))" "set_tree (Node ch x Leaf) = set_tree t - set_tree t'"
    let ?k2 = "k'\<lparr>tree_sem := tree_sem k\<rparr>"
    have "unregister_driver (SLASH # name) k = Some (- EBUSY, ?k2)"
      using assms(2) r(1,3) by (simp add: unregister_driver_def inode_semtake_def inode_semgive_def)
    moreover have "detached ?k2 t' ch x (i_crefs (the (inode k x)))"
      using r assms(2) n deleted_flag [of "i_flags n"] by (auto simp: detached_def fs_rep_sem)
    ultimately show ?thesis using that [of ?k2 t' ch] r(4,8) by simp
  qed
qed

text \<open>
  C25: Deferred removal. A node that is removed while it is referenced leaves the tree at once with \<open>-EBUSY\<close>, and is kept in memory as long as references to it are left; the last
  \<open>inode_release\<close> frees it with its children, and nothing else.
\<close>

theorem inode_removal_deferred:
  assumes "fs_rep k t" "tree_sem k > 0" "node_at k t (comps name) = Some x" "i_crefs (the (inode k x)) = int (Suc c)" "Suc c < 2 ^ 15"
  shows "\<exists>k1 k2 t'. unregister_driver (SLASH # name) k = Some (- EBUSY, k1) \<and> x \<notin> set_tree t'
    \<and> (\<forall>j\<le>c. \<exists>k'. releases x j k1 = Some k' \<and> fs_rep k' t' \<and> dom (inode k') = dom (inode k))
    \<and> releases x (Suc c) k1 = Some k2 \<and> fs_rep k2 t' \<and> dom (inode k2) = dom (inode k) - (set_tree t - set_tree t') \<and> tree_sem k2 = tree_sem k"
proof (rule remove_busy [OF assms(1-3)])
  fix k1 t' ch
  assume r: "unregister_driver (SLASH # name) k = Some (- EBUSY, k1)" "detached k1 t' ch x (i_crefs (the (inode k x)))"
    "set_tree (Node ch x Leaf) = set_tree t - set_tree t'" "dom (inode k1) = dom (inode k)" "tree_sem k1 = tree_sem k"
  have d: "detached k1 t' ch x (int (Suc c))" using r(2) assms(4) by simp
  have "\<exists>k'. releases x j k1 = Some k' \<and> fs_rep k' t' \<and> dom (inode k') = dom (inode k)" if "j \<le> c" for j
    using releases_detached [OF d _ assms(5), of j] that r(4) by simp
  moreover obtain k2 where "releases x (Suc c) k1 = Some k2" "fs_rep k2 t'" "dom (inode k2) = dom (inode k1) - set_tree (Node ch x Leaf)" "tree_sem k2 = tree_sem k1"
    using releases_last [OF d assms(5)] by blast
  moreover have "x \<notin> set_tree t'" using r(3) by auto
  ultimately show ?thesis using r by (intro exI [of _ k1] exI [of _ k2] exI [of _ t']) (simp del: releases.simps)
qed (use assms(4) in simp)

text \<open>
  The references to the inodes below a removed one are not looked at: a path that is not referenced itself is removed with OK even if an inode below it is, that inode is freed as
  well, and its later \<open>inode_release\<close> accesses freed memory.
\<close>

theorem remove_frees_referenced:
  assumes "fs_rep k t" "tree_sem k > 0" "node_at k t (comps name) = Some x" "i_crefs (the (inode k x)) = 0" "\<not> mountpt k x"
    and "node_at k t (comps name @ es) = Some y" "es \<noteq> []"
  shows "\<exists>k'. unregister_driver (SLASH # name) k = Some (OK, k') \<and> inode_release y k' = None"
proof -
  obtain n where n: "inode k x = Some n" using node_at_mem [OF assms(1,3)] by blast
  let ?k0 = "k\<lparr>tree_sem := tree_sem k - 1\<rparr>"
  have S0: "fs_rep ?k0 t" "node_at ?k0 t (comps name) = Some x" "inode ?k0 x = Some n" "\<not> mountpt ?k0 x" "node_at ?k0 t (comps name @ es) = Some y"
    using assms n by (simp_all add: fs_rep_sem mountpt_def)
  show ?thesis
  proof (rule remove_ok [OF S0(1-3)])
    fix k1 t' ch ps
    assume rem: "inode_remove (SLASH # name) ?k0 =
        (if i_crefs n \<noteq> 0 then do { k \<leftarrow> upd_inode x (i_flags_update (\<lambda>f. f OR FSNODEFLAG_DELETED)) k1; Some (- EBUSY, k) }
         else do { k \<leftarrow> inode_free (i_child n) k1; k \<leftarrow> kfree x k; Some (OK, k) })"
      and tr: "nodes_ok (inode k1) (Node ch x Leaf)" "distinct (inorder (Node ch x Leaf))" "i_child n = ptr ch"
      and ps: "\<not> mountpt ?k0 x \<longrightarrow> ps = comps name" "\<And>gs y. gs \<noteq> [] \<Longrightarrow> \<not> mountpt ?k0 x \<Longrightarrow> node_at ?k0 t (ps @ gs) = Some y \<Longrightarrow> y \<in> set_tree ch"
    have y: "y \<in> set_tree ch" using ps S0(4,5) assms(7) by blast
    then have "y \<noteq> NULL" using nodes_ok_dom [OF tr(1), of y] by simp
    then show ?thesis using rem tr(3) free_node [OF tr(1,2)] assms(2,4) n y
      by (auto simp: unregister_driver_def inode_semtake_def inode_semgive_def inode_release_def upd_inode_def split: Option.bind_splits)
  qed
qed


text \<open>
  \<open>inode_find\<close> counts a reference to the node of a path, as \<open>inode_addref\<close> does, and \<open>inode_release\<close> takes it back: the file system is as before.
\<close>

theorem find_release_roundtrip:
  assumes "fs_rep k t" "tree_sem k > 0" "node_at k t (comps name) = Some x" "inode k x = Some n" "0 \<le> i_crefs n" "i_crefs n < 2 ^ 15 - 1"
    and "i_crefs n \<noteq> 0 \<or> i_flags n AND FSNODEFLAG_DELETED = 0"
  shows "\<exists>relpath k'. inode_find (SLASH # name) k = Some (x, Some relpath, k') \<and> inode_addref x k = Some k'
    \<and> inode k' x = Some (n\<lparr>i_crefs := i_crefs n + 1\<rparr>) \<and> inode_release x k' = Some k"
proof -
  let ?k0 = "k\<lparr>tree_sem := tree_sem k - 1\<rparr>"
  let ?m = "n\<lparr>i_crefs := i_crefs n + 1\<rparr>"
  let ?k' = "k\<lparr>inode := (inode k)(x \<mapsto> ?m)\<rparr>"
  have rep0: "fs_rep ?k0 t" "node_at ?k0 t (comps name) = Some x" using assms(1,3) by (simp_all add: fs_rep_sem)
  have x: "x \<noteq> NULL" using node_at_mem [OF assms(1,3)] by simp
  obtain l p r q where S: "inode_search (SLASH # name) ?k0 = Some (x, l, p, r, Some q)"
    by (rule search_ok [OF rep0(1), of name]) (use rep0(2) in \<open>auto split: if_splits\<close>)
  have m: "i_crefs_update (\<lambda>c. s16 (c + 1)) n = ?m" using assms(5,6) by (cases n) simp
  have "inode_find (SLASH # name) k = Some (x, Some q, ?k')"
    using S x assms(2,4) by (simp add: inode_find_def inode_semtake_def inode_semgive_def upd_inode_def m del: inode.update_convs)
  moreover have "inode_addref x k = Some ?k'"
    using x assms(2,4) by (simp add: inode_addref_def inode_semtake_def inode_semgive_def upd_inode_def m del: inode.update_convs)
  moreover have "inode_release x ?k' = Some k"
    using release_unfold [of ?k' x ?m] x assms(2,4-7) by (auto simp: fun_upd_idem)
  ultimately show ?thesis by simp
qed

subsection \<open>A file system\<close>

text \<open>The device \<open>/dev/x\<close>, opened once.\<close>

definition ex_fs :: fs where
  "ex_fs = \<lparr>inode = [1 \<mapsto> zero_inode\<lparr>i_name := ''dev'', i_child := 2\<rparr>, 2 \<mapsto> zero_inode\<lparr>i_name := ''x'', i_crefs := 1\<rparr>], root_inode = 1, tree_sem = 1\<rparr>"

definition ex_tree :: "addr tree" where
  "ex_tree = Node (Node Leaf 2 Leaf) 1 Leaf"

definition ex_kz :: "fs \<Rightarrow> addr" where
  "ex_kz k = (if inode k 3 = None then 3 else NULL)"

lemma ex_kz_fresh: "ex_kz k \<noteq> NULL \<Longrightarrow> inode k (ex_kz k) = None"
  by (simp add: ex_kz_def split: if_splits)

lemma ex_rep: "fs_rep ex_fs ex_tree"
  by (simp add: fs_rep_def ex_fs_def ex_tree_def zero_inode_def name_of_def)

lemma ex_comps: "comps ''dev/x'' = [''dev'', ''x'']" "comps ''dev'' = [''dev'']" "comps ''dev/y'' = [''dev'', ''y'']"
  by (simp_all add: comps.simps)

lemma ex_node_at: "node_at ex_fs ex_tree [''dev'', ''x''] = Some 2" "node_at ex_fs ex_tree [''dev''] = Some 1" "node_at ex_fs ex_tree [''dev'', ''y''] = None"
  by (simp_all add: node_at_def ex_fs_def ex_tree_def name_of_def mountpt_def INODE_IS_MOUNTPT_def zero_inode_def)

lemma ex_sem: "tree_sem ex_fs = 1"
  by (simp add: ex_fs_def)

theorem inode_search_refines_witness: "\<exists>left parent rest relpath. inode_search ''/dev/x'' ex_fs = Some (2, left, parent, rest, relpath)"
  using inode_search_refines [OF ex_rep, of "''dev/x''"] by (auto simp: ex_comps ex_node_at split: if_splits)

theorem register_driver_correct_witness:
  "\<exists>ret k' t'. register_driver ex_kz ''/dev/y'' 7 8 ex_fs = Some (ret, k') \<and> (ret = OK \<and> node_at k' t' [''dev'', ''y''] \<noteq> None \<or> ret = - ENOMEM) \<and> node_at k' t' [''dev'', ''x''] = Some 2"
proof -
  have s: "0 < tree_sem ex_fs" by (simp add: ex_sem)
  obtain ret k' t' where r: "register_driver ex_kz ''/dev/y'' 7 8 ex_fs = Some (ret, k')" "ret = OK \<and> node_at k' t' [''dev'', ''y''] \<noteq> None \<or> ret = - ENOMEM"
    "\<And>es. es \<noteq> [] \<Longrightarrow> \<not> prefix es [''dev'', ''y''] \<Longrightarrow> node_at k' t' es = node_at ex_fs ex_tree es"
    using register_driver_correct [OF ex_rep s ex_kz_fresh, where block = False and name = "''dev/y''" and fops = 7 and priv = 8]
    by (auto simp: ex_comps ex_node_at)
  then show ?thesis using r(3) [of "[''dev'', ''x'']"] by (intro exI [of _ ret] exI [of _ k'] exI [of _ t']) (simp add: ex_node_at)
qed

theorem unregister_driver_correct_witness:
  "\<exists>k' t'. unregister_driver ''/dev/x'' ex_fs = Some (- EBUSY, k') \<and> fs_rep k' t' \<and> node_at k' t' [''dev'', ''x''] = None \<and> node_at k' t' [''dev''] = Some 1"
proof -
  have c: "i_crefs (the (inode ex_fs 2)) = 1" "\<not> mountpt ex_fs 2" by (simp_all add: ex_fs_def mountpt_def INODE_IS_MOUNTPT_def zero_inode_def)
  obtain ret k' t' ps where "unregister_driver ''/dev/x'' ex_fs = Some (ret, k')" "fs_rep k' t'" "ret = - EBUSY" "ps = [''dev'', ''x'']"
    "\<And>es. es \<noteq> [] \<Longrightarrow> node_at k' t' es = (if prefix ps es then None else node_at ex_fs ex_tree es)"
    using unregister_driver_correct [OF ex_rep, of unregister_driver "''dev/x''"] c by (auto simp: ex_comps ex_node_at ex_sem)
  then show ?thesis by (intro exI [of _ k'] exI [of _ t']) (simp add: ex_node_at)
qed

theorem inode_removal_deferred_witness:
  "\<exists>k1 k2 t'. unregister_driver ''/dev/x'' ex_fs = Some (- EBUSY, k1) \<and> releases 2 1 k1 = Some k2 \<and> fs_rep k2 t' \<and> 2 \<notin> set_tree t'"
proof -
  have c: "i_crefs (the (inode ex_fs 2)) = int (Suc 0)" "0 < tree_sem ex_fs" "node_at ex_fs ex_tree (comps ''dev/x'') = Some 2" "Suc 0 < 2 ^ 15"
    by (simp_all add: ex_comps ex_node_at ex_sem) (simp add: ex_fs_def zero_inode_def)
  show ?thesis using inode_removal_deferred [OF ex_rep c(2,3,1,4)] unfolding One_nat_def by blast
qed

theorem remove_frees_referenced_witness: "\<exists>k'. unregister_driver ''/dev'' ex_fs = Some (OK, k') \<and> inode_release 2 k' = None"
proof -
  have "i_crefs (the (inode ex_fs 1)) = 0" "\<not> mountpt ex_fs 1" by (simp_all add: ex_fs_def mountpt_def INODE_IS_MOUNTPT_def zero_inode_def)
  then show ?thesis using remove_frees_referenced [OF ex_rep, of "''dev''" 1 "[''x'']" 2] by (simp add: ex_comps ex_node_at ex_sem)
qed

theorem find_release_roundtrip_witness: "\<exists>relpath k'. inode_find ''/dev/x'' ex_fs = Some (2, Some relpath, k') \<and> inode_release 2 k' = Some ex_fs"
proof -
  have "inode ex_fs 2 = Some (zero_inode\<lparr>i_name := ''x'', i_crefs := 1\<rparr>)" by (simp add: ex_fs_def)
  then show ?thesis using find_release_roundtrip [OF ex_rep, of "''dev/x''" 2] by (fastforce simp: ex_comps ex_node_at ex_sem)
qed

end
