(* ===== verification/Files_Ops.thy ===== *)
theory Files_Ops
  imports Files Inode_Props
begin

section \<open>References to inodes\<close>

text \<open>
  The invariant \<open>files_ok\<close>: the reference count of an inode is the number of entries of the file lists that refer to it, plus the references that a running call holds. Inside a call the second number may be negative, when
  a reference has been given back that an entry still has. An inode that is removed but referenced is a leaf outside the tree. Each operation of \<open>Files\<close> returns and keeps the invariant.
\<close>

definition fd_refs :: "fsys \<Rightarrow> addr \<Rightarrow> nat" where
  "fd_refs k x = (\<Sum>l\<in>dom (filelist k). count_list (map f_inode (fl_files (the (filelist k l)))) x)"

definition inode_counted :: "addr tree \<Rightarrow> int \<Rightarrow> addr \<Rightarrow> inode option \<Rightarrow> bool" where
  "inode_counted t c x i \<longleftrightarrow> (case i of None \<Rightarrow> c = 0
     | Some n \<Rightarrow> i_crefs n = c \<and> 0 \<le> c \<and> c < 2 ^ 15 \<and> (i_flags n AND FSNODEFLAG_DELETED \<noteq> 0 \<longrightarrow> i_child n = NULL \<and> 0 < c \<and> x \<notin> set_tree t))"

definition lists_wf :: "fsys \<Rightarrow> bool" where
  "lists_wf k \<longleftrightarrow> finite (dom (filelist k)) \<and> (\<forall>l L. filelist k l = Some L \<longrightarrow> l \<noteq> NULL \<and> length (fl_files L) = CONFIG_NFILE_DESCRIPTORS)"

definition files_ok :: "fsys \<Rightarrow> addr tree \<Rightarrow> (addr \<Rightarrow> int) \<Rightarrow> bool" where
  "files_ok k t held \<longleftrightarrow> fs_rep (fsd k) t \<and> tree_sem (fsd k) > 0 \<and> lists_wf k
     \<and> (\<forall>x. x \<noteq> NULL \<longrightarrow> inode_counted t (int (fd_refs k x) + held x) x (inode (fsd k) x))"

subsection \<open>Counting\<close>

lemma count_list_update: "i < length xs \<Longrightarrow> count_list (xs[i := v]) x + (if xs ! i = x then 1 else 0) = count_list xs x + (if v = x then 1 else 0)"
proof (induction xs arbitrary: i)
  case (Cons y xs)
  show ?case
  proof (cases i)
    case (Suc j)
    then show ?thesis using Cons.IH [of j] Cons.prems by (simp split: if_splits)
  qed simp
qed simp

lemma fd_refs_upd_list:
  assumes "finite (dom (filelist k))" "filelist k l = Some L"
  shows "fd_refs (k\<lparr>filelist := (filelist k)(l \<mapsto> L')\<rparr>) x + count_list (map f_inode (fl_files L)) x = fd_refs k x + count_list (map f_inode (fl_files L')) x"
proof -
  let ?c = "\<lambda>k l. count_list (map f_inode (fl_files (the (filelist k l)))) x" and ?k = "k\<lparr>filelist := (filelist k)(l \<mapsto> L')\<rparr>"
  have "(\<Sum>j\<in>dom (filelist k) - {l}. ?c ?k j) = (\<Sum>j\<in>dom (filelist k) - {l}. ?c k j)" by (rule sum.cong) auto
  then show ?thesis using sum.remove [of "dom (filelist k)" l "?c k"] sum.remove [of "dom (filelist ?k)" l "?c ?k"] assms
    by (auto simp: fd_refs_def insert_absorb domI)
qed

lemma fd_refs_le: "lists_wf k \<Longrightarrow> fd_refs k x \<le> CONFIG_NFILE_DESCRIPTORS * card (dom (filelist k))"
proof -
  assume wf: "lists_wf k"
  have "fd_refs k x \<le> (\<Sum>l\<in>dom (filelist k). CONFIG_NFILE_DESCRIPTORS)"
    unfolding fd_refs_def
  proof (rule sum_mono)
    fix l assume "l \<in> dom (filelist k)"
    then obtain L where "filelist k l = Some L" by blast
    then show "count_list (map f_inode (fl_files (the (filelist k l)))) x \<le> CONFIG_NFILE_DESCRIPTORS"
      using wf count_le_length [of "map f_inode (fl_files L)" x] by (simp add: lists_wf_def)
  qed
  then show ?thesis by simp
qed

lemma fd_refs_pos: "lists_wf k \<Longrightarrow> filelist k l = Some L \<Longrightarrow> i < length (fl_files L) \<Longrightarrow> f_inode (fl_files L ! i) = x \<Longrightarrow> fd_refs k x > 0"
proof -
  assume a: "lists_wf k" "filelist k l = Some L" "i < length (fl_files L)" "f_inode (fl_files L ! i) = x"
  have "x \<in> set (map f_inode (fl_files L))" using a(3,4) by force
  then have "count_list (map f_inode (fl_files (the (filelist k l)))) x > 0" using a(2) count_list_0_iff [of "map f_inode (fl_files L)" x] by auto
  then show ?thesis using a(1,2) unfolding fd_refs_def lists_wf_def by (intro sum_pos2) auto
qed

subsection \<open>The operations on inodes\<close>

lemma files_okD: "files_ok k t held \<Longrightarrow> x \<noteq> NULL \<Longrightarrow> inode (fsd k) x = Some n \<Longrightarrow> i_crefs n = int (fd_refs k x) + held x \<and> 0 \<le> i_crefs n \<and> i_crefs n < 2 ^ 15
    \<and> (i_flags n AND FSNODEFLAG_DELETED \<noteq> 0 \<longrightarrow> i_child n = NULL \<and> 0 < i_crefs n \<and> x \<notin> set_tree t)"
proof -
  assume "files_ok k t held" "x \<noteq> NULL" "inode (fsd k) x = Some n"
  then have "inode_counted t (int (fd_refs k x) + held x) x (Some n)" unfolding files_ok_def by metis
  then show ?thesis by (simp add: inode_counted_def)
qed

lemma files_ok_inode: "files_ok k t held \<Longrightarrow> x \<noteq> NULL \<Longrightarrow> int (fd_refs k x) + held x \<noteq> 0 \<Longrightarrow> \<exists>n. inode (fsd k) x = Some n"
proof (rule ccontr)
  assume a: "files_ok k t held" "x \<noteq> NULL" "int (fd_refs k x) + held x \<noteq> 0" "\<nexists>n. inode (fsd k) x = Some n"
  then have "inode_counted t (int (fd_refs k x) + held x) x None" unfolding files_ok_def by (metis not_None_eq)
  then show False using a(3) by (simp add: inode_counted_def)
qed

text \<open>Another inode map that differs at one inode.\<close>

lemma files_ok_upd:
  assumes "files_ok k t held" "fs_rep s t" "tree_sem s = tree_sem (fsd k)" "inode s = (inode (fsd k))(x := i)"
    and "inode_counted t (int (fd_refs k x) + h) x i"
  shows "files_ok (k\<lparr>fsd := s\<rparr>) t (held(x := h))"
proof -
  have "fd_refs (k\<lparr>fsd := s\<rparr>) = fd_refs k" by (simp add: fd_refs_def fun_eq_iff)
  moreover have "lists_wf (k\<lparr>fsd := s\<rparr>) = lists_wf k" by (simp add: lists_wf_def)
  ultimately show ?thesis using assms by (simp add: files_ok_def)
qed

lemma release_files_ok:
  assumes "files_ok k t held" "x \<noteq> NULL" "inode (fsd k) x = Some n" "0 < i_crefs n"
  obtains k' where "on_fs (inode_release x) k = Some k'" "files_ok k' t (held(x := held x - 1))" "filelist k' = filelist k"
proof -
  let ?s = "fsd k"
  note D = files_okD [OF assms(1-3)]
  have sem: "tree_sem ?s > 0" and rep: "fs_rep ?s t" using assms(1) by (simp_all add: files_ok_def)
  let ?m = "n\<lparr>i_crefs := i_crefs n - 1\<rparr>"
  let ?s1 = "?s\<lparr>inode := (inode ?s)(x \<mapsto> ?m)\<rparr>"
  have R: "inode_release x ?s = (if i_crefs n = 1 \<and> i_flags n AND FSNODEFLAG_DELETED \<noteq> 0 then do { k \<leftarrow> inode_free (i_child n) ?s1; kfree x k } else Some ?s1)"
    by (rule release_unfold [OF assms(3,2) sem assms(4)]) (use D in simp)
  show ?thesis
  proof (cases "i_crefs n = 1 \<and> i_flags n AND FSNODEFLAG_DELETED \<noteq> 0")
    case True
    let ?s2 = "?s1\<lparr>inode := (inode ?s1)(x := None)\<rparr>"
    have "inode_free (i_child n) ?s1 = Some ?s1" using D True inode_free.simps [of NULL ?s1] by simp
    then have rel: "inode_release x ?s = Some ?s2" using R True by (simp add: kfree_def)
    have "fs_rep ?s2 t" by (rule fs_rep_frame [OF rep]) (use D True in auto)
    then have "files_ok (k\<lparr>fsd := ?s2\<rparr>) t (held(x := held x - 1))"
      by (intro files_ok_upd [OF assms(1), where i = None]) (use D True in \<open>auto simp: inode_counted_def\<close>)
    then show ?thesis using that rel by (simp add: on_fs_def)
  next
    case False
    have "fs_rep (?s\<lparr>inode := (inode ?s)(x \<mapsto> ?m), tree_sem := tree_sem ?s\<rparr>) t" by (rule fs_rep_upd [OF rep assms(3)]) (simp_all add: INODE_IS_MOUNTPT_def)
    then have "files_ok (k\<lparr>fsd := ?s1\<rparr>) t (held(x := held x - 1))"
      by (intro files_ok_upd [OF assms(1), where i = "Some ?m"]) (use D False assms(4) in \<open>auto simp: inode_counted_def\<close>)
    moreover have "inode_release x ?s = Some ?s1" using R False by (simp only: if_False)
    ultimately show ?thesis using that by (simp add: on_fs_def)
  qed
qed

lemma ref_files_ok:
  assumes "files_ok k t held" "x \<noteq> NULL" "inode (fsd k) x = Some n" "i_crefs n < 2 ^ 15 - 1"
  shows "files_ok (k\<lparr>fsd := (fsd k)\<lparr>inode := (inode (fsd k))(x \<mapsto> n\<lparr>i_crefs := i_crefs n + 1\<rparr>)\<rparr>\<rparr>) t (held(x := held x + 1))"
proof -
  let ?s = "fsd k" and ?m = "n\<lparr>i_crefs := i_crefs n + 1\<rparr>"
  note D = files_okD [OF assms(1-3)]
  have rep: "fs_rep ?s t" using assms(1) by (simp add: files_ok_def)
  have "fs_rep (?s\<lparr>inode := (inode ?s)(x \<mapsto> ?m), tree_sem := tree_sem ?s\<rparr>) t" by (rule fs_rep_upd [OF rep assms(3)]) (simp_all add: INODE_IS_MOUNTPT_def)
  then show ?thesis by (intro files_ok_upd [OF assms(1), where i = "Some ?m"]) (use D assms(4) in \<open>auto simp: inode_counted_def\<close>)
qed

lemma addref_files_ok:
  assumes "files_ok k t held" "x \<noteq> NULL" "inode (fsd k) x = Some n" "i_crefs n < 2 ^ 15 - 1"
  shows "\<exists>k'. on_fs (inode_addref x) k = Some k' \<and> files_ok k' t (held(x := held x + 1)) \<and> filelist k' = filelist k"
proof -
  let ?m = "n\<lparr>i_crefs := i_crefs n + 1\<rparr>"
  have m: "i_crefs_update (\<lambda>c. s16 (c + 1)) n = ?m" using files_okD [OF assms(1-3)] assms(4) by (cases n) simp
  have "tree_sem (fsd k) > 0" using assms(1) by (simp add: files_ok_def)
  then have "on_fs (inode_addref x) k = Some (k\<lparr>fsd := (fsd k)\<lparr>inode := (inode (fsd k))(x \<mapsto> ?m)\<rparr>\<rparr>)"
    using assms(2,3) by (simp add: on_fs_def inode_addref_def inode_semtake_def inode_semgive_def upd_inode_def m del: inode.update_convs)
  then show ?thesis using ref_files_ok [OF assms] by simp
qed


subsection \<open>The operations on lists\<close>

definition sems :: "fsys \<Rightarrow> addr \<Rightarrow> int option" where
  "sems k l = map_option fl_sem (filelist k l)"

abbreviation none_held :: "addr \<Rightarrow> int" where "none_held \<equiv> \<lambda>_. 0"

lemma list_wf: "files_ok k t held \<Longrightarrow> filelist k l = Some L \<Longrightarrow> l \<noteq> NULL \<and> length (fl_files L) = CONFIG_NFILE_DESCRIPTORS"
  by (simp add: files_ok_def lists_wf_def)

text \<open>Another list at \<open>l\<close>, which may have other references.\<close>

lemma files_ok_list:
  assumes "files_ok k t held" "filelist k l = Some L" "length (fl_files L') = CONFIG_NFILE_DESCRIPTORS"
    and "\<And>x. x \<noteq> NULL \<Longrightarrow> held' x + int (count_list (map f_inode (fl_files L')) x) = held x + int (count_list (map f_inode (fl_files L)) x)"
  shows "files_ok (k\<lparr>filelist := (filelist k)(l \<mapsto> L')\<rparr>) t held'"
proof -
  let ?k = "k\<lparr>filelist := (filelist k)(l \<mapsto> L')\<rparr>"
  have wf: "lists_wf k" using assms(1) by (simp add: files_ok_def)
  have "int (fd_refs ?k x) + held' x = int (fd_refs k x) + held x" if "x \<noteq> NULL" for x
    using fd_refs_upd_list [OF _ assms(2), of L' x] assms(4) [OF that] wf by (simp add: lists_wf_def)
  moreover have "lists_wf ?k" using wf list_wf [OF assms(1,2)] assms(3) by (auto simp: lists_wf_def)
  ultimately show ?thesis using assms(1) by (simp add: files_ok_def)
qed

lemma set_file_ok:
  assumes "files_ok k t held" "filelist k l = Some L" "i < CONFIG_NFILE_DESCRIPTORS"
    and "\<And>x. x \<noteq> NULL \<Longrightarrow> held' x + (if f_inode f = x then 1 else 0) = held x + (if f_inode (fl_files L ! i) = x then 1 else 0)"
  shows "set_file l i f k = Some (k\<lparr>filelist := (filelist k)(l \<mapsto> L\<lparr>fl_files := (fl_files L)[i := f]\<rparr>)\<rparr>)"
    "files_ok (k\<lparr>filelist := (filelist k)(l \<mapsto> L\<lparr>fl_files := (fl_files L)[i := f]\<rparr>)\<rparr>) t held'"
proof -
  let ?L = "L\<lparr>fl_files := (fl_files L)[i := f]\<rparr>"
  have len: "length (fl_files L) = CONFIG_NFILE_DESCRIPTORS" using list_wf [OF assms(1,2)] by simp
  show "set_file l i f k = Some (k\<lparr>filelist := (filelist k)(l \<mapsto> ?L)\<rparr>)" using assms(2) by (simp add: set_file_def upd_list_def)
  show "files_ok (k\<lparr>filelist := (filelist k)(l \<mapsto> ?L)\<rparr>) t held'"
  proof (rule files_ok_list [OF assms(1,2)])
    fix x assume x: "x \<noteq> NULL"
    show "held' x + int (count_list (map f_inode (fl_files ?L)) x) = held x + int (count_list (map f_inode (fl_files L)) x)"
      using count_list_update [of i "map f_inode (fl_files L)" "f_inode f" x] assms(3) assms(4) [OF x] len x by (simp add: map_update split: if_splits)
  qed (use len in simp)
qed

lemma files_sem_ok:
  assumes "files_ok k t held" "filelist k l = Some L"
  shows "fl_sem L > 0 \<Longrightarrow> files_semtake l k = Some (k\<lparr>filelist := (filelist k)(l \<mapsto> L\<lparr>fl_sem := fl_sem L - 1\<rparr>)\<rparr>)"
    "files_semgive l k = Some (k\<lparr>filelist := (filelist k)(l \<mapsto> L\<lparr>fl_sem := fl_sem L + 1\<rparr>)\<rparr>)"
    "files_ok (k\<lparr>filelist := (filelist k)(l \<mapsto> L\<lparr>fl_sem := v\<rparr>)\<rparr>) t held"
proof -
  show "files_ok (k\<lparr>filelist := (filelist k)(l \<mapsto> L\<lparr>fl_sem := v\<rparr>)\<rparr>) t held"
    by (rule files_ok_list [OF assms]) (use list_wf [OF assms] in auto)
  have "fl_sem_update (\<lambda>s. s - 1) L = L\<lparr>fl_sem := fl_sem L - 1\<rparr>" "fl_sem_update (\<lambda>s. s + 1) L = L\<lparr>fl_sem := fl_sem L + 1\<rparr>" by (cases L; simp)+
  note u = this
  show "fl_sem L > 0 \<Longrightarrow> files_semtake l k = Some (k\<lparr>filelist := (filelist k)(l \<mapsto> L\<lparr>fl_sem := fl_sem L - 1\<rparr>)\<rparr>)"
    "files_semgive l k = Some (k\<lparr>filelist := (filelist k)(l \<mapsto> L\<lparr>fl_sem := fl_sem L + 1\<rparr>)\<rparr>)"
    using assms(2) by (simp_all add: files_semtake_def files_semgive_def upd_list_def u del: filelist.update_convs)
qed

lemma open_file_inode:
  assumes "files_ok k t none_held" "filelist k l = Some L" "i < CONFIG_NFILE_DESCRIPTORS" "f_inode (fl_files L ! i) = x" "x \<noteq> NULL"
  obtains n where "inode (fsd k) x = Some n" "0 < i_crefs n" "i_crefs n = int (fd_refs k x)"
proof -
  have "fd_refs k x > 0" using fd_refs_pos [of k l L i x] assms list_wf [OF assms(1,2)] by (simp add: files_ok_def)
  then show ?thesis using files_ok_inode [OF assms(1,5)] files_okD [OF assms(1,5)] that by auto
qed

lemma file_close_ok:
  assumes "files_ok k t none_held" "filelist k l = Some L" "i < CONFIG_NFILE_DESCRIPTORS"
  obtains ret k' where "file_close ops l i k = Some (ret, k')" "files_ok k' t none_held"
    "filelist k' = (filelist k)(l \<mapsto> L\<lparr>fl_files := (fl_files L)[i := if f_inode (fl_files L ! i) = NULL then fl_files L ! i else no_file]\<rparr>)"
    "f_inode (fl_files L ! i) = NULL \<Longrightarrow> ret = OK \<and> k' = k"
proof -
  let ?x = "f_inode (fl_files L ! i)"
  have get: "get_file l i k = Some (fl_files L ! i)" using assms list_wf [OF assms(1,2)] by (simp add: get_file_def)
  show ?thesis
  proof (cases "?x = NULL")
    case True
    then show ?thesis using that [of OK k] get assms by (simp add: file_close_def fun_upd_idem)
  next
    case False
    obtain n where n: "inode (fsd k) ?x = Some n" "0 < i_crefs n" by (rule open_file_inode [OF assms refl False])
    obtain k1 where k1: "on_fs (inode_release ?x) k = Some k1" "files_ok k1 t (none_held(?x := - 1))" "filelist k1 = filelist k"
      using release_files_ok [OF assms(1) False n] by auto
    have l1: "filelist k1 l = Some L" using k1(3) assms(2) by simp
    have "0 + (if f_inode no_file = y then 1 else 0) = (none_held(?x := - 1)) y + (if ?x = y then 1 else (0 :: int))" if "y \<noteq> NULL" for y
      using that by (simp add: no_file_def)
    note S = set_file_ok [where f = no_file and held' = none_held, OF k1(2) l1 assms(3) this]
    show ?thesis using that [OF _ S(2)] S(1) get n(1) k1 False by (simp add: file_close_def Let_def)
  qed
qed


lemma first_free_Some: "first_free fs m = Some i \<Longrightarrow> m \<le> i \<and> i < length fs \<and> f_inode (fs ! i) = NULL \<and> (\<forall>j. m \<le> j \<and> j < i \<longrightarrow> f_inode (fs ! j) \<noteq> NULL)"
proof -
  assume "first_free fs m = Some i"
  then obtain p where p: "p < length fs - m" "f_inode (fs ! (m + p)) = NULL" "i = m + p" "\<forall>j<p. f_inode (fs ! (m + j)) \<noteq> NULL"
    by (auto simp: first_free_def find_Some_iff)
  have "f_inode (fs ! j) \<noteq> NULL" if "m \<le> j" "j < i" for j using that p(3,4) by (metis add_less_cancel_left le_add_diff_inverse)
  then show ?thesis using p by auto
qed

lemma first_free_None: "first_free fs m = None \<Longrightarrow> m \<le> j \<Longrightarrow> j < length fs \<Longrightarrow> f_inode (fs ! j) \<noteq> NULL"
  by (auto simp: first_free_def find_None_iff)

lemma files_allocate_ok:
  assumes "files_ok k t held" "filelist k l = Some L" "fl_sem L > 0" "x \<noteq> NULL"
  shows "files_allocate l x ofl pos m k = (case first_free (fl_files L) m of
      None \<Rightarrow> Some (ERROR, k)
    | Some i \<Rightarrow> Some (int i, k\<lparr>filelist := (filelist k)(l \<mapsto> L\<lparr>fl_files := (fl_files L)[i := \<lparr>f_oflags = ofl, f_pos = pos, f_inode = x\<rparr>]\<rparr>)\<rparr>))"
    and "first_free (fl_files L) m = Some i \<Longrightarrow>
      files_ok (k\<lparr>filelist := (filelist k)(l \<mapsto> L\<lparr>fl_files := (fl_files L)[i := \<lparr>f_oflags = ofl, f_pos = pos, f_inode = x\<rparr>]\<rparr>)\<rparr>) t (held(x := held x - 1))"
proof -
  have l: "l \<noteq> NULL" "length (fl_files L) = CONFIG_NFILE_DESCRIPTORS" using list_wf [OF assms(1,2)] by simp_all
  show "files_allocate l x ofl pos m k = (case first_free (fl_files L) m of
      None \<Rightarrow> Some (ERROR, k)
    | Some i \<Rightarrow> Some (int i, k\<lparr>filelist := (filelist k)(l \<mapsto> L\<lparr>fl_files := (fl_files L)[i := \<lparr>f_oflags = ofl, f_pos = pos, f_inode = x\<rparr>]\<rparr>)\<rparr>))"
    using assms l(1) by (cases L) (auto simp: files_allocate_def files_semtake_def files_semgive_def set_file_def upd_list_def fun_upd_idem split: option.splits)
  show "files_ok (k\<lparr>filelist := (filelist k)(l \<mapsto> L\<lparr>fl_files := (fl_files L)[i := \<lparr>f_oflags = ofl, f_pos = pos, f_inode = x\<rparr>]\<rparr>)\<rparr>) t (held(x := held x - 1))"
    if "first_free (fl_files L) m = Some i"
    by (rule set_file_ok [OF assms(1,2)]) (use first_free_Some [OF that] l in auto)
qed

definition files_inv :: "fsys \<Rightarrow> addr tree \<Rightarrow> bool" where
  "files_inv k t \<longleftrightarrow> files_ok k t none_held \<and> (\<forall>l L. filelist k l = Some L \<longrightarrow> fl_sem L > 0) \<and> CONFIG_NFILE_DESCRIPTORS * card (dom (filelist k)) < 2 ^ 15 - 1"

lemma files_invD:
  assumes "files_inv k t"
  shows "files_ok k t none_held" "filelist k l = Some L \<Longrightarrow> fl_sem L > 0" "x \<noteq> NULL \<Longrightarrow> inode (fsd k) x = Some n \<Longrightarrow> 0 \<le> i_crefs n \<and> i_crefs n < 2 ^ 15 - 1"
proof -
  show ok: "files_ok k t none_held" and "filelist k l = Some L \<Longrightarrow> fl_sem L > 0" using assms by (auto simp: files_inv_def)
  show "0 \<le> i_crefs n \<and> i_crefs n < 2 ^ 15 - 1" if "x \<noteq> NULL" "inode (fsd k) x = Some n"
    using files_okD [OF ok that] fd_refs_le [of k x] ok assms by (simp add: files_inv_def files_ok_def)
qed

lemma files_inv_same:
  assumes "files_inv k t" "files_ok k' t' none_held" "sems k' = sems k"
  shows "files_inv k' t'"
proof -
  have "dom (filelist k') = dom (filelist k)" using assms(3) by (auto simp: sems_def fun_eq_iff) (metis map_option_eq_Some option.map_disc_iff option.exhaust_sel)+
  moreover have "fl_sem L > 0" if "filelist k' l = Some L" for l L
  proof -
    have "sems k l = Some (fl_sem L)" using that assms(3) by (metis sems_def option.map(2))
    then obtain L' where "filelist k l = Some L'" "fl_sem L' = fl_sem L" by (auto simp: sems_def)
    then show ?thesis using assms(1) unfolding files_inv_def by metis
  qed
  ultimately show ?thesis using assms(1,2) by (simp add: files_inv_def)
qed

lemma sems_list [simp]: "filelist k l = Some L \<Longrightarrow> filelist k' = (filelist k)(l \<mapsto> L') \<Longrightarrow> fl_sem L' = fl_sem L \<Longrightarrow> sems k' = sems k"
  by (auto simp: sems_def fun_eq_iff)

end
