(* ===== verification/Files_Calls.thy ===== *)
theory Files_Calls
  imports Files_Ops
begin

section \<open>The calls on files keep the references\<close>

text \<open>
  \<open>close\<close>, \<open>dup\<close>, \<open>dup2\<close>, \<open>open\<close> and the release of a list of files, from a state at rest (\<open>files_inv\<close>): each returns, whatever the operations of the driver return, and the references are right again.
\<close>

lemma held_back [simp]: "(none_held(x := 1))(x := 0) = none_held" "none_held(x := 0) = none_held"
  by auto

lemma files_close_ok:
  assumes "files_inv k t" "filelist k l = Some L" "i < CONFIG_NFILE_DESCRIPTORS" "f_inode (fl_files L ! i) \<noteq> NULL"
  obtains ret k' where "files_close ops l (int i) k = Some (ret, k')" "files_ok k' t none_held" "filelist k' = (filelist k)(l \<mapsto> L\<lparr>fl_files := (fl_files L)[i := no_file]\<rparr>)"
proof -
  note I = files_invD [OF assms(1)]
  let ?L1 = "L\<lparr>fl_sem := fl_sem L - 1\<rparr>"
  let ?k1 = "k\<lparr>filelist := (filelist k)(l \<mapsto> ?L1)\<rparr>"
  have take: "files_semtake l k = Some ?k1" "files_ok ?k1 t none_held" using files_sem_ok [OF I(1) assms(2)] I(2) [OF assms(2)] by simp_all
  have l: "l \<noteq> NULL" "length (fl_files L) = CONFIG_NFILE_DESCRIPTORS" using list_wf [OF I(1) assms(2)] by simp_all
  obtain ret k2 where k2: "file_close ops l i ?k1 = Some (ret, k2)" "files_ok k2 t none_held" "filelist k2 = (filelist k)(l \<mapsto> ?L1\<lparr>fl_files := (fl_files L)[i := no_file]\<rparr>)"
    by (rule file_close_ok [OF take(2), of l ?L1 i ops]) (use assms(3,4) in auto)
  let ?L2 = "?L1\<lparr>fl_files := (fl_files L)[i := no_file]\<rparr>"
  let ?k3 = "k2\<lparr>filelist := (filelist k2)(l \<mapsto> ?L2\<lparr>fl_sem := fl_sem ?L2 + 1\<rparr>)\<rparr>"
  have l2: "filelist k2 l = Some ?L2" using k2(3) by simp
  have give: "files_semgive l k2 = Some ?k3" "files_ok ?k3 t none_held" by (rule files_sem_ok [OF k2(2) l2])+
  have "files_close ops l (int i) k = Some (ret, ?k3)"
    using l assms(2,3,4) take(1) k2(1) give(1) by (simp add: files_close_def get_file_def)
  moreover have "filelist ?k3 = (filelist k)(l \<mapsto> L\<lparr>fl_files := (fl_files L)[i := no_file]\<rparr>)" using k2(3) by (cases L) simp
  ultimately show ?thesis using that give(2) by blast
qed

lemma fs_close_ok:
  assumes "files_inv k t" "filelist k l = Some L"
  obtains r k' where "fs_close ops l fd k = Some (r, k')" "files_inv k' t"
    "0 \<le> fd \<Longrightarrow> fd < int CONFIG_NFILE_DESCRIPTORS \<Longrightarrow> filelist k' = (filelist k)(l \<mapsto> L\<lparr>fl_files := (fl_files L)[nat fd := if f_inode (fl_files L ! nat fd) = NULL then fl_files L ! nat fd else no_file]\<rparr>)"
    "\<not> DUP_ISOPEN fd l k \<Longrightarrow> r = Inl EBADF \<and> k' = k"
proof -
  note I = files_invD [OF assms(1)]
  have l: "l \<noteq> NULL" "length (fl_files L) = CONFIG_NFILE_DESCRIPTORS" using list_wf [OF I(1) assms(2)] by simp_all
  have open_iff: "DUP_ISOPEN fd l k \<longleftrightarrow> 0 \<le> fd \<and> fd < int CONFIG_NFILE_DESCRIPTORS \<and> f_inode (fl_files L ! nat fd) \<noteq> NULL"
    using assms(2) l(2) by (auto simp: DUP_ISOPEN_def get_file_def)
  show ?thesis
  proof (cases "DUP_ISOPEN fd l k")
    case True
    then have fd: "nat fd < CONFIG_NFILE_DESCRIPTORS" "f_inode (fl_files L ! nat fd) \<noteq> NULL" "int (nat fd) = fd" using open_iff by auto
    obtain ret k' where k': "files_close ops l fd k = Some (ret, k')" "files_ok k' t none_held" "filelist k' = (filelist k)(l \<mapsto> L\<lparr>fl_files := (fl_files L)[nat fd := no_file]\<rparr>)"
      using files_close_ok [OF assms fd(1,2)] fd(3) by metis
    have "files_inv k' t" by (rule files_inv_same [OF assms(1) k'(2)]) (use k'(3) assms(2) in simp)
    moreover have "\<exists>r. fs_close ops l fd k = Some (r, k')" using k'(1) True open_iff by (simp add: fs_close_def)
    ultimately show ?thesis using that k'(3) fd(2) True by auto
  next
    case False
    then have "fs_close ops l fd k = Some (Inl EBADF, k)" using open_iff assms(2) l by (auto simp: fs_close_def files_close_def get_file_def)
    moreover have "filelist k = (filelist k)(l \<mapsto> L\<lparr>fl_files := (fl_files L)[nat fd := if f_inode (fl_files L ! nat fd) = NULL then fl_files L ! nat fd else no_file]\<rparr>)"
      if "0 \<le> fd" "fd < int CONFIG_NFILE_DESCRIPTORS" using that False open_iff assms(2) by (auto simp: fun_upd_idem)
    ultimately show ?thesis using that assms(1) by blast
  qed
qed

lemma file_dup_ok:
  assumes "files_inv k t" "filelist k l = Some L" "DUP_ISOPEN fd l k"
  obtains r k' where "file_dup l fd m k = Some (r, k')" "files_inv k' t"
    "case first_free (fl_files L) m of None \<Rightarrow> r = Inl EMFILE \<and> filelist k' = filelist k
     | Some i \<Rightarrow> r = Inr (int i) \<and> filelist k' = (filelist k)(l \<mapsto> L\<lparr>fl_files := (fl_files L)[i := fl_files L ! nat fd]\<rparr>)"
proof -
  note I = files_invD [OF assms(1)]
  have l: "l \<noteq> NULL" "length (fl_files L) = CONFIG_NFILE_DESCRIPTORS" using list_wf [OF I(1) assms(2)] by simp_all
  let ?f = "fl_files L ! nat fd"
  let ?x = "f_inode ?f"
  have fd: "nat fd < CONFIG_NFILE_DESCRIPTORS" "?x \<noteq> NULL" "get_file l (nat fd) k = Some ?f" using assms(2,3) l(2) by (auto simp: DUP_ISOPEN_def get_file_def split: if_splits)
  obtain n where n: "inode (fsd k) ?x = Some n" "0 < i_crefs n" by (rule open_file_inode [OF I(1) assms(2) fd(1) refl fd(2)])
  obtain k1 where k1: "on_fs (inode_addref ?x) k = Some k1" "files_ok k1 t (none_held(?x := 1))" "filelist k1 = filelist k"
    using addref_files_ok [OF I(1) fd(2) n(1)] I(3) [OF fd(2) n(1)] by auto
  have l1: "filelist k1 l = Some L" using k1(3) assms(2) by simp
  note A = files_allocate_ok [OF k1(2) l1 I(2) [OF assms(2)] fd(2)]
  show ?thesis
  proof (cases "first_free (fl_files L) m")
    case None
    obtain n1 where n1: "inode (fsd k1) ?x = Some n1" "0 < i_crefs n1"
    proof -
      have "int (fd_refs k1 ?x) + (none_held(?x := 1)) ?x > 0" by simp
      then show ?thesis using that files_ok_inode [OF k1(2) fd(2)] files_okD [OF k1(2) fd(2)] by fastforce
    qed
    obtain k2 where k2: "on_fs (inode_release ?x) k1 = Some k2" "files_ok k2 t none_held" "filelist k2 = filelist k1"
      using release_files_ok [OF k1(2) fd(2) n1] by auto
    have "files_inv k2 t" by (rule files_inv_same [OF assms(1) k2(2)]) (simp add: sems_def fun_eq_iff k2(3) k1(3))
    then show ?thesis using that [of "Inl EMFILE" k2] None A(1) [of "f_oflags ?f" "f_pos ?f" m] k1(1,3) k2 fd(3) l(1) assms(3) by (simp add: file_dup_def)
  next
    case (Some i)
    let ?k2 = "k1\<lparr>filelist := (filelist k1)(l \<mapsto> L\<lparr>fl_files := (fl_files L)[i := \<lparr>f_oflags = f_oflags ?f, f_pos = f_pos ?f, f_inode = ?x\<rparr>]\<rparr>)\<rparr>"
    have f: "\<lparr>f_oflags = f_oflags ?f, f_pos = f_pos ?f, f_inode = ?x\<rparr> = ?f" by simp
    have ok2: "files_ok ?k2 t none_held" using A(2) [OF Some, of "f_oflags ?f" "f_pos ?f"] by simp
    have fl: "filelist ?k2 = (filelist k)(l \<mapsto> L\<lparr>fl_files := (fl_files L)[i := ?f]\<rparr>)" unfolding f using k1(3) by simp
    from sems_list [OF assms(2) fl] have "sems ?k2 = sems k" by simp
    then have inv: "files_inv ?k2 t" by (rule files_inv_same [OF assms(1) ok2])
    have "file_dup l fd m k = Some (Inr (int i), ?k2)" using Some A(1) [of "f_oflags ?f" "f_pos ?f" m] k1(1) fd(3) l(1) assms(3) by (simp add: file_dup_def)
    then show ?thesis by (rule that [OF _ inv]) (use Some fl in simp)
  qed
qed


lemma dup_finish_ok:
  assumes "files_ok k t none_held" "filelist k l = Some L" "i1 < CONFIG_NFILE_DESCRIPTORS" "i2 < CONFIG_NFILE_DESCRIPTORS" "i1 \<noteq> i2"
    and "f_inode (fl_files L ! i1) \<noteq> NULL" "f_inode (fl_files L ! i2) = NULL" "CONFIG_NFILE_DESCRIPTORS * card (dom (filelist k)) < 2 ^ 15 - 1"
  obtains r k' g where "dup_finish ops l i1 i2 ret k = Some (r, k')" "files_ok k' t none_held"
    "filelist k' = (filelist k)(l \<mapsto> L\<lparr>fl_files := (fl_files L)[i2 := g], fl_sem := fl_sem L + 1\<rparr>)"
    "r = Inr OK \<Longrightarrow> g = fl_files L ! i1" "r \<noteq> Inr OK \<Longrightarrow> g = no_file"
proof -
  let ?f = "fl_files L ! i1"
  let ?x = "f_inode ?f"
  have len: "length (fl_files L) = CONFIG_NFILE_DESCRIPTORS" using list_wf [OF assms(1,2)] by simp
  have get: "get_file l i1 k = Some ?f" using assms(2,3) len by (simp add: get_file_def)
  obtain n where n: "inode (fsd k) ?x = Some n" "i_crefs n = int (fd_refs k ?x)" by (rule open_file_inode [OF assms(1-3) refl assms(6)])
  have "i_crefs n < 2 ^ 15 - 1" using n(2) fd_refs_le [of k ?x] assms(1,8) by (simp add: files_ok_def)
  then obtain k1 where k1: "on_fs (inode_addref ?x) k = Some k1" "files_ok k1 t (none_held(?x := 1))" "filelist k1 = filelist k"
    using addref_files_ok [OF assms(1,6) n(1)] by auto
  have l1: "filelist k1 l = Some L" using k1(3) assms(2) by simp
  let ?L2 = "L\<lparr>fl_files := (fl_files L)[i2 := ?f]\<rparr>"
  let ?k2 = "k1\<lparr>filelist := (filelist k1)(l \<mapsto> ?L2)\<rparr>"
  have "set_file l i2 ?f k1 = Some ?k2 \<and> files_ok ?k2 t none_held"
    by (intro conjI set_file_ok [where f = ?f and held' = none_held, OF k1(2) l1 assms(4)]) (use assms(7) in auto)
  then have k2: "set_file l i2 ?f k1 = Some ?k2" "files_ok ?k2 t none_held" by simp_all
  have l2: "filelist ?k2 l = Some ?L2" "f_inode (fl_files ?L2 ! i2) = ?x" using assms(4) len by simp_all
  obtain n2 where n2: "inode (fsd ?k2) ?x = Some n2" "0 < i_crefs n2" by (rule open_file_inode [OF k2(2) l2(1) assms(4) l2(2) assms(6)])
  let ?ret = "if i_ops n2 \<noteq> NULL then call_open ops n2 None ?k2 else ret"
  show ?thesis
  proof (cases "i_ops n2 \<noteq> NULL \<and> ?ret < 0")
    case True
    then have c: "i_ops n2 \<noteq> NULL" "call_open ops n2 None ?k2 < 0" by (auto split: if_splits)
    obtain k3 where k3: "on_fs (inode_release ?x) ?k2 = Some k3" "files_ok k3 t (none_held(?x := - 1))" "filelist k3 = filelist ?k2"
      using release_files_ok [OF k2(2) assms(6) n2] by auto
    have l3: "filelist k3 l = Some ?L2" using k3(3) by simp
    let ?L4 = "?L2\<lparr>fl_files := (fl_files ?L2)[i2 := no_file]\<rparr>"
    let ?k4 = "k3\<lparr>filelist := (filelist k3)(l \<mapsto> ?L4)\<rparr>"
    have "set_file l i2 no_file k3 = Some ?k4 \<and> files_ok ?k4 t none_held"
      by (intro conjI set_file_ok [where f = no_file and held' = none_held, OF k3(2) l3 assms(4)]) (use l2(2) in \<open>auto simp: no_file_def\<close>)
    then have k4: "set_file l i2 no_file k3 = Some ?k4" "files_ok ?k4 t none_held" by simp_all
    have l4: "filelist ?k4 l = Some ?L4" by simp
    note G = files_sem_ok(2,3) [OF k4(2) l4]
    have "dup_finish ops l i1 i2 ret k = Some (Inl (- ?ret), ?k4\<lparr>filelist := (filelist ?k4)(l \<mapsto> ?L4\<lparr>fl_sem := fl_sem ?L4 + 1\<rparr>)\<rparr>)"
      using get k1(1) k2(1) n2(1) c k3(1) k4(1) G(1) by (simp add: dup_finish_def Let_def)
    then show ?thesis by (rule that [where g = no_file, OF _ G(2)]) (use k3(3) k1(3) in auto)
  next
    case False
    note G = files_sem_ok(2,3) [OF k2(2) l2(1)]
    have "dup_finish ops l i1 i2 ret k = Some (Inr OK, ?k2\<lparr>filelist := (filelist ?k2)(l \<mapsto> ?L2\<lparr>fl_sem := fl_sem ?L2 + 1\<rparr>)\<rparr>)"
      using get k1(1) k2(1) n2(1) False G(1) by (auto simp: dup_finish_def Let_def)
    then show ?thesis by (rule that [where g = ?f, OF _ G(2)]) (use k1(3) in auto)
  qed
qed


lemma dup2_ok:
  assumes "files_inv k t" "filelist k l = Some L"
  obtains r k' where "dup2 ops l fd1 fd2 k = Some (r, k')" "files_inv k' t" "r = Inr OK \<Longrightarrow> fd1 \<noteq> fd2 \<Longrightarrow> get_file l (nat fd2) k' = get_file l (nat fd1) k"
proof -
  note I = files_invD [OF assms(1)]
  have l: "l \<noteq> NULL" "length (fl_files L) = CONFIG_NFILE_DESCRIPTORS" using list_wf [OF I(1) assms(2)] by simp_all
  let ?i1 = "nat fd1" and ?i2 = "nat fd2"
  show ?thesis
  proof (cases "DUP_ISOPEN fd1 l k \<and> fd1 \<noteq> fd2 \<and> 0 \<le> fd2 \<and> fd2 < int CONFIG_NFILE_DESCRIPTORS")
    case False
    then have "\<exists>r. dup2 ops l fd1 fd2 k = Some (r, k) \<and> (r = Inr OK \<longrightarrow> fd1 = fd2)" using l(1) by (auto simp: dup2_def)
    then show ?thesis using that assms(1) by blast
  next
    case True
    have i1: "?i1 < CONFIG_NFILE_DESCRIPTORS" "f_inode (fl_files L ! ?i1) \<noteq> NULL" "0 \<le> fd1" "get_file l ?i1 k = Some (fl_files L ! ?i1)"
      using True assms(2) l(2) by (auto simp: DUP_ISOPEN_def get_file_def split: if_splits)
    have i2: "?i2 < CONFIG_NFILE_DESCRIPTORS" "?i1 \<noteq> ?i2" using True i1(3) by auto
    obtain n where n: "inode (fsd k) (f_inode (fl_files L ! ?i1)) = Some n" by (rule open_file_inode [OF I(1) assms(2) i1(1) refl i1(2)])
    have d: "dup2 ops l fd1 fd2 k = files_dup ops l ?i1 ?i2 k" using True l(1) by (simp add: dup2_def)
    show ?thesis
    proof (cases "INODE_IS_MOUNTPT n")
      case True
      then have "dup2 ops l fd1 fd2 k = Some (Inl ENOSYS, k)" using d i1 n by (simp add: files_dup_def)
      then show ?thesis using that assms(1) by blast
    next
      case False
      let ?L1 = "L\<lparr>fl_sem := fl_sem L - 1\<rparr>"
      let ?k1 = "k\<lparr>filelist := (filelist k)(l \<mapsto> ?L1)\<rparr>"
      have k1: "files_semtake l k = Some ?k1" "files_ok ?k1 t none_held" using files_sem_ok(1) [OF I(1) assms(2) I(2) [OF assms(2)]] files_sem_ok(3) [OF I(1) assms(2)] by simp_all
      let ?g = "if f_inode (fl_files L ! ?i2) = NULL then fl_files L ! ?i2 else no_file"
      let ?L2 = "?L1\<lparr>fl_files := (fl_files L)[?i2 := ?g]\<rparr>"
      obtain ret k2 where k2: "file_close ops l ?i2 ?k1 = Some (ret, k2)" "files_ok k2 t none_held" "filelist k2 = (filelist k)(l \<mapsto> ?L2)"
        by (rule file_close_ok [OF k1(2), of l ?L1 ?i2 ops]) (use i2(1) in auto)
      have l2: "filelist k2 l = Some ?L2" using k2(3) by simp
      show ?thesis
      proof (cases "ret < 0")
        case True
        let ?k3 = "k2\<lparr>filelist := (filelist k2)(l \<mapsto> ?L2\<lparr>fl_sem := fl_sem ?L2 + 1\<rparr>)\<rparr>"
        have k3: "files_semgive l k2 = Some ?k3" "files_ok ?k3 t none_held" by (rule files_sem_ok [OF k2(2) l2])+
        have "filelist ?k3 = (filelist k)(l \<mapsto> L\<lparr>fl_files := (fl_files L)[?i2 := ?g]\<rparr>)" using k2(3) by (cases L) simp
        from sems_list [OF assms(2) this] have "sems ?k3 = sems k" by simp
        then have "files_inv ?k3 t" by (rule files_inv_same [OF assms(1) k3(2)])
        moreover have "dup2 ops l fd1 fd2 k = Some (Inl (- ret), ?k3)" using d i1 n False l(1) k1(1) k2(1) k3(1) True by (simp add: files_dup_def)
        ultimately show ?thesis using that by blast
      next
        case nn: False
        have f: "fl_files ?L2 ! ?i1 = fl_files L ! ?i1" "f_inode (fl_files ?L2 ! ?i2) = NULL" using i1(1) i2 l(2) by (simp_all add: no_file_def)
        have "dom (filelist k2) = dom (filelist k)" using k2(3) assms(2) by auto
        then have card: "CONFIG_NFILE_DESCRIPTORS * card (dom (filelist k2)) < 2 ^ 15 - 1" using assms(1) by (simp add: files_inv_def)
        have f1: "f_inode (fl_files ?L2 ! ?i1) \<noteq> NULL" using f(1) i1(2) by simp
        obtain r k3 g where k3: "dup_finish ops l ?i1 ?i2 ret k2 = Some (r, k3)" "files_ok k3 t none_held"
          "filelist k3 = (filelist k2)(l \<mapsto> ?L2\<lparr>fl_files := (fl_files ?L2)[?i2 := g], fl_sem := fl_sem ?L2 + 1\<rparr>)" "r = Inr OK \<Longrightarrow> g = fl_files ?L2 ! ?i1"
          using dup_finish_ok [OF k2(2) l2 i1(1) i2 f1 f(2) card] by metis
        have fl: "filelist k3 = (filelist k)(l \<mapsto> L\<lparr>fl_files := (fl_files L)[?i2 := g]\<rparr>)" using k3(3) k2(3) by (cases L) simp
        from sems_list [OF assms(2) fl] have "sems k3 = sems k" by simp
        then have "files_inv k3 t" by (rule files_inv_same [OF assms(1) k3(2)])
        moreover have "dup2 ops l fd1 fd2 k = Some (r, k3)" using d i1 n False l(1) k1(1) k2(1) k3(1) nn by (simp add: files_dup_def)
        moreover have "get_file l ?i2 k3 = get_file l ?i1 k" if "r = Inr OK" using fl k3(4) [OF that] f(1) i1(4) i2(1) l(2) by (simp add: get_file_def)
        ultimately show ?thesis using that by blast
      qed
    qed
  qed
qed

end
