(* ===== verification/Files_Open.thy ===== *)
theory Files_Open
  imports Files_Calls
begin

section \<open>open keeps the references\<close>

text \<open>
  The branches of \<open>open\<close>. The path is looked up and a reference taken; every failure after that gives the reference back and leaves the descriptors as they were.
\<close>

definition path_node :: "fs \<Rightarrow> addr tree \<Rightarrow> string \<Rightarrow> addr option" where
  "path_node s t path = (case path of [] \<Rightarrow> None | c # name \<Rightarrow> if c = SLASH then node_at s t (comps name) else None)"

definition fds :: "fsys \<Rightarrow> addr \<Rightarrow> addr list option" where
  "fds k l = map_option (\<lambda>L. map f_inode (fl_files L)) (filelist k l)"

abbreviation addref_fs :: "addr \<Rightarrow> inode \<Rightarrow> fs \<Rightarrow> fs" where
  "addref_fs x n s \<equiv> s\<lparr>inode := (inode s)(x \<mapsto> n\<lparr>i_crefs := i_crefs n + 1\<rparr>)\<rparr>"

lemma inode_search_at:
  assumes "fs_rep s t"
  obtains l p r q where "inode_search (SLASH # name) s = Some (case node_at s t (comps name) of None \<Rightarrow> NULL | Some x \<Rightarrow> x, l, p, r, q)"
  by (rule search_ok [OF assms, of name]) (auto split: if_splits)

lemma inode_find_none:
  assumes "fs_rep s t" "tree_sem s > 0" "path_node s t path = None"
  shows "\<exists>rel. inode_find path s = Some (NULL, rel, s)"
proof (cases "\<exists>name. path = SLASH # name")
  case True
  then obtain name where p: "path = SLASH # name" by blast
  let ?s0 = "s\<lparr>tree_sem := tree_sem s - 1\<rparr>"
  have rep0: "fs_rep ?s0 t" "node_at ?s0 t (comps name) = None" using assms(1,3) p by (simp_all add: fs_rep_sem path_node_def)
  obtain l p' r q where "inode_search (SLASH # name) ?s0 = Some (case node_at ?s0 t (comps name) of None \<Rightarrow> NULL | Some x \<Rightarrow> x, l, p', r, q)" by (rule inode_search_at [OF rep0(1)])
  then have "inode_search path ?s0 = Some (NULL, l, p', r, q)" using rep0(2) p by simp
  then show ?thesis using p assms(2) by (simp add: inode_find_def inode_semtake_def inode_semgive_def)
next
  case False
  then show ?thesis by (cases path) (auto simp: inode_find_def)
qed

lemma inode_find_some:
  assumes "fs_rep s t" "tree_sem s > 0" "path_node s t path = Some x" "inode s x = Some n" "0 \<le> i_crefs n" "i_crefs n < 2 ^ 15 - 1"
  shows "\<exists>rel. inode_find path s = Some (x, rel, addref_fs x n s)"
proof -
  obtain name where p: "path = SLASH # name" "node_at s t (comps name) = Some x" using assms(3) by (auto simp: path_node_def split: list.splits if_splits)
  let ?s0 = "s\<lparr>tree_sem := tree_sem s - 1\<rparr>"
  have rep0: "fs_rep ?s0 t" "node_at ?s0 t (comps name) = Some x" using assms(1) p by (simp_all add: fs_rep_sem)
  obtain l p' r q where "inode_search (SLASH # name) ?s0 = Some (case node_at ?s0 t (comps name) of None \<Rightarrow> NULL | Some x \<Rightarrow> x, l, p', r, q)" by (rule inode_search_at [OF rep0(1)])
  then have S: "inode_search path ?s0 = Some (x, l, p', r, q)" using rep0(2) p by simp
  have x: "x \<noteq> NULL" using node_at_mem [OF assms(1) p(2)] by simp
  have m: "i_crefs_update (\<lambda>c. s16 (c + 1)) n = n\<lparr>i_crefs := i_crefs n + 1\<rparr>" using assms(5,6) by (cases n) simp
  show ?thesis using S x p(1) assms(2,4) by (simp add: inode_find_def inode_semtake_def inode_semgive_def upd_inode_def m del: inode.update_convs)
qed

lemma release_back:
  assumes "x \<noteq> NULL" "tree_sem (fsd k) > 0" "inode (fsd k) x = Some n" "0 \<le> i_crefs n" "i_crefs n < 2 ^ 15 - 1" "i_flags n AND FSNODEFLAG_DELETED = 0"
  shows "on_fs (inode_release x) (k\<lparr>fsd := addref_fs x n (fsd k)\<rparr>) = Some k"
  using release_unfold [of "addref_fs x n (fsd k)" x "n\<lparr>i_crefs := i_crefs n + 1\<rparr>"] assms by (simp add: on_fs_def fun_upd_idem)

definition file_opened :: "addr \<Rightarrow> addr \<Rightarrow> nat \<Rightarrow> inode \<Rightarrow> nat \<Rightarrow> fsys \<Rightarrow> fsys" where
  "file_opened l x ofl n i k = (let L = the (filelist k l)
     in k\<lparr>fsd := addref_fs x n (fsd k), filelist := (filelist k)(l \<mapsto> L\<lparr>fl_files := (fl_files L)[i := \<lparr>f_oflags = ofl, f_pos = 0, f_inode = x\<rparr>]\<rparr>)\<rparr>)"

lemma path_node_inode:
  assumes "files_inv k t" "path_node (fsd k) t path = Some x"
  obtains n where "x \<noteq> NULL" "inode (fsd k) x = Some n" "0 \<le> i_crefs n" "i_crefs n < 2 ^ 15 - 1" "i_flags n AND FSNODEFLAG_DELETED = 0"
proof -
  note I = files_invD [OF assms(1)]
  have rep: "fs_rep (fsd k) t" using I(1) by (simp add: files_ok_def)
  obtain n where x: "x \<noteq> NULL" "inode (fsd k) x = Some n" "x \<in> set_tree t"
    using assms(2) node_at_mem [OF rep] by (auto simp: path_node_def split: list.splits if_splits)
  show ?thesis using that [OF x(1,2)] I(3) [OF x(1,2)] files_okD [OF I(1) x(1,2)] x(3) by blast
qed

text \<open>The branches of \<open>open\<close> for a path that has a node: all but one give the reference back.\<close>

lemma fs_open_found:
  assumes "files_inv k t" "filelist k l = Some L" "path_node (fsd k) t path = Some x" "inode (fsd k) x = Some n"
  defines "m \<equiv> n\<lparr>i_crefs := i_crefs n + 1\<rparr>"
  shows "\<exists>rel. fs_open ops l path ofl k =
    (if \<not> INODE_IS_DRIVER m \<and> \<not> INODE_IS_MOUNTPT m \<or> i_ops m = NULL then Some (Inl ENXIO, k)
     else if inode_checkflags ops m ofl < 0 then Some (Inl (- inode_checkflags ops m ofl), k)
     else case first_free (fl_files L) 0 of
       None \<Rightarrow> Some (Inl EMFILE, k)
     | Some i \<Rightarrow>
         let ret = call_open ops m (if INODE_IS_MOUNTPT m then rel else None) (file_opened l x ofl n i k)
         in if ret < 0
            then do { k \<leftarrow> files_release l (int i) (file_opened l x ofl n i k); k \<leftarrow> on_fs (inode_release x) k; Some (Inl (- ret), k) }
            else Some (Inr (int i), file_opened l x ofl n i k))"
proof -
  note I = files_invD [OF assms(1)]
  have rep: "fs_rep (fsd k) t" "tree_sem (fsd k) > 0" using I(1) by (simp_all add: files_ok_def)
  have l: "l \<noteq> NULL" using list_wf [OF I(1) assms(2)] by simp
  have n: "x \<noteq> NULL" "0 \<le> i_crefs n" "i_crefs n < 2 ^ 15 - 1" "i_flags n AND FSNODEFLAG_DELETED = 0"
    using path_node_inode [OF assms(1,3)] assms(4) by auto
  obtain rel where find: "inode_find path (fsd k) = Some (x, rel, addref_fs x n (fsd k))" using inode_find_some [OF rep assms(3,4) n(2,3)] by blast
  define k1 where k1: "k1 = k\<lparr>fsd := addref_fs x n (fsd k)\<rparr>"
  have ok1: "files_ok k1 t (none_held(x := 1))" using ref_files_ok [OF I(1) n(1) assms(4) n(3)] by (simp add: k1)
  have l1: "filelist k1 l = Some L" using assms(2) by (simp add: k1)
  have "file_opened l x ofl n i k = k1\<lparr>filelist := (filelist k1)(l \<mapsto> L\<lparr>fl_files := (fl_files L)[i := \<lparr>f_oflags = ofl, f_pos = 0, f_inode = x\<rparr>]\<rparr>)\<rparr>" for i
    using assms(2) by (simp add: file_opened_def k1)
  then have A: "files_allocate l x ofl 0 0 k1 = (case first_free (fl_files L) 0 of None \<Rightarrow> Some (ERROR, k1) | Some i \<Rightarrow> Some (int i, file_opened l x ofl n i k))"
    using files_allocate_ok(1) [OF ok1 l1 I(2) [OF assms(2)] n(1), of ofl 0 0] by (simp split: option.splits)
  have bk: "on_fs (inode_release x) k1 = Some k" unfolding k1 by (rule release_back [OF n(1) rep(2) assms(4) n(2-4)])
  show ?thesis unfolding fs_open_def using l n(1)
    by (intro exI [of _ rel]) (simp add: find k1 [symmetric] m_def A bk split: option.splits)
qed

text \<open>A driver that refuses to open: the entry is free again and the reference given back.\<close>

lemma open_refused:
  assumes "files_inv k t" "filelist k l = Some L" "path_node (fsd k) t path = Some x" "inode (fsd k) x = Some n" "first_free (fl_files L) 0 = Some i"
  shows "\<exists>k'. Option.bind (files_release l (int i) (file_opened l x ofl n i k)) (on_fs (inode_release x)) = Some k' \<and> files_inv k' t \<and> fsd k' = fsd k \<and> fds k' = fds k"
proof -
  note I = files_invD [OF assms(1)]
  have rep: "tree_sem (fsd k) > 0" using I(1) by (simp_all add: files_ok_def)
  have l: "l \<noteq> NULL" "length (fl_files L) = CONFIG_NFILE_DESCRIPTORS" using list_wf [OF I(1) assms(2)] by simp_all
  have n: "x \<noteq> NULL" "0 \<le> i_crefs n" "i_crefs n < 2 ^ 15 - 1" "i_flags n AND FSNODEFLAG_DELETED = 0"
    using path_node_inode [OF assms(1,3)] assms(4) by auto
  have i: "i < CONFIG_NFILE_DESCRIPTORS" "f_inode (fl_files L ! i) = NULL" using first_free_Some [OF assms(5)] l(2) by simp_all
  let ?L' = "L\<lparr>fl_files := (fl_files L)[i := no_file]\<rparr>"
  let ?k' = "k\<lparr>filelist := (filelist k)(l \<mapsto> ?L')\<rparr>"
  have "files_release l (int i) (file_opened l x ofl n i k) = Some (?k'\<lparr>fsd := addref_fs x n (fsd ?k')\<rparr>)"
    using l(1) i(1) I(2) [OF assms(2)] assms(2) by (cases L) (simp add: file_opened_def files_release_def files_semtake_def files_semgive_def set_file_def upd_list_def)
  moreover have "on_fs (inode_release x) (?k'\<lparr>fsd := addref_fs x n (fsd ?k')\<rparr>) = Some ?k'"
    by (rule release_back [OF n(1) _ _ n(2-4)]) (use rep assms(4) in simp_all)
  moreover have ok: "files_ok ?k' t none_held"
    by (rule set_file_ok(2) [OF I(1) assms(2) i(1)]) (use i(2) in \<open>auto simp: no_file_def\<close>)
  moreover have "files_inv ?k' t" by (rule files_inv_same [OF assms(1) ok sems_list [OF assms(2), of ?k' ?L']]) simp_all
  moreover have "map f_inode ((fl_files L)[i := no_file]) = map f_inode (fl_files L)" using i l(2) by (simp add: map_update no_file_def list_update_same_conv)
  then have "fds ?k' = fds k" using assms(2) by (simp add: fds_def fun_eq_iff)
  ultimately show ?thesis by simp
qed

lemma file_opened_ok:
  assumes "files_inv k t" "filelist k l = Some L" "path_node (fsd k) t path = Some x" "inode (fsd k) x = Some n" "first_free (fl_files L) 0 = Some i"
  shows "files_inv (file_opened l x ofl n i k) t"
proof -
  note I = files_invD [OF assms(1)]
  have n: "x \<noteq> NULL" "i_crefs n < 2 ^ 15 - 1" using path_node_inode [OF assms(1,3)] assms(4) by auto
  have "files_ok (k\<lparr>fsd := addref_fs x n (fsd k)\<rparr>) t (none_held(x := 1))" using ref_files_ok [OF I(1) n(1) assms(4) n(2)] by simp
  then have "files_ok (file_opened l x ofl n i k) t none_held"
    using files_allocate_ok(2) [of _ t _ l L x 0 i ofl 0] assms(2,5) I(2) [OF assms(2)] n(1) by (fastforce simp: file_opened_def)
  moreover have "filelist (file_opened l x ofl n i k) = (filelist k)(l \<mapsto> L\<lparr>fl_files := (fl_files L)[i := \<lparr>f_oflags = ofl, f_pos = 0, f_inode = x\<rparr>]\<rparr>)"
    using assms(2) by (simp add: file_opened_def)
  from sems_list [OF assms(2) this] have "sems (file_opened l x ofl n i k) = sems k" by simp
  ultimately show ?thesis by (rule files_inv_same [OF assms(1)])
qed

lemma fs_open_ok:
  assumes "files_inv k t" "filelist k l = Some L"
  shows "\<exists>r k'. fs_open ops l path ofl k = Some (r, k') \<and> files_inv k' t \<and>
    (case r of
       Inr fd \<Rightarrow> \<exists>x n i. path_node (fsd k) t path = Some x \<and> inode (fsd k) x = Some n \<and> fd = int i \<and> first_free (fl_files L) 0 = Some i \<and> k' = file_opened l x ofl n i k
     | Inl e \<Rightarrow> fsd k' = fsd k \<and> fds k' = fds k \<and> (path_node (fsd k) t path = None \<longrightarrow> e = ENOENT))"
proof (cases "path_node (fsd k) t path")
  case None
  have rep: "fs_rep (fsd k) t" "tree_sem (fsd k) > 0" and l: "l \<noteq> NULL"
    using files_invD(1) [OF assms(1)] list_wf [OF files_invD(1) [OF assms(1)] assms(2)] by (simp_all add: files_ok_def)
  obtain rel where "inode_find path (fsd k) = Some (NULL, rel, fsd k)" using inode_find_none [OF rep None] by blast
  then show ?thesis using None assms l(1) by (simp add: fs_open_def)
next
  case (Some x)
  obtain n where n: "inode (fsd k) x = Some n" by (rule path_node_inode [OF assms(1) Some])
  define m where "m = n\<lparr>i_crefs := i_crefs n + 1\<rparr>"
  obtain rel where O: "fs_open ops l path ofl k =
    (if \<not> INODE_IS_DRIVER m \<and> \<not> INODE_IS_MOUNTPT m \<or> i_ops m = NULL then Some (Inl ENXIO, k)
     else if inode_checkflags ops m ofl < 0 then Some (Inl (- inode_checkflags ops m ofl), k)
     else case first_free (fl_files L) 0 of
       None \<Rightarrow> Some (Inl EMFILE, k)
     | Some i \<Rightarrow>
         let ret = call_open ops m (if INODE_IS_MOUNTPT m then rel else None) (file_opened l x ofl n i k)
         in if ret < 0
            then do { k \<leftarrow> files_release l (int i) (file_opened l x ofl n i k); k \<leftarrow> on_fs (inode_release x) k; Some (Inl (- ret), k) }
            else Some (Inr (int i), file_opened l x ofl n i k))"
    using fs_open_found [OF assms Some n] unfolding m_def by blast
  show ?thesis
  proof (cases "first_free (fl_files L) 0")
    case None
    then show ?thesis using O assms(1) Some by (simp split: if_splits)
  next
    case i: (Some i)
    obtain k' where k': "Option.bind (files_release l (int i) (file_opened l x ofl n i k)) (on_fs (inode_release x)) = Some k'" "files_inv k' t" "fsd k' = fsd k" "fds k' = fds k"
      using open_refused [OF assms Some n i] by blast
    obtain k1 where k1: "files_release l (int i) (file_opened l x ofl n i k) = Some k1" "on_fs (inode_release x) k1 = Some k'"
      using k'(1) by (auto simp: Option.bind_eq_Some_conv)
    show ?thesis using O i file_opened_ok [OF assms Some n i] assms(1) Some n k'(2-4) k1 by (simp add: Let_def split: if_splits)
  qed
qed

end
