(* ===== verification/Files_Lists.thy ===== *)
theory Files_Lists
  imports Files_Open
begin

section \<open>Lists of files and drivers keep the references\<close>

text \<open>
  Allocation, sharing and release of the lists of files, and registration and removal of drivers, keep \<open>files_inv\<close>, the latter with another tree.
\<close>

subsection \<open>The lists\<close>

lemma close_all_ok:
  assumes "files_ok k t none_held" "filelist k l = Some L" "i + n = CONFIG_NFILE_DESCRIPTORS" "\<forall>j<i. f_inode (fl_files L ! j) = NULL"
  shows "\<exists>k' L'. close_all ops l i n k = Some k' \<and> files_ok k' t none_held \<and> filelist k' = (filelist k)(l \<mapsto> L') \<and> (\<forall>j<CONFIG_NFILE_DESCRIPTORS. f_inode (fl_files L' ! j) = NULL)"
  using assms
proof (induction n arbitrary: k L i)
  case 0
  then show ?case by (intro exI [of _ k] exI [of _ L]) (simp add: fun_upd_idem)
next
  case (Suc n)
  then have i: "i < CONFIG_NFILE_DESCRIPTORS" by simp
  have len: "length (fl_files L) = CONFIG_NFILE_DESCRIPTORS" using list_wf [OF Suc.prems(1,2)] by simp
  let ?L1 = "L\<lparr>fl_files := (fl_files L)[i := if f_inode (fl_files L ! i) = NULL then fl_files L ! i else no_file]\<rparr>"
  obtain ret k1 where k1: "file_close ops l i k = Some (ret, k1)" "files_ok k1 t none_held" "filelist k1 = (filelist k)(l \<mapsto> ?L1)"
    by (rule file_close_ok [OF Suc.prems(1,2) i])
  have l1: "filelist k1 l = Some ?L1" using k1(3) by simp
  have e: "Suc i + n = CONFIG_NFILE_DESCRIPTORS" using Suc.prems(3) by simp
  have z: "\<forall>j<Suc i. f_inode (fl_files ?L1 ! j) = NULL" using Suc.prems(4) i len by (auto simp: less_Suc_eq no_file_def)
  from Suc.IH [OF k1(2) l1 e z] obtain k2 L2 where k2: "close_all ops l (Suc i) n k1 = Some k2" "files_ok k2 t none_held" "filelist k2 = (filelist k1)(l \<mapsto> L2)"
    "\<forall>j<CONFIG_NFILE_DESCRIPTORS. f_inode (fl_files L2 ! j) = NULL" by blast
  moreover have "filelist k2 = (filelist k)(l \<mapsto> L2)" unfolding k2(3) k1(3) by (rule fun_upd_upd)
  ultimately show ?case using k1(1) by (intro exI [of _ k2] exI [of _ L2]) simp
qed

lemma fd_refs_drop:
  assumes "finite (dom (filelist k))" "filelist k l = Some L" "x \<notin> set (map f_inode (fl_files L))"
  shows "fd_refs (k\<lparr>filelist := (filelist k)(l := None)\<rparr>) x = fd_refs k x"
proof -
  have "fd_refs k x = count_list (map f_inode (fl_files L)) x + (\<Sum>l\<in>dom (filelist k) - {l}. count_list (map f_inode (fl_files (the (filelist k l)))) x)"
    unfolding fd_refs_def using assms(1,2) by (subst sum.remove [of _ l]) auto
  moreover have "count_list (map f_inode (fl_files L)) x = 0" using assms(3) by (simp add: count_list_0_iff)
  moreover have "(\<Sum>l\<in>dom (filelist k) - {l}. count_list (map f_inode (fl_files (the (filelist k l)))) x)
      = fd_refs (k\<lparr>filelist := (filelist k)(l := None)\<rparr>) x" unfolding fd_refs_def by (rule sum.cong) auto
  ultimately show ?thesis by simp
qed

lemma drop_list_ok:
  assumes "files_ok k t none_held" "filelist k l = Some L" "\<forall>j<CONFIG_NFILE_DESCRIPTORS. f_inode (fl_files L ! j) = NULL"
  shows "files_ok (k\<lparr>filelist := (filelist k)(l := None)\<rparr>) t none_held"
proof -
  let ?k = "k\<lparr>filelist := (filelist k)(l := None)\<rparr>"
  have wf: "lists_wf k" using assms(1) by (simp add: files_ok_def)
  have "fd_refs ?k x = fd_refs k x" if "x \<noteq> NULL" for x
    by (rule fd_refs_drop [OF _ assms(2)]) (use that assms(3) wf list_wf [OF assms(1,2)] in \<open>auto simp: lists_wf_def in_set_conv_nth\<close>)
  moreover have "lists_wf ?k" using wf by (auto simp: lists_wf_def)
  ultimately show ?thesis using assms(1) by (simp add: files_ok_def)
qed

lemma files_crefs_inv:
  assumes "files_inv k t" "filelist k l = Some L"
  shows "files_inv (k\<lparr>filelist := (filelist k)(l \<mapsto> L\<lparr>fl_crefs := c\<rparr>)\<rparr>) t"
proof -
  note I = files_invD [OF assms(1)]
  have ok: "files_ok (k\<lparr>filelist := (filelist k)(l \<mapsto> L\<lparr>fl_crefs := c\<rparr>)\<rparr>) t none_held"
    by (rule files_ok_list [OF I(1) assms(2)]) (use list_wf [OF I(1) assms(2)] in auto)
  show ?thesis by (rule files_inv_same [OF assms(1) ok sems_list [OF assms(2), where L' = "L\<lparr>fl_crefs := c\<rparr>"]]) auto
qed

lemma files_addreflist_ok:
  assumes "files_inv k t" "filelist k l = Some L"
  shows "\<exists>k'. files_addreflist l k = Some k' \<and> files_inv k' t \<and> fds k' = fds k"
proof -
  have l: "l \<noteq> NULL" using list_wf [OF files_invD(1) [OF assms(1)] assms(2)] by simp
  have "fl_crefs_update (\<lambda>c. s16 (c + 1)) L = L\<lparr>fl_crefs := s16 (fl_crefs L + 1)\<rparr>" by (cases L) simp
  then have "files_addreflist l k = Some (k\<lparr>filelist := (filelist k)(l \<mapsto> L\<lparr>fl_crefs := s16 (fl_crefs L + 1)\<rparr>)\<rparr>)"
    using l assms(2) by (simp only: files_addreflist_def upd_list_def if_True Option.bind_lunit simp_thms)
  moreover have "fds (k\<lparr>filelist := (filelist k)(l \<mapsto> L\<lparr>fl_crefs := s16 (fl_crefs L + 1)\<rparr>)\<rparr>) = fds k" using assms(2) by (simp add: fds_def fun_eq_iff)
  ultimately show ?thesis using files_crefs_inv [OF assms] by blast
qed

lemma files_releaselist_ok:
  assumes "files_inv k t" "filelist k l = Some L"
  shows "\<exists>k'. files_releaselist ops l k = Some k' \<and> files_inv k' t
    \<and> (if s16 (fl_crefs L - 1) \<le> 0 then filelist k' = (filelist k)(l := None) else fds k' = fds k)"
proof -
  let ?c = "s16 (fl_crefs L - 1)"
  let ?k1 = "k\<lparr>filelist := (filelist k)(l \<mapsto> L\<lparr>fl_crefs := ?c\<rparr>)\<rparr>"
  have l: "l \<noteq> NULL" using list_wf [OF files_invD(1) [OF assms(1)] assms(2)] by simp
  have "fl_crefs_update (\<lambda>c. s16 (c - 1)) L = L\<lparr>fl_crefs := ?c\<rparr>" by (cases L) simp
  then have u: "upd_list l (fl_crefs_update (\<lambda>c. s16 (c - 1))) k = Some ?k1" using assms(2) by (simp only: upd_list_def Option.bind_lunit)
  have inv: "files_inv ?k1 t" by (rule files_crefs_inv [OF assms])
  show ?thesis
  proof (cases "?c \<le> 0")
    case False
    moreover have "fds ?k1 = fds k" using assms(2) by (simp add: fds_def fun_eq_iff)
    ultimately show ?thesis using u inv l by (simp add: files_releaselist_def)
  next
    case True
    obtain k2 L2 where k2: "close_all ops l 0 CONFIG_NFILE_DESCRIPTORS ?k1 = Some k2" "files_ok k2 t none_held" "filelist k2 = (filelist ?k1)(l \<mapsto> L2)"
      "\<forall>j<CONFIG_NFILE_DESCRIPTORS. f_inode (fl_files L2 ! j) = NULL"
      using close_all_ok [OF files_invD(1) [OF inv], of l "L\<lparr>fl_crefs := ?c\<rparr>" 0 CONFIG_NFILE_DESCRIPTORS ops] by auto
    let ?k3 = "k2\<lparr>filelist := (filelist k2)(l := None)\<rparr>"
    have ok: "files_ok ?k3 t none_held" by (rule drop_list_ok [OF k2(2) _ k2(4)]) (simp add: k2(3))
    have fl: "filelist ?k3 = (filelist k)(l := None)" using k2(3) by simp
    have "card (dom (filelist ?k3)) \<le> card (dom (filelist k))" unfolding fl
      using assms(1) by (intro card_mono) (auto simp: files_inv_def files_ok_def lists_wf_def)
    then have "files_inv ?k3 t" using ok assms(1) fl by (auto simp: files_inv_def)
    moreover have "files_releaselist ops l k = Some ?k3" using u l True k2(1) by (simp add: files_releaselist_def)
    ultimately show ?thesis using fl True by auto
  qed
qed

lemma files_alloclist_ok:
  assumes "files_inv k t" "kl k \<noteq> NULL \<Longrightarrow> filelist k (kl k) = None" "CONFIG_NFILE_DESCRIPTORS * Suc (card (dom (filelist k))) < 2 ^ 15 - 1"
  shows "files_inv (snd (files_alloclist kl k)) t"
proof (cases "kl k = NULL")
  case True
  then show ?thesis using assms(1) by (simp add: files_alloclist_def)
next
  case False
  let ?L = "\<lparr>fl_sem = 1, fl_crefs = 1, fl_files = replicate CONFIG_NFILE_DESCRIPTORS no_file\<rparr>"
  let ?k = "k\<lparr>filelist := (filelist k)(kl k \<mapsto> ?L)\<rparr>"
  have new: "filelist k (kl k) = None" by (rule assms(2) [OF False])
  have ok: "files_ok k t none_held" and fin: "finite (dom (filelist k))" using assms(1) by (simp_all add: files_inv_def files_ok_def lists_wf_def)
  have "fd_refs k x = fd_refs ?k x" if "x \<noteq> NULL" for x
    using fd_refs_drop [of ?k "kl k" ?L x] that fin new by (simp add: no_file_def fun_upd_idem)
  moreover have "lists_wf ?k" using ok False by (auto simp: files_ok_def lists_wf_def)
  ultimately have "files_ok ?k t none_held" using ok by (simp add: files_ok_def)
  moreover have "card (dom (filelist ?k)) = Suc (card (dom (filelist k)))" using new fin by (simp add: domIff)
  ultimately have "files_inv ?k t" using assms(1,3) by (auto simp: files_inv_def)
  then show ?thesis using False by (simp add: files_alloclist_def Let_def)
qed

subsection \<open>Drivers that come and go\<close>

text \<open>A change of the tree that keeps the counts and flags of the inodes it does not add.\<close>

lemma files_ok_tree:
  assumes "files_ok k t held" "fs_rep s t'" "tree_sem s > 0"
    and "\<And>x n. inode (fsd k) x = Some n \<Longrightarrow> \<exists>n'. inode s x = Some n' \<and> i_crefs n' = i_crefs n \<and> i_flags n' = i_flags n"
    and "\<And>x n. inode (fsd k) x = None \<Longrightarrow> inode s x = Some n \<Longrightarrow> i_crefs n = 0 \<and> i_flags n AND FSNODEFLAG_DELETED = 0"
    and "\<And>x. x \<notin> set_tree t \<Longrightarrow> x \<noteq> NULL \<Longrightarrow> inode (fsd k) x \<noteq> None \<Longrightarrow> inode s x = inode (fsd k) x"
    and "set_tree t' \<subseteq> set_tree t \<union> {a. inode (fsd k) a = None}"
  shows "files_ok (k\<lparr>fsd := s\<rparr>) t' held"
proof -
  let ?k = "k\<lparr>fsd := s\<rparr>"
  have eq: "fd_refs ?k = fd_refs k" "lists_wf ?k = lists_wf k" by (simp_all add: fd_refs_def lists_wf_def fun_eq_iff)
  have "inode_counted t' (int (fd_refs k x) + held x) x (inode s x)" if x: "x \<noteq> NULL" for x
  proof (cases "inode (fsd k) x")
    case None
    have "inode_counted t (int (fd_refs k x) + held x) x (inode (fsd k) x)" using assms(1) x unfolding files_ok_def by blast
    then have "int (fd_refs k x) + held x = 0" by (simp add: None inode_counted_def)
    then show ?thesis using assms(5) [OF None] by (auto simp: inode_counted_def split: option.splits)
  next
    case (Some n)
    note D = files_okD [OF assms(1) x Some]
    obtain n' where n': "inode s x = Some n'" "i_crefs n' = i_crefs n" "i_flags n' = i_flags n" using assms(4) [OF Some] by blast
    have "i_child n' = NULL \<and> 0 < i_crefs n' \<and> x \<notin> set_tree t'" if "i_flags n' AND FSNODEFLAG_DELETED \<noteq> 0"
    proof -
      have d: "i_child n = NULL" "0 < i_crefs n" "x \<notin> set_tree t" using D that n'(3) by auto
      then have "n' = n" using assms(6) [of x] x Some n'(1) by simp
      then show ?thesis using d assms(7) Some by auto
    qed
    then show ?thesis using D n' by (simp add: inode_counted_def)
  qed
  then show ?thesis using assms(1-3) by (simp add: files_ok_def eq)
qed

lemma inv_fsd:
  assumes "files_inv k t" "files_ok (k\<lparr>fsd := s\<rparr>) t' none_held"
  shows "files_inv (k\<lparr>fsd := s\<rparr>) t'"
proof -
  have "sems (k\<lparr>fsd := s\<rparr>) = sems k" by (simp add: sems_def fun_eq_iff)
  then show ?thesis by (rule files_inv_same [OF assms])
qed

lemma register_files_ok:
  assumes "files_inv k t" "\<And>k. kz k \<noteq> NULL \<Longrightarrow> inode k (kz k) = None"
  shows "\<exists>ret s t'. register_driver kz (SLASH # name) fops priv (fsd k) = Some (ret, s) \<and> files_inv (k\<lparr>fsd := s\<rparr>) t'"
proof -
  let ?s = "fsd k"
  let ?sa = "?s\<lparr>tree_sem := tree_sem ?s - 1\<rparr>"
  have ok: "files_ok k t none_held" by (rule files_invD(1) [OF assms(1)])
  have rep: "fs_rep ?sa t" "tree_sem ?s > 0" using ok by (simp_all add: files_ok_def fs_rep_sem)
  show ?thesis
  proof (rule reserve_ok [OF rep(1) assms(2), of name])
    fix ret node s' t'
    assume r: "inode_reserve kz (SLASH # name) ?sa = Some (ret, node, s')" "fs_rep s' t'" "keeps ?sa s'"
      and found: "node_at ?sa t (comps name) \<noteq> None \<Longrightarrow> ret = - EEXIST \<and> node = NULL \<and> s' = ?sa"
      and new: "node_at ?sa t (comps name) = None \<Longrightarrow> ret = OK \<and> node_at s' t' (comps name) = Some node \<and> inode ?sa node = None \<and> i_flags (the (inode s' node)) = 0
         \<and> (\<forall>es. es \<noteq> [] \<and> prefix es (comps name) \<longrightarrow> node_at s' t' es \<noteq> None)
       \<or> ret = - ENOMEM \<and> node = NULL \<and> kz s' = NULL \<and> node_at s' t' (comps name) = None"
      and fresh: "\<And>a n. inode ?sa a = None \<Longrightarrow> inode s' a = Some n \<Longrightarrow> i_crefs n = 0 \<and> i_flags n = 0"
      and tr: "set_tree t' \<subseteq> set_tree t \<union> {a. inode ?sa a = None}"
      and fr: "\<And>b. b \<notin> set_tree t \<Longrightarrow> b \<noteq> NULL \<Longrightarrow> inode ?sa b \<noteq> None \<Longrightarrow> inode s' b = inode ?sa b"
    have K: "\<exists>n'. inode s' x = Some n' \<and> i_crefs n' = i_crefs n \<and> i_flags n' = i_flags n" if "inode ?s x = Some n" for x n
      using r(3) that by (fastforce simp: keeps_def same_inode_def)
    have sem: "tree_sem s' + 1 = tree_sem ?s" using r(3) by (simp add: keeps_def)
    show ?thesis
    proof (cases "ret = OK")
      case True
      then have N: "node_at s' t' (comps name) = Some node" "inode ?s node = None"
        using found new by (cases "node_at ?sa t (comps name) = None"; simp)+
      obtain n where n: "inode s' node = Some n" using node_at_mem [OF r(2) N(1)] by blast
      let ?m = "n\<lparr>i_flags := i_flags n AND not16 FSNODEFLAG_TYPE_MASK, i_ops := fops, i_private := priv\<rparr>"
      let ?sb = "s'\<lparr>inode := (inode s')(node \<mapsto> ?m), tree_sem := tree_sem ?s\<rparr>"
      have z: "i_crefs n = 0 \<and> i_flags n = 0" using fresh n N(2) by simp
      have "register_driver kz (SLASH # name) fops priv ?s = Some (OK, ?sb)"
        using rep(2) r(1) True n sem by (simp add: register_driver_def inode_semtake_def upd_inode_def inode_semgive_def add.commute)
      moreover have "fs_rep ?sb t'" by (rule fs_rep_upd [OF r(2) n]) (use z in \<open>simp_all add: INODE_IS_MOUNTPT_def\<close>)
      then have "files_ok (k\<lparr>fsd := ?sb\<rparr>) t' none_held"
        by (rule files_ok_tree [OF ok]) (use rep(2) K fresh tr fr N(2) z in \<open>auto split: if_splits\<close>)
      ultimately show ?thesis using inv_fsd [OF assms(1)] by blast
    next
      case False
      have neg: "ret < 0" using False found new by (cases "node_at ?sa t (comps name) = None") auto
      let ?sb = "s'\<lparr>tree_sem := tree_sem ?s\<rparr>"
      have "register_driver kz (SLASH # name) fops priv ?s = Some (ret, ?sb)"
        using rep(2) r(1) neg sem by (simp add: register_driver_def inode_semtake_def inode_semgive_def add.commute)
      moreover have "fs_rep ?sb t'" using r(2) by (simp add: fs_rep_sem)
      then have "files_ok (k\<lparr>fsd := ?sb\<rparr>) t' none_held"
        by (rule files_ok_tree [OF ok]) (use rep(2) K fresh tr fr in auto)
      ultimately show ?thesis using inv_fsd [OF assms(1)] by blast
    qed
  qed
qed

text \<open>
  A node without children leaves the tree. If a descriptor refers to it, it stays in memory as a deleted inode outside the tree, to be freed by the last \<open>close\<close>.
\<close>

lemma detach_ok:
  assumes "files_ok k t none_held" "inode (fsd k) x = Some n" "x \<in> set_tree t" "x \<noteq> NULL" "i_child n = NULL"
    and "fs_rep s t'" "tree_sem s > 0" "keeps ((fsd k)\<lparr>tree_sem := tree_sem s\<rparr>) s" "dom (inode s) = dom (inode (fsd k))" "{x} = set_tree t - set_tree t'" "set_tree t' \<subseteq> set_tree t"
    and "\<And>b. b \<notin> set_tree t \<Longrightarrow> inode s b = inode (fsd k) b"
    and "i = None \<and> i_crefs n = 0 \<or> (\<exists>m. i = Some m \<and> i_crefs n \<noteq> 0 \<and> i_crefs m = i_crefs n \<and> i_child m = NULL)"
  shows "files_ok (k\<lparr>fsd := s\<lparr>inode := (inode s)(x := i)\<rparr>\<rparr>) t' none_held"
proof -
  have K: "\<exists>n'. inode s y = Some n' \<and> i_crefs n' = i_crefs m \<and> i_flags n' = i_flags m" if "inode (fsd k) y = Some m" for y m
    using assms(8) that by (fastforce simp: keeps_def same_inode_def)
  have new: "inode s y = None" if "inode (fsd k) y = None" for y using assms(9) that by blast
  have "files_ok (k\<lparr>fsd := s\<rparr>) t' none_held"
    by (rule files_ok_tree [OF assms(1,6,7) K]) (use new assms(11,12) in auto)
  moreover have "fs_rep (s\<lparr>inode := (inode s)(x := i)\<rparr>) t'" by (rule fs_rep_frame [OF assms(6)]) (use assms(10) in auto)
  moreover have "inode_counted t' (int (fd_refs (k\<lparr>fsd := s\<rparr>) x) + 0) x i"
  proof -
    have "fd_refs (k\<lparr>fsd := s\<rparr>) = fd_refs k" by (simp add: fd_refs_def fun_eq_iff)
    then show ?thesis using files_okD [OF assms(1,4,2)] assms(10,13) by (auto simp: inode_counted_def)
  qed
  ultimately have "files_ok ((k\<lparr>fsd := s\<rparr>)\<lparr>fsd := s\<lparr>inode := (inode s)(x := i)\<rparr>\<rparr>) t' (none_held(x := 0))"
    by (intro files_ok_upd) simp_all
  then show ?thesis by simp
qed

lemma unregister_files_ok:
  assumes "files_inv k t" "\<And>x n. node_at (fsd k) t (comps name) = Some x \<Longrightarrow> inode (fsd k) x = Some n \<Longrightarrow> i_child n = NULL"
  shows "\<exists>ret s t'. unregister_driver (SLASH # name) (fsd k) = Some (ret, s) \<and> files_inv (k\<lparr>fsd := s\<rparr>) t'"
proof -
  let ?s = "fsd k"
  let ?sa = "?s\<lparr>tree_sem := tree_sem ?s - 1\<rparr>"
  have ok: "files_ok k t none_held" by (rule files_invD(1) [OF assms(1)])
  have rep: "fs_rep ?sa t" "tree_sem ?s > 0" "fs_rep ?s t" using ok by (simp_all add: files_ok_def fs_rep_sem)
  have u: "unregister_driver (SLASH # name) ?s = do { (ret, s) \<leftarrow> inode_remove (SLASH # name) ?sa; Some (ret, inode_semgive s) }"
    using rep(2) by (simp add: unregister_driver_def inode_semtake_def)
  show ?thesis
  proof (cases "node_at ?s t (comps name)")
    case None
    have "inode_remove (SLASH # name) ?sa = Some (- ENOENT, ?sa)"
      by (rule search_ok [OF rep(1), of name]) (use None in \<open>auto simp: inode_remove_def fs_rep_sem split: if_splits\<close>)
    then show ?thesis using u assms(1) by (auto simp: inode_semgive_def)
  next
    case (Some x)
    obtain n where n: "inode ?s x = Some n" "x \<in> set_tree t" "x \<noteq> NULL" using node_at_mem [OF rep(3) Some] by blast
    have c: "i_child n = NULL" by (rule assms(2) [OF Some n(1)])
    have Sa: "node_at ?sa t (comps name) = Some x" "inode ?sa x = Some n" using Some n(1) by (simp_all add: fs_rep_sem)
    show ?thesis
    proof (rule remove_ok [OF rep(1) Sa])
      fix s1 t' ch
      assume rem: "inode_remove (SLASH # name) ?sa =
          (if i_crefs n \<noteq> 0 then do { k \<leftarrow> upd_inode x (i_flags_update (\<lambda>f. f OR FSNODEFLAG_DELETED)) s1; Some (- EBUSY, k) }
           else do { k \<leftarrow> inode_free (i_child n) s1; k \<leftarrow> kfree x k; Some (OK, k) })"
        and s1: "inode s1 x = Some (n\<lparr>i_peer := NULL\<rparr>)" "fs_rep s1 t'" "keeps ?sa s1" "dom (inode s1) = dom (inode ?sa)"
        and tr: "nodes_ok (inode s1) (Node ch x Leaf)" "set_tree (Node ch x Leaf) = set_tree t - set_tree t'" "set_tree t' \<subseteq> set_tree t" "i_child n = ptr ch"
        and fr: "\<And>b. b \<notin> set_tree t \<Longrightarrow> inode s1 b = inode ?sa b"
      have ch: "ch = Leaf" using tr(1,4) c by (cases ch) auto
      let ?i = "if i_crefs n = 0 then None else Some (i_flags_update (\<lambda>f. f OR FSNODEFLAG_DELETED) (n\<lparr>i_peer := NULL\<rparr>))"
      let ?sb = "s1\<lparr>tree_sem := tree_sem ?s\<rparr>"
      have sem: "tree_sem s1 + 1 = tree_sem ?s" using s1(3) by (simp add: keeps_def)
      have "\<exists>ret. unregister_driver (SLASH # name) ?s = Some (ret, ?sb\<lparr>inode := (inode ?sb)(x := ?i)\<rparr>)"
        using u rem s1(1) c sem inode_free.simps [of NULL s1] by (auto simp: upd_inode_def kfree_def inode_semgive_def add.commute)
      moreover have "files_ok (k\<lparr>fsd := ?sb\<lparr>inode := (inode ?sb)(x := ?i)\<rparr>\<rparr>) t' none_held"
        by (rule detach_ok [OF ok n c]) (use s1 tr fr rep(2) c ch in \<open>auto simp: fs_rep_sem keeps_def\<close>)
      ultimately show ?thesis using inv_fsd [OF assms(1)] by blast
    qed
  qed
qed

end
