(* ===== verification/Files_Props.thy ===== *)
theory Files_Props
  imports Files_Lists
begin

section \<open>Correctness of the file descriptors\<close>

text \<open>
  The calls on files and drivers in any order, from the start of the system on: the count of references of every inode is the number of descriptors that refer to it, so that no call
  accesses an inode that has been freed and none waits for a semaphore that nobody holds.
\<close>

datatype fcall =
    Fs_open addr string nat
  | Fs_close addr int
  | Fs_dup addr int
  | Fs_dup2 addr int int
  | Fs_alloclist
  | Fs_addreflist addr
  | Fs_releaselist addr
  | Fs_register string addr addr
  | Fs_unregister string

definition leaf_path :: "string \<Rightarrow> fs \<Rightarrow> bool" where
  "leaf_path path s \<longleftrightarrow> path \<noteq> [] \<and> hd path = SLASH \<and>
     (case inode_search path s of Some (x, _) \<Rightarrow> (case inode s x of Some n \<Rightarrow> i_child n = NULL | None \<Rightarrow> True) | None \<Rightarrow> True)"

fun call_allowed :: "fcall \<Rightarrow> fsys \<Rightarrow> bool" where
  "call_allowed (Fs_open l _ _) k = (filelist k l \<noteq> None)"
| "call_allowed (Fs_close l _) k = (filelist k l \<noteq> None)"
| "call_allowed (Fs_dup l _) k = (filelist k l \<noteq> None)"
| "call_allowed (Fs_dup2 l _ _) k = (filelist k l \<noteq> None)"
| "call_allowed Fs_alloclist k = (CONFIG_NFILE_DESCRIPTORS * Suc (card (dom (filelist k))) < 2 ^ 15 - 1)"
| "call_allowed (Fs_addreflist l) k = (filelist k l \<noteq> None)"
| "call_allowed (Fs_releaselist l) k = (filelist k l \<noteq> None)"
| "call_allowed (Fs_register path _ _) k = (path \<noteq> [] \<and> hd path = SLASH)"
| "call_allowed (Fs_unregister path) k = leaf_path path (fsd k)"

fun do_call :: "(addr \<Rightarrow> file_operations) \<Rightarrow> (fs \<Rightarrow> addr) \<Rightarrow> (fsys \<Rightarrow> addr) \<Rightarrow> fcall \<Rightarrow> fsys \<Rightarrow> fsys option" where
  "do_call ops kz kl (Fs_open l path oflags) k = map_option snd (fs_open ops l path oflags k)"
| "do_call ops kz kl (Fs_close l fd) k = map_option snd (fs_close ops l fd k)"
| "do_call ops kz kl (Fs_dup l fd) k = map_option snd (dup l fd k)"
| "do_call ops kz kl (Fs_dup2 l fd1 fd2) k = map_option snd (dup2 ops l fd1 fd2 k)"
| "do_call ops kz kl Fs_alloclist k = Some (snd (files_alloclist kl k))"
| "do_call ops kz kl (Fs_addreflist l) k = files_addreflist l k"
| "do_call ops kz kl (Fs_releaselist l) k = files_releaselist ops l k"
| "do_call ops kz kl (Fs_register path fops priv) k = map_option (\<lambda>(_, s). k\<lparr>fsd := s\<rparr>) (register_driver kz path fops priv (fsd k))"
| "do_call ops kz kl (Fs_unregister path) k = map_option (\<lambda>(_, s). k\<lparr>fsd := s\<rparr>) (unregister_driver path (fsd k))"

inductive fs_run :: "(addr \<Rightarrow> file_operations) \<Rightarrow> (fs \<Rightarrow> addr) \<Rightarrow> (fsys \<Rightarrow> addr) \<Rightarrow> fsys \<Rightarrow> bool" for ops kz kl where
  fs_run_init: "fs_run ops kz kl fs_init"
| fs_run_call: "fs_run ops kz kl k \<Longrightarrow> call_allowed c k \<Longrightarrow> do_call ops kz kl c k = Some k' \<Longrightarrow> fs_run ops kz kl k'"

subsection \<open>Each call\<close>

lemma dup_ok:
  assumes "files_inv k t" "filelist k l = Some L"
  shows "\<exists>r k'. dup l fd k = Some (r, k') \<and> files_inv k' t"
proof (cases "DUP_ISOPEN fd l k")
  case True
  then show ?thesis using file_dup_ok [OF assms True, of 0] by (metis DUP_ISOPEN_def dup_def)
next
  case False
  have "l \<noteq> NULL" using list_wf [OF files_invD(1) [OF assms(1)] assms(2)] by simp
  then show ?thesis using False assms(1) by (simp add: dup_def file_dup_def)
qed

lemma leaf_path_child:
  assumes "fs_rep s t" "leaf_path (SLASH # name) s" "node_at s t (comps name) = Some x" "inode s x = Some n"
  shows "i_child n = NULL"
proof (rule inode_search_at [OF assms(1), of name])
  fix l p r q assume "inode_search (SLASH # name) s = Some (case node_at s t (comps name) of None \<Rightarrow> NULL | Some x \<Rightarrow> x, l, p, r, q)"
  then show ?thesis using assms(2-4) by (simp add: leaf_path_def)
qed

lemma do_call_ok:
  assumes "files_inv k t" "call_allowed c k" "\<And>s. kz s \<noteq> NULL \<Longrightarrow> inode s (kz s) = None" "\<And>k. kl k \<noteq> NULL \<Longrightarrow> filelist k (kl k) = None"
  shows "\<exists>k' t'. do_call ops kz kl c k = Some k' \<and> files_inv k' t'"
proof (cases c)
  case (Fs_open l path oflags)
  then obtain L where "filelist k l = Some L" using assms(2) by auto
  from fs_open_ok [OF assms(1) this, of ops path oflags] show ?thesis unfolding Fs_open by auto
next
  case (Fs_close l fd)
  then obtain L where "filelist k l = Some L" using assms(2) by auto
  from fs_close_ok [OF assms(1) this, of ops fd] show ?thesis unfolding Fs_close by (metis do_call.simps(2) option.map(2) snd_conv)
next
  case (Fs_dup l fd)
  then obtain L where "filelist k l = Some L" using assms(2) by auto
  from dup_ok [OF assms(1) this, of fd] show ?thesis unfolding Fs_dup by auto
next
  case (Fs_dup2 l fd1 fd2)
  then obtain L where "filelist k l = Some L" using assms(2) by auto
  from dup2_ok [OF assms(1) this, of ops fd1 fd2] show ?thesis unfolding Fs_dup2 by (metis do_call.simps(4) option.map(2) snd_conv)
next
  case Fs_alloclist
  then show ?thesis using files_alloclist_ok [where kl = kl, OF assms(1) assms(4) [of k]] assms(2) by auto
next
  case (Fs_addreflist l)
  then obtain L where "filelist k l = Some L" using assms(2) by auto
  from files_addreflist_ok [OF assms(1) this] show ?thesis unfolding Fs_addreflist by auto
next
  case (Fs_releaselist l)
  then obtain L where "filelist k l = Some L" using assms(2) by auto
  from files_releaselist_ok [OF assms(1) this, of ops] show ?thesis unfolding Fs_releaselist by auto
next
  case (Fs_register path fops priv)
  then obtain name where "path = SLASH # name" using assms(2) by (cases path) auto
  then show ?thesis using register_files_ok [OF assms(1,3), of name fops priv] Fs_register by auto
next
  case (Fs_unregister path)
  have rep: "fs_rep (fsd k) t" using files_invD(1) [OF assms(1)] by (simp add: files_ok_def)
  obtain name where p: "path = SLASH # name" using assms(2) Fs_unregister by (cases path) (auto simp: leaf_path_def)
  then have "leaf_path (SLASH # name) (fsd k)" using assms(2) Fs_unregister by simp
  from leaf_path_child [OF rep this] have "\<exists>ret s t'. unregister_driver (SLASH # name) (fsd k) = Some (ret, s) \<and> files_inv (k\<lparr>fsd := s\<rparr>) t'"
    by (rule unregister_files_ok [OF assms(1)])
  then show ?thesis unfolding Fs_unregister p by auto
qed

lemma files_inv_init: "files_inv fs_init Leaf"
  by (simp add: files_inv_def files_ok_def fs_init_def fs_rep_def lists_wf_def inode_counted_def fd_refs_def)

lemma fs_run_inv:
  assumes "fs_run ops kz kl k" "\<And>s. kz s \<noteq> NULL \<Longrightarrow> inode s (kz s) = None" "\<And>k. kl k \<noteq> NULL \<Longrightarrow> filelist k (kl k) = None"
  shows "\<exists>t. files_inv k t"
  using assms(1)
proof induction
  case fs_run_init
  then show ?case using files_inv_init by blast
next
  case (fs_run_call k c k')
  then show ?case using do_call_ok [OF _ fs_run_call.hyps(2) assms(2,3), of _ ops] by fastforce
qed

text \<open>
  C26: In every state that calls on files and drivers reach from the start of the system, whatever the drivers return, the count of references of each inode is the number of descriptors of all
  tasks that refer to it, the inode of each open descriptor is there, also if its driver has been unregistered, and every call returns: none accesses freed memory and none blocks. The
  allocators return NULL or fresh memory; only paths without children are unregistered, since \<open>inode_remove\<close> frees the inodes below a path even if they are referenced.
\<close>

theorem files_calls_safe:
  assumes "fs_run ops kz kl k" "\<And>s. kz s \<noteq> NULL \<Longrightarrow> inode s (kz s) = None" "\<And>k. kl k \<noteq> NULL \<Longrightarrow> filelist k (kl k) = None"
  shows "(\<forall>x n. x \<noteq> NULL \<and> inode (fsd k) x = Some n \<longrightarrow> i_crefs n = int (fd_refs k x))
    \<and> (\<forall>l i f. get_file l i k = Some f \<and> f_inode f \<noteq> NULL \<longrightarrow> inode (fsd k) (f_inode f) \<noteq> None)
    \<and> (\<forall>c. call_allowed c k \<longrightarrow> do_call ops kz kl c k \<noteq> None)"
proof -
  obtain t where inv: "files_inv k t" using fs_run_inv [OF assms(1) assms(2,3)] by blast
  note ok = files_invD(1) [OF inv]
  have "i_crefs n = int (fd_refs k x)" if "x \<noteq> NULL" "inode (fsd k) x = Some n" for x n using files_okD [OF ok that] by simp
  moreover have "inode (fsd k) (f_inode f) \<noteq> None" if f: "get_file l i k = Some f" "f_inode f \<noteq> NULL" for l i f
  proof -
    obtain L where L: "filelist k l = Some L" "i < length (fl_files L)" "fl_files L ! i = f" using f(1) by (auto simp: get_file_def split: Option.bind_splits if_splits)
    then have "i < CONFIG_NFILE_DESCRIPTORS" using list_wf [OF ok L(1)] by simp
    from open_file_inode [OF ok L(1) this _ f(2)] L(3) show ?thesis by auto
  qed
  moreover have "do_call ops kz kl c k \<noteq> None" if "call_allowed c k" for c using do_call_ok [OF inv that assms(2,3), of ops] by fastforce
  ultimately show ?thesis by blast
qed

lemma fs_close_opened:
  assumes "files_inv k t" "filelist k l = Some L" "path_node (fsd k) t path = Some x" "inode (fsd k) x = Some n" "first_free (fl_files L) 0 = Some i"
  shows "\<exists>r k'. fs_close ops l (int i) (file_opened l x ofl n i k) = Some (r, k') \<and> fsd k' = fsd k \<and> fds k' = fds k"
proof -
  note I = files_invD [OF assms(1)]
  have rep: "tree_sem (fsd k) > 0" using I(1) by (simp_all add: files_ok_def)
  have l: "l \<noteq> NULL" "length (fl_files L) = CONFIG_NFILE_DESCRIPTORS" using list_wf [OF I(1) assms(2)] by simp_all
  have n: "x \<noteq> NULL" "0 \<le> i_crefs n" "i_crefs n < 2 ^ 15 - 1" "i_flags n AND FSNODEFLAG_DELETED = 0"
    using path_node_inode [OF assms(1,3)] assms(4) by auto
  have i: "i < CONFIG_NFILE_DESCRIPTORS" "f_inode (fl_files L ! i) = NULL" using first_free_Some [OF assms(5)] l(2) by simp_all
  let ?f = "\<lparr>f_oflags = ofl, f_pos = 0, f_inode = x\<rparr>"
  let ?La = "L\<lparr>fl_files := (fl_files L)[i := ?f]\<rparr>"
  let ?k1 = "file_opened l x ofl n i k"
  let ?kb = "k\<lparr>filelist := (filelist k)(l \<mapsto> ?La\<lparr>fl_sem := fl_sem L - 1\<rparr>)\<rparr>"
  let ?kc = "?kb\<lparr>fsd := addref_fs x n (fsd ?kb)\<rparr>"
  let ?L' = "L\<lparr>fl_files := (fl_files L)[i := no_file]\<rparr>"
  let ?k' = "k\<lparr>filelist := (filelist k)(l \<mapsto> ?L')\<rparr>"
  have l1: "filelist ?k1 l = Some ?La" using assms(2) by (simp add: file_opened_def)
  have take: "files_semtake l ?k1 = Some ?kc"
    using assms(2) I(2) [OF assms(2)] by (cases L) (simp add: file_opened_def files_semtake_def upd_list_def)
  have rel: "on_fs (inode_release x) ?kc = Some ?kb" by (rule release_back [OF n(1) _ _ n(2-4)]) (use rep assms(4) in simp_all)
  have "\<exists>ret. file_close ops l i ?kc = Some (ret, ?kb\<lparr>filelist := (filelist k)(l \<mapsto> ?L'\<lparr>fl_sem := fl_sem L - 1\<rparr>)\<rparr>)"
    unfolding file_close_def using rel n(1) i(1) l(2) by (cases L) (simp add: get_file_def set_file_def upd_list_def Let_def)
  then obtain ret where c: "file_close ops l i ?kc = Some (ret, ?kb\<lparr>filelist := (filelist k)(l \<mapsto> ?L'\<lparr>fl_sem := fl_sem L - 1\<rparr>)\<rparr>)" by blast
  have g: "files_semgive l (?kb\<lparr>filelist := (filelist k)(l \<mapsto> ?L'\<lparr>fl_sem := fl_sem L - 1\<rparr>)\<rparr>) = Some ?k'"
    by (cases L) (simp add: files_semgive_def upd_list_def)
  have get: "get_file l i ?k1 = Some ?f" using l1 i(1) l(2) by (simp add: get_file_def)
  have "files_close ops l (int i) ?k1 = Some (ret, ?k')" using take c g get l(1) i(1) n(1) by (simp add: files_close_def)
  moreover have "map f_inode ((fl_files L)[i := no_file]) = map f_inode (fl_files L)" using i l(2) by (simp add: map_update no_file_def list_update_same_conv)
  then have "fds ?k' = fds k" using assms(2) by (simp add: fds_def fun_eq_iff)
  ultimately show ?thesis using i(1) by (simp add: fs_close_def)
qed

text \<open>
  C27: \<open>open\<close> returns the lowest free descriptor, which refers to the inode of the path from then on; a call that fails leaves all descriptors and inodes as they were; and \<open>close\<close> of the
  descriptor after \<open>open\<close> gives them back as they were before, whatever the driver's operations return.
\<close>

theorem open_close_roundtrip:
  assumes "files_inv k t" "filelist k l = Some L"
  shows "\<exists>r k1. fs_open ops l path oflags k = Some (r, k1) \<and> files_inv k1 t \<and>
    (case r of
       Inl e \<Rightarrow> fsd k1 = fsd k \<and> fds k1 = fds k \<and> (path_node (fsd k) t path = None \<longrightarrow> e = ENOENT)
     | Inr fd \<Rightarrow> (\<exists>x i. path_node (fsd k) t path = Some x \<and> fd = int i \<and> i < CONFIG_NFILE_DESCRIPTORS
         \<and> f_inode (fl_files L ! i) = NULL \<and> (\<forall>j<i. f_inode (fl_files L ! j) \<noteq> NULL)
         \<and> get_file l i k1 = Some \<lparr>f_oflags = oflags, f_pos = 0, f_inode = x\<rparr>
         \<and> (\<exists>r' k2. fs_close ops l fd k1 = Some (r', k2) \<and> fsd k2 = fsd k \<and> fds k2 = fds k)))"
proof -
  obtain r k1 where r: "fs_open ops l path oflags k = Some (r, k1)" "files_inv k1 t" "case r of
       Inr fd \<Rightarrow> \<exists>x n i. path_node (fsd k) t path = Some x \<and> inode (fsd k) x = Some n \<and> fd = int i \<and> first_free (fl_files L) 0 = Some i \<and> k1 = file_opened l x oflags n i k
     | Inl e \<Rightarrow> fsd k1 = fsd k \<and> fds k1 = fds k \<and> (path_node (fsd k) t path = None \<longrightarrow> e = ENOENT)"
    using fs_open_ok [OF assms, of ops path oflags] by blast
  show ?thesis
  proof (cases r)
    case (Inl e)
    then show ?thesis using r by auto
  next
    case (Inr fd)
    then obtain x n i where x: "path_node (fsd k) t path = Some x" "inode (fsd k) x = Some n" "fd = int i" "first_free (fl_files L) 0 = Some i" "k1 = file_opened l x oflags n i k"
      using r(3) by auto
    have len: "length (fl_files L) = CONFIG_NFILE_DESCRIPTORS" using list_wf [OF files_invD(1) [OF assms(1)] assms(2)] by simp
    have "get_file l i k1 = Some \<lparr>f_oflags = oflags, f_pos = 0, f_inode = x\<rparr>"
      using x(5) first_free_Some [OF x(4)] assms(2) by (simp add: get_file_def file_opened_def)
    then show ?thesis using r(1,2) Inr x(1,3) first_free_Some [OF x(4)] len fs_close_opened [OF assms x(1,2,4), of ops oflags]
      by (intro exI [of _ r] exI [of _ k1]) (simp add: x(5))
  qed
qed

text \<open>
  \<open>dup\<close> gives the lowest free descriptor a copy of an open file, and \<open>dup2\<close> the descriptor that is asked for; the result of \<open>dup2\<close> is then 0 and not the descriptor.
\<close>

lemma dup2_result: "dup2 ops l fd1 fd2 k = Some (Inr v, k') \<Longrightarrow> fd1 \<noteq> fd2 \<Longrightarrow> v = OK"
  by (auto simp: dup2_def files_dup_def dup_finish_def Let_def split: if_splits Option.bind_splits)

theorem dup_calls_correct:
  assumes "files_inv k t" "filelist k l = Some L" "DUP_ISOPEN fd l k"
  shows "\<exists>r k'. dup l fd k = Some (r, k') \<and> files_inv k' t \<and> (case first_free (fl_files L) 0 of
       None \<Rightarrow> r = Inl EMFILE \<and> fds k' = fds k
     | Some i \<Rightarrow> r = Inr (int i) \<and> get_file l i k' = get_file l (nat fd) k)"
    and "\<exists>r k'. dup2 ops l fd fd2 k = Some (r, k') \<and> files_inv k' t \<and> (\<forall>v. r = Inr v \<and> fd \<noteq> fd2 \<longrightarrow> v = OK \<and> get_file l (nat fd2) k' = get_file l (nat fd) k)"
proof -
  have len: "length (fl_files L) = CONFIG_NFILE_DESCRIPTORS" using list_wf [OF files_invD(1) [OF assms(1)] assms(2)] by simp
  have fd: "get_file l (nat fd) k = Some (fl_files L ! nat fd)" "0 \<le> fd" "fd < int CONFIG_NFILE_DESCRIPTORS" using assms(2,3) len by (auto simp: DUP_ISOPEN_def get_file_def)
  obtain r k' where r: "file_dup l fd 0 k = Some (r, k')" "files_inv k' t"
    "case first_free (fl_files L) 0 of None \<Rightarrow> r = Inl EMFILE \<and> filelist k' = filelist k
     | Some i \<Rightarrow> r = Inr (int i) \<and> filelist k' = (filelist k)(l \<mapsto> L\<lparr>fl_files := (fl_files L)[i := fl_files L ! nat fd]\<rparr>)"
    by (rule file_dup_ok [OF assms, of 0])
  then show "\<exists>r k'. dup l fd k = Some (r, k') \<and> files_inv k' t \<and> (case first_free (fl_files L) 0 of
       None \<Rightarrow> r = Inl EMFILE \<and> fds k' = fds k
     | Some i \<Rightarrow> r = Inr (int i) \<and> get_file l i k' = get_file l (nat fd) k)"
    using fd first_free_Some [of "fl_files L" 0] len by (intro exI [of _ r] exI [of _ k']) (auto simp: dup_def fds_def fun_eq_iff get_file_def split: option.splits)
  obtain r k' where "dup2 ops l fd fd2 k = Some (r, k')" "files_inv k' t" "r = Inr OK \<Longrightarrow> fd \<noteq> fd2 \<Longrightarrow> get_file l (nat fd2) k' = get_file l (nat fd) k"
    by (rule dup2_ok [OF assms(1,2), of ops fd fd2]) blast
  then show "\<exists>r k'. dup2 ops l fd fd2 k = Some (r, k') \<and> files_inv k' t \<and> (\<forall>v. r = Inr v \<and> fd \<noteq> fd2 \<longrightarrow> v = OK \<and> get_file l (nat fd2) k' = get_file l (nat fd) k)"
    using dup2_result by blast
qed

subsection \<open>A run\<close>

text \<open>A task with a list of files opens \<open>/x\<close> and duplicates the descriptor; then the driver is unregistered.\<close>

definition ex_ops :: "addr \<Rightarrow> file_operations" where
  "ex_ops a = \<lparr>open_op = None, close_op = None, read_op = True, write_op = True\<rparr>"

definition ex_kl :: "fsys \<Rightarrow> addr" where
  "ex_kl k = (case filelist k 100 of None \<Rightarrow> 100 | Some _ \<Rightarrow> NULL)"

lemma ex_kl_fresh: "ex_kl k \<noteq> NULL \<Longrightarrow> filelist k (ex_kl k) = None"
  by (simp add: ex_kl_def split: option.splits)

definition ex_state :: "(addr \<rightharpoonup> inode) \<Rightarrow> addr \<Rightarrow> file_s list \<Rightarrow> fsys" where
  "ex_state h r fs = \<lparr>fsd = \<lparr>inode = h, root_inode = r, tree_sem = 1\<rparr>, filelist = [100 \<mapsto> \<lparr>fl_sem = 1, fl_crefs = 1, fl_files = fs\<rparr>]\<rparr>"

definition ex_node :: "int \<Rightarrow> nat \<Rightarrow> inode" where
  "ex_node c f = zero_inode\<lparr>i_name := ''x'', i_crefs := c, i_flags := f, i_ops := 7, i_private := 8\<rparr>"

definition ex_file :: file_s where
  "ex_file = \<lparr>f_oflags = 3, f_pos = 0, f_inode = 3\<rparr>"

lemma ex_call1: "do_call ex_ops ex_kz ex_kl Fs_alloclist fs_init = Some (ex_state Map.empty NULL (replicate 8 no_file))"
  by (simp add: fs_init_def ex_kl_def files_alloclist_def ex_state_def)

lemma ex_search: "inode_search ''/x'' \<lparr>inode = [3 \<mapsto> ex_node c f], root_inode = 3, tree_sem = v\<rparr> = Some (3, NULL, NULL, [], Some [])"
  by (simp add: inode_search_def search_loop.simps ex_node_def at_end_def)

lemma ex_call2: "do_call ex_ops ex_kz ex_kl (Fs_register ''/x'' 7 8) (ex_state Map.empty NULL (replicate 8 no_file)) = Some (ex_state [3 \<mapsto> ex_node 0 0] 3 (replicate 8 no_file))"
  by (simp add: ex_state_def register_driver_def inode_semtake_def inode_reserve_def inode_search_def search_loop.simps reserve_loop.simps inode_alloc_def ex_kz_def inode_insert_def upd_inode_def
    inode_semgive_def ex_node_def zero_inode_def Let_def del: replicate.simps)

lemma ex_open: "fs_open ex_ops 100 ''/x'' 3 (ex_state [3 \<mapsto> ex_node 0 0] 3 (replicate 8 no_file)) = Some (Inr 0, ex_state [3 \<mapsto> ex_node 1 0] 3 (ex_file # replicate 7 no_file))"
  apply (simp add: ex_state_def fs_open_def inode_find_def inode_semtake_def inode_semgive_def ex_search Let_def)
  apply (simp add: upd_inode_def ex_node_def zero_inode_def INODE_IS_DRIVER_def INODE_IS_MOUNTPT_def inode_checkflags_def ex_ops_def files_allocate_def files_semtake_def files_semgive_def upd_list_def
     first_free_def upt_rec no_file_def set_file_def call_open_def ex_file_def numeral_eq_Suc)
  done

lemma ex_call3: "do_call ex_ops ex_kz ex_kl (Fs_open 100 ''/x'' 3) (ex_state [3 \<mapsto> ex_node 0 0] 3 (replicate 8 no_file)) = Some (ex_state [3 \<mapsto> ex_node 1 0] 3 (ex_file # replicate 7 no_file))"
  using ex_open by simp

lemma ex_call4: "do_call ex_ops ex_kz ex_kl (Fs_dup 100 0) (ex_state [3 \<mapsto> ex_node 1 0] 3 (ex_file # replicate 7 no_file)) = Some (ex_state [3 \<mapsto> ex_node 2 0] 3 (ex_file # ex_file # replicate 6 no_file))"
  apply (simp add: ex_state_def dup_def file_dup_def DUP_ISOPEN_def get_file_def ex_file_def on_fs_def inode_addref_def inode_semtake_def inode_semgive_def)
  apply (simp add: upd_inode_def ex_node_def zero_inode_def files_allocate_def files_semtake_def files_semgive_def upd_list_def
     first_free_def upt_rec no_file_def set_file_def numeral_eq_Suc)
  done

lemma ex_call5: "do_call ex_ops ex_kz ex_kl (Fs_unregister ''/x'') (ex_state [3 \<mapsto> ex_node 2 0] 3 (ex_file # ex_file # replicate 6 no_file))
    = Some (ex_state [3 \<mapsto> ex_node 2 FSNODEFLAG_DELETED] NULL (ex_file # ex_file # replicate 6 no_file))"
  apply (simp add: ex_state_def unregister_driver_def inode_semtake_def inode_semgive_def inode_remove_def ex_search del: replicate.simps)
  apply (simp add: inode_unlink_def upd_inode_def ex_node_def zero_inode_def)
  done

lemmas ex_fresh = ex_kz_fresh ex_kl_fresh

lemma ex_run_registered: "fs_run ex_ops ex_kz ex_kl (ex_state [3 \<mapsto> ex_node 0 0] 3 (replicate 8 no_file))"
proof -
  have "fs_run ex_ops ex_kz ex_kl (ex_state Map.empty NULL (replicate 8 no_file))"
    by (rule fs_run_call [OF fs_run_init _ ex_call1]) (simp add: fs_init_def)
  then show ?thesis by (rule fs_run_call [OF _ _ ex_call2]) simp
qed

lemma ex_run: "fs_run ex_ops ex_kz ex_kl (ex_state [3 \<mapsto> ex_node 2 FSNODEFLAG_DELETED] NULL (ex_file # ex_file # replicate 6 no_file))"
proof -
  have "fs_run ex_ops ex_kz ex_kl (ex_state [3 \<mapsto> ex_node 1 0] 3 (ex_file # replicate 7 no_file))"
    by (rule fs_run_call [OF ex_run_registered _ ex_call3]) (simp add: ex_state_def)
  then have "fs_run ex_ops ex_kz ex_kl (ex_state [3 \<mapsto> ex_node 2 0] 3 (ex_file # ex_file # replicate 6 no_file))"
    by (rule fs_run_call [OF _ _ ex_call4]) (simp add: ex_state_def)
  then show ?thesis by (rule fs_run_call [OF _ _ ex_call5]) (simp add: leaf_path_def ex_state_def ex_search, simp add: ex_node_def zero_inode_def)
qed

theorem files_calls_safe_witness:
  "int (fd_refs (ex_state [3 \<mapsto> ex_node 2 FSNODEFLAG_DELETED] NULL (ex_file # ex_file # replicate 6 no_file)) 3) = 2
   \<and> do_call ex_ops ex_kz ex_kl (Fs_close 100 1) (ex_state [3 \<mapsto> ex_node 2 FSNODEFLAG_DELETED] NULL (ex_file # ex_file # replicate 6 no_file)) \<noteq> None"
proof -
  let ?k = "ex_state [3 \<mapsto> ex_node 2 FSNODEFLAG_DELETED] NULL (ex_file # ex_file # replicate 6 no_file)"
  have S: "(\<forall>x n. x \<noteq> NULL \<and> inode (fsd ?k) x = Some n \<longrightarrow> i_crefs n = int (fd_refs ?k x))
    \<and> (\<forall>l i f. get_file l i ?k = Some f \<and> f_inode f \<noteq> NULL \<longrightarrow> inode (fsd ?k) (f_inode f) \<noteq> None)
    \<and> (\<forall>c. call_allowed c ?k \<longrightarrow> do_call ex_ops ex_kz ex_kl c ?k \<noteq> None)"
    by (rule files_calls_safe [OF ex_run ex_fresh])
  have "inode (fsd ?k) 3 = Some (ex_node 2 FSNODEFLAG_DELETED)" "i_crefs (ex_node 2 FSNODEFLAG_DELETED) = 2" "call_allowed (Fs_close 100 1) ?k"
    by (simp_all add: ex_state_def) (simp add: ex_node_def)
  with S show ?thesis by (metis zero_neq_numeral)
qed

theorem open_close_roundtrip_witness:
  "\<exists>k1 r k2. fs_open ex_ops 100 ''/x'' 3 (ex_state [3 \<mapsto> ex_node 0 0] 3 (replicate 8 no_file)) = Some (Inr 0, k1)
   \<and> fs_close ex_ops 100 0 k1 = Some (r, k2) \<and> fsd k2 = fsd (ex_state [3 \<mapsto> ex_node 0 0] 3 (replicate 8 no_file))"
proof -
  let ?k = "ex_state [3 \<mapsto> ex_node 0 0] 3 (replicate 8 no_file)"
  obtain t where t: "files_inv ?k t" using fs_run_inv [OF ex_run_registered ex_fresh] by blast
  have l: "filelist ?k 100 = Some \<lparr>fl_sem = 1, fl_crefs = 1, fl_files = replicate 8 no_file\<rparr>" by (simp add: ex_state_def)
  show ?thesis using open_close_roundtrip [OF t l, of ex_ops "''/x''" 3] ex_open by auto
qed

end
