(* ===== verification/Clock.thy ===== *)
theory Clock
  imports Calendar Sched
begin

section \<open>The system clock\<close>

text \<open>
  The clock of \<open>sched/clock_*.c\<close> in the configuration without RTC and with a 32-bit tick counter. All variables are at their width: \<open>uint32\<close> and \<open>s32\<close> are the conversions to
  \<open>uint32_t\<close> and to a signed 32-bit integer, and \<open>time_t\<close> is unsigned. A tick is 10 milliseconds, the default of \<open>MSEC_PER_TICK\<close>. A call that fails returns the value of \<open>errno\<close>
  as \<^const>\<open>Inl\<close>.
\<close>

definition uint32 :: "int \<Rightarrow> int" where
  "uint32 x = x mod 2 ^ 32"

record timespec =
  tv_sec :: int
  tv_nsec :: int

record timeval =
  tval_sec :: int
  tval_usec :: int

record clock =
  g_system_timer :: int
  g_tickbias :: int
  g_basetime :: timespec

definition NSEC_PER_SEC :: int where [simp]: "NSEC_PER_SEC = 1000000000"
definition USEC_PER_SEC :: int where [simp]: "USEC_PER_SEC = 1000000"
definition MSEC_PER_SEC :: int where [simp]: "MSEC_PER_SEC = 1000"
definition NSEC_PER_MSEC :: int where [simp]: "NSEC_PER_MSEC = 1000000"
definition USEC_PER_MSEC :: int where [simp]: "USEC_PER_MSEC = 1000"
definition NSEC_PER_USEC :: int where [simp]: "NSEC_PER_USEC = 1000"
definition MSEC_PER_TICK :: int where [simp]: "MSEC_PER_TICK = 10"
definition TICK_PER_SEC :: int where [simp]: "TICK_PER_SEC = MSEC_PER_SEC sdiv MSEC_PER_TICK"
definition NSEC_PER_TICK :: int where [simp]: "NSEC_PER_TICK = MSEC_PER_TICK * NSEC_PER_MSEC"
definition USEC_PER_TICK :: int where [simp]: "USEC_PER_TICK = MSEC_PER_TICK * USEC_PER_MSEC"
definition CLOCK_REALTIME :: int where [simp]: "CLOCK_REALTIME = 0"

subsection \<open>The time of day\<close>

text \<open>The base time is set from the configured date, by the calendar of the configuration.\<close>

definition clock_inittime_gregorian :: "bool \<Rightarrow> int \<Rightarrow> int \<Rightarrow> int \<Rightarrow> timespec" where
  "clock_inittime_gregorian config_julian year month day =
     (let jdn = to_time_t (clock_calendar2utc config_julian year month day)
      in \<lparr>tv_sec = to_time_t (jdn * SEC_PER_DAY), tv_nsec = 0\<rparr>)"

definition clock_inittime :: "int \<Rightarrow> int \<Rightarrow> int \<Rightarrow> timespec option" where
  "clock_inittime year month day = do {
     jdn \<leftarrow> calendar2utc_simple year month day;
     Some \<lparr>tv_sec = to_time_t (jdn * SEC_PER_DAY), tv_nsec = 0\<rparr>
   }"

definition clock_initialize :: "timespec \<Rightarrow> clock" where
  "clock_initialize tp = \<lparr>g_system_timer = 0, g_tickbias = 0, g_basetime = tp\<rparr>"

definition clock_timer :: "clock \<Rightarrow> clock" where
  "clock_timer c = c\<lparr>g_system_timer := uint32 (g_system_timer c + 1)\<rparr>"

definition clock_systimer :: "clock \<Rightarrow> int" where
  "clock_systimer c = g_system_timer c"

definition clock_gettime :: "int \<Rightarrow> clock \<Rightarrow> int + timespec" where
  "clock_gettime clock_id c =
     (if clock_id = CLOCK_REALTIME
      then let msecs = uint32 (MSEC_PER_TICK * uint32 (g_system_timer c - g_tickbias c));
               secs = msecs div MSEC_PER_SEC;
               nsecs = uint32 ((msecs - secs * MSEC_PER_SEC) * NSEC_PER_MSEC);
               secs = uint32 (secs + uint32 (tv_sec (g_basetime c)));
               nsecs = uint32 (nsecs + uint32 (tv_nsec (g_basetime c)));
               (secs, nsecs) = (if nsecs > NSEC_PER_SEC
                                then let dwCarrySecs = nsecs div NSEC_PER_SEC
                                     in (uint32 (secs + dwCarrySecs), uint32 (nsecs - uint32 (dwCarrySecs * NSEC_PER_SEC)))
                                else (secs, nsecs))
           in Inr \<lparr>tv_sec = to_time_t secs, tv_nsec = s32 nsecs\<rparr>
      else Inl EINVAL)"

definition clock_settime :: "int \<Rightarrow> timespec \<Rightarrow> clock \<Rightarrow> int + clock" where
  "clock_settime clock_id tp c =
     (if clock_id = CLOCK_REALTIME then Inr (c\<lparr>g_basetime := tp, g_tickbias := g_system_timer c\<rparr>) else Inl EINVAL)"

definition clock_getres :: "int \<Rightarrow> int + timespec" where
  "clock_getres clock_id =
     (if clock_id \<noteq> CLOCK_REALTIME then Inl EINVAL
      else let time_res = uint32 (MSEC_PER_TICK * NSEC_PER_MSEC) in Inr \<lparr>tv_sec = 0, tv_nsec = s32 time_res\<rparr>)"

definition gettimeofday :: "clock \<Rightarrow> int + timeval" where
  "gettimeofday c =
     (case clock_gettime CLOCK_REALTIME c of
        Inl e \<Rightarrow> Inl e
      | Inr ts \<Rightarrow> Inr \<lparr>tval_sec = tv_sec ts, tval_usec = tv_nsec ts sdiv NSEC_PER_USEC\<rparr>)"

subsection \<open>Ticks\<close>

definition clock_time2ticks :: "timespec \<Rightarrow> int" where
  "clock_time2ticks reltime =
     (let relusec = s32 (uint32 (tv_sec reltime * USEC_PER_SEC) + tv_nsec reltime sdiv NSEC_PER_USEC)
      in relusec sdiv USEC_PER_TICK)"

definition clock_ticks2time :: "int \<Rightarrow> timespec" where
  "clock_ticks2time ticks =
     (let sec = to_time_t (ticks sdiv TICK_PER_SEC);
          remainder = s32 (uint32 (ticks - uint32 (TICK_PER_SEC * sec)))
      in \<lparr>tv_sec = sec, tv_nsec = s32 (remainder * NSEC_PER_TICK)\<rparr>)"

definition clock_abstime2ticks :: "int \<Rightarrow> timespec \<Rightarrow> clock \<Rightarrow> int + int" where
  "clock_abstime2ticks clockid abstime c =
     (case clock_gettime clockid c of
        Inl _ \<Rightarrow> Inl EINVAL
      | Inr currtime \<Rightarrow>
          let nsec = s32 (tv_nsec abstime - tv_nsec currtime);
              sec = to_time_t (tv_sec abstime - tv_sec currtime);
              (nsec, sec) = (if nsec < 0 then (s32 (nsec + NSEC_PER_SEC), to_time_t (sec - 1)) else (nsec, sec))
          in Inr (clock_time2ticks \<lparr>tv_sec = sec, tv_nsec = nsec\<rparr>))"

subsection \<open>Conversions of numbers in range\<close>

lemma uint32_id [simp]: "0 \<le> x \<Longrightarrow> x < 4294967296 \<Longrightarrow> uint32 x = x"
  by (simp add: uint32_def)

lemma to_time_t_fits [simp]: "0 \<le> x \<Longrightarrow> x < 4294967296 \<Longrightarrow> to_time_t x = x"
  by (simp add: to_time_t_def)

lemma s32_uint32 [simp]: "s32 (uint32 x) = s32 x"
  by (simp add: s32_def uint32_def mod_simps)

end
