(* ===== verification/Workq.thy ===== *)
theory Workq
  imports Clock
begin

section \<open>The work queue\<close>

text \<open>
  The deferred work of \<open>sched/work_*.c\<close>. A work structure is queued on the doubly linked list \<open>g_work\<close> with the time at which it was queued and its delay, in ticks. One turn of the loop of the worker thread
  is \<open>work_turn\<close>: it runs the work that is ready and computes the time to sleep. A worker function is called with interrupts enabled: it is an argument \<open>run\<close> of the model, which may queue and cancel work
  and let time pass. A call through a null pointer makes the result \<^const>\<open>None\<close>. The signal by which \<open>work_queue\<close> wakes the worker thread, the sleep itself and the garbage collection
  are left out.
\<close>

record work_s =
  worker :: addr
  arg :: addr
  qtime :: int
  delay :: int

record wqueue =
  work :: "addr \<Rightarrow> work_s"
  g_work :: queue
  work_links :: links
  systimer :: int

definition CONFIG_SCHED_WORKPERIOD :: int where [simp]: "CONFIG_SCHED_WORKPERIOD = 50 * 1000"

definition upd_work :: "addr \<Rightarrow> (work_s \<Rightarrow> work_s) \<Rightarrow> 'a wqueue_scheme \<Rightarrow> 'a wqueue_scheme" where
  "upd_work w f k = k\<lparr>work := (work k)(w := f (work k w))\<rparr>"

definition set_queue :: "qstate \<Rightarrow> 'a wqueue_scheme \<Rightarrow> 'a wqueue_scheme" where
  "set_queue q k = k\<lparr>g_work := fst q, work_links := snd q\<rparr>"

definition work_queue :: "addr \<Rightarrow> addr \<Rightarrow> addr \<Rightarrow> int \<Rightarrow> 'a wqueue_scheme \<Rightarrow> int \<times> 'a wqueue_scheme" where
  "work_queue w f a d k =
     (let k = upd_work w (\<lambda>x. x\<lparr>worker := f, arg := a, delay := d\<rparr>) k;
          k = upd_work w (qtime_update (\<lambda>_. systimer k)) k
      in (OK, set_queue (dq_addlast w (g_work k, work_links k)) k))"

definition work_cancel :: "addr \<Rightarrow> 'a wqueue_scheme \<Rightarrow> int \<times> 'a wqueue_scheme" where
  "work_cancel w k =
     (OK, if worker (work k w) \<noteq> NULL
          then upd_work w (worker_update (\<lambda>_. NULL)) (set_queue (dq_rem w (g_work k, work_links k)) k)
          else k)"

partial_function (option) work_loop ::
  "(addr \<Rightarrow> addr \<Rightarrow> 'a wqueue_scheme \<Rightarrow> 'a wqueue_scheme) \<Rightarrow> addr \<Rightarrow> int \<Rightarrow> 'a wqueue_scheme \<Rightarrow> (int \<times> 'a wqueue_scheme) option" where
  "work_loop run w nxt k =
     (if w = NULL then Some (nxt, k)
      else
        let elapsed = uint32 (systimer k - qtime (work k w))
        in if elapsed \<ge> delay (work k w)
           then let k = set_queue (dq_rem w (g_work k, work_links k)) k;
                    f = worker (work k w);
                    a = arg (work k w);
                    k = upd_work w (worker_update (\<lambda>_. NULL)) k
                in if f = NULL then None
                   else let k = run f a k in work_loop run (head (g_work k)) nxt k
           else let remaining = uint32 (elapsed - delay (work k w));
                    nxt = (if remaining < nxt then remaining else nxt)
                in work_loop run (flink (work_links k) w) nxt k)"

definition work_turn :: "(addr \<Rightarrow> addr \<Rightarrow> 'a wqueue_scheme \<Rightarrow> 'a wqueue_scheme) \<Rightarrow> 'a wqueue_scheme \<Rightarrow> (int \<times> 'a wqueue_scheme) option" where
  "work_turn run k = do {
     (nxt, k) \<leftarrow> work_loop run (head (g_work k)) (CONFIG_SCHED_WORKPERIOD div USEC_PER_TICK) k;
     Some (s32 (uint32 (nxt * USEC_PER_TICK)), k)
   }"

subsection \<open>The contract\<close>

text \<open>The pending work: the entries of the queue, each with a worker; all other work structures have none.\<close>

definition wq_ok :: "'a wqueue_scheme \<Rightarrow> addr list \<Rightarrow> bool" where
  "wq_ok k ws \<longleftrightarrow> dq_rep (g_work k) (work_links k) ws \<and> (\<forall>w. worker (work k w) \<noteq> NULL \<longleftrightarrow> w \<in> set ws)"

definition ready :: "'a wqueue_scheme \<Rightarrow> addr \<Rightarrow> bool" where
  "ready k w \<longleftrightarrow> delay (work k w) \<le> uint32 (systimer k - qtime (work k w))"

lemma upd_work_simps [simp]:
  "g_work (upd_work w f k) = g_work k" "work_links (upd_work w f k) = work_links k" "systimer (upd_work w f k) = systimer k"
  "work (upd_work w f k) = (work k)(w := f (work k w))" "wqueue.more (upd_work w f k) = wqueue.more k"
  by (simp_all add: upd_work_def)

lemma set_queue_simps [simp]:
  "g_work (set_queue q k) = fst q" "work_links (set_queue q k) = snd q" "systimer (set_queue q k) = systimer k" "work (set_queue q k) = work k"
  "wqueue.more (set_queue q k) = wqueue.more k"
  by (simp_all add: set_queue_def)

lemma work_queue_ok:
  assumes "wq_ok k ws" "w \<noteq> NULL" "w \<notin> set ws" "f \<noteq> NULL"
  shows "wq_ok (snd (work_queue w f a d k)) (ws @ [w])"
proof -
  obtain q m where q: "dq_addlast w (g_work k, work_links k) = (q, m)" by (metis surj_pair)
  have "dq_rep q m (ws @ [w])" using dq.rep_addlast [OF _ assms(2,3) q] assms(1) by (simp add: wq_ok_def)
  then show ?thesis using assms q by (simp add: wq_ok_def work_queue_def Let_def)
qed

text \<open>Taking an entry out, as \<open>work_cancel\<close> and the worker thread do.\<close>

definition take_out :: "addr \<Rightarrow> 'a wqueue_scheme \<Rightarrow> 'a wqueue_scheme" where
  "take_out w k = upd_work w (worker_update (\<lambda>_. NULL)) (set_queue (dq_rem w (g_work k, work_links k)) k)"

lemma take_out_ok:
  assumes "wq_ok k (xs @ w # ys)"
  shows "wq_ok (take_out w k) (xs @ ys)"
proof -
  obtain q m where q: "dq_rem w (g_work k, work_links k) = (q, m)" by (metis surj_pair)
  have r: "dq_rep (g_work k) (work_links k) (xs @ w # ys)" using assms by (simp add: wq_ok_def)
  have "w \<notin> set (xs @ ys)" using dq.rep_distinct [OF r] by simp
  then show ?thesis using dq.rep_rem [OF r q] assms q by (auto simp: wq_ok_def take_out_def)
qed

lemma work_cancel_ok: "wq_ok k ws \<Longrightarrow> wq_ok (snd (work_cancel w k)) (remove1 w ws)"
proof (cases "w \<in> set ws")
  case True
  assume ok: "wq_ok k ws"
  obtain xs ys where ws: "ws = xs @ w # ys" "w \<notin> set xs" using split_list_first [OF True] by blast
  then show ?thesis using take_out_ok [of k xs w ys] ok True by (simp add: work_cancel_def take_out_def wq_ok_def remove1_append)
next
  case False
  assume "wq_ok k ws"
  then show ?thesis using False by (simp add: work_cancel_def wq_ok_def remove1_idem)
qed

text \<open>One step of the loop.\<close>

lemma work_loop_step:
  assumes "wq_ok k (xs @ w # ys)"
  shows "work_loop run w nxt k =
    (if ready k w then let k' = run (worker (work k w)) (arg (work k w)) (take_out w k) in work_loop run (head (g_work k')) nxt k'
     else let rem = uint32 (uint32 (systimer k - qtime (work k w)) - delay (work k w))
          in work_loop run (hd (ys @ [NULL])) (if rem < nxt then rem else nxt) k)"
proof -
  have r: "dq_rep (g_work k) (work_links k) (xs @ w # ys)" and f: "worker (work k w) \<noteq> NULL" using assms by (simp_all add: wq_ok_def)
  have w: "w \<noteq> NULL" using dq.rep_distinct [OF r] by auto
  have l: "flink (work_links k) w = hd (ys @ [NULL])" using r by (simp add: dq_rep_def dpath_append)
  show ?thesis
    using w l f work_loop.simps [of run w nxt k] by (simp add: ready_def take_out_def Let_def)
qed

lemma work_loop_NULL: "work_loop run NULL nxt k = Some (nxt, k)"
  using work_loop.simps [of run NULL nxt k] by simp

lemma head_hd: "wq_ok k ws \<Longrightarrow> head (g_work k) = hd (ws @ [NULL])"
  by (simp add: wq_ok_def dq_rep_def)

end
