(* ===== verification/Clock_Props.thy ===== *)
theory Clock_Props
  imports Clock
begin

section \<open>Correctness of the system clock\<close>

text \<open>
  The clock runs exactly as long as the milliseconds since it was set fit in 32 bits, whatever the tick counter was then. The conversion of a time to ticks computes modulo 2 to the power of 32 microseconds and is right
  for differences of up to 2147 seconds in both directions.
\<close>

definition valid_time :: "timespec \<Rightarrow> bool" where
  "valid_time tp \<longleftrightarrow> 0 \<le> tv_sec tp \<and> tv_sec tp < 2 ^ 32 \<and> 0 \<le> tv_nsec tp \<and> tv_nsec tp < NSEC_PER_SEC"

text \<open>Nanoseconds since the epoch.\<close>

definition nsec_of :: "timespec \<Rightarrow> int" where
  "nsec_of tp = tv_sec tp * NSEC_PER_SEC + tv_nsec tp"

lemma timer_steps:
  "(clock_timer ^^ n) c = c\<lparr>g_system_timer := if n = 0 then g_system_timer c else uint32 (g_system_timer c + int n)\<rparr>"
proof (induction n)
  case (Suc n)
  then show ?case by (cases "n = 0") (auto simp: clock_timer_def uint32_def mod_simps add_ac)
qed simp

lemma elapsed_ticks:
  assumes "int n < 2 ^ 32" "0 \<le> g_system_timer c" "g_system_timer c < 2 ^ 32"
  shows "uint32 (g_system_timer ((clock_timer ^^ n) c) - g_system_timer c) = int n"
  using assms by (cases "n = 0") (auto simp: timer_steps uint32_def mod_simps)

lemma gettime_ok:
  assumes "uint32 (g_system_timer c - g_tickbias c) = n" "n * 10 < 2 ^ 32" "0 \<le> n" "valid_time (g_basetime c)"
    and "nsec_of (g_basetime c) + n * NSEC_PER_TICK < 2 ^ 32 * NSEC_PER_SEC"
  obtains tp where "clock_gettime CLOCK_REALTIME c = Inr tp" "nsec_of tp = nsec_of (g_basetime c) + n * NSEC_PER_TICK"
    "0 \<le> tv_sec tp" "tv_sec tp < 2 ^ 32" "0 \<le> tv_nsec tp" "tv_nsec tp \<le> NSEC_PER_SEC"
proof -
  define m where "m = 10 * n"
  obtain s f where m: "m = s * 1000 + f" "s = m div 1000" "0 \<le> f" "f < 1000"
    by (rule that [of "m div 1000" "m mod 1000"]) auto
  obtain bs bn where b: "tv_sec (g_basetime c) = bs" "tv_nsec (g_basetime c) = bn" "0 \<le> bs" "bs < 4294967296" "0 \<le> bn" "bn < 1000000000"
    using assms(4) by (auto simp: valid_time_def)
  have m0: "0 \<le> m" "m < 4294967296" using assms(2,3) by (simp_all add: m_def)
  have s: "0 \<le> s" "s < 4294968" using m m0 by linarith+
  have tot: "(bs + s) * 1000000000 + (bn + f * 1000000) < 4294967296000000000" "n * 10000000 = s * 1000000000 + f * 1000000"
    using assms(5) b m(1) by (auto simp: nsec_of_def m_def)
  have bss: "bs + s < 4294967296"
  proof (rule ccontr)
    assume "\<not> bs + s < 4294967296"
    then have "4294967296 * 1000000000 \<le> (bs + s) * 1000000000" by (intro mult_right_mono) simp_all
    then show False using tot(1) b(5) m(3) by simp
  qed
  have ns: "0 \<le> f * 1000000 + bn" "f * 1000000 + bn < 2000000000" using m b by linarith+
  have ms: "uint32 (MSEC_PER_TICK * uint32 (g_system_timer c - g_tickbias c)) = m" using assms(1) m0 by (simp add: m_def)
  have sm: "m div MSEC_PER_SEC = s" "m - s * MSEC_PER_SEC = f" using m by simp_all
  have fm: "uint32 (f * 1000000) = f * 1000000" using m by simp
  show ?thesis
  proof (cases "f * 1000000 + bn > 1000000000")
    case True
    then have d: "(f * 1000000 + bn) div 1000000000 = 1"
      by (intro int_div_pos_eq [where r = "f * 1000000 + bn - 1000000000"]) (use ns(2) in simp_all)
    have c: "bs + s + 1 < 4294967296"
    proof (rule ccontr)
      assume "\<not> bs + s + 1 < 4294967296"
      then have "4294967296 * 1000000000 \<le> (bs + s + 1) * 1000000000" by (intro mult_right_mono) simp_all
      then show False using tot(1) True by simp
    qed
    let ?tp = "\<lparr>tv_sec = bs + s + 1, tv_nsec = f * 1000000 + bn - 1000000000\<rparr>"
    have "clock_gettime CLOCK_REALTIME c = Inr ?tp"
      unfolding clock_gettime_def ms Let_def sm using True d c b s ns fm bss by (simp add: add.commute)
    then show ?thesis by (rule that) (use tot(2) b s ns True c in \<open>simp_all add: nsec_of_def\<close>)
  next
    case False
    let ?tp = "\<lparr>tv_sec = bs + s, tv_nsec = f * 1000000 + bn\<rparr>"
    have "clock_gettime CLOCK_REALTIME c = Inr ?tp"
      unfolding clock_gettime_def ms Let_def sm using False b s ns fm bss by (simp add: add.commute)
    then show ?thesis by (rule that) (use tot(2) b s ns False bss in \<open>simp_all add: nsec_of_def\<close>)
  qed
qed


text \<open>
  C30: The clock is exact. \<open>n\<close> ticks after \<open>clock_settime\<close>, \<open>clock_gettime\<close> returns the time that was set plus \<open>n\<close> times 10 milliseconds, even if the tick counter wraps in between, as long as
  the milliseconds since then and the seconds since the epoch fit in 32 bits.
\<close>

theorem clock_exact:
  assumes "valid_time tp" "0 \<le> g_system_timer c" "g_system_timer c < 2 ^ 32" "int n * MSEC_PER_TICK < 2 ^ 32"
    and "nsec_of tp + int n * NSEC_PER_TICK < 2 ^ 32 * NSEC_PER_SEC"
  shows "\<exists>c' tp'. clock_settime CLOCK_REALTIME tp c = Inr c' \<and> clock_gettime CLOCK_REALTIME ((clock_timer ^^ n) c') = Inr tp'
    \<and> nsec_of tp' = nsec_of tp + int n * NSEC_PER_TICK \<and> 0 \<le> tv_nsec tp' \<and> tv_nsec tp' \<le> NSEC_PER_SEC"
proof -
  let ?c = "c\<lparr>g_basetime := tp, g_tickbias := g_system_timer c\<rparr>"
  let ?d = "(clock_timer ^^ n) ?c"
  have d: "g_tickbias ?d = g_system_timer c" "g_basetime ?d = tp" by (simp_all add: timer_steps)
  have e: "uint32 (g_system_timer ?d - g_tickbias ?d) = int n" using elapsed_ticks [of n ?c] assms(2-4) d(1) by simp
  show ?thesis
    by (rule gettime_ok [OF e]) (use assms d in \<open>auto simp: clock_settime_def\<close>)
qed

text \<open>
  The number of milliseconds wraps: after 429496730 ticks, 49.7 days, the clock falls back to the time at which it was set.
\<close>

theorem clock_wraps:
  "clock_gettime CLOCK_REALTIME ((clock_timer ^^ 429496729) (clock_initialize \<lparr>tv_sec = 0, tv_nsec = 0\<rparr>)) = Inr \<lparr>tv_sec = 4294967, tv_nsec = 290000000\<rparr>
   \<and> clock_gettime CLOCK_REALTIME ((clock_timer ^^ 429496730) (clock_initialize \<lparr>tv_sec = 0, tv_nsec = 0\<rparr>)) = Inr \<lparr>tv_sec = 0, tv_nsec = 4000000\<rparr>"
  unfolding timer_steps by (simp add: clock_initialize_def clock_gettime_def uint32_def s32_def to_time_t_def)

subsection \<open>Ticks\<close>

lemma sdiv_pos_eq: "0 \<le> x \<Longrightarrow> 0 < k \<Longrightarrow> x sdiv k = x div (k :: int)"
  by (cases "x = 0") (simp_all add: signed_divide_int_def)

lemma s32_bounds: "- 2147483648 \<le> s32 x" "s32 x < 2147483648"
  by (simp_all add: s32_def)

lemma s32_time_t: "s32 (uint32 (to_time_t x * k) + y) = s32 (x * k + y)"
  by (simp add: s32_def uint32_def to_time_t_def mod_simps add.assoc)

lemma time2ticks_diff:
  assumes "0 \<le> nsec" "nsec < 1000000000" "\<bar>sec * 1000000000 + nsec\<bar> < 2147000000000"
  shows "clock_time2ticks \<lparr>tv_sec = to_time_t sec, tv_nsec = nsec\<rparr> = ((sec * 1000000000 + nsec) div 1000) sdiv 10000"
proof -
  let ?d = "sec * 1000000000 + nsec"
  have d: "?d div 1000 = sec * 1000000 + nsec div 1000" by simp
  have "- 2147000000 \<le> ?d div 1000" "?d div 1000 < 2147483648" using assms(3) by linarith+
  then have "s32 (sec * 1000000 + nsec div 1000) = ?d div 1000" unfolding d by simp
  then show ?thesis using assms(1) by (simp add: clock_time2ticks_def s32_time_t sdiv_pos_eq)
qed

text \<open>
  Absolute timeouts. While the clock runs, \<open>clock_abstime2ticks\<close> returns the number of whole ticks from now to the given time, negative for a time in the past, if the two are less than 2147 seconds
  apart; a part of a tick is dropped.
\<close>

theorem abstime_ticks_exact:
  assumes "valid_time tp" "0 \<le> g_system_timer c" "g_system_timer c < 2 ^ 32" "int n * MSEC_PER_TICK < 2 ^ 32"
    and "nsec_of tp + int n * NSEC_PER_TICK < 2 ^ 32 * NSEC_PER_SEC" "valid_time abstime"
    and "d = nsec_of abstime - (nsec_of tp + int n * NSEC_PER_TICK)" "\<bar>d\<bar> < 2147 * NSEC_PER_SEC"
  shows "\<exists>c'. clock_settime CLOCK_REALTIME tp c = Inr c' \<and>
    clock_abstime2ticks CLOCK_REALTIME abstime ((clock_timer ^^ n) c') = Inr ((d div NSEC_PER_USEC) sdiv USEC_PER_TICK)"
proof -
  let ?c = "c\<lparr>g_basetime := tp, g_tickbias := g_system_timer c\<rparr>"
  let ?e = "(clock_timer ^^ n) ?c"
  have e: "uint32 (g_system_timer ?e - g_tickbias ?e) = int n" "g_basetime ?e = tp"
    using elapsed_ticks [of n ?c] assms(2-4) by (simp_all add: timer_steps)
  obtain now where now: "clock_gettime CLOCK_REALTIME ?e = Inr now" "nsec_of now = nsec_of tp + int n * NSEC_PER_TICK"
    "0 \<le> tv_sec now" "tv_sec now < 2 ^ 32" "0 \<le> tv_nsec now" "tv_nsec now \<le> NSEC_PER_SEC"
    by (rule gettime_ok [OF e(1)]) (use assms e in auto)
  let ?s = "tv_sec abstime - tv_sec now" and ?f = "tv_nsec abstime - tv_nsec now"
  have d: "d = ?s * 1000000000 + ?f" using assms(7) now(2) by (simp add: nsec_of_def)
  have f: "- 1000000000 \<le> ?f" "?f < 1000000000" using assms(6) now(5,6) by (simp_all add: valid_time_def)
  have "clock_abstime2ticks CLOCK_REALTIME abstime ?e = Inr ((d div 1000) sdiv 10000)"
  proof (cases "?f < 0")
    case True
    have t: "to_time_t (to_time_t ?s - 1) = to_time_t (?s - 1)" by (simp add: to_time_t_def mod_simps)
    have d': "d = (?s - 1) * 1000000000 + (?f + 1000000000)" unfolding d by (simp add: left_diff_distrib)
    have "clock_time2ticks \<lparr>tv_sec = to_time_t (?s - 1), tv_nsec = ?f + 1000000000\<rparr> = (d div 1000) sdiv 10000"
      unfolding d' by (rule time2ticks_diff) (use True f assms(8) d' in simp_all)
    then show ?thesis using now(1) True f t by (simp add: clock_abstime2ticks_def)
  next
    case False
    have "clock_time2ticks \<lparr>tv_sec = to_time_t ?s, tv_nsec = ?f\<rparr> = (d div 1000) sdiv 10000"
      using time2ticks_diff [of ?f ?s] False f d assms(8) by simp
    then show ?thesis using now(1) False f by (simp add: clock_abstime2ticks_def)
  qed
  then show ?thesis by (simp add: clock_settime_def)
qed

lemma ticks2time_nsec:
  assumes "0 \<le> t" "t \<le> 214748"
  shows "nsec_of (clock_ticks2time t) = t * NSEC_PER_TICK" "valid_time (clock_ticks2time t)"
proof -
  have k: "TICK_PER_SEC = 100" by (simp add: signed_divide_int_def)
  define q r where "q = t div 100" and "r = t mod 100"
  have q: "t = q * 100 + r" "0 \<le> r" "r < 100" "0 \<le> q" "q \<le> 2147" using assms by (auto simp: q_def r_def)
  have "clock_ticks2time t = \<lparr>tv_sec = q, tv_nsec = r * 10000000\<rparr>"
    unfolding clock_ticks2time_def k using assms q by (simp add: sdiv_pos_eq flip: q_def)
  then show "nsec_of (clock_ticks2time t) = t * NSEC_PER_TICK" "valid_time (clock_ticks2time t)"
    using q by (simp_all add: nsec_of_def valid_time_def)
qed

lemma time2ticks_wrapped:
  assumes "valid_time rt"
  shows "clock_time2ticks rt = s32 (nsec_of rt div NSEC_PER_USEC) sdiv USEC_PER_TICK"
proof -
  have "nsec_of rt div 1000 = tv_sec rt * 1000000 + tv_nsec rt div 1000" by (simp add: nsec_of_def)
  moreover have "s32 (uint32 (tv_sec rt * 1000000) + y) = s32 (tv_sec rt * 1000000 + y)" for y
    by (simp add: s32_def uint32_def mod_simps add.assoc)
  ultimately show ?thesis using assms by (simp add: clock_time2ticks_def valid_time_def sdiv_pos_eq)
qed

lemma time2ticks_in_range:
  assumes "valid_time rt" "nsec_of rt < 2 ^ 31 * NSEC_PER_USEC"
  shows "clock_time2ticks rt = nsec_of rt div NSEC_PER_TICK" "0 \<le> clock_time2ticks rt" "clock_time2ticks rt \<le> 214748"
proof -
  have n: "0 \<le> nsec_of rt" using assms(1) by (simp add: valid_time_def nsec_of_def)
  have "nsec_of rt div 1000 < 2147483648" using assms(2) by (simp add: div_less_iff_less_mult)
  then have "s32 (nsec_of rt div 1000) = nsec_of rt div 1000" using n by (intro s32_id) (simp_all add: pos_imp_zdiv_nonneg_iff order_trans [of _ 0])
  then have "clock_time2ticks rt = (nsec_of rt div 1000) div 10000"
    using n by (simp add: time2ticks_wrapped [OF assms(1)] sdiv_pos_eq pos_imp_zdiv_nonneg_iff)
  also have "\<dots> = nsec_of rt div 10000000" by (simp add: zdiv_zmult2_eq [symmetric])
  finally show e: "clock_time2ticks rt = nsec_of rt div NSEC_PER_TICK" by simp
  show "0 \<le> clock_time2ticks rt" "clock_time2ticks rt \<le> 214748" unfolding e using n assms(2) by simp_all
qed

lemma time2ticks_bounds: "\<bar>clock_time2ticks rt\<bar> \<le> 214748"
proof -
  define u where "u = s32 (uint32 (tv_sec rt * USEC_PER_SEC) + tv_nsec rt sdiv NSEC_PER_USEC)"
  have u: "- 2147483648 \<le> u" "u < 2147483648" by (simp_all add: u_def s32_bounds)
  have c: "clock_time2ticks rt = u sdiv 10000" by (simp add: clock_time2ticks_def u_def Let_def)
  have "\<bar>u\<bar> div 10000 \<le> 214748" using u zdiv_mono1 [of "\<bar>u\<bar>" 2147483648 10000] by simp
  then show ?thesis unfolding c by (auto simp: signed_divide_int_def sgn_if)
qed

lemma time2ticks_out_of_range:
  assumes "valid_time rt" "2 ^ 31 * NSEC_PER_USEC \<le> nsec_of rt"
  shows "clock_time2ticks rt < nsec_of rt div NSEC_PER_TICK"
proof (cases "nsec_of rt div NSEC_PER_TICK > 214748")
  case True
  then show ?thesis using time2ticks_bounds [of rt] by linarith
next
  case False
  then have "nsec_of rt < 214749 * 10000000" by simp
  then have r: "2147483648 \<le> nsec_of rt div 1000" "nsec_of rt div 1000 < 2147490000" using assms(2) by simp_all
  then have "(nsec_of rt div 1000 + 2147483648) mod 4294967296 = nsec_of rt div 1000 + 2147483648 - 4294967296"
    using int_mod_pos_eq [of "nsec_of rt div 1000 + 2147483648" 4294967296 1 "nsec_of rt div 1000 - 2147483648"] by simp
  then have "s32 (nsec_of rt div 1000) < 0" using r by (simp add: s32_def)
  then have "clock_time2ticks rt \<le> 0" by (simp add: time2ticks_wrapped [OF assms(1)] signed_divide_int_def pos_imp_zdiv_nonneg_iff)
  moreover have "0 < nsec_of rt div 10000000" using assms(2) by (simp add: pos_imp_zdiv_pos_iff)
  ultimately show ?thesis by simp
qed

text \<open>
  C31: Ticks and times. For a time with valid nanoseconds, \<open>clock_time2ticks\<close> returns the number of whole ticks in it exactly if its microseconds fit in a signed 32-bit integer, that is, for less than
  2 to the power of 31 microseconds, about 35 minutes and 47 seconds; for every longer time the result is too small. Where it is right, \<open>clock_ticks2time\<close> leads back to the time, rounded down to a
  tick; and for up to 214748 ticks \<open>clock_time2ticks\<close> inverts \<open>clock_ticks2time\<close>.
\<close>

theorem time2ticks_exact:
  assumes "valid_time rt" "0 \<le> t" "t \<le> 214748"
  shows "(if nsec_of rt < 2 ^ 31 * NSEC_PER_USEC
      then clock_time2ticks rt = nsec_of rt div NSEC_PER_TICK \<and>
        nsec_of (clock_ticks2time (clock_time2ticks rt)) = nsec_of rt - nsec_of rt mod NSEC_PER_TICK
      else clock_time2ticks rt < nsec_of rt div NSEC_PER_TICK)
    \<and> clock_time2ticks (clock_ticks2time t) = t"
proof (rule conjI)
  show "if nsec_of rt < 2 ^ 31 * NSEC_PER_USEC
      then clock_time2ticks rt = nsec_of rt div NSEC_PER_TICK \<and>
        nsec_of (clock_ticks2time (clock_time2ticks rt)) = nsec_of rt - nsec_of rt mod NSEC_PER_TICK
      else clock_time2ticks rt < nsec_of rt div NSEC_PER_TICK"
  proof (cases "nsec_of rt < 2 ^ 31 * NSEC_PER_USEC")
    case True
    note r = time2ticks_in_range [OF assms(1) True]
    have "nsec_of (clock_ticks2time (clock_time2ticks rt)) = nsec_of rt div NSEC_PER_TICK * NSEC_PER_TICK"
      using ticks2time_nsec(1) [OF r(2,3)] r(1) by simp
    then show ?thesis using True r(1) by (simp add: minus_mod_eq_div_mult)
  next
    case False
    then show ?thesis using time2ticks_out_of_range [OF assms(1)] by simp
  qed
  show "clock_time2ticks (clock_ticks2time t) = t"
    using time2ticks_in_range(1) [OF ticks2time_nsec(2) [OF assms(2,3)]] ticks2time_nsec(1) [OF assms(2,3)] assms(3) by simp
qed


subsection \<open>Witnesses\<close>

definition ex_clock :: clock where
  "ex_clock = \<lparr>g_system_timer = 4294967290, g_tickbias = 0, g_basetime = \<lparr>tv_sec = 0, tv_nsec = 0\<rparr>\<rparr>"

theorem clock_exact_witness:
  "\<exists>c' tp'. clock_settime CLOCK_REALTIME \<lparr>tv_sec = 1000, tv_nsec = 0\<rparr> ex_clock = Inr c' \<and> clock_gettime CLOCK_REALTIME ((clock_timer ^^ 250) c') = Inr tp' \<and> nsec_of tp' = 1002500000000"
  using clock_exact [of "\<lparr>tv_sec = 1000, tv_nsec = 0\<rparr>" ex_clock 250] by (auto simp: valid_time_def nsec_of_def ex_clock_def simp del: funpow.simps)

theorem abstime_ticks_exact_witness:
  "\<exists>c'. clock_settime CLOCK_REALTIME \<lparr>tv_sec = 1000, tv_nsec = 0\<rparr> ex_clock = Inr c' \<and>
    clock_abstime2ticks CLOCK_REALTIME \<lparr>tv_sec = 1003, tv_nsec = 5000000\<rparr> ((clock_timer ^^ 250) c') = Inr 50"
proof -
  have "(505000 :: int) sdiv 10000 = 50" by (simp add: signed_divide_int_def)
  then show ?thesis
    using abstime_ticks_exact [of "\<lparr>tv_sec = 1000, tv_nsec = 0\<rparr>" ex_clock 250 "\<lparr>tv_sec = 1003, tv_nsec = 5000000\<rparr>" 505000000]
    by (simp add: valid_time_def nsec_of_def ex_clock_def)
qed

theorem time2ticks_exact_witness:
  "clock_time2ticks \<lparr>tv_sec = 12, tv_nsec = 345678901\<rparr> = 1234 \<and> clock_time2ticks \<lparr>tv_sec = 5000, tv_nsec = 0\<rparr> < 500000
   \<and> clock_time2ticks (clock_ticks2time 214748) = 214748"
  using time2ticks_exact [of "\<lparr>tv_sec = 12, tv_nsec = 345678901\<rparr>" 214748] time2ticks_exact [of "\<lparr>tv_sec = 5000, tv_nsec = 0\<rparr>" 0]
  by (simp add: valid_time_def nsec_of_def)

end
