(* ===== verification/Spec2Isabelle.thy ===== *)
theory Spec2Isabelle
  imports Mm_Props Mq_Props Wdog_Props Env_Props Mutex_Props Calendar_Props Crc_Props Qsort_Props Files_Props Workq_Props Clock_Props
begin

text \<open>
  A verification of the kernel of the NuttX real-time operating system (\<open>src/nuttx\<close>).

  \<^bold>\<open>The program.\<close> NuttX is a kernel in C for microcontrollers without memory protection. \<open>os_start\<close> (\<open>sched/os_start.c\<close>) sets up the idle task, the memory manager, the file system and the drivers. From then on
  tasks and interrupt handlers call the kernel: the scheduler (\<open>sched/sched_*.c\<close> and the context switch of the processor port) runs the ready task of the highest priority; semaphores, message queues, mutexes, condition
  variables and barriers block a task on a list of waiting tasks and wake it; watchdog timers call back after a number of clock ticks; the work queue runs deferred work in a thread; the inode tree
  (\<open>fs/fs_inode*.c\<close>) names devices, and lists of open files (\<open>fs/fs_files.c\<close>) refer to its inodes. All kernel lists are the intrusive queues of \<open>lib/queue\<close>, and all memory comes from the heap of \<open>mm\<close>.

  \<^bold>\<open>Theories and sources.\<close> Each component has a theory with its definitions, one or more with its invariant and the effect of every operation, and a theory whose name ends in \<open>_Props\<close> with its properties
  and their witnesses.

  \<^item> \<open>Prelude\<close>: addresses (\<open>NULL\<close> is 0), 32-bit arithmetic, doubly linked paths (\<open>dpath\<close>).
  \<^item> \<open>Queue\<close> (\<open>lib/queue/*.c\<close>, \<open>include/queue.h\<close>): a queue is its two ends, the links are a memory shared by all queues; one definition per \<open>sq_\<close> and \<open>dq_\<close> function. \<open>sq_rep\<close> and \<open>dq_rep\<close> tie a queue to the list of its
    entries; the lemmas show each operation as an operation on lists that touches no other queue.
  \<^item> \<open>Mm\<close> (\<open>mm/*.c\<close>): the heap byte by byte where the code depends on it, with chunk headers, free lists and several regions. \<open>Mm_Freelist\<close> and \<open>Mm_Chunks\<close> have the invariant, \<open>Mm_Malloc\<close>, \<open>Mm_Free\<close>, \<open>Mm_Realloc\<close>, \<open>Mm_Memalign\<close>
    and \<open>Mm_Init\<close> the operations, \<open>Mm_Used\<close> the allocated blocks, \<open>Mm_Client\<close> the contract with the callers.
  \<^item> \<open>Tasklist\<close> (\<open>sched_addprioritized.c\<close>, \<open>sched_mergepending.c\<close>): the pointer code of the task lists refines the insertion in a sorted list.
  \<^item> \<open>Sched\<close>, \<open>Sched_Inv\<close>, \<open>Sched_Ops\<close> (\<open>sched_*.c\<close>, \<open>arch/arm/src/armv7-m/up_*task.c\<close>): the lists of \<open>g_tasklisttable\<close> as lists of TCB addresses, justified by \<open>Tasklist\<close>, and the operations that block, wake, lock and
    change priorities. \<open>sched_ok\<close> says that every task is on exactly the list of its state and that the running task is the head of the ready-to-run list.
  \<^item> \<open>Task\<close>, \<open>Task_Ops\<close> (\<open>task_*.c\<close>, \<open>sched_gettcb.c\<close>, \<open>up_exit.c\<close>, \<open>os_start.c\<close>): the pid table, creation, deletion, exit and restart.
  \<^item> \<open>Kernel\<close>: the state machine of all these operations (\<open>reachable\<close>, an inductive predicate) and its invariant; \<open>Calm\<close> has the operations that keep the blocked tasks.
  \<^item> \<open>Waiting\<close>: what semaphores and message queues share. \<open>Sem\<close>, \<open>Sem_Ops\<close> (\<open>sem_*.c\<close>), \<open>Mq\<close>, \<open>Mq_Ops\<close>, \<open>Mq_Open\<close> (\<open>mq_*.c\<close>), \<open>Pthread\<close>, \<open>Pthread_Ops\<close>, \<open>Mutex\<close> (\<open>pthread_mutex*.c\<close>, \<open>pthread_cond*.c\<close>,
    \<open>pthread_barrier*.c\<close>). The state of each layer is a record that extends the one below, so that the scheduler is the same in all of them. A call that blocks returns with the caller on its waiting list; what the task does when it runs again is a
    definition of its own (\<open>sem_wait_resume\<close>, \<open>mq_send_resume\<close>, \<open>pthread_mutex_lock_resume\<close>).
  \<^item> \<open>Wdog\<close> (\<open>wd_*.c\<close>): the list of differences between expiration times; \<open>Wdog_Props\<close> shows that it refines a map from watchdogs to remaining ticks.
  \<^item> \<open>Clock\<close> (\<open>clock_*.c\<close>): the tick counter, the time of day and the conversions to ticks, at 32 bits. \<open>Workq\<close> (\<open>work_*.c\<close>): the work queue on \<open>Queue\<close> and \<open>Clock\<close>.
  \<^item> \<open>Cstring\<close>, \<open>Env\<close>, \<open>Env_Ops\<close> (\<open>lib/string\<close>, \<open>env_*.c\<close>): environment blocks byte by byte; they refine a map from names to values.
  \<^item> \<open>Inode\<close> (\<open>fs_inode*.c\<close>, \<open>fs_register*driver.c\<close>, \<open>fs_unregister*driver.c\<close>): the inodes in memory. \<open>Inode_Ops\<close> represents them by a tree of names and defines the node of a path; \<open>Inode_Search\<close>, \<open>Inode_Update\<close> and \<open>Inode_Remove\<close>
    show how the search ends at a slot and how writing the slot changes the paths.
  \<^item> \<open>Files\<close> (\<open>fs_files.c\<close>, \<open>fs_open.c\<close>, \<open>fs_close.c\<close>, \<open>fs_dup.c\<close>, \<open>fs_filedup.c\<close>, \<open>fs_filedup2.c\<close>): the lists of open files on top of the inodes. \<open>Files_Ops\<close> has the invariant that ties the
    reference counts to the descriptors, \<open>Files_Calls\<close>, \<open>Files_Open\<close> and \<open>Files_Lists\<close> show that the calls keep it, and \<open>Files_Props\<close> that they do in every order (\<open>fs_run\<close>, an inductive predicate).
  \<^item> \<open>Calendar\<close>, \<open>Calendar_Ops\<close>, \<open>Calendar_Greg\<close> (\<open>lib/time\<close>), \<open>Crc\<close> (\<open>lib/misc/lib_crc32.c\<close>), \<open>Qsort\<close> (\<open>lib/stdlib/lib_qsort.c\<close>): library functions against their mathematical definitions.

  \<^bold>\<open>Interfaces.\<close> The locales state what one component relies on in another, and are interpreted on the definitions of the model: \<open>link_fifo\<close> and \<open>link_deque\<close> (queues, in \<open>Queue\<close>; the work queue uses the facts of \<open>dq\<close>),
  \<open>block_allocator\<close> (the heap, in \<open>Mm_Client\<close>), \<open>wait_queues\<close> (waiting lists of the scheduler, in \<open>Kernel\<close>), \<open>wait_objects\<close> (objects tasks wait for, in \<open>Waiting\<close>, for semaphores and both sides of message queues),
  \<open>timer_service\<close> (watchdogs, in \<open>Wdog_Props\<close>), \<open>command_store\<close> (a store driven by commands, in \<open>Env_Ops\<close>).

  \<^bold>\<open>Errors, assertions and loops.\<close> A failed assertion (\<open>ASSERT\<close>, \<open>PANIC\<close>) and an access to memory that is not allocated make the result \<^const>\<open>None\<close>; error codes are results. A loop over pointers or with callbacks is a
  \<open>partial_function\<close>, where a loop that never ends is \<^const>\<open>None\<close> as well, and the theorems state the result as \<^const>\<open>Some\<close>: that the calls return is part of them. There is no fuel. Loops with a
  measure (\<open>qsort\<close>, the calendar, \<open>inode_reserve\<close>, \<open>pthread_cond_broadcast\<close>) are proved to end where they are defined.

  \<^bold>\<open>What is shown.\<close> Scheduler: in every reachable state the processor runs a ready task of the highest priority, no assertion fails, tasks of equal priority take turns, unlocking releases the pending tasks. Semaphores: counts are neither forged nor
  lost, waiters are served by priority. Message queues: messages arrive once and in order; queues live as long as their descriptors. Mutexes exclude, condition variables and barriers release whom they should.
  Watchdogs fire at their tick. Heap: blocks are apart, sized and aligned as asked for, contents survive \<open>realloc\<close>. Environment and inode tree refine maps from names and paths; reference counts decide when memory is freed, and those of the inodes
  are the numbers of open descriptors whatever the calls on files and drivers. Clock and calendar
  are exact within bounds that the theorems state; the CRC equals the serial one; \<open>qsort\<close> sorts.

  \<^bold>\<open>Choices.\<close> One processor; interrupts run between the operations, each of which is atomic as the code makes it by disabling interrupts or preemption. Configuration: priority inheritance, signals, RTC, the 64-bit tick counter and the kernel build are
  off, chunk sizes have 32 bits, a tick is 10 milliseconds. Counters are kept at their width (\<open>s16\<close>, \<open>u32\<close>, \<open>uint32\<close>, \<open>s32\<close>) where they can wrap; the watchdogs and the pids have theirs written out.

  \<^bold>\<open>Not modelled.\<close> Signals and what rests on them (\<open>sig_*.c\<close>, \<open>mq_notify\<close>, \<open>pthread_cond_timedwait\<close>, \<open>sleep\<close>, POSIX timers), named semaphores and priority inheritance, thread creation and join, paging; stacks, registers and
  task start code, which are assembler or hardware; the file systems and the remaining calls on files, the network stack, graphics, the drivers and the other processor ports; the remaining C library. \<open>PROJECT.json\<close> lists each with
  its reason.
\<close>

end
